(* ===== verification/Prelude.thy ===== *)
theory Prelude
  imports Main "HOL-Library.Word" "HOL-Library.Monad_Syntax"
begin

section \<open>Shared vocabulary of the PUnix development\<close>

text \<open>
  What every component uses: C objects as lists with checked accesses, NUL-terminated strings,
  C integers, kernel faults, and the lemma collections the component proofs draw on.

  Conventions.
  \<^item> A C object (an array, a character buffer) is a list of its cells. \<open>rd b i\<close> and
    \<open>wr b i x\<close> are \<open>None\<close> outside the object: a routine that returns \<open>None\<close> has
    left its object (undefined behaviour), so \<open>f \<dots> = Some r\<close> says that the routine stays
    inside its objects, returns, and returns \<open>r\<close>.
  \<^item> A read-only \<open>const char *\<close> is the list of the bytes from it to the end of its object:
    \<open>*s\<close> is the head, \<open>s++\<close> the tail, and reading at the end of the object is \<open>None\<close>.
  \<^item> A C \<open>int\<close> is an \<open>int\<close> whose arithmetic goes through \<open>chk_int\<close>, which is
    \<open>None\<close> on signed overflow (undefined behaviour); an unsigned type is a word and wraps.
  \<^item> Kernel operations return \<open>fault + 'a\<close>: \<open>Inl\<close> a panic, a bad access or a loop
    that does not return, \<open>Inr\<close> the normal result.
\<close>

unbundle bit_operations_syntax

named_theorems buf_simps \<open>checked buffer accesses\<close>
named_theorems res_simps \<open>the fault monad\<close>
named_theorems unat_simps \<open>reading words as natural numbers\<close>

type_synonym u8 = "8 word"
type_synonym u16 = "16 word"
type_synonym u32 = "32 word"
type_synonym u64 = "64 word"

subsection \<open>Checked objects\<close>

definition rd :: "'a list \<Rightarrow> nat \<Rightarrow> 'a option" where
  "rd b i = (if i < length b then Some (b ! i) else None)"

definition wr :: "'a list \<Rightarrow> nat \<Rightarrow> 'a \<Rightarrow> 'a list option" where
  "wr b i x = (if i < length b then Some (b[i := x]) else None)"

lemma rd_in [buf_simps]: "i < length b \<Longrightarrow> rd b i = Some (b ! i)"
  by (simp add: rd_def)

lemma rd_out [buf_simps]: "length b \<le> i \<Longrightarrow> rd b i = None"
  by (simp add: rd_def)

lemma rd_eq_Some: "rd b i = Some x \<longleftrightarrow> i < length b \<and> b ! i = x"
  by (simp add: rd_def)

lemma wr_in [buf_simps]: "i < length b \<Longrightarrow> wr b i x = Some (b[i := x])"
  by (simp add: wr_def)

lemma wr_out [buf_simps]: "length b \<le> i \<Longrightarrow> wr b i x = None"
  by (simp add: wr_def)

lemma wr_eq_Some: "wr b i x = Some b' \<longleftrightarrow> i < length b \<and> b' = b[i := x]"
  by (auto simp: wr_def)

lemma wr_length: "wr b i x = Some b' \<Longrightarrow> length b' = length b"
  by (auto simp: wr_eq_Some)

text \<open>Overwriting a stretch of an object, the reference for the copying routines.\<close>

definition patch :: "'a list \<Rightarrow> nat \<Rightarrow> 'a list \<Rightarrow> 'a list" where
  "patch b i xs = take i b @ xs @ drop (i + length xs) b"

lemma patch_Nil [simp]: "patch b i [] = b"
  by (simp add: patch_def)

lemma length_patch [simp]: "i + length xs \<le> length b \<Longrightarrow> length (patch b i xs) = length b"
  by (simp add: patch_def)

lemma patch_Cons: "i < length b \<Longrightarrow> patch b i (x # xs) = patch (b[i := x]) (Suc i) xs"
  by (simp add: patch_def take_Suc_conv_app_nth upd_conv_take_nth_drop add.commute)

lemma patch_snoc:
  assumes "i + length xs < length b"
  shows "(patch b i xs)[i + length xs := x] = patch b i (xs @ [x])"
proof -
  from assms have "drop (i + length xs) b = b ! (i + length xs) # drop (Suc (i + length xs)) b"
    by (simp add: Cons_nth_drop_Suc)
  with assms show ?thesis
    by (simp add: patch_def list_update_append)
qed

lemma nth_patch:
  assumes "i + length xs \<le> length b" "j < length b"
  shows "patch b i xs ! j =
    (if i \<le> j \<and> j < i + length xs then xs ! (j - i) else b ! j)"
  using assms by (auto simp: patch_def nth_append)

subsection \<open>Characters and NUL-terminated strings\<close>

abbreviation NUL :: char where
  "NUL \<equiv> CHR 0x00"

definition code :: "char \<Rightarrow> nat" where
  "code c = of_char c"

definition chr :: "nat \<Rightarrow> char" where
  "chr n = char_of n"

lemma code_chr [simp]: "code (chr n) = n mod 256"
  by (simp add: code_def chr_def)

lemma chr_code [simp]: "chr (code c) = c"
  by (simp add: code_def chr_def)

lemma code_less [simp]: "code c < 256"
  by (simp add: code_def)

lemma code_inject [simp]: "code c = code d \<longleftrightarrow> c = d"
  by (simp add: code_def)

lemma code_NUL [simp]: "code NUL = 0"
  by (simp add: code_def)

lemma code_eq_0 [simp]: "code c = 0 \<longleftrightarrow> c = NUL"
  using code_inject [of c NUL] by simp

lemma code_pos [simp]: "0 < code c \<longleftrightarrow> c \<noteq> NUL"
  by (metis code_eq_0 neq0_conv)

text \<open>\<open>*s >= '0' && *s <= '9'\<close>: bytes of 128 and more are negative as a C \<open>char\<close> and fail the test too.\<close>

definition is_digit :: "char \<Rightarrow> bool" where
  "is_digit c \<longleftrightarrow> 48 \<le> code c \<and> code c \<le> 57"

definition digit_char :: "nat \<Rightarrow> char" where
  "digit_char d = chr (48 + d)"

lemma is_digit_digit_char [simp]: "d < 10 \<Longrightarrow> is_digit (digit_char d)"
  by (simp add: is_digit_def digit_char_def)

lemma code_digit_char [simp]: "d < 10 \<Longrightarrow> code (digit_char d) = 48 + d"
  by (simp add: digit_char_def)

lemma digit_char_not_NUL [simp]: "d < 10 \<Longrightarrow> digit_char d \<noteq> NUL"
  using code_digit_char [of d] by (metis code_NUL add_is_0 zero_neq_numeral)

lemma not_digit_NUL [simp]: "\<not> is_digit NUL"
  by (simp add: is_digit_def)

text \<open>The string an object holds from a pointer on, and objects that hold one.\<close>

definition cstr :: "char list \<Rightarrow> string" where
  "cstr b = takeWhile (\<lambda>c. c \<noteq> NUL) b"

definition terminated :: "char list \<Rightarrow> bool" where
  "terminated b \<longleftrightarrow> NUL \<in> set b"

definition no_nul :: "string \<Rightarrow> bool" where
  "no_nul x \<longleftrightarrow> NUL \<notin> set x"

definition c_string :: "string \<Rightarrow> char list" where
  "c_string x = x @ [NUL]"

lemma cstr_Nil [simp]: "cstr [] = []"
  by (simp add: cstr_def)

lemma cstr_Cons [simp]: "cstr (c # b) = (if c = NUL then [] else c # cstr b)"
  by (simp add: cstr_def)

lemma no_nul_simps [simp]:
  "no_nul []" "no_nul (c # x) \<longleftrightarrow> c \<noteq> NUL \<and> no_nul x" "no_nul (x @ y) \<longleftrightarrow> no_nul x \<and> no_nul y"
  by (auto simp: no_nul_def)

lemma no_nul_cstr [simp]: "no_nul (cstr b)"
  by (induction b) simp_all

lemma no_nul_take: "no_nul x \<Longrightarrow> no_nul (take n x)"
  by (auto simp: no_nul_def dest: in_set_takeD)

lemma cstr_append_NUL [simp]: "no_nul x \<Longrightarrow> cstr (x @ NUL # r) = x"
  by (induction x) auto

lemma cstr_c_string [simp]: "no_nul x \<Longrightarrow> cstr (c_string x) = x"
  by (simp add: c_string_def)

lemma terminated_c_string [simp]: "terminated (c_string x)"
  by (simp add: terminated_def c_string_def)

lemma terminated_simps [simp]:
  "\<not> terminated []" "terminated (c # b) \<longleftrightarrow> c = NUL \<or> terminated b"
  by (auto simp: terminated_def)

lemma terminated_append_NUL [simp]: "terminated (x @ NUL # r)"
  by (simp add: terminated_def)

lemma terminatedE:
  assumes "terminated b"
  obtains r where "b = cstr b @ NUL # r"
  using assms
proof (induction b arbitrary: thesis)
  case (Cons c b)
  show ?case
  proof (cases "c = NUL")
    case True
    with Cons.prems(1) show ?thesis by simp
  next
    case False
    with Cons.prems(2) obtain r where "b = cstr b @ NUL # r"
      using Cons.IH by auto
    with False Cons.prems(1) show ?thesis by simp
  qed
qed simp

lemma length_cstr_less: "terminated b \<Longrightarrow> length (cstr b) < length b"
  by (induction b) auto

lemma length_cstr_le: "length (cstr b) \<le> length b"
  by (simp add: cstr_def length_takeWhile_le)

subsection \<open>C integers\<close>

definition INT_MAX :: int where "INT_MAX = 2147483647"
definition INT_MIN :: int where "INT_MIN = - 2147483648"

definition chk_int :: "int \<Rightarrow> int option" where
  "chk_int x = (if INT_MIN \<le> x \<and> x \<le> INT_MAX then Some x else None)"

lemma chk_int_in [buf_simps]: "INT_MIN \<le> x \<Longrightarrow> x \<le> INT_MAX \<Longrightarrow> chk_int x = Some x"
  by (simp add: chk_int_def)

text \<open>Masking with a power of two less one is the remainder.\<close>

lemma unat_and_mask [unat_simps]:
  fixes x :: "'a::len word"
  assumes "m = mask n"
  shows "unat (x AND m) = unat x mod 2 ^ n"
proof -
  have "x AND m = take_bit n x"
    by (simp add: assms take_bit_eq_mask)
  then have "unat (x AND m) = take_bit n (unat x)"
    by (simp only: unsigned_take_bit_eq)
  then show ?thesis
    by (simp only: take_bit_eq_mod)
qed

lemma word_mask_numerals:
  "(15::'a::len word) = mask 4" "(63::'a word) = mask 6" "(255::'a word) = mask 8"
  "(1023::'a word) = mask 10" "(4095::'a word) = mask 12"
  by (simp_all add: mask_eq_exp_minus_1)

lemmas unat_and_15 [unat_simps] = unat_and_mask [OF word_mask_numerals(1), simplified]
  and unat_and_63 [unat_simps] = unat_and_mask [OF word_mask_numerals(2), simplified]
  and unat_and_255 [unat_simps] = unat_and_mask [OF word_mask_numerals(3), simplified]
  and unat_and_1023 [unat_simps] = unat_and_mask [OF word_mask_numerals(4), simplified]
  and unat_and_4095 [unat_simps] = unat_and_mask [OF word_mask_numerals(5), simplified]

lemma unat_shift [unat_simps]: "unat (drop_bit k w) = unat w div 2 ^ k"
  by (rule trans [OF unat_drop_bit_eq drop_bit_eq_div])

lemma unat_plus [unat_simps]:
  fixes a b :: "'a::len word"
  shows "unat a + unat b < 2 ^ LENGTH('a) \<Longrightarrow> unat (a + b) = unat a + unat b"
  by (simp add: unat_add_lem [THEN iffD1])

lemma unat_minus [unat_simps]:
  fixes a b :: "'a::len word"
  shows "unat b \<le> unat a \<Longrightarrow> unat (a - b) = unat a - unat b"
  by (simp add: unat_sub word_le_nat_alt)

lemma unat_times [unat_simps]:
  fixes a b :: "'a::len word"
  shows "unat a * unat b < 2 ^ LENGTH('a) \<Longrightarrow> unat (a * b) = unat a * unat b"
  by (simp add: unat_mult_lem [THEN iffD1])

lemma unat_lt_2_32 [simp]: "unat (x::u32) < 4294967296"
  using unsigned_less [of x] by simp

lemma unat_lt_2_64 [simp]: "unat (x::u64) < 18446744073709551616"
  using unsigned_less [of x] by simp

lemma sint_unat: "unat (w::u32) < 2147483648 \<Longrightarrow> sint w = int (unat w)"
proof -
  assume w: "unat w < 2147483648"
  have "- (2 ^ 31) \<le> int n \<and> int n < 2 ^ 31" if "n < 2147483648" for n
    using that by simp
  with w have "signed_take_bit 31 (int (unat w)) = int (unat w)"
    by (blast intro: signed_take_bit_int_eq_self)
  moreover have "sint w = signed_take_bit 31 (uint w)" by (simp add: sint_uint)
  ultimately show ?thesis by (simp only: uint_nat)
qed

subsection \<open>Faults\<close>

text \<open>
  \<open>Panic\<close>: the kernel printed the message and halted. \<open>BadAccess\<close>: a null pointer was
  followed or an object left. \<open>Diverge\<close>: a loop over a linked structure did not end.
\<close>

datatype fault = Panic string | BadAccess | Diverge

type_synonym 'a res = "fault + 'a"

definition bindR :: "'a res \<Rightarrow> ('a \<Rightarrow> 'b res) \<Rightarrow> 'b res" where
  "bindR m f = (case m of Inl e \<Rightarrow> Inl e | Inr x \<Rightarrow> f x)"

definition of_opt :: "'a option \<Rightarrow> 'a res" where
  "of_opt m = (case m of None \<Rightarrow> Inl BadAccess | Some x \<Rightarrow> Inr x)"

definition to_opt :: "'a res \<Rightarrow> 'a option" where
  "to_opt m = (case m of Inl _ \<Rightarrow> None | Inr x \<Rightarrow> Some x)"

definition okR :: "'a res \<Rightarrow> bool" where
  "okR m \<longleftrightarrow> (\<exists>x. m = Inr x)"

lemma bindR_simps [simp, res_simps]:
  "bindR (Inr x) f = f x" "bindR (Inl e) f = Inl e"
  by (simp_all add: bindR_def)

lemma of_opt_simps [simp, res_simps]:
  "of_opt (Some x) = Inr x" "of_opt None = Inl BadAccess"
  by (simp_all add: of_opt_def)

lemma okR_simps [simp, res_simps]: "okR (Inr x)" "\<not> okR (Inl e)"
  by (simp_all add: okR_def)

lemma bindR_eq_Inr: "bindR m f = Inr y \<longleftrightarrow> (\<exists>x. m = Inr x \<and> f x = Inr y)"
  by (cases m) simp_all

lemma of_opt_eq_Inr [simp]: "of_opt m = Inr x \<longleftrightarrow> m = Some x"
  by (cases m) simp_all

lemma bindR_split: "P (bindR m f) \<longleftrightarrow> (\<forall>e. m = Inl e \<longrightarrow> P (Inl e)) \<and> (\<forall>x. m = Inr x \<longrightarrow> P (f x))"
  by (cases m) simp_all

end
