(* ===== verification/Kstring.thy ===== *)
theory Kstring
  imports Prelude
begin

section \<open>kernel/core/kutils.c: memory blocks and strings\<close>

text \<open>
  The \<open>k_mem*\<close> and \<open>k_str*\<close> routines of kutils.c, each loop as the recursion it is, with every
  access checked. A routine that takes \<open>const char *\<close> takes the bytes from the pointer on; one
  that writes takes its object and an offset. \<open>k_memcpy\<close> occurs twice: between two objects,
  and inside one object (\<open>k_memcpy_in\<close>), where source and destination may overlap.
  The lemmas say what each computes, exactly when it stays inside its objects, and that it always
  terminates (the functions are total; \<open>None\<close> is only ever an access outside an object).
\<close>

subsection \<open>Blocks\<close>

fun memcpy_loop :: "'a list \<Rightarrow> nat \<Rightarrow> 'a list \<Rightarrow> nat \<Rightarrow> nat \<Rightarrow> 'a list option" where
  "memcpy_loop dst d src s 0 = Some dst"
| "memcpy_loop dst d src s (Suc n) = do {
     x \<leftarrow> rd src s;
     dst' \<leftarrow> wr dst d x;
     memcpy_loop dst' (Suc d) src (Suc s) n }"

definition k_memcpy :: "'a list \<Rightarrow> nat \<Rightarrow> 'a list \<Rightarrow> nat \<Rightarrow> nat \<Rightarrow> 'a list option" where
  "k_memcpy dst d src s n = memcpy_loop dst d src s n"

fun memcpy_in_loop :: "'a list \<Rightarrow> nat \<Rightarrow> nat \<Rightarrow> nat \<Rightarrow> 'a list option" where
  "memcpy_in_loop mem d s 0 = Some mem"
| "memcpy_in_loop mem d s (Suc n) = do {
     x \<leftarrow> rd mem s;
     mem' \<leftarrow> wr mem d x;
     memcpy_in_loop mem' (Suc d) (Suc s) n }"

definition k_memcpy_in :: "'a list \<Rightarrow> nat \<Rightarrow> nat \<Rightarrow> nat \<Rightarrow> 'a list option" where
  "k_memcpy_in mem d s n = memcpy_in_loop mem d s n"

fun memmove_back :: "'a list \<Rightarrow> nat \<Rightarrow> nat \<Rightarrow> nat \<Rightarrow> 'a list option" where
  "memmove_back mem d s 0 = Some mem"
| "memmove_back mem d s (Suc n) = do {
     x \<leftarrow> rd mem (s + n);
     mem' \<leftarrow> wr mem (d + n) x;
     memmove_back mem' d s n }"

definition k_memmove :: "'a list \<Rightarrow> nat \<Rightarrow> nat \<Rightarrow> nat \<Rightarrow> 'a list option" where
  "k_memmove mem d s n =
     (if d < s then memcpy_in_loop mem d s n else memmove_back mem d s n)"

fun memset_loop :: "'a list \<Rightarrow> nat \<Rightarrow> 'a \<Rightarrow> nat \<Rightarrow> 'a list option" where
  "memset_loop dst d v 0 = Some dst"
| "memset_loop dst d v (Suc n) = do {
     dst' \<leftarrow> wr dst d v;
     memset_loop dst' (Suc d) v n }"

definition k_memset :: "char list \<Rightarrow> nat \<Rightarrow> int \<Rightarrow> nat \<Rightarrow> char list option" where
  "k_memset dst d value n = memset_loop dst d (chr (nat (value mod 256))) n"

lemma memcpy_loop_ok:
  "d + n \<le> length dst \<Longrightarrow> s + n \<le> length src \<Longrightarrow>
   memcpy_loop dst d src s n = Some (patch dst d (take n (drop s src)))"
proof (induction n arbitrary: dst d s)
  case (Suc n)
  then have "drop s src = src ! s # drop (Suc s) src"
    by (simp add: Cons_nth_drop_Suc)
  with Suc show ?case by (simp add: buf_simps patch_Cons)
qed simp

lemma k_memcpy_ok:
  "d + n \<le> length dst \<Longrightarrow> s + n \<le> length src \<Longrightarrow>
   k_memcpy dst d src s n = Some (patch dst d (take n (drop s src)))"
  by (simp add: k_memcpy_def memcpy_loop_ok)

lemma memcpy_loop_Some_bounds:
  "memcpy_loop dst d src s n = Some dst' \<Longrightarrow> n = 0 \<or> d + n \<le> length dst \<and> s + n \<le> length src"
proof (induction n arbitrary: dst d s)
  case (Suc n)
  then obtain x dst1 where "rd src s = Some x" "wr dst d x = Some dst1"
    "memcpy_loop dst1 (Suc d) src (Suc s) n = Some dst'"
    by (auto split: bind_splits)
  with Suc.IH [of dst1 "Suc d" "Suc s"] show ?case
    by (auto simp: rd_eq_Some wr_eq_Some)
qed simp

text \<open>Inside one object a forward copy is right when it does not overtake its source.\<close>

lemma memcpy_in_loop_ok:
  "d + n \<le> length mem \<Longrightarrow> s + n \<le> length mem \<Longrightarrow> d \<le> s \<or> s + n \<le> d \<Longrightarrow>
   memcpy_in_loop mem d s n = Some (patch mem d (take n (drop s mem)))"
proof (induction n arbitrary: mem d s)
  case (Suc n)
  let ?mem = "mem[d := mem ! s]"
  have "Suc d \<le> Suc s \<or> Suc s + n \<le> Suc d"
    using Suc.prems(3) by auto
  moreover have "take n (drop (Suc s) ?mem) = take n (drop (Suc s) mem)"
    using Suc.prems(3)
  proof
    assume "d \<le> s"
    then show ?thesis by (simp add: drop_update_cancel)
  next
    assume "s + Suc n \<le> d"
    then show ?thesis by (simp add: drop_update_swap)
  qed
  moreover have "drop s mem = mem ! s # drop (Suc s) mem"
    using Suc.prems(2) by (simp add: Cons_nth_drop_Suc)
  ultimately show ?case
    using Suc by (simp add: buf_simps patch_Cons)
qed simp

lemma memmove_back_ok:
  "d + n \<le> length mem \<Longrightarrow> s + n \<le> length mem \<Longrightarrow> s \<le> d \<Longrightarrow>
   memmove_back mem d s n = Some (patch mem d (take n (drop s mem)))"
proof (induction n arbitrary: mem)
  case (Suc n)
  let ?mem = "mem[d + n := mem ! (s + n)]"
  have "memmove_back mem d s (Suc n) = memmove_back ?mem d s n"
    using Suc.prems by (simp add: buf_simps)
  also have "\<dots> = Some (patch ?mem d (take n (drop s ?mem)))"
    using Suc.prems by (intro Suc.IH) auto
  also have "take n (drop s ?mem) = take n (drop s mem)"
    using Suc.prems by (simp add: drop_update_swap)
  also have "patch ?mem d (take n (drop s mem)) = patch mem d (take (Suc n) (drop s mem))"
  proof (rule nth_equalityI)
    fix i assume "i < length (patch ?mem d (take n (drop s mem)))"
    then have i: "i < length mem" using Suc.prems by simp
    show "patch ?mem d (take n (drop s mem)) ! i = patch mem d (take (Suc n) (drop s mem)) ! i"
    proof (cases "i < d")
      case True
      with i Suc.prems show ?thesis by (simp add: nth_patch)
    next
      case False
      then obtain k where k: "i = d + k" using le_Suc_ex [of d i] by auto
      have "k < n \<or> k = n \<or> n < k" by arith
      with i k Suc.prems show ?thesis by (elim disjE) (simp_all add: nth_patch)
    qed
  qed (use Suc.prems in simp)
  finally show ?case .
qed simp

lemma k_memmove_ok:
  "d + n \<le> length mem \<Longrightarrow> s + n \<le> length mem \<Longrightarrow>
   k_memmove mem d s n = Some (patch mem d (take n (drop s mem)))"
  by (simp add: k_memmove_def memcpy_in_loop_ok memmove_back_ok)

lemma memset_loop_ok:
  "d + n \<le> length dst \<Longrightarrow> memset_loop dst d v n = Some (patch dst d (replicate n v))"
  by (induction n arbitrary: dst d) (simp_all add: buf_simps patch_Cons)

lemma k_memset_ok:
  "d + n \<le> length dst \<Longrightarrow>
   k_memset dst d v n = Some (patch dst d (replicate n (chr (nat (v mod 256)))))"
  by (simp add: k_memset_def memset_loop_ok)

subsection \<open>Comparing strings\<close>

fun k_strcmp :: "char list \<Rightarrow> char list \<Rightarrow> int option" where
  "k_strcmp (a # as) (b # bs) =
     (if a \<noteq> NUL \<and> a = b then k_strcmp as bs
      else Some (int (code a) - int (code b)))"
| "k_strcmp _ _ = None"

fun k_strncmp :: "char list \<Rightarrow> char list \<Rightarrow> nat \<Rightarrow> int option" where
  "k_strncmp s1 s2 0 = Some 0"
| "k_strncmp (c1 # s1) (c2 # s2) (Suc n) =
     (if c1 \<noteq> c2 \<or> c1 = NUL \<or> c2 = NUL then Some (int (code c1) - int (code c2))
      else k_strncmp s1 s2 n)"
| "k_strncmp _ _ (Suc n) = None"

lemma k_strcmp_total:
  "terminated a \<Longrightarrow> terminated b \<Longrightarrow> \<exists>r. k_strcmp a b = Some r"
  by (induction a b rule: k_strcmp.induct) auto

lemma k_strcmp_eq_0:
  "terminated a \<Longrightarrow> terminated b \<Longrightarrow> k_strcmp a b = Some 0 \<longleftrightarrow> cstr a = cstr b"
  by (induction a b rule: k_strcmp.induct) auto

lemma k_strcmp_neg:
  "terminated a \<Longrightarrow> terminated b \<Longrightarrow> k_strcmp a b = Some r \<Longrightarrow>
   r < 0 \<longleftrightarrow> (map code (cstr a), map code (cstr b)) \<in> lexord {(x, y). x < y}"
proof (induction a b rule: k_strcmp.induct)
  case (1 a as b bs)
  then show ?case
    by (cases "b = NUL") (auto split: if_splits)
qed auto

lemma k_strncmp_eq_0:
  "terminated a \<Longrightarrow> terminated b \<Longrightarrow>
   k_strncmp a b n = Some 0 \<longleftrightarrow> take n (cstr a) = take n (cstr b)"
  by (induction a b n rule: k_strncmp.induct) auto

lemma k_strncmp_total:
  "terminated a \<Longrightarrow> terminated b \<Longrightarrow> \<exists>r. k_strncmp a b n = Some r"
  by (induction a b n rule: k_strncmp.induct) auto

subsection \<open>Searching\<close>

text \<open>The result of a search is a pointer: \<open>None\<close> is \<open>NULL\<close>, \<open>Some p\<close> the bytes from it on.\<close>

fun strchr_loop :: "char list \<Rightarrow> char \<Rightarrow> char list option option" where
  "strchr_loop [] ch = None"
| "strchr_loop (x # s) ch =
     (if x \<noteq> NUL then (if x = ch then Some (Some (x # s)) else strchr_loop s ch)
      else Some (if ch = NUL then Some (x # s) else None))"

definition k_strchr :: "char list option \<Rightarrow> char \<Rightarrow> char list option option" where
  "k_strchr s ch = (case s of None \<Rightarrow> Some None | Some p \<Rightarrow> strchr_loop p ch)"

fun strrchr_loop :: "char list \<Rightarrow> char \<Rightarrow> char list option \<Rightarrow> char list option option" where
  "strrchr_loop [] ch lst = None"
| "strrchr_loop (x # s) ch lst =
     (if x \<noteq> NUL then strrchr_loop s ch (if x = ch then Some (x # s) else lst)
      else Some lst)"

definition k_strrchr :: "char list \<Rightarrow> char \<Rightarrow> char list option option" where
  "k_strrchr s ch = strrchr_loop s ch None"

fun k_strlen :: "char list \<Rightarrow> nat option" where
  "k_strlen [] = None"
| "k_strlen (c # s) = (if c \<noteq> NUL then map_option Suc (k_strlen s) else Some 0)"

text \<open>The inner loop of \<open>k_strstr\<close>: where it leaves \<open>h\<close> and \<open>n\<close>.\<close>

fun strstr_match :: "char list \<Rightarrow> char list \<Rightarrow> bool option" where
  "strstr_match (h # hs) (n # ns) =
     (if h \<noteq> NUL \<and> n \<noteq> NUL \<and> h = n then strstr_match hs ns else Some (n = NUL))"
| "strstr_match _ _ = None"

fun strstr_loop :: "char list \<Rightarrow> char list \<Rightarrow> char list option option" where
  "strstr_loop [] needle = None"
| "strstr_loop (h # hs) needle =
     (if h = NUL then Some None
      else do {
        found \<leftarrow> strstr_match (h # hs) needle;
        if found then Some (Some (h # hs)) else strstr_loop hs needle })"

definition k_strstr :: "char list option \<Rightarrow> char list option \<Rightarrow> char list option option" where
  "k_strstr haystack needle =
     (case (haystack, needle) of
        (Some h, Some n) \<Rightarrow> do {
          n0 \<leftarrow> rd n 0;
          if n0 = NUL then Some (Some h) else strstr_loop h n }
      | _ \<Rightarrow> Some None)"

lemma k_strlen_eq: "terminated s \<Longrightarrow> k_strlen s = Some (length (cstr s))"
  by (induction s) auto

lemma k_strlen_None: "\<not> terminated s \<Longrightarrow> k_strlen s = None"
  by (induction s) auto

lemma strchr_loop_Some:
  "strchr_loop s ch = Some (Some p) \<Longrightarrow> ch \<noteq> NUL \<Longrightarrow>
   \<exists>pre. s = pre @ p \<and> ch \<notin> set pre \<and> no_nul pre \<and> p \<noteq> [] \<and> hd p = ch"
proof (induction s)
  case (Cons x s)
  show ?case
  proof (cases "x = ch")
    case True
    with Cons.prems show ?thesis by (intro exI [of _ "[]"]) auto
  next
    case False
    with Cons.prems have "x \<noteq> NUL" "strchr_loop s ch = Some (Some p)"
      by (auto split: if_splits)
    with Cons.IH Cons.prems(2) obtain pre where
      "s = pre @ p" "ch \<notin> set pre" "no_nul pre" "p \<noteq> []" "hd p = ch" by blast
    with False \<open>x \<noteq> NUL\<close> show ?thesis by (intro exI [of _ "x # pre"]) simp
  qed
qed simp

lemma strchr_loop_NULL:
  "terminated s \<Longrightarrow> strchr_loop s ch = Some None \<longleftrightarrow> ch \<noteq> NUL \<and> ch \<notin> set (cstr s)"
  by (induction s) auto

lemma strchr_loop_total: "terminated s \<Longrightarrow> \<exists>r. strchr_loop s ch = Some r"
  by (induction s) auto

lemma strrchr_loop_eq:
  "terminated s \<Longrightarrow> strrchr_loop s ch lst =
   (if ch \<noteq> NUL \<and> ch \<in> set (cstr s)
    then Some (Some (drop (length (cstr s) - Suc (length (takeWhile (\<lambda>c. c \<noteq> ch) (rev (cstr s))))) s))
    else Some lst)"
proof (induction s arbitrary: lst)
  case (Cons x s)
  show ?case
  proof (cases "x = NUL")
    case False
    let ?t = "takeWhile (\<lambda>c. c \<noteq> ch) (rev (cstr s))"
    have le: "ch \<in> set (cstr s) \<Longrightarrow> length ?t < length (cstr s)"
    proof -
      assume "ch \<in> set (cstr s)"
      then have "?t \<noteq> rev (cstr s)" by (metis set_rev set_takeWhileD)
      then have "length ?t \<noteq> length (rev (cstr s))" by (metis takeWhile_eq_take take_all_iff order_refl)
      with length_takeWhile_le [of "\<lambda>c. c \<noteq> ch" "rev (cstr s)"] show ?thesis by simp
    qed
    have tw: "ch \<notin> set (cstr s) \<Longrightarrow> ?t = rev (cstr s)"
      by (auto simp: takeWhile_eq_all_conv)
    from Cons False show ?thesis
      by (auto simp: takeWhile_append tw Suc_diff_le le drop_Cons' dest: le)
  qed simp
qed simp

lemma strstr_match_prefix:
  "terminated h \<Longrightarrow> terminated n \<Longrightarrow>
   strstr_match h n = Some (take (length (cstr n)) (cstr h) = cstr n)"
  by (induction h n rule: strstr_match.induct) auto

lemma strstr_loop_eq:
  assumes "terminated h" "terminated n" "cstr n \<noteq> []"
  shows "strstr_loop h n = Some None \<longleftrightarrow> \<not> (\<exists>u v. cstr h = u @ cstr n @ v)"
  using assms(1)
proof (induction h)
  case (Cons x h)
  show ?case
  proof (cases "x = NUL")
    case True
    with assms(3) show ?thesis by simp
  next
    case False
    let ?m = "take (length (cstr n)) (cstr (x # h)) = cstr n"
    have m: "?m \<longleftrightarrow> (\<exists>v. cstr (x # h) = cstr n @ v)"
      by (metis append_eq_conv_conj)
    have "(\<exists>u v. cstr (x # h) = u @ cstr n @ v) \<longleftrightarrow> ?m \<or> (\<exists>u v. cstr h = u @ cstr n @ v)"
      (is "?L \<longleftrightarrow> _")
    proof
      assume ?L
      then obtain u v where "cstr (x # h) = u @ cstr n @ v" by blast
      with False m show "?m \<or> (\<exists>u v. cstr h = u @ cstr n @ v)"
        by (cases u) auto
    next
      assume "?m \<or> (\<exists>u v. cstr h = u @ cstr n @ v)"
      with False m show ?L
        by (metis append_Cons append_Nil cstr_Cons)
    qed
    with False Cons assms(2) show ?thesis
      by (auto simp: strstr_match_prefix split: if_splits simp del: cstr_Cons)
  qed
qed simp

subsection \<open>Copying\<close>

fun strcpy_loop :: "char list \<Rightarrow> nat \<Rightarrow> char list \<Rightarrow> char list option" where
  "strcpy_loop dst d [] = None"
| "strcpy_loop dst d (c # src) = do {
     dst' \<leftarrow> wr dst d c;
     if c \<noteq> NUL then strcpy_loop dst' (Suc d) src else Some dst' }"

definition k_strcpy :: "char list \<Rightarrow> char list \<Rightarrow> char list option" where
  "k_strcpy dest src = strcpy_loop dest 0 src"

definition k_strcat :: "char list \<Rightarrow> char list \<Rightarrow> char list option" where
  "k_strcat dest src = do { d \<leftarrow> k_strlen dest; strcpy_loop dest d src }"

text \<open>The copying loop of \<open>k_strncpy\<close> up to the terminator or the count, then the padding.\<close>

fun strncpy_loop :: "char list \<Rightarrow> nat \<Rightarrow> char list \<Rightarrow> nat \<Rightarrow> char list option" where
  "strncpy_loop dst d src 0 = Some dst"
| "strncpy_loop dst d [] (Suc n) = None"
| "strncpy_loop dst d (c # src) (Suc n) =
     (if c \<noteq> NUL then do { dst' \<leftarrow> wr dst d c; strncpy_loop dst' (Suc d) src n }
      else memset_loop dst d NUL (Suc n))"

definition k_strncpy :: "char list \<Rightarrow> nat \<Rightarrow> char list \<Rightarrow> nat \<Rightarrow> char list option" where
  "k_strncpy dest d src n = strncpy_loop dest d src n"

lemma strcpy_loop_ok:
  "terminated src \<Longrightarrow> d + length (cstr src) < length dst \<Longrightarrow>
   strcpy_loop dst d src = Some (patch dst d (c_string (cstr src)))"
proof (induction src arbitrary: dst d)
  case (Cons c src)
  then show ?case
    by (auto simp: buf_simps c_string_def patch_Cons)
qed simp

lemma strcpy_loop_overflow:
  "terminated src \<Longrightarrow> length dst \<le> d + length (cstr src) \<Longrightarrow> strcpy_loop dst d src = None"
proof (induction src arbitrary: dst d)
  case (Cons c src)
  then show ?case
    by (cases "d < length dst") (auto simp: buf_simps)
qed simp

lemma k_strcpy_ok:
  "terminated src \<Longrightarrow> length (cstr src) < length dst \<Longrightarrow>
   k_strcpy dst src = Some (patch dst 0 (c_string (cstr src)))"
  by (simp add: k_strcpy_def strcpy_loop_ok)

lemma cstr_patch_c_string:
  assumes "no_nul x" "no_nul (take d b)" "d + length x < length b"
  shows "cstr (patch b d (c_string x)) = take d b @ x"
proof -
  have "patch b d (c_string x) = (take d b @ x) @ NUL # drop (d + Suc (length x)) b"
    by (simp add: patch_def c_string_def)
  with assms show ?thesis by (simp only: cstr_append_NUL no_nul_simps simp_thms)
qed

lemma terminated_patch: "terminated x \<Longrightarrow> terminated (patch b d x)"
  by (simp add: terminated_def patch_def)

lemma k_strcpy_string:
  assumes "terminated src" "length (cstr src) < length dst"
  shows "\<exists>r. k_strcpy dst src = Some r \<and> cstr r = cstr src \<and> terminated r \<and> length r = length dst"
  using assms cstr_patch_c_string [of "cstr src" 0 dst]
  by (simp add: k_strcpy_ok terminated_patch) (simp add: patch_def c_string_def)

lemma take_cstr: "terminated b \<Longrightarrow> take (length (cstr b)) b = cstr b"
  by (metis append_eq_conv_conj terminatedE)

lemma k_strcat_string:
  assumes "terminated dst" "terminated src"
    "length (cstr dst) + length (cstr src) < length dst"
  shows "\<exists>r. k_strcat dst src = Some r \<and> cstr r = cstr dst @ cstr src \<and> terminated r
    \<and> length r = length dst"
  using assms cstr_patch_c_string [of "cstr src" "length (cstr dst)" dst]
  by (simp add: k_strcat_def k_strlen_eq strcpy_loop_ok take_cstr terminated_patch)
    (simp add: patch_def c_string_def)

lemma strncpy_loop_ok:
  "terminated src \<Longrightarrow> d + n \<le> length dst \<Longrightarrow>
   strncpy_loop dst d src n =
     Some (patch dst d (take n (cstr src) @ replicate (n - length (cstr src)) NUL))"
proof (induction dst d src n rule: strncpy_loop.induct)
  case (3 dst d c src n)
  then show ?case
    by (auto simp: buf_simps patch_Cons memset_loop_ok del: memset_loop.simps)
qed simp_all

lemma k_strncpy_ok:
  "terminated src \<Longrightarrow> d + n \<le> length dst \<Longrightarrow>
   k_strncpy dst d src n =
     Some (patch dst d (take n (cstr src) @ replicate (n - length (cstr src)) NUL))"
  by (simp add: k_strncpy_def strncpy_loop_ok)

text \<open>
  The idiom \<open>k_strncpy(buf, s, sizeof buf); buf[sizeof buf - 1] = 0\<close> of the kernel: the buffer
  holds the string cut to what fits, terminated.
\<close>

definition strncpy_term :: "char list \<Rightarrow> char list \<Rightarrow> char list option" where
  "strncpy_term dst src = do {
     b \<leftarrow> k_strncpy dst 0 src (length dst);
     wr b (length dst - 1) NUL }"

lemma strncpy_term_string:
  assumes "terminated src" "dst \<noteq> []"
  shows "\<exists>r. strncpy_term dst src = Some r \<and> length r = length dst \<and> terminated r
    \<and> cstr r = take (length dst - 1) (cstr src)"
proof -
  let ?n = "length dst" and ?x = "cstr src"
  let ?b = "take ?n ?x @ replicate (?n - length ?x) NUL"
  have b: "k_strncpy dst 0 src ?n = Some ?b"
    using assms by (simp add: k_strncpy_ok patch_def)
  have len: "length ?b = ?n" by simp
  have eq: "?b[?n - 1 := NUL] = take (?n - 1) ?x @ NUL # replicate (?n - 1 - length ?x) NUL"
  proof (cases "length ?x < ?n")
    case True
    then have "?n - length ?x = Suc (?n - 1 - length ?x)" by simp
    then have rep: "replicate (?n - length ?x) NUL = NUL # replicate (?n - 1 - length ?x) NUL"
      by simp
    have "?b[?n - 1 := NUL] = ?b"
    proof (rule nth_equalityI)
      fix i assume "i < length (?b[?n - 1 := NUL])"
      with True assms(2) show "?b[?n - 1 := NUL] ! i = ?b ! i"
        by (cases "i = ?n - 1") (auto simp: nth_append)
    qed simp
    with True rep show ?thesis by simp
  next
    case False
    with assms(2) have "take ?n ?x = take (?n - 1) ?x @ [?x ! (?n - 1)]"
      by (metis One_nat_def Suc_pred length_greater_0_conv not_less_eq take_Suc_conv_app_nth
          Suc_less_eq less_Suc_eq_le not_less)
    with False assms(2) show ?thesis by (simp add: list_update_append)
  qed
  have nn: "no_nul (take (?n - 1) ?x)" by (simp add: no_nul_take)
  have "strncpy_term dst src = Some (?b[?n - 1 := NUL])"
    using assms(2) by (simp add: strncpy_term_def b wr_def min_def)
  moreover have "length (?b[?n - 1 := NUL]) = ?n" by simp
  moreover have "cstr (?b[?n - 1 := NUL]) = take (?n - 1) ?x" "terminated (?b[?n - 1 := NUL])"
    using nn by (simp_all only: eq cstr_append_NUL terminated_append_NUL)
  ultimately show ?thesis by blast
qed

subsection \<open>Properties\<close>

text \<open>
  \<open>k_memmove\<close> copies any stretch of an object onto any other, however the two overlap:
  after the call the destination holds what the source held before it, every other cell is
  untouched, and no access left the object.
\<close>

theorem k_memmove_overlap:
  assumes "d + n \<le> length mem" "s + n \<le> length mem"
  shows "\<exists>r. k_memmove mem d s n = Some r \<and> length r = length mem
    \<and> (\<forall>i < n. r ! (d + i) = mem ! (s + i))
    \<and> (\<forall>i < length mem. i < d \<or> d + n \<le> i \<longrightarrow> r ! i = mem ! i)"
proof -
  let ?x = "take n (drop s mem)"
  have "length ?x = n" using assms(2) by simp
  with assms show ?thesis
    by (auto simp: k_memmove_ok nth_patch)
qed

theorem k_memmove_overlap_witness:
  "k_memmove ''abcdef'' 2 0 4 = Some ''ababcd''
   \<and> (\<exists>r. k_memmove ''abcdef'' 2 0 4 = Some r \<and> (\<forall>i < 4. r ! (2 + i) = ''abcdef'' ! (0 + i)))"
proof
  show "k_memmove ''abcdef'' 2 0 4 = Some ''ababcd''" by code_simp
  show "\<exists>r. k_memmove ''abcdef'' 2 0 4 = Some r \<and> (\<forall>i < 4. r ! (2 + i) = ''abcdef'' ! (0 + i))"
    using k_memmove_overlap [of 2 4 "''abcdef''" 0] by auto
qed

text \<open>
  \<open>k_strcmp\<close> decides the order of two strings: it returns without leaving either object, 0
  exactly for equal strings, and a negative number exactly when the first comes first in the
  lexicographic order of the unsigned bytes.
\<close>

theorem k_strcmp_order:
  assumes "terminated a" "terminated b"
  shows "\<exists>r. k_strcmp a b = Some r \<and> (r = 0 \<longleftrightarrow> cstr a = cstr b)
    \<and> (r < 0 \<longleftrightarrow> (map code (cstr a), map code (cstr b)) \<in> lexord {(x, y). x < y})"
proof -
  obtain r where r: "k_strcmp a b = Some r" using k_strcmp_total [OF assms] by blast
  with k_strcmp_eq_0 [OF assms] k_strcmp_neg [OF assms r] show ?thesis by auto
qed

theorem k_strcmp_order_witness:
  "(\<exists>r. k_strcmp (c_string ''ls'') (c_string ''lsof'') = Some r \<and> r < 0)"
  using k_strcmp_order [of "c_string ''ls''" "c_string ''lsof''"] by (auto simp: c_string_def)

end
