(* ===== verification/Knum.thy ===== *)
theory Knum
  imports Kstring
begin

section \<open>kernel/core/kutils.c: numbers\<close>

text \<open>
  Conversions between numbers and decimal or hexadecimal text (\<open>k_itoa\<close>, \<open>k_itoa_hex\<close>,
  \<open>k_atoi\<close>, \<open>u64_to_str\<close>, and \<open>u32_to_str\<close> of bin/spawn_chain.c, the same routine at
  another width) and the 64-bit division helpers that GCC calls on a 32-bit target
  (\<open>__udivdi3\<close> and its kin) together with the division by ten of the formatter
  (\<open>udiv64_10\<close>). A scratch array \<open>tmp[cap]\<close> filled from index 0 and read back from its end is a
  list with a capacity: \<open>tmp_push\<close> is \<open>None\<close> when the array is full.
  The lemmas equate the text routines with the reference numerals \<open>dec\<close> and \<open>hex\<close>, show the
  \<open>k_itoa\<close>/\<open>k_atoi\<close> round trip, and equate the shift-and-subtract loops with \<open>div\<close> and \<open>mod\<close>.
\<close>

subsection \<open>Reference numerals\<close>

fun rdigits :: "nat \<Rightarrow> string" where
  "rdigits n = (if n = 0 then [] else digit_char (n mod 10) # rdigits (n div 10))"

declare rdigits.simps [simp del]

definition dec :: "nat \<Rightarrow> string" where
  "dec n = (if n = 0 then ''0'' else rev (rdigits n))"

definition itos :: "int \<Rightarrow> string" where
  "itos v = (if v < 0 then CHR ''-'' # dec (nat (- v)) else dec (nat v))"

definition hex_digits :: string where "hex_digits = ''0123456789abcdef''"

fun rhex :: "nat \<Rightarrow> string" where
  "rhex n = (if n = 0 then [] else hex_digits ! (n mod 16) # rhex (n div 16))"

declare rhex.simps [simp del]

definition hex :: "nat \<Rightarrow> string" where
  "hex n = (if n = 0 then ''0'' else rev (rhex n))"

definition dval :: "string \<Rightarrow> nat" where
  "dval ds = foldl (\<lambda>v c. v * 10 + (code c - 48)) 0 ds"

lemma rdigits_0 [simp]: "rdigits 0 = []"
  by (simp add: rdigits.simps)

lemma rdigits_pos: "0 < n \<Longrightarrow> rdigits n = digit_char (n mod 10) # rdigits (n div 10)"
  by (simp add: rdigits.simps [of n])

lemma rhex_0 [simp]: "rhex 0 = []"
  by (simp add: rhex.simps)

lemma rhex_pos: "0 < n \<Longrightarrow> rhex n = hex_digits ! (n mod 16) # rhex (n div 16)"
  by (simp add: rhex.simps [of n])

lemma rdigits_digits: "\<forall>c \<in> set (rdigits n). is_digit c"
  by (induction n rule: rdigits.induct) (subst rdigits.simps, simp)

lemma rdigits_length: "n < 10 ^ k \<Longrightarrow> length (rdigits n) \<le> k"
proof (induction k arbitrary: n)
  case (Suc k)
  show ?case
  proof (cases "n = 0")
    case False
    from Suc.prems have "n div 10 < 10 ^ k" by (simp add: less_mult_imp_div_less mult.commute)
    with Suc.IH False show ?thesis by (simp add: rdigits_pos)
  qed simp
qed simp

lemma rhex_length: "n < 16 ^ k \<Longrightarrow> length (rhex n) \<le> k"
proof (induction k arbitrary: n)
  case (Suc k)
  show ?case
  proof (cases "n = 0")
    case False
    from Suc.prems have "n div 16 < 16 ^ k" by (simp add: less_mult_imp_div_less mult.commute)
    with Suc.IH False show ?thesis by (simp add: rhex_pos)
  qed simp
qed simp

lemma dval_snoc: "dval (ds @ [c]) = dval ds * 10 + (code c - 48)"
  by (simp add: dval_def)

lemma dval_rev_rdigits: "dval (rev (rdigits n)) = n"
proof (induction n rule: rdigits.induct)
  case (1 n)
  show ?case
  proof (cases "n = 0")
    case False
    with 1 show ?thesis by (simp add: rdigits_pos dval_snoc)
  qed (simp add: dval_def)
qed

lemma dval_dec [simp]: "dval (dec n) = n"
  by (simp add: dec_def dval_rev_rdigits) (simp add: dval_def code_def)

lemma dec_digits: "\<forall>c \<in> set (dec n). is_digit c"
  using rdigits_digits [of n] by (auto simp: dec_def is_digit_def code_def)

lemma dec_not_Nil [simp]: "dec n \<noteq> []"
  by (simp add: dec_def rdigits_pos)

lemma digits_no_nul: "\<forall>c \<in> set x. is_digit c \<Longrightarrow> no_nul x"
  by (auto simp: no_nul_def)

lemma no_nul_dec [simp]: "no_nul (dec n)"
  using dec_digits by (rule digits_no_nul)

lemma dec_inject [simp]: "dec m = dec n \<longleftrightarrow> m = n"
  by (metis dval_dec)

lemma no_nul_itos [simp]: "no_nul (itos v)"
  by (simp add: itos_def)

lemma dec_length: "n < 10 ^ k \<Longrightarrow> 0 < k \<Longrightarrow> length (dec n) \<le> k"
  by (simp add: dec_def rdigits_length)

subsection \<open>The scratch array\<close>

definition tmp_push :: "nat \<Rightarrow> char list \<Rightarrow> char \<Rightarrow> char list option" where
  "tmp_push cap tmp c = (if length tmp < cap then Some (tmp @ [c]) else None)"

text \<open>\<open>while (i > 0) str[j++] = tmp[--i];\<close>\<close>

function unwind_tmp :: "char list \<Rightarrow> nat \<Rightarrow> char list \<Rightarrow> (char list \<times> nat) option" where
  "unwind_tmp str j tmp =
     (if tmp = [] then Some (str, j)
      else do { str' \<leftarrow> wr str j (last tmp); unwind_tmp str' (Suc j) (butlast tmp) })"
  by pat_completeness auto
termination
  by (relation "measure (\<lambda>(str, j, tmp). length tmp)") auto

declare unwind_tmp.simps [simp del]

lemma unwind_tmp_ok:
  "j + length tmp \<le> length str \<Longrightarrow>
   unwind_tmp str j tmp = Some (patch str j (rev tmp), j + length tmp)"
proof (induction tmp arbitrary: str j rule: rev_induct)
  case (snoc c tmp)
  then show ?case
    by (subst unwind_tmp.simps) (simp add: buf_simps patch_Cons)
qed (simp add: unwind_tmp.simps)

lemma patch_then_NUL:
  "j + length x < length str \<Longrightarrow> (patch str j x)[j + length x := NUL] = patch str j (c_string x)"
  by (simp add: patch_snoc c_string_def)

lemma write_zero_text:
  "1 < length str \<Longrightarrow>
   do { str1 \<leftarrow> wr str 0 (CHR ''0''); wr str1 1 NUL } = Some (patch str 0 (c_string ''0''))"
  by (cases str; cases "tl str") (auto simp: wr_def patch_def c_string_def)

subsection \<open>Decimal text\<close>

function itoa_loop :: "int \<Rightarrow> char list \<Rightarrow> char list option" where
  "itoa_loop value tmp =
     (if value > 0 \<and> length tmp < 15
      then do { tmp' \<leftarrow> tmp_push 16 tmp (digit_char (nat (value mod 10)));
                itoa_loop (value div 10) tmp' }
      else Some tmp)"
  by pat_completeness auto
termination
  by (relation "measure (\<lambda>(value, tmp). nat value)") auto

declare itoa_loop.simps [simp del]

definition k_itoa :: "int \<Rightarrow> char list \<Rightarrow> char list option" where
  "k_itoa value str =
     (if value = 0 then do { str1 \<leftarrow> wr str 0 (CHR ''0''); wr str1 1 NUL }
      else do {
        let neg = value < 0;
        value' \<leftarrow> (if neg then chk_int (- value) else Some value);
        tmp \<leftarrow> itoa_loop value' [];
        tmp' \<leftarrow> (if neg then tmp_push 16 tmp (CHR ''-'') else Some tmp);
        (str', j) \<leftarrow> unwind_tmp str 0 tmp';
        wr str' j NUL })"

fun atoi_loop :: "int \<Rightarrow> char list \<Rightarrow> int option" where
  "atoi_loop v [] = None"
| "atoi_loop v (c # s) =
     (if is_digit c then do {
        v10 \<leftarrow> chk_int (v * 10);
        v' \<leftarrow> chk_int (v10 + (int (code c) - 48));
        atoi_loop v' s }
      else Some v)"

definition k_atoi :: "char list option \<Rightarrow> int option" where
  "k_atoi s = (case s of None \<Rightarrow> Some 0 | Some p \<Rightarrow> atoi_loop 0 p)"

lemma itoa_loop_rdigits:
  "length tmp + length (rdigits n) \<le> 15 \<Longrightarrow> itoa_loop (int n) tmp = Some (tmp @ rdigits n)"
proof (induction n arbitrary: tmp rule: rdigits.induct)
  case (1 n)
  show ?case
  proof (cases "n = 0")
    case False
    with "1.prems" have len: "length tmp < 15" by (simp add: rdigits_pos)
    have "itoa_loop (int n) tmp = itoa_loop (int (n div 10)) (tmp @ [digit_char (n mod 10)])"
      using False len
      by (subst itoa_loop.simps) (simp add: tmp_push_def nat_mod_distrib zdiv_int)
    also have "\<dots> = Some ((tmp @ [digit_char (n mod 10)]) @ rdigits (n div 10))"
      using False "1.prems" by (intro "1.IH") (simp_all add: rdigits_pos)
    finally show ?thesis using False by (simp add: rdigits_pos)
  qed (simp add: itoa_loop.simps)
qed

lemma k_itoa_ok:
  assumes "INT_MIN < v" "v \<le> INT_MAX" "length (itos v) < length str"
  shows "k_itoa v str = Some (patch str 0 (c_string (itos v)))"
proof (cases "v = 0")
  case True
  with assms(3) write_zero_text [of str] show ?thesis
    by (simp add: k_itoa_def itos_def dec_def)
next
  case False
  define n where "n = nat \<bar>v\<bar>"
  have n: "0 < n" "n < 10 ^ 10" "int n = \<bar>v\<bar>"
    using assms False by (auto simp: n_def INT_MAX_def INT_MIN_def)
  have len: "length (rdigits n) \<le> 10"
    using n(2) by (rule rdigits_length)
  have loop: "itoa_loop \<bar>v\<bar> [] = Some (rdigits n)"
    using itoa_loop_rdigits [of "[]" n] len n by simp
  show ?thesis
  proof (cases "v < 0")
    case True
    then have v: "v = - int n" and chk: "chk_int (- v) = Some (- v)"
      using n assms by (simp_all add: chk_int_def INT_MAX_def INT_MIN_def)
    have it: "itos v = rev (rdigits n @ ''-'')"
      using n v by (simp add: itos_def dec_def)
    have "k_itoa v str = do { (s, j) \<leftarrow> unwind_tmp str 0 (rdigits n @ ''-''); wr s j NUL }"
      using True loop len chk by (simp add: k_itoa_def tmp_push_def)
    with assms(3) show ?thesis
      by (simp add: it unwind_tmp_ok buf_simps)
        (use patch_then_NUL [of 0 "itos v" str] it in simp)
  next
    case pos: False
    with n False have v: "v = int n" by simp
    have it: "itos v = rev (rdigits n)"
      using n v by (simp add: itos_def dec_def)
    have "k_itoa v str = do { (s, j) \<leftarrow> unwind_tmp str 0 (rdigits n); wr s j NUL }"
      using pos False loop by (simp add: k_itoa_def)
    with assms(3) show ?thesis
      by (simp add: it unwind_tmp_ok buf_simps)
        (use patch_then_NUL [of 0 "itos v" str] it in simp)
  qed
qed

lemma k_itoa_INT_MIN: "k_itoa INT_MIN str = None"
  by (simp add: k_itoa_def INT_MIN_def INT_MAX_def chk_int_def)

lemma foldl_digits_ge: "v \<le> foldl (\<lambda>v c. v * 10 + (code c - 48)) v ds"
proof (induction ds arbitrary: v)
  case (Cons c ds)
  have "v \<le> v * 10 + (code c - 48)" by simp
  also note Cons.IH
  finally show ?case by simp
qed simp

lemma atoi_loop_digits:
  assumes "\<forall>c \<in> set ds. is_digit c" "\<not> is_digit e"
  shows "atoi_loop (int v) (ds @ e # r) =
    (if int (foldl (\<lambda>v c. v * 10 + (code c - 48)) v ds) \<le> INT_MAX \<or> ds = []
     then Some (int (foldl (\<lambda>v c. v * 10 + (code c - 48)) v ds)) else None)"
  using assms(1)
proof (induction ds arbitrary: v)
  case (Cons c ds)
  let ?v = "v * 10 + (code c - 48)" and ?f = "foldl (\<lambda>v c. v * 10 + (code c - 48))"
  from Cons.prems have d: "is_digit c" "48 \<le> code c" by (auto simp: is_digit_def)
  have eq: "int v * 10 + (int (code c) - 48) = int ?v"
    using d(2) by simp
  have ge: "?v \<le> ?f ?v ds" by (rule foldl_digits_ge)
  show ?case
  proof (cases "int ?v \<le> INT_MAX")
    case True
    then have chk: "chk_int (int v * 10) = Some (int v * 10)" "chk_int (int ?v) = Some (int ?v)"
      by (simp_all add: chk_int_def INT_MIN_def)
    have "atoi_loop (int v) ((c # ds) @ e # r) = atoi_loop (int ?v) (ds @ e # r)"
      using d(1) chk by (simp add: eq del: of_nat_add of_nat_mult of_nat_diff)
    also have "\<dots> = (if int (?f ?v ds) \<le> INT_MAX \<or> ds = [] then Some (int (?f ?v ds)) else None)"
      using Cons.prems by (intro Cons.IH) simp
    finally show ?thesis
      using True by (cases ds) simp_all
  next
    case False
    with ge have over: "\<not> int (?f ?v ds) \<le> INT_MAX" by linarith
    have chk: "chk_int (int ?v) = None"
      using False by (simp add: chk_int_def)
    have "atoi_loop (int v) ((c # ds) @ e # r) = None"
    proof (cases "chk_int (int v * 10)")
      case (Some x)
      then have "x = int v * 10" by (simp add: chk_int_def split: if_splits)
      with Some d(1) chk show ?thesis
        by (simp add: eq del: of_nat_add of_nat_mult of_nat_diff)
    qed (use d(1) in simp)
    with over show ?thesis by simp
  qed
qed (use assms(2) in simp)

lemma k_atoi_digits:
  assumes "\<forall>c \<in> set ds. is_digit c" "\<not> is_digit e"
  shows "k_atoi (Some (ds @ e # r)) = (if int (dval ds) \<le> INT_MAX then Some (int (dval ds)) else None)"
  using atoi_loop_digits [OF assms, of 0 r]
  by (auto simp: k_atoi_def dval_def INT_MAX_def split: if_splits)

lemma k_atoi_itoa:
  assumes "0 \<le> v" "v \<le> INT_MAX" "length (itos v) < length str" "k_itoa v str = Some str'"
  shows "k_atoi (Some str') = Some v"
proof -
  have "str' = dec (nat v) @ NUL # drop (Suc (length (dec (nat v)))) str"
    using assms k_itoa_ok [of v str]
    by (simp add: INT_MIN_def itos_def patch_def c_string_def)
  with assms(1,2) show ?thesis
    using k_atoi_digits [OF dec_digits [of "nat v"] not_digit_NUL] by simp
qed

subsection \<open>Hexadecimal text\<close>

function itoa_hex_loop :: "u32 \<Rightarrow> char list \<Rightarrow> char list option" where
  "itoa_hex_loop value temp =
     (if value > 0
      then do { temp' \<leftarrow> tmp_push 9 temp (hex_digits ! unat (value AND 0xF));
                itoa_hex_loop (drop_bit 4 value) temp' }
      else Some temp)"
  by pat_completeness auto
termination
proof (relation "measure (\<lambda>(value, temp). unat value)", goal_cases)
  case (2 v temp)
  then have "0 < unat v" by (simp add: word_greater_zero_iff unat_gt_0)
  then show ?case by (simp add: drop_bit_eq_div unat_div)
qed simp

declare itoa_hex_loop.simps [simp del]

definition k_itoa_hex :: "u32 \<Rightarrow> char list \<Rightarrow> char list option" where
  "k_itoa_hex value str =
     (if value = 0 then do { str1 \<leftarrow> wr str 0 (CHR ''0''); wr str1 1 NUL }
      else do {
        temp \<leftarrow> itoa_hex_loop value [];
        (str', j) \<leftarrow> unwind_tmp str 0 temp;
        wr str' j NUL })"

lemma itoa_hex_loop_rhex:
  "length temp + length (rhex (unat v)) \<le> 9 \<Longrightarrow> itoa_hex_loop v temp = Some (temp @ rhex (unat v))"
proof (induction v temp rule: itoa_hex_loop.induct)
  case (1 v temp)
  show ?case
  proof (cases "v = 0")
    case False
    then have pos: "0 < unat v" "0 < v" by (simp_all add: unat_gt_0 word_greater_zero_iff)
    have dig: "hex_digits ! unat (v AND 0xF) = hex_digits ! (unat v mod 16)"
      by (simp add: unat_simps)
    have sh: "unat (drop_bit 4 v) = unat v div 16"
      by (simp add: drop_bit_eq_div unat_div)
    have len: "length temp < 9" using pos "1.prems" by (simp add: rhex_pos)
    have "itoa_hex_loop v temp = itoa_hex_loop (drop_bit 4 v) (temp @ [hex_digits ! (unat v mod 16)])"
      using pos(2) len dig by (subst itoa_hex_loop.simps) (simp add: tmp_push_def)
    also have "\<dots> = Some ((temp @ [hex_digits ! (unat v mod 16)]) @ rhex (unat v div 16))"
      using "1.IH" [OF pos(2), of "temp @ [hex_digits ! (unat v mod 16)]"] pos "1.prems" dig len
      by (simp add: rhex_pos sh tmp_push_def)
    finally show ?thesis using pos by (simp add: rhex_pos)
  qed (simp add: itoa_hex_loop.simps)
qed

lemma k_itoa_hex_ok:
  assumes "length (hex (unat v)) < length str"
  shows "k_itoa_hex v str = Some (patch str 0 (c_string (hex (unat v))))"
proof (cases "v = 0")
  case True
  with assms write_zero_text [of str] show ?thesis
    by (simp add: k_itoa_hex_def hex_def)
next
  case False
  then have pos: "unat v \<noteq> 0" by (simp add: unat_eq_0)
  have "length (rhex (unat v)) \<le> 8"
    by (rule rhex_length) simp
  then have loop: "itoa_hex_loop v [] = Some (rhex (unat v))"
    using itoa_hex_loop_rhex [of "[]" v] by simp
  have h: "hex (unat v) = rev (rhex (unat v))"
    using pos by (simp add: hex_def)
  show ?thesis
    using False loop assms patch_then_NUL [of 0 "hex (unat v)" str]
    by (simp add: k_itoa_hex_def h unwind_tmp_ok buf_simps)
qed

subsection \<open>\<open>u64_to_str\<close>\<close>

function u64_digits_loop :: "u64 \<Rightarrow> char list \<Rightarrow> char list option" where
  "u64_digits_loop value tmp =
     (if value > 0 \<and> length tmp < 32
      then do { tmp' \<leftarrow> tmp_push 32 tmp (digit_char (unat (value mod 10)));
                u64_digits_loop (value div 10) tmp' }
      else Some tmp)"
  by pat_completeness auto
termination
proof (relation "measure (\<lambda>(value, tmp). unat value)", goal_cases)
  case (2 v tmp)
  then have "0 < unat v" by (simp add: word_greater_zero_iff unat_gt_0)
  then show ?case by (simp add: unat_div)
qed simp

declare u64_digits_loop.simps [simp del]

text \<open>\<open>for (j = 0; j < len; j++) buf[j] = tmp[i - 1 - j];\<close>, with \<open>j\<close> counted by the steps left.\<close>

fun rev_copy_loop :: "char list \<Rightarrow> nat \<Rightarrow> char list \<Rightarrow> nat \<Rightarrow> char list option" where
  "rev_copy_loop buf j tmp 0 = Some buf"
| "rev_copy_loop buf j tmp (Suc k) = do {
     c \<leftarrow> rd tmp (length tmp - 1 - j);
     buf' \<leftarrow> wr buf j c;
     rev_copy_loop buf' (Suc j) tmp k }"

definition u64_to_str :: "u64 \<Rightarrow> char list option \<Rightarrow> nat \<Rightarrow> (nat \<times> char list option) option" where
  "u64_to_str value buf buf_size =
     (case buf of
        None \<Rightarrow> Some (0, None)
      | Some b \<Rightarrow>
          if buf_size = 0 then Some (0, Some b)
          else if value = 0 then
            (if buf_size < 2 then Some (0, Some b)
             else do { b1 \<leftarrow> wr b 0 (CHR ''0''); b2 \<leftarrow> wr b1 1 NUL; Some (1, Some b2) })
          else do {
            tmp \<leftarrow> u64_digits_loop value [];
            if length tmp = 0 then
              (if buf_size < 2 then Some (0, Some b)
               else do { b1 \<leftarrow> wr b 0 (CHR ''0''); b2 \<leftarrow> wr b1 1 NUL; Some (1, Some b2) })
            else do {
              let len = (if length tmp < buf_size - 1 then length tmp else buf_size - 1);
              b1 \<leftarrow> rev_copy_loop b 0 tmp len;
              b2 \<leftarrow> wr b1 len NUL;
              Some (len, Some b2) } })"

lemma u64_digits_loop_rdigits:
  "length tmp + length (rdigits (unat v)) \<le> 32 \<Longrightarrow>
   u64_digits_loop v tmp = Some (tmp @ rdigits (unat v))"
proof (induction v tmp rule: u64_digits_loop.induct)
  case (1 v tmp)
  show ?case
  proof (cases "v = 0")
    case False
    then have pos: "0 < unat v" "0 < v" by (simp_all add: unat_gt_0 word_greater_zero_iff)
    have dig: "unat (v mod 10) = unat v mod 10" and sh: "unat (v div 10) = unat v div 10"
      by (simp_all add: unat_mod unat_div)
    have len: "length tmp < 32" using pos "1.prems" by (simp add: rdigits_pos)
    have "u64_digits_loop v tmp = u64_digits_loop (v div 10) (tmp @ [digit_char (unat v mod 10)])"
      using pos(2) len dig by (subst u64_digits_loop.simps) (simp add: tmp_push_def)
    also have "\<dots> = Some ((tmp @ [digit_char (unat v mod 10)]) @ rdigits (unat v div 10))"
      using "1.IH" [of "tmp @ [digit_char (unat v mod 10)]"] pos "1.prems" dig len
      by (simp add: rdigits_pos sh tmp_push_def)
    finally show ?thesis using pos by (simp add: rdigits_pos)
  qed (simp add: u64_digits_loop.simps)
qed

lemma rev_copy_loop_ok:
  "j + k \<le> length buf \<Longrightarrow> j + k \<le> length tmp \<Longrightarrow>
   rev_copy_loop buf j tmp k = Some (patch buf j (take k (drop j (rev tmp))))"
proof (induction k arbitrary: buf j)
  case (Suc k)
  then have "drop j (rev tmp) = tmp ! (length tmp - 1 - j) # drop (Suc j) (rev tmp)"
    by (simp add: Cons_nth_drop_Suc [symmetric] rev_nth)
  with Suc show ?case by (simp add: buf_simps patch_Cons)
qed simp

text \<open>What the buffer holds: the numeral, cut to the leading digits that fit.\<close>

lemma u64_to_str_ok:
  assumes "1 < sz" "sz \<le> length b"
  shows "\<exists>b'. u64_to_str v (Some b) sz = Some (min (length (dec (unat v))) (sz - 1), Some b')
    \<and> length b' = length b \<and> terminated b' \<and> cstr b' = take (sz - 1) (dec (unat v))"
proof (cases "v = 0")
  case True
  have w0: "wr b 0 (CHR ''0'') = Some (b[0 := CHR ''0''])"
    using assms by (auto simp: wr_def)
  with write_zero_text [of b] assms
  have w1: "wr (b[0 := CHR ''0'']) 1 NUL = Some (patch b 0 (c_string ''0''))"
    by simp
  have "cstr (patch b 0 (c_string ''0'')) = ''0''" "length (patch b 0 (c_string ''0'')) = length b"
    using assms cstr_patch_c_string [of "''0''" 0 b] by (simp_all add: c_string_def)
  with True assms show ?thesis
    by (simp add: u64_to_str_def w0 w1 [simplified] dec_def terminated_patch)
next
  case False
  then have pos: "unat v \<noteq> 0" by (simp add: unat_eq_0)
  let ?d = "rdigits (unat v)" and ?n = "min (length (dec (unat v))) (sz - 1)"
  have d: "dec (unat v) = rev ?d" using pos by (simp add: dec_def)
  have "length ?d \<le> 20" by (rule rdigits_length) (rule order_less_trans [OF unat_lt_2_64], simp)
  then have loop: "u64_digits_loop v [] = Some ?d"
    using u64_digits_loop_rdigits [of "[]" v] by simp
  let ?x = "take ?n (rev ?d)"
  have x: "length ?x = ?n" by (simp add: d)
  have xs: "?x = take (sz - 1) (dec (unat v))" by (simp add: d min_def)
  have ne: "?d \<noteq> []" using pos by (simp add: rdigits_pos)
  have n: "(if length ?d < sz - 1 then length ?d else sz - 1) = ?n" by (simp add: d min_def)
  have copy: "rev_copy_loop b 0 ?d ?n = Some (patch b 0 ?x)"
    using assms by (simp add: rev_copy_loop_ok d)
  have nul: "wr (patch b 0 ?x) ?n NUL = Some (patch b 0 (c_string ?x))"
    using assms x patch_then_NUL [of 0 ?x b] by (simp add: wr_def)
  have "u64_to_str v (Some b) sz = Some (?n, Some (patch b 0 (c_string ?x)))"
    unfolding u64_to_str_def option.case using False assms(1) loop ne
    by (simp only: Let_def n copy nul if_False bind.bind_lunit length_0_conv) simp
  moreover have "cstr (patch b 0 (c_string ?x)) = ?x"
    using cstr_patch_c_string [of ?x 0 b] assms x no_nul_dec [of "unat v"] d
    by (simp add: no_nul_take)
  moreover have "length (patch b 0 (c_string ?x)) = length b"
    using assms x by (intro length_patch) (simp add: c_string_def)
  ultimately show ?thesis
    using xs by (simp add: terminated_patch)
qed

subsection \<open>Division by ten without \<open>__udivdi3\<close>\<close>

definition udiv64_10 :: "u64 \<Rightarrow> u64 \<times> u32" where
  "udiv64_10 n =
     (let q = drop_bit 1 n + drop_bit 2 n;
          q = q + drop_bit 4 q;
          q = q + drop_bit 8 q;
          q = q + drop_bit 16 q;
          q = q + drop_bit 32 q;
          q = drop_bit 3 q;
          r = (ucast (n - q * 10) :: u32)
      in if r \<ge> 10 then (q + 1, r - 10) else (q, r))"

lemma add_div_bounds:
  fixes x k :: nat
  assumes "0 < k"
  shows "k * (x + x div k) \<le> (k + 1) * x" "(k + 1) * x < k * (x + x div k) + k"
proof -
  have "k * (x div k) \<le> x" by simp
  moreover have "x < k * (x div k) + k"
    using assms mod_less_divisor [of k x] mult_div_mod_eq [of k x] by linarith
  ultimately show "k * (x + x div k) \<le> (k + 1) * x" "(k + 1) * x < k * (x + x div k) + k"
    by (simp_all add: algebra_simps)
qed

lemma udiv10_nat:
  fixes n :: nat
  assumes "n < 2 ^ 64"
  defines "q0 \<equiv> n div 2 + n div 4"
  defines "q1 \<equiv> q0 + q0 div 16"
  defines "q2 \<equiv> q1 + q1 div 256"
  defines "q3 \<equiv> q2 + q2 div 65536"
  defines "q4 \<equiv> q3 + q3 div 4294967296"
  defines "q \<equiv> q4 div 8"
  shows "q4 < 2 ^ 64" "q * 10 \<le> n" "n < q * 10 + 20"
proof -
  have q0: "4 * q0 \<le> 3 * n" "3 * n \<le> 4 * q0 + 5" unfolding q0_def by presburger+
  have q1: "16 * q1 \<le> 17 * q0" "17 * q0 < 16 * q1 + 16"
    using add_div_bounds [of 16 q0] by (simp_all add: q1_def)
  have q2: "256 * q2 \<le> 257 * q1" "257 * q1 < 256 * q2 + 256"
    using add_div_bounds [of 256 q1] by (simp_all add: q2_def)
  have q3: "65536 * q3 \<le> 65537 * q2" "65537 * q2 < 65536 * q3 + 65536"
    using add_div_bounds [of 65536 q2] by (simp_all add: q3_def)
  have q4: "4294967296 * q4 \<le> 4294967297 * q3" "4294967297 * q3 < 4294967296 * q4 + 4294967296"
    using add_div_bounds [of 4294967296 q3] by (simp_all add: q4_def)
  have q: "8 * q \<le> q4" "q4 \<le> 8 * q + 7" unfolding q_def by presburger+
  show "q * 10 \<le> n" using q0(1) q1(1) q2(1) q3(1) q4(1) q(1) by linarith
  show "q4 < 2 ^ 64" using assms(1) q0(1) q1(1) q2(1) q3(1) q4(1) by linarith
  then have "q4 < 18446744073709551616" by simp
  with q0(2) q1(2) q2(2) q3(2) q4(2) q(2) show "n < q * 10 + 20" by linarith
qed

lemma udiv64_10_ok:
  "udiv64_10 n = (n div 10, ucast (n mod 10))"
proof -
  let ?n = "unat n"
  define q0 where "q0 = ?n div 2 + ?n div 4"
  define q1 where "q1 = q0 + q0 div 16"
  define q2 where "q2 = q1 + q1 div 256"
  define q3 where "q3 = q2 + q2 div 65536"
  define q4 where "q4 = q3 + q3 div 4294967296"
  define q where "q = q4 div 8"
  note defs = q0_def q1_def q2_def q3_def q4_def q_def
  have n: "?n < 2 ^ 64" by simp
  have b: "q4 < 2 ^ 64" "q * 10 \<le> ?n" "?n < q * 10 + 20"
    using udiv10_nat [OF n] by (simp_all only: defs)
  have le: "q0 \<le> q1" "q1 \<le> q2" "q2 \<le> q3" "q3 \<le> q4" by (simp_all add: defs)
  define w0 where "w0 = drop_bit 1 n + drop_bit 2 n"
  define w1 where "w1 = w0 + drop_bit 4 w0"
  define w2 where "w2 = w1 + drop_bit 8 w1"
  define w3 where "w3 = w2 + drop_bit 16 w2"
  define w4 where "w4 = w3 + drop_bit 32 w3"
  define w where "w = drop_bit 3 w4"
  have u0: "unat w0 = q0" using b(1) le by (simp add: w0_def q0_def unat_shift unat_plus)
  have u1: "unat w1 = q1"
    using b(1) le by (simp add: w1_def u0 unat_shift unat_plus flip: q1_def)
  have u2: "unat w2 = q2"
    using b(1) le by (simp add: w2_def u1 unat_shift unat_plus flip: q2_def)
  have u3: "unat w3 = q3"
    using b(1) le by (simp add: w3_def u2 unat_shift unat_plus flip: q3_def)
  have u4: "unat w4 = q4"
    using b(1) le by (simp add: w4_def u3 unat_shift unat_plus flip: q4_def)
  have u: "unat w = q" by (simp add: w_def u4 q_def unat_shift)
  have um: "unat (w * 10) = q * 10" 
    using order_le_less_trans [OF b(2) unat_lt_2_64] by (intro trans [OF unat_times]) (simp_all add: u)
  have ur: "unat (n - w * 10) = ?n - q * 10" using b(2) by (simp add: unat_minus um)
  define r :: u32 where "r = ucast (n - w * 10)"
  have r: "unat r = ?n - q * 10"
    using b(3) ur by (simp add: r_def unsigned_ucast_eq take_bit_eq_mod)
  have def: "udiv64_10 n = (if r \<ge> 10 then (w + 1, r - 10) else (w, r))"
    by (simp add: udiv64_10_def Let_def r_def w_def w4_def w3_def w2_def w1_def w0_def)
  show ?thesis
  proof (cases "10 \<le> unat r")
    case True
    with r b(3) have "?n div 10 = q + 1"
      by (intro div_nat_eqI) simp_all
    then have dm: "?n div 10 = q + 1" "?n mod 10 = ?n - q * 10 - 10"
      by (simp_all add: modulo_nat_def)
    have "unat (w + 1) = q + 1"
      using order_le_less_trans [OF b(2) unat_lt_2_64] by (intro trans [OF unat_plus]) (simp_all add: u)
    with dm have "w + 1 = n div 10"
      by (intro word_unat_eq_iff [THEN iffD2]) (simp add: unat_div)
    moreover have "r - 10 = ucast (n mod 10)"
      using dm r True by (intro word_unat_eq_iff [THEN iffD2])
        (simp add: unat_minus unsigned_ucast_eq take_bit_eq_mod unat_mod)
    moreover have "r \<ge> 10" using True by (simp add: word_le_nat_alt)
    ultimately show ?thesis by (simp add: def)
  next
    case False
    with r b(2) have "?n div 10 = q"
      by (intro div_nat_eqI) simp_all
    then have dm: "?n div 10 = q" "?n mod 10 = ?n - q * 10"
      by (simp_all add: modulo_nat_def)
    have "w = n div 10"
      using dm by (intro word_unat_eq_iff [THEN iffD2]) (simp add: u unat_div)
    moreover have "r = ucast (n mod 10)"
      using dm r False by (intro word_unat_eq_iff [THEN iffD2])
        (simp add: unsigned_ucast_eq take_bit_eq_mod unat_mod)
    moreover have "\<not> r \<ge> 10" using False by (simp add: word_le_nat_alt)
    ultimately show ?thesis by (simp add: def)
  qed
qed

subsection \<open>64-bit division by shift and subtract\<close>

text \<open>
  \<open>for (int i = 63; i >= 0; i--) { r <<= 1; r |= (n >> i) & 1; if (r >= d) { r -= d; q |= 1ULL << i; } }\<close>
  The first argument is the number of bits still to bring down, \<open>i + 1\<close>.
\<close>

fun udiv_loop :: "nat \<Rightarrow> u64 \<Rightarrow> u64 \<Rightarrow> u64 \<Rightarrow> u64 \<Rightarrow> u64 \<times> u64" where
  "udiv_loop 0 n d q r = (q, r)"
| "udiv_loop (Suc i) n d q r =
     (let r1 = push_bit 1 r OR (drop_bit i n AND 1)
      in if r1 \<ge> d then udiv_loop i n d (q OR push_bit i 1) (r1 - d)
         else udiv_loop i n d q r1)"

fun umod_loop :: "nat \<Rightarrow> u64 \<Rightarrow> u64 \<Rightarrow> u64 \<Rightarrow> u64" where
  "umod_loop 0 n d r = r"
| "umod_loop (Suc i) n d r =
     (let r1 = push_bit 1 r OR (drop_bit i n AND 1)
      in if r1 \<ge> d then umod_loop i n d (r1 - d) else umod_loop i n d r1)"

definition k_udivdi3 :: "u64 \<Rightarrow> u64 \<Rightarrow> u64" where
  "k_udivdi3 n d = (if d = 0 then 0 else fst (udiv_loop 64 n d 0 0))"

definition k_umoddi3 :: "u64 \<Rightarrow> u64 \<Rightarrow> u64" where
  "k_umoddi3 n d = (if d = 0 then 0 else umod_loop 64 n d 0)"

text \<open>The quotient, and what is stored through \<open>rem\<close> when it is not \<open>NULL\<close>.\<close>

definition k_udivmoddi4 :: "u64 \<Rightarrow> u64 \<Rightarrow> bool \<Rightarrow> u64 \<times> u64 option" where
  "k_udivmoddi4 n d want_rem =
     (if d = 0 then (0, if want_rem then Some 0 else None)
      else let (q, r) = udiv_loop 64 n d 0 0 in (q, if want_rem then Some r else None))"

lemma bring_down_bit:
  fixes r n :: u64
  assumes "unat r \<le> unat n div 2 ^ Suc i"
  shows "unat (push_bit 1 r OR (drop_bit i n AND 1)) = 2 * unat r + unat n div 2 ^ i mod 2"
proof -
  let ?b = "drop_bit i n AND 1"
  have b: "unat ?b = unat n div 2 ^ i mod 2"
    by (simp only: and_one_eq unat_mod unat_shift) simp
  have "unat n < 2 * 2 ^ 63" using unat_lt_2_64 [of n] by simp
  then have "unat n div 2 < 2 ^ 63" by linarith
  moreover have "unat n div 2 ^ Suc i = unat n div 2 div 2 ^ i" by (simp add: div_mult2_eq)
  ultimately have r: "unat r < 2 ^ 63"
    using assms div_le_dividend [of "unat n div 2" "2 ^ i"] by linarith
  have p: "unat (push_bit 1 r) = 2 * unat r"
    using r by (simp add: push_bit_eq_mult unat_mult_lem [THEN iffD1])
  have "push_bit 1 r OR ?b = push_bit 1 r + ?b"
    by (rule disjunctive_add [symmetric]) (simp only: bit_push_bit_iff bit_and_iff bit_1_iff, simp)
  moreover have "unat (push_bit 1 r + ?b) = unat (push_bit 1 r) + unat ?b"
    by (rule unat_plus) (use r in \<open>simp only: p b\<close>, simp)
  ultimately show ?thesis by (simp only: p b)
qed

lemma set_quotient_bit:
  "push_bit (Suc i) w OR push_bit i 1 = push_bit i (2 * w + 1 :: u64)"
proof -
  have "push_bit (Suc i) w OR push_bit i 1 = push_bit i (push_bit 1 w OR 1)"
    by (simp add: push_bit_push_bit push_bit_or)
  also have "push_bit 1 w OR 1 = push_bit 1 w + 1"
    by (rule disjunctive_add [symmetric]) (simp only: bit_push_bit_iff bit_1_iff, simp)
  finally show ?thesis by (simp add: push_bit_eq_mult mult.commute)
qed

text \<open>
  The loop invariant: with \<open>i\<close> bits left, \<open>r\<close> is the remainder and \<open>q\<close> the quotient of the
  bits brought down so far, \<open>q\<close> shifted to its final place.
\<close>

lemma udiv_loop_step:
  fixes N d b :: nat
  assumes "0 < d" "b < 2"
  shows "(2 * N + b) mod d = (if d \<le> 2 * (N mod d) + b then 2 * (N mod d) + b - d else 2 * (N mod d) + b)"
    and "(2 * N + b) div d = (if d \<le> 2 * (N mod d) + b then 2 * (N div d) + 1 else 2 * (N div d))"
proof -
  let ?r = "2 * (N mod d) + b"
  have lt: "?r < 2 * d" using assms mod_less_divisor [OF assms(1), of N] by linarith
  have "2 * N = 2 * (d * (N div d)) + 2 * (N mod d)"
    by (subst mult_div_mod_eq [of d N, symmetric]) (simp only: distrib_left)
  then have "2 * N + b = d * (2 * (N div d)) + ?r"
    by (simp only: mult.left_commute [of d 2] add.assoc)
  then have "2 * N + b = 2 * (N div d) * d + ?r" by (simp only: mult.commute)
  then have m: "(2 * N + b) mod d = ?r mod d" and q: "(2 * N + b) div d = 2 * (N div d) + ?r div d"
    using assms(1) by (simp_all only: mod_mult_self3 div_mult_self3 neq0_conv)
  show "(2 * N + b) mod d = (if d \<le> ?r then ?r - d else ?r)"
    using lt by (simp add: m le_mod_geq)
  show "(2 * N + b) div d = (if d \<le> ?r then 2 * (N div d) + 1 else 2 * (N div d))"
    using lt assms(1) by (simp add: q le_div_geq)
qed

lemma udiv_loop_ok:
  assumes "d \<noteq> 0" "i \<le> 64"
    "unat r = unat n div 2 ^ i mod unat d"
    "q = push_bit i (of_nat (unat n div 2 ^ i div unat d))"
  shows "udiv_loop i n d q r = (n div d, n mod d)"
  using assms(2-4)
proof (induction i arbitrary: q r)
  case 0
  then have "unat r = unat (n mod d)" and "q = of_nat (unat (n div d))"
    by (simp_all add: unat_mod_distrib unat_div_distrib)
  then have "r = n mod d" "q = n div d"
    by (simp_all only: word_unat_eq_iff of_nat_unat ucast_id)
  then show ?case by simp
next
  case (Suc i)
  let ?N = "unat n div 2 ^ Suc i" and ?b = "unat n div 2 ^ i mod 2" and ?d = "unat d"
  let ?r1 = "push_bit 1 r OR (drop_bit i n AND 1)"
  have d: "0 < ?d" using assms(1) by (simp add: unat_gt_0)
  have N: "unat n div 2 ^ i = 2 * ?N + ?b"
  proof -
    have "?N = unat n div 2 ^ i div 2" by (simp only: power_Suc2 div_mult2_eq)
    then show ?thesis by (simp only: mult_div_mod_eq)
  qed
  note st = udiv_loop_step [OF d, of ?b ?N, folded N]
  have r1: "unat ?r1 = 2 * (?N mod ?d) + ?b"
    using bring_down_bit [of r n i] Suc.prems(2) by simp
  show ?case
  proof (cases "?r1 \<ge> d")
    case True
    then have ge: "?d \<le> 2 * (?N mod ?d) + ?b" by (simp only: word_le_nat_alt r1)
    have "udiv_loop i n d (q OR push_bit i 1) (?r1 - d) = (n div d, n mod d)"
    proof (rule Suc.IH)
      show "unat (?r1 - d) = unat n div 2 ^ i mod ?d"
        using ge st(1) r1 by (simp add: unat_minus)
      show "q OR push_bit i 1 = push_bit i (of_nat (unat n div 2 ^ i div ?d))"
        unfolding Suc.prems(3) set_quotient_bit using ge st(2) by (simp add: ac_simps)
    qed (use Suc.prems(1) in simp)
    with True show ?thesis by (simp add: Let_def)
  next
    case False
    then have lt: "\<not> ?d \<le> 2 * (?N mod ?d) + ?b" by (simp only: word_le_nat_alt r1 not_False_eq_True)
    have "udiv_loop i n d q ?r1 = (n div d, n mod d)"
    proof (rule Suc.IH)
      show "unat ?r1 = unat n div 2 ^ i mod ?d"
        using lt st(1) r1 by simp
      have "push_bit (Suc i) w = push_bit i (2 * w)" for w :: u64
        by (simp add: push_bit_eq_mult algebra_simps)
      then show "q = push_bit i (of_nat (unat n div 2 ^ i div ?d))"
        using lt st(2) by (simp add: Suc.prems(3) del: push_bit_Suc power_Suc)
    qed (use Suc.prems(1) in simp)
    with False show ?thesis by (simp add: Let_def)
  qed
qed

lemma umod_loop_udiv_loop: "umod_loop i n d r = snd (udiv_loop i n d q r)"
  by (induction i arbitrary: q r) (simp_all add: Let_def)

lemma udiv_loop_64: "d \<noteq> 0 \<Longrightarrow> udiv_loop 64 n d 0 0 = (n div d, n mod d)"
  by (rule udiv_loop_ok) simp_all

lemma k_udivdi3_ok: "k_udivdi3 n d = n div d"
  by (simp add: k_udivdi3_def udiv_loop_64)

lemma k_umoddi3_ok: "d \<noteq> 0 \<Longrightarrow> k_umoddi3 n d = n mod d"
  by (simp add: k_umoddi3_def umod_loop_udiv_loop [of _ _ _ _ 0] udiv_loop_64)

lemma k_udivmoddi4_ok: "d \<noteq> 0 \<Longrightarrow> k_udivmoddi4 n d True = (n div d, Some (n mod d))"
  by (simp add: k_udivmoddi4_def udiv_loop_64)

text \<open>The signed helpers; negating the least \<open>int64_t\<close> is undefined.\<close>

definition chk_int64 :: "int \<Rightarrow> int option" where
  "chk_int64 x = (if - (2 ^ 63) \<le> x \<and> x < 2 ^ 63 then Some x else None)"

definition k_divdi3 :: "int \<Rightarrow> int \<Rightarrow> int option" where
  "k_divdi3 a b = do {
     a' \<leftarrow> (if a < 0 then chk_int64 (- a) else Some a);
     b' \<leftarrow> (if b < 0 then chk_int64 (- b) else Some b);
     let neg = ((a < 0) \<noteq> (b < 0));
     let q = k_udivdi3 (word_of_int a') (word_of_int b');
     (if neg then chk_int64 (- sint q) else Some (sint q)) }"

definition k_moddi3 :: "int \<Rightarrow> int \<Rightarrow> int option" where
  "k_moddi3 a b = do {
     a' \<leftarrow> (if a < 0 then chk_int64 (- a) else Some a);
     b' \<leftarrow> (if b < 0 then chk_int64 (- b) else Some b);
     let r = k_umoddi3 (word_of_int a') (word_of_int b');
     (if a < 0 then chk_int64 (- sint r) else Some (sint r)) }"

definition k_divmoddi4 :: "int \<Rightarrow> int \<Rightarrow> bool \<Rightarrow> (int \<times> int option) option" where
  "k_divmoddi4 a b want_rem = do {
     q \<leftarrow> k_divdi3 a b;
     if want_rem then do {
       p \<leftarrow> chk_int64 (q * b);
       r \<leftarrow> chk_int64 (a - p);
       Some (q, Some r) }
     else Some (q, None) }"

text \<open>C division and remainder truncate towards zero.\<close>

definition c_div :: "int \<Rightarrow> int \<Rightarrow> int" where
  "c_div a b = sgn a * sgn b * (\<bar>a\<bar> div \<bar>b\<bar>)"

definition c_mod :: "int \<Rightarrow> int \<Rightarrow> int" where
  "c_mod a b = sgn a * (\<bar>a\<bar> mod \<bar>b\<bar>)"

definition int64 :: "int \<Rightarrow> bool" where
  "int64 x \<longleftrightarrow> - (2 ^ 63) < x \<and> x < 2 ^ 63"

lemma sint_small: "0 \<le> x \<Longrightarrow> x < 2 ^ 63 \<Longrightarrow> sint (word_of_int x :: u64) = x"
  by (simp add: signed_of_int signed_take_bit_int_eq_self)

lemma uint_small: "0 \<le> x \<Longrightarrow> x < 2 ^ 63 \<Longrightarrow> uint (word_of_int x :: u64) = x"
  by (simp add: unsigned_of_int take_bit_int_eq_self)

lemma int_div_bounds:
  fixes a b :: int
  assumes "0 \<le> a" "0 \<le> b"
  shows "0 \<le> a div b" "a div b \<le> a" "0 \<le> a mod b" "a mod b \<le> a"
proof -
  obtain m n where "a = int m" "b = int n"
    using assms by (metis nonneg_int_cases)
  then show "0 \<le> a div b" "a div b \<le> a" "0 \<le> a mod b" "a mod b \<le> a"
    by (simp_all flip: of_nat_div of_nat_mod)
qed

lemma word_div_small:
  assumes "0 \<le> a" "a < 2 ^ 63" "0 \<le> b" "b < 2 ^ 63"
  shows "sint ((word_of_int a :: u64) div word_of_int b) = a div b"
    and "sint ((word_of_int a :: u64) mod word_of_int b) = a mod b"
  using assms int_div_bounds [of a b]
  by (simp_all add: word_div_def word_mod_def uint_small sint_small)

lemma k_divdi3_ok:
  assumes "int64 a" "int64 b" "b \<noteq> 0"
  shows "k_divdi3 a b = Some (c_div a b)"
proof -
  have "sint (k_udivdi3 (word_of_int \<bar>a\<bar>) (word_of_int \<bar>b\<bar>)) = \<bar>a\<bar> div \<bar>b\<bar>"
    using assms(1,2) by (simp add: k_udivdi3_ok int64_def word_div_small abs_less_iff)
  moreover have "0 \<le> \<bar>a\<bar> div \<bar>b\<bar>" "\<bar>a\<bar> div \<bar>b\<bar> < 2 ^ 63"
    using int_div_bounds [of "\<bar>a\<bar>" "\<bar>b\<bar>"] assms(1) unfolding int64_def by linarith+
  ultimately show ?thesis
    using assms
    by (cases "a < 0"; cases "b < 0") (auto simp: k_divdi3_def chk_int64_def int64_def c_div_def sgn_if)
qed

lemma k_moddi3_ok:
  assumes "int64 a" "int64 b" "b \<noteq> 0"
  shows "k_moddi3 a b = Some (c_mod a b)"
proof -
  have "(word_of_int \<bar>b\<bar> :: u64) \<noteq> 0"
    using assms uint_small [of "\<bar>b\<bar>"] by (auto simp: int64_def abs_less_iff)
  then have "sint (k_umoddi3 (word_of_int \<bar>a\<bar>) (word_of_int \<bar>b\<bar>)) = \<bar>a\<bar> mod \<bar>b\<bar>"
    using assms(1,2) by (simp add: k_umoddi3_ok int64_def word_div_small abs_less_iff)
  moreover obtain m where m: "\<bar>a\<bar> mod \<bar>b\<bar> = m" by simp
  moreover have "0 \<le> m" "m < 2 ^ 63"
    using int_div_bounds(3,4) [of "\<bar>a\<bar>" "\<bar>b\<bar>"] assms(1) unfolding int64_def m by linarith+
  moreover have "a = 0 \<longrightarrow> m = 0" using m by auto
  ultimately show ?thesis
    using assms unfolding c_mod_def m
    by (cases "a < 0"; cases "b < 0") (simp_all add: k_moddi3_def chk_int64_def int64_def sgn_if)
qed

lemma c_div_mod: "c_div a b * b + c_mod a b = a"
proof -
  have "\<bar>b\<bar> * (\<bar>a\<bar> div \<bar>b\<bar>) + \<bar>a\<bar> mod \<bar>b\<bar> = \<bar>a\<bar>" by simp
  then have "sgn a * (\<bar>b\<bar> * (\<bar>a\<bar> div \<bar>b\<bar>) + \<bar>a\<bar> mod \<bar>b\<bar>) = a"
    by (metis mult_sgn_abs)
  then have "sgn a * (\<bar>a\<bar> div \<bar>b\<bar>) * (sgn b * b) + c_mod a b = a"
    by (simp add: c_mod_def algebra_simps abs_sgn)
  then show ?thesis by (simp add: c_div_def algebra_simps)
qed

lemma k_divmoddi4_ok:
  assumes "int64 a" "int64 b" "b \<noteq> 0"
  shows "k_divmoddi4 a b True = Some (c_div a b, Some (c_mod a b))"
proof -
  let ?m = "\<bar>a\<bar> mod \<bar>b\<bar>"
  have m: "0 \<le> ?m" "?m \<le> \<bar>a\<bar>" using int_div_bounds [of "\<bar>a\<bar>" "\<bar>b\<bar>"] by simp_all
  have r: "a - c_div a b * b = c_mod a b" using c_div_mod [of a b] by linarith
  have "c_mod a b \<in> {- \<bar>a\<bar> .. \<bar>a\<bar>} \<and> a - c_mod a b \<in> {- \<bar>a\<bar> .. \<bar>a\<bar>}"
    using m by (cases "a < 0"; cases "a = 0") (simp_all add: c_mod_def)
  moreover have "c_div a b * b = a - c_mod a b" using r by linarith
  ultimately have "chk_int64 (c_div a b * b) = Some (c_div a b * b)"
    "chk_int64 (c_mod a b) = Some (c_mod a b)"
    using assms(1) unfolding chk_int64_def int64_def by auto
  with assms show ?thesis by (simp add: k_divmoddi4_def k_divdi3_ok r)
qed

subsection \<open>Properties\<close>

text \<open>
  \<open>k_itoa\<close> and \<open>k_atoi\<close> are inverse: for every \<open>int\<close> but \<open>INT_MIN\<close> (whose negation
  overflows), \<open>k_itoa\<close> writes the decimal numeral of its argument, terminated, into any buffer of
  at least 12 bytes, without leaving it or the 16-byte scratch array, and \<open>k_atoi\<close> reads a
  non-negative number back.
\<close>

theorem k_itoa_atoi:
  assumes "INT_MIN < v" "v \<le> INT_MAX" "12 \<le> length str"
  shows "\<exists>r. k_itoa v str = Some r \<and> length r = length str \<and> cstr r = itos v
    \<and> (if v < 0 then hd r = CHR ''-'' else k_atoi (Some r) = Some v)"
proof -
  have "nat \<bar>v\<bar> < 10 ^ 10" using assms by (simp add: INT_MIN_def INT_MAX_def)
  then have "length (dec (nat \<bar>v\<bar>)) \<le> 10" by (rule dec_length) simp
  then have len: "length (itos v) \<le> 11" by (cases "v < 0") (simp_all add: itos_def)
  with assms have ok: "k_itoa v str = Some (patch str 0 (c_string (itos v)))"
    by (intro k_itoa_ok) simp_all
  have "cstr (patch str 0 (c_string (itos v))) = itos v"
    using cstr_patch_c_string [of "itos v" 0 str] len assms(3) by simp
  moreover have "length (patch str 0 (c_string (itos v))) = length str"
    using len assms(3) by (intro length_patch) (simp add: c_string_def)
  moreover have "v < 0 \<Longrightarrow> hd (patch str 0 (c_string (itos v))) = CHR ''-''"
    by (simp add: patch_def c_string_def itos_def)
  moreover have "0 \<le> v \<Longrightarrow> k_atoi (Some (patch str 0 (c_string (itos v)))) = Some v"
    using k_atoi_itoa [of v str] ok len assms by simp
  ultimately show ?thesis using ok by auto
qed

theorem k_itoa_atoi_witness:
  "itos (-40) = ''-40'' \<and>
   (\<exists>r. k_itoa (-40) (replicate 12 NUL) = Some r \<and> cstr r = itos (-40))"
proof
  show "itos (-40) = ''-40''" by code_simp
  show "\<exists>r. k_itoa (-40) (replicate 12 NUL) = Some r \<and> cstr r = itos (-40)"
  proof -
    have "INT_MIN < -40" "-40 \<le> INT_MAX" "12 \<le> length (replicate 12 NUL)"
      by (simp_all add: INT_MIN_def INT_MAX_def)
    from k_itoa_atoi [OF this] show ?thesis by blast
  qed
qed

text \<open>
  \<open>udiv64_10\<close>, which the formatter uses because the kernel has no 64-bit division
  instruction, computes quotient and remainder by ten for every 64-bit number: the shift-and-add
  estimate is off by at most one and the single correction step suffices.
\<close>

theorem udiv64_10_div_mod: "udiv64_10 n = (n div 10, ucast (n mod 10))"
  by (rule udiv64_10_ok)

text \<open>
  The 64-bit helpers GCC calls are C's division: the signed ones truncate towards zero, the
  remainder takes the sign of the dividend, and quotient times divisor plus remainder gives the
  dividend back, for all operands but a zero divisor and the least \<open>int64_t\<close>.
\<close>

theorem k_division_helpers:
  assumes "int64 a" "int64 b" "b \<noteq> 0"
  shows "k_divdi3 a b = Some (c_div a b) \<and> k_moddi3 a b = Some (c_mod a b)
    \<and> k_divmoddi4 a b True = Some (c_div a b, Some (c_mod a b))
    \<and> c_div a b * b + c_mod a b = a \<and> \<bar>c_mod a b\<bar> < \<bar>b\<bar>"
proof (intro conjI)
  show "\<bar>c_mod a b\<bar> < \<bar>b\<bar>" using assms(3) by (simp add: c_mod_def abs_mult abs_sgn_eq)
qed (rule assms k_divdi3_ok k_moddi3_ok k_divmoddi4_ok c_div_mod)+

theorem k_division_helpers_witness:
  "k_divdi3 (-7) 2 = Some (-3) \<and> k_moddi3 (-7) 2 = Some (-1)"
  using k_division_helpers [of "-7" 2] by (simp add: int64_def c_div_def c_mod_def)

end
