(* ===== verification/Fifo.thy ===== *)
theory Fifo
  imports Prelude
begin

section \<open>Interfaces: FIFO queues, chains of pointers, rings\<close>

text \<open>
  Three data-structure interfaces the kernel's components share.
  \<^item> \<open>chain nx p xs\<close>: following the link field \<open>nx\<close> from the pointer \<open>p\<close> visits exactly the
    objects \<open>xs\<close> and then \<open>NULL\<close> (run queue, wait queues, lists of children).
  \<^item> The locale \<open>fifo\<close>: a queue seen through its list of elements. What a client may conclude of
    any sequence of pushes and polls is proved once inside it (\<open>fifo_law\<close>); the run queue,
    the terminal input ring and the free rings interpret it.
  \<^item> The locale \<open>ring\<close>: free-running 32-bit head and tail counters reduced by a mask to index an
    array of a power-of-two size, as in the task table, the file table and the terminals.
\<close>

subsection \<open>Chains\<close>

fun chain :: "('a \<Rightarrow> 'a option) \<Rightarrow> 'a option \<Rightarrow> 'a list \<Rightarrow> bool" where
  "chain nx p [] \<longleftrightarrow> p = None"
| "chain nx p (x # xs) \<longleftrightarrow> p = Some x \<and> chain nx (nx x) xs"

lemma chain_Nil_iff [simp]: "chain nx None xs \<longleftrightarrow> xs = []"
  by (cases xs) auto

lemma chain_Some: "chain nx (Some x) xs \<longleftrightarrow> (\<exists>ys. xs = x # ys \<and> chain nx (nx x) ys)"
  by (cases xs) auto

lemma chain_unique: "chain nx p xs \<Longrightarrow> chain nx p ys \<Longrightarrow> xs = ys"
  by (induction xs arbitrary: p ys) (auto simp: chain_Some)

lemma chain_cong: "(\<And>x. x \<in> set xs \<Longrightarrow> nx x = nx' x) \<Longrightarrow> chain nx p xs \<longleftrightarrow> chain nx' p xs"
  by (induction xs arbitrary: p) auto

lemma chain_upd [simp]: "x \<notin> set xs \<Longrightarrow> chain (nx(x := v)) p xs \<longleftrightarrow> chain nx p xs"
  by (rule chain_cong) auto

lemma chain_suffix: "chain nx p (xs @ x # ys) \<Longrightarrow> chain nx (nx x) ys"
  by (induction xs arbitrary: p) auto

lemma chain_distinct: "chain nx p xs \<Longrightarrow> distinct xs"
proof (induction xs arbitrary: p)
  case (Cons x xs)
  have "x \<notin> set xs"
  proof
    assume "x \<in> set xs"
    then obtain us vs where xs: "xs = us @ x # vs" by (auto simp: in_set_conv_decomp)
    with Cons.prems have "chain nx (nx x) xs" "chain nx (nx x) vs"
      using chain_suffix [of nx p "x # us" x vs] by auto
    then have "xs = vs" by (rule chain_unique)
    with xs show False by simp
  qed
  with Cons show ?case by auto
qed simp

lemma chain_last_None: "chain nx p (xs @ [x]) \<Longrightarrow> nx x = None"
  by (induction xs arbitrary: p) auto

lemma chain_snoc:
  assumes "chain nx p (xs @ [l])" "y \<notin> set (xs @ [l])"
  shows "chain (nx(y := None, l := Some y)) p (xs @ [l, y])"
  using assms chain_distinct [OF assms(1)]
  by (induction xs arbitrary: p) auto

text \<open>Unlinking an element from a chain: its predecessor, or the head, skips it.\<close>

lemma chain_unlink:
  assumes "chain nx p (us @ a # x # vs)"
  shows "chain (nx(a := nx x)) p (us @ a # vs)"
  using assms chain_distinct [OF assms]
  by (induction us arbitrary: p) auto

subsection \<open>FIFO queues\<close>

datatype 'a qop = Push 'a | Poll

text \<open>Running a sequence of operations: the elements polled, in order, and the queue left.\<close>

fun run_ops :: "('a \<Rightarrow> 'q \<Rightarrow> 'q res) \<Rightarrow> ('q \<Rightarrow> ('a option \<times> 'q) res) \<Rightarrow>
    'a qop list \<Rightarrow> 'q \<Rightarrow> ('a list \<times> 'q) res" where
  "run_ops push poll [] q = Inr ([], q)"
| "run_ops push poll (Push x # ops) q = bindR (push x q) (run_ops push poll ops)"
| "run_ops push poll (Poll # ops) q =
     bindR (poll q) (\<lambda>(r, q'). bindR (run_ops push poll ops q') (\<lambda>(ys, q'').
       Inr ((case r of None \<Rightarrow> ys | Some y \<Rightarrow> y # ys), q'')))"

fun pushed :: "'a qop list \<Rightarrow> 'a list" where
  "pushed [] = []"
| "pushed (Push x # ops) = x # pushed ops"
| "pushed (Poll # ops) = pushed ops"

fun n_polls :: "'a qop list \<Rightarrow> nat" where
  "n_polls [] = 0"
| "n_polls (Push x # ops) = n_polls ops"
| "n_polls (Poll # ops) = Suc (n_polls ops)"

text \<open>The sequence of operations respects the queue's precondition for pushing.\<close>

fun can_run :: "('a \<Rightarrow> 'a list \<Rightarrow> bool) \<Rightarrow> 'a qop list \<Rightarrow> 'a list \<Rightarrow> bool" where
  "can_run can [] xs \<longleftrightarrow> True"
| "can_run can (Push x # ops) xs \<longleftrightarrow> can x xs \<and> can_run can ops (xs @ [x])"
| "can_run can (Poll # ops) xs \<longleftrightarrow> can_run can ops (tl xs)"

locale fifo =
  fixes rep :: "'q \<Rightarrow> 'a list \<Rightarrow> bool"
    and can :: "'a \<Rightarrow> 'a list \<Rightarrow> bool"
    and push :: "'a \<Rightarrow> 'q \<Rightarrow> 'q res"
    and poll :: "'q \<Rightarrow> ('a option \<times> 'q) res"
  assumes push_law: "rep q xs \<Longrightarrow> can x xs \<Longrightarrow> \<exists>q'. push x q = Inr q' \<and> rep q' (xs @ [x])"
    and poll_empty: "rep q [] \<Longrightarrow> \<exists>q'. poll q = Inr (None, q') \<and> rep q' []"
    and poll_law: "rep q (x # xs) \<Longrightarrow> \<exists>q'. poll q = Inr (Some x, q') \<and> rep q' xs"
begin

text \<open>
  No operation fails, what has been polled is a prefix of what was queued followed by what was
  pushed, the rest is what is still queued.
\<close>

lemma fifo_law:
  "rep q xs \<Longrightarrow> can_run can ops xs \<Longrightarrow>
   \<exists>ys zs q'. run_ops push poll ops q = Inr (ys, q') \<and> rep q' zs \<and> xs @ pushed ops = ys @ zs"
proof (induction ops arbitrary: q xs)
  case (Cons op ops)
  show ?case
  proof (cases op)
    case (Push x)
    with Cons.prems have "rep q xs" "can x xs" by simp_all
    from push_law [OF this] obtain q1 where q1: "push x q = Inr q1" "rep q1 (xs @ [x])" by blast
    from Cons.IH [OF q1(2)] Cons.prems(2) Push q1(1) show ?thesis by simp
  next
    case Poll
    show ?thesis
    proof (cases xs)
      case Nil
      with Cons.prems obtain q1 where q1: "poll q = Inr (None, q1)" "rep q1 []"
        using poll_empty by auto
      from Cons.IH [OF q1(2)] Cons.prems(2) Poll Nil obtain ys zs q' where
        "run_ops push poll ops q1 = Inr (ys, q')" "rep q' zs" "pushed ops = ys @ zs" by auto
      with q1(1) Poll Nil show ?thesis by auto
    next
      case (Cons x xs')
      with Cons.prems have "rep q (x # xs')" by simp
      from poll_law [OF this] obtain q1 where q1: "poll q = Inr (Some x, q1)" "rep q1 xs'" by blast
      from Cons.IH [OF q1(2)] Cons.prems(2) Poll Cons obtain ys zs q' where
        "run_ops push poll ops q1 = Inr (ys, q')" "rep q' zs" "xs' @ pushed ops = ys @ zs" by auto
      with q1(1) Poll Cons show ?thesis by (intro exI [of _ "x # ys"] exI [of _ zs]) auto
    qed
  qed
qed auto

text \<open>Each poll takes one element while there is one: \<open>n\<close> polls deliver the first \<open>n\<close> elements.\<close>

lemma polls_deliver:
  assumes "rep q xs" "can_run can ops xs" "n_polls ops \<le> length xs"
  shows "\<exists>q'. run_ops push poll ops q = Inr (take (n_polls ops) xs, q')
    \<and> rep q' (drop (n_polls ops) xs @ pushed ops)"
  using assms
proof (induction ops arbitrary: q xs)
  case (Cons op ops)
  show ?case
  proof (cases op)
    case (Push x)
    with Cons.prems have "rep q xs" "can x xs" by simp_all
    from push_law [OF this] obtain q1 where q1: "push x q = Inr q1" "rep q1 (xs @ [x])" by blast
    from Cons.IH [OF q1(2)] Cons.prems(2,3) Push q1(1) show ?thesis by auto
  next
    case Poll
    with Cons.prems(3) obtain x xs' where xs: "xs = x # xs'" by (cases xs) auto
    with Cons.prems have "rep q (x # xs')" by simp
    from poll_law [OF this] obtain q1 where q1: "poll q = Inr (Some x, q1)" "rep q1 xs'" by blast
    from Cons.IH [OF q1(2)] Cons.prems(2,3) Poll xs q1(1) show ?thesis by auto
  qed
qed auto

end

subsection \<open>Rings indexed by free-running counters\<close>

text \<open>\<open>ring_list n buf h t\<close>: the entries from head counter \<open>h\<close> to tail counter \<open>t\<close>, oldest first.\<close>

definition ring_count :: "u32 \<Rightarrow> u32 \<Rightarrow> nat" where
  "ring_count h t = unat (t - h)"

definition ring_list :: "nat \<Rightarrow> 'a list \<Rightarrow> u32 \<Rightarrow> u32 \<Rightarrow> 'a list" where
  "ring_list n buf h t = map (\<lambda>i. buf ! ((unat h + i) mod n)) [0..<ring_count h t]"

lemma length_ring_list [simp]: "length (ring_list n buf h t) = ring_count h t"
  by (simp add: ring_list_def)

lemma ring_count_same [simp]: "ring_count h h = 0"
  by (simp add: ring_count_def)

lemma ring_count_0: "ring_count h t = 0 \<longleftrightarrow> h = t"
  by (auto simp: ring_count_def unat_eq_0)

lemma ring_count_tail:
  assumes "ring_count h t < 4294967295"
  shows "ring_count h (t + 1) = Suc (ring_count h t)"
proof -
  have "unat (t - h + 1) = unat (t - h) + unat (1::u32)"
    by (rule unat_plus) (use assms in \<open>simp add: ring_count_def\<close>)
  moreover have "t + 1 - h = t - h + 1" by simp
  ultimately show ?thesis unfolding ring_count_def by (simp only: unat_1 Suc_eq_plus1)
qed

lemma ring_count_head:
  assumes "h \<noteq> t" shows "ring_count (h + 1) t = ring_count h t - 1"
proof -
  have "0 < unat (t - h)" using assms by (metis neq0_conv ring_count_0 ring_count_def)
  then have "unat (t - h - 1) = unat (t - h) - 1" by (subst unat_minus) simp_all
  then show ?thesis by (simp add: ring_count_def diff_diff_eq)
qed

locale ring =
  fixes k :: nat and n :: nat and m :: u32
  assumes size: "n = 2 ^ k" and bits: "k < 32" and masked: "m = mask k"
begin

lemma n_pos [simp]: "0 < n"
  by (simp add: size)

lemma n_bound: "n \<le> 2147483648"
proof -
  have "(2::nat) ^ k \<le> 2 ^ 31" using bits by (intro power_increasing) simp_all
  then show ?thesis by (simp add: size)
qed

lemma index: "unat (x AND m) = unat x mod n"
  using unat_and_mask [OF masked, of x] by (simp add: size)

lemma index_less [simp]: "unat (x AND m) < n"
  by (simp add: index)

lemma n_dvd: "n dvd 4294967296"
proof -
  have "(2::nat) ^ k dvd 2 ^ 32" using bits by (intro le_imp_power_dvd) simp
  then show ?thesis by (simp add: size)
qed

lemma index_add: "unat (x + of_nat i :: u32) mod n = (unat x + i) mod n"
proof -
  have "unat (x + of_nat i) = (unat x + i) mod 4294967296"
    by (simp add: unat_word_ariths unat_of_nat mod_simps)
  then show ?thesis using n_dvd by (simp add: mod_mod_cancel)
qed

lemma index_Suc: "unat (x + 1 :: u32) mod n = Suc (unat x) mod n"
  using index_add [of x 1] by simp

lemma ring_pop:
  assumes "h \<noteq> t"
  shows "ring_list n buf h t = buf ! unat (h AND m) # ring_list n buf (h + 1) t"
proof -
  obtain c where c: "ring_count h t = Suc c"
    using assms ring_count_0 [of h t] by (cases "ring_count h t") auto
  have "(unat h + Suc i) mod n = (unat (h + 1) + i) mod n" for i
    using index_Suc [of h] by (metis mod_add_left_eq add_Suc_shift)
  then show ?thesis
    using c ring_count_head [OF assms]
    by (simp add: ring_list_def index upt_conv_Cons map_Suc_upt [symmetric] del: upt_Suc)
qed

lemma ring_tail_index: "(unat h + ring_count h t) mod n = unat (t AND m)"
  using index_add [of h "ring_count h t"] by (simp add: index ring_count_def)

lemma ring_other_index:
  assumes "i < c" "c < n" shows "(a + i) mod n \<noteq> (a + c) mod n"
proof
  assume "(a + i) mod n = (a + c) mod n"
  then have "n dvd (a + c) - (a + i)"
    using assms by (metis mod_eq_dvd_iff_nat nat_add_left_cancel_le order_less_imp_le)
  with assms show False by (simp add: nat_dvd_not_less)
qed

lemma ring_put:
  assumes "ring_count h t < n" "length buf = n"
  shows "ring_list n (buf[unat (t AND m) := x]) h (t + 1) = ring_list n buf h t @ [x]"
proof -
  have "ring_count h (t + 1) = Suc (ring_count h t)"
    using assms n_bound by (intro ring_count_tail) simp
  moreover have "buf[unat (t AND m) := x] ! ((unat h + i) mod n) = buf ! ((unat h + i) mod n)"
    if "i < ring_count h t" for i
    using ring_other_index [OF that assms(1), of "unat h"] by (simp add: ring_tail_index)
  moreover have "buf[unat (t AND m) := x] ! ((unat h + ring_count h t) mod n) = x"
    using assms(2) by (simp add: ring_tail_index)
  ultimately show ?thesis by (simp add: ring_list_def)
qed

lemma ring_count_put: "ring_count h t < n \<Longrightarrow> ring_count h (t + 1) = Suc (ring_count h t)"
  using n_bound by (intro ring_count_tail) simp

lemma ring_nth: "i < ring_count h t \<Longrightarrow> ring_list n buf h t ! i = buf ! unat ((h + of_nat i) AND m)"
  by (simp add: ring_list_def index index_add)

end

interpretation ring64: ring 6 64 63
  by unfold_locales (simp_all add: mask_eq_exp_minus_1)

interpretation ring256: ring 8 256 255
  by unfold_locales (simp_all add: mask_eq_exp_minus_1)

interpretation ring1024: ring 10 1024 1023
  by unfold_locales (simp_all add: mask_eq_exp_minus_1)

interpretation ring4096: ring 12 4096 4095
  by unfold_locales (simp_all add: mask_eq_exp_minus_1)

subsection \<open>Slot allocators\<close>

text \<open>
  A fixed table of slots whose free slots are recycled first-in first-out: the contract of
  \<open>task_table_alloc\<close>/\<open>task_table_free\<close> and of \<open>vfs_alloc_file\<close>/\<open>vfs_free_file\<close>.
\<close>

datatype sop = Alloc | Release nat

fun run_sops :: "('s \<Rightarrow> (nat option \<times> 's) res) \<Rightarrow> (nat \<Rightarrow> 's \<Rightarrow> 's res) \<Rightarrow> sop list \<Rightarrow> 's \<Rightarrow>
    (nat option list \<times> 's) res" where
  "run_sops alloc release [] s = Inr ([], s)"
| "run_sops alloc release (Alloc # ops) s =
     bindR (alloc s) (\<lambda>(r, s'). bindR (run_sops alloc release ops s') (\<lambda>(rs, s''). Inr (r # rs, s'')))"
| "run_sops alloc release (Release i # ops) s = bindR (release i s) (run_sops alloc release ops)"

text \<open>The same on the abstract list of free slots, and when a sequence may be run.\<close>

fun spec_sops :: "sop list \<Rightarrow> nat list \<Rightarrow> nat option list \<times> nat list" where
  "spec_sops [] fl = ([], fl)"
| "spec_sops (Alloc # ops) fl =
     (case fl of
        [] \<Rightarrow> (let (rs, fl') = spec_sops ops [] in (None # rs, fl'))
      | i # xs \<Rightarrow> (let (rs, fl') = spec_sops ops xs in (Some i # rs, fl')))"
| "spec_sops (Release i # ops) fl = spec_sops ops (fl @ [i])"

fun ok_sops :: "nat \<Rightarrow> sop list \<Rightarrow> nat list \<Rightarrow> bool" where
  "ok_sops N [] fl \<longleftrightarrow> True"
| "ok_sops N (Alloc # ops) fl \<longleftrightarrow> ok_sops N ops (tl fl)"
| "ok_sops N (Release i # ops) fl \<longleftrightarrow> i < N \<and> i \<notin> set fl \<and> ok_sops N ops (fl @ [i])"

lemma spec_sops_allocs:
  "n \<le> length fl \<Longrightarrow> spec_sops (replicate n Alloc) fl = (map Some (take n fl), drop n fl)"
  by (induction n arbitrary: fl) (auto simp: Suc_le_length_iff)

lemma ok_sops_allocs [simp]: "ok_sops N (replicate n Alloc) fl"
  by (induction n arbitrary: fl) auto

locale slot_allocator =
  fixes inv :: "'s \<Rightarrow> bool" and free :: "'s \<Rightarrow> nat list" and N :: nat
    and alloc :: "'s \<Rightarrow> (nat option \<times> 's) res" and release :: "nat \<Rightarrow> 's \<Rightarrow> 's res"
  assumes free_law: "inv s \<Longrightarrow> distinct (free s) \<and> set (free s) \<subseteq> {..<N}"
    and alloc_empty: "inv s \<Longrightarrow> free s = [] \<Longrightarrow> alloc s = Inr (None, s)"
    and alloc_law: "inv s \<Longrightarrow> free s = i # xs \<Longrightarrow> \<exists>s'. alloc s = Inr (Some i, s') \<and> inv s' \<and> free s' = xs"
    and release_law: "inv s \<Longrightarrow> i < N \<Longrightarrow> i \<notin> set (free s) \<Longrightarrow>
      \<exists>s'. release i s = Inr s' \<and> inv s' \<and> free s' = free s @ [i]"
begin

lemma run_refines:
  "inv s \<Longrightarrow> ok_sops N ops (free s) \<Longrightarrow>
   \<exists>s'. run_sops alloc release ops s = Inr (fst (spec_sops ops (free s)), s') \<and> inv s'
     \<and> free s' = snd (spec_sops ops (free s))"
proof (induction ops arbitrary: s)
  case (Cons op ops)
  show ?case
  proof (cases op)
    case Alloc
    show ?thesis
    proof (cases "free s")
      case Nil
      with Cons.prems have a: "alloc s = Inr (None, s)" by (simp add: alloc_empty)
      from Cons.IH [OF Cons.prems(1)] Cons.prems(2) Alloc Nil obtain s' where
        "run_sops alloc release ops s = Inr (fst (spec_sops ops []), s')" "inv s'"
        "free s' = snd (spec_sops ops [])" by auto
      with a Alloc Nil show ?thesis by (simp add: case_prod_beta)
    next
      case (Cons i xs)
      from alloc_law [OF Cons.prems(1) Cons] obtain s1 where
        s1: "alloc s = Inr (Some i, s1)" "inv s1" "free s1 = xs" by blast
      with Cons.IH [OF s1(2)] Cons.prems(2) Alloc Cons obtain s' where
        "run_sops alloc release ops s1 = Inr (fst (spec_sops ops xs), s')" "inv s'"
        "free s' = snd (spec_sops ops xs)" by auto
      with s1 Alloc Cons show ?thesis by (simp add: case_prod_beta)
    qed
  next
    case (Release i)
    with Cons.prems have "i < N" "i \<notin> set (free s)" by simp_all
    from release_law [OF Cons.prems(1) this] obtain s1 where
      s1: "release i s = Inr s1" "inv s1" "free s1 = free s @ [i]" by blast
    with Cons.IH [OF s1(2)] Cons.prems(2) Release show ?thesis by simp
  qed
qed simp

text \<open>As many allocations as there are free slots succeed, with distinct slots.\<close>

lemma allocs:
  assumes "inv s" "n \<le> length (free s)"
  shows "\<exists>s'. run_sops alloc release (replicate n Alloc) s = Inr (map Some (take n (free s)), s') \<and> inv s'
    \<and> free s' = drop n (free s) \<and> distinct (take n (free s))"
  using run_refines [OF assms(1), of "replicate n Alloc"] free_law [OF assms(1)]
  by (simp add: spec_sops_allocs [OF assms(2)] distinct_take)

text \<open>A released slot is handed out again only after all slots that were free before it.\<close>

lemma recycled_last:
  assumes "inv s" "i < N" "i \<notin> set (free s)"
  shows "\<exists>s'. run_sops alloc release (Release i # replicate (Suc (length (free s))) Alloc) s
    = Inr (map Some (free s @ [i]), s') \<and> inv s'"
proof -
  have "spec_sops (replicate (Suc (length (free s))) Alloc) (free s @ [i]) = (map Some (free s @ [i]), [])"
    by (subst spec_sops_allocs) simp_all
  then have "fst (spec_sops (Release i # replicate (Suc (length (free s))) Alloc) (free s))
    = map Some (free s @ [i])"
    by (simp only: spec_sops.simps fst_conv)
  with run_refines [OF assms(1), of "Release i # replicate (Suc (length (free s))) Alloc"] assms(2,3)
  show ?thesis by (metis ok_sops.simps(3) ok_sops_allocs)
qed

end

end
