(* ===== verification/Task.thy ===== *)
theory Task
  imports Kstring
begin

section \<open>include/kernel/sched.h: tasks\<close>

text \<open>
  The task record and the constants of include/kernel/constants.h. A \<open>struct task *\<close> is the index
  of its slot in the task table, the only place tasks live: \<open>None\<close> is \<open>NULL\<close>, and \<open>tasks\<close> maps
  a slot index to the task in it. A \<open>struct file *\<close> is an index into the file table of fs/vfs.c
  and a \<open>struct tty *\<close> an index into the terminals of kernel/core/tty.c. The kernel stack, the
  saved registers and the address space of a task are left out but for the user stack pointer and
  the physical base of its process region; the two wait queues of \<open>struct signal\<close> live in
  theory WaitQueue, which maps queue names to queues.
\<close>

definition MAX_PROCESS_CNT :: nat where "MAX_PROCESS_CNT = 64"
definition RLIMIT_NOFILE :: nat where "RLIMIT_NOFILE = 16"
definition MAX_FILE_CNT :: nat where "MAX_FILE_CNT = 1024"
definition MAX_FILENAME_LEN :: nat where "MAX_FILENAME_LEN = 64"
definition TTY_COUNT :: nat where "TTY_COUNT = 12"
definition MAX_SIGNALS :: int where "MAX_SIGNALS = 32"
definition PID_NONE :: int where "PID_NONE = -1"
definition PROCESS_PA_START :: u32 where "PROCESS_PA_START = 1 * 1024 * 1024 + 4 * 1024 * 1024"
definition PROCESS_VA_BASE :: u32 where "PROCESS_VA_BASE = 4 * 1024 * 1024"
definition PROCESS_VA_SIZE :: u32 where "PROCESS_VA_SIZE = 1024 * 1024"
definition PROCESS_HEAP_SIZE :: u32 where "PROCESS_HEAP_SIZE = 512 * 1024"
definition PROCESS_STACK_TOP :: u32 where
  "PROCESS_STACK_TOP = PROCESS_VA_BASE + PROCESS_VA_SIZE - 4 * 1024"

lemma MAX_PROCESS_CNT_simp [simp]: "MAX_PROCESS_CNT = 64"
  by (simp add: MAX_PROCESS_CNT_def)

datatype sched_state =
    TASK_ZEROED
  | TASK_POOLED
  | TASK_QUEUED
  | TASK_RUNNING
  | TASK_INTERRUPTIBLE
  | TASK_UNINTERRUPTIBLE
  | TASK_ZOMBIE

text \<open>\<open>TASK_ZEROED\<close> is the value 0 that \<open>k_memset\<close> leaves and no enumerator names.\<close>

record task =
  t_pid :: int
  t_next :: "nat option"
  t_parent :: "nat option"
  t_children :: "nat option"
  t_next_sibling :: "nat option"
  t_exit_status :: int
  t_cwd :: "char list"
  t_name :: "char list"
  t_files :: "nat option list"
  t_ctty :: "nat option"
  t_state :: sched_state
  t_ctxt :: u64
  t_brk :: u32
  t_brk_limit :: u32
  t_sys_call_cnt :: u64
  t_pending :: u32
  t_u_sp :: u32
  t_pa :: u32

type_synonym tasks = "nat \<Rightarrow> task"

text \<open>\<open>k_memset(task, 0, sizeof(struct task))\<close>\<close>

definition zero_task :: task where
  "zero_task =
     \<lparr> t_pid = 0, t_next = None, t_parent = None, t_children = None, t_next_sibling = None,
       t_exit_status = 0, t_cwd = replicate 64 NUL, t_name = replicate 64 NUL,
       t_files = replicate 16 None, t_ctty = None, t_state = TASK_ZEROED, t_ctxt = 0,
       t_brk = 0, t_brk_limit = 0, t_sys_call_cnt = 0, t_pending = 0, t_u_sp = 0, t_pa = 0 \<rparr>"

text \<open>\<open>task->field = \<dots>\<close> through a pointer to slot \<open>i\<close>.\<close>

definition upd :: "nat \<Rightarrow> (task \<Rightarrow> task) \<Rightarrow> tasks \<Rightarrow> tasks" where
  "upd i f ts = ts(i := f (ts i))"

lemma upd_same [simp]: "upd i f ts i = f (ts i)"
  by (simp add: upd_def)

lemma upd_other [simp]: "j \<noteq> i \<Longrightarrow> upd i f ts j = ts j"
  by (simp add: upd_def)

lemma upd_apply: "upd i f ts j = (if j = i then f (ts j) else ts j)"
  by (simp add: upd_def)

text \<open>A null dereference is a bad access.\<close>

definition deref :: "'a option \<Rightarrow> 'a res" where
  "deref p = of_opt p"

lemma deref_simps [simp, res_simps]: "deref (Some x) = Inr x" "deref None = Inl BadAccess"
  by (simp_all add: deref_def)

section \<open>fs/files.c: file descriptors of a task\<close>

text \<open>
  \<open>struct files\<close> is an array of 16 file pointers. \<open>files_free_fd\<close> is declared to return a file
  and does; \<open>files_alloc_fd\<close> takes the lowest free descriptor.
\<close>

definition files_init :: "nat option list" where
  "files_init = replicate RLIMIT_NOFILE None"

definition files_find_by_fd :: "nat option list \<Rightarrow> int \<Rightarrow> nat option" where
  "files_find_by_fd fs fd =
     (if fd < 0 \<or> fd \<ge> int RLIMIT_NOFILE then None else fs ! nat fd)"

fun alloc_fd_loop :: "nat \<Rightarrow> nat option list \<Rightarrow> nat \<Rightarrow> int \<times> nat option list" where
  "alloc_fd_loop 0 fs file = (-1, fs)"
| "alloc_fd_loop (Suc n) fs file =
     (let fd = RLIMIT_NOFILE - Suc n
      in if fs ! fd = None then (int fd, fs[fd := Some file]) else alloc_fd_loop n fs file)"

definition files_alloc_fd :: "nat option list \<Rightarrow> nat option \<Rightarrow> (int \<times> nat option list) res" where
  "files_alloc_fd fs file =
     (case file of None \<Rightarrow> Inl (Panic (''files_alloc_fd: file can'' @ [CHR 0x27] @ ''t be null''))
      | Some f \<Rightarrow> Inr (alloc_fd_loop RLIMIT_NOFILE fs f))"

definition files_free_fd :: "nat option list \<Rightarrow> int \<Rightarrow> nat option \<times> nat option list" where
  "files_free_fd fs fd =
     (if fd < 0 \<or> fd \<ge> int RLIMIT_NOFILE then (None, fs)
      else case fs ! nat fd of None \<Rightarrow> (None, fs) | Some f \<Rightarrow> (Some f, fs[nat fd := None]))"

lemma alloc_fd_loop_ok:
  assumes "length fs = RLIMIT_NOFILE" "n \<le> RLIMIT_NOFILE"
    "\<forall>j < RLIMIT_NOFILE - n. fs ! j \<noteq> None"
  shows "alloc_fd_loop n fs f =
    (if None \<in> set fs then (let fd = (LEAST i. i < RLIMIT_NOFILE \<and> fs ! i = None) in (int fd, fs[fd := Some f]))
     else (-1, fs))"
  using assms(2,3)
proof (induction n)
  case 0
  then have "None \<notin> set fs" using assms(1) by (auto simp: in_set_conv_nth)
  then show ?case by simp
next
  case (Suc n)
  let ?fd = "RLIMIT_NOFILE - Suc n"
  have step: "alloc_fd_loop (Suc n) fs f =
    (if fs ! ?fd = None then (int ?fd, fs[?fd := Some f]) else alloc_fd_loop n fs f)"
    by (simp only: alloc_fd_loop.simps Let_def)
  have lt: "?fd < RLIMIT_NOFILE" using Suc.prems(1) by simp
  show ?case
  proof (cases "fs ! ?fd = None")
    case True
    have "(LEAST i. i < RLIMIT_NOFILE \<and> fs ! i = None) = ?fd"
      using True lt Suc.prems(2) by (intro Least_equality) (auto intro: leI)
    moreover have "None \<in> set fs" using True lt assms(1) by (metis nth_mem)
    ultimately show ?thesis unfolding step using True by (simp only: Let_def simp_thms if_True)
  next
    case False
    have "\<forall>j < RLIMIT_NOFILE - n. fs ! j \<noteq> None"
    proof (intro allI impI)
      fix j assume "j < RLIMIT_NOFILE - n"
      with Suc.prems(1) have "j < ?fd \<or> j = ?fd" by linarith
      with False Suc.prems(2) show "fs ! j \<noteq> None" by auto
    qed
    with Suc.IH Suc.prems(1) have "alloc_fd_loop n fs f = (if None \<in> set fs
      then (let fd = (LEAST i. i < RLIMIT_NOFILE \<and> fs ! i = None) in (int fd, fs[fd := Some f])) else (-1, fs))"
      by (simp only: Suc_leD)
    then show ?thesis unfolding step by (simp only: False if_False)
  qed
qed

definition files_ok :: "nat option list \<Rightarrow> bool" where
  "files_ok fs \<longleftrightarrow> length fs = RLIMIT_NOFILE"

lemma files_init_ok [simp]: "files_ok files_init"
  by (simp add: files_ok_def files_init_def)

lemma files_alloc_fd_ok:
  "files_ok fs \<Longrightarrow> files_alloc_fd fs (Some f) = Inr
    (if None \<in> set fs then (let fd = (LEAST i. i < RLIMIT_NOFILE \<and> fs ! i = None) in (int fd, fs[fd := Some f]))
     else (-1, fs))"
  by (simp add: files_alloc_fd_def files_ok_def alloc_fd_loop_ok)

lemma files_alloc_fd_Some:
  assumes "files_ok fs" "files_alloc_fd fs (Some f) = Inr (fd, fs')" "0 \<le> fd"
  shows "fd < int RLIMIT_NOFILE \<and> fs ! nat fd = None \<and> (\<forall>j < nat fd. fs ! j \<noteq> None)
    \<and> fs' = fs[nat fd := Some f] \<and> files_ok fs' \<and> files_find_by_fd fs' fd = Some f"
proof -
  let ?P = "\<lambda>i. i < RLIMIT_NOFILE \<and> fs ! i = None"
  obtain L where L: "L = Least ?P" by simp
  have eq: "Inr (fd, fs') = (Inr (if None \<in> set fs then (int L, fs[L := Some f]) else (-1, fs)) :: (int \<times> nat option list) res)"
    using files_alloc_fd_ok [OF assms(1), of f] assms(2) by (simp only: L Let_def)
  then have some: "None \<in> set fs" using assms(3) by (auto split: if_splits)
  with eq have fd: "fd = int L" "fs' = fs[L := Some f]" by simp_all
  from some assms(1) obtain i where "?P i" by (auto simp: in_set_conv_nth files_ok_def)
  then have P: "?P L" unfolding L by (rule LeastI)
  moreover have "fs ! j \<noteq> None" if "j < L" for j
    using not_less_Least [of j ?P] that P by (simp add: L [symmetric])
  ultimately show ?thesis
    using assms(1) by (simp add: fd files_ok_def files_find_by_fd_def)
qed

lemma files_free_fd_found:
  "files_ok fs \<Longrightarrow> files_find_by_fd fs fd = Some f \<Longrightarrow>
   files_free_fd fs fd = (Some f, fs[nat fd := None])"
  by (auto simp: files_free_fd_def files_find_by_fd_def split: if_splits)

lemma files_free_fd_ok: "files_ok fs \<Longrightarrow> files_ok (snd (files_free_fd fs fd))"
  by (auto simp: files_free_fd_def files_ok_def split: option.split)

end
