(* ===== verification/RunQueue.thy ===== *)
theory RunQueue
  imports Task Fifo
begin

section \<open>kernel/core/sched.c: the run queue\<close>

text \<open>
  The intrusive singly linked queue of runnable tasks: \<open>first\<close>, \<open>last\<close> and \<open>len\<close> in the queue, the
  link in \<open>task->next\<close>. \<open>rq_rep\<close> says which list of task slots a queue holds; \<open>run_queue_push\<close>
  and \<open>run_queue_poll\<close> implement appending to it and taking its head, which makes the run queue an
  interpretation of \<open>fifo\<close>. Pushing requires the task not to be queued already: the code does
  not check it, and \<open>push_again_corrupts\<close> shows what happens otherwise.
\<close>

record run_queue =
  rq_first :: "nat option"
  rq_last :: "nat option"
  rq_len :: u32

definition run_queue_init :: run_queue where
  "run_queue_init = \<lparr> rq_first = None, rq_last = None, rq_len = 0 \<rparr>"

definition run_queue_push :: "nat \<Rightarrow> run_queue \<times> tasks \<Rightarrow> (run_queue \<times> tasks) res" where
  "run_queue_push t = (\<lambda>(rq, ts).
     let ts1 = upd t (\<lambda>x. x\<lparr>t_next := None\<rparr>) ts
     in if rq_len rq = 0
        then Inr (rq\<lparr>rq_first := Some t, rq_last := Some t, rq_len := rq_len rq + 1\<rparr>, ts1)
        else bindR (deref (rq_last rq)) (\<lambda>l.
          Inr (rq\<lparr>rq_last := Some t, rq_len := rq_len rq + 1\<rparr>, upd l (\<lambda>x. x\<lparr>t_next := Some t\<rparr>) ts1)))"

definition run_queue_poll :: "run_queue \<times> tasks \<Rightarrow> (nat option \<times> run_queue \<times> tasks) res" where
  "run_queue_poll = (\<lambda>(rq, ts).
     if rq_len rq = 0 then Inr (None, rq, ts)
     else bindR (deref (rq_first rq)) (\<lambda>t.
       let rq1 = rq\<lparr>rq_first := t_next (ts t), rq_len := rq_len rq - 1\<rparr>;
           rq2 = (if rq_len rq1 = 0 then rq1\<lparr>rq_last := None\<rparr> else rq1)
       in Inr (Some t, rq2, upd t (\<lambda>x. x\<lparr>t_next := None\<rparr>) ts)))"

definition rq_rep :: "run_queue \<times> tasks \<Rightarrow> nat list \<Rightarrow> bool" where
  "rq_rep = (\<lambda>(rq, ts) xs.
     chain (\<lambda>i. t_next (ts i)) (rq_first rq) xs \<and>
     rq_last rq = (if xs = [] then None else Some (last xs)) \<and>
     unat (rq_len rq) = length xs \<and> set xs \<subseteq> {..<MAX_PROCESS_CNT})"

definition rq_can :: "nat \<Rightarrow> nat list \<Rightarrow> bool" where
  "rq_can t xs \<longleftrightarrow> t < MAX_PROCESS_CNT \<and> t \<notin> set xs"

lemma t_next_upd: "(\<lambda>i. t_next (upd j (\<lambda>x. x\<lparr>t_next := v\<rparr>) ts i)) = (\<lambda>i. t_next (ts i))(j := v)"
  by (auto simp: upd_apply fun_eq_iff)

lemma rq_rep_distinct: "rq_rep (rq, ts) xs \<Longrightarrow> distinct xs"
  by (auto simp: rq_rep_def dest: chain_distinct)

lemma rq_rep_length: "rq_rep (rq, ts) xs \<Longrightarrow> length xs \<le> MAX_PROCESS_CNT"
proof -
  assume r: "rq_rep (rq, ts) xs"
  then have "card (set xs) = length xs" using rq_rep_distinct distinct_card by blast
  moreover have "card (set xs) \<le> card {..<MAX_PROCESS_CNT}"
    using r by (intro card_mono) (auto simp: rq_rep_def)
  ultimately show ?thesis by simp
qed

lemma rq_rep_unique: "rq_rep (rq, ts) xs \<Longrightarrow> rq_rep (rq, ts) ys \<Longrightarrow> xs = ys"
  by (auto simp: rq_rep_def dest: chain_unique)

lemma rq_init_rep: "rq_rep (run_queue_init, ts) []"
  by (simp add: rq_rep_def run_queue_init_def)

lemma rq_len_0: "rq_rep (rq, ts) xs \<Longrightarrow> rq_len rq = 0 \<longleftrightarrow> xs = []"
  by (auto simp: rq_rep_def unat_eq_0 [symmetric])

lemma rq_rep_cong:
  "rq_rep (rq, ts) xs \<Longrightarrow> (\<And>i. i \<in> set xs \<Longrightarrow> t_next (ts' i) = t_next (ts i)) \<Longrightarrow> rq_rep (rq, ts') xs"
  using chain_cong [of xs "\<lambda>i. t_next (ts' i)" "\<lambda>i. t_next (ts i)" "rq_first rq"]
  by (simp add: rq_rep_def)

lemma run_queue_push_ok:
  assumes "rq_rep (rq, ts) xs" "rq_can t xs"
  shows "\<exists>q'. run_queue_push t (rq, ts) = Inr q' \<and> rq_rep q' (xs @ [t])"
proof (cases xs rule: rev_cases)
  case Nil
  with assms have "rq_len rq = 0" by (simp add: rq_len_0)
  with assms Nil show ?thesis
    by (simp add: run_queue_push_def rq_rep_def rq_can_def)
next
  case (snoc ys l)
  have len: "rq_len rq \<noteq> 0" using assms(1) snoc rq_len_0 by blast
  have "length xs \<le> MAX_PROCESS_CNT" using assms(1) by (rule rq_rep_length)
  then have inc: "unat (rq_len rq + 1) = Suc (length xs)"
    using assms(1) by (simp add: rq_rep_def MAX_PROCESS_CNT_def unat_plus)
  have ch: "chain (\<lambda>i. t_next (ts i)) (rq_first rq) (ys @ [l])" and t: "t \<notin> set (ys @ [l])"
    using assms snoc by (simp_all add: rq_rep_def rq_can_def)
  let ?ts = "upd l (\<lambda>x. x\<lparr>t_next := Some t\<rparr>) (upd t (\<lambda>x. x\<lparr>t_next := None\<rparr>) ts)"
  have "(\<lambda>i. t_next (?ts i)) = (\<lambda>i. t_next (ts i))(t := None, l := Some t)"
    by (simp add: t_next_upd)
  with chain_snoc [OF ch t] have "chain (\<lambda>i. t_next (?ts i)) (rq_first rq) (ys @ [l, t])" by simp
  with assms snoc len inc show ?thesis
    by (auto simp: run_queue_push_def rq_rep_def rq_can_def)
qed

lemma run_queue_poll_Nil:
  "rq_rep (rq, ts) [] \<Longrightarrow> run_queue_poll (rq, ts) = Inr (None, rq, ts)"
  by (simp add: run_queue_poll_def rq_len_0)

lemma run_queue_poll_Cons:
  assumes "rq_rep (rq, ts) (t # xs)"
  shows "\<exists>rq'. run_queue_poll (rq, ts) = Inr (Some t, rq', upd t (\<lambda>x. x\<lparr>t_next := None\<rparr>) ts)
    \<and> rq_rep (rq', upd t (\<lambda>x. x\<lparr>t_next := None\<rparr>) ts) xs"
proof -
  have len: "rq_len rq \<noteq> 0" using assms rq_len_0 by blast
  have first: "rq_first rq = Some t" and ch: "chain (\<lambda>i. t_next (ts i)) (t_next (ts t)) xs"
    and t: "t \<notin> set xs" and n: "unat (rq_len rq) = Suc (length xs)"
    using assms rq_rep_distinct [OF assms] by (auto simp: rq_rep_def)
  have dec: "unat (rq_len rq - 1) = length xs"
    using n by (simp add: unat_minus)
  then have zero: "rq_len rq - 1 = 0 \<longleftrightarrow> xs = []"
    by (metis length_0_conv unat_eq_0)
  show ?thesis
    using assms len first ch t dec zero
    by (auto simp: run_queue_poll_def rq_rep_def t_next_upd Let_def)
qed

interpretation rq: fifo rq_rep rq_can run_queue_push run_queue_poll
proof unfold_locales
  fix q xs x assume "rq_rep q xs" "rq_can x xs"
  then show "\<exists>q'. run_queue_push x q = Inr q' \<and> rq_rep q' (xs @ [x])"
    using run_queue_push_ok by (cases q) auto
next
  fix q assume "rq_rep q []"
  then show "\<exists>q'. run_queue_poll q = Inr (None, q') \<and> rq_rep q' []"
    using run_queue_poll_Nil by (cases q) auto
next
  fix q x xs assume "rq_rep q (x # xs)"
  then show "\<exists>q'. run_queue_poll q = Inr (Some x, q') \<and> rq_rep q' xs"
    using run_queue_poll_Cons by (cases q) blast
qed

text \<open>What pushing and polling change in the tasks: only link fields.\<close>

lemma run_queue_push_frame:
  "run_queue_push t (rq, ts) = Inr (rq', ts') \<Longrightarrow> \<exists>v. ts' i = (ts i)\<lparr>t_next := v\<rparr>"
  by (cases "ts i") (auto simp: run_queue_push_def Let_def upd_apply bindR_eq_Inr split: if_splits)

lemma run_queue_poll_frame:
  "run_queue_poll (rq, ts) = Inr (r, rq', ts') \<Longrightarrow> \<exists>v. ts' i = (ts i)\<lparr>t_next := v\<rparr>"
  by (cases "ts i") (auto simp: run_queue_poll_def Let_def upd_apply bindR_eq_Inr split: if_splits)

subsection \<open>Properties\<close>



text \<open>
  Round-robin waiting time: a task with \<open>k\<close> tasks ahead of it in the run queue is the one
  taken by the \<open>(k + 1)\<close>-th poll, whatever tasks are pushed in between.
\<close>

theorem run_queue_waiting_time:
  assumes "rq_rep (rq, ts) (us @ t # vs)" "can_run rq_can ops (us @ t # vs)"
    "n_polls ops = length us"
  shows "\<exists>q'. run_ops run_queue_push run_queue_poll (ops @ [Poll]) (rq, ts) = Inr (us @ [t], q')
    \<and> rq_rep q' (vs @ pushed ops)"
proof -
  have "can_run rq_can (ops @ [Poll]) xs \<longleftrightarrow> can_run rq_can ops xs" for xs
    by (induction ops xs rule: can_run.induct [of _ rq_can]) simp_all
  moreover have "n_polls (ops @ [Poll]) = Suc (n_polls ops)" "pushed (ops @ [Poll]) = pushed ops"
    by (induction ops rule: pushed.induct) simp_all
  ultimately show ?thesis
    using rq.polls_deliver [OF assms(1), of "ops @ [Poll]"] assms(2,3) by simp
qed

theorem run_queue_waiting_time_witness:
  "\<exists>q'. run_ops run_queue_push run_queue_poll ([Push 7] @ [Poll])
      (\<lparr> rq_first = Some 2, rq_last = Some 2, rq_len = 1 \<rparr>, \<lambda>_. zero_task) = Inr ([] @ [2], q')
    \<and> rq_rep q' ([] @ pushed [Push 7])"
  by (rule run_queue_waiting_time)
    (simp_all add: rq_rep_def rq_can_def MAX_PROCESS_CNT_def zero_task_def)

text \<open>
  Pushing a task that is already queued corrupts the queue. With tasks \<open>a\<close> and \<open>b\<close> queued,
  pushing \<open>a\<close> again cuts \<open>b\<close> off: the queue's length is three, the first poll returns \<open>a\<close>, and the
  second follows a null pointer, so \<open>b\<close> never runs.
\<close>

theorem push_again_corrupts:
  assumes "rq_rep (rq, ts) [a, b]"
  shows "run_ops run_queue_push run_queue_poll [Push a, Poll, Poll] (rq, ts) = Inl BadAccess"
proof -
  have ne: "a \<noteq> b" and first: "rq_first rq = Some a" "rq_last rq = Some b" "unat (rq_len rq) = 2"
    using assms rq_rep_distinct [OF assms] by (auto simp: rq_rep_def)
  have two: "rq_len rq = 2" using first(3) by (simp add: word_unat_eq_iff)
  show ?thesis
    using ne first two by (simp add: run_queue_push_def run_queue_poll_def)
qed

theorem push_again_corrupts_witness:
  "run_ops run_queue_push run_queue_poll [Push 3, Poll, Poll]
     (\<lparr> rq_first = Some 3, rq_last = Some 5, rq_len = 2 \<rparr>, (\<lambda>_. zero_task)(3 := zero_task\<lparr>t_next := Some 5\<rparr>))
   = Inl BadAccess"
  by (rule push_again_corrupts [where b = 5]) (simp add: rq_rep_def MAX_PROCESS_CNT_def zero_task_def)

end
