(* ===== verification/TaskTable.thy ===== *)
theory TaskTable
  imports Task Fifo
begin

section \<open>kernel/core/task_table.c: the task table\<close>

text \<open>
  64 slots, each with a task and a generation, and a ring of free slot numbers. A pid is
  \<open>generation * 64 + slot\<close>, so a slot's pids differ from one allocation to the next and the slot
  of a pid is its low six bits. \<open>tt_inv\<close> is the table's invariant: the ring holds distinct slots,
  a slot is in it exactly if its task has no pid, and a task's pid names its slot. The table is an
  interpretation of \<open>slot_allocator\<close>.
\<close>

definition PID_MASK :: int where "PID_MASK = 63"
definition MAX_GENERATION :: u32 where "MAX_GENERATION = 2147483647 div 64"

record task_table =
  tt_free_ring :: "u32 list"
  tt_head :: u32
  tt_tail :: u32
  tt_gen :: "nat \<Rightarrow> u32"

type_synonym table = "task_table \<times> tasks"

fun task_table_init_loop :: "nat \<Rightarrow> u32 \<Rightarrow> table \<Rightarrow> table" where
  "task_table_init_loop 0 next_free_pa tab = tab"
| "task_table_init_loop (Suc n) next_free_pa (tt, ts) =
     (let task_idx = MAX_PROCESS_CNT - Suc n;
          tt1 = tt\<lparr>tt_gen := (tt_gen tt)(task_idx := 0)\<rparr>;
          ts1 = ts(task_idx := zero_task\<lparr>t_state := TASK_POOLED, t_pid := PID_NONE, t_pa := next_free_pa\<rparr>);
          tt2 = tt1\<lparr>tt_free_ring := (tt_free_ring tt1)[task_idx := of_nat task_idx]\<rparr>;
          ts2 = upd task_idx (\<lambda>x. x\<lparr>t_files := files_init\<rparr>) ts1
      in task_table_init_loop n (next_free_pa + PROCESS_VA_SIZE) (tt2, ts2))"

definition task_table_init :: "table \<Rightarrow> table" where
  "task_table_init = (\<lambda>(tt, ts).
     task_table_init_loop MAX_PROCESS_CNT PROCESS_PA_START
       (tt\<lparr>tt_head := 0, tt_tail := of_nat MAX_PROCESS_CNT\<rparr>, ts))"

definition task_table_find_task_by_pid :: "tasks \<Rightarrow> int \<Rightarrow> nat option" where
  "task_table_find_task_by_pid ts pid =
     (if pid < 0 then None
      else let slot_idx = nat (pid AND PID_MASK)
           in if t_pid (ts slot_idx) \<noteq> pid then None else Some slot_idx)"

definition task_table_alloc :: "table \<Rightarrow> (nat option \<times> table) res" where
  "task_table_alloc = (\<lambda>(tt, ts).
     if tt_head tt = tt_tail tt then Inr (None, tt, ts)
     else
       let free_ring_idx = unat (tt_head tt AND 63)
       in bindR (of_opt (rd (tt_free_ring tt) free_ring_idx)) (\<lambda>slot.
         let slot_idx = unat slot
         in if slot_idx \<ge> MAX_PROCESS_CNT then Inl BadAccess
            else
              let g = tt_gen tt slot_idx;
                  ts1 = upd slot_idx (\<lambda>x. x\<lparr>t_pid := sint (g * 64 + slot)\<rparr>) ts;
                  tt1 = tt\<lparr>tt_gen := (tt_gen tt)(slot_idx := (g + 1) AND MAX_GENERATION)\<rparr>
              in Inr (Some slot_idx, tt1\<lparr>tt_head := tt_head tt1 + 1\<rparr>, ts1)))"

definition task_table_free :: "nat \<Rightarrow> table \<Rightarrow> table res" where
  "task_table_free t = (\<lambda>(tt, ts).
     if tt_tail tt - tt_head tt = of_nat MAX_PROCESS_CNT
     then Inl (Panic ''task_table_free: too many frees.'')
     else
       let pid = t_pid (ts t)
       in if pid < 0 then Inl (Panic ''task_table_free: task has negative pid.'')
          else
            let slot_idx = nat (pid AND PID_MASK);
                free_ring_idx = unat (tt_tail tt AND 63)
            in if slot_idx \<noteq> t then Inl (Panic ''task_table_free: task pointer/slot mismatch'')
               else bindR (of_opt (wr (tt_free_ring tt) free_ring_idx (of_nat slot_idx))) (\<lambda>ring'.
                 Inr (tt\<lparr>tt_free_ring := ring', tt_tail := tt_tail tt + 1\<rparr>,
                      upd t (\<lambda>x. x\<lparr>t_pid := PID_NONE, t_state := TASK_POOLED, t_children := None,
                        t_parent := None, t_next_sibling := None\<rparr>) ts)))"

subsection \<open>The invariant\<close>

definition tt_free :: "table \<Rightarrow> nat list" where
  "tt_free = (\<lambda>(tt, ts). map unat (ring_list 64 (tt_free_ring tt) (tt_head tt) (tt_tail tt)))"

definition tt_inv :: "table \<Rightarrow> bool" where
  "tt_inv = (\<lambda>(tt, ts).
     length (tt_free_ring tt) = 64 \<and> ring_count (tt_head tt) (tt_tail tt) \<le> 64 \<and>
     distinct (tt_free (tt, ts)) \<and> set (tt_free (tt, ts)) \<subseteq> {..<64} \<and>
     (\<forall>i < 64. unat (tt_gen tt i) < 33554432 \<and>
        (if i \<in> set (tt_free (tt, ts)) then t_pid (ts i) = -1
         else 0 \<le> t_pid (ts i) \<and> t_pid (ts i) mod 64 = int i)))"

lemma pid_slot: "0 \<le> p \<Longrightarrow> nat (p AND PID_MASK) = nat (p mod 64)"
proof -
  have "(63::int) = mask 6" by (simp add: mask_eq_exp_minus_1)
  then have "p AND 63 = p mod 2 ^ 6" by (simp only: take_bit_eq_mask [symmetric] take_bit_eq_mod)
  then show ?thesis by (simp add: PID_MASK_def)
qed

lemma new_pid:
  fixes g s :: u32
  assumes "unat g < 33554432" "unat s < 64"
  shows "sint (g * 64 + s) = int (unat g * 64 + unat s)"
proof -
  have m: "unat (g * 64) = unat g * 64" using assms by (subst unat_times) simp_all
  then have u: "unat (g * 64 + s) = unat g * 64 + unat s" using assms by (subst unat_plus) simp_all
  have "sint (g * 64 + s) = int (unat (g * 64 + s))"
    by (rule sint_unat) (use u assms in linarith)
  then show ?thesis by (simp only: u)
qed

lemma next_generation:
  fixes g :: u32
  shows "unat ((g + 1) AND MAX_GENERATION) = unat (g + 1) mod 33554432"
proof -
  have "MAX_GENERATION = mask 25"
    by (simp add: MAX_GENERATION_def mask_eq_exp_minus_1)
  then have "unat ((g + 1) AND MAX_GENERATION) = unat (g + 1) mod 2 ^ 25" by (rule unat_and_mask)
  moreover have "(2::nat) ^ 25 = 33554432" by simp
  ultimately show ?thesis by (simp only:)
qed

lemma tt_invD:
  assumes "tt_inv (tt, ts)"
  shows "length (tt_free_ring tt) = 64" "ring_count (tt_head tt) (tt_tail tt) \<le> 64"
    "distinct (tt_free (tt, ts))" "set (tt_free (tt, ts)) \<subseteq> {..<64}"
    "i < 64 \<Longrightarrow> unat (tt_gen tt i) < 33554432"
  using assms by (simp_all add: tt_inv_def)

lemma tt_inv_slot:
  "tt_inv (tt, ts) \<Longrightarrow> i < 64 \<Longrightarrow> i \<notin> set (tt_free (tt, ts)) \<Longrightarrow>
   0 \<le> t_pid (ts i) \<and> t_pid (ts i) mod 64 = int i"
  by (simp add: tt_inv_def)

lemma tt_inv_free_slot:
  "tt_inv (tt, ts) \<Longrightarrow> i \<in> set (tt_free (tt, ts)) \<Longrightarrow> i < 64 \<and> t_pid (ts i) = -1"
  by (auto simp: tt_inv_def)

lemma tt_inv_cong:
  assumes "tt_inv (tt, ts)" "\<And>i. t_pid (ts' i) = t_pid (ts i)"
  shows "tt_inv (tt, ts')" "tt_free (tt, ts') = tt_free (tt, ts)"
  using assms by (simp_all add: tt_inv_def tt_free_def)

subsection \<open>The operations keep it\<close>

lemma task_table_find_ok:
  assumes "tt_inv (tt, ts)"
  shows "task_table_find_task_by_pid ts pid = Some i \<longleftrightarrow>
    i < 64 \<and> i \<notin> set (tt_free (tt, ts)) \<and> t_pid (ts i) = pid"
proof (cases "pid < 0")
  case True
  with tt_inv_slot [OF assms, of i] show ?thesis
    by (auto simp: task_table_find_task_by_pid_def)
next
  case False
  then have s: "nat (pid AND PID_MASK) = nat (pid mod 64)" "nat (pid mod 64) < 64"
    by (simp_all add: pid_slot nat_less_iff)
  show ?thesis
    using False tt_inv_slot [OF assms, of i] tt_inv_free_slot [OF assms, of i] s
    by (auto simp: task_table_find_task_by_pid_def Let_def)
qed

lemma tt_free_empty: "tt_free (tt, ts) = [] \<longleftrightarrow> tt_head tt = tt_tail tt"
  by (simp add: tt_free_def flip: length_0_conv) (simp add: ring_count_0)

lemma task_table_alloc_None:
  "tt_free (tt, ts) = [] \<Longrightarrow> task_table_alloc (tt, ts) = Inr (None, tt, ts)"
  by (simp add: task_table_alloc_def tt_free_empty)

lemma task_table_alloc_Cons:
  assumes inv: "tt_inv (tt, ts)" and fl: "tt_free (tt, ts) = i # xs"
  defines "pid \<equiv> int (unat (tt_gen tt i) * 64 + i)"
  shows "\<exists>tt'. task_table_alloc (tt, ts) = Inr (Some i, tt', upd i (\<lambda>x. x\<lparr>t_pid := pid\<rparr>) ts)
    \<and> tt_inv (tt', upd i (\<lambda>x. x\<lparr>t_pid := pid\<rparr>) ts)
    \<and> tt_free (tt', upd i (\<lambda>x. x\<lparr>t_pid := pid\<rparr>) ts) = xs
    \<and> unat (tt_gen tt' i) = Suc (unat (tt_gen tt i)) mod 33554432"
proof -
  let ?h = "tt_head tt" and ?t = "tt_tail tt" and ?r = "tt_free_ring tt"
  have ne: "?h \<noteq> ?t" using fl tt_free_empty [of tt ts] by auto
  have pop: "ring_list 64 ?r ?h ?t = ?r ! unat (?h AND 63) # ring_list 64 ?r (?h + 1) ?t"
    by (rule ring64.ring_pop [OF ne])
  then have i: "unat (?r ! unat (?h AND 63)) = i" and xs: "map unat (ring_list 64 ?r (?h + 1) ?t) = xs"
    using fl by (simp_all add: tt_free_def)
  have len: "length ?r = 64" and i64: "i < 64" and g: "unat (tt_gen tt i) < 33554432"
    and dist: "distinct (i # xs)" and sub: "set (i # xs) \<subseteq> {..<64}"
    using inv fl by (auto simp: tt_inv_def)
  define tt' where "tt' = tt\<lparr>tt_gen := (tt_gen tt)(i := (tt_gen tt i + 1) AND MAX_GENERATION),
    tt_head := ?h + 1\<rparr>"
  have pid: "sint (tt_gen tt i * 64 + ?r ! unat (?h AND 63)) = pid"
    using new_pid [OF g, of "?r ! unat (?h AND 63)"] i i64 by (simp add: pid_def)
  have alloc: "task_table_alloc (tt, ts) = Inr (Some i, tt', upd i (\<lambda>x. x\<lparr>t_pid := pid\<rparr>) ts)"
    using ne len i i64 pid ring64.index_less [of ?h]
    by (simp add: task_table_alloc_def rd_in tt'_def Let_def)
  have fl': "tt_free (tt', upd i (\<lambda>x. x\<lparr>t_pid := pid\<rparr>) ts) = xs"
    using xs by (simp add: tt_free_def tt'_def)
  have gen: "unat (tt_gen tt' i) = Suc (unat (tt_gen tt i)) mod 33554432"
    using g by (simp add: tt'_def next_generation unat_plus)
  have cnt: "ring_count (?h + 1) ?t \<le> 64"
    using tt_invD(2) [OF inv] unfolding ring_count_head [OF ne] by simp
  have pids: "0 \<le> pid" "pid mod 64 = int i"
    using i64 by (simp_all add: pid_def)
  have "\<forall>j < 64. unat (tt_gen tt' j) < 33554432 \<and>
    (if j \<in> set xs then t_pid (upd i (\<lambda>x. x\<lparr>t_pid := pid\<rparr>) ts j) = -1
     else 0 \<le> t_pid (upd i (\<lambda>x. x\<lparr>t_pid := pid\<rparr>) ts j) \<and> t_pid (upd i (\<lambda>x. x\<lparr>t_pid := pid\<rparr>) ts j) mod 64 = int j)"
  proof (intro allI impI)
    fix j :: nat assume j: "j < 64"
    show "unat (tt_gen tt' j) < 33554432 \<and>
      (if j \<in> set xs then t_pid (upd i (\<lambda>x. x\<lparr>t_pid := pid\<rparr>) ts j) = -1
       else 0 \<le> t_pid (upd i (\<lambda>x. x\<lparr>t_pid := pid\<rparr>) ts j) \<and> t_pid (upd i (\<lambda>x. x\<lparr>t_pid := pid\<rparr>) ts j) mod 64 = int j)"
    proof (cases "j = i")
      case True
      with dist pids gen show ?thesis by simp
    next
      case False
      with inv fl j show ?thesis by (simp add: tt_inv_def tt'_def)
    qed
  qed
  with len cnt dist sub fl' have "tt_inv (tt', upd i (\<lambda>x. x\<lparr>t_pid := pid\<rparr>) ts)"
    by (simp add: tt_inv_def tt'_def)
  with alloc fl' gen show ?thesis by blast
qed

lemma task_table_free_ok:
  assumes inv: "tt_inv (tt, ts)" and i: "i < 64" "i \<notin> set (tt_free (tt, ts))"
  defines "ts' \<equiv> upd i (\<lambda>x. x\<lparr>t_pid := PID_NONE, t_state := TASK_POOLED, t_children := None,
                        t_parent := None, t_next_sibling := None\<rparr>) ts"
  shows "\<exists>tt'. task_table_free i (tt, ts) = Inr (tt', ts') \<and> tt_inv (tt', ts')
    \<and> tt_free (tt', ts') = tt_free (tt, ts) @ [i] \<and> tt_gen tt' = tt_gen tt"
proof -
  let ?h = "tt_head tt" and ?t = "tt_tail tt" and ?r = "tt_free_ring tt"
  define tt' where "tt' = tt\<lparr>tt_free_ring := ?r[unat (?t AND 63) := of_nat i], tt_tail := ?t + 1\<rparr>"
  have len: "length ?r = 64" using inv by (simp add: tt_inv_def)
  have pid: "0 \<le> t_pid (ts i)" "nat (t_pid (ts i) AND PID_MASK) = i"
    using tt_inv_slot [OF inv i] by (simp_all add: pid_slot)
  have "set (tt_free (tt, ts)) \<subset> {..<64}" using tt_invD(4) [OF inv] i by auto
  then have "card (set (tt_free (tt, ts))) < card {..<64::nat}" by (rule psubset_card_mono [rotated]) simp
  then have "length (tt_free (tt, ts)) < 64"
    using distinct_card [OF tt_invD(3) [OF inv]] by simp
  then have cnt: "ring_count ?h ?t < 64" by (simp add: tt_free_def)
  then have "?t - ?h \<noteq> 64" by (auto simp: ring_count_def)
  then have free: "task_table_free i (tt, ts) = Inr (tt', ts')"
    using pid len ring64.index_less [of ?t]
    by (simp add: task_table_free_def wr_in tt'_def ts'_def Let_def)
  have "unat (of_nat i :: u32) = i" using i by (simp add: unat_of_nat)
  then have fl: "tt_free (tt', ts') = tt_free (tt, ts) @ [i]"
    using ring64.ring_put [OF cnt len] by (simp add: tt_free_def tt'_def)
  have c': "ring_count ?h (?t + 1) \<le> 64"
    using ring64.ring_count_put [OF cnt] cnt by simp
  have "\<forall>j < 64. unat (tt_gen tt' j) < 33554432 \<and>
    (if j \<in> set (tt_free (tt, ts) @ [i]) then t_pid (ts' j) = -1
     else 0 \<le> t_pid (ts' j) \<and> t_pid (ts' j) mod 64 = int j)"
  proof (intro allI impI)
    fix j :: nat assume j: "j < 64"
    show "unat (tt_gen tt' j) < 33554432 \<and>
      (if j \<in> set (tt_free (tt, ts) @ [i]) then t_pid (ts' j) = -1
       else 0 \<le> t_pid (ts' j) \<and> t_pid (ts' j) mod 64 = int j)"
      using inv j unfolding tt_inv_def by (cases "j = i") (simp_all add: tt'_def ts'_def PID_NONE_def)
  qed
  moreover have "length (tt_free_ring tt') = 64" "ring_count (tt_head tt') (tt_tail tt') \<le> 64"
    using len c' by (simp_all add: tt'_def)
  moreover have "distinct (tt_free (tt, ts) @ [i])" "set (tt_free (tt, ts) @ [i]) \<subseteq> {..<64}"
    using tt_invD(3,4) [OF inv] i by simp_all
  ultimately have "tt_inv (tt', ts')"
    unfolding tt_inv_def prod.case fl by blast
  with free fl show ?thesis by (simp add: tt'_def)
qed

interpretation tab: slot_allocator tt_inv tt_free 64 task_table_alloc task_table_free
proof unfold_locales
  fix s assume "tt_inv s"
  then show "distinct (tt_free s) \<and> set (tt_free s) \<subseteq> {..<64}"
    by (cases s) (simp add: tt_inv_def)
next
  fix s assume "tt_free s = []"
  then show "task_table_alloc s = Inr (None, s)"
    by (cases s) (simp add: task_table_alloc_None)
next
  fix s i xs assume "tt_inv s" "tt_free s = i # xs"
  then show "\<exists>s'. task_table_alloc s = Inr (Some i, s') \<and> tt_inv s' \<and> tt_free s' = xs"
    using task_table_alloc_Cons by (cases s) blast
next
  fix s i assume "tt_inv s" "i < 64" "i \<notin> set (tt_free s)"
  then show "\<exists>s'. task_table_free i s = Inr s' \<and> tt_inv s' \<and> tt_free s' = tt_free s @ [i]"
    using task_table_free_ok by (cases s) blast
qed

subsection \<open>Initialisation\<close>

definition init_task :: "u32 \<Rightarrow> task" where
  "init_task pa = zero_task\<lparr>t_state := TASK_POOLED, t_pid := PID_NONE, t_pa := pa, t_files := files_init\<rparr>"

lemma task_table_init_loop_eq:
  "n \<le> 64 \<Longrightarrow> length (tt_free_ring tt) = 64 \<Longrightarrow>
   task_table_init_loop n (PROCESS_PA_START + of_nat (64 - n) * PROCESS_VA_SIZE) (tt, ts) =
     (tt\<lparr>tt_free_ring := take (64 - n) (tt_free_ring tt) @ map of_nat [64 - n..<64],
         tt_gen := (\<lambda>j. if 64 - n \<le> j \<and> j < 64 then 0 else tt_gen tt j)\<rparr>,
      (\<lambda>j. if 64 - n \<le> j \<and> j < 64 then init_task (PROCESS_PA_START + of_nat j * PROCESS_VA_SIZE) else ts j))"
proof (induction n arbitrary: tt ts)
  case 0
  have "(\<lambda>j. if 64 \<le> j \<and> j < 64 then 0 else tt_gen tt j) = tt_gen tt"
    "(\<lambda>j. if 64 \<le> j \<and> j < 64 then init_task (PROCESS_PA_START + of_nat j * PROCESS_VA_SIZE) else ts j) = ts"
    by (auto simp: fun_eq_iff)
  with 0 show ?case by simp
next
  case (Suc n)
  let ?i = "64 - Suc n"
  from Suc.prems have i: "?i < 64" "Suc ?i = 64 - n" by simp_all
  let ?pa = "PROCESS_PA_START + of_nat ?i * PROCESS_VA_SIZE"
  let ?tt = "tt\<lparr>tt_gen := (tt_gen tt)(?i := 0), tt_free_ring := (tt_free_ring tt)[?i := of_nat ?i]\<rparr>"
  let ?ts = "ts(?i := init_task ?pa)"
  have pa: "?pa + PROCESS_VA_SIZE = PROCESS_PA_START + of_nat (64 - n) * PROCESS_VA_SIZE"
    by (simp only: i(2) [symmetric] of_nat_Suc) (simp add: algebra_simps)
  have "task_table_init_loop (Suc n) ?pa (tt, ts) =
    task_table_init_loop n (PROCESS_PA_START + of_nat (64 - n) * PROCESS_VA_SIZE) (?tt, ?ts)"
    by (simp add: Let_def pa [symmetric] upd_def init_task_def)
  also note Suc.IH [of ?tt ?ts]
  finally have eq: "task_table_init_loop (Suc n) ?pa (tt, ts) =
     (?tt\<lparr>tt_free_ring := take (64 - n) (tt_free_ring ?tt) @ map of_nat [64 - n..<64],
         tt_gen := (\<lambda>j. if 64 - n \<le> j \<and> j < 64 then 0 else tt_gen ?tt j)\<rparr>,
      (\<lambda>j. if 64 - n \<le> j \<and> j < 64 then init_task (PROCESS_PA_START + of_nat j * PROCESS_VA_SIZE) else ?ts j))"
    using Suc.prems by simp
  have ring: "take (64 - n) ((tt_free_ring tt)[?i := of_nat ?i]) @ map of_nat [64 - n..<64]
    = take ?i (tt_free_ring tt) @ map of_nat [?i..<64]"
    using i Suc.prems
    by (simp add: i(2) [symmetric] upt_conv_Cons take_Suc_conv_app_nth del: take_Suc)
  have gen: "(\<lambda>j. if 64 - n \<le> j \<and> j < 64 then 0 else tt_gen ?tt j)
    = (\<lambda>j. if ?i \<le> j \<and> j < 64 then 0 else tt_gen tt j)"
    using i by (auto simp: fun_eq_iff)
  have tasks: "(\<lambda>j. if 64 - n \<le> j \<and> j < 64 then init_task (PROCESS_PA_START + of_nat j * PROCESS_VA_SIZE) else ?ts j)
    = (\<lambda>j. if ?i \<le> j \<and> j < 64 then init_task (PROCESS_PA_START + of_nat j * PROCESS_VA_SIZE) else ts j)"
    using i by (auto simp: fun_eq_iff)
  show ?case unfolding eq gen tasks using ring by simp
qed

lemma task_table_init_eq:
  "length (tt_free_ring tt) = 64 \<Longrightarrow>
   task_table_init (tt, ts) =
     (tt\<lparr>tt_head := 0, tt_tail := 64, tt_free_ring := map of_nat [0..<64],
         tt_gen := (\<lambda>j. if j < 64 then 0 else tt_gen tt j)\<rparr>,
      (\<lambda>j. if j < 64 then init_task (PROCESS_PA_START + of_nat j * PROCESS_VA_SIZE) else ts j))"
  using task_table_init_loop_eq [of 64 "tt\<lparr>tt_head := 0, tt_tail := 64\<rparr>" ts]
  by (simp add: task_table_init_def cong: if_cong)

lemma task_table_init_inv:
  assumes "length (tt_free_ring tt) = 64"
  shows "tt_inv (task_table_init (tt, ts))" "tt_free (task_table_init (tt, ts)) = [0..<64]"
proof -
  have cnt: "ring_count 0 64 = 64" by (simp add: ring_count_def)
  have "ring_list 64 (map of_nat [0..<64]) 0 64 = (map of_nat [0..<64] :: u32 list)"
    by (rule nth_equalityI) (simp_all add: ring_list_def cnt)
  moreover have "map unat (map of_nat [0..<64] :: u32 list) = [0..<64]"
    by (rule nth_equalityI) (simp_all add: unat_of_nat)
  ultimately have fl: "map unat (ring_list 64 (map of_nat [0..<64] :: u32 list) 0 64) = [0..<64]"
    by simp
  then show free: "tt_free (task_table_init (tt, ts)) = [0..<64]"
    by (simp only: task_table_init_eq [OF assms] tt_free_def) simp
  show "tt_inv (task_table_init (tt, ts))"
    using free unfolding tt_inv_def task_table_init_eq [OF assms] prod.case
    by (simp only:) (auto simp: cnt init_task_def PID_NONE_def)
qed

subsection \<open>Properties\<close>

text \<open>
  C19: from the table \<open>task_table_init\<close> leaves, any sequence of allocations and frees (each free of
  a slot in use) runs without a panic or a bad access, hands out exactly the slots a first-in
  first-out list of free slots would, and keeps the invariant: no slot is ever handed out twice
  without being freed in between, and allocation fails only when all 64 slots are in use.
\<close>

theorem task_table_refines_free_list:
  assumes "length (tt_free_ring tt) = 64" "ok_sops 64 ops [0..<64]"
  shows "\<exists>s'. run_sops task_table_alloc task_table_free ops (task_table_init (tt, ts))
      = Inr (fst (spec_sops ops [0..<64]), s')
    \<and> tt_inv s' \<and> tt_free s' = snd (spec_sops ops [0..<64])"
  using tab.run_refines [OF task_table_init_inv(1) [OF assms(1), of ts], of ops] assms
  by (simp only: task_table_init_inv(2))

definition blank_table :: task_table where
  "blank_table = \<lparr> tt_free_ring = replicate 64 0, tt_head = 0, tt_tail = 0, tt_gen = (\<lambda>_. 0) \<rparr>"

theorem task_table_refines_free_list_witness:
  "\<exists>s'. run_sops task_table_alloc task_table_free [Alloc, Alloc, Release 0, Alloc]
     (task_table_init (blank_table, \<lambda>_. zero_task)) = Inr ([Some 0, Some 1, Some 2], s')"
proof -
  have u: "[0..<64] = 0 # 1 # 2 # [3..<64]" by (simp add: upt_conv_Cons)
  have "length (tt_free_ring blank_table) = 64" by (simp add: blank_table_def)
  moreover have "ok_sops 64 [Alloc, Alloc, Release 0, Alloc] [0..<64]" by (simp add: u)
  moreover have "fst (spec_sops [Alloc, Alloc, Release 0, Alloc] [0..<64]) = [Some 0, Some 1, Some 2]"
  proof -
    have v: "[3..<64] @ [0] = 3 # [4..<64] @ [0]" by (simp add: upt_conv_Cons)
    have w: "[0..<64] = 0 # 1 # 2 # [3..<64]" by (rule u)
    show ?thesis unfolding w by simp
  qed
  ultimately show ?thesis
    using task_table_refines_free_list [of blank_table "[Alloc, Alloc, Release 0, Alloc]" "\<lambda>_. zero_task"]
    by metis
qed

text \<open>
  C34: pids identify tasks. An allocation takes the longest-free slot, gives it a pid no task has,
  under which \<open>task_table_find_task_by_pid\<close> finds it, and changes no other task; and the pid that
  slot gets the next time differs, until the 25-bit generation has wrapped.
\<close>

theorem task_alloc_fresh_pid:
  assumes "tt_inv (tt, ts)" "tt_free (tt, ts) = i # xs"
  shows "\<exists>tt' ts'. task_table_alloc (tt, ts) = Inr (Some i, tt', ts') \<and> tt_inv (tt', ts')
    \<and> task_table_find_task_by_pid ts' (t_pid (ts' i)) = Some i
    \<and> (\<forall>j. t_pid (ts j) \<noteq> t_pid (ts' i) \<or> 64 \<le> j)
    \<and> (\<forall>j. j \<noteq> i \<longrightarrow> ts' j = ts j)
    \<and> unat (tt_gen tt' i) \<noteq> unat (tt_gen tt i)"
proof -
  define pid where "pid = int (unat (tt_gen tt i) * 64 + i)"
  let ?ts = "upd i (\<lambda>x. x\<lparr>t_pid := pid\<rparr>) ts"
  obtain tt' where tt': "task_table_alloc (tt, ts) = Inr (Some i, tt', ?ts)" "tt_inv (tt', ?ts)"
    "tt_free (tt', ?ts) = xs" "unat (tt_gen tt' i) = Suc (unat (tt_gen tt i)) mod 33554432"
    using task_table_alloc_Cons [OF assms] unfolding pid_def by blast
  have i: "i < 64" "i \<notin> set xs" and dist: "distinct (i # xs)"
    using tt_invD(3,4) [OF assms(1)] assms(2) by simp_all
  have find: "task_table_find_task_by_pid ?ts pid = Some i"
    using task_table_find_ok [OF tt'(2), of pid i] tt'(3) i by simp
  have "t_pid (ts j) \<noteq> pid" if j: "j < 64" for j
  proof (cases "j \<in> set (i # xs)")
    case True
    then have "t_pid (ts j) = -1" using tt_inv_free_slot [OF assms(1)] assms(2) by simp
    moreover have "0 \<le> pid" by (simp add: pid_def)
    ultimately show ?thesis by linarith
  next
    case False
    then have "t_pid (ts j) mod 64 = int j" "j \<noteq> i"
      using tt_inv_slot [OF assms(1) j] assms(2) by auto
    moreover have "pid mod 64 = int i" using i by (simp add: pid_def)
    ultimately show ?thesis by auto
  qed
  then have fresh: "\<forall>j. t_pid (ts j) \<noteq> pid \<or> 64 \<le> j" by (auto simp only: not_le [symmetric])
  have "Suc g mod 33554432 \<noteq> g" if "g < 33554432" for g :: nat
    using that by (cases "g = 33554431") simp_all
  then have gen: "unat (tt_gen tt' i) \<noteq> unat (tt_gen tt i)"
    unfolding tt'(4) using tt_invD(5) [OF assms(1) i(1)] by blast
  show ?thesis
    using tt' find fresh gen by (intro exI [of _ tt'] exI [of _ ?ts]) simp
qed

theorem task_alloc_fresh_pid_witness:
  "\<exists>tt' ts'. task_table_alloc (task_table_init (blank_table, \<lambda>_. zero_task)) = Inr (Some 0, tt', ts')
     \<and> task_table_find_task_by_pid ts' (t_pid (ts' 0)) = Some 0"
proof -
  obtain tt ts where s: "task_table_init (blank_table, \<lambda>_. zero_task) = (tt, ts)" by fastforce
  have "length (tt_free_ring blank_table) = 64" by (simp add: blank_table_def)
  note init = task_table_init_inv [OF this, of "\<lambda>_. zero_task", unfolded s]
  have "[0..<64] = 0 # [1..<64]" by (simp add: upt_conv_Cons)
  with init have "tt_inv (tt, ts)" "tt_free (tt, ts) = 0 # [1..<64]" by simp_all
  from task_alloc_fresh_pid [OF this] show ?thesis unfolding s by blast
qed

text \<open>
  A freed task is gone: after \<open>task_table_free\<close> its pid finds nothing, every other pid finds
  what it found before, its slot is the last to be recycled, and freeing it again panics.
\<close>

theorem task_free_stale_pid:
  assumes "tt_inv (tt, ts)" "task_table_find_task_by_pid ts pid = Some i"
  shows "\<exists>tt' ts'. task_table_free i (tt, ts) = Inr (tt', ts') \<and> tt_inv (tt', ts')
    \<and> task_table_find_task_by_pid ts' pid = None
    \<and> (\<forall>q. q \<noteq> pid \<longrightarrow> task_table_find_task_by_pid ts' q = task_table_find_task_by_pid ts q)
    \<and> tt_free (tt', ts') = tt_free (tt, ts) @ [i]
    \<and> (\<exists>msg. task_table_free i (tt', ts') = Inl (Panic msg))"
proof -
  have i: "i < 64" "i \<notin> set (tt_free (tt, ts))" "t_pid (ts i) = pid"
    using assms(2) task_table_find_ok [OF assms(1)] by simp_all
  define ts' where "ts' = upd i (\<lambda>x. x\<lparr>t_pid := PID_NONE, t_state := TASK_POOLED, t_children := None,
    t_parent := None, t_next_sibling := None\<rparr>) ts"
  obtain tt' where f: "task_table_free i (tt, ts) = Inr (tt', ts')" "tt_inv (tt', ts')"
      "tt_free (tt', ts') = tt_free (tt, ts) @ [i]"
    using task_table_free_ok [OF assms(1) i(1,2)] unfolding ts'_def by blast
  have ts': "t_pid (ts' i) = -1" "\<And>j. j \<noteq> i \<Longrightarrow> t_pid (ts' j) = t_pid (ts j)"
    by (simp_all add: ts'_def PID_NONE_def)
  have find: "task_table_find_task_by_pid ts' q = Some j \<longleftrightarrow> q \<noteq> pid \<and> task_table_find_task_by_pid ts q = Some j"
    for q j
  proof (cases "j = i")
    case True
    then show ?thesis
      unfolding task_table_find_ok [OF f(2)] task_table_find_ok [OF assms(1)] f(3) using i(3) by auto
  next
    case False
    have "t_pid (ts j) \<noteq> pid" if "j < 64" "j \<notin> set (tt_free (tt, ts))"
      using tt_inv_slot [OF assms(1) that] tt_inv_slot [OF assms(1) i(1,2)] i(3) False by (metis of_nat_eq_iff)
    moreover have "t_pid (ts' j) = t_pid (ts j)" using False by (rule ts'(2))
    moreover have "j \<in> set (tt_free (tt, ts) @ [i]) \<longleftrightarrow> j \<in> set (tt_free (tt, ts))" using False by simp
    ultimately show ?thesis
      unfolding task_table_find_ok [OF f(2)] task_table_find_ok [OF assms(1)] f(3) by (simp only:) blast
  qed
  have none: "task_table_find_task_by_pid ts' pid = None"
    using find [of pid] by (cases "task_table_find_task_by_pid ts' pid") auto
  have other: "task_table_find_task_by_pid ts' q = task_table_find_task_by_pid ts q" if "q \<noteq> pid" for q
  proof (rule option.expand)
    show "(task_table_find_task_by_pid ts' q = None) = (task_table_find_task_by_pid ts q = None)"
      using find [of q] that by (metis not_Some_eq)
  qed (use find [of q] that in \<open>metis option.sel not_Some_eq\<close>)
  have again: "\<exists>msg. task_table_free i (tt', ts') = Inl (Panic msg)"
    using ts'(1) by (simp add: task_table_free_def)
  show ?thesis
    by (intro exI [of _ tt'] exI [of _ ts'] conjI allI impI f none again other)
qed

theorem task_free_stale_pid_witness:
  "\<exists>tt' ts'. task_table_free 5 (blank_table\<lparr>tt_tail := 1, tt_gen := (\<lambda>_. 1)\<rparr>, (\<lambda>i. zero_task\<lparr>t_pid := int i\<rparr>)(0 := zero_task\<lparr>t_pid := -1\<rparr>)) = Inr (tt', ts')
     \<and> task_table_find_task_by_pid ts' 5 = None"
proof -
  let ?tt = "blank_table\<lparr>tt_tail := 1, tt_gen := (\<lambda>_. 1)\<rparr>"
  let ?ts = "(\<lambda>i. zero_task\<lparr>t_pid := int i\<rparr>)(0 := zero_task\<lparr>t_pid := -1\<rparr>)"
  have fl: "tt_free (?tt, ?ts) = [0]"
    by (simp add: tt_free_def ring_list_def ring_count_def blank_table_def)
  have "tt_inv (?tt, ?ts)"
    unfolding tt_inv_def prod.case fl
  proof (intro conjI allI impI)
    fix i :: nat assume "i < 64"
    then show "if i \<in> set [0] then t_pid (?ts i) = -1 else 0 \<le> t_pid (?ts i) \<and> t_pid (?ts i) mod 64 = int i"
      by (cases "i = 0") simp_all
  qed (simp_all add: blank_table_def ring_count_def)
  moreover have "task_table_find_task_by_pid ?ts 5 = Some 5"
    by (simp add: task_table_find_task_by_pid_def PID_MASK_def)
  ultimately show ?thesis using task_free_stale_pid [of ?tt ?ts 5 5] by blast
qed

end
