(* ===== verification/WaitQueue.thy ===== *)
theory WaitQueue
  imports RunQueue
begin

section \<open>kernel/core/wait.c: wait queues\<close>

text \<open>
  Doubly linked queues of sleeping tasks. A \<open>struct wait_queue\<close> is part of a task
  (\<open>signal.wait_exit\<close>, \<open>signal.wait_child\<close>) or of a terminal (\<open>in_wait_queue\<close>); \<open>wq_id\<close> names
  it. A \<open>struct wait_queue_entry\<close> is a local variable of \<open>wait_event\<close> on the kernel stack of the
  sleeping task; a task sleeps in one \<open>wait_event\<close> at a time, so the entry is named by the slot of
  its task. \<open>wh_inv wh qs\<close> says which list of entries every queue holds, that the links in both
  directions agree, and that an entry's \<open>queue\<close> field tells the queue it is in. The lemmas show that
  the operations implement appending, deletion of an element anywhere and emptying on these lists.
  The guards against null queue and entry pointers have no counterpart: the callers pass addresses.
\<close>

datatype wq_id = ExitQ nat | ChildQ nat | TtyQ nat

record wait_queue =
  wq_head :: "nat option"
  wq_tail :: "nat option"

record wait_entry =
  e_task :: "nat option"
  e_prev :: "nat option"
  e_next :: "nat option"
  e_queue :: "wq_id option"

record wheap =
  wh_queues :: "wq_id \<Rightarrow> wait_queue"
  wh_entries :: "nat \<Rightarrow> wait_entry"

definition updq :: "wq_id \<Rightarrow> (wait_queue \<Rightarrow> wait_queue) \<Rightarrow> wheap \<Rightarrow> wheap" where
  "updq q f wh = wh\<lparr>wh_queues := (wh_queues wh)(q := f (wh_queues wh q))\<rparr>"

definition upde :: "nat \<Rightarrow> (wait_entry \<Rightarrow> wait_entry) \<Rightarrow> wheap \<Rightarrow> wheap" where
  "upde e f wh = wh\<lparr>wh_entries := (wh_entries wh)(e := f (wh_entries wh e))\<rparr>"

definition wait_queue_init :: "wq_id \<Rightarrow> wheap \<Rightarrow> wheap" where
  "wait_queue_init q wh = updq q (\<lambda>x. x\<lparr>wq_head := None, wq_tail := None\<rparr>) wh"

definition wait_queue_entry_init :: "nat \<Rightarrow> nat option \<Rightarrow> wheap \<Rightarrow> wheap" where
  "wait_queue_entry_init e t wh =
     upde e (\<lambda>x. x\<lparr>e_task := t, e_prev := None, e_next := None, e_queue := None\<rparr>) wh"

definition wait_queue_add :: "wq_id \<Rightarrow> nat \<Rightarrow> wheap \<Rightarrow> wheap" where
  "wait_queue_add q e wh =
     (if e_queue (wh_entries wh e) \<noteq> None then wh
      else
        let tl = wq_tail (wh_queues wh q);
            wh1 = upde e (\<lambda>x. x\<lparr>e_queue := Some q, e_prev := tl, e_next := None\<rparr>) wh;
            wh2 = (case tl of
                     Some l \<Rightarrow> upde l (\<lambda>x. x\<lparr>e_next := Some e\<rparr>) wh1
                   | None \<Rightarrow> updq q (\<lambda>x. x\<lparr>wq_head := Some e\<rparr>) wh1)
        in updq q (\<lambda>x. x\<lparr>wq_tail := Some e\<rparr>) wh2)"

definition wait_queue_remove :: "nat \<Rightarrow> wheap \<Rightarrow> wheap" where
  "wait_queue_remove e wh =
     (case e_queue (wh_entries wh e) of
        None \<Rightarrow> wh
      | Some q \<Rightarrow>
          let en = wh_entries wh e;
              wh1 = (case e_prev en of
                       Some a \<Rightarrow> upde a (\<lambda>x. x\<lparr>e_next := e_next en\<rparr>) wh
                     | None \<Rightarrow> updq q (\<lambda>x. x\<lparr>wq_head := e_next en\<rparr>) wh);
              wh2 = (case e_next en of
                       Some b \<Rightarrow> upde b (\<lambda>x. x\<lparr>e_prev := e_prev en\<rparr>) wh1
                     | None \<Rightarrow> updq q (\<lambda>x. x\<lparr>wq_tail := e_prev en\<rparr>) wh1)
          in upde e (\<lambda>x. x\<lparr>e_prev := None, e_next := None, e_queue := None\<rparr>) wh2)"

text \<open>
  \<open>wakeup\<close> detaches the list, then walks it through \<open>entry->next\<close>, which it reads before clearing
  the entry. The fuel bounds the walk: see \<open>wakeup_loop_returns\<close>.
\<close>

definition sleeping :: "task \<Rightarrow> bool" where
  "sleeping x \<longleftrightarrow> t_state x = TASK_INTERRUPTIBLE \<or> t_state x = TASK_UNINTERRUPTIBLE"

fun wakeup_loop :: "nat \<Rightarrow> nat option \<Rightarrow> wheap \<times> run_queue \<times> tasks \<Rightarrow> (wheap \<times> run_queue \<times> tasks) res" where
  "wakeup_loop 0 entry s = Inl Diverge"
| "wakeup_loop (Suc n) None s = Inr s"
| "wakeup_loop (Suc n) (Some e) (wh, rq, ts) =
     (let nxt = e_next (wh_entries wh e);
          task = e_task (wh_entries wh e);
          wh1 = upde e (\<lambda>x. x\<lparr>e_prev := None, e_next := None, e_queue := None\<rparr>) wh
      in case task of
           None \<Rightarrow> wakeup_loop n nxt (wh1, rq, ts)
         | Some t \<Rightarrow>
             if sleeping (ts t)
             then bindR (run_queue_push t (rq, ts)) (\<lambda>(rq1, ts1). wakeup_loop n nxt (wh1, rq1, ts1))
             else wakeup_loop n nxt (wh1, rq, ts))"

definition WAKE_FUEL :: nat where "WAKE_FUEL = MAX_PROCESS_CNT + 2"

definition wakeup :: "wq_id \<Rightarrow> wheap \<times> run_queue \<times> tasks \<Rightarrow> (wheap \<times> run_queue \<times> tasks) res" where
  "wakeup q = (\<lambda>(wh, rq, ts).
     wakeup_loop WAKE_FUEL (wq_head (wh_queues wh q))
       (updq q (\<lambda>x. x\<lparr>wq_head := None, wq_tail := None\<rparr>) wh, rq, ts))"

subsection \<open>The lists the queues hold\<close>

abbreviation nx :: "wheap \<Rightarrow> nat \<Rightarrow> nat option" where "nx wh \<equiv> \<lambda>e. e_next (wh_entries wh e)"
abbreviation pv :: "wheap \<Rightarrow> nat \<Rightarrow> nat option" where "pv wh \<equiv> \<lambda>e. e_prev (wh_entries wh e)"

definition wq_rep :: "wheap \<Rightarrow> wq_id \<Rightarrow> nat list \<Rightarrow> bool" where
  "wq_rep wh q xs \<longleftrightarrow>
     chain (nx wh) (wq_head (wh_queues wh q)) xs \<and> chain (pv wh) (wq_tail (wh_queues wh q)) (rev xs)"

definition wh_inv :: "wheap \<Rightarrow> (wq_id \<Rightarrow> nat list) \<Rightarrow> bool" where
  "wh_inv wh qs \<longleftrightarrow>
     (\<forall>q. wq_rep wh q (qs q)) \<and> (\<forall>q. set (qs q) \<subseteq> {..<MAX_PROCESS_CNT}) \<and>
     (\<forall>e q. e_queue (wh_entries wh e) = Some q \<longleftrightarrow> e \<in> set (qs q))"

lemma wh_simps [simp]:
  "wh_queues (updq q f wh) = (wh_queues wh)(q := f (wh_queues wh q))"
  "wh_entries (updq q f wh) = wh_entries wh"
  "wh_queues (upde e g wh) = wh_queues wh"
  "wh_entries (upde e g wh) = (wh_entries wh)(e := g (wh_entries wh e))"
  by (simp_all add: updq_def upde_def)

lemma wh_invD:
  assumes "wh_inv wh qs"
  shows "wq_rep wh q (qs q)" "set (qs q) \<subseteq> {..<MAX_PROCESS_CNT}"
    "e_queue (wh_entries wh e) = Some q \<longleftrightarrow> e \<in> set (qs q)" "distinct (qs q)"
  using assms by (auto simp: wh_inv_def wq_rep_def dest: chain_distinct)

lemma wh_inv_disjoint: "wh_inv wh qs \<Longrightarrow> e \<in> set (qs q) \<Longrightarrow> e \<in> set (qs q') \<Longrightarrow> q = q'"
  by (metis option.inject wh_invD(3))

lemma wh_inv_init: "wh_inv \<lparr> wh_queues = (\<lambda>_. \<lparr> wq_head = None, wq_tail = None \<rparr>),
    wh_entries = (\<lambda>_. \<lparr> e_task = t, e_prev = None, e_next = None, e_queue = None \<rparr>) \<rparr> (\<lambda>_. [])"
  by (simp add: wh_inv_def wq_rep_def)

text \<open>A change that keeps the links of the entries of a queue and its ends keeps its list.\<close>

lemma wq_rep_cong:
  assumes "wq_rep wh q xs" "wh_queues wh' q = wh_queues wh q"
    "\<And>e. e \<in> set xs \<Longrightarrow> nx wh' e = nx wh e \<and> pv wh' e = pv wh e"
  shows "wq_rep wh' q xs"
proof -
  have "chain (nx wh') p xs = chain (nx wh) p xs" "chain (pv wh') p' (rev xs) = chain (pv wh) p' (rev xs)" for p p'
    by (rule chain_cong; simp add: assms(3))+
  with assms(1,2) show ?thesis by (simp add: wq_rep_def)
qed

lemma wait_queue_entry_init_inv:
  assumes "wh_inv wh qs" "e_queue (wh_entries wh e) = None"
  shows "wh_inv (wait_queue_entry_init e t wh) qs"
proof -
  have out: "e \<notin> set (qs q)" for q using wh_invD(3) [OF assms(1), of e q] assms(2) by simp
  have "wq_rep (wait_queue_entry_init e t wh) q (qs q)" for q
    by (rule wq_rep_cong [OF wh_invD(1) [OF assms(1)]])
      (use out in \<open>auto simp: wait_queue_entry_init_def\<close>)
  with assms out show ?thesis by (auto simp: wh_inv_def wait_queue_entry_init_def)
qed

lemma chain_ends:
  "chain f p (us @ e # vs) \<Longrightarrow> f e = (if vs = [] then None else Some (hd vs))"
  by (drule chain_suffix) (cases vs; auto)

lemma wait_queue_add_queued: "e_queue (wh_entries wh e) = Some q' \<Longrightarrow> wait_queue_add q e wh = wh"
  by (simp add: wait_queue_add_def)

lemma wq_rep_tail: "wq_rep wh q xs \<Longrightarrow> wq_tail (wh_queues wh q) = (if xs = [] then None else Some (last xs))"
  by (cases xs rule: rev_cases) (auto simp: wq_rep_def)

lemma wq_rep_head: "wq_rep wh q xs \<Longrightarrow> wq_head (wh_queues wh q) = (if xs = [] then None else Some (hd xs))"
  by (cases xs) (auto simp: wq_rep_def)

lemma wait_queue_add_inv:
  assumes inv: "wh_inv wh qs" and out: "e_queue (wh_entries wh e) = None" and e: "e < MAX_PROCESS_CNT"
  shows "wh_inv (wait_queue_add q e wh) (qs(q := qs q @ [e]))"
proof -
  let ?wh = "wait_queue_add q e wh"
  note rep = wh_invD(1) [OF inv]
  have e_out: "e \<notin> set (qs q')" for q' using wh_invD(3) [OF inv, of e q'] out by simp
  have q: "wq_rep ?wh q (qs q @ [e])"
  proof (cases "qs q" rule: rev_cases)
    case Nil
    then show ?thesis
      using rep [of q] out by (simp add: wq_rep_tail wait_queue_add_def wq_rep_def Let_def)
  next
    case (snoc ys l)
    have tl: "wq_tail (wh_queues wh q) = Some l" using wq_rep_tail [OF rep [of q]] snoc by simp
    have ne: "l \<noteq> e" using e_out [of q] snoc by auto
    have nx: "nx ?wh = (nx wh)(e := None, l := Some e)"
      and pv: "pv ?wh = (pv wh)(e := Some l)"
      and ends: "wq_head (wh_queues ?wh q) = wq_head (wh_queues wh q)" "wq_tail (wh_queues ?wh q) = Some e"
      using out tl ne by (auto simp: wait_queue_add_def fun_eq_iff)
    have "chain (nx wh) (wq_head (wh_queues wh q)) (ys @ [l])" "e \<notin> set (ys @ [l])"
      using rep [of q] e_out [of q] snoc by (simp_all add: wq_rep_def)
    from chain_snoc [OF this] have 1: "chain (nx ?wh) (wq_head (wh_queues ?wh q)) (qs q @ [e])"
      by (simp add: nx ends snoc)
    have "chain (pv wh) (Some l) (rev (qs q))" "e \<notin> set (rev (qs q))"
      using rep [of q] tl e_out [of q] by (simp_all add: wq_rep_def)
    then have "chain (pv ?wh) (wq_tail (wh_queues ?wh q)) (rev (qs q @ [e]))"
      by (simp add: pv ends)
    with 1 show ?thesis by (simp add: wq_rep_def)
  qed
  have other: "wq_rep ?wh q' (qs q')" if "q' \<noteq> q" for q'
  proof (rule wq_rep_cong [OF rep])
    show "wh_queues ?wh q' = wh_queues wh q'"
      using that out by (auto simp: wait_queue_add_def Let_def split: option.split)
  next
    fix x assume x: "x \<in> set (qs q')"
    then have "x \<noteq> e" using e_out by blast
    moreover have "Some x \<noteq> wq_tail (wh_queues wh q)"
    proof
      assume "Some x = wq_tail (wh_queues wh q)"
      then have "x \<in> set (qs q)" using wq_rep_tail [OF rep [of q]] by (auto split: if_splits)
      with x that wh_inv_disjoint [OF inv] show False by blast
    qed
    ultimately show "nx ?wh x = nx wh x \<and> pv ?wh x = pv wh x"
      by (auto simp: wait_queue_add_def Let_def split: option.split)
  qed
  have queue: "e_queue (wh_entries ?wh x) = (if x = e then Some q else e_queue (wh_entries wh x))" for x
    using out by (auto simp: wait_queue_add_def Let_def split: option.split)
  show ?thesis
    unfolding wh_inv_def
  proof (intro conjI allI)
    fix q' show "wq_rep ?wh q' ((qs(q := qs q @ [e])) q')"
      using q other by (cases "q' = q") simp_all
  next
    fix q' show "set ((qs(q := qs q @ [e])) q') \<subseteq> {..<MAX_PROCESS_CNT}"
      using wh_invD(2) [OF inv] e by (cases "q' = q") simp_all
  next
    fix x q' show "(e_queue (wh_entries ?wh x) = Some q') = (x \<in> set ((qs(q := qs q @ [e])) q'))"
      using wh_invD(3) [OF inv, of x q'] e_out [of q'] by (auto simp: queue)
  qed
qed

lemma chain_remove:
  assumes "chain f p (us @ e # vs)"
  shows "chain ((if us = [] then f else f(last us := f e))(e := None))
    (if us = [] then f e else p) (us @ vs)"
proof -
  have d: "e \<notin> set us" "e \<notin> set vs" using chain_distinct [OF assms] by auto
  show ?thesis
  proof (cases us rule: rev_cases)
    case Nil
    with assms d show ?thesis by simp
  next
    case (snoc ys a)
    with assms have "chain (f(a := f e)) p (ys @ a # vs)"
      by (intro chain_unlink) simp
    with snoc d show ?thesis by simp
  qed
qed

lemma wait_queue_remove_inv:
  assumes inv: "wh_inv wh qs" and xs: "qs q = us @ e # vs"
  shows "wh_inv (wait_queue_remove e wh) (qs(q := us @ vs))"
proof -
  let ?wh = "wait_queue_remove e wh"
  note rep = wh_invD(1) [OF inv]
  have que: "e_queue (wh_entries wh e) = Some q" using wh_invD(3) [OF inv, of e q] xs by simp
  have dist: "distinct (us @ e # vs)" using wh_invD(4) [OF inv, of q] xs by simp
  have ch: "chain (nx wh) (wq_head (wh_queues wh q)) (us @ e # vs)"
    "chain (pv wh) (wq_tail (wh_queues wh q)) (rev vs @ e # rev us)"
    using rep [of q] xs by (simp_all add: wq_rep_def)
  have nxe: "nx wh e = (if vs = [] then None else Some (hd vs))" by (rule chain_ends [OF ch(1)])
  have pve: "pv wh e = (if us = [] then None else Some (last us))"
    using chain_ends [OF ch(2)] by (simp add: hd_rev)
  have ne: "us \<noteq> [] \<Longrightarrow> last us \<noteq> e" "vs \<noteq> [] \<Longrightarrow> hd vs \<noteq> e"
    using dist last_in_set [of us] hd_in_set [of vs] by auto
  have nx: "nx ?wh = (if us = [] then nx wh else (nx wh)(last us := nx wh e))(e := None)"
    using que nxe pve ne by (auto simp: wait_queue_remove_def Let_def fun_eq_iff)
  have pv: "pv ?wh = (if vs = [] then pv wh else (pv wh)(hd vs := pv wh e))(e := None)"
    using que nxe pve ne by (auto simp: wait_queue_remove_def Let_def fun_eq_iff)
  have hd: "wq_head (wh_queues ?wh q) = (if us = [] then nx wh e else wq_head (wh_queues wh q))"
    using que nxe pve by (auto simp: wait_queue_remove_def Let_def)
  have tl: "wq_tail (wh_queues ?wh q) = (if vs = [] then pv wh e else wq_tail (wh_queues wh q))"
    using que nxe pve by (auto simp: wait_queue_remove_def Let_def)
  have q: "wq_rep ?wh q (us @ vs)"
  proof -
    have "(if vs = [] then pv wh else (pv wh)(hd vs := pv wh e)) =
      (if rev vs = [] then pv wh else (pv wh)(last (rev vs) := pv wh e))"
      by (simp add: last_rev)
    moreover have "(if vs = [] then pv wh e else wq_tail (wh_queues wh q)) =
      (if rev vs = [] then pv wh e else wq_tail (wh_queues wh q))" by simp
    ultimately show ?thesis
      unfolding wq_rep_def nx pv hd tl rev_append
      using chain_remove [OF ch(1)] chain_remove [OF ch(2)] by (simp only: simp_thms)
  qed
  have other: "wq_rep ?wh q' (qs q')" if "q' \<noteq> q" for q'
  proof (rule wq_rep_cong [OF rep])
    show "wh_queues ?wh q' = wh_queues wh q'"
      using that que by (auto simp: wait_queue_remove_def Let_def split: option.split)
  next
    fix x assume "x \<in> set (qs q')"
    then have "x \<notin> set (us @ e # vs)" using wh_inv_disjoint [OF inv] xs that by metis
    then have "x \<noteq> e" "us = [] \<or> x \<noteq> last us" "vs = [] \<or> x \<noteq> hd vs"
      using last_in_set [of us] hd_in_set [of vs] by auto
    then have "((if us = [] then nx wh else (nx wh)(last us := nx wh e))(e := None)) x = nx wh x"
      "((if vs = [] then pv wh else (pv wh)(hd vs := pv wh e))(e := None)) x = pv wh x"
      by auto
    then show "nx ?wh x = nx wh x \<and> pv ?wh x = pv wh x"
      using fun_cong [OF nx, of x] fun_cong [OF pv, of x] by (simp only: simp_thms)
  qed
  have queue: "e_queue (wh_entries ?wh x) = (if x = e then None else e_queue (wh_entries wh x))" for x
    using que nxe pve ne by (auto simp: wait_queue_remove_def Let_def)
  show ?thesis
    unfolding wh_inv_def
  proof (intro conjI allI)
    fix q' show "wq_rep ?wh q' ((qs(q := us @ vs)) q')"
      using q other by (cases "q' = q") simp_all
  next
    fix q' show "set ((qs(q := us @ vs)) q') \<subseteq> {..<MAX_PROCESS_CNT}"
      using wh_invD(2) [OF inv, of q] wh_invD(2) [OF inv, of q'] xs by (cases "q' = q") auto
  next
    fix x q'
    show "(e_queue (wh_entries ?wh x) = Some q') = (x \<in> set ((qs(q := us @ vs)) q'))"
    proof (cases "x = e")
      case True
      have "e \<notin> set (qs q')" if "q' \<noteq> q"
        using wh_inv_disjoint [OF inv, of e q q'] xs that by auto
      with True dist show ?thesis by (cases "q' = q") (simp_all add: queue)
    next
      case False
      with wh_invD(3) [OF inv, of x q'] xs show ?thesis
        by (cases "q' = q") (simp_all add: queue)
    qed
  qed
qed

lemma wait_queue_remove_none: "e_queue (wh_entries wh e) = None \<Longrightarrow> wait_queue_remove e wh = wh"
  by (simp add: wait_queue_remove_def)

text \<open>Removing an entry from wherever it is.\<close>

lemma wait_queue_remove_all:
  assumes "wh_inv wh qs"
  shows "wh_inv (wait_queue_remove e wh) (\<lambda>q. remove1 e (qs q))"
proof (cases "e_queue (wh_entries wh e)")
  case None
  then have "e \<notin> set (qs q)" for q using wh_invD(3) [OF assms, of e q] by simp
  then have "(\<lambda>q. remove1 e (qs q)) = qs" by (simp add: fun_eq_iff remove1_idem)
  with assms None show ?thesis by (simp add: wait_queue_remove_none)
next
  case (Some q)
  then have "e \<in> set (qs q)" using wh_invD(3) [OF assms] by simp
  then obtain us vs where xs: "qs q = us @ e # vs" by (auto simp: in_set_conv_decomp)
  with wh_invD(4) [OF assms, of q] have "remove1 e (qs q) = us @ vs" by (simp add: remove1_append)
  moreover have "remove1 e (qs q') = qs q'" if "q' \<noteq> q" for q'
    using wh_inv_disjoint [OF assms, of e q q'] xs that by (intro remove1_idem) auto
  ultimately have "(\<lambda>q'. remove1 e (qs q')) = qs(q := us @ vs)" by (auto simp: fun_eq_iff)
  with wait_queue_remove_inv [OF assms xs] show ?thesis by simp
qed

subsection \<open>Waking a queue\<close>

text \<open>The tasks a walk over entries pushes, in order: those asleep.\<close>

definition woken :: "wheap \<Rightarrow> tasks \<Rightarrow> nat list \<Rightarrow> nat list" where
  "woken wh ts es = concat (map (\<lambda>e. case e_task (wh_entries wh e) of
      None \<Rightarrow> [] | Some t \<Rightarrow> if sleeping (ts t) then [t] else []) es)"

definition clear_entries :: "nat list \<Rightarrow> wheap \<Rightarrow> wheap" where
  "clear_entries es wh = wh\<lparr>wh_entries := (\<lambda>e. if e \<in> set es
     then (wh_entries wh e)\<lparr>e_prev := None, e_next := None, e_queue := None\<rparr> else wh_entries wh e)\<rparr>"

lemma sleeping_t_next [simp]: "sleeping (x\<lparr>t_next := v\<rparr>) = sleeping x"
  by (simp add: sleeping_def)

lemma clear_entries_Cons:
  "clear_entries es (upde e (\<lambda>x. x\<lparr>e_prev := None, e_next := None, e_queue := None\<rparr>) wh)
   = clear_entries (e # es) wh"
  by (cases wh) (auto simp: clear_entries_def upde_def fun_eq_iff)

lemma woken_cong:
  assumes "\<And>e. e \<in> set es \<Longrightarrow> e_task (wh_entries wh' e) = e_task (wh_entries wh e)"
    "\<And>t. sleeping (ts' t) = sleeping (ts t)"
  shows "woken wh' ts' es = woken wh ts es"
  using assms unfolding woken_def
  by (intro arg_cong [where f = concat] map_cong) (auto split: option.split)

fun push_all :: "nat list \<Rightarrow> run_queue \<times> tasks \<Rightarrow> (run_queue \<times> tasks) res" where
  "push_all [] s = Inr s"
| "push_all (t # tks) s = bindR (run_queue_push t s) (push_all tks)"

lemma wakeup_loop_eq:
  "chain (nx wh) p es \<Longrightarrow> length es < n \<Longrightarrow>
   wakeup_loop n p (wh, rq, ts) =
     bindR (push_all (woken wh ts es) (rq, ts)) (\<lambda>s. Inr (clear_entries es wh, s))"
proof (induction es arbitrary: n p wh rq ts)
  case Nil
  then show ?case by (cases n) (simp_all add: woken_def clear_entries_def)
next
  case (Cons e es)
  obtain m where n: "n = Suc m" "length es < m" using Cons.prems(2) by (cases n) auto
  have p: "p = Some e" and ch: "chain (nx wh) (nx wh e) es" and e: "e \<notin> set es"
    using Cons.prems(1) chain_distinct [OF Cons.prems(1)] by auto
  define wh1 where "wh1 = upde e (\<lambda>x. x\<lparr>e_prev := None, e_next := None, e_queue := None\<rparr>) wh"
  have ch1: "chain (nx wh1) (nx wh e) es"
    using ch e by (subst chain_cong [of es "nx wh1" "nx wh"]) (auto simp: wh1_def)
  have clear: "clear_entries es wh1 = clear_entries (e # es) wh"
    by (simp add: wh1_def clear_entries_Cons)
  have rest: "woken wh1 ts' es = woken wh ts es" if "\<And>t. sleeping (ts' t) = sleeping (ts t)" for ts'
    by (rule woken_cong) (use that in \<open>auto simp: wh1_def\<close>)
  have skip: "wakeup_loop m (nx wh e) (wh1, rq, ts) =
      bindR (push_all (woken wh ts es) (rq, ts)) (\<lambda>s. Inr (clear_entries (e # es) wh, s))"
    using Cons.IH [OF ch1 n(2)] rest [of ts] clear by simp
  show ?case
  proof (cases "\<exists>t. e_task (wh_entries wh e) = Some t \<and> sleeping (ts t)")
    case False
    then have w: "woken wh ts (e # es) = woken wh ts es"
      by (auto simp: woken_def split: option.split)
    have "wakeup_loop n p (wh, rq, ts) = wakeup_loop m (nx wh e) (wh1, rq, ts)"
      using False by (auto simp: n(1) p wh1_def Let_def split: option.split)
    with skip w show ?thesis by simp
  next
    case True
    then obtain t where t: "e_task (wh_entries wh e) = Some t" "sleeping (ts t)" by blast
    then have w: "woken wh ts (e # es) = t # woken wh ts es" by (simp add: woken_def)
    have step: "wakeup_loop n p (wh, rq, ts) =
      bindR (run_queue_push t (rq, ts)) (\<lambda>(rq1, ts1). wakeup_loop m (nx wh e) (wh1, rq1, ts1))"
      using t by (simp add: n(1) p wh1_def Let_def)
    show ?thesis
    proof (cases "run_queue_push t (rq, ts)")
      case (Inr r)
      obtain rq1 ts1 where r: "r = (rq1, ts1)" by (cases r)
      have "sleeping (ts1 x) = sleeping (ts x)" for x
        using run_queue_push_frame [of t rq ts rq1 ts1 x] Inr r by auto
      then have "woken wh1 ts1 es = woken wh ts es" by (rule rest)
      with Inr r step w show ?thesis
        using Cons.IH [OF ch1 n(2), of rq1 ts1] clear by simp
    qed (simp add: step w)
  qed
qed

lemma push_all_ok:
  "rq_rep (rq, ts) xs \<Longrightarrow> distinct tks \<Longrightarrow> set tks \<inter> set xs = {} \<Longrightarrow> set tks \<subseteq> {..<MAX_PROCESS_CNT} \<Longrightarrow>
   \<exists>rq' ts'. push_all tks (rq, ts) = Inr (rq', ts') \<and> rq_rep (rq', ts') (xs @ tks)
     \<and> (\<forall>i. \<exists>v. ts' i = (ts i)\<lparr>t_next := v\<rparr>)"
proof (induction tks arbitrary: rq ts xs)
  case Nil
  have "\<exists>v. x = x\<lparr>t_next := v\<rparr>" for x :: task by (cases x) auto
  with Nil show ?case by auto
next
  case (Cons t tks)
  have "rq_can t xs" using Cons.prems by (auto simp: rq_can_def)
  from run_queue_push_ok [OF Cons.prems(1) this] obtain rq1 ts1 where
    p: "run_queue_push t (rq, ts) = Inr (rq1, ts1)" "rq_rep (rq1, ts1) (xs @ [t])" by auto
  from Cons.IH [OF p(2)] Cons.prems obtain rq' ts' where
    r: "push_all tks (rq1, ts1) = Inr (rq', ts')" "rq_rep (rq', ts') (xs @ t # tks)"
    "\<And>i. \<exists>v. ts' i = (ts1 i)\<lparr>t_next := v\<rparr>" by auto
  have "\<exists>v. ts' i = (ts i)\<lparr>t_next := v\<rparr>" for i
    using r(3) [of i] run_queue_push_frame [OF p(1), of i] by auto
  with p r(1,2) show ?case by auto
qed

definition empty_queue :: "wq_id \<Rightarrow> wheap \<Rightarrow> wheap" where
  "empty_queue q wh = updq q (\<lambda>x. x\<lparr>wq_head := None, wq_tail := None\<rparr>) wh"

lemma clear_entries_simps [simp]:
  "wh_queues (clear_entries es wh) = wh_queues wh"
  "e \<notin> set es \<Longrightarrow> wh_entries (clear_entries es wh) e = wh_entries wh e"
  "e_task (wh_entries (clear_entries es wh) e) = e_task (wh_entries wh e)"
  "e_queue (wh_entries (clear_entries es wh) e) = (if e \<in> set es then None else e_queue (wh_entries wh e))"
  by (simp_all add: clear_entries_def)

lemma clear_queue_inv:
  assumes inv: "wh_inv wh qs"
  shows "wh_inv (clear_entries (qs q) (empty_queue q wh)) (qs(q := []))"
proof -
  let ?wh = "clear_entries (qs q) (empty_queue q wh)"
  have "wq_rep ?wh q []" by (simp add: wq_rep_def empty_queue_def)
  moreover have "wq_rep ?wh q' (qs q')" if "q' \<noteq> q" for q'
  proof (rule wq_rep_cong [OF wh_invD(1) [OF inv]])
    fix e assume "e \<in> set (qs q')"
    then have "e \<notin> set (qs q)" using wh_inv_disjoint [OF inv] that by blast
    then show "nx ?wh e = nx wh e \<and> pv ?wh e = pv wh e" by (simp add: empty_queue_def)
  qed (use that in \<open>simp add: empty_queue_def\<close>)
  moreover have "e_queue (wh_entries ?wh e) = Some q' \<longleftrightarrow> e \<in> set ((qs(q := [])) q')" for e q'
    using wh_invD(3) [OF inv, of e q'] wh_inv_disjoint [OF inv, of e q q']
    by (cases "q' = q") (auto simp: empty_queue_def)
  ultimately show ?thesis
    using wh_invD(2) [OF inv] by (simp add: wh_inv_def)
qed

lemma wakeup_ok:
  assumes inv: "wh_inv wh qs" and rq: "rq_rep (rq, ts) xs"
    and dist: "distinct (xs @ woken wh ts (qs q))" and sub: "set (woken wh ts (qs q)) \<subseteq> {..<MAX_PROCESS_CNT}"
  shows "\<exists>rq' ts'. wakeup q (wh, rq, ts) = Inr (clear_entries (qs q) (empty_queue q wh), rq', ts')
    \<and> rq_rep (rq', ts') (xs @ woken wh ts (qs q)) \<and> (\<forall>i. \<exists>v. ts' i = (ts i)\<lparr>t_next := v\<rparr>)"
proof -
  have ch: "chain (nx (empty_queue q wh)) (wq_head (wh_queues wh q)) (qs q)"
    using wh_invD(1) [OF inv, of q] by (simp add: wq_rep_def empty_queue_def)
  have "card (set (qs q)) \<le> card {..<MAX_PROCESS_CNT}"
    using wh_invD(2) [OF inv] by (intro card_mono) simp_all
  then have len: "length (qs q) < WAKE_FUEL"
    using distinct_card [OF wh_invD(4) [OF inv, of q]] by (simp add: WAKE_FUEL_def)
  have w: "woken (empty_queue q wh) ts (qs q) = woken wh ts (qs q)"
    by (rule woken_cong) (simp_all add: empty_queue_def)
  obtain rq' ts' where p: "push_all (woken wh ts (qs q)) (rq, ts) = Inr (rq', ts')"
    "rq_rep (rq', ts') (xs @ woken wh ts (qs q))" "\<forall>i. \<exists>v. ts' i = (ts i)\<lparr>t_next := v\<rparr>"
    using push_all_ok [OF rq, of "woken wh ts (qs q)"] dist sub by (auto simp: Int_commute)
  have "wakeup q (wh, rq, ts) = Inr (clear_entries (qs q) (empty_queue q wh), rq', ts')"
    using wakeup_loop_eq [OF ch len, of rq ts] p(1) w by (simp add: wakeup_def empty_queue_def)
  with p(2,3) show ?thesis by blast
qed

text \<open>
  The walk ends whatever the links are, as long as they stay among the tasks: it clears the link
  it has followed, so it cannot follow it again.
\<close>

lemma run_queue_push_not_Diverge: "run_queue_push t s \<noteq> Inl Diverge"
  by (cases s) (auto simp: run_queue_push_def Let_def deref_def of_opt_def split: option.split)

lemma wakeup_loop_returns:
  assumes "\<And>e f. nx wh e = Some f \<Longrightarrow> f < MAX_PROCESS_CNT"
    "\<And>e. p = Some e \<Longrightarrow> e < MAX_PROCESS_CNT"
    "card {e. e < MAX_PROCESS_CNT \<and> nx wh e \<noteq> None} + 2 \<le> n"
  shows "wakeup_loop n p (wh, rq, ts) \<noteq> Inl Diverge"
  using assms
proof (induction n arbitrary: p wh rq ts)
  case (Suc n)
  show ?case
  proof (cases p)
    case (Some e)
    define wh1 where "wh1 = upde e (\<lambda>x. x\<lparr>e_prev := None, e_next := None, e_queue := None\<rparr>) wh"
    have nx1: "nx wh1 f = (if f = e then None else nx wh f)" for f by (simp add: wh1_def)
    have rest: "wakeup_loop n (nx wh e) (wh1, rq', ts') \<noteq> Inl Diverge" for rq' ts'
    proof (cases "nx wh e")
      case None
      from Suc.prems(3) obtain m where "n = Suc m" by (cases n) auto
      with None show ?thesis by simp
    next
      case (Some f)
      let ?S = "{e. e < MAX_PROCESS_CNT \<and> nx wh e \<noteq> None}"
      have "{e. e < MAX_PROCESS_CNT \<and> nx wh1 e \<noteq> None} = ?S - {e}" by (auto simp: nx1)
      moreover have "e \<in> ?S" using Some Suc.prems(2) \<open>p = Some e\<close> by simp
      then have "Suc (card (?S - {e})) = card ?S" by (intro card_Suc_Diff1) simp_all
      ultimately have "card {e. e < MAX_PROCESS_CNT \<and> nx wh1 e \<noteq> None} + 2 \<le> n"
        using Suc.prems(3) by simp
      moreover have "f' < MAX_PROCESS_CNT" if "nx wh1 e' = Some f'" for e' f'
        using that Suc.prems(1) by (auto simp: nx1 split: if_splits)
      moreover have "f' < MAX_PROCESS_CNT" if "nx wh e = Some f'" for f'
        using that Suc.prems(1) by blast
      ultimately show ?thesis by (intro Suc.IH) blast+
    qed
    show ?thesis
    proof (cases "e_task (wh_entries wh e)")
      case None
      with rest [of rq ts] Some show ?thesis by (simp add: wh1_def Let_def)
    next
      case (Some t)
      have "bindR (run_queue_push t (rq, ts)) (\<lambda>(rq1, ts1). wakeup_loop n (nx wh e) (wh1, rq1, ts1)) \<noteq> Inl Diverge"
        using run_queue_push_not_Diverge [of t "(rq, ts)"] rest
        by (cases "run_queue_push t (rq, ts)") auto
      with rest [of rq ts] Some \<open>p = Some e\<close> show ?thesis by (simp add: wh1_def Let_def)
    qed
  qed simp
qed simp

subsection \<open>Properties\<close>

text \<open>
  C20: the wait queues are lists. Whatever queues there are, adding an entry that is in none
  appends it to its queue and leaves all others as they were, adding an entry that is queued
  changes nothing, and removing an entry takes it out of the queue it is in, at any position; the
  links in both directions stay consistent.
\<close>

theorem wait_queues_are_lists:
  assumes "wh_inv wh qs" "e < MAX_PROCESS_CNT"
  shows "wh_inv (wait_queue_add q e wh) (if e_queue (wh_entries wh e) = None then qs(q := qs q @ [e]) else qs)
    \<and> wh_inv (wait_queue_remove e wh) (\<lambda>q. remove1 e (qs q))
    \<and> e_queue (wh_entries (wait_queue_remove e wh) e) = None"
proof -
  have "wh_inv (wait_queue_remove e wh) (\<lambda>q. remove1 e (qs q))"
    by (rule wait_queue_remove_all [OF assms(1)])
  moreover have "e \<notin> set (remove1 e (qs q))" for q using wh_invD(4) [OF assms(1), of q] by simp
  ultimately have "e_queue (wh_entries (wait_queue_remove e wh) e) = None"
    using wh_invD(3) by (metis not_Some_eq)
  then show ?thesis
    using assms wait_queue_add_inv wait_queue_remove_all [OF assms(1)] wait_queue_add_queued
    by (auto simp: wait_queue_add_def)
qed

definition no_waiters :: wheap where
  "no_waiters = \<lparr> wh_queues = (\<lambda>_. \<lparr> wq_head = None, wq_tail = None \<rparr>),
     wh_entries = (\<lambda>e. \<lparr> e_task = Some e, e_prev = None, e_next = None, e_queue = None \<rparr>) \<rparr>"

lemma no_waiters_inv: "wh_inv no_waiters (\<lambda>_. [])"
  by (simp add: no_waiters_def wh_inv_def wq_rep_def)

theorem wait_queues_are_lists_witness:
  "wh_inv (wait_queue_remove 3 (wait_queue_add (TtyQ 0) 3 no_waiters)) (\<lambda>_. [])"
proof -
  have "e_queue (wh_entries no_waiters 3) = None" by (simp add: no_waiters_def)
  then have 1: "wh_inv (wait_queue_add (TtyQ 0) 3 no_waiters) ((\<lambda>_. [])(TtyQ 0 := [3]))"
    using wait_queues_are_lists [OF no_waiters_inv, of 3 "TtyQ 0"] by simp
  have "(\<lambda>q. remove1 (3::nat) (if q = TtyQ 0 then [3] else [])) = (\<lambda>_. [])" by (simp add: fun_eq_iff)
  with wait_queues_are_lists [OF 1, of 3] show ?thesis by simp
qed

text \<open>
  C21: \<open>wakeup\<close> wakes everyone exactly once. It returns with the queue empty, every other queue as
  it was, and the sleeping tasks of the queue, in the order in which they went to sleep, appended
  to the run queue; of the tasks it changes nothing but their run-queue links.
\<close>

theorem wakeup_wakes_all:
  assumes "wh_inv wh qs" "rq_rep (rq, ts) xs"
    "distinct (xs @ woken wh ts (qs q))" "set (woken wh ts (qs q)) \<subseteq> {..<MAX_PROCESS_CNT}"
  shows "\<exists>wh' rq' ts'. wakeup q (wh, rq, ts) = Inr (wh', rq', ts')
    \<and> wh_inv wh' (qs(q := [])) \<and> rq_rep (rq', ts') (xs @ woken wh ts (qs q))
    \<and> (\<forall>i. \<exists>v. ts' i = (ts i)\<lparr>t_next := v\<rparr>)"
  using wakeup_ok [OF assms] clear_queue_inv [OF assms(1), of q] by blast

theorem wakeup_wakes_all_witness:
  "\<exists>wh' rq' ts'. wakeup (TtyQ 0)
       (wait_queue_add (TtyQ 0) 5 (wait_queue_add (TtyQ 0) 3 no_waiters), run_queue_init,
        \<lambda>_. zero_task\<lparr>t_state := TASK_INTERRUPTIBLE\<rparr>) = Inr (wh', rq', ts')
     \<and> rq_rep (rq', ts') [3, 5]"
proof -
  let ?ts = "\<lambda>_::nat. zero_task\<lparr>t_state := TASK_INTERRUPTIBLE\<rparr>"
  let ?w1 = "wait_queue_add (TtyQ 0) 3 no_waiters" and ?w2 = "wait_queue_add (TtyQ 0) 5 (wait_queue_add (TtyQ 0) 3 no_waiters)"
  have 1: "wh_inv ?w1 ((\<lambda>_. [])(TtyQ 0 := [3]))"
    using wait_queue_add_inv [OF no_waiters_inv, of 3 "TtyQ 0"] by (simp add: no_waiters_def)
  have "e_queue (wh_entries ?w1 5) = None" by (simp add: wait_queue_add_def no_waiters_def)
  then have 2: "wh_inv ?w2 ((\<lambda>_. [])(TtyQ 0 := [3, 5]))"
    using wait_queue_add_inv [OF 1, of 5 "TtyQ 0"] by simp
  have w: "woken ?w2 ?ts [3, 5] = [3, 5]"
    by (simp add: woken_def sleeping_def wait_queue_add_def no_waiters_def Let_def)
  show ?thesis
    using wakeup_wakes_all [OF 2 rq_init_rep, of ?ts "TtyQ 0"] w by auto
qed

text \<open>
  \<open>wakeup\<close> returns even on a corrupted queue: whatever the heads and links are, if they point
  to entries of tasks at all, the walk ends after at most one step more than there are tasks,
  because it clears every link it follows.
\<close>

theorem wakeup_terminates:
  assumes "\<And>e f. e_next (wh_entries wh e) = Some f \<Longrightarrow> f < MAX_PROCESS_CNT"
    "\<And>e. wq_head (wh_queues wh q) = Some e \<Longrightarrow> e < MAX_PROCESS_CNT"
  shows "wakeup q (wh, rq, ts) \<noteq> Inl Diverge"
proof -
  have "card {e. e < MAX_PROCESS_CNT \<and> nx wh e \<noteq> None} \<le> card {..<MAX_PROCESS_CNT}"
    by (intro card_mono) auto
  then have "card {e. e < MAX_PROCESS_CNT \<and> nx (empty_queue q wh) e \<noteq> None} + 2 \<le> WAKE_FUEL"
    by (simp add: WAKE_FUEL_def empty_queue_def)
  then show ?thesis
    using wakeup_loop_returns [of "empty_queue q wh" "wq_head (wh_queues wh q)" WAKE_FUEL rq ts] assms
    by (simp add: wakeup_def empty_queue_def)
qed

theorem wakeup_terminates_witness:
  "wakeup (TtyQ 0) (\<lparr> wh_queues = (\<lambda>_. \<lparr> wq_head = Some 1, wq_tail = Some 1 \<rparr>),
      wh_entries = (\<lambda>e. \<lparr> e_task = None, e_prev = None, e_next = Some 1, e_queue = None \<rparr>) \<rparr>, run_queue_init, \<lambda>_. zero_task)
    \<noteq> Inl Diverge"
  by (rule wakeup_terminates) simp_all

end
