(* ===== verification/Path.thy ===== *)
theory Path
  imports Kstring
begin

section \<open>fs/vfs.c: path normalisation and resolution\<close>

text \<open>
  \<open>vfs_normalize_path\<close> works in place: it scans the path into an array of (start, length)
  segments, dropping \<open>.\<close> and popping on \<open>..\<close>, and then copies the segments down to the front of
  the same buffer. The buffer is a list; \<open>None\<close> is an access outside it. The reference is
  \<open>norm_path\<close> on strings: split at slashes, resolve the components, join them. The main lemma
  (\<open>normalize_ok\<close>) equates the two for every path that leaves two bytes of the buffer free.
  \<open>vfs_resolve_path\<close> combines the working directory with a path first.
\<close>

abbreviation SL :: char where "SL \<equiv> CHR ''/''"

definition VFS_MAX_SEGMENTS :: nat where "VFS_MAX_SEGMENTS = 64"

function skip_slashes :: "char list \<Rightarrow> nat \<Rightarrow> nat \<Rightarrow> nat option" where
  "skip_slashes path len i =
     (if i < len then do { c \<leftarrow> rd path i; if c = SL then skip_slashes path len (i + 1) else Some i }
      else Some i)"
  by pat_completeness auto
termination by (relation "measure (\<lambda>(path, len, i). len - i)") auto

function skip_name :: "char list \<Rightarrow> nat \<Rightarrow> nat \<Rightarrow> nat option" where
  "skip_name path len i =
     (if i < len then do { c \<leftarrow> rd path i; if c \<noteq> SL then skip_name path len (i + 1) else Some i }
      else Some i)"
  by pat_completeness auto
termination by (relation "measure (\<lambda>(path, len, i). len - i)") auto

declare skip_slashes.simps [simp del] skip_name.simps [simp del]

lemma skip_slashes_ge: "skip_slashes path len i = Some j \<Longrightarrow> i \<le> j"
proof (induction path len i rule: skip_slashes.induct)
  case (1 path len i)
  have "skip_slashes path len i = (if i < len then do { c \<leftarrow> rd path i;
      if c = SL then skip_slashes path len (i + 1) else Some i } else Some i)"
    by (rule skip_slashes.simps)
  with 1 show ?case by (cases "rd path i") (auto split: if_splits)
qed

lemma skip_name_ge: "skip_name path len i = Some j \<Longrightarrow> i \<le> j"
proof (induction path len i rule: skip_name.induct)
  case (1 path len i)
  have "skip_name path len i = (if i < len then do { c \<leftarrow> rd path i;
      if c \<noteq> SL then skip_name path len (i + 1) else Some i } else Some i)"
    by (rule skip_name.simps)
  with 1 show ?case by (cases "rd path i") (auto split: if_splits)
qed

lemma scan_progress:
  assumes "i < len" "skip_slashes path len i = Some s" "skip_name path len s = Some j"
  shows "i < j"
proof (cases "s = i")
  case True
  then have "rd path i \<noteq> Some SL" "rd path i \<noteq> None"
    using assms(1,2) skip_slashes_ge [of path len "i + 1" i]
    by (subst (asm) skip_slashes.simps; force split: if_splits bind_splits)+
  with True assms(1,3) skip_name_ge [of path len "i + 1" j] show ?thesis
    by (subst (asm) skip_name.simps) (auto split: if_splits bind_splits)
next
  case False
  with skip_slashes_ge [OF assms(2)] skip_name_ge [OF assms(3)] show ?thesis by simp
qed

text \<open>The scanning loop: the segments kept, the last one last.\<close>

function scan_segments :: "char list \<Rightarrow> nat \<Rightarrow> nat \<Rightarrow> (nat \<times> nat) list \<Rightarrow> (nat \<times> nat) list option" where
  "scan_segments path len i segs =
     (if i < len then
        (case skip_slashes path len i of
           None \<Rightarrow> None
         | Some start \<Rightarrow>
             (case skip_name path len start of
                None \<Rightarrow> None
              | Some j \<Rightarrow>
                  let comp_len = j - start
                  in if comp_len = 0 then scan_segments path len j segs
                     else if comp_len = 1 \<and> rd path start = Some (CHR ''.'')
                     then scan_segments path len j segs
                     else if comp_len = 2 \<and> rd path start = Some (CHR ''.'') \<and> rd path (start + 1) = Some (CHR ''.'')
                     then scan_segments path len j (butlast segs)
                     else if length segs < VFS_MAX_SEGMENTS
                     then scan_segments path len j (segs @ [(start, comp_len)])
                     else scan_segments path len j segs))
      else Some segs)"
  by pat_completeness auto
termination
  by (relation "measure (\<lambda>(path, len, i, segs). len - i)") (auto dest: scan_progress intro!: diff_less_mono2)

declare scan_segments.simps [simp del]

text \<open>The loop that rebuilds the path; its result is the buffer and \<open>pos\<close> after it.\<close>

primrec rebuild :: "nat \<Rightarrow> (nat \<times> nat) list \<Rightarrow> nat \<Rightarrow> char list \<Rightarrow> (char list \<times> nat) option" where
  "rebuild bs [] pos path = Some (path, pos)"
| "rebuild bs (s # segs) pos path =
     (let allowed = int bs - int pos - 2
      in if pos + snd s + 1 \<ge> bs \<and> allowed \<le> 0 then Some (path, pos)
         else
           let len = (if pos + snd s + 1 \<ge> bs then nat allowed else snd s);
               pos1 = pos + len
           in do {
             path1 \<leftarrow> k_memcpy_in path pos (fst s) len;
             if segs \<noteq> [] then
               (if pos1 + 1 \<ge> bs then Some (path1, pos1)
                else do { path2 \<leftarrow> wr path1 pos1 SL; rebuild bs segs (pos1 + 1) path2 })
             else Some (path1, pos1) })"

definition root_path :: "char list \<Rightarrow> nat \<Rightarrow> char list option" where
  "root_path path bs = do {
     p \<leftarrow> wr path 0 SL;
     if bs > 1 then wr p 1 NUL else Some p }"

text \<open>\<open>for (size_t i = len + 1; i > 0; i--) path[i] = path[i - 1];\<close>\<close>

fun shift_right :: "nat \<Rightarrow> char list \<Rightarrow> char list option" where
  "shift_right 0 path = Some path"
| "shift_right (Suc i) path = do { c \<leftarrow> rd path i; p \<leftarrow> wr path (Suc i) c; shift_right i p }"

definition vfs_normalize_path :: "char list \<Rightarrow> nat \<Rightarrow> char list option" where
  "vfs_normalize_path path buf_size =
     (if buf_size = 0 then Some path
      else do {
        c0 \<leftarrow> rd path 0;
        if c0 = NUL then root_path path buf_size
        else do {
          len0 \<leftarrow> k_strlen path;
          if c0 \<noteq> SL \<and> len0 + 1 \<ge> buf_size \<and> buf_size < 2 then Some path
          else do {
            path \<leftarrow> (if c0 \<noteq> SL then do {
                let len = (if len0 + 1 \<ge> buf_size then buf_size - 2 else len0);
                p \<leftarrow> shift_right (len + 1) path;
                wr p 0 SL }
              else Some path);
            len \<leftarrow> k_strlen path;
            segs \<leftarrow> scan_segments path len 0 [];
            if segs = [] then root_path path buf_size
            else do {
              p1 \<leftarrow> wr path 0 SL;
              (p2, pos) \<leftarrow> rebuild buf_size segs 1 p1;
              wr p2 (if pos \<ge> buf_size then buf_size - 1 else pos) NUL } } } })"

text \<open>\<open>resolved\<close> starts as the working directory, or as the root when that is empty.\<close>

definition start_at_cwd :: "char list \<Rightarrow> char list \<Rightarrow> nat \<Rightarrow> char list option" where
  "start_at_cwd cwd resolved bs = do {
     c \<leftarrow> rd cwd 0;
     if c \<noteq> NUL then do { r \<leftarrow> k_strncpy resolved 0 cwd bs; wr r (bs - 1) NUL }
     else root_path resolved bs }"

definition append_relative :: "char list \<Rightarrow> char list \<Rightarrow> nat \<Rightarrow> char list option" where
  "append_relative r p bs = do {
     len0 \<leftarrow> k_strlen r;
     r0 \<leftarrow> (if len0 = 0 then root_path r bs else Some r);
     let len1 = (if len0 = 0 then 1 else len0);
     sep \<leftarrow> (if len1 < bs - 1 then do { c \<leftarrow> rd r0 (len1 - 1); Some (c \<noteq> SL) } else Some False);
     r1 \<leftarrow> (if sep then do { r \<leftarrow> wr r0 len1 SL; wr r (len1 + 1) NUL } else Some r0);
     let len2 = (if sep then len1 + 1 else len1);
     if len2 < bs - 1 then do { r \<leftarrow> k_strncpy r1 len2 p (bs - len2); wr r (bs - 1) NUL }
     else Some r1 }"

definition vfs_resolve_path :: "char list \<Rightarrow> char list option \<Rightarrow> char list \<Rightarrow> nat \<Rightarrow> char list option" where
  "vfs_resolve_path cwd pathname resolved bs =
     (if bs = 0 then Some resolved
      else case pathname of
        None \<Rightarrow> do { r \<leftarrow> start_at_cwd cwd resolved bs; vfs_normalize_path r bs }
      | Some p \<Rightarrow> do {
          p0 \<leftarrow> rd p 0;
          if p0 = NUL then do { r \<leftarrow> start_at_cwd cwd resolved bs; vfs_normalize_path r bs }
          else if p0 = SL then do {
            r \<leftarrow> k_strncpy resolved 0 p bs;
            r1 \<leftarrow> wr r (bs - 1) NUL;
            vfs_normalize_path r1 bs }
          else do {
            r \<leftarrow> start_at_cwd cwd resolved bs;
            r1 \<leftarrow> append_relative r p bs;
            vfs_normalize_path r1 bs } })"

subsection \<open>The reference\<close>

function comps :: "string \<Rightarrow> string list" where
  "comps s =
     (let s' = dropWhile (\<lambda>c. c = SL) s
      in if s' = [] then [] else takeWhile (\<lambda>c. c \<noteq> SL) s' # comps (dropWhile (\<lambda>c. c \<noteq> SL) s'))"
  by pat_completeness auto
termination
proof (relation "measure length")
  fix s s' :: string
  assume s': "s' = dropWhile (\<lambda>c. c = SL) s" and ne: "s' \<noteq> []"
  then have "hd s' \<noteq> SL" using hd_dropWhile by blast
  with ne have "length (dropWhile (\<lambda>c. c \<noteq> SL) s') < length s'"
    by (cases s') (simp_all add: length_dropWhile_le less_Suc_eq_le)
  also have "\<dots> \<le> length s" by (simp add: s' length_dropWhile_le)
  finally show "(dropWhile (\<lambda>c. c \<noteq> SL) s', s) \<in> measure length" by simp
qed simp

declare comps.simps [simp del]

fun resolve :: "string list \<Rightarrow> string list \<Rightarrow> string list" where
  "resolve acc [] = acc"
| "resolve acc (c # cs) =
     (if c = ''.'' then resolve acc cs
      else if c = ''..'' then resolve (butlast acc) cs
      else resolve (acc @ [c]) cs)"

fun join :: "string list \<Rightarrow> string" where
  "join [] = []"
| "join [c] = c"
| "join (c # cs) = c @ SL # join cs"

definition norm_path :: "string \<Rightarrow> string" where
  "norm_path s = SL # join (resolve [] (comps s))"

subsection \<open>The scan\<close>

text \<open>A scan over the first \<open>L\<close> bytes of the buffer, the string \<open>t\<close>.\<close>

lemma skip_slashes_eq:
  "L \<le> length b \<Longrightarrow> i \<le> L \<Longrightarrow>
   skip_slashes b L i = Some (i + length (takeWhile (\<lambda>c. c = SL) (drop i (take L b))))"
proof (induction b L i rule: skip_slashes.induct)
  case (1 b L i)
  show ?case
  proof (cases "i < L")
    case True
    with "1.prems" have "drop i (take L b) = b ! i # drop (Suc i) (take L b)"
      by (metis Cons_nth_drop_Suc length_take min.absorb2 nth_take)
    with True "1.prems" "1.IH" [of "b ! i"] show ?thesis
      by (subst skip_slashes.simps) (simp add: rd_in)
  qed (use "1.prems" in \<open>simp add: skip_slashes.simps\<close>)
qed

lemma skip_name_eq:
  "L \<le> length b \<Longrightarrow> i \<le> L \<Longrightarrow>
   skip_name b L i = Some (i + length (takeWhile (\<lambda>c. c \<noteq> SL) (drop i (take L b))))"
proof (induction b L i rule: skip_name.induct)
  case (1 b L i)
  show ?case
  proof (cases "i < L")
    case True
    with "1.prems" have "drop i (take L b) = b ! i # drop (Suc i) (take L b)"
      by (metis Cons_nth_drop_Suc length_take min.absorb2 nth_take)
    with True "1.prems" "1.IH" [of "b ! i"] show ?thesis
      by (subst skip_name.simps) (simp add: rd_in)
  qed (use "1.prems" in \<open>simp add: skip_name.simps\<close>)
qed

fun segs_ok :: "nat \<Rightarrow> (nat \<times> nat) list \<Rightarrow> nat \<Rightarrow> bool" where
  "segs_ok p [] e \<longleftrightarrow> p \<le> e + 1"
| "segs_ok p ((st, ln) # segs) e \<longleftrightarrow> p \<le> st \<and> 0 < ln \<and> st + ln \<le> e \<and> segs_ok (st + ln + 1) segs e"

definition seg :: "string \<Rightarrow> nat \<times> nat \<Rightarrow> string" where
  "seg t = (\<lambda>(st, ln). take ln (drop st t))"

lemma segs_ok_le: "segs_ok p segs e \<Longrightarrow> p \<le> e + 1"
  by (cases segs) auto

lemma segs_ok_mono: "segs_ok p segs e \<Longrightarrow> e \<le> e' \<Longrightarrow> segs_ok p segs e'"
  by (induction p segs e rule: segs_ok.induct) auto

lemma segs_ok_snoc:
  "segs_ok p segs e \<Longrightarrow> e + 1 \<le> st \<Longrightarrow> 0 < ln \<Longrightarrow> st + ln \<le> e' \<Longrightarrow> segs_ok p (segs @ [(st, ln)]) e'"
  by (induction p segs e rule: segs_ok.induct) auto

lemma segs_ok_butlast: "segs_ok p segs e \<Longrightarrow> segs_ok p (butlast segs) e"
  by (induction p segs e rule: segs_ok.induct) auto

lemma segs_ok_count: "segs_ok p segs e \<Longrightarrow> p + 2 * length segs \<le> e + 1"
  by (induction p segs e rule: segs_ok.induct) auto

lemma take_1: "i < length t \<Longrightarrow> take (Suc 0) (drop i t) = [t ! i]"
  by (simp add: take_Suc hd_drop_conv_nth)

lemma take_2: "Suc i < length t \<Longrightarrow> take 2 (drop i t) = [t ! i, t ! Suc i]"
proof -
  assume "Suc i < length t"
  then have "drop i t = t ! i # t ! Suc i # drop (Suc (Suc i)) t" by (simp add: Cons_nth_drop_Suc)
  then show ?thesis by simp
qed

text \<open>One component: where it starts and ends, and what the tests on it decide.\<close>

lemma scan_step:
  fixes b :: "char list" and L i :: nat
  defines "t \<equiv> take L b"
  defines "st \<equiv> i + length (takeWhile (\<lambda>c. c = SL) (drop i t))"
  defines "j \<equiv> st + length (takeWhile (\<lambda>c. c \<noteq> SL) (drop st t))"
  assumes L: "L \<le> length b" and i: "i < L"
  shows "scan_segments b L i segs =
      (if st = L then Some segs
       else let c = seg t (st, j - st) in
         scan_segments b L j (if c = ''.'' then segs else if c = ''..'' then butlast segs
           else if length segs < VFS_MAX_SEGMENTS then segs @ [(st, j - st)] else segs))"
    and "comps (drop i t) = (if st = L then [] else seg t (st, j - st) # comps (drop j t))"
    and "st \<le> L" "j \<le> L" "st < L \<Longrightarrow> st < j" "j < L \<Longrightarrow> t ! j = SL" "t ! i = SL \<Longrightarrow> i < st"
proof -
  have len: "length t = L" using L by (simp add: t_def)
  have tw: "length (takeWhile P xs) \<le> length xs" for P and xs :: string by (rule length_takeWhile_le)
  show stL: "st \<le> L" using tw [of "\<lambda>c. c = SL" "drop i t"] i len by (simp add: st_def)
  show jL: "j \<le> L" using tw [of "\<lambda>c. c \<noteq> SL" "drop st t"] stL len by (simp add: j_def)
  have dst: "dropWhile (\<lambda>c. c = SL) (drop i t) = drop st t"
    by (simp add: dropWhile_eq_drop st_def add.commute)
  have dj: "dropWhile (\<lambda>c. c \<noteq> SL) (drop st t) = drop j t"
    by (simp add: dropWhile_eq_drop j_def add.commute)
  have sg: "seg t (st, j - st) = takeWhile (\<lambda>c. c \<noteq> SL) (drop st t)"
    by (simp add: seg_def j_def flip: takeWhile_eq_take)
  have lsg: "length (seg t (st, j - st)) = j - st" using jL len by (simp add: seg_def)
  have hd_st: "st < L \<Longrightarrow> t ! st \<noteq> SL"
    using hd_dropWhile [of "\<lambda>c. c = SL" "drop i t"] len by (simp add: dst hd_drop_conv_nth)
  show stj: "st < j" if "st < L"
  proof -
    have "drop st t = t ! st # drop (Suc st) t" using that len by (simp add: Cons_nth_drop_Suc)
    then show ?thesis using hd_st [OF that] by (simp add: j_def)
  qed
  show "t ! j = SL" if "j < L"
    using hd_dropWhile [of "\<lambda>c. c \<noteq> SL" "drop st t"] that len by (simp add: dj hd_drop_conv_nth)
  show "i < st" if "t ! i = SL"
  proof -
    have "drop i t = t ! i # drop (Suc i) t" using i len by (simp add: Cons_nth_drop_Suc)
    then show ?thesis using that by (simp add: st_def)
  qed
  show "comps (drop i t) = (if st = L then [] else seg t (st, j - st) # comps (drop j t))"
  proof -
    have "comps (drop i t) = (if drop st t = [] then []
        else takeWhile (\<lambda>c. c \<noteq> SL) (drop st t) # comps (dropWhile (\<lambda>c. c \<noteq> SL) (drop st t)))"
      by (subst comps.simps) (simp only: Let_def dst)
    also have "\<dots> = (if drop st t = [] then [] else seg t (st, j - st) # comps (drop j t))"
      by (simp only: dj sg)
    also have "(drop st t = []) = (st = L)" using len stL by auto
    finally show ?thesis .
  qed
  have rdt: "rd b k = Some (t ! k)" if "k < L" for k using that L by (simp add: rd_in t_def)
  have c0: "(j - st = 0) = (st = L)" using stj stL jL by (cases "st = L") auto
  have c1: "(j - st = 1 \<and> rd b st = Some (CHR ''.'')) = (seg t (st, j - st) = ''.'')" if "st \<noteq> L"
  proof (cases "j - st = 1")
    case True
    then show ?thesis using that stL len rdt [of st] by (simp add: seg_def take_1)
  next
    case False
    then have "seg t (st, j - st) \<noteq> ''.''" using lsg by auto
    with False show ?thesis by simp
  qed
  have c2: "(j - st = 2 \<and> rd b st = Some (CHR ''.'') \<and> rd b (st + 1) = Some (CHR ''.''))
      = (seg t (st, j - st) = ''..'')" if "st \<noteq> L"
  proof (cases "j - st = 2")
    case True
    then have "Suc st < L" using jL by simp
    then show ?thesis using True len rdt [of st] rdt [of "Suc st"] by (simp add: seg_def take_2)
  next
    case False
    then have "seg t (st, j - st) \<noteq> ''..''" using lsg by auto
    with False show ?thesis by simp
  qed
  have s1: "skip_slashes b L i = Some st" using skip_slashes_eq [OF L, of i] i by (simp add: st_def t_def)
  have s2: "skip_name b L st = Some j" using skip_name_eq [OF L stL] by (simp add: j_def t_def)
  show "scan_segments b L i segs =
      (if st = L then Some segs
       else let c = seg t (st, j - st) in
         scan_segments b L j (if c = ''.'' then segs else if c = ''..'' then butlast segs
           else if length segs < VFS_MAX_SEGMENTS then segs @ [(st, j - st)] else segs))"
  proof (cases "st = L")
    case True
    then have "j = L" using len by (simp add: j_def)
    then have "scan_segments b L j segs = Some segs" by (simp add: scan_segments.simps)
    with True s1 s2 c0 i show ?thesis by (subst scan_segments.simps) (simp add: Let_def)
  next
    case False
    with s1 s2 c0 c1 [OF False] c2 [OF False] i show ?thesis
      by (subst scan_segments.simps) (simp add: Let_def)
  qed
qed

lemma seg_mono: "map (seg t) (butlast segs) = butlast (map (seg t) segs)"
  by (simp add: map_butlast)

lemma scan_ok:
  assumes "L \<le> length b" "L < 128"
  shows "i \<le> L \<Longrightarrow> (i < L \<Longrightarrow> b ! i = SL) \<Longrightarrow> segs_ok 1 segs i \<Longrightarrow>
    \<exists>segs'. scan_segments b L i segs = Some segs' \<and> segs_ok 1 segs' L
      \<and> map (seg (take L b)) segs' = resolve (map (seg (take L b)) segs) (comps (drop i (take L b)))"
proof (induction "L - i" arbitrary: i segs rule: less_induct)
  case less
  show ?case
  proof (cases "i < L")
    case False
    with less.prems(1) have "i = L" by simp
    moreover have "comps [] = []" by (simp add: comps.simps)
    ultimately show ?thesis using less.prems(3) by (simp add: scan_segments.simps)
  next
    case True
    let ?t = "take L b"
    define st where "st = i + length (takeWhile (\<lambda>c. c = SL) (drop i ?t))"
    define j where "j = st + length (takeWhile (\<lambda>c. c \<noteq> SL) (drop st ?t))"
    note S = scan_step [OF assms(1) True, folded st_def, folded j_def]
    have ti: "?t ! i = SL" using less.prems(2) True by simp
    show ?thesis
    proof (cases "st = L")
      case True
      then show ?thesis
        using S(1) [of segs] S(2) less.prems(3) segs_ok_mono [OF less.prems(3), of L] \<open>i < L\<close> by simp
    next
      case False
      then have st: "st < L" "st < j" "i < st" using S(3,5) S(7) [OF ti] by auto
      define c where "c = seg ?t (st, j - st)"
      define segs1 where "segs1 = (if c = ''.'' then segs else if c = ''..'' then butlast segs
           else if length segs < VFS_MAX_SEGMENTS then segs @ [(st, j - st)] else segs)"
      have step: "scan_segments b L i segs = scan_segments b L j segs1"
        using S(1) [of segs] False by (simp add: Let_def c_def segs1_def)
      have cs: "comps (drop i ?t) = c # comps (drop j ?t)" using S(2) False by (simp add: c_def)
      have room: "length segs < VFS_MAX_SEGMENTS"
        using segs_ok_count [OF less.prems(3)] True assms(2) by (simp add: VFS_MAX_SEGMENTS_def)
      have ok0: "segs_ok 1 segs j" using less.prems(3) st by (auto intro: segs_ok_mono)
      have ok: "segs_ok 1 segs1 j"
        using ok0 segs_ok_butlast [OF ok0] segs_ok_snoc [OF less.prems(3), of st "j - st" j] st
        by (simp add: segs1_def)
      have j: "j \<le> L" "j < L \<Longrightarrow> b ! j = SL" using S(4,6) by simp_all
      have "L - j < L - i" using True st by simp
      from less.hyps [OF this j ok] obtain segs' where
        "scan_segments b L j segs1 = Some segs'" "segs_ok 1 segs' L"
        "map (seg ?t) segs' = resolve (map (seg ?t) segs1) (comps (drop j ?t))" by blast
      moreover have "resolve (map (seg ?t) segs1) (comps (drop j ?t)) =
          resolve (map (seg ?t) segs) (comps (drop i ?t))"
        using room by (simp add: cs segs1_def seg_mono c_def [symmetric])
      ultimately show ?thesis using step by auto
    qed
  qed
qed

subsection \<open>Rebuilding in place\<close>

lemma take_patch: "i + length x \<le> length b \<Longrightarrow> take (i + length x) (patch b i x) = take i b @ x"
  by (simp add: patch_def)

lemma drop_patch: "i + length x \<le> k \<Longrightarrow> k \<le> length b \<Longrightarrow> drop k (patch b i x) = drop k b"
proof (cases "length b \<le> i")
  case True
  moreover assume "i + length x \<le> k" "k \<le> length b"
  ultimately have "length x = 0" by linarith
  then show ?thesis by simp
qed (simp add: patch_def min_def)

lemma patch_self: "i + k \<le> length b \<Longrightarrow> patch b i (take k (drop i b)) = b"
proof -
  assume "i + k \<le> length b"
  then have "drop (i + length (take k (drop i b))) b = drop k (drop i b)" by (simp add: add.commute)
  then show ?thesis unfolding patch_def by (metis append_take_drop_id)
qed

lemma length_seg: "st + ln \<le> length t \<Longrightarrow> length (seg t (st, ln)) = ln"
  by (simp add: seg_def)

lemma join_Cons2: "cs \<noteq> [] \<Longrightarrow> join (c # cs) = c @ SL # join cs"
  by (cases cs) simp_all

lemma rebuild_ok:
  "segs_ok pos segs L \<Longrightarrow> segs \<noteq> [] \<Longrightarrow> L + 1 < bs \<Longrightarrow> L \<le> length b \<Longrightarrow>
   length path = length b \<Longrightarrow> drop pos path = drop pos b \<Longrightarrow>
   \<exists>path' pos'. rebuild bs segs pos path = Some (path', pos')
     \<and> take pos' path' = take pos path @ join (map (seg (take L b)) segs)
     \<and> pos' \<le> L \<and> pos \<le> pos' \<and> length path' = length b"
proof (induction segs arbitrary: pos path)
  case (Cons s segs)
  let ?t = "take L b"
  obtain st ln where s: "s = (st, ln)" by (cases s)
  have ok: "pos \<le> st" "0 < ln" "st + ln \<le> L" "segs_ok (st + ln + 1) segs L"
    using Cons.prems(1) s by simp_all
  let ?x = "seg ?t s" and ?pos = "pos + ln"
  have x: "length ?x = ln" using ok(3) Cons.prems(4) by (simp add: s length_seg)
  have fits: "\<not> pos + ln + 1 \<ge> bs" using ok Cons.prems(3) by simp
  have "drop st path = drop st b"
    using Cons.prems(6) ok(1) by (metis drop_drop le_add_diff_inverse2)
  then have src: "take ln (drop st path) = ?x"
    using ok(3) by (simp add: s seg_def drop_take min_def)
  have cp: "k_memcpy_in path pos st ln = Some (patch path pos ?x)"
    using ok Cons.prems(4,5) src by (simp add: k_memcpy_in_def memcpy_in_loop_ok)
  let ?p = "patch path pos ?x"
  have lp: "length ?p = length b" using x ok Cons.prems(4,5) by (subst length_patch) simp_all
  have tp: "take ?pos ?p = take pos path @ ?x"
    using take_patch [of pos ?x path] x ok Cons.prems(4,5) by simp
  show ?case
  proof (cases "segs = []")
    case True
    then have "rebuild bs (s # segs) pos path = Some (?p, ?pos)"
      using fits cp by (simp add: s Let_def)
    with True tp lp ok show ?thesis by auto
  next
    case False
    let ?q = "?p[?pos := SL]"
    have posL: "?pos < L" using ok segs_ok_le [OF ok(4)] False ok(4) by (cases segs) auto
    have r: "rebuild bs (s # segs) pos path = rebuild bs segs (?pos + 1) ?q"
      using False fits cp lp posL Cons.prems(3,4) by (simp add: s Let_def wr_in)
    have lq: "length ?q = length b" using lp by simp
    have ok': "segs_ok (?pos + 1) segs L" using ok by (cases segs) auto
    have "drop (?pos + 1) ?q = drop (?pos + 1) ?p" by simp
    also have "\<dots> = drop (?pos + 1) path"
      using x ok posL Cons.prems(4,5) by (intro drop_patch) simp_all
    also have "\<dots> = drop (?pos + 1) b"
      using Cons.prems(6) by (metis add.assoc add.commute drop_drop)
    finally obtain path' pos' where R: "rebuild bs segs (?pos + 1) ?q = Some (path', pos')"
      "take pos' path' = take (?pos + 1) ?q @ join (map (seg ?t) segs)"
      "pos' \<le> L" "?pos + 1 \<le> pos'" "length path' = length b"
      using Cons.IH [OF ok' False Cons.prems(3,4) lq] by blast
    have "take (?pos + 1) ?q = take ?pos ?p @ [SL]"
      using lp posL Cons.prems(4) by (simp add: take_Suc_conv_app_nth)
    with R r tp False show ?thesis by (auto simp: join_Cons2)
  qed
qed simp

subsection \<open>Normalisation computes the reference\<close>

lemma k_strlen_prefix: "no_nul x \<Longrightarrow> k_strlen (x @ NUL # r) = Some (length x)"
  by (induction x) auto

lemma root_path_ok:
  assumes "1 < bs" "1 < length path"
  shows "\<exists>r. root_path path bs = Some r \<and> cstr r = ''/'' \<and> terminated r \<and> length r = length path"
proof -
  obtain a c r where "path = a # c # r"
    using assms(2) by (cases path; cases "tl path") auto
  then have "root_path path bs = Some (SL # NUL # r)"
    using assms by (simp add: root_path_def wr_def)
  then show ?thesis using \<open>path = a # c # r\<close> by simp
qed

text \<open>An absolute path that leaves the buffer two bytes.\<close>

lemma normalize_abs:
  assumes t: "terminated path" and abs: "path \<noteq> []" "hd path = SL"
    and L: "length (cstr path) + 1 < bs" "bs \<le> length path" "length (cstr path) < 128"
  shows "\<exists>r. vfs_normalize_path path bs = Some r \<and> cstr r = norm_path (cstr path)
    \<and> terminated r \<and> length r = length path"
proof -
  define L where "L = length (cstr path)"
  obtain rest where rest: "path = cstr path @ NUL # rest" using t by (elim terminatedE)
  have tk: "take L path = cstr path" unfolding L_def by (rule take_cstr [OF t])
  have len: "L < length path" unfolding L_def by (rule length_cstr_less [OF t])
  have c0: "rd path 0 = Some SL" using abs by (cases path) (auto simp: rd_def)
  have p0: "path ! 0 = SL" using abs by (cases path) auto
  have Lpos: "0 < L" using abs by (cases path) (auto simp: L_def)
  have slen: "k_strlen path = Some L" unfolding L_def by (rule k_strlen_eq [OF t])
  obtain segs where segs: "scan_segments path L 0 [] = Some segs" "segs_ok 1 segs L"
    "map (seg (cstr path)) segs = resolve [] (comps (cstr path))"
    using scan_ok [of L path 0 "[]"] len p0 assms(6) by (auto simp: tk L_def [symmetric])
  show ?thesis
  proof (cases "segs = []")
    case True
    then have "norm_path (cstr path) = ''/''" using segs(3) by (simp add: norm_path_def)
    moreover have "vfs_normalize_path path bs = root_path path bs"
      using c0 slen segs True L(1) by (simp add: vfs_normalize_path_def Let_def)
    ultimately show ?thesis using root_path_ok [of bs path] L Lpos len by simp
  next
    case False
    let ?p = "path[0 := SL]"
    have same: "?p = path" using p0 by (metis list_update_id)
    obtain q pos where R: "rebuild bs segs 1 path = Some (q, pos)"
      "take pos q = take 1 path @ join (map (seg (cstr path)) segs)" "pos \<le> L" "1 \<le> pos" "length q = length path"
      using rebuild_ok [OF segs(2) False, of bs path path] L len by (auto simp: tk L_def [symmetric])
    have w: "wr path 0 SL = Some path" using same len by (auto simp: wr_def)
    have norm: "take pos q = norm_path (cstr path)"
      using R(2) abs segs(3) by (cases path) (simp_all add: norm_path_def)
    have pos: "pos < bs" "pos < length q" using R L len by (simp_all add: L_def)
    have "vfs_normalize_path path bs = Some (q[pos := NUL])"
      using c0 slen segs(1) False R(1) w pos L(1) by (simp add: vfs_normalize_path_def Let_def wr_in)
    moreover have eq: "q[pos := NUL] = norm_path (cstr path) @ NUL # drop (Suc pos) q"
      using pos by (simp add: upd_conv_take_nth_drop norm)
    moreover have "no_nul (norm_path (cstr path))"
    proof -
      have "no_nul (join cs)" if "\<forall>c \<in> set cs. no_nul c" for cs
        using that by (induction cs rule: join.induct) auto
      moreover have "\<forall>c \<in> set (map (seg (cstr path)) segs). no_nul c"
        by (auto simp: seg_def no_nul_take no_nul_def dest: in_set_takeD in_set_dropD)
          (metis in_set_dropD in_set_takeD no_nul_cstr no_nul_def)
      ultimately show ?thesis using segs(3) by (simp add: norm_path_def)
    qed
    moreover have "length (q[pos := NUL]) = length path" using R(5) by simp
    ultimately show ?thesis by (simp only: eq) (metis cstr_append_NUL terminated_append_NUL)
  qed
qed

text \<open>Components of concatenated paths, and of joined components.\<close>

lemma comps_SL [simp]: "comps (SL # s) = comps s"
  by (subst (1 2) comps.simps) simp

lemma comps_Nil [simp]: "comps [] = []"
  by (simp add: comps.simps)

lemma comps_word: "w \<noteq> [] \<Longrightarrow> SL \<notin> set w \<Longrightarrow> comps (w @ SL # b) = w # comps b"
proof -
  assume w: "w \<noteq> []" "SL \<notin> set w"
  then have "dropWhile (\<lambda>c. c = SL) (w @ SL # b) = w @ SL # b" by (cases w) auto
  moreover have "takeWhile (\<lambda>c. c \<noteq> SL) (w @ SL # b) = w" "dropWhile (\<lambda>c. c \<noteq> SL) (w @ SL # b) = SL # b"
    using w(2) by (induction w) auto
  ultimately have "comps (w @ SL # b) = w # comps (SL # b)"
    using w(1) by (subst comps.simps) (simp only: Let_def append_is_Nil_conv simp_thms if_False)
  then show ?thesis by simp
qed

lemma comps_single: "w \<noteq> [] \<Longrightarrow> SL \<notin> set w \<Longrightarrow> comps w = [w]"
proof -
  assume w: "w \<noteq> []" "SL \<notin> set w"
  then have "dropWhile (\<lambda>c. c = SL) w = w" by (cases w) auto
  moreover have "takeWhile (\<lambda>c. c \<noteq> SL) w = w" "dropWhile (\<lambda>c. c \<noteq> SL) w = []"
    using w(2) by (induction w) auto
  ultimately have "comps w = w # comps []"
    using w(1) by (subst comps.simps) (simp only: Let_def simp_thms if_False)
  then show ?thesis by (simp add: comps.simps)
qed

lemma comps_append: "comps (a @ SL # b) = comps a @ comps b"
proof (induction "length a" arbitrary: a rule: less_induct)
  case less
  show ?case
  proof (cases a)
    case (Cons c a')
    show ?thesis
    proof (cases "c = SL")
      case True
      with less.hyps [of a'] Cons show ?thesis by simp
    next
      case False
      define w where "w = takeWhile (\<lambda>c. c \<noteq> SL) a"
      define r where "r = dropWhile (\<lambda>c. c \<noteq> SL) a"
      have a: "a = w @ r" by (simp add: w_def r_def)
      have w: "w \<noteq> []" "SL \<notin> set w" using False Cons by (auto simp: w_def dest: set_takeWhileD)
      show ?thesis
      proof (cases r)
        case Nil
        with a w show ?thesis by (simp add: comps_word comps_single)
      next
        case (Cons d r')
        then have "d = SL" using hd_dropWhile [of "\<lambda>c. c \<noteq> SL" a] by (simp add: r_def)
        with Cons a w less.hyps [of r'] show ?thesis by (simp add: comps_word)
      qed
    qed
  qed simp
qed

definition comp_ok :: "string \<Rightarrow> bool" where
  "comp_ok c \<longleftrightarrow> c \<noteq> [] \<and> SL \<notin> set c"

lemma comps_comp_ok: "c \<in> set (comps s) \<Longrightarrow> comp_ok c"
proof (induction s rule: comps.induct)
  case (1 s)
  let ?s = "dropWhile (\<lambda>c. c = SL) s"
  have eq: "comps s = (if ?s = [] then []
      else takeWhile (\<lambda>c. c \<noteq> SL) ?s # comps (dropWhile (\<lambda>c. c \<noteq> SL) ?s))"
    by (subst comps.simps) (simp only: Let_def)
  show ?case
  proof (cases "?s = []")
    case False
    then have "hd ?s \<noteq> SL" by (rule hd_dropWhile)
    with False have "comp_ok (takeWhile (\<lambda>c. c \<noteq> SL) ?s)"
      by (cases ?s) (auto simp: comp_ok_def dest: set_takeWhileD)
    moreover have "comps s = takeWhile (\<lambda>c. c \<noteq> SL) ?s # comps (dropWhile (\<lambda>c. c \<noteq> SL) ?s)"
      using eq False by (simp only: if_False)
    ultimately show ?thesis using "1.IH" [OF refl False] "1.prems" by (metis set_ConsD)
  qed (use 1 eq in simp)
qed

lemma comps_join: "\<forall>c \<in> set cs. comp_ok c \<Longrightarrow> comps (join cs) = cs"
  by (induction cs rule: join.induct) (simp_all add: comp_ok_def comps_single comps_word)

definition plain :: "string \<Rightarrow> bool" where
  "plain c \<longleftrightarrow> comp_ok c \<and> c \<noteq> ''.'' \<and> c \<noteq> ''..''"

lemma resolve_plain: "\<forall>c \<in> set acc. plain c \<Longrightarrow> \<forall>c \<in> set cs. comp_ok c \<Longrightarrow> \<forall>c \<in> set (resolve acc cs). plain c"
proof (induction acc cs rule: resolve.induct)
  case (2 acc c cs)
  have cs: "\<forall>c \<in> set cs. comp_ok c" and c: "comp_ok c" using "2.prems"(2) by simp_all
  have bl: "\<forall>c \<in> set (butlast acc). plain c" using "2.prems"(1) by (blast dest: in_set_butlastD)
  consider "c = ''.''" | "c = ''..''" "c \<noteq> ''.''" | "c \<noteq> ''.''" "c \<noteq> ''..''" by blast
  then show ?case
  proof cases
    case 1
    with "2.IH"(1) [OF 1 "2.prems"(1) cs] show ?thesis by (simp only: resolve.simps simp_thms if_True)
  next
    case 2
    with "2.IH"(2) [OF 2(2,1) bl cs] show ?thesis by (simp only: resolve.simps simp_thms if_True if_False)
  next
    case 3
    then have "plain c" using c by (simp only: plain_def simp_thms)
    with "2.prems"(1) have "\<forall>c \<in> set (acc @ [c]). plain c" by simp
    from "2.IH"(3) [OF 3 this cs] 3 show ?thesis by (simp only: resolve.simps simp_thms if_False)
  qed
qed (simp only: resolve.simps)

lemma resolve_id: "\<forall>c \<in> set cs. plain c \<Longrightarrow> resolve acc cs = acc @ cs"
  by (induction acc cs rule: resolve.induct) (auto simp: plain_def)

lemma norm_path_plain: "\<forall>c \<in> set (comps (norm_path s)). plain c"
  and norm_path_idem: "norm_path (norm_path s) = norm_path s"
proof -
  have p: "\<forall>c \<in> set (resolve [] (comps s)). plain c"
    by (rule resolve_plain) (auto dest: comps_comp_ok)
  then have c: "comps (norm_path s) = resolve [] (comps s)"
    by (simp add: norm_path_def comps_join plain_def)
  with p show "\<forall>c \<in> set (comps (norm_path s)). plain c" by simp
  show "norm_path (norm_path s) = norm_path s"
  proof -
    have "norm_path (norm_path s) = SL # join (resolve [] (comps (norm_path s)))" by (rule norm_path_def)
    also have "resolve [] (comps (norm_path s)) = resolve [] (comps s)"
      using p by (simp only: c resolve_id append_Nil)
    finally show ?thesis by (simp only: norm_path_def)
  qed
qed

lemma norm_path_SL [simp]: "norm_path (SL # s) = norm_path s"
  by (simp add: norm_path_def)

subsection \<open>Relative paths\<close>

lemma shift_right_ok:
  "n < length path \<Longrightarrow> shift_right n path = Some (path ! 0 # take n path @ drop (Suc n) path) \<or> path = []"
proof (induction n arbitrary: path)
  case 0
  then show ?case by (cases path) simp_all
next
  case (Suc n)
  let ?p = "path[Suc n := path ! n]"
  have "shift_right (Suc n) path = shift_right n ?p" using Suc.prems by (simp add: rd_in wr_in)
  also have "\<dots> = Some (?p ! 0 # take n ?p @ drop (Suc n) ?p)" using Suc.IH [of ?p] Suc.prems by auto
  also have "drop (Suc n) ?p = path ! n # drop (Suc (Suc n)) path"
    using Suc.prems by (simp add: Cons_nth_drop_Suc [symmetric])
  finally show ?case using Suc.prems by (simp add: take_Suc_conv_app_nth)
qed

lemma normalize_rel:
  assumes t: "terminated path" and rel: "cstr path \<noteq> []" "hd path \<noteq> SL"
    and L: "length (cstr path) + 2 < bs" "bs \<le> length path" "length (cstr path) < 127"
  shows "\<exists>r. vfs_normalize_path path bs = Some r \<and> cstr r = norm_path (cstr path)
    \<and> terminated r \<and> length r = length path"
proof -
  define n where "n = length (cstr path)"
  obtain r where r: "path = cstr path @ NUL # r" using t by (elim terminatedE)
  have len: "Suc n < length path" using L by (simp add: n_def)
  have c0: "rd path 0 = Some (path ! 0)" "path ! 0 \<noteq> SL" "path ! 0 \<noteq> NUL"
    using rel t by (cases path; auto simp: rd_def split: if_splits)+
  have tk: "take (Suc n) path = cstr path @ [NUL]"
    by (subst r) (simp add: n_def)
  define p where "p = SL # cstr path @ NUL # drop (Suc (Suc n)) path"
  have "path \<noteq> []" using len by auto
  with shift_right_ok [OF len] have "shift_right (Suc n) path = Some (path ! 0 # (cstr path @ [NUL]) @ drop (Suc (Suc n)) path)"
    by (simp only: tk simp_thms)
  then obtain q0 where sh: "shift_right (Suc n) path = Some q0" "wr q0 0 SL = Some p"
    by (simp add: wr_def p_def del: shift_right.simps)
  have lp: "length p = length path" using len by (simp add: p_def n_def)
  have cp: "cstr p = SL # cstr path" "terminated p" "hd p = SL" "p \<noteq> []"
    by (simp_all add: p_def)
  have "vfs_normalize_path path bs = vfs_normalize_path p bs"
  proof -
    have s1: "k_strlen path = Some n" unfolding n_def by (rule k_strlen_eq [OF t])
    have s2: "k_strlen p = Some (Suc n)" using k_strlen_eq [OF cp(2)] cp(1) by (simp add: n_def)
    have p0: "rd p 0 = Some SL" using cp by (cases p) (auto simp: rd_def)
    have nb: "\<not> n + 1 \<ge> bs" "bs \<noteq> 0" "\<not> Suc n + 1 \<ge> bs" using L by (simp_all add: n_def)
    then show ?thesis
      unfolding vfs_normalize_path_def using c0 s1 s2 sh p0 by (simp add: Let_def del: shift_right.simps)
  qed
  with normalize_abs [OF cp(2,4,3), of bs] L cp(1) lp show ?thesis by simp
qed

text \<open>Any path short enough, relative or absolute.\<close>

lemma normalize_ok:
  assumes "terminated path" "length (cstr path) + 2 < bs" "bs \<le> length path" "bs \<le> 128"
  shows "\<exists>r. vfs_normalize_path path bs = Some r \<and> cstr r = norm_path (cstr path)
    \<and> terminated r \<and> length r = length path"
proof (cases "cstr path = []")
  case True
  with assms(1) obtain q where "path = NUL # q" by (cases path) (auto split: if_splits)
  with True assms have "vfs_normalize_path path bs = root_path path bs"
    by (simp add: vfs_normalize_path_def rd_def)
  then show ?thesis
    using True root_path_ok [of bs path] assms by (simp add: norm_path_def)
next
  case False
  then show ?thesis
    using normalize_rel [of path bs] normalize_abs [of path bs] assms
    by (cases "hd path = SL") (cases path; auto)+
qed

subsection \<open>Resolution against a working directory\<close>

lemma start_at_cwd_ok:
  assumes "terminated cwd" "cstr cwd \<noteq> []" "length (cstr cwd) < bs" "length resolved = bs"
  shows "\<exists>r. start_at_cwd cwd resolved bs = Some r \<and> cstr r = cstr cwd \<and> terminated r \<and> length r = bs"
proof -
  have "rd cwd 0 \<noteq> Some NUL" "rd cwd 0 \<noteq> None"
    using assms(1,2) by (cases cwd; auto simp: rd_def split: if_splits)+
  then have "start_at_cwd cwd resolved bs = strncpy_term resolved cwd"
    using assms(4) by (auto simp: start_at_cwd_def strncpy_term_def)
  moreover have "resolved \<noteq> []" using assms(3,4) by auto
  ultimately show ?thesis
    using strncpy_term_string [OF assms(1), of resolved] assms(3,4) by auto
qed

lemma cstr_update_at_end:
  assumes "terminated b"
  shows "take (length (cstr b)) b = cstr b" "length (cstr b) < length b"
  using assms take_cstr length_cstr_less by blast+

text \<open>Writing a string and padding it to the end of the buffer.\<close>

lemma strncpy_tail:
  assumes "terminated p" "no_nul (take d b)" "d < length b" "d + length (cstr p) < length b"
  shows "\<exists>r. do { r \<leftarrow> k_strncpy b d p (length b - d); wr r (length b - 1) NUL } = Some r
    \<and> cstr r = take d b @ cstr p \<and> terminated r \<and> length r = length b"
proof -
  define k where "k = length b - d - length (cstr p)"
  have k: "0 < k" "length b = d + length (cstr p) + k" using assms(4) by (simp_all add: k_def)
  let ?r = "(take d b @ cstr p) @ replicate k NUL"
  have "k_strncpy b d p (length b - d) = Some ?r"
    using assms k by (simp add: k_strncpy_ok patch_def)
  moreover have len: "length ?r = length b" using k by simp
  moreover have "?r[length b - 1 := NUL] = ?r"
  proof (rule nth_equalityI)
    fix i assume "i < length (?r[length b - 1 := NUL])"
    with k len show "?r[length b - 1 := NUL] ! i = ?r ! i"
      by (cases "i = length b - 1") (auto simp: nth_append)
  qed simp
  moreover obtain k' where "k = Suc k'" using k by (cases k) auto
  then have "?r = (take d b @ cstr p) @ NUL # replicate k' NUL" by simp
  then have "cstr ?r = take d b @ cstr p" "terminated ?r"
    using assms(2) by (simp_all only: cstr_append_NUL terminated_append_NUL no_nul_simps no_nul_cstr simp_thms)
  ultimately show ?thesis using assms(3) by (auto simp: wr_def)
qed

lemma append_relative_ok:
  assumes r: "terminated r" "cstr r \<noteq> []" "length r = bs" and p: "terminated p"
    and fits: "length (cstr r) + 1 + length (cstr p) + 1 < bs"
  shows "\<exists>r'. append_relative r p bs = Some r' \<and> terminated r' \<and> length r' = bs
    \<and> cstr r' = (if last (cstr r) = SL then cstr r else cstr r @ [SL]) @ cstr p"
proof -
  define n where "n = length (cstr r)"
  have n: "0 < n" "n < bs - 1" using r(2) fits by (simp_all add: n_def)
  have s1: "k_strlen r = Some n" using k_strlen_eq [OF r(1)] by (simp add: n_def)
  have tk: "take n r = cstr r" unfolding n_def by (rule take_cstr [OF r(1)])
  have lst: "rd r (n - 1) = Some (last (cstr r))"
  proof -
    have "last (cstr r) = cstr r ! (n - 1)" using r(2) by (simp add: last_conv_nth n_def)
    also have "\<dots> = r ! (n - 1)" using n by (simp add: tk [symmetric])
    finally show ?thesis using n r(3) by (simp add: rd_in)
  qed
  show ?thesis
  proof (cases "last (cstr r) = SL")
    case True
    have "append_relative r p bs = do { r' \<leftarrow> k_strncpy r n p (bs - n); wr r' (bs - 1) NUL }"
      using s1 n lst True by (simp add: append_relative_def Let_def)
    then show ?thesis
      using strncpy_tail [OF p, of n r] r(3) fits True by (auto simp: tk n_def [symmetric])
  next
    case False
    let ?r = "r[n := SL, Suc n := NUL]"
    have len: "Suc n < length r" using n r(3) by simp
    have "append_relative r p bs = do { r' \<leftarrow> k_strncpy ?r (Suc n) p (bs - Suc n); wr r' (bs - 1) NUL }"
    proof -
      have "Suc n < bs - 1" using fits by (simp add: n_def)
      then show ?thesis using s1 n lst False len r(3) by (simp add: append_relative_def Let_def wr_in)
    qed
    moreover have "take (Suc n) ?r = cstr r @ [SL]"
      using len by (simp add: take_Suc_conv_app_nth tk)
    moreover have "no_nul (cstr r @ [SL])" by simp
    ultimately show ?thesis
      using strncpy_tail [OF p, of "Suc n" ?r] r(3) fits False len by (auto simp: n_def [symmetric])
  qed
qed

lemma norm_path_cong: "comps s = comps t \<Longrightarrow> norm_path s = norm_path t"
  by (simp add: norm_path_def)

text \<open>The path a name means for a task whose working directory is \<open>cwd\<close>.\<close>

definition path_of :: "string \<Rightarrow> string \<Rightarrow> string" where
  "path_of cwd p = (if p = [] then norm_path cwd else if hd p = SL then norm_path p
     else norm_path (cwd @ SL # p))"

lemma vfs_resolve_path_ok:
  assumes cwd: "terminated cwd" "cstr cwd \<noteq> []" and p: "terminated p"
    and fits: "length (cstr cwd) + length (cstr p) + 3 < bs" "bs \<le> 128" "length resolved = bs"
  shows "\<exists>r. vfs_resolve_path cwd (Some p) resolved bs = Some r \<and> terminated r \<and> length r = bs
    \<and> cstr r = path_of (cstr cwd) (cstr p)"
proof -
  have bs: "bs \<noteq> 0" using fits by simp
  obtain r where r: "start_at_cwd cwd resolved bs = Some r" "cstr r = cstr cwd" "terminated r" "length r = bs"
    using start_at_cwd_ok [OF cwd, of bs resolved] fits by auto
  obtain c p' where p': "p = c # p'" using p by (cases p) auto
  consider "c = NUL" | "c = SL" | "c \<noteq> NUL" "c \<noteq> SL" by blast
  then show ?thesis
  proof cases
    case 1
    then have "cstr p = []" "vfs_resolve_path cwd (Some p) resolved bs = vfs_normalize_path r bs"
      using r(1) bs p' by (simp_all add: vfs_resolve_path_def rd_def)
    with normalize_ok [OF r(3), of bs] r fits show ?thesis by (auto simp: path_of_def)
  next
    case 2
    then have hd: "cstr p \<noteq> []" "hd (cstr p) = SL" using p' by auto
    have "resolved \<noteq> []" using fits by auto
    then obtain q where q: "strncpy_term resolved p = Some q" "length q = bs" "terminated q"
      "cstr q = take (bs - 1) (cstr p)" using strncpy_term_string [OF p, of resolved] fits by auto
    then have cq: "cstr q = cstr p" using fits by simp
    have eq: "vfs_resolve_path cwd (Some p) resolved bs =
        bind (strncpy_term resolved p) (\<lambda>r. vfs_normalize_path r bs)"
      using bs p' 2 fits(3) by (simp add: vfs_resolve_path_def rd_def strncpy_term_def)
    have "vfs_resolve_path cwd (Some p) resolved bs = vfs_normalize_path q bs"
      unfolding eq q(1) by simp
    with normalize_ok [OF q(3), of bs] q(2) cq hd fits show ?thesis by (auto simp: path_of_def)
  next
    case 3
    then have hd: "cstr p \<noteq> []" "hd (cstr p) \<noteq> SL" using p' by auto
    obtain r' where r': "append_relative r p bs = Some r'" "terminated r'" "length r' = bs"
      "cstr r' = (if last (cstr r) = SL then cstr r else cstr r @ [SL]) @ cstr p"
      using append_relative_ok [OF r(3) _ r(4) p] r(2) cwd fits by auto
    have "vfs_resolve_path cwd (Some p) resolved bs = vfs_normalize_path r' bs"
      using 3 r(1) r'(1) bs p' by (simp add: vfs_resolve_path_def rd_def)
    moreover have "length (cstr r') + 2 < bs" using r'(4) r(2) fits by auto
    moreover have "norm_path (cstr r') = norm_path (cstr cwd @ SL # cstr p)"
    proof (rule norm_path_cong)
      show "comps (cstr r') = comps (cstr cwd @ SL # cstr p)"
      proof (cases "last (cstr cwd) = SL")
        case True
        then obtain x where x: "cstr cwd = x @ [SL]" using cwd(2) by (metis append_butlast_last_id)
        then have "cstr r' = x @ SL # cstr p" using r'(4) r(2) True by simp
        moreover have "cstr cwd @ SL # cstr p = x @ SL # SL # cstr p" using x by simp
        ultimately show ?thesis by (simp only: comps_append comps_SL)
      next
        case False
        then show ?thesis using r'(4) r(2) by simp
      qed
    qed
    ultimately show ?thesis
      using normalize_ok [OF r'(2), of bs] r'(3) hd fits by (auto simp: path_of_def)
  qed
qed

subsection \<open>Properties\<close>

text \<open>
  C17: path resolution. For a working directory and a path that together leave four bytes of the
  buffer free, \<open>vfs_resolve_path\<close> stays inside the buffers and produces the normal form of the
  path (of the working directory followed by it when it is relative): split at slashes, \<open>.\<close>
  dropped, \<open>..\<close> taking the component before it away and never leaving the root, joined again. The
  result is terminated, absolute, free of \<open>.\<close>, \<open>..\<close> and doubled slashes, and normalising it again
  does not change it.
\<close>

theorem vfs_resolve_path_correct:
  assumes "terminated cwd" "cstr cwd \<noteq> []" "terminated p" "length resolved = bs" "bs \<le> 128"
    "length (cstr cwd) + length (cstr p) + 3 < bs"
  shows "\<exists>r. vfs_resolve_path cwd (Some p) resolved bs = Some r \<and> terminated r \<and> length r = bs
    \<and> cstr r = path_of (cstr cwd) (cstr p)
    \<and> hd (cstr r) = SL \<and> norm_path (cstr r) = cstr r
    \<and> (\<forall>c \<in> set (comps (cstr r)). c \<noteq> [] \<and> c \<noteq> ''.'' \<and> c \<noteq> ''..'')"
proof -
  obtain s where s: "path_of (cstr cwd) (cstr p) = norm_path s"
    by (metis path_of_def)
  have "hd (norm_path s) = SL" by (simp add: norm_path_def)
  moreover have "\<forall>c \<in> set (comps (norm_path s)). c \<noteq> [] \<and> c \<noteq> ''.'' \<and> c \<noteq> ''..''"
    using norm_path_plain [of s] unfolding plain_def comp_ok_def by blast
  ultimately show ?thesis
    using vfs_resolve_path_ok [OF assms(1-3,6,5,4)] norm_path_idem [of s] unfolding s by metis
qed

theorem vfs_resolve_path_correct_witness:
  "\<exists>r. vfs_resolve_path (c_string ''/proc/12'') (Some (c_string ''.././/self'')) (replicate 64 NUL) 64 = Some r
     \<and> cstr r = path_of ''/proc/12'' ''.././/self''"
proof -
  have "cstr (c_string ''/proc/12'') = ''/proc/12''" "cstr (c_string ''.././/self'') = ''.././/self''"
    by (simp_all add: c_string_def)
  then show ?thesis
    using vfs_resolve_path_correct [of "c_string ''/proc/12''" "c_string ''.././/self''" "replicate 64 NUL" 64]
    by simp metis
qed

text \<open>
  The last byte of a full buffer is lost. A one-component path that fills its buffer exactly
  (every byte of the buffer but the terminator's) and is already normal does not survive
  normalisation: its last character is cut, although it fits.
\<close>

theorem normalize_cuts_full_path:
  assumes "no_nul x" "SL \<notin> set x" "4 \<le> bs" "bs \<le> 128" "length x + 2 = bs" "plain x"
  shows "\<exists>r. vfs_normalize_path (c_string (SL # x)) bs = Some r \<and> cstr r = SL # butlast x
    \<and> norm_path (SL # x) = SL # x"
proof -
  let ?p = "c_string (SL # x)" and ?n = "length x"
  have cs: "cstr ?p = SL # x" using assms(1) by (intro cstr_c_string) simp
  have x: "x \<noteq> []" "2 \<le> ?n" using assms(3,5) by auto
  have cx: "comps (SL # x) = [x]" using x assms(2) by (simp add: comps_single)
  then have norm: "norm_path (SL # x) = SL # x"
    using resolve_id [of "[x]" "[]"] assms(6) by (simp add: norm_path_def del: comps_SL resolve.simps)
  have slen: "k_strlen ?p = Some (Suc ?n)" using k_strlen_eq [of ?p] cs by simp
  have tk: "take (Suc ?n) ?p = SL # x" by (simp add: c_string_def)
  obtain segs where segs: "scan_segments ?p (Suc ?n) 0 [] = Some segs" "segs_ok 1 segs (Suc ?n)"
    "map (seg (SL # x)) segs = resolve [] [x]"
    using scan_ok [of "Suc ?n" ?p 0 "[]"] assms(4,5) cx by (auto simp: tk c_string_def)
  then have "map (seg (SL # x)) segs = [x]"
    using resolve_id [of "[x]" "[]"] assms(6) by (simp del: resolve.simps)
  then obtain st ln where s: "segs = [(st, ln)]" and sx: "take ln (drop st (SL # x)) = x"
    by (cases segs) (auto simp: seg_def)
  have st: "st = 1" "ln = ?n"
  proof -
    have "length (take ln (drop st (SL # x))) = ?n" using sx by simp
    then have "?n \<le> ln" by simp
    moreover have "1 \<le> st" "st + ln \<le> Suc ?n" using segs(2) s by simp_all
    ultimately show "st = 1" "ln = ?n" by simp_all
  qed
  have allowed: "int bs - int 1 - 2 = int (?n - 1)" "\<not> int (?n - 1) \<le> 0" "1 + ?n + 1 \<ge> bs"
    using assms(5) x by simp_all
  have cp: "k_memcpy_in ?p 1 1 (?n - 1) = Some ?p"
    by (simp add: k_memcpy_in_def memcpy_in_loop_ok patch_self c_string_def del: drop_Suc_Cons)
  have "rebuild bs segs 1 ?p = Some (?p, ?n)"
  proof -
    have "nat (int (length x) - 1) = length x - Suc 0" by simp
    then show ?thesis using allowed cp x by (simp add: s st Let_def)
  qed
  moreover have "wr ?p 0 SL = Some ?p" "rd ?p 0 = Some SL" by (simp_all add: c_string_def wr_def rd_def)
  ultimately have "vfs_normalize_path ?p bs = wr ?p ?n NUL"
    using slen segs(1) s assms(5) by (simp add: vfs_normalize_path_def Let_def)
  also have "\<dots> = Some (SL # butlast x @ [NUL, NUL])"
  proof -
    obtain y c where "x = y @ [c]" using x by (cases x rule: rev_cases) auto
    then show ?thesis by (simp add: wr_def c_string_def list_update_append)
  qed
  finally show ?thesis
    using norm assms(1) by (simp add: no_nul_def) (metis cstr_append_NUL in_set_butlastD no_nul_def)
qed

theorem normalize_cuts_full_path_witness:
  "\<exists>r. vfs_normalize_path (c_string ''/abcdef'') 8 = Some r \<and> cstr r = SL # butlast ''abcdef''
    \<and> norm_path (SL # ''abcdef'') = SL # ''abcdef''"
  using normalize_cuts_full_path [of "''abcdef''" 8] by (simp add: plain_def comp_ok_def)

end
