(* ===== verification/FileTable.thy ===== *)
theory FileTable
  imports Task Path Fifo Knum
begin

section \<open>fs/vfs.c, fs/fs_util.c: open files and mounts\<close>

text \<open>
  The kernel-wide table of 1024 \<open>struct file\<close>s with its ring of free indices, the mount table,
  and directory entries. A \<open>struct file *\<close> is an index into the table. The function pointers of
  \<open>struct file_ops\<close> are the functions the file systems install, as datatypes; \<open>driver_data\<close> is one
  of the things drivers store there. \<open>vt_inv\<close> is the table's invariant, which makes it an
  interpretation of \<open>slot_allocator\<close>.
\<close>

datatype rd_op = tty_read | proc_read | bin_read
datatype wr_op = tty_write
datatype cl_op = tty_close
datatype gd_op = root_getdents | proc_getdents | bin_getdents | dev_getdents | sys_getdents
datatype st_op = bin_fstat
datatype fs_id = root_fs | sys_fs | proc_fs | dev_fs | bin_fs

text \<open>
  \<open>DNull\<close> is also \<open>TTY_MARKER_ACTIVE\<close>; \<open>DMarker\<close> the integers 1 to 3 cast to pointers; \<open>DBin\<close> an
  entry of the array of embedded binaries.
\<close>

datatype drv = DNull | DMarker nat | DTty nat | DBin nat

record open_file =
  f_idx :: u32
  f_pathname :: "char list"
  f_flags :: int
  f_mode :: int
  f_ref_count :: u8
  f_pos :: u64
  f_fd :: int
  f_data :: drv
  f_close :: "cl_op option"
  f_read :: "rd_op option"
  f_write :: "wr_op option"
  f_getdents :: "gd_op option"
  f_fstat :: "st_op option"

definition zero_file :: open_file where
  "zero_file =
     \<lparr> f_idx = 0, f_pathname = replicate 64 NUL, f_flags = 0, f_mode = 0, f_ref_count = 0, f_pos = 0,
       f_fd = 0, f_data = DNull, f_close = None, f_read = None, f_write = None, f_getdents = None,
       f_fstat = None \<rparr>"

record mount_point =
  m_path :: "char list"
  m_fs :: "fs_id option"
  m_active :: bool

record vfs =
  v_free_ring :: "u32 list"
  v_head :: u32
  v_tail :: u32
  v_files :: "nat \<Rightarrow> open_file"
  v_mounts :: "mount_point list"

definition MAX_MOUNTS :: nat where "MAX_MOUNTS = 16"

lemma MAX_FILE_CNT_simp [simp]: "MAX_FILE_CNT = 1024"
  by (simp add: MAX_FILE_CNT_def)

definition updf :: "nat \<Rightarrow> (open_file \<Rightarrow> open_file) \<Rightarrow> vfs \<Rightarrow> vfs" where
  "updf i f v = v\<lparr>v_files := (v_files v)(i := f (v_files v i))\<rparr>"

text \<open>The loop over the files and the loop over the mounts of \<open>vfs_init\<close>.\<close>

definition vfs_init :: "vfs \<Rightarrow> vfs" where
  "vfs_init v =
     v\<lparr>v_head := 0, v_tail := of_nat MAX_FILE_CNT,
       v_files := (\<lambda>i. if i < MAX_FILE_CNT then zero_file\<lparr>f_idx := of_nat i\<rparr> else v_files v i),
       v_free_ring := map of_nat [0..<MAX_FILE_CNT],
       v_mounts := map (\<lambda>m. m\<lparr>m_active := False, m_fs := None, m_path := (m_path m)[0 := NUL]\<rparr>) (v_mounts v)\<rparr>"

definition vfs_alloc_file :: "vfs \<Rightarrow> (nat option \<times> vfs) res" where
  "vfs_alloc_file v =
     (if v_head v = v_tail v then Inr (None, v)
      else
        let free_ring_idx = unat (v_head v AND 1023)
        in bindR (of_opt (rd (v_free_ring v) free_ring_idx)) (\<lambda>file_idx.
          if unat file_idx \<ge> MAX_FILE_CNT then Inl BadAccess
          else Inr (Some (unat file_idx), v\<lparr>v_head := v_head v + 1\<rparr>)))"

definition vfs_free_file :: "nat \<Rightarrow> vfs \<Rightarrow> vfs res" where
  "vfs_free_file file v =
     (if v_tail v - v_head v = of_nat MAX_FILE_CNT
      then Inl (Panic ''vfs_free_file: too many frees'')
      else
        let v1 = updf file (\<lambda>f. f\<lparr>f_fd := -1\<rparr>) v;
            file_idx = f_idx (v_files v file);
            free_ring_idx = unat (v_tail v AND 1023)
        in bindR (of_opt (wr (v_free_ring v1) free_ring_idx file_idx)) (\<lambda>ring'.
             Inr (v1\<lparr>v_free_ring := ring', v_tail := v_tail v1 + 1\<rparr>)))"

subsection \<open>The invariant of the file table\<close>

definition vt_free :: "vfs \<Rightarrow> nat list" where
  "vt_free v = map unat (ring_list 1024 (v_free_ring v) (v_head v) (v_tail v))"

definition vt_inv :: "vfs \<Rightarrow> bool" where
  "vt_inv v \<longleftrightarrow>
     length (v_free_ring v) = 1024 \<and> ring_count (v_head v) (v_tail v) \<le> 1024 \<and>
     distinct (vt_free v) \<and> set (vt_free v) \<subseteq> {..<1024} \<and>
     (\<forall>i < 1024. f_idx (v_files v i) = of_nat i)"

lemma vt_invD:
  assumes "vt_inv v"
  shows "length (v_free_ring v) = 1024" "ring_count (v_head v) (v_tail v) \<le> 1024"
    "distinct (vt_free v)" "set (vt_free v) \<subseteq> {..<1024}" "i < 1024 \<Longrightarrow> f_idx (v_files v i) = of_nat i"
  using assms by (simp_all add: vt_inv_def)

lemma vt_inv_cong:
  assumes "vt_inv v" "v_free_ring v' = v_free_ring v" "v_head v' = v_head v" "v_tail v' = v_tail v"
    "\<And>i. i < 1024 \<Longrightarrow> f_idx (v_files v' i) = f_idx (v_files v i)"
  shows "vt_inv v'" "vt_free v' = vt_free v"
  using assms by (simp_all add: vt_inv_def vt_free_def)

lemma vt_free_empty: "vt_free v = [] \<longleftrightarrow> v_head v = v_tail v"
  by (simp add: vt_free_def flip: length_0_conv) (simp add: ring_count_0)

lemma vfs_alloc_file_None: "vt_free v = [] \<Longrightarrow> vfs_alloc_file v = Inr (None, v)"
  by (simp add: vfs_alloc_file_def vt_free_empty)

lemma vfs_alloc_file_Cons:
  assumes inv: "vt_inv v" and fl: "vt_free v = i # xs"
  shows "vfs_alloc_file v = Inr (Some i, v\<lparr>v_head := v_head v + 1\<rparr>)
    \<and> vt_inv (v\<lparr>v_head := v_head v + 1\<rparr>) \<and> vt_free (v\<lparr>v_head := v_head v + 1\<rparr>) = xs"
proof -
  let ?h = "v_head v" and ?t = "v_tail v" and ?r = "v_free_ring v"
  have ne: "?h \<noteq> ?t" using fl vt_free_empty [of v] by auto
  have "ring_list 1024 ?r ?h ?t = ?r ! unat (?h AND 1023) # ring_list 1024 ?r (?h + 1) ?t"
    by (rule ring1024.ring_pop [OF ne])
  then have i: "unat (?r ! unat (?h AND 1023)) = i" and xs: "map unat (ring_list 1024 ?r (?h + 1) ?t) = xs"
    using fl by (simp_all add: vt_free_def)
  have i1: "i < 1024" using vt_invD(4) [OF inv] fl by simp
  have alloc: "vfs_alloc_file v = Inr (Some i, v\<lparr>v_head := ?h + 1\<rparr>)"
    using ne i i1 vt_invD(1) [OF inv] ring1024.index_less [of ?h]
    by (simp add: vfs_alloc_file_def rd_in Let_def)
  have free: "vt_free (v\<lparr>v_head := ?h + 1\<rparr>) = xs" using xs by (simp add: vt_free_def)
  have cnt: "ring_count (?h + 1) ?t \<le> 1024"
    using vt_invD(2) [OF inv] unfolding ring_count_head [OF ne] by simp
  have "distinct xs" "set xs \<subseteq> {..<1024}" using vt_invD(3,4) [OF inv] fl by simp_all
  with free cnt vt_invD(1,5) [OF inv] have "vt_inv (v\<lparr>v_head := ?h + 1\<rparr>)"
    by (simp add: vt_inv_def)
  with alloc free show ?thesis by blast
qed

lemma vfs_free_file_ok:
  assumes inv: "vt_inv v" and i: "i < 1024" "i \<notin> set (vt_free v)"
  defines "v' \<equiv> (updf i (\<lambda>f. f\<lparr>f_fd := -1\<rparr>) v)\<lparr>v_free_ring := (v_free_ring v)[unat (v_tail v AND 1023) := of_nat i],
    v_tail := v_tail v + 1\<rparr>"
  shows "vfs_free_file i v = Inr v' \<and> vt_inv v' \<and> vt_free v' = vt_free v @ [i]"
proof -
  let ?h = "v_head v" and ?t = "v_tail v" and ?r = "v_free_ring v"
  note D = vt_invD [OF inv]
  have "set (vt_free v) \<subset> {..<1024}" using D(4) i by auto
  then have "card (set (vt_free v)) < card {..<1024::nat}" by (rule psubset_card_mono [rotated]) simp
  then have "length (vt_free v) < 1024" using distinct_card [OF D(3)] by simp
  then have cnt: "ring_count ?h ?t < 1024" by (simp add: vt_free_def)
  then have "?t - ?h \<noteq> 1024" by (auto simp: ring_count_def)
  then have run: "vfs_free_file i v = Inr v'"
    using D(1) D(5) [OF i(1)] ring1024.index_less [of ?t]
    by (simp add: vfs_free_file_def wr_in v'_def updf_def Let_def)
  have "unat (of_nat i :: u32) = i" using i by (simp add: unat_of_nat)
  then have fl: "vt_free v' = vt_free v @ [i]"
    using ring1024.ring_put [OF cnt D(1)] by (simp add: vt_free_def v'_def updf_def)
  have "ring_count ?h (?t + 1) \<le> 1024" using ring1024.ring_count_put [OF cnt] cnt by simp
  moreover have "distinct (vt_free v @ [i])" "set (vt_free v @ [i]) \<subseteq> {..<1024}"
    using D(3,4) i by simp_all
  moreover have "\<forall>j < 1024. f_idx (v_files v' j) = of_nat j"
    using D(5) by (simp add: v'_def updf_def)
  ultimately have "vt_inv v'" using D(1) fl by (simp add: vt_inv_def v'_def updf_def)
  with run fl show ?thesis by blast
qed

interpretation ftab: slot_allocator vt_inv vt_free 1024 vfs_alloc_file vfs_free_file
proof unfold_locales
  fix v i xs assume "vt_inv v" "vt_free v = i # xs"
  then show "\<exists>s'. vfs_alloc_file v = Inr (Some i, s') \<and> vt_inv s' \<and> vt_free s' = xs"
    using vfs_alloc_file_Cons by blast
next
  fix v i assume "vt_inv v" "i < 1024" "i \<notin> set (vt_free v)"
  then show "\<exists>s'. vfs_free_file i v = Inr s' \<and> vt_inv s' \<and> vt_free s' = vt_free v @ [i]"
    using vfs_free_file_ok by blast
qed (simp_all add: vt_invD vfs_alloc_file_None)

lemma vfs_init_inv: "vt_inv (vfs_init v)" "vt_free (vfs_init v) = [0..<1024]"
proof -
  have cnt: "ring_count 0 1024 = 1024" by (simp add: ring_count_def)
  have "ring_list 1024 (map of_nat [0..<1024]) 0 1024 = (map of_nat [0..<1024] :: u32 list)"
    by (rule nth_equalityI) (simp_all add: ring_list_def cnt)
  moreover have "map unat (map of_nat [0..<1024] :: u32 list) = [0..<1024]"
    by (rule nth_equalityI) (simp_all add: unat_of_nat)
  ultimately show free: "vt_free (vfs_init v) = [0..<1024]"
    by (simp only: vfs_init_def vt_free_def MAX_FILE_CNT_simp) simp
  show "vt_inv (vfs_init v)"
    unfolding vt_inv_def free by (simp add: vfs_init_def cnt lessThan_atLeast0)
qed

subsection \<open>Directory entries\<close>

text \<open>\<open>struct dirent\<close>; its size is 72 bytes with padding.\<close>

record dirent =
  d_ino :: u32
  d_reclen :: u16
  d_type :: u8
  d_name :: "char list"

definition SIZEOF_DIRENT :: u32 where "SIZEOF_DIRENT = 72"
definition DT_REG :: u8 where "DT_REG = 1"
definition DT_DIR :: u8 where "DT_DIR = 2"
definition DT_CHR :: u8 where "DT_CHR = 3"
definition DT_LNK :: u8 where "DT_LNK = 7"

text \<open>
  \<open>fs_add_entry\<close> writes entry \<open>idx\<close> of the caller's buffer, if \<open>idx < max_entries\<close>, and returns the
  buffer and \<open>idx\<close> after it. \<open>set_name\<close> is the part it shares with the other directory fillers.
\<close>

definition set_name :: "dirent \<Rightarrow> char list \<Rightarrow> dirent option" where
  "set_name de name = do {
     n \<leftarrow> k_strlen name;
     let nlen = (if n \<ge> length (d_name de) then length (d_name de) - 1 else n);
     b \<leftarrow> k_memcpy (d_name de) 0 name 0 nlen;
     b1 \<leftarrow> wr b nlen NUL;
     Some (de\<lparr>d_name := b1\<rparr>) }"

definition fs_add_entry ::
    "dirent list \<Rightarrow> u32 \<Rightarrow> u32 \<Rightarrow> u32 \<Rightarrow> u8 \<Rightarrow> char list option \<Rightarrow> (dirent list \<times> u32) option" where
  "fs_add_entry buf max_entries idx ino dt name =
     (if idx \<ge> max_entries then Some (buf, idx)
      else do {
        de \<leftarrow> rd buf (unat idx);
        let de1 = de\<lparr>d_ino := ino, d_reclen := ucast SIZEOF_DIRENT, d_type := dt\<rparr>;
        de2 \<leftarrow> (case name of
                 Some s \<Rightarrow> set_name de1 s
               | None \<Rightarrow> do { b \<leftarrow> wr (d_name de1) 0 NUL; Some (de1\<lparr>d_name := b\<rparr>) });
        buf1 \<leftarrow> wr buf (unat idx) de2;
        Some (buf1, idx + 1) })"

definition dirents_ok :: "dirent list \<Rightarrow> bool" where
  "dirents_ok buf \<longleftrightarrow> (\<forall>de \<in> set buf. length (d_name de) = 64)"

lemma set_name_ok:
  assumes "length (d_name de) = 64" "terminated s"
  shows "\<exists>b. set_name de s = Some (de\<lparr>d_name := b\<rparr>) \<and> length b = 64 \<and> terminated b
    \<and> cstr b = take 63 (cstr s)"
proof -
  define n where "n = (if length (cstr s) \<ge> 64 then 63 else length (cstr s))"
  let ?x = "take n s"
  have n: "n \<le> 63" "n \<le> length (cstr s)" "n = min 63 (length (cstr s))"
    by (auto simp: n_def)
  have tk: "take n s = take 63 (cstr s)"
  proof -
    have "take n s = take n (take (length (cstr s)) s)" using n(2) by (simp add: min_def)
    also have "\<dots> = take n (cstr s)" by (simp only: take_cstr [OF assms(2)])
    also have "\<dots> = take 63 (cstr s)" unfolding n(3) by (cases "length (cstr s) \<le> 63") simp_all
    finally show ?thesis .
  qed
  have ns: "n \<le> length s" using n(2) length_cstr_le [of s] by simp
  have x: "length ?x = n" using ns by simp
  have nn: "no_nul ?x" unfolding tk by (simp add: no_nul_take)
  have eq: "(patch (d_name de) 0 ?x)[n := NUL] = ?x @ NUL # drop (Suc n) (d_name de)"
    using patch_then_NUL [of 0 ?x "d_name de"] assms(1) n(1) x by (simp add: patch_def c_string_def)
  have lp: "length (patch (d_name de) 0 ?x) = 64" using assms(1) n(1) x by (subst length_patch) simp_all
  have "k_memcpy (d_name de) 0 s 0 n = Some (patch (d_name de) 0 ?x)"
    using assms(1) n(1) ns by (simp add: k_memcpy_ok)
  moreover have "wr (patch (d_name de) 0 ?x) n NUL = Some (?x @ NUL # drop (Suc n) (d_name de))"
    using lp n(1) eq by (simp add: wr_def)
  moreover have "k_strlen s = Some (length (cstr s))" by (rule k_strlen_eq [OF assms(2)])
  moreover have "(if length (d_name de) \<le> length (cstr s) then length (d_name de) - 1 else length (cstr s)) = n"
    using assms(1) by (simp add: n_def)
  ultimately have "set_name de s = Some (de\<lparr>d_name := ?x @ NUL # drop (Suc n) (d_name de)\<rparr>)"
    by (simp only: set_name_def Let_def bind.bind_lunit)
  moreover have "length (?x @ NUL # drop (Suc n) (d_name de)) = 64" using assms(1) n(1) x by simp
  moreover have "cstr (?x @ NUL # drop (Suc n) (d_name de)) = take 63 (cstr s)"
    using nn tk by (simp only: cstr_append_NUL)
  ultimately show ?thesis by (metis terminated_append_NUL)
qed

text \<open>An entry is added inside the buffer or not at all.\<close>

lemma fs_add_entry_ok:
  assumes "dirents_ok buf" "unat max_entries \<le> length buf" "terminated s"
  shows "\<exists>buf' idx'. fs_add_entry buf max_entries idx ino dt (Some s) = Some (buf', idx')
    \<and> length buf' = length buf \<and> dirents_ok buf'
    \<and> idx' = (if idx < max_entries then idx + 1 else idx)"
proof (cases "idx < max_entries")
  case True
  then have lt: "unat idx < length buf" using assms(2) by (simp add: word_less_nat_alt)
  then have l64: "length (d_name (buf ! unat idx)) = 64" using assms(1) by (simp add: dirents_ok_def)
  let ?de = "(buf ! unat idx)\<lparr>d_ino := ino, d_reclen := ucast SIZEOF_DIRENT, d_type := dt\<rparr>"
  obtain b where b: "set_name ?de s = Some (?de\<lparr>d_name := b\<rparr>)" "length b = 64"
    using set_name_ok [of ?de s] l64 assms(3) by auto
  have "fs_add_entry buf max_entries idx ino dt (Some s)
    = Some (buf[unat idx := ?de\<lparr>d_name := b\<rparr>], idx + 1)"
    using True lt b(1) by (simp add: fs_add_entry_def rd_in wr_in Let_def not_le)
  moreover have "dirents_ok (buf[unat idx := ?de\<lparr>d_name := b\<rparr>])"
    using assms(1) b(2) by (auto simp: dirents_ok_def dest!: set_update_subset_insert [THEN subsetD])
  ultimately show ?thesis using True by simp
next
  case False
  with assms(1) show ?thesis by (simp add: fs_add_entry_def not_less)
qed

end
