(* ===== verification/Mount.thy ===== *)
theory Mount
  imports FileTable
begin

section \<open>fs/vfs.c: the mount table\<close>

text \<open>
  Sixteen mount points, each with a 64-byte path. \<open>vfs_mount\<close> normalises a path and takes the
  first inactive entry; \<open>path_to_fs\<close> picks the file system with the longest mount path that is a
  prefix of a path at a component boundary; \<open>vfs_get_root_mounts\<close> lists the mounts directly below
  the root. \<open>mount_rep ms ps\<close> reads the table as a list of path and file system.
\<close>

fun mount_loop :: "mount_point list \<Rightarrow> char list \<Rightarrow> fs_id \<Rightarrow> (int \<times> mount_point list) option" where
  "mount_loop [] normalized fs = Some (-1, [])"
| "mount_loop (m # ms) normalized fs =
     (if \<not> m_active m then do {
        p \<leftarrow> k_strcpy (m_path m) normalized;
        Some (0, m\<lparr>m_active := True, m_fs := Some fs, m_path := p\<rparr> # ms) }
      else do { (r, ms') \<leftarrow> mount_loop ms normalized fs; Some (r, m # ms') })"

definition vfs_mount :: "char list option \<Rightarrow> fs_id option \<Rightarrow> vfs \<Rightarrow> (int \<times> vfs) option" where
  "vfs_mount path fs v =
     (case (path, fs) of
        (Some p, Some f) \<Rightarrow> do {
          b \<leftarrow> k_strncpy (replicate MAX_FILENAME_LEN NUL) 0 p MAX_FILENAME_LEN;
          b1 \<leftarrow> wr b (MAX_FILENAME_LEN - 1) NUL;
          normalized \<leftarrow> vfs_normalize_path b1 MAX_FILENAME_LEN;
          (r, ms) \<leftarrow> mount_loop (v_mounts v) normalized f;
          Some (r, v\<lparr>v_mounts := ms\<rparr>) }
      | _ \<Rightarrow> Some (-1, v))"

fun root_mounts_loop :: "mount_point list \<Rightarrow> dirent list \<Rightarrow> u32 \<Rightarrow> u32 \<Rightarrow> (dirent list \<times> u32) option" where
  "root_mounts_loop [] buf max_entries idx = Some (buf, idx)"
| "root_mounts_loop (m # ms) buf max_entries idx =
     (if idx \<ge> max_entries then Some (buf, idx)
      else if \<not> m_active m then root_mounts_loop ms buf max_entries idx
      else do {
        p0 \<leftarrow> rd (m_path m) 0;
        p1 \<leftarrow> rd (m_path m) 1;
        if p0 = SL \<and> p1 = NUL then root_mounts_loop ms buf max_entries idx
        else if p0 \<noteq> SL then root_mounts_loop ms buf max_entries idx
        else do {
          let name = drop 1 (m_path m);
          sl \<leftarrow> k_strchr (Some name) SL;
          (buf1, idx1) \<leftarrow> (if sl = None \<and> p1 \<noteq> NUL
            then fs_add_entry buf max_entries idx 0 DT_DIR (Some name) else Some (buf, idx));
          root_mounts_loop ms buf1 max_entries idx1 } })"

definition vfs_get_root_mounts :: "vfs \<Rightarrow> dirent list \<Rightarrow> u32 \<Rightarrow> u32 \<Rightarrow> (dirent list \<times> u32) option" where
  "vfs_get_root_mounts v buf max_entries idx = root_mounts_loop (v_mounts v) buf max_entries idx"

fun path_to_fs_loop ::
    "mount_point list \<Rightarrow> char list \<Rightarrow> fs_id option \<Rightarrow> nat \<Rightarrow> fs_id option option" where
  "path_to_fs_loop [] pathname best_fs best_len = Some best_fs"
| "path_to_fs_loop (m # ms) pathname best_fs best_len =
     (if \<not> m_active m then path_to_fs_loop ms pathname best_fs best_len
      else do {
        mount_len \<leftarrow> k_strlen (m_path m);
        cmp \<leftarrow> k_strncmp pathname (m_path m) mount_len;
        if cmp = 0 then do {
          c \<leftarrow> rd pathname mount_len;
          if (c = NUL \<or> c = SL \<or> mount_len = 1) \<and> mount_len > best_len
          then path_to_fs_loop ms pathname (m_fs m) mount_len
          else path_to_fs_loop ms pathname best_fs best_len }
        else path_to_fs_loop ms pathname best_fs best_len })"

definition path_to_fs :: "vfs \<Rightarrow> char list option \<Rightarrow> fs_id option option" where
  "path_to_fs v pathname =
     (case pathname of
        None \<Rightarrow> Some None
      | Some p \<Rightarrow> do {
          c \<leftarrow> rd p 0;
          if c \<noteq> SL then Some None else path_to_fs_loop (v_mounts v) p None 0 })"

text \<open>The mounts \<open>kmain\<close> makes (kernel/core/kernel.c).\<close>

fun mount_all :: "(string \<times> fs_id) list \<Rightarrow> vfs \<Rightarrow> vfs option" where
  "mount_all [] v = Some v"
| "mount_all ((p, fs) # ms) v = do { (r, v') \<leftarrow> vfs_mount (Some (c_string p)) (Some fs) v; mount_all ms v' }"

definition kmain_mounts :: "(string \<times> fs_id) list" where
  "kmain_mounts = [(''/'', root_fs), (''/sys'', sys_fs), (''/proc'', proc_fs), (''/dev'', dev_fs), (''/bin'', bin_fs)]"

subsection \<open>The table as a list\<close>

definition mount_ok :: "mount_point \<Rightarrow> string \<times> fs_id \<Rightarrow> bool" where
  "mount_ok m = (\<lambda>(p, fs). m_active m \<and> m_fs m = Some fs \<and> terminated (m_path m) \<and> cstr (m_path m) = p)"

definition mount_rep :: "mount_point list \<Rightarrow> (string \<times> fs_id) list \<Rightarrow> bool" where
  "mount_rep ms ps \<longleftrightarrow> (\<exists>act inact. ms = act @ inact \<and> list_all2 mount_ok act ps
     \<and> (\<forall>m \<in> set inact. \<not> m_active m) \<and> length ms = MAX_MOUNTS \<and> (\<forall>m \<in> set ms. length (m_path m) = 64))"

lemma mount_loop_ok:
  assumes "list_all2 mount_ok act ps" "length (m_path m) = 64" "\<not> m_active m" "terminated nb" "length (cstr nb) < 64"
  shows "\<exists>m'. mount_loop (act @ m # inact) nb fs = Some (0, act @ m' # inact)
    \<and> mount_ok m' (cstr nb, fs) \<and> length (m_path m') = 64"
  using assms(1)
proof (induction act ps)
  case Nil
  obtain p where "k_strcpy (m_path m) nb = Some p" "cstr p = cstr nb" "terminated p" "length p = 64"
    using k_strcpy_string [OF assms(4), of "m_path m"] assms(2,5) by auto
  with assms(3) show ?case by (simp add: mount_ok_def)
next
  case (Cons a act p ps)
  then show ?case by (cases p) (auto simp: mount_ok_def)
qed

lemma vfs_mount_ok:
  assumes "mount_rep (v_mounts v) ps" "length ps < MAX_MOUNTS" "terminated p" "length (cstr p) + 2 < 64"
    "length (norm_path (cstr p)) < 64"
  shows "\<exists>v'. vfs_mount (Some p) (Some fs) v = Some (0, v')
    \<and> mount_rep (v_mounts v') (ps @ [(norm_path (cstr p), fs)])
    \<and> v_free_ring v' = v_free_ring v \<and> v_head v' = v_head v \<and> v_tail v' = v_tail v \<and> v_files v' = v_files v"
proof -
  obtain act inact where A: "v_mounts v = act @ inact" "list_all2 mount_ok act ps"
    "\<forall>m \<in> set inact. \<not> m_active m" "length (v_mounts v) = MAX_MOUNTS"
    "\<forall>m \<in> set (v_mounts v). length (m_path m) = 64"
    using assms(1) by (auto simp: mount_rep_def)
  have "length act = length ps" using A(2) by (rule list_all2_lengthD)
  then obtain m rest where I: "inact = m # rest" using A(1,4) assms(2) by (cases inact) auto
  have "(replicate 64 NUL) \<noteq> []" by simp
  from strncpy_term_string [OF assms(3) this] obtain b where b: "strncpy_term (replicate 64 NUL) p = Some b"
    "length b = 64" "terminated b" "cstr b = take 63 (cstr p)" by auto
  then have cb: "cstr b = cstr p" using assms(4) by simp
  obtain nb where nb: "vfs_normalize_path b 64 = Some nb" "cstr nb = norm_path (cstr p)" "terminated nb"
    using normalize_ok [OF b(3), of 64] b(2) cb assms(4) by auto
  obtain m' where m': "mount_loop (act @ m # rest) nb fs = Some (0, act @ m' # rest)"
    "mount_ok m' (cstr nb, fs)" "length (m_path m') = 64"
    using mount_loop_ok [OF A(2), of m nb rest fs] A(1,3,5) I nb assms(5) by auto
  let ?v = "v\<lparr>v_mounts := act @ m' # rest\<rparr>"
  have "vfs_mount (Some p) (Some fs) v = bind (strncpy_term (replicate 64 NUL) p) (\<lambda>b1. do {
      normalized \<leftarrow> vfs_normalize_path b1 64;
      (r, ms) \<leftarrow> mount_loop (v_mounts v) normalized fs;
      Some (r, v\<lparr>v_mounts := ms\<rparr>) })"
    by (simp add: vfs_mount_def strncpy_term_def MAX_FILENAME_LEN_def)
  then have run: "vfs_mount (Some p) (Some fs) v = Some (0, ?v)"
    unfolding b(1) using nb(1) m'(1) A(1) I by simp
  have "list_all2 mount_ok (act @ [m']) (ps @ [(norm_path (cstr p), fs)])"
    using A(2) m'(2) nb(2) by (simp add: list_all2_appendI)
  moreover have "\<forall>m \<in> set (act @ m' # rest). length (m_path m) = 64"
    using A(1,5) I m'(3) by auto
  ultimately have "mount_rep (v_mounts ?v) (ps @ [(norm_path (cstr p), fs)])"
    using A I unfolding mount_rep_def
    by (intro exI [of _ "act @ [m']"] exI [of _ rest]) simp
  with run show ?thesis by (intro exI [of _ ?v]) simp
qed

subsection \<open>The file system of a path\<close>

definition mount_matches :: "string \<Rightarrow> string \<Rightarrow> bool" where
  "mount_matches m p \<longleftrightarrow> (\<exists>r. p = m @ r \<and> (r = [] \<or> hd r = SL \<or> length m = 1))"

fun best_mount :: "(string \<times> fs_id) list \<Rightarrow> string \<Rightarrow> fs_id option \<Rightarrow> nat \<Rightarrow> fs_id option" where
  "best_mount [] p best n = best"
| "best_mount ((m, fs) # ps) p best n =
     (if mount_matches m p \<and> n < length m then best_mount ps p (Some fs) (length m)
      else best_mount ps p best n)"

lemma rd_cstr:
  "terminated p \<Longrightarrow> cstr p = m @ r \<Longrightarrow> rd p (length m) = Some (if r = [] then NUL else hd r)"
proof -
  assume t: "terminated p" and p: "cstr p = m @ r"
  obtain q where q: "p = cstr p @ NUL # q" using t by (elim terminatedE)
  then have "p = m @ r @ NUL # q" using p by simp
  then show ?thesis by (cases r) (simp_all add: rd_def)
qed

lemma path_to_fs_loop_skip:
  "\<forall>m \<in> set ms. \<not> m_active m \<Longrightarrow> path_to_fs_loop ms p best n = Some best"
  by (induction ms) auto

lemma path_to_fs_loop_ok:
  assumes "terminated p" "\<forall>m \<in> set inact. \<not> m_active m"
  shows "list_all2 mount_ok act ps \<Longrightarrow>
    path_to_fs_loop (act @ inact) p best n = Some (best_mount ps (cstr p) best n)"
proof (induction act ps arbitrary: best n rule: list_all2_induct)
  case Nil
  then show ?case using path_to_fs_loop_skip [OF assms(2)] by simp
next
  case (Cons m act q ps)
  obtain mp fs where q: "q = (mp, fs)" by (cases q)
  have m: "m_active m" "m_fs m = Some fs" "terminated (m_path m)" "cstr (m_path m) = mp"
    using Cons.hyps(1) q by (simp_all add: mount_ok_def)
  have slen: "k_strlen (m_path m) = Some (length mp)" using k_strlen_eq [OF m(3)] m(4) by simp
  obtain c where c: "k_strncmp p (m_path m) (length mp) = Some c"
    using k_strncmp_total [OF assms(1) m(3)] by blast
  have c0: "c = 0 \<longleftrightarrow> (\<exists>r. cstr p = mp @ r)"
    using k_strncmp_eq_0 [OF assms(1) m(3), of "length mp"] c m(4)
    by (auto simp: append_take_drop_id intro: exI [of _ "drop (length mp) (cstr p)"])
      (metis append_take_drop_id)
  show ?case
  proof (cases "\<exists>r. cstr p = mp @ r")
    case False
    then have "\<not> mount_matches mp (cstr p)" by (auto simp: mount_matches_def)
    with False c0 c slen m q Cons.IH show ?thesis by simp
  next
    case True
    then obtain r where r: "cstr p = mp @ r" by blast
    have rd: "rd p (length mp) = Some (if r = [] then NUL else hd r)" by (rule rd_cstr [OF assms(1) r])
    have "r \<noteq> [] \<Longrightarrow> hd r \<noteq> NUL"
      using r no_nul_cstr [of p] by (cases r) (auto simp: no_nul_def)
    then have mm: "mount_matches mp (cstr p) \<longleftrightarrow>
        (let ch = (if r = [] then NUL else hd r) in ch = NUL \<or> ch = SL \<or> length mp = 1)"
      using r by (auto simp: mount_matches_def)
    show ?thesis using True c0 c slen m q Cons.IH rd mm by (simp add: Let_def)
  qed
qed

lemma path_to_fs_ok:
  assumes "mount_rep (v_mounts v) ps" "terminated p" "cstr p \<noteq> []" "hd (cstr p) = SL"
  shows "path_to_fs v (Some p) = Some (best_mount ps (cstr p) None 0)"
proof -
  have "rd p 0 = Some SL" using rd_cstr [OF assms(2), of "[]" "cstr p"] assms(3,4) by simp
  then show ?thesis
    using assms(1) path_to_fs_loop_ok [OF assms(2)] by (auto simp: mount_rep_def path_to_fs_def)
qed

text \<open>Being at or below a directory.\<close>

definition below :: "string \<Rightarrow> string \<Rightarrow> bool" where
  "below d p \<longleftrightarrow> p = d \<or> (\<exists>r. p = d @ SL # r)"

lemma mount_matches_below: "length m \<noteq> 1 \<Longrightarrow> mount_matches m p \<longleftrightarrow> below m p"
  by (auto simp: mount_matches_def below_def) (metis list.collapse)

lemma best_mount_kmain:
  assumes "p \<noteq> []" "hd p = SL"
  shows "best_mount kmain_mounts p None 0 = Some
    (if below ''/bin'' p then bin_fs else if below ''/dev'' p then dev_fs
     else if below ''/proc'' p then proc_fs else if below ''/sys'' p then sys_fs else root_fs)"
proof -
  have root: "mount_matches ''/'' p" using assms by (cases p) (auto simp: mount_matches_def)
  have ex: "\<not> (below ''/sys'' p \<and> below ''/proc'' p)" "\<not> (below ''/sys'' p \<and> below ''/dev'' p)"
    "\<not> (below ''/sys'' p \<and> below ''/bin'' p)" "\<not> (below ''/proc'' p \<and> below ''/dev'' p)"
    "\<not> (below ''/proc'' p \<and> below ''/bin'' p)" "\<not> (below ''/dev'' p \<and> below ''/bin'' p)"
    by (auto simp: below_def)
  show ?thesis
    unfolding kmain_mounts_def best_mount.simps
    using root ex by (auto simp: mount_matches_below)
qed

lemma mount_all_kmain:
  assumes "length (v_mounts v) = MAX_MOUNTS" "\<forall>m \<in> set (v_mounts v). \<not> m_active m \<and> length (m_path m) = 64"
  shows "\<exists>v'. mount_all kmain_mounts v = Some v' \<and> mount_rep (v_mounts v') kmain_mounts
    \<and> v_free_ring v' = v_free_ring v \<and> v_head v' = v_head v \<and> v_tail v' = v_tail v \<and> v_files v' = v_files v"
proof -
  have step: "\<exists>v'. mount_all ms v = Some v' \<and> mount_rep (v_mounts v') (ps @ ms)
    \<and> v_free_ring v' = v_free_ring v \<and> v_head v' = v_head v \<and> v_tail v' = v_tail v \<and> v_files v' = v_files v"
    if "mount_rep (v_mounts v) ps" "length ps + length ms \<le> MAX_MOUNTS"
      "\<forall>(p, fs) \<in> set ms. no_nul p \<and> length p < 60 \<and> norm_path p = p" for ms ps v
    using that
  proof (induction ms arbitrary: ps v)
    case (Cons q ms)
    obtain p fs where q: "q = (p, fs)" by (cases q)
    with Cons.prems have p: "cstr (c_string p) = p" "length p < 60" "norm_path p = p" by auto
    from vfs_mount_ok [OF Cons.prems(1), of "c_string p" fs] p Cons.prems(2) obtain v1 where
      v1: "vfs_mount (Some (c_string p)) (Some fs) v = Some (0, v1)"
      "mount_rep (v_mounts v1) (ps @ [(p, fs)])" "v_free_ring v1 = v_free_ring v" "v_head v1 = v_head v"
      "v_tail v1 = v_tail v" "v_files v1 = v_files v" by auto
    from Cons.IH [OF v1(2)] Cons.prems(2,3) v1 q show ?case by auto
  qed simp
  have rep: "mount_rep (v_mounts v) []" using assms by (auto simp: mount_rep_def)
  have "norm_path ''/'' = ''/''" "norm_path ''/sys'' = ''/sys''" "norm_path ''/proc'' = ''/proc''"
    "norm_path ''/dev'' = ''/dev''" "norm_path ''/bin'' = ''/bin''"
    by (simp_all add: norm_path_def comps_single [of "''sys''"] comps_single [of "''proc''"]
        comps_single [of "''dev''"] comps_single [of "''bin''"])
  then show ?thesis
    using step [OF rep, of kmain_mounts] by (simp add: kmain_mounts_def MAX_MOUNTS_def)
qed

subsection \<open>Properties\<close>

text \<open>
  C35: after the mounts \<open>kmain\<close> makes, every absolute path goes to the file system that owns it:
  paths at or below /bin, /dev, /proc and /sys to theirs, by whole components (so /procfoo is not
  below /proc), and every other path to the root file system.
\<close>

theorem kernel_mounts_route:
  assumes "length (v_mounts v) = MAX_MOUNTS" "\<forall>m \<in> set (v_mounts v). \<not> m_active m \<and> length (m_path m) = 64"
    "terminated p" "cstr p \<noteq> []" "hd (cstr p) = SL"
  shows "\<exists>v'. mount_all kmain_mounts v = Some v' \<and> path_to_fs v' (Some p) = Some (Some
    (if below ''/bin'' (cstr p) then bin_fs else if below ''/dev'' (cstr p) then dev_fs
     else if below ''/proc'' (cstr p) then proc_fs else if below ''/sys'' (cstr p) then sys_fs else root_fs))"
  using mount_all_kmain [OF assms(1,2)] path_to_fs_ok [OF _ assms(3-5)] best_mount_kmain [OF assms(4,5)]
  by metis

definition blank_vfs :: vfs where
  "blank_vfs = \<lparr> v_free_ring = replicate 1024 0, v_head = 0, v_tail = 0, v_files = (\<lambda>_. zero_file),
     v_mounts = replicate 16 \<lparr> m_path = replicate 64 NUL, m_fs = None, m_active = False \<rparr> \<rparr>"

theorem kernel_mounts_route_witness:
  "\<exists>v'. mount_all kmain_mounts blank_vfs = Some v'
    \<and> path_to_fs v' (Some (c_string ''/procfoo'')) = Some (Some root_fs)"
proof -
  have p: "cstr (c_string ''/procfoo'') = ''/procfoo''" by (simp add: c_string_def)
  show ?thesis
    using kernel_mounts_route [of blank_vfs "c_string ''/procfoo''"]
    unfolding p by (simp add: blank_vfs_def MAX_MOUNTS_def below_def)
qed

end
