(* ===== verification/Console.thy ===== *)
theory Console
  imports Prelude
begin

section \<open>kernel/core/console.c, arch/x86/console_vga.c: the text console\<close>

text \<open>
  The console record with the VGA driver's private data in it: the 80x25 text buffer (a list of
  16-bit cells, checked accesses), the cursor, the colours, the state machine for escape sequences
  with its eight parameters, and the position last written to the cursor ports
  (\<open>vga_update_cursor\<close>). Rows, columns and the parameter count are never negative and are natural
  numbers; the parameters are C \<open>int\<close>s with checked arithmetic. \<open>con_ok\<close> is the driver's
  invariant. The dispatch of console.c through \<open>con->ops\<close> is a direct call, VGA being the only
  driver that is registered.
\<close>

datatype console_esc_state =
    CON_ESC_NONE | CON_ESC_ESC | CON_ESC_CSI | CON_ESC_CSI_0 | CON_ESC_CSI_2 | CON_ESC_CSI_3
  | CON_ESC_CSI_OTHER

record console =
  con_cols :: nat
  con_rows :: nat
  con_row :: nat
  con_col :: nat
  con_attr :: u8
  con_esc :: console_esc_state
  con_video :: "u16 list"
  con_fg :: u8
  con_bg :: u8
  con_bright :: u8
  con_params :: "int list"
  con_param_count :: nat
  con_hw_cursor :: u16

text \<open>\<open>(uint16_t)c\<close> sign-extends, \<open>char\<close> being signed on x86.\<close>

definition vga_entry :: "char \<Rightarrow> u8 \<Rightarrow> u16" where
  "vga_entry c attr =
     (if code c < 128 then of_nat (code c) else of_nat (code c) + 0xFF00) OR push_bit 8 (ucast attr)"

definition ansi_to_vga_color :: "u8 \<Rightarrow> u8 \<Rightarrow> u8" where
  "ansi_to_vga_color ansi bright =
     (if ansi = 0 then (if bright \<noteq> 0 then 8 else 0)
      else if ansi = 1 then (if bright \<noteq> 0 then 12 else 4)
      else if ansi = 2 then (if bright \<noteq> 0 then 10 else 2)
      else if ansi = 3 then (if bright \<noteq> 0 then 14 else 6)
      else if ansi = 4 then (if bright \<noteq> 0 then 9 else 1)
      else if ansi = 5 then (if bright \<noteq> 0 then 13 else 5)
      else if ansi = 6 then (if bright \<noteq> 0 then 11 else 3)
      else if ansi = 7 then (if bright \<noteq> 0 then 15 else 7)
      else 7)"

definition vga_update_attr :: "console \<Rightarrow> console" where
  "vga_update_attr con =
     (let fg = ansi_to_vga_color (con_fg con) (con_bright con);
          bg = ansi_to_vga_color (con_bg con) 0
      in con\<lparr>con_attr := push_bit 4 bg OR fg\<rparr>)"

definition vga_update_cursor :: "console \<Rightarrow> console" where
  "vga_update_cursor con =
     con\<lparr>con_hw_cursor := of_nat (con_row con * con_cols con + con_col con)\<rparr>"

text \<open>The two nested copying loops of \<open>vga_scroll\<close>, and the loop that fills cells.\<close>

primrec scroll_cols :: "nat \<Rightarrow> nat \<Rightarrow> nat \<Rightarrow> u16 list \<Rightarrow> u16 list option" where
  "scroll_cols cols row 0 video = Some video"
| "scroll_cols cols row (Suc k) video =
     (let col = cols - Suc k
      in do {
        x \<leftarrow> rd video ((row + 1) * cols + col);
        v \<leftarrow> wr video (row * cols + col) x;
        scroll_cols cols row k v })"

primrec scroll_rows :: "nat \<Rightarrow> nat \<Rightarrow> nat \<Rightarrow> u16 list \<Rightarrow> u16 list option" where
  "scroll_rows cols rows 0 video = Some video"
| "scroll_rows cols rows (Suc k) video =
     do { v \<leftarrow> scroll_cols cols (rows - 1 - Suc k) cols video; scroll_rows cols rows k v }"

primrec fill_cells :: "u16 \<Rightarrow> nat \<Rightarrow> nat \<Rightarrow> u16 list \<Rightarrow> u16 list option" where
  "fill_cells x i 0 video = Some video"
| "fill_cells x i (Suc k) video = do { v \<leftarrow> wr video i x; fill_cells x (Suc i) k v }"

definition vga_scroll :: "console \<Rightarrow> console option" where
  "vga_scroll con = do {
     v1 \<leftarrow> scroll_rows (con_cols con) (con_rows con) (con_rows con - 1) (con_video con);
     v2 \<leftarrow> fill_cells (vga_entry (CHR '' '') (con_attr con)) ((con_rows con - 1) * con_cols con) (con_cols con) v1;
     Some (con\<lparr>con_video := v2, con_row := con_rows con - 1, con_col := 0\<rparr>) }"

definition vga_clear :: "console \<Rightarrow> console option" where
  "vga_clear con = do {
     v \<leftarrow> fill_cells (vga_entry (CHR '' '') (con_attr con)) 0 (con_cols con * con_rows con) (con_video con);
     Some (vga_update_cursor (con\<lparr>con_video := v, con_row := 0, con_col := 0, con_esc := CON_ESC_NONE\<rparr>)) }"

fun sgr_loop :: "int list \<Rightarrow> console \<Rightarrow> console" where
  "sgr_loop [] con = con"
| "sgr_loop (param # ps) con =
     sgr_loop ps
       (if param = 0 then con\<lparr>con_fg := 7, con_bg := 0, con_bright := 0\<rparr>
        else if param = 1 then con\<lparr>con_bright := 1\<rparr>
        else if param \<ge> 30 \<and> param \<le> 37 then con\<lparr>con_fg := word_of_int (param - 30)\<rparr>
        else if param \<ge> 40 \<and> param \<le> 47 then con\<lparr>con_bg := word_of_int (param - 40)\<rparr>
        else con)"

definition vga_handle_sgr :: "console \<Rightarrow> console option" where
  "vga_handle_sgr con =
     (if con_param_count con = 0
      then Some (vga_update_attr (con\<lparr>con_fg := 7, con_bg := 0, con_bright := 0\<rparr>))
      else if con_param_count con > length (con_params con) then None
      else Some (vga_update_attr (sgr_loop (take (con_param_count con) (con_params con)) con)))"

text \<open>The three stages of \<open>vga_put_char\<close>: a byte of an escape sequence, a byte to show, scrolling.\<close>

definition esc_char :: "console \<Rightarrow> char \<Rightarrow> console option" where
  "esc_char con c =
     (if is_digit c then
        (let con1 = (if con_param_count con = 0 then con\<lparr>con_param_count := 1\<rparr> else con);
             idx = con_param_count con1 - 1
         in if idx < 8 then do {
              p \<leftarrow> rd (con_params con1) idx;
              p10 \<leftarrow> chk_int (p * 10);
              p' \<leftarrow> chk_int (p10 + (int (code c) - 48));
              ps \<leftarrow> wr (con_params con1) idx p';
              Some (con1\<lparr>con_params := ps\<rparr>) }
            else Some con1)
      else if c = CHR '';'' then
        Some (if con_param_count con < 8 then con\<lparr>con_param_count := con_param_count con + 1\<rparr> else con)
      else if c = CHR ''m'' then
        map_option (\<lambda>con1. con1\<lparr>con_esc := CON_ESC_NONE\<rparr>) (vga_handle_sgr con)
      else if c = CHR ''H'' then
        Some (vga_update_cursor (con\<lparr>con_row := 0, con_col := 0, con_esc := CON_ESC_NONE\<rparr>))
      else if c = CHR ''J'' then vga_clear (con\<lparr>con_esc := CON_ESC_NONE\<rparr>)
      else Some (if 0x40 \<le> code c \<and> code c \<le> 0x7E then con\<lparr>con_esc := CON_ESC_NONE\<rparr> else con))"

definition cell :: "console \<Rightarrow> nat" where
  "cell con = con_row con * con_cols con + con_col con"

definition put_cell :: "console \<Rightarrow> char \<Rightarrow> console option" where
  "put_cell con c = do {
     v \<leftarrow> wr (con_video con) (cell con) (vga_entry c (con_attr con));
     Some (con\<lparr>con_video := v\<rparr>) }"

primrec tab_loop :: "nat \<Rightarrow> console \<Rightarrow> console option" where
  "tab_loop 0 con = Some con"
| "tab_loop (Suc k) con = do {
     con1 \<leftarrow> put_cell con (CHR '' '');
     tab_loop k (con1\<lparr>con_col := con_col con1 + 1\<rparr>) }"

text \<open>\<open>None\<close> inside: the backspace at the origin, after which nothing is scrolled.\<close>

definition show_char :: "console \<Rightarrow> char \<Rightarrow> console option" where
  "show_char con c =
     (if c = CHR 0x0A then Some (con\<lparr>con_col := 0, con_row := con_row con + 1\<rparr>)
      else if c = CHR 0x0D then Some (con\<lparr>con_col := 0\<rparr>)
      else if c = CHR 0x08 then
        (if con_col con > 0 then put_cell (con\<lparr>con_col := con_col con - 1\<rparr>) (CHR '' '')
         else if con_row con > 0
         then put_cell (con\<lparr>con_row := con_row con - 1, con_col := con_cols con - 1\<rparr>) (CHR '' '')
         else Some con)
      else if c = CHR 0x09 then
        (let nxt0 = nat ((int (con_col con) + 8) AND NOT (8 - 1));
             nxt = (if nxt0 \<ge> con_cols con then con_cols con - 1 else nxt0)
         in tab_loop (nxt - con_col con) con)
      else do {
        con1 \<leftarrow> put_cell con c;
        let con2 = con1\<lparr>con_col := con_col con1 + 1\<rparr>;
        Some (if con_col con2 \<ge> con_cols con2 then con2\<lparr>con_col := 0, con_row := con_row con2 + 1\<rparr>
              else con2) })"

definition vga_put_char :: "console \<Rightarrow> char \<Rightarrow> console option" where
  "vga_put_char con c =
     (case con_esc con of
        CON_ESC_NONE \<Rightarrow>
          if c = CHR 0x1B then Some (con\<lparr>con_esc := CON_ESC_ESC\<rparr>)
          else do {
            con1 \<leftarrow> show_char con c;
            con2 \<leftarrow> (if con_row con1 \<ge> con_rows con1 then vga_scroll con1 else Some con1);
            Some (vga_update_cursor con2) }
      | CON_ESC_ESC \<Rightarrow>
          Some (if c = CHR ''[''
                then con\<lparr>con_esc := CON_ESC_CSI, con_param_count := 0, con_params := replicate 8 0\<rparr>
                else con\<lparr>con_esc := CON_ESC_NONE\<rparr>)
      | CON_ESC_CSI \<Rightarrow> esc_char con c
      | _ \<Rightarrow> Some (con\<lparr>con_esc := CON_ESC_NONE\<rparr>))"

definition vga_init :: "console \<Rightarrow> console option" where
  "vga_init con =
     (let con1 = vga_update_attr (con\<lparr>con_fg := 7, con_bg := 0, con_bright := 0, con_param_count := 0,
                   con_cols := 80, con_rows := 25\<rparr>)
      in vga_clear (con1\<lparr>con_row := 0, con_col := 0, con_esc := CON_ESC_NONE\<rparr>))"

definition console_clear :: "console \<Rightarrow> console option" where
  "console_clear con = vga_clear con"

definition console_put_char :: "console \<Rightarrow> char \<Rightarrow> console option" where
  "console_put_char con c = vga_put_char con c"

primrec console_put_chars :: "char list \<Rightarrow> console \<Rightarrow> console option" where
  "console_put_chars [] con = Some con"
| "console_put_chars (c # cs) con = do { con1 \<leftarrow> console_put_char con c; console_put_chars cs con1 }"

subsection \<open>The invariant\<close>

definition con_ok :: "console \<Rightarrow> bool" where
  "con_ok con \<longleftrightarrow>
     con_cols con = 80 \<and> con_rows con = 25 \<and> con_row con < 25 \<and> con_col con < 80 \<and>
     length (con_video con) = 2000 \<and> length (con_params con) = 8 \<and> con_param_count con \<le> 8 \<and>
     unat (con_hw_cursor con) = con_row con * 80 + con_col con"

lemma scroll_cols_ok:
  "k \<le> cols \<Longrightarrow> (row + 2) * cols \<le> length video \<Longrightarrow>
   scroll_cols cols row k video =
     Some (patch video (row * cols + (cols - k)) (take k (drop ((row + 1) * cols + (cols - k)) video)))"
proof (induction k arbitrary: video)
  case (Suc k)
  let ?col = "cols - Suc k" and ?d = "row * cols" and ?s = "(row + 1) * cols"
  have b: "?d + ?col < length video" "?s + ?col < length video" using Suc.prems by (simp_all add: algebra_simps)
  have ne: "?d + ?col < ?s + ?col" using Suc.prems(1) by simp
  let ?v = "video[?d + ?col := video ! (?s + ?col)]"
  have sk: "Suc ?col = cols - k" using Suc.prems(1) by simp
  have "scroll_cols cols row (Suc k) video = scroll_cols cols row k ?v"
    using b by (simp add: rd_in wr_in Let_def)
  also have "\<dots> = Some (patch ?v (?d + Suc ?col) (take k (drop (?s + Suc ?col) ?v)))"
    using Suc.IH [of ?v] Suc.prems sk by simp
  also have "drop (?s + Suc ?col) ?v = drop (?s + Suc ?col) video" using ne by simp
  also have "patch ?v (?d + Suc ?col) (take k (drop (?s + Suc ?col) video))
      = patch video (?d + ?col) (video ! (?s + ?col) # take k (drop (?s + Suc ?col) video))"
    using b(1) by (simp add: patch_Cons)
  also have "video ! (?s + ?col) # take k (drop (?s + Suc ?col) video) = take (Suc k) (drop (?s + ?col) video)"
    using b(2) by (simp add: Cons_nth_drop_Suc [symmetric])
  finally show ?case by simp
qed simp

lemma fill_cells_ok: "i + k \<le> length video \<Longrightarrow> fill_cells x i k video = Some (patch video i (replicate k x))"
  by (induction k arbitrary: i video) (simp_all add: wr_in patch_Cons)

lemma scroll_rows_ok:
  "k < rows \<Longrightarrow> length video = rows * cols \<Longrightarrow>
   scroll_rows cols rows k video =
     Some (take ((rows - 1 - k) * cols) video @ drop ((rows - k) * cols) video @ drop ((rows - 1) * cols) video)"
proof (induction k arbitrary: video)
  case 0
  then show ?case by simp
next
  case (Suc k)
  define r where "r = rows - 1 - Suc k"
  have r: "rows - 1 - k = Suc r" "rows - k = Suc (Suc r)" "rows - Suc k = Suc r" "Suc (Suc r) \<le> rows"
    using Suc.prems(1) by (simp_all add: r_def)
  have le: "Suc (Suc r) * cols \<le> length video" using r(4) Suc.prems(2) by (metis mult_le_mono1)
  let ?v = "take (r * cols) video @ take cols (drop (Suc r * cols) video) @ drop (Suc r * cols) video"
  have "scroll_cols cols r cols video = Some (patch video (r * cols) (take cols (drop (Suc r * cols) video)))"
    using scroll_cols_ok [of cols cols r video] le by simp
  moreover have "patch video (r * cols) (take cols (drop (Suc r * cols) video)) = ?v"
    using le by (simp add: patch_def add.commute)
  ultimately have step: "scroll_rows cols rows (Suc k) video = scroll_rows cols rows k ?v"
    by (simp add: r_def)
  have len: "length ?v = rows * cols" using le Suc.prems(2) by simp
  have l1: "length (take (r * cols) video) = r * cols" "length (take cols (drop (Suc r * cols) video)) = cols"
    using le by simp_all
  have t: "take (Suc r * cols) ?v = take (r * cols) video @ take cols (drop (Suc r * cols) video)"
    using l1 by simp
  have d: "drop n ?v = drop n video" if "Suc r * cols \<le> n" for n
    using l1 that by simp
  have "scroll_rows cols rows k ?v = Some (take (Suc r * cols) ?v @ drop (Suc (Suc r) * cols) ?v @ drop ((rows - 1) * cols) ?v)"
    using Suc.IH [OF _ len] Suc.prems(1) unfolding r(1,2) by (metis Suc_lessD)
  also have "\<dots> = Some (take (r * cols) video @ (take cols (drop (Suc r * cols) video) @ drop (Suc (Suc r) * cols) video) @ drop ((rows - 1) * cols) video)"
  proof -
    have "Suc r * cols \<le> Suc (Suc r) * cols" "Suc r * cols \<le> (rows - 1) * cols"
      using r(4) by (intro mult_le_mono1; simp)+
    then show ?thesis unfolding t d [OF \<open>Suc r * cols \<le> Suc (Suc r) * cols\<close>]
        d [OF \<open>Suc r * cols \<le> (rows - 1) * cols\<close>] by (simp only: append_assoc)
  qed
  also have "take cols (drop (Suc r * cols) video) @ drop (Suc (Suc r) * cols) video = drop (Suc r * cols) video"
    by (metis append_take_drop_id drop_drop mult_Suc)
  finally show ?case unfolding step r(3) r_def [symmetric] .
qed

lemma vga_scroll_ok:
  assumes "con_cols con = 80" "con_rows con = 25" "length (con_video con) = 2000"
  shows "vga_scroll con = Some (con\<lparr>con_video := drop 80 (con_video con) @ replicate 80 (vga_entry (CHR '' '') (con_attr con)),
    con_row := 24, con_col := 0\<rparr>)"
proof -
  have s: "scroll_rows 80 25 24 (con_video con) = Some (drop 80 (con_video con) @ drop 1920 (con_video con))"
    using scroll_rows_ok [of 24 25 "con_video con" 80] assms by simp
  have "fill_cells x 1920 80 (drop 80 (con_video con) @ drop 1920 (con_video con))
    = Some (drop 80 (con_video con) @ replicate 80 x)" for x
    using assms by (subst fill_cells_ok) (simp_all add: patch_def)
  with s assms show ?thesis by (simp add: vga_scroll_def)
qed

lemma vga_clear_ok:
  assumes "con_cols con = 80" "con_rows con = 25" "length (con_video con) = 2000"
  shows "vga_clear con = Some (con\<lparr>con_video := replicate 2000 (vga_entry (CHR '' '') (con_attr con)),
    con_row := 0, con_col := 0, con_esc := CON_ESC_NONE, con_hw_cursor := 0\<rparr>)"
  using assms by (simp add: vga_clear_def fill_cells_ok patch_def vga_update_cursor_def)

lemma sgr_loop_frame:
  "con_cols (sgr_loop ps con) = con_cols con \<and> con_rows (sgr_loop ps con) = con_rows con
   \<and> con_row (sgr_loop ps con) = con_row con \<and> con_col (sgr_loop ps con) = con_col con
   \<and> con_video (sgr_loop ps con) = con_video con \<and> con_params (sgr_loop ps con) = con_params con
   \<and> con_param_count (sgr_loop ps con) = con_param_count con \<and> con_hw_cursor (sgr_loop ps con) = con_hw_cursor con
   \<and> con_esc (sgr_loop ps con) = con_esc con"
  by (induction ps con rule: sgr_loop.induct) simp_all

lemma con_ok_cursor:
  assumes "con_cols con = 80" "con_rows con = 25" "con_row con < 25" "con_col con < 80"
    "length (con_video con) = 2000" "length (con_params con) = 8" "con_param_count con \<le> 8"
  shows "con_ok (vga_update_cursor con)"
proof -
  have "unat (of_nat n :: u16) = n" if "n < 2000" for n using that by (simp add: unat_of_nat)
  moreover have "con_row con * 80 + con_col con < 2000" using assms by simp
  ultimately have "unat (of_nat (con_row con * 80 + con_col con) :: u16) = con_row con * 80 + con_col con"
    by blast
  with assms show ?thesis by (simp add: con_ok_def vga_update_cursor_def)
qed

lemma put_cell_ok:
  "con_cols con = 80 \<Longrightarrow> con_row con < 25 \<Longrightarrow> con_col con < 80 \<Longrightarrow> length (con_video con) = 2000 \<Longrightarrow>
   put_cell con c = Some (con\<lparr>con_video := (con_video con)[con_row con * 80 + con_col con := vga_entry c (con_attr con)]\<rparr>)"
  by (simp add: put_cell_def cell_def wr_in)

text \<open>What \<open>show_char\<close> leaves: the cursor inside the columns and at most one row too far down.\<close>

definition shown :: "console \<Rightarrow> console \<Rightarrow> bool" where
  "shown con con' \<longleftrightarrow>
     con_cols con' = 80 \<and> con_rows con' = 25 \<and> con_row con' \<le> 25 \<and> con_col con' < 80 \<and>
     length (con_video con') = 2000 \<and> con_params con' = con_params con \<and>
     con_param_count con' = con_param_count con \<and> con_attr con' = con_attr con"

lemma tab_loop_ok:
  "con_cols con = 80 \<Longrightarrow> con_rows con = 25 \<Longrightarrow> con_row con < 25 \<Longrightarrow> con_col con + k < 80 \<Longrightarrow>
   length (con_video con) = 2000 \<Longrightarrow> \<exists>con'. tab_loop k con = Some con' \<and> shown con con'"
proof (induction k arbitrary: con)
  case (Suc k)
  let ?c = "con\<lparr>con_video := (con_video con)[con_row con * 80 + con_col con := vga_entry (CHR '' '') (con_attr con)],
    con_col := con_col con + 1\<rparr>"
  have "tab_loop (Suc k) con = tab_loop k ?c" using Suc.prems by (simp add: put_cell_ok)
  moreover obtain con' where "tab_loop k ?c = Some con'" "shown ?c con'"
    using Suc.IH [of ?c] Suc.prems by auto
  ultimately show ?case by (auto simp: shown_def)
qed (simp add: shown_def)

lemma show_char_ok:
  assumes "con_cols con = 80" "con_rows con = 25" "con_row con < 25" "con_col con < 80"
    "length (con_video con) = 2000"
  shows "\<exists>con'. show_char con c = Some con' \<and> shown con con'"
proof -
  have tab: "\<exists>con'. tab_loop (n - con_col con) con = Some con' \<and> shown con con'" if "n < 80" for n
    using tab_loop_ok [of con "n - con_col con"] assms that by (cases "n \<le> con_col con") simp_all
  define n0 where "n0 = nat ((int (con_col con) + 8) AND NOT (8 - 1))"
  have n: "(if n0 \<ge> con_cols con then con_cols con - 1 else n0) < 80" using assms(1) by simp
  consider "c = CHR 0x0A" | "c = CHR 0x0D" | "c = CHR 0x08" | "c = CHR 0x09"
    | "c \<noteq> CHR 0x0A" "c \<noteq> CHR 0x0D" "c \<noteq> CHR 0x08" "c \<noteq> CHR 0x09" by blast
  then show ?thesis
  proof cases
    case 4
    then have "show_char con c = tab_loop ((if n0 \<ge> con_cols con then con_cols con - 1 else n0) - con_col con) con"
      by (simp add: show_char_def n0_def Let_def)
    with tab [OF n] show ?thesis by simp
  qed (use assms in \<open>auto simp: show_char_def put_cell_ok shown_def Let_def\<close>)
qed

text \<open>An escape sequence parameter that no longer fits an \<open>int\<close>.\<close>

definition param_overflow :: "console \<Rightarrow> char \<Rightarrow> bool" where
  "param_overflow con c \<longleftrightarrow> con_esc con = CON_ESC_CSI \<and> is_digit c \<and>
     (let p = con_params con ! (max 1 (con_param_count con) - 1)
      in chk_int (p * 10) = None \<or> chk_int (p * 10 + (int (code c) - 48)) = None)"

lemma esc_char_ok:
  assumes "con_ok con" "con_esc con = CON_ESC_CSI" "\<not> param_overflow con c"
  shows "\<exists>con'. esc_char con c = Some con' \<and> con_ok con'"
proof (cases "is_digit c")
  case True
  define idx where "idx = max 1 (con_param_count con) - 1"
  let ?con = "if con_param_count con = 0 then con\<lparr>con_param_count := 1\<rparr> else con"
  have idx: "idx < 8" "con_param_count ?con - 1 = idx" "con_params ?con = con_params con"
    using assms(1) by (auto simp: idx_def con_ok_def)
  let ?p = "con_params con ! idx"
  have chk: "chk_int (?p * 10) = Some (?p * 10)"
    "chk_int (?p * 10 + (int (code c) - 48)) = Some (?p * 10 + (int (code c) - 48))"
    using assms(2,3) True by (auto simp: param_overflow_def Let_def idx_def chk_int_def split: if_splits)
  have "esc_char con c = Some (?con\<lparr>con_params := (con_params con)[idx := ?p * 10 + (int (code c) - 48)]\<rparr>)"
    using True idx chk assms(1) by (simp add: esc_char_def Let_def rd_in wr_in con_ok_def)
  moreover have "con_ok (?con\<lparr>con_params := (con_params con)[idx := ?p * 10 + (int (code c) - 48)]\<rparr>)"
    using assms(1) by (simp add: con_ok_def)
  ultimately show ?thesis by blast
next
  case False
  have sgr: "\<exists>con'. vga_handle_sgr con = Some con' \<and> con_ok con'"
    using assms(1) sgr_loop_frame [of "take (con_param_count con) (con_params con)" con]
    by (auto simp: vga_handle_sgr_def con_ok_def vga_update_attr_def Let_def)
  have home: "con_ok (vga_update_cursor (con\<lparr>con_row := 0, con_col := 0, con_esc := CON_ESC_NONE\<rparr>))"
    using assms(1) by (intro con_ok_cursor) (simp_all add: con_ok_def)
  show ?thesis
  proof -
    have clear: "\<exists>con'. vga_clear (con\<lparr>con_esc := CON_ESC_NONE\<rparr>) = Some con' \<and> con_ok con'"
      using assms(1) by (simp add: con_ok_def vga_clear_ok)
    have sgr': "\<exists>con'. map_option (\<lambda>con1. con1\<lparr>con_esc := CON_ESC_NONE\<rparr>) (vga_handle_sgr con) = Some con' \<and> con_ok con'"
      using sgr by (auto simp: con_ok_def)
    have rest: "con_ok (con\<lparr>con_esc := CON_ESC_NONE\<rparr>)" "con_ok (con\<lparr>con_param_count := con_param_count con + 1\<rparr>)"
      if "con_param_count con < 8" using assms(1) that by (simp_all add: con_ok_def)
    have rest': "con_ok (con\<lparr>con_esc := CON_ESC_NONE\<rparr>)" using assms(1) by (simp add: con_ok_def)
    show ?thesis
      unfolding esc_char_def using False clear sgr' home rest rest' assms(1) by (simp split: if_split)
  qed
qed

lemma vga_put_char_ok:
  assumes "con_ok con" "\<not> param_overflow con c"
  shows "\<exists>con'. vga_put_char con c = Some con' \<and> con_ok con'"
proof (cases "con_esc con")
  case CON_ESC_NONE
  obtain con1 where c1: "show_char con c = Some con1" "shown con con1"
    using show_char_ok [of con c] assms(1) by (auto simp: con_ok_def)
  define con2 where "con2 = (if con_row con1 \<ge> 25
    then con1\<lparr>con_video := drop 80 (con_video con1) @ replicate 80 (vga_entry (CHR '' '') (con_attr con1)),
      con_row := 24, con_col := 0\<rparr> else con1)"
  have "(if con_row con1 \<ge> con_rows con1 then vga_scroll con1 else Some con1) = Some con2"
    using c1(2) by (simp add: shown_def con2_def vga_scroll_ok)
  moreover have "con_ok (vga_update_cursor con2)"
    using c1(2) assms(1) by (intro con_ok_cursor) (auto simp: shown_def con2_def con_ok_def)
  moreover have "con_ok (con\<lparr>con_esc := CON_ESC_ESC\<rparr>)" using assms(1) by (simp add: con_ok_def)
  ultimately show ?thesis
    using CON_ESC_NONE c1(1) by (simp add: vga_put_char_def)
next
  case CON_ESC_CSI
  then show ?thesis using esc_char_ok [OF assms(1) CON_ESC_CSI assms(2)] by (simp add: vga_put_char_def)
qed (use assms(1) in \<open>auto simp: vga_put_char_def con_ok_def\<close>)

lemma vga_init_ok:
  assumes "length (con_video con) = 2000" "length (con_params con) = 8"
  shows "\<exists>con'. vga_init con = Some con' \<and> con_ok con' \<and> con_esc con' = CON_ESC_NONE"
  using assms by (simp add: vga_init_def Let_def vga_update_attr_def vga_clear_ok con_ok_def)

lemma param_overflow_None:
  assumes "con_ok con" "param_overflow con c"
  shows "vga_put_char con c = None"
proof -
  define idx where "idx = max 1 (con_param_count con) - 1"
  let ?con = "if con_param_count con = 0 then con\<lparr>con_param_count := 1\<rparr> else con"
  have idx: "idx < 8" "con_param_count ?con - 1 = idx" "con_params ?con = con_params con"
    using assms(1) by (auto simp: idx_def con_ok_def)
  have o: "con_esc con = CON_ESC_CSI" "is_digit c"
    "chk_int (con_params con ! idx * 10) = None \<or> chk_int (con_params con ! idx * 10 + (int (code c) - 48)) = None"
    using assms(2) by (simp_all add: param_overflow_def Let_def idx_def)
  have chk: "chk_int y = Some x \<Longrightarrow> x = y" for x y by (simp add: chk_int_def split: if_splits)
  have "esc_char con c = None"
  proof (cases "chk_int (con_params con ! idx * 10)")
    case None
    then show ?thesis using o(2) idx assms(1) by (simp add: esc_char_def Let_def rd_in con_ok_def)
  next
    case (Some x)
    then have "chk_int (x + (int (code c) - 48)) = None" using o(3) chk by auto
    then show ?thesis using Some o(2) idx assms(1) by (simp add: esc_char_def Let_def rd_in con_ok_def)
  qed
  then show ?thesis using o(1) by (simp add: vga_put_char_def)
qed

subsection \<open>Properties\<close>

text \<open>
  The console driver never writes outside the text buffer. From a valid state every byte leads
  to a valid state (cursor on the 80x25 screen, at most eight escape parameters, the hardware
  cursor where the driver thinks it is), except a digit that takes an escape parameter beyond the
  range of \<open>int\<close>: that is a signed overflow, which the code does not prevent.
\<close>

theorem vga_put_char_safe:
  assumes "con_ok con"
  shows "(vga_put_char con c = None \<longleftrightarrow> param_overflow con c)
    \<and> (\<forall>con'. vga_put_char con c = Some con' \<longrightarrow> con_ok con')"
proof (cases "param_overflow con c")
  case True
  then show ?thesis using param_overflow_None [OF assms True] by simp
next
  case False
  then show ?thesis using vga_put_char_ok [OF assms False] by auto
qed

definition blank_console :: console where
  "blank_console = \<lparr> con_cols = 80, con_rows = 25, con_row = 0, con_col = 0, con_attr = 7, con_esc = CON_ESC_NONE,
     con_video = replicate 2000 0, con_fg = 7, con_bg = 0, con_bright = 0, con_params = replicate 8 0,
     con_param_count = 0, con_hw_cursor = 0 \<rparr>"

theorem vga_put_char_safe_witness:
  "(\<exists>con'. vga_put_char blank_console (CHR ''A'') = Some con' \<and> con_ok con')
   \<and> vga_put_char (blank_console\<lparr>con_esc := CON_ESC_CSI, con_params := replicate 8 214748365\<rparr>) (CHR ''9'') = None"
proof
  have "con_ok blank_console" by (simp add: blank_console_def con_ok_def)
  moreover have "\<not> param_overflow blank_console (CHR ''A'')" by (simp add: param_overflow_def blank_console_def)
  ultimately show "\<exists>con'. vga_put_char blank_console (CHR ''A'') = Some con' \<and> con_ok con'"
    using vga_put_char_safe [of blank_console "CHR ''A''"] by auto
  let ?con = "blank_console\<lparr>con_esc := CON_ESC_CSI, con_params := replicate 8 214748365\<rparr>"
  have "con_ok ?con" by (simp add: blank_console_def con_ok_def)
  moreover have "param_overflow ?con (CHR ''9'')"
    by (simp add: param_overflow_def blank_console_def is_digit_def chk_int_def INT_MIN_def INT_MAX_def code_def)
  ultimately show "vga_put_char ?con (CHR ''9'') = None"
    using vga_put_char_safe [of ?con "CHR ''9''"] by blast
qed

text \<open>
  A newline on the last row scrolls: every row moves up by one, the last row is blanked with
  the current attribute, and the cursor stands at its start.
\<close>

theorem vga_newline_scrolls:
  assumes "con_ok con" "con_esc con = CON_ESC_NONE" "con_row con = 24"
  shows "\<exists>con'. vga_put_char con (CHR 0x0A) = Some con'
    \<and> con_video con' = drop 80 (con_video con) @ replicate 80 (vga_entry (CHR '' '') (con_attr con))
    \<and> con_row con' = 24 \<and> con_col con' = 0 \<and> unat (con_hw_cursor con') = 1920"
  using assms by (simp add: vga_put_char_def show_char_def con_ok_def vga_scroll_ok vga_update_cursor_def)

theorem vga_newline_scrolls_witness:
  "\<exists>con'. vga_put_char (blank_console\<lparr>con_row := 24, con_hw_cursor := 1920\<rparr>) (CHR 0x0A) = Some con'
    \<and> con_row con' = 24"
  using vga_newline_scrolls [of "blank_console\<lparr>con_row := 24, con_hw_cursor := 1920\<rparr>"]
  by (auto simp: con_ok_def blank_console_def)

text \<open>
  A byte above 127 loses its colour. \<open>vga_entry\<close> widens a signed \<open>char\<close>, so the sign bits fill
  the attribute byte: whatever the current attribute, such a character is shown with attribute 255.
\<close>

theorem vga_entry_high_byte:
  assumes "128 \<le> code c"
  shows "unat (drop_bit 8 (vga_entry c attr)) = 255"
proof -
  let ?x = "of_nat (code c) + 0xFF00 :: u16" and ?y = "push_bit 8 (ucast attr) :: u16"
  have n: "unat (of_nat m + 0xFF00 :: u16) = m + 65280" if "m < 256" for m
    using that by (subst unat_plus) (simp_all add: unat_of_nat)
  have "(m + 65280) div 256 = 255" if "m < 256" for m :: nat
    using that div_mult_self1 [of 256 m 255] by simp
  then have "unat (drop_bit 8 ?x) = 255"
    unfolding unat_shift n [OF code_less] using code_less [of c] by simp
  then have "drop_bit 8 ?x = 255" by (simp add: word_unat_eq_iff)
  then have x: "drop_bit 8 ?x = mask 8" by (simp add: mask_eq_exp_minus_1)
  have "drop_bit 8 (?x OR ?y) = mask 8 OR drop_bit 8 ?y"
    by (simp only: drop_bit_or x)
  also have "\<dots> = mask 8"
    by (rule bit_word_eqI) (auto simp: bit_or_iff bit_mask_iff bit_drop_bit_eq bit_push_bit_iff)
  finally have "drop_bit 8 (?x OR ?y) = (255 :: u16)" by (simp add: mask_eq_exp_minus_1)
  with assms show ?thesis by (simp add: vga_entry_def)
qed

theorem vga_entry_high_byte_witness:
  "unat (drop_bit 8 (vga_entry (CHR 0xE9) 7)) = 255"
  by (rule vga_entry_high_byte) (simp add: code_def)

end
