(* ===== verification/Keyboard.thy ===== *)
theory Keyboard
  imports Prelude
begin

section \<open>arch/x86/keyboard.c: scan codes to key events\<close>

text \<open>
  The interrupt handler as a function from the byte read from port 0x60 and the four flags to the
  flags and the event it hands to the registered handler, if any. The tables are the C arrays; the
  handler's bounds check is against the length of the lower-case one. \<open>keyboard_init\<close> leaves the
  interrupt controller out.
\<close>

datatype keyboard_code =
    KEY_NONE | KEY_CTRL | KEY_ALT | KEY_SHIFT | KEY_UP | KEY_DOWN | KEY_LEFT | KEY_RIGHT
  | KEY_F1 | KEY_F2 | KEY_F3 | KEY_F4 | KEY_F5 | KEY_F6 | KEY_F7 | KEY_F8 | KEY_F9 | KEY_F10
  | KEY_F11 | KEY_F12

record kbd =
  shift_pressed :: bool
  ctrl_pressed :: bool
  alt_pressed :: bool
  extended_code :: bool

record key_event =
  ev_value :: char
  ev_code :: keyboard_code
  ev_ctrl :: bool
  ev_alt :: bool
  ev_shift :: bool

definition SCANCODE_LOWER :: "char list" where
  "SCANCODE_LOWER =
     [NUL, NUL] @ ''1234567890-='' @ [CHR 0x08, CHR 0x09] @ ''qwertyuiop[]'' @ [CHR 0x0A, NUL] @ ''asdfghjkl;'' @
     [CHR 0x27, CHR 0x60, NUL, CHR 0x5C] @ ''zxcvbnm,./'' @ [NUL] @ ''*'' @ [NUL] @ '' ''"

definition SCANCODE_UPPER :: "char list" where
  "SCANCODE_UPPER =
     [NUL, NUL] @ ''!@#$%^&*()_+'' @ [CHR 0x08, CHR 0x09] @ ''QWERTYUIOP{}'' @ [CHR 0x0A, NUL] @ ''ASDFGHJKL:'' @
     [CHR 0x22, CHR 0x7E, NUL, CHR ''|''] @ ''ZXCVBNM<>?'' @ [NUL] @ ''*'' @ [NUL] @ '' ''"

definition keyboard_init :: kbd where
  "keyboard_init = \<lparr> shift_pressed = False, ctrl_pressed = False, alt_pressed = False, extended_code = False \<rparr>"

definition emit_key :: "char \<Rightarrow> keyboard_code \<Rightarrow> kbd \<Rightarrow> key_event" where
  "emit_key v kc s =
     \<lparr> ev_value = v, ev_code = kc, ev_ctrl = ctrl_pressed s, ev_alt = alt_pressed s, ev_shift = shift_pressed s \<rparr>"

text \<open>\<open>if (!is_release) emit_key(0, code)\<close>\<close>

definition emit_press :: "bool \<Rightarrow> keyboard_code \<Rightarrow> kbd \<Rightarrow> kbd \<times> key_event option" where
  "emit_press is_release kc s = (s, if is_release then None else Some (emit_key NUL kc s))"

definition extended_key :: "u8 \<Rightarrow> kbd \<Rightarrow> kbd \<times> key_event option" where
  "extended_key scancode s =
     (let is_release = scancode AND 0x80 \<noteq> 0;
          base = scancode AND NOT 0x80
      in if base = 0x1D then emit_press is_release KEY_CTRL (s\<lparr>ctrl_pressed := \<not> is_release\<rparr>)
         else if base = 0x38 then emit_press is_release KEY_ALT (s\<lparr>alt_pressed := \<not> is_release\<rparr>)
         else if base = 0x48 then emit_press is_release KEY_UP s
         else if base = 0x50 then emit_press is_release KEY_DOWN s
         else if base = 0x4B then emit_press is_release KEY_LEFT s
         else if base = 0x4D then emit_press is_release KEY_RIGHT s
         else (s, None))"

definition fkeys :: "(u8 \<times> keyboard_code) list" where
  "fkeys = [(0x3B, KEY_F1), (0x3C, KEY_F2), (0x3D, KEY_F3), (0x3E, KEY_F4), (0x3F, KEY_F5), (0x40, KEY_F6),
     (0x41, KEY_F7), (0x42, KEY_F8), (0x43, KEY_F9), (0x44, KEY_F10), (0x57, KEY_F11), (0x58, KEY_F12)]"

definition plain_key :: "u8 \<Rightarrow> kbd \<Rightarrow> (kbd \<times> key_event option) option" where
  "plain_key scancode s =
     (let is_release = scancode AND 0x80 \<noteq> 0;
          base = scancode AND NOT 0x80
      in if base = 0x2A \<or> base = 0x36 then Some (emit_press is_release KEY_SHIFT (s\<lparr>shift_pressed := \<not> is_release\<rparr>))
         else if base = 0x1D then Some (emit_press is_release KEY_CTRL (s\<lparr>ctrl_pressed := \<not> is_release\<rparr>))
         else if base = 0x38 then Some (emit_press is_release KEY_ALT (s\<lparr>alt_pressed := \<not> is_release\<rparr>))
         else case map_of fkeys base of
           Some kc \<Rightarrow> Some (emit_press is_release kc s)
         | None \<Rightarrow>
             if is_release \<or> unat base \<ge> length SCANCODE_LOWER then Some (s, None)
             else do {
               c \<leftarrow> rd (if shift_pressed s then SCANCODE_UPPER else SCANCODE_LOWER) (unat base);
               Some (s, if c = NUL then None
                 else
                   let c' = (if ctrl_pressed s
                             then if 97 \<le> code c \<and> code c \<le> 122 then chr (code c - 97 + 1)
                                  else if 65 \<le> code c \<and> code c \<le> 90 then chr (code c - 65 + 1) else c
                             else c)
                   in Some (emit_key c' KEY_NONE s)) })"

definition keyboard_interrupt_handler :: "u8 \<Rightarrow> kbd \<Rightarrow> (kbd \<times> key_event option) option" where
  "keyboard_interrupt_handler scancode s =
     (if scancode = 0xE0 then Some (s\<lparr>extended_code := True\<rparr>, None)
      else if extended_code s then Some (extended_key scancode (s\<lparr>extended_code := False\<rparr>))
      else plain_key scancode s)"

subsection \<open>Facts\<close>

lemma table_lengths: "length SCANCODE_LOWER = 58" "length SCANCODE_UPPER = 58"
  by (simp_all add: SCANCODE_LOWER_def SCANCODE_UPPER_def)

definition released :: "u8 \<Rightarrow> bool" where
  "released scancode \<longleftrightarrow> scancode AND 0x80 \<noteq> 0"

lemma plain_key_total: "\<exists>r. plain_key scancode s = Some r"
  by (auto simp: plain_key_def Let_def table_lengths rd_def split: option.split)

lemma handler_total: "\<exists>s' ev. keyboard_interrupt_handler scancode s = Some (s', ev)"
  using plain_key_total [of scancode s] by (auto simp: keyboard_interrupt_handler_def)

lemma emit_press_simps [simp]:
  "fst (emit_press r c s) = s" "snd (emit_press r c s) = (if r then None else Some (emit_key NUL c s))"
  by (simp_all add: emit_press_def)

lemma emit_press_flags: "emit_press r c s = (s', Some e) \<Longrightarrow> s' = s \<and> e = emit_key NUL c s"
  by (auto simp: emit_press_def split: if_splits)

lemma emit_key_flags [simp]:
  "ev_ctrl (emit_key v c s) = ctrl_pressed s" "ev_alt (emit_key v c s) = alt_pressed s"
  "ev_shift (emit_key v c s) = shift_pressed s"
  by (simp_all add: emit_key_def)

lemma extended_key_prefix: "extended_key x s = (s', ev) \<Longrightarrow> extended_code s' = extended_code s"
  by (auto simp: extended_key_def emit_press_def Let_def split: if_splits)

lemma plain_key_prefix: "plain_key x s = Some (s', ev) \<Longrightarrow> extended_code s' = extended_code s"
  by (auto simp: plain_key_def emit_press_def Let_def rd_def split: if_splits option.splits)

lemma handler_prefix:
  "keyboard_interrupt_handler x s = Some (s', ev) \<Longrightarrow> extended_code s' \<longleftrightarrow> x = 0xE0"
  by (auto simp: keyboard_interrupt_handler_def split: if_splits dest: extended_key_prefix plain_key_prefix)

lemma extended_key_release: "extended_key x s = (s', ev) \<Longrightarrow> released x \<Longrightarrow> ev = None"
  by (auto simp: extended_key_def released_def emit_press_def Let_def split: if_splits)

lemma plain_key_release: "plain_key x s = Some (s', ev) \<Longrightarrow> released x \<Longrightarrow> ev = None"
  by (auto simp: plain_key_def released_def emit_press_def Let_def split: if_splits option.splits)

lemma handler_release: "keyboard_interrupt_handler x s = Some (s', ev) \<Longrightarrow> released x \<Longrightarrow> ev = None"
  by (auto simp: keyboard_interrupt_handler_def split: if_splits dest: extended_key_release plain_key_release)

definition carries_flags :: "kbd \<Rightarrow> key_event \<Rightarrow> bool" where
  "carries_flags s e \<longleftrightarrow> ev_ctrl e = ctrl_pressed s \<and> ev_alt e = alt_pressed s \<and> ev_shift e = shift_pressed s"

lemma carries_emit [simp]: "carries_flags s (emit_key v c s)"
  by (simp add: carries_flags_def)

lemma extended_key_flags: "extended_key x s = (s', Some e) \<Longrightarrow> carries_flags s' e"
  by (auto simp: extended_key_def emit_press_def Let_def split: if_splits)

lemma plain_key_flags: "plain_key x s = Some (s', Some e) \<Longrightarrow> carries_flags s' e"
  by (auto simp: plain_key_def emit_press_def Let_def rd_def split: if_splits option.splits)

lemma handler_flags: "keyboard_interrupt_handler x s = Some (s', ev) \<Longrightarrow> ev = Some e \<Longrightarrow> carries_flags s' e"
  by (auto simp: keyboard_interrupt_handler_def split: if_splits dest: extended_key_flags plain_key_flags)

subsection \<open>Properties\<close>

text \<open>
  The keyboard handler is safe and reports key presses only. For every scan code in every
  state it returns without reading outside its tables; it reports nothing for a released key; an
  event carries the modifier flags as they are after the key; and the prefix flag is set exactly
  after the prefix byte.
\<close>

theorem keyboard_handler_events:
  "\<exists>s' ev. keyboard_interrupt_handler scancode s = Some (s', ev)
     \<and> (extended_code s' \<longleftrightarrow> scancode = 0xE0)
     \<and> (released scancode \<longrightarrow> ev = None)
     \<and> (case ev of None \<Rightarrow> True | Some e \<Rightarrow> carries_flags s' e)"
proof -
  obtain s' ev where r: "keyboard_interrupt_handler scancode s = Some (s', ev)"
    using handler_total by blast
  show ?thesis
    using r handler_prefix [OF r] handler_release [OF r] handler_flags [OF r] by (auto split: option.splits)
qed

theorem keyboard_handler_events_witness:
  "\<exists>s' ev. keyboard_interrupt_handler 0x9E keyboard_init = Some (s', ev) \<and> ev = None"
proof -
  have "released 0x9E" by (simp add: released_def)
  then show ?thesis using keyboard_handler_events [of "0x9E" keyboard_init] by blast
qed

end
