(* ===== verification/Kernel.thy ===== *)
theory Kernel
  imports TaskTable WaitQueue Mount Console Keyboard
begin

section \<open>The kernel's global state\<close>

text \<open>
  The static variables of the kernel as one record: \<open>sched\<close> and the countdown of \<open>sched_schedule\<close>
  (kernel/core/sched.c), the wait queues, \<open>vfs\<close> (fs/vfs.c), the terminals and the active one
  (kernel/core/tty.c), the devices (fs/dev_fs.c), \<open>kconsole\<close> (kernel/core/console.c), the keyboard
  flags, and the process region of every task's address space as a memory of bytes. The array of
  embedded programs and its length are generated by the build: they are the parameter \<open>bins\<close> of the
  definitions that use them. \<open>kprint\<close> is \<open>kprintf\<close> on a text that is already formatted; theory
  Report has the formatting one.
\<close>

record tty =
  y_idx :: u32
  y_in_buf :: "char list"
  y_in_head :: u32
  y_in_tail :: u32
  y_out_buf :: "char list"
  y_out_head :: u32
  y_out_tail :: u32
  y_cursor_pos :: u32
  y_console :: bool

text \<open>\<open>y_console\<close>: the pointer \<open>console\<close> points to \<open>kconsole\<close>; otherwise it is null.\<close>

datatype dev_ops = tty_dev_ops

record dev =
  dv_name :: "char list"
  dv_ops :: "dev_ops option"
  dv_data :: drv
  dv_active :: bool

record embedded_bin =
  bin_name :: "char list"
  bin_bytes :: "char list"

type_synonym bins = "embedded_bin list"
type_synonym memory = "u32 \<Rightarrow> char"

record kernel =
  k_current :: "nat option"
  k_ctxt :: u64
  k_tt :: task_table
  k_tasks :: tasks
  k_rq :: run_queue
  k_swapper :: "nat option"
  k_countdown :: u32
  k_wh :: wheap
  k_vfs :: vfs
  k_ttys :: "nat \<Rightarrow> tty"
  k_active :: "nat option"
  k_devs :: "dev list"
  k_dev_count :: int
  k_con :: console
  k_kbd :: kbd
  k_mem :: "nat \<Rightarrow> memory"

text \<open>The kernel's variables as \<open>bss_zero\<close> leaves them; \<open>countdown\<close> is initialised data. The video
  memory is the adapter's and may hold anything.\<close>

definition zero_tty :: tty where
  "zero_tty = \<lparr> y_idx = 0, y_in_buf = replicate 256 NUL, y_in_head = 0, y_in_tail = 0, y_out_buf = replicate 4096 NUL,
     y_out_head = 0, y_out_tail = 0, y_cursor_pos = 0, y_console = False \<rparr>"

definition zero_dev :: dev where
  "zero_dev = \<lparr> dv_name = replicate 32 NUL, dv_ops = None, dv_data = DNull, dv_active = False \<rparr>"

definition bss_kernel :: kernel where
  "bss_kernel =
     \<lparr> k_current = None, k_ctxt = 0,
       k_tt = \<lparr> tt_free_ring = replicate 64 0, tt_head = 0, tt_tail = 0, tt_gen = (\<lambda>_. 0) \<rparr>,
       k_tasks = (\<lambda>_. zero_task), k_rq = run_queue_init, k_swapper = None, k_countdown = 1000,
       k_wh = \<lparr> wh_queues = (\<lambda>_. \<lparr> wq_head = None, wq_tail = None \<rparr>),
               wh_entries = (\<lambda>_. \<lparr> e_task = None, e_prev = None, e_next = None, e_queue = None \<rparr>) \<rparr>,
       k_vfs = \<lparr> v_free_ring = replicate 1024 0, v_head = 0, v_tail = 0, v_files = (\<lambda>_. zero_file),
                v_mounts = replicate 16 \<lparr> m_path = replicate 64 NUL, m_fs = None, m_active = False \<rparr> \<rparr>,
       k_ttys = (\<lambda>_. zero_tty), k_active = None, k_devs = replicate 32 zero_dev, k_dev_count = 0,
       k_con = \<lparr> con_cols = 0, con_rows = 0, con_row = 0, con_col = 0, con_attr = 0, con_esc = CON_ESC_NONE,
                 con_video = replicate 2000 0, con_fg = 0, con_bg = 0, con_bright = 0, con_params = replicate 8 0,
                 con_param_count = 0, con_hw_cursor = 0 \<rparr>,
       k_kbd = \<lparr> shift_pressed = False, ctrl_pressed = False, alt_pressed = False, extended_code = False \<rparr>,
       k_mem = (\<lambda>_ _. NUL) \<rparr>"

text \<open>Error numbers of include/errno.h, as the negative results the code returns.\<close>

definition ENOENT :: int where "ENOENT = 2"
definition ESRCH :: int where "ESRCH = 3"
definition EINTR :: int where "EINTR = 4"
definition ECHILD :: int where "ECHILD = 10"
definition ENOMEM :: int where "ENOMEM = 12"
definition EFAULT :: int where "EFAULT = 14"
definition ENOTDIR :: int where "ENOTDIR = 20"
definition EINVAL :: int where "EINVAL = 22"
definition ENOSYS :: int where "ENOSYS = 38"

lemmas errno_defs = ENOENT_def ESRCH_def EINTR_def ECHILD_def ENOMEM_def EFAULT_def ENOTDIR_def EINVAL_def ENOSYS_def

text \<open>Writes to a task, a file and a terminal of the kernel.\<close>

definition updt :: "nat \<Rightarrow> (task \<Rightarrow> task) \<Rightarrow> kernel \<Rightarrow> kernel" where
  "updt i f k = k\<lparr>k_tasks := upd i f (k_tasks k)\<rparr>"

definition updfile :: "nat \<Rightarrow> (open_file \<Rightarrow> open_file) \<Rightarrow> kernel \<Rightarrow> kernel" where
  "updfile i f k = k\<lparr>k_vfs := updf i f (k_vfs k)\<rparr>"

definition updtty :: "nat \<Rightarrow> (tty \<Rightarrow> tty) \<Rightarrow> kernel \<Rightarrow> kernel" where
  "updtty i f k = k\<lparr>k_ttys := (k_ttys k)(i := f (k_ttys k i))\<rparr>"

definition the_task :: "nat \<Rightarrow> kernel \<Rightarrow> task" where
  "the_task i k = k_tasks k i"

definition the_file :: "nat \<Rightarrow> kernel \<Rightarrow> open_file" where
  "the_file i k = v_files (k_vfs k) i"

text \<open>\<open>console_printf\<close> on \<open>kconsole\<close>: the 512-byte buffer holds at most 511 characters.\<close>

definition kprint :: "string \<Rightarrow> kernel \<Rightarrow> kernel res" where
  "kprint s k = bindR (of_opt (console_put_chars (take 511 s) (k_con k))) (\<lambda>con. Inr (k\<lparr>k_con := con\<rparr>))"

definition sched_current :: "kernel \<Rightarrow> nat option" where
  "sched_current k = k_current k"

definition sched_find_by_pid :: "int \<Rightarrow> kernel \<Rightarrow> nat option" where
  "sched_find_by_pid pid k = task_table_find_task_by_pid (k_tasks k) pid"

definition sched_enqueue :: "nat \<Rightarrow> kernel \<Rightarrow> kernel res" where
  "sched_enqueue t k =
     bindR (run_queue_push t (k_rq k, k_tasks k)) (\<lambda>(rq, ts). Inr (k\<lparr>k_rq := rq, k_tasks := ts\<rparr>))"

definition wakeup_on :: "wq_id \<Rightarrow> kernel \<Rightarrow> kernel res" where
  "wakeup_on q k =
     bindR (wakeup q (k_wh k, k_rq k, k_tasks k)) (\<lambda>(wh, rq, ts).
       Inr (k\<lparr>k_wh := wh, k_rq := rq, k_tasks := ts\<rparr>))"

subsection \<open>find_bin (CMakeLists.txt)\<close>

fun find_bin_loop :: "nat \<Rightarrow> bins \<Rightarrow> char list \<Rightarrow> nat option option" where
  "find_bin_loop i [] name = Some None"
| "find_bin_loop i (b # bs) name = do {
     c \<leftarrow> k_strcmp (bin_name b) name;
     if c = 0 then Some (Some i) else find_bin_loop (Suc i) bs name }"

definition find_bin :: "bins \<Rightarrow> char list \<Rightarrow> nat option option" where
  "find_bin bins name = find_bin_loop 0 bins name"

definition bins_ok :: "bins \<Rightarrow> bool" where
  "bins_ok bins \<longleftrightarrow> (\<forall>b \<in> set bins. terminated (bin_name b)) \<and> length bins < 2 ^ 16"

subsection \<open>Printing\<close>

definition plain_text :: "string \<Rightarrow> bool" where
  "plain_text s \<longleftrightarrow> CHR 0x1B \<notin> set s"

text \<open>A text that starts with a letter ends any escape sequence that was open.\<close>

definition printable :: "string \<Rightarrow> bool" where
  "printable s \<longleftrightarrow> plain_text s \<and> (case s of [] \<Rightarrow> True | c # _ \<Rightarrow> 97 \<le> code c \<and> code c \<le> 122)"

lemma put_cell_esc: "put_cell con c = Some con' \<Longrightarrow> con_esc con' = con_esc con"
  by (auto simp: put_cell_def bind_eq_Some_conv)

lemma tab_loop_esc: "tab_loop n con = Some con' \<Longrightarrow> con_esc con' = con_esc con"
  by (induction n arbitrary: con) (force simp: bind_eq_Some_conv dest: put_cell_esc)+

lemma show_char_esc: "show_char con c = Some con' \<Longrightarrow> con_esc con' = con_esc con"
  by (auto simp: show_char_def Let_def bind_eq_Some_conv split: if_splits dest: put_cell_esc tab_loop_esc)

lemma vga_scroll_esc: "vga_scroll con = Some con' \<Longrightarrow> con_esc con' = con_esc con"
  by (auto simp: vga_scroll_def bind_eq_Some_conv)

lemma put_char_plain:
  assumes "con_ok con" "con_esc con = CON_ESC_NONE" "c \<noteq> CHR 0x1B"
  shows "\<exists>con'. vga_put_char con c = Some con' \<and> con_ok con' \<and> con_esc con' = CON_ESC_NONE"
proof -
  have "\<not> param_overflow con c" using assms(2) by (simp add: param_overflow_def)
  then obtain con' where r: "vga_put_char con c = Some con'" "con_ok con'" using vga_put_char_ok [OF assms(1)] by blast
  have "con_esc con' = CON_ESC_NONE"
    using r(1) assms(2,3)
    by (auto simp: vga_put_char_def bind_eq_Some_conv vga_update_cursor_def split: if_splits
      dest!: show_char_esc vga_scroll_esc)
  with r show ?thesis by blast
qed

lemma put_char_letter:
  assumes "con_ok con" "97 \<le> code c" "code c \<le> 122"
  shows "\<exists>con'. vga_put_char con c = Some con' \<and> con_ok con' \<and> con_esc con' = CON_ESC_NONE"
proof -
  have nd: "\<not> is_digit c" using assms(2) by (simp add: is_digit_def)
  have ne: "c \<noteq> CHR 0x1B" "c \<noteq> CHR ''[''" "c \<noteq> CHR '';''" "c \<noteq> CHR ''H''" "c \<noteq> CHR ''J''"
    using assms(2) by (auto simp: code_def)
  show ?thesis
  proof (cases "con_esc con = CON_ESC_NONE")
    case True
    then show ?thesis using put_char_plain assms(1) ne(1) by blast
  next
    case False
    have "\<not> param_overflow con c" using nd by (simp add: param_overflow_def)
    then obtain con' where r: "vga_put_char con c = Some con'" "con_ok con'" using vga_put_char_ok [OF assms(1)] by blast
    have "con_esc con' = CON_ESC_NONE"
      using r(1) False ne nd assms(2,3)
      by (auto simp: vga_put_char_def esc_char_def split: if_splits console_esc_state.splits)
    with r show ?thesis by blast
  qed
qed

lemma put_chars_plain:
  "con_ok con \<Longrightarrow> con_esc con = CON_ESC_NONE \<Longrightarrow> plain_text s \<Longrightarrow>
   \<exists>con'. console_put_chars s con = Some con' \<and> con_ok con' \<and> con_esc con' = CON_ESC_NONE"
proof (induction s arbitrary: con)
  case (Cons c s)
  then obtain con1 where "vga_put_char con c = Some con1" "con_ok con1" "con_esc con1 = CON_ESC_NONE"
    using put_char_plain [of con c] by (auto simp: plain_text_def)
  with Cons show ?case by (simp add: console_put_char_def plain_text_def)
qed simp

lemma put_chars_printable:
  assumes "con_ok con" "printable s"
  shows "\<exists>con'. console_put_chars s con = Some con' \<and> con_ok con'"
proof (cases s)
  case (Cons c cs)
  with assms have c: "97 \<le> code c" "code c \<le> 122" "plain_text cs" by (simp_all add: printable_def plain_text_def)
  obtain con1 where "vga_put_char con c = Some con1" "con_ok con1" "con_esc con1 = CON_ESC_NONE"
    using put_char_letter [OF assms(1) c(1,2)] by blast
  with c(3) Cons put_chars_plain [of con1 cs] show ?thesis by (auto simp: console_put_char_def)
qed (use assms in simp)

lemma plain_text_simps [simp]:
  "plain_text []" "plain_text (c # s) \<longleftrightarrow> c \<noteq> CHR 0x1B \<and> plain_text s" "plain_text (s @ t) \<longleftrightarrow> plain_text s \<and> plain_text t"
  by (auto simp: plain_text_def)

lemma printable_Cons [simp]: "printable (c # s) \<longleftrightarrow> 97 \<le> code c \<and> code c \<le> 122 \<and> plain_text s"
  by (auto simp: printable_def code_def)

lemma printable_take: "printable s \<Longrightarrow> printable (take n s)"
  by (cases s; cases n) (auto simp: printable_def plain_text_def dest: in_set_takeD)

text \<open>What a kernel operation keeps of the parts it does not touch: everything but the console.\<close>

definition same_but_con :: "kernel \<Rightarrow> kernel \<Rightarrow> bool" where
  "same_but_con k k' \<longleftrightarrow> (\<exists>con. k' = k\<lparr>k_con := con\<rparr>)"

lemma kprint_ok:
  assumes "con_ok (k_con k)" "printable s"
  shows "\<exists>con. kprint s k = Inr (k\<lparr>k_con := con\<rparr>) \<and> con_ok con"
  using put_chars_printable [OF assms(1) printable_take [OF assms(2), of 511]]
  by (auto simp: kprint_def)

lemma kprint_frame: "kprint s k = Inr k' \<Longrightarrow> \<exists>con. k' = k\<lparr>k_con := con\<rparr>"
  by (auto simp: kprint_def bindR_eq_Inr)

subsection \<open>find_bin\<close>

lemma find_bin_loop_ok:
  assumes "\<forall>b \<in> set bs. terminated (bin_name b)" "terminated name"
  shows "find_bin_loop i bs name =
    Some (if \<exists>j < length bs. cstr (bin_name (bs ! j)) = cstr name
          then Some (i + (LEAST j. j < length bs \<and> cstr (bin_name (bs ! j)) = cstr name)) else None)"
  using assms(1)
proof (induction bs arbitrary: i)
  case (Cons b bs)
  let ?P = "\<lambda>bs j. j < length bs \<and> cstr (bin_name (bs ! j)) = cstr name"
  obtain c where c: "k_strcmp (bin_name b) name = Some c" "c = 0 \<longleftrightarrow> cstr (bin_name b) = cstr name"
    using k_strcmp_total [of "bin_name b" name] k_strcmp_eq_0 [of "bin_name b" name] Cons.prems assms(2) by auto
  show ?case
  proof (cases "c = 0")
    case True
    then have "?P (b # bs) 0" using c(2) by simp
    then have "(LEAST j. ?P (b # bs) j) = 0" by (rule Least_equality) simp
    with True c \<open>?P (b # bs) 0\<close> show ?thesis by auto
  next
    case False
    have sh: "(\<exists>j < length (b # bs). cstr (bin_name ((b # bs) ! j)) = cstr name) \<longleftrightarrow>
      (\<exists>j < length bs. cstr (bin_name (bs ! j)) = cstr name)"
      using False c(2) by (auto simp: less_Suc_eq_0_disj)
    have "(LEAST j. ?P (b # bs) j) = Suc (LEAST j. ?P bs j)" if "?P bs m" for m
      using Least_Suc [of "?P (b # bs)" "Suc m"] that False c(2) by simp
    with False c Cons sh show ?thesis by auto
  qed
qed simp

end
