(* ===== verification/Dev.thy ===== *)
theory Dev
  imports Kernel
begin

section \<open>fs/dev_fs.c: the device registry\<close>

text \<open>
  Thirty-two named devices. \<open>dev_register\<close> takes the first free entry, \<open>dev_lookup\<close> finds the
  first active device with a name. \<open>devs_rep\<close> reads the array as the list of the devices that are
  registered, in the order of registration; \<open>dev_lookup\<close> is the first match in that list.
\<close>

definition MAX_DEVICES :: nat where "MAX_DEVICES = 32"

primrec dev_init_loop :: "dev list \<Rightarrow> dev list option" where
  "dev_init_loop [] = Some []"
| "dev_init_loop (d # ds) = do {
     n \<leftarrow> wr (dv_name d) 0 NUL;
     ds' \<leftarrow> dev_init_loop ds;
     Some (d\<lparr>dv_active := False, dv_ops := None, dv_data := DNull, dv_name := n\<rparr> # ds') }"

definition dev_init :: "kernel \<Rightarrow> kernel res" where
  "dev_init k = bindR (of_opt (dev_init_loop (k_devs k))) (\<lambda>ds.
     Inr (k\<lparr>k_devs := ds, k_dev_count := 0\<rparr>))"

text \<open>The loop of \<open>dev_register\<close>: the devices after it, or none if no entry was free.\<close>

primrec dev_register_loop :: "dev list \<Rightarrow> char list \<Rightarrow> dev_ops \<Rightarrow> drv \<Rightarrow> dev list option option" where
  "dev_register_loop [] name ops data = Some None"
| "dev_register_loop (d # ds) name ops data =
     (if \<not> dv_active d then do {
        n1 \<leftarrow> strncpy_term (dv_name d) name;
        Some (Some (d\<lparr>dv_active := True, dv_name := n1, dv_ops := Some ops, dv_data := data\<rparr> # ds)) }
      else do {
        r \<leftarrow> dev_register_loop ds name ops data;
        Some (map_option (\<lambda>ds'. d # ds') r) })"

definition dev_register :: "char list option \<Rightarrow> dev_ops option \<Rightarrow> drv \<Rightarrow> kernel \<Rightarrow> (int \<times> kernel) res" where
  "dev_register name ops data k =
     (case (name, ops) of
        (Some nm, Some op) \<Rightarrow>
          if k_dev_count k \<ge> int MAX_DEVICES then Inr (-1, k)
          else bindR (of_opt (rd nm 0)) (\<lambda>c.
            if c = SL
            then bindR (kprint (''dev_register: invalid name (starts with /): '' @ cstr nm @ [CHR 0x0A]) k) (\<lambda>k1. Inr (-1, k1))
            else bindR (of_opt (dev_register_loop (k_devs k) nm op data)) (\<lambda>r.
              case r of
                None \<Rightarrow> Inr (-1, k)
              | Some ds \<Rightarrow> Inr (0, k\<lparr>k_devs := ds, k_dev_count := k_dev_count k + 1\<rparr>)))
      | _ \<Rightarrow> Inr (-1, k))"

primrec dev_lookup_loop :: "dev list \<Rightarrow> char list \<Rightarrow> dev option option" where
  "dev_lookup_loop [] name = Some None"
| "dev_lookup_loop (d # ds) name =
     (if dv_active d then do {
        c \<leftarrow> k_strcmp (dv_name d) name;
        if c = 0 then Some (Some d) else dev_lookup_loop ds name }
      else dev_lookup_loop ds name)"

definition dev_lookup :: "char list option \<Rightarrow> kernel \<Rightarrow> dev option option" where
  "dev_lookup name k = (case name of None \<Rightarrow> Some None | Some nm \<Rightarrow> dev_lookup_loop (k_devs k) nm)"

subsection \<open>The registry as a list\<close>

type_synonym dev_entry = "string \<times> dev_ops \<times> drv"

definition dev_matches :: "dev \<Rightarrow> dev_entry \<Rightarrow> bool" where
  "dev_matches d = (\<lambda>(nm, ops, data).
     dv_active d \<and> dv_ops d = Some ops \<and> dv_data d = data \<and> terminated (dv_name d) \<and> cstr (dv_name d) = nm)"

definition devs_rep :: "kernel \<Rightarrow> dev_entry list \<Rightarrow> bool" where
  "devs_rep k es \<longleftrightarrow> (\<exists>act inact. k_devs k = act @ inact \<and> list_all2 dev_matches act es
     \<and> (\<forall>d \<in> set inact. \<not> dv_active d) \<and> length (k_devs k) = MAX_DEVICES
     \<and> (\<forall>d \<in> set (k_devs k). length (dv_name d) = 32) \<and> k_dev_count k = int (length es))"

lemma dev_register_loop_ok:
  assumes "list_all2 dev_matches act es" "\<not> dv_active d" "length (dv_name d) = 32" "terminated nm"
  shows "\<exists>d'. dev_register_loop (act @ d # inact) nm ops data = Some (Some (act @ d' # inact))
    \<and> dev_matches d' (take 31 (cstr nm), ops, data) \<and> length (dv_name d') = 32"
  using assms(1)
proof (induction act es)
  case Nil
  have "dv_name d \<noteq> []" using assms(3) by auto
  then obtain b where "strncpy_term (dv_name d) nm = Some b" "length b = 32" "terminated b" "cstr b = take 31 (cstr nm)"
    using strncpy_term_string [OF assms(4), of "dv_name d"] assms(3) by auto
  with assms(2) show ?case by (simp add: dev_matches_def)
next
  case (Cons a act e es)
  then show ?case by (cases e) (auto simp: dev_matches_def)
qed

lemma dev_register_ok:
  assumes "devs_rep k es" "length es < MAX_DEVICES" "terminated nm" "cstr nm \<noteq> []" "hd (cstr nm) \<noteq> SL"
  shows "\<exists>ds. dev_register (Some nm) (Some ops) data k = Inr (0, k\<lparr>k_devs := ds, k_dev_count := k_dev_count k + 1\<rparr>)
    \<and> devs_rep (k\<lparr>k_devs := ds, k_dev_count := k_dev_count k + 1\<rparr>) (es @ [(take 31 (cstr nm), ops, data)])"
proof -
  obtain act inact where r: "k_devs k = act @ inact" "list_all2 dev_matches act es" "\<forall>d \<in> set inact. \<not> dv_active d"
    "length (k_devs k) = MAX_DEVICES" "\<forall>d \<in> set (k_devs k). length (dv_name d) = 32" "k_dev_count k = int (length es)"
    using assms(1) by (auto simp: devs_rep_def)
  have "length act = length es" using r(2) by (rule list_all2_lengthD)
  with r(1,4) assms(2) have "inact \<noteq> []" by auto
  then obtain d ds where inact: "inact = d # ds" by (cases inact) auto
  then obtain d' where d': "dev_register_loop (act @ d # ds) nm ops data = Some (Some (act @ d' # ds))"
    "dev_matches d' (take 31 (cstr nm), ops, data)" "length (dv_name d') = 32"
    using dev_register_loop_ok [OF r(2), of d nm ds ops data] r assms(3) by auto
  obtain c b where nm: "nm = c # b" "c \<noteq> NUL" "c \<noteq> SL" using assms(4,5) by (cases nm) (auto split: if_splits)
  have "dev_register (Some nm) (Some ops) data k = Inr (0, k\<lparr>k_devs := act @ d' # ds, k_dev_count := k_dev_count k + 1\<rparr>)"
    using r(1,6) inact d'(1) nm assms(2) by (simp add: dev_register_def rd_in)
  moreover have "devs_rep (k\<lparr>k_devs := act @ d' # ds, k_dev_count := k_dev_count k + 1\<rparr>)
      (es @ [(take 31 (cstr nm), ops, data)])"
    unfolding devs_rep_def
    by (rule exI [of _ "act @ [d']"], rule exI [of _ ds])
      (use r inact d' in \<open>auto intro!: list_all2_appendI\<close>)
  ultimately show ?thesis by blast
qed

lemma dev_lookup_loop_ok:
  assumes "list_all2 dev_matches act es" "\<forall>d \<in> set inact. \<not> dv_active d" "terminated nm"
  shows "dev_lookup_loop (act @ inact) nm =
    Some (map_option (\<lambda>i. act ! i) (if \<exists>e \<in> set es. fst e = cstr nm
      then Some (LEAST i. i < length es \<and> fst (es ! i) = cstr nm) else None))"
  using assms(1)
proof (induction act es)
  case Nil
  have "dev_lookup_loop inact nm = Some None" using assms(2) by (induction inact) auto
  then show ?case by simp
next
  case (Cons a act e es)
  obtain x ops data where e: "e = (x, ops, data)" by (cases e)
  with Cons(1) have a: "dv_active a" "terminated (dv_name a)" "cstr (dv_name a) = x" by (simp_all add: dev_matches_def)
  obtain c where c: "k_strcmp (dv_name a) nm = Some c" "c = 0 \<longleftrightarrow> x = cstr nm"
    using k_strcmp_total [of "dv_name a" nm] k_strcmp_eq_0 [of "dv_name a" nm] a assms(3) by auto
  let ?P = "\<lambda>es i. i < length es \<and> fst (es ! i) = cstr nm"
  show ?case
  proof (cases "c = 0")
    case True
    then have "(LEAST i. ?P (e # es) i) = 0" using c(2) e by (intro Least_equality) auto
    with True c e a(1) show ?thesis by simp
  next
    case False
    have "(LEAST i. ?P (e # es) i) = Suc (LEAST i. ?P es i)" if "\<exists>e \<in> set es. fst e = cstr nm"
    proof -
      from that obtain m where "?P es m" by (metis in_set_conv_nth)
      then show ?thesis using Least_Suc [of "?P (e # es)" "Suc m"] False c(2) e by simp
    qed
    with False c e a(1) Cons.IH show ?thesis by auto
  qed
qed

text \<open>Looking a name up finds the first device registered under it.\<close>

lemma dev_lookup_ok:
  assumes "devs_rep k es" "terminated nm"
  shows "\<exists>r. dev_lookup (Some nm) k = Some r \<and>
    (case r of None \<Rightarrow> cstr nm \<notin> fst ` set es
     | Some d \<Rightarrow> \<exists>i < length es. dev_matches d (es ! i) \<and> fst (es ! i) = cstr nm
                    \<and> (\<forall>j < i. fst (es ! j) \<noteq> cstr nm))"
proof -
  obtain act inact where r: "k_devs k = act @ inact" "list_all2 dev_matches act es" "\<forall>d \<in> set inact. \<not> dv_active d"
    using assms(1) by (auto simp: devs_rep_def)
  let ?P = "\<lambda>i. i < length es \<and> fst (es ! i) = cstr nm"
  show ?thesis
  proof (cases "\<exists>e \<in> set es. fst e = cstr nm")
    case True
    then obtain m where "?P m" by (metis in_set_conv_nth)
    then have P: "?P (LEAST i. ?P i)" by (rule LeastI)
    have "\<forall>j < (LEAST i. ?P i). fst (es ! j) \<noteq> cstr nm"
      using P not_less_Least less_trans by blast
    moreover have "dev_matches (act ! (LEAST i. ?P i)) (es ! (LEAST i. ?P i))"
      using r(2) P by (simp add: list_all2_conv_all_nth)
    moreover have "dev_lookup (Some nm) k = Some (Some (act ! (LEAST i. ?P i)))"
      using True dev_lookup_loop_ok [OF r(2,3) assms(2)] by (simp add: dev_lookup_def r(1))
    ultimately have "\<exists>d i. dev_lookup (Some nm) k = Some (Some d) \<and> i < length es \<and> dev_matches d (es ! i)
        \<and> fst (es ! i) = cstr nm \<and> (\<forall>j < i. fst (es ! j) \<noteq> cstr nm)"
      using P by blast
    then obtain d i where "dev_lookup (Some nm) k = Some (Some d)" "i < length es" "dev_matches d (es ! i)"
        "fst (es ! i) = cstr nm" "\<forall>j < i. fst (es ! j) \<noteq> cstr nm"
      by blast
    then show ?thesis by (intro exI [of _ "Some d"]) (simp, blast)
  next
    case False
    then have "dev_lookup (Some nm) k = Some None"
      using dev_lookup_loop_ok [OF r(2,3) assms(2)] by (simp add: dev_lookup_def r(1))
    moreover have "cstr nm \<notin> fst ` set es" using False by force
    ultimately show ?thesis by simp
  qed
qed

subsection \<open>dev_init\<close>

lemma dev_init_loop_ok:
  "\<forall>d \<in> set ds. length (dv_name d) = 32 \<Longrightarrow>
   \<exists>ds'. dev_init_loop ds = Some ds' \<and> length ds' = length ds \<and> (\<forall>d \<in> set ds'. length (dv_name d) = 32 \<and> \<not> dv_active d)"
  by (induction ds) (auto simp: wr_in)

lemma dev_init_ok:
  assumes "length (k_devs k) = MAX_DEVICES" "\<forall>d \<in> set (k_devs k). length (dv_name d) = 32"
  shows "\<exists>ds. dev_init k = Inr (k\<lparr>k_devs := ds, k_dev_count := 0\<rparr>)
    \<and> devs_rep (k\<lparr>k_devs := ds, k_dev_count := 0\<rparr>) []"
  using dev_init_loop_ok [OF assms(2)] assms(1) by (auto simp: dev_init_def devs_rep_def)

end
