(* ===== verification/Sched.thy ===== *)
theory Sched
  imports Kernel
begin

section \<open>kernel/core/sched.c: choosing the next task\<close>

text \<open>
  \<open>sched_schedule\<close> puts the running task at the end of the run queue, takes the task at its head,
  or the swapper when the queue is empty, and makes it the current one. The switch of stacks and
  address spaces (\<open>ctx_switch\<close>, in assembly) is what makes the rest of the kernel code run on behalf
  of the new current task; theory Syscall models where each task resumes.

  \<open>sched_inv k xs qs\<close> is the scheduler's invariant, with \<open>xs\<close> the run queue and \<open>qs\<close> the wait
  queues as lists: every task is where its state says. A queued task is in the run queue (or is the
  swapper), a sleeping task is in a wait queue or, once woken, in the run queue, and only the current
  task is running. So no task is in two places and none is lost.
\<close>

definition sched_tick :: "kernel \<Rightarrow> kernel res" where
  "sched_tick k =
     (let k1 = k\<lparr>k_countdown := k_countdown k - 1\<rparr>
      in if k_countdown k1 = 0
         then bindR (kprint (''sched_schedule: ctxt='' @ dec (unat (ucast (k_ctxt k1) :: u32)) @ [CHR 0x0A]) k1)
                (\<lambda>k2. Inr (k2\<lparr>k_countdown := 1000\<rparr>))
         else Inr k1)"

text \<open>The end of \<open>sched_schedule\<close>; writing the state of a null \<open>next\<close> is a bad access.\<close>

definition switch_to :: "nat option \<Rightarrow> kernel \<Rightarrow> kernel res" where
  "switch_to nxt k =
     bindR (deref nxt) (\<lambda>n.
       Inr ((updt n (\<lambda>x. x\<lparr>t_state := TASK_RUNNING\<rparr>) k)\<lparr>k_current := Some n, k_ctxt := k_ctxt k + 1\<rparr>))"

definition sched_schedule :: "kernel \<Rightarrow> kernel res" where
  "sched_schedule k =
     bindR (sched_tick k) (\<lambda>k1.
     bindR (run_queue_poll (k_rq k1, k_tasks k1)) (\<lambda>(polled, rq, ts).
       let prev = k_current k1;
           k2 = k1\<lparr>k_rq := rq, k_tasks := ts\<rparr>;
           nxt = (case polled of None \<Rightarrow> k_swapper k2 | Some t \<Rightarrow> Some t)
       in case prev of
            None \<Rightarrow> switch_to nxt k2
          | Some p \<Rightarrow>
              let k3 = updt p (\<lambda>x. x\<lparr>t_ctxt := t_ctxt x + 1\<rparr>) k2
              in if nxt = k_swapper k3 \<and> t_state (k_tasks k3 p) = TASK_RUNNING then Inr k3
                 else if \<not> sleeping (k_tasks k3 p)
                 then let k4 = updt p (\<lambda>x. x\<lparr>t_state := TASK_QUEUED\<rparr>) k3
                      in if Some p \<noteq> k_swapper k4
                         then bindR (run_queue_push p (k_rq k4, k_tasks k4)) (\<lambda>(rq, ts).
                                switch_to nxt (k4\<lparr>k_rq := rq, k_tasks := ts\<rparr>))
                         else switch_to nxt k4
                 else switch_to nxt k3))"

subsection \<open>The invariant\<close>

definition waiting :: "(wq_id \<Rightarrow> nat list) \<Rightarrow> nat set" where
  "waiting qs = (\<Union>q. set (qs q))"

definition swapper_ok :: "kernel \<Rightarrow> nat list \<Rightarrow> (wq_id \<Rightarrow> nat list) \<Rightarrow> bool" where
  "swapper_ok k xs qs \<longleftrightarrow> (\<exists>s. k_swapper k = Some s \<and> s < MAX_PROCESS_CNT \<and> s \<notin> set xs \<and> s \<notin> waiting qs
     \<and> (k_current k \<noteq> Some s \<longrightarrow> t_state (k_tasks k s) = TASK_QUEUED)
     \<and> (k_current k = Some s \<longrightarrow> t_state (k_tasks k s) = TASK_RUNNING))"

definition current_ok :: "kernel \<Rightarrow> nat list \<Rightarrow> (wq_id \<Rightarrow> nat list) \<Rightarrow> bool" where
  "current_ok k xs qs \<longleftrightarrow> (\<forall>c. k_current k = Some c \<longrightarrow> c < MAX_PROCESS_CNT \<and> c \<notin> set xs
     \<and> (if c \<in> waiting qs then sleeping (k_tasks k c) else t_state (k_tasks k c) = TASK_RUNNING))"

definition placed :: "kernel \<Rightarrow> nat list \<Rightarrow> (wq_id \<Rightarrow> nat list) \<Rightarrow> nat \<Rightarrow> bool" where
  "placed k xs qs t \<longleftrightarrow>
     (t_state (k_tasks k t) = TASK_QUEUED \<longrightarrow> t \<in> set xs \<or> k_swapper k = Some t)
     \<and> (sleeping (k_tasks k t) \<longrightarrow> t \<in> set xs \<or> t \<in> waiting qs)
     \<and> (t_state (k_tasks k t) = TASK_RUNNING \<longrightarrow> k_current k = Some t)"

definition sched_inv :: "kernel \<Rightarrow> nat list \<Rightarrow> (wq_id \<Rightarrow> nat list) \<Rightarrow> bool" where
  "sched_inv k xs qs \<longleftrightarrow>
     rq_rep (k_rq k, k_tasks k) xs \<and> wh_inv (k_wh k) qs
     \<and> (\<forall>e \<in> waiting qs. e_task (wh_entries (k_wh k) e) = Some e \<and> sleeping (k_tasks k e) \<and> e \<notin> set xs)
     \<and> (\<forall>t \<in> set xs. t_state (k_tasks k t) = TASK_QUEUED \<or> sleeping (k_tasks k t))
     \<and> (\<forall>t < MAX_PROCESS_CNT. placed k xs qs t)
     \<and> swapper_ok k xs qs \<and> current_ok k xs qs"

text \<open>The current task is running (not about to sleep).\<close>

definition running :: "kernel \<Rightarrow> bool" where
  "running k \<longleftrightarrow> (\<exists>c. k_current k = Some c \<and> t_state (k_tasks k c) = TASK_RUNNING)"

lemma sched_invD:
  assumes "sched_inv k xs qs"
  shows "rq_rep (k_rq k, k_tasks k) xs" "wh_inv (k_wh k) qs"
    "e \<in> waiting qs \<Longrightarrow> e_task (wh_entries (k_wh k) e) = Some e \<and> sleeping (k_tasks k e) \<and> e \<notin> set xs"
    "t \<in> set xs \<Longrightarrow> t_state (k_tasks k t) = TASK_QUEUED \<or> sleeping (k_tasks k t)"
    "swapper_ok k xs qs" "current_ok k xs qs" "distinct xs" "set xs \<subseteq> {..<MAX_PROCESS_CNT}"
    "t < MAX_PROCESS_CNT \<Longrightarrow> placed k xs qs t"
  using assms rq_rep_distinct by (auto simp: sched_inv_def rq_rep_def)

text \<open>What scheduling may change: the run queue, the current task, and three fields of tasks.\<close>

definition erase :: "task \<Rightarrow> task" where
  "erase x = x\<lparr>t_next := None, t_state := TASK_ZEROED, t_ctxt := 0\<rparr>"

lemma erase_upd [simp]:
  "erase (x\<lparr>t_next := n\<rparr>) = erase x" "erase (x\<lparr>t_state := s\<rparr>) = erase x" "erase (x\<lparr>t_ctxt := c\<rparr>) = erase x"
  by (simp_all add: erase_def)

lemma eraseD:
  assumes "erase x = erase y"
  shows "t_pid x = t_pid y" "t_parent x = t_parent y" "t_children x = t_children y"
    "t_next_sibling x = t_next_sibling y" "t_exit_status x = t_exit_status y" "t_cwd x = t_cwd y"
    "t_name x = t_name y" "t_files x = t_files y" "t_ctty x = t_ctty y" "t_brk x = t_brk y"
    "t_brk_limit x = t_brk_limit y" "t_sys_call_cnt x = t_sys_call_cnt y" "t_pending x = t_pending y"
    "t_u_sp x = t_u_sp y" "t_pa x = t_pa y"
  using arg_cong [OF assms, of t_pid] arg_cong [OF assms, of t_parent] arg_cong [OF assms, of t_children]
    arg_cong [OF assms, of t_next_sibling] arg_cong [OF assms, of t_exit_status] arg_cong [OF assms, of t_cwd]
    arg_cong [OF assms, of t_name] arg_cong [OF assms, of t_files] arg_cong [OF assms, of t_ctty]
    arg_cong [OF assms, of t_brk] arg_cong [OF assms, of t_brk_limit] arg_cong [OF assms, of t_sys_call_cnt]
    arg_cong [OF assms, of t_pending] arg_cong [OF assms, of t_u_sp] arg_cong [OF assms, of t_pa]
  by (simp_all add: erase_def)

lemma erase_upd_apply [simp]:
  "erase (upd p (\<lambda>x. x\<lparr>t_ctxt := f x\<rparr>) ts i) = erase (ts i)"
  "erase (upd p (\<lambda>x. x\<lparr>t_next := v\<rparr>) ts i) = erase (ts i)"
  "erase (upd p (\<lambda>x. x\<lparr>t_state := st\<rparr>) ts i) = erase (ts i)"
  by (simp_all add: upd_apply)

lemma erase_push: "run_queue_push t (rq, ts) = Inr (rq', ts') \<Longrightarrow> erase (ts' i) = erase (ts i)"
  using run_queue_push_frame [of t rq ts rq' ts' i] by auto

definition sched_frame :: "kernel \<Rightarrow> kernel \<Rightarrow> bool" where
  "sched_frame k k' \<longleftrightarrow> (\<exists>cd con rq ts cur ct.
     k' = k\<lparr>k_countdown := cd, k_con := con, k_rq := rq, k_tasks := ts, k_current := cur, k_ctxt := ct\<rparr>
     \<and> con_ok con \<and> (\<forall>i. erase (ts i) = erase (k_tasks k i)))"

lemma plain_dec: "plain_text (dec n)"
proof -
  have "digit_char d \<noteq> CHR 0x1B" if "d < 10" for d
    using code_digit_char [OF that] by (auto simp: code_def)
  then have "plain_text (rdigits n)" for n
    by (induction n rule: rdigits.induct) (subst rdigits.simps, simp)
  then show ?thesis by (simp add: dec_def plain_text_def)
qed

lemma sched_tick_ok:
  assumes "con_ok (k_con k)"
  shows "\<exists>cd con. sched_tick k = Inr (k\<lparr>k_countdown := cd, k_con := con\<rparr>) \<and> con_ok con"
proof (cases "k_countdown k - 1 = 0")
  case True
  let ?s = "''sched_schedule: ctxt='' @ dec (unat (ucast (k_ctxt k) :: u32)) @ [CHR 0x0A]"
  have "printable ?s" by (simp add: plain_dec code_def)
  then obtain con where "kprint ?s (k\<lparr>k_countdown := 0\<rparr>) = Inr (k\<lparr>k_countdown := 0, k_con := con\<rparr>)" "con_ok con"
    using kprint_ok [of "k\<lparr>k_countdown := 0\<rparr>" ?s] assms by auto
  with True show ?thesis
    by (intro exI [of _ 1000] exI [of _ con]) (simp add: sched_tick_def)
next
  case False
  then show ?thesis using assms by (auto simp: sched_tick_def intro!: exI [of _ "k_con k"])
qed


text \<open>Two tasks that differ in their run-queue link at most.\<close>

definition unlink :: "task \<Rightarrow> task" where
  "unlink x = x\<lparr>t_next := None\<rparr>"

lemma unlinkI: "\<exists>v. y = x\<lparr>t_next := v\<rparr> \<Longrightarrow> unlink y = unlink x"
  by (auto simp: unlink_def)

lemma unlinkD:
  assumes "unlink y = unlink x" shows "erase y = erase x" "t_state y = t_state x" "t_ctxt y = t_ctxt x"
proof -
  have "erase y = erase (unlink y)" "erase x = erase (unlink x)" by (simp_all add: unlink_def)
  then show "erase y = erase x" using assms by simp
  show "t_state y = t_state x" "t_ctxt y = t_ctxt x"
    using arg_cong [OF assms, of t_state] arg_cong [OF assms, of t_ctxt] by (simp_all add: unlink_def)
qed

lemma wait_entry_inj: "sched_inv k xs qs \<Longrightarrow> woken (k_wh k) (k_tasks k) (qs q) = qs q"
proof -
  assume inv: "sched_inv k xs qs"
  have "woken (k_wh k) (k_tasks k) es = es" if "set es \<subseteq> waiting qs" for es
    using that by (induction es) (auto simp: woken_def dest: sched_invD(3) [OF inv])
  then show ?thesis by (auto simp: waiting_def)
qed

lemma waiting_upd: "wh_inv wh qs \<Longrightarrow> waiting (qs(q := [])) = waiting qs - set (qs q)"
  by (auto simp: waiting_def split: if_splits dest: wh_inv_disjoint)

text \<open>Waking a queue moves its tasks to the run queue.\<close>

lemma wakeup_on_inv:
  assumes inv: "sched_inv k xs qs" and cur: "\<forall>c. k_current k = Some c \<longrightarrow> c \<notin> set (qs q)"
  shows "\<exists>wh rq ts. wakeup_on q k = Inr (k\<lparr>k_wh := wh, k_rq := rq, k_tasks := ts\<rparr>)
    \<and> sched_inv (k\<lparr>k_wh := wh, k_rq := rq, k_tasks := ts\<rparr>) (xs @ qs q) (qs(q := []))
    \<and> (\<forall>i. unlink (ts i) = unlink (k_tasks k i))
    \<and> (\<forall>e. e_task (wh_entries wh e) = e_task (wh_entries (k_wh k) e))"
proof -
  have w: "woken (k_wh k) (k_tasks k) (qs q) = qs q" by (rule wait_entry_inj [OF inv])
  have sub: "set (qs q) \<subseteq> waiting qs" by (auto simp: waiting_def)
  have whi: "wh_inv (k_wh k) qs" using sched_invD(2) [OF inv] .
  have d: "distinct (xs @ woken (k_wh k) (k_tasks k) (qs q))"
    unfolding w using sched_invD(7) [OF inv] wh_invD(4) [OF whi, of q] sched_invD(3) [OF inv] sub by auto
  have s64: "set (woken (k_wh k) (k_tasks k) (qs q)) \<subseteq> {..<MAX_PROCESS_CNT}"
    unfolding w by (rule wh_invD(2) [OF whi])
  let ?wh = "clear_entries (qs q) (empty_queue q (k_wh k))"
  obtain rq ts where r: "wakeup q (k_wh k, k_rq k, k_tasks k) = Inr (?wh, rq, ts)"
    "rq_rep (rq, ts) (xs @ qs q)" and fr: "\<And>i. \<exists>v. ts i = (k_tasks k i)\<lparr>t_next := v\<rparr>"
    using wakeup_ok [OF whi sched_invD(1) [OF inv] d s64] unfolding w by blast
  have st: "t_state (ts i) = t_state (k_tasks k i)" for i using fr [of i] by auto
  have sl: "sleeping (ts i) = sleeping (k_tasks k i)" for i by (simp add: sleeping_def st)
  have et: "e_task (wh_entries ?wh e) = e_task (wh_entries (k_wh k) e)" for e by (simp add: empty_queue_def)
  let ?k = "k\<lparr>k_wh := ?wh, k_rq := rq, k_tasks := ts\<rparr>"
  have wt: "waiting (qs(q := [])) = waiting qs - set (qs q)" by (rule waiting_upd [OF whi])
  obtain s where s: "k_swapper k = Some s" "s < MAX_PROCESS_CNT" "s \<notin> set xs" "s \<notin> waiting qs"
    "k_current k \<noteq> Some s \<longrightarrow> t_state (k_tasks k s) = TASK_QUEUED"
    "k_current k = Some s \<longrightarrow> t_state (k_tasks k s) = TASK_RUNNING"
    using sched_invD(5) [OF inv] by (auto simp: swapper_ok_def)
  have "swapper_ok ?k (xs @ qs q) (qs(q := []))"
    unfolding swapper_ok_def by (rule exI [of _ s]) (use s sub wt st in auto)
  moreover have "current_ok ?k (xs @ qs q) (qs(q := []))"
    unfolding current_ok_def
  proof (intro allI impI)
    fix c assume "k_current ?k = Some c"
    then have c: "k_current k = Some c" by simp
    then have "c \<notin> set (qs q)" using cur by blast
    then show "c < MAX_PROCESS_CNT \<and> c \<notin> set (xs @ qs q) \<and>
      (if c \<in> waiting (qs(q := [])) then sleeping (k_tasks ?k c) else t_state (k_tasks ?k c) = TASK_RUNNING)"
      using sched_invD(6) [OF inv] c by (auto simp: current_ok_def wt st sl)
  qed
  moreover have "\<forall>e \<in> waiting (qs(q := [])). e_task (wh_entries ?wh e) = Some e \<and> sleeping (ts e) \<and> e \<notin> set (xs @ qs q)"
    using sched_invD(3) [OF inv] by (auto simp: wt sl empty_queue_def)
  moreover have "\<forall>t \<in> set (xs @ qs q). t_state (ts t) = TASK_QUEUED \<or> sleeping (ts t)"
    using sched_invD(3,4) [OF inv] sub by (auto simp: st sl)
  moreover have "placed ?k (xs @ qs q) (qs(q := [])) t" if "t < MAX_PROCESS_CNT" for t
    using sched_invD(9) [OF inv that] by (auto simp: placed_def wt st sl)
  ultimately have "sched_inv ?k (xs @ qs q) (qs(q := []))"
    unfolding sched_inv_def using r(2) clear_queue_inv [OF whi] by simp
  moreover have "wakeup_on q k = Inr ?k" using r(1) by (simp add: wakeup_on_def)
  moreover have "unlink (ts i) = unlink (k_tasks k i)" for i using fr by (rule unlinkI)
  ultimately show ?thesis using et by blast
qed


text \<open>The invariant depends on the states and run-queue links of tasks only.\<close>

lemma sched_inv_cong:
  assumes inv: "sched_inv k xs qs" and rq: "rq_rep (k_rq k', k_tasks k') xs"
    and same: "k_wh k' = k_wh k" "k_swapper k' = k_swapper k" "k_current k' = k_current k"
    and st: "\<And>i. t_state (k_tasks k' i) = t_state (k_tasks k i)"
  shows "sched_inv k' xs qs"
proof -
  have sl: "sleeping (k_tasks k' i) = sleeping (k_tasks k i)" for i by (simp add: sleeping_def st)
  have "swapper_ok k' xs qs" using sched_invD(5) [OF inv] by (simp add: swapper_ok_def same st)
  moreover have "current_ok k' xs qs" using sched_invD(6) [OF inv] by (simp add: current_ok_def same st sl)
  moreover have "placed k' xs qs t" if "t < MAX_PROCESS_CNT" for t
    using sched_invD(9) [OF inv that] by (simp add: placed_def same st sl)
  ultimately show ?thesis
    unfolding sched_inv_def using rq sched_invD(2-4) [OF inv] by (simp add: same st sl)
qed

lemma sched_inv_cong':
  assumes inv: "sched_inv k xs qs"
    and same: "k_wh k' = k_wh k" "k_swapper k' = k_swapper k" "k_current k' = k_current k" "k_rq k' = k_rq k"
    and st: "\<And>i. t_state (k_tasks k' i) = t_state (k_tasks k i)" "\<And>i. t_next (k_tasks k' i) = t_next (k_tasks k i)"
  shows "sched_inv k' xs qs"
  by (rule sched_inv_cong [OF inv _ same(1-3) st(1)])
    (use rq_rep_cong [OF sched_invD(1) [OF inv]] st(2) same(4) in simp)

text \<open>Making a task runnable that was in no queue.\<close>

lemma sched_enqueue_inv:
  assumes inv: "sched_inv k0 xs qs" and t: "t < MAX_PROCESS_CNT" "t \<notin> set xs" "t \<notin> waiting qs" "k_current k0 \<noteq> Some t"
    "k_swapper k0 \<noteq> Some t" "t_state (k_tasks k t) = TASK_QUEUED"
    and same: "k_wh k = k_wh k0" "k_swapper k = k_swapper k0" "k_current k = k_current k0" "k_rq k = k_rq k0"
    and st: "\<And>i. i \<noteq> t \<Longrightarrow> t_state (k_tasks k i) = t_state (k_tasks k0 i) \<and> t_next (k_tasks k i) = t_next (k_tasks k0 i)"
  shows "\<exists>rq ts. sched_enqueue t k = Inr (k\<lparr>k_rq := rq, k_tasks := ts\<rparr>)
    \<and> sched_inv (k\<lparr>k_rq := rq, k_tasks := ts\<rparr>) (xs @ [t]) qs \<and> (\<forall>i. unlink (ts i) = unlink (k_tasks k i))"
proof -
  have rep: "rq_rep (k_rq k, k_tasks k) xs"
    unfolding same(4) using t(2) st by (intro rq_rep_cong [OF sched_invD(1) [OF inv]]) metis
  have "rq_can t xs" using t by (simp add: rq_can_def)
  then obtain rq ts where r: "run_queue_push t (k_rq k, k_tasks k) = Inr (rq, ts)" "rq_rep (rq, ts) (xs @ [t])"
    using run_queue_push_ok [OF rep] by fastforce
  have fr: "\<exists>v. ts i = (k_tasks k i)\<lparr>t_next := v\<rparr>" for i by (rule run_queue_push_frame [OF r(1)])
  have s1: "t_state (ts i) = (if i = t then TASK_QUEUED else t_state (k_tasks k0 i))" for i
    using fr [of i] t(6) st by auto
  have sl: "sleeping (ts i) = (if i = t then False else sleeping (k_tasks k0 i))" for i by (simp add: sleeping_def s1)
  let ?k = "k\<lparr>k_rq := rq, k_tasks := ts\<rparr>"
  have "swapper_ok ?k (xs @ [t]) qs"
    using sched_invD(5) [OF inv] t by (auto simp: swapper_ok_def s1 same)
  moreover have "current_ok ?k (xs @ [t]) qs"
    using sched_invD(6) [OF inv] t by (auto simp: current_ok_def s1 sl same)
  moreover have "placed ?k (xs @ [t]) qs i" if "i < MAX_PROCESS_CNT" for i
    using sched_invD(9) [OF inv that] by (auto simp: placed_def s1 sl same)
  moreover have "\<forall>e \<in> waiting qs. e_task (wh_entries (k_wh k0) e) = Some e \<and> sleeping (ts e) \<and> e \<notin> set (xs @ [t])"
    using sched_invD(3) [OF inv] t(3) by (auto simp: sl)
  moreover have "\<forall>i \<in> set (xs @ [t]). t_state (ts i) = TASK_QUEUED \<or> sleeping (ts i)"
    using sched_invD(4) [OF inv] t(6) by (auto simp: s1 sl)
  ultimately have "sched_inv ?k (xs @ [t]) qs"
    unfolding sched_inv_def using r(2) sched_invD(2) [OF inv] by (simp add: same)
  moreover have "unlink (ts i) = unlink (k_tasks k i)" for i using fr by (rule unlinkI)
  ultimately show ?thesis using r(1) by (auto simp: sched_enqueue_def)
qed

subsection \<open>What sched_schedule does\<close>

text \<open>The next current task, and the current task's return to the run queue.\<close>

definition stays :: "kernel \<Rightarrow> nat list \<Rightarrow> bool" where
  "stays k xs \<longleftrightarrow> xs = [] \<and> running k"

definition requeued :: "kernel \<Rightarrow> nat list" where
  "requeued k = (case k_current k of
     Some c \<Rightarrow> if t_state (k_tasks k c) = TASK_RUNNING \<and> k_swapper k \<noteq> Some c then [c] else [] | None \<Rightarrow> [])"

definition chosen :: "kernel \<Rightarrow> nat list \<Rightarrow> nat option" where
  "chosen k xs = (case xs of t # _ \<Rightarrow> Some t | [] \<Rightarrow> if running k then k_current k else k_swapper k)"

definition queue_after :: "kernel \<Rightarrow> nat list \<Rightarrow> nat list" where
  "queue_after k xs = (if stays k xs then [] else tl xs @ requeued k)"

definition demoted :: "kernel \<Rightarrow> nat \<Rightarrow> sched_state" where
  "demoted k i = (if k_current k = Some i \<and> t_state (k_tasks k i) = TASK_RUNNING then TASK_QUEUED else t_state (k_tasks k i))"

lemma sleeping_state:
  "t_state x = TASK_INTERRUPTIBLE \<Longrightarrow> sleeping x" "t_state x = TASK_UNINTERRUPTIBLE \<Longrightarrow> sleeping x"
  "t_state x = TASK_RUNNING \<Longrightarrow> \<not> sleeping x" "t_state x = TASK_QUEUED \<Longrightarrow> \<not> sleeping x"
  by (simp_all add: sleeping_def)

lemma sched_inv_switch:
  assumes inv: "sched_inv k xs qs" and ns: "\<not> stays k xs"
    and rq: "rq_rep (k_rq k', k_tasks k') (tl xs @ requeued k)" and same: "k_wh k' = k_wh k" "k_swapper k' = k_swapper k"
    and n: "chosen k xs = Some n" "k_current k' = Some n"
    and st: "\<And>i. t_state (k_tasks k' i) = (if i = n then TASK_RUNNING else demoted k i)"
  shows "sched_inv k' (tl xs @ requeued k) qs \<and> running k'"
proof -
  obtain s where s: "k_swapper k = Some s" "s < MAX_PROCESS_CNT" "s \<notin> set xs" "s \<notin> waiting qs"
    "k_current k \<noteq> Some s \<Longrightarrow> t_state (k_tasks k s) = TASK_QUEUED"
    "k_current k = Some s \<Longrightarrow> t_state (k_tasks k s) = TASK_RUNNING"
    using sched_invD(5) [OF inv] by (auto simp: swapper_ok_def)
  note cur = sched_invD(6) [OF inv, unfolded current_ok_def, rule_format]
  have dist: "distinct xs" by (rule sched_invD(7) [OF inv])
  have req: "set (requeued k) \<subseteq> {c. k_current k = Some c \<and> t_state (k_tasks k c) = TASK_RUNNING \<and> c \<noteq> s}"
    using s(1) by (auto simp: requeued_def split: option.splits if_splits)
  have tl: "set (tl xs) \<subseteq> set xs" by (cases xs) auto
  have n_cases: "(\<exists>ys. xs = n # ys) \<or> xs = [] \<and> n = s \<and> \<not> running k"
    using n(1) ns s(1) by (auto simp: chosen_def stays_def split: list.splits if_splits)
  have n_not: "n \<notin> set (tl xs)" "n \<notin> set (requeued k)" "n < MAX_PROCESS_CNT"
    using n_cases dist s cur req sched_invD(8) [OF inv] by (auto simp: running_def)
  have n_wait: "n \<notin> waiting qs"
    using n_cases s(4) sched_invD(3) [OF inv, of n] by auto
  have dem_s: "n \<noteq> s \<Longrightarrow> demoted k s = TASK_QUEUED" using s(5,6) by (auto simp: demoted_def)
  have dem_sl: "i \<noteq> n \<Longrightarrow> sleeping (k_tasks k' i) = sleeping (k_tasks k i)" for i
    by (simp add: sleeping_def st demoted_def)
  have wait_dem: "sleeping (k_tasks k' e) \<and> e \<notin> set (tl xs @ requeued k)" if "e \<in> waiting qs" for e
  proof -
    have e: "sleeping (k_tasks k e)" "e \<notin> set xs" using sched_invD(3) [OF inv that] by auto
    then have "e \<notin> set (requeued k)" using req by (auto simp: sleeping_def)
    then show ?thesis using e tl dem_sl [of e] n_wait that by auto
  qed
  have "swapper_ok k' (tl xs @ requeued k) qs"
    unfolding swapper_ok_def by (rule exI [of _ s]) (use s same tl req n(2) st dem_s in auto)
  moreover have "current_ok k' (tl xs @ requeued k) qs"
    using n(2) n_not n_wait by (auto simp: current_ok_def st)
  moreover have "t_state (k_tasks k' t) = TASK_QUEUED \<or> sleeping (k_tasks k' t)" if "t \<in> set (tl xs @ requeued k)" for t
  proof -
    have "t \<noteq> n" using that n_not(1,2) by auto
    moreover have "demoted k t = TASK_QUEUED \<or> sleeping (k_tasks k t)"
      using that tl req sched_invD(4) [OF inv, of t] by (auto simp: demoted_def)
    ultimately show ?thesis using dem_sl by (simp add: st)
  qed
  moreover have "placed k' (tl xs @ requeued k) qs t" if "t < MAX_PROCESS_CNT" for t
  proof (cases "t = n")
    case True
    then show ?thesis using n(2) by (simp add: placed_def st sleeping_def)
  next
    case False
    have p: "placed k xs qs t" by (rule sched_invD(9) [OF inv that])
    have "t \<in> set xs \<Longrightarrow> t \<in> set (tl xs)" using False n_cases by auto
    moreover have "t_state (k_tasks k t) = TASK_RUNNING \<Longrightarrow> t = s \<or> t \<in> set (requeued k)"
      using p s(1) by (auto simp: placed_def requeued_def)
    ultimately show ?thesis
      using False p s(1) dem_sl [OF False]
      by (auto simp: placed_def st demoted_def same split: if_splits)
  qed
  ultimately have "sched_inv k' (tl xs @ requeued k) qs"
    unfolding sched_inv_def using rq sched_invD(2,3) [OF inv] wait_dem by (simp add: same)
  then show ?thesis using n(2) by (auto simp: running_def st)
qed


lemma sched_frameI:
  assumes "con_ok con" "\<And>i. erase (ts i) = erase (k_tasks k i)"
  shows "sched_frame k (k\<lparr>k_countdown := cd, k_con := con, k_rq := rq, k_tasks := ts, k_current := cur, k_ctxt := ct\<rparr>)"
  unfolding sched_frame_def using assms by blast

text \<open>The last step, from a state in which the old current task has been put away.\<close>

lemma switch_done:
  assumes inv: "sched_inv k xs qs" and ns: "\<not> stays k xs" and n: "chosen k xs = Some n"
    and k4: "k4 = k\<lparr>k_countdown := cd, k_con := cn, k_rq := rq, k_tasks := ts\<rparr>" and cn: "con_ok cn"
    and rq: "rq_rep (rq, ts) (tl xs @ requeued k)"
    and st: "\<And>i. i \<noteq> n \<Longrightarrow> t_state (ts i) = demoted k i"
    and fr: "\<And>i. erase (ts i) = erase (k_tasks k i)"
  shows "\<exists>k'. switch_to (Some n) k4 = Inr k' \<and> sched_inv k' (queue_after k xs) qs \<and> running k'
    \<and> k_current k' = chosen k xs \<and> sched_frame k k'"
proof -
  let ?ts = "upd n (\<lambda>x. x\<lparr>t_state := TASK_RUNNING\<rparr>) ts"
  let ?k = "k\<lparr>k_countdown := cd, k_con := cn, k_rq := rq, k_tasks := ?ts, k_current := Some n, k_ctxt := k_ctxt k + 1\<rparr>"
  have sw: "switch_to (Some n) k4 = Inr ?k" by (simp add: switch_to_def updt_def k4)
  have "rq_rep (rq, ?ts) (tl xs @ requeued k)"
    by (rule rq_rep_cong [OF rq]) (simp add: upd_apply)
  then have "sched_inv ?k (tl xs @ requeued k) qs \<and> running ?k"
    by (intro sched_inv_switch [OF inv ns _ _ _ n]) (simp_all add: upd_apply st)
  moreover have "erase (?ts i) = erase (k_tasks k i)" for i
    using fr [of i] by simp
  then have "sched_frame k ?k" by (rule sched_frameI [OF cn])
  ultimately show ?thesis using sw n ns by (simp add: queue_after_def)
qed

text \<open>Before the last step: the run queue and the tasks once the old current task has been put away.\<close>

definition put_away :: "kernel \<Rightarrow> nat list \<Rightarrow> run_queue \<Rightarrow> tasks \<Rightarrow> bool" where
  "put_away k xs rq ts \<longleftrightarrow> rq_rep (rq, ts) (tl xs @ requeued k)
     \<and> (\<forall>i. t_state (ts i) = demoted k i) \<and> (\<forall>i. erase (ts i) = erase (k_tasks k i))"

abbreviation bump :: "nat \<Rightarrow> tasks \<Rightarrow> tasks" where
  "bump c \<equiv> upd c (\<lambda>x. x\<lparr>t_ctxt := t_ctxt x + 1\<rparr>)"

lemma t_state_bump [simp]: "t_state (bump c ts i) = t_state (ts i)"
  by (simp add: upd_apply)

lemma t_state_unlink [simp]: "t_state (upd t (\<lambda>x. x\<lparr>t_next := v\<rparr>) ts i) = t_state (ts i)"
  by (simp add: upd_apply)

lemma bump_rep: "rq_rep (rq, ts) xs \<Longrightarrow> rq_rep (rq, bump c ts) xs"
  by (erule rq_rep_cong) (simp add: upd_apply)

lemma requeued_cases:
  assumes "sched_inv k xs qs" "k_current k = Some c"
  obtains (asleep) "sleeping (k_tasks k c)" "t_state (k_tasks k c) \<noteq> TASK_RUNNING" "requeued k = []"
    | (swapper) "t_state (k_tasks k c) = TASK_RUNNING" "k_swapper k = Some c" "requeued k = []"
    | (task) "t_state (k_tasks k c) = TASK_RUNNING" "k_swapper k \<noteq> Some c" "requeued k = [c]"
proof -
  have "t_state (k_tasks k c) = TASK_RUNNING \<or> sleeping (k_tasks k c)"
    using sched_invD(6) [OF assms(1)] assms(2) by (auto simp: current_ok_def split: if_splits)
  moreover have "sleeping (k_tasks k c) \<Longrightarrow> t_state (k_tasks k c) \<noteq> TASK_RUNNING" by (auto simp: sleeping_def)
  ultimately show ?thesis using that assms(2) by (auto simp: requeued_def)
qed

lemma schedule_next:
  assumes inv: "sched_inv k (t # ys) qs" and tick: "sched_tick k = Inr (k\<lparr>k_countdown := cd, k_con := cn\<rparr>)"
  shows "\<exists>rq ts. sched_schedule k = switch_to (Some t) (k\<lparr>k_countdown := cd, k_con := cn, k_rq := rq, k_tasks := ts\<rparr>)
    \<and> put_away k (t # ys) rq ts"
proof -
  let ?ts1 = "upd t (\<lambda>x. x\<lparr>t_next := None\<rparr>) (k_tasks k)"
  obtain rq1 where poll: "run_queue_poll (k_rq k, k_tasks k) = Inr (Some t, rq1, ?ts1)" and rep1: "rq_rep (rq1, ?ts1) ys"
    using run_queue_poll_Cons sched_invD(1) [OF inv] by blast
  have ts: "Some t \<noteq> k_swapper k" using sched_invD(5) [OF inv] by (auto simp: swapper_ok_def)
  show ?thesis
  proof (cases "k_current k")
    case None
    then have "sched_schedule k = switch_to (Some t) (k\<lparr>k_countdown := cd, k_con := cn, k_rq := rq1, k_tasks := ?ts1\<rparr>)"
      using tick poll by (simp add: sched_schedule_def)
    moreover have "put_away k (t # ys) rq1 ?ts1" using None rep1 by (simp add: put_away_def requeued_def demoted_def)
    ultimately show ?thesis by blast
  next
    case (Some c)
    have c: "c \<notin> set ys" "c < MAX_PROCESS_CNT" using sched_invD(6) [OF inv] Some by (auto simp: current_ok_def)
    let ?ts3 = "bump c ?ts1"
    let ?ts4 = "upd c (\<lambda>x. x\<lparr>t_state := TASK_QUEUED\<rparr>) ?ts3"
    have sl: "sleeping (?ts3 c) = sleeping (k_tasks k c)" by (simp only: sleeping_def t_state_bump t_state_unlink)
    have rep4: "rq_rep (rq1, ?ts4) ys" by (rule rq_rep_cong [OF bump_rep [OF rep1, of c]]) (simp add: upd_apply)
    have run: "t_state (k_tasks k c) = TASK_RUNNING \<Longrightarrow> t_state (?ts4 i) = demoted k i" for i
      using Some t_state_bump [of c ?ts1 i] by (simp add: upd_apply demoted_def)
    show ?thesis using inv Some
    proof (cases rule: requeued_cases)
      case asleep
      then have "sched_schedule k = switch_to (Some t) (k\<lparr>k_countdown := cd, k_con := cn, k_rq := rq1, k_tasks := ?ts3\<rparr>)"
        using tick poll Some ts sl by (simp add: sched_schedule_def updt_def)
      moreover have "put_away k (t # ys) rq1 ?ts3"
        using asleep Some bump_rep [OF rep1] by (auto simp: put_away_def demoted_def)
      ultimately show ?thesis by blast
    next
      case swapper
      then have "sched_schedule k = switch_to (Some t) (k\<lparr>k_countdown := cd, k_con := cn, k_rq := rq1, k_tasks := ?ts4\<rparr>)"
        using tick poll Some ts sl by (simp add: sched_schedule_def updt_def sleeping_state Let_def)
      moreover have "put_away k (t # ys) rq1 ?ts4" using swapper rep4 run by (simp add: put_away_def)
      ultimately show ?thesis by blast
    next
      case task
      have "rq_can c ys" using c by (simp add: rq_can_def)
      then obtain rq5 ts5 where push: "run_queue_push c (rq1, ?ts4) = Inr (rq5, ts5)" and rep5: "rq_rep (rq5, ts5) (ys @ [c])"
        using run_queue_push_ok [OF rep4] by fastforce
      have "sched_schedule k = switch_to (Some t) (k\<lparr>k_countdown := cd, k_con := cn, k_rq := rq5, k_tasks := ts5\<rparr>)"
        using task tick poll Some ts sl push not_sym [OF task(2)] by (simp add: sched_schedule_def updt_def sleeping_state Let_def)
      moreover have "t_state (ts5 i) = demoted k i" for i
        using run_queue_push_frame [OF push, of i] run [OF task(1), of i] by auto
      moreover have "erase (ts5 i) = erase (k_tasks k i)" for i using erase_push [OF push, of i] by simp
      ultimately show ?thesis using task rep5 by (auto simp: put_away_def)
    qed
  qed
qed

lemma schedule_idle:
  assumes inv: "sched_inv k [] qs" and tick: "sched_tick k = Inr (k\<lparr>k_countdown := cd, k_con := cn\<rparr>)" and nr: "\<not> running k"
  shows "\<exists>rq ts. sched_schedule k = switch_to (k_swapper k) (k\<lparr>k_countdown := cd, k_con := cn, k_rq := rq, k_tasks := ts\<rparr>)
    \<and> put_away k [] rq ts"
proof -
  note rep = sched_invD(1) [OF inv]
  have poll: "run_queue_poll (k_rq k, k_tasks k) = Inr (None, k_rq k, k_tasks k)"
    using run_queue_poll_Nil rep by simp
  show ?thesis
  proof (cases "k_current k")
    case None
    then have "sched_schedule k = switch_to (k_swapper k) (k\<lparr>k_countdown := cd, k_con := cn, k_rq := k_rq k, k_tasks := k_tasks k\<rparr>)"
      using tick poll by (simp add: sched_schedule_def)
    moreover have "put_away k [] (k_rq k) (k_tasks k)" using None rep by (simp add: put_away_def requeued_def demoted_def)
    ultimately show ?thesis by blast
  next
    case (Some c)
    show ?thesis using inv Some
    proof (cases rule: requeued_cases)
      case asleep
      have "sleeping (bump c (k_tasks k) c)" using asleep(1) by (simp add: sleeping_def)
      then have "sched_schedule k = switch_to (k_swapper k)
          (k\<lparr>k_countdown := cd, k_con := cn, k_rq := k_rq k, k_tasks := bump c (k_tasks k)\<rparr>)"
        using asleep tick poll Some by (simp add: sched_schedule_def updt_def)
      moreover have "put_away k [] (k_rq k) (bump c (k_tasks k))"
        using asleep Some bump_rep [OF rep] by (auto simp: put_away_def demoted_def)
      ultimately show ?thesis by blast
    qed (use nr Some in \<open>auto simp: running_def\<close>)
  qed
qed

text \<open>Nothing else is runnable: the current task goes on.\<close>

lemma schedule_stays_eq:
  assumes inv: "sched_inv k [] qs" and tick: "sched_tick k = Inr (k\<lparr>k_countdown := cd, k_con := cn\<rparr>)"
    and c: "k_current k = Some c" "t_state (k_tasks k c) = TASK_RUNNING"
  shows "sched_schedule k = Inr (k\<lparr>k_countdown := cd, k_con := cn, k_tasks := bump c (k_tasks k)\<rparr>)"
proof -
  have "run_queue_poll (k_rq k, k_tasks k) = Inr (None, k_rq k, k_tasks k)"
    using run_queue_poll_Nil sched_invD(1) [OF inv] by simp
  then show ?thesis using tick c by (simp add: sched_schedule_def updt_def)
qed

lemma schedule_stays:
  assumes inv: "sched_inv k [] qs" and tick: "sched_tick k = Inr (k\<lparr>k_countdown := cd, k_con := cn\<rparr>)" and cn: "con_ok cn"
    and r: "running k"
  shows "\<exists>k'. sched_schedule k = Inr k' \<and> sched_inv k' [] qs \<and> running k' \<and> k_current k' = k_current k \<and> sched_frame k k'"
proof -
  obtain c where c: "k_current k = Some c" "t_state (k_tasks k c) = TASK_RUNNING" using r by (auto simp: running_def)
  let ?k3 = "k\<lparr>k_countdown := cd, k_con := cn, k_tasks := bump c (k_tasks k)\<rparr>"
  have "sched_schedule k = Inr ?k3" by (rule schedule_stays_eq [OF inv tick c])
  moreover have "sched_inv ?k3 [] qs"
    by (rule sched_inv_cong [OF inv]) (use bump_rep [OF sched_invD(1) [OF inv]] in simp_all)
  moreover have "sched_frame k ?k3"
    using sched_frameI [OF cn, where ts = "bump c (k_tasks k)" and k = k and cd = cd and rq = "k_rq k"
        and cur = "k_current k" and ct = "k_ctxt k"] by simp
  moreover have "running ?k3" using c by (simp add: running_def)
  ultimately show ?thesis by auto
qed

text \<open>Otherwise the old current task is put away and the chosen one runs.\<close>

lemma schedule_moves:
  assumes inv: "sched_inv k xs qs" and ns: "\<not> stays k xs" and tick: "sched_tick k = Inr (k\<lparr>k_countdown := cd, k_con := cn\<rparr>)"
  shows "\<exists>n rq ts. chosen k xs = Some n \<and> put_away k xs rq ts
    \<and> sched_schedule k = switch_to (Some n) (k\<lparr>k_countdown := cd, k_con := cn, k_rq := rq, k_tasks := ts\<rparr>)"
proof (cases xs)
  case Nil
  obtain s where s: "k_swapper k = Some s" using sched_invD(5) [OF inv] by (auto simp: swapper_ok_def)
  have "sched_inv k [] qs" "\<not> running k" using inv ns Nil by (simp_all add: stays_def)
  then obtain rq ts where "put_away k [] rq ts"
    "sched_schedule k = switch_to (k_swapper k) (k\<lparr>k_countdown := cd, k_con := cn, k_rq := rq, k_tasks := ts\<rparr>)"
    using schedule_idle [OF _ tick] by blast
  then show ?thesis using Nil \<open>\<not> running k\<close> s by (auto simp: chosen_def)
next
  case (Cons t ys)
  then have ch: "chosen k xs = Some t" and i: "sched_inv k (t # ys) qs" using inv by (simp_all add: chosen_def)
  show ?thesis using schedule_next [OF i tick] ch Cons by blast
qed

lemma sched_schedule_inv:
  assumes inv: "sched_inv k xs qs" and con: "con_ok (k_con k)"
  shows "\<exists>k'. sched_schedule k = Inr k' \<and> sched_inv k' (queue_after k xs) qs \<and> running k'
    \<and> k_current k' = chosen k xs \<and> sched_frame k k'"
proof -
  obtain cd cn where tick: "sched_tick k = Inr (k\<lparr>k_countdown := cd, k_con := cn\<rparr>)" and cn: "con_ok cn"
    using sched_tick_ok [OF con] by blast
  show ?thesis
  proof (cases "stays k xs")
    case True
    then have xs: "xs = []" "running k" by (simp_all add: stays_def)
    then show ?thesis
      using schedule_stays [OF _ tick cn] inv True by (simp add: queue_after_def chosen_def)
  next
    case False
    then obtain n rq ts where n: "chosen k xs = Some n" and p: "put_away k xs rq ts"
      and e: "sched_schedule k = switch_to (Some n) (k\<lparr>k_countdown := cd, k_con := cn, k_rq := rq, k_tasks := ts\<rparr>)"
      using schedule_moves [OF inv False tick] by blast
    show ?thesis
      unfolding e by (rule switch_done [OF inv False n refl cn]) (use p in \<open>simp_all add: put_away_def\<close>)
  qed
qed

text \<open>
  Scheduling moves tasks between running, runnable and asleep; it neither ends nor revives one.
\<close>

definition alive :: "task \<Rightarrow> bool" where
  "alive x \<longleftrightarrow> t_state x = TASK_QUEUED \<or> t_state x = TASK_RUNNING \<or> sleeping x"

lemma sched_schedule_alive:
  assumes inv: "sched_inv k xs qs" and con: "con_ok (k_con k)" and r: "sched_schedule k = Inr k'"
  shows "alive (k_tasks k' i) = alive (k_tasks k i) \<and> (\<not> alive (k_tasks k i) \<longrightarrow> t_state (k_tasks k' i) = t_state (k_tasks k i))"
proof -
  obtain cd cn where tick: "sched_tick k = Inr (k\<lparr>k_countdown := cd, k_con := cn\<rparr>)"
    using sched_tick_ok [OF con] by blast
  have al: "alive x = alive y" if "t_state x = t_state y" for x y using that by (simp add: alive_def sleeping_def)
  show ?thesis
  proof (cases "stays k xs")
    case True
    then obtain c where c: "xs = []" "k_current k = Some c" "t_state (k_tasks k c) = TASK_RUNNING"
      by (auto simp: stays_def running_def)
    have "k' = k\<lparr>k_countdown := cd, k_con := cn, k_tasks := bump c (k_tasks k)\<rparr>"
      using schedule_stays_eq [OF _ tick c(2,3)] inv c(1) r by simp
    then have st: "t_state (k_tasks k' i) = t_state (k_tasks k i)" by (simp del: upd_same upd_other)
    show ?thesis using al [OF st] st by simp
  next
    case False
    obtain n rq ts where n: "chosen k xs = Some n" and p: "put_away k xs rq ts"
      and e: "sched_schedule k = switch_to (Some n) (k\<lparr>k_countdown := cd, k_con := cn, k_rq := rq, k_tasks := ts\<rparr>)"
      using schedule_moves [OF inv False tick] by blast
    have st: "t_state (k_tasks k' i) = (if i = n then TASK_RUNNING else demoted k i)"
      using r p by (auto simp: e switch_to_def updt_def put_away_def upd_apply)
    have "alive (k_tasks k n)"
    proof (cases xs)
      case Nil
      then have "k_swapper k = Some n \<or> running k \<and> k_current k = Some n" using n by (auto simp: chosen_def split: if_splits)
      then show ?thesis using sched_invD(5) [OF inv] by (auto simp: swapper_ok_def running_def alive_def)
    next
      case (Cons t ys)
      then have "n = t" using n by (simp add: chosen_def)
      then show ?thesis using sched_invD(4) [OF inv, of n] Cons by (auto simp: alive_def)
    qed
    then show ?thesis using st by (auto simp: alive_def sleeping_def demoted_def split: if_splits)
  qed
qed

subsection \<open>Properties\<close>

text \<open>
  C6: scheduling loses no task and runs none twice. From a state in which every task is where its
  state says (\<open>sched_inv\<close>), \<open>sched_schedule\<close> returns to such a state: the new current task is the
  head of the run queue, or, when that is empty, the old one if it still runs and the swapper
  otherwise; the rest of the queue keeps its order; the old current task goes to its end unless it
  is the swapper or about to sleep; and of the tasks nothing but the link, the state and the count
  of context switches changes.
\<close>

theorem sched_schedule_round_robin:
  assumes "sched_inv k xs qs" "con_ok (k_con k)"
  shows "\<exists>k'. sched_schedule k = Inr k' \<and> sched_inv k' (queue_after k xs) qs \<and> running k'
    \<and> k_current k' = chosen k xs \<and> sched_frame k k'"
  by (rule sched_schedule_inv [OF assms])

definition two_tasks :: kernel where
  "two_tasks = bss_kernel\<lparr>k_swapper := Some 0, k_current := Some 1, k_con := blank_console,
     k_tasks := (\<lambda>_. zero_task)(0 := zero_task\<lparr>t_state := TASK_QUEUED\<rparr>, 1 := zero_task\<lparr>t_state := TASK_RUNNING\<rparr>,
       2 := zero_task\<lparr>t_state := TASK_QUEUED\<rparr>),
     k_rq := \<lparr> rq_first = Some 2, rq_last = Some 2, rq_len = 1 \<rparr>\<rparr>"

lemma two_tasks_inv: "sched_inv two_tasks [2] (\<lambda>_. [])"
proof -
  have "rq_rep (k_rq two_tasks, k_tasks two_tasks) [2]"
    by (simp add: two_tasks_def rq_rep_def zero_task_def)
  moreover have "wh_inv (k_wh two_tasks) (\<lambda>_. [])" by (simp add: two_tasks_def bss_kernel_def wh_inv_def wq_rep_def)
  ultimately show ?thesis
    by (simp add: sched_inv_def waiting_def placed_def swapper_ok_def current_ok_def two_tasks_def sleeping_def zero_task_def)
qed

theorem sched_schedule_round_robin_witness:
  "\<exists>k'. sched_schedule two_tasks = Inr k' \<and> k_current k' = Some 2 \<and> sched_inv k' [1] (\<lambda>_. [])"
proof -
  have "con_ok (k_con two_tasks)" by (simp add: two_tasks_def blank_console_def con_ok_def)
  moreover have "queue_after two_tasks [2] = [1]" "chosen two_tasks [2] = Some 2"
    by (simp_all add: queue_after_def stays_def requeued_def chosen_def two_tasks_def)
  ultimately show ?thesis using sched_schedule_round_robin [OF two_tasks_inv] by auto
qed

end
