(* ===== verification/Tty.thy ===== *)
theory Tty
  imports Dev Sched
begin

section \<open>kernel/core/tty.c: the terminals\<close>

text \<open>
  Twelve terminals over one console. Each has a ring of 256 input characters with free-running
  counters (\<open>in_head\<close> is where the keyboard writes, \<open>in_tail\<close> where \<open>tty_read\<close> reads), a ring
  of the last 4096 characters written, from which \<open>tty_redraw\<close> repaints the screen when the
  terminal is activated, and a queue of waiting readers. \<open>tty_read\<close> blocks: what it does once
  input is there is \<open>tty_take\<close>; theory Syscall has the call itself.

  The lemmas show that the input ring is a queue that drops what does not fit (\<open>in_fifo\<close>), and that
  the output ring always holds the last 4096 characters written.
\<close>

definition tty_init :: "nat \<Rightarrow> kernel \<Rightarrow> kernel" where
  "tty_init i k =
     (let k1 = updtty i (\<lambda>y. y\<lparr>y_idx := of_nat i, y_in_head := 0, y_in_tail := 0, y_out_head := 0,
                 y_out_tail := 0, y_cursor_pos := 0, y_console := True\<rparr>) k
      in k1\<lparr>k_wh := wait_queue_init (TtyQ i) (k_wh k1)\<rparr>)"

definition tty_is_active :: "nat \<Rightarrow> kernel \<Rightarrow> bool" where
  "tty_is_active i k \<longleftrightarrow> k_active k = Some i"

definition tty_active :: "kernel \<Rightarrow> nat option" where
  "tty_active k = k_active k"

definition tty_get :: "u32 \<Rightarrow> nat option" where
  "tty_get idx = (if idx \<ge> of_nat TTY_COUNT then None else Some (unat idx))"

definition tty_input_available :: "nat \<Rightarrow> kernel \<Rightarrow> bool" where
  "tty_input_available i k \<longleftrightarrow> y_in_head (k_ttys k i) - y_in_tail (k_ttys k i) \<noteq> 0"

subsection \<open>Device operations\<close>

definition drv_of :: "nat option \<Rightarrow> drv" where
  "drv_of p = (case p of None \<Rightarrow> DNull | Some i \<Rightarrow> DTty i)"

text \<open>The markers are the pointers 0 to 3; a null pointer is marker 0.\<close>

definition tty_open :: "nat \<Rightarrow> kernel \<Rightarrow> int \<times> kernel" where
  "tty_open file k =
     (let own = (case sched_current k of
                   Some c \<Rightarrow> (case t_ctty (the_task c k) of Some y \<Rightarrow> Some y | None \<Rightarrow> tty_active k)
                 | None \<Rightarrow> tty_active k);
          k1 = (case f_data (the_file file k) of
                  DMarker n \<Rightarrow>
                    if 1 \<le> n \<and> n \<le> 3 then updfile file (\<lambda>f. f\<lparr>f_data := drv_of own\<rparr>) k
                    else if n = 0 then updfile file (\<lambda>f. f\<lparr>f_data := drv_of (tty_active k)\<rparr>) k
                    else k
                | DNull \<Rightarrow> updfile file (\<lambda>f. f\<lparr>f_data := drv_of (tty_active k)\<rparr>) k
                | _ \<Rightarrow> k)
      in if f_data (the_file file k1) = DNull then (-1, k1) else (0, k1))"

definition tty_close_file :: "nat \<Rightarrow> kernel \<Rightarrow> int \<times> kernel" where
  "tty_close_file file k = (0, k)"

text \<open>The copying loop of \<open>tty_read\<close> and the consumption of what it copied.\<close>

primrec take_loop :: "nat \<Rightarrow> u32 \<Rightarrow> tty \<Rightarrow> char list \<Rightarrow> char list option" where
  "take_loop 0 i y buf = Some buf"
| "take_loop (Suc n) i y buf = do {
     c \<leftarrow> rd (y_in_buf y) (unat ((y_in_tail y + i) AND 255));
     b \<leftarrow> wr buf (unat i) c;
     take_loop n (i + 1) y b }"

definition tty_take :: "char list \<Rightarrow> u32 \<Rightarrow> tty \<Rightarrow> (u32 \<times> char list \<times> tty) option" where
  "tty_take buf count y =
     (let available0 = y_in_head y - y_in_tail y;
          available = (if available0 > count then count else available0)
      in do {
        b \<leftarrow> take_loop (unat available) 0 y buf;
        Some (available, b, y\<lparr>y_in_tail := y_in_tail y + available\<rparr>) })"

text \<open>One character of output: the ring, then the console if the terminal is the active one.\<close>

definition out_put :: "char \<Rightarrow> tty \<Rightarrow> tty option" where
  "out_put c y =
     (let used = y_out_head y - y_out_tail y;
          y1 = (if used \<ge> 4096 then y\<lparr>y_out_tail := y_out_tail y + 1\<rparr> else y)
      in do {
        b \<leftarrow> wr (y_out_buf y1) (unat (y_out_head y1 AND 4095)) c;
        Some (y1\<lparr>y_out_buf := b, y_out_head := y_out_head y1 + 1, y_cursor_pos := y_out_head y1 + 1\<rparr>) })"

primrec tty_write_loop :: "nat \<Rightarrow> nat \<Rightarrow> char list \<Rightarrow> u32 \<Rightarrow> kernel \<Rightarrow> (u32 \<times> kernel) option" where
  "tty_write_loop 0 tty buf written k = Some (written, k)"
| "tty_write_loop (Suc n) tty buf written k = do {
     c \<leftarrow> rd buf (unat written);
     if c = NUL then Some (written, k)
     else do {
       y \<leftarrow> out_put c (k_ttys k tty);
       let k1 = updtty tty (\<lambda>_. y) k;
       k2 \<leftarrow> (if tty_is_active tty k1 \<and> y_console y
              then map_option (\<lambda>con. k1\<lparr>k_con := con\<rparr>) (console_put_char (k_con k1) c)
              else Some k1);
       tty_write_loop n tty buf (written + 1) k2 } }"

text \<open>\<open>driver_data\<close> is used as a terminal whatever it is; only a terminal is one.\<close>

definition tty_write_file :: "nat option \<Rightarrow> char list option \<Rightarrow> u32 \<Rightarrow> kernel \<Rightarrow> (int \<times> kernel) res" where
  "tty_write_file file buf count k =
     (case (file, buf) of
        (Some f, Some b) \<Rightarrow>
          if count = 0 then Inr (-1, k)
          else (case f_data (the_file f k) of
                  DNull \<Rightarrow> Inr (-1, k)
                | DTty i \<Rightarrow> bindR (of_opt (tty_write_loop (unat count) i b 0 k)) (\<lambda>(w, k1). Inr (sint w, k1))
                | _ \<Rightarrow> Inl BadAccess)
      | _ \<Rightarrow> Inr (-1, k))"

subsection \<open>Input\<close>

definition in_put :: "char \<Rightarrow> tty \<Rightarrow> tty option" where
  "in_put c y = do {
     b \<leftarrow> wr (y_in_buf y) (unat (y_in_head y AND 255)) c;
     Some (y\<lparr>y_in_buf := b, y_in_head := y_in_head y + 1\<rparr>) }"

definition tty_input_put :: "nat option \<Rightarrow> char \<Rightarrow> kernel \<Rightarrow> kernel res" where
  "tty_input_put tty c k =
     (case tty of
        None \<Rightarrow> Inr k
      | Some i \<Rightarrow>
          if y_in_head (k_ttys k i) - y_in_tail (k_ttys k i) \<ge> 256 then Inr k
          else bindR (of_opt (in_put c (k_ttys k i))) (\<lambda>y. wakeup_on (TtyQ i) (updtty i (\<lambda>_. y) k)))"

subsection \<open>The screen\<close>

primrec redraw_loop :: "nat \<Rightarrow> u32 \<Rightarrow> tty \<Rightarrow> console \<Rightarrow> console option" where
  "redraw_loop 0 i y con = Some con"
| "redraw_loop (Suc n) i y con = do {
     c \<leftarrow> rd (y_out_buf y) (unat ((y_out_tail y + i) AND 4095));
     con1 \<leftarrow> console_put_char con c;
     redraw_loop n (i + 1) y con1 }"

definition tty_redraw :: "nat \<Rightarrow> kernel \<Rightarrow> kernel option" where
  "tty_redraw i k =
     (let y = k_ttys k i
      in if \<not> y_console y then Some k
         else do {
           con \<leftarrow> console_clear (k_con k);
           con1 \<leftarrow> redraw_loop (unat (y_out_head y - y_out_tail y)) 0 y con;
           Some (k\<lparr>k_con := con1\<rparr>) })"

definition tty_activate :: "u32 \<Rightarrow> kernel \<Rightarrow> kernel res" where
  "tty_activate idx k =
     (if idx \<ge> of_nat TTY_COUNT then Inr k
      else of_opt (tty_redraw (unat idx) (k\<lparr>k_active := Some (unat idx)\<rparr>)))"

subsection \<open>The keyboard handler\<close>

definition fkey_index :: "keyboard_code \<Rightarrow> u32 option" where
  "fkey_index kc =
     map_of [(KEY_F1, 0), (KEY_F2, 1), (KEY_F3, 2), (KEY_F4, 3), (KEY_F5, 4), (KEY_F6, 5), (KEY_F7, 6),
       (KEY_F8, 7), (KEY_F9, 8), (KEY_F10, 9), (KEY_F11, 10), (KEY_F12, 11)] kc"

definition arrow_char :: "keyboard_code \<Rightarrow> char option" where
  "arrow_char kc =
     map_of [(KEY_UP, CHR ''A''), (KEY_DOWN, CHR ''B''), (KEY_RIGHT, CHR ''C''), (KEY_LEFT, CHR ''D'')] kc"

definition tty_keyboard_handler :: "key_event \<Rightarrow> kernel \<Rightarrow> kernel res" where
  "tty_keyboard_handler e k =
     (let active = tty_active k
      in if ev_value e \<noteq> NUL then tty_input_put active (ev_value e) k
         else case (if ev_alt e then fkey_index (ev_code e) else None) of
           Some tty_idx \<Rightarrow> if tty_idx < of_nat TTY_COUNT then tty_activate tty_idx k else Inr k
         | None \<Rightarrow>
             (case arrow_char (ev_code e) of
                None \<Rightarrow> Inr k
              | Some c \<Rightarrow>
                  bindR (tty_input_put active (CHR 0x1B) k) (\<lambda>k1.
                  bindR (tty_input_put active (CHR ''['') k1) (\<lambda>k2.
                  tty_input_put active c k2))))"

text \<open>The keyboard interrupt: the handler of keyboard.c with this one registered.\<close>

definition keyboard_irq :: "u8 \<Rightarrow> kernel \<Rightarrow> kernel res" where
  "keyboard_irq scancode k =
     bindR (of_opt (keyboard_interrupt_handler scancode (k_kbd k))) (\<lambda>(kb, ev).
       let k1 = k\<lparr>k_kbd := kb\<rparr>
       in case ev of None \<Rightarrow> Inr k1 | Some e \<Rightarrow> tty_keyboard_handler e k1)"

subsection \<open>Initialisation\<close>

primrec init_ttys :: "nat \<Rightarrow> kernel \<Rightarrow> kernel" where
  "init_ttys 0 k = k"
| "init_ttys (Suc n) k = init_ttys n (tty_init (TTY_COUNT - Suc n) k)"

primrec register_ttys :: "nat \<Rightarrow> kernel \<Rightarrow> kernel res" where
  "register_ttys 0 k = Inr k"
| "register_ttys (Suc n) k =
     (let i = TTY_COUNT - Suc n
      in bindR (dev_register (Some (c_string (take 7 (''tty'' @ itos (int i))))) (Some tty_dev_ops) (DTty i) k)
           (\<lambda>(r, k1). register_ttys n k1))"

definition tty_system_init :: "kernel \<Rightarrow> kernel res" where
  "tty_system_init k =
     (let k1 = (init_ttys TTY_COUNT k)\<lparr>k_active := Some 0, k_kbd := keyboard_init\<rparr>
      in bindR (register_ttys TTY_COUNT k1) (\<lambda>k2.
         bindR (dev_register (Some (c_string ''tty'')) (Some tty_dev_ops) DNull k2) (\<lambda>(r, k3).
         bindR (dev_register (Some (c_string ''stdin'')) (Some tty_dev_ops) (DMarker 1) k3) (\<lambda>(r, k4).
         bindR (dev_register (Some (c_string ''stdout'')) (Some tty_dev_ops) (DMarker 2) k4) (\<lambda>(r, k5).
         bindR (dev_register (Some (c_string ''stderr'')) (Some tty_dev_ops) (DMarker 3) k5) (\<lambda>(r, k6).
         Inr k6))))))"

subsection \<open>The rings of a terminal\<close>

definition tty_ok :: "tty \<Rightarrow> bool" where
  "tty_ok y \<longleftrightarrow> length (y_in_buf y) = 256 \<and> length (y_out_buf y) = 4096
     \<and> ring_count (y_in_tail y) (y_in_head y) \<le> 256 \<and> ring_count (y_out_tail y) (y_out_head y) \<le> 4096"

text \<open>The unread input and the remembered output, oldest first.\<close>

definition tty_in :: "tty \<Rightarrow> string" where
  "tty_in y = ring_list 256 (y_in_buf y) (y_in_tail y) (y_in_head y)"

definition tty_out :: "tty \<Rightarrow> string" where
  "tty_out y = ring_list 4096 (y_out_buf y) (y_out_tail y) (y_out_head y)"

definition lastn :: "nat \<Rightarrow> 'a list \<Rightarrow> 'a list" where
  "lastn n xs = drop (length xs - n) xs"

lemma lastn_append: "lastn n (lastn n xs @ ys) = lastn n (xs @ ys)"
proof (cases "length xs \<le> n")
  case False
  then have l: "length (lastn n xs) = n" by (simp add: lastn_def)
  have "lastn n (lastn n xs @ ys) = drop (length ys) (lastn n xs @ ys)" using l by (simp add: lastn_def)
  also have "\<dots> = drop (length ys) (drop (length xs - n) (xs @ ys))" by (simp add: lastn_def)
  also have "\<dots> = lastn n (xs @ ys)" using False by (simp add: lastn_def add.commute)
  finally show ?thesis .
qed (simp add: lastn_def)

lemma lastn_short: "length xs \<le> n \<Longrightarrow> lastn n xs = xs"
  by (simp add: lastn_def)

lemma length_lastn_le: "length (lastn n xs) \<le> n"
  by (simp add: lastn_def)

lemma out_put_ok:
  assumes "tty_ok y"
  shows "\<exists>y'. out_put c y = Some y' \<and> tty_ok y' \<and> tty_out y' = lastn 4096 (tty_out y @ [c])
    \<and> tty_in y' = tty_in y \<and> y_console y' = y_console y"
proof -
  define y1 where "y1 = (if y_out_head y - y_out_tail y \<ge> 4096 then y\<lparr>y_out_tail := y_out_tail y + 1\<rparr> else y)"
  let ?h = "y_out_head y" and ?t = "y_out_tail y"
  have full: "?h - ?t \<ge> 4096 \<longleftrightarrow> ring_count ?t ?h \<ge> 4096"
    by (simp add: ring_count_def word_le_nat_alt)
  have le: "ring_count ?t ?h \<le> 4096" using assms by (simp add: tty_ok_def)
  have same: "y_out_head y1 = ?h" "y_out_buf y1 = y_out_buf y" "y_in_buf y1 = y_in_buf y"
    "y_in_head y1 = y_in_head y" "y_in_tail y1 = y_in_tail y" "y_console y1 = y_console y"
    by (simp_all add: y1_def)
  have y1: "ring_count (y_out_tail y1) ?h < 4096 \<and> tty_out y1 = lastn 4095 (tty_out y)"
  proof (cases "?h - ?t \<ge> 4096")
    case True
    then have c: "ring_count ?t ?h = 4096" using full le by simp
    then have ne: "?t \<noteq> ?h" by (auto simp: ring_count_def)
    have "tty_out y1 = tl (tty_out y)"
      using True ring4096.ring_pop [OF ne, of "y_out_buf y"] by (simp add: tty_out_def y1_def)
    moreover have "lastn 4095 (tty_out y) = tl (tty_out y)"
      using c by (simp add: lastn_def tty_out_def drop_Suc)
    ultimately show ?thesis using True c ring_count_head [OF ne] by (simp add: y1_def)
  next
    case False
    then show ?thesis using full by (simp add: y1_def lastn_def tty_out_def)
  qed
  let ?i = "unat (?h AND 4095)"
  have i: "?i < length (y_out_buf y)" using assms ring4096.index_less [of ?h] by (simp add: tty_ok_def)
  let ?y = "y1\<lparr>y_out_buf := (y_out_buf y)[?i := c], y_out_head := ?h + 1, y_cursor_pos := ?h + 1\<rparr>"
  have r: "out_put c y = Some ?y"
    unfolding out_put_def Let_def y1_def [symmetric] using i same by (simp add: wr_in)
  have out: "tty_out ?y = tty_out y1 @ [c]"
    using ring4096.ring_put [of "y_out_tail y1" ?h "y_out_buf y" c] y1 assms same by (simp add: tty_out_def tty_ok_def)
  have "lastn 4096 (tty_out y @ [c]) = lastn 4095 (tty_out y) @ [c]"
    using le by (auto simp: lastn_def tty_out_def)
  moreover have "ring_count (y_out_tail y1) (?h + 1) \<le> 4096"
    using y1 ring4096.ring_count_put by simp
  ultimately show ?thesis using r out y1 assms same by (auto simp: tty_ok_def tty_in_def)
qed

lemma in_put_ok:
  assumes "tty_ok y" "length (tty_in y) < 256"
  shows "\<exists>y'. in_put c y = Some y' \<and> tty_ok y' \<and> tty_in y' = tty_in y @ [c]
    \<and> tty_out y' = tty_out y \<and> y_console y' = y_console y"
proof -
  let ?h = "y_in_head y" and ?t = "y_in_tail y"
  let ?i = "unat (?h AND 255)"
  have c: "ring_count ?t ?h < 256" using assms(2) by (simp add: tty_in_def)
  have i: "?i < length (y_in_buf y)" using assms(1) ring256.index_less [of ?h] by (simp add: tty_ok_def)
  let ?y = "y\<lparr>y_in_buf := (y_in_buf y)[?i := c], y_in_head := ?h + 1\<rparr>"
  have "in_put c y = Some ?y" using i by (simp add: in_put_def wr_in)
  moreover have "tty_in ?y = tty_in y @ [c]"
    using ring256.ring_put [OF c, of "y_in_buf y" c] assms(1) by (simp add: tty_in_def tty_ok_def)
  moreover have "tty_ok ?y" using assms(1) ring256.ring_count_put [OF c] c by (simp add: tty_ok_def)
  ultimately show ?thesis by (simp add: tty_out_def)
qed

lemma take_loop_ok:
  "unat i + n \<le> length buf \<Longrightarrow> length (y_in_buf y) = 256 \<Longrightarrow> unat i + n \<le> ring_count (y_in_tail y) (y_in_head y) \<Longrightarrow>
   take_loop n i y buf = Some (patch buf (unat i) (take n (drop (unat i) (tty_in y))))"
proof (induction n arbitrary: i buf)
  case (Suc n)
  let ?x = "y_in_buf y ! unat ((y_in_tail y + i) AND 255)"
  have "ring_count (y_in_tail y) (y_in_head y) < 4294967296" by (simp add: ring_count_def)
  then have i1: "unat (i + 1) = Suc (unat i)" using Suc.prems(3) by (simp add: unat_plus)
  have lt: "unat i < ring_count (y_in_tail y) (y_in_head y)" using Suc.prems(3) by simp
  have x: "tty_in y ! unat i = ?x" using ring256.ring_nth [OF lt, of "y_in_buf y"] by (simp add: tty_in_def)
  have "unat ((y_in_tail y + i) AND 255) < 256" by (rule ring256.index_less)
  then have "take_loop (Suc n) i y buf = take_loop n (i + 1) y (buf[unat i := ?x])"
    using Suc.prems(1,2) by (simp add: rd_in wr_in)
  also have "\<dots> = Some (patch (buf[unat i := ?x]) (Suc (unat i)) (take n (drop (Suc (unat i)) (tty_in y))))"
    using Suc.IH [of "i + 1" "buf[unat i := ?x]"] Suc.prems i1 by simp
  also have "patch (buf[unat i := ?x]) (Suc (unat i)) (take n (drop (Suc (unat i)) (tty_in y)))
      = patch buf (unat i) (?x # take n (drop (Suc (unat i)) (tty_in y)))"
    using Suc.prems(1) by (simp add: patch_Cons)
  also have "?x # take n (drop (Suc (unat i)) (tty_in y)) = take (Suc n) (drop (unat i) (tty_in y))"
    using lt x by (subst Cons_nth_drop_Suc [symmetric]) (simp_all add: tty_in_def)
  finally show ?case .
qed simp

lemma ring_list_drop:
  "n \<le> ring_count t h \<Longrightarrow> ring_list 256 b (t + of_nat n) h = drop n (ring_list 256 b t h)"
proof (induction n arbitrary: t)
  case (Suc n)
  then have ne: "t \<noteq> h" by (auto simp: ring_count_0 [symmetric])
  have "ring_list 256 b (t + of_nat (Suc n)) h = ring_list 256 b ((t + 1) + of_nat n) h"
    by (simp add: add.assoc add.commute [of 1])
  also have "\<dots> = drop n (ring_list 256 b (t + 1) h)"
    by (rule Suc.IH) (use Suc.prems ring_count_head [OF ne] in simp)
  also have "\<dots> = drop (Suc n) (ring_list 256 b t h)" by (simp add: ring256.ring_pop [OF ne])
  finally show ?case .
qed simp

lemma tty_take_ok:
  assumes "tty_ok y" "unat count \<le> length buf"
  shows "\<exists>y'. tty_take buf count y
      = Some (of_nat (min (unat count) (length (tty_in y))), patch buf 0 (take (unat count) (tty_in y)), y')
    \<and> tty_ok y' \<and> tty_in y' = drop (unat count) (tty_in y) \<and> tty_out y' = tty_out y \<and> y_console y' = y_console y"
proof -
  let ?c = "ring_count (y_in_tail y) (y_in_head y)"
  define n where "n = min (unat count) ?c"
  have av: "(if y_in_head y - y_in_tail y > count then count else y_in_head y - y_in_tail y) = of_nat n"
    by (auto simp: n_def ring_count_def word_less_nat_alt min_def)
  have un: "unat (of_nat n :: u32) = n"
    by (simp add: n_def ring_count_def unat_of_nat min_def mod_less)
  have c: "length (tty_in y) = ?c" by (simp add: tty_in_def)
  have n: "n \<le> ?c" "n \<le> length buf" using assms(2) by (simp_all add: n_def)
  have "take_loop n 0 y buf = Some (patch buf 0 (take n (tty_in y)))"
    using take_loop_ok [of 0 n buf y] n assms(1) by (simp add: tty_ok_def)
  moreover have "take n (tty_in y) = take (unat count) (tty_in y)" using c by (simp add: n_def min_def)
  ultimately have r: "tty_take buf count y
      = Some (of_nat n, patch buf 0 (take (unat count) (tty_in y)), y\<lparr>y_in_tail := y_in_tail y + of_nat n\<rparr>)"
    unfolding tty_take_def Let_def av un by simp
  let ?y = "y\<lparr>y_in_tail := y_in_tail y + of_nat n\<rparr>"
  have i: "tty_in ?y = drop n (tty_in y)" using ring_list_drop [OF n(1), of "y_in_buf y"] by (simp add: tty_in_def)
  also have "\<dots> = drop (unat count) (tty_in y)" using c by (simp add: n_def min_def)
  finally have 1: "tty_in ?y = drop (unat count) (tty_in y)" .
  have "ring_count (y_in_tail ?y) (y_in_head ?y) = length (tty_in ?y)" by (simp add: tty_in_def)
  moreover have "?c \<le> 256" using assms(1) by (simp add: tty_ok_def)
  then have "length (drop n (tty_in y)) \<le> 256" using c by simp
  moreover have "ring_count (y_in_tail ?y) (y_in_head ?y) \<le> 256" using calculation i by simp
  ultimately have "tty_ok ?y" using assms(1) by (simp add: tty_ok_def)
  with r 1 show ?thesis using c by (auto simp: n_def tty_out_def)
qed

text \<open>The input ring of a terminal is a queue of at most 256 characters.\<close>

definition in_rep :: "tty \<Rightarrow> string \<Rightarrow> bool" where
  "in_rep y xs \<longleftrightarrow> tty_ok y \<and> tty_in y = xs"

definition in_can :: "char \<Rightarrow> string \<Rightarrow> bool" where
  "in_can c xs \<longleftrightarrow> length xs < 256"

definition in_push :: "char \<Rightarrow> tty \<Rightarrow> tty res" where
  "in_push c y = of_opt (in_put c y)"

definition in_poll :: "tty \<Rightarrow> (char option \<times> tty) res" where
  "in_poll y = bindR (of_opt (tty_take [NUL] 1 y)) (\<lambda>(n, b, y'). Inr (if n = 0 then None else Some (hd b), y'))"

interpretation ttyq: fifo in_rep in_can in_push in_poll
proof unfold_locales
  fix q xs and x :: char assume "in_rep q xs" "in_can x xs"
  then show "\<exists>q'. in_push x q = Inr q' \<and> in_rep q' (xs @ [x])"
    using in_put_ok [of q x] by (auto simp: in_rep_def in_can_def in_push_def)
next
  fix q assume "in_rep q []"
  then show "\<exists>q'. in_poll q = Inr (None, q') \<and> in_rep q' []"
    using tty_take_ok [of q 1 "[NUL]"] by (auto simp: in_rep_def in_poll_def)
next
  fix q xs and x :: char assume "in_rep q (x # xs)"
  then show "\<exists>q'. in_poll q = Inr (Some x, q') \<and> in_rep q' xs"
    using tty_take_ok [of q 1 "[NUL]"] by (auto simp: in_rep_def in_poll_def patch_def)
qed

subsection \<open>Writing to a terminal\<close>

definition ttys_ok :: "kernel \<Rightarrow> bool" where
  "ttys_ok k \<longleftrightarrow> (\<forall>i < TTY_COUNT. tty_ok (k_ttys k i) \<and> y_console (k_ttys k i))"

lemma updtty_simps [simp]:
  "k_ttys (updtty i f k) = (k_ttys k)(i := f (k_ttys k i))" "k_active (updtty i f k) = k_active k"
  "k_con (updtty i f k) = k_con k"
  by (simp_all add: updtty_def)

lemma console_put_chars_append:
  "console_put_chars (xs @ ys) con = Option.bind (console_put_chars xs con) (console_put_chars ys)"
  by (induction xs arbitrary: con) (auto split: bind_splits)

text \<open>The kernel after writing: a terminal with a longer history and what the console shows of it.\<close>

definition wrote :: "nat \<Rightarrow> string \<Rightarrow> kernel \<Rightarrow> kernel \<Rightarrow> bool" where
  "wrote i tx k k' \<longleftrightarrow> (\<exists>y con. k' = k\<lparr>k_ttys := (k_ttys k)(i := y), k_con := con\<rparr> \<and> tty_ok y
     \<and> y_console y = y_console (k_ttys k i)
     \<and> tty_in y = tty_in (k_ttys k i) \<and> tty_out y = lastn 4096 (tty_out (k_ttys k i) @ tx)
     \<and> (if k_active k = Some i \<and> y_console y then console_put_chars tx (k_con k) else Some (k_con k)) = Some con)"

lemma wrote_step:
  assumes "wrote i [c] k k1" "wrote i cs k1 k2" shows "wrote i (c # cs) k k2"
proof -
  obtain y1 con1 where 1: "k1 = k\<lparr>k_ttys := (k_ttys k)(i := y1), k_con := con1\<rparr>" "tty_in y1 = tty_in (k_ttys k i)"
    "y_console y1 = y_console (k_ttys k i)" "tty_out y1 = lastn 4096 (tty_out (k_ttys k i) @ [c])"
    "(if k_active k = Some i \<and> y_console y1 then console_put_chars [c] (k_con k) else Some (k_con k)) = Some con1"
    using assms(1) by (auto simp: wrote_def)
  obtain y2 con2 where 2: "k2 = k1\<lparr>k_ttys := (k_ttys k1)(i := y2), k_con := con2\<rparr>" "tty_ok y2"
    "y_console y2 = y_console (k_ttys k1 i)"
    "tty_in y2 = tty_in (k_ttys k1 i)" "tty_out y2 = lastn 4096 (tty_out (k_ttys k1 i) @ cs)"
    "(if k_active k1 = Some i \<and> y_console y2 then console_put_chars cs (k_con k1) else Some (k_con k1)) = Some con2"
    using assms(2) by (auto simp: wrote_def)
  have "tty_out y2 = lastn 4096 (tty_out (k_ttys k i) @ c # cs)"
    using 1(1,4) 2(5) lastn_append [of 4096 "tty_out (k_ttys k i) @ [c]" cs] by simp
  moreover have "(if k_active k = Some i \<and> y_console y2 then console_put_chars (c # cs) (k_con k) else Some (k_con k)) = Some con2"
  proof (cases "k_active k = Some i \<and> y_console (k_ttys k i)")
    case True
    then have "console_put_char (k_con k) c = Some con1" using 1(3,5) by (simp split: bind_splits)
    with True show ?thesis using 1(1,3) 2(3,6) by simp
  qed (use 1 2(3,6) in auto)
  moreover have "k2 = k\<lparr>k_ttys := (k_ttys k)(i := y2), k_con := con2\<rparr>" using 1(1) 2(1) by simp
  moreover have "tty_in y2 = tty_in (k_ttys k i)" "y_console y2 = y_console (k_ttys k i)" using 1 2(3,4) by simp_all
  ultimately show ?thesis using 2(2) unfolding wrote_def by (intro exI [of _ y2] exI [of _ con2] conjI)
qed

lemma wrote_refl: "tty_ok (k_ttys k i) \<Longrightarrow> wrote i [] k k"
  by (auto simp: wrote_def tty_out_def tty_ok_def lastn_def intro!: exI [of _ "k_ttys k i"] exI [of _ "k_con k"])

lemma tty_write_loop_ok:
  "unat w + n \<le> length buf \<Longrightarrow> unat w + n < 2 ^ 32 \<Longrightarrow> tty_ok (k_ttys k i) \<Longrightarrow>
   tx = cstr (take n (drop (unat w) buf)) \<Longrightarrow>
   k_active k = Some i \<and> y_console (k_ttys k i) \<longrightarrow> console_put_chars tx (k_con k) \<noteq> None \<Longrightarrow>
   \<exists>k'. tty_write_loop n i buf w k = Some (w + of_nat (length tx), k') \<and> wrote i tx k k'"
proof (induction n arbitrary: w k tx)
  case 0
  then show ?case using wrote_refl by simp
next
  case (Suc n)
  let ?c = "buf ! unat w"
  have lt: "unat w < length buf" using Suc.prems(1) by simp
  have dr: "drop (unat w) buf = ?c # drop (Suc (unat w)) buf" using lt by (rule Cons_nth_drop_Suc [symmetric])
  show ?case
  proof (cases "?c = NUL")
    case True
    then have "tx = []" using Suc.prems(4) dr by simp
    with True lt show ?thesis using wrote_refl [OF Suc.prems(3)] by (simp add: rd_in)
  next
    case False
    have i1: "unat (w + 1) = Suc (unat w)" using Suc.prems(2) by (simp add: unat_plus)
    define cs where "cs = cstr (take n (drop (unat (w + 1)) buf))"
    have tx: "tx = ?c # cs" using Suc.prems(4) dr False i1 by (simp add: cs_def)
    obtain y where y: "out_put ?c (k_ttys k i) = Some y" "tty_ok y" "tty_out y = lastn 4096 (tty_out (k_ttys k i) @ [?c])"
      "tty_in y = tty_in (k_ttys k i)" "y_console y = y_console (k_ttys k i)"
      using out_put_ok [OF Suc.prems(3), of ?c] by blast
    obtain con where con: "(if k_active k = Some i \<and> y_console y then console_put_char (k_con k) ?c else Some (k_con k)) = Some con"
    proof (cases "k_active k = Some i \<and> y_console y")
      case True
      then have "console_put_chars tx (k_con k) \<noteq> None" using Suc.prems(5) y(5) by simp
      then obtain con where "console_put_char (k_con k) ?c = Some con" using tx by (auto split: bind_splits)
      with True that show ?thesis by simp
    qed (use that in auto)
    define k1 where "k1 = k\<lparr>k_ttys := (k_ttys k)(i := y), k_con := con\<rparr>"
    have w1: "wrote i [?c] k k1"
      unfolding wrote_def k1_def by (rule exI [of _ y], rule exI [of _ con]) (use y con in \<open>auto\<close>)
    have step: "tty_write_loop (Suc n) i buf w k = tty_write_loop n i buf (w + 1) k1"
      using lt False y(1) con
      by (auto simp: rd_in tty_is_active_def k1_def updtty_def split: if_splits)
    have "k_active k1 = Some i \<and> y_console (k_ttys k1 i) \<longrightarrow> console_put_chars cs (k_con k1) \<noteq> None"
    proof
      assume a: "k_active k1 = Some i \<and> y_console (k_ttys k1 i)"
      then have "console_put_chars tx (k_con k) \<noteq> None" "console_put_char (k_con k) ?c = Some con"
        using Suc.prems(5) y(5) con by (simp_all add: k1_def)
      then show "console_put_chars cs (k_con k1) \<noteq> None" using tx by (simp add: k1_def)
    qed
    moreover have "unat (w + 1) + n \<le> length buf" "unat (w + 1) + n < 2 ^ 32" using Suc.prems(1,2) i1 by simp_all
    moreover have "tty_ok (k_ttys k1 i)" using y(2) by (simp add: k1_def)
    ultimately obtain k' where "tty_write_loop n i buf (w + 1) k1 = Some (w + 1 + of_nat (length cs), k')" "wrote i cs k1 k'"
      using Suc.IH [of "w + 1" k1 cs] cs_def by blast
    with step wrote_step [OF w1] tx show ?thesis by (simp add: add.commute add.left_commute)
  qed
qed

lemma length_cstr_take: "length (cstr (take n b)) \<le> n"
  using length_cstr_le [of "take n b"] by simp

text \<open>
  C29: writing to a terminal. \<open>tty_write\<close> writes the bytes up to the first NUL and returns their
  number; the terminal then remembers the last 4096 characters of its old history followed by them,
  keeps its input, and, if it is the active one, the console has shown exactly these bytes. Nothing
  else changes. (The console may refuse a byte only for an escape parameter that overflows.)
\<close>

theorem tty_write_history:
  assumes "f_data (the_file f k) = DTty i" "tty_ok (k_ttys k i)" "0 < unat count" "unat count \<le> length buf"
    "unat count < 2 ^ 31" "tx = cstr (take (unat count) buf)"
    "k_active k = Some i \<and> y_console (k_ttys k i) \<longrightarrow> console_put_chars tx (k_con k) \<noteq> None"
  shows "\<exists>k'. tty_write_file (Some f) (Some buf) count k = Inr (int (length tx), k') \<and> wrote i tx k k'"
proof -
  obtain k' where k': "tty_write_loop (unat count) i buf 0 k = Some (of_nat (length tx), k')" "wrote i tx k k'"
    using tty_write_loop_ok [of 0 "unat count" buf k i tx] assms by auto
  have "length tx < 2 ^ 31" using assms(5,6) length_cstr_take [of "unat count" buf] by simp
  then have "sint (of_nat (length tx) :: u32) = int (length tx)"
    by (subst sint_unat) (simp_all add: unat_of_nat)
  moreover have "count \<noteq> 0" using assms(3) by auto
  ultimately show ?thesis using k' assms(1) by (simp add: tty_write_file_def)
qed

lemma blank_tty: "tty_ok zero_tty" "tty_in zero_tty = []" "tty_out zero_tty = []"
  by (simp_all add: zero_tty_def tty_ok_def tty_in_def tty_out_def ring_list_def)

theorem tty_write_history_witness:
  "\<exists>k'. tty_write_file (Some 0) (Some ''hello'') 5 (bss_kernel\<lparr>k_vfs := updf 0 (\<lambda>f. f\<lparr>f_data := DTty 3\<rparr>) (k_vfs bss_kernel)\<rparr>)
     = Inr (5, k') \<and> tty_out (k_ttys k' 3) = ''hello''"
proof -
  let ?k = "bss_kernel\<lparr>k_vfs := updf 0 (\<lambda>f. f\<lparr>f_data := DTty 3\<rparr>) (k_vfs bss_kernel)\<rparr>"
  have k: "k_ttys ?k 3 = zero_tty" "k_active ?k = None" by (simp_all add: bss_kernel_def)
  have "f_data (the_file 0 ?k) = DTty 3" by (simp add: the_file_def updf_def)
  moreover have "''hello'' = cstr (take (unat (5::u32)) ''hello'')" by simp
  ultimately obtain k' where r: "tty_write_file (Some 0) (Some ''hello'') 5 ?k = Inr (int (length ''hello''), k')"
    "wrote 3 ''hello'' ?k k'"
    using tty_write_history [of 0 ?k 3 5 "''hello''" "''hello''"] k blank_tty by auto
  then have "tty_out (k_ttys k' 3) = lastn 4096 (tty_out zero_tty @ ''hello'')"
    using k by (auto simp: wrote_def)
  then show ?thesis using r(1) blank_tty(3) by (simp add: lastn_def)
qed

subsection \<open>Activating a terminal\<close>

lemma redraw_loop_ok:
  "unat i + n = ring_count (y_out_tail y) (y_out_head y) \<Longrightarrow> length (y_out_buf y) = 4096 \<Longrightarrow>
   redraw_loop n i y con = console_put_chars (drop (unat i) (tty_out y)) con"
proof (induction n arbitrary: i con)
  case 0
  then show ?case by (simp add: tty_out_def)
next
  case (Suc n)
  let ?x = "y_out_buf y ! unat ((y_out_tail y + i) AND 4095)"
  have "ring_count (y_out_tail y) (y_out_head y) < 4294967296" by (simp add: ring_count_def)
  then have i1: "unat (i + 1) = Suc (unat i)" using Suc.prems(1) by (simp add: unat_plus)
  have lt: "unat i < ring_count (y_out_tail y) (y_out_head y)" using Suc.prems(1) by simp
  have x: "tty_out y ! unat i = ?x" using ring4096.ring_nth [OF lt, of "y_out_buf y"] by (simp add: tty_out_def)
  have d: "drop (unat i) (tty_out y) = ?x # drop (Suc (unat i)) (tty_out y)"
    using lt x by (subst Cons_nth_drop_Suc [symmetric]) (simp_all add: tty_out_def)
  have "unat ((y_out_tail y + i) AND 4095) < 4096" by (rule ring4096.index_less)
  then have "redraw_loop (Suc n) i y con = Option.bind (console_put_char con ?x) (redraw_loop n (i + 1) y)"
    using Suc.prems(2) by (simp add: rd_in)
  also have "redraw_loop n (i + 1) y = console_put_chars (drop (Suc (unat i)) (tty_out y))"
    using Suc.IH [of "i + 1"] Suc.prems i1 by (simp add: fun_eq_iff)
  finally show ?case by (simp add: d)
qed

text \<open>The repainting as the characters the terminal remembers.\<close>

lemma tty_activate_exact:
  assumes "ttys_ok k" "unat idx < TTY_COUNT"
  shows "tty_activate idx k =
    bindR (of_opt (Option.bind (console_clear (k_con k)) (console_put_chars (tty_out (k_ttys k (unat idx))))))
      (\<lambda>con. Inr (k\<lparr>k_active := Some (unat idx), k_con := con\<rparr>))"
proof -
  have lt: "\<not> idx \<ge> of_nat TTY_COUNT" using assms(2) by (simp add: TTY_COUNT_def word_le_nat_alt)
  let ?y = "k_ttys k (unat idx)" and ?k = "k\<lparr>k_active := Some (unat idx)\<rparr>"
  have y: "tty_ok ?y" "y_console ?y" using assms by (simp_all add: ttys_ok_def)
  have d: "redraw_loop (unat (y_out_head ?y - y_out_tail ?y)) 0 ?y = console_put_chars (tty_out ?y)"
    using redraw_loop_ok [of 0 "unat (y_out_head ?y - y_out_tail ?y)" ?y] y(1) by (simp add: ring_count_def tty_ok_def fun_eq_iff)
  have "tty_redraw (unat idx) ?k = map_option (\<lambda>con. ?k\<lparr>k_con := con\<rparr>)
      (Option.bind (console_clear (k_con k)) (console_put_chars (tty_out ?y)))"
    by (cases "console_clear (k_con k)"; cases "console_put_chars (tty_out ?y) (the (console_clear (k_con k)))")
      (simp_all add: tty_redraw_def Let_def y(2) d)
  then show ?thesis using lt
    by (cases "Option.bind (console_clear (k_con k)) (console_put_chars (tty_out ?y))") (simp_all add: tty_activate_def of_opt_def)
qed

text \<open>
  C30: switching terminals. \<open>tty_activate\<close> makes the terminal the active one and repaints the screen:
  the console is cleared and shows the characters the terminal remembers, the last 4096 written
  to it, in order. An index that names no terminal changes nothing.
\<close>

theorem tty_activate_replays:
  assumes "ttys_ok k" "con_ok (k_con k)" "console_clear (k_con k) = Some con"
    "unat idx < TTY_COUNT \<Longrightarrow> console_put_chars (tty_out (k_ttys k (unat idx))) con = Some con'"
  shows "tty_activate idx k =
    Inr (if unat idx < TTY_COUNT then k\<lparr>k_active := Some (unat idx), k_con := con'\<rparr> else k)"
proof (cases "unat idx < TTY_COUNT")
  case True
  then show ?thesis using assms(3) assms(4) [OF True] by (simp add: tty_activate_exact [OF assms(1)] of_opt_def)
next
  case False
  then have "idx \<ge> of_nat TTY_COUNT" by (simp add: TTY_COUNT_def word_le_nat_alt)
  then show ?thesis using False by (simp add: tty_activate_def)
qed

definition two_ttys :: kernel where
  "two_ttys = two_tasks\<lparr>k_ttys := (\<lambda>_. zero_tty\<lparr>y_console := True\<rparr>), k_active := Some 0\<rparr>"

lemma two_ttys_ok: "ttys_ok two_ttys"
  using blank_tty by (simp add: ttys_ok_def two_ttys_def tty_ok_def)

theorem tty_activate_replays_witness:
  "tty_activate 4 two_ttys =
     Inr (two_ttys\<lparr>k_active := Some 4,
       k_con := blank_console\<lparr>con_video := replicate 2000 (vga_entry (CHR '' '') 7)\<rparr>\<rparr>)"
proof -
  let ?con = "blank_console\<lparr>con_video := replicate 2000 (vga_entry (CHR '' '') 7)\<rparr>"
  have con: "k_con two_ttys = blank_console" by (simp add: two_ttys_def two_tasks_def)
  have "console_clear (k_con two_ttys) = Some ?con"
    unfolding con console_clear_def by (subst vga_clear_ok) (simp_all add: blank_console_def)
  moreover have "tty_out (k_ttys two_ttys i) = []" for i
    by (simp add: two_ttys_def tty_out_def zero_tty_def ring_list_def)
  moreover have "con_ok (k_con two_ttys)" unfolding con by (simp add: con_ok_def blank_console_def)
  ultimately show ?thesis
    using tty_activate_replays [OF two_ttys_ok, of ?con 4 ?con] by (simp add: TTY_COUNT_def)
qed

subsection \<open>Typing\<close>

text \<open>The terminal a key press switches to, and what it sends to the active one otherwise.\<close>

definition switch_of :: "key_event \<Rightarrow> u32 option" where
  "switch_of e = (if ev_value e = NUL \<and> ev_alt e then fkey_index (ev_code e) else None)"

lemma switch_of_tty: "switch_of e = Some j \<Longrightarrow> unat j < TTY_COUNT"
  by (auto simp: switch_of_def fkey_index_def TTY_COUNT_def split: if_splits)

definition key_bytes :: "key_event \<Rightarrow> string" where
  "key_bytes e =
     (if ev_value e \<noteq> NUL then [ev_value e]
      else if ev_alt e \<and> fkey_index (ev_code e) \<noteq> None then []
      else case arrow_char (ev_code e) of Some c \<Rightarrow> [CHR 0x1B, CHR ''['', c] | None \<Rightarrow> [])"

primrec put_all :: "nat \<Rightarrow> string \<Rightarrow> kernel \<Rightarrow> kernel res" where
  "put_all i [] k = Inr k"
| "put_all i (c # cs) k = bindR (tty_input_put (Some i) c k) (put_all i cs)"

text \<open>The state after input: more unread characters, and the readers that waited are runnable.\<close>

definition typed :: "nat \<Rightarrow> string \<Rightarrow> nat list \<Rightarrow> (wq_id \<Rightarrow> nat list) \<Rightarrow> kernel \<Rightarrow> kernel \<Rightarrow> bool" where
  "typed i cs xs qs k k' \<longleftrightarrow>
     (\<exists>wh rq ts y. k' = k\<lparr>k_wh := wh, k_rq := rq, k_tasks := ts, k_ttys := (k_ttys k)(i := y)\<rparr>
        \<and> (\<forall>j. unlink (ts j) = unlink (k_tasks k j))
        \<and> tty_ok y \<and> tty_in y = take 256 (tty_in (k_ttys k i) @ cs) \<and> tty_out y = tty_out (k_ttys k i)
        \<and> y_console y = y_console (k_ttys k i)
        \<and> (if cs = [] \<or> length (tty_in (k_ttys k i)) \<ge> 256 then sched_inv k' xs qs
           else sched_inv k' (xs @ qs (TtyQ i)) (qs(TtyQ i := []))))"

lemma running_not_waiting: "sched_inv k xs qs \<Longrightarrow> running k \<Longrightarrow> k_current k = Some c \<Longrightarrow> c \<notin> waiting qs"
  using sched_invD(6) [of k xs qs] by (auto simp: current_ok_def running_def sleeping_def split: if_splits)

lemma tty_in_le: "tty_ok y \<Longrightarrow> length (tty_in y) \<le> 256"
  by (simp add: tty_ok_def tty_in_def)

lemma typed_refl: "sched_inv k xs qs \<Longrightarrow> tty_ok (k_ttys k i) \<Longrightarrow> length (tty_in (k_ttys k i)) \<ge> 256 \<or> cs = [] \<Longrightarrow> typed i cs xs qs k k"
proof -
  assume a: "sched_inv k xs qs" "tty_ok (k_ttys k i)" "length (tty_in (k_ttys k i)) \<ge> 256 \<or> cs = []"
  have "take 256 (tty_in (k_ttys k i) @ cs) = tty_in (k_ttys k i)" using a(3) tty_in_le [OF a(2)] by auto
  then show ?thesis
    unfolding typed_def using a
    by (intro exI [of _ "k_wh k"] exI [of _ "k_rq k"] exI [of _ "k_tasks k"] exI [of _ "k_ttys k i"]) auto
qed

lemma tty_input_put_ok:
  assumes inv: "sched_inv k xs qs" and r: "running k" and y: "tty_ok (k_ttys k i)"
  shows "\<exists>k'. tty_input_put (Some i) c k = Inr k' \<and> typed i [c] xs qs k k'"
proof (cases "length (tty_in (k_ttys k i)) \<ge> 256")
  case True
  then have "y_in_head (k_ttys k i) - y_in_tail (k_ttys k i) \<ge> 256"
    by (simp add: tty_in_def ring_count_def word_le_nat_alt)
  then show ?thesis using typed_refl [OF inv y] True by (simp add: tty_input_put_def)
next
  case False
  then have lt: "\<not> y_in_head (k_ttys k i) - y_in_tail (k_ttys k i) \<ge> 256"
    by (simp add: tty_in_def ring_count_def word_le_nat_alt)
  obtain y where y': "in_put c (k_ttys k i) = Some y" "tty_ok y" "tty_in y = tty_in (k_ttys k i) @ [c]"
    "tty_out y = tty_out (k_ttys k i)" "y_console y = y_console (k_ttys k i)"
    using in_put_ok [OF y, of c] False by auto
  let ?k = "updtty i (\<lambda>_. y) k"
  have inv1: "sched_inv ?k xs qs" by (rule sched_inv_cong' [OF inv]) (simp_all add: updtty_def)
  have "\<forall>c. k_current ?k = Some c \<longrightarrow> c \<notin> set (qs (TtyQ i))"
    using running_not_waiting [OF inv r] by (auto simp: updtty_def waiting_def)
  then obtain wh rq ts where w: "wakeup_on (TtyQ i) ?k = Inr (?k\<lparr>k_wh := wh, k_rq := rq, k_tasks := ts\<rparr>)"
    "sched_inv (?k\<lparr>k_wh := wh, k_rq := rq, k_tasks := ts\<rparr>) (xs @ qs (TtyQ i)) (qs(TtyQ i := []))"
    "\<And>j. unlink (ts j) = unlink (k_tasks ?k j)"
    using wakeup_on_inv [OF inv1] by blast
  let ?k' = "k\<lparr>k_wh := wh, k_rq := rq, k_tasks := ts, k_ttys := (k_ttys k)(i := y)\<rparr>"
  have k': "?k\<lparr>k_wh := wh, k_rq := rq, k_tasks := ts\<rparr> = ?k'" by (simp add: updtty_def)
  have "tty_input_put (Some i) c k = Inr ?k'"
    using lt y'(1) w(1) k' by (simp add: tty_input_put_def)
  moreover have "typed i [c] xs qs k ?k'"
    unfolding typed_def
    by (rule exI [of _ wh], rule exI [of _ rq], rule exI [of _ ts], rule exI [of _ y])
      (use False y' w(2) [unfolded k'] w(3) in \<open>simp add: updtty_def\<close>)
  ultimately show ?thesis by blast
qed

lemma typed_keeps:
  assumes "typed i cs xs qs k k'"
  shows "tty_ok (k_ttys k' i) \<and> running k' = running k \<and> k_active k' = k_active k \<and> k_con k' = k_con k
    \<and> tty_in (k_ttys k' i) = take 256 (tty_in (k_ttys k i) @ cs)"
proof -
  obtain wh rq ts y where k': "k' = k\<lparr>k_wh := wh, k_rq := rq, k_tasks := ts, k_ttys := (k_ttys k)(i := y)\<rparr>"
    "\<And>j. unlink (ts j) = unlink (k_tasks k j)" "tty_ok y" "tty_in y = take 256 (tty_in (k_ttys k i) @ cs)"
    using assms unfolding typed_def by blast
  then show ?thesis using unlinkD(2) [OF k'(2)] by (simp add: running_def)
qed

lemma typed_trans:
  assumes 1: "typed i [c] xs qs k k1" and 2: "typed i cs xs1 qs1 k1 k2" and old: "tty_ok (k_ttys k i)"
    and xs1: "if length (tty_in (k_ttys k i)) \<ge> 256 then xs1 = xs \<and> qs1 = qs
      else xs1 = xs @ qs (TtyQ i) \<and> qs1 = qs(TtyQ i := [])"
  shows "typed i (c # cs) xs qs k k2"
proof -
  obtain wh1 rq1 ts1 y1 where k1: "k1 = k\<lparr>k_wh := wh1, k_rq := rq1, k_tasks := ts1, k_ttys := (k_ttys k)(i := y1)\<rparr>"
    "\<And>j. unlink (ts1 j) = unlink (k_tasks k j)" "tty_in y1 = take 256 (tty_in (k_ttys k i) @ [c])"
    "tty_out y1 = tty_out (k_ttys k i)" "y_console y1 = y_console (k_ttys k i)"
    using 1 unfolding typed_def by blast
  obtain wh2 rq2 ts2 y2 where k2: "k2 = k1\<lparr>k_wh := wh2, k_rq := rq2, k_tasks := ts2, k_ttys := (k_ttys k1)(i := y2)\<rparr>"
    "\<And>j. unlink (ts2 j) = unlink (k_tasks k1 j)" "tty_ok y2" "tty_in y2 = take 256 (tty_in (k_ttys k1 i) @ cs)"
    "tty_out y2 = tty_out (k_ttys k1 i)" "y_console y2 = y_console (k_ttys k1 i)"
    "if cs = [] \<or> length (tty_in (k_ttys k1 i)) \<ge> 256 then sched_inv k2 xs1 qs1
     else sched_inv k2 (xs1 @ qs1 (TtyQ i)) (qs1(TtyQ i := []))"
    using 2 unfolding typed_def by blast
  have "k2 = k\<lparr>k_wh := wh2, k_rq := rq2, k_tasks := ts2, k_ttys := (k_ttys k)(i := y2)\<rparr>" using k1(1) k2(1) by simp
  moreover have "unlink (ts2 j) = unlink (k_tasks k j)" for j using k1(1,2) k2(2) [of j] by simp
  moreover have "tty_in y2 = take 256 (tty_in (k_ttys k i) @ c # cs)"
    using k1(1,3) k2(4) tty_in_le [OF old] by (cases "length (tty_in (k_ttys k i)) = 256") auto
  moreover have "tty_out y2 = tty_out (k_ttys k i)" "y_console y2 = y_console (k_ttys k i)"
    using k1(1,4,5) k2(5,6) by simp_all
  moreover have "if c # cs = [] \<or> length (tty_in (k_ttys k i)) \<ge> 256 then sched_inv k2 xs qs
      else sched_inv k2 (xs @ qs (TtyQ i)) (qs(TtyQ i := []))"
    using k2(7) xs1 k1(1,3) by (auto split: if_splits)
  ultimately show ?thesis using k2(3) unfolding typed_def by blast
qed

lemma put_all_ok:
  "sched_inv k xs qs \<Longrightarrow> running k \<Longrightarrow> tty_ok (k_ttys k i) \<Longrightarrow>
   \<exists>k'. put_all i cs k = Inr k' \<and> typed i cs xs qs k k'"
proof (induction cs arbitrary: k xs qs)
  case Nil
  then show ?case using typed_refl by simp
next
  case (Cons c cs)
  obtain k1 where k1: "tty_input_put (Some i) c k = Inr k1" "typed i [c] xs qs k k1"
    using tty_input_put_ok [OF Cons.prems] by blast
  obtain xs1 qs1 where x: "sched_inv k1 xs1 qs1"
    "if length (tty_in (k_ttys k i)) \<ge> 256 then xs1 = xs \<and> qs1 = qs else xs1 = xs @ qs (TtyQ i) \<and> qs1 = qs(TtyQ i := [])"
  proof (cases "length (tty_in (k_ttys k i)) \<ge> 256")
    case True
    then have "sched_inv k1 xs qs" using k1(2) by (auto simp: typed_def)
    with True show ?thesis by (intro that [of xs qs]) simp_all
  next
    case False
    then have "sched_inv k1 (xs @ qs (TtyQ i)) (qs(TtyQ i := []))" using k1(2) by (auto simp: typed_def)
    with False show ?thesis by (intro that [of "xs @ qs (TtyQ i)" "qs(TtyQ i := [])"]) simp_all
  qed
  obtain k2 where "put_all i cs k1 = Inr k2" "typed i cs xs1 qs1 k1 k2"
    using Cons.IH [OF x(1)] typed_keeps [OF k1(2)] Cons.prems(2) by auto
  with k1 typed_trans [OF k1(2) _ Cons.prems(3) x(2)] show ?case by auto
qed

lemma handler_puts:
  assumes "switch_of e = None"
  shows "tty_keyboard_handler e k = (case k_active k of None \<Rightarrow> Inr k | Some i \<Rightarrow> put_all i (key_bytes e) k)"
  using assms
  by (auto simp: switch_of_def tty_keyboard_handler_def key_bytes_def tty_active_def tty_input_put_def Let_def bindR_def
      split: option.splits sum.splits if_splits)

lemma handler_switches:
  assumes "switch_of e = Some j" shows "tty_keyboard_handler e k = tty_activate j k"
proof -
  have "j < of_nat TTY_COUNT" using switch_of_tty [OF assms] by (simp add: word_less_nat_alt TTY_COUNT_def)
  then show ?thesis using assms by (auto simp: switch_of_def tty_keyboard_handler_def Let_def split: if_splits)
qed

text \<open>
  C31: what a scan code does. The keyboard interrupt with a scan code that makes no event (a release,
  a prefix, an unknown key) changes the keyboard's flags only. An event that does not switch terminals
  has its bytes (the character, or an escape sequence for an arrow key) appended to the unread input of
  the active terminal; what does not fit in 256 characters is dropped, the tasks that wait for input
  on that terminal become runnable in the order in which they went to sleep, and the scheduler's
  invariant holds again. Alt and a function key makes the terminal of that key the active one and
  shows, on the cleared console, the characters it remembers; if showing them leaves the console's
  parameter array, so does the interrupt.
\<close>

theorem keyboard_irq_delivers:
  assumes "sched_inv k xs qs" "running k" "k_active k = Some i" "i < TTY_COUNT" "ttys_ok k"
    "keyboard_interrupt_handler sc (k_kbd k) = Some (kb, ev)"
  shows "case ev of
      None \<Rightarrow> keyboard_irq sc k = Inr (k\<lparr>k_kbd := kb\<rparr>)
    | Some e \<Rightarrow> (case switch_of e of
        None \<Rightarrow> \<exists>k'. keyboard_irq sc k = Inr k' \<and> typed i (key_bytes e) xs qs (k\<lparr>k_kbd := kb\<rparr>) k'
      | Some j \<Rightarrow> unat j < TTY_COUNT \<and> keyboard_irq sc k =
          bindR (of_opt (Option.bind (console_clear (k_con k)) (console_put_chars (tty_out (k_ttys k (unat j))))))
            (\<lambda>con. Inr (k\<lparr>k_kbd := kb, k_active := Some (unat j), k_con := con\<rparr>)))"
proof (cases ev)
  case (Some e)
  let ?k = "k\<lparr>k_kbd := kb\<rparr>"
  have irq: "keyboard_irq sc k = tty_keyboard_handler e ?k" using assms(6) Some by (simp add: keyboard_irq_def)
  show ?thesis
  proof (cases "switch_of e")
    case None
    have "sched_inv ?k xs qs" "running ?k" using sched_inv_cong' [OF assms(1), of ?k] assms(2) by (simp_all add: running_def)
    moreover have "tty_ok (k_ttys ?k i)" using assms(4,5) by (simp add: ttys_ok_def)
    ultimately show ?thesis using put_all_ok [of ?k xs qs i "key_bytes e"] assms(3) irq Some None by (simp add: handler_puts)
  next
    case sw: (Some j)
    have "ttys_ok ?k" using assms(5) by (simp add: ttys_ok_def)
    then show ?thesis
      using irq Some sw switch_of_tty [OF sw] tty_activate_exact [of ?k j] by (simp add: handler_switches)
  qed
qed (use assms(6) in \<open>simp add: keyboard_irq_def\<close>)

theorem keyboard_irq_delivers_witness:
  "\<exists>k'. keyboard_irq 0x1E two_ttys = Inr k' \<and> typed 0 ''a'' [2] (\<lambda>_. []) two_ttys k'"
proof -
  let ?e = "emit_key (CHR ''a'') KEY_NONE (k_kbd two_ttys)"
  have h: "keyboard_interrupt_handler 0x1E (k_kbd two_ttys) = Some (k_kbd two_ttys, Some ?e)"
    by (simp add: keyboard_interrupt_handler_def plain_key_def fkeys_def Let_def two_ttys_def two_tasks_def bss_kernel_def
      SCANCODE_LOWER_def rd_def)
  have "sched_inv two_ttys [2] (\<lambda>_. [])" by (rule sched_inv_cong' [OF two_tasks_inv]) (simp_all add: two_ttys_def)
  moreover have "running two_ttys" by (simp add: running_def two_ttys_def two_tasks_def)
  moreover have "k_active two_ttys = Some 0" by (simp add: two_ttys_def)
  moreover have "key_bytes ?e = ''a''" "switch_of ?e = None" by (simp_all add: key_bytes_def emit_key_def switch_of_def)
  ultimately show ?thesis
    using keyboard_irq_delivers [of two_ttys "[2]" "\<lambda>_. []" 0 "0x1E", OF _ _ _ _ two_ttys_ok h] by (simp add: TTY_COUNT_def)
qed

text \<open>
  Input is read in the order typed. For any sequence of characters put into the input ring of a
  terminal and reads of one character, in which nothing is put while 256 characters are unread, no
  access leaves the ring, and the characters read followed by those still unread are those unread at
  the start followed by those put.
\<close>

theorem tty_input_fifo:
  assumes "tty_ok y" "can_run in_can ops (tty_in y)"
  shows "\<exists>got y'. run_ops in_push in_poll ops y = Inr (got, y') \<and> tty_ok y'
    \<and> tty_in y @ pushed ops = got @ tty_in y'"
  using ttyq.fifo_law [of y "tty_in y" ops] assms by (auto simp: in_rep_def)

theorem tty_input_fifo_witness:
  "\<exists>got y'. run_ops in_push in_poll [Push (CHR ''l''), Push (CHR ''s''), Poll] zero_tty = Inr (got, y')
    \<and> ''ls'' = got @ tty_in y'"
  using tty_input_fifo [OF blank_tty(1), of "[Push (CHR ''l''), Push (CHR ''s''), Poll]"]
  by (simp add: blank_tty in_can_def) blast

end
