(* ===== verification/Fs.thy ===== *)
theory Fs
  imports Tty
begin

section \<open>fs/root_fs.c, sys_fs.c, dev_fs.c, bin_fs.c: the small file systems\<close>

text \<open>
  The \<open>open\<close> of each file system, which installs the operations of an open file, and the
  operations it installs. A caller's buffer of directory entries is a list of entries, \<open>None\<close> for a
  null pointer; \<open>count\<close> is its size in bytes as the caller gives it. A \<open>struct stat\<close> is a record.
  \<open>add_all\<close> is a run of \<open>fs_add_entry\<close> calls.
\<close>

primrec add_all :: "(u32 \<times> u8 \<times> char list) list \<Rightarrow> dirent list \<Rightarrow> u32 \<Rightarrow> u32 \<Rightarrow> (dirent list \<times> u32) option" where
  "add_all [] buf max_entries idx = Some (buf, idx)"
| "add_all (e # es) buf max_entries idx = do {
     (buf1, idx1) \<leftarrow> fs_add_entry buf max_entries idx (fst e) (fst (snd e)) (Some (snd (snd e)));
     add_all es buf1 max_entries idx1 }"

definition dots :: "u32 \<Rightarrow> (u32 \<times> u8 \<times> char list) list" where
  "dots parent = [(1, DT_DIR, c_string ''.''), (parent, DT_DIR, c_string ''..'')]"

type_synonym dents_result = "int \<times> dirent list option \<times> kernel"

text \<open>The shape all \<open>getdents\<close> share: the guards, the entries, the size of what was written.\<close>

definition whole_dir ::
    "(dirent list \<Rightarrow> u32 \<Rightarrow> (dirent list \<times> u32) res) \<Rightarrow> nat \<Rightarrow> dirent list option \<Rightarrow> u32 \<Rightarrow> kernel \<Rightarrow> dents_result res" where
  "whole_dir fill file buf count k =
     (case buf of
        None \<Rightarrow> Inr (0, buf, k)
      | Some b \<Rightarrow>
          if count < SIZEOF_DIRENT then Inr (0, buf, k)
          else if f_pos (the_file file k) > 0 then Inr (0, buf, k)
          else bindR (fill b (count div SIZEOF_DIRENT)) (\<lambda>(b1, idx).
            let n = sint (idx * SIZEOF_DIRENT)
            in Inr (n, Some b1, updfile file (\<lambda>f. f\<lparr>f_pos := f_pos f + word_of_int n\<rparr>) k)))"

subsection \<open>root_fs.c\<close>

definition root_getdents_file :: "nat \<Rightarrow> dirent list option \<Rightarrow> u32 \<Rightarrow> kernel \<Rightarrow> dents_result res" where
  "root_getdents_file file buf count k =
     whole_dir (\<lambda>b max_entries. of_opt (do {
         (b1, idx) \<leftarrow> add_all (dots 1) b max_entries 0;
         vfs_get_root_mounts (k_vfs k) b1 max_entries idx })) file buf count k"

definition root_open :: "nat \<Rightarrow> kernel \<Rightarrow> (int \<times> kernel) res" where
  "root_open file k = Inr (0, updfile file (\<lambda>f. f\<lparr>f_getdents := Some root_getdents\<rparr>) k)"

subsection \<open>sys_fs.c\<close>

definition sys_getdents_file :: "nat \<Rightarrow> dirent list option \<Rightarrow> u32 \<Rightarrow> kernel \<Rightarrow> dents_result res" where
  "sys_getdents_file file buf count k =
     whole_dir (\<lambda>b max_entries. of_opt (add_all (dots 2) b max_entries 0)) file buf count k"

text \<open>\<open>path[4] == '\0' || (path[4] == '/' && path[5] == '\0')\<close>\<close>

definition ends_at_4 :: "char list \<Rightarrow> bool option" where
  "ends_at_4 path = do {
     c \<leftarrow> rd path 4;
     if c = NUL then Some True
     else if c = SL then map_option (\<lambda>d. d = NUL) (rd path 5) else Some False }"

definition sys_open :: "nat \<Rightarrow> kernel \<Rightarrow> (int \<times> kernel) res" where
  "sys_open file k =
     (let path = f_pathname (the_file file k)
      in bindR (of_opt (k_strncmp path (c_string ''/sys'') 4)) (\<lambda>c.
         if c \<noteq> 0 then Inr (-1, k)
         else bindR (of_opt (ends_at_4 path)) (\<lambda>dir.
           if dir then Inr (0, updfile file (\<lambda>f. f\<lparr>f_getdents := Some sys_getdents\<rparr>) k)
           else Inr (-1, k))))"

subsection \<open>dev_fs.c\<close>

primrec dev_entries_loop :: "dev list \<Rightarrow> nat \<Rightarrow> dirent list \<Rightarrow> u32 \<Rightarrow> u32 \<Rightarrow> (dirent list \<times> u32) option" where
  "dev_entries_loop [] i buf max_entries idx = Some (buf, idx)"
| "dev_entries_loop (d # ds) i buf max_entries idx =
     (if idx \<ge> max_entries then Some (buf, idx)
      else if dv_active d then do {
        (buf1, idx1) \<leftarrow> fs_add_entry buf max_entries idx (of_nat (100 + i)) DT_CHR (Some (dv_name d));
        dev_entries_loop ds (Suc i) buf1 max_entries idx1 }
      else dev_entries_loop ds (Suc i) buf max_entries idx)"

definition dev_getdents_file :: "nat \<Rightarrow> dirent list option \<Rightarrow> u32 \<Rightarrow> kernel \<Rightarrow> dents_result res" where
  "dev_getdents_file file buf count k =
     whole_dir (\<lambda>b max_entries. of_opt (do {
         (b1, idx) \<leftarrow> add_all (dots 2) b max_entries 0;
         dev_entries_loop (k_devs k) 0 b1 max_entries idx })) file buf count k"

text \<open>Every device's operations are those of tty.c: \<open>dev->ops->open\<close> is \<open>tty_open\<close>.\<close>

definition dev_open :: "nat \<Rightarrow> kernel \<Rightarrow> (int \<times> kernel) res" where
  "dev_open file k =
     (let path = f_pathname (the_file file k)
      in bindR (of_opt (k_strncmp path (c_string ''/dev'') 4)) (\<lambda>c.
         if c \<noteq> 0 then Inr (-1, k)
         else
           let k1 = updfile file (\<lambda>f. f\<lparr>f_getdents := Some dev_getdents\<rparr>) k
           in bindR (of_opt (ends_at_4 path)) (\<lambda>dir.
              if dir then Inr (0, k1)
              else bindR (of_opt (rd path 4)) (\<lambda>c4.
                if c4 \<noteq> SL then Inr (-1, k1)
                else
                  let dev_name = drop 5 path
                  in bindR (of_opt (rd dev_name 0)) (\<lambda>n0.
                     if n0 = NUL then Inr (-1, k1)
                     else bindR (of_opt (dev_lookup (Some dev_name) k1)) (\<lambda>found.
                       case found of
                         None \<Rightarrow> bindR (kprint (''dev_open dev not found '' @ cstr dev_name @ [CHR 0x0A]) k1) (\<lambda>k2. Inr (-1, k2))
                       | Some d \<Rightarrow>
                           let k2 = updfile file (\<lambda>f. f\<lparr>f_data := dv_data d, f_write := Some tty_write,
                                      f_read := Some tty_read, f_close := Some tty_close\<rparr>) k1
                           in bindR (deref (dv_ops d)) (\<lambda>_. Inr (tty_open file k2))))))))"

subsection \<open>bin_fs.c\<close>

definition bin_lookup :: "bins \<Rightarrow> char list \<Rightarrow> nat option option" where
  "bin_lookup bins path = do {
     c \<leftarrow> rd path 0;
     if c = NUL then Some None else find_bin bins path }"

definition base_name :: "char list \<Rightarrow> char list option" where
  "base_name name = do {
     p \<leftarrow> k_strrchr name SL;
     (case p of
        None \<Rightarrow> Some name
      | Some q \<Rightarrow> do { c \<leftarrow> rd q 1; Some (if c \<noteq> NUL then drop 1 q else name) }) }"

definition fill_dirent_from_bin :: "dirent \<Rightarrow> embedded_bin \<Rightarrow> u32 \<Rightarrow> dirent option" where
  "fill_dirent_from_bin de bin ino = do {
     base \<leftarrow> base_name (bin_name bin);
     set_name (de\<lparr>d_ino := ino, d_reclen := ucast SIZEOF_DIRENT, d_type := DT_REG\<rparr>) base }"

text \<open>The buffer from entry \<open>off\<close> on is what the C code passes as \<open>&buf[idx]\<close>.\<close>

primrec fill_bins_loop :: "bins \<Rightarrow> nat \<Rightarrow> nat \<Rightarrow> u32 \<Rightarrow> u32 \<Rightarrow> dirent list \<Rightarrow> (dirent list \<times> u32) option" where
  "fill_bins_loop [] i off max_entries idx buf = Some (buf, idx)"
| "fill_bins_loop (b # bs) i off max_entries idx buf =
     (if idx < max_entries then do {
        de \<leftarrow> rd buf (off + unat idx);
        de1 \<leftarrow> fill_dirent_from_bin de b (of_nat (i + 1));
        buf1 \<leftarrow> wr buf (off + unat idx) de1;
        fill_bins_loop bs (Suc i) off max_entries (idx + 1) buf1 }
      else Some (buf, idx))"

definition elf_fill_bin_dirents :: "bins \<Rightarrow> dirent list \<Rightarrow> nat \<Rightarrow> u32 \<Rightarrow> (dirent list \<times> int) option" where
  "elf_fill_bin_dirents bins buf off max_entries =
     (if max_entries = 0 then Some (buf, 0)
      else do { (b, idx) \<leftarrow> fill_bins_loop bins 0 off max_entries 0 buf; Some (b, sint idx) })"

definition bin_getdents_file :: "bins \<Rightarrow> nat \<Rightarrow> dirent list option \<Rightarrow> u32 \<Rightarrow> kernel \<Rightarrow> dents_result res" where
  "bin_getdents_file bins file buf count k =
     whole_dir (\<lambda>b max_entries. of_opt (do {
         (b1, idx) \<leftarrow> add_all (dots 1) b max_entries 0;
         if idx < max_entries then do {
           (b2, written) \<leftarrow> elf_fill_bin_dirents bins b1 (unat idx) (max_entries - idx);
           Some (b2, if written > 0 then idx + word_of_int written else idx) }
         else Some (b1, idx) })) file buf count k"

text \<open>The image a file's \<open>driver_data\<close> points to: null for the directory.\<close>

definition bin_data :: "bins \<Rightarrow> drv \<Rightarrow> embedded_bin option res" where
  "bin_data bins d =
     (case d of DNull \<Rightarrow> Inr None | DBin i \<Rightarrow> bindR (of_opt (rd bins i)) (\<lambda>b. Inr (Some b)) | _ \<Rightarrow> Inl BadAccess)"

definition bin_read_file :: "bins \<Rightarrow> nat \<Rightarrow> char list option \<Rightarrow> u32 \<Rightarrow> kernel \<Rightarrow> (int \<times> char list option \<times> kernel) res" where
  "bin_read_file bins file buf count k =
     (case buf of
        None \<Rightarrow> Inr (-1, buf, k)
      | Some b \<Rightarrow> bindR (bin_data bins (f_data (the_file file k))) (\<lambda>bin.
          case bin of
            None \<Rightarrow> Inr (-1, buf, k)
          | Some e \<Rightarrow>
              let sz = of_nat (length (bin_bytes e)) :: u32;
                  pos = f_pos (the_file file k)
              in if pos \<ge> ucast sz then Inr (0, buf, k)
                 else
                   let remaining = ucast (ucast sz - pos) :: u32;
                       to_read = (if count < remaining then count else remaining)
                   in bindR (of_opt (k_memcpy b 0 (bin_bytes e) (unat pos) (unat to_read))) (\<lambda>b1.
                        Inr (sint to_read, Some b1,
                             updfile file (\<lambda>f. f\<lparr>f_pos := f_pos f + ucast to_read\<rparr>) k))))"

record stat =
  st_dev :: u32
  st_ino :: u32
  st_mode :: u32
  st_nlink :: u32
  st_uid :: u32
  st_gid :: u32
  st_rdev :: u32
  st_size :: int
  st_blksize :: int
  st_blocks :: int
  st_atim :: "int \<times> int"
  st_mtim :: "int \<times> int"
  st_ctim :: "int \<times> int"

definition zero_stat :: stat where
  "zero_stat = \<lparr> st_dev = 0, st_ino = 0, st_mode = 0, st_nlink = 0, st_uid = 0, st_gid = 0, st_rdev = 0,
     st_size = 0, st_blksize = 0, st_blocks = 0, st_atim = (0, 0), st_mtim = (0, 0), st_ctim = (0, 0) \<rparr>"

definition S_IFREG :: u32 where "S_IFREG = 0x8000"
definition S_IFDIR :: u32 where "S_IFDIR = 0x4000"

definition bin_fstat_file :: "bins \<Rightarrow> nat \<Rightarrow> stat \<Rightarrow> kernel \<Rightarrow> (int \<times> stat) res" where
  "bin_fstat_file bins file st k =
     bindR (bin_data bins (f_data (the_file file k))) (\<lambda>bin.
       case bin of
         None \<Rightarrow> Inr (0, st\<lparr>st_mode := S_IFDIR OR 0x16D, st_nlink := 1, st_size := 0\<rparr>)
       | Some e \<Rightarrow> Inr (0, st\<lparr>st_mode := S_IFREG OR 0x16D, st_nlink := 1,
                              st_size := sint (of_nat (length (bin_bytes e)) :: u32)\<rparr>))"

definition bin_open :: "bins \<Rightarrow> nat \<Rightarrow> kernel \<Rightarrow> (int \<times> kernel) res" where
  "bin_open bins file k =
     (let k1 = updfile file (\<lambda>f. f\<lparr>f_read := Some bin_read, f_getdents := Some bin_getdents, f_fstat := Some bin_fstat\<rparr>) k;
          path = f_pathname (the_file file k1)
      in bindR (of_opt (k_strcmp path (c_string ''/bin''))) (\<lambda>c1.
         bindR (if c1 = 0 then Inr True else bindR (of_opt (k_strcmp path (c_string ''/bin/''))) (\<lambda>c2. Inr (c2 = 0))) (\<lambda>dir.
         if dir then Inr (0, k1)
         else bindR (of_opt (bin_lookup bins path)) (\<lambda>bin.
           case bin of
             None \<Rightarrow> Inr (-1, k1)
           | Some b \<Rightarrow> Inr (0, updfile file (\<lambda>f. f\<lparr>f_data := DBin b\<rparr>) k1)))))"

end
