(* ===== verification/ProcFs.thy ===== *)
theory ProcFs
  imports Fs
begin

section \<open>fs/proc_fs.c: tasks as files\<close>

text \<open>
  \<open>/proc\<close>, \<open>/proc/stat\<close> and \<open>/proc/<pid>/\<close> with its files: which paths open, what a directory lists
  and what a file reads as. A path is the 64-byte \<open>pathname\<close> of an open file. The caller's buffer is
  the object it points to; \<open>count\<close> is what the caller says its size is. The local buffers of the
  formatting functions have their C sizes, so that a text that does not fit is a bad access.
\<close>

subsection \<open>Paths\<close>

fun pid_digits :: "int \<Rightarrow> char list \<Rightarrow> (int \<times> char list) option" where
  "pid_digits pid [] = None"
| "pid_digits pid (c # p) =
     (if is_digit c then do {
        m \<leftarrow> chk_int (pid * 10);
        a \<leftarrow> chk_int (m + (int (code c) - 48));
        pid_digits a p }
      else Some (pid, c # p))"

definition proc_path_to_pid :: "char list \<Rightarrow> int option" where
  "proc_path_to_pid path = do {
     c0 \<leftarrow> rd path 0;
     if c0 \<noteq> SL then Some PID_NONE
     else do {
       c \<leftarrow> k_strncmp path (c_string ''/proc/'') 6;
       if c \<noteq> 0 then Some PID_NONE
       else do {
         d \<leftarrow> rd path 6;
         if \<not> is_digit d then Some PID_NONE
         else do {
           (pid, p) \<leftarrow> pid_digits 0 (drop 6 path);
           e \<leftarrow> rd p 0;
           Some (if e \<noteq> NUL \<and> e \<noteq> SL then PID_NONE else pid) } } } }"

definition proc_is_root :: "char list \<Rightarrow> bool option" where
  "proc_is_root path = do {
     a \<leftarrow> k_strcmp path (c_string ''/proc'');
     if a = 0 then Some True
     else do { b \<leftarrow> k_strcmp path (c_string ''/proc/''); Some (b = 0) } }"

text \<open>\<open>while (*p >= '0' && *p <= '9') p++\<close>\<close>

fun skip_digits :: "char list \<Rightarrow> char list option" where
  "skip_digits [] = None"
| "skip_digits (c # p) = (if is_digit c then skip_digits p else Some (c # p))"

definition proc_is_pid_dir :: "char list \<Rightarrow> int option option" where
  "proc_is_pid_dir path = do {
     pid \<leftarrow> proc_path_to_pid path;
     if pid = PID_NONE then Some None
     else do {
       p \<leftarrow> skip_digits (drop 6 path);
       c \<leftarrow> rd p 0;
       if c = NUL then Some (Some pid)
       else if c = SL then do { d \<leftarrow> rd p 1; Some (if d = NUL then Some pid else None) }
       else Some None } }"

definition is_fd_leaf :: "char list \<Rightarrow> bool option" where
  "is_fd_leaf p = do {
     a \<leftarrow> k_strcmp p (c_string ''fd'');
     if a = 0 then Some True
     else do { b \<leftarrow> k_strcmp p (c_string ''fd/''); Some (b = 0) } }"

definition proc_is_fd_dir :: "char list \<Rightarrow> int option option" where
  "proc_is_fd_dir path = do {
     pid \<leftarrow> proc_path_to_pid path;
     if pid = PID_NONE then Some None
     else do {
       p \<leftarrow> skip_digits (drop 6 path);
       c \<leftarrow> rd p 0;
       if c \<noteq> SL then Some None
       else do { b \<leftarrow> is_fd_leaf (drop 1 p); Some (if b then Some pid else None) } } }"

definition proc_extract_fd_num :: "char list \<Rightarrow> int option" where
  "proc_extract_fd_num path = do {
     fd \<leftarrow> k_strstr (Some path) (Some (c_string ''/fd/''));
     (case fd of Some p \<Rightarrow> k_atoi (Some (drop 4 p)) | None \<Rightarrow> Some (-1)) }"

subsection \<open>Directories\<close>

definition fill_dirent_from_task :: "dirent \<Rightarrow> task \<Rightarrow> dirent option" where
  "fill_dirent_from_task de t = do {
     namebuf \<leftarrow> k_itoa (t_pid t) (replicate MAX_FILENAME_LEN NUL);
     set_name (de\<lparr>d_ino := word_of_int (t_pid t), d_reclen := ucast SIZEOF_DIRENT, d_type := DT_DIR\<rparr>) namebuf }"

text \<open>No check of \<open>idx\<close> against \<open>max_entries\<close>.\<close>

primrec fill_proc_loop :: "nat \<Rightarrow> tasks \<Rightarrow> nat \<Rightarrow> u32 \<Rightarrow> dirent list \<Rightarrow> (dirent list \<times> u32) option" where
  "fill_proc_loop 0 ts off idx buf = Some (buf, idx)"
| "fill_proc_loop (Suc n) ts off idx buf =
     (let t = ts (MAX_PROCESS_CNT - Suc n)
      in if t_state t \<noteq> TASK_POOLED then do {
           de \<leftarrow> rd buf (off + unat idx);
           de1 \<leftarrow> fill_dirent_from_task de t;
           buf1 \<leftarrow> wr buf (off + unat idx) de1;
           fill_proc_loop n ts off (idx + 1) buf1 }
         else fill_proc_loop n ts off idx buf)"

definition sched_fill_proc_dirents :: "tasks \<Rightarrow> dirent list \<Rightarrow> nat \<Rightarrow> u32 \<Rightarrow> (dirent list \<times> int) option" where
  "sched_fill_proc_dirents ts buf off max_entries =
     (if max_entries = 0 then Some (buf, 0)
      else do { (b, idx) \<leftarrow> fill_proc_loop MAX_PROCESS_CNT ts off 0 buf; Some (b, sint idx) })"

primrec fd_entries_loop :: "nat \<Rightarrow> nat option list \<Rightarrow> dirent list \<Rightarrow> u32 \<Rightarrow> u32 \<Rightarrow> (dirent list \<times> u32) option" where
  "fd_entries_loop 0 fs buf max_entries idx = Some (buf, idx)"
| "fd_entries_loop (Suc n) fs buf max_entries idx =
     (if idx < max_entries then
        let i = RLIMIT_NOFILE - Suc n
        in do {
          f \<leftarrow> rd fs i;
          (case f of
             Some _ \<Rightarrow> do {
               fd_name \<leftarrow> k_itoa (int i) (replicate 16 NUL);
               (buf1, idx1) \<leftarrow> fs_add_entry buf max_entries idx (of_nat (i + 10)) DT_LNK (Some fd_name);
               fd_entries_loop n fs buf1 max_entries idx1 }
           | None \<Rightarrow> fd_entries_loop n fs buf max_entries idx) }
      else Some (buf, idx))"

definition pid_dir_entries :: "(u32 \<times> u8 \<times> char list) list" where
  "pid_dir_entries = dots 1 @
     [(1, DT_REG, c_string ''cmdline''), (1, DT_REG, c_string ''comm''), (1, DT_REG, c_string ''cwd''),
      (1, DT_REG, c_string ''exe''), (1, DT_DIR, c_string ''fd''), (1, DT_REG, c_string ''stat''),
      (1, DT_REG, c_string ''status'')]"

definition list_root :: "tasks \<Rightarrow> dirent list \<Rightarrow> u32 \<Rightarrow> (dirent list \<times> u32) option" where
  "list_root ts b max_entries = do {
     (b1, idx) \<leftarrow> add_all (dots 1 @ [(1, DT_REG, c_string ''stat'')]) b max_entries 0;
     if idx < max_entries then do {
       (b2, written) \<leftarrow> sched_fill_proc_dirents ts b1 (unat idx) (max_entries - idx);
       Some (b2, if written > 0 then idx + word_of_int written else idx) }
     else Some (b1, idx) }"

definition list_fds :: "task \<Rightarrow> dirent list \<Rightarrow> u32 \<Rightarrow> (dirent list \<times> u32) option" where
  "list_fds t b max_entries = do {
     (b1, idx) \<leftarrow> add_all (dots 1) b max_entries 0;
     fd_entries_loop RLIMIT_NOFILE (t_files t) b1 max_entries idx }"

text \<open>
  The three kinds of directory in turn. The first result is the early return (a missing task, or no
  directory), the second the listing.
\<close>

definition proc_dir :: "tasks \<Rightarrow> char list \<Rightarrow> (int + (dirent list \<Rightarrow> u32 \<Rightarrow> (dirent list \<times> u32) option)) option" where
  "proc_dir ts path = do {
     r \<leftarrow> proc_is_root path;
     if r then Some (Inr (list_root ts))
     else do {
       f \<leftarrow> proc_is_fd_dir path;
       (case f of
          Some pid \<Rightarrow> (case task_table_find_task_by_pid ts pid of
              None \<Rightarrow> Some (Inl (-1)) | Some t \<Rightarrow> Some (Inr (list_fds (ts t))))
        | None \<Rightarrow> do {
            p \<leftarrow> proc_is_pid_dir path;
            (case p of
               Some pid \<Rightarrow> (case task_table_find_task_by_pid ts pid of
                   None \<Rightarrow> Some (Inl (-1)) | Some _ \<Rightarrow> Some (Inr (\<lambda>b m. add_all pid_dir_entries b m 0)))
             | None \<Rightarrow> Some (Inl (- ENOTDIR))) }) } }"

definition proc_getdents_file :: "nat \<Rightarrow> dirent list option \<Rightarrow> u32 \<Rightarrow> kernel \<Rightarrow> dents_result res" where
  "proc_getdents_file file buf count k =
     (if buf = None \<or> count < SIZEOF_DIRENT \<or> f_pos (the_file file k) > 0 then Inr (0, buf, k)
      else bindR (of_opt (proc_dir (k_tasks k) (f_pathname (the_file file k)))) (\<lambda>d.
        case d of
          Inl e \<Rightarrow> Inr (e, buf, k)
        | Inr fill \<Rightarrow> whole_dir (\<lambda>b m. of_opt (fill b m)) file buf count k))"

subsection \<open>Opening\<close>

definition plain_leaves :: "string list" where
  "plain_leaves = [''comm'', ''cmdline'', ''stat'', ''status'', ''cwd'', ''exe'']"

primrec equals_one :: "char list \<Rightarrow> string list \<Rightarrow> bool option" where
  "equals_one leaf [] = Some False"
| "equals_one leaf (x # xs) = do {
     c \<leftarrow> k_strcmp leaf (c_string x);
     if c = 0 then Some True else equals_one leaf xs }"

text \<open>The second result: the position is set to 0 (an open descriptor link).\<close>

definition open_leaf :: "char list \<Rightarrow> char list \<Rightarrow> task \<Rightarrow> (int \<times> bool) option" where
  "open_leaf path leaf t = do {
     plain \<leftarrow> equals_one leaf plain_leaves;
     if plain then Some (0, False)
     else do {
       fdd \<leftarrow> is_fd_leaf leaf;
       if fdd then Some (0, False)
       else do {
         c \<leftarrow> k_strncmp leaf (c_string ''fd/'') 3;
         if c = 0 then do {
           fd \<leftarrow> proc_extract_fd_num path;
           if fd \<ge> 0 \<and> fd < int RLIMIT_NOFILE then do {
             f \<leftarrow> rd (t_files t) (nat fd);
             Some (if f \<noteq> None then (0, True) else (-1, False)) }
           else Some (-1, False) }
         else Some (-1, False) } } }"

definition proc_open_path :: "tasks \<Rightarrow> char list \<Rightarrow> (int \<times> bool) option" where
  "proc_open_path ts path = do {
     r \<leftarrow> proc_is_root path;
     if r then Some (0, False)
     else do {
       s \<leftarrow> k_strcmp path (c_string ''/proc/stat'');
       if s = 0 then Some (0, False)
       else do {
         pid \<leftarrow> proc_path_to_pid path;
         if pid = PID_NONE then Some (-1, False)
         else case task_table_find_task_by_pid ts pid of
           None \<Rightarrow> Some (-1, False)
         | Some t \<Rightarrow> do {
             p \<leftarrow> skip_digits (drop 6 path);
             c \<leftarrow> rd p 0;
             if c = NUL then Some (0, False)
             else if c = SL then do {
               d \<leftarrow> rd p 1;
               if d = NUL then Some (0, False) else open_leaf path (drop 1 p) (ts t) }
             else Some (-1, False) } } } }"

definition proc_open :: "nat \<Rightarrow> kernel \<Rightarrow> (int \<times> kernel) res" where
  "proc_open file k =
     (let k1 = updfile file (\<lambda>f. f\<lparr>f_read := Some proc_read, f_getdents := Some proc_getdents\<rparr>) k
      in bindR (of_opt (proc_open_path (k_tasks k1) (f_pathname (the_file file k1)))) (\<lambda>(r, reset).
           Inr (r, if reset then updfile file (\<lambda>f. f\<lparr>f_pos := 0\<rparr>) k1 else k1)))"

subsection \<open>Reading\<close>

definition task_state_to_char :: "sched_state \<Rightarrow> char" where
  "task_state_to_char st = (case st of
     TASK_RUNNING \<Rightarrow> CHR ''R'' | TASK_QUEUED \<Rightarrow> CHR ''R'' | TASK_INTERRUPTIBLE \<Rightarrow> CHR ''S''
   | TASK_UNINTERRUPTIBLE \<Rightarrow> CHR ''D'' | TASK_ZOMBIE \<Rightarrow> CHR ''Z'' | TASK_POOLED \<Rightarrow> CHR ''X'' | _ \<Rightarrow> CHR ''?'')"

definition task_state_to_str :: "sched_state \<Rightarrow> string" where
  "task_state_to_str st = (case st of
     TASK_RUNNING \<Rightarrow> ''running'' | TASK_QUEUED \<Rightarrow> ''runnable'' | TASK_INTERRUPTIBLE \<Rightarrow> ''sleeping''
   | TASK_UNINTERRUPTIBLE \<Rightarrow> ''disk sleep'' | TASK_ZOMBIE \<Rightarrow> ''zombie'' | TASK_POOLED \<Rightarrow> ''dead'' | _ \<Rightarrow> ''unknown'')"

text \<open>\<open>len = min(k_strlen(s), count); k_memcpy(buf, s, len)\<close>\<close>

definition copy_text :: "char list \<Rightarrow> char list \<Rightarrow> u32 \<Rightarrow> (u32 \<times> char list) option" where
  "copy_text s buf count = do {
     n \<leftarrow> k_strlen s;
     let len0 = (of_nat n :: u32);
     let len = (if len0 > count then count else len0);
     b \<leftarrow> k_memcpy buf 0 s 0 (unat len);
     Some (len, b) }"

text \<open>The text of a field and a newline, the text cut so that the newline still fits.\<close>

definition copy_line :: "char list \<Rightarrow> char list \<Rightarrow> u32 \<Rightarrow> (u32 \<times> char list) option" where
  "copy_line s buf count = do {
     n \<leftarrow> k_strlen s;
     let len0 = (of_nat n :: u32);
     let len = (if len0 + 1 > count then count - 1 else len0);
     b \<leftarrow> k_memcpy buf 0 s 0 (unat len);
     b1 \<leftarrow> wr b (unat len) (CHR 0x0A);
     Some (len + 1, b1) }"

definition read_proc_pid_cmdline :: "task \<Rightarrow> char list \<Rightarrow> u32 \<Rightarrow> (u32 \<times> char list) option" where
  "read_proc_pid_cmdline t buf count = copy_text (t_name t) buf count"

definition read_proc_pid_comm :: "task \<Rightarrow> char list \<Rightarrow> u32 \<Rightarrow> (u32 \<times> char list) option" where
  "read_proc_pid_comm t buf count = copy_line (t_name t) buf count"

definition read_proc_pid_cwd :: "task \<Rightarrow> char list \<Rightarrow> u32 \<Rightarrow> (u32 \<times> char list) option" where
  "read_proc_pid_cwd t buf count = copy_line (t_cwd t) buf count"

definition read_proc_pid_exe :: "task \<Rightarrow> char list \<Rightarrow> u32 \<Rightarrow> (u32 \<times> char list) option" where
  "read_proc_pid_exe t buf count = copy_line (t_name t) buf count"

primrec cat_all :: "char list list \<Rightarrow> char list \<Rightarrow> char list option" where
  "cat_all [] output = Some output"
| "cat_all (s # ss) output = do { o1 \<leftarrow> k_strcat output s; cat_all ss o1 }"

definition pid_of_parent :: "tasks \<Rightarrow> task \<Rightarrow> int" where
  "pid_of_parent ts t = (case t_parent t of Some p \<Rightarrow> t_pid (ts p) | None \<Rightarrow> 0)"

text \<open>\<open>u64_to_str\<close> into a fresh buffer.\<close>

definition u64_text :: "u64 \<Rightarrow> nat \<Rightarrow> char list option" where
  "u64_text v n = do { (len, b) \<leftarrow> u64_to_str v (Some (replicate n NUL)) n; b }"

definition read_proc_pid_stat :: "tasks \<Rightarrow> task \<Rightarrow> char list \<Rightarrow> u32 \<Rightarrow> (u32 \<times> char list) option" where
  "read_proc_pid_stat ts t buf count = do {
     pid_str \<leftarrow> k_itoa (t_pid t) (replicate 32 NUL);
     ppid_str \<leftarrow> k_itoa (pid_of_parent ts t) (replicate 32 NUL);
     ctxt_str \<leftarrow> u64_text (t_ctxt t) 32;
     syscall_str \<leftarrow> u64_text (t_sys_call_cnt t) 32;
     brk_str \<leftarrow> k_itoa (sint (t_brk t)) (replicate 32 NUL);
     brk_limit_str \<leftarrow> k_itoa (sint (t_brk_limit t)) (replicate 32 NUL);
     output \<leftarrow> k_strcpy (replicate 512 NUL) pid_str;
     output \<leftarrow> cat_all [c_string '' ('', t_name t, c_string '') '', [task_state_to_char (t_state t), NUL], c_string '' '',
       ppid_str, c_string '' 0 0 '', ctxt_str, c_string '' '', syscall_str, c_string '' '', brk_str, c_string '' '',
       brk_limit_str, c_string [CHR 0x0A]] output;
     copy_text output buf count }"

definition read_proc_pid_status :: "tasks \<Rightarrow> task \<Rightarrow> char list \<Rightarrow> u32 \<Rightarrow> (u32 \<times> char list) option" where
  "read_proc_pid_status ts t buf count = do {
     output \<leftarrow> k_strcpy (replicate 1024 NUL) (c_string (''Name:'' @ [CHR 0x09]));
     output \<leftarrow> cat_all [t_name t, c_string [CHR 0x0A], c_string (''State:'' @ [CHR 0x09]),
       [task_state_to_char (t_state t), NUL], c_string '' ('', c_string (task_state_to_str (t_state t)),
       c_string ('')'' @ [CHR 0x0A]), c_string (''Pid:'' @ [CHR 0x09])] output;
     temp \<leftarrow> k_itoa (t_pid t) (replicate 256 NUL);
     output \<leftarrow> cat_all [temp, c_string [CHR 0x0A], c_string (''PPid:'' @ [CHR 0x09])] output;
     temp \<leftarrow> k_itoa (pid_of_parent ts t) temp;
     output \<leftarrow> cat_all [temp, c_string [CHR 0x0A], c_string (''Ctxt:'' @ [CHR 0x09])] output;
     (n, temp1) \<leftarrow> u64_to_str (t_ctxt t) (Some temp) 256;
     temp \<leftarrow> temp1;
     output \<leftarrow> cat_all [temp, c_string [CHR 0x0A], c_string (''Syscalls:'' @ [CHR 0x09])] output;
     (n, temp1) \<leftarrow> u64_to_str (t_sys_call_cnt t) (Some temp) 256;
     temp \<leftarrow> temp1;
     output \<leftarrow> cat_all [temp, c_string [CHR 0x0A], c_string (''Brk:'' @ [CHR 0x09] @ ''0x'')] output;
     temp \<leftarrow> k_itoa_hex (t_brk t) temp;
     output \<leftarrow> cat_all [temp, c_string [CHR 0x0A], c_string (''BrkLimit:'' @ [CHR 0x09] @ ''0x'')] output;
     temp \<leftarrow> k_itoa_hex (t_brk_limit t) temp;
     output \<leftarrow> cat_all [temp, c_string [CHR 0x0A]] output;
     copy_text output buf count }"

definition read_proc_pid_fd_link ::
    "kernel \<Rightarrow> task \<Rightarrow> int \<Rightarrow> char list \<Rightarrow> u32 \<Rightarrow> (u32 \<times> char list) option option" where
  "read_proc_pid_fd_link k t fd buf count =
     (if fd < 0 \<or> fd \<ge> int RLIMIT_NOFILE then Some None
      else do {
        target \<leftarrow> rd (t_files t) (nat fd);
        (case target of
           None \<Rightarrow> Some None
         | Some f \<Rightarrow> map_option Some (copy_line (f_pathname (the_file f k)) buf count)) })"

definition sched_stat :: "kernel \<Rightarrow> u64" where
  "sched_stat k = k_ctxt k"

text \<open>\<open>count\<close> bounds the result, not what is written.\<close>

definition read_proc_stat :: "kernel \<Rightarrow> char list \<Rightarrow> u32 \<Rightarrow> (u32 \<times> char list) option" where
  "read_proc_stat k buf count = do {
     num \<leftarrow> u64_text (sched_stat k) 64;
     num_len \<leftarrow> k_strlen num;
     let len0 = (of_nat (5 + num_len + 1) :: u32);
     let len = (if len0 > count then count else len0);
     b \<leftarrow> k_memcpy buf 0 (c_string ''ctxt '') 0 5;
     b1 \<leftarrow> k_memcpy b 5 num 0 num_len;
     b2 \<leftarrow> wr b1 (5 + num_len) (CHR 0x0A);
     Some (len, b2) }"

text \<open>Which text a path reads as; \<open>None\<close> inside for the result -1.\<close>

definition proc_leaf ::
    "kernel \<Rightarrow> task \<Rightarrow> char list \<Rightarrow> char list \<Rightarrow> u32 \<Rightarrow> (u32 \<times> char list) option option" where
  "proc_leaf k t leaf buf count = do {
     comm \<leftarrow> k_strcmp leaf (c_string ''comm'');
     if comm = 0 then map_option Some (read_proc_pid_comm t buf count) else do {
     cmdline \<leftarrow> k_strcmp leaf (c_string ''cmdline'');
     if cmdline = 0 then map_option Some (read_proc_pid_cmdline t buf count) else do {
     stat \<leftarrow> k_strcmp leaf (c_string ''stat'');
     if stat = 0 then map_option Some (read_proc_pid_stat (k_tasks k) t buf count) else do {
     status \<leftarrow> k_strcmp leaf (c_string ''status'');
     if status = 0 then map_option Some (read_proc_pid_status (k_tasks k) t buf count) else do {
     cwd \<leftarrow> k_strcmp leaf (c_string ''cwd'');
     if cwd = 0 then map_option Some (read_proc_pid_cwd t buf count) else do {
     exe \<leftarrow> k_strcmp leaf (c_string ''exe'');
     if exe = 0 then map_option Some (read_proc_pid_exe t buf count) else Some None }}}}}}"

definition proc_text :: "kernel \<Rightarrow> char list \<Rightarrow> char list \<Rightarrow> u32 \<Rightarrow> (u32 \<times> char list) option option" where
  "proc_text k path buf count = do {
     s \<leftarrow> k_strcmp path (c_string ''/proc/stat'');
     if s = 0 then map_option Some (read_proc_stat k buf count)
     else do {
       pid \<leftarrow> proc_path_to_pid path;
       if pid = PID_NONE then Some None
       else case task_table_find_task_by_pid (k_tasks k) pid of
         None \<Rightarrow> Some None
       | Some t \<Rightarrow> do {
           fd \<leftarrow> proc_extract_fd_num path;
           if fd \<ge> 0 then read_proc_pid_fd_link k (k_tasks k t) fd buf count
           else do {
             leaf \<leftarrow> k_strrchr path SL;
             (case leaf of None \<Rightarrow> Some None
              | Some l \<Rightarrow> proc_leaf k (k_tasks k t) (drop 1 l) buf count) } } } }"

definition proc_read_file :: "nat \<Rightarrow> char list option \<Rightarrow> u32 \<Rightarrow> kernel \<Rightarrow> (int \<times> char list option \<times> kernel) res" where
  "proc_read_file file buf count k =
     (case buf of
        None \<Rightarrow> Inr (0, buf, k)
      | Some b \<Rightarrow>
          if f_pos (the_file file k) > 0 \<or> count = 0 then Inr (0, buf, k)
          else bindR (of_opt (proc_text k (f_pathname (the_file file k)) b count)) (\<lambda>r.
            case r of
              None \<Rightarrow> Inr (-1, buf, k)
            | Some (n, b1) \<Rightarrow> Inr (sint n, Some b1,
                updfile file (\<lambda>f. f\<lparr>f_pos := f_pos f + word_of_int (sint n)\<rparr>) k)))"

end
