(* ===== verification/Clock.thy ===== *)
theory Clock
  imports Knum Kernel
begin

section \<open>arch/x86/clock.c and bin/date.c: time\<close>

text \<open>
  The kernel reads the date from the real-time clock once, counts the cycles of the time-stamp
  counter from then on, and gives both to programs as seconds and nanoseconds; \<open>date\<close> turns seconds
  back into a date. What the hardware answers is the record \<open>hw\<close>; the two loops that wait for it read
  one answer after the other and end when one of them is the one they wait for. The 64-bit divisions are calls of \<open>__udivdi3\<close> and \<open>__umoddi3\<close>, as the
  compiler makes them on a 32-bit machine. The reference for both directions is the calendar:
  \<open>days_of y m d\<close> counts the days since 1970-01-01 by adding up years and months.
\<close>

record clock =
  boot_epoch_sec :: u32
  boot_tsc :: u64
  tsc_hz :: u64

record hw =
  hw_edx :: u32
  hw_ecx :: u32
  hw_cmos :: "u8 \<Rightarrow> u8"
  hw_rtc_a :: "nat \<Rightarrow> u8"
  hw_port61 :: "nat \<Rightarrow> u8"
  hw_t0 :: u64
  hw_t1 :: u64
  hw_t2 :: u64

text \<open>
  The processor's feature bits, the registers of the clock chip, the successive readings of its register 0x0A and of port
  0x61 in the two loops, and the three readings of the time-stamp counter.
\<close>

record timespec =
  tv_sec :: int
  tv_nsec :: int

definition bcd :: "u8 \<Rightarrow> u8" where
  "bcd v = (v AND 0x0F) + drop_bit 4 v * 10"

definition rtc_is_bcd :: "(u8 \<Rightarrow> u8) \<Rightarrow> bool" where
  "rtc_is_bcd cmos \<longleftrightarrow> cmos 0x0B AND 0x04 = 0"

definition rtc_value :: "(u8 \<Rightarrow> u8) \<Rightarrow> u8 \<Rightarrow> u8" where
  "rtc_value cmos reg = (let v = cmos reg in if rtc_is_bcd cmos then bcd v else v)"

definition days_before :: "u32 list" where
  "days_before = [0, 31, 59, 90, 120, 151, 181, 212, 243, 273, 304, 334]"

text \<open>The date arithmetic of \<open>rtc_seconds_since_epoch\<close>, on the values of the six registers.\<close>

definition epoch_seconds :: "u32 \<Rightarrow> u32 \<Rightarrow> u32 \<Rightarrow> u32 \<Rightarrow> u32 \<Rightarrow> u32 \<Rightarrow> u32 option" where
  "epoch_seconds year mon day hour minute sec = do {
     let y = 2000 + year;
     passed \<leftarrow> rd days_before (unat (mon - 1));
     let days = (y - 1970) * 365 + (y - 1969) div 4 + passed + (day - 1);
     let days1 = (if mon > 2 \<and> y mod 4 = 0 \<and> (y mod 100 \<noteq> 0 \<or> y mod 400 = 0) then days + 1 else days);
     Some (days1 * 86400 + hour * 3600 + minute * 60 + sec) }"

text \<open>The loop that waits for the end of an update, from the \<open>n\<close>-th reading on: the last reading, if there is one.\<close>

partial_function (option) rtc_wait :: "(nat \<Rightarrow> u8) \<Rightarrow> nat \<Rightarrow> nat option" where
  "rtc_wait reg_a n = (if reg_a n AND 0x80 \<noteq> 0 then rtc_wait reg_a (Suc n) else Some n)"

definition spin :: "'a option \<Rightarrow> 'a res" where
  "spin r = (case r of None \<Rightarrow> Inl Diverge | Some x \<Rightarrow> Inr x)"

definition rtc_seconds_since_epoch :: "hw \<Rightarrow> u32 res" where
  "rtc_seconds_since_epoch hw =
     bindR (spin (rtc_wait (hw_rtc_a hw) 0)) (\<lambda>_.
       let reg = (\<lambda>r. ucast (rtc_value (hw_cmos hw) r) :: u32)
       in of_opt (epoch_seconds (reg 0x09) (reg 0x08) (reg 0x07) (reg 0x04) (reg 0x02) (reg 0x00)))"

definition require_reasonable_tsc :: "u32 \<Rightarrow> u32 \<Rightarrow> unit res" where
  "require_reasonable_tsc edx_80000007 ecx_1 =
     (if bit edx_80000007 8 then Inr ()
      else if bit ecx_1 31 then Inr ()
      else Inl (Panic ''clock: non-invariant TSC on bare metal''))"

text \<open>The counter before and after 59659 ticks of the interval timer, whose end bit 5 of port 0x61 tells.\<close>

partial_function (option) pit_wait :: "(nat \<Rightarrow> u8) \<Rightarrow> nat \<Rightarrow> nat option" where
  "pit_wait port n = (if port n AND 0x20 = 0 then pit_wait port (Suc n) else Some n)"

definition calibrate_tsc_pit :: "hw \<Rightarrow> u64 res" where
  "calibrate_tsc_pit hw =
     bindR (spin (pit_wait (hw_port61 hw) 0)) (\<lambda>_.
       Inr (k_udivdi3 ((hw_t1 hw - hw_t0 hw) * 1193182) 59659))"

definition clock_init :: "hw \<Rightarrow> clock res" where
  "clock_init hw =
     bindR (require_reasonable_tsc (hw_edx hw) (hw_ecx hw)) (\<lambda>_.
     bindR (rtc_seconds_since_epoch hw) (\<lambda>sec.
     bindR (calibrate_tsc_pit hw) (\<lambda>hz.
       Inr \<lparr> boot_epoch_sec = sec, boot_tsc = hw_t2 hw, tsc_hz = hz \<rparr>)))"

text \<open>A loop ends exactly when some reading is the one it waits for.\<close>

lemma rtc_wait_Some: "rtc_wait a n = Some m \<Longrightarrow> n \<le> m \<and> a m AND 0x80 = 0"
  by (rule rtc_wait.raw_induct [where P = "\<lambda>a n m. n \<le> m \<and> a m AND 0x80 = 0"]) (auto split: if_splits dest: Suc_leD)

lemma rtc_wait_ends: "(\<exists>m. rtc_wait a n = Some m) \<longleftrightarrow> (\<exists>m \<ge> n. a m AND 0x80 = 0)"
proof
  show "\<exists>m. rtc_wait a n = Some m \<Longrightarrow> \<exists>m \<ge> n. a m AND 0x80 = 0" using rtc_wait_Some by blast
next
  assume "\<exists>m \<ge> n. a m AND 0x80 = 0"
  then obtain m where m: "n \<le> m" "a m AND 0x80 = 0" by blast
  then show "\<exists>m. rtc_wait a n = Some m"
  proof (induction rule: inc_induct)
    case base
    then show ?case by (subst rtc_wait.simps) simp
  next
    case (step i)
    then show ?case by (subst rtc_wait.simps) simp
  qed
qed

lemma pit_wait_Some: "pit_wait a n = Some m \<Longrightarrow> n \<le> m \<and> a m AND 0x20 \<noteq> 0"
  by (rule pit_wait.raw_induct [where P = "\<lambda>a n m. n \<le> m \<and> a m AND 0x20 \<noteq> 0"]) (auto split: if_splits dest: Suc_leD)

lemma pit_wait_ends: "(\<exists>m. pit_wait a n = Some m) \<longleftrightarrow> (\<exists>m \<ge> n. a m AND 0x20 \<noteq> 0)"
proof
  show "\<exists>m. pit_wait a n = Some m \<Longrightarrow> \<exists>m \<ge> n. a m AND 0x20 \<noteq> 0" using pit_wait_Some by blast
next
  assume "\<exists>m \<ge> n. a m AND 0x20 \<noteq> 0"
  then obtain m where m: "n \<le> m" "a m AND 0x20 \<noteq> 0" by blast
  then show "\<exists>m. pit_wait a n = Some m"
  proof (induction rule: inc_induct)
    case base
    then show ?case by (subst pit_wait.simps) simp
  next
    case (step i)
    then show ?case by (subst pit_wait.simps) simp
  qed
qed

text \<open>Hardware that \<open>clock_init\<close> comes to its end on, with a month from 1 to 12.\<close>

definition good_hw :: "hw \<Rightarrow> bool" where
  "good_hw hw \<longleftrightarrow> (bit (hw_edx hw) 8 \<or> bit (hw_ecx hw) 31)
     \<and> (\<exists>n. hw_rtc_a hw n AND 0x80 = 0) \<and> (\<exists>n. hw_port61 hw n AND 0x20 \<noteq> 0)
     \<and> unat (ucast (rtc_value (hw_cmos hw) 0x08) - 1 :: u32) < 12"

lemma clock_init_ends: "(\<exists>clk. clock_init hw = Inr clk) \<longleftrightarrow> good_hw hw"
proof -
  have r: "(\<exists>x. spin (rtc_wait (hw_rtc_a hw) 0) = Inr x) \<longleftrightarrow> (\<exists>n. hw_rtc_a hw n AND 0x80 = 0)"
    using rtc_wait_ends [of "hw_rtc_a hw" 0] by (auto simp: spin_def split: option.splits)
  have p: "(\<exists>x. spin (pit_wait (hw_port61 hw) 0) = Inr x) \<longleftrightarrow> (\<exists>n. hw_port61 hw n AND 0x20 \<noteq> 0)"
    using pit_wait_ends [of "hw_port61 hw" 0] by (auto simp: spin_def split: option.splits)
  have e: "(\<exists>x. of_opt (epoch_seconds y mo d h mi s) = Inr x) \<longleftrightarrow> unat (mo - 1) < 12" for y mo d h mi s
    by (auto simp: epoch_seconds_def rd_def days_before_def Let_def bind_eq_Some_conv of_opt_def split: option.splits)
  show ?thesis
    using r p e unfolding clock_init_def require_reasonable_tsc_def rtc_seconds_since_epoch_def calibrate_tsc_pit_def good_hw_def Let_def
    by (auto simp: bindR_eq_Inr split: if_splits)
qed

definition nsec_of :: "u64 \<Rightarrow> clock \<Rightarrow> u32" where
  "nsec_of delta c = ucast (k_udivdi3 (k_umoddi3 delta (tsc_hz c) * 1000000000) (tsc_hz c))"

definition sec_of :: "u64 \<Rightarrow> clock \<Rightarrow> u32" where
  "sec_of delta c = ucast (k_udivdi3 delta (tsc_hz c))"

definition timespec_of :: "u32 \<Rightarrow> u32 \<Rightarrow> timespec" where
  "timespec_of s n = \<lparr> tv_sec = int (unat s), tv_nsec = int (unat n) \<rparr>"

definition kclock_gettime :: "int \<Rightarrow> timespec option \<Rightarrow> u64 \<Rightarrow> clock \<Rightarrow> int \<times> timespec option" where
  "kclock_gettime clk_id tp tsc c =
     (if tp = None then (- EFAULT, tp)
      else if clk_id = 1 then (0, Some (timespec_of (sec_of tsc c) (nsec_of tsc c)))
      else if clk_id = 2 then
        (let delta = tsc - boot_tsc c in (0, Some (timespec_of (sec_of delta c) (nsec_of delta c))))
      else if clk_id = 0 then
        (let delta = tsc - boot_tsc c
         in (0, Some (timespec_of (boot_epoch_sec c + sec_of delta c) (nsec_of delta c))))
      else (- EINVAL, tp))"

subsection \<open>bin/date.c\<close>

definition is_leap :: "int \<Rightarrow> bool" where
  "is_leap y \<longleftrightarrow> (y mod 4 = 0 \<and> y mod 100 \<noteq> 0) \<or> y mod 400 = 0"

definition days_in_month :: "int \<Rightarrow> nat \<Rightarrow> int option" where
  "days_in_month y m =
     (if m = 1 \<and> is_leap y then Some 29 else rd [31, 28, 31, 30, 31, 30, 31, 31, 30, 31, 30, 31] m)"

function year_loop :: "u32 \<Rightarrow> int \<Rightarrow> u32 \<times> int" where
  "year_loop t y =
     (let days = (if is_leap y then 366 else 365 :: int)
      in if int (unat t) < days then (t, y) else year_loop (t - word_of_int days) (y + 1))"
  by pat_completeness auto
termination
proof (relation "measure (\<lambda>(t, y). unat t)", goal_cases)
  case (2 t y days)
  have d: "days = 365 \<or> days = 366" using 2(1) by auto
  have le: "days \<le> int (unat t)" using 2(2) by (simp only: not_less)
  have "unat (word_of_int days :: u32) = nat days" using d by auto
  moreover have "nat days \<le> unat t" "0 < nat days" using d le by linarith+
  ultimately show ?case by (simp add: unat_minus)
qed simp

declare year_loop.simps [simp del]

text \<open>Past December the table is left, which is why the loop ends.\<close>

function month_loop :: "u32 \<Rightarrow> int \<Rightarrow> nat \<Rightarrow> (u32 \<times> nat) option" where
  "month_loop t y m =
     (case days_in_month y m of
        None \<Rightarrow> None
      | Some d \<Rightarrow> if int (unat t) < d then Some (t, m) else month_loop (t - word_of_int d) y (m + 1))"
  by pat_completeness auto
termination
proof (relation "measure (\<lambda>(t, y, m). 13 - m)", goal_cases)
  case (2 t y m d)
  then have "m < 12" by (auto simp: days_in_month_def rd_def split: if_splits)
  then show ?case by simp
qed simp

declare month_loop.simps [simp del]

record utc =
  u_year :: int
  u_mon :: nat
  u_mday :: int
  u_hour :: int
  u_min :: int
  u_sec :: int
  u_wday :: int

definition epoch_to_utc :: "u32 \<Rightarrow> utc option" where
  "epoch_to_utc t0 = do {
     let t1 = t0 div 60;
     let t2 = t1 div 60;
     let t3 = t2 div 24;
     let (r, y) = year_loop t3 1970;
     (d, m) \<leftarrow> month_loop r y 0;
     Some \<lparr> u_year = y, u_mon = m, u_mday = int (unat d) + 1, u_hour = int (unat (t2 mod 24)),
       u_min = int (unat (t1 mod 60)), u_sec = int (unat (t0 mod 60)), u_wday = int (unat ((t3 + 4) mod 7)) \<rparr> }"

subsection \<open>The calendar\<close>

definition ylen :: "int \<Rightarrow> nat" where
  "ylen y = (if is_leap y then 366 else 365)"

definition mdays :: "int \<Rightarrow> nat \<Rightarrow> nat" where
  "mdays y m = (if m = 1 \<and> is_leap y then 29 else [31, 28, 31, 30, 31, 30, 31, 31, 30, 31, 30, 31] ! m)"

text \<open>The days of \<open>k\<close> years from \<open>y\<close> on, and of \<open>k\<close> months from \<open>m\<close> on.\<close>

primrec yspan :: "int \<Rightarrow> nat \<Rightarrow> nat" where
  "yspan y 0 = 0"
| "yspan y (Suc k) = ylen y + yspan (y + 1) k"

primrec mspan :: "int \<Rightarrow> nat \<Rightarrow> nat \<Rightarrow> nat" where
  "mspan y m 0 = 0"
| "mspan y m (Suc k) = mdays y m + mspan y (Suc m) k"

definition days_of :: "int \<Rightarrow> nat \<Rightarrow> nat \<Rightarrow> nat" where
  "days_of y m d = yspan 1970 (nat (y - 1970)) + mspan y 0 m + (d - 1)"

lemma power_2_32: "(2::nat) ^ 32 = 4294967296"
  by simp

lemma unat_of_nat_u32: "a < 4294967296 \<Longrightarrow> unat (of_nat a :: u32) = a"
  by (simp add: unat_of_nat)

lemma of_nat_eq_0_u32: "a < 4294967296 \<Longrightarrow> (of_nat a :: u32) = 0 \<longleftrightarrow> a = 0"
proof
  assume "a < 4294967296" "(of_nat a :: u32) = 0"
  then show "a = 0" using unat_of_nat_u32 [of a] by simp
qed simp

lemma of_nat_div_u32: "a < 2 ^ 32 \<Longrightarrow> b < 2 ^ 32 \<Longrightarrow> (of_nat a :: u32) div of_nat b = of_nat (a div b)"
  using div_le_dividend [of a b]
  by (intro word_unat_eq_iff [THEN iffD2]) (simp only: unat_div unat_of_nat_u32 le_less_trans power_2_32)

lemma of_nat_mod_u32: "a < 2 ^ 32 \<Longrightarrow> b < 2 ^ 32 \<Longrightarrow> (of_nat a :: u32) mod of_nat b = of_nat (a mod b)"
  using mod_less_eq_dividend [of a b]
  by (intro word_unat_eq_iff [THEN iffD2]) (simp only: unat_mod unat_of_nat_u32 le_less_trans power_2_32)

lemma year_loop_ok:
  "r < ylen (y + int k) \<Longrightarrow> yspan y k + r < 4294967296 \<Longrightarrow>
   year_loop (of_nat (yspan y k + r)) y = (of_nat r, y + int k)"
proof (induction k arbitrary: y)
  case 0
  then show ?case by (subst year_loop.simps) (auto simp: ylen_def unat_of_nat_u32 split: if_splits)
next
  case (Suc k)
  have "\<not> int (unat (of_nat (yspan y (Suc k) + r) :: u32)) < int (ylen y)"
    using Suc.prems(2) by (simp add: unat_of_nat_u32 del: of_nat_add)
  moreover have "(if is_leap y then 366 else 365 :: int) = int (ylen y)" by (simp add: ylen_def)
  ultimately have "year_loop (of_nat (yspan y (Suc k) + r)) y
      = year_loop (of_nat (yspan y (Suc k) + r) - of_nat (ylen y)) (y + 1)"
    by (subst year_loop.simps) (simp only: Let_def if_False of_int_of_nat_eq)
  also have "(of_nat (yspan y (Suc k) + r) :: u32) - of_nat (ylen y) = of_nat (yspan (y + 1) k + r)" by simp
  also have "year_loop \<dots> (y + 1) = (of_nat r, y + 1 + int k)"
    using Suc.prems by (intro Suc.IH) (simp_all add: ac_simps)
  finally show ?case by simp
qed

lemma days_in_month_eq: "m < 12 \<Longrightarrow> days_in_month y m = Some (int (mdays y m))"
  by (simp add: days_in_month_def mdays_def rd_def nth_Cons' numeral_nat)

lemma month_loop_ok:
  "r < mdays y (m + k) \<Longrightarrow> m + k < 12 \<Longrightarrow> mspan y m k + r < 4294967296 \<Longrightarrow>
   month_loop (of_nat (mspan y m k + r)) y m = Some (of_nat r, m + k)"
proof (induction k arbitrary: m)
  case 0
  then show ?case
    by (subst month_loop.simps) (simp add: days_in_month_eq unat_of_nat_u32 del: of_nat_add)
next
  case (Suc k)
  have "\<not> int (unat (of_nat (mspan y m (Suc k) + r) :: u32)) < int (mdays y m)"
    using Suc.prems(3) by (simp add: unat_of_nat_u32 del: of_nat_add)
  then have "month_loop (of_nat (mspan y m (Suc k) + r)) y m
      = month_loop (of_nat (mspan y m (Suc k) + r) - of_nat (mdays y m)) y (Suc m)"
    using Suc.prems(2)
    by (subst month_loop.simps) (simp add: days_in_month_eq del: mspan.simps of_nat_add)
  also have "(of_nat (mspan y m (Suc k) + r) :: u32) - of_nat (mdays y m) = of_nat (mspan y (Suc m) k + r)" by simp
  also have "month_loop \<dots> y (Suc m) = Some (of_nat r, Suc m + k)"
    using Suc.prems by (intro Suc.IH) (simp_all add: ac_simps)
  finally show ?case by simp
qed

subsection \<open>Closed forms\<close>

lemma leap_century: "1970 \<le> y \<Longrightarrow> y < 2100 \<Longrightarrow> is_leap y \<longleftrightarrow> y mod 4 = 0"
proof -
  assume y: "1970 \<le> y" "y < 2100"
  have "y = 2000" if "y mod 100 = 0"
  proof -
    have "100 dvd y" using that by (rule mod_0_imp_dvd)
    then obtain q where "y = 100 * q" by (rule dvdE)
    with y have "q = 20" by linarith
    with \<open>y = 100 * q\<close> show ?thesis by simp
  qed
  moreover have "y mod 400 = 0 \<Longrightarrow> y mod 4 = 0" using mod_mod_cancel [of 4 400 y] by simp
  ultimately show ?thesis by (auto simp: is_leap_def)
qed

lemma yspan_snoc: "yspan y (Suc k) = yspan y k + ylen (y + int k)"
proof (induction k arbitrary: y)
  case (Suc k)
  have "yspan y (Suc (Suc k)) = ylen y + (yspan (y + 1) k + ylen (y + 1 + int k))"
    by (simp only: yspan.simps(2) [of y "Suc k"] Suc.IH [of "y + 1"])
  then show ?case by (simp add: ac_simps)
qed simp

lemma yspan_closed: "n \<le> 130 \<Longrightarrow> yspan 1970 n = n * 365 + (n + 1) div 4"
proof (induction n)
  case (Suc n)
  have "is_leap (1970 + int n) \<longleftrightarrow> (1970 + int n) mod 4 = 0" using Suc.prems by (intro leap_century) auto
  also have "\<dots> \<longleftrightarrow> (n + 2) mod 4 = 0" by presburger
  finally have "ylen (1970 + int n) = 365 + (if (n + 2) mod 4 = 0 then 1 else 0)" by (simp add: ylen_def)
  moreover have "(Suc n + 1) div 4 = (n + 1) div 4 + (if (n + 2) mod 4 = 0 then 1 else 0)" by presburger
  ultimately show ?case using Suc by (simp only: yspan_snoc) simp
qed simp

definition month_table :: "nat list" where
  "month_table = [0, 31, 59, 90, 120, 151, 181, 212, 243, 273, 304, 334]"

lemma mspan_closed:
  assumes "m < 12" shows "mspan y 0 m = month_table ! m + (if 2 \<le> m \<and> is_leap y then 1 else 0)"
proof -
  have "m \<in> {0, 1, 2, 3, 4, 5, 6, 7, 8, 9, 10, 11}" using assms by (simp only: insert_iff empty_iff) presburger
  then show ?thesis by (elim insertE emptyE) (simp_all add: mdays_def month_table_def numeral_nat)
qed

lemma mspan_year: "m < 12 \<Longrightarrow> d \<le> mdays y m \<Longrightarrow> mspan y 0 m + d \<le> ylen y"
proof -
  assume m: "m < 12" "d \<le> mdays y m"
  have "m \<in> {0, 1, 2, 3, 4, 5, 6, 7, 8, 9, 10, 11}" using m(1) by (simp only: insert_iff empty_iff) presburger
  then show ?thesis using m(2)
    by (elim insertE emptyE) (simp_all add: mspan_closed mdays_def month_table_def ylen_def numeral_nat split: if_splits)
qed

subsection \<open>Properties\<close>

definition secs_of :: "int \<Rightarrow> nat \<Rightarrow> nat \<Rightarrow> nat \<Rightarrow> nat \<Rightarrow> nat \<Rightarrow> nat" where
  "secs_of y m d h mi s = days_of y m d * 86400 + h * 3600 + mi * 60 + s"

definition valid_date :: "int \<Rightarrow> nat \<Rightarrow> nat \<Rightarrow> nat \<Rightarrow> nat \<Rightarrow> nat \<Rightarrow> bool" where
  "valid_date y m d h mi s \<longleftrightarrow> 2000 \<le> y \<and> y < 2100 \<and> m < 12 \<and> 1 \<le> d \<and> d \<le> mdays y m \<and> h < 24 \<and> mi < 60 \<and> s < 60"

lemma days_of_bound:
  assumes "valid_date y m d h mi s" shows "days_of y m d < 47483" "secs_of y m d h mi s < 4294967296"
proof -
  have n: "nat (y - 1970) \<le> 129" using assms unfolding valid_date_def by linarith
  then have "yspan 1970 (nat (y - 1970)) \<le> 129 * 365 + 32" by (simp add: yspan_closed)
  moreover have "mspan y 0 m + d \<le> 366"
    using mspan_year [of m d y] assms by (auto simp: valid_date_def ylen_def split: if_splits)
  ultimately show d: "days_of y m d < 47483" using assms by (simp add: days_of_def valid_date_def)
  show "secs_of y m d h mi s < 4294967296" using d assms by (simp add: secs_of_def valid_date_def)
qed

lemma of_nat_less_u32: "a < 4294967296 \<Longrightarrow> b < 4294967296 \<Longrightarrow> (of_nat a :: u32) < of_nat b \<longleftrightarrow> a < b"
  by (simp only: word_less_nat_alt unat_of_nat_u32)

lemma epoch_seconds_ok:
  assumes v: "valid_date y m d h mi s"
  shows "epoch_seconds (of_nat (nat (y - 2000))) (of_nat (Suc m)) (of_nat d) (of_nat h) (of_nat mi) (of_nat s)
    = Some (of_nat (secs_of y m d h mi s))"
proof -
  have "y = 2000 + int (nat (y - 2000))" using v by (simp add: valid_date_def)
  then obtain n where n: "y = 2000 + int n" by blast
  have n100: "n < 100" and m: "m < 12" and d: "1 \<le> d" using v n by (simp_all add: valid_date_def)
  let ?y = "2000 + of_nat n :: u32"
  define D where "D = (30 + n) * 365 + (31 + n) div 4 + month_table ! m + (d - 1)"
  have yn: "?y = of_nat (2000 + n)" by simp
  have r: "?y - 1970 = of_nat (30 + n)" "?y - 1969 = of_nat (31 + n)" by simp_all
  have q: "(of_nat (31 + n) :: u32) div 4 = of_nat ((31 + n) div 4)"
    using of_nat_div_u32 [of "31 + n" 4] n100 by simp
  have mo: "?y mod of_nat j = 0 \<longleftrightarrow> (2000 + n) mod j = 0" if "j < 2 ^ 32" for j
  proof -
    have "?y mod of_nat j = of_nat ((2000 + n) mod j)"
      unfolding yn using of_nat_mod_u32 [of "2000 + n" j] n100 that by simp
    moreover have "(2000 + n) mod j < 4294967296" using mod_less_eq_dividend [of "2000 + n" j] n100 by linarith
    ultimately show ?thesis using of_nat_eq_0_u32 [of "(2000 + n) mod j"] by presburger
  qed
  have "is_leap y \<longleftrightarrow> y mod 4 = 0" using n n100 by (intro leap_century) simp_all
  also have "\<dots> \<longleftrightarrow> (2000 + n) mod 4 = 0"
  proof -
    have "y mod 4 = int ((2000 + n) mod 4)" by (simp add: n zmod_int)
    then show ?thesis by (simp only: of_nat_eq_0_iff)
  qed
  also have "\<dots> \<longleftrightarrow> (2000 + n) mod 4 = 0 \<and> ((2000 + n) mod 100 \<noteq> 0 \<or> (2000 + n) mod 400 = 0)"
  proof -
    have "(2000 + n) mod 100 = n" using mod_mult_self1 [of n 20 100] n100 by (simp add: add.commute)
    moreover have "n = 0 \<Longrightarrow> (2000 + n) mod 400 = 0" by simp
    ultimately show ?thesis by (cases "n = 0") simp_all
  qed
  also have "\<dots> \<longleftrightarrow> ?y mod 4 = 0 \<and> (?y mod 100 \<noteq> 0 \<or> ?y mod 400 = 0)"
    using mo [of 4] mo [of 100] mo [of 400] by simp
  finally have "is_leap y \<longleftrightarrow> ?y mod 4 = 0 \<and> (?y mod 100 \<noteq> 0 \<or> ?y mod 400 = 0)" .
  moreover have "rd days_before (unat (of_nat (Suc m) - 1 :: u32)) = Some (of_nat (month_table ! m))"
  proof -
    have db: "days_before = map of_nat month_table" by (simp add: days_before_def month_table_def)
    have um: "unat (of_nat (Suc m) - 1 :: u32) = m" using m by (simp add: unat_of_nat_u32)
    have "length month_table = 12" by (simp add: month_table_def)
    then show ?thesis unfolding db um using m by (simp add: rd_def)
  qed
  moreover have "(of_nat (Suc m) :: u32) > 2 \<longleftrightarrow> 2 \<le> m"
    using of_nat_less_u32 [of 2 "Suc m"] m by auto
  moreover have "of_nat (30 + n) * 365 + of_nat ((31 + n) div 4) + of_nat (month_table ! m) + (of_nat d - 1) = (of_nat D :: u32)"
    using d by (simp add: D_def of_nat_diff)
  ultimately have "epoch_seconds (of_nat n) (of_nat (Suc m)) (of_nat d) (of_nat h) (of_nat mi) (of_nat s)
    = Some ((if 2 \<le> m \<and> is_leap y then of_nat D + 1 else of_nat D) * 86400 + of_nat h * 3600 + of_nat mi * 60 + of_nat s)"
    unfolding epoch_seconds_def r q Let_def by (simp del: of_nat_Suc of_nat_add of_nat_mult)
  also have "(if 2 \<le> m \<and> is_leap y then of_nat D + 1 else of_nat D :: u32) = of_nat (days_of y m d)"
    using yspan_closed [of "30 + n"] n100 mspan_closed [OF m, of y]
    by (simp add: days_of_def D_def n nat_add_distrib)
  finally show ?thesis by (simp add: n secs_of_def)
qed

lemma div_mod_digit: "b < k \<Longrightarrow> (a * k + b) div k = a" "b < k \<Longrightarrow> (a * k + b) mod k = (b::nat)"
  by simp_all

lemma epoch_to_utc_ok:
  assumes v: "valid_date y m d h mi s"
  shows "epoch_to_utc (of_nat (secs_of y m d h mi s)) = Some \<lparr> u_year = y, u_mon = m, u_mday = int d, u_hour = int h,
    u_min = int mi, u_sec = int s, u_wday = int ((days_of y m d + 4) mod 7) \<rparr>"
proof -
  let ?T = "secs_of y m d h mi s" and ?D = "days_of y m d"
  have hms: "h < 24" "mi < 60" "s < 60" "m < 12" "1 \<le> d" "d \<le> mdays y m" using v by (simp_all add: valid_date_def)
  have D: "?D < 47483" and T: "?T < 4294967296" by (rule days_of_bound [OF v])+
  have t: "?T = ((?D * 24 + h) * 60 + mi) * 60 + s" by (simp add: secs_of_def algebra_simps)
  have t1: "?T div 60 = (?D * 24 + h) * 60 + mi" "?T mod 60 = s" unfolding t by (rule div_mod_digit [OF hms(3)])+
  have t2: "((?D * 24 + h) * 60 + mi) div 60 = ?D * 24 + h" "((?D * 24 + h) * 60 + mi) mod 60 = mi"
    by (rule div_mod_digit [OF hms(2)])+
  have t3: "(?D * 24 + h) div 24 = ?D" "(?D * 24 + h) mod 24 = h" by (rule div_mod_digit [OF hms(1)])+
  have dv: "(of_nat a :: u32) div 60 = of_nat (a div 60)" "(of_nat a :: u32) mod 60 = of_nat (a mod 60)"
    "(of_nat a :: u32) div 24 = of_nat (a div 24)" "(of_nat a :: u32) mod 24 = of_nat (a mod 24)"
    "(of_nat a :: u32) mod 7 = of_nat (a mod 7)" if "a < 4294967296" for a
    using of_nat_div_u32 [of a 60] of_nat_mod_u32 [of a 60] of_nat_div_u32 [of a 24] of_nat_mod_u32 [of a 24]
      of_nat_mod_u32 [of a 7] that by simp_all
  have w1: "of_nat ?T div 60 = (of_nat ((?D * 24 + h) * 60 + mi) :: u32)" "of_nat ?T mod 60 = (of_nat s :: u32)"
    by (simp_all only: dv [OF T] t1)
  have b1: "(?D * 24 + h) * 60 + mi < 4294967296" "?D * 24 + h < 4294967296" "?D + 4 < 4294967296" using D hms by simp_all
  have w2: "of_nat ((?D * 24 + h) * 60 + mi) div 60 = (of_nat (?D * 24 + h) :: u32)"
    "of_nat ((?D * 24 + h) * 60 + mi) mod 60 = (of_nat mi :: u32)"
    by (simp_all only: dv [OF b1(1)] t2)
  have w3: "of_nat (?D * 24 + h) div 24 = (of_nat ?D :: u32)" "of_nat (?D * 24 + h) mod 24 = (of_nat h :: u32)"
    by (simp_all only: dv [OF b1(2)] t3)
  have w4: "(of_nat ?D + 4) mod 7 = (of_nat ((?D + 4) mod 7) :: u32)" using dv(5) [OF b1(3)] by simp
  let ?r = "mspan y 0 m + (d - 1)"
  have "?r < ylen y" using mspan_year [OF hms(4,6)] hms(5) by simp
  moreover have y: "1970 + int (nat (y - 1970)) = y" using v by (simp add: valid_date_def)
  ultimately have yl: "year_loop (of_nat ?D) 1970 = (of_nat ?r, y)"
    using year_loop_ok [of ?r 1970 "nat (y - 1970)"] D by (simp add: days_of_def add.assoc)
  have ml: "month_loop (of_nat ?r) y 0 = Some (of_nat (d - 1), m)"
    using month_loop_ok [of "d - 1" y 0 m] hms D by (simp add: days_of_def)
  have small: "unat (of_nat (d - 1) :: u32) = d - 1" "unat (of_nat h :: u32) = h" "unat (of_nat mi :: u32) = mi"
    "unat (of_nat s :: u32) = s" "unat (of_nat ((?D + 4) mod 7) :: u32) = (?D + 4) mod 7"
  proof -
    have "d - 1 < 4294967296" using hms(5) D by (simp add: days_of_def)
    moreover have "(?D + 4) mod 7 < 4294967296" by (rule less_trans [OF mod_less_divisor]) simp_all
    ultimately show "unat (of_nat (d - 1) :: u32) = d - 1" "unat (of_nat ((?D + 4) mod 7) :: u32) = (?D + 4) mod 7"
      "unat (of_nat h :: u32) = h" "unat (of_nat mi :: u32) = mi" "unat (of_nat s :: u32) = s"
      using hms by (simp_all only: unat_of_nat_u32)
  qed
  have "int (d - 1) + 1 = int d" using hms(5) by simp
  then show ?thesis
    by (simp only: epoch_to_utc_def Let_def w1 w2 w3 w4 yl ml prod.case bind.bind_lunit small)
qed

text \<open>
  C37: the date survives. For every date and time of the years 2000 to 2099 the arithmetic of
  \<open>rtc_seconds_since_epoch\<close> on the clock's registers gives the number of seconds since 1970 by the
  calendar (years of 365 and 366 days, months added up), which fits in 32 bits, and the \<open>date\<close> command
  turns it back into the same date and time, with the weekday that day has.
\<close>

theorem date_roundtrip:
  assumes "valid_date y m d h mi s"
  shows "\<exists>t. epoch_seconds (of_nat (nat (y - 2000))) (of_nat (Suc m)) (of_nat d) (of_nat h) (of_nat mi) (of_nat s) = Some t
    \<and> unat t = secs_of y m d h mi s
    \<and> epoch_to_utc t = Some \<lparr> u_year = y, u_mon = m, u_mday = int d, u_hour = int h, u_min = int mi,
         u_sec = int s, u_wday = int ((days_of y m d + 4) mod 7) \<rparr>"
  using epoch_seconds_ok [OF assms] epoch_to_utc_ok [OF assms] unat_of_nat_u32 [OF days_of_bound(2) [OF assms]]
  by blast

theorem date_roundtrip_witness:
  "\<exists>t. epoch_seconds 24 2 29 23 59 58 = Some t \<and> map_option u_mday (epoch_to_utc t) = Some 29"
proof -
  have "valid_date 2024 1 29 23 59 58" by (simp add: valid_date_def mdays_def is_leap_def)
  from date_roundtrip [OF this] show ?thesis by auto
qed

lemma unat_ucast_u32: "unat (w :: u64) < 4294967296 \<Longrightarrow> unat (ucast w :: u32) = unat w"
  by (simp add: unsigned_ucast_eq take_bit_nat_eq_self)

lemma clock_parts:
  assumes "0 < unat (tsc_hz c)" "unat (tsc_hz c) \<le> 18446744073" "unat delta div unat (tsc_hz c) < 4294967296"
  shows "unat (sec_of delta c) = unat delta div unat (tsc_hz c)"
    "unat (nsec_of delta c) = (unat delta mod unat (tsc_hz c)) * 1000000000 div unat (tsc_hz c)"
    "unat (nsec_of delta c) < 1000000000"
proof -
  let ?hz = "unat (tsc_hz c)" and ?r = "unat delta mod unat (tsc_hz c)"
  have nz: "tsc_hz c \<noteq> 0" using assms(1) by auto
  have "unat (delta div tsc_hz c) = unat delta div ?hz" by (simp add: unat_div)
  then show "unat (sec_of delta c) = unat delta div ?hz"
    using assms(3) by (simp add: sec_of_def k_udivdi3_ok unat_ucast_u32)
  have r: "?r < ?hz" using assms(1) by simp
  then have "?r * 1000000000 < 2 ^ LENGTH(64)" using assms(2) by simp
  then have m: "unat ((delta mod tsc_hz c) * 1000000000) = ?r * 1000000000"
    by (subst unat_times) (simp_all add: unat_mod)
  have lt: "?r * 1000000000 div ?hz < 1000000000" using r by (simp add: less_mult_imp_div_less mult.commute)
  have "nsec_of delta c = ucast ((delta mod tsc_hz c) * 1000000000 div tsc_hz c)"
    by (simp add: nsec_of_def k_udivdi3_ok k_umoddi3_ok [OF nz])
  moreover have "unat ((delta mod tsc_hz c) * 1000000000 div tsc_hz c) = ?r * 1000000000 div ?hz"
    by (simp only: unat_div m)
  ultimately show n: "unat (nsec_of delta c) = ?r * 1000000000 div ?hz"
    using lt by (simp add: unat_ucast_u32)
  then show "unat (nsec_of delta c) < 1000000000" using lt by simp
qed

text \<open>
  C38: the clock is exact. For a counter of at most 18.4 GHz, and less than 2^32 seconds after the
  kernel started, \<open>CLOCK_BOOTTIME\<close> is the time since then rounded down to a nanosecond: the intermediate
  product does not overflow, and the nanoseconds are below 10^9. The seconds of \<open>CLOCK_REALTIME\<close> are
  those of the real-time clock at boot plus these.
\<close>

theorem clock_gettime_exact:
  assumes "0 < unat (tsc_hz c)" "unat (tsc_hz c) \<le> 18446744073" "delta = tsc - boot_tsc c"
    "unat delta div unat (tsc_hz c) < 4294967296"
  shows "\<exists>s n. kclock_gettime 2 (Some tp) tsc c = (0, Some (timespec_of s n))
    \<and> kclock_gettime 0 (Some tp) tsc c = (0, Some (timespec_of (boot_epoch_sec c + s) n))
    \<and> unat s * 1000000000 + unat n = unat delta * 1000000000 div unat (tsc_hz c) \<and> unat n < 1000000000"
proof -
  let ?hz = "unat (tsc_hz c)"
  note p = clock_parts [OF assms(1,2,4)]
  define q r where "q = unat delta div ?hz" and "r = unat delta mod ?hz"
  have e: "unat delta = q * ?hz + r" by (simp add: q_def r_def)
  have "unat delta * 1000000000 = q * 1000000000 * ?hz + r * 1000000000"
    unfolding e by (simp add: algebra_simps)
  then have "unat delta * 1000000000 div ?hz = q * 1000000000 + r * 1000000000 div ?hz"
    using assms(1) by simp
  then show ?thesis
    using p by - (rule exI [of _ "sec_of delta c"], rule exI [of _ "nsec_of delta c"],
      simp add: Let_def kclock_gettime_def assms(3) q_def r_def)
qed

theorem clock_gettime_exact_witness:
  "\<exists>s n. kclock_gettime 2 (Some (timespec_of 0 0)) 7500000100 \<lparr> boot_epoch_sec = 0, boot_tsc = 100, tsc_hz = 3000000000 \<rparr>
     = (0, Some (timespec_of s n)) \<and> unat s * 1000000000 + unat n = 2500000000"
proof -
  let ?c = "\<lparr> boot_epoch_sec = 0, boot_tsc = 100, tsc_hz = 3000000000 \<rparr>"
  obtain s n where "kclock_gettime 2 (Some (timespec_of 0 0)) 7500000100 ?c = (0, Some (timespec_of s n))"
    "unat s * 1000000000 + unat n = unat (7500000000::u64) * 1000000000 div unat (tsc_hz ?c)"
    using clock_gettime_exact [of ?c 7500000000 7500000100 "timespec_of 0 0"] by auto
  then show ?thesis by auto
qed

end
