(* ===== verification/Vfs.thy ===== *)
theory Vfs
  imports ProcFs Dev Path
begin

section \<open>fs/vfs.c: open files\<close>

text \<open>
  The operations on file descriptors, which find the open file and call what its file system
  installed. Reading from a terminal may block: \<open>vfs_read_begin\<close> is \<open>vfs_read\<close> after its call of
  \<open>sched_schedule\<close> up to the \<open>wait_event\<close> of \<open>tty_read\<close>, and \<open>tty_read_end\<close> the rest of it; theory
  Syscall puts the waiting between them. \<open>fs_own k\<close> is the invariant of open files: a file is free
  or belongs to exactly one descriptor of one task, and its path is a terminated 64-byte string.
\<close>

definition fs_open :: "bins \<Rightarrow> fs_id \<Rightarrow> nat \<Rightarrow> kernel \<Rightarrow> (int \<times> kernel) res" where
  "fs_open bins fs file k =
     (case fs of root_fs \<Rightarrow> root_open file k | sys_fs \<Rightarrow> sys_open file k | proc_fs \<Rightarrow> proc_open file k
      | dev_fs \<Rightarrow> dev_open file k | bin_fs \<Rightarrow> bin_open bins file k)"

definition set_files :: "nat \<Rightarrow> nat option list \<Rightarrow> kernel \<Rightarrow> kernel" where
  "set_files t fs k = updt t (\<lambda>x. x\<lparr>t_files := fs\<rparr>) k"

definition free_file :: "nat \<Rightarrow> kernel \<Rightarrow> kernel res" where
  "free_file file k = bindR (vfs_free_file file (k_vfs k)) (\<lambda>v. Inr (k\<lparr>k_vfs := v\<rparr>))"

text \<open>A message and the result -1.\<close>

definition vfs_fail :: "string \<Rightarrow> kernel \<Rightarrow> (int \<times> kernel) res" where
  "vfs_fail msg k = bindR (kprint msg k) (\<lambda>k1. Inr (-1, k1))"

text \<open>The fields \<open>vfs_open\<close> sets in a new file before its file system sees it.\<close>

definition new_file :: "int \<Rightarrow> int \<Rightarrow> int \<Rightarrow> open_file \<Rightarrow> open_file" where
  "new_file fd flags mode f =
     f\<lparr>f_data := DNull, f_fd := fd, f_pos := 0, f_flags := flags, f_mode := mode, f_getdents := None,
       f_close := None, f_write := None, f_read := None, f_fstat := None\<rparr>"

text \<open>\<open>vfs_open\<close> from the allocation of the file on.\<close>

definition open_new :: "bins \<Rightarrow> nat \<Rightarrow> char list \<Rightarrow> fs_id \<Rightarrow> int \<Rightarrow> int \<Rightarrow> nat \<Rightarrow> kernel \<Rightarrow> (int \<times> kernel) res" where
  "open_new bins t path fs flags mode file k =
     bindR (files_alloc_fd (t_files (the_task t k)) (Some file)) (\<lambda>(fd, files).
       let k1 = set_files t files k
       in if fd < 0
          then bindR (kprint (''vfs_open: can'' @ [CHR 0x27] @ ''t allocate fd'' @ [CHR 0x0A]) k1) (\<lambda>k2.
                 bindR (free_file file k2) (\<lambda>k3. Inr (-1, k3)))
          else
            let k2 = updfile file (new_file fd flags mode) k1
            in bindR (of_opt (k_strcpy (f_pathname (the_file file k2)) path)) (\<lambda>p.
               let k3 = updfile file (\<lambda>f. f\<lparr>f_pathname := p\<rparr>) k2
               in bindR (fs_open bins fs file k3) (\<lambda>(r, k4).
                  if r < 0
                  then let k5 = set_files t (snd (files_free_fd (t_files (the_task t k4)) fd)) k4
                       in bindR (free_file file k5) (\<lambda>k6. Inr (-1, k6))
                  else Inr (fd, k4))))"

text \<open>\<open>task->cwd\<close> is read before \<open>task\<close> is compared with null.\<close>

definition vfs_open :: "bins \<Rightarrow> nat option \<Rightarrow> char list option \<Rightarrow> int \<Rightarrow> int \<Rightarrow> kernel \<Rightarrow> (int \<times> kernel) res" where
  "vfs_open bins task pathname flags mode k =
     bindR (deref task) (\<lambda>t.
     bindR (of_opt (vfs_resolve_path (t_cwd (the_task t k)) pathname (replicate MAX_FILENAME_LEN NUL) MAX_FILENAME_LEN)) (\<lambda>path.
     bindR (of_opt (path_to_fs (k_vfs k) (Some path))) (\<lambda>fs.
       case fs of
         None \<Rightarrow> vfs_fail (''vfs_open: no fs found'' @ [CHR 0x0A]) k
       | Some fs \<Rightarrow>
           bindR (vfs_alloc_file (k_vfs k)) (\<lambda>(file, v).
             case file of
               None \<Rightarrow> vfs_fail (''vfs_open: can'' @ [CHR 0x27] @ ''t allocate file'' @ [CHR 0x0A]) k
             | Some file \<Rightarrow> open_new bins t path fs flags mode file (k\<lparr>k_vfs := v\<rparr>)))))"

definition vfs_close :: "nat option \<Rightarrow> int \<Rightarrow> kernel \<Rightarrow> (int \<times> kernel) res" where
  "vfs_close task fd k =
     (case task of
        None \<Rightarrow> Inr (-1, k)
      | Some t \<Rightarrow>
          if fd < 0 then Inr (-1, k)
          else (case files_find_by_fd (t_files (the_task t k)) fd of
                  None \<Rightarrow> Inr (-1, k)
                | Some file \<Rightarrow>
                    let k1 = (case f_close (the_file file k) of Some _ \<Rightarrow> snd (tty_close_file file k) | None \<Rightarrow> k);
                        k2 = set_files t (snd (files_free_fd (t_files (the_task t k1)) fd)) k1
                    in bindR (free_file file k2) (\<lambda>k3. Inr (0, k3))))"

definition current_file :: "int \<Rightarrow> kernel \<Rightarrow> nat option" where
  "current_file fd k =
     (case sched_current k of None \<Rightarrow> None | Some c \<Rightarrow> files_find_by_fd (t_files (the_task c k)) fd)"

definition vfs_write :: "int \<Rightarrow> char list option \<Rightarrow> u32 \<Rightarrow> kernel \<Rightarrow> (int \<times> kernel) res" where
  "vfs_write fd buf count k =
     (if buf = None \<or> count = 0 then Inr (0, k)
      else (case current_file fd k of
              None \<Rightarrow> Inr (-1, k)
            | Some file \<Rightarrow>
                (case f_write (the_file file k) of
                   None \<Rightarrow> Inr (-1, k)
                 | Some tty_write \<Rightarrow> tty_write_file (Some file) buf count k)))"

text \<open>A read that is done, with its result and the buffer, or one that waits for input of a terminal.\<close>

datatype read_step = ReadDone int "char list option" kernel | ReadWaits nat

definition tty_read_begin :: "nat \<Rightarrow> char list option \<Rightarrow> u32 \<Rightarrow> kernel \<Rightarrow> read_step res" where
  "tty_read_begin file buf count k =
     (if buf = None \<or> count = 0 then Inr (ReadDone (-1) buf k)
      else (case f_data (the_file file k) of
              DNull \<Rightarrow> Inr (ReadDone (-1) buf k)
            | DTty i \<Rightarrow> Inr (ReadWaits i)
            | _ \<Rightarrow> Inl BadAccess))"

definition tty_read_end :: "nat \<Rightarrow> char list \<Rightarrow> u32 \<Rightarrow> kernel \<Rightarrow> (int \<times> char list \<times> kernel) res" where
  "tty_read_end i buf count k =
     bindR (of_opt (tty_take buf count (k_ttys k i))) (\<lambda>(n, b, y). Inr (sint n, b, updtty i (\<lambda>_. y) k))"

definition vfs_read_begin :: "bins \<Rightarrow> int \<Rightarrow> char list option \<Rightarrow> u32 \<Rightarrow> kernel \<Rightarrow> read_step res" where
  "vfs_read_begin bins fd buf count k =
     (if buf = None \<or> count = 0 then Inr (ReadDone 0 buf k)
      else (case current_file fd k of
              None \<Rightarrow> Inr (ReadDone (-1) buf k)
            | Some file \<Rightarrow>
                (case f_read (the_file file k) of
                   None \<Rightarrow> Inr (ReadDone (-1) buf k)
                 | Some tty_read \<Rightarrow> tty_read_begin file buf count k
                 | Some proc_read \<Rightarrow>
                     bindR (proc_read_file file buf count k) (\<lambda>(n, b, k1). Inr (ReadDone n b k1))
                 | Some bin_read \<Rightarrow>
                     bindR (bin_read_file bins file buf count k) (\<lambda>(n, b, k1). Inr (ReadDone n b k1)))))"

definition vfs_getdents :: "bins \<Rightarrow> int \<Rightarrow> dirent list option \<Rightarrow> u32 \<Rightarrow> kernel \<Rightarrow> dents_result res" where
  "vfs_getdents bins fd buf count k =
     (case current_file fd k of
        None \<Rightarrow> Inr (-1, buf, k)
      | Some file \<Rightarrow>
          (case f_getdents (the_file file k) of
             None \<Rightarrow> Inr (-1, buf, k)
           | Some root_getdents \<Rightarrow> root_getdents_file file buf count k
           | Some proc_getdents \<Rightarrow> proc_getdents_file file buf count k
           | Some bin_getdents \<Rightarrow> bin_getdents_file bins file buf count k
           | Some dev_getdents \<Rightarrow> dev_getdents_file file buf count k
           | Some sys_getdents \<Rightarrow> sys_getdents_file file buf count k))"

definition vfs_fstat :: "bins \<Rightarrow> nat option \<Rightarrow> int \<Rightarrow> stat option \<Rightarrow> kernel \<Rightarrow> (int \<times> stat option) res" where
  "vfs_fstat bins task fd st k =
     (case (task, st) of
        (Some t, Some s) \<Rightarrow>
          (case files_find_by_fd (t_files (the_task t k)) fd of
             None \<Rightarrow> Inr (-1, st)
           | Some file \<Rightarrow>
               (case f_fstat (the_file file k) of
                  None \<Rightarrow> Inr (0, Some zero_stat)
                | Some bin_fstat \<Rightarrow>
                    bindR (bin_fstat_file bins file zero_stat k) (\<lambda>(r, s1). Inr (r, Some s1))))
      | _ \<Rightarrow> Inr (-1, st))"

definition blank_dirent :: dirent where
  "blank_dirent = \<lparr> d_ino = 0, d_reclen = 0, d_type = 0, d_name = replicate 64 NUL \<rparr>"

definition vfs_chdir :: "bins \<Rightarrow> char list option \<Rightarrow> kernel \<Rightarrow> (int \<times> kernel) res" where
  "vfs_chdir bins path k =
     (if path = None then Inr (- EINVAL, k)
      else (case sched_current k of
        None \<Rightarrow> Inr (- ESRCH, k)
      | Some c \<Rightarrow>
          bindR (of_opt (vfs_resolve_path (t_cwd (the_task c k)) path (replicate MAX_FILENAME_LEN NUL) MAX_FILENAME_LEN)) (\<lambda>resolved.
          bindR (vfs_open bins (Some c) (Some resolved) 0 0 k) (\<lambda>(fd, k1).
            if fd < 0 then Inr (fd, k1)
            else bindR (vfs_getdents bins fd (Some [blank_dirent]) SIZEOF_DIRENT k1) (\<lambda>(result, _, k2).
                 bindR (vfs_close (Some c) fd k2) (\<lambda>(_, k3).
                   if result < 0 then Inr (result, k3)
                   else bindR (of_opt (k_strncpy (t_cwd (the_task c k3)) 0 resolved MAX_FILENAME_LEN)) (\<lambda>b.
                        bindR (of_opt (wr b (MAX_FILENAME_LEN - 1) NUL)) (\<lambda>b1.
                          Inr (0, updt c (\<lambda>x. x\<lparr>t_cwd := b1\<rparr>) k3)))))))))"

text \<open>The copying loop of \<open>vfs_getcwd\<close>; the fuel is \<open>size\<close>, which bounds it.\<close>

fun getcwd_loop :: "nat \<Rightarrow> nat \<Rightarrow> char list \<Rightarrow> char list \<Rightarrow> (nat \<times> char list) option" where
  "getcwd_loop 0 i cwd buf = Some (i, buf)"
| "getcwd_loop (Suc n) i cwd buf =
     (if n = 0 then Some (i, buf)
      else do {
        c \<leftarrow> rd cwd i;
        if c = NUL then Some (i, buf)
        else do { b \<leftarrow> wr buf i c; getcwd_loop n (Suc i) cwd b } })"

text \<open>The result is whether \<open>buf\<close> is returned rather than null.\<close>

definition vfs_getcwd :: "char list option \<Rightarrow> u32 \<Rightarrow> kernel \<Rightarrow> (bool \<times> char list option) res" where
  "vfs_getcwd buf sz k =
     (case buf of
        None \<Rightarrow> Inr (False, buf)
      | Some b \<Rightarrow>
          if sz = 0 then Inr (False, buf)
          else (case sched_current k of
            None \<Rightarrow> bindR (of_opt (wr b 0 NUL)) (\<lambda>b1. Inr (False, Some b1))
          | Some c \<Rightarrow>
              bindR (of_opt (rd (t_cwd (the_task c k)) 0)) (\<lambda>c0.
                let cwd = (if c0 = NUL then c_string ''/'' else t_cwd (the_task c k))
                in bindR (of_opt (getcwd_loop (unat sz) 0 cwd b)) (\<lambda>(i, b1).
                   bindR (of_opt (rd cwd i)) (\<lambda>ci.
                     bindR (of_opt (wr b1 (if ci \<noteq> NUL then 0 else i) NUL)) (\<lambda>b2.
                       Inr (ci = NUL, Some b2)))))))"

end
