(* ===== verification/Exec.thy ===== *)
theory Exec
  imports Kernel
begin

section \<open>Programs: user memory, kernel/core/elf_loader.c, the arguments of a program\<close>

text \<open>
  \<open>k_mem k i a\<close> is the byte at virtual address \<open>a\<close> of the process region of the task in slot \<open>i\<close>.
  The region is \<open>[PROCESS_VA_BASE, PROCESS_VA_BASE + PROCESS_VA_SIZE)\<close>; an access outside it, or in
  the region of a task whose page table could not be allocated (theory Mm: the last slot), is a
  fault. A program image is the list of the bytes of its file. Strings for a new program come from
  the kernel (at boot) or from the memory of the program that calls \<open>execve\<close>, read byte by byte at
  the moment they are copied: the loader has then already overwritten that memory.
\<close>

definition in_region :: "u32 \<Rightarrow> bool" where
  "in_region a \<longleftrightarrow> PROCESS_VA_BASE \<le> a \<and> a < PROCESS_VA_BASE + PROCESS_VA_SIZE"

definition process_mapped :: "nat \<Rightarrow> bool" where
  "process_mapped i \<longleftrightarrow> i < MAX_PROCESS_CNT - 1"

definition mem_rd :: "nat \<Rightarrow> u32 \<Rightarrow> kernel \<Rightarrow> char res" where
  "mem_rd i a k = (if process_mapped i \<and> in_region a then Inr (k_mem k i a) else Inl (Panic ''page fault''))"

definition mem_wr :: "nat \<Rightarrow> u32 \<Rightarrow> char \<Rightarrow> kernel \<Rightarrow> kernel res" where
  "mem_wr i a c k =
     (if process_mapped i \<and> in_region a then Inr (k\<lparr>k_mem := (k_mem k)(i := (k_mem k i)(a := c))\<rparr>)
      else Inl (Panic ''page fault''))"

primrec mem_wr_list :: "nat \<Rightarrow> u32 \<Rightarrow> char list \<Rightarrow> kernel \<Rightarrow> kernel res" where
  "mem_wr_list i a [] k = Inr k"
| "mem_wr_list i a (c # cs) k = bindR (mem_wr i a c k) (mem_wr_list i (a + 1) cs)"

primrec mem_fill :: "nat \<Rightarrow> u32 \<Rightarrow> char \<Rightarrow> nat \<Rightarrow> kernel \<Rightarrow> kernel res" where
  "mem_fill i a c 0 k = Inr k"
| "mem_fill i a c (Suc n) k = bindR (mem_wr i a c k) (mem_fill i (a + 1) c n)"

text \<open>Little-endian words.\<close>

definition le32 :: "char list \<Rightarrow> u32" where
  "le32 b = of_nat (code (b ! 0) + 256 * code (b ! 1) + 65536 * code (b ! 2) + 16777216 * code (b ! 3))"

definition le16 :: "char list \<Rightarrow> u16" where
  "le16 b = of_nat (code (b ! 0) + 256 * code (b ! 1))"

definition bytes32 :: "u32 \<Rightarrow> char list" where
  "bytes32 w = [chr (unat w), chr (unat w div 256), chr (unat w div 65536), chr (unat w div 16777216)]"

definition mem_rd32 :: "nat \<Rightarrow> u32 \<Rightarrow> kernel \<Rightarrow> u32 res" where
  "mem_rd32 i a k =
     bindR (mem_rd i a k) (\<lambda>b0. bindR (mem_rd i (a + 1) k) (\<lambda>b1. bindR (mem_rd i (a + 2) k) (\<lambda>b2.
       bindR (mem_rd i (a + 3) k) (\<lambda>b3. Inr (le32 [b0, b1, b2, b3])))))"

definition mem_wr32 :: "nat \<Rightarrow> u32 \<Rightarrow> u32 \<Rightarrow> kernel \<Rightarrow> kernel res" where
  "mem_wr32 i a w k = mem_wr_list i a (bytes32 w) k"

subsection \<open>elf_loader.c\<close>

definition img16 :: "char list \<Rightarrow> nat \<Rightarrow> u16 res" where
  "img16 img off = (if off + 2 \<le> length img then Inr (le16 (take 2 (drop off img))) else Inl BadAccess)"

definition img32 :: "char list \<Rightarrow> nat \<Rightarrow> u32 res" where
  "img32 img off = (if off + 4 \<le> length img then Inr (le32 (take 4 (drop off img))) else Inl BadAccess)"

definition img_bytes :: "char list \<Rightarrow> nat \<Rightarrow> nat \<Rightarrow> char list res" where
  "img_bytes img off n =
     (if n = 0 then Inr [] else if off + n \<le> length img then Inr (take n (drop off img)) else Inl BadAccess)"

record elf_info =
  ei_entry_va :: u32
  ei_base_va :: u32
  ei_max_offset :: u32
  ei_size :: u32
  ei_environ_off :: u32
  ei_curbrk_off :: u32

definition ELF_MAGIC :: string where "ELF_MAGIC = [CHR 0x7F, CHR ''E'', CHR ''L'', CHR ''F'']"

text \<open>The four comparisons are joined by \<open>||\<close>.\<close>

definition is_elf :: "char list \<Rightarrow> bool res" where
  "is_elf img =
     bindR (of_opt (rd img 0)) (\<lambda>a. if a = CHR 0x7F then Inr True else
     bindR (of_opt (rd img 1)) (\<lambda>b. if b = CHR ''E'' then Inr True else
     bindR (of_opt (rd img 2)) (\<lambda>c. if c = CHR ''L'' then Inr True else
     bindR (of_opt (rd img 3)) (\<lambda>d. Inr (d = CHR ''F'')))))"

text \<open>One loadable segment: the bytes of the file, then zeros up to its size in memory.\<close>

definition load_segment :: "nat \<Rightarrow> char list \<Rightarrow> u32 \<Rightarrow> u32 \<Rightarrow> u32 \<Rightarrow> u32 \<Rightarrow> kernel \<Rightarrow> kernel res" where
  "load_segment slot img p_offset p_vaddr p_filesz p_memsz k =
     bindR (img_bytes img (unat p_offset) (unat p_filesz)) (\<lambda>bs.
     bindR (mem_wr_list slot p_vaddr bs k) (\<lambda>k1.
       if p_memsz > p_filesz then mem_fill slot (p_vaddr + p_filesz) NUL (unat (p_memsz - p_filesz)) k1
       else Inr k1))"

text \<open>The loop over the program headers, the next one at offset \<open>ph\<close>.\<close>

primrec load_segments ::
    "nat \<Rightarrow> nat \<Rightarrow> char list \<Rightarrow> nat \<Rightarrow> u32 \<Rightarrow> u32 \<Rightarrow> kernel \<Rightarrow> (u32 \<times> u32 \<times> kernel) res" where
  "load_segments 0 slot img ph max_end sz k = Inr (max_end, sz, k)"
| "load_segments (Suc n) slot img ph max_end sz k =
     bindR (img32 img ph) (\<lambda>p_type.
       if p_type \<noteq> 1 then load_segments n slot img (ph + 32) max_end sz k
       else
         bindR (img32 img (ph + 4)) (\<lambda>p_offset. bindR (img32 img (ph + 8)) (\<lambda>p_vaddr.
         bindR (img32 img (ph + 16)) (\<lambda>p_filesz. bindR (img32 img (ph + 20)) (\<lambda>p_memsz.
         bindR (load_segment slot img p_offset p_vaddr p_filesz p_memsz k) (\<lambda>k1.
           let end_va = p_vaddr + p_memsz
           in load_segments n slot img (ph + 32) (if end_va > max_end then end_va else max_end)
                (sz + p_filesz) k1))))))"

text \<open>The result is null for -1.\<close>

definition elf_load :: "nat \<Rightarrow> char list \<Rightarrow> kernel \<Rightarrow> (elf_info option \<times> kernel) res" where
  "elf_load slot img k =
     bindR (is_elf img) (\<lambda>ok.
       if \<not> ok then Inr (None, k)
       else bindR (img16 img 16) (\<lambda>e_type.
         if e_type \<noteq> 2 then Inr (None, k)
         else
           bindR (img32 img 28) (\<lambda>e_phoff. bindR (img16 img 44) (\<lambda>e_phnum. bindR (img32 img 24) (\<lambda>e_entry.
           bindR (load_segments (unat e_phnum) slot img (unat e_phoff) 0 0 k) (\<lambda>(max_end, sz, k1).
             Inr (Some \<lparr> ei_entry_va = e_entry, ei_base_va = 0, ei_max_offset = max_end, ei_size = sz,
                    ei_environ_off = 0, ei_curbrk_off = 0 \<rparr>, k1)))))))"

subsection \<open>Arguments and environment\<close>

text \<open>Where the strings are: kernel objects, or an array of pointers in the caller's memory.\<close>

datatype src = KStr "char list" | UStr u32
datatype args = NoArgs | KArgs "char list list" | UArgs u32

definition src_byte :: "nat \<Rightarrow> src \<Rightarrow> nat \<Rightarrow> kernel \<Rightarrow> char res" where
  "src_byte slot s j k = (case s of KStr x \<Rightarrow> of_opt (rd x j) | UStr a \<Rightarrow> mem_rd slot (a + of_nat j) k)"

text \<open>\<open>argv[i]\<close>, \<open>None\<close> for the null pointer that ends the array.\<close>

definition arg_at :: "nat \<Rightarrow> args \<Rightarrow> nat \<Rightarrow> kernel \<Rightarrow> src option res" where
  "arg_at slot av i k =
     (case av of
        NoArgs \<Rightarrow> Inl BadAccess
      | KArgs xs \<Rightarrow> Inr (if i < length xs then Some (KStr (xs ! i)) else None)
      | UArgs p \<Rightarrow> bindR (mem_rd32 slot (p + 4 * of_nat i) k) (\<lambda>q. Inr (if q = 0 then None else Some (UStr q))))"

text \<open>Both walks leave the region before the fuel is spent.\<close>

definition REGION_FUEL :: nat where "REGION_FUEL = 1048577"

fun count_args :: "nat \<Rightarrow> nat \<Rightarrow> args \<Rightarrow> nat \<Rightarrow> kernel \<Rightarrow> nat res" where
  "count_args 0 slot av i k = Inl Diverge"
| "count_args (Suc n) slot av i k =
     bindR (arg_at slot av i k) (\<lambda>p. case p of None \<Rightarrow> Inr i | Some _ \<Rightarrow> count_args n slot av (Suc i) k)"

fun src_len :: "nat \<Rightarrow> nat \<Rightarrow> src \<Rightarrow> nat \<Rightarrow> kernel \<Rightarrow> nat res" where
  "src_len 0 slot s j k = Inl Diverge"
| "src_len (Suc n) slot s j k =
     bindR (src_byte slot s j k) (\<lambda>c. if c = NUL then Inr j else src_len n slot s (Suc j) k)"

text \<open>\<open>k_memcpy\<close> from the source into the region, byte by byte.\<close>

primrec src_copy :: "nat \<Rightarrow> nat \<Rightarrow> src \<Rightarrow> nat \<Rightarrow> u32 \<Rightarrow> kernel \<Rightarrow> kernel res" where
  "src_copy 0 slot s j dst k = Inr k"
| "src_copy (Suc n) slot s j dst k =
     bindR (src_byte slot s j k) (\<lambda>c. bindR (mem_wr slot (dst + of_nat j) c k) (src_copy n slot s (Suc j) dst))"

definition set_brk :: "nat \<Rightarrow> u32 \<Rightarrow> kernel \<Rightarrow> kernel" where
  "set_brk slot b k = updt slot (\<lambda>x. x\<lparr>t_brk := b\<rparr>) k"

primrec copy_args :: "nat \<Rightarrow> nat \<Rightarrow> args \<Rightarrow> nat \<Rightarrow> u32 \<Rightarrow> kernel \<Rightarrow> kernel res" where
  "copy_args 0 slot av i heap k = Inr k"
| "copy_args (Suc n) slot av i heap k =
     bindR (arg_at slot av i k) (\<lambda>p. bindR (deref p) (\<lambda>s.
     bindR (src_len REGION_FUEL slot s 0 k) (\<lambda>l.
       let len = Suc l; dst = t_brk (the_task slot k)
       in bindR (src_copy len slot s 0 dst k) (\<lambda>k1.
          bindR (mem_wr32 slot (heap + 4 * of_nat i) dst k1) (\<lambda>k2.
            copy_args n slot av (Suc i) heap (set_brk slot (dst + of_nat len) k2))))))"

record trampoline =
  tr_main_addr :: u32
  tr_argc :: nat
  tr_heap_argv :: u32
  tr_envc :: nat
  tr_heap_envp :: u32

text \<open>What \<open>task_init_args\<close> and \<open>task_init_env\<close> share: count, reserve the array, copy, end it.\<close>

definition copy_vector :: "nat \<Rightarrow> args \<Rightarrow> kernel \<Rightarrow> (nat \<times> u32 \<times> kernel) res" where
  "copy_vector slot av k =
     bindR (if av = NoArgs then Inr 0 else count_args REGION_FUEL slot av 0 k) (\<lambda>argc.
       let heap = t_brk (the_task slot k);
           k1 = set_brk slot (heap + 4 * of_nat (argc + 1)) k
       in bindR (copy_args argc slot av 0 heap k1) (\<lambda>k2.
          bindR (mem_wr32 slot (heap + 4 * of_nat argc) 0 k2) (\<lambda>k3. Inr (argc, heap, k3))))"

definition task_init_args :: "nat \<Rightarrow> args \<Rightarrow> trampoline \<Rightarrow> kernel \<Rightarrow> (trampoline \<times> kernel) res" where
  "task_init_args slot argv tr k =
     bindR (copy_vector slot argv k) (\<lambda>(argc, heap, k1). Inr (tr\<lparr>tr_argc := argc, tr_heap_argv := heap\<rparr>, k1))"

definition task_init_env :: "nat \<Rightarrow> args \<Rightarrow> u32 \<Rightarrow> trampoline \<Rightarrow> kernel \<Rightarrow> (trampoline \<times> kernel) res" where
  "task_init_env slot envp environ_off tr k =
     bindR (copy_vector slot envp k) (\<lambda>(envc, heap, k1).
     bindR (if environ_off \<noteq> 0 then mem_wr32 slot (PROCESS_VA_BASE + environ_off) heap k1 else Inr k1) (\<lambda>k2.
       Inr (tr\<lparr>tr_envc := envc, tr_heap_envp := heap\<rparr>, k2)))"

definition align_up :: "u32 \<Rightarrow> u32 \<Rightarrow> u32" where
  "align_up v align = (v + align - 1) AND NOT (align - 1)"

text \<open>
  What \<open>task_kernel_exec\<close> and \<open>sched_execve\<close> do once the image is loaded: the heap after it and
  the arguments in the heap. \<open>None\<close> when the heap would wrap around.
\<close>

definition setup_program :: "nat \<Rightarrow> elf_info \<Rightarrow> args \<Rightarrow> args \<Rightarrow> kernel \<Rightarrow> (trampoline option \<times> kernel) res" where
  "setup_program slot info argv envp k =
     (let brk = align_up (ei_max_offset info) 16;
          limit = brk + PROCESS_HEAP_SIZE;
          k1 = updt slot (\<lambda>x. x\<lparr>t_brk := brk, t_brk_limit := limit\<rparr>) k
      in if brk > limit then Inr (None, k1)
         else
           bindR (if ei_curbrk_off info \<noteq> 0 then mem_wr32 slot (PROCESS_VA_BASE + ei_curbrk_off info) brk k1
                  else Inr k1) (\<lambda>k2.
           let k3 = updt slot (\<lambda>x. x\<lparr>t_u_sp := PROCESS_STACK_TOP\<rparr>) k2;
               tr = \<lparr> tr_main_addr = ei_entry_va info, tr_argc = 0, tr_heap_argv = 0, tr_envc = 0, tr_heap_envp = 0 \<rparr>
           in bindR (task_init_args slot argv tr k3) (\<lambda>(tr1, k4).
              bindR (task_init_env slot envp (ei_environ_off info) tr1 k4) (\<lambda>(tr2, k5).
                Inr (Some tr2, k5)))))"

subsection \<open>kernel/core/mm.c\<close>

definition mm_brk :: "u32 \<Rightarrow> kernel \<Rightarrow> int \<times> kernel" where
  "mm_brk addr k =
     (case sched_current k of
        None \<Rightarrow> (-1, k)
      | Some c \<Rightarrow>
          if addr > t_brk_limit (the_task c k) then (-1, k)
          else (0, set_brk c addr k))"

end
