(* ===== verification/Process.thy ===== *)
theory Process
  imports Vfs Exec Sched
begin

section \<open>kernel/core/sched.c: the life of a process\<close>

text \<open>
  Creation (\<open>task_kernel_exec\<close>, \<open>sched_fork\<close>), replacement of the program (\<open>sched_execve\<close>), signals
  (\<open>sched_kill\<close>), the end (\<open>sched_exit\<close>) and its collection by the parent (\<open>sched_waitpid\<close>). A
  parent's children are a list linked by \<open>next_sibling\<close>, newest first. \<open>sched_waitpid\<close> is in two
  parts, before and after its \<open>wait_event\<close>; theory Syscall puts the waiting between them.
\<close>

definition signal_init :: "nat \<Rightarrow> kernel \<Rightarrow> kernel" where
  "signal_init t k =
     (updt t (\<lambda>x. x\<lparr>t_pending := 0\<rparr>) k)\<lparr>k_wh := wait_queue_init (ChildQ t) (wait_queue_init (ExitQ t) (k_wh k))\<rparr>"

definition task_init_tty :: "nat \<Rightarrow> int \<Rightarrow> kernel \<Rightarrow> kernel" where
  "task_init_tty t tty_id k =
     (let y = (if tty_id \<ge> 0 then tty_get (word_of_int tty_id)
               else case k_current k of
                      Some c \<Rightarrow> (case t_ctty (the_task c k) of Some y \<Rightarrow> Some y | None \<Rightarrow> tty_active k)
                    | None \<Rightarrow> tty_active k)
      in updt t (\<lambda>x. x\<lparr>t_ctty := y\<rparr>) k)"

definition task_init_cwd :: "nat \<Rightarrow> kernel \<Rightarrow> kernel res" where
  "task_init_cwd t k =
     bindR (if t_parent (the_task t k) = Some t then Inr (c_string ''/'')
            else bindR (deref (k_current k)) (\<lambda>c. Inr (t_cwd (the_task c k)))) (\<lambda>src.
     bindR (of_opt (k_strcpy (t_cwd (the_task t k)) src)) (\<lambda>b.
       Inr (updt t (\<lambda>x. x\<lparr>t_cwd := b\<rparr>) k)))"

definition table_free :: "nat \<Rightarrow> kernel \<Rightarrow> kernel res" where
  "table_free t k =
     bindR (task_table_free t (k_tt k, k_tasks k)) (\<lambda>(tt, ts). Inr (k\<lparr>k_tt := tt, k_tasks := ts\<rparr>))"

definition table_alloc :: "kernel \<Rightarrow> (nat option \<times> kernel) res" where
  "table_alloc k =
     bindR (task_table_alloc (k_tt k, k_tasks k)) (\<lambda>(t, tt, ts). Inr (t, k\<lparr>k_tt := tt, k_tasks := ts\<rparr>))"

text \<open>The fields \<open>task_kernel_exec\<close> sets before the image is loaded.\<close>

definition new_task :: "nat \<Rightarrow> char list \<Rightarrow> task \<Rightarrow> task" where
  "new_task t name x =
     x\<lparr>t_u_sp := PROCESS_STACK_TOP, t_name := name, t_ctxt := 0, t_sys_call_cnt := 0, t_exit_status := 0,
       t_state := TASK_QUEUED, t_children := None, t_parent := Some t, t_next_sibling := None\<rparr>"

text \<open>The result is the task and what it starts with, or null.\<close>

definition exec_fail :: "string \<Rightarrow> kernel \<Rightarrow> ((nat \<times> trampoline) option \<times> kernel) res" where
  "exec_fail msg k = bindR (kprint msg k) (\<lambda>k1. Inr (None, k1))"

definition load_new_task ::
    "bins \<Rightarrow> nat \<Rightarrow> nat \<Rightarrow> string \<Rightarrow> args \<Rightarrow> args \<Rightarrow> kernel \<Rightarrow> ((nat \<times> trampoline) option \<times> kernel) res" where
  "load_new_task bins bin t filename argv envp k =
     bindR (of_opt (rd bins bin)) (\<lambda>b.
     bindR (elf_load t (bin_bytes b) k) (\<lambda>(info, k1).
       case info of
         None \<Rightarrow> bindR (kprint (''task_kernel_exec: Failed to load the binary '' @ filename @ [CHR 0x0A]) k1) (\<lambda>k2.
                  bindR (table_free t k2) (\<lambda>k3. Inr (None, k3)))
       | Some ei \<Rightarrow>
           bindR (setup_program t ei argv envp k1) (\<lambda>(tr, k2).
             case tr of
               None \<Rightarrow> bindR (kprint (''task_kernel_exec: not enough space '' @ filename @ [CHR 0x0A]) k2) (\<lambda>k3.
                        bindR (table_free t k3) (\<lambda>k4. Inr (None, k4)))
             | Some tr \<Rightarrow> Inr (Some (t, tr), k2))))"

definition task_kernel_exec ::
    "bins \<Rightarrow> string \<Rightarrow> int \<Rightarrow> args \<Rightarrow> args \<Rightarrow> kernel \<Rightarrow> ((nat \<times> trampoline) option \<times> kernel) res" where
  "task_kernel_exec bins filename tty_id argv envp k =
     (if tty_id \<ge> int TTY_COUNT
      then exec_fail (''task_kernel_exec: too high tty '' @ itos tty_id @ '' for binary '' @ filename @ [CHR 0x0A]) k
      else bindR (of_opt (find_bin bins (c_string filename))) (\<lambda>bin.
        case bin of
          None \<Rightarrow> exec_fail (''task_kernel_exec: unknown binary '' @ [CHR 0x27] @ filename @ [CHR 0x27, CHR 0x0A]) k
        | Some bin \<Rightarrow>
            bindR (table_alloc k) (\<lambda>(task, k1).
              case task of
                None \<Rightarrow> exec_fail (''task_kernel_exec: failed to allocate task for '' @ filename @ [CHR 0x0A]) k1
              | Some t \<Rightarrow>
                  bindR (of_opt (k_strcpy (t_name (the_task t k1)) (c_string filename))) (\<lambda>name.
                  bindR (task_init_cwd t (task_init_tty t tty_id (signal_init t (updt t (new_task t name) k1)))) (\<lambda>k2.
                    load_new_task bins bin t filename argv envp k2)))))"

definition sched_kernel_exec ::
    "bins \<Rightarrow> string \<Rightarrow> int \<Rightarrow> args \<Rightarrow> args \<Rightarrow> kernel \<Rightarrow> (int \<times> (nat \<times> trampoline) option \<times> kernel) res" where
  "sched_kernel_exec bins filename tty_id argv envp k =
     bindR (task_kernel_exec bins filename tty_id argv envp k) (\<lambda>(task, k1).
       case task of
         None \<Rightarrow> Inr (-1, None, k1)
       | Some (t, tr) \<Rightarrow> bindR (sched_enqueue t k1) (\<lambda>k2. Inr (t_pid (the_task t k2), Some (t, tr), k2)))"

subsection \<open>fork\<close>

definition link_child :: "nat \<Rightarrow> nat \<Rightarrow> kernel \<Rightarrow> kernel" where
  "link_child parent child k =
     updt parent (\<lambda>x. x\<lparr>t_children := Some child\<rparr>)
       (updt child (\<lambda>x. x\<lparr>t_parent := Some parent, t_next_sibling := t_children (the_task parent k)\<rparr>) k)"

text \<open>
  The copy of the address space (theory Mm models \<open>mm_copy_vma\<close> through the page tables); an
  unmapped page is a panic.
\<close>

definition copy_region :: "nat \<Rightarrow> nat \<Rightarrow> kernel \<Rightarrow> kernel res" where
  "copy_region dst src k =
     (if \<not> process_mapped src then Inl (Panic ''mm_copy_vma: source VA not mapped'')
      else if \<not> process_mapped dst then Inl (Panic ''mm_copy_vma: dest VA not mapped'')
      else Inr (k\<lparr>k_mem := (k_mem k)(dst := k_mem k src)\<rparr>))"

definition sched_fork :: "kernel \<Rightarrow> (int \<times> nat option \<times> kernel) res" where
  "sched_fork k =
     (case sched_current k of
        None \<Rightarrow> Inr (- ESRCH, None, k)
      | Some parent \<Rightarrow>
          bindR (table_alloc k) (\<lambda>(task, k1).
            case task of
              None \<Rightarrow> Inr (- ENOMEM, None, k1)
            | Some child \<Rightarrow>
                let p = the_task parent k1
                in bindR (of_opt (k_strcpy (t_name (the_task child k1)) (t_name p))) (\<lambda>name.
                   let k2 = link_child parent child (updt child (\<lambda>x. x\<lparr>t_name := name\<rparr>) k1);
                       k3 = updt child (\<lambda>x. x\<lparr>t_u_sp := t_u_sp p, t_brk := t_brk p, t_brk_limit := t_brk_limit p\<rparr>) k2
                   in bindR (of_opt (k_strcpy (t_cwd (the_task child k3)) (t_cwd p))) (\<lambda>cwd.
                      let k4 = updt child (\<lambda>x. x\<lparr>t_cwd := cwd, t_ctty := t_ctty p\<rparr>) k3;
                          k5 = updt child (\<lambda>x. x\<lparr>t_ctxt := 0, t_sys_call_cnt := 0, t_exit_status := 0\<rparr>) (signal_init child k4)
                      in bindR (copy_region child parent k5) (\<lambda>k6.
                         bindR (sched_enqueue child (updt child (\<lambda>x. x\<lparr>t_state := TASK_QUEUED\<rparr>) k6)) (\<lambda>k7.
                           Inr (t_pid (the_task child k7), Some child, k7)))))))"

subsection \<open>exit\<close>

text \<open>The loop that closes all files, from descriptor \<open>16 - n\<close> on.\<close>

primrec close_all :: "nat \<Rightarrow> nat \<Rightarrow> kernel \<Rightarrow> kernel res" where
  "close_all 0 t k = Inr k"
| "close_all (Suc n) t k =
     (let fd = RLIMIT_NOFILE - Suc n
      in bindR (of_opt (rd (t_files (the_task t k)) fd)) (\<lambda>f.
         case f of
           None \<Rightarrow> close_all n t k
         | Some _ \<Rightarrow> bindR (vfs_close (Some t) (int fd) k) (\<lambda>(_, k1). close_all n t k1)))"

text \<open>\<open>sched_exit\<close> up to its call of \<open>sched_schedule\<close>, which does not return.\<close>

definition exit_current :: "int \<Rightarrow> kernel \<Rightarrow> kernel res" where
  "exit_current status k =
     (case k_current k of
        None \<Rightarrow> Inl (Panic (''sched_exit:exit failed because there is no current task.'' @ [CHR 0x0A]))
      | Some c \<Rightarrow>
          bindR (close_all RLIMIT_NOFILE c k) (\<lambda>k1.
            let k2 = updt c (\<lambda>x. x\<lparr>t_exit_status := status, t_state := TASK_ZOMBIE\<rparr>) k1
            in bindR (wakeup_on (ExitQ c) k2) (\<lambda>k3.
               bindR (if t_parent (the_task c k3) = Some c then Inr k3
                      else bindR (deref (t_parent (the_task c k3))) (\<lambda>p. wakeup_on (ChildQ p) k3)) (\<lambda>k4.
                 Inr (k4\<lparr>k_current := None\<rparr>)))))"

definition sched_exit :: "int \<Rightarrow> kernel \<Rightarrow> kernel res" where
  "sched_exit status k = bindR (exit_current status k) sched_schedule"

subsection \<open>execve\<close>

text \<open>
  The new program of the current task. \<open>ExecExits\<close>: the loading failed after the old program was
  given up, and \<open>sched_exit\<close> ran. A null pointer in \<open>argv\<close> or \<open>envp\<close> is \<open>NoArgs\<close>.
\<close>

datatype exec_result = ExecFails int kernel | ExecRuns trampoline kernel | ExecExits kernel

definition user_args :: "u32 \<Rightarrow> args" where
  "user_args p = (if p = 0 then NoArgs else UArgs p)"

definition sched_execve :: "bins \<Rightarrow> char list \<Rightarrow> u32 \<Rightarrow> u32 \<Rightarrow> kernel \<Rightarrow> exec_result res" where
  "sched_execve bins pathname argv envp k =
     (case sched_current k of
        None \<Rightarrow> Inr (ExecFails (- ESRCH) k)
      | Some c \<Rightarrow>
          bindR (of_opt (find_bin bins pathname)) (\<lambda>bin.
            case bin of
              None \<Rightarrow> Inr (ExecFails (- ENOENT) k)
            | Some bin \<Rightarrow>
                bindR (of_opt (k_strcpy (t_name (the_task c k)) pathname)) (\<lambda>name.
                bindR (of_opt (rd bins bin)) (\<lambda>b.
                bindR (elf_load c (bin_bytes b) (updt c (\<lambda>x. x\<lparr>t_name := name\<rparr>) k)) (\<lambda>(info, k1).
                  case info of
                    None \<Rightarrow> bindR (sched_exit (-1) k1) (\<lambda>k2. Inr (ExecExits k2))
                  | Some ei \<Rightarrow>
                      bindR (setup_program c ei (user_args argv) (user_args envp) k1) (\<lambda>(tr, k2).
                        case tr of
                          None \<Rightarrow> bindR (sched_exit (-1) k2) (\<lambda>k3. Inr (ExecExits k3))
                        | Some tr \<Rightarrow> Inr (ExecRuns tr (updt c (\<lambda>x. x\<lparr>t_pending := 0\<rparr>) k2))))))))"

subsection \<open>kill and the pid\<close>

text \<open>The test names \<open>TASK_INTERRUPTIBLE\<close> twice.\<close>

definition sched_kill :: "int \<Rightarrow> int \<Rightarrow> kernel \<Rightarrow> (int \<times> kernel) res" where
  "sched_kill pid sig k =
     (if sig \<le> 0 \<or> sig > MAX_SIGNALS then Inr (-1, k)
      else (case task_table_find_task_by_pid (k_tasks k) pid of
              None \<Rightarrow> Inr (-1, k)
            | Some t \<Rightarrow>
                let k1 = updt t (\<lambda>x. x\<lparr>t_pending := t_pending x OR push_bit (nat (sig - 1)) 1\<rparr>) k
                in if t_state (the_task t k1) = TASK_INTERRUPTIBLE \<or> t_state (the_task t k1) = TASK_INTERRUPTIBLE
                   then bindR (sched_enqueue t k1) (\<lambda>k2. Inr (0, k2))
                   else Inr (0, k1)))"

definition sched_getpid :: "kernel \<Rightarrow> int res" where
  "sched_getpid k = bindR (deref (k_current k)) (\<lambda>c. Inr (t_pid (the_task c k)))"

subsection \<open>waitpid\<close>

text \<open>The children of a task from pointer \<open>p\<close> on; a list without end spends the fuel.\<close>

definition CHILD_FUEL :: nat where "CHILD_FUEL = MAX_PROCESS_CNT + 1"

fun find_child_by_pid :: "nat \<Rightarrow> nat option \<Rightarrow> int \<Rightarrow> tasks \<Rightarrow> nat option res" where
  "find_child_by_pid 0 p pid ts = Inl Diverge"
| "find_child_by_pid (Suc n) None pid ts = Inr None"
| "find_child_by_pid (Suc n) (Some c) pid ts =
     (if t_pid (ts c) = pid then Inr (Some c) else find_child_by_pid n (t_next_sibling (ts c)) pid ts)"

fun find_zombie_child :: "nat \<Rightarrow> nat option \<Rightarrow> tasks \<Rightarrow> nat option res" where
  "find_zombie_child 0 p ts = Inl Diverge"
| "find_zombie_child (Suc n) None ts = Inr None"
| "find_zombie_child (Suc n) (Some c) ts =
     (if t_state (ts c) = TASK_ZOMBIE then Inr (Some c) else find_zombie_child n (t_next_sibling (ts c)) ts)"

definition zombie_of :: "nat \<Rightarrow> kernel \<Rightarrow> nat option res" where
  "zombie_of parent k = find_zombie_child CHILD_FUEL (t_children (the_task parent k)) (k_tasks k)"

text \<open>The conditions tasks wait for.\<close>

datatype wait_cond = InputOf nat | IsZombie nat | HasZombieChild nat

definition holds :: "wait_cond \<Rightarrow> kernel \<Rightarrow> bool res" where
  "holds cd k =
     (case cd of
        InputOf i \<Rightarrow> Inr (tty_input_available i k)
      | IsZombie t \<Rightarrow> Inr (t_state (the_task t k) = TASK_ZOMBIE)
      | HasZombieChild p \<Rightarrow> bindR (zombie_of p k) (\<lambda>z. Inr (z \<noteq> None)))"

text \<open>
  The pointer to the pointer that is followed: a parent's \<open>children\<close> or a child's \<open>next_sibling\<close>.
\<close>

datatype loc = ChildrenOf nat | SiblingOf nat

definition at_loc :: "loc \<Rightarrow> tasks \<Rightarrow> nat option" where
  "at_loc l ts = (case l of ChildrenOf p \<Rightarrow> t_children (ts p) | SiblingOf c \<Rightarrow> t_next_sibling (ts c))"

definition set_loc :: "loc \<Rightarrow> nat option \<Rightarrow> tasks \<Rightarrow> tasks" where
  "set_loc l v ts =
     (case l of ChildrenOf p \<Rightarrow> upd p (\<lambda>x. x\<lparr>t_children := v\<rparr>) ts
      | SiblingOf c \<Rightarrow> upd c (\<lambda>x. x\<lparr>t_next_sibling := v\<rparr>) ts)"

fun unlink_child :: "nat \<Rightarrow> loc \<Rightarrow> nat \<Rightarrow> tasks \<Rightarrow> tasks res" where
  "unlink_child 0 prev child ts = Inl Diverge"
| "unlink_child (Suc n) prev child ts =
     (case at_loc prev ts of
        None \<Rightarrow> Inr ts
      | Some c \<Rightarrow> if c = child then Inr (set_loc prev (t_next_sibling (ts child)) ts)
                  else unlink_child n (SiblingOf c) child ts)"

text \<open>The last part: the status, which is written unless the pointer is null, and the pid.\<close>

definition reap :: "nat \<Rightarrow> nat \<Rightarrow> kernel \<Rightarrow> (int \<times> int \<times> kernel) res" where
  "reap c child k =
     (let status = t_exit_status (the_task child k)
      in bindR (unlink_child CHILD_FUEL (ChildrenOf c) child (k_tasks k)) (\<lambda>ts.
         let k1 = k\<lparr>k_tasks := ts\<rparr>; result = t_pid (the_task child k1)
         in bindR (table_free child k1) (\<lambda>k2. Inr (result, status, k2))))"

datatype wait_step = WaitResult int | WaitReap nat | WaitSleep wq_id wait_cond "nat option"

definition sched_waitpid_begin :: "int \<Rightarrow> int \<Rightarrow> kernel \<Rightarrow> wait_step res" where
  "sched_waitpid_begin pid options k =
     (if options AND NOT 1 \<noteq> 0 then Inr (WaitResult (- EINVAL))
      else if pid > 0 then
        bindR (deref (sched_current k)) (\<lambda>c.
        bindR (find_child_by_pid CHILD_FUEL (t_children (the_task c k)) pid (k_tasks k)) (\<lambda>child.
          case child of
            None \<Rightarrow> Inr (WaitResult (- ECHILD))
          | Some ch \<Rightarrow>
              if t_state (the_task ch k) = TASK_ZOMBIE then Inr (WaitReap ch)
              else if options AND 1 \<noteq> 0 then Inr (WaitResult 0)
              else Inr (WaitSleep (ExitQ ch) (IsZombie ch) (Some ch))))
      else if pid = -1 then
        bindR (deref (sched_current k)) (\<lambda>c.
        bindR (zombie_of c k) (\<lambda>child.
          case child of
            Some ch \<Rightarrow> Inr (WaitReap ch)
          | None \<Rightarrow>
              if t_children (the_task c k) = None then Inr (WaitResult (- ECHILD))
              else if options AND 1 \<noteq> 0 then Inr (WaitResult 0)
              else Inr (WaitSleep (ChildQ c) (HasZombieChild c) None)))
      else Inr (WaitResult (- EINVAL)))"

definition sched_waitpid_resume :: "nat \<Rightarrow> nat option \<Rightarrow> kernel \<Rightarrow> wait_step res" where
  "sched_waitpid_resume c child k =
     (case child of
        Some ch \<Rightarrow> Inr (if t_state (the_task ch k) \<noteq> TASK_ZOMBIE then WaitResult (- EINTR) else WaitReap ch)
      | None \<Rightarrow> bindR (zombie_of c k) (\<lambda>z. Inr (case z of None \<Rightarrow> WaitResult (- EINTR) | Some ch \<Rightarrow> WaitReap ch)))"

subsection \<open>sched_init\<close>

definition sched_init :: "bins \<Rightarrow> kernel \<Rightarrow> (trampoline \<times> kernel) res" where
  "sched_init bins k =
     (let (tt, ts) = task_table_init (k_tt k, k_tasks k);
          k1 = k\<lparr>k_current := None, k_ctxt := 0, k_rq := run_queue_init, k_tt := tt, k_tasks := ts\<rparr>
      in bindR (task_kernel_exec bins ''/sbin/swapper'' 0 (KArgs [c_string ''/sbin/swapper'']) (KArgs []) k1) (\<lambda>(task, k2).
         case task of
           None \<Rightarrow> Inl (Panic (''sched_init: failed to allocate a task for the swapper'' @ [CHR 0x0A]))
         | Some (t, tr) \<Rightarrow> Inr (tr, k2\<lparr>k_swapper := Some t\<rparr>)))"

end
