(* ===== verification/Preempt.thy ===== *)
theory Preempt
  imports Tty
begin

section \<open>Interrupts inside the scheduling code\<close>

text \<open>
  After boot the kernel runs with interrupts on: the entry of a system call (arch/x86/syscall.asm) does
  not turn them off, \<open>irq_disable\<close> and \<open>irq_restore\<close> (arch/x86/irq.c) have no callers, and only
  \<open>ctx_switch\<close> and \<open>mm_activate\<close> turn them off, to turn them on again before they return. So the keyboard handler,
  which wakes readers and pushes them on the run queue, can run in the middle of the code that works on
  the same queues. A gate of the interrupt table lets no second interrupt into the handler (theory Irq).

  Here are the routines that share the queues with the handler statement by statement, with the
  places between two statements as \<open>point\<close>s; \<open>cu p\<close> are the scancodes of the interrupts that arrive at \<open>p\<close>.
  With none (\<open>uncut\<close>) each routine is the one of theories RunQueue, WaitQueue and Sched. The machine of theory
  Syscall takes its steps with such interrupts; theory Races shows which points are harmful.
\<close>

datatype point =
    AfterTest
  | AfterState
  | InAdd nat
  | BeforeSchedule
  | AfterTick
  | InPoll nat
  | AfterPoll
  | InPush nat
  | BeforeSwitch

type_synonym cuts = "point \<Rightarrow> u8 list"

abbreviation uncut :: cuts where "uncut \<equiv> \<lambda>_. []"

text \<open>Interrupts one after another.\<close>

primrec irqs :: "u8 list \<Rightarrow> kernel \<Rightarrow> kernel res" where
  "irqs [] k = Inr k"
| "irqs (sc # scs) k = bindR (keyboard_irq sc k) (irqs scs)"

definition wh_do :: "(wheap \<Rightarrow> wheap) \<Rightarrow> kernel \<Rightarrow> kernel" where
  "wh_do f k = k\<lparr>k_wh := f (k_wh k)\<rparr>"

definition rq_do :: "(run_queue \<Rightarrow> run_queue) \<Rightarrow> kernel \<Rightarrow> kernel" where
  "rq_do f k = k\<lparr>k_rq := f (k_rq k)\<rparr>"

definition wait_queue_add_at :: "cuts \<Rightarrow> wq_id \<Rightarrow> nat \<Rightarrow> kernel \<Rightarrow> kernel res" where
  "wait_queue_add_at cu q e k =
     (if e_queue (wh_entries (k_wh k) e) \<noteq> None then Inr k
      else
        bindR (irqs (cu (InAdd 0)) k) (\<lambda>k.
        bindR (irqs (cu (InAdd 1)) (wh_do (upde e (\<lambda>x. x\<lparr>e_queue := Some q\<rparr>)) k)) (\<lambda>k.
        bindR (irqs (cu (InAdd 2)) (wh_do (upde e (\<lambda>x. x\<lparr>e_prev := wq_tail (wh_queues (k_wh k) q)\<rparr>)) k)) (\<lambda>k.
        bindR (irqs (cu (InAdd 3)) (wh_do (upde e (\<lambda>x. x\<lparr>e_next := None\<rparr>)) k)) (\<lambda>k.
        bindR (if wq_tail (wh_queues (k_wh k) q) \<noteq> None
               then bindR (irqs (cu (InAdd 4)) k) (\<lambda>k.
                    bindR (deref (wq_tail (wh_queues (k_wh k) q))) (\<lambda>l.
                      Inr (wh_do (upde l (\<lambda>x. x\<lparr>e_next := Some e\<rparr>)) k)))
               else bindR (irqs (cu (InAdd 5)) k) (\<lambda>k.
                      Inr (wh_do (updq q (\<lambda>x. x\<lparr>wq_head := Some e\<rparr>)) k))) (\<lambda>k.
        bindR (irqs (cu (InAdd 6)) k) (\<lambda>k.
          Inr (wh_do (updq q (\<lambda>x. x\<lparr>wq_tail := Some e\<rparr>)) k))))))))"

definition run_queue_poll_at :: "cuts \<Rightarrow> kernel \<Rightarrow> (nat option \<times> kernel) res" where
  "run_queue_poll_at cu k =
     (if rq_len (k_rq k) = 0 then Inr (None, k)
      else
        bindR (irqs (cu (InPoll 0)) k) (\<lambda>k.
        bindR (deref (rq_first (k_rq k))) (\<lambda>t.
        bindR (irqs (cu (InPoll 1)) k) (\<lambda>k.
        bindR (irqs (cu (InPoll 2)) (rq_do (\<lambda>rq. rq\<lparr>rq_first := t_next (the_task t k)\<rparr>) k)) (\<lambda>k.
        bindR (irqs (cu (InPoll 3)) (rq_do (\<lambda>rq. rq\<lparr>rq_len := rq_len rq - 1\<rparr>) k)) (\<lambda>k.
        bindR (if rq_len (k_rq k) = 0
               then bindR (irqs (cu (InPoll 4)) k) (\<lambda>k. Inr (rq_do (\<lambda>rq. rq\<lparr>rq_last := None\<rparr>) k))
               else Inr k) (\<lambda>k.
        bindR (irqs (cu (InPoll 5)) k) (\<lambda>k.
          Inr (Some t, updt t (\<lambda>x. x\<lparr>t_next := None\<rparr>) k)))))))))"

definition run_queue_push_at :: "cuts \<Rightarrow> nat \<Rightarrow> kernel \<Rightarrow> kernel res" where
  "run_queue_push_at cu t k =
     bindR (irqs (cu (InPush 0)) (updt t (\<lambda>x. x\<lparr>t_next := None\<rparr>) k)) (\<lambda>k.
     bindR (if rq_len (k_rq k) = 0
            then bindR (irqs (cu (InPush 1)) k) (\<lambda>k. Inr (rq_do (\<lambda>rq. rq\<lparr>rq_first := Some t, rq_last := Some t\<rparr>) k))
            else bindR (irqs (cu (InPush 2)) k) (\<lambda>k.
                 bindR (deref (rq_last (k_rq k))) (\<lambda>l.
                 bindR (irqs (cu (InPush 3)) (updt l (\<lambda>x. x\<lparr>t_next := Some t\<rparr>) k)) (\<lambda>k.
                   Inr (rq_do (\<lambda>rq. rq\<lparr>rq_last := Some t\<rparr>) k))))) (\<lambda>k.
     bindR (irqs (cu (InPush 4)) k) (\<lambda>k.
       Inr (rq_do (\<lambda>rq. rq\<lparr>rq_len := rq_len rq + 1\<rparr>) k))))"

definition sched_schedule_at :: "cuts \<Rightarrow> kernel \<Rightarrow> kernel res" where
  "sched_schedule_at cu k =
     bindR (sched_tick k) (\<lambda>k.
     let prev = k_current k
     in bindR (irqs (cu AfterTick) k) (\<lambda>k.
        bindR (run_queue_poll_at cu k) (\<lambda>(polled, k).
        bindR (irqs (cu AfterPoll) k) (\<lambda>k.
        let nxt = (case polled of None \<Rightarrow> k_swapper k | Some t \<Rightarrow> Some t)
        in case prev of
             None \<Rightarrow> bindR (irqs (cu BeforeSwitch) k) (switch_to nxt)
           | Some p \<Rightarrow>
               let k = updt p (\<lambda>x. x\<lparr>t_ctxt := t_ctxt x + 1\<rparr>) k
               in if nxt = k_swapper k \<and> t_state (k_tasks k p) = TASK_RUNNING then Inr k
                  else if \<not> sleeping (k_tasks k p)
                  then let k = updt p (\<lambda>x. x\<lparr>t_state := TASK_QUEUED\<rparr>) k
                       in bindR (if Some p \<noteq> k_swapper k then run_queue_push_at cu p k else Inr k) (\<lambda>k.
                          bindR (irqs (cu BeforeSwitch) k) (switch_to nxt))
                  else bindR (irqs (cu BeforeSwitch) k) (switch_to nxt)))))"

subsection \<open>Without interrupts\<close>

lemma wait_queue_add_uncut: "wait_queue_add_at uncut q e k = Inr (k\<lparr>k_wh := wait_queue_add q e (k_wh k)\<rparr>)"
  by (cases "wq_tail (wh_queues (k_wh k) q)")
    (auto simp: wait_queue_add_at_def wait_queue_add_def wh_do_def upde_def updq_def deref_def Let_def)

lemma run_queue_poll_uncut:
  "run_queue_poll_at uncut k = bindR (run_queue_poll (k_rq k, k_tasks k)) (\<lambda>(t, rq, ts). Inr (t, k\<lparr>k_rq := rq, k_tasks := ts\<rparr>))"
  by (cases "rq_first (k_rq k)")
    (simp_all add: run_queue_poll_at_def run_queue_poll_def rq_do_def updt_def the_task_def deref_def Let_def)

lemma run_queue_push_uncut: "run_queue_push_at uncut t k = sched_enqueue t k"
  by (cases "rq_last (k_rq k)")
    (simp_all add: run_queue_push_at_def sched_enqueue_def run_queue_push_def rq_do_def updt_def deref_def Let_def)

lemma sched_schedule_uncut: "sched_schedule_at uncut k = sched_schedule k"
  unfolding sched_schedule_at_def sched_schedule_def run_queue_poll_uncut run_queue_push_uncut
  by (auto simp: bindR_def Let_def updt_def sched_enqueue_def split: sum.splits option.splits)

text \<open>Going to sleep in \<open>wait_event\<close>, from its test on.\<close>

datatype wait_mode = WAIT_UNINTERRUPTIBLE | WAIT_INTERRUPTIBLE

definition sleep_at :: "cuts \<Rightarrow> wq_id \<Rightarrow> nat \<Rightarrow> wait_mode \<Rightarrow> kernel \<Rightarrow> kernel res" where
  "sleep_at cu q c md k =
     bindR (irqs (cu AfterTest) k) (\<lambda>k.
     bindR (irqs (cu AfterState)
         (updt c (\<lambda>x. x\<lparr>t_state := (if md = WAIT_INTERRUPTIBLE then TASK_INTERRUPTIBLE else TASK_UNINTERRUPTIBLE)\<rparr>) k))
       (wait_queue_add_at cu q c))"

text \<open>Interrupts that arrive before \<open>sched_schedule\<close> is called, and nowhere in it or in \<open>wait_event\<close>.\<close>

definition gentle :: "cuts \<Rightarrow> bool" where
  "gentle cu \<longleftrightarrow> (\<forall>p. p \<noteq> BeforeSchedule \<longrightarrow> cu p = [])"

lemma gentle_simps:
  assumes "gentle cu"
  shows "cu AfterTest = []" "cu AfterState = []" "cu (InAdd n) = []" "cu AfterTick = []" "cu (InPoll n) = []" "cu AfterPoll = []"
    "cu (InPush n) = []" "cu BeforeSwitch = []"
  using assms by (simp_all add: gentle_def)

lemma gentle_uncut [simp]: "gentle uncut"
  by (simp add: gentle_def)

lemma wait_queue_add_gentle: "gentle cu \<Longrightarrow> wait_queue_add_at cu = wait_queue_add_at uncut"
  by (intro ext) (simp only: wait_queue_add_at_def gentle_simps)

lemma sched_schedule_gentle:
  assumes g: "gentle cu" shows "sched_schedule_at cu k = sched_schedule k"
proof -
  have "run_queue_poll_at cu = run_queue_poll_at uncut" "run_queue_push_at cu = run_queue_push_at uncut"
    by (intro ext; simp only: run_queue_poll_at_def run_queue_push_at_def gentle_simps [OF g])+
  then show ?thesis unfolding sched_schedule_uncut [symmetric] by (simp only: sched_schedule_at_def gentle_simps [OF g])
qed

lemma sleep_gentle:
  assumes g: "gentle cu"
  shows "sleep_at cu q c md k =
    (let k1 = updt c (\<lambda>x. x\<lparr>t_state := (if md = WAIT_INTERRUPTIBLE then TASK_INTERRUPTIBLE else TASK_UNINTERRUPTIBLE)\<rparr>) k
     in Inr (k1\<lparr>k_wh := wait_queue_add q c (k_wh k1)\<rparr>))"
  by (simp add: sleep_at_def gentle_simps [OF g] wait_queue_add_gentle [OF g] wait_queue_add_uncut Let_def)

end
