(* ===== verification/Syscall.thy ===== *)
theory Syscall
  imports Process Clock Preempt
begin

section \<open>kernel/core/syscall.c and wait_event: the kernel as a machine\<close>

text \<open>
  A task in the kernel runs until it calls \<open>sched_schedule\<close>; what it does when it is switched to
  again is its continuation (\<open>cont\<close>), which the C code keeps on the task's kernel stack. A step of
  the machine is a system call of the current task up to its next call of \<open>sched_schedule\<close>, the
  continuation of the current task likewise, or a keyboard interrupt between two such steps. Interrupts
  also come inside a step: while \<open>wait_event\<close> puts its caller to sleep and in the call of
  \<open>sched_schedule\<close> that ends the step, at the places of theory Preempt. In the code before that, and in
  the code of \<open>fork\<close>, \<open>exit\<close>, \<open>kill\<close> and \<open>execve\<close>, a step has no interrupts, although the source
  lets them in there too.
  Pointers into a program's memory are passed as the objects they point to and come back changed
  (\<open>out\<close>); those of \<open>execve\<close> are addresses, because the new program overwrites what they point to.

  \<open>sys_enter_dispatch_c\<close> is the part of a system call up to its first \<open>sched_schedule\<close>,
  \<open>sys_continue\<close> the part after it, \<open>wait_start\<close>, \<open>wait_check\<close> and \<open>wait_resume\<close> are the pieces of
  \<open>wait_event\<close>, whose loop is the sequence of a waiting task's steps.
\<close>

datatype syscall =
    SysWrite int "char list option" u32
  | SysRead int "char list option" u32
  | SysOpen "char list option" int int
  | SysClose int
  | SysGetdents int "dirent list option" u32
  | SysFstat int "stat option"
  | SysFork
  | SysExecve "char list" u32 u32
  | SysExit int
  | SysKill int int
  | SysWaitpid int int
  | SysGetpid
  | SysSchedYield
  | SysNice
  | SysBrk u32
  | SysChdir "char list option"
  | SysGetcwd "char list option" u32
  | SysClockGettime int "timespec option"
  | SysSetctty int
  | SysOther u32

definition syscall_nr :: "syscall \<Rightarrow> u32" where
  "syscall_nr c = (case c of
     SysExit _ \<Rightarrow> 1 | SysFork \<Rightarrow> 2 | SysRead _ _ _ \<Rightarrow> 3 | SysWrite _ _ _ \<Rightarrow> 4 | SysOpen _ _ _ \<Rightarrow> 5 | SysClose _ \<Rightarrow> 6
   | SysWaitpid _ _ \<Rightarrow> 7 | SysExecve _ _ _ \<Rightarrow> 11 | SysChdir _ \<Rightarrow> 12 | SysGetpid \<Rightarrow> 20 | SysNice \<Rightarrow> 34 | SysKill _ _ \<Rightarrow> 37
   | SysBrk _ \<Rightarrow> 45 | SysFstat _ _ \<Rightarrow> 108 | SysGetdents _ _ _ \<Rightarrow> 141 | SysSchedYield \<Rightarrow> 158 | SysGetcwd _ _ \<Rightarrow> 183
   | SysClockGettime _ _ \<Rightarrow> 265 | SysSetctty _ \<Rightarrow> 500 | SysOther n \<Rightarrow> n)"

text \<open>What a call wrote through its pointer.\<close>

datatype out = OutNone | OutBuf "char list option" | OutDents "dirent list option" | OutStat "stat option"
  | OutStatus int | OutTime "timespec option"

text \<open>After \<open>wait_event\<close>: the rest of \<open>tty_read\<close> or of \<open>sched_waitpid\<close>.\<close>

datatype after = ThenTake nat "char list" u32 | ThenReap "nat option"

datatype cont =
    User u32 out
  | Start trampoline
  | Yielded syscall
  | Reading int "char list option" u32
  | Waiting wq_id wait_cond wait_mode after
  | Gone

text \<open>
  How a piece of kernel code ends: back in the program, at a call of \<open>sched_schedule\<close>, in
  \<open>wait_event\<close> when its condition was tested false, after a switch that does not return, or back in the
  program with a new task beside it.
\<close>

datatype action = Back u32 out kernel | Yield cont kernel | Sleep wq_id wait_cond wait_mode after kernel
  | Leave cont kernel | Spawn u32 nat kernel

definition back_int :: "int \<Rightarrow> kernel \<Rightarrow> action" where
  "back_int r k = Back (word_of_int r) OutNone k"

subsection \<open>wait_event\<close>

definition wait_done :: "after \<Rightarrow> nat \<Rightarrow> kernel \<Rightarrow> action res" where
  "wait_done af c k =
     (case af of
        ThenTake i buf count \<Rightarrow>
          bindR (tty_read_end i buf count k) (\<lambda>(r, b, k1). Inr (Back (word_of_int r) (OutBuf (Some b)) k1))
      | ThenReap child \<Rightarrow>
          bindR (sched_waitpid_resume c child k) (\<lambda>w.
            case w of
              WaitReap ch \<Rightarrow> bindR (reap c ch k) (\<lambda>(r, st, k1). Inr (Back (word_of_int r) (OutStatus st) k1))
            | WaitResult r \<Rightarrow> Inr (back_int r k)
            | WaitSleep _ _ _ \<Rightarrow> Inl Diverge))"

definition wait_check :: "wq_id \<Rightarrow> wait_cond \<Rightarrow> wait_mode \<Rightarrow> after \<Rightarrow> nat \<Rightarrow> kernel \<Rightarrow> action res" where
  "wait_check q cd md af c k =
     bindR (holds cd k) (\<lambda>h. if h then wait_done af c k else Inr (Sleep q cd md af k))"

definition wait_start :: "wq_id \<Rightarrow> wait_cond \<Rightarrow> wait_mode \<Rightarrow> after \<Rightarrow> nat \<Rightarrow> kernel \<Rightarrow> action res" where
  "wait_start q cd md af c k =
     wait_check q cd md af c (k\<lparr>k_wh := wait_queue_entry_init c (Some c) (k_wh k)\<rparr>)"

definition wait_resume :: "wq_id \<Rightarrow> wait_cond \<Rightarrow> wait_mode \<Rightarrow> after \<Rightarrow> nat \<Rightarrow> kernel \<Rightarrow> action res" where
  "wait_resume q cd md af c k =
     (let k1 = k\<lparr>k_wh := wait_queue_remove c (k_wh k)\<rparr>
      in if t_pending (the_task c k1) \<noteq> 0 \<and> md = WAIT_INTERRUPTIBLE
         then bindR (sched_exit (-1) k1) (\<lambda>k2. Inr (Leave Gone k2))
         else wait_check q cd md af c k1)"

subsection \<open>sys_enter_dispatch_c\<close>

definition schedules_first :: "syscall \<Rightarrow> bool" where
  "schedules_first call = (case call of
     SysFork \<Rightarrow> False | SysExecve _ _ _ \<Rightarrow> False | SysExit _ \<Rightarrow> False | SysKill _ _ \<Rightarrow> False | SysWaitpid _ _ \<Rightarrow> False
   | SysNice \<Rightarrow> False | SysSetctty _ \<Rightarrow> False | SysOther _ \<Rightarrow> False | _ \<Rightarrow> True)"

definition do_fork :: "kernel \<Rightarrow> action res" where
  "do_fork k = bindR (sched_fork k) (\<lambda>(r, child, k1).
     Inr (case child of None \<Rightarrow> back_int r k1 | Some ch \<Rightarrow> Spawn (word_of_int r) ch k1))"

definition do_execve :: "bins \<Rightarrow> nat \<Rightarrow> char list \<Rightarrow> u32 \<Rightarrow> u32 \<Rightarrow> kernel \<Rightarrow> action res" where
  "do_execve bins c path argv envp k =
     bindR (sched_execve bins path argv envp k) (\<lambda>r.
       case r of
         ExecFails e k1 \<Rightarrow> Inr (back_int e k1)
       | ExecExits k1 \<Rightarrow> Inr (Leave Gone k1)
       | ExecRuns tr k1 \<Rightarrow>
           bindR (sched_enqueue c (updt c (\<lambda>x. x\<lparr>t_state := TASK_QUEUED\<rparr>) k1)) (\<lambda>k2.
           bindR (sched_schedule (k2\<lparr>k_current := None\<rparr>)) (\<lambda>k3. Inr (Leave (Start tr) k3))))"

definition do_waitpid :: "nat \<Rightarrow> int \<Rightarrow> int \<Rightarrow> kernel \<Rightarrow> action res" where
  "do_waitpid c pid options k =
     bindR (sched_waitpid_begin pid options k) (\<lambda>w.
       case w of
         WaitResult r \<Rightarrow> Inr (back_int r k)
       | WaitReap ch \<Rightarrow> bindR (reap c ch k) (\<lambda>(r, st, k1). Inr (Back (word_of_int r) (OutStatus st) k1))
       | WaitSleep q cd child \<Rightarrow> wait_start q cd WAIT_INTERRUPTIBLE (ThenReap child) c k)"

definition do_setctty :: "nat \<Rightarrow> int \<Rightarrow> kernel \<Rightarrow> action" where
  "do_setctty c i k =
     (case tty_get (word_of_int i) of
        None \<Rightarrow> back_int (- EINVAL) k
      | Some y \<Rightarrow> back_int 0 (updt c (\<lambda>x. x\<lparr>t_ctty := Some y\<rparr>) k))"

definition sys_enter_dispatch_c :: "bins \<Rightarrow> syscall \<Rightarrow> kernel \<Rightarrow> action res" where
  "sys_enter_dispatch_c bins call k =
     (case sched_current k of
        None \<Rightarrow> bindR (kprint (''No current task'' @ [CHR 0x0A]) k) (\<lambda>k1. Inr (back_int (-1) k1))
      | Some c \<Rightarrow>
          let k1 = updt c (\<lambda>x. x\<lparr>t_sys_call_cnt := t_sys_call_cnt x + 1\<rparr>) k
          in if schedules_first call then Inr (Yield (Yielded call) k1)
             else case call of
               SysFork \<Rightarrow> do_fork k1
             | SysExecve path argv envp \<Rightarrow> do_execve bins c path argv envp k1
             | SysExit status \<Rightarrow> bindR (sched_exit status k1) (\<lambda>k2. Inr (Leave Gone k2))
             | SysKill pid sig \<Rightarrow> bindR (sched_kill pid sig k1) (\<lambda>(r, k2). Inr (back_int r k2))
             | SysWaitpid pid options \<Rightarrow> do_waitpid c pid options k1
             | SysNice \<Rightarrow> Inr (back_int 0 k1)
             | SysSetctty i \<Rightarrow> Inr (do_setctty c i k1)
             | _ \<Rightarrow> Inr (back_int (- ENOSYS) k1))"

text \<open>After the first \<open>sched_schedule\<close>. \<open>now\<close> is the reading of the time-stamp counter.\<close>

definition sys_continue :: "bins \<Rightarrow> clock \<Rightarrow> u64 \<Rightarrow> nat \<Rightarrow> syscall \<Rightarrow> kernel \<Rightarrow> action res" where
  "sys_continue bins clk now c call k =
     (case call of
        SysWrite fd buf count \<Rightarrow> bindR (vfs_write fd buf count k) (\<lambda>(r, k1). Inr (back_int r k1))
      | SysRead fd buf count \<Rightarrow> Inr (Yield (Reading fd buf count) k)
      | SysOpen path flags mode \<Rightarrow> bindR (vfs_open bins (Some c) path flags mode k) (\<lambda>(r, k1). Inr (back_int r k1))
      | SysClose fd \<Rightarrow> bindR (vfs_close (Some c) fd k) (\<lambda>(r, k1). Inr (back_int r k1))
      | SysGetdents fd buf count \<Rightarrow>
          bindR (vfs_getdents bins fd buf count k) (\<lambda>(r, b, k1). Inr (Back (word_of_int r) (OutDents b) k1))
      | SysFstat fd st \<Rightarrow> bindR (vfs_fstat bins (Some c) fd st k) (\<lambda>(r, s1). Inr (Back (word_of_int r) (OutStat s1) k))
      | SysGetpid \<Rightarrow> bindR (sched_getpid k) (\<lambda>r. Inr (back_int r k))
      | SysSchedYield \<Rightarrow> Inr (back_int 0 k)
      | SysBrk addr \<Rightarrow> (let (r, k1) = mm_brk addr k in Inr (back_int r k1))
      | SysChdir path \<Rightarrow> bindR (vfs_chdir bins path k) (\<lambda>(r, k1). Inr (back_int r k1))
      | SysGetcwd buf sz \<Rightarrow>
          bindR (vfs_getcwd buf sz k) (\<lambda>(ok, b). Inr (Back (if ok then 1 else 0) (OutBuf b) k))
      | SysClockGettime clk_id tp \<Rightarrow>
          (let (r, tp1) = kclock_gettime clk_id tp now clk in Inr (Back (word_of_int r) (OutTime tp1) k))
      | _ \<Rightarrow> Inr (back_int (- ENOSYS) k))"

text \<open>\<open>vfs_read\<close> after its own \<open>sched_schedule\<close>.\<close>

definition read_continue :: "bins \<Rightarrow> nat \<Rightarrow> int \<Rightarrow> char list option \<Rightarrow> u32 \<Rightarrow> kernel \<Rightarrow> action res" where
  "read_continue bins c fd buf count k =
     bindR (vfs_read_begin bins fd buf count k) (\<lambda>r.
       case r of
         ReadDone n b k1 \<Rightarrow> Inr (Back (word_of_int n) (OutBuf b) k1)
       | ReadWaits i \<Rightarrow>
           bindR (deref buf) (\<lambda>b. wait_start (TtyQ i) (InputOf i) WAIT_INTERRUPTIBLE (ThenTake i b count) c k))"

text \<open>
  A new program: \<open>task_trampoline\<close> (arch/x86/sched.asm) opens the three standard files, whatever
  the results, and jumps to the program.
\<close>

definition start_program :: "bins \<Rightarrow> nat \<Rightarrow> kernel \<Rightarrow> action res" where
  "start_program bins c k =
     bindR (vfs_open bins (Some c) (Some (c_string ''/dev/stdin'')) 0 0 k) (\<lambda>(_, k1).
     bindR (vfs_open bins (Some c) (Some (c_string ''/dev/stdout'')) 1 0 k1) (\<lambda>(_, k2).
     bindR (vfs_open bins (Some c) (Some (c_string ''/dev/stderr'')) 1 0 k2) (\<lambda>(_, k3).
       Inr (Back 0 OutNone k3))))"

definition resume :: "bins \<Rightarrow> clock \<Rightarrow> u64 \<Rightarrow> nat \<Rightarrow> cont \<Rightarrow> kernel \<Rightarrow> action res" where
  "resume bins clk now c cn k =
     (case cn of
        Start tr \<Rightarrow> start_program bins c k
      | Yielded call \<Rightarrow> sys_continue bins clk now c call k
      | Reading fd buf count \<Rightarrow> read_continue bins c fd buf count k
      | Waiting q cd md af \<Rightarrow> wait_resume q cd md af c k
      | User _ _ \<Rightarrow> Inl BadAccess
      | Gone \<Rightarrow> Inl BadAccess)"

subsection \<open>The machine\<close>

record machine =
  m_kernel :: kernel
  m_cont :: "nat \<Rightarrow> cont"
  m_clock :: clock

text \<open>A system call and a piece of kernel code come with the interrupts that arrive inside them.\<close>

datatype event = Call syscall cuts | Run u64 cuts | Key u8

definition event_cuts :: "event \<Rightarrow> cuts" where
  "event_cuts ev = (case ev of Call _ cu \<Rightarrow> cu | Run _ cu \<Rightarrow> cu | Key _ \<Rightarrow> uncut)"

lemma event_cuts_simps [simp]: "event_cuts (Call call cu) = cu" "event_cuts (Run now cu) = cu" "event_cuts (Key sc) = uncut"
  by (simp_all add: event_cuts_def)

text \<open>The call of \<open>sched_schedule\<close> that ends a piece of code.\<close>

definition leave_cpu :: "cuts \<Rightarrow> nat \<Rightarrow> cont \<Rightarrow> kernel \<Rightarrow> machine \<Rightarrow> machine res" where
  "leave_cpu cu c cn k m =
     bindR (irqs (cu BeforeSchedule) k) (\<lambda>k.
     bindR (sched_schedule_at cu k) (\<lambda>k. Inr (m\<lparr>m_kernel := k, m_cont := (m_cont m)(c := cn)\<rparr>)))"

definition perform :: "cuts \<Rightarrow> nat \<Rightarrow> action \<Rightarrow> machine \<Rightarrow> machine res" where
  "perform cu c a m =
     (case a of
        Back r out k \<Rightarrow> Inr (m\<lparr>m_kernel := k, m_cont := (m_cont m)(c := User r out)\<rparr>)
      | Yield cn k \<Rightarrow> leave_cpu cu c cn k m
      | Sleep q cd md af k \<Rightarrow> bindR (sleep_at cu q c md k) (\<lambda>k. leave_cpu cu c (Waiting q cd md af) k m)
      | Leave cn k \<Rightarrow> Inr (m\<lparr>m_kernel := k, m_cont := (m_cont m)(c := cn)\<rparr>)
      | Spawn r ch k \<Rightarrow> Inr (m\<lparr>m_kernel := k, m_cont := (m_cont m)(c := User r OutNone, ch := User 0 OutNone)\<rparr>))"

definition in_user :: "machine \<Rightarrow> nat \<Rightarrow> bool" where
  "in_user m c \<longleftrightarrow> (case m_cont m c of User _ _ \<Rightarrow> True | _ \<Rightarrow> False)"

text \<open>Whether an event can happen: calls from a program, kernel code otherwise, keys at any time.\<close>

definition enabled :: "machine \<Rightarrow> event \<Rightarrow> bool" where
  "enabled m ev = (case k_current (m_kernel m) of
     None \<Rightarrow> False
   | Some c \<Rightarrow> (case ev of Call _ _ \<Rightarrow> in_user m c | Run _ _ \<Rightarrow> \<not> in_user m c \<and> m_cont m c \<noteq> Gone | Key _ \<Rightarrow> True))"

definition mstep :: "bins \<Rightarrow> event \<Rightarrow> machine \<Rightarrow> machine res" where
  "mstep bins ev m =
     (case ev of
        Key sc \<Rightarrow> bindR (keyboard_irq sc (m_kernel m)) (\<lambda>k. Inr (m\<lparr>m_kernel := k\<rparr>))
      | Call call cu \<Rightarrow>
          bindR (deref (k_current (m_kernel m))) (\<lambda>c.
          bindR (sys_enter_dispatch_c bins call (m_kernel m)) (\<lambda>a. perform cu c a m))
      | Run now cu \<Rightarrow>
          bindR (deref (k_current (m_kernel m))) (\<lambda>c.
          bindR (resume bins (m_clock m) now c (m_cont m c) (m_kernel m)) (\<lambda>a. perform cu c a m)))"

inductive reachable :: "bins \<Rightarrow> machine \<Rightarrow> machine \<Rightarrow> bool" for bins m0 where
  start: "reachable bins m0 m0"
| step: "reachable bins m0 m \<Longrightarrow> enabled m ev \<Longrightarrow> mstep bins ev m = Inr m' \<Longrightarrow> reachable bins m0 m'"

end
