(* ===== verification/Irq.thy ===== *)
theory Irq
  imports Prelude
begin

section \<open>arch/x86/irq.c: the interrupt table\<close>

text \<open>
  The interrupt descriptor table, the table of C handlers, the masks of the two interrupt controllers
  (what their data ports 0x21 and 0xA1 were last given, which is what they read back) and the flags
  register, whose bit 9 lets interrupts in. A function pointer is its address; the addresses of the
  table and of the assembly stubs are chosen by the linker and are parameters. \<open>boot_interrupts\<close> is what
  \<open>kmain\<close> does to this state: \<open>idt_init\<close>, the gate \<open>mm_init\<close> installs, the one \<open>keyboard_init\<close> installs
  with its line unmasked, and \<open>interrupts_enable\<close>. What an interrupt does to the kernel is in theory
  Tty (\<open>keyboard_irq\<close>) and theory Report (\<open>page_fault_handler\<close>).
\<close>

record idt_entry =
  ie_offset_low :: u16
  ie_selector :: u16
  ie_zero :: u8
  ie_type_attr :: u8
  ie_offset_high :: u16

record idt_ptr =
  ip_limit :: u16
  ip_base :: u32

record irq_regs =
  iq_idt :: "idt_entry list"
  iq_idtp :: idt_ptr
  iq_lidt :: idt_ptr
  iq_handlers :: "u32 list"
  iq_mask1 :: u8
  iq_mask2 :: u8
  iq_eflags :: u32

definition IDT_ENTRIES :: nat where "IDT_ENTRIES = 256"
definition GDT_KERNEL_CS :: u16 where "GDT_KERNEL_CS = push_bit 3 1"
definition IDT_FLAGS_KERNEL_INT :: u8 where "IDT_FLAGS_KERNEL_INT = 0x80 OR 0x00 OR 0x0E"
definition EFLAGS_IF :: u32 where "EFLAGS_IF = 0x200"

definition idt_set_gate :: "u8 \<Rightarrow> u32 \<Rightarrow> u16 \<Rightarrow> u8 \<Rightarrow> irq_regs \<Rightarrow> irq_regs" where
  "idt_set_gate num handler selector flags s =
     s\<lparr>iq_idt := (iq_idt s)[unat num :=
         \<lparr> ie_offset_low = ucast (handler AND 0xFFFF), ie_selector = selector, ie_zero = 0, ie_type_attr = flags,
           ie_offset_high = ucast (drop_bit 16 handler) \<rparr>]\<rparr>"

definition pic_mask_all :: "irq_regs \<Rightarrow> irq_regs" where
  "pic_mask_all s = s\<lparr>iq_mask1 := 0xFF, iq_mask2 := 0xFF\<rparr>"

definition irq_register_handler :: "u8 \<Rightarrow> u32 \<Rightarrow> irq_regs \<Rightarrow> irq_regs" where
  "irq_register_handler vector handler s = s\<lparr>iq_handlers := (iq_handlers s)[unat vector := handler]\<rparr>"

text \<open>The loop of \<open>idt_init\<close>, from entry \<open>i\<close> on with \<open>k\<close> entries left.\<close>

primrec idt_loop :: "nat \<Rightarrow> u32 \<Rightarrow> nat \<Rightarrow> irq_regs \<Rightarrow> irq_regs" where
  "idt_loop 0 isr_default i s = s"
| "idt_loop (Suc k) isr_default i s =
     idt_loop k isr_default (Suc i)
       (idt_set_gate (of_nat i) isr_default GDT_KERNEL_CS IDT_FLAGS_KERNEL_INT (s\<lparr>iq_handlers := (iq_handlers s)[i := 0]\<rparr>))"

definition idt_init :: "u32 \<Rightarrow> u32 \<Rightarrow> irq_regs \<Rightarrow> irq_regs" where
  "idt_init idt_addr isr_default s =
     (let s1 = s\<lparr>iq_idtp := \<lparr> ip_limit = of_nat (IDT_ENTRIES * 8 - 1), ip_base = idt_addr \<rparr>\<rparr>;
          s2 = idt_loop IDT_ENTRIES isr_default 0 s1
      in pic_mask_all (s2\<lparr>iq_lidt := iq_idtp s2\<rparr>))"

text \<open>The instruction \<open>cli\<close>.\<close>

definition cli :: "irq_regs \<Rightarrow> irq_regs" where
  "cli s = s\<lparr>iq_eflags := iq_eflags s AND NOT EFLAGS_IF\<rparr>"

definition irq_disable :: "irq_regs \<Rightarrow> u32 \<times> irq_regs" where
  "irq_disable s = (iq_eflags s, s\<lparr>iq_eflags := iq_eflags s AND NOT EFLAGS_IF\<rparr>)"

definition irq_restore :: "u32 \<Rightarrow> irq_regs \<Rightarrow> irq_regs" where
  "irq_restore flags s = s\<lparr>iq_eflags := flags\<rparr>"

definition interrupts_enable :: "irq_regs \<Rightarrow> irq_regs" where
  "interrupts_enable s = s\<lparr>iq_eflags := iq_eflags s OR EFLAGS_IF\<rparr>"

definition interrupts_are_enabled :: "irq_regs \<Rightarrow> bool" where
  "interrupts_are_enabled s \<longleftrightarrow> iq_eflags s AND EFLAGS_IF \<noteq> 0"

text \<open>The end of \<open>keyboard_init\<close>, and the interrupts of the whole boot.\<close>

definition keyboard_irq_setup :: "u32 \<Rightarrow> irq_regs \<Rightarrow> irq_regs" where
  "keyboard_irq_setup stub s =
     (let s1 = idt_set_gate 0x09 stub 0x08 0x8E s
      in s1\<lparr>iq_mask1 := iq_mask1 s1 AND NOT 2\<rparr>)"

definition boot_interrupts :: "u32 \<Rightarrow> u32 \<Rightarrow> u32 \<Rightarrow> u32 \<Rightarrow> irq_regs \<Rightarrow> irq_regs" where
  "boot_interrupts idt_addr isr_default isr_page_fault keyboard_irq_stub s =
     interrupts_enable
       (keyboard_irq_setup keyboard_irq_stub
         (idt_set_gate 14 isr_page_fault GDT_KERNEL_CS 0x8E
           (idt_init idt_addr isr_default s)))"

lemma enable_simps [simp]:
  "interrupts_enable (cli s) = interrupts_enable s" "interrupts_enable (interrupts_enable s) = interrupts_enable s"
  "keyboard_irq_setup stub (interrupts_enable s) = interrupts_enable (keyboard_irq_setup stub s)"
proof -
  show "interrupts_enable (cli s) = interrupts_enable s"
    by (simp add: interrupts_enable_def cli_def) (rule irq_regs.cases [of s], simp, rule bit_word_eqI, auto simp: bit_simps)
qed (simp_all add: interrupts_enable_def keyboard_irq_setup_def idt_set_gate_def Let_def ac_simps)

subsection \<open>Where the gates lead\<close>

definition gate_address :: "idt_entry \<Rightarrow> u32" where
  "gate_address e = push_bit 16 (ucast (ie_offset_high e)) OR ucast (ie_offset_low e)"

text \<open>A present 32-bit interrupt gate of the kernel to \<open>a\<close>.\<close>

definition kernel_gate :: "u32 \<Rightarrow> idt_entry \<Rightarrow> bool" where
  "kernel_gate a e \<longleftrightarrow> gate_address e = a \<and> ie_selector e = 8 \<and> ie_zero e = 0 \<and> ie_type_attr e = 0x8E"

lemma gate_constants: "GDT_KERNEL_CS = 8" "IDT_FLAGS_KERNEL_INT = 0x8E"
  by (simp_all add: GDT_KERNEL_CS_def IDT_FLAGS_KERNEL_INT_def)

text \<open>The two halves of the address make the address again.\<close>

lemma split_address: "push_bit 16 (ucast (ucast (drop_bit 16 (a::u32)) :: u16)) OR ucast (ucast (a AND 0xFFFF) :: u16) = a"
proof (rule bit_word_eqI)
  fix n assume n: "n < LENGTH(32)"
  have m: "(0xFFFF :: u32) = mask 16" by (simp add: mask_eq_exp_minus_1)
  show "bit (push_bit 16 (ucast (ucast (drop_bit 16 a) :: u16)) OR ucast (ucast (a AND 0xFFFF) :: u16) :: u32) n = bit a n"
    using n unfolding m by (cases "n < 16") (auto simp: bit_or_iff bit_push_bit_iff bit_ucast_iff bit_drop_bit_eq bit_and_iff bit_mask_iff)
qed

lemma idt_set_gate_simps [simp]:
  "length (iq_idt (idt_set_gate n a sel fl s)) = length (iq_idt s)"
  "iq_handlers (idt_set_gate n a sel fl s) = iq_handlers s" "iq_mask1 (idt_set_gate n a sel fl s) = iq_mask1 s"
  "iq_mask2 (idt_set_gate n a sel fl s) = iq_mask2 s" "iq_eflags (idt_set_gate n a sel fl s) = iq_eflags s"
  "iq_idtp (idt_set_gate n a sel fl s) = iq_idtp s" "iq_lidt (idt_set_gate n a sel fl s) = iq_lidt s"
  by (simp_all add: idt_set_gate_def)

lemma idt_set_gate_nth:
  assumes "i < length (iq_idt s)"
  shows "i = unat n \<Longrightarrow> kernel_gate a (iq_idt (idt_set_gate n a 8 0x8E s) ! i)"
    "i \<noteq> unat n \<Longrightarrow> iq_idt (idt_set_gate n a sel fl s) ! i = iq_idt s ! i"
  using assms by (simp_all add: idt_set_gate_def kernel_gate_def gate_address_def split_address)

lemma idt_loop_ok:
  assumes "length (iq_idt s) = 256" "length (iq_handlers s) = 256" "i + k = 256"
    and "\<forall>j < i. kernel_gate a (iq_idt s ! j)" "\<forall>j < i. iq_handlers s ! j = 0"
  shows "length (iq_idt (idt_loop k a i s)) = 256 \<and> length (iq_handlers (idt_loop k a i s)) = 256
    \<and> (\<forall>j < 256. kernel_gate a (iq_idt (idt_loop k a i s) ! j)) \<and> (\<forall>j < 256. iq_handlers (idt_loop k a i s) ! j = 0)
    \<and> iq_eflags (idt_loop k a i s) = iq_eflags s \<and> iq_idtp (idt_loop k a i s) = iq_idtp s"
  using assms
proof (induction k arbitrary: i s)
  case (Suc k)
  let ?s = "idt_set_gate (of_nat i) a GDT_KERNEL_CS IDT_FLAGS_KERNEL_INT (s\<lparr>iq_handlers := (iq_handlers s)[i := 0]\<rparr>)"
  have u: "unat (of_nat i :: u8) = i" using Suc.prems(3) by (simp add: unat_of_nat)
  have g: "kernel_gate a (iq_idt ?s ! j)" if "j < Suc i" for j
  proof (cases "j = i")
    case True
    then show ?thesis unfolding gate_constants using u Suc.prems(1,3) by (intro idt_set_gate_nth(1)) simp_all
  next
    case False
    have "iq_idt ?s ! j = iq_idt s ! j"
      using idt_set_gate_nth(2) [of j "s\<lparr>iq_handlers := (iq_handlers s)[i := 0]\<rparr>" "of_nat i"] u False that Suc.prems(1,3) by simp
    then show ?thesis using Suc.prems(4) False that by simp
  qed
  have h: "iq_handlers ?s ! j = 0" if "j < Suc i" for j
    using that Suc.prems(2,3,5) by (cases "j = i") simp_all
  have "length (iq_idt ?s) = 256" "length (iq_handlers ?s) = 256" "Suc i + k = 256" using Suc.prems by simp_all
  from Suc.IH [OF this] g h show ?case by simp
qed simp

lemma idt_init_ok:
  assumes "length (iq_idt s) = 256" "length (iq_handlers s) = 256"
  shows "length (iq_idt (idt_init b a s)) = 256 \<and> (\<forall>j < 256. kernel_gate a (iq_idt (idt_init b a s) ! j))
    \<and> iq_handlers (idt_init b a s) = replicate 256 0 \<and> iq_mask1 (idt_init b a s) = 0xFF \<and> iq_mask2 (idt_init b a s) = 0xFF
    \<and> iq_eflags (idt_init b a s) = iq_eflags s \<and> iq_lidt (idt_init b a s) = \<lparr> ip_limit = 2047, ip_base = b \<rparr>"
proof -
  let ?s = "s\<lparr>iq_idtp := \<lparr> ip_limit = of_nat (IDT_ENTRIES * 8 - 1), ip_base = b \<rparr>\<rparr>"
  note l = idt_loop_ok [of ?s 0 256 a]
  have "iq_handlers (idt_loop 256 a 0 ?s) = replicate 256 0"
    by (rule nth_equalityI) (use l assms in simp_all)
  then show ?thesis using l assms by (simp add: idt_init_def pic_mask_all_def Let_def IDT_ENTRIES_def)
qed

definition bss_irq :: irq_regs where
  "bss_irq = \<lparr> iq_idt = replicate 256 \<lparr> ie_offset_low = 0, ie_selector = 0, ie_zero = 0, ie_type_attr = 0, ie_offset_high = 0 \<rparr>,
     iq_idtp = \<lparr> ip_limit = 0, ip_base = 0 \<rparr>, iq_lidt = \<lparr> ip_limit = 0, ip_base = 0 \<rparr>, iq_handlers = replicate 256 0,
     iq_mask1 = 0, iq_mask2 = 0, iq_eflags = 2 \<rparr>"

lemma bss_irq_simps: "length (iq_idt bss_irq) = 256" "length (iq_handlers bss_irq) = 256" "iq_eflags bss_irq = 2"
  by (simp_all add: bss_irq_def)

text \<open>
  C33: after boot the interrupt table is complete. Each of the 256 vectors has a present kernel
  interrupt gate: vector 9 leads to the keyboard stub, 14 to the page fault stub and every other to
  the default that only returns. The processor was told the table's address and last byte, only
  the keyboard's line is unmasked, and interrupts are on; \<open>irq_disable\<close> turns them off and \<open>irq_restore\<close>
  with what it returned puts everything back.
\<close>

theorem boot_installs_gates:
  "let s = boot_interrupts idt_addr isr_default pf_stub kbd_stub bss_irq; (flags, s') = irq_disable s
   in list_all2 kernel_gate (map (\<lambda>n. if n = 9 then kbd_stub else if n = 14 then pf_stub else isr_default) [0..<256]) (iq_idt s)
     \<and> iq_lidt s = \<lparr> ip_limit = 2047, ip_base = idt_addr \<rparr> \<and> iq_mask1 s = 0xFD \<and> iq_mask2 s = 0xFF
     \<and> interrupts_are_enabled s \<and> \<not> interrupts_are_enabled s' \<and> irq_restore flags s' = s"
proof -
  let ?init = "idt_init idt_addr isr_default bss_irq"
  let ?s1 = "idt_set_gate 14 pf_stub GDT_KERNEL_CS 0x8E ?init"
  let ?s2 = "idt_set_gate 0x09 kbd_stub 0x08 0x8E ?s1"
  let ?s = "boot_interrupts idt_addr isr_default pf_stub kbd_stub bss_irq"
  have i: "length (iq_idt ?init) = 256" "\<And>j. j < 256 \<Longrightarrow> kernel_gate isr_default (iq_idt ?init ! j)" "iq_mask1 ?init = 0xFF"
    "iq_mask2 ?init = 0xFF" "iq_eflags ?init = 2" "iq_lidt ?init = \<lparr> ip_limit = 2047, ip_base = idt_addr \<rparr>"
    using idt_init_ok [of bss_irq idt_addr isr_default] bss_irq_simps by simp_all
  have idt: "iq_idt ?s = iq_idt ?s2"
    by (simp add: boot_interrupts_def keyboard_irq_setup_def interrupts_enable_def Let_def)
  have gate: "kernel_gate (if n = 9 then kbd_stub else if n = 14 then pf_stub else isr_default) (iq_idt ?s2 ! n)"
    if n: "n < 256" for n
  proof -
    have 9: "iq_idt ?s2 ! n = iq_idt ?s1 ! n" if "n \<noteq> 9"
      using idt_set_gate_nth(2) [of n ?s1 "0x09"] n that i(1) by simp
    have 14: "iq_idt ?s1 ! n = iq_idt ?init ! n" if "n \<noteq> 14"
      using idt_set_gate_nth(2) [of n ?init 14] n that i(1) by simp
    consider "n = 9" | "n = 14" | "n \<noteq> 9" "n \<noteq> 14" by blast
    then show ?thesis
    proof cases
      case 1
      then show ?thesis using idt_set_gate_nth(1) [of n ?s1 "0x09" kbd_stub] n i(1) by simp
    next
      case 2
      then show ?thesis using idt_set_gate_nth(1) [of n ?init 14 pf_stub] 9 n i(1) by (simp add: gate_constants)
    next
      case 3
      then show ?thesis using 9 14 i(2) n by simp
    qed
  qed
  define leads where "leads = (\<lambda>n :: nat. if n = 9 then kbd_stub else if n = 14 then pf_stub else isr_default)"
  have "list_all2 kernel_gate (map leads [0..<256]) (iq_idt ?s)"
  proof (rule list_all2_all_nthI)
    fix n assume "n < length (map leads [0..<256])"
    then have n: "n < 256" by simp
    have "map leads [0..<256] ! n = leads n" using n by (simp del: upt_Suc)
    then show "kernel_gate (map leads [0..<256] ! n) (iq_idt ?s ! n)" using gate [OF n] by (simp only: idt leads_def)
  qed (simp add: idt i(1))
  moreover have "iq_lidt ?s = \<lparr> ip_limit = 2047, ip_base = idt_addr \<rparr>" "iq_mask1 ?s = 0xFD" "iq_mask2 ?s = 0xFF" "iq_eflags ?s = 0x202"
    by (simp_all add: boot_interrupts_def keyboard_irq_setup_def interrupts_enable_def Let_def i EFLAGS_IF_def)
  ultimately show ?thesis
    unfolding leads_def by (simp add: irq_disable_def irq_restore_def interrupts_are_enabled_def EFLAGS_IF_def del: upt_Suc)
qed

end
