(* ===== verification/Mm.thy ===== *)
theory Mm
  imports Task Irq "HOL-Library.Numeral_Type"
begin

section \<open>arch/x86/mm.c: page tables\<close>

text \<open>
  The address spaces: a page directory whose entries point to page tables, allocated from a pool of
  \<open>MM_PAGING_PAGES_TOTAL\<close> pages. A pointer to a directory or a table is the physical address of its
  page (\<open>kernel_va_to_pa\<close> maps the pointers one to one to these); \<open>pdmem\<close> and \<open>ptmem\<close> are the
  contents of the pages used as directories and as tables, \<open>phys\<close> the bytes of the others. An
  element of \<open>mm_impl_pool\<close> is part of the \<open>mm\<close> that points to it: both pools are used up in step.
  A list of \<open>vma\<close>s is a HOL list, because the code only ever puts one in front. The addresses the
  linker chooses are \<open>pool_pa\<close>, the premain range and the stub \<open>isr_page_fault\<close>. The interrupt table and the
  processor's flags (theory Irq) are part of the state, because \<open>mm_init\<close> installs a gate and \<open>mm_activate\<close> ends with \<open>sti\<close>. The processor's cache of translations is kept
  exact by the calls of \<open>invlpg\<close>, so an access is a walk of the current page tables.
\<close>

subsection \<open>Data\<close>

unbundle bit_operations_syntax

definition PAGE_SIZE :: u32 where "PAGE_SIZE = 4096"
definition PAGE_MASK :: u32 where "PAGE_MASK = NOT (PAGE_SIZE - 1)"
definition KERNEL_VA :: u32 where "KERNEL_VA = 0x80000000"
definition VGA_TEXT_BUFFER_VA :: u32 where "VGA_TEXT_BUFFER_VA = 0xB8000"
definition VGA_TEXT_BUFFER_SIZE :: u32 where "VGA_TEXT_BUFFER_SIZE = 0x1000"
definition VM_PT_COVERS_BYTES :: u32 where "VM_PT_COVERS_BYTES = 4 * 1024 * 1024"
definition VM_USER_PTS_PER_PROC :: u32 where
  "VM_USER_PTS_PER_PROC = (PROCESS_VA_SIZE + VM_PT_COVERS_BYTES - 1) div VM_PT_COVERS_BYTES"
definition MM_PAGING_PAGES_TOTAL :: u32 where
  "MM_PAGING_PAGES_TOTAL = of_nat MAX_PROCESS_CNT * (1 + VM_USER_PTS_PER_PROC)"
definition MAX_VMAS_TOTAL :: u32 where "MAX_VMAS_TOTAL = of_nat MAX_PROCESS_CNT * 16"
definition COPY_SRC_VA :: u32 where "COPY_SRC_VA = 0xFF000000"
definition COPY_DST_VA :: u32 where "COPY_DST_VA = 0xFF001000"

definition PTE_P :: u32 where "PTE_P = 1"
definition PTE_W :: u32 where "PTE_W = 2"
definition PTE_U :: u32 where "PTE_U = 4"

definition PTE_INDEX :: "u32 \<Rightarrow> nat" where "PTE_INDEX va = unat (drop_bit 12 va AND 0x3FF)"
definition PDE_INDEX :: "u32 \<Rightarrow> nat" where "PDE_INDEX va = unat (drop_bit 22 va)"

text \<open>The fields of an entry that the code writes; the others stay zero.\<close>

record pte =
  pte_present :: bool
  pte_writable :: bool
  pte_user :: bool
  pte_frame :: "20 word"

record pde =
  pde_present :: bool
  pde_writable :: bool
  pde_user :: bool
  pde_ps :: bool
  pde_frame :: "20 word"

record vma =
  vma_base_va :: u32
  vma_base_pa :: u32
  vma_length :: u32
  vma_flags :: u32
  vma_type :: u32

record mm =
  mm_pd_pa :: u32
  mm_kernel_pde_start :: nat
  mm_vmas :: "vma list"

datatype mm_ptr = KernelMm | ProcMm nat

record mmst =
  pool_pa :: u32
  premain_pa_start :: u32
  premain_pa_end :: u32
  mm_paging_next :: u32
  proc_mm_next :: u32
  mm_impl_next :: u32
  vma_next :: u32
  kernel_mm :: mm
  proc_mms :: "nat \<Rightarrow> mm"
  copy_pt :: "u32 option"
  pdmem :: "u32 \<Rightarrow> nat \<Rightarrow> pde"
  ptmem :: "u32 \<Rightarrow> nat \<Rightarrow> pte"
  phys :: "u32 \<Rightarrow> char"
  cr3 :: u32
  isr_page_fault :: u32
  cpu :: irq_regs

definition VMA_TYPE_VGA :: u32 where "VMA_TYPE_VGA = 1"
definition VMA_TYPE_PROCESS :: u32 where "VMA_TYPE_PROCESS = 2"

definition mm_at :: "mm_ptr \<Rightarrow> mmst \<Rightarrow> mm" where
  "mm_at p s = (case p of KernelMm \<Rightarrow> kernel_mm s | ProcMm i \<Rightarrow> proc_mms s i)"

definition set_mm :: "mm_ptr \<Rightarrow> (mm \<Rightarrow> mm) \<Rightarrow> mmst \<Rightarrow> mmst" where
  "set_mm p f s = (case p of KernelMm \<Rightarrow> s\<lparr>kernel_mm := f (kernel_mm s)\<rparr>
     | ProcMm i \<Rightarrow> s\<lparr>proc_mms := (proc_mms s)(i := f (proc_mms s i))\<rparr>)"

definition set_pde :: "u32 \<Rightarrow> nat \<Rightarrow> (pde \<Rightarrow> pde) \<Rightarrow> mmst \<Rightarrow> mmst" where
  "set_pde pd i f s = s\<lparr>pdmem := (pdmem s)(pd := (pdmem s pd)(i := f (pdmem s pd i)))\<rparr>"

definition set_pte :: "u32 \<Rightarrow> nat \<Rightarrow> (pte \<Rightarrow> pte) \<Rightarrow> mmst \<Rightarrow> mmst" where
  "set_pte pt i f s = s\<lparr>ptmem := (ptmem s)(pt := (ptmem s pt)(i := f (ptmem s pt i)))\<rparr>"

definition FRAME_TO_PA :: "20 word \<Rightarrow> u32" where
  "FRAME_TO_PA frame = push_bit 12 (ucast frame)"

text \<open>\<open>(uint32_t)(pa >> 12)\<close> stored in a field of 20 bits.\<close>

definition pa_frame :: "u32 \<Rightarrow> 20 word" where
  "pa_frame pa = ucast (drop_bit 12 pa)"

definition pde_to_pt :: "pde \<Rightarrow> u32" where
  "pde_to_pt e = FRAME_TO_PA (pde_frame e)"

definition pte_set :: "u32 \<Rightarrow> u32 \<Rightarrow> pte \<Rightarrow> pte" where
  "pte_set pa flags e =
     e\<lparr>pte_frame := pa_frame pa, pte_present := flags AND PTE_P \<noteq> 0, pte_writable := flags AND PTE_W \<noteq> 0,
       pte_user := flags AND PTE_U \<noteq> 0\<rparr>"

definition pte_clear :: "pte \<Rightarrow> pte" where
  "pte_clear e = e\<lparr>pte_present := False\<rparr>"

definition no_pte :: pte where
  "no_pte = \<lparr> pte_present = False, pte_writable = False, pte_user = False, pte_frame = 0 \<rparr>"

definition no_pde :: pde where
  "no_pde = \<lparr> pde_present = False, pde_writable = False, pde_user = False, pde_ps = False, pde_frame = 0 \<rparr>"

text \<open>The loops that clear the 1024 entries of a table, and that copy a directory's present entries.\<close>

definition cleared :: "(nat \<Rightarrow> pte) \<Rightarrow> nat \<Rightarrow> pte" where
  "cleared row = (\<lambda>i. if i < 1024 then no_pte else row i)"

definition inherited :: "(nat \<Rightarrow> pde) \<Rightarrow> (nat \<Rightarrow> pde) \<Rightarrow> nat \<Rightarrow> pde" where
  "inherited from row = (\<lambda>i. if i < 1024 then (if pde_present (from i) then from i else no_pde) else row i)"

definition pt_clear :: "u32 \<Rightarrow> mmst \<Rightarrow> mmst" where
  "pt_clear pt s = s\<lparr>ptmem := (ptmem s)(pt := cleared (ptmem s pt))\<rparr>"

subsection \<open>The pools\<close>

definition mm_alloc_page_pa :: "mmst \<Rightarrow> u32 \<times> mmst" where
  "mm_alloc_page_pa s =
     (if mm_paging_next s \<ge> MM_PAGING_PAGES_TOTAL then (0, s)
      else (pool_pa s + mm_paging_next s * PAGE_SIZE, s\<lparr>mm_paging_next := mm_paging_next s + 1\<rparr>))"

definition mm_alloc :: "mmst \<Rightarrow> nat option \<times> mmst" where
  "mm_alloc s =
     (if proc_mm_next s \<ge> of_nat MAX_PROCESS_CNT then (None, s)
      else (Some (unat (proc_mm_next s)), s\<lparr>proc_mm_next := proc_mm_next s + 1\<rparr>))"

definition mm_alloc_impl :: "mmst \<Rightarrow> nat option \<times> mmst" where
  "mm_alloc_impl s =
     (if mm_impl_next s \<ge> of_nat MAX_PROCESS_CNT then (None, s)
      else (Some (unat (mm_impl_next s)), s\<lparr>mm_impl_next := mm_impl_next s + 1\<rparr>))"

definition vma_alloc :: "mmst \<Rightarrow> bool \<times> mmst" where
  "vma_alloc s =
     (if vma_next s \<ge> MAX_VMAS_TOTAL then (False, s) else (True, s\<lparr>vma_next := vma_next s + 1\<rparr>))"

subsection \<open>Mapping\<close>

text \<open>The directory entry of an address, with a new page table if there is none; the page pool may be empty.\<close>

definition ensure_pt :: "u32 \<Rightarrow> u32 \<Rightarrow> mmst \<Rightarrow> bool \<times> mmst" where
  "ensure_pt pd va s =
     (if pde_present (pdmem s pd (PDE_INDEX va)) then (True, s)
      else
        let (pt_pa, s1) = mm_alloc_page_pa s
        in if pt_pa = 0 then (False, s1)
           else (True, set_pde pd (PDE_INDEX va)
                  (\<lambda>e. e\<lparr>pde_frame := pa_frame pt_pa, pde_present := True, pde_writable := True, pde_user := False,
                          pde_ps := False\<rparr>) (pt_clear pt_pa s1)))"

definition map_page :: "u32 \<Rightarrow> u32 \<Rightarrow> u32 \<Rightarrow> mmst \<Rightarrow> mmst" where
  "map_page pd va pa s =
     (let pt = pde_to_pt (pdmem s pd (PDE_INDEX va));
          flags = (if va < KERNEL_VA then PTE_P OR PTE_W OR PTE_U else PTE_P OR PTE_W);
          s1 = (if va < KERNEL_VA then set_pde pd (PDE_INDEX va) (\<lambda>e. e\<lparr>pde_user := True\<rparr>) s else s)
      in set_pte pt (PTE_INDEX va) (pte_set pa flags) s1)"

text \<open>The loop; a size that is not a multiple of a page is never counted down to zero.\<close>

fun vm_map_loop :: "nat \<Rightarrow> u32 \<Rightarrow> u32 \<Rightarrow> u32 \<Rightarrow> u32 \<Rightarrow> mmst \<Rightarrow> mmst res" where
  "vm_map_loop 0 pd va pa sz s = (if sz = 0 then Inr s else Inl Diverge)"
| "vm_map_loop (Suc n) pd va pa sz s =
     (if sz = 0 then Inr s
      else
        let (ok, s1) = ensure_pt pd va s
        in if \<not> ok then Inr s1
           else vm_map_loop n pd (va + PAGE_SIZE) (pa + PAGE_SIZE) (sz - PAGE_SIZE) (map_page pd va pa s1))"

definition vm_map_impl :: "u32 \<Rightarrow> u32 \<Rightarrow> u32 \<Rightarrow> u32 \<Rightarrow> mmst \<Rightarrow> mmst res" where
  "vm_map_impl pd va pa sz s = vm_map_loop (unat sz div 4096) pd va pa sz s"

definition unmap_page :: "u32 \<Rightarrow> u32 \<Rightarrow> mmst \<Rightarrow> mmst" where
  "unmap_page pd va s =
     (let e = pdmem s pd (PDE_INDEX va)
      in if pde_present e then set_pte (pde_to_pt e) (PTE_INDEX va) pte_clear s else s)"

fun vm_unmap_loop :: "nat \<Rightarrow> u32 \<Rightarrow> u32 \<Rightarrow> u32 \<Rightarrow> mmst \<Rightarrow> mmst res" where
  "vm_unmap_loop 0 pd va sz s = (if sz = 0 then Inr s else Inl Diverge)"
| "vm_unmap_loop (Suc n) pd va sz s =
     (if sz = 0 then Inr s else vm_unmap_loop n pd (va + PAGE_SIZE) (sz - PAGE_SIZE) (unmap_page pd va s))"

definition vm_unmap_impl :: "u32 \<Rightarrow> u32 \<Rightarrow> u32 \<Rightarrow> mmst \<Rightarrow> mmst res" where
  "vm_unmap_impl pd va sz s = vm_unmap_loop (unat sz div 4096) pd va sz s"

definition vm_unmap_premain :: "mmst \<Rightarrow> mmst res" where
  "vm_unmap_premain s =
     (let va_start = premain_pa_start s AND PAGE_MASK;
          va_end = (premain_pa_end s + PAGE_SIZE - 1) AND PAGE_MASK
      in vm_unmap_impl (mm_pd_pa (kernel_mm s)) va_start (va_end - va_start) s)"

subsection \<open>Address spaces\<close>

definition mm_add_vma :: "mm_ptr option \<Rightarrow> u32 \<Rightarrow> u32 \<Rightarrow> u32 \<Rightarrow> u32 \<Rightarrow> u32 \<Rightarrow> mmst \<Rightarrow> (vma option \<times> mmst) res" where
  "mm_add_vma mm ty va sz flags pa s =
     (let (ok, s1) = vma_alloc s
      in if \<not> ok then Inr (None, s1)
         else
           let v = \<lparr> vma_base_va = va, vma_base_pa = pa, vma_length = sz, vma_flags = flags, vma_type = ty \<rparr>
           in bindR (deref mm) (\<lambda>p.
              let s2 = set_mm p (\<lambda>m. m\<lparr>mm_vmas := v # mm_vmas m\<rparr>) s1
              in bindR (vm_map_impl (mm_pd_pa (mm_at p s2)) va pa sz s2) (\<lambda>s3. Inr (Some v, s3))))"

fun mm_find_vma_by_type :: "vma list \<Rightarrow> u32 \<Rightarrow> vma option" where
  "mm_find_vma_by_type [] ty = None"
| "mm_find_vma_by_type (v # vs) ty = (if vma_type v = ty then Some v else mm_find_vma_by_type vs ty)"

text \<open>The page directory of a new address space: the kernel's present entries.\<close>

definition inherit_pds :: "u32 \<Rightarrow> u32 \<Rightarrow> mmst \<Rightarrow> mmst" where
  "inherit_pds kpd pd s =
     s\<lparr>pdmem := (pdmem s)(pd := inherited (pdmem s kpd) (pdmem s pd))\<rparr>"

fun copy_vmas :: "vma list \<Rightarrow> nat \<Rightarrow> mmst \<Rightarrow> bool \<times> mmst" where
  "copy_vmas [] i s = (True, s)"
| "copy_vmas (v # vs) i s =
     (let (ok, s1) = vma_alloc s
      in if \<not> ok then (False, s1)
         else copy_vmas vs i (set_mm (ProcMm i) (\<lambda>m. m\<lparr>mm_vmas := v # mm_vmas m\<rparr>) s1))"

definition mm_fork_kernel :: "mmst \<Rightarrow> mm_ptr option \<times> mmst" where
  "mm_fork_kernel s =
     (let (mm, s1) = mm_alloc s
      in case mm of
           None \<Rightarrow> (None, s1)
         | Some i \<Rightarrow>
             let (impl, s2) = mm_alloc_impl s1
             in case impl of
                  None \<Rightarrow> (None, s2)
                | Some _ \<Rightarrow>
                    let s3 = set_mm (ProcMm i) (\<lambda>m. m\<lparr>mm_vmas := []\<rparr>) s2;
                        (pd_pa, s4) = mm_alloc_page_pa s3
                    in if pd_pa = 0 then (None, s4)
                       else
                         let s5 = set_mm (ProcMm i) (\<lambda>m. m\<lparr>mm_pd_pa := pd_pa,
                                     mm_kernel_pde_start := mm_kernel_pde_start (kernel_mm s4)\<rparr>) s4;
                             s6 = inherit_pds (mm_pd_pa (kernel_mm s5)) pd_pa s5;
                             (ok, s7) = copy_vmas (mm_vmas (kernel_mm s6)) i s6
                         in (if ok then Some (ProcMm i) else None, s7))"

text \<open>
  \<open>esp\<close> is the stack pointer; a stack that is not mapped stops the machine in a loop. The table is
  changed between \<open>cli\<close> and \<open>sti\<close>, so interrupts are on afterwards, also where they were off before.
\<close>

definition mm_activate :: "u32 \<Rightarrow> mm_ptr \<Rightarrow> mmst \<Rightarrow> mmst res" where
  "mm_activate esp p s =
     (let pd = mm_pd_pa (mm_at p s); e = pdmem s pd (PDE_INDEX esp)
      in if \<not> pde_present e then Inl Diverge
         else if \<not> pte_present (ptmem s (pde_to_pt e) (PTE_INDEX esp)) then Inl Diverge
         else Inr (s\<lparr>cr3 := pd, cpu := interrupts_enable (cli (cpu s))\<rparr>))"

text \<open>The kernel's space as \<open>mm_init\<close> leaves it; \<open>kpd\<close> is the directory that premain built.\<close>

definition mm_init :: "u32 \<Rightarrow> u32 \<Rightarrow> mmst \<Rightarrow> mmst res" where
  "mm_init esp kpd s =
     (let s0 = s\<lparr>cpu := idt_set_gate 14 (isr_page_fault s) GDT_KERNEL_CS 0x8E (cpu s)\<rparr>;
          s1 = s0\<lparr>kernel_mm := \<lparr> mm_pd_pa = kpd, mm_kernel_pde_start = PDE_INDEX KERNEL_VA, mm_vmas = [] \<rparr>\<rparr>
      in bindR (vm_unmap_premain s1) (\<lambda>s2.
         bindR (mm_add_vma (Some KernelMm) VMA_TYPE_VGA VGA_TEXT_BUFFER_VA VGA_TEXT_BUFFER_SIZE 3 VGA_TEXT_BUFFER_VA s2) (\<lambda>(_, s3).
           let (pt_pa, s4) = mm_alloc_page_pa s3
           in if pt_pa = 0 then Inl (Panic ''mm_init: copy PT alloc failed'')
              else
                let s5 = pt_clear pt_pa (s4\<lparr>copy_pt := Some pt_pa\<rparr>);
                    s6 = set_pde (mm_pd_pa (kernel_mm s5)) (PDE_INDEX COPY_SRC_VA)
                      (\<lambda>e. e\<lparr>pde_frame := pa_frame pt_pa, pde_present := True, pde_writable := True, pde_user := False,
                              pde_ps := False\<rparr>) s5
                in mm_activate esp KernelMm s6)))"

text \<open>What \<open>task_table_init\<close> does for the task in each slot, \<open>n\<close> slots left, with the memory at \<open>next_free_pa\<close>.\<close>

primrec task_spaces_loop :: "nat \<Rightarrow> u32 \<Rightarrow> mmst \<Rightarrow> mmst res" where
  "task_spaces_loop 0 next_free_pa s = Inr s"
| "task_spaces_loop (Suc n) next_free_pa s =
     (let (mm, s1) = mm_fork_kernel s
      in bindR (mm_add_vma mm VMA_TYPE_PROCESS PROCESS_VA_BASE PROCESS_VA_SIZE 15 next_free_pa s1) (\<lambda>(_, s2).
           task_spaces_loop n (next_free_pa + PROCESS_VA_SIZE) s2))"

definition task_spaces_init :: "mmst \<Rightarrow> mmst res" where
  "task_spaces_init s = task_spaces_loop MAX_PROCESS_CNT PROCESS_PA_START s"

subsection \<open>Translation and copying\<close>

text \<open>The walk of \<open>mm_va_to_pa\<close> from a directory; \<open>out_pa\<close> is the result.\<close>

definition walk :: "u32 \<Rightarrow> mmst \<Rightarrow> u32 \<Rightarrow> u32 option" where
  "walk pd s va =
     (let e = pdmem s pd (PDE_INDEX va)
      in if \<not> pde_present e then None
         else
           let t = ptmem s (pde_to_pt e) (PTE_INDEX va)
           in if \<not> pte_present t then None
              else Some (FRAME_TO_PA (pte_frame t) OR (va AND (PAGE_SIZE - 1))))"

definition mm_va_to_pa :: "mm_ptr option \<Rightarrow> u32 \<Rightarrow> mmst \<Rightarrow> u32 option" where
  "mm_va_to_pa mm va s = (case mm of None \<Rightarrow> None | Some p \<Rightarrow> walk (mm_pd_pa (mm_at p s)) s va)"

text \<open>Memory accesses of the kernel in the current address space.\<close>

definition load8 :: "u32 \<Rightarrow> mmst \<Rightarrow> char res" where
  "load8 va s = (case walk (cr3 s) s va of None \<Rightarrow> Inl (Panic ''page fault'') | Some pa \<Rightarrow> Inr (phys s pa))"

definition store8 :: "u32 \<Rightarrow> char \<Rightarrow> mmst \<Rightarrow> mmst res" where
  "store8 va c s =
     (case walk (cr3 s) s va of None \<Rightarrow> Inl (Panic ''page fault'') | Some pa \<Rightarrow> Inr (s\<lparr>phys := (phys s)(pa := c)\<rparr>))"

primrec copy_bytes :: "nat \<Rightarrow> u32 \<Rightarrow> u32 \<Rightarrow> mmst \<Rightarrow> mmst res" where
  "copy_bytes 0 dst src s = Inr s"
| "copy_bytes (Suc n) dst src s =
     bindR (load8 src s) (\<lambda>c. bindR (store8 dst c s) (copy_bytes n (dst + 1) (src + 1)))"

text \<open>One round of the loop of \<open>mm_copy_vma\<close>: the size of the chunk that was copied.\<close>

definition copy_chunk :: "mm_ptr \<Rightarrow> vma \<Rightarrow> mm_ptr \<Rightarrow> vma \<Rightarrow> u32 \<Rightarrow> u32 \<Rightarrow> u32 \<Rightarrow> mmst \<Rightarrow> (u32 \<times> mmst) res" where
  "copy_chunk dest dest_vma src src_vma pt len offset s =
     (let src_va = vma_base_va src_vma + offset;
          dst_va = vma_base_va dest_vma + offset;
          src_page_va = src_va AND PAGE_MASK;
          dst_page_va = dst_va AND PAGE_MASK
      in case mm_va_to_pa (Some src) src_page_va s of
           None \<Rightarrow> Inl (Panic ''mm_copy_vma: source VA not mapped'')
         | Some src_pa \<Rightarrow>
             (case mm_va_to_pa (Some dest) dst_page_va s of
                None \<Rightarrow> Inl (Panic ''mm_copy_vma: dest VA not mapped'')
              | Some dst_pa \<Rightarrow>
                  let s1 = set_pte pt (PTE_INDEX COPY_DST_VA) (pte_set (dst_pa AND PAGE_MASK) (PTE_P OR PTE_W))
                             (set_pte pt (PTE_INDEX COPY_SRC_VA) (pte_set (src_pa AND PAGE_MASK) PTE_P) s);
                      src_off = src_va - src_page_va;
                      dst_off = dst_va - dst_page_va;
                      chunk = PAGE_SIZE - src_off;
                      tmp = PAGE_SIZE - dst_off;
                      chunk1 = (if tmp < chunk then tmp else chunk);
                      remain = len - offset;
                      chunk2 = (if remain < chunk1 then remain else chunk1)
                  in bindR (copy_bytes (unat chunk2) (COPY_DST_VA + dst_off) (COPY_SRC_VA + src_off) s1) (\<lambda>s2.
                       Inr (chunk2, set_pte pt (PTE_INDEX COPY_DST_VA) pte_clear
                                      (set_pte pt (PTE_INDEX COPY_SRC_VA) pte_clear s2)))))"

text \<open>Every chunk has at least one byte: the fuel is the length.\<close>

fun copy_loop :: "nat \<Rightarrow> mm_ptr \<Rightarrow> vma \<Rightarrow> mm_ptr \<Rightarrow> vma \<Rightarrow> u32 \<Rightarrow> u32 \<Rightarrow> u32 \<Rightarrow> mmst \<Rightarrow> mmst res" where
  "copy_loop 0 dest dest_vma src src_vma pt len offset s = (if offset < len then Inl Diverge else Inr s)"
| "copy_loop (Suc n) dest dest_vma src src_vma pt len offset s =
     (if offset < len
      then bindR (copy_chunk dest dest_vma src src_vma pt len offset s) (\<lambda>(chunk, s1).
             copy_loop n dest dest_vma src src_vma pt len (offset + chunk) s1)
      else Inr s)"

definition mm_copy_vma :: "mm_ptr \<Rightarrow> vma \<Rightarrow> mm_ptr \<Rightarrow> vma \<Rightarrow> u32 \<Rightarrow> mmst \<Rightarrow> mmst res" where
  "mm_copy_vma dest dest_vma src src_vma len s =
     (case copy_pt s of
        None \<Rightarrow> Inl (Panic ''mm_copy_vma: copy window not initialized'')
      | Some pt \<Rightarrow>
          if len > VM_PT_COVERS_BYTES then Inl (Panic ''mm_copy_vma: length exceeds 1-PT copy window'')
          else if len > vma_length src_vma \<or> len > vma_length dest_vma
          then Inl (Panic ''mm_copy_vma: length exceeds VMA bounds'')
          else copy_loop (unat len) dest dest_vma src src_vma pt len 0 s)"

subsection \<open>Addresses\<close>

lemma paging_numbers [simp]:
  "MM_PAGING_PAGES_TOTAL = 128" "MAX_VMAS_TOTAL = 1024" "PAGE_SIZE = 4096" "PROCESS_VA_BASE = of_nat 4194304"
  "PROCESS_VA_SIZE = of_nat (256 * 4096)" "PROCESS_PA_START = of_nat 5242880"
  by (simp_all add: MM_PAGING_PAGES_TOTAL_def MAX_VMAS_TOTAL_def PAGE_SIZE_def VM_USER_PTS_PER_PROC_def
    PROCESS_VA_SIZE_def VM_PT_COVERS_BYTES_def PROCESS_VA_BASE_def PROCESS_PA_START_def)

lemma unat_u32: "m < 4294967296 \<Longrightarrow> unat (of_nat m :: u32) = m"
  by (simp add: unat_of_nat)

lemma PDE_INDEX_of_nat: "m < 4294967296 \<Longrightarrow> PDE_INDEX (of_nat m) = m div 4194304"
  by (simp add: PDE_INDEX_def unat_simps unat_u32)

lemma PTE_INDEX_of_nat: "m < 4294967296 \<Longrightarrow> PTE_INDEX (of_nat m) = m div 4096 mod 1024"
  by (simp add: PTE_INDEX_def unat_simps unat_u32)

lemma PTE_INDEX_less: "PTE_INDEX va < 1024"
  by (simp add: PTE_INDEX_def unat_simps)

lemma unat_FRAME_TO_PA: "unat (FRAME_TO_PA f) = unat f * 4096"
proof -
  have f: "unat f < 1048576" using unsigned_less [of f] by simp
  then have "unat (ucast f :: u32) = unat f" by (simp add: unsigned_ucast_eq take_bit_nat_eq_self)
  with f show ?thesis by (simp add: FRAME_TO_PA_def push_bit_eq_mult unat_simps)
qed

lemma FRAME_pa_frame:
  assumes "4096 dvd unat pa" shows "FRAME_TO_PA (pa_frame pa) = pa"
proof -
  have "unat pa div 4096 < 1048576" by (simp add: less_mult_imp_div_less)
  then have "unat (pa_frame pa) = unat pa div 4096"
    by (simp add: pa_frame_def unat_simps unsigned_ucast_eq take_bit_nat_eq_self)
  then have "unat (FRAME_TO_PA (pa_frame pa)) = unat pa" using assms by (simp add: unat_FRAME_TO_PA)
  then show ?thesis by (simp only: word_unat_eq_iff)
qed

lemma page_count:
  "(of_nat (Suc n * 4096) :: u32) - 4096 = of_nat (n * 4096)"
  "Suc n * 4096 < 4294967296 \<Longrightarrow> (of_nat (Suc n * 4096) :: u32) \<noteq> 0"
  using unat_u32 [of "Suc n * 4096"] by (simp, metis unat_0 nat.distinct(1) mult_is_0 zero_neq_numeral)

lemma of_nat_plus_4096: "(of_nat m :: u32) + 4096 = of_nat (m + 4096)"
  by simp

subsection \<open>Mapping a range inside one page table\<close>

text \<open>The table with the pages \<open>j\<close> to \<open>j + n - 1\<close> mapped to the pages from \<open>pa\<close> on, for programs.\<close>

definition with_range :: "nat \<Rightarrow> nat \<Rightarrow> u32 \<Rightarrow> (nat \<Rightarrow> pte) \<Rightarrow> nat \<Rightarrow> pte" where
  "with_range j n pa row = (\<lambda>i. if j \<le> i \<and> i < j + n then pte_set (pa + of_nat ((i - j) * 4096)) 7 (row i) else row i)"

lemma with_range_Suc:
  "with_range (Suc j) n (pa + 4096) (row(j := pte_set pa 7 (row j))) = with_range j (Suc n) pa row"
proof (rule ext)
  fix i
  have "pa + 4096 + of_nat ((i - Suc j) * 4096) = pa + of_nat ((i - j) * 4096)" if "j < i"
  proof -
    have "i - j = Suc (i - Suc j)" using that by simp
    then have "(i - j) * 4096 = 4096 + (i - Suc j) * 4096" by simp
    then show ?thesis by (simp only: of_nat_add) (simp add: add.assoc)
  qed
  then show "with_range (Suc j) n (pa + 4096) (row(j := pte_set pa 7 (row j))) i = with_range j (Suc n) pa row i"
    by (auto simp: with_range_def)
qed

lemma with_range_1: "with_range j (Suc 0) pa row = row(j := pte_set pa 7 (row j))"
  by (auto simp: with_range_def fun_eq_iff)

definition user_range :: "u32 \<Rightarrow> nat \<Rightarrow> nat \<Rightarrow> nat \<Rightarrow> u32 \<Rightarrow> mmst \<Rightarrow> mmst" where
  "user_range pd d j n pa s =
     (let pt = pde_to_pt (pdmem s pd d)
      in s\<lparr>pdmem := (pdmem s)(pd := (pdmem s pd)(d := (pdmem s pd d)\<lparr>pde_user := True\<rparr>)),
           ptmem := (ptmem s)(pt := with_range j n pa (ptmem s pt))\<rparr>)"

lemma map_page_user:
  assumes "d < 512" "j < 1024"
  shows "map_page pd (of_nat (d * 4194304 + j * 4096)) pa s = user_range pd d j 1 pa s"
proof -
  have va: "d * 4194304 + j * 4096 < 2147483648" using assms by simp
  have ix: "PDE_INDEX (of_nat (d * 4194304 + j * 4096)) = d" "PTE_INDEX (of_nat (d * 4194304 + j * 4096)) = j"
    using va assms by (simp_all add: PDE_INDEX_of_nat PTE_INDEX_of_nat del: of_nat_add)
  have lt: "(of_nat (d * 4194304 + j * 4096) :: u32) < KERNEL_VA"
    using va by (simp add: KERNEL_VA_def word_less_nat_alt unat_u32 del: of_nat_add)
  have fl: "PTE_P OR PTE_W OR PTE_U = 7" by (simp add: PTE_P_def PTE_W_def PTE_U_def)
  show ?thesis
    unfolding map_page_def ix user_range_def using lt
    by (simp add: fl with_range_1 Let_def set_pde_def set_pte_def)
qed

lemma pde_to_pt_user [simp]: "pde_to_pt (e\<lparr>pde_user := b\<rparr>) = pde_to_pt e"
  by (simp add: pde_to_pt_def)

lemma ensure_pt_present: "pde_present (pdmem s pd (PDE_INDEX va)) \<Longrightarrow> ensure_pt pd va s = (True, s)"
  by (simp add: ensure_pt_def)

lemma vm_map_loop_user:
  assumes "d < 512" "pde_present (pdmem s pd d)" "j + n \<le> 1024" "0 < n"
  shows "vm_map_loop n pd (of_nat (d * 4194304 + j * 4096)) pa (of_nat (n * 4096)) s = Inr (user_range pd d j n pa s)"
  using assms(2-4)
proof (induction n arbitrary: j pa s)
  case (Suc n)
  have j: "j < 1024" "d * 4194304 + j * 4096 < 4294967296" using Suc.prems assms(1) by simp_all
  have ix: "PDE_INDEX (of_nat (d * 4194304 + j * 4096)) = d"
    using j by (simp add: PDE_INDEX_of_nat del: of_nat_add)
  have sz: "(of_nat (Suc n * 4096) :: u32) \<noteq> 0" using Suc.prems by (intro page_count(2)) simp
  note sz = sz page_count(1) [of n]
  have va: "(of_nat (d * 4194304 + j * 4096) :: u32) + 4096 = of_nat (d * 4194304 + Suc j * 4096)"
    by simp
  have step: "vm_map_loop (Suc n) pd (of_nat (d * 4194304 + j * 4096)) pa (of_nat (Suc n * 4096)) s =
      vm_map_loop n pd (of_nat (d * 4194304 + Suc j * 4096)) (pa + 4096) (of_nat (n * 4096)) (user_range pd d j 1 pa s)"
    using sz va ensure_pt_present [of s pd "of_nat (d * 4194304 + j * 4096)"] Suc.prems(1) ix
    by (simp add: map_page_user [OF assms(1) j(1)] del: of_nat_add of_nat_mult mult_Suc)
  show ?case
  proof (cases "n = 0")
    case True
    with step show ?thesis by simp
  next
    case False
    have p: "pde_present (pdmem (user_range pd d j 1 pa s) pd d)" using Suc.prems(1) by (simp add: user_range_def Let_def)
    have "user_range pd d (Suc j) n (pa + 4096) (user_range pd d j 1 pa s) = user_range pd d j (Suc n) pa s"
      by (simp add: user_range_def Let_def with_range_1 with_range_Suc)
    with step Suc.IH [OF p, of "Suc j" "pa + 4096"] Suc.prems False show ?thesis by simp
  qed
qed simp

subsection \<open>The address spaces of the tasks\<close>

definition page :: "mmst \<Rightarrow> nat \<Rightarrow> u32" where
  "page s n = pool_pa s + of_nat (n * 4096)"

definition pool_ok :: "mmst \<Rightarrow> bool" where
  "pool_ok s \<longleftrightarrow> 4096 dvd unat (pool_pa s) \<and> 0 < unat (pool_pa s) \<and> unat (pool_pa s) + 128 * 4096 \<le> 4294967296"

definition region_pa :: "nat \<Rightarrow> nat" where
  "region_pa i = 5242880 + i * 1048576"

definition vga_vma :: vma where
  "vga_vma = \<lparr> vma_base_va = VGA_TEXT_BUFFER_VA, vma_base_pa = VGA_TEXT_BUFFER_VA, vma_length = VGA_TEXT_BUFFER_SIZE,
     vma_flags = 3, vma_type = VMA_TYPE_VGA \<rparr>"

definition process_vma :: "nat \<Rightarrow> vma" where
  "process_vma i = \<lparr> vma_base_va = PROCESS_VA_BASE, vma_base_pa = of_nat (region_pa i), vma_length = PROCESS_VA_SIZE,
     vma_flags = 15, vma_type = VMA_TYPE_PROCESS \<rparr>"

text \<open>The space of slot \<open>i\<close>: its directory is page \<open>1 + 2 i\<close> of the pool, its page table the next one.\<close>

definition maps_region :: "nat \<Rightarrow> mmst \<Rightarrow> bool" where
  "maps_region i s \<longleftrightarrow> (let e = pdmem s (page s (1 + 2 * i)) 1 in pde_present e \<and> pde_to_pt e = page s (2 + 2 * i))
     \<and> (\<forall>j < 256. let t = ptmem s (page s (2 + 2 * i)) j in pte_present t \<and> pte_writable t \<and> pte_user t
          \<and> pte_frame t = pa_frame (of_nat (region_pa i + j * 4096)))"

definition space_ok :: "nat \<Rightarrow> mmst \<Rightarrow> bool" where
  "space_ok i s \<longleftrightarrow>
     mm_pd_pa (proc_mms s i) = page s (1 + 2 * i) \<and> mm_vmas (proc_mms s i) = [process_vma i, vga_vma]
     \<and> (let e = pdmem s (page s (1 + 2 * i)) 1020 in pde_present e \<and> pde_to_pt e = page s 0)
     \<and> (if i < 63 then maps_region i s else \<not> pde_present (pdmem s (page s (1 + 2 * i)) 1))"

definition kernel_space_ok :: "mmst \<Rightarrow> bool" where
  "kernel_space_ok s \<longleftrightarrow> mm_vmas (kernel_mm s) = [vga_vma] \<and> copy_pt s = Some (page s 0)
     \<and> (\<forall>n < 128. mm_pd_pa (kernel_mm s) \<noteq> page s n)
     \<and> \<not> pde_present (pdmem s (mm_pd_pa (kernel_mm s)) 1)
     \<and> (let e = pdmem s (mm_pd_pa (kernel_mm s)) 1020 in pde_present e \<and> pde_to_pt e = page s 0)"

definition spaces_ok :: "nat \<Rightarrow> mmst \<Rightarrow> bool" where
  "spaces_ok k s \<longleftrightarrow> pool_ok s \<and> kernel_space_ok s
     \<and> mm_paging_next s = of_nat (if k < 64 then 1 + 2 * k else 128)
     \<and> proc_mm_next s = of_nat k \<and> mm_impl_next s = of_nat k \<and> vma_next s = of_nat (1 + 2 * k)
     \<and> (\<forall>i < k. space_ok i s)"

lemma unat_page: "pool_ok s \<Longrightarrow> n < 128 \<Longrightarrow> unat (page s n) = unat (pool_pa s) + n * 4096"
  by (simp add: page_def pool_ok_def unat_simps unat_u32 del: of_nat_mult)

lemma page_inject: "pool_ok s \<Longrightarrow> m < 128 \<Longrightarrow> n < 128 \<Longrightarrow> page s m = page s n \<longleftrightarrow> m = n"
  by (metis unat_page add_left_cancel mult_right_cancel zero_neq_numeral)

lemma page_not_0: "pool_ok s \<Longrightarrow> n < 128 \<Longrightarrow> page s n \<noteq> 0"
  using unat_page [of s n] by (auto simp: pool_ok_def)

lemma page_frame: "pool_ok s \<Longrightarrow> n < 128 \<Longrightarrow> FRAME_TO_PA (pa_frame (page s n)) = page s n"
  by (rule FRAME_pa_frame) (simp add: unat_page pool_ok_def)

lemma alloc_page:
  assumes "mm_paging_next s = of_nat n" "n < 128"
  shows "mm_alloc_page_pa s = (page s n, s\<lparr>mm_paging_next := of_nat (Suc n)\<rparr>)"
  using assms by (simp add: mm_alloc_page_pa_def word_le_nat_alt unat_u32 page_def)

lemma mm_st_frame [simp]:
  "page (s\<lparr>mm_paging_next := a\<rparr>) n = page s n" "page (s\<lparr>proc_mm_next := b\<rparr>) n = page s n"
  "page (s\<lparr>mm_impl_next := b\<rparr>) n = page s n" "page (s\<lparr>vma_next := b\<rparr>) n = page s n"
  "page (s\<lparr>proc_mms := p\<rparr>) n = page s n" "page (s\<lparr>pdmem := q\<rparr>) n = page s n" "page (s\<lparr>ptmem := r\<rparr>) n = page s n"
  by (simp_all add: page_def)

text \<open>The new space before its region is mapped.\<close>

definition forked :: "nat \<Rightarrow> mmst \<Rightarrow> mmst" where
  "forked k s = s\<lparr>mm_paging_next := of_nat (2 + 2 * k), proc_mm_next := of_nat (Suc k), mm_impl_next := of_nat (Suc k),
     vma_next := of_nat (2 + 2 * k),
     proc_mms := (proc_mms s)(k := \<lparr> mm_pd_pa = page s (1 + 2 * k), mm_kernel_pde_start = mm_kernel_pde_start (kernel_mm s),
       mm_vmas = [vga_vma] \<rparr>),
     pdmem := (pdmem s)(page s (1 + 2 * k) := inherited (pdmem s (mm_pd_pa (kernel_mm s))) (pdmem s (page s (1 + 2 * k))))\<rparr>"

lemma mm_all_fields:
  fixes m :: mm shows "m\<lparr>mm_pd_pa := a, mm_kernel_pde_start := b, mm_vmas := c\<rparr> =
    \<lparr> mm_pd_pa = a, mm_kernel_pde_start = b, mm_vmas = c \<rparr>"
  by (cases m) simp

lemma mm_fork_kernel_ok:
  assumes "spaces_ok k s" "k < 64"
  shows "mm_fork_kernel s = (Some (ProcMm k), forked k s)"
proof -
  note A = assms(1) [unfolded spaces_ok_def kernel_space_ok_def]
  have c: "\<not> (of_nat 64 \<le> (of_nat k :: u32))" "unat (of_nat k :: u32) = k" "\<not> (1024 \<le> (of_nat (1 + 2 * k) :: u32))"
    using assms(2) unat_u32 [of "1 + 2 * k"] by (simp_all only: word_le_nat_alt) (simp_all add: unat_u32)
  have vn: "(of_nat (1 + 2 * k) :: u32) + 1 = of_nat (2 + 2 * k)" "(of_nat k :: u32) + 1 = of_nat (Suc k)" by simp_all
  let ?s = "s\<lparr>proc_mm_next := of_nat (Suc k), mm_impl_next := of_nat (Suc k), proc_mms := (proc_mms s)(k := (proc_mms s k)\<lparr>mm_vmas := []\<rparr>)\<rparr>"
  have pg: "mm_alloc_page_pa ?s = (page s (1 + 2 * k), ?s\<lparr>mm_paging_next := of_nat (2 + 2 * k)\<rparr>)"
    using alloc_page [of ?s "1 + 2 * k"] A assms(2) by simp
  have z: "page s (1 + 2 * k) \<noteq> 0" using page_not_0 [of s "1 + 2 * k"] A assms(2) by simp
  have sv: "mm_vmas (kernel_mm s) = [vga_vma]" "vma_next s = of_nat (1 + 2 * k)" "proc_mm_next s = of_nat k" "mm_impl_next s = of_nat k"
    using A by blast+
  have al: "mm_alloc s = (Some k, s\<lparr>proc_mm_next := of_nat (Suc k)\<rparr>)"
    "mm_alloc_impl (s\<lparr>proc_mm_next := of_nat (Suc k)\<rparr>) = (Some k, s\<lparr>proc_mm_next := of_nat (Suc k), mm_impl_next := of_nat (Suc k)\<rparr>)"
    unfolding mm_alloc_def mm_alloc_impl_def using sv c vn by simp_all
  show ?thesis
    unfolding mm_fork_kernel_def using al sv c(3) pg z vn(1)
    by (simp add: Let_def set_mm_def inherit_pds_def vma_alloc_def forked_def mm_all_fields del: of_nat_add of_nat_mult)
qed

text \<open>A page table from the pool for the new space, if the pool has one left.\<close>

lemma ensure_pt_new:
  assumes "mm_paging_next s = of_nat n" "n < 128" "pool_ok s" "\<not> pde_present (pdmem s pd (PDE_INDEX va))"
  shows "ensure_pt pd va s = (True, set_pde pd (PDE_INDEX va)
    (\<lambda>e. e\<lparr>pde_frame := pa_frame (page s n), pde_present := True, pde_writable := True, pde_user := False, pde_ps := False\<rparr>)
    (pt_clear (page s n) (s\<lparr>mm_paging_next := of_nat (Suc n)\<rparr>)))"
  using assms page_not_0 [of s n] by (simp add: ensure_pt_def alloc_page)

lemma ensure_pt_none:
  assumes "mm_paging_next s = 128" "\<not> pde_present (pdmem s pd (PDE_INDEX va))"
  shows "ensure_pt pd va s = (False, s)"
  using assms by (simp add: ensure_pt_def mm_alloc_page_pa_def)

lemma vm_map_loop_first:
  assumes "ensure_pt pd va s = (True, s')" "pde_present (pdmem s' pd (PDE_INDEX va))" "sz \<noteq> 0"
  shows "vm_map_loop (Suc n) pd va pa sz s = vm_map_loop (Suc n) pd va pa sz s'"
  using assms ensure_pt_present [of s' pd va] by simp

lemma vm_map_loop_none:
  "ensure_pt pd va s = (False, s') \<Longrightarrow> sz \<noteq> 0 \<Longrightarrow> vm_map_loop (Suc n) pd va pa sz s = Inr s'"
  by simp

text \<open>The region of a process is 256 pages from page 0 of table 1.\<close>

lemma map_region:
  assumes "mm_paging_next s = of_nat n" "n < 128" "pool_ok s" "\<not> pde_present (pdmem s pd 1)"
  shows "\<exists>s1 e. vm_map_impl pd PROCESS_VA_BASE pa PROCESS_VA_SIZE s = Inr s1
    \<and> s1 = s\<lparr>mm_paging_next := of_nat (Suc n), pdmem := (pdmem s)(pd := (pdmem s pd)(1 := e)),
        ptmem := (ptmem s)(page s n := with_range 0 256 pa (cleared (ptmem s (page s n))))\<rparr>
    \<and> pde_present e \<and> pde_to_pt e = page s n"
proof -
  have ix: "PDE_INDEX PROCESS_VA_BASE = 1" using PDE_INDEX_of_nat [of 4194304] by simp
  let ?e = "(pdmem s pd 1)\<lparr>pde_frame := pa_frame (page s n), pde_present := True, pde_writable := True, pde_user := False, pde_ps := False\<rparr>"
  let ?s = "set_pde pd 1 (\<lambda>e. ?e) (pt_clear (page s n) (s\<lparr>mm_paging_next := of_nat (Suc n)\<rparr>))"
  have en: "ensure_pt pd PROCESS_VA_BASE s = (True, ?s)"
    using ensure_pt_new [OF assms(1-3), of pd PROCESS_VA_BASE] assms(4) unfolding ix
    by (simp add: set_pde_def pt_clear_def)
  have pt: "pde_present (pdmem ?s pd 1)" "pde_to_pt (pdmem ?s pd 1) = page s n"
    using page_frame [OF assms(3,2)] by (simp_all add: set_pde_def pde_to_pt_def)
  have sz: "PROCESS_VA_SIZE \<noteq> 0" "unat PROCESS_VA_SIZE div 4096 = Suc 255" "PROCESS_VA_SIZE = of_nat (Suc 255 * 4096)"
    by simp_all
  have va: "PROCESS_VA_BASE = of_nat (1 * 4194304 + 0 * 4096)" by simp
  have "vm_map_impl pd PROCESS_VA_BASE pa PROCESS_VA_SIZE s = vm_map_loop (Suc 255) pd PROCESS_VA_BASE pa PROCESS_VA_SIZE ?s"
    unfolding vm_map_impl_def sz(2) using pt(1) sz(1) unfolding ix [symmetric] by (intro vm_map_loop_first) (use en ix in simp_all)
  also have "\<dots> = Inr (user_range pd 1 0 (Suc 255) pa ?s)"
    unfolding sz(3) va using pt(1) by (intro vm_map_loop_user) simp_all
  finally have r: "vm_map_impl pd PROCESS_VA_BASE pa PROCESS_VA_SIZE s = Inr (user_range pd 1 0 (Suc 255) pa ?s)" .
  have "user_range pd 1 0 (Suc 255) pa ?s = s\<lparr>mm_paging_next := of_nat (Suc n),
      pdmem := (pdmem s)(pd := (pdmem s pd)(1 := ?e\<lparr>pde_user := True\<rparr>)),
      ptmem := (ptmem s)(page s n := with_range 0 256 pa (cleared (ptmem s (page s n))))\<rparr>"
    using pt(2) by (simp add: user_range_def Let_def set_pde_def pt_clear_def)
  then show ?thesis using r pt(2) by (intro exI conjI) (auto simp: set_pde_def pde_to_pt_def)
qed

definition region_done :: "nat \<Rightarrow> mmst \<Rightarrow> mmst \<Rightarrow> bool" where
  "region_done k s s' \<longleftrightarrow> (\<exists>n row ptm. s' = s\<lparr>mm_paging_next := of_nat n, proc_mm_next := of_nat (Suc k), mm_impl_next := of_nat (Suc k),
       vma_next := of_nat (3 + 2 * k),
       proc_mms := (proc_mms s)(k := \<lparr> mm_pd_pa = page s (1 + 2 * k), mm_kernel_pde_start = mm_kernel_pde_start (kernel_mm s),
         mm_vmas = [process_vma k, vga_vma] \<rparr>),
       pdmem := (pdmem s)(page s (1 + 2 * k) := row), ptmem := ptm\<rparr>
     \<and> n = (if Suc k < 64 then 3 + 2 * k else 128) \<and> row 1020 = pdmem s (mm_pd_pa (kernel_mm s)) 1020
     \<and> (pde_present (pdmem s (mm_pd_pa (kernel_mm s)) 512) \<longrightarrow> row 512 = pdmem s (mm_pd_pa (kernel_mm s)) 512)
     \<and> (if k < 63 then pde_present (row 1) \<and> pde_to_pt (row 1) = page s (2 + 2 * k)
            \<and> ptm = (ptmem s)(page s (2 + 2 * k) := with_range 0 256 (of_nat (region_pa k)) (cleared (ptmem s (page s (2 + 2 * k)))))
        else \<not> pde_present (row 1) \<and> ptm = ptmem s))"

lemma task_space_step:
  assumes ok: "spaces_ok k s" and k: "k < 64"
  shows "\<exists>s'. task_spaces_loop (Suc n) (of_nat (region_pa k)) s = task_spaces_loop n (of_nat (region_pa (Suc k))) s'
    \<and> region_done k s s'"
proof -
  note A = ok [unfolded spaces_ok_def kernel_space_ok_def]
  let ?v = "process_vma k" and ?pd = "page s (1 + 2 * k)" and ?kpd = "mm_pd_pa (kernel_mm s)"
  let ?s1 = "(forked k s)\<lparr>vma_next := of_nat (3 + 2 * k), proc_mms := (proc_mms s)(k := \<lparr> mm_pd_pa = ?pd,
    mm_kernel_pde_start = mm_kernel_pde_start (kernel_mm s), mm_vmas = [?v, vga_vma] \<rparr>)\<rparr>"
  have row: "\<not> pde_present (pdmem ?s1 ?pd 1)" "pdmem ?s1 ?pd 1020 = pdmem s ?kpd 1020"
    "pde_present (pdmem s ?kpd 512) \<Longrightarrow> pdmem ?s1 ?pd 512 = pdmem s ?kpd 512"
    using A by (simp_all add: forked_def inherited_def no_pde_def Let_def)
  have vl: "\<not> (1024 \<le> (of_nat (2 + 2 * k) :: u32))" "(of_nat (2 + 2 * k) :: u32) + 1 = of_nat (3 + 2 * k)"
    using k unat_u32 [of "2 + 2 * k"] by (simp_all only: word_le_nat_alt) simp_all
  have pa: "(of_nat (region_pa k) :: u32) + PROCESS_VA_SIZE = of_nat (region_pa (Suc k))"
    by (simp add: region_pa_def algebra_simps)
  have v: "\<lparr> vma_base_va = PROCESS_VA_BASE, vma_base_pa = of_nat (region_pa k), vma_length = PROCESS_VA_SIZE, vma_flags = 15,
      vma_type = VMA_TYPE_PROCESS \<rparr> = ?v"
    by (simp only: process_vma_def)
  have add: "mm_add_vma (Some (ProcMm k)) VMA_TYPE_PROCESS PROCESS_VA_BASE PROCESS_VA_SIZE 15 (of_nat (region_pa k)) (forked k s)
      = bindR (vm_map_impl ?pd PROCESS_VA_BASE (of_nat (region_pa k)) PROCESS_VA_SIZE ?s1) (\<lambda>s3. Inr (Some ?v, s3))"
    using vl unfolding mm_add_vma_def v
    by (simp add: vma_alloc_def forked_def set_mm_def mm_at_def deref_def Let_def del: of_nat_add of_nat_mult paging_numbers)
      (simp del: of_nat_add of_nat_mult)
  have run: "task_spaces_loop (Suc n) (of_nat (region_pa k)) s =
      bindR (vm_map_impl ?pd PROCESS_VA_BASE (of_nat (region_pa k)) PROCESS_VA_SIZE ?s1) (task_spaces_loop n (of_nat (region_pa (Suc k))))"
    by (simp add: mm_fork_kernel_ok [OF ok k] add pa bindR_def split: sum.split del: paging_numbers)
  have pg: "page ?s1 m = page s m" for m by (simp add: forked_def)
  have po: "pool_ok ?s1" using A by (simp add: pool_ok_def forked_def)
  let ?row = "inherited (pdmem s ?kpd) (pdmem s ?pd)"
  show ?thesis
  proof (cases "k < 63")
    case True
    have pn: "mm_paging_next ?s1 = of_nat (2 + 2 * k)" "2 + 2 * k < 128" using True by (simp_all add: forked_def)
    obtain s3 e where s3: "vm_map_impl ?pd PROCESS_VA_BASE (of_nat (region_pa k)) PROCESS_VA_SIZE ?s1 = Inr s3"
      "s3 = ?s1\<lparr>mm_paging_next := of_nat (Suc (2 + 2 * k)), pdmem := (pdmem ?s1)(?pd := (pdmem ?s1 ?pd)(1 := e)),
        ptmem := (ptmem ?s1)(page ?s1 (2 + 2 * k) := with_range 0 256 (of_nat (region_pa k)) (cleared (ptmem ?s1 (page ?s1 (2 + 2 * k)))))\<rparr>"
      "pde_present e" "pde_to_pt e = page ?s1 (2 + 2 * k)"
      using map_region [OF pn po row(1), of "of_nat (region_pa k)"] by blast
    have "region_done k s s3"
      unfolding region_done_def
      by (rule exI [of _ "3 + 2 * k"], rule exI [of _ "?row(1 := e)"], rule exI [of _ "ptmem s3"])
        (use True s3(2-4) row(2,3) in \<open>simp add: pg forked_def numeral_3_eq_3 del: of_nat_add of_nat_mult\<close>)
    then show ?thesis using run s3(1) by auto
  next
    case False
    then have k63: "k = 63" using k by simp
    have ix: "PDE_INDEX PROCESS_VA_BASE = 1" using PDE_INDEX_of_nat [of 4194304] by simp
    have "ensure_pt ?pd PROCESS_VA_BASE ?s1 = (False, ?s1)"
      using row(1) k63 unfolding ix [symmetric] by (intro ensure_pt_none) (simp_all add: forked_def)
    note none = vm_map_loop_none [OF this]
    have sz: "PROCESS_VA_SIZE \<noteq> 0" "unat PROCESS_VA_SIZE div 4096 = Suc 255" by simp_all
    have m: "vm_map_impl ?pd PROCESS_VA_BASE (of_nat (region_pa k)) PROCESS_VA_SIZE ?s1 = Inr ?s1"
      unfolding vm_map_impl_def sz(2) by (rule none [OF sz(1)])
    have "region_done k s ?s1"
      unfolding region_done_def
      by (rule exI [of _ 128], rule exI [of _ "?row"], rule exI [of _ "ptmem s"])
        (use k63 row in \<open>simp add: forked_def\<close>)
    then show ?thesis using run m by auto
  qed
qed

lemma page_cong: "pool_pa s' = pool_pa s \<Longrightarrow> page s' n = page s n"
  by (simp add: page_def)

lemma space_ok_other:
  assumes "space_ok i s" "pool_ok s" "i < k" "k < 64" "pool_pa s' = pool_pa s" "proc_mms s' i = proc_mms s i"
    "\<And>n. n \<noteq> 1 + 2 * k \<Longrightarrow> n < 128 \<Longrightarrow> pdmem s' (page s n) = pdmem s (page s n)"
    "\<And>n. n \<noteq> 2 + 2 * k \<Longrightarrow> n < 128 \<Longrightarrow> ptmem s' (page s n) = ptmem s (page s n)"
  shows "space_ok i s'"
proof -
  have "pdmem s' (page s (1 + 2 * i)) = pdmem s (page s (1 + 2 * i))" using assms(3,4) by (intro assms(7)) simp_all
  moreover have "ptmem s' (page s (2 + 2 * i)) = ptmem s (page s (2 + 2 * i))" if "i < 63"
    using assms(3,4) that by (intro assms(8)) simp_all
  ultimately show ?thesis
    using assms(1) unfolding space_ok_def maps_region_def assms(6) page_cong [OF assms(5)] by (simp split: if_splits)
qed

lemma region_done_ok:
  assumes ok: "spaces_ok k s" and k: "k < 64" and r: "region_done k s s'"
  shows "spaces_ok (Suc k) s'"
proof -
  note A = ok [unfolded spaces_ok_def kernel_space_ok_def]
  let ?pd = "page s (1 + 2 * k)" and ?pt = "page s (2 + 2 * k)" and ?kpd = "mm_pd_pa (kernel_mm s)"
  obtain n row ptm where s': "s' = s\<lparr>mm_paging_next := of_nat n, proc_mm_next := of_nat (Suc k), mm_impl_next := of_nat (Suc k),
       vma_next := of_nat (3 + 2 * k),
       proc_mms := (proc_mms s)(k := \<lparr> mm_pd_pa = ?pd, mm_kernel_pde_start = mm_kernel_pde_start (kernel_mm s),
         mm_vmas = [process_vma k, vga_vma] \<rparr>),
       pdmem := (pdmem s)(?pd := row), ptmem := ptm\<rparr>" "n = (if Suc k < 64 then 3 + 2 * k else 128)"
     "row 1020 = pdmem s ?kpd 1020"
     "if k < 63 then pde_present (row 1) \<and> pde_to_pt (row 1) = ?pt
            \<and> ptm = (ptmem s)(?pt := with_range 0 256 (of_nat (region_pa k)) (cleared (ptmem s ?pt)))
        else \<not> pde_present (row 1) \<and> ptm = ptmem s"
    using r unfolding region_done_def by blast
  have pg: "page s' m = page s m" for m by (rule page_cong) (simp add: s'(1))
  have kpd: "?kpd \<noteq> ?pd" using A k by simp
  have inj: "page s m = page s m' \<longleftrightarrow> m = m'" if "m < 128" "m' < 128" for m m'
    using page_inject [of s m m'] A that by blast
  have "kernel_space_ok s'"
    using A kpd unfolding kernel_space_ok_def pg by (simp add: s'(1))
  moreover have "space_ok k s'"
  proof -
    have "maps_region k s'" if "k < 63"
      unfolding maps_region_def pg using s'(4) that
      by (simp add: s'(1) with_range_def pte_set_def cleared_def PTE_P_def PTE_W_def PTE_U_def Let_def)
    then show ?thesis
      unfolding space_ok_def pg using s'(3,4) A by (auto simp: s'(1) Let_def)
  qed
  moreover have "space_ok i s'" if "i < k" for i
  proof (rule space_ok_other [of i s k])
    show "space_ok i s" "pool_ok s" using A that by blast+
    show "pdmem s' (page s m) = pdmem s (page s m)" if "m \<noteq> 1 + 2 * k" "m < 128" for m
      using inj [of m "1 + 2 * k"] that k by (simp add: s'(1))
    show "ptmem s' (page s m) = ptmem s (page s m)" if "m \<noteq> 2 + 2 * k" "m < 128" for m
      using inj [of m "2 + 2 * k"] that s'(4) k by (simp add: s'(1) split: if_splits)
  qed (use that k in \<open>simp_all add: s'(1)\<close>)
  moreover have "pool_ok s'" using A by (simp add: pool_ok_def s'(1))
  ultimately show ?thesis
    unfolding spaces_ok_def using s'(2) by (auto simp: s'(1) less_Suc_eq)
qed

lemma task_spaces_loop_ok:
  "spaces_ok k s \<Longrightarrow> k + n \<le> 64 \<Longrightarrow> \<exists>s'. task_spaces_loop n (of_nat (region_pa k)) s = Inr s' \<and> spaces_ok (k + n) s'"
proof (induction n arbitrary: k s)
  case (Suc n)
  then obtain s' where "task_spaces_loop (Suc n) (of_nat (region_pa k)) s = task_spaces_loop n (of_nat (region_pa (Suc k))) s'"
    "spaces_ok (Suc k) s'"
    using task_space_step [of k s n] region_done_ok by auto
  with Suc.IH [of "Suc k" s'] Suc.prems(2) show ?case by simp
qed simp

lemma task_spaces_init_ok:
  assumes "spaces_ok 0 s" shows "\<exists>s'. task_spaces_init s = Inr s' \<and> spaces_ok 64 s'"
proof -
  have "PROCESS_PA_START = of_nat (region_pa 0)" by (simp add: region_pa_def)
  then show ?thesis using task_spaces_loop_ok [OF assms, of 64] by (simp only: task_spaces_init_def) simp
qed

subsection \<open>What a space maps\<close>

text \<open>The kernel's stack is mapped in the kernel's space and in those of the first \<open>k\<close> tasks, so each can be activated.\<close>

definition stack_mapped :: "u32 \<Rightarrow> nat \<Rightarrow> mmst \<Rightarrow> bool" where
  "stack_mapped esp k s \<longleftrightarrow> PDE_INDEX esp = 512
     \<and> (let e = pdmem s (mm_pd_pa (kernel_mm s)) 512
        in pde_present e \<and> pte_present (ptmem s (pde_to_pt e) (PTE_INDEX esp)) \<and> (\<forall>n < 128. pde_to_pt e \<noteq> page s n)
          \<and> (\<forall>i < k. pdmem s (page s (1 + 2 * i)) 512 = e))"

lemma region_done_stack:
  assumes ok: "spaces_ok k s" and k: "k < 64" and r: "region_done k s s'" and st: "stack_mapped esp k s"
  shows "stack_mapped esp (Suc k) s'" "cpu s' = cpu s"
proof -
  note A = ok [unfolded spaces_ok_def kernel_space_ok_def] and T = st [unfolded stack_mapped_def Let_def]
  let ?pd = "page s (1 + 2 * k)" and ?kpd = "mm_pd_pa (kernel_mm s)"
  obtain n row ptm where s': "s' = s\<lparr>mm_paging_next := of_nat n, proc_mm_next := of_nat (Suc k), mm_impl_next := of_nat (Suc k),
       vma_next := of_nat (3 + 2 * k),
       proc_mms := (proc_mms s)(k := \<lparr> mm_pd_pa = ?pd, mm_kernel_pde_start = mm_kernel_pde_start (kernel_mm s),
         mm_vmas = [process_vma k, vga_vma] \<rparr>),
       pdmem := (pdmem s)(?pd := row), ptmem := ptm\<rparr>"
     "pde_present (pdmem s ?kpd 512) \<longrightarrow> row 512 = pdmem s ?kpd 512"
     "if k < 63 then pde_present (row 1) \<and> pde_to_pt (row 1) = page s (2 + 2 * k)
            \<and> ptm = (ptmem s)(page s (2 + 2 * k) := with_range 0 256 (of_nat (region_pa k)) (cleared (ptmem s (page s (2 + 2 * k)))))
        else \<not> pde_present (row 1) \<and> ptm = ptmem s"
    using r unfolding region_done_def by blast
  have pg: "page s' m = page s m" for m by (rule page_cong) (simp add: s'(1))
  have kpd: "?kpd \<noteq> ?pd" using A k by simp
  have inj: "page s (1 + 2 * i) \<noteq> ?pd" if "i < k" for i
    using page_inject [of s "1 + 2 * i" "1 + 2 * k"] A that k by simp
  have "ptm (pde_to_pt (pdmem s ?kpd 512)) = ptmem s (pde_to_pt (pdmem s ?kpd 512))"
    using s'(3) T k by (cases "k < 63") (simp_all split: if_splits)
  then show "stack_mapped esp (Suc k) s'"
    unfolding stack_mapped_def Let_def pg using T s'(2) kpd inj by (auto simp: s'(1) less_Suc_eq)
  show "cpu s' = cpu s" by (simp add: s'(1))
qed

lemma task_spaces_loop_stack:
  "spaces_ok k s \<Longrightarrow> stack_mapped esp k s \<Longrightarrow> k + n \<le> 64 \<Longrightarrow>
   \<exists>s'. task_spaces_loop n (of_nat (region_pa k)) s = Inr s' \<and> spaces_ok (k + n) s' \<and> stack_mapped esp (k + n) s' \<and> cpu s' = cpu s"
proof (induction n arbitrary: k s)
  case (Suc n)
  then have k: "k < 64" by simp
  obtain s' where s': "task_spaces_loop (Suc n) (of_nat (region_pa k)) s = task_spaces_loop n (of_nat (region_pa (Suc k))) s'"
    "region_done k s s'"
    using task_space_step [OF Suc.prems(1) k] by blast
  note r = region_done_stack [OF Suc.prems(1) k s'(2) Suc.prems(2)]
  have n: "Suc k + n \<le> 64" using Suc.prems(3) by simp
  from Suc.IH [OF region_done_ok [OF Suc.prems(1) k s'(2)] r(1) n] show ?case using s'(1) r(2) by simp
qed simp

lemma task_spaces_init_stack:
  assumes "spaces_ok 0 s" "stack_mapped esp 0 s"
  shows "\<exists>s'. task_spaces_init s = Inr s' \<and> spaces_ok 64 s' \<and> stack_mapped esp 64 s' \<and> cpu s' = cpu s"
proof -
  have "PROCESS_PA_START = of_nat (region_pa 0)" by (simp add: region_pa_def)
  then show ?thesis using task_spaces_loop_stack [OF assms, of 64] by (simp only: task_spaces_init_def) simp
qed

lemma spaces_cr3:
  "spaces_ok k (s\<lparr>cr3 := a, cpu := c\<rparr>) = spaces_ok k s" "stack_mapped esp k (s\<lparr>cr3 := a, cpu := c\<rparr>) = stack_mapped esp k s"
proof -
  have pg: "page (s\<lparr>cr3 := a, cpu := c\<rparr>) n = page s n" for n by (rule page_cong) simp
  show "spaces_ok k (s\<lparr>cr3 := a, cpu := c\<rparr>) = spaces_ok k s"
    unfolding spaces_ok_def kernel_space_ok_def space_ok_def maps_region_def pg pool_ok_def by (simp cong: if_cong)
  show "stack_mapped esp k (s\<lparr>cr3 := a, cpu := c\<rparr>) = stack_mapped esp k s"
    unfolding stack_mapped_def pg by simp
qed

lemma mm_activate_ok:
  assumes "spaces_ok k s" "stack_mapped esp k s"
  shows "mm_activate esp KernelMm s = Inr (s\<lparr>cr3 := mm_pd_pa (kernel_mm s), cpu := interrupts_enable (cpu s)\<rparr>)"
    "i < k \<Longrightarrow> mm_activate esp (ProcMm i) s = Inr (s\<lparr>cr3 := page s (1 + 2 * i), cpu := interrupts_enable (cpu s)\<rparr>)"
  using assms by (auto simp: mm_activate_def mm_at_def stack_mapped_def spaces_ok_def space_ok_def Let_def)

lemma frame_or_offset: "FRAME_TO_PA f OR (va AND 4095) = FRAME_TO_PA f + (va AND 4095)"
proof -
  have "FRAME_TO_PA f AND (va AND 4095) = 0"
    by (rule bit_word_eqI) (auto simp: FRAME_TO_PA_def bit_simps word_mask_numerals(5))
  then show ?thesis by (simp add: disjunctive_add_eq_or)
qed

lemma walk_region:
  assumes "space_ok i s" "pool_ok s" "i < 63" "a < 1048576"
  shows "walk (page s (1 + 2 * i)) s (of_nat (4194304 + a)) = Some (of_nat (region_pa i + a))"
proof -
  define j where "j = a div 4096"
  have j: "j < 256" "a = j * 4096 + a mod 4096" using assms(4) by (simp_all add: j_def)
  have "(4194304 + a) div 4096 = j + 1024" using div_mult_self3 [of 4096 1024 a] by (simp add: j_def add.commute)
  then have ix: "PDE_INDEX (of_nat (4194304 + a)) = 1" "PTE_INDEX (of_nat (4194304 + a)) = j"
    using assms(4) j(1) by (simp_all add: PDE_INDEX_of_nat PTE_INDEX_of_nat del: of_nat_add)
  let ?f = "region_pa i + j * 4096"
  have f: "?f < 4294967296 - 4096" "4096 dvd ?f" using assms(3) j(1) by (simp_all add: region_pa_def)
  then have fr: "FRAME_TO_PA (pa_frame (of_nat ?f)) = of_nat ?f" by (intro FRAME_pa_frame) (simp add: unat_u32 del: of_nat_add)
  have off: "(of_nat (4194304 + a) :: u32) AND 4095 = of_nat (a mod 4096)"
  proof -
    have "(4194304 + a) mod 4096 = a mod 4096" using mod_mult_self3 [of 1024 4096 a] by simp
    then have "unat ((of_nat (4194304 + a) :: u32) AND 4095) = unat (of_nat (a mod 4096) :: u32)"
      using assms(4) by (simp add: unat_simps unat_u32 del: of_nat_add)
    then show ?thesis by (simp only: word_unat_eq_iff)
  qed
  have sum: "?f + a mod 4096 = region_pa i + a" using j(2) by simp
  have "FRAME_TO_PA (pa_frame (of_nat ?f)) OR ((of_nat (4194304 + a) :: u32) AND 4095) = of_nat (region_pa i + a)"
    unfolding frame_or_offset unfolding fr off of_nat_add [symmetric] sum ..
  then show ?thesis
    using assms(1,3) j(1) unfolding walk_def ix space_ok_def maps_region_def by (simp add: Let_def del: of_nat_add)
qed

lemma walk_no_region:
  assumes "space_ok 63 s" "a < 1048576"
  shows "walk (page s 127) s (of_nat (4194304 + a)) = None"
proof -
  have "PDE_INDEX (of_nat (4194304 + a)) = 1" using assms(2) by (simp add: PDE_INDEX_of_nat del: of_nat_add)
  with assms(1) show ?thesis by (simp add: walk_def space_ok_def Let_def)
qed

subsection \<open>mm_init\<close>

text \<open>
  What the code before \<open>kmain\<close> (arch/x86/kpremain.asm) leaves: table 0 maps low memory, table 512 the
  kernel and its stack; the pools are unused and none of the tables is a page of the pool.
\<close>

definition premain_built :: "u32 \<Rightarrow> u32 \<Rightarrow> mmst \<Rightarrow> bool" where
  "premain_built esp kpd s \<longleftrightarrow> pool_ok s
     \<and> mm_paging_next s = 0 \<and> proc_mm_next s = 0 \<and> mm_impl_next s = 0 \<and> vma_next s = 0
     \<and> (\<forall>n < 128. kpd \<noteq> page s n)
     \<and> pde_present (pdmem s kpd 0) \<and> \<not> pde_present (pdmem s kpd 1) \<and> pde_present (pdmem s kpd 512)
     \<and> pde_to_pt (pdmem s kpd 512) \<noteq> pde_to_pt (pdmem s kpd 0) \<and> (\<forall>n < 128. pde_to_pt (pdmem s kpd 512) \<noteq> page s n)
     \<and> PDE_INDEX esp = 512 \<and> pte_present (ptmem s (pde_to_pt (pdmem s kpd 512)) (PTE_INDEX esp))
     \<and> unat (premain_pa_start s) \<le> unat (premain_pa_end s) \<and> unat (premain_pa_end s) + 4096 \<le> 4194304"

lemma vm_unmap_loop_low:
  assumes "m + n * 4096 \<le> 4194304"
  shows "\<exists>ptm. vm_unmap_loop n pd (of_nat m) (of_nat (n * 4096)) s = Inr (s\<lparr>ptmem := ptm\<rparr>)
    \<and> (\<forall>pt. pt \<noteq> pde_to_pt (pdmem s pd 0) \<longrightarrow> ptm pt = ptmem s pt)"
  using assms
proof (induction n arbitrary: m s)
  case 0
  show ?case by (intro exI [of _ "ptmem s"]) simp
next
  case (Suc n)
  have ix: "PDE_INDEX (of_nat m) = 0" using Suc.prems by (simp add: PDE_INDEX_of_nat)
  have sz: "(of_nat (Suc n * 4096) :: u32) \<noteq> 0" using Suc.prems by (intro page_count(2)) simp
  note sz = sz page_count(1) [of n]
  let ?s = "unmap_page pd (of_nat m) s"
  obtain q where q: "?s = s\<lparr>ptmem := q\<rparr>" "\<forall>pt. pt \<noteq> pde_to_pt (pdmem s pd 0) \<longrightarrow> q pt = ptmem s pt"
  proof (cases "pde_present (pdmem s pd 0)")
    case True
    then show ?thesis
      using that [of "ptmem ?s"] by (simp add: unmap_page_def ix set_pte_def Let_def)
  next
    case False
    then show ?thesis using that [of "ptmem s"] by (simp add: unmap_page_def ix Let_def)
  qed
  obtain ptm where "vm_unmap_loop n pd (of_nat (m + 4096)) (of_nat (n * 4096)) ?s = Inr (?s\<lparr>ptmem := ptm\<rparr>)"
    "\<forall>pt. pt \<noteq> pde_to_pt (pdmem ?s pd 0) \<longrightarrow> ptm pt = ptmem ?s pt"
    using Suc.IH [of "m + 4096" ?s] Suc.prems by auto
  with q sz show ?case
    by (intro exI [of _ ptm]) (simp add: of_nat_plus_4096 del: of_nat_add of_nat_mult mult_Suc)
qed

lemma mask_page: "unat (x AND PAGE_MASK) = unat x div 4096 * 4096"
proof -
  have "x AND NOT (mask 12) = push_bit 12 (drop_bit 12 x)" for x :: u32
    by (rule bit_word_eqI) (auto simp: bit_simps)
  then have "x AND PAGE_MASK = push_bit 12 (drop_bit 12 x)"
    by (simp add: PAGE_MASK_def word_mask_numerals)
  then have "x AND PAGE_MASK = drop_bit 12 x * 4096" by (simp add: push_bit_eq_mult mult.commute)
  moreover have "unat (drop_bit 12 x) = unat x div 4096" by (simp add: unat_simps)
  moreover have "unat x div 4096 * 4096 \<le> unat x" by simp
  then have "unat x div 4096 * 4096 < 4294967296" using unat_lt_2_32 [of x] by (rule le_less_trans)
  ultimately show ?thesis by (simp add: unat_simps)
qed

lemma vm_unmap_premain_ok:
  assumes "unat (premain_pa_start s) \<le> unat (premain_pa_end s)" "unat (premain_pa_end s) + 4096 \<le> 4194304"
  shows "\<exists>ptm. vm_unmap_premain s = Inr (s\<lparr>ptmem := ptm\<rparr>)
    \<and> (\<forall>pt. pt \<noteq> pde_to_pt (pdmem s (mm_pd_pa (kernel_mm s)) 0) \<longrightarrow> ptm pt = ptmem s pt)"
proof -
  let ?x = "unat (premain_pa_start s) div 4096" and ?y = "(unat (premain_pa_end s) + 4095) div 4096"
  have le: "?x \<le> ?y" using assms(1) by (intro div_le_mono) simp
  have "unat (premain_pa_end s + 4096 - 1) = unat (premain_pa_end s) + 4095" using assms(2) by (simp add: unat_simps)
  then have y: "unat ((premain_pa_end s + 4096 - 1) AND PAGE_MASK) = ?y * 4096" by (simp add: mask_page)
  have x: "unat (premain_pa_start s AND PAGE_MASK) = ?x * 4096" by (simp add: mask_page)
  have yb: "?y * 4096 \<le> 4194304 - 1" using assms(2) div_times_less_eq_dividend [of "unat (premain_pa_end s) + 4095" 4096] by linarith
  have d: "(premain_pa_end s + 4096 - 1 AND PAGE_MASK) - (premain_pa_start s AND PAGE_MASK) = of_nat ((?y - ?x) * 4096)"
    (is "?d = _")
  proof -
    have "unat ?d = ?y * 4096 - ?x * 4096" using le x y by (simp add: unat_simps)
    then show ?thesis by (metis diff_mult_distrib of_nat_unat ucast_id)
  qed
  have st: "premain_pa_start s AND PAGE_MASK = of_nat (?x * 4096)" by (metis x of_nat_unat ucast_id)
  have "unat ((of_nat ((?y - ?x) * 4096)) :: u32) div 4096 = ?y - ?x"
  proof -
    have "(?y - ?x) * 4096 < 4294967296" using yb by (simp add: diff_mult_distrib)
    then show ?thesis by (simp only: unat_u32) simp
  qed
  then have run: "vm_unmap_premain s = vm_unmap_loop (?y - ?x) (mm_pd_pa (kernel_mm s)) (of_nat (?x * 4096)) (of_nat ((?y - ?x) * 4096)) s"
    unfolding vm_unmap_premain_def Let_def vm_unmap_impl_def paging_numbers d unfolding st by (simp only:)
  have "?x * 4096 + (?y - ?x) * 4096 \<le> 4194304" using le yb by (simp add: diff_mult_distrib)
  from vm_unmap_loop_low [OF this] show ?thesis unfolding run by blast
qed

lemma mm_init_ok:
  assumes b: "premain_built esp kpd s"
  shows "\<exists>s'. mm_init esp kpd s = Inr s' \<and> spaces_ok 0 s' \<and> cr3 s' = kpd \<and> phys s' = phys s \<and> stack_mapped esp 0 s'
    \<and> cpu s' = interrupts_enable (idt_set_gate 14 (isr_page_fault s) GDT_KERNEL_CS 0x8E (cpu s))"
proof -
  note B = b [unfolded premain_built_def]
  let ?k = "\<lparr> mm_pd_pa = kpd, mm_kernel_pde_start = PDE_INDEX KERNEL_VA, mm_vmas = [] \<rparr>"
  let ?low = "pde_to_pt (pdmem s kpd 0)" and ?high = "pde_to_pt (pdmem s kpd 512)"
  let ?c = "idt_set_gate 14 (isr_page_fault s) GDT_KERNEL_CS 0x8E (cpu s)"
  let ?s1 = "s\<lparr>cpu := ?c, kernel_mm := ?k\<rparr>"
  obtain ptm where s2: "vm_unmap_premain ?s1 = Inr (?s1\<lparr>ptmem := ptm\<rparr>)" "\<forall>pt. pt \<noteq> ?low \<longrightarrow> ptm pt = ptmem s pt"
    using vm_unmap_premain_ok [of ?s1] B by auto
  let ?s2 = "s\<lparr>cpu := ?c, ptmem := ptm, vma_next := 1, kernel_mm := ?k\<lparr>mm_vmas := [vga_vma]\<rparr>\<rparr>"
  have num: "VGA_TEXT_BUFFER_VA = of_nat (0 * 4194304 + 184 * 4096)" "VGA_TEXT_BUFFER_SIZE = of_nat (1 * 4096)"
    by (simp_all add: VGA_TEXT_BUFFER_VA_def VGA_TEXT_BUFFER_SIZE_def)
  have "unat VGA_TEXT_BUFFER_SIZE div 4096 = 1" by (simp add: VGA_TEXT_BUFFER_SIZE_def)
  then have map: "vm_map_impl kpd VGA_TEXT_BUFFER_VA VGA_TEXT_BUFFER_VA VGA_TEXT_BUFFER_SIZE ?s2
      = Inr (user_range kpd 0 184 1 VGA_TEXT_BUFFER_VA ?s2)"
    unfolding vm_map_impl_def num using B vm_map_loop_user [of 0 ?s2 kpd 184 1] by simp
  let ?s3 = "user_range kpd 0 184 1 VGA_TEXT_BUFFER_VA ?s2"
  have v: "\<lparr> vma_base_va = VGA_TEXT_BUFFER_VA, vma_base_pa = VGA_TEXT_BUFFER_VA, vma_length = VGA_TEXT_BUFFER_SIZE,
      vma_flags = 3, vma_type = VMA_TYPE_VGA \<rparr> = vga_vma" by (simp only: vga_vma_def)
  have add: "mm_add_vma (Some KernelMm) VMA_TYPE_VGA VGA_TEXT_BUFFER_VA VGA_TEXT_BUFFER_SIZE 3 VGA_TEXT_BUFFER_VA (?s1\<lparr>ptmem := ptm\<rparr>)
      = Inr (Some vga_vma, ?s3)"
    using B map unfolding mm_add_vma_def v by (simp add: vma_alloc_def set_mm_def mm_at_def deref_def Let_def)
  have f3: "mm_paging_next ?s3 = 0" "pool_pa ?s3 = pool_pa s" "page ?s3 0 = page s 0" "kernel_mm ?s3 = ?k\<lparr>mm_vmas := [vga_vma]\<rparr>" "cpu ?s3 = ?c"
    using B by (simp_all add: user_range_def Let_def page_def)
  have pg: "mm_alloc_page_pa ?s3 = (page s 0, ?s3\<lparr>mm_paging_next := 1\<rparr>)"
    using alloc_page [of ?s3 0] f3 by simp
  have z: "page s 0 \<noteq> 0" using page_not_0 [of s 0] B by simp
  let ?e = "(pdmem ?s3 kpd 1020)\<lparr>pde_frame := pa_frame (page s 0), pde_present := True, pde_writable := True, pde_user := False, pde_ps := False\<rparr>"
  let ?s4 = "set_pde kpd 1020 (\<lambda>e. e\<lparr>pde_frame := pa_frame (page s 0), pde_present := True, pde_writable := True, pde_user := False,
    pde_ps := False\<rparr>) (pt_clear (page s 0) (?s3\<lparr>mm_paging_next := 1, copy_pt := Some (page s 0)\<rparr>))"
  have cs: "PDE_INDEX COPY_SRC_VA = 1020" using PDE_INDEX_of_nat [of "0xFF000000"] by (simp add: COPY_SRC_VA_def)
  have st: "pde_present (pdmem ?s4 kpd 512)" "pde_to_pt (pdmem ?s4 kpd 512) = ?high" "ptmem ?s4 ?high = ptmem s ?high"
    using B s2(2) page_inject [of s] by (simp_all add: set_pde_def pt_clear_def user_range_def Let_def)
  have act: "mm_activate esp KernelMm ?s4 = Inr (?s4\<lparr>cr3 := kpd, cpu := interrupts_enable ?c\<rparr>)"
    using st B f3(4,5) by (simp add: mm_activate_def mm_at_def set_pde_def pt_clear_def)
  have run: "mm_init esp kpd s = Inr (?s4\<lparr>cr3 := kpd, cpu := interrupts_enable ?c\<rparr>)"
    using s2(1) add pg z act f3(4) cs by (simp add: mm_init_def Let_def pt_clear_def)
  have pgs: "page (?s4\<lparr>cr3 := kpd, cpu := interrupts_enable ?c\<rparr>) n = page s n" for n
    by (rule page_cong) (simp add: set_pde_def pt_clear_def user_range_def Let_def)
  have "spaces_ok 0 (?s4\<lparr>cr3 := kpd, cpu := interrupts_enable ?c\<rparr>)"
    unfolding spaces_ok_def kernel_space_ok_def pgs pool_ok_def
    using B page_frame [of s 0] f3(4)
    by (auto simp: set_pde_def pt_clear_def user_range_def Let_def pool_ok_def pde_to_pt_def)
  moreover have "stack_mapped esp 0 (?s4\<lparr>cr3 := kpd, cpu := interrupts_enable ?c\<rparr>)"
    using st B f3(4) unfolding stack_mapped_def pgs by (simp add: set_pde_def pt_clear_def user_range_def Let_def)
  ultimately show ?thesis using run by (auto simp: set_pde_def pt_clear_def user_range_def Let_def)
qed

subsection \<open>Copying through the window\<close>

text \<open>Memory with \<open>n\<close> bytes from \<open>src\<close> on copied to \<open>dst\<close>.\<close>

definition blit :: "nat \<Rightarrow> nat \<Rightarrow> nat \<Rightarrow> (u32 \<Rightarrow> char) \<Rightarrow> u32 \<Rightarrow> char" where
  "blit dst src n m = (\<lambda>a. if dst \<le> unat a \<and> unat a < dst + n then m (of_nat (unat a - dst + src)) else m a)"

lemma blit_0 [simp]: "blit dst src 0 m = m"
  by (auto simp: blit_def fun_eq_iff)

lemma blit_1: "dst < 4294967296 \<Longrightarrow> blit dst src 1 m = m(of_nat dst := m (of_nat src))"
  by (auto simp: blit_def fun_eq_iff unat_u32 order_antisym_conv)

lemma blit_blit:
  assumes "src + (x + y) \<le> 4294967296" "src + (x + y) \<le> dst \<or> dst + (x + y) \<le> src"
  shows "blit (dst + x) (src + x) y (blit dst src x m) = blit dst src (x + y) m"
proof (rule ext)
  fix a :: u32
  have in_src: "blit dst src x m (of_nat (unat a - (dst + x) + (src + x))) = m (of_nat (unat a - dst + src))"
    if "dst + x \<le> unat a" "unat a < dst + x + y"
  proof -
    have e: "unat a - (dst + x) + (src + x) = unat a - dst + src" using that by simp
    have "unat a - dst + src < 4294967296" using assms(1) that by simp
    then have "unat (of_nat (unat a - dst + src) :: u32) = unat a - dst + src" by (rule unat_u32)
    then show ?thesis unfolding e blit_def using assms(2) that by auto
  qed
  show "blit (dst + x) (src + x) y (blit dst src x m) a = blit dst src (x + y) m a"
  proof (cases "dst + x \<le> unat a \<and> unat a < dst + x + y")
    case True
    then show ?thesis using in_src by (simp add: blit_def [of "dst + x"]) (simp add: blit_def)
  next
    case False
    then have "blit (dst + x) (src + x) y (blit dst src x m) a = blit dst src x m a"
      by (auto simp: blit_def [of "dst + x"])
    with False show ?thesis by (auto simp: blit_def)
  qed
qed

lemma copy_bytes_ok:
  assumes "\<forall>k < 4096. walk (cr3 s) s (of_nat (vs + k)) = Some (of_nat (sp + k))"
    "\<forall>k < 4096. walk (cr3 s) s (of_nat (vd + k)) = Some (of_nat (dp + k))"
    "sp + 4096 \<le> 4294967296" "dp + 4096 \<le> 4294967296" "sp + 4096 \<le> dp \<or> dp + 4096 \<le> sp"
    "k + n \<le> 4096"
  shows "copy_bytes n (of_nat (vd + k)) (of_nat (vs + k)) (s\<lparr>phys := m\<rparr>) = Inr (s\<lparr>phys := blit (dp + k) (sp + k) n m\<rparr>)"
  using assms(6)
proof (induction n arbitrary: k m)
  case (Suc n)
  have w: "walk pd (s\<lparr>phys := m\<rparr>) va = walk pd s va" for pd va m by (simp add: walk_def Let_def)
  have k: "k < 4096" using Suc.prems by simp
  let ?m = "m(of_nat (dp + k) := m (of_nat (sp + k)))"
  have "copy_bytes (Suc n) (of_nat (vd + k)) (of_nat (vs + k)) (s\<lparr>phys := m\<rparr>)
      = copy_bytes n (of_nat (vd + k) + 1) (of_nat (vs + k) + 1) (s\<lparr>phys := ?m\<rparr>)"
    using assms(1,2) k by (simp add: load8_def store8_def w del: of_nat_add)
  also have "\<dots> = copy_bytes n (of_nat (vd + Suc k)) (of_nat (vs + Suc k)) (s\<lparr>phys := ?m\<rparr>)"
    by (simp add: add.commute add.left_commute)
  also have "\<dots> = Inr (s\<lparr>phys := blit (dp + Suc k) (sp + Suc k) n ?m\<rparr>)"
    using Suc by (simp del: of_nat_add of_nat_Suc fun_upd_apply add_Suc_right)
  also have "?m = blit (dp + k) (sp + k) 1 m" using k assms(4) by (subst blit_1) simp_all
  also have "blit (dp + Suc k) (sp + Suc k) n (blit (dp + k) (sp + k) 1 m) = blit (dp + k) (sp + k) (Suc n) m"
    using blit_blit [of "sp + k" 1 n "dp + k" m] assms(3,5) Suc.prems by auto
  finally show ?case .
qed simp

text \<open>The armed window: the two entries of the copy table point to the two pages.\<close>

definition armed :: "u32 \<Rightarrow> u32 \<Rightarrow> u32 \<Rightarrow> mmst \<Rightarrow> mmst" where
  "armed pt src_pa dst_pa s =
     set_pte pt (PTE_INDEX COPY_DST_VA) (pte_set dst_pa (PTE_P OR PTE_W)) (set_pte pt (PTE_INDEX COPY_SRC_VA) (pte_set src_pa PTE_P) s)"

definition disarmed :: "u32 \<Rightarrow> mmst \<Rightarrow> mmst" where
  "disarmed pt s = set_pte pt (PTE_INDEX COPY_DST_VA) pte_clear (set_pte pt (PTE_INDEX COPY_SRC_VA) pte_clear s)"

lemma window_frame:
  "\<exists>ptm. disarmed pt ((armed pt a b s)\<lparr>phys := m\<rparr>) = s\<lparr>ptmem := ptm, phys := m\<rparr> \<and> (\<forall>t. t \<noteq> pt \<longrightarrow> ptm t = ptmem s t)"
  by (rule exI [of _ "ptmem (disarmed pt (armed pt a b s))"]) (simp add: disarmed_def armed_def set_pte_def)

lemma window_walk:
  assumes "pde_present (pdmem s pd 1020)" "pde_to_pt (pdmem s pd 1020) = pt" "4096 dvd p" "p < 4294967296"
    "pte_present (ptmem s pt j)" "pte_frame (ptmem s pt j) = pa_frame (of_nat p)" "j < 2" "k < 4096"
  shows "walk pd s (of_nat (4278190080 + j * 4096 + k)) = Some (of_nat (p + k))"
proof -
  let ?va = "4278190080 + j * 4096 + k"
  have e: "?va = k + (1044480 + j) * 4096" by simp
  have "?va div 4096 = 1044480 + j" unfolding e using assms(8) by (subst div_mult_self1) simp_all
  moreover have "?va mod 4096 = k" unfolding e using assms(8) by (subst mod_mult_self1) simp
  moreover have "(1044480 + j) mod 1024 = j" using assms(7) by (auto simp: less_2_cases_iff)
  ultimately have va: "?va < 4294967296" "?va div 4194304 = 1020" "?va div 4096 mod 1024 = j" "?va mod 4096 = k"
    using assms(7,8) by (auto simp: less_2_cases_iff)
  have ix: "PDE_INDEX (of_nat ?va) = 1020" "PTE_INDEX (of_nat ?va) = j"
    using va by (simp_all only: PDE_INDEX_of_nat PTE_INDEX_of_nat)
  have "unat ((of_nat ?va :: u32) AND 4095) = k"
    using va(1,4) by (simp only: unat_and_4095 unat_u32)
  then have off: "(of_nat ?va :: u32) AND 4095 = of_nat k" using assms(8) by (metis of_nat_unat ucast_id)
  have fr: "FRAME_TO_PA (pa_frame (of_nat p)) = of_nat p" using assms(3,4) by (intro FRAME_pa_frame) (simp add: unat_u32)
  have "FRAME_TO_PA (pa_frame (of_nat p)) OR ((of_nat ?va :: u32) AND 4095) = of_nat (p + k)"
    unfolding frame_or_offset unfolding off fr by simp
  then show ?thesis
    unfolding walk_def ix using assms(1,2,5,6) by (simp add: Let_def del: of_nat_add)
qed

lemma phys_same: "phys s = m \<Longrightarrow> s\<lparr>phys := m\<rparr> = s"
  by (cases s) simp

lemma copy_indices: "PTE_INDEX COPY_SRC_VA = 0" "PTE_INDEX COPY_DST_VA = 1"
  using PTE_INDEX_of_nat [of 4278190080] PTE_INDEX_of_nat [of 4278194176] by (simp_all add: COPY_SRC_VA_def COPY_DST_VA_def)

lemma window_copy:
  assumes "pde_present (pdmem s (cr3 s) 1020)" "pde_to_pt (pdmem s (cr3 s) 1020) = pt"
    "4096 dvd sp" "4096 dvd dp" "sp + 4096 \<le> 4294967296" "dp + 4096 \<le> 4294967296" "sp + 4096 \<le> dp \<or> dp + 4096 \<le> sp"
  shows "copy_bytes 4096 COPY_DST_VA COPY_SRC_VA (armed pt (of_nat sp) (of_nat dp) s)
    = Inr ((armed pt (of_nat sp) (of_nat dp) s)\<lparr>phys := blit dp sp 4096 (phys s)\<rparr>)"
proof -
  let ?s = "armed pt (of_nat sp) (of_nat dp) s"
  have a: "cr3 ?s = cr3 s" "pdmem ?s = pdmem s" "phys ?s = phys s"
    "pte_present (ptmem ?s pt 0)" "pte_frame (ptmem ?s pt 0) = pa_frame (of_nat sp)"
    "pte_present (ptmem ?s pt 1)" "pte_frame (ptmem ?s pt 1) = pa_frame (of_nat dp)"
    by (simp_all add: armed_def set_pte_def copy_indices pte_set_def PTE_P_def PTE_W_def)
  have v: "COPY_SRC_VA = of_nat (4278190080 + 0)" "COPY_DST_VA = of_nat (4278194176 + 0)"
    by (simp_all add: COPY_SRC_VA_def COPY_DST_VA_def)
  have ws: "\<forall>k < 4096. walk (cr3 ?s) ?s (of_nat (4278190080 + k)) = Some (of_nat (sp + k))"
    using window_walk [of ?s "cr3 s" pt sp 0] a assms by simp
  have wd: "\<forall>k < 4096. walk (cr3 ?s) ?s (of_nat (4278194176 + k)) = Some (of_nat (dp + k))"
    using window_walk [of ?s "cr3 s" pt dp 1] a assms by simp
  show ?thesis
    unfolding v using copy_bytes_ok [OF ws wd assms(5-7), of 0 4096 "phys ?s"] a(3) phys_same [OF a(3)] by simp
qed

text \<open>The state after \<open>n\<close> bytes: only the window's table and the memory have changed.\<close>

definition copied :: "nat \<Rightarrow> nat \<Rightarrow> nat \<Rightarrow> mmst \<Rightarrow> mmst \<Rightarrow> bool" where
  "copied i j n s s' \<longleftrightarrow> (\<exists>ptm. s' = s\<lparr>ptmem := ptm, phys := blit (region_pa j) (region_pa i) n (phys s)\<rparr>
     \<and> (\<forall>pt. pt \<noteq> page s 0 \<longrightarrow> ptm pt = ptmem s pt))"

lemma copied_spaces: "copied i j n s s' \<Longrightarrow> spaces_ok k s \<Longrightarrow> k \<le> 64 \<Longrightarrow> spaces_ok k s' \<and> cr3 s' = cr3 s \<and> copy_pt s' = copy_pt s"
proof -
  assume c: "copied i j n s s'" and ok: "spaces_ok k s" and k: "k \<le> 64"
  obtain ptm where s': "s' = s\<lparr>ptmem := ptm, phys := blit (region_pa j) (region_pa i) n (phys s)\<rparr>"
    "\<forall>pt. pt \<noteq> page s 0 \<longrightarrow> ptm pt = ptmem s pt" using c unfolding copied_def by blast
  note A = ok [unfolded spaces_ok_def kernel_space_ok_def]
  have pg: "page s' m = page s m" for m by (rule page_cong) (simp add: s'(1))
  have "space_ok m s'" if m: "m < k" for m
  proof -
    have "ptm (page s (2 + 2 * m)) = ptmem s (page s (2 + 2 * m))" if "m < 63"
      using s'(2) page_inject [of s "2 + 2 * m" 0] A that by simp
    moreover have "space_ok m s" using A m by blast
    ultimately show ?thesis unfolding space_ok_def maps_region_def pg by (simp add: s'(1) split: if_splits)
  qed
  then show ?thesis using A unfolding spaces_ok_def kernel_space_ok_def pg pool_ok_def by (simp add: s'(1))
qed

lemma region_apart: "i \<noteq> j \<Longrightarrow> region_pa i + 1048576 \<le> region_pa j \<or> region_pa j + 1048576 \<le> region_pa i"
  unfolding region_pa_def by (cases "i < j") auto

lemma regions_below: "i < 64 \<Longrightarrow> region_pa i + 1048576 \<le> 4294967296" "4096 dvd region_pa i"
  by (simp_all add: region_pa_def)

lemma page_multiple: "(of_nat (m * 4096) :: u32) AND PAGE_MASK = of_nat (m * 4096)" if "m * 4096 < 4294967296"
proof -
  have "unat ((of_nat (m * 4096) :: u32) AND PAGE_MASK) = unat (of_nat (m * 4096) :: u32)"
    using that by (simp only: mask_page unat_u32) simp
  then show ?thesis by (simp only: word_unat_eq_iff)
qed

text \<open>The directories of all spaces have the window.\<close>

definition space_active :: "mmst \<Rightarrow> bool" where
  "space_active s \<longleftrightarrow> (\<exists>c < 64. cr3 s = page s (1 + 2 * c))"

lemma copy_chunk_ok:
  assumes ok: "spaces_ok 64 s" "space_active s" and ij: "i < 63" "j < 63" "i \<noteq> j" and p: "p < 256"
  shows "\<exists>s'. copy_chunk (ProcMm j) (process_vma j) (ProcMm i) (process_vma i) (page s 0) PROCESS_VA_SIZE (of_nat (p * 4096)) s
      = Inr (4096, s')
    \<and> (\<exists>ptm. s' = s\<lparr>ptmem := ptm, phys := blit (region_pa j + p * 4096) (region_pa i + p * 4096) 4096 (phys s)\<rparr>
     \<and> (\<forall>pt. pt \<noteq> page s 0 \<longrightarrow> ptm pt = ptmem s pt))"
proof -
  note A = ok(1) [unfolded spaces_ok_def]
  let ?o = "p * 4096" and ?pt = "page s 0"
  let ?sp = "region_pa i + ?o" and ?dp = "region_pa j + ?o"
  have va: "vma_base_va (process_vma k) + of_nat ?o = of_nat ((1024 + p) * 4096)" for k
    by (simp add: process_vma_def)
  have al: "(of_nat ((1024 + p) * 4096) :: u32) AND PAGE_MASK = of_nat ((1024 + p) * 4096)"
    using p by (intro page_multiple) simp
  have sum: "(1024 + p) * 4096 = 4194304 + ?o" by simp
  have w: "mm_va_to_pa (Some (ProcMm k)) (of_nat ((1024 + p) * 4096)) s = Some (of_nat (region_pa k + ?o))" if "k < 63" for k
  proof -
    have "space_ok k s" "pool_ok s" using A that by auto
    then show ?thesis unfolding sum using walk_region [of k s ?o] that p
      by (simp add: mm_va_to_pa_def mm_at_def space_ok_def)
  qed
  have pm: "(of_nat (region_pa k + ?o) :: u32) AND PAGE_MASK = of_nat (region_pa k + ?o)" if "k < 63" for k
  proof -
    have "region_pa k + ?o = (1280 + k * 256 + p) * 4096" by (simp add: region_pa_def)
    moreover have "(1280 + k * 256 + p) * 4096 < 4294967296" using that p by simp
    ultimately show ?thesis using page_multiple [of "1280 + k * 256 + p"] by (simp only:)
  qed
  obtain c where c: "c < 64" "cr3 s = page s (1 + 2 * c)" using ok(2) unfolding space_active_def by blast
  have "space_ok c s" using A c(1) by blast
  then have pde: "pde_present (pdmem s (cr3 s) 1020)" "pde_to_pt (pdmem s (cr3 s) 1020) = ?pt"
    unfolding space_ok_def c(2) by (simp_all add: Let_def)
  have "copy_bytes 4096 COPY_DST_VA COPY_SRC_VA (armed ?pt (of_nat ?sp) (of_nat ?dp) s)
    = Inr ((armed ?pt (of_nat ?sp) (of_nat ?dp) s)\<lparr>phys := blit ?dp ?sp 4096 (phys s)\<rparr>)"
    using regions_below [of i] regions_below [of j] region_apart [OF ij(3)] ij(1,2) p
    by (intro window_copy pde) auto
  moreover
  have ch: "unat (PROCESS_VA_SIZE - of_nat ?o :: u32) = 1048576 - ?o"
  proof -
    have "unat (PROCESS_VA_SIZE :: u32) = 1048576" "unat (of_nat ?o :: u32) = ?o" using p by (simp_all add: unat_u32 del: of_nat_mult)
    then show ?thesis using p by (subst unat_minus) simp_all
  qed
  then have rem: "\<not> (PROCESS_VA_SIZE - of_nat ?o < (4096::u32))" using p by (simp add: word_less_nat_alt del: of_nat_mult paging_numbers(5))
  ultimately have "copy_chunk (ProcMm j) (process_vma j) (ProcMm i) (process_vma i) ?pt PROCESS_VA_SIZE (of_nat ?o) s
      = Inr (4096, disarmed ?pt ((armed ?pt (of_nat ?sp) (of_nat ?dp) s)\<lparr>phys := blit ?dp ?sp 4096 (phys s)\<rparr>))"
    unfolding copy_chunk_def Let_def va al w [OF ij(1)] w [OF ij(2)] option.case pm [OF ij(1)] pm [OF ij(2)]
      armed_def [symmetric] disarmed_def [symmetric]
    by (simp del: of_nat_mult of_nat_add paging_numbers(5))
  then show ?thesis using window_frame by blast
qed

lemma copy_loop_ok:
  assumes ok: "spaces_ok 64 s" "space_active s" and ij: "i < 63" "j < 63" "i \<noteq> j"
    and c: "copied i j (p * 4096) s s1" and p: "p \<le> 256" "256 - p \<le> n"
  shows "\<exists>s'. copy_loop n (ProcMm j) (process_vma j) (ProcMm i) (process_vma i) (page s 0) PROCESS_VA_SIZE (of_nat (p * 4096)) s1
      = Inr s' \<and> copied i j 1048576 s s'"
  using c p
proof (induction n arbitrary: p s1)
  case 0
  then have "p = 256" by simp
  with 0 show ?case by auto
next
  case (Suc n)
  show ?case
  proof (cases "p = 256")
    case True
    with Suc.prems show ?thesis by auto
  next
    case False
    then have p: "p < 256" using Suc.prems by simp
    have s1: "spaces_ok 64 s1" "page s1 m = page s m" "space_active s1" for m
      using copied_spaces [OF Suc.prems(1) ok(1)] Suc.prems(1) ok(2) by (auto simp: copied_def page_def space_active_def)
    have lt: "(of_nat (p * 4096) :: u32) < PROCESS_VA_SIZE" using p by (simp add: word_less_nat_alt unat_u32 del: of_nat_mult)
    obtain s2 ptm where s2: "copy_chunk (ProcMm j) (process_vma j) (ProcMm i) (process_vma i) (page s 0) PROCESS_VA_SIZE (of_nat (p * 4096)) s1
        = Inr (4096, s2)"
      "s2 = s1\<lparr>ptmem := ptm, phys := blit (region_pa j + p * 4096) (region_pa i + p * 4096) 4096 (phys s1)\<rparr>"
      "\<forall>pt. pt \<noteq> page s 0 \<longrightarrow> ptm pt = ptmem s1 pt"
      using copy_chunk_ok [OF s1(1,3) ij p] unfolding s1(2) by blast
    have "blit (region_pa j + p * 4096) (region_pa i + p * 4096) 4096 (blit (region_pa j) (region_pa i) (p * 4096) (phys s))
        = blit (region_pa j) (region_pa i) (p * 4096 + 4096) (phys s)"
      using regions_below [of i] region_apart [OF ij(3)] ij p by (intro blit_blit) auto
    then have "copied i j (Suc p * 4096) s s2"
      using Suc.prems(1) s2(2,3) unfolding copied_def by (auto simp: add.commute)
    moreover have "(of_nat (p * 4096) :: u32) + 4096 = of_nat (Suc p * 4096)" by simp
    ultimately show ?thesis
      using Suc.IH [of "Suc p" s2] lt s2(1) p Suc.prems(3) by (simp del: of_nat_mult mult_Suc paging_numbers(5))
  qed
qed

lemma mm_copy_region:
  assumes ok: "spaces_ok 64 s" "space_active s" and ij: "i < 63" "j < 63" "i \<noteq> j"
  shows "\<exists>s'. mm_copy_vma (ProcMm j) (process_vma j) (ProcMm i) (process_vma i) PROCESS_VA_SIZE s = Inr s'
    \<and> copied i j 1048576 s s'"
proof -
  have "copied i j (0 * 4096) s s" unfolding copied_def by (rule exI [of _ "ptmem s"]) simp
  from copy_loop_ok [OF ok ij this, of "unat PROCESS_VA_SIZE"]
  have "\<exists>s'. copy_loop (unat PROCESS_VA_SIZE) (ProcMm j) (process_vma j) (ProcMm i) (process_vma i) (page s 0) PROCESS_VA_SIZE 0 s
      = Inr s' \<and> copied i j 1048576 s s'" by (simp del: of_nat_mult)
  moreover have "copy_pt s = Some (page s 0)" using ok(1) by (simp add: spaces_ok_def kernel_space_ok_def)
  ultimately show ?thesis
    by (simp add: mm_copy_vma_def VM_PT_COVERS_BYTES_def process_vma_def del: of_nat_mult)
qed

subsection \<open>Properties\<close>

text \<open>The byte a program in slot \<open>i\<close> sees at offset \<open>a\<close> of its region.\<close>

definition region_byte :: "nat \<Rightarrow> nat \<Rightarrow> mmst \<Rightarrow> char option" where
  "region_byte i a s = map_option (phys s) (mm_va_to_pa (Some (ProcMm i)) (PROCESS_VA_BASE + of_nat a) s)"

lemma va_of_region:
  assumes "spaces_ok 64 s" "i < 64" "a < 1048576"
  shows "mm_va_to_pa (Some (ProcMm i)) (PROCESS_VA_BASE + of_nat a) s =
    (if i < 63 then Some (of_nat (region_pa i + a)) else None)"
proof -
  have s: "space_ok i s" "pool_ok s" using assms by (simp_all add: spaces_ok_def)
  have va: "PROCESS_VA_BASE + of_nat a = of_nat (4194304 + a)" by simp
  have pd: "mm_va_to_pa (Some (ProcMm i)) v s = walk (page s (1 + 2 * i)) s v" for v
    using s(1) by (simp add: mm_va_to_pa_def mm_at_def space_ok_def)
  show ?thesis
  proof (cases "i < 63")
    case True
    then show ?thesis unfolding va pd using walk_region [OF s True assms(3)] by (simp del: of_nat_add)
  next
    case False
    then have "i = 63" using assms(2) by simp
    then show ?thesis unfolding va pd using walk_no_region [of s a] s(1) assms(3) by (simp del: of_nat_add)
  qed
qed

lemma copied_bytes:
  assumes ok: "spaces_ok 64 s" and c: "copied i j 1048576 s s'" and ij: "i < 63" "j < 63" and k: "k < 63" "a < 1048576"
  shows "region_byte k a s' = (if k = j then region_byte i a s else region_byte k a s)"
proof -
  have ok': "spaces_ok 64 s'" using copied_spaces [OF c ok] by simp
  have ph: "phys s' = blit (region_pa j) (region_pa i) 1048576 (phys s)" using c unfolding copied_def by auto
  have pa: "unat (of_nat (region_pa k + a) :: u32) = region_pa k + a"
    using regions_below(1) [of k] k by (intro unat_u32) simp
  have "phys s' (of_nat (region_pa k + a)) = (if k = j then phys s (of_nat (region_pa i + a)) else phys s (of_nat (region_pa k + a)))"
  proof (cases "k = j")
    case True
    then show ?thesis unfolding ph blit_def pa using k(2) by (simp add: add.commute)
  next
    case False
    then show ?thesis unfolding ph blit_def pa using region_apart [of k j] k(2) by auto
  qed
  then show ?thesis
    unfolding region_byte_def using va_of_region [OF ok'] va_of_region [OF ok] ij k by simp
qed

text \<open>
  C14: address spaces. From the tables that the code before \<open>kmain\<close> builds, \<open>mm_init\<close> and the loop of
  \<open>task_table_init\<close> run without a fault, and afterwards byte \<open>a\<close> of the process region of the task in
  slot \<open>i\<close> is at the physical address \<open>5 MB + i MB + a\<close>, so no two tasks share memory, for the first 63
  slots. The pool of paging pages is one page short of what the 64 spaces and the copy window need:
  nothing of the region of slot 63 is mapped, and no error is reported.
\<close>

theorem task_spaces_mapped:
  assumes "premain_built esp kpd s"
  shows "\<exists>s1 s2. mm_init esp kpd s = Inr s1 \<and> task_spaces_init s1 = Inr s2
    \<and> (\<forall>i a. i < 64 \<longrightarrow> a < 1048576 \<longrightarrow> mm_va_to_pa (Some (ProcMm i)) (PROCESS_VA_BASE + of_nat a) s2 =
         (if i < 63 then Some (of_nat (5242880 + i * 1048576 + a)) else None))"
proof -
  obtain s1 where s1: "mm_init esp kpd s = Inr s1" "spaces_ok 0 s1" using mm_init_ok [OF assms] by blast
  obtain s2 where s2: "task_spaces_init s1 = Inr s2" "spaces_ok 64 s2" using task_spaces_init_ok [OF s1(2)] by blast
  have "mm_va_to_pa (Some (ProcMm i)) (PROCESS_VA_BASE + of_nat a) s2 =
      (if i < 63 then Some (of_nat (5242880 + i * 1048576 + a)) else None)" if "i < 64" "a < 1048576" for i a
    using va_of_region [OF s2(2) that] unfolding region_pa_def .
  then show ?thesis using s1(1) s2(1) by blast
qed

definition premain_mm :: mmst where
  "premain_mm = \<lparr> pool_pa = 0x200000, premain_pa_start = 0x100000, premain_pa_end = 0x101000, mm_paging_next = 0, proc_mm_next = 0,
     mm_impl_next = 0, vma_next = 0, kernel_mm = \<lparr> mm_pd_pa = 0, mm_kernel_pde_start = 0, mm_vmas = [] \<rparr>,
     proc_mms = (\<lambda>_. \<lparr> mm_pd_pa = 0, mm_kernel_pde_start = 0, mm_vmas = [] \<rparr>), copy_pt = None,
     pdmem = (\<lambda>pd i. if i = 0 then no_pde\<lparr>pde_present := True, pde_frame := 0x111\<rparr>
                else if i = 512 then no_pde\<lparr>pde_present := True, pde_frame := 0x112\<rparr> else no_pde),
     ptmem = (\<lambda>pt i. no_pte\<lparr>pte_present := True\<rparr>), phys = (\<lambda>_. NUL), cr3 = 0x110000,
     isr_page_fault = 0x80001000, cpu = idt_init 0x80002000 0x80001800 bss_irq \<rparr>"

lemma premain_mm_ok: "premain_built 0x803FEFF0 0x110000 premain_mm"
proof -
  have po: "pool_ok premain_mm" by (simp add: pool_ok_def premain_mm_def)
  have "unat (page premain_mm n) \<ge> 2097152" if "n < 128" for n
    using unat_page [OF po that] by (simp add: premain_mm_def)
  then have np: "w \<noteq> page premain_mm n" if "n < 128" "unat w < 2097152" for n w using that by fastforce
  have fr: "FRAME_TO_PA 0x111 = 0x111000" "FRAME_TO_PA 0x112 = 0x112000"
    by (simp_all add: FRAME_TO_PA_def push_bit_eq_mult)
  have "PDE_INDEX 0x803FEFF0 = 512" using PDE_INDEX_of_nat [of "0x803FEFF0"] by simp
  then show ?thesis
    unfolding premain_built_def using po np
    by (simp add: premain_mm_def pde_to_pt_def no_pde_def fr)
qed

theorem task_spaces_mapped_witness:
  "\<exists>s1 s2. mm_init 0x803FEFF0 0x110000 premain_mm = Inr s1 \<and> task_spaces_init s1 = Inr s2
    \<and> mm_va_to_pa (Some (ProcMm 2)) (PROCESS_VA_BASE + 4097) s2 = Some 0x701001
    \<and> mm_va_to_pa (Some (ProcMm 63)) (PROCESS_VA_BASE + 4097) s2 = None"
proof -
  obtain s1 s2 where s: "mm_init 0x803FEFF0 0x110000 premain_mm = Inr s1" "task_spaces_init s1 = Inr s2"
    "\<forall>i a. i < 64 \<longrightarrow> a < 1048576 \<longrightarrow> mm_va_to_pa (Some (ProcMm i)) (PROCESS_VA_BASE + of_nat a) s2 =
         (if i < 63 then Some (of_nat (5242880 + i * 1048576 + a)) else None)"
    using task_spaces_mapped [OF premain_mm_ok] by blast
  from s(3) [rule_format, of 2 4097] s(3) [rule_format, of 63 4097] s(1,2) show ?thesis by simp
qed

text \<open>
  C13: the copy of a fork. With the address spaces set up, \<open>mm_copy_vma\<close> of a parent's whole region to
  a child's ends without a fault; the child then sees in its region what the parent sees in its own,
  and no other task's memory changes: the page-wise copying through the two window entries agrees with
  the copy of the region as a whole. The spaces stay set up.
\<close>

theorem fork_copies_region:
  assumes "spaces_ok 64 s" "space_active s" "i < 63" "j < 63" "i \<noteq> j"
  shows "\<exists>s'. mm_copy_vma (ProcMm j) (process_vma j) (ProcMm i) (process_vma i) PROCESS_VA_SIZE s = Inr s'
    \<and> spaces_ok 64 s' \<and> space_active s'
    \<and> (\<forall>k a. k < 63 \<longrightarrow> a < 1048576 \<longrightarrow> region_byte k a s' = (if k = j then region_byte i a s else region_byte k a s))"
proof -
  obtain s' where s': "mm_copy_vma (ProcMm j) (process_vma j) (ProcMm i) (process_vma i) PROCESS_VA_SIZE s = Inr s'"
    "copied i j 1048576 s s'"
    using mm_copy_region [OF assms] by blast
  have "page s' n = page s n" "cr3 s' = cr3 s" for n using s'(2) by (auto simp: copied_def page_def)
  then have "space_active s'" using assms(2) by (simp add: space_active_def)
  then show ?thesis
    using s' copied_spaces [OF s'(2) assms(1)] copied_bytes [OF assms(1) s'(2) assms(3,4)] by blast
qed

theorem fork_copies_region_witness:
  "\<exists>s s'. space_active s \<and> mm_copy_vma (ProcMm 4) (process_vma 4) (ProcMm 3) (process_vma 3) PROCESS_VA_SIZE s = Inr s'
    \<and> region_byte 4 17 s' = region_byte 3 17 s"
proof -
  obtain s1 s2 where s: "spaces_ok 0 s1" "task_spaces_init s1 = Inr s2" "spaces_ok 64 s2"
    using mm_init_ok [OF premain_mm_ok] task_spaces_init_ok by blast
  let ?s = "s2\<lparr>cr3 := page s2 7\<rparr>"
  have pg: "page ?s n = page s2 n" for n by (simp add: page_def)
  have ok: "spaces_ok 64 ?s"
    using s(3) unfolding spaces_ok_def kernel_space_ok_def space_ok_def maps_region_def pg pool_ok_def by (simp cong: if_cong)
  have act: "space_active ?s" unfolding space_active_def pg by (rule exI [of _ 3]) simp
  show ?thesis using fork_copies_region [OF ok act, of 3 4] act by auto
qed

end
