(* ===== verification/Boot.thy ===== *)
theory Boot
  imports Syscall Mm
begin

section \<open>kernel/core/kernel.c: kmain\<close>

text \<open>
  Booting, in the order of \<open>kmain\<close>: the variables are zeroed, then the console, the clock, the interrupt table,
  the page tables, the devices, the mounts, the terminals and the scheduler are initialised, interrupts are enabled,
  the init program is created and the first task chosen. The state has two parts, the kernel of theory Kernel and the
  page tables with the interrupt table and the processor's flags of theories Mm and Irq; the calls that
  switch address spaces on the way (\<open>mm_activate\<close> in \<open>task_kernel_exec\<close>, \<open>ctx_switch\<close> in \<open>sched_schedule\<close>) are
  \<open>in_space\<close> and \<open>ctx_switch_mm\<close>. What the hardware answers is the record \<open>hw\<close> of theory Clock, what the linker and the code before
  \<open>kmain\<close> chose is \<open>linked\<close>; \<open>video\<close> is the video memory, which \<open>bss_zero\<close> does not touch. No key is
  pressed during boot, although interrupts are on from \<open>mm_init\<close> and the keyboard's line is open from \<open>tty_system_init\<close> on.
\<close>

record linked =
  ld_esp :: u32
  ld_kpd :: u32
  ld_idt :: u32
  ld_isr_default :: u32
  ld_keyboard_irq_stub :: u32

text \<open>\<open>bss_zero\<close> on the variables of irq.c and mm.c.\<close>

definition bss_cpu :: "irq_regs \<Rightarrow> irq_regs" where
  "bss_cpu c = c\<lparr>iq_idt := iq_idt bss_irq, iq_idtp := iq_idtp bss_irq, iq_handlers := iq_handlers bss_irq\<rparr>"

definition bss_mm :: "mmst \<Rightarrow> mmst" where
  "bss_mm s = s\<lparr>mm_paging_next := 0, proc_mm_next := 0, mm_impl_next := 0, vma_next := 0,
     kernel_mm := \<lparr> mm_pd_pa = 0, mm_kernel_pde_start = 0, mm_vmas = [] \<rparr>,
     proc_mms := (\<lambda>_. \<lparr> mm_pd_pa = 0, mm_kernel_pde_start = 0, mm_vmas = [] \<rparr>), copy_pt := None, cpu := bss_cpu (cpu s)\<rparr>"

definition console_init :: "kernel \<Rightarrow> kernel res" where
  "console_init k = bindR (of_opt (vga_init (k_con k))) (\<lambda>con. Inr (k\<lparr>k_con := con\<rparr>))"

definition kmain_vfs :: "kernel \<Rightarrow> kernel res" where
  "kmain_vfs k =
     bindR (of_opt (mount_all kmain_mounts (vfs_init (k_vfs k)))) (\<lambda>v. Inr (k\<lparr>k_vfs := v\<rparr>))"

definition kline :: "string \<Rightarrow> string" where
  "kline s = s @ [CHR 0x0A]"

definition on_cpu :: "(irq_regs \<Rightarrow> irq_regs) \<Rightarrow> mmst \<Rightarrow> mmst" where
  "on_cpu f s = s\<lparr>cpu := f (cpu s)\<rparr>"

text \<open>
  The slot whose space \<open>task_kernel_exec\<close> activates, if it gets that far, and a call of it: between the two calls
  of \<open>mm_activate\<close>, the second of which comes on every path.
\<close>

definition exec_slot :: "bins \<Rightarrow> string \<Rightarrow> int \<Rightarrow> kernel \<Rightarrow> nat option" where
  "exec_slot bins filename tty_id k =
     (if tty_id \<ge> int TTY_COUNT then None
      else case find_bin bins (c_string filename) of
             Some (Some bin) \<Rightarrow> (case table_alloc k of Inr (task, _) \<Rightarrow> task | Inl _ \<Rightarrow> None)
           | _ \<Rightarrow> None)"

definition in_space :: "u32 \<Rightarrow> nat option \<Rightarrow> 'a res \<Rightarrow> mmst \<Rightarrow> ('a \<times> mmst) res" where
  "in_space esp slot r s =
     (case slot of
        None \<Rightarrow> bindR r (\<lambda>x. Inr (x, s))
      | Some t \<Rightarrow>
          bindR (mm_activate esp (ProcMm t) s) (\<lambda>s.
          bindR r (\<lambda>x.
          bindR (mm_activate esp KernelMm s) (\<lambda>s. Inr (x, s)))))"

definition task_tables :: "kernel \<Rightarrow> kernel" where
  "task_tables k =
     (let (tt, ts) = task_table_init (k_tt k, k_tasks k)
      in k\<lparr>k_current := None, k_ctxt := 0, k_rq := run_queue_init, k_tt := tt, k_tasks := ts\<rparr>)"

definition ctx_switch_mm :: "nat option \<Rightarrow> mmst \<Rightarrow> mmst" where
  "ctx_switch_mm nxt s =
     (case nxt of
        None \<Rightarrow> s
      | Some t \<Rightarrow> s\<lparr>cr3 := mm_pd_pa (mm_at (ProcMm t) s), cpu := interrupts_enable (cli (cpu s))\<rparr>)"

text \<open>The continuations of the two programs.\<close>

definition first_conts :: "nat option \<Rightarrow> trampoline \<Rightarrow> (nat \<times> trampoline) option \<Rightarrow> nat \<Rightarrow> cont" where
  "first_conts swapper tr0 init =
     (let cont0 = (case swapper of Some s \<Rightarrow> (\<lambda>_. Gone)(s := Start tr0) | None \<Rightarrow> (\<lambda>_. Gone))
      in case init of Some (t, tr) \<Rightarrow> cont0(t := Start tr) | None \<Rightarrow> cont0)"

definition kmain :: "bins \<Rightarrow> linked \<Rightarrow> hw \<Rightarrow> u16 list \<Rightarrow> mmst \<Rightarrow> (machine \<times> mmst) res" where
  "kmain bins ld hw video s0 =
     (let s = bss_mm s0 in
      bindR (console_init (bss_kernel\<lparr>k_con := (k_con bss_kernel)\<lparr>con_video := video\<rparr>\<rparr>)) (\<lambda>k.
      bindR (kprint (kline ''PUnix 0.001'') k) (\<lambda>k.
      bindR (clock_init hw) (\<lambda>clk.
      bindR (kprint (kline ''Init Interrupt Descriptor Table.'') k) (\<lambda>k.
      let s = on_cpu (idt_init (ld_idt ld) (ld_isr_default ld)) s in
      bindR (kprint (kline ''Init Memory Management.'') k) (\<lambda>k.
      bindR (mm_init (ld_esp ld) (ld_kpd ld) s) (\<lambda>s.
      bindR (dev_init k) (\<lambda>k.
      bindR (kprint (kline ''Init VFS.'') k) (\<lambda>k.
      bindR (kmain_vfs k) (\<lambda>k.
      bindR (kprint (kline ''Init TTYs.'') k) (\<lambda>k.
      bindR (tty_system_init k) (\<lambda>k.
      let s = on_cpu (keyboard_irq_setup (ld_keyboard_irq_stub ld)) s in
      bindR (kprint (kline ''Init scheduler.'') k) (\<lambda>k.
      bindR (task_spaces_init s) (\<lambda>s.
      bindR (in_space (ld_esp ld) (exec_slot bins ''/sbin/swapper'' 0 (task_tables k)) (sched_init bins k) s) (\<lambda>((tr0, k), s).
      bindR (kprint (kline ''Enabling interrupts.'') k) (\<lambda>k.
      let s = on_cpu interrupts_enable s in
      bindR (in_space (ld_esp ld) (exec_slot bins ''/sbin/init'' 0 k)
          (sched_kernel_exec bins ''/sbin/init'' 0 (KArgs [c_string ''/sbin/init'']) NoArgs k) s) (\<lambda>((_, init, k), s).
      bindR (sched_schedule k) (\<lambda>k.
        Inr (\<lparr> m_kernel = k, m_cont = first_conts (k_swapper k) tr0 init, m_clock = clk \<rparr>, ctx_switch_mm (k_current k) s)))))))))))))))))))"

end
