(* ===== verification/OpenFiles.thy ===== *)
theory OpenFiles
  imports Vfs "HOL-Library.Sublist"
begin

section \<open>Open files: what fs/vfs.c keeps\<close>

text \<open>
  \<open>fs_own k\<close>: every file of the table is free or belongs to exactly one descriptor of one task, and
  paths are terminated strings in their buffers. The opening function of every file system stays
  inside its objects on the paths \<open>good_path\<close> describes and touches nothing but the file it opens and
  the console; \<open>vfs_open\<close> and \<open>vfs_close\<close> keep \<open>fs_own\<close>.
\<close>

subsection \<open>Strings in paths\<close>

definition small_numbers :: "string \<Rightarrow> bool" where
  "small_numbers s \<longleftrightarrow> (\<forall>v \<in> set (suffixes s). int (dval (takeWhile is_digit v)) \<le> INT_MAX)"

lemma terminated_drop:
  assumes "terminated p" "n \<le> length (cstr p)"
  shows "terminated (drop n p)" "cstr (drop n p) = drop n (cstr p)"
proof -
  obtain q where q: "p = cstr p @ NUL # q" using assms(1) by (elim terminatedE)
  have "drop n p = drop n (cstr p) @ NUL # q" using arg_cong [OF q, of "drop n"] assms(2) by simp
  moreover have "no_nul (drop n (cstr p))" using no_nul_cstr [of p] by (auto simp: no_nul_def dest: in_set_dropD)
  ultimately show "terminated (drop n p)" "cstr (drop n p) = drop n (cstr p)" by simp_all
qed

lemma takeWhile_digits_cstr: "terminated p \<Longrightarrow> takeWhile is_digit (cstr p) = takeWhile is_digit p"
  by (induction p) auto

lemma dropWhile_digits:
  assumes "terminated p"
  shows "\<exists>e r. dropWhile is_digit p = e # r \<and> \<not> is_digit e \<and> terminated (e # r)
    \<and> p = takeWhile is_digit p @ e # r"
proof -
  have "\<exists>c \<in> set p. \<not> is_digit c" using assms by (metis terminated_def not_digit_NUL)
  then have "dropWhile is_digit p \<noteq> []" by auto
  then obtain e r where er: "dropWhile is_digit p = e # r" by (cases "dropWhile is_digit p") auto
  have "\<not> is_digit e" using er by (metis hd_dropWhile list.sel(1) list.distinct(1))
  moreover have p: "p = takeWhile is_digit p @ e # r" using takeWhile_dropWhile_id [of is_digit p] er by simp
  moreover have "NUL \<notin> set (takeWhile is_digit p)" by (auto dest: set_takeWhileD)
  then have "terminated (e # r)" using assms p by (metis Un_iff set_append terminated_def)
  ultimately show ?thesis using er by blast
qed

lemma skip_digits_eq: "terminated p \<Longrightarrow> skip_digits p = Some (dropWhile is_digit p)"
  by (induction p) auto

lemma pid_digits_eq:
  "terminated p \<Longrightarrow> pid_digits v p = map_option (\<lambda>n. (n, dropWhile is_digit p)) (atoi_loop v p)"
proof (induction p arbitrary: v)
  case (Cons c p)
  show ?case
  proof (cases "is_digit c")
    case True
    then have "terminated p" using Cons.prems by auto
    with Cons.IH True show ?thesis by (auto split: bind_splits)
  qed simp
qed simp

lemma small_suffix: "small_numbers s \<Longrightarrow> suffix v s \<Longrightarrow> int (dval (takeWhile is_digit v)) \<le> INT_MAX"
  by (simp add: small_numbers_def)

lemma k_atoi_small:
  assumes "terminated p" "small_numbers s" "suffix (cstr p) s"
  shows "k_atoi (Some p) = Some (int (dval (takeWhile is_digit p)))"
proof -
  obtain e r where er: "\<not> is_digit e" "p = takeWhile is_digit p @ e # r" using dropWhile_digits [OF assms(1)] by blast
  have "\<forall>c \<in> set (takeWhile is_digit p). is_digit c" by (auto dest: set_takeWhileD)
  then have "k_atoi (Some (takeWhile is_digit p @ e # r)) =
      (if int (dval (takeWhile is_digit p)) \<le> INT_MAX then Some (int (dval (takeWhile is_digit p))) else None)"
    by (rule k_atoi_digits) (rule er(1))
  moreover have "int (dval (takeWhile is_digit p)) \<le> INT_MAX"
    using small_suffix [OF assms(2,3)] takeWhile_digits_cstr [OF assms(1)] by simp
  ultimately show ?thesis using er(2) by simp
qed

lemma strncmp_prefix:
  assumes "terminated p" "no_nul x" "n = length x"
  shows "\<exists>c. k_strncmp p (c_string x) n = Some c \<and> (c = 0 \<longleftrightarrow> (\<exists>r. cstr p = x @ r))"
proof -
  obtain c where c: "k_strncmp p (c_string x) n = Some c"
    using k_strncmp_total [OF assms(1), of "c_string x"] by auto
  have "c = 0 \<longleftrightarrow> take (length x) (cstr p) = x"
    using k_strncmp_eq_0 [OF assms(1), of "c_string x" n] c assms(2,3) by simp
  also have "\<dots> \<longleftrightarrow> (\<exists>r. cstr p = x @ r)" by (metis append_eq_conv_conj)
  finally show ?thesis using c by blast
qed

lemma strcmp_string:
  assumes "terminated p" "no_nul x"
  shows "\<exists>c. k_strcmp p (c_string x) = Some c \<and> (c = 0 \<longleftrightarrow> cstr p = x)"
  using k_strcmp_total [OF assms(1), of "c_string x"] k_strcmp_eq_0 [OF assms(1), of "c_string x"] assms(2)
  by auto

lemma strstr_loop_result:
  "terminated h \<Longrightarrow> terminated n \<Longrightarrow> cstr n \<noteq> [] \<Longrightarrow>
   \<exists>r. strstr_loop h n = Some r \<and> (\<forall>p. r = Some p \<longrightarrow>
     terminated p \<and> suffix (cstr p) (cstr h) \<and> take (length (cstr n)) (cstr p) = cstr n)"
proof (induction h)
  case (Cons x h)
  show ?case
  proof (cases "x = NUL")
    case False
    then have h: "terminated h" using Cons.prems(1) by simp
    let ?m = "take (length (cstr n)) (cstr (x # h)) = cstr n"
    have m: "strstr_match (x # h) n = Some ?m" by (rule strstr_match_prefix [OF Cons.prems(1,2)])
    show ?thesis
    proof (cases ?m)
      case True
      then show ?thesis using m False Cons.prems(1) by (simp del: strstr_match.simps)
    next
      case False
      obtain r where "strstr_loop h n = Some r" "\<forall>p. r = Some p \<longrightarrow>
        terminated p \<and> suffix (cstr p) (cstr h) \<and> take (length (cstr n)) (cstr p) = cstr n"
        using Cons.IH [OF h Cons.prems(2,3)] by blast
      then show ?thesis using m False \<open>x \<noteq> NUL\<close> by (auto simp del: strstr_match.simps intro: suffix_ConsI)
    qed
  qed simp
qed simp

lemma terminated_rd0: "terminated p \<Longrightarrow> \<exists>c. rd p 0 = Some c \<and> (c = NUL \<longleftrightarrow> cstr p = []) \<and> (c \<noteq> NUL \<longrightarrow> hd (cstr p) = c)"
  by (cases p) (auto simp: rd_def)

lemma terminated_rd:
  "terminated p \<Longrightarrow> n \<le> length (cstr p) \<Longrightarrow> \<exists>c. rd p n = Some c \<and> (c = NUL \<longleftrightarrow> n = length (cstr p))
    \<and> (n < length (cstr p) \<longrightarrow> c = cstr p ! n)"
proof -
  assume t: "terminated p" and n: "n \<le> length (cstr p)"
  obtain q where q: "p = cstr p @ NUL # q" using t by (elim terminatedE)
  have "rd (cstr p @ NUL # q) n = Some (if n < length (cstr p) then cstr p ! n else NUL)"
    using n by (auto simp: rd_def nth_append)
  moreover have "n < length (cstr p) \<Longrightarrow> cstr p ! n \<noteq> NUL" using no_nul_cstr [of p] by (metis no_nul_def nth_mem)
  ultimately have "rd (cstr p @ NUL # q) n = Some (if n < length (cstr p) then cstr p ! n else NUL)
      \<and> (n < length (cstr p) \<longrightarrow> cstr p ! n \<noteq> NUL)" by blast
  then show ?thesis using q [symmetric] n by auto
qed

subsection \<open>Opening stays inside its objects\<close>

definition good_path :: "string \<Rightarrow> bool" where
  "good_path s \<longleftrightarrow> plain_text s \<and> small_numbers s"

definition file_step :: "nat \<Rightarrow> kernel \<Rightarrow> kernel \<Rightarrow> bool" where
  "file_step f k k' \<longleftrightarrow> (\<exists>con g. k' = (updfile f (\<lambda>_. g) k)\<lparr>k_con := con\<rparr> \<and> con_ok con \<and> f_idx g = f_idx (the_file f k)
     \<and> f_pathname g = f_pathname (the_file f k) \<and> f_fd g = f_fd (the_file f k))"

lemma updfile_twice [simp]: "updfile f (\<lambda>_. g) (updfile f h k) = updfile f (\<lambda>_. g) k"
  by (simp add: updfile_def updf_def)

lemma updfile_same [simp]: "updfile f (\<lambda>_. the_file f k) k = k"
  by (simp add: updfile_def updf_def the_file_def)

lemma updfile_simps [simp]:
  "k_con (updfile f g k) = k_con k" "k_tasks (updfile f g k) = k_tasks k" "k_devs (updfile f g k) = k_devs k"
  "k_dev_count (updfile f g k) = k_dev_count k" "k_current (updfile f g k) = k_current k"
  "k_active (updfile f g k) = k_active k" "k_ttys (updfile f g k) = k_ttys k"
  "the_file f (updfile f g k) = g (the_file f k)" "j \<noteq> f \<Longrightarrow> the_file j (updfile f g k) = the_file j k"
  "the_task t (updfile f g k) = the_task t k"
  by (simp_all add: updfile_def updf_def the_file_def the_task_def)

lemma the_file_con [simp]: "the_file f (k\<lparr>k_con := con\<rparr>) = the_file f k"
  by (simp add: the_file_def)

lemma updfile_con [simp]: "updfile f g (k\<lparr>k_con := con\<rparr>) = (updfile f g k)\<lparr>k_con := con\<rparr>"
  by (simp add: updfile_def)

lemma file_step_refl: "con_ok (k_con k) \<Longrightarrow> file_step f k k"
  unfolding file_step_def by (intro exI [of _ "k_con k"] exI [of _ "the_file f k"]) simp

lemma updfile_const: "updfile f g k = updfile f (\<lambda>_. g (the_file f k)) k"
  by (simp add: updfile_def updf_def the_file_def)

lemma file_step_upd:
  assumes "file_step f k k1" "\<And>x. f_idx (g x) = f_idx x" "\<And>x. f_pathname (g x) = f_pathname x" "\<And>x. f_fd (g x) = f_fd x"
  shows "file_step f k (updfile f g k1)"
proof -
  obtain con h where k1: "k1 = (updfile f (\<lambda>_. h) k)\<lparr>k_con := con\<rparr>" "con_ok con" "f_idx h = f_idx (the_file f k)"
    "f_pathname h = f_pathname (the_file f k)" "f_fd h = f_fd (the_file f k)"
    using assms(1) unfolding file_step_def by blast
  have "updfile f g k1 = (updfile f (\<lambda>_. g h) k)\<lparr>k_con := con\<rparr>"
    by (subst updfile_const) (simp add: k1(1))
  then show ?thesis unfolding file_step_def using k1 assms(2-4) by (intro exI [of _ con] exI [of _ "g h"]) simp
qed

lemma file_step_con: "file_step f k k1 \<Longrightarrow> con_ok con \<Longrightarrow> file_step f k (k1\<lparr>k_con := con\<rparr>)"
  unfolding file_step_def by (elim exE, rename_tac c g, rule_tac x = con in exI, rule_tac x = g in exI) simp

lemma file_stepD:
  assumes "file_step f k k'"
  shows "con_ok (k_con k')" "f_pathname (the_file f k') = f_pathname (the_file f k)" "k_devs k' = k_devs k"
    "k_dev_count k' = k_dev_count k" "k_tasks k' = k_tasks k"
  using assms by (auto simp: file_step_def)

text \<open>What an opening function may do.\<close>

definition opens :: "nat \<Rightarrow> kernel \<Rightarrow> (int \<times> kernel) res \<Rightarrow> bool" where
  "opens f k m \<longleftrightarrow> (\<exists>r k'. m = Inr (r, k') \<and> (r = 0 \<or> r = -1) \<and> file_step f k k')"

lemma opensI: "file_step f k k' \<Longrightarrow> r = 0 \<or> r = -1 \<Longrightarrow> opens f k (Inr (r, k'))"
  by (simp add: opens_def)

lemma root_open_ok: "con_ok (k_con k) \<Longrightarrow> opens f k (root_open f k)"
  unfolding root_open_def by (intro opensI file_step_upd file_step_refl) simp_all

lemma ends_at_4_total: "length p = 64 \<Longrightarrow> \<exists>b. ends_at_4 p = Some b"
  by (simp add: ends_at_4_def rd_def) blast

lemma sys_open_ok:
  assumes "con_ok (k_con k)" "terminated (f_pathname (the_file f k))" "length (f_pathname (the_file f k)) = 64"
  shows "opens f k (sys_open f k)"
proof -
  obtain c where c: "k_strncmp (f_pathname (the_file f k)) (c_string ''/sys'') 4 = Some c"
    using strncmp_prefix [OF assms(2), of "''/sys''" 4] by auto
  obtain b where "ends_at_4 (f_pathname (the_file f k)) = Some b" using ends_at_4_total [OF assms(3)] by blast
  with c show ?thesis
    using assms(1) by (auto simp: sys_open_def Let_def intro!: opensI file_step_upd file_step_refl)
qed

lemma tty_open_step: "file_step f k k1 \<Longrightarrow> opens f k (Inr (tty_open f k1))"
  by (auto simp: tty_open_def Let_def intro!: opensI file_step_upd split: drv.splits option.splits)

lemma dev_open_ok:
  assumes "con_ok (k_con k)" "terminated (f_pathname (the_file f k))" "length (f_pathname (the_file f k)) = 64"
    "plain_text (cstr (f_pathname (the_file f k)))" "devs_rep k es"
  shows "opens f k (dev_open f k)"
proof -
  let ?p = "f_pathname (the_file f k)"
  obtain c where c: "k_strncmp ?p (c_string ''/dev'') 4 = Some c" "c = 0 \<longleftrightarrow> (\<exists>r. cstr ?p = ''/dev'' @ r)"
    using strncmp_prefix [OF assms(2), of "''/dev''" 4] by auto
  obtain b where b: "ends_at_4 ?p = Some b" using ends_at_4_total [OF assms(3)] by blast
  have r4: "rd ?p 4 = Some (?p ! 4)" using assms(3) by (simp add: rd_in)
  let ?k1 = "updfile f (\<lambda>f. f\<lparr>f_getdents := Some dev_getdents\<rparr>) k"
  have s1: "file_step f k ?k1" by (intro file_step_upd file_step_refl) (simp_all add: assms(1))
  show ?thesis
  proof (cases "c \<noteq> 0 \<or> b \<or> ?p ! 4 \<noteq> SL")
    case True
    then show ?thesis
      using c(1) b r4 s1 file_step_refl [OF assms(1)] by (auto simp: dev_open_def Let_def intro!: opensI)
  next
    case False
    then obtain r where r: "cstr ?p = ''/dev'' @ r" using c(2) by auto
    have "rd ?p 4 = Some (if r = [] then NUL else hd r)" using rd_cstr [OF assms(2) r] by (simp add: numeral_nat)
    with r4 False have "r \<noteq> []" by (auto split: if_splits)
    then have l5: "5 \<le> length (cstr ?p)" using r by (cases r) auto
    note tn = terminated_drop [OF assms(2) l5]
    obtain n0 where n0: "rd (drop 5 ?p) 0 = Some n0" using terminated_rd0 [OF tn(1)] by blast
    have "devs_rep ?k1 es" using assms(5) by (simp add: devs_rep_def)
    then obtain d where d: "dev_lookup (Some (drop 5 ?p)) ?k1 = Some d" "d = None \<or> (\<exists>x. d = Some x \<and> dv_ops x \<noteq> None)"
      using dev_lookup_ok [of ?k1 es "drop 5 ?p"] tn(1) by (force simp: dev_matches_def split: option.splits)
    show ?thesis
    proof (cases "n0 = NUL")
      case True
      then show ?thesis using c(1) b r4 s1 False n0 by (auto simp: dev_open_def Let_def intro!: opensI)
    next
      case n0': False
      show ?thesis
      proof (cases d)
        case None
        let ?s = "''dev_open dev not found '' @ cstr (drop 5 ?p) @ [CHR 0x0A]"
        have "plain_text (drop 5 (cstr ?p))" using assms(4) by (auto simp: plain_text_def dest: in_set_dropD)
        then have "printable ?s" using tn(2) by (simp add: code_def)
        then obtain con where "kprint ?s ?k1 = Inr (?k1\<lparr>k_con := con\<rparr>)" "con_ok con"
          using kprint_ok [of ?k1 ?s] assms(1) by auto
        then show ?thesis
          using c(1) b r4 s1 False n0 n0' d(1) None
          by (auto simp: dev_open_def Let_def intro!: opensI file_step_con)
      next
        case (Some x)
        then obtain ops where "dv_ops x = Some ops" using d(2) by auto
        then show ?thesis
          using c(1) b r4 s1 False n0 n0' d(1) Some
          by (auto simp: dev_open_def Let_def intro!: tty_open_step file_step_upd)
      qed
    qed
  qed
qed

lemma proc_path_to_pid_ok:
  assumes "terminated p" "small_numbers (cstr p)"
  shows "\<exists>r. proc_path_to_pid p = Some r \<and> (r \<noteq> PID_NONE \<longrightarrow> 0 \<le> r \<and> terminated (drop 6 p)
    \<and> (\<exists>s. cstr p = ''/proc/'' @ s))"
proof -
  obtain c0 where c0: "rd p 0 = Some c0" using terminated_rd0 [OF assms(1)] by blast
  obtain c where c: "k_strncmp p (c_string ''/proc/'') 6 = Some c" "c = 0 \<longleftrightarrow> (\<exists>r. cstr p = ''/proc/'' @ r)"
    using strncmp_prefix [OF assms(1), of "''/proc/''" 6] by auto
  show ?thesis
  proof (cases "c0 = SL \<and> c = 0")
    case False
    then show ?thesis using c0 c(1) by (auto simp: proc_path_to_pid_def)
  next
    case True
    then obtain s where s: "cstr p = ''/proc/'' @ s" using c(2) by blast
    then have l6: "6 \<le> length (cstr p)" by simp
    note t6 = terminated_drop [OF assms(1) l6]
    obtain d where d: "rd p 6 = Some d" using terminated_rd [OF assms(1) l6] by blast
    obtain e r where er: "dropWhile is_digit (drop 6 p) = e # r" using dropWhile_digits [OF t6(1)] by blast
    have "suffix (cstr (drop 6 p)) (cstr p)" by (simp add: t6(2) suffix_drop)
    then have "atoi_loop 0 (drop 6 p) = Some (int (dval (takeWhile is_digit (drop 6 p))))"
      using k_atoi_small [OF t6(1) assms(2)] by (simp add: k_atoi_def)
    then have "pid_digits 0 (drop 6 p) = Some (int (dval (takeWhile is_digit (drop 6 p))), e # r)"
      by (simp add: pid_digits_eq [OF t6(1)] er)
    then show ?thesis using c0 c(1) True d s t6(1) by (auto simp: proc_path_to_pid_def rd_def PID_NONE_def)
  qed
qed

lemma proc_extract_fd_ok:
  assumes "terminated p" "small_numbers (cstr p)"
  shows "\<exists>r. proc_extract_fd_num p = Some r"
proof -
  have "cstr (c_string ''/fd/'') \<noteq> []" by simp
  then obtain r where r: "strstr_loop p (c_string ''/fd/'') = Some r"
    "\<forall>q. r = Some q \<longrightarrow> terminated q \<and> suffix (cstr q) (cstr p) \<and> take (length (cstr (c_string ''/fd/''))) (cstr q) = cstr (c_string ''/fd/'')"
    using strstr_loop_result [OF assms(1), of "c_string ''/fd/''"] by auto
  have st: "k_strstr (Some p) (Some (c_string ''/fd/'')) = Some r" using r(1) by (simp add: k_strstr_def c_string_def rd_def)
  show ?thesis
  proof (cases r)
    case None
    then show ?thesis using st by (simp add: proc_extract_fd_num_def)
  next
    case (Some q)
    then have q: "terminated q" "suffix (cstr q) (cstr p)" "take 4 (cstr q) = ''/fd/''" using r(2) by (auto simp: numeral_nat)
    then have "length (take 4 (cstr q)) = 4" by simp
    then have l4: "4 \<le> length (cstr q)" by simp
    note t4 = terminated_drop [OF q(1) l4]
    have "suffix (cstr (drop 4 q)) (cstr p)" using q(2) by (metis t4(2) suffix_drop suffix_order.trans)
    then show ?thesis using st Some k_atoi_small [OF t4(1) assms(2)] by (simp add: proc_extract_fd_num_def)
  qed
qed

lemma equals_one_ok: "terminated l \<Longrightarrow> \<forall>x \<in> set xs. no_nul x \<Longrightarrow> equals_one l xs = Some (cstr l \<in> set xs)"
proof (induction xs)
  case (Cons x xs)
  obtain c where "k_strcmp l (c_string x) = Some c" "c = 0 \<longleftrightarrow> cstr l = x"
    using strcmp_string [of l x] Cons.prems by auto
  with Cons show ?case by auto
qed simp

lemma is_fd_leaf_ok: "terminated l \<Longrightarrow> \<exists>b. is_fd_leaf l = Some b"
  using strcmp_string [of l "''fd''"] strcmp_string [of l "''fd/''"] by (auto simp: is_fd_leaf_def)

lemma open_leaf_ok:
  assumes "terminated p" "small_numbers (cstr p)" "terminated l" "length (t_files t) = RLIMIT_NOFILE"
  shows "\<exists>r b. open_leaf p l t = Some (r, b) \<and> (r = 0 \<or> r = -1)"
proof -
  obtain b where b: "is_fd_leaf l = Some b" using is_fd_leaf_ok [OF assms(3)] by blast
  obtain c where c: "k_strncmp l (c_string ''fd/'') 3 = Some c" using strncmp_prefix [OF assms(3), of "''fd/''" 3] by auto
  obtain fd where fd: "proc_extract_fd_num p = Some fd" using proc_extract_fd_ok [OF assms(1,2)] by blast
  have e: "equals_one l plain_leaves = Some (cstr l \<in> set plain_leaves)"
    by (rule equals_one_ok [OF assms(3)]) (simp add: plain_leaves_def)
  show ?thesis
    using b c fd assms(4) by (auto simp: open_leaf_def e rd_def nat_less_iff)
qed

lemma proc_is_root_ok: "terminated p \<Longrightarrow> proc_is_root p = Some (cstr p = ''/proc'' \<or> cstr p = ''/proc/'')"
proof -
  assume t: "terminated p"
  obtain a where "k_strcmp p (c_string ''/proc'') = Some a" "a = 0 \<longleftrightarrow> cstr p = ''/proc''"
    using strcmp_string [OF t, of "''/proc''"] by auto
  moreover obtain b where "k_strcmp p (c_string ''/proc/'') = Some b" "b = 0 \<longleftrightarrow> cstr p = ''/proc/''"
    using strcmp_string [OF t, of "''/proc/''"] by auto
  ultimately show ?thesis by (auto simp: proc_is_root_def)
qed

lemma proc_open_path_ok:
  assumes "terminated p" "small_numbers (cstr p)" "\<forall>t < 64. length (t_files (ts t)) = RLIMIT_NOFILE"
  shows "\<exists>r b. proc_open_path ts p = Some (r, b) \<and> (r = 0 \<or> r = -1)"
proof -
  obtain a where a: "proc_is_root p = Some a" using proc_is_root_ok [OF assms(1)] by blast
  obtain s where s: "k_strcmp p (c_string ''/proc/stat'') = Some s" using strcmp_string [OF assms(1), of "''/proc/stat''"] by auto
  obtain pid where pid: "proc_path_to_pid p = Some pid" "pid \<noteq> PID_NONE \<longrightarrow> 0 \<le> pid \<and> terminated (drop 6 p)"
    using proc_path_to_pid_ok [OF assms(1,2)] by blast
  show ?thesis
  proof (cases "a \<or> s = 0 \<or> pid = PID_NONE \<or> task_table_find_task_by_pid ts pid = None")
    case True
    then show ?thesis using a s pid(1) by (auto simp: proc_open_path_def)
  next
    case False
    then obtain t where t: "task_table_find_task_by_pid ts pid = Some t" by auto
    have t64: "t < 64"
    proof -
      have "t = nat (pid AND PID_MASK)" using t by (simp add: task_table_find_task_by_pid_def Let_def split: if_splits)
      moreover have "nat (pid mod 64) < 64" by (simp add: nat_less_iff)
      ultimately show ?thesis using pid_slot [of pid] pid(2) False by simp
    qed
    have t6: "terminated (drop 6 p)" using pid(2) False by blast
    obtain e r where er: "dropWhile is_digit (drop 6 p) = e # r" "terminated (e # r)"
      using dropWhile_digits [OF t6] by blast
    have sk: "skip_digits (drop 6 p) = Some (e # r)" using skip_digits_eq [OF t6] er(1) by simp
    show ?thesis
    proof (cases "e = SL")
      case True
      then have tr: "terminated r" using er(2) by simp
      then obtain d where d: "rd r 0 = Some d" using terminated_rd0 by blast
      then have "rd (e # r) 1 = Some d" by (simp add: rd_def split: if_splits)
      moreover obtain x y where "open_leaf p r (ts t) = Some (x, y)" "x = 0 \<or> x = -1"
        using open_leaf_ok [OF assms(1,2) tr] assms(3) t64 by blast
      ultimately show ?thesis
        using a s pid(1) False t sk True by (auto simp: proc_open_path_def rd_def)
    next
      case ne: False
      then show ?thesis using a s pid(1) False t sk by (auto simp: proc_open_path_def rd_def)
    qed
  qed
qed

lemma proc_open_ok:
  assumes "con_ok (k_con k)" "terminated (f_pathname (the_file f k))" "small_numbers (cstr (f_pathname (the_file f k)))"
    "\<forall>t < 64. length (t_files (the_task t k)) = RLIMIT_NOFILE"
  shows "opens f k (proc_open f k)"
proof -
  obtain r b where "proc_open_path (k_tasks k) (f_pathname (the_file f k)) = Some (r, b)" "r = 0 \<or> r = -1"
    using proc_open_path_ok [OF assms(2,3), of "k_tasks k"] assms(4) by (auto simp: the_task_def)
  then show ?thesis
    using assms(1) by (auto simp: proc_open_def Let_def intro!: opensI file_step_upd file_step_refl)
qed

lemma find_bin_total:
  assumes "bins_ok bins" "terminated p" shows "\<exists>r. find_bin bins p = Some r"
  using find_bin_loop_ok [of bins p 0] assms by (auto simp: find_bin_def bins_ok_def)

lemma bin_open_ok:
  assumes "con_ok (k_con k)" "terminated (f_pathname (the_file f k))" "bins_ok bins"
  shows "opens f k (bin_open bins f k)"
proof -
  let ?p = "f_pathname (the_file f k)"
  obtain a where a: "k_strcmp ?p (c_string ''/bin'') = Some a" using strcmp_string [OF assms(2), of "''/bin''"] by auto
  obtain b where b: "k_strcmp ?p (c_string ''/bin/'') = Some b" using strcmp_string [OF assms(2), of "''/bin/''"] by auto
  obtain c where c: "rd ?p 0 = Some c" using terminated_rd0 [OF assms(2)] by blast
  obtain r where r: "find_bin bins ?p = Some r" using find_bin_total [OF assms(3,2)] by blast
  have "bin_lookup bins ?p = Some (if c = NUL then None else r)" using c r by (simp add: bin_lookup_def)
  then show ?thesis
    using a b assms(1) by (auto simp: bin_open_def Let_def intro!: opensI file_step_upd file_step_refl split: option.split)
qed

lemma fs_open_ok:
  assumes "con_ok (k_con k)" "terminated (f_pathname (the_file f k))" "length (f_pathname (the_file f k)) = 64"
    "good_path (cstr (f_pathname (the_file f k)))" "\<forall>t < 64. length (t_files (the_task t k)) = RLIMIT_NOFILE"
    "devs_rep k es" "bins_ok bins"
  shows "opens f k (fs_open bins fs f k)"
  using assms root_open_ok sys_open_ok dev_open_ok proc_open_ok bin_open_ok
  by (cases fs) (auto simp: fs_open_def good_path_def)

subsection \<open>Every file has one owner\<close>

definition slot :: "kernel \<Rightarrow> nat \<Rightarrow> nat \<Rightarrow> nat option" where
  "slot k t d = t_files (the_task t k) ! d"

definition files_inv :: "kernel \<Rightarrow> bool" where
  "files_inv k \<longleftrightarrow> vt_inv (k_vfs k)
     \<and> (\<forall>t < 64. length (t_files (the_task t k)) = RLIMIT_NOFILE)
     \<and> (\<forall>t < 64. \<forall>d < RLIMIT_NOFILE. \<forall>f. slot k t d = Some f \<longrightarrow>
          f < 1024 \<and> f \<notin> set (vt_free (k_vfs k)) \<and> f_fd (the_file f k) = int d)
     \<and> (\<forall>t < 64. \<forall>d < RLIMIT_NOFILE. \<forall>t' < 64. \<forall>d' < RLIMIT_NOFILE. \<forall>f.
          slot k t d = Some f \<longrightarrow> slot k t' d' = Some f \<longrightarrow> t = t' \<and> d = d')
     \<and> (\<forall>f < 1024. f \<notin> set (vt_free (k_vfs k)) \<longrightarrow> (\<exists>t < 64. \<exists>d < RLIMIT_NOFILE. slot k t d = Some f))
     \<and> (\<forall>f < 1024. length (f_pathname (the_file f k)) = 64 \<and> terminated (f_pathname (the_file f k)))"

lemma files_invD:
  assumes "files_inv k"
  shows "vt_inv (k_vfs k)" "t < 64 \<Longrightarrow> length (t_files (the_task t k)) = RLIMIT_NOFILE"
    "t < 64 \<Longrightarrow> d < RLIMIT_NOFILE \<Longrightarrow> slot k t d = Some f \<Longrightarrow>
       f < 1024 \<and> f \<notin> set (vt_free (k_vfs k)) \<and> f_fd (the_file f k) = int d"
    "t < 64 \<Longrightarrow> d < RLIMIT_NOFILE \<Longrightarrow> t' < 64 \<Longrightarrow> d' < RLIMIT_NOFILE \<Longrightarrow> slot k t d = Some f \<Longrightarrow>
       slot k t' d' = Some f \<Longrightarrow> t = t' \<and> d = d'"
    "f < 1024 \<Longrightarrow> f \<notin> set (vt_free (k_vfs k)) \<Longrightarrow> \<exists>t < 64. \<exists>d < RLIMIT_NOFILE. slot k t d = Some f"
    "f < 1024 \<Longrightarrow> length (f_pathname (the_file f k)) = 64 \<and> terminated (f_pathname (the_file f k))"
  using assms unfolding files_inv_def by blast+

text \<open>A kernel that differs in the descriptors of task \<open>t\<close>, the file table and the console.\<close>

definition vs :: "kernel \<Rightarrow> nat \<Rightarrow> nat option list \<Rightarrow> vfs \<Rightarrow> console \<Rightarrow> kernel" where
  "vs k t fs v con = k\<lparr>k_tasks := upd t (\<lambda>x. x\<lparr>t_files := fs\<rparr>) (k_tasks k), k_vfs := v, k_con := con\<rparr>"

lemma vs_simps [simp]:
  "k_vfs (vs k t fs v con) = v" "k_con (vs k t fs v con) = con" "k_devs (vs k t fs v con) = k_devs k"
  "k_dev_count (vs k t fs v con) = k_dev_count k" "k_current (vs k t fs v con) = k_current k"
  "k_ttys (vs k t fs v con) = k_ttys k" "k_active (vs k t fs v con) = k_active k"
  "the_file f (vs k t fs v con) = v_files v f"
  "the_task i (vs k t fs v con) = (if i = t then (the_task t k)\<lparr>t_files := fs\<rparr> else the_task i k)"
  "set_files t fs' (vs k t fs v con) = vs k t fs' v con" "updfile f g (vs k t fs v con) = vs k t fs (updf f g v) con"
  "(vs k t fs v con)\<lparr>k_con := con'\<rparr> = vs k t fs v con'" "(vs k t fs v con)\<lparr>k_vfs := v'\<rparr> = vs k t fs v' con"
  by (simp_all add: vs_def the_file_def the_task_def set_files_def updt_def updfile_def upd_apply upd_def)

lemma vs_self: "vs k t (t_files (the_task t k)) (k_vfs k) (k_con k) = k"
proof -
  have "upd t (\<lambda>x. x\<lparr>t_files := t_files (k_tasks k t)\<rparr>) (k_tasks k) = k_tasks k" by (simp add: upd_def)
  then show ?thesis by (simp add: vs_def the_task_def)
qed

lemma vs_vs [simp]: "vs (vs k t fs v con) t fs' v' con' = vs k t fs' v' con'"
  by (simp add: vs_def upd_def)

lemma slot_vs: "slot (vs k t fs v con) i d = (if i = t then fs ! d else slot k i d)"
  by (simp add: slot_def)

lemma vs_file_step:
  assumes "file_step f (vs k t fs v con) k'"
  shows "\<exists>g con'. k' = vs k t fs (updf f (\<lambda>_. g) v) con' \<and> con_ok con' \<and> f_idx g = f_idx (v_files v f)
    \<and> f_pathname g = f_pathname (v_files v f) \<and> f_fd g = f_fd (v_files v f)"
  using assms unfolding file_step_def by auto

lemma vs_free_file: "free_file f (vs k t fs v con) = bindR (vfs_free_file f v) (\<lambda>v'. Inr (vs k t fs v' con))"
  by (simp add: free_file_def)

lemma vs_kprint:
  assumes "con_ok con" "printable s"
  shows "\<exists>con'. kprint s (vs k t fs v con) = Inr (vs k t fs v con') \<and> con_ok con'"
  using kprint_ok [of "vs k t fs v con" s] assms by auto

lemma updf_simps [simp]:
  "v_files (updf f g v) = (v_files v)(f := g (v_files v f))" "v_free_ring (updf f g v) = v_free_ring v"
  "v_head (updf f g v) = v_head v" "v_tail (updf f g v) = v_tail v" "v_mounts (updf f g v) = v_mounts v"
  by (simp_all add: updf_def)

lemma vt_inv_updf:
  assumes "vt_inv v" "f_idx (g (v_files v f)) = f_idx (v_files v f)"
  shows "vt_inv (updf f g v)" "vt_free (updf f g v) = vt_free v"
  using vt_inv_cong [OF assms(1), of "updf f g v"] assms(2) by auto

text \<open>Freeing a file changes its descriptor number and the free list.\<close>

lemma vfs_free_file_frame:
  assumes "vt_inv v" "f < 1024" "f \<notin> set (vt_free v)"
  shows "\<exists>v'. vfs_free_file f v = Inr v' \<and> vt_inv v' \<and> vt_free v' = vt_free v @ [f] \<and> v_mounts v' = v_mounts v
    \<and> (\<forall>i. i \<noteq> f \<longrightarrow> v_files v' i = v_files v i) \<and> f_pathname (v_files v' f) = f_pathname (v_files v f)"
  using vfs_free_file_ok [OF assms] by (auto simp: updf_def)

lemma vfs_alloc_file_frame:
  assumes "vt_inv v" "vt_free v = f # xs"
  shows "\<exists>v'. vfs_alloc_file v = Inr (Some f, v') \<and> vt_inv v' \<and> vt_free v' = xs \<and> v_mounts v' = v_mounts v
    \<and> v_files v' = v_files v"
  using vfs_alloc_file_Cons [OF assms] by (intro exI [of _ "v\<lparr>v_head := v_head v + 1\<rparr>"]) simp

text \<open>Giving a free file to a descriptor, and taking it back.\<close>

lemma files_inv_give:
  assumes inv: "files_inv k" and t: "t < 64" "d < RLIMIT_NOFILE" "slot k t d = None"
    and free: "vt_free (k_vfs k) = f # xs"
    and v: "vt_inv v" "vt_free v = xs" "\<And>i. i \<noteq> f \<Longrightarrow> v_files v i = v_files (k_vfs k) i"
    and g: "f_fd (v_files v f) = int d" "length (f_pathname (v_files v f)) = 64" "terminated (f_pathname (v_files v f))"
  shows "files_inv (vs k t ((t_files (the_task t k))[d := Some f]) v con)"
proof -
  note D = files_invD [OF inv]
  let ?fs = "t_files (the_task t k)" and ?k = "vs k t ((t_files (the_task t k))[d := Some f]) v con"
  have len: "length ?fs = RLIMIT_NOFILE" by (rule D(2) [OF t(1)])
  have sl: "slot ?k i j = (if i = t \<and> j = d then Some f else slot k i j)" if "j < RLIMIT_NOFILE" for i j
    using that len by (auto simp: slot_vs slot_def nth_list_update)
  have f: "f < 1024" "f \<notin> set xs" "f \<in> set (vt_free (k_vfs k))"
    using vt_invD(3,4) [OF D(1)] free by auto
  have fr: "f \<notin> set (vt_free (k_vfs k)) \<Longrightarrow> False" using f(3) by blast
  have tf: "the_file i ?k = (if i = f then v_files v f else the_file i k)" for i
    using v(3) by (auto simp: the_file_def)
  have own: "i \<noteq> f \<and> i < 1024 \<and> i \<notin> set xs \<and> f_fd (the_file i k) = int b"
    if "a < 64" "b < RLIMIT_NOFILE" "slot k a b = Some i" for a b i
    using D(3) [OF that] f(3) free by auto
  show ?thesis
    unfolding files_inv_def
  proof (intro conjI allI impI)
    fix a b i assume ab: "a < 64" "b < RLIMIT_NOFILE" "slot ?k a b = Some i"
    show "i < 1024" "i \<notin> set (vt_free (k_vfs ?k))" "f_fd (the_file i ?k) = int b"
      using ab own [OF ab(1,2)] f v(2) g(1) unfolding sl [OF ab(2)] tf by (auto split: if_splits)
  next
    fix a b a' b' i assume "a < 64" "b < RLIMIT_NOFILE" "a' < 64" "b' < RLIMIT_NOFILE"
      "slot ?k a b = Some i" "slot ?k a' b' = Some i"
    then show "a = a'" "b = b'" using own D(4) by (auto simp: sl split: if_splits)
  next
    fix i assume i: "i < 1024" "i \<notin> set (vt_free (k_vfs ?k))"
    show "\<exists>a < 64. \<exists>b < RLIMIT_NOFILE. slot ?k a b = Some i"
    proof (cases "i = f")
      case True
      then show ?thesis using t sl [of d t] by auto
    next
      case False
      then have "i \<notin> set (vt_free (k_vfs k))" using i(2) v(2) free by simp
      then obtain a b where "a < 64" "b < RLIMIT_NOFILE" "slot k a b = Some i" using D(5) [OF i(1)] by blast
      then show ?thesis using t(3) sl [of b a] by (intro exI [of _ a] exI [of _ b] conjI) auto
    qed
  next
    fix i :: nat assume "i < 1024"
    then show "length (f_pathname (the_file i ?k)) = 64" "terminated (f_pathname (the_file i ?k))"
      using D(6) [of i] g(2,3) unfolding tf by (cases "i = f"; simp)+
  qed (use D(2) v(1) in \<open>auto simp: len\<close>)
qed

lemma files_inv_take:
  assumes inv: "files_inv k" and t: "t < 64" "d < RLIMIT_NOFILE" "slot k t d = Some f"
    and v: "vt_inv v" "vt_free v = vt_free (k_vfs k) @ [f]" "\<And>i. i \<noteq> f \<Longrightarrow> v_files v i = v_files (k_vfs k) i"
      "f_pathname (v_files v f) = f_pathname (v_files (k_vfs k) f)"
  shows "files_inv (vs k t ((t_files (the_task t k))[d := None]) v con)"
proof -
  note D = files_invD [OF inv]
  let ?fs = "t_files (the_task t k)" and ?k = "vs k t ((t_files (the_task t k))[d := None]) v con"
  have len: "length ?fs = RLIMIT_NOFILE" by (rule D(2) [OF t(1)])
  have sl: "slot ?k i j = (if i = t \<and> j = d then None else slot k i j)" if "j < RLIMIT_NOFILE" for i j
    using that len by (auto simp: slot_vs slot_def nth_list_update)
  have tf: "i \<noteq> f \<Longrightarrow> the_file i ?k = the_file i k" for i using v(3) by (auto simp: the_file_def)
  have own: "i \<noteq> f" if "a < 64" "b < RLIMIT_NOFILE" "slot ?k a b = Some i" for a b i
    using D(4) [OF t(1,2) that(1,2) t(3)] that(3) unfolding sl [OF that(2)] by (auto split: if_splits)
  show ?thesis
    unfolding files_inv_def
  proof (intro conjI allI impI)
    fix a b i assume ab: "a < 64" "b < RLIMIT_NOFILE" "slot ?k a b = Some i"
    have "slot k a b = Some i" using ab(3) unfolding sl [OF ab(2)] by (auto split: if_splits)
    from D(3) [OF ab(1,2) this] own [OF ab]
    show "i < 1024" "i \<notin> set (vt_free (k_vfs ?k))" "f_fd (the_file i ?k) = int b" using v(2) tf by auto
  next
    fix a b a' b' i assume "a < 64" "b < RLIMIT_NOFILE" "a' < 64" "b' < RLIMIT_NOFILE"
      "slot ?k a b = Some i" "slot ?k a' b' = Some i"
    then show "a = a'" "b = b'" using D(4) by (auto simp: sl split: if_splits)
  next
    fix i assume i: "i < 1024" "i \<notin> set (vt_free (k_vfs ?k))"
    then have "i \<noteq> f" "i \<notin> set (vt_free (k_vfs k))" using v(2) by auto
    then obtain a b where "a < 64" "b < RLIMIT_NOFILE" "slot k a b = Some i" using D(5) [OF i(1)] by blast
    then show "\<exists>a < 64. \<exists>b < RLIMIT_NOFILE. slot ?k a b = Some i"
      using t(3) \<open>i \<noteq> f\<close> sl [of b a] by (intro exI [of _ a] exI [of _ b] conjI) auto
  next
    fix i :: nat assume "i < 1024"
    then show "length (f_pathname (the_file i ?k)) = 64" "terminated (f_pathname (the_file i ?k))"
      using D(6) [of i] tf [of i] v(4) by (cases "i = f"; simp add: the_file_def)+
  qed (use D(2) v(1) in \<open>auto simp: len\<close>)
qed

text \<open>A change of a free file alone.\<close>

lemma files_inv_free:
  assumes inv: "files_inv k" and v: "vt_inv v" "set (vt_free v) = set (vt_free (k_vfs k))"
    "\<And>i. i \<notin> set (vt_free v) \<Longrightarrow> v_files v i = v_files (k_vfs k) i"
    "\<And>i. i < 1024 \<Longrightarrow> length (f_pathname (v_files v i)) = 64 \<and> terminated (f_pathname (v_files v i))"
  shows "files_inv (vs k t (t_files (the_task t k)) v con)"
proof -
  note D = files_invD [OF inv]
  let ?k = "vs k t (t_files (the_task t k)) v con"
  have sl: "slot ?k = slot k" by (auto simp: slot_vs slot_def fun_eq_iff)
  show ?thesis
    unfolding files_inv_def
  proof (intro conjI allI impI)
    fix a b i assume ab: "a < 64" "b < RLIMIT_NOFILE" "slot ?k a b = Some i"
    then have "i < 1024 \<and> i \<notin> set (vt_free (k_vfs k)) \<and> f_fd (the_file i k) = int b" using D(3) unfolding sl by blast
    then show "i < 1024" "i \<notin> set (vt_free (k_vfs ?k))" "f_fd (the_file i ?k) = int b"
      using v(2,3) by (auto simp: the_file_def)
  next
    fix a b a' b' i assume "a < 64" "b < RLIMIT_NOFILE" "a' < 64" "b' < RLIMIT_NOFILE"
      "slot ?k a b = Some i" "slot ?k a' b' = Some i"
    then show "a = a'" "b = b'" using D(4) unfolding sl by blast+
  next
    fix i assume "i < 1024" "i \<notin> set (vt_free (k_vfs ?k))"
    then show "\<exists>a < 64. \<exists>b < RLIMIT_NOFILE. slot ?k a b = Some i" using D(5) v(2) unfolding sl by auto
  qed (use D(2) v(1,4) in auto)
qed

subsection \<open>vfs_open\<close>

text \<open>What a successful and a failed \<open>vfs_open\<close> leave.\<close>

definition opened :: "nat \<Rightarrow> string \<Rightarrow> kernel \<Rightarrow> int \<Rightarrow> kernel \<Rightarrow> bool" where
  "opened t path k fd k' \<longleftrightarrow> (\<exists>f xs v con. vt_free (k_vfs k) = f # xs \<and> vt_free v = xs
     \<and> 0 \<le> fd \<and> nat fd < RLIMIT_NOFILE \<and> slot k t (nat fd) = None \<and> (\<forall>j < nat fd. slot k t j \<noteq> None)
     \<and> k' = vs k t ((t_files (the_task t k))[nat fd := Some f]) v con \<and> con_ok con \<and> v_mounts v = v_mounts (k_vfs k)
     \<and> cstr (f_pathname (v_files v f)) = path \<and> (\<forall>i. i \<noteq> f \<longrightarrow> v_files v i = v_files (k_vfs k) i))"

definition not_opened :: "nat \<Rightarrow> kernel \<Rightarrow> kernel \<Rightarrow> bool" where
  "not_opened t k k' \<longleftrightarrow> (\<exists>v con. k' = vs k t (t_files (the_task t k)) v con \<and> con_ok con \<and> v_mounts v = v_mounts (k_vfs k)
     \<and> set (vt_free v) = set (vt_free (k_vfs k))
     \<and> (\<forall>i. i \<notin> set (vt_free v) \<longrightarrow> v_files v i = v_files (k_vfs k) i))"

definition open_outcome :: "nat \<Rightarrow> string \<Rightarrow> kernel \<Rightarrow> (int \<times> kernel) res \<Rightarrow> bool" where
  "open_outcome t path k m \<longleftrightarrow> (\<exists>r k'. m = Inr (r, k') \<and> files_inv k'
     \<and> (if r < 0 then r = -1 \<and> not_opened t k k' else opened t path k r k'))"

lemma printable_vfs_open: "plain_text s \<Longrightarrow> printable (''vfs_open: '' @ s)"
  by (simp add: code_def)

lemma vfs_fail_ok:
  assumes "files_inv k" "con_ok (k_con k)" "plain_text s"
  shows "open_outcome t path k (vfs_fail (''vfs_open: '' @ s) k)"
proof -
  obtain con where "kprint (''vfs_open: '' @ s) k = Inr (k\<lparr>k_con := con\<rparr>)" "con_ok con"
    using kprint_ok [OF assms(2) printable_vfs_open [OF assms(3)]] by blast
  moreover have k: "k\<lparr>k_con := con\<rparr> = vs k t (t_files (the_task t k)) (k_vfs k) con"
    by (metis vs_self vs_simps(12))
  moreover have "files_inv (vs k t (t_files (the_task t k)) (k_vfs k) con)"
    using files_invD(1,6) [OF assms(1)] by (intro files_inv_free [OF assms(1)]) (simp_all add: the_file_def)
  ultimately show ?thesis
    unfolding open_outcome_def not_opened_def vfs_fail_def by (intro exI [of _ "-1"]) auto
qed

lemma open_new_ok:
  assumes inv: "files_inv k" and con: "con_ok (k_con k)" and t: "t < 64" and devs: "devs_rep k es" and bins: "bins_ok bins"
    and path: "terminated p" "length (cstr p) < 64" "good_path (cstr p)"
    and free: "vt_free (k_vfs k) = f # xs" and v: "vt_inv v" "vt_free v = xs" "v_mounts v = v_mounts (k_vfs k)" "v_files v = v_files (k_vfs k)"
  shows "open_outcome t (cstr p) k (open_new bins t p fs flags mode f (k\<lparr>k_vfs := v\<rparr>))"
proof -
  note D = files_invD [OF inv]
  let ?fs = "t_files (the_task t k)" and ?st = "vs k t"
  have k1: "k\<lparr>k_vfs := v\<rparr> = ?st ?fs v (k_con k)" by (metis vs_self vs_simps(13))
  have fok: "files_ok ?fs" using D(2) [OF t] by (simp add: files_ok_def)
  have f: "f < 1024" "f \<notin> set xs" using vt_invD(3,4) [OF D(1)] free by auto
  have ret: "open_outcome t (cstr p) k (Inr (-1, ?st ?fs v' cn))"
    if "vt_inv v'" "vt_free v' = xs @ [f]" "v_mounts v' = v_mounts v" "\<And>i. i \<noteq> f \<Longrightarrow> v_files v' i = v_files v i"
      "length (f_pathname (v_files v' f)) = 64" "terminated (f_pathname (v_files v' f))" "con_ok cn" for v' cn
  proof -
    have "files_inv (?st ?fs v' cn)"
    proof (rule files_inv_free [OF inv])
      show "set (vt_free v') = set (vt_free (k_vfs k))" using that(2) free by auto
      show "i \<notin> set (vt_free v') \<Longrightarrow> v_files v' i = v_files (k_vfs k) i" for i using that(2,4) v(4) by auto
      show "i < 1024 \<Longrightarrow> length (f_pathname (v_files v' i)) = 64 \<and> terminated (f_pathname (v_files v' i))" for i
        using that(4-6) v(4) D(6) [of i] by (cases "i = f") (simp_all add: the_file_def)
    qed (rule that(1))
    moreover have "not_opened t k (?st ?fs v' cn)"
      unfolding not_opened_def
      by (rule exI [of _ v'], rule exI [of _ cn]) (use that free v(3,4) in auto)
    ultimately show ?thesis unfolding open_outcome_def by (intro exI [of _ "-1"] exI [of _ "?st ?fs v' cn"]) simp
  qed
  show ?thesis
  proof (cases "None \<in> set ?fs")
    case False
    let ?s = "''vfs_open: can'' @ [CHR 0x27] @ ''t allocate fd'' @ [CHR 0x0A]"
    obtain cn where cn: "kprint ?s (?st ?fs v (k_con k)) = Inr (?st ?fs v cn)" "con_ok cn"
      using vs_kprint [OF con, of ?s k t ?fs v] by (auto simp: code_def)
    obtain v' where v': "vfs_free_file f v = Inr v'" "vt_inv v'" "vt_free v' = xs @ [f]" "v_mounts v' = v_mounts v"
      "\<forall>i. i \<noteq> f \<longrightarrow> v_files v' i = v_files v i" "f_pathname (v_files v' f) = f_pathname (v_files v f)"
      using vfs_free_file_frame [OF v(1) f(1)] f(2) v(2) by auto
    have "open_new bins t p fs flags mode f (k\<lparr>k_vfs := v\<rparr>) = Inr (-1, ?st ?fs v' cn)"
      using False cn(1) v'(1) unfolding k1
      by (simp add: open_new_def files_alloc_fd_ok [OF fok] vs_free_file)
    then show ?thesis using ret [of v' cn] v'(2-6) D(6) [OF f(1)] v(4) cn(2) by (simp add: the_file_def)
  next
    case True
    define L where "L = (LEAST i. i < RLIMIT_NOFILE \<and> ?fs ! i = None)"
    let ?fs1 = "?fs[L := Some f]"
    have al: "files_alloc_fd ?fs (Some f) = Inr (int L, ?fs1)"
      using True by (simp add: files_alloc_fd_ok [OF fok] L_def Let_def)
    have L: "L < RLIMIT_NOFILE" "?fs ! L = None" "\<forall>j < L. ?fs ! j \<noteq> None"
      using files_alloc_fd_Some [OF fok al] by auto
    have len: "length ?fs = RLIMIT_NOFILE" by (rule D(2) [OF t])
    let ?v2 = "updf f (new_file (int L) flags mode) v"
    have "length (f_pathname (v_files v f)) = 64" using D(6) [OF f(1)] v(4) by (simp add: the_file_def)
    then obtain b where b: "k_strcpy (f_pathname (v_files v f)) p = Some b" "cstr b = cstr p" "terminated b" "length b = 64"
      using k_strcpy_string [OF path(1), of "f_pathname (v_files v f)"] path(2) by auto
    let ?v3 = "updf f (\<lambda>f. f\<lparr>f_pathname := b\<rparr>) ?v2"
    have v3: "vt_inv ?v3" "vt_free ?v3 = xs"
      using v(1,2) vt_inv_updf [of v "new_file (int L) flags mode" f] vt_inv_updf [of ?v2 "\<lambda>f. f\<lparr>f_pathname := b\<rparr>" f]
      by (simp_all add: new_file_def)
    let ?k3 = "?st ?fs1 ?v3 (k_con k)"
    have run: "open_new bins t p fs flags mode f (k\<lparr>k_vfs := v\<rparr>) = bindR (fs_open bins fs f ?k3) (\<lambda>(r, k4).
        if r < 0 then let k5 = set_files t (snd (files_free_fd (t_files (the_task t k4)) (int L))) k4
          in bindR (free_file f k5) (\<lambda>k6. Inr (-1, k6)) else Inr (int L, k4))"
      unfolding k1 using b(1) al by (simp add: open_new_def new_file_def Let_def)
    have "opens f ?k3 (fs_open bins fs f ?k3)"
    proof (rule fs_open_ok)
      show "devs_rep ?k3 es" using devs by (simp add: devs_rep_def)
      show "\<forall>i < 64. length (t_files (the_task i ?k3)) = RLIMIT_NOFILE" using D(2) len by simp
    qed (use con b path(3) bins in simp_all)
    then obtain r k4 where r: "fs_open bins fs f ?k3 = Inr (r, k4)" "r = 0 \<or> r = -1" "file_step f ?k3 k4"
      unfolding opens_def by blast
    obtain g cn where g: "k4 = ?st ?fs1 (updf f (\<lambda>_. g) ?v3) cn" "con_ok cn" "f_idx g = f_idx (v_files v f)"
      "f_pathname g = b" "f_fd g = int L"
      using vs_file_step [OF r(3)] by (auto simp: new_file_def)
    let ?v4 = "updf f (\<lambda>_. g) ?v3"
    have v4: "vt_inv ?v4" "vt_free ?v4 = xs" using vt_inv_updf [OF v3(1), of "\<lambda>_. g" f] v3(2) g(3) by (simp_all add: new_file_def)
    show ?thesis
    proof (cases "r = 0")
      case r0: True
      have "files_inv (?st ?fs1 ?v4 cn)"
        by (rule files_inv_give [OF inv t L(1) _ free v4]) (use L(2) g b v(4) in \<open>simp_all add: slot_def\<close>)
      moreover have "opened t (cstr p) k (int L) (?st ?fs1 ?v4 cn)"
        unfolding opened_def
        by (rule exI [of _ f], rule exI [of _ xs], rule exI [of _ ?v4], rule exI [of _ cn])
          (use free v4(2) L g(2,4) v(3,4) b(2) in \<open>auto simp: slot_def\<close>)
      ultimately show ?thesis
        unfolding open_outcome_def run r(1) using r0 g(1) by (intro exI [of _ "int L"] exI [of _ k4]) simp
    next
      case rm: False
      have ff: "snd (files_free_fd ?fs1 (int L)) = ?fs"
        using L(1,2) len by (simp add: files_free_fd_def list_update_same_conv)
      obtain v' where v': "vfs_free_file f ?v4 = Inr v'" "vt_inv v'" "vt_free v' = xs @ [f]" "v_mounts v' = v_mounts ?v4"
        "\<forall>i. i \<noteq> f \<longrightarrow> v_files v' i = v_files ?v4 i" "f_pathname (v_files v' f) = f_pathname (v_files ?v4 f)"
        using vfs_free_file_frame [OF v4(1) f(1)] f(2) v4(2) by auto
      have "open_new bins t p fs flags mode f (k\<lparr>k_vfs := v\<rparr>) = Inr (-1, ?st ?fs v' cn)"
        unfolding run r(1) using rm r(2) g(1) ff v'(1) by (simp add: Let_def vs_free_file)
      then show ?thesis using ret [of v' cn] v'(2-6) g(2,4) b by simp
    qed
  qed
qed

text \<open>Where paths can go: the file systems are mounted and the devices registered.\<close>

definition names_ok :: "bins \<Rightarrow> kernel \<Rightarrow> bool" where
  "names_ok bins k \<longleftrightarrow> bins_ok bins \<and> con_ok (k_con k) \<and> mount_rep (v_mounts (k_vfs k)) kmain_mounts
     \<and> (\<exists>es. devs_rep k es)"

text \<open>A working directory, a path that fits beside it in a buffer, and no overlong number in it.\<close>

definition path_fits :: "char list \<Rightarrow> char list \<Rightarrow> bool" where
  "path_fits cwd p \<longleftrightarrow> terminated cwd \<and> cstr cwd \<noteq> [] \<and> terminated p
     \<and> length (cstr cwd) + length (cstr p) + 3 < MAX_FILENAME_LEN \<and> good_path (path_of (cstr cwd) (cstr p))"

lemma norm_path_abs: "norm_path s \<noteq> []" "hd (norm_path s) = SL"
  by (simp_all add: norm_path_def)

lemma path_of_SL: "path_of c p \<noteq> []" "hd (path_of c p) = SL"
  by (auto simp: path_of_def norm_path_abs)

lemma best_mount_root:
  assumes "p \<noteq> []" "hd p = SL" shows "\<exists>fs. best_mount kmain_mounts p None 0 = Some fs"
  using best_mount_kmain [OF assms] by auto

lemma vfs_open_ok:
  assumes inv: "files_inv k" and nm: "names_ok bins k" and t: "t < 64" and fits: "path_fits (t_cwd (the_task t k)) p"
  shows "open_outcome t (path_of (cstr (t_cwd (the_task t k))) (cstr p)) k (vfs_open bins (Some t) (Some p) flags mode k)"
proof -
  let ?cwd = "t_cwd (the_task t k)" and ?path = "path_of (cstr (t_cwd (the_task t k))) (cstr p)"
  note N = nm [unfolded names_ok_def] and F = fits [unfolded path_fits_def]
  obtain es where es: "devs_rep k es" using N by blast
  obtain r where r: "vfs_resolve_path ?cwd (Some p) (replicate MAX_FILENAME_LEN NUL) MAX_FILENAME_LEN = Some r"
    "terminated r" "length r = 64" "cstr r = ?path"
    using vfs_resolve_path_ok [of ?cwd p MAX_FILENAME_LEN "replicate MAX_FILENAME_LEN NUL"] F
    by (auto simp: MAX_FILENAME_LEN_def)
  have lr: "length (cstr r) < 64" using length_cstr_less [OF r(2)] r(3) by simp
  obtain fs where "path_to_fs (k_vfs k) (Some r) = Some (Some fs)"
    using path_to_fs_ok [of "k_vfs k" kmain_mounts r] N r(2,4) path_of_SL best_mount_root by metis
  then have run: "vfs_open bins (Some t) (Some p) flags mode k =
      bindR (vfs_alloc_file (k_vfs k)) (\<lambda>(file, v). case file of
        None \<Rightarrow> vfs_fail (''vfs_open: can'' @ [CHR 0x27] @ ''t allocate file'' @ [CHR 0x0A]) k
      | Some file \<Rightarrow> open_new bins t r fs flags mode file (k\<lparr>k_vfs := v\<rparr>))"
    using r(1) by (simp add: vfs_open_def)
  show ?thesis
  proof (cases "vt_free (k_vfs k)")
    case Nil
    have "open_outcome t ?path k (vfs_fail (''vfs_open: '' @ ''can'' @ [CHR 0x27] @ ''t allocate file'' @ [CHR 0x0A]) k)"
      using N by (intro vfs_fail_ok [OF inv]) simp_all
    then show ?thesis unfolding run vfs_alloc_file_None [OF Nil] by simp
  next
    case (Cons f xs)
    obtain v where v: "vfs_alloc_file (k_vfs k) = Inr (Some f, v)" "vt_inv v" "vt_free v = xs"
      "v_mounts v = v_mounts (k_vfs k)" "v_files v = v_files (k_vfs k)"
      using vfs_alloc_file_frame [OF files_invD(1) [OF inv] Cons] by blast
    show ?thesis
      unfolding run v(1) using open_new_ok [OF inv _ t es _ r(2) lr _ Cons v(2-5)] N F r(4) by simp
  qed
qed

subsection \<open>vfs_close\<close>

definition closed :: "nat \<Rightarrow> nat \<Rightarrow> nat \<Rightarrow> kernel \<Rightarrow> kernel \<Rightarrow> bool" where
  "closed t d f k k' \<longleftrightarrow> (\<exists>v. k' = vs k t ((t_files (the_task t k))[d := None]) v (k_con k)
     \<and> v_mounts v = v_mounts (k_vfs k) \<and> vt_free v = vt_free (k_vfs k) @ [f]
     \<and> (\<forall>i. i \<noteq> f \<longrightarrow> v_files v i = v_files (k_vfs k) i))"

lemma vfs_close_ok:
  assumes inv: "files_inv k" and t: "t < 64" "d < RLIMIT_NOFILE" "slot k t d = Some f"
  shows "\<exists>k'. vfs_close (Some t) (int d) k = Inr (0, k') \<and> files_inv k' \<and> closed t d f k k'"
proof -
  note D = files_invD [OF inv]
  have f: "f < 1024" "f \<notin> set (vt_free (k_vfs k))" using D(3) [OF t] by auto
  have fd: "files_find_by_fd (t_files (the_task t k)) (int d) = Some f"
    using t by (simp add: files_find_by_fd_def slot_def)
  obtain v where v: "vfs_free_file f (k_vfs k) = Inr v" "vt_inv v" "vt_free v = vt_free (k_vfs k) @ [f]"
    "v_mounts v = v_mounts (k_vfs k)" "\<forall>i. i \<noteq> f \<longrightarrow> v_files v i = v_files (k_vfs k) i"
    "f_pathname (v_files v f) = f_pathname (v_files (k_vfs k) f)"
    using vfs_free_file_frame [OF D(1) f] by blast
  let ?fs = "(t_files (the_task t k))[d := None]"
  have "snd (files_free_fd (t_files (the_task t k)) (int d)) = ?fs"
    using t by (simp add: files_free_fd_def slot_def)
  moreover have "set_files t ?fs k = vs k t ?fs (k_vfs k) (k_con k)"
    by (metis vs_self vs_simps(10))
  ultimately have "vfs_close (Some t) (int d) k = Inr (0, vs k t ?fs v (k_con k))"
    using fd v(1) by (auto simp: vfs_close_def tty_close_file_def Let_def vs_free_file split: option.split)
  moreover have "files_inv (vs k t ?fs v (k_con k))"
    by (rule files_inv_take [OF inv t v(2,3)]) (use v(5,6) in auto)
  ultimately show ?thesis unfolding closed_def using v(3-5) by blast
qed

lemma vfs_close_none:
  assumes "d < 0 \<or> files_find_by_fd (t_files (the_task t k)) d = None"
  shows "vfs_close (Some t) d k = Inr (-1, k)"
  using assms by (auto simp: vfs_close_def)

subsection \<open>Properties\<close>


definition fresh :: "vfs \<Rightarrow> kernel" where
  "fresh v = bss_kernel\<lparr>k_vfs := v, k_con := blank_console, k_tasks := (\<lambda>_. zero_task\<lparr>t_cwd := c_string ''/''\<rparr>)\<rparr>"

lemma fresh_ok:
  assumes "mount_all kmain_mounts (vfs_init blank_vfs) = Some v"
  shows "files_inv (fresh v)" "names_ok [] (fresh v)" "vt_free (k_vfs (fresh v)) = [0..<1024]"
proof -
  have b: "length (v_mounts (vfs_init blank_vfs)) = MAX_MOUNTS"
    "\<forall>m \<in> set (v_mounts (vfs_init blank_vfs)). \<not> m_active m \<and> length (m_path m) = 64"
    by (simp_all add: vfs_init_def blank_vfs_def MAX_MOUNTS_def)
  obtain v' where v': "mount_all kmain_mounts (vfs_init blank_vfs) = Some v'" "mount_rep (v_mounts v') kmain_mounts"
    "v_free_ring v' = v_free_ring (vfs_init blank_vfs)" "v_head v' = v_head (vfs_init blank_vfs)"
    "v_tail v' = v_tail (vfs_init blank_vfs)" "v_files v' = v_files (vfs_init blank_vfs)"
    using mount_all_kmain [OF b] by blast
  with assms have v: "v' = v" by simp
  have inv: "vt_inv v" "vt_free v = [0..<1024]"
    using vt_inv_cong [OF vfs_init_inv(1), of v] vfs_init_inv(2) [of blank_vfs] v'(3-6) unfolding v by auto
  have fl: "the_file i (fresh v) = (if i < 1024 then zero_file\<lparr>f_idx := of_nat i\<rparr> else zero_file)" for i
    using v'(6) unfolding v by (simp add: fresh_def the_file_def vfs_init_def blank_vfs_def)
  have tk: "the_task t (fresh v) = zero_task\<lparr>t_cwd := c_string ''/''\<rparr>" for t by (simp add: fresh_def the_task_def)
  have sl: "d < RLIMIT_NOFILE \<Longrightarrow> slot (fresh v) t d = None" for t d
    by (simp add: slot_def tk zero_task_def RLIMIT_NOFILE_def)
  have kv: "k_vfs (fresh v) = v" by (simp add: fresh_def)
  show "vt_free (k_vfs (fresh v)) = [0..<1024]" using inv(2) kv by simp
  show "files_inv (fresh v)"
    unfolding files_inv_def kv using inv sl by (auto simp: fl tk zero_task_def zero_file_def RLIMIT_NOFILE_def terminated_def)
  have "devs_rep (fresh v) []" by (simp add: devs_rep_def fresh_def bss_kernel_def zero_dev_def MAX_DEVICES_def)
  then show "names_ok [] (fresh v)"
    using v'(2) unfolding names_ok_def v by (auto simp: fresh_def bins_ok_def con_ok_def blank_console_def)
qed

lemma fresh_mounts: "\<exists>v. mount_all kmain_mounts (vfs_init blank_vfs) = Some v"
proof -
  have "length (v_mounts (vfs_init blank_vfs)) = MAX_MOUNTS"
    "\<forall>m \<in> set (v_mounts (vfs_init blank_vfs)). \<not> m_active m \<and> length (m_path m) = 64"
    by (simp_all add: vfs_init_def blank_vfs_def MAX_MOUNTS_def)
  from mount_all_kmain [OF this] show ?thesis by blast
qed

lemma fresh_fits: "path_fits (t_cwd (the_task 3 (fresh v))) (c_string ''sys'')"
  by (simp add: path_fits_def fresh_def the_task_def c_string_def MAX_FILENAME_LEN_def good_path_def path_of_def
    norm_path_def comps.simps small_numbers_def dval_def INT_MAX_def is_digit_def code_def)


text \<open>Opening the root directory succeeds when there is a free file and a free descriptor.\<close>

lemma vfs_open_root:
  assumes inv: "files_inv k" and nm: "names_ok bins k" and t: "t < 64" and fits: "path_fits (t_cwd (the_task t k)) p"
    and root: "path_of (cstr (t_cwd (the_task t k))) (cstr p) = ''/''"
    and free: "vt_free (k_vfs k) \<noteq> []" "None \<in> set (t_files (the_task t k))"
  shows "\<exists>fd k1. vfs_open bins (Some t) (Some p) flags mode k = Inr (fd, k1) \<and> 0 \<le> fd"
proof -
  let ?cwd = "t_cwd (the_task t k)"
  note F = fits [unfolded path_fits_def] and D = files_invD [OF inv]
  obtain r where r: "vfs_resolve_path ?cwd (Some p) (replicate MAX_FILENAME_LEN NUL) MAX_FILENAME_LEN = Some r"
    "terminated r" "length r = 64" "cstr r = ''/''"
    using vfs_resolve_path_ok [of ?cwd p MAX_FILENAME_LEN "replicate MAX_FILENAME_LEN NUL"] F root
    by (auto simp: MAX_FILENAME_LEN_def)
  have fs: "path_to_fs (k_vfs k) (Some r) = Some (Some root_fs)"
    using path_to_fs_ok [of "k_vfs k" kmain_mounts r] nm r(2,4) best_mount_kmain [of "''/''"]
    by (auto simp: names_ok_def below_def)
  obtain f xs where fx: "vt_free (k_vfs k) = f # xs" using free(1) by (cases "vt_free (k_vfs k)") auto
  then have f: "f < 1024" using vt_invD(4) [OF D(1)] by auto
  obtain v where v: "vfs_alloc_file (k_vfs k) = Inr (Some f, v)" "vt_inv v" "v_files v = v_files (k_vfs k)"
    using vfs_alloc_file_frame [OF D(1) fx] by blast
  have fok: "files_ok (t_files (the_task t k))" using D(2) [OF t] by (simp add: files_ok_def)
  obtain b where b: "k_strcpy (f_pathname (v_files v f)) r = Some b"
    using k_strcpy_string [OF r(2), of "f_pathname (v_files v f)"] r(4) D(6) [OF f] v(3) by (auto simp: the_file_def)
  obtain n fs' where al: "files_alloc_fd (t_files (the_task t k)) (Some f) = Inr (int n, fs')"
    using free(2) by (simp add: files_alloc_fd_ok [OF fok] Let_def)
  have cong: "the_task t (k\<lparr>k_vfs := v\<rparr>) = the_task t k" by (simp add: the_task_def)
  show ?thesis
    using r(1) fs v(1) b
    by (simp add: vfs_open_def open_new_def cong al the_file_def new_file_def updfile_def set_files_def updt_def fs_open_def
      root_open_def Let_def)
qed

text \<open>
  C16: open and close. Closing the descriptor a successful \<open>vfs_open\<close> returned succeeds and gives back
  everything: the task's descriptors are what they were before, the same files are free, every file
  that was open is unchanged and the ownership of files is kept.
\<close>

theorem vfs_open_close:
  assumes "files_inv k" "names_ok bins k" "t < 64" "path_fits (t_cwd (the_task t k)) p"
    "vfs_open bins (Some t) (Some p) flags mode k = Inr (fd, k1)" "0 \<le> fd"
  shows "\<exists>k2. vfs_close (Some t) fd k1 = Inr (0, k2) \<and> files_inv k2 \<and> (\<forall>i. the_task i k2 = the_task i k)
    \<and> set (vt_free (k_vfs k2)) = set (vt_free (k_vfs k))
    \<and> (\<forall>i. i \<notin> set (vt_free (k_vfs k)) \<longrightarrow> the_file i k2 = the_file i k)"
proof -
  have o: "files_inv k1" "opened t (path_of (cstr (t_cwd (the_task t k))) (cstr p)) k fd k1"
    using vfs_open_ok [OF assms(1-4), of flags mode] assms(5,6) by (auto simp: open_outcome_def)
  obtain f xs v con where f: "vt_free (k_vfs k) = f # xs" "vt_free v = xs" "nat fd < RLIMIT_NOFILE"
    "slot k t (nat fd) = None" "k1 = vs k t ((t_files (the_task t k))[nat fd := Some f]) v con"
    "\<forall>i. i \<noteq> f \<longrightarrow> v_files v i = v_files (k_vfs k) i"
    using o(2) unfolding opened_def by blast
  have len: "length (t_files (the_task t k)) = RLIMIT_NOFILE" by (rule files_invD(2) [OF assms(1,3)])
  have "slot k1 t (nat fd) = Some f" using f(3,5) len by (simp add: slot_vs)
  then obtain k2 where k2: "vfs_close (Some t) fd k1 = Inr (0, k2)" "files_inv k2" "closed t (nat fd) f k1 k2"
    using vfs_close_ok [OF o(1) assms(3) f(3)] assms(6) by (metis int_nat_eq)
  have fs: "(t_files (the_task t k1))[nat fd := None] = t_files (the_task t k)"
    using f(3-5) len by (simp add: slot_def list_update_same_conv)
  obtain v2 where v2: "k2 = vs k t (t_files (the_task t k)) v2 con" "vt_free v2 = xs @ [f]"
    "\<forall>i. i \<noteq> f \<longrightarrow> v_files v2 i = v_files v i"
    using k2(3) f(2,5) unfolding closed_def fs by auto
  have "the_task i k2 = the_task i k" for i by (simp add: v2(1))
  moreover have "set (vt_free (k_vfs k2)) = set (vt_free (k_vfs k))" using v2(1,2) f(1) by simp
  moreover have "the_file i k2 = the_file i k" if "i \<notin> set (vt_free (k_vfs k))" for i
    using that f(1,6) v2(1,3) by (simp add: the_file_def)
  ultimately show ?thesis using k2(1,2) by blast
qed

lemma fresh_root:
  assumes "mount_all kmain_mounts (vfs_init blank_vfs) = Some v"
  shows "path_fits (t_cwd (the_task 3 (fresh v))) (c_string ''/'')"
    "\<exists>fd k1. vfs_open [] (Some 3) (Some (c_string ''/'')) 0 0 (fresh v) = Inr (fd, k1) \<and> 0 \<le> fd"
proof -
  have t: "the_task 3 (fresh v) = zero_task\<lparr>t_cwd := c_string ''/''\<rparr>" by (simp add: fresh_def the_task_def)
  show f: "path_fits (t_cwd (the_task 3 (fresh v))) (c_string ''/'')"
    by (simp add: path_fits_def t c_string_def MAX_FILENAME_LEN_def good_path_def path_of_def norm_path_def comps.simps
      small_numbers_def dval_def INT_MAX_def is_digit_def code_def)
  have p: "path_of (cstr (t_cwd (the_task 3 (fresh v)))) (cstr (c_string ''/'')) = ''/''"
    by (simp add: t path_of_def norm_path_def comps.simps c_string_def)
  have "vt_free (k_vfs (fresh v)) \<noteq> []" using fresh_ok(3) [OF assms] by simp
  then show "\<exists>fd k1. vfs_open [] (Some 3) (Some (c_string ''/'')) 0 0 (fresh v) = Inr (fd, k1) \<and> 0 \<le> fd"
    using vfs_open_root [OF fresh_ok(1,2) [OF assms] _ f p] by (simp add: t zero_task_def)
qed

theorem vfs_open_close_witness:
  "\<exists>v fd k1 k2. mount_all kmain_mounts (vfs_init blank_vfs) = Some v
    \<and> vfs_open [] (Some 3) (Some (c_string ''/'')) 0 0 (fresh v) = Inr (fd, k1)
    \<and> vfs_close (Some 3) fd k1 = Inr (0, k2) \<and> files_inv k2"
proof -
  obtain v where v: "mount_all kmain_mounts (vfs_init blank_vfs) = Some v" using fresh_mounts by blast
  obtain fd k1 where o: "vfs_open [] (Some 3) (Some (c_string ''/'')) 0 0 (fresh v) = Inr (fd, k1)" "0 \<le> fd"
    using fresh_root(2) [OF v] by blast
  show ?thesis using vfs_open_close [OF fresh_ok(1,2) [OF v] _ fresh_root(1) [OF v] o] v o(1) by auto
qed

end
