(* ===== verification/Family.thy ===== *)
theory Family
  imports Process OpenFiles
begin

section \<open>Parents and children\<close>

text \<open>
  What \<open>fork\<close>, \<open>exit\<close> and \<open>waitpid\<close> (kernel/core/sched.c) do to the tree of tasks. \<open>family ts free ch\<close>:
  the children of task \<open>p\<close>, linked by \<open>next_sibling\<close> from \<open>p->children\<close>, are the list \<open>ch p\<close>; each of
  them is in use and its parent is \<open>p\<close>, so no task is the child of two. \<open>proc_inv\<close> is the invariant
  of the scheduler, the task table and the families together: a free slot is in no queue, nobody
  waits for it, and it has no children.
\<close>

subsection \<open>Families\<close>

abbreviation siblings :: "tasks \<Rightarrow> nat \<Rightarrow> nat option" where
  "siblings ts \<equiv> \<lambda>i. t_next_sibling (ts i)"

definition family :: "tasks \<Rightarrow> nat set \<Rightarrow> (nat \<Rightarrow> nat list) \<Rightarrow> bool" where
  "family ts free ch \<longleftrightarrow>
     (\<forall>p < MAX_PROCESS_CNT. chain (siblings ts) (t_children (ts p)) (ch p))
     \<and> (\<forall>p < MAX_PROCESS_CNT. \<forall>c \<in> set (ch p). c < MAX_PROCESS_CNT \<and> c \<notin> free \<and> c \<noteq> p \<and> t_parent (ts c) = Some p)
     \<and> (\<forall>p \<in> free. ch p = [])"

lemma familyD:
  assumes "family ts free ch" "p < MAX_PROCESS_CNT"
  shows "chain (siblings ts) (t_children (ts p)) (ch p)" "distinct (ch p)"
    "c \<in> set (ch p) \<Longrightarrow> c < MAX_PROCESS_CNT \<and> c \<notin> free \<and> c \<noteq> p \<and> t_parent (ts c) = Some p"
    "p \<in> free \<Longrightarrow> ch p = []"
  using assms chain_distinct unfolding family_def by blast+

lemma family_only_child:
  "family ts free ch \<Longrightarrow> p < MAX_PROCESS_CNT \<Longrightarrow> q < MAX_PROCESS_CNT \<Longrightarrow> c \<in> set (ch p) \<Longrightarrow> c \<in> set (ch q) \<Longrightarrow> p = q"
  by (metis familyD(3) option.inject)

lemma family_length:
  assumes "family ts free ch" "p < MAX_PROCESS_CNT" shows "length (ch p) < CHILD_FUEL"
proof -
  have "length (ch p) = card (set (ch p))" using familyD(2) [OF assms] by (simp add: distinct_card)
  also have "\<dots> \<le> card {..<MAX_PROCESS_CNT}" using familyD(3) [OF assms] by (intro card_mono) auto
  finally show ?thesis by (simp add: CHILD_FUEL_def)
qed

lemma family_cong:
  assumes "family ts free ch"
    "\<And>i. t_children (ts' i) = t_children (ts i) \<and> t_next_sibling (ts' i) = t_next_sibling (ts i) \<and> t_parent (ts' i) = t_parent (ts i)"
  shows "family ts' free ch"
proof -
  have "siblings ts' = siblings ts" using assms(2) by (intro ext) simp
  moreover have "t_children (ts' i) = t_children (ts i)" "t_parent (ts' i) = t_parent (ts i)" for i using assms(2) by simp_all
  ultimately show ?thesis using assms(1) unfolding family_def by (simp only:)
qed

text \<open>A new first child.\<close>

lemma family_add:
  assumes fam: "family ts free ch" and p: "p < MAX_PROCESS_CNT" "p \<notin> free"
    and c: "c < MAX_PROCESS_CNT" "c \<in> free" "t_children (ts c) = None"
    and p': "t_children (ts' p) = Some c"
    and c': "t_next_sibling (ts' c) = t_children (ts p)" "t_parent (ts' c) = Some p" "t_children (ts' c) = None"
    and same: "\<And>i. i \<noteq> c \<Longrightarrow> t_next_sibling (ts' i) = t_next_sibling (ts i) \<and> t_parent (ts' i) = t_parent (ts i)"
      "\<And>i. i \<noteq> p \<Longrightarrow> i \<noteq> c \<Longrightarrow> t_children (ts' i) = t_children (ts i)"
  shows "family ts' (free - {c}) (ch(p := c # ch p))"
proof -
  have pc: "p \<noteq> c" using p(2) c(2) by blast
  have out: "c \<notin> set (ch q)" if "q < MAX_PROCESS_CNT" for q using familyD(3) [OF fam that] c(2) by blast
  have sib: "chain (siblings ts') x (ch q) \<longleftrightarrow> chain (siblings ts) x (ch q)" if "q < MAX_PROCESS_CNT" for q x
  proof (rule chain_cong)
    fix y assume "y \<in> set (ch q)"
    then have "y \<noteq> c" using out [OF that] by blast
    then show "siblings ts' y = siblings ts y" using same(1) by simp
  qed
  have "chain (siblings ts') (t_children (ts' q)) ((ch(p := c # ch p)) q)" if q: "q < MAX_PROCESS_CNT" for q
  proof (cases "q = p")
    case True
    then show ?thesis using p' c'(1) sib [OF p(1)] familyD(1) [OF fam p(1)] by simp
  next
    case False
    have "t_children (ts' q) = t_children (ts q)"
      using False same(2) [of q] c(3) c'(3) by (cases "q = c") simp_all
    then show ?thesis using False sib [OF q] familyD(1) [OF fam q] by simp
  qed
  moreover have "x < MAX_PROCESS_CNT \<and> x \<notin> free - {c} \<and> x \<noteq> q \<and> t_parent (ts' x) = Some q"
    if q: "q < MAX_PROCESS_CNT" "x \<in> set ((ch(p := c # ch p)) q)" for q x
  proof (cases "x = c")
    case True
    then have "q = p" using q out by (auto split: if_splits)
    with True show ?thesis using c c'(2) pc by simp
  next
    case False
    then have "x \<in> set (ch q)" using q(2) by (auto split: if_splits)
    from familyD(3) [OF fam q(1) this] False same(1) [OF False] show ?thesis by simp
  qed
  moreover have "(ch(p := c # ch p)) q = []" if "q \<in> free - {c}" for q
    using that p(2) fam by (auto simp: family_def)
  ultimately show ?thesis unfolding family_def by blast
qed

text \<open>Unlinking: one pointer changes, that of the parent or of the elder sibling.\<close>

definition one_loc :: "loc \<Rightarrow> nat list \<Rightarrow> nat \<Rightarrow> tasks \<Rightarrow> tasks \<Rightarrow> bool" where
  "one_loc l xs x ts ts' \<longleftrightarrow> (\<exists>l'. ts' = set_loc l' (t_next_sibling (ts x)) ts \<and> (l' = l \<or> (\<exists>c \<in> set xs - {x}. l' = SiblingOf c)))"

lemma set_loc_simps [simp]:
  "t_next_sibling (set_loc (ChildrenOf p) v ts i) = t_next_sibling (ts i)"
  "t_next_sibling (set_loc (SiblingOf c) v ts i) = (if i = c then v else t_next_sibling (ts i))"
  "t_children (set_loc (SiblingOf c) v ts i) = t_children (ts i)"
  "t_children (set_loc (ChildrenOf p) v ts i) = (if i = p then v else t_children (ts i))"
  by (simp_all add: set_loc_def upd_apply)

lemma set_loc_frame:
  "\<exists>a b. set_loc l v ts i = (ts i)\<lparr>t_children := a, t_next_sibling := b\<rparr>"
proof -
  have "\<exists>a b. x = x\<lparr>t_children := a, t_next_sibling := b\<rparr>" "\<exists>a b. x\<lparr>t_children := v\<rparr> = x\<lparr>t_children := a, t_next_sibling := b\<rparr>"
    "\<exists>a b. x\<lparr>t_next_sibling := v\<rparr> = x\<lparr>t_children := a, t_next_sibling := b\<rparr>" for x :: task
    by (metis task.surjective task.update_convs(4,5))+
  then show ?thesis by (cases l) (auto simp: set_loc_def upd_def)
qed

lemma unlink_child_ok:
  assumes "chain (siblings ts) (at_loc l ts) xs" "x \<in> set xs" "length xs \<le> n" "\<forall>c \<in> set xs. l \<noteq> SiblingOf c"
  shows "\<exists>ts'. unlink_child n l x ts = Inr ts' \<and> one_loc l xs x ts ts' \<and> chain (siblings ts') (at_loc l ts') (remove1 x xs)"
  using assms
proof (induction xs arbitrary: n l)
  case (Cons c cs)
  then obtain m where n: "n = Suc m" "length cs \<le> m" by (cases n) auto
  have at: "at_loc l ts = Some c" "chain (siblings ts) (t_next_sibling (ts c)) cs" using Cons.prems(1) by auto
  have d: "c \<notin> set cs" using chain_distinct [OF Cons.prems(1)] by simp
  show ?case
  proof (cases "c = x")
    case True
    let ?ts = "set_loc l (t_next_sibling (ts x)) ts"
    have "at_loc l ?ts = t_next_sibling (ts x)" by (cases l) (simp_all add: at_loc_def)
    moreover have "chain (siblings ?ts) q cs \<longleftrightarrow> chain (siblings ts) q cs" for q
      using Cons.prems(4) by (intro chain_cong) (cases l; auto)
    moreover have "one_loc l (c # cs) x ts ?ts" unfolding one_loc_def by blast
    ultimately show ?thesis using n at True by (auto simp: n(1))
  next
    case False
    have "\<forall>c' \<in> set cs. SiblingOf c \<noteq> SiblingOf c'" using d by auto
    then obtain ts' where ts': "unlink_child m (SiblingOf c) x ts = Inr ts'" "one_loc (SiblingOf c) cs x ts ts'"
      "chain (siblings ts') (at_loc (SiblingOf c) ts') (remove1 x cs)"
      using Cons.IH [of "SiblingOf c" m] at(2) Cons.prems(2) False n(2) by (auto simp: at_loc_def)
    obtain c' where c': "ts' = set_loc (SiblingOf c') (t_next_sibling (ts x)) ts" "c' \<in> set (c # cs) - {x}"
      using ts'(2) False unfolding one_loc_def by auto
    have "at_loc l ts' = Some c"
      using Cons.prems(4) c' at(1) by (cases l) (auto simp: at_loc_def)
    moreover have "one_loc l (c # cs) x ts ts'" unfolding one_loc_def using c' by blast
    ultimately show ?thesis using n(1) at(1) False ts'(1,3) by (auto simp: at_loc_def)
  qed
qed simp

text \<open>A child leaves its family and its slot becomes free; its own children are orphans.\<close>

lemma family_remove:
  assumes fam: "family ts free ch" and p: "p < MAX_PROCESS_CNT" and c: "c \<in> set (ch p)"
    and one: "one_loc (ChildrenOf p) (ch p) c ts ts1" and ch: "chain (siblings ts1) (t_children (ts1 p)) (remove1 c (ch p))"
    and ts': "t_children (ts' c) = None" "\<And>i. i \<noteq> c \<Longrightarrow> ts' i = ts1 i"
  shows "family ts' (insert c free) (ch(p := remove1 c (ch p), c := []))"
proof -
  have c64: "c < MAX_PROCESS_CNT" "c \<noteq> p" using familyD(3) [OF fam p c] by auto
  obtain l' where l': "ts1 = set_loc l' (t_next_sibling (ts c)) ts" "l' = ChildrenOf p \<or> (\<exists>d \<in> set (ch p) - {c}. l' = SiblingOf d)"
    using one unfolding one_loc_def by blast
  have par: "t_parent (ts1 i) = t_parent (ts i)" for i
    using set_loc_frame [of l' "t_next_sibling (ts c)" ts i] l'(1) by auto
  have sib: "chain (siblings ts') q xs \<longleftrightarrow> chain (siblings ts1) q xs" if "c \<notin> set xs" for q xs
    by (rule chain_cong) (use that ts'(2) in metis)
  have oth: "c \<notin> set (ch q)" "chain (siblings ts1) x (ch q) = chain (siblings ts) x (ch q)" "t_children (ts1 q) = t_children (ts q)"
    if q: "q < MAX_PROCESS_CNT" "q \<noteq> p" for q x
  proof -
    show "c \<notin> set (ch q)" using family_only_child [OF fam p q(1) c] q(2) by blast
    have "d \<notin> set (ch q)" if "d \<in> set (ch p)" for d using family_only_child [OF fam p q(1) that] q(2) by blast
    then show "chain (siblings ts1) x (ch q) = chain (siblings ts) x (ch q)"
      using l' by (intro chain_cong) (auto split: if_splits)
    show "t_children (ts1 q) = t_children (ts q)" using l' q(2) by auto
  qed
  have "chain (siblings ts') (t_children (ts' q)) ((ch(p := remove1 c (ch p), c := [])) q)" if q: "q < MAX_PROCESS_CNT" for q
  proof -
    consider "q = c" | "q = p" "q \<noteq> c" | "q \<noteq> p" "q \<noteq> c" by blast
    then show ?thesis
    proof cases
      case 1
      then show ?thesis using ts'(1) by simp
    next
      case 2
      have "c \<notin> set (remove1 c (ch p))" using familyD(2) [OF fam p] by simp
      with 2 sib ch ts'(2) [of p] show ?thesis by simp
    next
      case 3
      with oth [OF q] sib ts'(2) [of q] familyD(1) [OF fam q] show ?thesis by simp
    qed
  qed
  moreover have "x < MAX_PROCESS_CNT \<and> x \<notin> insert c free \<and> x \<noteq> q \<and> t_parent (ts' x) = Some q"
    if q: "q < MAX_PROCESS_CNT" "x \<in> set ((ch(p := remove1 c (ch p), c := [])) q)" for q x
  proof -
    have x: "x \<in> set (ch q)" "x \<noteq> c" using q(2) familyD(2) [OF fam p] oth(1) [OF q(1)] by (auto split: if_splits)
    show ?thesis using familyD(3) [OF fam q(1) x(1)] x(2) ts'(2) [OF x(2)] par by simp
  qed
  moreover have "(ch(p := remove1 c (ch p), c := [])) q = []" if "q \<in> insert c free" for q
    using that fam by (auto simp: family_def)
  ultimately show ?thesis unfolding family_def by blast
qed

subsection \<open>The invariant of processes\<close>

abbreviation free_slots :: "kernel \<Rightarrow> nat list" where
  "free_slots k \<equiv> tt_free (k_tt k, k_tasks k)"

text \<open>Nobody waits for the end of a task that has ended, and only the task itself waits for its children.\<close>

definition quiet :: "kernel \<Rightarrow> (wq_id \<Rightarrow> nat list) \<Rightarrow> bool" where
  "quiet k qs \<longleftrightarrow> (\<forall>i < MAX_PROCESS_CNT. (t_state (k_tasks k i) = TASK_ZOMBIE \<or> t_state (k_tasks k i) = TASK_POOLED \<longrightarrow> qs (ExitQ i) = [])
     \<and> set (qs (ChildQ i)) \<subseteq> {i})"

definition names_kept :: "kernel \<Rightarrow> bool" where
  "names_kept k \<longleftrightarrow> (\<forall>i < MAX_PROCESS_CNT. length (t_name (k_tasks k i)) = 64 \<and> length (t_cwd (k_tasks k i)) = 64
     \<and> (i \<notin> set (free_slots k) \<longrightarrow> terminated (t_name (k_tasks k i)) \<and> terminated (t_cwd (k_tasks k i))))"

definition proc_inv :: "kernel \<Rightarrow> nat list \<Rightarrow> (wq_id \<Rightarrow> nat list) \<Rightarrow> (nat \<Rightarrow> nat list) \<Rightarrow> bool" where
  "proc_inv k xs qs ch \<longleftrightarrow> sched_inv k xs qs \<and> tt_inv (k_tt k, k_tasks k) \<and> family (k_tasks k) (set (free_slots k)) ch
     \<and> (\<forall>i \<in> set (free_slots k). t_state (k_tasks k i) = TASK_POOLED \<and> t_children (k_tasks k i) = None)
     \<and> quiet k qs \<and> names_kept k"

lemma proc_invD:
  assumes "proc_inv k xs qs ch"
  shows "sched_inv k xs qs" "tt_inv (k_tt k, k_tasks k)" "family (k_tasks k) (set (free_slots k)) ch"
    "i \<in> set (free_slots k) \<Longrightarrow> t_state (k_tasks k i) = TASK_POOLED \<and> t_children (k_tasks k i) = None"
    "quiet k qs" "names_kept k"
  using assms unfolding proc_inv_def by blast+

text \<open>Tasks in no queue.\<close>

lemma not_queued:
  assumes "sched_inv k xs qs" "t_state (k_tasks k i) = TASK_POOLED \<or> t_state (k_tasks k i) = TASK_ZOMBIE"
  shows "i \<notin> set xs" "i \<notin> waiting qs" "k_current k \<noteq> Some i" "k_swapper k \<noteq> Some i"
proof -
  note D = sched_invD [OF assms(1)]
  show "i \<notin> set xs" using D(4) [of i] assms(2) by (auto simp: sleeping_def)
  show w: "i \<notin> waiting qs" using D(3) [of i] assms(2) by (auto simp: sleeping_def)
  show "k_current k \<noteq> Some i" using D(6) assms(2) w by (auto simp: current_ok_def)
  show "k_swapper k \<noteq> Some i" using D(5) assms(2) by (auto simp: swapper_ok_def)
qed

lemma ended_quiet:
  assumes "sched_inv k xs qs" "quiet k qs" "t_state (k_tasks k i) = TASK_POOLED \<or> t_state (k_tasks k i) = TASK_ZOMBIE" "i < 64"
  shows "qs (ExitQ i) = []" "qs (ChildQ i) = []"
proof -
  have "i \<notin> set (qs (ChildQ i))" using not_queued(2) [OF assms(1,3)] by (auto simp: waiting_def)
  moreover have "set (qs (ChildQ i)) \<subseteq> {i}" "qs (ExitQ i) = []" using assms(2-4) by (auto simp: quiet_def)
  ultimately show "qs (ExitQ i) = []" "qs (ChildQ i) = []" by (auto simp: subset_singleton_iff)
qed

lemma running_in_use:
  assumes "proc_inv k xs qs ch" "running k" "k_current k = Some p"
  shows "p < MAX_PROCESS_CNT" "p \<notin> set (free_slots k)" "p \<notin> set xs" "p \<notin> waiting qs" "t_state (k_tasks k p) = TASK_RUNNING"
proof -
  note D = sched_invD [OF proc_invD(1) [OF assms(1)]]
  show st: "t_state (k_tasks k p) = TASK_RUNNING" using assms(2,3) by (simp add: running_def)
  show "p < MAX_PROCESS_CNT" "p \<notin> set xs" using D(6) assms(3) by (auto simp: current_ok_def)
  show "p \<notin> set (free_slots k)" using proc_invD(4) [OF assms(1)] st by fastforce
  show "p \<notin> waiting qs" using D(3) [of p] st by (auto simp: sleeping_def)
qed

lemma wait_queue_init_same:
  assumes "wh_inv wh qs" "qs q = []" shows "wait_queue_init q wh = wh"
proof -
  have "wq_rep wh q []" using wh_invD(1) [OF assms(1), of q] assms(2) by simp
  then have "wh_queues wh q = \<lparr> wq_head = None, wq_tail = None \<rparr>" by (simp add: wq_rep_def)
  then have "(wh_queues wh)(q := (wh_queues wh q)\<lparr>wq_head := None, wq_tail := None\<rparr>) = wh_queues wh"
    by (intro ext) simp
  then show ?thesis by (simp add: wait_queue_init_def updq_def)
qed

text \<open>The searches for a child.\<close>

lemma find_zombie_child_ok:
  "chain (siblings ts) p xs \<Longrightarrow> length xs < n \<Longrightarrow>
   find_zombie_child n p ts = Inr (List.find (\<lambda>c. t_state (ts c) = TASK_ZOMBIE) xs)"
proof (induction xs arbitrary: n p)
  case Nil
  then show ?case by (cases n) auto
next
  case (Cons c xs)
  then show ?case by (cases n) auto
qed

lemma find_child_by_pid_ok:
  "chain (siblings ts) p xs \<Longrightarrow> length xs < n \<Longrightarrow>
   find_child_by_pid n p pid ts = Inr (List.find (\<lambda>c. t_pid (ts c) = pid) xs)"
proof (induction xs arbitrary: n p)
  case Nil
  then show ?case by (cases n) auto
next
  case (Cons c xs)
  then show ?case by (cases n) auto
qed

lemma find_in_set: "List.find P xs = Some c \<Longrightarrow> c \<in> set xs \<and> P c"
  by (metis find_Some_iff nth_mem)

subsection \<open>fork\<close>

text \<open>The child's task and the kernel in which \<open>sched_fork\<close> makes it runnable.\<close>

definition child_task :: "int \<Rightarrow> char list \<Rightarrow> char list \<Rightarrow> nat \<Rightarrow> task \<Rightarrow> task \<Rightarrow> task" where
  "child_task pid nm cw p x c =
     c\<lparr>t_pid := pid, t_name := nm, t_parent := Some p, t_next_sibling := t_children x, t_u_sp := t_u_sp x, t_brk := t_brk x,
       t_brk_limit := t_brk_limit x, t_cwd := cw, t_ctty := t_ctty x, t_pending := 0, t_ctxt := 0, t_sys_call_cnt := 0,
       t_exit_status := 0, t_state := TASK_QUEUED\<rparr>"

definition with_child :: "nat \<Rightarrow> nat \<Rightarrow> task \<Rightarrow> task_table \<Rightarrow> kernel \<Rightarrow> kernel" where
  "with_child p c x tt k =
     k\<lparr>k_tt := tt, k_mem := (k_mem k)(c := k_mem k p), k_tasks := (k_tasks k)(c := x, p := (k_tasks k p)\<lparr>t_children := Some c\<rparr>)\<rparr>"

lemma upd_twice [simp]: "upd c f (upd c g ts) = upd c (\<lambda>x. f (g x)) ts"
  by (simp add: upd_def)

lemma fork_runs:
  assumes inv: "proc_inv k xs qs ch" and run: "running k" "k_current k = Some p" and fr: "free_slots k = c # fs"
    and mapped: "process_mapped p" "process_mapped c"
  shows "\<exists>tt pid nm cw. sched_fork k = bindR (sched_enqueue c (with_child p c (child_task pid nm cw p (k_tasks k p) (k_tasks k c)) tt k))
        (\<lambda>k'. Inr (t_pid (the_task c k'), Some c, k'))
    \<and> tt_inv (tt, upd c (\<lambda>x. x\<lparr>t_pid := pid\<rparr>) (k_tasks k)) \<and> tt_free (tt, upd c (\<lambda>x. x\<lparr>t_pid := pid\<rparr>) (k_tasks k)) = fs
    \<and> terminated nm \<and> length nm = 64 \<and> cstr nm = cstr (t_name (k_tasks k p))
    \<and> terminated cw \<and> length cw = 64 \<and> cstr cw = cstr (t_cwd (k_tasks k p))"
proof -
  note D = proc_invD [OF inv] and R = running_in_use [OF inv run]
  have c: "c < 64" "c \<in> set (free_slots k)" using tt_invD(4) [OF D(2)] fr by auto
  have pc: "p \<noteq> c" using R(2) c(2) by blast
  define pid where "pid = int (unat (tt_gen (k_tt k) c) * 64 + c)"
  obtain tt where tt: "task_table_alloc (k_tt k, k_tasks k) = Inr (Some c, tt, upd c (\<lambda>x. x\<lparr>t_pid := pid\<rparr>) (k_tasks k))"
    "tt_inv (tt, upd c (\<lambda>x. x\<lparr>t_pid := pid\<rparr>) (k_tasks k))" "tt_free (tt, upd c (\<lambda>x. x\<lparr>t_pid := pid\<rparr>) (k_tasks k)) = fs"
    using task_table_alloc_Cons [OF D(2) fr] unfolding pid_def by blast
  have len: "length (t_name (k_tasks k i)) = 64" "length (t_cwd (k_tasks k i)) = 64" if "i < 64" for i
    using D(6) that by (simp_all add: names_kept_def)
  have tm: "terminated (t_name (k_tasks k p))" "terminated (t_cwd (k_tasks k p))"
    using D(6) R(1,2) by (simp_all add: names_kept_def)
  have short: "length (cstr b) < 64" if "terminated b" "length b = 64" for b using length_cstr_less [OF that(1)] that(2) by simp
  obtain nm where nm: "k_strcpy (t_name (k_tasks k c)) (t_name (k_tasks k p)) = Some nm" "cstr nm = cstr (t_name (k_tasks k p))"
    "terminated nm" "length nm = 64"
    using k_strcpy_string [OF tm(1), of "t_name (k_tasks k c)"] short [OF tm(1)] len c R(1) by auto
  obtain cw where cw: "k_strcpy (t_cwd (k_tasks k c)) (t_cwd (k_tasks k p)) = Some cw" "cstr cw = cstr (t_cwd (k_tasks k p))"
    "terminated cw" "length cw = 64"
    using k_strcpy_string [OF tm(2), of "t_cwd (k_tasks k c)"] short [OF tm(2)] len c R(1) by auto
  have wh: "wait_queue_init (ChildQ c) (wait_queue_init (ExitQ c) (k_wh k)) = k_wh k"
  proof -
    have "t_state (k_tasks k c) = TASK_POOLED" using D(4) c(2) by blast
    then have "qs (ExitQ c) = []" "qs (ChildQ c) = []" using ended_quiet [OF D(1,5)] c(1) by auto
    then show ?thesis using wait_queue_init_same sched_invD(2) [OF D(1)] by metis
  qed
  have ts: "upd c f (upd p g ts) = upd p g (upd c f ts)" for f g ts using pc by (auto simp: upd_def fun_upd_twist)
  have "sched_fork k = bindR (sched_enqueue c (with_child p c (child_task pid nm cw p (k_tasks k p) (k_tasks k c)) tt k))
        (\<lambda>k'. Inr (t_pid (the_task c k'), Some c, k'))"
    using run(2) tt(1) nm(1) cw(1) pc mapped wh
    by (simp add: sched_fork_def sched_current_def table_alloc_def the_task_def updt_def link_child_def signal_init_def
        copy_region_def with_child_def child_task_def Let_def upd_apply ts)
      (simp add: upd_def fun_upd_twist)
  then show ?thesis using tt(2,3) nm cw by blast
qed

text \<open>What a fork does to the rest of the kernel.\<close>

definition fork_effect :: "nat \<Rightarrow> nat \<Rightarrow> kernel \<Rightarrow> kernel \<Rightarrow> bool" where
  "fork_effect p c k k' \<longleftrightarrow>
     (let x = the_task p k; y = the_task c k'
      in cstr (t_name y) = cstr (t_name x) \<and> cstr (t_cwd y) = cstr (t_cwd x) \<and> t_ctty y = t_ctty x \<and> t_brk y = t_brk x
       \<and> t_brk_limit y = t_brk_limit x \<and> t_u_sp y = t_u_sp x \<and> t_pending y = 0 \<and> t_exit_status y = 0 \<and> t_parent y = Some p
       \<and> t_state y = TASK_QUEUED \<and> t_files y = t_files (the_task c k))
     \<and> k_mem k' = (k_mem k)(c := k_mem k p)
     \<and> (\<forall>i. i \<noteq> c \<longrightarrow> t_pid (the_task i k) \<noteq> t_pid (the_task c k') \<or> 64 \<le> i)
     \<and> (\<forall>i. i \<noteq> c \<longrightarrow> i \<noteq> p \<longrightarrow> unlink (the_task i k') = unlink (the_task i k))
     \<and> unlink (the_task p k') = unlink ((the_task p k)\<lparr>t_children := Some c\<rparr>)"

lemma unlink_eqD:
  assumes "unlink x = unlink y"
  shows "t_pid x = t_pid y" "t_state x = t_state y" "t_children x = t_children y" "t_next_sibling x = t_next_sibling y"
    "t_parent x = t_parent y" "t_name x = t_name y" "t_cwd x = t_cwd y" "t_ctty x = t_ctty y" "t_brk x = t_brk y"
    "t_brk_limit x = t_brk_limit y" "t_u_sp x = t_u_sp y" "t_pending x = t_pending y" "t_exit_status x = t_exit_status y"
    "t_files x = t_files y"
  using eraseD [OF unlinkD(1) [OF assms]] unlinkD(2) [OF assms] by simp_all

text \<open>Adding a queued task to a state in which it is in no queue; the rest of the invariant ignores links.\<close>

lemma tt_inv_same_pids:
  assumes "tt_inv (tt, ts)" "\<And>i. t_pid (ts' i) = t_pid (ts i)" "tt_free (tt, ts) = fs"
  shows "tt_inv (tt, ts')" "tt_free (tt, ts') = fs"
  using tt_inv_cong [OF assms(1,2)] assms(3) by simp_all

lemma fork_ok:
  assumes inv: "proc_inv k xs qs ch" and run: "running k" "k_current k = Some p" and fr: "free_slots k = c # fs"
    and mapped: "process_mapped p" "process_mapped c"
  shows "\<exists>k'. sched_fork k = Inr (t_pid (the_task c k'), Some c, k') \<and> proc_inv k' (xs @ [c]) qs (ch(p := c # ch p))
    \<and> free_slots k' = fs \<and> k_current k' = Some p \<and> running k' \<and> fork_effect p c k k'"
proof -
  note D = proc_invD [OF inv] and R = running_in_use [OF inv run] and S = sched_invD [OF proc_invD(1) [OF inv]]
  have c: "c < 64" "c \<in> set (free_slots k)" "distinct (free_slots k)" using tt_invD(3,4) [OF D(2)] fr by auto
  have pc: "p \<noteq> c" using R(2) c(2) by blast
  have cfs: "set fs = set (free_slots k) - {c}" using fr c(3) by auto
  have cst: "t_state (k_tasks k c) = TASK_POOLED" "t_children (k_tasks k c) = None" using D(4) [OF c(2)] by simp_all
  note nq = not_queued [OF D(1) disjI1 [OF cst(1)]]
  obtain tt pid nm cw where F: "sched_fork k = bindR (sched_enqueue c (with_child p c (child_task pid nm cw p (k_tasks k p) (k_tasks k c)) tt k))
        (\<lambda>k'. Inr (t_pid (the_task c k'), Some c, k'))"
    "tt_inv (tt, upd c (\<lambda>x. x\<lparr>t_pid := pid\<rparr>) (k_tasks k))" "tt_free (tt, upd c (\<lambda>x. x\<lparr>t_pid := pid\<rparr>) (k_tasks k)) = fs"
    "terminated nm" "length nm = 64" "cstr nm = cstr (t_name (k_tasks k p))"
    "terminated cw" "length cw = 64" "cstr cw = cstr (t_cwd (k_tasks k p))"
    using fork_runs [OF inv run fr mapped] by blast
  let ?x = "child_task pid nm cw p (k_tasks k p) (k_tasks k c)"
  let ?k = "with_child p c ?x tt k"
  have tk: "k_tasks ?k i = (if i = p then (k_tasks k p)\<lparr>t_children := Some c\<rparr> else if i = c then ?x else k_tasks k i)" for i
    using pc by (simp add: with_child_def)
  have x: "t_state ?x = TASK_QUEUED" "t_pid ?x = pid" "t_children ?x = None" "t_next_sibling ?x = t_children (k_tasks k p)"
    "t_parent ?x = Some p" "t_name ?x = nm" "t_cwd ?x = cw" "t_ctty ?x = t_ctty (k_tasks k p)" "t_brk ?x = t_brk (k_tasks k p)"
    "t_brk_limit ?x = t_brk_limit (k_tasks k p)" "t_u_sp ?x = t_u_sp (k_tasks k p)" "t_pending ?x = 0" "t_exit_status ?x = 0"
    "t_files ?x = t_files (k_tasks k c)"
    using cst by (simp_all add: child_task_def)
  obtain rq ts where Q: "sched_enqueue c ?k = Inr (?k\<lparr>k_rq := rq, k_tasks := ts\<rparr>)" "sched_inv (?k\<lparr>k_rq := rq, k_tasks := ts\<rparr>) (xs @ [c]) qs"
    "\<forall>i. unlink (ts i) = unlink (k_tasks ?k i)"
  proof -
    have "t_state (k_tasks ?k c) = TASK_QUEUED" using tk pc x(1) by simp
    moreover have "t_state (k_tasks ?k i) = t_state (k_tasks k i) \<and> t_next (k_tasks ?k i) = t_next (k_tasks k i)" if "i \<noteq> c" for i
      using tk [of i] that by simp
    ultimately show ?thesis
      using that sched_enqueue_inv [OF D(1), of c ?k] c(1) nq by (auto simp: with_child_def)
  qed
  let ?k' = "?k\<lparr>k_rq := rq, k_tasks := ts\<rparr>"
  note U = unlink_eqD [OF Q(3) [rule_format]]
  have tsi: "t_pid (ts i) = t_pid (upd c (\<lambda>x. x\<lparr>t_pid := pid\<rparr>) (k_tasks k) i)" for i
    using U(1) [of i] tk [of i] x(2) pc by (simp add: upd_apply)
  have tt: "tt_inv (tt, ts)" "tt_free (tt, ts) = fs" using tt_inv_same_pids [OF F(2) tsi F(3)] .
  then have tt': "tt_inv (k_tt ?k', k_tasks ?k')" "free_slots ?k' = fs" by (simp_all add: with_child_def)
  have "family (k_tasks ?k') (set (free_slots k) - {c}) (ch(p := c # ch p))"
  proof (rule family_add [OF D(3) R(1,2) _ c(2) cst(2)])
    show "t_children (k_tasks ?k' p) = Some c" using U(3) tk by simp
    show "t_next_sibling (k_tasks ?k' c) = t_children (k_tasks k p)" "t_parent (k_tasks ?k' c) = Some p" "t_children (k_tasks ?k' c) = None"
      using U(3-5) [of c] tk [of c] pc x by simp_all
    show "t_next_sibling (k_tasks ?k' i) = t_next_sibling (k_tasks k i) \<and> t_parent (k_tasks ?k' i) = t_parent (k_tasks k i)" if "i \<noteq> c" for i
      using U(4,5) [of i] tk [of i] that by simp
    show "t_children (k_tasks ?k' i) = t_children (k_tasks k i)" if "i \<noteq> p" "i \<noteq> c" for i
      using U(3) [of i] tk [of i] that by simp
  qed (use c in simp)
  moreover have "\<forall>i \<in> set fs. t_state (ts i) = TASK_POOLED \<and> t_children (ts i) = None"
    using D(4) cfs R(2) U(2,3) tk by auto
  moreover have "quiet ?k' qs"
    using D(5) U(2) tk x(1) by (auto simp: quiet_def)
  moreover have "names_kept ?k'"
    using D(6) R(1,2) U(6,7) tk x(6,7) F(4,5,7,8) cfs tt'(2) by (auto simp: names_kept_def)
  ultimately have "proc_inv ?k' (xs @ [c]) qs (ch(p := c # ch p))"
    unfolding proc_inv_def using Q(2) tt' cfs by simp
  moreover have "running ?k'" using run U(2) [of p] tk [of p] by (simp add: running_def with_child_def)
  moreover have "k_current ?k' = Some p" using run(2) by (simp add: with_child_def)
  moreover have "fork_effect p c k ?k'"
  proof -
    let ?ts = "upd c (\<lambda>x. x\<lparr>t_pid := pid\<rparr>) (k_tasks k)"
    have cn: "c \<notin> set (tt_free (tt, ?ts))" using F(3) cfs by simp
    have "t_pid (k_tasks k i) \<noteq> pid" if "i \<noteq> c" "i < 64" for i
    proof
      assume e: "t_pid (k_tasks k i) = pid"
      have p0: "0 \<le> pid \<and> pid mod 64 = int c" using tt_inv_slot [OF F(2) c(1) cn] by simp
      show False
      proof (cases "i \<in> set (tt_free (tt, ?ts))")
        case True
        then have "t_pid (?ts i) = -1" using tt_inv_free_slot [OF F(2)] by blast
        with e p0 that(1) show False by simp
      next
        case False
        then have "t_pid (?ts i) mod 64 = int i" using tt_inv_slot [OF F(2) that(2)] by blast
        with e p0 that(1) show False by simp
      qed
    qed
    then have "\<forall>i. i \<noteq> c \<longrightarrow> t_pid (the_task i k) \<noteq> pid \<or> 64 \<le> i" by (metis not_le the_task_def)
    moreover have "k_mem ?k' = (k_mem k)(c := k_mem k p)" by (simp add: with_child_def)
    ultimately show ?thesis
      unfolding fork_effect_def Let_def using U [of c] tk pc x F(6,9) Q(3) by (simp add: the_task_def)
  qed
  moreover have "sched_fork k = Inr (t_pid (the_task c ?k'), Some c, ?k')" using F(1) Q(1) by simp
  ultimately show ?thesis using tt'(2) by blast
qed

subsection \<open>exit\<close>

lemma vs_unchanged: "vs k t (t_files (the_task t k)) (k_vfs k) (k_con k) = k"
  by (rule vs_self)

text \<open>All descriptors from \<open>16 - n\<close> on are closed and their files are free.\<close>

lemma close_all_ok:
  assumes "files_inv k" "t < 64" "n \<le> RLIMIT_NOFILE"
  shows "\<exists>v. close_all n t k = Inr (vs k t (take (RLIMIT_NOFILE - n) (t_files (the_task t k)) @ replicate n None) v (k_con k))
    \<and> files_inv (vs k t (take (RLIMIT_NOFILE - n) (t_files (the_task t k)) @ replicate n None) v (k_con k))
    \<and> v_mounts v = v_mounts (k_vfs k)"
  using assms
proof (induction n arbitrary: k)
  case 0
  have "length (t_files (the_task t k)) = RLIMIT_NOFILE" by (rule files_invD(2) [OF 0(1,2)])
  then show ?case using 0 by (intro exI [of _ "k_vfs k"]) (simp add: vs_self)
next
  case (Suc n)
  let ?d = "RLIMIT_NOFILE - Suc n" and ?fs = "t_files (the_task t k)"
  have len: "length ?fs = RLIMIT_NOFILE" by (rule files_invD(2) [OF Suc.prems(1,2)])
  have d: "?d < RLIMIT_NOFILE" "RLIMIT_NOFILE - n = Suc ?d" using Suc.prems(3) by auto
  have rd: "rd ?fs ?d = Some (slot k t ?d)" using len d by (simp add: rd_def slot_def)
  have sp: "take (RLIMIT_NOFILE - n) (?fs[?d := None]) @ replicate n None = take ?d ?fs @ replicate (Suc n) None"
    using d len list_update_length [of "take ?d ?fs" "?fs ! ?d" "[]" None]
    by (simp add: take_Suc_conv_app_nth take_update_swap replicate_app_Cons_same)
  show ?case
  proof (cases "slot k t ?d")
    case None
    then have "?fs[?d := None] = ?fs" by (metis list_update_id slot_def)
    then show ?thesis using Suc.IH [OF Suc.prems(1,2)] Suc.prems(3) rd None sp by (simp add: Let_def)
  next
    case (Some f)
    obtain k1 where k1: "vfs_close (Some t) (int ?d) k = Inr (0, k1)" "files_inv k1" "closed t ?d f k k1"
      using vfs_close_ok [OF Suc.prems(1,2) d(1) Some] by blast
    obtain v where v: "k1 = vs k t (?fs[?d := None]) v (k_con k)" "v_mounts v = v_mounts (k_vfs k)"
      using k1(3) unfolding closed_def by blast
    obtain v' where "close_all n t k1 = Inr (vs k1 t (take (RLIMIT_NOFILE - n) (t_files (the_task t k1)) @ replicate n None) v' (k_con k1))"
      "files_inv (vs k1 t (take (RLIMIT_NOFILE - n) (t_files (the_task t k1)) @ replicate n None) v' (k_con k1))" "v_mounts v' = v_mounts (k_vfs k1)"
      using Suc.IH [OF k1(2) Suc.prems(2)] Suc.prems(3) by auto
    then show ?thesis using rd Some k1(1) v sp by (intro exI [of _ v']) (simp add: Let_def)
  qed
qed

lemma close_all_files:
  assumes "files_inv k" "t < 64"
  shows "\<exists>v. close_all RLIMIT_NOFILE t k = Inr (vs k t (replicate RLIMIT_NOFILE None) v (k_con k))
    \<and> files_inv (vs k t (replicate RLIMIT_NOFILE None) v (k_con k)) \<and> v_mounts v = v_mounts (k_vfs k)"
  using close_all_ok [OF assms, of RLIMIT_NOFILE] by simp

text \<open>The switch from a task that has ended does not look at it: it may as well be done from no task.\<close>

lemma wakeup_on_current:
  "wakeup_on q (k\<lparr>k_current := x\<rparr>) = bindR (wakeup_on q k) (\<lambda>k'. Inr (k'\<lparr>k_current := x\<rparr>))"
  by (auto simp: wakeup_on_def bindR_def split: sum.split)

definition zombie :: "nat \<Rightarrow> int \<Rightarrow> kernel \<Rightarrow> kernel" where
  "zombie c status k = (updt c (\<lambda>x. x\<lparr>t_exit_status := status, t_state := TASK_ZOMBIE\<rparr>) k)\<lparr>k_current := None\<rparr>"

lemma sched_inv_zombie:
  assumes inv: "sched_inv k xs qs" and run: "running k" "k_current k = Some c" "k_swapper k \<noteq> Some c"
  shows "sched_inv (zombie c status k) xs qs"
proof -
  note D = sched_invD [OF inv]
  have c: "c \<notin> set xs" "c \<notin> waiting qs" "t_state (k_tasks k c) = TASK_RUNNING"
    using D(3) [of c] D(6) run by (auto simp: current_ok_def running_def sleeping_def)
  let ?k = "zombie c status k"
  have st: "t_state (k_tasks ?k i) = (if i = c then TASK_ZOMBIE else t_state (k_tasks k i))"
    "t_next (k_tasks ?k i) = t_next (k_tasks k i)" for i
    by (simp_all add: zombie_def updt_def upd_apply)
  have sl: "sleeping (k_tasks ?k i) = (if i = c then False else sleeping (k_tasks k i))" for i by (simp add: sleeping_def st)
  have same: "k_wh ?k = k_wh k" "k_swapper ?k = k_swapper k" "k_rq ?k = k_rq k" "k_current ?k = None"
    by (simp_all add: zombie_def updt_def)
  have "rq_rep (k_rq k, k_tasks ?k) xs" by (rule rq_rep_cong [OF D(1)]) (rule st(2))
  moreover have "\<forall>e \<in> waiting qs. e_task (wh_entries (k_wh k) e) = Some e \<and> sleeping (k_tasks ?k e) \<and> e \<notin> set xs"
    using D(3) c(2) sl by auto
  moreover have "\<forall>i \<in> set xs. t_state (k_tasks ?k i) = TASK_QUEUED \<or> sleeping (k_tasks ?k i)"
    using D(4) c(1) unfolding st sl by fastforce
  moreover have "placed ?k xs qs i" if "i < MAX_PROCESS_CNT" for i
    using D(9) [OF that] run(2) unfolding placed_def st sl same by (cases "i = c") simp_all
  moreover have "swapper_ok ?k xs qs"
  proof -
    obtain s where s: "k_swapper k = Some s" "s < MAX_PROCESS_CNT" "s \<notin> set xs" "s \<notin> waiting qs"
      "k_current k \<noteq> Some s \<longrightarrow> t_state (k_tasks k s) = TASK_QUEUED"
      using D(5) unfolding swapper_ok_def by blast
    moreover have "s \<noteq> c" using s(1) run(3) by blast
    ultimately show ?thesis unfolding swapper_ok_def same st using run(2) by (intro exI [of _ s]) simp
  qed
  ultimately show ?thesis
    unfolding sched_inv_def using D(2) by (simp add: same current_ok_def)
qed

text \<open>Descriptors, open files and the console are no part of the invariant.\<close>

lemma proc_inv_vs:
  assumes "proc_inv k xs qs ch" shows "proc_inv (vs k t fs v con) xs qs ch"
proof -
  note D = proc_invD [OF assms]
  let ?k = "vs k t fs v con"
  have tk: "k_tasks ?k i = (if i = t then (k_tasks k t)\<lparr>t_files := fs\<rparr> else k_tasks k i)" for i
    by (simp add: vs_def upd_apply)
  have kt: "k_tt ?k = k_tt k" by (simp add: vs_def)
  have tt: "tt_inv (k_tt ?k, k_tasks ?k)" "free_slots ?k = free_slots k"
    unfolding kt using tt_inv_cong [OF D(2), of "k_tasks ?k"] tk by simp_all
  have "sched_inv ?k xs qs" by (rule sched_inv_cong' [OF D(1)]) (simp_all add: tk, simp_all add: vs_def)
  moreover have "family (k_tasks ?k) (set (free_slots k)) ch" by (rule family_cong [OF D(3)]) (simp add: tk)
  ultimately show ?thesis
    unfolding proc_inv_def tt(2) using tt(1) D(4-6) by (auto simp: tk quiet_def names_kept_def tt(2))
qed

text \<open>Who is made runnable by the end of task \<open>c\<close> with parent \<open>p\<close>, and the wait queues then.\<close>

definition exit_waiters :: "nat \<Rightarrow> nat \<Rightarrow> (wq_id \<Rightarrow> nat list) \<Rightarrow> nat list" where
  "exit_waiters p c qs = qs (ExitQ c) @ (if p = c then [] else qs (ChildQ p))"

definition exit_queues :: "nat \<Rightarrow> nat \<Rightarrow> (wq_id \<Rightarrow> nat list) \<Rightarrow> wq_id \<Rightarrow> nat list" where
  "exit_queues p c qs = (if p = c then qs(ExitQ c := []) else qs(ExitQ c := [], ChildQ p := []))"

text \<open>The two calls of \<open>wakeup\<close> in \<open>sched_exit\<close>.\<close>

lemma exit_wakeups:
  assumes inv: "sched_inv k xs qs" and cur: "k_current k = None"
  shows "\<exists>wh rq ts. bindR (wakeup_on (ExitQ c) k) (\<lambda>k3. if p = c then Inr k3 else wakeup_on (ChildQ p) k3)
        = Inr (k\<lparr>k_wh := wh, k_rq := rq, k_tasks := ts\<rparr>)
    \<and> sched_inv (k\<lparr>k_wh := wh, k_rq := rq, k_tasks := ts\<rparr>) (xs @ exit_waiters p c qs) (exit_queues p c qs)
    \<and> (\<forall>i. unlink (ts i) = unlink (k_tasks k i))"
proof -
  obtain wh rq ts where 1: "wakeup_on (ExitQ c) k = Inr (k\<lparr>k_wh := wh, k_rq := rq, k_tasks := ts\<rparr>)"
    "sched_inv (k\<lparr>k_wh := wh, k_rq := rq, k_tasks := ts\<rparr>) (xs @ qs (ExitQ c)) (qs(ExitQ c := []))"
    "\<forall>i. unlink (ts i) = unlink (k_tasks k i)"
    using wakeup_on_inv [OF inv, of "ExitQ c"] cur by auto
  show ?thesis
  proof (cases "p = c")
    case True
    then show ?thesis using 1 by (auto simp: exit_waiters_def exit_queues_def)
  next
    case False
    let ?k = "k\<lparr>k_wh := wh, k_rq := rq, k_tasks := ts\<rparr>"
    obtain wh' rq' ts' where 2: "wakeup_on (ChildQ p) ?k = Inr (?k\<lparr>k_wh := wh', k_rq := rq', k_tasks := ts'\<rparr>)"
      "sched_inv (?k\<lparr>k_wh := wh', k_rq := rq', k_tasks := ts'\<rparr>) ((xs @ qs (ExitQ c)) @ (qs(ExitQ c := [])) (ChildQ p))
         ((qs(ExitQ c := []))(ChildQ p := []))"
      "\<forall>i. unlink (ts' i) = unlink (ts i)"
      using wakeup_on_inv [OF 1(2), of "ChildQ p"] cur by auto
    then show ?thesis
      using 1(1,3) False by (intro exI [of _ wh'] exI [of _ rq'] exI [of _ ts']) (simp add: exit_waiters_def exit_queues_def)
  qed
qed

text \<open>The same calls with the task that ends still the current one.\<close>

lemma exit_current_eq:
  assumes "k_current k = Some c" "close_all RLIMIT_NOFILE c k = Inr k1" "k_current k1 = Some c" "t_parent (the_task c k1) = Some p"
    "bindR (wakeup_on (ExitQ c) (zombie c status k1)) (\<lambda>k3. if p = c then Inr k3 else wakeup_on (ChildQ p) k3) = Inr k4"
    "t_parent (the_task c k4) = Some p" "\<And>k3. wakeup_on (ExitQ c) (zombie c status k1) = Inr k3 \<Longrightarrow> t_parent (the_task c k3) = Some p"
  shows "exit_current status k = Inr k4"
proof -
  let ?k2 = "updt c (\<lambda>x. x\<lparr>t_exit_status := status, t_state := TASK_ZOMBIE\<rparr>) k1"
  obtain k3 where k3: "wakeup_on (ExitQ c) (zombie c status k1) = Inr k3" "(if p = c then Inr k3 else wakeup_on (ChildQ p) k3) = Inr k4"
    using assms(5) by (auto simp: bindR_eq_Inr)
  have "wakeup_on (ExitQ c) (?k2\<lparr>k_current := None\<rparr>) = Inr k3" using k3(1) by (simp add: zombie_def)
  then obtain k3' where k3': "wakeup_on (ExitQ c) ?k2 = Inr k3'" "k3 = k3'\<lparr>k_current := None\<rparr>"
    unfolding wakeup_on_current by (auto simp: bindR_eq_Inr)
  have par: "t_parent (the_task c k3') = Some p" using assms(7) [OF k3(1)] k3'(2) by (simp add: the_task_def)
  have "(if p = c then Inr k3' else wakeup_on (ChildQ p) k3') = Inr x \<Longrightarrow> k4 = x\<lparr>k_current := None\<rparr>" for x
    using k3(2) unfolding k3'(2) wakeup_on_current by (auto split: if_splits)
  moreover obtain x where "(if p = c then Inr k3' else wakeup_on (ChildQ p) k3') = Inr x"
    using k3(2) unfolding k3'(2) wakeup_on_current by (auto split: if_splits simp: bindR_eq_Inr)
  ultimately show ?thesis
    using assms(1,2) k3'(1) par by (auto simp: exit_current_def Let_def split: if_splits)
qed

lemma files_inv_cong:
  assumes "files_inv k" "k_vfs k' = k_vfs k" "\<And>i. t_files (the_task i k') = t_files (the_task i k)"
  shows "files_inv k'"
proof -
  have "slot k' = slot k" using assms(3) by (intro ext) (simp add: slot_def)
  moreover have "the_file f k' = the_file f k" for f by (simp add: the_file_def assms(2))
  ultimately show ?thesis using assms(1) unfolding files_inv_def assms(2,3) by simp
qed

definition exited :: "nat \<Rightarrow> int \<Rightarrow> kernel \<Rightarrow> kernel \<Rightarrow> bool" where
  "exited c status k k' \<longleftrightarrow> k_current k' = None \<and> t_state (the_task c k') = TASK_ZOMBIE \<and> t_exit_status (the_task c k') = status
     \<and> t_files (the_task c k') = replicate RLIMIT_NOFILE None \<and> free_slots k' = free_slots k \<and> k_con k' = k_con k
     \<and> (\<forall>i. t_pid (the_task i k') = t_pid (the_task i k))
     \<and> (\<forall>i. i \<noteq> c \<longrightarrow> unlink (the_task i k') = unlink (the_task i k))"

lemma exit_ok:
  assumes inv: "proc_inv k xs qs ch" "files_inv k" and run: "running k" "k_current k = Some c" "k_swapper k \<noteq> Some c"
    and par: "t_parent (the_task c k) = Some p"
  shows "\<exists>k'. exit_current status k = Inr k' \<and> files_inv k'
    \<and> proc_inv k' (xs @ exit_waiters p c qs) (exit_queues p c qs) ch \<and> exited c status k k'"
proof -
  note R = running_in_use [OF inv(1) run(1,2)]
  obtain v where v: "close_all RLIMIT_NOFILE c k = Inr (vs k c (replicate RLIMIT_NOFILE None) v (k_con k))"
    "files_inv (vs k c (replicate RLIMIT_NOFILE None) v (k_con k))"
    using close_all_files [OF inv(2), of c] R(1) by auto
  let ?k1 = "vs k c (replicate RLIMIT_NOFILE None) v (k_con k)"
  have inv1: "proc_inv ?k1 xs qs ch" by (rule proc_inv_vs [OF inv(1)])
  note D = proc_invD [OF inv1]
  have t1: "k_tasks ?k1 i = (if i = c then (k_tasks k c)\<lparr>t_files := replicate RLIMIT_NOFILE None\<rparr> else k_tasks k i)" for i
    by (simp add: vs_def upd_apply)
  have run1: "running ?k1" "k_current ?k1 = Some c" "k_swapper ?k1 \<noteq> Some c"
    using run by (simp_all add: running_def t1, simp_all add: vs_def)
  let ?z = "zombie c status ?k1"
  obtain wh rq ts where w: "bindR (wakeup_on (ExitQ c) ?z) (\<lambda>k3. if p = c then Inr k3 else wakeup_on (ChildQ p) k3)
        = Inr (?z\<lparr>k_wh := wh, k_rq := rq, k_tasks := ts\<rparr>)"
    "sched_inv (?z\<lparr>k_wh := wh, k_rq := rq, k_tasks := ts\<rparr>) (xs @ exit_waiters p c qs) (exit_queues p c qs)"
    "\<forall>i. unlink (ts i) = unlink (k_tasks ?z i)"
    using exit_wakeups [OF sched_inv_zombie [OF D(1) run1], of status c p] by (auto simp: zombie_def)
  let ?k' = "?z\<lparr>k_wh := wh, k_rq := rq, k_tasks := ts\<rparr>"
  note U = unlink_eqD [OF w(3) [rule_format]]
  have z: "k_tasks ?z i = (if i = c then (k_tasks k c)\<lparr>t_files := replicate RLIMIT_NOFILE None, t_exit_status := status,
      t_state := TASK_ZOMBIE\<rparr> else k_tasks k i)" for i
    using t1 by (simp add: zombie_def updt_def upd_apply)
  have run': "exit_current status k = Inr ?k'"
  proof (rule exit_current_eq [OF run(2) v(1) run1(2) _ w(1)])
    show "t_parent (the_task c ?k1) = Some p" "t_parent (the_task c ?k') = Some p"
      using par U(5) [of c] t1 z by (simp_all add: the_task_def)
    show "t_parent (the_task c k3) = Some p" if k3: "wakeup_on (ExitQ c) ?z = Inr k3" for k3
    proof -
      obtain ts' where "k_tasks k3 = ts'" "\<forall>i. unlink (ts' i) = unlink (k_tasks ?z i)"
        using wakeup_on_inv [OF sched_inv_zombie [OF D(1) run1, of status], of "ExitQ c"] k3 by (auto simp: zombie_def)
      then show ?thesis using unlink_eqD(5) [of "ts' c" "k_tasks ?z c"] par z by (simp add: the_task_def)
    qed
  qed
  have kt: "k_tt ?k' = k_tt k" "k_vfs ?k' = v" "k_con ?k' = k_con k" by (simp_all add: zombie_def updt_def vs_def)
  have tt: "tt_inv (k_tt ?k', k_tasks ?k')" "free_slots ?k' = free_slots k"
    using tt_inv_cong [OF proc_invD(2) [OF inv(1)], of ts] U(1) z kt by auto
  have "family ts (set (free_slots k)) ch"
    by (rule family_cong [OF proc_invD(3) [OF inv(1)]]) (use U z in simp)
  moreover have "\<forall>i \<in> set (free_slots k). t_state (ts i) = TASK_POOLED \<and> t_children (ts i) = None"
    using proc_invD(4) [OF inv(1)] R(2) U(2,3) z by auto
  moreover have "quiet ?k' (exit_queues p c qs)"
    using proc_invD(5) [OF inv(1)] U(2) z by (auto simp: quiet_def exit_queues_def)
  moreover have "names_kept ?k'"
    using proc_invD(6) [OF inv(1)] U(6,7) z tt(2) by (auto simp: names_kept_def)
  ultimately have "proc_inv ?k' (xs @ exit_waiters p c qs) (exit_queues p c qs) ch"
    unfolding proc_inv_def tt(2) using w(2) tt(1) by simp
  moreover have "files_inv ?k'"
    by (rule files_inv_cong [OF v(2)]) (use U(14) z t1 kt in \<open>simp_all add: the_task_def vs_def\<close>)
  moreover have "exited c status k ?k'"
    unfolding exited_def using U [of c] w(3) z tt(2) kt U(1) by (simp add: the_task_def) (simp add: zombie_def)
  ultimately show ?thesis using run' by blast
qed

subsection \<open>waitpid\<close>

definition reaped :: "nat \<Rightarrow> kernel \<Rightarrow> kernel \<Rightarrow> bool" where
  "reaped z k k' \<longleftrightarrow> free_slots k' = free_slots k @ [z] \<and> sched_find_by_pid (t_pid (the_task z k)) k' = None
     \<and> k_current k' = k_current k \<and> k_vfs k' = k_vfs k \<and> k_con k' = k_con k
     \<and> (\<forall>i. i \<noteq> z \<longrightarrow> (\<exists>a b. the_task i k' = (the_task i k)\<lparr>t_children := a, t_next_sibling := b\<rparr>))"

lemma reap_ok:
  assumes inv: "proc_inv k xs qs ch" and p: "p < 64" and z: "z \<in> set (ch p)" "t_state (k_tasks k z) = TASK_ZOMBIE"
  shows "\<exists>k'. reap p z k = Inr (t_pid (the_task z k), t_exit_status (the_task z k), k')
    \<and> proc_inv k' xs qs (ch(p := remove1 z (ch p), z := [])) \<and> reaped z k k'"
proof -
  note D = proc_invD [OF inv]
  have z64: "z < 64" "z \<notin> set (free_slots k)" using familyD(3) [OF D(3) _ z(1)] p by auto
  note nq = not_queued [OF D(1) disjI2 [OF z(2)]]
  have "chain (siblings (k_tasks k)) (at_loc (ChildrenOf p) (k_tasks k)) (ch p)" "length (ch p) \<le> CHILD_FUEL"
    using familyD(1) [OF D(3)] family_length [OF D(3)] p by (simp_all add: at_loc_def less_imp_le)
  then obtain ts1 where ts1: "unlink_child CHILD_FUEL (ChildrenOf p) z (k_tasks k) = Inr ts1" "one_loc (ChildrenOf p) (ch p) z (k_tasks k) ts1"
    "chain (siblings ts1) (t_children (ts1 p)) (remove1 z (ch p))"
    using unlink_child_ok [of "k_tasks k" "ChildrenOf p" "ch p" z CHILD_FUEL] z(1) by (auto simp: at_loc_def)
  have f1: "\<exists>a b. ts1 i = (k_tasks k i)\<lparr>t_children := a, t_next_sibling := b\<rparr>" for i
    using ts1(2) set_loc_frame unfolding one_loc_def by blast
  have s1: "t_pid (ts1 i) = t_pid (k_tasks k i)" "t_state (ts1 i) = t_state (k_tasks k i)" "t_next (ts1 i) = t_next (k_tasks k i)"
    "t_name (ts1 i) = t_name (k_tasks k i)" "t_cwd (ts1 i) = t_cwd (k_tasks k i)" for i
    using f1 [of i] by auto
  have tt1: "tt_inv (k_tt k, ts1)" "tt_free (k_tt k, ts1) = free_slots k" using tt_inv_cong [OF D(2)] s1(1) by blast+
  define ts where "ts = upd z (\<lambda>x. x\<lparr>t_pid := PID_NONE, t_state := TASK_POOLED, t_children := None, t_parent := None, t_next_sibling := None\<rparr>) ts1"
  obtain tt where tt: "task_table_free z (k_tt k, ts1) = Inr (tt, ts)" "tt_inv (tt, ts)" "tt_free (tt, ts) = free_slots k @ [z]"
    using task_table_free_ok [OF tt1(1) z64(1)] z64(2) tt1(2) unfolding ts_def by auto
  let ?k' = "k\<lparr>k_tasks := ts, k_tt := tt\<rparr>"
  have run: "reap p z k = Inr (t_pid (the_task z k), t_exit_status (the_task z k), ?k')"
    using ts1(1) tt(1) s1(1) by (simp add: reap_def table_free_def the_task_def Let_def)
  have tz: "ts i = ts1 i" if "i \<noteq> z" for i using that by (simp add: ts_def)
  have "family ts (insert z (set (free_slots k))) (ch(p := remove1 z (ch p), z := []))"
    using p by (intro family_remove [OF D(3) _ z(1) ts1(2,3)]) (auto simp: ts_def)
  moreover have "sched_inv ?k' xs qs"
  proof -
    let ?k0 = "?k'\<lparr>k_tasks := ts1\<rparr>"
    have i0: "sched_inv ?k0 xs qs" by (rule sched_inv_cong' [OF D(1)]) (simp_all add: s1)
    note I = sched_invD [OF i0]
    have st: "t_state (ts i) = (if i = z then TASK_POOLED else t_state (ts1 i))" "t_next (ts i) = t_next (ts1 i)" for i
      by (simp_all add: ts_def upd_apply)
    have sl: "sleeping (ts i) = sleeping (ts1 i)" for i using z(2) s1(2) [of z] by (simp add: sleeping_def st)
    have "rq_rep (k_rq k, ts) xs" by (rule rq_rep_cong [OF I(1) [simplified]]) (rule st(2))
    moreover have "\<forall>i \<in> set xs. t_state (ts i) = TASK_QUEUED \<or> sleeping (ts i)"
      using I(4) nq(1) unfolding st sl by fastforce
    moreover have "placed ?k' xs qs i" if "i < MAX_PROCESS_CNT" for i
      using I(9) [OF that] by (cases "i = z") (auto simp: placed_def st sl)
    moreover have "swapper_ok ?k' xs qs"
    proof -
      obtain s where s: "k_swapper k = Some s" "s < MAX_PROCESS_CNT" "s \<notin> set xs" "s \<notin> waiting qs"
        "k_current k \<noteq> Some s \<longrightarrow> t_state (ts1 s) = TASK_QUEUED" "k_current k = Some s \<longrightarrow> t_state (ts1 s) = TASK_RUNNING"
        using I(5) unfolding swapper_ok_def by auto
      moreover have "s \<noteq> z" using s(1) nq(4) by blast
      ultimately show ?thesis unfolding swapper_ok_def st by (intro exI [of _ s]) (simp add: st)
    qed
    moreover have "current_ok ?k' xs qs" using I(6) nq(3) by (auto simp: current_ok_def st sl)
    ultimately show ?thesis unfolding sched_inv_def using I(2,3) sl by simp
  qed
  moreover have "\<forall>i \<in> set (free_slots k @ [z]). t_state (ts i) = TASK_POOLED \<and> t_children (ts i) = None"
  proof
    fix i assume i: "i \<in> set (free_slots k @ [z])"
    show "t_state (ts i) = TASK_POOLED \<and> t_children (ts i) = None"
    proof (cases "i = z")
      case False
      then have fr: "i \<in> set (free_slots k)" using i by simp
      have "i \<noteq> p" using z(1) fr familyD(4) [OF D(3) _ fr] p by fastforce
      then have "t_children (ts1 i) = t_children (k_tasks k i)"
        using ts1(2) unfolding one_loc_def by auto
      then show ?thesis using D(4) [OF fr] tz [OF False] s1 by simp
    qed (simp add: ts_def)
  qed
  moreover have "quiet ?k' qs"
    using D(5) z(2) z64(1) s1(2) by (auto simp: quiet_def ts_def upd_apply split: if_splits)
  moreover have "names_kept ?k'"
    using D(6) s1(4,5) tt(3) by (auto simp: names_kept_def ts_def upd_apply)
  ultimately have "proc_inv ?k' xs qs (ch(p := remove1 z (ch p), z := []))"
    unfolding proc_inv_def using tt(2,3) by simp
  moreover have "reaped z k ?k'"
  proof -
    have "task_table_find_task_by_pid ts (t_pid (k_tasks k z)) = None"
    proof (rule ccontr)
      assume "task_table_find_task_by_pid ts (t_pid (k_tasks k z)) \<noteq> None"
      then obtain j where "j < 64" "j \<notin> set (tt_free (tt, ts))" "t_pid (ts j) = t_pid (k_tasks k z)"
        using task_table_find_ok [OF tt(2)] by blast
      moreover from this have "j \<noteq> z" "t_pid (k_tasks k j) = t_pid (k_tasks k z)" "j \<notin> set (free_slots k)"
        using tt(3) tz s1(1) by auto
      ultimately show False using tt_inv_slot [OF D(2)] z64 by (metis of_nat_eq_iff)
    qed
    then show ?thesis
      unfolding reaped_def using tt(3) f1 tz by (auto simp: the_task_def sched_find_by_pid_def)
  qed
  ultimately show ?thesis using run by blast
qed

subsection \<open>Properties\<close>

text \<open>A kernel with a swapper (slot 0), a program (slot 1) and its child, which has ended with status 7 (slot 2).\<close>

definition demo_task :: "nat \<Rightarrow> task" where
  "demo_task i =
     (if i = 0 then zero_task\<lparr>t_pid := 0, t_state := TASK_QUEUED, t_parent := Some 0\<rparr>
      else if i = 1 then zero_task\<lparr>t_pid := 1, t_state := TASK_RUNNING, t_parent := Some 0, t_children := Some 2\<rparr>
      else if i = 2 then zero_task\<lparr>t_pid := 2, t_state := TASK_ZOMBIE, t_parent := Some 1, t_exit_status := 7\<rparr>
      else zero_task\<lparr>t_pid := -1, t_state := TASK_POOLED\<rparr>)"

definition demo :: kernel where
  "demo = bss_kernel\<lparr>k_current := Some 1, k_swapper := Some 0, k_con := blank_console, k_vfs := vfs_init blank_vfs,
     k_ttys := (\<lambda>_. zero_tty\<lparr>y_console := True\<rparr>),
     k_tt := \<lparr> tt_free_ring = map of_nat [0..<64], tt_head = 3, tt_tail = 64, tt_gen = (\<lambda>_. 0) \<rparr>, k_tasks := demo_task\<rparr>"

lemma demo_free: "free_slots demo = [3..<64]"
proof -
  have cnt: "ring_count 3 64 = 61" by (simp add: ring_count_def)
  have "ring_list 64 (map of_nat [0..<64]) 3 64 = (map of_nat [3..<64] :: u32 list)"
    by (rule nth_equalityI) (simp_all add: ring_list_def cnt del: upt_rec_numeral)
  moreover have "map unat (map of_nat [3..<64] :: u32 list) = [3..<64]"
    by (rule nth_equalityI) (simp_all add: unat_simps unat_of_nat del: upt_rec_numeral)
  ultimately show ?thesis by (simp add: tt_free_def demo_def del: upt_rec_numeral)
qed

lemma demo_inv: "proc_inv demo [] (\<lambda>_. []) ((\<lambda>_. [])(1 := [2]))"
proof -
  have tk: "k_tasks demo = demo_task" by (simp add: demo_def)
  have "rq_rep (k_rq demo, demo_task) []" by (simp add: demo_def bss_kernel_def run_queue_init_def rq_rep_def)
  moreover have "wh_inv (k_wh demo) (\<lambda>_. [])" by (simp add: demo_def bss_kernel_def wh_inv_def wq_rep_def)
  ultimately have "sched_inv demo [] (\<lambda>_. [])"
    by (simp add: sched_inv_def waiting_def placed_def swapper_ok_def current_ok_def sleeping_def tk)
      (simp add: demo_def demo_task_def zero_task_def)
  moreover have "tt_inv (k_tt demo, k_tasks demo)"
  proof -
    have fr: "tt_free (k_tt demo, demo_task) = [3..<64]" using demo_free tk by simp
    have "if i \<in> set [3..<64] then t_pid (demo_task i) = - 1 else 0 \<le> t_pid (demo_task i) \<and> t_pid (demo_task i) mod 64 = int i"
      if "i < 64" for i
    proof -
      have "i = 0 \<or> i = 1 \<or> i = 2 \<or> 3 \<le> i" by linarith
      then show ?thesis using that by (auto simp: demo_task_def simp del: upt_rec_numeral)
    qed
    moreover have "length (tt_free_ring (k_tt demo)) = 64" "ring_count (tt_head (k_tt demo)) (tt_tail (k_tt demo)) \<le> 64"
      "unat (tt_gen (k_tt demo) i) < 33554432" for i
      by (simp_all add: demo_def ring_count_def)
    ultimately show ?thesis unfolding tt_inv_def tk by (simp add: fr lessThan_atLeast0 del: upt_rec_numeral)
  qed
  moreover have "family demo_task (set [3..<64]) ((\<lambda>_. [])(1 := [2]))"
    by (auto simp: family_def demo_task_def zero_task_def simp del: upt_rec_numeral)
  moreover have "quiet demo (\<lambda>_. [])" by (simp add: quiet_def)
  moreover have "names_kept demo" by (simp add: names_kept_def tk demo_task_def zero_task_def terminated_def)
  ultimately show ?thesis
    unfolding proc_inv_def demo_free unfolding tk by (auto simp: demo_task_def zero_task_def simp del: upt_rec_numeral)
qed

lemma demo_files: "files_inv demo"
proof -
  have inv: "vt_inv (k_vfs demo)" "vt_free (k_vfs demo) = [0..<1024]"
    using vfs_init_inv [of blank_vfs] by (simp_all add: demo_def)
  have fl: "the_file i demo = (if i < 1024 then zero_file\<lparr>f_idx := of_nat i\<rparr> else zero_file)" for i
    by (simp add: demo_def the_file_def vfs_init_def blank_vfs_def)
  have tk: "t_files (the_task t demo) = replicate 16 None" for t
    by (simp add: the_task_def demo_def demo_task_def zero_task_def)
  have sl: "d < RLIMIT_NOFILE \<Longrightarrow> slot demo t d = None" for t d by (simp add: slot_def tk RLIMIT_NOFILE_def)
  show ?thesis
    unfolding files_inv_def using inv sl by (auto simp: fl tk zero_file_def RLIMIT_NOFILE_def terminated_def)
qed

lemma demo_running: "running demo" "k_current demo = Some 1"
  by (simp_all add: running_def demo_def demo_task_def)

text \<open>
  C7: \<open>fork\<close>. When a slot other than the last is free, \<open>sched_fork\<close> makes the task in it the caller's
  newest child and appends it to the run queue, keeping the invariant of scheduler, task table and
  families. The child has the caller's name, working directory, terminal, heap bounds and memory and a
  pid no other task has, but not its open files; nothing else changes.
\<close>

theorem sched_fork_adds_child:
  assumes "proc_inv k xs qs ch" "running k" "k_current k = Some p" "free_slots k = c # fs" "process_mapped p" "process_mapped c"
  shows "\<exists>k'. sched_fork k = Inr (t_pid (the_task c k'), Some c, k') \<and> proc_inv k' (xs @ [c]) qs (ch(p := c # ch p))
    \<and> free_slots k' = fs \<and> k_current k' = Some p \<and> running k' \<and> fork_effect p c k k'"
  by (rule fork_ok [OF assms])

theorem sched_fork_adds_child_witness:
  "\<exists>k'. sched_fork demo = Inr (t_pid (the_task 3 k'), Some 3, k') \<and> proc_inv k' [3] (\<lambda>_. []) ((\<lambda>_. [])(1 := [3, 2]))"
proof -
  have "free_slots demo = 3 # [4..<64]" using demo_free upt_conv_Cons [of 3 64] by (simp del: upt_rec_numeral)
  then show ?thesis
    using sched_fork_adds_child [OF demo_inv demo_running, of 3 "[4..<64]"] by (auto simp: process_mapped_def)
qed

text \<open>
  C8: \<open>exit\<close>. The end of a task other than the swapper closes all its descriptors and frees their
  files, leaves it a zombie with its status that still has its slot and pid, and makes runnable exactly
  the tasks that wait for it to end or, as its parent, for some child, in the order they went to sleep,
  whatever else they wait for. The invariants of processes and of open files are kept, and
  \<open>sched_exit\<close> then runs another task.
\<close>

theorem sched_exit_wakes_waiters:
  assumes "proc_inv k xs qs ch" "files_inv k" "con_ok (k_con k)" "running k" "k_current k = Some c" "k_swapper k \<noteq> Some c"
    "t_parent (the_task c k) = Some p"
  shows "\<exists>k1 k2. exit_current status k = Inr k1 \<and> exited c status k k1 \<and> files_inv k1
    \<and> proc_inv k1 (xs @ exit_waiters p c qs) (exit_queues p c qs) ch
    \<and> sched_exit status k = Inr k2 \<and> running k2 \<and> k_current k2 = chosen k1 (xs @ exit_waiters p c qs)"
proof -
  obtain k1 where k1: "exit_current status k = Inr k1" "files_inv k1"
    "proc_inv k1 (xs @ exit_waiters p c qs) (exit_queues p c qs) ch" "exited c status k k1"
    using exit_ok [OF assms(1,2,4-7)] by blast
  have "con_ok (k_con k1)" using k1(4) assms(3) by (simp add: exited_def)
  then obtain k2 where "sched_schedule k1 = Inr k2" "running k2" "k_current k2 = chosen k1 (xs @ exit_waiters p c qs)"
    using sched_schedule_inv [OF proc_invD(1) [OF k1(3)]] by blast
  then show ?thesis using k1 by (auto simp: sched_exit_def)
qed

theorem sched_exit_wakes_waiters_witness:
  "\<exists>k1. exit_current 3 demo = Inr k1 \<and> t_exit_status (the_task 1 k1) = 3 \<and> files_inv k1"
proof -
  have "con_ok (k_con demo)" "k_swapper demo \<noteq> Some 1" "t_parent (the_task 1 demo) = Some 0"
    by (simp_all add: demo_def demo_task_def the_task_def con_ok_def blank_console_def)
  from sched_exit_wakes_waiters [OF demo_inv demo_files this(1) demo_running this(2,3), of 3]
  show ?thesis by (auto simp: exited_def)
qed

text \<open>What \<open>waitpid\<close> does, said of the list of the caller's children, newest first.\<close>

definition waitpid_spec :: "int \<Rightarrow> int \<Rightarrow> nat \<Rightarrow> nat list \<Rightarrow> tasks \<Rightarrow> wait_step" where
  "waitpid_spec pid options p cs ts =
     (if options AND NOT 1 \<noteq> 0 \<or> (pid \<le> 0 \<and> pid \<noteq> -1) then WaitResult (- EINVAL)
      else case List.find (\<lambda>c. if pid = -1 then t_state (ts c) = TASK_ZOMBIE else t_pid (ts c) = pid) cs of
        None \<Rightarrow> if pid = -1 \<and> cs \<noteq> []
                then if options AND 1 \<noteq> 0 then WaitResult 0 else WaitSleep (ChildQ p) (HasZombieChild p) None
                else WaitResult (- ECHILD)
      | Some c \<Rightarrow> if t_state (ts c) = TASK_ZOMBIE then WaitReap c
                  else if options AND 1 \<noteq> 0 then WaitResult 0 else WaitSleep (ExitQ c) (IsZombie c) (Some c))"

lemma waitpid_begin_ok:
  assumes "proc_inv k xs qs ch" "k_current k = Some p" "p < 64"
  shows "sched_waitpid_begin pid options k = Inr (waitpid_spec pid options p (ch p) (k_tasks k))"
proof -
  note fam = proc_invD(3) [OF assms(1)]
  have c: "chain (siblings (k_tasks k)) (t_children (k_tasks k p)) (ch p)" "length (ch p) < CHILD_FUEL"
    using familyD(1) [OF fam] family_length [OF fam] assms(3) by simp_all
  have nil: "t_children (k_tasks k p) = None \<longleftrightarrow> ch p = []" using c(1) by (cases "ch p") auto
  have z: "List.find (\<lambda>c. t_state (k_tasks k c) = TASK_ZOMBIE) (ch p) = Some y \<Longrightarrow> t_state (k_tasks k y) = TASK_ZOMBIE" for y
    using find_in_set by fastforce
  show ?thesis
    using assms(2) find_zombie_child_ok [OF c] find_child_by_pid_ok [OF c] nil z
    by (auto simp: sched_waitpid_begin_def waitpid_spec_def sched_current_def zombie_of_def the_task_def split: option.splits)
qed

text \<open>
  C9: \<open>waitpid\<close> finds children. For every pid and every option word \<open>sched_waitpid\<close> ends its search and
  does what its specification on the caller's list of children says: it refuses unknown options and
  pids, reports that there is no such child, reaps the newest zombie or the child asked for, returns 0
  under \<open>WNOHANG\<close>, or goes to sleep.
\<close>

theorem sched_waitpid_searches:
  assumes "proc_inv k xs qs ch" "k_current k = Some p" "p < 64"
  shows "sched_waitpid_begin pid options k = Inr (waitpid_spec pid options p (ch p) (k_tasks k))"
  by (rule waitpid_begin_ok [OF assms])

theorem sched_waitpid_searches_witness:
  "sched_waitpid_begin (-1) 0 demo = Inr (WaitReap 2) \<and> sched_waitpid_begin 9 0 demo = Inr (WaitResult (- ECHILD))"
  using sched_waitpid_searches [OF demo_inv demo_running(2), of "-1" 0] sched_waitpid_searches [OF demo_inv demo_running(2), of 9 0]
  by (simp add: waitpid_spec_def demo_def demo_task_def)

text \<open>
  C10: reaping. Collecting a zombie child returns its pid and its status, takes exactly this child out
  of the caller's list, gives its slot back to the task table as the last to be used again, so that its
  pid names nothing, and keeps the invariants; of the other tasks only family links change.
\<close>

theorem waitpid_reaps_child:
  assumes "proc_inv k xs qs ch" "p < 64" "z \<in> set (ch p)" "t_state (k_tasks k z) = TASK_ZOMBIE"
  shows "\<exists>k'. reap p z k = Inr (t_pid (the_task z k), t_exit_status (the_task z k), k')
    \<and> proc_inv k' xs qs (ch(p := remove1 z (ch p), z := [])) \<and> reaped z k k'"
  by (rule reap_ok [OF assms])

theorem waitpid_reaps_child_witness:
  "\<exists>k'. reap 1 2 demo = Inr (2, 7, k') \<and> proc_inv k' [] (\<lambda>_. []) (\<lambda>_. [])"
  using waitpid_reaps_child [OF demo_inv, of 1 2]
  by (simp add: demo_def demo_task_def the_task_def) (metis fun_upd_triv fun_upd_twist)

subsection \<open>Signals to sleeping tasks\<close>

definition signalled :: "nat \<Rightarrow> int \<Rightarrow> tasks \<Rightarrow> tasks" where
  "signalled t sig = upd t (\<lambda>x. x\<lparr>t_pending := t_pending x OR push_bit (nat (sig - 1)) 1\<rparr>)"

lemma signalled_fields [simp]:
  "t_pid (signalled t sig ts i) = t_pid (ts i)" "t_state (signalled t sig ts i) = t_state (ts i)"
  "t_next (signalled t sig ts i) = t_next (ts i)"
  by (simp_all add: signalled_def upd_apply)

lemma find_pid_cong: "(\<And>i. t_pid (ts' i) = t_pid (ts i)) \<Longrightarrow> task_table_find_task_by_pid ts' pid = task_table_find_task_by_pid ts pid"
  by (simp add: task_table_find_task_by_pid_def)

lemma sched_kill_sleeper:
  assumes "0 < sig" "sig \<le> MAX_SIGNALS" "task_table_find_task_by_pid (k_tasks k) pid = Some t" "t_state (k_tasks k t) = TASK_INTERRUPTIBLE"
    "run_queue_push t (k_rq k, signalled t sig (k_tasks k)) = Inr (rq, ts)"
  shows "sched_kill pid sig k = Inr (0, k\<lparr>k_rq := rq, k_tasks := ts\<rparr>)"
  using assms by (simp add: sched_kill_def sched_enqueue_def updt_def the_task_def signalled_def Let_def)

lemma poll_broken:
  assumes "0 < unat (rq_len rq)" "rq_first rq = None" shows "run_queue_poll (rq, ts) = Inl BadAccess"
  using assms by (auto simp: run_queue_poll_def)

lemma schedule_broken:
  assumes "con_ok (k_con k)" "0 < unat (rq_len (k_rq k))" "rq_first (k_rq k) = None"
  shows "sched_schedule k = Inl BadAccess"
proof -
  obtain cd cn where "sched_tick k = Inr (k\<lparr>k_countdown := cd, k_con := cn\<rparr>)" using sched_tick_ok [OF assms(1)] by blast
  then show ?thesis using poll_broken [OF assms(2,3)] by (simp add: sched_schedule_def)
qed

text \<open>Scheduling with three entries counted of which only the first can be reached.\<close>

lemma schedule_cut_off:
  assumes con: "con_ok (k_con k)" and cur: "k_current k = Some c" "t_state (k_tasks k c) = TASK_RUNNING" "c \<noteq> t" "k_swapper k \<noteq> Some t"
    and rq: "k_rq k = \<lparr> rq_first = Some t, rq_last = Some t, rq_len = 3 \<rparr>" "t_next (k_tasks k t) = None"
  shows "\<exists>k'. sched_schedule k = Inr k' \<and> con_ok (k_con k') \<and> 0 < unat (rq_len (k_rq k')) \<and> rq_first (k_rq k') = None"
proof -
  obtain cd cn where "sched_tick k = Inr (k\<lparr>k_countdown := cd, k_con := cn\<rparr>)" "con_ok cn" using sched_tick_ok [OF con] by blast
  then show ?thesis
    using cur rq
    by (simp add: sched_schedule_def run_queue_poll_def run_queue_push_def updt_def upd_apply sleeping_def switch_to_def Let_def)
qed

text \<open>
  C36: two signals to a sleeping task bring the kernel down. \<open>sched_kill\<close> puts a sleeping task into the
  run queue without taking it out of its wait queue or changing its state, so a second signal puts it
  there again. With two tasks asleep and nothing runnable, signals to the first, the second and the
  first again cut the second off from the queue, and the second call of \<open>sched_schedule\<close> follows a null
  pointer.
\<close>

theorem kill_twice_crashes:
  assumes "sched_inv k [] qs" "con_ok (k_con k)" "running k" "0 < sig" "sig \<le> MAX_SIGNALS" "t \<noteq> u"
    "task_table_find_task_by_pid (k_tasks k) p = Some t" "t_state (k_tasks k t) = TASK_INTERRUPTIBLE"
    "task_table_find_task_by_pid (k_tasks k) q = Some u" "t_state (k_tasks k u) = TASK_INTERRUPTIBLE"
  shows "bindR (sched_kill p sig k) (\<lambda>(_, k1). bindR (sched_kill q sig k1) (\<lambda>(_, k2). bindR (sched_kill p sig k2) (\<lambda>(_, k3).
      bindR (sched_schedule k3) sched_schedule))) = Inl BadAccess"
proof -
  obtain c where c: "k_current k = Some c" "t_state (k_tasks k c) = TASK_RUNNING" using assms(3) by (auto simp: running_def)
  have sw: "k_swapper k \<noteq> Some t" using sched_invD(5) [OF assms(1)] assms(8) by (auto simp: swapper_ok_def)
  have rq: "k_rq k = \<lparr> rq_first = None, rq_last = None, rq_len = 0 \<rparr>"
    using sched_invD(1) [OF assms(1)] by (cases "k_rq k") (simp add: rq_rep_def word_unat_eq_iff)
  define nxt :: "nat option \<Rightarrow> nat \<Rightarrow> tasks \<Rightarrow> tasks" where "nxt v i = upd i (\<lambda>x. x\<lparr>t_next := v\<rparr>)" for v i
  have nx [simp]: "t_pid (nxt v i ts j) = t_pid (ts j)" "t_state (nxt v i ts j) = t_state (ts j)"
    "t_next (nxt v i ts j) = (if j = i then v else t_next (ts j))" for v i ts j by (simp_all add: nxt_def upd_apply)
  let ?ts1 = "nxt None t (signalled t sig (k_tasks k))"
  let ?k1 = "k\<lparr>k_rq := \<lparr> rq_first = Some t, rq_last = Some t, rq_len = 1 \<rparr>, k_tasks := ?ts1\<rparr>"
  let ?ts2 = "nxt (Some u) t (nxt None u (signalled u sig ?ts1))"
  let ?k2 = "k\<lparr>k_rq := \<lparr> rq_first = Some t, rq_last = Some u, rq_len = 2 \<rparr>, k_tasks := ?ts2\<rparr>"
  let ?ts3 = "nxt (Some t) u (nxt None t (signalled t sig ?ts2))"
  let ?k3 = "k\<lparr>k_rq := \<lparr> rq_first = Some t, rq_last = Some t, rq_len = 3 \<rparr>, k_tasks := ?ts3\<rparr>"
  have "sched_kill p sig k = Inr (0, ?k1)"
    by (rule sched_kill_sleeper) (use assms rq in \<open>simp_all add: run_queue_push_def nxt_def\<close>)
  moreover have "sched_kill q sig ?k1 = Inr (0, ?k1\<lparr>k_rq := \<lparr> rq_first = Some t, rq_last = Some u, rq_len = 2 \<rparr>, k_tasks := ?ts2\<rparr>)"
    using assms(9) find_pid_cong [of ?ts1 "k_tasks k" q]
    by (intro sched_kill_sleeper) (use assms(4,5,10) in \<open>simp_all add: run_queue_push_def nxt_def [symmetric]\<close>)
  moreover have "sched_kill p sig ?k2 = Inr (0, ?k2\<lparr>k_rq := \<lparr> rq_first = Some t, rq_last = Some t, rq_len = 3 \<rparr>, k_tasks := ?ts3\<rparr>)"
    using assms(7) find_pid_cong [of ?ts2 "k_tasks k" p]
    by (intro sched_kill_sleeper) (use assms(4,5,8) in \<open>simp_all add: run_queue_push_def nxt_def [symmetric]\<close>)
  moreover have "\<exists>k'. sched_schedule ?k3 = Inr k' \<and> con_ok (k_con k') \<and> 0 < unat (rq_len (k_rq k')) \<and> rq_first (k_rq k') = None"
    by (rule schedule_cut_off [of _ c t]) (use assms c sw in \<open>auto simp: fun_eq_iff\<close>)
  ultimately show ?thesis using schedule_broken by fastforce
qed

text \<open>Two programs asleep: in slots 1 and 2; the swapper runs.\<close>

definition asleep :: kernel where
  "asleep = bss_kernel\<lparr>k_current := Some 0, k_swapper := Some 0, k_con := blank_console, k_tasks := (\<lambda>i.
      if i = 0 then zero_task\<lparr>t_state := TASK_RUNNING\<rparr>
      else if i = 1 \<or> i = 2 then zero_task\<lparr>t_pid := int i, t_state := TASK_INTERRUPTIBLE\<rparr> else zero_task),
    k_wh := wait_queue_add (ChildQ 2) 2 (wait_queue_entry_init 2 (Some 2)
      (wait_queue_add (TtyQ 0) 1 (wait_queue_entry_init 1 (Some 1) (k_wh bss_kernel))))\<rparr>"

lemma asleep_inv: "sched_inv asleep [] ((\<lambda>_. [])(TtyQ 0 := [1], ChildQ 2 := [2]))"
proof -
  have whs: "wh_queues (k_wh asleep) = (\<lambda>q. if q = TtyQ 0 then \<lparr> wq_head = Some 1, wq_tail = Some 1 \<rparr>
      else if q = ChildQ 2 then \<lparr> wq_head = Some 2, wq_tail = Some 2 \<rparr> else \<lparr> wq_head = None, wq_tail = None \<rparr>)"
    "wh_entries (k_wh asleep) = (\<lambda>e. if e = 1 then \<lparr> e_task = Some 1, e_prev = None, e_next = None, e_queue = Some (TtyQ 0) \<rparr>
      else if e = 2 then \<lparr> e_task = Some 2, e_prev = None, e_next = None, e_queue = Some (ChildQ 2) \<rparr>
      else \<lparr> e_task = None, e_prev = None, e_next = None, e_queue = None \<rparr>)"
    by (auto simp: asleep_def bss_kernel_def wait_queue_add_def wait_queue_entry_init_def Let_def fun_eq_iff)
  have "wh_inv (k_wh asleep) ((\<lambda>_. [])(TtyQ 0 := [1], ChildQ 2 := [2]))"
    unfolding wh_inv_def wq_rep_def by (auto simp: whs)
  moreover have "rq_rep (k_rq asleep, k_tasks asleep) []" by (simp add: asleep_def bss_kernel_def run_queue_init_def rq_rep_def)
  moreover have w: "waiting ((\<lambda>_. [])(TtyQ 0 := [1], ChildQ 2 := [2])) = {1, 2}"
    by (auto simp: waiting_def split: if_splits)
  moreover have tk: "t_state (k_tasks asleep i) = (if i = 0 then TASK_RUNNING else if i = 1 \<or> i = 2 then TASK_INTERRUPTIBLE else TASK_ZEROED)" for i
    by (simp add: asleep_def zero_task_def)
  moreover have k: "k_current asleep = Some 0" "k_swapper asleep = Some 0" by (simp_all add: asleep_def)
  moreover have "placed asleep [] ((\<lambda>_. [])(TtyQ 0 := [1], ChildQ 2 := [2])) i" for i
    unfolding placed_def w k sleeping_def tk by simp
  moreover have "swapper_ok asleep [] ((\<lambda>_. [])(TtyQ 0 := [1], ChildQ 2 := [2]))"
    "current_ok asleep [] ((\<lambda>_. [])(TtyQ 0 := [1], ChildQ 2 := [2]))"
    unfolding swapper_ok_def current_ok_def w k sleeping_def tk by simp_all
  ultimately show ?thesis
    unfolding sched_inv_def w sleeping_def tk by (simp add: whs)
qed

theorem kill_twice_crashes_witness:
  "bindR (sched_kill 1 15 asleep) (\<lambda>(_, k1). bindR (sched_kill 2 15 k1) (\<lambda>(_, k2). bindR (sched_kill 1 15 k2) (\<lambda>(_, k3).
      bindR (sched_schedule k3) sched_schedule))) = Inl BadAccess"
proof -
  have pid: "nat (1 AND PID_MASK) = 1" "nat (2 AND PID_MASK) = 2" using pid_slot [of 1] pid_slot [of 2] by simp_all
  show ?thesis
    by (rule kill_twice_crashes [OF asleep_inv, where t = 1 and u = 2])
      (simp_all add: asleep_def con_ok_def blank_console_def running_def MAX_SIGNALS_def task_table_find_task_by_pid_def pid)
qed

end
