(* ===== verification/Vesa.thy ===== *)
theory Vesa
  imports Kstring Console
begin

section \<open>arch/x86/console_vesa.c: the framebuffer console\<close>

text \<open>
  The driver that draws characters into a linear framebuffer of 32-bit pixels. The framebuffer is the
  object its pointer points to, a checked list of words; a scan line is \<open>pitch\<close> bytes, so
  \<open>pitch / 4\<close> words. The font is in the adapter's ROM: \<open>rom a\<close> is the bytes from the physical address
  \<open>a\<close> on. Rows, columns and the cursor are
  C \<open>int\<close>s; products that the C
  code forms in \<open>uint32_t\<close> are words and wrap. Copying \<open>n\<close> bytes between word-aligned places is copying
  \<open>n div 4\<close> words. The kernel registers the VGA driver (theory Console), not this one.
\<close>

record vesa =
  vs_fb :: "u32 list option"
  vs_width :: u32
  vs_height :: u32
  vs_pitch :: u32
  vs_bpp :: u32
  vs_font :: "u8 list"
  vs_fg :: u32
  vs_bg :: u32

record vesa_console =
  ve_cols :: int
  ve_rows :: int
  ve_row :: int
  ve_col :: int
  ve_attr :: u8
  ve_esc :: console_esc_state
  ve_data :: vesa

definition VGA_FONT_ROM_8x16 :: u32 where "VGA_FONT_ROM_8x16 = 0xC0000"
definition FONT_HEIGHT :: nat where "FONT_HEIGHT = 16"
definition FONT_WIDTH :: nat where "FONT_WIDTH = 8"

lemmas font_size = FONT_HEIGHT_def FONT_WIDTH_def

text \<open>The words of a scan line, and the index of pixel \<open>(0, 0)\<close> of a character cell.\<close>

definition line_words :: "vesa \<Rightarrow> u32" where
  "line_words vesa = vs_pitch vesa div 4"

definition cell_index :: "vesa \<Rightarrow> int \<Rightarrow> int \<Rightarrow> nat option" where
  "cell_index vesa x y = do {
     y16 \<leftarrow> chk_int (y * int FONT_HEIGHT);
     x8 \<leftarrow> chk_int (x * int FONT_WIDTH);
     let i = int (unat (word_of_int y16 * line_words vesa)) + x8;
     if i < 0 then None else Some (nat i) }"

definition vesa_load_font :: "(u32 \<Rightarrow> u8 list) \<Rightarrow> vesa \<Rightarrow> vesa" where
  "vesa_load_font rom vesa = vesa\<lparr>vs_font := rom (VGA_FONT_ROM_8x16 + 0x4000)\<rparr>"

text \<open>The two nested loops of \<open>vesa_draw_glyph\<close>.\<close>

primrec glyph_cols :: "vesa \<Rightarrow> nat \<Rightarrow> u8 \<Rightarrow> nat \<Rightarrow> u32 list \<Rightarrow> u32 list option" where
  "glyph_cols vesa 0 bits i fb = Some fb"
| "glyph_cols vesa (Suc k) bits i fb = do {
     fb' \<leftarrow> wr fb i (if bits AND 0x80 \<noteq> 0 then vs_fg vesa else vs_bg vesa);
     glyph_cols vesa k (push_bit 1 bits) (Suc i) fb' }"

primrec glyph_rows :: "vesa \<Rightarrow> nat \<Rightarrow> nat \<Rightarrow> nat \<Rightarrow> nat \<Rightarrow> u32 list \<Rightarrow> u32 list option" where
  "glyph_rows vesa glyph base row 0 fb = Some fb"
| "glyph_rows vesa glyph base row (Suc k) fb = do {
     bits \<leftarrow> rd (vs_font vesa) (glyph + row);
     fb' \<leftarrow> glyph_cols vesa FONT_WIDTH bits (base + unat (of_nat row * line_words vesa)) fb;
     glyph_rows vesa glyph base (Suc row) k fb' }"

definition vesa_draw_glyph :: "vesa \<Rightarrow> int \<Rightarrow> int \<Rightarrow> char \<Rightarrow> vesa option" where
  "vesa_draw_glyph vesa x y c = do {
     fb \<leftarrow> vs_fb vesa;
     base \<leftarrow> cell_index vesa x y;
     fb' \<leftarrow> glyph_rows vesa (code c * FONT_HEIGHT) base 0 FONT_HEIGHT fb;
     Some (vesa\<lparr>vs_fb := Some fb'\<rparr>) }"

text \<open>\<open>fb[i], ..., fb[i + n - 1] = x\<close>\<close>

definition fill_words :: "u32 list \<Rightarrow> nat \<Rightarrow> nat \<Rightarrow> u32 \<Rightarrow> u32 list option" where
  "fill_words fb i n x = memset_loop fb i x n"

definition vesa_scroll :: "vesa_console \<Rightarrow> vesa_console option" where
  "vesa_scroll con = do {
     let vesa = ve_data con;
     fb \<leftarrow> vs_fb vesa;
     let line_bytes = of_nat FONT_HEIGHT * vs_pitch vesa;
     let total_bytes = word_of_int (ve_rows con - 1) * line_bytes;
     fb1 \<leftarrow> k_memmove fb 0 (unat (line_bytes div 4)) (unat total_bytes div 4);
     fb2 \<leftarrow> fill_words fb1 (unat (word_of_int (ve_rows con - 1) * line_bytes div 4)) (unat (line_bytes div 4)) (vs_bg vesa);
     Some (con\<lparr>ve_data := vesa\<lparr>vs_fb := Some fb2\<rparr>, ve_row := ve_rows con - 1, ve_col := 0\<rparr>) }"

definition vesa_clear :: "vesa_console \<Rightarrow> vesa_console option" where
  "vesa_clear con = do {
     let vesa = ve_data con;
     fb \<leftarrow> vs_fb vesa;
     fb1 \<leftarrow> fill_words fb 0 (unat (vs_height vesa * line_words vesa)) (vs_bg vesa);
     Some (con\<lparr>ve_data := vesa\<lparr>vs_fb := Some fb1\<rparr>, ve_row := 0, ve_col := 0, ve_esc := CON_ESC_NONE\<rparr>) }"

primrec cursor_rows :: "vesa \<Rightarrow> nat \<Rightarrow> nat \<Rightarrow> nat \<Rightarrow> u32 list \<Rightarrow> u32 list option" where
  "cursor_rows vesa base row 0 fb = Some fb"
| "cursor_rows vesa base row (Suc k) fb = do {
     fb' \<leftarrow> fill_words fb (base + unat (of_nat row * line_words vesa)) FONT_WIDTH (vs_fg vesa);
     cursor_rows vesa base (Suc row) k fb' }"

definition vesa_update_cursor :: "vesa_console \<Rightarrow> vesa_console option" where
  "vesa_update_cursor con = do {
     let vesa = ve_data con;
     fb \<leftarrow> vs_fb vesa;
     base \<leftarrow> cell_index vesa (ve_col con) (ve_row con);
     fb' \<leftarrow> cursor_rows vesa base (FONT_HEIGHT - 2) 2 fb;
     Some (con\<lparr>ve_data := vesa\<lparr>vs_fb := Some fb'\<rparr>\<rparr>) }"

definition draw_at_cursor :: "vesa_console \<Rightarrow> char \<Rightarrow> vesa_console option" where
  "draw_at_cursor con c = do {
     vesa \<leftarrow> vesa_draw_glyph (ve_data con) (ve_col con) (ve_row con) c;
     Some (con\<lparr>ve_data := vesa\<rparr>) }"

primrec vesa_tab :: "nat \<Rightarrow> vesa_console \<Rightarrow> vesa_console option" where
  "vesa_tab 0 con = Some con"
| "vesa_tab (Suc k) con = do {
     con1 \<leftarrow> draw_at_cursor con (CHR '' '');
     vesa_tab k (con1\<lparr>ve_col := ve_col con1 + 1\<rparr>) }"

text \<open>
  The escape sequences: \<open>Some r\<close> when the byte is part of one, and then \<open>r\<close> is the result of the call.
\<close>

definition vesa_home :: "vesa_console \<Rightarrow> vesa_console" where
  "vesa_home con = con\<lparr>ve_row := 0, ve_col := 0, ve_esc := CON_ESC_NONE\<rparr>"

definition vesa_escape :: "vesa_console \<Rightarrow> char \<Rightarrow> vesa_console option option" where
  "vesa_escape con c =
     (case ve_esc con of
        CON_ESC_NONE \<Rightarrow>
          if code c = 0x1B then Some (Some (con\<lparr>ve_esc := CON_ESC_ESC\<rparr>)) else None
      | CON_ESC_ESC \<Rightarrow>
          if c = CHR ''['' then Some (Some (con\<lparr>ve_esc := CON_ESC_CSI\<rparr>))
          else Some (Some (con\<lparr>ve_esc := CON_ESC_NONE\<rparr>))
      | CON_ESC_CSI \<Rightarrow>
          if c = CHR ''H'' then Some (Some (vesa_home con))
          else if c = CHR ''J'' then Some (vesa_clear (con\<lparr>ve_esc := CON_ESC_NONE\<rparr>))
          else if c = CHR ''0'' then Some (Some (con\<lparr>ve_esc := CON_ESC_CSI_0\<rparr>))
          else if c = CHR ''2'' then Some (Some (con\<lparr>ve_esc := CON_ESC_CSI_2\<rparr>))
          else if c = CHR ''3'' then Some (Some (con\<lparr>ve_esc := CON_ESC_CSI_3\<rparr>))
          else Some (Some (con\<lparr>ve_esc := CON_ESC_CSI_OTHER\<rparr>))
      | CON_ESC_CSI_OTHER \<Rightarrow>
          Some (Some (if 0x40 \<le> code c \<and> code c \<le> 0x7E then con\<lparr>ve_esc := CON_ESC_NONE\<rparr> else con))
      | _ \<Rightarrow>
          if c = CHR ''H'' then Some (Some (vesa_home con))
          else if c = CHR ''J'' then Some (vesa_clear (con\<lparr>ve_esc := CON_ESC_NONE\<rparr>))
          else Some (Some (con\<lparr>ve_esc := CON_ESC_NONE\<rparr>)))"

text \<open>A byte that is shown, up to the test for scrolling; a backspace returns before it (\<open>True\<close>).\<close>

definition vesa_show :: "vesa_console \<Rightarrow> char \<Rightarrow> (bool \<times> vesa_console) option" where
  "vesa_show con c =
     (if c = CHR 0x0A then Some (False, con\<lparr>ve_col := 0, ve_row := ve_row con + 1\<rparr>)
      else if c = CHR 0x0D then Some (False, con\<lparr>ve_col := 0\<rparr>)
      else if c = CHR 0x08 then
        (if ve_col con > 0
         then map_option (Pair True) (draw_at_cursor (con\<lparr>ve_col := ve_col con - 1\<rparr>) (CHR '' ''))
         else if ve_row con > 0
         then map_option (Pair True)
                (draw_at_cursor (con\<lparr>ve_row := ve_row con - 1, ve_col := ve_cols con - 1\<rparr>) (CHR '' ''))
         else Some (True, con))
      else if c = CHR 0x09 then
        (let nxt0 = (ve_col con + 8) AND NOT (8 - 1);
             nxt = (if nxt0 \<ge> ve_cols con then ve_cols con - 1 else nxt0)
         in map_option (Pair False) (vesa_tab (nat (nxt - ve_col con)) con))
      else do {
        con1 \<leftarrow> draw_at_cursor con c;
        let con2 = con1\<lparr>ve_col := ve_col con1 + 1\<rparr>;
        Some (False, if ve_col con2 \<ge> ve_cols con2 then con2\<lparr>ve_col := 0, ve_row := ve_row con2 + 1\<rparr> else con2) })"

definition vesa_put_char :: "vesa_console \<Rightarrow> char \<Rightarrow> vesa_console option" where
  "vesa_put_char con c =
     (case vesa_escape con c of
        Some r \<Rightarrow> r
      | None \<Rightarrow> do {
          (ret, con1) \<leftarrow> vesa_show con c;
          if \<not> ret \<and> ve_row con1 \<ge> ve_rows con1 then vesa_scroll con1 else Some con1 })"

definition vesa_init :: "(u32 \<Rightarrow> u8 list) \<Rightarrow> vesa_console \<Rightarrow> vesa_console res" where
  "vesa_init rom con =
     (let vesa = ve_data con
      in if vs_fb vesa = None \<or> vs_width vesa = 0 \<or> vs_height vesa = 0 \<or> vs_pitch vesa = 0
         then Inl (Panic ''vesa: framebuffer/geometry not provided (need mapped VA + width/height/pitch)'')
         else
           (let vesa1 = (if vs_bpp vesa = 0 then vesa\<lparr>vs_bpp := 32\<rparr> else vesa)
            in if vs_bpp vesa1 \<noteq> 32 then Inl (Panic ''vesa: only 32bpp supported'')
               else of_opt (vesa_clear (con\<lparr>
                      ve_cols := sint (vs_width vesa1 div of_nat FONT_WIDTH),
                      ve_rows := sint (vs_height vesa1 div of_nat FONT_HEIGHT),
                      ve_attr := 0x07, ve_row := 0, ve_col := 0, ve_esc := CON_ESC_NONE,
                      ve_data := vesa_load_font rom (vesa1\<lparr>vs_fg := 0x00FFFFFF, vs_bg := 0\<rparr>)\<rparr>))))"

definition console_register_vesa ::
  "u32 list option \<Rightarrow> u32 \<Rightarrow> u32 \<Rightarrow> u32 \<Rightarrow> u32 \<Rightarrow> vesa_console \<Rightarrow> vesa_console res" where
  "console_register_vesa fb width height pitch bpp con =
     (if fb = None \<or> width = 0 \<or> height = 0 \<or> pitch = 0
      then Inl (Panic ''console_register_vesa: invalid framebuffer/geometry'')
      else Inr (con\<lparr>ve_data := (ve_data con)\<lparr>vs_fb := fb, vs_width := width, vs_height := height, vs_pitch := pitch,
                      vs_bpp := bpp\<rparr>\<rparr>))"

subsection \<open>Drawing a character\<close>

text \<open>What the pixels of a glyph are, and the invariant of the driver.\<close>

definition glyph_pixel :: "vesa \<Rightarrow> char \<Rightarrow> nat \<Rightarrow> nat \<Rightarrow> u32" where
  "glyph_pixel vesa c row col =
     (if bit (vs_font vesa ! (code c * 16 + row)) (7 - col) then vs_fg vesa else vs_bg vesa)"

definition vesa_geom :: "vesa_console \<Rightarrow> bool" where
  "vesa_geom con \<longleftrightarrow>
     (let v = ve_data con; q = unat (vs_pitch v) div 4; h = unat (vs_height v)
      in (\<exists>fb. vs_fb v = Some fb \<and> h * q \<le> length fb) \<and> length (vs_font v) = 4096
        \<and> unat (vs_pitch v) = 4 * q \<and> h * (4 * q) < 4294967296 \<and> unat (vs_width v) \<le> q
        \<and> 16 \<le> h \<and> 8 \<le> unat (vs_width v)
        \<and> ve_cols con = int (unat (vs_width v) div 8) \<and> ve_rows con = int (h div 16))"

definition vesa_ok :: "vesa_console \<Rightarrow> bool" where
  "vesa_ok con \<longleftrightarrow> vesa_geom con \<and> 0 \<le> ve_row con \<and> ve_row con < ve_rows con \<and> 0 \<le> ve_col con \<and> ve_col con < ve_cols con"

lemma glyph_cols_ok:
  assumes "i + k \<le> length fb" "k \<le> 8"
  shows "glyph_cols vesa k bits i fb =
    Some (patch fb i (map (\<lambda>col. if bit bits (7 - col) then vs_fg vesa else vs_bg vesa) [0..<k]))"
  using assms
proof (induction k arbitrary: bits i fb)
  case (Suc k)
  have top: "bits AND 0x80 \<noteq> 0 \<longleftrightarrow> bit bits 7"
  proof -
    have "(0x80 :: u8) = 2 ^ 7" by simp
    then show ?thesis by (simp only: and_exp_eq_0_iff_not_bit not_not)
  qed
  have rest: "(if bit (push_bit 1 bits) (7 - col) then vs_fg vesa else vs_bg vesa)
      = (if bit bits (7 - Suc col) then vs_fg vesa else vs_bg vesa)" if "col < k" for col
  proof -
    have "bit (push_bit 1 bits) (7 - col) \<longleftrightarrow> bit bits (7 - Suc col)"
    proof -
      have "1 \<le> 7 - col" "7 - col < LENGTH(8)" using that Suc.prems(2) by simp_all
      then show ?thesis by (simp only: bit_push_bit_iff) simp
    qed
    then show ?thesis by (simp only:)
  qed
  have "map (\<lambda>col. if bit bits (7 - col) then vs_fg vesa else vs_bg vesa) [0..<Suc k] =
      (if bit bits 7 then vs_fg vesa else vs_bg vesa)
      # map (\<lambda>col. if bit (push_bit 1 bits) (7 - col) then vs_fg vesa else vs_bg vesa) [0..<k]"
    using rest by (simp add: upt_conv_Cons map_Suc_upt [symmetric] del: upt_Suc)
  with Suc top show ?case by (simp add: wr_in patch_Cons del: upt_Suc)
qed simp

text \<open>\<open>cells base q row k\<close>: the words of the rows \<open>row, \<dots>, row + k - 1\<close> of the cell at \<open>base\<close>.\<close>

definition cells :: "nat \<Rightarrow> nat \<Rightarrow> nat \<Rightarrow> nat \<Rightarrow> nat set" where
  "cells base q row k = {base + r * q + col |r col. row \<le> r \<and> r < row + k \<and> col < 8}"

lemma cells_0 [simp]: "cells base q row 0 = {}"
  by (auto simp: cells_def)

lemma cells_Suc: "cells base q row (Suc k) = {base + row * q ..< base + row * q + 8} \<union> cells base q (Suc row) k"
proof
  show "cells base q row (Suc k) \<subseteq> {base + row * q ..< base + row * q + 8} \<union> cells base q (Suc row) k"
  proof
    fix i assume "i \<in> cells base q row (Suc k)"
    then obtain r col where i: "i = base + r * q + col" "row \<le> r" "r < row + Suc k" "col < 8" by (auto simp: cells_def)
    show "i \<in> {base + row * q ..< base + row * q + 8} \<union> cells base q (Suc row) k"
    proof (cases "r = row")
      case False
      then have "Suc row \<le> r" "r < Suc row + k" using i by simp_all
      with i show ?thesis unfolding cells_def by blast
    qed (use i in simp)
  qed
  show "{base + row * q ..< base + row * q + 8} \<union> cells base q (Suc row) k \<subseteq> cells base q row (Suc k)"
  proof
    fix i assume "i \<in> {base + row * q ..< base + row * q + 8} \<union> cells base q (Suc row) k"
    then consider "i \<in> {base + row * q ..< base + row * q + 8}" | "i \<in> cells base q (Suc row) k" by blast
    then show "i \<in> cells base q row (Suc k)"
    proof cases
      case 1
      then have "i = base + row * q + (i - (base + row * q))" "i - (base + row * q) < 8" by auto
      then show ?thesis unfolding cells_def
        by (intro CollectI exI [of _ row] exI [of _ "i - (base + row * q)"]) auto
    next
      case 2
      then show ?thesis by (force simp: cells_def)
    qed
  qed
qed

lemma row_before_cells: "8 \<le> q \<Longrightarrow> i < base + row * q + 8 \<Longrightarrow> i \<notin> cells base q (Suc row) k"
proof
  assume a: "8 \<le> q" "i < base + row * q + 8" "i \<in> cells base q (Suc row) k"
  then obtain r col where r: "i = base + r * q + col" "Suc row \<le> r" by (auto simp: cells_def)
  have "Suc row * q \<le> r * q" using r(2) by (rule mult_le_mono1)
  with a r show False by simp
qed

lemma glyph_rows_ok:
  assumes "8 \<le> q" "base + (row + k - 1) * q + 8 \<le> length fb" "row + k \<le> 16" "glyph + 16 \<le> length (vs_font vesa)"
    and "unat (line_words vesa) = q" "16 * q < 4294967296"
  shows "\<exists>fb'. glyph_rows vesa glyph base row k fb = Some fb' \<and> length fb' = length fb
    \<and> (\<forall>r col. row \<le> r \<and> r < row + k \<and> col < 8 \<longrightarrow>
         fb' ! (base + r * q + col) = (if bit (vs_font vesa ! (glyph + r)) (7 - col) then vs_fg vesa else vs_bg vesa))
    \<and> (\<forall>i. i \<notin> cells base q row k \<longrightarrow> fb' ! i = fb ! i)"
  using assms(2,3)
proof (induction k arbitrary: row fb)
  case (Suc k)
  let ?bits = "vs_font vesa ! (glyph + row)"
  let ?px = "map (\<lambda>col. if bit ?bits (7 - col) then vs_fg vesa else vs_bg vesa) [0..<8]"
  let ?fb = "patch fb (base + row * q) ?px"
  have off: "unat (of_nat row * line_words vesa) = row * q"
  proof -
    have le: "row * q \<le> 16 * q" using Suc.prems(2) by (intro mult_le_mono1) simp
    have "unat (of_nat row :: u32) = row" using Suc.prems(2) by (simp add: unat_of_nat)
    then show ?thesis using unat_times [of "of_nat row" "line_words vesa"] assms(5,6) le by simp
  qed
  have fit: "base + row * q + 8 \<le> length fb"
  proof -
    have "row * q \<le> (row + Suc k - 1) * q" by (intro mult_le_mono1) simp
    then show ?thesis using Suc.prems(1) by linarith
  qed
  have step: "glyph_rows vesa glyph base row (Suc k) fb = glyph_rows vesa glyph base (Suc row) k ?fb"
    using Suc.prems(2) assms(4) fit by (simp add: rd_in off FONT_WIDTH_def glyph_cols_ok del: upt_Suc)
  obtain fb' where fb': "glyph_rows vesa glyph base (Suc row) k ?fb = Some fb'" "length fb' = length ?fb"
    "\<And>r col. Suc row \<le> r \<Longrightarrow> r < Suc row + k \<Longrightarrow> col < 8 \<Longrightarrow>
       fb' ! (base + r * q + col) = (if bit (vs_font vesa ! (glyph + r)) (7 - col) then vs_fg vesa else vs_bg vesa)"
    "\<And>i. i \<notin> cells base q (Suc row) k \<Longrightarrow> fb' ! i = ?fb ! i"
  proof (cases "k = 0")
    case True
    then show ?thesis using that [of ?fb] by simp
  next
    case False
    then have "base + (Suc row + k - 1) * q + 8 \<le> length ?fb" "Suc row + k \<le> 16" using Suc.prems fit by simp_all
    from Suc.IH [OF this] show ?thesis using that by metis
  qed
  have here: "fb' ! (base + row * q + col) = (if bit ?bits (7 - col) then vs_fg vesa else vs_bg vesa)" if "col < 8" for col
    using fb'(4) row_before_cells [OF assms(1), of "base + row * q + col" base row k] fit that
    by (simp add: nth_patch del: upt_Suc)
  have all: "fb' ! (base + r * q + col) = (if bit (vs_font vesa ! (glyph + r)) (7 - col) then vs_fg vesa else vs_bg vesa)"
    if "row \<le> r" "r < row + Suc k" "col < 8" for r col
    using here [OF that(3)] fb'(3) [of r col] that by (cases "r = row") auto
  have rest: "fb' ! i = fb ! i" if "i \<notin> cells base q row (Suc k)" for i
  proof -
    have "i \<notin> cells base q (Suc row) k" "\<not> (base + row * q \<le> i \<and> i < base + row * q + 8)"
      using that by (auto simp: cells_Suc)
    then show ?thesis using fb'(4) fit by (cases "i < length fb") (auto simp: nth_patch patch_def nth_append not_less simp del: upt_Suc)
  qed
  show ?case using step fb'(1,2) fit all rest by auto
next
  case 0
  have "glyph_rows vesa glyph base row 0 fb = Some fb" by simp
  then show ?case by (intro exI [of _ fb]) (auto simp del: glyph_rows.simps)
qed

text \<open>What the invariant gives: the geometry as natural numbers.\<close>

lemma line_words_unat: "unat (line_words v) = unat (vs_pitch v) div 4"
  by (simp add: line_words_def unat_div)

lemma vesa_geomE:
  assumes "vesa_geom con"
  obtains fb q h w where "vs_fb (ve_data con) = Some fb" "h * q \<le> length fb" "length (vs_font (ve_data con)) = 4096"
    "unat (line_words (ve_data con)) = q" "unat (vs_pitch (ve_data con)) = 4 * q" "unat (vs_height (ve_data con)) = h"
    "unat (vs_width (ve_data con)) = w" "h * q < 1073741824" "w \<le> q" "8 \<le> w" "8 \<le> q" "16 \<le> h"
    "ve_cols con = int (w div 8)" "ve_rows con = int (h div 16)"
proof -
  let ?v = "ve_data con"
  define q h w where d: "q = unat (vs_pitch ?v) div 4" "h = unat (vs_height ?v)" "w = unat (vs_width ?v)"
  note o = assms[unfolded vesa_geom_def Let_def, folded d]
  obtain fb where fb: "vs_fb ?v = Some fb" "h * q \<le> length fb" using o by blast
  have "h * q < 1073741824" using o by simp
  moreover have "length (vs_font ?v) = 4096" "unat (vs_pitch ?v) = 4 * q" "ve_cols con = int (w div 8)" "ve_rows con = int (h div 16)"
    "16 \<le> h" "8 \<le> w" "w \<le> q"
    using o by blast+
  moreover have "unat (line_words ?v) = q" "unat (vs_height ?v) = h" "unat (vs_width ?v) = w" by (simp_all only: line_words_unat d)
  moreover have "8 \<le> q" using \<open>8 \<le> w\<close> \<open>w \<le> q\<close> by (rule order_trans)
  ultimately show ?thesis using that fb by blast
qed

lemma vesa_geom_fb:
  assumes "vesa_geom con" "vs_fb (ve_data con) = Some fb" "length fb' = length fb"
  shows "vesa_geom (con\<lparr>ve_data := (ve_data con)\<lparr>vs_fb := Some fb'\<rparr>\<rparr>)"
  using assms by (simp add: vesa_geom_def Let_def)

lemma vesa_geom_cursor [simp]:
  "vesa_geom (con\<lparr>ve_row := r\<rparr>) = vesa_geom con" "vesa_geom (con\<lparr>ve_col := c\<rparr>) = vesa_geom con"
  "vesa_geom (con\<lparr>ve_esc := e\<rparr>) = vesa_geom con"
  by (simp_all add: vesa_geom_def)

lemma cell_index_ok:
  assumes "unat (line_words v) = q" "h * q < 1073741824" "8 \<le> q" "w \<le> q" "16 \<le> h"
    and "y < h div 16" "x < w div 8"
  shows "cell_index v (int x) (int y) = Some (y * 16 * q + x * 8)" "y * 16 * q + x * 8 + 15 * q + 8 \<le> h * q"
proof -
  have y: "y * 16 + 16 \<le> h" using assms(6) by (metis Suc_leI less_eq_div_iff_mult_less_eq mult_Suc add.commute zero_less_numeral)
  have x: "x * 8 + 8 \<le> w" using assms(7) by (metis Suc_leI less_eq_div_iff_mult_less_eq mult_Suc add.commute zero_less_numeral)
  have hq: "(y * 16 + 16) * q \<le> h * q" using y by (rule mult_le_mono1)
  then show "y * 16 * q + x * 8 + 15 * q + 8 \<le> h * q" using x assms(4) by (simp add: algebra_simps)
  have h8: "h * 8 \<le> h * q" using assms(3) by simp
  have q16: "16 * q \<le> h * q" using assms(5) by (rule mult_le_mono1)
  have small: "y * 16 < 134217728" "x * 8 < 134217728" "y * 16 * q < 1073741824"
  proof -
    have "h < 134217728" using h8 assms(2) by linarith
    then show "y * 16 < 134217728" using y by linarith
    have "q < 67108864" using q16 assms(2) by linarith
    then show "x * 8 < 134217728" using x assms(4) by linarith
    show "y * 16 * q < 1073741824" using hq assms(2) by (simp add: algebra_simps)
  qed
  have "unat (word_of_int (int y * 16) :: u32) = y * 16"
  proof -
    have "(word_of_int (int y * 16) :: u32) = of_nat (y * 16)" by simp
    then show ?thesis using small(1) by (simp only: unat_of_nat) simp
  qed
  then have "unat (word_of_int (int y * 16) * line_words v) = y * 16 * q"
    using unat_times [of "word_of_int (int y * 16)" "line_words v"] small(3) assms(1) by simp
  then have i: "int (unat (word_of_int (int y * 16) * line_words v)) + int x * 8 = int (y * 16 * q + x * 8)"
    by (simp only: of_nat_add of_nat_mult of_nat_numeral)
  have chk: "chk_int (int y * int FONT_HEIGHT) = Some (int y * 16)" "chk_int (int x * int FONT_WIDTH) = Some (int x * 8)"
    using small(1,2) by (simp_all add: chk_int_def INT_MIN_def INT_MAX_def font_size)
  show "cell_index v (int x) (int y) = Some (y * 16 * q + x * 8)"
    unfolding cell_index_def chk Let_def bind.bind_lunit i by (simp del: of_nat_add of_nat_mult)
qed

text \<open>Drawing: the glyph's pixels, and everything outside the cell unchanged.\<close>

lemma vesa_draw_glyph_ok:
  assumes "vs_fb v = Some fb" "h * q \<le> length fb" "length (vs_font v) = 4096"
    and "unat (line_words v) = q" "h * q < 1073741824" "8 \<le> q" "w \<le> q" "16 \<le> h"
    and "y < h div 16" "x < w div 8"
  shows "\<exists>fb'. vesa_draw_glyph v (int x) (int y) c = Some (v\<lparr>vs_fb := Some fb'\<rparr>) \<and> length fb' = length fb
    \<and> (\<forall>r col. r < 16 \<and> col < 8 \<longrightarrow> fb' ! ((y * 16 + r) * q + x * 8 + col) = glyph_pixel v c r col)
    \<and> (\<forall>i. i \<notin> cells (y * 16 * q + x * 8) q 0 16 \<longrightarrow> fb' ! i = fb ! i)"
proof -
  let ?base = "y * 16 * q + x * 8"
  have c: "cell_index v (int x) (int y) = Some ?base" "?base + 15 * q + 8 \<le> h * q"
    using cell_index_ok [of v q h w y x] assms by simp_all
  have q16: "16 * q < 4294967296" using mult_le_mono1 [OF assms(8), of q] assms(5) by linarith
  have font: "code c * 16 + 16 \<le> length (vs_font v)"
  proof -
    have "Suc (code c) * 16 \<le> 256 * 16" using code_less [of c] by (intro mult_le_mono1) (rule Suc_leI)
    then show ?thesis by (simp add: assms(3))
  qed
  obtain fb' where fb': "glyph_rows v (code c * 16) ?base 0 16 fb = Some fb'" "length fb' = length fb"
    "\<forall>r col. 0 \<le> r \<and> r < 0 + 16 \<and> col < 8 \<longrightarrow> fb' ! (?base + r * q + col) =
       (if bit (vs_font v ! (code c * 16 + r)) (7 - col) then vs_fg v else vs_bg v)"
    "\<forall>i. i \<notin> cells ?base q 0 16 \<longrightarrow> fb' ! i = fb ! i"
    using glyph_rows_ok [of q ?base 0 16 fb "code c * 16" v] assms(2,4,6) c(2) q16 font by auto
  have "vesa_draw_glyph v (int x) (int y) c = Some (v\<lparr>vs_fb := Some fb'\<rparr>)"
    using fb'(1) by (simp add: vesa_draw_glyph_def assms(1) c(1) FONT_HEIGHT_def)
  moreover have "fb' ! ((y * 16 + r) * q + x * 8 + col) = glyph_pixel v c r col" if "r < 16" "col < 8" for r col
  proof -
    have i: "(y * 16 + r) * q + x * 8 + col = ?base + r * q + col" by (simp add: algebra_simps)
    show ?thesis unfolding i glyph_pixel_def using fb'(3) that by simp
  qed
  ultimately show ?thesis using fb'(2,4) by blast
qed

subsection \<open>The driver stays inside the framebuffer\<close>

text \<open>\<open>same_frame con con'\<close>: the sizes did not change.\<close>

definition same_frame :: "vesa_console \<Rightarrow> vesa_console \<Rightarrow> bool" where
  "same_frame con con' \<longleftrightarrow> ve_cols con' = ve_cols con \<and> ve_rows con' = ve_rows con"

lemma draw_at_cursor_ok:
  assumes "vesa_ok con"
  shows "\<exists>con'. draw_at_cursor con c = Some con' \<and> vesa_ok con' \<and> same_frame con con'
    \<and> ve_row con' = ve_row con \<and> ve_col con' = ve_col con"
proof -
  have g: "vesa_geom con" using assms by (simp add: vesa_ok_def)
  obtain fb q h w where o: "vs_fb (ve_data con) = Some fb" "h * q \<le> length fb" "length (vs_font (ve_data con)) = 4096"
    "unat (line_words (ve_data con)) = q" "h * q < 1073741824" "8 \<le> q" "w \<le> q" "16 \<le> h"
    "ve_cols con = int (w div 8)" "ve_rows con = int (h div 16)"
    using vesa_geomE [OF g] by metis
  obtain x y where xy: "ve_col con = int x" "ve_row con = int y" using assms unfolding vesa_ok_def by (metis nonneg_int_cases)
  have lt: "y < h div 16" "x < w div 8" using assms o(9,10) xy by (simp_all add: vesa_ok_def)
  obtain fb' where fb': "vesa_draw_glyph (ve_data con) (int x) (int y) c = Some ((ve_data con)\<lparr>vs_fb := Some fb'\<rparr>)"
    "length fb' = length fb"
    using vesa_draw_glyph_ok [OF o(1-8) lt] by blast
  have "draw_at_cursor con c = Some (con\<lparr>ve_data := (ve_data con)\<lparr>vs_fb := Some fb'\<rparr>\<rparr>)"
    by (simp add: draw_at_cursor_def xy fb'(1))
  moreover have "vesa_geom (con\<lparr>ve_data := (ve_data con)\<lparr>vs_fb := Some fb'\<rparr>\<rparr>)" by (rule vesa_geom_fb [OF g o(1) fb'(2)])
  ultimately show ?thesis using assms by (simp add: vesa_ok_def same_frame_def)
qed

lemma vesa_clear_ok:
  assumes "vesa_geom con"
  shows "\<exists>con'. vesa_clear con = Some con' \<and> vesa_ok con' \<and> same_frame con con'"
proof -
  obtain fb q h w where o: "vs_fb (ve_data con) = Some fb" "h * q \<le> length fb" "unat (line_words (ve_data con)) = q"
    "unat (vs_height (ve_data con)) = h" "h * q < 1073741824" "8 \<le> w" "16 \<le> h" "ve_cols con = int (w div 8)" "ve_rows con = int (h div 16)"
    using vesa_geomE [OF assms] by metis
  have n: "unat (vs_height (ve_data con) * line_words (ve_data con)) = h * q"
    using unat_times [of "vs_height (ve_data con)" "line_words (ve_data con)"] o(3-5) by simp
  let ?fb = "patch fb 0 (replicate (h * q) (vs_bg (ve_data con)))"
  let ?con = "con\<lparr>ve_data := (ve_data con)\<lparr>vs_fb := Some ?fb\<rparr>, ve_row := 0, ve_col := 0, ve_esc := CON_ESC_NONE\<rparr>"
  have "vesa_clear con = Some ?con"
    using o(2) by (simp add: vesa_clear_def Let_def o(1) fill_words_def n memset_loop_ok)
  moreover have "vesa_geom (con\<lparr>ve_data := (ve_data con)\<lparr>vs_fb := Some ?fb\<rparr>\<rparr>)"
    using o(2) by (intro vesa_geom_fb [OF assms o(1)]) simp
  moreover have "0 < w div 8" "0 < h div 16" using o(6,7) by (simp_all add: div_greater_zero_iff)
  ultimately show ?thesis using o(8,9) by (simp add: vesa_ok_def same_frame_def)
qed

lemma vesa_scroll_ok:
  assumes "vesa_geom con"
  shows "\<exists>con'. vesa_scroll con = Some con' \<and> vesa_ok con' \<and> same_frame con con'"
proof -
  obtain fb q h w where o: "vs_fb (ve_data con) = Some fb" "h * q \<le> length fb" "unat (vs_pitch (ve_data con)) = 4 * q"
    "h * q < 1073741824" "8 \<le> w" "16 \<le> h" "ve_cols con = int (w div 8)" "ve_rows con = int (h div 16)"
    "unat (vs_height (ve_data con)) = h"
    using vesa_geomE [OF assms] by metis
  define n where "n = h div 16"
  have n: "0 < n" "n * 16 \<le> h" using o(6) by (simp_all add: n_def div_greater_zero_iff)
  let ?v = "ve_data con"
  let ?line = "of_nat FONT_HEIGHT * vs_pitch ?v"
  have m: "n * (16 * q) \<le> h * q" using mult_le_mono1 [OF n(2), of q] by (simp add: mult.assoc)
  then have fit: "n * (16 * q) \<le> length fb" "n * (64 * q) < 4294967296" using o(2,4) by linarith+
  have one: "64 * q \<le> n * (64 * q)" using n(1) by simp
  have line: "unat ?line = 64 * q"
    using unat_times [of "of_nat FONT_HEIGHT" "vs_pitch ?v"] o(3) one fit(2) by (simp add: FONT_HEIGHT_def)
  have rows: "word_of_int (ve_rows con - 1) = (of_nat (n - 1) :: u32)"
    using n(1) o(8) by (simp add: n_def of_nat_diff)
  have "n < 4294967296" using n(2) o(9) unat_lt_2_32 [of "vs_height ?v"] by linarith
  then have un: "unat (of_nat (n - 1) :: u32) = n - 1" by (simp add: unat_of_nat)
  have le: "(n - 1) * (64 * q) \<le> n * (64 * q)" by (intro mult_le_mono1) simp
  have lt: "(n - 1) * (64 * q) < 4294967296" using le fit(2) by (rule le_less_trans)
  have total: "unat (of_nat (n - 1) * ?line) = (n - 1) * (64 * q)"
    using unat_times [of "of_nat (n - 1)" ?line] lt unfolding un line by simp
  have d: "(n - 1) * (64 * q) div 4 = (n - 1) * (16 * q)"
  proof -
    have "(n - 1) * (64 * q) = (n - 1) * (16 * q) * 4" by simp
    then show ?thesis by simp
  qed
  have steps: "unat (?line div 4) = 16 * q" "unat (of_nat (n - 1) * ?line) div 4 = (n - 1) * (16 * q)"
    "unat (of_nat (n - 1) * ?line div 4) = (n - 1) * (16 * q)"
    by (simp_all only: unat_div unat_numeral line total d) simp_all
  have sum: "16 * q + (n - 1) * (16 * q) = n * (16 * q)" using n(1) by (cases n) simp_all
  let ?fb1 = "patch fb 0 (take ((n - 1) * (16 * q)) (drop (16 * q) fb))"
  have mv: "k_memmove fb 0 (16 * q) ((n - 1) * (16 * q)) = Some ?fb1"
    using k_memmove_ok [of 0 "(n - 1) * (16 * q)" fb "16 * q"] fit(1) sum by simp
  have l1: "length ?fb1 = length fb" using fit(1) sum by (intro length_patch) simp
  let ?fb2 = "patch ?fb1 ((n - 1) * (16 * q)) (replicate (16 * q) (vs_bg ?v))"
  have fl: "fill_words ?fb1 ((n - 1) * (16 * q)) (16 * q) (vs_bg ?v) = Some ?fb2"
    unfolding fill_words_def using l1 fit(1) sum by (intro memset_loop_ok) simp
  have l2: "length ?fb2 = length fb" using l1 fit(1) sum by simp
  have "vesa_scroll con = Some (con\<lparr>ve_data := ?v\<lparr>vs_fb := Some ?fb2\<rparr>, ve_row := ve_rows con - 1, ve_col := 0\<rparr>)"
    unfolding vesa_scroll_def Let_def rows steps o(1) by (simp only: bind.bind_lunit mv fl)
  moreover have "vesa_geom (con\<lparr>ve_data := ?v\<lparr>vs_fb := Some ?fb2\<rparr>\<rparr>)" by (rule vesa_geom_fb [OF assms o(1) l2])
  moreover have "0 < w div 8" "0 < h div 16" using o(5,6) by (simp_all add: div_greater_zero_iff)
  ultimately show ?thesis using o(7,8) by (simp add: vesa_ok_def same_frame_def)
qed

lemma vesa_tab_ok:
  assumes "vesa_ok con" "ve_col con + int k < ve_cols con"
  shows "\<exists>con'. vesa_tab k con = Some con' \<and> vesa_ok con' \<and> same_frame con con'"
  using assms
proof (induction k arbitrary: con)
  case (Suc k)
  obtain con1 where c1: "draw_at_cursor con (CHR '' '') = Some con1" "vesa_ok con1" "same_frame con con1"
    "ve_col con1 = ve_col con"
    using draw_at_cursor_ok [OF Suc.prems(1)] by blast
  let ?con2 = "con1\<lparr>ve_col := ve_col con1 + 1\<rparr>"
  have c2: "vesa_ok ?con2" "ve_col ?con2 + int k < ve_cols ?con2"
    using c1 Suc.prems(2) by (auto simp: vesa_ok_def same_frame_def)
  from Suc.IH [OF this] c1 show ?case by (simp add: same_frame_def)
qed (simp add: same_frame_def)

text \<open>After a byte is shown the cursor may be one row below the screen.\<close>

lemma vesa_show_ok:
  assumes "vesa_ok con"
  shows "\<exists>ret con'. vesa_show con c = Some (ret, con') \<and> vesa_geom con' \<and> (ve_row con' < ve_rows con' \<longrightarrow> vesa_ok con')
    \<and> (ret \<longrightarrow> vesa_ok con')"
proof -
  have g: "vesa_geom con" and b: "0 \<le> ve_row con" "ve_row con < ve_rows con" "0 \<le> ve_col con" "ve_col con < ve_cols con"
    using assms by (simp_all add: vesa_ok_def)
  consider "c = CHR 0x0A" | "c = CHR 0x0D" | "c = CHR 0x08" | "c = CHR 0x09"
    | "c \<noteq> CHR 0x0A" "c \<noteq> CHR 0x0D" "c \<noteq> CHR 0x08" "c \<noteq> CHR 0x09" by blast
  then show ?thesis
  proof cases
    case 1
    then have "vesa_show con c = Some (False, con\<lparr>ve_col := 0, ve_row := ve_row con + 1\<rparr>)" by (simp add: vesa_show_def)
    then show ?thesis using g b by (intro exI [of _ False]) (simp add: vesa_ok_def)
  next
    case 2
    then have "vesa_show con c = Some (False, con\<lparr>ve_col := 0\<rparr>)" by (simp add: vesa_show_def)
    then show ?thesis using g b by (intro exI [of _ False]) (simp add: vesa_ok_def)
  next
    case 3
    have l: "vesa_ok (con\<lparr>ve_col := ve_col con - 1\<rparr>)" if "0 < ve_col con" using that g b by (simp add: vesa_ok_def)
    have u: "vesa_ok (con\<lparr>ve_row := ve_row con - 1, ve_col := ve_cols con - 1\<rparr>)" if "0 < ve_row con"
      using that g b by (simp add: vesa_ok_def)
    show ?thesis
      using draw_at_cursor_ok [OF l, of "CHR '' ''"] draw_at_cursor_ok [OF u, of "CHR '' ''"] assms g 3
      by (fastforce simp: vesa_show_def vesa_ok_def)
  next
    case 4
    define nxt where "nxt = (let nxt0 = (ve_col con + 8) AND NOT (8 - 1) in if nxt0 \<ge> ve_cols con then ve_cols con - 1 else nxt0)"
    have "ve_col con + int (nat (nxt - ve_col con)) < ve_cols con" using b by (auto simp: nxt_def Let_def)
    from vesa_tab_ok [OF assms this] obtain con' where "vesa_tab (nat (nxt - ve_col con)) con = Some con'" "vesa_ok con'" by blast
    moreover have "vesa_show con c = map_option (Pair False) (vesa_tab (nat (nxt - ve_col con)) con)"
      by (simp add: vesa_show_def 4 nxt_def Let_def)
    ultimately show ?thesis by (auto simp: vesa_ok_def)
  next
    case 5
    obtain con1 where c1: "draw_at_cursor con c = Some con1" "vesa_ok con1"
      using draw_at_cursor_ok [OF assms] by blast
    let ?con2 = "con1\<lparr>ve_col := ve_col con1 + 1\<rparr>"
    let ?con3 = "if ve_col ?con2 \<ge> ve_cols ?con2 then ?con2\<lparr>ve_col := 0, ve_row := ve_row ?con2 + 1\<rparr> else ?con2"
    have "vesa_show con c = Some (False, ?con3)" using 5 by (simp add: vesa_show_def c1(1) Let_def)
    moreover have "vesa_geom ?con3 \<and> (ve_row ?con3 < ve_rows ?con3 \<longrightarrow> vesa_ok ?con3)"
      using c1(2) by (auto simp: vesa_ok_def)
    ultimately show ?thesis by blast
  qed
qed

lemma vesa_escape_ok:
  assumes "vesa_ok con" "vesa_escape con c = Some r"
  shows "\<exists>con'. r = Some con' \<and> vesa_ok con'"
proof -
  have g: "vesa_geom con" and b: "0 < ve_rows con" "0 < ve_cols con" using assms(1) by (simp_all add: vesa_ok_def)
  have e: "vesa_ok (con\<lparr>ve_esc := e\<rparr>)" for e using assms(1) by (simp add: vesa_ok_def)
  have h: "vesa_ok (vesa_home con)" using g b by (simp add: vesa_home_def vesa_ok_def)
  obtain con' where cl: "vesa_clear (con\<lparr>ve_esc := CON_ESC_NONE\<rparr>) = Some con'" "vesa_ok con'"
    using vesa_clear_ok [of "con\<lparr>ve_esc := CON_ESC_NONE\<rparr>"] g by auto
  show ?thesis
    using assms e h cl(2) unfolding vesa_escape_def cl(1) by (cases "ve_esc con") (auto split: if_splits)
qed

lemma vesa_put_char_ok:
  assumes "vesa_ok con"
  shows "\<exists>con'. vesa_put_char con c = Some con' \<and> vesa_ok con'"
proof (cases "vesa_escape con c")
  case (Some r)
  then show ?thesis using vesa_escape_ok [OF assms Some] by (simp add: vesa_put_char_def)
next
  case None
  obtain ret con1 where s: "vesa_show con c = Some (ret, con1)" "vesa_geom con1" "ve_row con1 < ve_rows con1 \<longrightarrow> vesa_ok con1"
    "ret \<longrightarrow> vesa_ok con1"
    using vesa_show_ok [OF assms] by metis
  then show ?thesis using None vesa_scroll_ok [OF s(2)] by (auto simp: vesa_put_char_def)
qed

text \<open>The cell of the cursor.\<close>

lemma cursor_cell:
  assumes "vesa_ok con"
  shows "\<exists>fb q h x y. vs_fb (ve_data con) = Some fb \<and> h * q \<le> length fb \<and> unat (line_words (ve_data con)) = q
    \<and> 16 \<le> h \<and> h * q < 1073741824
    \<and> cell_index (ve_data con) (ve_col con) (ve_row con) = Some (y * 16 * q + x * 8)
    \<and> y * 16 * q + x * 8 + 15 * q + 8 \<le> h * q"
proof -
  have g: "vesa_geom con" using assms by (simp add: vesa_ok_def)
  obtain fb q h w where o: "vs_fb (ve_data con) = Some fb" "h * q \<le> length fb" "unat (line_words (ve_data con)) = q"
    "h * q < 1073741824" "8 \<le> q" "w \<le> q" "16 \<le> h" "ve_cols con = int (w div 8)" "ve_rows con = int (h div 16)"
    using vesa_geomE [OF g] by metis
  obtain x y where xy: "ve_col con = int x" "ve_row con = int y" using assms unfolding vesa_ok_def by (metis nonneg_int_cases)
  have lt: "y < h div 16" "x < w div 8" using assms o(8,9) xy by (simp_all add: vesa_ok_def)
  show ?thesis using o(1-4,7) cell_index_ok [OF o(3-7) lt] unfolding xy by blast
qed

lemma vesa_update_cursor_ok:
  assumes "vesa_ok con"
  shows "\<exists>con'. vesa_update_cursor con = Some con' \<and> vesa_ok con'"
proof -
  obtain fb q h w x y where s: "vs_fb (ve_data con) = Some fb" "h * q \<le> length fb" "unat (line_words (ve_data con)) = q"
    "16 \<le> h" "h * q < 1073741824" "cell_index (ve_data con) (ve_col con) (ve_row con) = Some (y * 16 * q + x * 8)"
    "y * 16 * q + x * 8 + 15 * q + 8 \<le> h * q"
    using cursor_cell [OF assms] by metis
  let ?base = "y * 16 * q + x * 8"
  have q16: "16 * q \<le> h * q" using s(4) by (rule mult_le_mono1)
  have row: "unat (of_nat r * line_words (ve_data con)) = r * q" if "r < 16" for r
  proof -
    have "r * q \<le> 16 * q" using that by (intro mult_le_mono1) simp
    then have "r * q < 4294967296" using q16 s(5) by linarith
    then have "unat (of_nat r :: u32) * unat (line_words (ve_data con)) < 4294967296"
      using that s(3) by (simp add: unat_of_nat)
    then show ?thesis using unat_times [of "of_nat r" "line_words (ve_data con)"] that s(3) by (simp add: unat_of_nat)
  qed
  have fill: "fill_words b (?base + r * q) 8 x = Some (patch b (?base + r * q) (replicate 8 x))"
    if "r \<le> 15" "length b = length fb" for b r x
  proof -
    have "r * q \<le> 15 * q" using that(1) by (rule mult_le_mono1)
    then show ?thesis using s(2,7) that(2) unfolding fill_words_def by (intro memset_loop_ok) linarith
  qed
  have len: "length (patch b (?base + r * q) (replicate 8 x)) = length fb" if "r \<le> 15" "length b = length fb" for b r x
  proof -
    have "r * q \<le> 15 * q" using that(1) by (rule mult_le_mono1)
    then have "?base + r * q + 8 \<le> length b" using s(2,7) that(2) by linarith
    then show ?thesis using that(2) by simp
  qed
  let ?v = "ve_data con"
  let ?fb1 = "patch fb (?base + 14 * q) (replicate 8 (vs_fg ?v))"
  let ?fb2 = "patch ?fb1 (?base + 15 * q) (replicate 8 (vs_fg ?v))"
  have l1: "length ?fb1 = length fb" by (rule len) simp_all
  have l2: "length ?fb2 = length fb" by (rule len [OF _ l1]) simp
  have "cursor_rows ?v ?base 14 2 fb = Some ?fb2"
    using fill [of 14 fb] fill [OF _ l1, of 15] row [of 14] row [of 15] by (simp add: numeral_2_eq_2 FONT_WIDTH_def)
  then have "vesa_update_cursor con = Some (con\<lparr>ve_data := ?v\<lparr>vs_fb := Some ?fb2\<rparr>\<rparr>)"
    by (simp add: vesa_update_cursor_def Let_def s(1,6) FONT_HEIGHT_def)
  moreover have "vesa_geom (con\<lparr>ve_data := ?v\<lparr>vs_fb := Some ?fb2\<rparr>\<rparr>)"
    using assms by (intro vesa_geom_fb [OF _ s(1) l2]) (simp add: vesa_ok_def)
  ultimately show ?thesis using assms by (simp add: vesa_ok_def)
qed

text \<open>
  C39: the framebuffer driver draws what it should and stays inside the framebuffer. From a valid state
  every byte leads to a valid state; and a glyph drawn in a cell of the screen sets each of its 8x16
  pixels to the foreground colour exactly where the font has a bit, and changes no other pixel.
\<close>

theorem vesa_draws_inside:
  assumes "vesa_ok con"
  shows "(\<exists>con'. vesa_put_char con c = Some con' \<and> vesa_ok con')
    \<and> (\<exists>fb fb' q. vs_fb (ve_data con) = Some fb \<and> q = unat (line_words (ve_data con)) \<and> length fb' = length fb
        \<and> vesa_draw_glyph (ve_data con) (ve_col con) (ve_row con) c = Some ((ve_data con)\<lparr>vs_fb := Some fb'\<rparr>)
        \<and> (\<forall>i. fb' ! i =
             (if i div q div 16 = nat (ve_row con) \<and> i mod q div 8 = nat (ve_col con)
              then glyph_pixel (ve_data con) c (i div q mod 16) (i mod q mod 8) else fb ! i)))"
proof
  show "\<exists>con'. vesa_put_char con c = Some con' \<and> vesa_ok con'" by (rule vesa_put_char_ok [OF assms])
  have g: "vesa_geom con" using assms by (simp add: vesa_ok_def)
  obtain fb q h w where o: "vs_fb (ve_data con) = Some fb" "h * q \<le> length fb" "length (vs_font (ve_data con)) = 4096"
    "unat (line_words (ve_data con)) = q" "h * q < 1073741824" "8 \<le> q" "w \<le> q" "16 \<le> h"
    "ve_cols con = int (w div 8)" "ve_rows con = int (h div 16)"
    using vesa_geomE [OF g] by metis
  obtain x y where xy: "ve_col con = int x" "ve_row con = int y" using assms unfolding vesa_ok_def by (metis nonneg_int_cases)
  have lt: "y < h div 16" "x < w div 8" using assms o(9,10) xy by (simp_all add: vesa_ok_def)
  have x8: "x * 8 + 8 \<le> q"
  proof -
    have "Suc x * 8 \<le> w" using lt(2) by (simp add: less_eq_div_iff_mult_less_eq [symmetric] Suc_le_eq del: mult_Suc)
    then show ?thesis using o(7) by simp
  qed
  obtain fb' where fb': "vesa_draw_glyph (ve_data con) (int x) (int y) c = Some ((ve_data con)\<lparr>vs_fb := Some fb'\<rparr>)"
    "length fb' = length fb"
    "\<And>r col. r < 16 \<Longrightarrow> col < 8 \<Longrightarrow> fb' ! ((y * 16 + r) * q + x * 8 + col) = glyph_pixel (ve_data con) c r col"
    "\<And>i. i \<notin> cells (y * 16 * q + x * 8) q 0 16 \<Longrightarrow> fb' ! i = fb ! i"
    using vesa_draw_glyph_ok [OF o(1-8) lt, of c] by metis
  have pixel: "fb' ! i = (if i div q div 16 = y \<and> i mod q div 8 = x
      then glyph_pixel (ve_data con) c (i div q mod 16) (i mod q mod 8) else fb ! i)" for i
  proof (cases "i div q div 16 = y \<and> i mod q div 8 = x")
    case True
    have "i div q = y * 16 + i div q mod 16" "i mod q = x * 8 + i mod q mod 8"
      using True div_mult_mod_eq [of "i div q" 16] div_mult_mod_eq [of "i mod q" 8] by simp_all
    then have "i = (y * 16 + i div q mod 16) * q + (x * 8 + i mod q mod 8)"
      using div_mult_mod_eq [of i q] by metis
    then have "i = (y * 16 + i div q mod 16) * q + x * 8 + i mod q mod 8" by simp
    then show ?thesis using fb'(3) [of "i div q mod 16" "i mod q mod 8"] True by simp
  next
    case False
    have "i \<notin> cells (y * 16 * q + x * 8) q 0 16"
    proof
      assume "i \<in> cells (y * 16 * q + x * 8) q 0 16"
      then obtain r col where i: "i = y * 16 * q + x * 8 + r * q + col" "r < 16" "col < 8" by (auto simp: cells_def)
      have i': "i = (x * 8 + col) + (y * 16 + r) * q" using i(1) by (simp add: algebra_simps)
      have "i div q = y * 16 + r" "i mod q = x * 8 + col" unfolding i' using x8 i(3) by simp_all
      then show False using False i(2,3) by simp
    qed
    then show ?thesis unfolding if_not_P [OF False] by (rule fb'(4))
  qed
  show "\<exists>fb fb' q. vs_fb (ve_data con) = Some fb \<and> q = unat (line_words (ve_data con)) \<and> length fb' = length fb
      \<and> vesa_draw_glyph (ve_data con) (ve_col con) (ve_row con) c = Some ((ve_data con)\<lparr>vs_fb := Some fb'\<rparr>)
      \<and> (\<forall>i. fb' ! i =
           (if i div q div 16 = nat (ve_row con) \<and> i mod q div 8 = nat (ve_col con)
            then glyph_pixel (ve_data con) c (i div q mod 16) (i mod q mod 8) else fb ! i))"
    using o(1,4) fb'(1,2) pixel unfolding xy nat_int by blast
qed

text \<open>A screen of two characters on one line, every glyph a block.\<close>

definition small_screen :: vesa_console where
  "small_screen = \<lparr> ve_cols = 2, ve_rows = 1, ve_row = 0, ve_col = 1, ve_attr = 7, ve_esc = CON_ESC_NONE,
     ve_data = \<lparr> vs_fb = Some (replicate 256 0), vs_width = 16, vs_height = 16, vs_pitch = 64, vs_bpp = 32,
                 vs_font = replicate 4096 0xFF, vs_fg = 0xFFFFFF, vs_bg = 0 \<rparr> \<rparr>"

theorem vesa_draws_inside_witness:
  "(\<exists>con'. vesa_put_char small_screen (CHR ''A'') = Some con' \<and> vesa_ok con')
   \<and> (\<exists>v fb'. vesa_draw_glyph (ve_data small_screen) 1 0 (CHR ''A'') = Some v \<and> vs_fb v = Some fb'
        \<and> fb' ! 24 = 0xFFFFFF \<and> fb' ! 23 = 0)"
proof -
  have ok: "vesa_ok small_screen" by (simp add: vesa_ok_def vesa_geom_def small_screen_def)
  have q: "unat (line_words (ve_data small_screen)) = 16" by (simp add: line_words_def small_screen_def)
  have px: "glyph_pixel (ve_data small_screen) (CHR ''A'') 1 0 = 0xFFFFFF"
    by (simp add: glyph_pixel_def small_screen_def code_def)
  show ?thesis using vesa_draws_inside [OF ok, of "CHR ''A''"] q px by (auto simp: small_screen_def)
qed

end
