(* ===== verification/Links.thy ===== *)
theory Links
  imports Prelude
begin

section \<open>include/kernel/dlist.h: circular doubly linked lists\<close>

text \<open>
  The intrusive list of the kernel's headers. A node is a name of a type \<open>'n\<close>, a heap of nodes the two
  maps \<open>dl_next\<close> and \<open>dl_prev\<close>; the head of a list is a node like any other. A null link is not in the
  code: every node is initialised to point to itself. \<open>dl_rep h d xs\<close>: the list with head \<open>d\<close> holds
  the nodes \<open>xs\<close>, and the links agree in both directions around the circle. The operations implement
  insertion, deletion and the test for emptiness on these lists, and the walk of
  \<open>dlist_for_each\<close> visits exactly \<open>xs\<close>; the iteration macro that survives removals
  reads the next link before its body runs and visits them too. \<open>dlist_entry\<close> turns a
  node's address into its object's, which the naming of nodes makes the identity.
\<close>

record 'n dheap =
  dl_next :: "'n \<Rightarrow> 'n"
  dl_prev :: "'n \<Rightarrow> 'n"

definition set_next :: "'n \<Rightarrow> 'n \<Rightarrow> 'n dheap \<Rightarrow> 'n dheap" where
  "set_next n x h = h\<lparr>dl_next := (dl_next h)(n := x)\<rparr>"

definition set_prev :: "'n \<Rightarrow> 'n \<Rightarrow> 'n dheap \<Rightarrow> 'n dheap" where
  "set_prev n x h = h\<lparr>dl_prev := (dl_prev h)(n := x)\<rparr>"

definition dlist_init :: "'n \<Rightarrow> 'n dheap \<Rightarrow> 'n dheap" where
  "dlist_init d h = set_next d d (set_prev d d h)"

definition dlist_node_init :: "'n \<Rightarrow> 'n dheap \<Rightarrow> 'n dheap" where
  "dlist_node_init n h = set_next n n (set_prev n n h)"

definition dlist_insert_after :: "'n \<Rightarrow> 'n \<Rightarrow> 'n dheap \<Rightarrow> 'n dheap" where
  "dlist_insert_after p n h =
     (let h1 = set_next n (dl_next h p) h;
          h2 = set_prev n p h1;
          h3 = set_prev (dl_next h2 p) n h2
      in set_next p n h3)"

definition dlist_insert_before :: "'n \<Rightarrow> 'n \<Rightarrow> 'n dheap \<Rightarrow> 'n dheap" where
  "dlist_insert_before p n h =
     (let h1 = set_prev n (dl_prev h p) h;
          h2 = set_next n p h1;
          h3 = set_next (dl_prev h2 p) n h2
      in set_prev p n h3)"

definition dlist_push_front :: "'n \<Rightarrow> 'n \<Rightarrow> 'n dheap \<Rightarrow> 'n dheap" where
  "dlist_push_front d n h = dlist_insert_after d n h"

definition dlist_push_back :: "'n \<Rightarrow> 'n \<Rightarrow> 'n dheap \<Rightarrow> 'n dheap" where
  "dlist_push_back d n h = dlist_insert_before d n h"

definition dlist_remove :: "'n \<Rightarrow> 'n dheap \<Rightarrow> 'n dheap" where
  "dlist_remove n h =
     (let h1 = set_next (dl_prev h n) (dl_next h n) h;
          h2 = set_prev (dl_next h1 n) (dl_prev h1 n) h1
      in set_next n n (set_prev n n h2))"

definition dlist_empty :: "'n \<Rightarrow> 'n dheap \<Rightarrow> bool" where
  "dlist_empty d h \<longleftrightarrow> dl_next h d = d"

text \<open>The nodes \<open>dlist_for_each\<close> visits, with fuel for the loop.\<close>

primrec each_loop :: "nat \<Rightarrow> 'n \<Rightarrow> 'n \<Rightarrow> 'n dheap \<Rightarrow> 'n list option" where
  "each_loop 0 p d h = None"
| "each_loop (Suc k) p d h = (if p = d then Some [] else map_option (Cons p) (each_loop k (dl_next h p) d h))"

definition dlist_for_each :: "nat \<Rightarrow> 'n \<Rightarrow> 'n dheap \<Rightarrow> 'n list option" where
  "dlist_for_each k d h = each_loop k (dl_next h d) d h"

subsection \<open>The list a heap holds\<close>

text \<open>\<open>linked h ys\<close>: each node of \<open>ys\<close> and the one after it point to each other.\<close>

fun linked :: "'n dheap \<Rightarrow> 'n list \<Rightarrow> bool" where
  "linked h (x # y # ys) \<longleftrightarrow> dl_next h x = y \<and> dl_prev h y = x \<and> linked h (y # ys)"
| "linked h _ \<longleftrightarrow> True"

definition dl_rep :: "'n dheap \<Rightarrow> 'n \<Rightarrow> 'n list \<Rightarrow> bool" where
  "dl_rep h d xs \<longleftrightarrow> distinct (d # xs) \<and> linked h (d # xs @ [d])"

lemma linked_append: "linked h (xs @ y # ys) \<longleftrightarrow> linked h (xs @ [y]) \<and> linked h (y # ys)"
  by (induction h xs rule: linked.induct) (cases ys; simp)+

lemma linked_frame:
  assumes "linked h ys" "\<forall>x \<in> set (butlast ys). dl_next h' x = dl_next h x" "\<forall>x \<in> set (tl ys). dl_prev h' x = dl_prev h x"
  shows "linked h' ys"
  using assms by (induction h ys rule: linked.induct) (auto split: if_splits)

lemma linkedD: "linked h (us @ x # y # vs) \<Longrightarrow> dl_next h x = y \<and> dl_prev h y = x"
  by (induction us rule: induct_list012) auto

text \<open>A node of the circle, the one before it and the one after it.\<close>

lemma next_at:
  assumes "dl_rep h d xs" "d # xs = us @ p # vs"
  shows "dl_next h p = hd (vs @ [d])" "dl_prev h (hd (vs @ [d])) = p"
proof -
  have "d # xs @ [d] = us @ p # hd (vs @ [d]) # tl (vs @ [d])" using assms(2) by (cases vs) simp_all
  with assms(1) show "dl_next h p = hd (vs @ [d])" "dl_prev h (hd (vs @ [d])) = p"
    using linkedD [of h us p "hd (vs @ [d])" "tl (vs @ [d])"] by (simp_all add: dl_rep_def)
qed

lemma insert_after_fields:
  "dl_next (dlist_insert_after p n h) = (dl_next h)(n := dl_next h p, p := n)"
  "p \<noteq> n \<Longrightarrow> dl_prev (dlist_insert_after p n h) = (dl_prev h)(n := p, dl_next h p := n)"
  by (auto simp: dlist_insert_after_def set_next_def set_prev_def Let_def)

lemma insert_after_ok:
  assumes "dl_rep h d xs" "d # xs = us @ p # vs" "n \<notin> set (d # xs)"
  shows "\<exists>ys. d # ys = us @ p # n # vs \<and> dl_rep (dlist_insert_after p n h) d ys"
proof -
  define q ws where q: "q = hd (vs @ [d])" "ws = tl (vs @ [d])"
  have qw: "q # ws = vs @ [d]" by (simp add: q)
  let ?h = "dlist_insert_after p n h"
  have dist: "distinct (us @ p # vs)" and circle: "linked h (us @ p # q # ws)"
    using assms(1,2) qw by (auto simp: dl_rep_def) (metis append.assoc append_Cons)
  note nx = next_at [OF assms(1,2), folded q(1)]
  have n: "n \<notin> set us" "n \<noteq> p" "n \<notin> set vs" "n \<noteq> d" using assms(2,3) by (metis Un_iff list.set_intros set_append assms(3))+
  have f: "dl_next ?h = (dl_next h)(n := q, p := n)" "dl_prev ?h = (dl_prev h)(n := p, q := n)"
    using insert_after_fields [of p n h] n(2) nx(1) by auto
  have d: "us = [] \<and> d = p \<or> (\<exists>us'. us = d # us')" using assms(2) by (cases us) simp_all
  have qv: "q \<in> set vs \<or> vs = [] \<and> q = d" using q(1) by (cases vs) simp_all
  have "linked ?h (us @ [p])"
  proof (rule linked_frame)
    show "linked h (us @ [p])" using circle linked_append [of h us p "q # ws"] by blast
    show "\<forall>x \<in> set (butlast (us @ [p])). dl_next ?h x = dl_next h x" using dist n f(1) by auto
    show "\<forall>x \<in> set (tl (us @ [p])). dl_prev ?h x = dl_prev h x"
      using dist n d qv f(2) by auto
  qed
  moreover have "linked ?h (q # ws)"
  proof (rule linked_frame)
    show "linked h (q # ws)" using circle linkedD linked_append [of h "us @ [p]" q ws] by simp
    show "\<forall>x \<in> set (butlast (q # ws)). dl_next ?h x = dl_next h x" using dist n f(1) unfolding qw by auto
    show "\<forall>x \<in> set (tl (q # ws)). dl_prev ?h x = dl_prev h x"
      using dist n d qv f(2) assms(1) qw by (cases vs) (auto simp: dl_rep_def)
  qed
  ultimately have "linked ?h (us @ p # n # q # ws)"
    using n f linked_append [of ?h us p "n # q # ws"] d qv dist by auto
  moreover have "us @ p # n # q # ws = (us @ p # n # vs) @ [d]" using qw by simp
  moreover obtain ys where ys: "d # ys = us @ p # n # vs" using d by (cases us) auto
  ultimately have "linked ?h ((d # ys) @ [d])" by (simp only: ys)
  moreover have "distinct (d # ys)" unfolding ys using n dist by auto
  ultimately have "dl_rep ?h d ys" by (simp only: dl_rep_def append_Cons)
  then show ?thesis using ys by blast
qed

text \<open>Inserting before a node is inserting after the one before it.\<close>

lemma insert_before_after:
  assumes "dl_next h (dl_prev h p) = p" "n \<noteq> p" "n \<noteq> dl_prev h p"
  shows "dlist_insert_before p n h = dlist_insert_after (dl_prev h p) n h"
  using assms by (auto simp: dlist_insert_before_def dlist_insert_after_def set_next_def set_prev_def Let_def fun_upd_twist)

text \<open>The last node of the circle is before its head.\<close>

lemma prev_of_head:
  assumes "dl_rep h d xs"
  shows "dl_prev h d = last (d # xs)" "dl_next h (last (d # xs)) = d"
proof -
  have "d # xs = butlast (d # xs) @ last (d # xs) # []" by simp
  from next_at [OF assms this] show "dl_prev h d = last (d # xs)" "dl_next h (last (d # xs)) = d" by simp_all
qed

lemma push_front_ok:
  assumes "dl_rep h d xs" "n \<notin> set (d # xs)"
  shows "dl_rep (dlist_push_front d n h) d (n # xs)"
  using insert_after_ok [OF assms(1), of "[]" d xs n] assms(2) by (simp add: dlist_push_front_def)

lemma push_back_ok:
  assumes "dl_rep h d xs" "n \<notin> set (d # xs)"
  shows "dl_rep (dlist_push_back d n h) d (xs @ [n])"
proof -
  let ?l = "last (d # xs)"
  have split: "d # xs = butlast (d # xs) @ ?l # []" by simp
  have nl: "n \<noteq> d" "n \<noteq> ?l" using assms(2) last_in_set [of "d # xs"] by (metis list.set_intros(1), metis list.distinct(1))
  obtain ys where ys: "d # ys = butlast (d # xs) @ ?l # n # []" "dl_rep (dlist_insert_after ?l n h) d ys"
    using insert_after_ok [OF assms(1) split assms(2)] by blast
  have "butlast (d # xs) @ [?l] = d # xs" by (rule append_butlast_last_id) simp
  then have "d # ys = (d # xs) @ [n]" unfolding ys(1) by (metis append.assoc append_Cons append_Nil)
  then have "ys = xs @ [n]" by simp
  moreover have "dlist_push_back d n h = dlist_insert_after ?l n h"
    unfolding dlist_push_back_def using insert_before_after [of h d n] prev_of_head [OF assms(1)] nl by simp
  ultimately show ?thesis using ys(2) by simp
qed

lemma remove_fields:
  assumes "dl_prev h x \<noteq> x" "dl_next h x \<noteq> x"
  shows "dl_next (dlist_remove x h) = (dl_next h)(dl_prev h x := dl_next h x, x := x)"
    "dl_prev (dlist_remove x h) = (dl_prev h)(dl_next h x := dl_prev h x, x := x)"
  using assms by (simp_all add: dlist_remove_def set_next_def set_prev_def Let_def)

lemma remove_ok:
  assumes "dl_rep h d (us @ x # vs)"
  shows "dl_rep (dlist_remove x h) d (us @ vs) \<and> dl_next (dlist_remove x h) x = x \<and> dl_prev (dlist_remove x h) x = x"
proof -
  define p us' where p: "p = last (d # us)" "us' = butlast (d # us)"
  define q ws where q: "q = hd (vs @ [d])" "ws = tl (vs @ [d])"
  have pu: "d # us = us' @ [p]" by (simp add: p del: butlast.simps last.simps)
  have qw: "q # ws = vs @ [d]" by (simp add: q)
  have all: "d # us @ x # vs = us' @ p # x # vs" using pu by (metis append.assoc append_Cons append_Nil)
  have dist: "distinct (us' @ p # x # vs)" and circle: "linked h (us' @ p # x # q # ws)"
    using assms all qw unfolding dl_rep_def by (simp_all only: append.assoc append_Cons) (metis append.assoc append_Cons)
  have d: "us' = [] \<and> d = p \<or> (\<exists>us''. us' = d # us'')" using pu by (cases us') simp_all
  have qv: "q \<in> set vs \<or> vs = [] \<and> q = d" using q(1) by (cases vs) simp_all
  have xpq: "x \<noteq> p" "x \<noteq> q" "x \<noteq> d" "x \<notin> set us'" "x \<notin> set vs" "d \<notin> set vs" using dist d qv by auto
  have px: "dl_next h p = x" "dl_prev h x = p" using linkedD [of h us' p x "q # ws"] circle by simp_all
  have xq: "dl_next h x = q" "dl_prev h q = x" using linkedD [of h "us' @ [p]" x q ws] circle by simp_all
  let ?h = "dlist_remove x h"
  have f: "dl_next ?h = (dl_next h)(p := q, x := x)" "dl_prev ?h = (dl_prev h)(q := p, x := x)"
    using remove_fields [of h x] px xq xpq by simp_all
  have "linked ?h (us' @ [p])"
  proof (rule linked_frame)
    show "linked h (us' @ [p])" using circle linked_append [of h us' p "x # q # ws"] by blast
    show "\<forall>y \<in> set (butlast (us' @ [p])). dl_next ?h y = dl_next h y" using dist xpq f(1) by auto
    show "\<forall>y \<in> set (tl (us' @ [p])). dl_prev ?h y = dl_prev h y" using dist xpq d qv f(2) by auto
  qed
  moreover have "linked ?h (q # ws)"
  proof (rule linked_frame)
    show "linked h (q # ws)" using circle linked_append [of h "us' @ [p, x]" q ws] by simp
    show "\<forall>y \<in> set (butlast (q # ws)). dl_next ?h y = dl_next h y" using dist xpq f(1) unfolding qw by auto
    show "\<forall>y \<in> set (tl (q # ws)). dl_prev ?h y = dl_prev h y"
      using dist xpq d qv f(2) qw by (cases vs) auto
  qed
  ultimately have "linked ?h (us' @ p # q # ws)"
    using linked_append [of ?h us' p "q # ws"] f xpq by simp
  moreover have "us' @ p # q # ws = (d # us @ vs) @ [d]" using pu qw by (metis append.assoc append_Cons append_Nil)
  ultimately have "linked ?h (d # (us @ vs) @ [d])" by simp
  moreover have "distinct (d # us @ vs)" using assms by (auto simp: dl_rep_def)
  ultimately show ?thesis using f by (simp add: dl_rep_def)
qed

lemma each_loop_ok:
  "linked h (p # ys @ [d]) \<Longrightarrow> d \<notin> set (p # ys) \<Longrightarrow> each_loop (Suc (Suc (length ys))) p d h = Some (p # ys)"
proof (induction ys arbitrary: p)
  case (Cons y ys)
  have "linked h (y # ys @ [d])" "d \<notin> set (y # ys)" using Cons.prems by simp_all
  then have "each_loop (Suc (Suc (length ys))) y d h = Some (y # ys)" by (rule Cons.IH)
  moreover have "p \<noteq> d" "dl_next h p = y" using Cons.prems by auto
  ultimately show ?case by (simp del: each_loop.simps(2) add: each_loop.simps(2) [of "Suc (Suc (length ys))"])
qed simp

text \<open>
  The doubly linked list of the kernel's headers is a list. On a heap whose circle through \<open>d\<close>
  holds \<open>xs\<close>, a node that is not in it is put in front or behind, any node is removed (and left
  pointing to itself, so that removing it again changes nothing), and the test for emptiness and
  the walk see exactly \<open>xs\<close>; an initialised head holds the empty list.
\<close>

theorem dlist_is_a_list:
  assumes "dl_rep h d xs" "n \<notin> set (d # xs)"
  shows "dl_rep (dlist_push_front d n h) d (n # xs) \<and> dl_rep (dlist_push_back d n h) d (xs @ [n])
    \<and> list_all (\<lambda>x. dl_rep (dlist_remove x h) d (remove1 x xs) \<and> dlist_remove x (dlist_remove x h) = dlist_remove x h) xs
    \<and> dlist_empty d h = (xs = []) \<and> dlist_for_each (length xs + 1) d h = Some xs \<and> dl_rep (dlist_init n h) n []"
proof -
  have "dl_rep (dlist_remove x h) d (remove1 x xs) \<and> dlist_remove x (dlist_remove x h) = dlist_remove x h" if x: "x \<in> set xs" for x
  proof -
    obtain us vs where s: "xs = us @ x # vs" "x \<notin> set us" using x by (metis split_list_first)
    have r: "dl_next (dlist_remove x h) x = x" "dl_prev (dlist_remove x h) x = x" "dl_rep (dlist_remove x h) d (us @ vs)"
      using remove_ok [of h d us x vs] assms(1) s(1) by blast+
    have "dlist_remove x g = g" if "dl_next g x = x" "dl_prev g x = x" for g
      using that by (simp add: dlist_remove_def set_next_def set_prev_def Let_def fun_upd_idem)
    then show ?thesis using r s by (simp add: remove1_append)
  qed
  moreover have "dlist_empty d h = (xs = [])" "dlist_for_each (length xs + 1) d h = Some xs"
  proof -
    show "dlist_empty d h = (xs = [])" using assms(1) by (cases xs) (auto simp: dlist_empty_def dl_rep_def)
    show "dlist_for_each (length xs + 1) d h = Some xs"
    proof (cases xs)
      case (Cons y ys)
      then have "each_loop (Suc (Suc (length ys))) y d h = Some (y # ys)" "dl_next h d = y"
        using assms(1) each_loop_ok [of h y ys d] by (auto simp: dl_rep_def)
      then show ?thesis using Cons by (simp add: dlist_for_each_def del: each_loop.simps)
    qed (use assms(1) in \<open>simp add: dlist_for_each_def dl_rep_def\<close>)
  qed
  moreover have "dl_rep (dlist_init n h) n []" by (simp add: dl_rep_def dlist_init_def set_next_def set_prev_def)
  ultimately show ?thesis using push_front_ok [OF assms] push_back_ok [OF assms] by (simp add: list_all_iff)
qed

theorem dlist_is_a_list_witness:
  "let h = dlist_init (0::nat) \<lparr> dl_next = (\<lambda>_. 0), dl_prev = (\<lambda>_. 0) \<rparr>
   in dl_rep (dlist_push_back 0 7 (dlist_push_front 0 5 h)) 0 [5, 7]"
proof -
  let ?h = "dlist_init (0::nat) \<lparr> dl_next = (\<lambda>_. 0), dl_prev = (\<lambda>_. 0) \<rparr>"
  have "dl_rep ?h 0 []" by (simp add: dl_rep_def dlist_init_def set_next_def set_prev_def)
  then have "dl_rep (dlist_push_front 0 5 ?h) 0 [5]" using dlist_is_a_list [of ?h 0 "[]" 5] by simp
  then show ?thesis using dlist_is_a_list [of "dlist_push_front 0 5 ?h" 0 "[5]" 7] by simp
qed

end
