(* ===== verification/Format.thy ===== *)
theory Format
  imports Knum
begin

section \<open>The two formatters: \<open>k_vsnprintf\<close> (kutils.c) and \<open>vsnprintf\<close> (libs/libc.c)\<close>

text \<open>
  The formatters work on a buffer and a position, both in \<open>fmt_out\<close>; \<open>put_char\<close> is the macro
  \<open>PUT_CHAR\<close>, which counts a character in any case and stores it while there is room for it and the
  terminator. The two are the same text but for the kernel's missing precision, \<open>z\<close>, \<open>f\<close> and lower
  case hexadecimal, so the conversions they share are defined once (\<open>fmt_signed\<close>, \<open>fmt_digits\<close>) and
  each formatter has its own parser of directives, its own switch and its own loop.

  An argument list is the list of what \<open>va_arg\<close> finds: 32-bit words (\<open>int\<close>, \<open>unsigned\<close>, \<open>long\<close> and
  pointers on i386), 64-bit words, strings, and doubles. Taking an argument of another kind, or one
  that is not there, is undefined and \<open>None\<close>. Floating-point arithmetic is not modelled: a double is
  its sign and, for each precision, the two integers the code computes from it,
  \<open>(uint64_t)val\<close> and \<open>(uint64_t)(frac * (double)scale + 0.5)\<close>.

  The locale \<open>formatter\<close> states what a directive parser, a switch and a loop have to satisfy for the
  loop to print what the reference \<open>render\<close> says; both formatters are interpretations of it.
\<close>

datatype farg = W32 u32 | W64 u64 | Str "char list option" | Dbl bool "nat \<Rightarrow> u64 \<times> u64"

type_synonym fmt_out = "char list \<times> u32"

definition put_char :: "u32 \<Rightarrow> char \<Rightarrow> fmt_out \<Rightarrow> fmt_out option" where
  "put_char sz c = (\<lambda>(buf, pos). do {
     b \<leftarrow> (if pos < sz - 1 then wr buf (unat pos) c else Some buf);
     Some (b, pos + 1) })"

text \<open>The loops that put one character after another: padding, and digits from the scratch array.\<close>

primrec put_chars :: "u32 \<Rightarrow> string \<Rightarrow> fmt_out \<Rightarrow> fmt_out option" where
  "put_chars sz [] st = Some st"
| "put_chars sz (c # s) st = (case put_char sz c st of None \<Rightarrow> None | Some st' \<Rightarrow> put_chars sz s st')"

text \<open>\<open>while (*s) PUT_CHAR(*s++)\<close>\<close>

fun put_str :: "u32 \<Rightarrow> char list \<Rightarrow> fmt_out \<Rightarrow> fmt_out option" where
  "put_str sz [] st = None"
| "put_str sz (c # s) st =
     (if c = NUL then Some st
      else case put_char sz c st of None \<Rightarrow> None | Some st' \<Rightarrow> put_str sz s st')"

subsection \<open>Directives\<close>

record fspec =
  zero_pad :: bool
  width :: int
  precision :: int
  is_long :: bool
  is_long_long :: bool

text \<open>\<open>while (*fmt >= '0' && *fmt <= '9') n = n * 10 + (*fmt++ - '0')\<close>\<close>

fun number_loop :: "int \<Rightarrow> char list \<Rightarrow> (int \<times> char list) option" where
  "number_loop n [] = None"
| "number_loop n (c # f) =
     (if is_digit c
      then do { m \<leftarrow> chk_int (n * 10); n' \<leftarrow> chk_int (m + (int (code c) - 48)); number_loop n' f }
      else Some (n, c # f))"

text \<open>\<open>if (*fmt == c) { flag = 1; fmt++; }\<close>\<close>

definition skip_char :: "char \<Rightarrow> char list \<Rightarrow> (bool \<times> char list) option" where
  "skip_char x f = (case f of [] \<Rightarrow> None | c # g \<Rightarrow> Some (if c = x then (True, g) else (False, c # g)))"

definition parse_flags_width :: "char list \<Rightarrow> (bool \<times> int \<times> char list) option" where
  "parse_flags_width f = do {
     (z, f1) \<leftarrow> skip_char (CHR ''0'') f;
     (w, f2) \<leftarrow> number_loop 0 f1;
     Some (z, w, f2) }"

definition parse_l :: "char list \<Rightarrow> (bool \<times> bool \<times> char list) option" where
  "parse_l f = do {
     (l, f1) \<leftarrow> skip_char (CHR ''l'') f;
     if l then do { (ll, f2) \<leftarrow> skip_char (CHR ''l'') f1; Some (True, ll, f2) }
     else Some (False, False, f1) }"

definition k_parse :: "char list \<Rightarrow> (fspec \<times> char list) option" where
  "k_parse f = do {
     (z, w, f1) \<leftarrow> parse_flags_width f;
     (l, ll, f2) \<leftarrow> parse_l f1;
     Some (\<lparr>zero_pad = z, width = w, precision = -1, is_long = l, is_long_long = ll\<rparr>, f2) }"

definition u_parse :: "char list \<Rightarrow> (fspec \<times> char list) option" where
  "u_parse f = do {
     (z, w, f1) \<leftarrow> parse_flags_width f;
     (dot, f2) \<leftarrow> skip_char (CHR ''.'') f1;
     (p, f3) \<leftarrow> (if dot then number_loop 0 f2 else Some (-1, f2));
     (l, ll, f4) \<leftarrow> parse_l f3;
     (s, f5) \<leftarrow> skip_char (CHR ''z'') f4;
     Some (\<lparr>zero_pad = z, width = w, precision = p, is_long = l \<or> s, is_long_long = ll\<rparr>, f5) }"

subsection \<open>Conversions\<close>

text \<open>The loops into the scratch array stop when it is full.\<close>

function dec_loop :: "nat \<Rightarrow> u32 \<Rightarrow> char list \<Rightarrow> char list" where
  "dec_loop cap uv tmp =
     (if uv \<noteq> 0 \<and> length tmp < cap then dec_loop cap (uv div 10) (tmp @ [digit_char (unat (uv mod 10))])
      else tmp)"
  by pat_completeness auto
termination by (relation "measure (\<lambda>(cap, uv, tmp). cap - length tmp)") auto

function dec64_loop :: "nat \<Rightarrow> u64 \<Rightarrow> char list \<Rightarrow> char list" where
  "dec64_loop cap uv tmp =
     (if uv \<noteq> 0 \<and> length tmp < cap
      then (let (q, r) = udiv64_10 uv in dec64_loop cap q (tmp @ [digit_char (unat r)]))
      else tmp)"
  by pat_completeness auto
termination by (relation "measure (\<lambda>(cap, uv, tmp). cap - length tmp)") auto

function hex_loop :: "string \<Rightarrow> nat \<Rightarrow> 'a::len word \<Rightarrow> char list \<Rightarrow> char list" where
  "hex_loop HEX cap v tmp =
     (if v \<noteq> 0 \<and> length tmp < cap
      then hex_loop HEX cap (drop_bit 4 v) (tmp @ [HEX ! unat (v AND 0xF)])
      else tmp)"
  by pat_completeness auto
termination by (relation "measure (\<lambda>(HEX, cap, v, tmp). cap - length tmp)") auto

declare dec_loop.simps [simp del] dec64_loop.simps [simp del] hex_loop.simps [simp del]

definition hex_upper :: string where "hex_upper = ''0123456789ABCDEF''"
definition hex_lower :: string where "hex_lower = ''0123456789abcdef''"

definition pad_char :: "fspec \<Rightarrow> char" where
  "pad_char sp = (if zero_pad sp then CHR ''0'' else CHR '' '')"

definition pad_len :: "fspec \<Rightarrow> nat \<Rightarrow> nat" where
  "pad_len sp n = (if width sp > int n then nat (width sp - int n) else 0)"

text \<open>\<open>%d\<close>: the sign comes before the padding.\<close>

definition fmt_signed :: "u32 \<Rightarrow> fspec \<Rightarrow> u32 \<Rightarrow> fmt_out \<Rightarrow> fmt_out option" where
  "fmt_signed sz sp w st =
     (let v = sint w; negative = v < 0
      in do {
        uv \<leftarrow> (if negative then map_option word_of_int (chk_int (- v)) else Some w);
        let tmp = (if uv = 0 then ''0'' else dec_loop 16 uv []);
        let num_len = length tmp + (if negative then 1 else 0);
        st1 \<leftarrow> (if negative then put_char sz (CHR ''-'') st else Some st);
        st2 \<leftarrow> put_chars sz (replicate (pad_len sp num_len) (pad_char sp)) st1;
        put_chars sz (rev tmp) st2 })"

text \<open>The end of \<open>%u\<close> and \<open>%x\<close>: padding, then the digits from the last one on.\<close>

definition fmt_digits :: "u32 \<Rightarrow> fspec \<Rightarrow> char list \<Rightarrow> fmt_out \<Rightarrow> fmt_out option" where
  "fmt_digits sz sp tmp st = do {
     st1 \<leftarrow> put_chars sz (replicate (pad_len sp (length tmp)) (pad_char sp)) st;
     put_chars sz (rev tmp) st1 }"

definition dec_tmp :: "u32 \<Rightarrow> char list" where
  "dec_tmp uv = (if uv = 0 then ''0'' else dec_loop 24 uv [])"

definition dec64_tmp :: "u64 \<Rightarrow> char list" where
  "dec64_tmp uv = (if uv = 0 then ''0'' else dec64_loop 24 uv [])"

definition hex_tmp :: "string \<Rightarrow> 'a::len word \<Rightarrow> char list" where
  "hex_tmp HEX v = (if v = 0 then ''0'' else hex_loop HEX 16 v [])"

definition fmt_pointer :: "u32 \<Rightarrow> u32 \<Rightarrow> fmt_out \<Rightarrow> fmt_out option" where
  "fmt_pointer sz v st =
     put_chars sz (''0x'' @ map (\<lambda>i. hex_lower ! unat (drop_bit (i * 4) v AND 0xF)) (rev [0..<8])) st"

definition fmt_string :: "u32 \<Rightarrow> char list option \<Rightarrow> fmt_out \<Rightarrow> fmt_out option" where
  "fmt_string sz s st = put_str sz (case s of None \<Rightarrow> c_string ''(null)'' | Some p \<Rightarrow> p) st"

text \<open>The decimals of \<open>%f\<close>, written from the last one on into an array of 32.\<close>

fun frac_loop :: "nat \<Rightarrow> u64 \<Rightarrow> char list \<Rightarrow> char list option" where
  "frac_loop 0 frac buf = Some buf"
| "frac_loop (Suc fpos) frac buf = do {
     b \<leftarrow> wr buf fpos (digit_char (unat (frac mod 10)));
     frac_loop fpos (frac div 10) b }"

definition fmt_double :: "u32 \<Rightarrow> fspec \<Rightarrow> bool \<Rightarrow> (nat \<Rightarrow> u64 \<times> u64) \<Rightarrow> fmt_out \<Rightarrow> fmt_out option" where
  "fmt_double sz sp negative parts st =
     (let prec = (if precision sp < 0 then 6 else nat (precision sp));
          (int0, frac0) = parts prec;
          scale = 10 ^ prec;
          (int_part, frac) = (if frac0 \<ge> scale then (int0 + 1, frac0 - scale) else (int0, frac0));
          int_buf = (if int_part = 0 then ''0'' else dec64_loop 32 int_part []);
          total_len = length int_buf + (if prec > 0 then 1 + prec else 0) + (if negative then 1 else 0)
      in do {
        st1 \<leftarrow> put_chars sz (replicate (pad_len sp total_len) (pad_char sp)) st;
        st2 \<leftarrow> (if negative then put_char sz (CHR ''-'') st1 else Some st1);
        st3 \<leftarrow> put_chars sz (rev int_buf) st2;
        if prec > 0 then do {
          st4 \<leftarrow> put_char sz (CHR ''.'') st3;
          frac_buf \<leftarrow> frac_loop prec frac (replicate 32 NUL);
          put_chars sz (take prec frac_buf) st4 }
        else Some st3 })"

text \<open>The switches on the conversion character; the arguments left come back with the output.\<close>

definition unknown :: "u32 \<Rightarrow> char \<Rightarrow> fmt_out \<Rightarrow> fmt_out option" where
  "unknown sz x st = put_chars sz [CHR ''%'', x] st"

definition k_convert :: "u32 \<Rightarrow> fspec \<Rightarrow> char \<Rightarrow> farg list \<Rightarrow> fmt_out \<Rightarrow> (farg list \<times> fmt_out) option" where
  "k_convert sz sp x args st =
     (let out = (\<lambda>as m. map_option (Pair as) m)
      in if x = CHR ''%'' then out args (put_char sz (CHR ''%'') st)
         else if x = CHR ''c'' then
           (case args of W32 w # as \<Rightarrow> out as (put_char sz (chr (unat w)) st) | _ \<Rightarrow> None)
         else if x = CHR ''s'' then
           (case args of Str s # as \<Rightarrow> out as (fmt_string sz s st) | _ \<Rightarrow> None)
         else if x = CHR ''d'' \<or> x = CHR ''i'' then
           (case args of W32 w # as \<Rightarrow> out as (fmt_signed sz sp w st) | _ \<Rightarrow> None)
         else if x = CHR ''u'' then
           (if is_long_long sp
            then (case args of W64 w # as \<Rightarrow> out as (fmt_digits sz sp (dec64_tmp w) st) | _ \<Rightarrow> None)
            else (case args of W32 w # as \<Rightarrow> out as (fmt_digits sz sp (dec_tmp w) st) | _ \<Rightarrow> None))
         else if x = CHR ''x'' \<or> x = CHR ''X'' then
           (if is_long_long sp
            then (case args of W64 w # as \<Rightarrow> out as (fmt_digits sz sp (hex_tmp hex_upper w) st) | _ \<Rightarrow> None)
            else (case args of W32 w # as \<Rightarrow> out as (fmt_digits sz sp (hex_tmp hex_upper w) st) | _ \<Rightarrow> None))
         else if x = CHR ''p'' then
           (case args of W32 w # as \<Rightarrow> out as (fmt_pointer sz w st) | _ \<Rightarrow> None)
         else out args (unknown sz x st))"

definition u_convert :: "u32 \<Rightarrow> fspec \<Rightarrow> char \<Rightarrow> farg list \<Rightarrow> fmt_out \<Rightarrow> (farg list \<times> fmt_out) option" where
  "u_convert sz sp x args st =
     (let out = (\<lambda>as m. map_option (Pair as) m);
          HEX = (if x = CHR ''X'' then hex_upper else hex_lower)
      in if x = CHR ''%'' then out args (put_char sz (CHR ''%'') st)
         else if x = CHR ''c'' then
           (case args of W32 w # as \<Rightarrow> out as (put_char sz (chr (unat w)) st) | _ \<Rightarrow> None)
         else if x = CHR ''s'' then
           (case args of Str s # as \<Rightarrow> out as (fmt_string sz s st) | _ \<Rightarrow> None)
         else if x = CHR ''d'' \<or> x = CHR ''i'' then
           (case args of W32 w # as \<Rightarrow> out as (fmt_signed sz sp w st) | _ \<Rightarrow> None)
         else if x = CHR ''u'' then
           (if is_long_long sp
            then (case args of W64 w # as \<Rightarrow> out as (fmt_digits sz sp (dec64_tmp w) st) | _ \<Rightarrow> None)
            else (case args of W32 w # as \<Rightarrow> out as (fmt_digits sz sp (dec_tmp w) st) | _ \<Rightarrow> None))
         else if x = CHR ''x'' \<or> x = CHR ''X'' then
           (if is_long_long sp
            then (case args of W64 w # as \<Rightarrow> out as (fmt_digits sz sp (hex_tmp HEX w) st) | _ \<Rightarrow> None)
            else (case args of W32 w # as \<Rightarrow> out as (fmt_digits sz sp (hex_tmp HEX w) st) | _ \<Rightarrow> None))
         else if x = CHR ''p'' then
           (case args of W32 w # as \<Rightarrow> out as (fmt_pointer sz w st) | _ \<Rightarrow> None)
         else if x = CHR ''f'' then
           (case args of Dbl neg parts # as \<Rightarrow> out as (fmt_double sz sp neg parts st) | _ \<Rightarrow> None)
         else out args (unknown sz x st))"

subsection \<open>The loops\<close>

lemma number_loop_le: "number_loop n f = Some (n', g) \<Longrightarrow> length g \<le> length f"
  by (induction n f rule: number_loop.induct) (fastforce split: if_splits bind_splits)+

lemma skip_char_le: "skip_char x f = Some (b, g) \<Longrightarrow> length g \<le> length f"
  by (auto simp: skip_char_def split: list.splits if_splits)

lemma parse_flags_width_le: "parse_flags_width f = Some (z, w, g) \<Longrightarrow> length g \<le> length f"
  by (auto simp: parse_flags_width_def dest!: number_loop_le skip_char_le split: bind_splits)

lemma parse_l_le: "parse_l f = Some (l, ll, g) \<Longrightarrow> length g \<le> length f"
  by (auto simp: parse_l_def dest!: skip_char_le split: bind_splits if_splits)

lemma k_parse_le: "k_parse f = Some (sp, g) \<Longrightarrow> length g \<le> length f"
  by (auto simp: k_parse_def dest!: parse_flags_width_le parse_l_le split: bind_splits)

lemma u_parse_le: "u_parse f = Some (sp, g) \<Longrightarrow> length g \<le> length f"
  by (auto simp: u_parse_def dest!: parse_flags_width_le parse_l_le skip_char_le number_loop_le
      split: bind_splits if_splits)

function k_format :: "u32 \<Rightarrow> char list \<Rightarrow> farg list \<Rightarrow> fmt_out \<Rightarrow> fmt_out option" where
  "k_format sz fmt args st =
     (case fmt of
        [] \<Rightarrow> None
      | c # f \<Rightarrow>
          if c = NUL \<or> \<not> snd st < sz - 1 then Some st
          else if c \<noteq> CHR ''%'' then
            (case put_char sz c st of None \<Rightarrow> None | Some st' \<Rightarrow> k_format sz f args st')
          else if f = [] then None
          else if hd f = NUL then Some st
          else
            (case k_parse f of
               None \<Rightarrow> None
             | Some (sp, g) \<Rightarrow>
                 (case g of
                    [] \<Rightarrow> None
                  | x # h \<Rightarrow>
                      (case k_convert sz sp x args st of
                         None \<Rightarrow> None
                       | Some (args', st') \<Rightarrow> k_format sz h args' st'))))"
  by pat_completeness auto
termination
  by (relation "measure (\<lambda>(sz, fmt, args, st). length fmt)") (auto dest!: k_parse_le)

function u_format :: "u32 \<Rightarrow> char list \<Rightarrow> farg list \<Rightarrow> fmt_out \<Rightarrow> fmt_out option" where
  "u_format sz fmt args st =
     (case fmt of
        [] \<Rightarrow> None
      | c # f \<Rightarrow>
          if c = NUL \<or> \<not> snd st < sz - 1 then Some st
          else if c \<noteq> CHR ''%'' then
            (case put_char sz c st of None \<Rightarrow> None | Some st' \<Rightarrow> u_format sz f args st')
          else if f = [] then None
          else if hd f = NUL then Some st
          else
            (case u_parse f of
               None \<Rightarrow> None
             | Some (sp, g) \<Rightarrow>
                 (case g of
                    [] \<Rightarrow> None
                  | x # h \<Rightarrow>
                      (case u_convert sz sp x args st of
                         None \<Rightarrow> None
                       | Some (args', st') \<Rightarrow> u_format sz h args' st'))))"
  by pat_completeness auto
termination
  by (relation "measure (\<lambda>(sz, fmt, args, st). length fmt)") (auto dest!: u_parse_le)

declare k_format.simps [simp del] u_format.simps [simp del]

text \<open>After the loop: the terminator, and the position as the result.\<close>

definition fmt_finish :: "u32 \<Rightarrow> fmt_out \<Rightarrow> (int \<times> char list) option" where
  "fmt_finish sz = (\<lambda>(buf, pos). do {
     b \<leftarrow> (if pos < sz then wr buf (unat pos) NUL
          else if sz > 0 then wr buf (unat (sz - 1)) NUL
          else Some buf);
     Some (sint pos, b) })"

definition k_vsnprintf :: "char list \<Rightarrow> u32 \<Rightarrow> char list \<Rightarrow> farg list \<Rightarrow> (int \<times> char list) option" where
  "k_vsnprintf buf sz fmt args = do { st \<leftarrow> k_format sz fmt args (buf, 0); fmt_finish sz st }"

definition k_snprintf :: "char list \<Rightarrow> u32 \<Rightarrow> char list \<Rightarrow> farg list \<Rightarrow> (int \<times> char list) option" where
  "k_snprintf buf sz fmt args = k_vsnprintf buf sz fmt args"

definition vsnprintf :: "char list \<Rightarrow> u32 \<Rightarrow> char list \<Rightarrow> farg list \<Rightarrow> (int \<times> char list) option" where
  "vsnprintf buf sz fmt args = do { st \<leftarrow> u_format sz fmt args (buf, 0); fmt_finish sz st }"

definition snprintf :: "char list \<Rightarrow> u32 \<Rightarrow> char list \<Rightarrow> farg list \<Rightarrow> (int \<times> char list) option" where
  "snprintf buf sz fmt args = vsnprintf buf sz fmt args"

subsection \<open>The reference\<close>

text \<open>What each conversion prints, and what a whole format prints with no limit on the room.\<close>

definition padded :: "fspec \<Rightarrow> string \<Rightarrow> string" where
  "padded sp s = replicate (pad_len sp (length s)) (pad_char sp) @ s"

definition signed_text :: "fspec \<Rightarrow> int \<Rightarrow> string" where
  "signed_text sp v =
     (if v < 0 then CHR ''-'' # replicate (pad_len sp (length (itos v))) (pad_char sp) @ dec (nat (- v))
      else padded sp (dec (nat v)))"

fun rhexs :: "string \<Rightarrow> nat \<Rightarrow> string" where
  "rhexs D n = (if n = 0 then [] else D ! (n mod 16) # rhexs D (n div 16))"

declare rhexs.simps [simp del]

definition hexs :: "string \<Rightarrow> nat \<Rightarrow> string" where
  "hexs D n = (if n = 0 then ''0'' else rev (rhexs D n))"

definition pointer_text :: "u32 \<Rightarrow> string" where
  "pointer_text w = ''0x'' @ map (\<lambda>i. hex_lower ! (unat w div 16 ^ i mod 16)) (rev [0..<8])"

definition conv_text :: "(char \<Rightarrow> string) \<Rightarrow> fspec \<Rightarrow> char \<Rightarrow> farg list \<Rightarrow> (string \<times> farg list) option" where
  "conv_text HEX sp x args =
     (if x = CHR ''%'' then Some (''%'', args)
      else if x = CHR ''c'' then (case args of W32 w # as \<Rightarrow> Some ([chr (unat w)], as) | _ \<Rightarrow> None)
      else if x = CHR ''s'' then
        (case args of
           Str None # as \<Rightarrow> Some (''(null)'', as)
         | Str (Some p) # as \<Rightarrow> if terminated p then Some (cstr p, as) else None
         | _ \<Rightarrow> None)
      else if x = CHR ''d'' \<or> x = CHR ''i'' then
        (case args of W32 w # as \<Rightarrow> if sint w = INT_MIN then None else Some (signed_text sp (sint w), as) | _ \<Rightarrow> None)
      else if x = CHR ''u'' then
        (case args of
           W64 w # as \<Rightarrow> if is_long_long sp then Some (padded sp (dec (unat w)), as) else None
         | W32 w # as \<Rightarrow> if is_long_long sp then None else Some (padded sp (dec (unat w)), as)
         | _ \<Rightarrow> None)
      else if x = CHR ''x'' \<or> x = CHR ''X'' then
        (case args of
           W64 w # as \<Rightarrow> if is_long_long sp then Some (padded sp (hexs (HEX x) (unat w)), as) else None
         | W32 w # as \<Rightarrow> if is_long_long sp then None else Some (padded sp (hexs (HEX x) (unat w)), as)
         | _ \<Rightarrow> None)
      else if x = CHR ''p'' then (case args of W32 w # as \<Rightarrow> Some (pointer_text w, as) | _ \<Rightarrow> None)
      else if x = CHR ''f'' then None
      else Some ([CHR ''%'', x], args))"

text \<open>The kernel prints \<open>%x\<close> in upper case; in the library the letter chooses, and it knows \<open>%f\<close>.\<close>

definition k_text :: "fspec \<Rightarrow> char \<Rightarrow> farg list \<Rightarrow> (string \<times> farg list) option" where
  "k_text = conv_text (\<lambda>_. hex_upper)"

definition fixed_digits :: "nat \<Rightarrow> nat \<Rightarrow> string" where
  "fixed_digits prec n = map (\<lambda>i. digit_char (n div 10 ^ (prec - Suc i) mod 10)) [0..<prec]"

definition double_text :: "fspec \<Rightarrow> bool \<Rightarrow> (nat \<Rightarrow> u64 \<times> u64) \<Rightarrow> string" where
  "double_text sp negative parts =
     (let prec = (if precision sp < 0 then 6 else nat (precision sp));
          (int0, frac0) = parts prec;
          (int_part, frac) = (if frac0 \<ge> 10 ^ prec then (int0 + 1, frac0 - 10 ^ prec) else (int0, frac0))
      in padded sp ((if negative then ''-'' else []) @ dec (unat int_part)
           @ (if prec > 0 then CHR ''.'' # fixed_digits prec (unat frac) else [])))"

definition u_text :: "fspec \<Rightarrow> char \<Rightarrow> farg list \<Rightarrow> (string \<times> farg list) option" where
  "u_text sp x args =
     (if x = CHR ''f'' then
        (case args of
           Dbl neg parts # as \<Rightarrow> if precision sp \<le> 32 then Some (double_text sp neg parts, as) else None
         | _ \<Rightarrow> None)
      else conv_text (\<lambda>x. if x = CHR ''X'' then hex_upper else hex_lower) sp x args)"

text \<open>The first argument bounds the number of directives and characters of the format.\<close>

fun render :: "(char list \<Rightarrow> (fspec \<times> char list) option) \<Rightarrow>
    (fspec \<Rightarrow> char \<Rightarrow> farg list \<Rightarrow> (string \<times> farg list) option) \<Rightarrow>
    nat \<Rightarrow> char list \<Rightarrow> farg list \<Rightarrow> string option" where
  "render parse text n [] args = None"
| "render parse text 0 (c # f) args = None"
| "render parse text (Suc n) (c # f) args =
     (if c = NUL then Some []
      else if c \<noteq> CHR ''%'' then map_option (\<lambda>t. c # t) (render parse text n f args)
      else if f = [] then None
      else if hd f = NUL then Some []
      else
        (case parse f of
           Some (sp, x # h) \<Rightarrow>
             if x = NUL then None
             else
               (case text sp x args of
                  Some (s, as) \<Rightarrow> map_option (\<lambda>t. s @ t) (render parse text n h as)
                | None \<Rightarrow> None)
         | _ \<Rightarrow> None))"

subsection \<open>Output as text\<close>

text \<open>The state of a formatter that has been given the text \<open>s\<close> for the buffer \<open>b\<close>.\<close>

definition emitted :: "u32 \<Rightarrow> char list \<Rightarrow> string \<Rightarrow> fmt_out" where
  "emitted sz b s = (patch b 0 (take (unat sz - 1) s), of_nat (length s))"

definition room :: "u32 \<Rightarrow> char list \<Rightarrow> bool" where
  "room sz b \<longleftrightarrow> 0 < unat sz \<and> unat sz \<le> length b"

lemma unat_size_minus_1: "0 < unat sz \<Longrightarrow> unat (sz - 1) = unat (sz :: u32) - 1"
  by (simp add: unat_simps)

lemma unat_of_nat_32: "n < 4294967296 \<Longrightarrow> unat (of_nat n :: u32) = n"
  by (simp add: unat_of_nat)

lemma before_end:
  "0 < unat sz \<Longrightarrow> n < 4294967296 \<Longrightarrow> (of_nat n :: u32) < sz - 1 \<longleftrightarrow> n < unat sz - 1"
  by (simp add: word_less_nat_alt unat_size_minus_1 unat_of_nat_32)

lemma put_char_emitted:
  assumes "room sz b" "length s < 4294967295"
  shows "put_char sz c (emitted sz b s) = Some (emitted sz b (s @ [c]))"
proof (cases "length s < unat sz - 1")
  case True
  with assms have "length s < length (patch b 0 s)"
    by (auto simp: room_def)
  moreover from True assms have "(patch b 0 s)[length s := c] = patch b 0 (s @ [c])"
    using patch_snoc [of 0 s b c] by (auto simp: room_def)
  ultimately show ?thesis
    using True assms before_end [of sz "length s"]
    by (simp add: put_char_def emitted_def room_def unat_of_nat_32 wr_in add.commute)
next
  case False
  with assms before_end [of sz "length s"] show ?thesis
    by (simp add: put_char_def emitted_def room_def add.commute)
qed

lemma put_chars_emitted:
  "room sz b \<Longrightarrow> length s + length t < 4294967296 \<Longrightarrow>
   put_chars sz t (emitted sz b s) = Some (emitted sz b (s @ t))"
  by (induction t arbitrary: s) (simp_all add: put_char_emitted)

lemma put_str_emitted:
  "room sz b \<Longrightarrow> terminated p \<Longrightarrow> length s + length (cstr p) < 4294967296 \<Longrightarrow>
   put_str sz p (emitted sz b s) = Some (emitted sz b (s @ cstr p))"
  by (induction p arbitrary: s) (auto simp: put_char_emitted)

lemma put_chars_Nil_append: "put_chars sz (s @ t) st = (case put_chars sz s st of None \<Rightarrow> None | Some st' \<Rightarrow> put_chars sz t st')"
  by (induction s arbitrary: st) (simp_all split: option.splits)

subsection \<open>Numerals\<close>

lemma dec_loop_rdigits:
  "length tmp + length (rdigits (unat v)) \<le> cap \<Longrightarrow> dec_loop cap v tmp = tmp @ rdigits (unat v)"
proof (induction cap v tmp rule: dec_loop.induct)
  case (1 cap v tmp)
  show ?case
  proof (cases "v = 0")
    case False
    then have pos: "0 < unat v" by (simp add: unat_gt_0)
    have dig: "unat (v mod 10) = unat v mod 10" and sh: "unat (v div 10) = unat v div 10"
      by (simp_all add: unat_mod unat_div)
    show ?thesis
      using False pos 1 dig sh by (subst dec_loop.simps) (simp add: rdigits_pos)
  qed (simp add: dec_loop.simps)
qed

lemma dec64_loop_rdigits:
  "length tmp + length (rdigits (unat v)) \<le> cap \<Longrightarrow> dec64_loop cap v tmp = tmp @ rdigits (unat v)"
proof (induction cap v tmp rule: dec64_loop.induct)
  case (1 cap v tmp)
  show ?case
  proof (cases "v = 0")
    case False
    then have pos: "0 < unat v" by (simp add: unat_gt_0)
    have dig: "unat (ucast (v mod 10) :: u32) = unat v mod 10" and sh: "unat (v div 10) = unat v div 10"
      by (simp_all add: unat_mod unat_div unsigned_ucast_eq take_bit_nat_eq_self_iff)
    show ?thesis
      using False pos 1 dig sh by (subst dec64_loop.simps) (simp add: rdigits_pos udiv64_10_ok)
  qed (simp add: dec64_loop.simps)
qed

lemma rhexs_pos: "0 < n \<Longrightarrow> rhexs D n = D ! (n mod 16) # rhexs D (n div 16)"
  by (simp add: rhexs.simps [of D n])

lemma rhexs_0 [simp]: "rhexs D 0 = []"
  by (simp add: rhexs.simps)

lemma hex_loop_rhexs:
  fixes v :: "'a::len word"
  shows "length tmp + length (rhexs D (unat v)) \<le> cap \<Longrightarrow> hex_loop D cap v tmp = tmp @ rhexs D (unat v)"
proof (induction D cap v tmp rule: hex_loop.induct)
  case (1 D cap v tmp)
  show ?case
  proof (cases "v = 0")
    case False
    then have pos: "0 < unat v" by (simp add: unat_gt_0)
    have dig: "unat (v AND 15) = unat v mod 16" by (simp add: unat_simps)
    have sh: "unat (drop_bit 4 v) = unat v div 16" by (simp add: unat_simps)
    show ?thesis
      using False pos 1 dig sh by (subst hex_loop.simps) (simp add: rhexs_pos)
  qed (simp add: hex_loop.simps)
qed

lemma rhexs_length: "n < 16 ^ k \<Longrightarrow> length (rhexs D n) \<le> k"
proof (induction k arbitrary: n)
  case (Suc k)
  then have "n div 16 < 16 ^ k" by (simp add: div_less_iff_less_mult mult.commute)
  with Suc.IH [of "n div 16"] show ?case by (cases "n = 0") (simp_all add: rhexs_pos)
qed simp

lemma rev_dec_tmp: "rev (dec_tmp v) = dec (unat v)"
proof -
  have "length (rdigits (unat v)) \<le> 10" by (rule rdigits_length, rule less_trans [OF unat_lt_2_32]) simp
  then show ?thesis by (simp add: dec_tmp_def dec_def dec_loop_rdigits unat_eq_0)
qed

lemma rev_dec64_tmp: "rev (dec64_tmp v) = dec (unat v)"
proof -
  have "length (rdigits (unat v)) \<le> 20" by (rule rdigits_length, rule less_trans [OF unat_lt_2_64]) simp
  then show ?thesis by (simp add: dec64_tmp_def dec_def dec64_loop_rdigits unat_eq_0)
qed

lemma rev_hex_tmp_32: "rev (hex_tmp D (v :: u32)) = hexs D (unat v)"
proof -
  have "length (rhexs D (unat v)) \<le> 8" by (rule rhexs_length) simp
  then show ?thesis by (simp add: hex_tmp_def hexs_def hex_loop_rhexs unat_eq_0)
qed

lemma rev_hex_tmp_64: "rev (hex_tmp D (v :: u64)) = hexs D (unat v)"
proof -
  have "length (rhexs D (unat v)) \<le> 16" by (rule rhexs_length) simp
  then show ?thesis by (simp add: hex_tmp_def hexs_def hex_loop_rhexs unat_eq_0)
qed

lemma fmt_digits_emitted:
  assumes "room sz b" "length s + length (padded sp (rev tmp)) < 4294967296"
  shows "fmt_digits sz sp tmp (emitted sz b s) = Some (emitted sz b (s @ padded sp (rev tmp)))"
  using assms by (simp add: fmt_digits_def padded_def put_chars_emitted)

lemma unat_of_nonneg: "0 \<le> sint (w :: u32) \<Longrightarrow> unat w = nat (sint w)"
  using uint_sint [of w] sint_lt [of w] take_bit_int_eq_self [of "sint w" 32]
  by (simp add: unat_eq_nat_uint)

lemma fmt_signed_emitted:
  assumes "room sz b" "sint w \<noteq> INT_MIN" "length s + length (signed_text sp (sint w)) < 4294967296"
  shows "fmt_signed sz sp w (emitted sz b s) = Some (emitted sz b (s @ signed_text sp (sint w)))"
proof -
  define v where "v = sint w"
  have range: "- 2147483648 \<le> v" "v < 2147483648"
    unfolding v_def by (use sint_ge [of w] sint_lt [of w] in simp_all)
  show ?thesis
  proof (cases "v < 0")
    case True
    define u where "u = (word_of_int (- v) :: u32)"
    have "u = of_nat (nat (- v))" using True by (simp add: u_def of_nat_nat)
    then have u: "unat u = nat (- v)" using True range unat_of_nat_32 [of "nat (- v)"] by (simp del: of_nat_nat)
    have u0: "u \<noteq> 0" using u True by (auto simp: unat_eq_0 [symmetric])
    have chk: "chk_int (- v) = Some (- v)"
      using True range assms(2) by (simp add: chk_int_def INT_MIN_def INT_MAX_def v_def)
    then have uv: "map_option word_of_int (chk_int (- v)) = Some u" by (simp add: u_def)
    have len: "length (rdigits (unat u)) \<le> 10"
      by (rule rdigits_length, rule less_trans [OF unat_lt_2_32]) simp
    have d: "dec (nat (- v)) = rev (rdigits (unat u))"
      using True by (simp add: dec_def u)
    then have l: "Suc (length (rdigits (unat u))) = length (itos v)"
      using True by (simp add: itos_def)
    have st: "signed_text sp v = CHR ''-'' # replicate (pad_len sp (length (itos v))) (pad_char sp) @ dec (nat (- v))"
      using True by (simp add: signed_text_def)
    have "fmt_signed sz sp w (emitted sz b s) = do {
        st1 \<leftarrow> put_char sz (CHR ''-'') (emitted sz b s);
        st2 \<leftarrow> put_chars sz (replicate (pad_len sp (length (itos v))) (pad_char sp)) st1;
        put_chars sz (dec (nat (- v))) st2 }"
      using True u0 uv len l d
      by (simp add: fmt_signed_def v_def [symmetric] dec_loop_rdigits Let_def del: map_option_eq_Some)
    also have "\<dots> = Some (emitted sz b (s @ signed_text sp v))"
      using assms(1,3) by (simp add: v_def [symmetric] st put_char_emitted put_chars_emitted)
    finally show ?thesis by (simp add: v_def)
  next
    case False
    then have u: "unat w = nat v"
      unfolding v_def by (intro unat_of_nonneg) simp
    have len: "length (rdigits (unat w)) \<le> 10"
      by (rule rdigits_length, rule less_trans [OF unat_lt_2_32]) simp
    have tmp: "rev (if w = 0 then ''0'' else dec_loop 16 w []) = dec (nat v)"
      using len by (simp add: dec_def dec_loop_rdigits u [symmetric] unat_eq_0)
    have "fmt_signed sz sp w (emitted sz b s) =
        fmt_digits sz sp (if w = 0 then ''0'' else dec_loop 16 w []) (emitted sz b s)"
      using False by (simp add: fmt_signed_def v_def [symmetric] Let_def fmt_digits_def)
    also have "\<dots> = Some (emitted sz b (s @ signed_text sp v))"
      using assms(1,3) False by (simp only: tmp fmt_digits_emitted signed_text_def v_def [symmetric] if_False)
    finally show ?thesis by (simp add: v_def)
  qed
qed

lemma length_pointer_text [simp]: "length (pointer_text v) = 10"
  by (simp add: pointer_text_def)

lemma fmt_pointer_emitted:
  "room sz b \<Longrightarrow> length s + 10 < 4294967296 \<Longrightarrow>
   fmt_pointer sz v (emitted sz b s) = Some (emitted sz b (s @ pointer_text v))"
proof -
  assume "room sz b" "length s + 10 < 4294967296"
  moreover have "unat (drop_bit (i * 4) v AND 0xF) = unat v div 16 ^ i mod 16" for i
    by (simp add: unat_simps power_mult mult.commute [of i])
  ultimately show ?thesis
    by (simp add: fmt_pointer_def pointer_text_def put_chars_emitted del: upt_rec_numeral append.simps)
qed

lemma fmt_string_emitted:
  "room sz b \<Longrightarrow> terminated p \<Longrightarrow> length s + length (cstr p) < 4294967296 \<Longrightarrow>
   fmt_string sz (Some p) (emitted sz b s) = Some (emitted sz b (s @ cstr p))"
  by (simp add: fmt_string_def put_str_emitted)

lemma fmt_string_null_emitted:
  "room sz b \<Longrightarrow> length s + 6 < 4294967296 \<Longrightarrow>
   fmt_string sz None (emitted sz b s) = Some (emitted sz b (s @ ''(null)''))"
  using put_str_emitted [of sz b "c_string ''(null)''" s] by (simp add: fmt_string_def)

lemma unknown_emitted:
  "room sz b \<Longrightarrow> length s + 2 < 4294967296 \<Longrightarrow>
   unknown sz x (emitted sz b s) = Some (emitted sz b (s @ [CHR ''%'', x]))"
  by (simp add: unknown_def put_chars_emitted del: put_chars.simps)

lemmas conv_emitted = fmt_pointer_emitted fmt_string_emitted fmt_string_null_emitted unknown_emitted
  fmt_digits_emitted fmt_signed_emitted put_char_emitted
  and rev_tmp = rev_dec_tmp rev_dec64_tmp rev_hex_tmp_32 rev_hex_tmp_64

subsection \<open>Formatters\<close>

locale formatter =
  fixes parse :: "char list \<Rightarrow> (fspec \<times> char list) option"
    and convert :: "u32 \<Rightarrow> fspec \<Rightarrow> char \<Rightarrow> farg list \<Rightarrow> fmt_out \<Rightarrow> (farg list \<times> fmt_out) option"
    and conv :: "fspec \<Rightarrow> char \<Rightarrow> farg list \<Rightarrow> (string \<times> farg list) option"
    and loop :: "u32 \<Rightarrow> char list \<Rightarrow> farg list \<Rightarrow> fmt_out \<Rightarrow> fmt_out option"
  assumes convert_text:
      "conv sp x args = Some (t, args') \<Longrightarrow> room sz b \<Longrightarrow> length s + length t < 4294967296 \<Longrightarrow>
       convert sz sp x args (emitted sz b s) = Some (args', emitted sz b (s @ t))"
    and loop_eq:
      "loop sz fmt args st =
       (case fmt of
          [] \<Rightarrow> None
        | c # f \<Rightarrow>
            if c = NUL \<or> \<not> snd st < sz - 1 then Some st
            else if c \<noteq> CHR ''%'' then (case put_char sz c st of None \<Rightarrow> None | Some st' \<Rightarrow> loop sz f args st')
            else if f = [] then None
            else if hd f = NUL then Some st
            else
              (case parse f of
                 None \<Rightarrow> None
               | Some (sp, g) \<Rightarrow>
                   (case g of
                      [] \<Rightarrow> None
                    | x # h \<Rightarrow>
                        (case convert sz sp x args st of
                           None \<Rightarrow> None
                         | Some (args', st') \<Rightarrow> loop sz h args' st'))))"
begin

text \<open>The loop puts the reference text, or a part of it that fills the room.\<close>

lemma loop_renders:
  assumes "room sz b"
  shows "render parse conv n fmt args = Some t \<Longrightarrow> length s + length t < 4294967296 \<Longrightarrow>
    \<exists>u v. t = u @ v \<and> loop sz fmt args (emitted sz b s) = Some (emitted sz b (s @ u))
      \<and> (v = [] \<or> unat sz - 1 \<le> length (s @ u))"
proof (induction n arbitrary: fmt args s t)
  case 0
  then show ?case by (cases fmt) simp_all
next
  case (Suc n)
  from Suc.prems(1) obtain c f where fmt: "fmt = c # f" by (cases fmt) simp_all
  have full: "\<not> snd (emitted sz b s) < sz - 1 \<longleftrightarrow> unat sz - 1 \<le> length s"
    using assms Suc.prems(2) by (simp add: emitted_def room_def before_end not_less)
  show ?case
  proof (cases "c = NUL \<or> unat sz - 1 \<le> length s")
    case True
    then have "loop sz fmt args (emitted sz b s) = Some (emitted sz b s)"
      using full by (subst loop_eq) (auto simp: fmt)
    with True Suc.prems(1) show ?thesis by (intro exI [of _ "[]"] exI [of _ t]) (auto simp: fmt)
  next
    case False
    then have go: "c \<noteq> NUL" "snd (emitted sz b s) < sz - 1" using full by auto
    show ?thesis
    proof (cases "c = CHR ''%''")
      case lit: False
      with go Suc.prems(1) obtain t' where t': "t = c # t'" "render parse conv n f args = Some t'"
        by (auto simp: fmt)
      have "loop sz fmt args (emitted sz b s) = loop sz f args (emitted sz b (s @ [c]))"
        using go lit assms Suc.prems(2) t'(1) by (subst loop_eq) (simp add: fmt put_char_emitted)
      moreover have "\<exists>u v. t' = u @ v \<and> loop sz f args (emitted sz b (s @ [c])) = Some (emitted sz b ((s @ [c]) @ u))
          \<and> (v = [] \<or> unat sz - 1 \<le> length ((s @ [c]) @ u))"
        using t' Suc.prems(2) by (intro Suc.IH) simp_all
      ultimately obtain u v where "t' = u @ v" "loop sz fmt args (emitted sz b s) = Some (emitted sz b (s @ c # u))"
          "v = [] \<or> unat sz - 1 \<le> length (s @ c # u)"
        by auto
      with t'(1) show ?thesis by (intro exI [of _ "c # u"] exI [of _ v]) simp
    next
      case pct: True
      show ?thesis
      proof (cases "f = [] \<or> hd f = NUL")
        case True
        with Suc.prems(1) pct have "f \<noteq> []" "hd f = NUL" "t = []" by (auto simp: fmt split: if_splits)
        with go pct have "loop sz fmt args (emitted sz b s) = Some (emitted sz b s)"
          by (subst loop_eq) (simp add: fmt)
        with \<open>t = []\<close> show ?thesis by simp
      next
        case False
        with Suc.prems(1) pct obtain sp x h a as t' where d: "parse f = Some (sp, x # h)"
            "conv sp x args = Some (a, as)" "render parse conv n h as = Some t'" "t = a @ t'"
          by (auto simp: fmt split: option.splits list.splits if_splits)
        have "loop sz fmt args (emitted sz b s) = loop sz h as (emitted sz b (s @ a))"
          using go pct False d convert_text [OF d(2) assms, of s] Suc.prems(2)
          by (subst loop_eq) (simp add: fmt)
        moreover have "\<exists>u v. t' = u @ v \<and> loop sz h as (emitted sz b (s @ a)) = Some (emitted sz b ((s @ a) @ u))
            \<and> (v = [] \<or> unat sz - 1 \<le> length ((s @ a) @ u))"
          using d Suc.prems(2) by (intro Suc.IH) simp_all
        ultimately obtain u v where "t' = u @ v" "loop sz fmt args (emitted sz b s) = Some (emitted sz b (s @ a @ u))"
            "v = [] \<or> unat sz - 1 \<le> length (s @ a @ u)"
          by auto
        with d(4) show ?thesis by (intro exI [of _ "a @ u"] exI [of _ v]) simp
      qed
    qed
  qed
qed

lemma emitted_Nil: "emitted sz b [] = (b, 0)"
  by (simp add: emitted_def)

lemma finish_emitted:
  assumes "room sz b" "unat sz = Suc k" "t = u @ v" "v = [] \<or> k \<le> length u" "length u < 2147483648"
  shows "fmt_finish sz (emitted sz b u) = Some (int (length u), patch b 0 (c_string (take k t)))"
proof -
  have sz: "k < length b" "0 < sz"
    using assms(1,2) by (simp_all add: room_def word_less_nat_alt)
  have pos: "unat (of_nat (length u) :: u32) = length u" "sint (of_nat (length u) :: u32) = int (length u)"
    using assms(5) by (simp_all add: unat_of_nat_32 sint_unat)
  have less: "(of_nat (length u) :: u32) < sz \<longleftrightarrow> length u \<le> k"
    by (simp add: word_less_nat_alt pos assms(2) less_Suc_eq_le)
  show ?thesis
  proof (cases "length u \<le> k")
    case True
    then have t: "take k t = u" "take k u = u" using assms(3,4) by auto
    show ?thesis
      using True sz patch_snoc [of 0 u b NUL]
      by (simp add: fmt_finish_def emitted_def t less pos wr_in c_string_def assms(2))
  next
    case False
    then have t: "take k t = take k u" "length (take k u) = k"
      using assms(3) by auto
    have "unat (sz - 1) = k" by (simp add: unat_size_minus_1 assms(2))
    then show ?thesis
      using False sz patch_snoc [of 0 "take k u" b NUL] t(2)
      by (simp add: fmt_finish_def emitted_def t(1) less pos wr_in c_string_def assms(2) del: length_take)
  qed
qed

text \<open>
  The finished output: the first \<open>size - 1\<close> characters of the reference text, terminated, with the
  rest of the buffer as it was before; the result is the length of the text unless it was cut.
\<close>

lemma format_ok:
  assumes "room sz b" "unat sz = Suc k" "render parse conv n fmt args = Some t" "length t < 2147483648"
  shows "\<exists>l. do { st \<leftarrow> loop sz fmt args (b, 0); fmt_finish sz st } =
      Some (int l, patch b 0 (c_string (take k t)))
    \<and> (if length t \<le> k then l = length t else k \<le> l \<and> l \<le> length t)"
proof -
  obtain u v where u: "t = u @ v" "loop sz fmt args (emitted sz b []) = Some (emitted sz b u)"
      "v = [] \<or> k \<le> length u"
    using loop_renders [OF assms(1,3), of "[]"] assms(2,4) by auto
  then have "do { st \<leftarrow> loop sz fmt args (b, 0); fmt_finish sz st } =
      Some (int (length u), patch b 0 (c_string (take k t)))"
    using finish_emitted [OF assms(1,2) u(1,3)] assms(4) by (simp add: emitted_Nil)
  with u(1,3) show ?thesis by (cases v) (auto intro!: exI [of _ "length u"])
qed

end

lemma fixed_digits_Suc:
  "fixed_digits (Suc p) n = fixed_digits p (n div 10) @ [digit_char (n mod 10)]"
proof -
  have "n div 10 ^ (p - i) mod 10 = n div 10 div 10 ^ (p - Suc i) mod 10" if "i < p" for i
  proof -
    have "p - i = Suc (p - Suc i)" using that by simp
    then have "10 ^ (p - i) = 10 * (10 :: nat) ^ (p - Suc i)" by (metis power_Suc)
    then show ?thesis by (simp only: div_mult2_eq)
  qed
  then show ?thesis by (simp add: fixed_digits_def cong: map_cong)
qed

lemma frac_loop_ok:
  "prec \<le> length buf \<Longrightarrow> frac_loop prec frac buf = Some (fixed_digits prec (unat frac) @ drop prec buf)"
proof (induction prec arbitrary: frac buf)
  case (Suc p)
  let ?c = "digit_char (unat (frac mod 10))"
  have d: "drop p (buf[p := ?c]) = ?c # drop (Suc p) buf"
    using Suc.prems Cons_nth_drop_Suc [of p "buf[p := ?c]"] by simp
  have u: "unat (frac mod 10) = unat frac mod 10" "unat (frac div 10) = unat frac div 10"
    by (simp_all add: unat_mod_distrib unat_div_distrib)
  have "frac_loop (Suc p) frac buf = frac_loop p (frac div 10) (buf[p := ?c])"
    using Suc.prems by (simp add: wr_in)
  also have "\<dots> = Some (fixed_digits p (unat frac div 10) @ ?c # drop (Suc p) buf)"
    using Suc.IH [of "buf[p := ?c]" "frac div 10"] Suc.prems by (simp add: d u(2))
  finally show ?case by (simp add: fixed_digits_Suc u(1))
qed (simp add: fixed_digits_def)

lemma rev_dec64_32: "rev (if v = 0 then ''0'' else dec64_loop 32 v []) = dec (unat v)"
proof -
  have "length (rdigits (unat v)) \<le> 20" by (rule rdigits_length, rule less_trans [OF unat_lt_2_64]) simp
  then show ?thesis by (simp add: dec_def dec64_loop_rdigits unat_eq_0)
qed

lemma fmt_double_emitted:
  assumes "room sz b" "precision sp \<le> 32" "length s + length (double_text sp neg parts) < 4294967296"
  shows "fmt_double sz sp neg parts (emitted sz b s) = Some (emitted sz b (s @ double_text sp neg parts))"
proof -
  define prec where "prec = (if precision sp < 0 then 6 else nat (precision sp))"
  obtain int0 frac0 where p: "parts prec = (int0, frac0)" by fastforce
  obtain ip fr where f: "(if frac0 \<ge> 10 ^ prec then (int0 + 1, frac0 - 10 ^ prec) else (int0, frac0)) = (ip, fr)" by fastforce
  define ibuf where "ibuf = (if ip = 0 then ''0'' else dec64_loop 32 ip [])"
  have ibuf: "rev ibuf = dec (unat ip)" unfolding ibuf_def by (rule rev_dec64_32)
  then have il: "length ibuf = length (dec (unat ip))" by (metis length_rev)
  have "prec \<le> 32" using assms(2) by (auto simp: prec_def)
  then have fl: "frac_loop prec fr (replicate 32 NUL) = Some (fixed_digits prec (unat fr) @ replicate (32 - prec) NUL)"
    by (simp add: frac_loop_ok)
  have fd: "length (fixed_digits prec (unat fr)) = prec" by (simp add: fixed_digits_def)
  let ?t = "(if neg then ''-'' else []) @ dec (unat ip) @ (if prec > 0 then CHR ''.'' # fixed_digits prec (unat fr) else [])"
  let ?pad = "replicate (pad_len sp (length ?t)) (pad_char sp)"
  have dt: "double_text sp neg parts = ?pad @ ?t"
    unfolding double_text_def prec_def [symmetric] by (simp add: p f padded_def)
  have tl: "length ibuf + (if prec > 0 then 1 + prec else 0) + (if neg then 1 else 0) = length ?t"
    by (simp add: il fd)
  have len: "length s + length ?pad + length ?t < 4294967296" using assms(3) by (simp add: dt)
  have "fmt_double sz sp neg parts (emitted sz b s) = do {
        st1 \<leftarrow> put_chars sz ?pad (emitted sz b s);
        st2 \<leftarrow> (if neg then put_char sz (CHR ''-'') st1 else Some st1);
        st3 \<leftarrow> put_chars sz (rev ibuf) st2;
        if prec > 0 then do {
          st4 \<leftarrow> put_char sz (CHR ''.'') st3;
          frac_buf \<leftarrow> frac_loop prec fr (replicate 32 NUL);
          put_chars sz (take prec frac_buf) st4 }
        else Some st3 }"
    unfolding fmt_double_def Let_def prec_def [symmetric] p prod.case f ibuf_def [symmetric] tl ..
  also have "\<dots> = Some (emitted sz b (s @ ?pad @ ?t))"
  proof -
    define pad where "pad = ?pad"
    have "length s + length pad + length ?t < 4294967296" using len by (simp only: pad_def)
    then show ?thesis unfolding pad_def [symmetric]
      using assms(1) fd by (cases neg; cases "prec = 0") (simp_all add: fl ibuf put_chars_emitted put_char_emitted)
  qed
  finally show ?thesis by (simp only: dt)
qed

lemma k_convert_text:
  assumes "k_text sp x args = Some (t, args')" "room sz b" "length s + length t < 4294967296"
  shows "k_convert sz sp x args (emitted sz b s) = Some (args', emitted sz b (s @ t))"
proof -
  note tx = k_text_def conv_text_def and cv = k_convert_def Let_def
  consider "x = CHR ''%''" | "x = CHR ''c''" | "x = CHR ''s''" | "x = CHR ''d'' \<or> x = CHR ''i''" | "x = CHR ''u''"
    | "x = CHR ''x'' \<or> x = CHR ''X''" | "x = CHR ''p''" | "x = CHR ''f''"
    | "x \<notin> set ''%csdiuxXpf''"
    by fastforce
  then show ?thesis
  proof cases
    case 1
    with assms show ?thesis by (auto simp: tx cv conv_emitted simp del: map_option_eq_Some)
  next
    case 2
    with assms show ?thesis by (auto simp: tx cv conv_emitted simp del: map_option_eq_Some split: list.splits farg.splits)
  next
    case 3
    with assms show ?thesis
      by (auto simp: tx cv conv_emitted simp del: map_option_eq_Some split: list.splits farg.splits option.splits if_splits)
  next
    case 4
    with assms show ?thesis by (auto simp: tx cv conv_emitted simp del: map_option_eq_Some split: list.splits farg.splits if_splits)
  next
    case 5
    with assms show ?thesis
      by (auto simp: tx cv conv_emitted rev_tmp simp del: map_option_eq_Some split: list.splits farg.splits if_splits)
  next
    case 6
    with assms show ?thesis
      by (auto simp: tx cv conv_emitted rev_tmp simp del: map_option_eq_Some split: list.splits farg.splits if_splits)
  next
    case 7
    with assms show ?thesis
      by (auto simp: tx cv conv_emitted simp del: map_option_eq_Some split: list.splits farg.splits)
  next
    case 8
    with assms show ?thesis by (simp add: tx)
  next
    case 9
    with assms show ?thesis by (auto simp: tx cv conv_emitted simp del: map_option_eq_Some)
  qed
qed

lemma u_convert_conv_text:
  assumes "conv_text (\<lambda>x. if x = CHR ''X'' then hex_upper else hex_lower) sp x args = Some (t, args')" "x \<noteq> CHR ''f''" "room sz b" "length s + length t < 4294967296"
  shows "u_convert sz sp x args (emitted sz b s) = Some (args', emitted sz b (s @ t))"
proof -
  note tx = conv_text_def and cv = u_convert_def Let_def
  consider "x = CHR ''%''" | "x = CHR ''c''" | "x = CHR ''s''" | "x = CHR ''d'' \<or> x = CHR ''i''" | "x = CHR ''u''"
    | "x = CHR ''x'' \<or> x = CHR ''X''" | "x = CHR ''p''" | "x = CHR ''f''"
    | "x \<notin> set ''%csdiuxXpf''"
    by fastforce
  then show ?thesis
  proof cases
    case 1
    with assms show ?thesis by (auto simp: tx cv conv_emitted simp del: map_option_eq_Some)
  next
    case 2
    with assms show ?thesis by (auto simp: tx cv conv_emitted simp del: map_option_eq_Some split: list.splits farg.splits)
  next
    case 3
    with assms show ?thesis
      by (auto simp: tx cv conv_emitted simp del: map_option_eq_Some split: list.splits farg.splits option.splits if_splits)
  next
    case 4
    with assms show ?thesis by (auto simp: tx cv conv_emitted simp del: map_option_eq_Some split: list.splits farg.splits if_splits)
  next
    case 5
    with assms show ?thesis
      by (auto simp: tx cv conv_emitted rev_tmp simp del: map_option_eq_Some split: list.splits farg.splits if_splits)
  next
    case 6
    with assms show ?thesis
      by (auto simp: tx cv conv_emitted rev_tmp simp del: map_option_eq_Some split: list.splits farg.splits if_splits)
  next
    case 7
    with assms show ?thesis
      by (auto simp: tx cv conv_emitted simp del: map_option_eq_Some split: list.splits farg.splits)
  next
    case 8
    with assms show ?thesis by simp
  next
    case 9
    with assms show ?thesis by (auto simp: tx cv conv_emitted simp del: map_option_eq_Some)
  qed
qed

lemma u_convert_text:
  assumes "u_text sp x args = Some (t, args')" "room sz b" "length s + length t < 4294967296"
  shows "u_convert sz sp x args (emitted sz b s) = Some (args', emitted sz b (s @ t))"
proof (cases "x = CHR ''f''")
  case True
  then obtain neg parts where a: "args = Dbl neg parts # args'" "precision sp \<le> 32" "t = double_text sp neg parts"
    using assms(1) by (auto simp: u_text_def split: list.splits farg.splits if_splits)
  with True fmt_double_emitted [OF assms(2) a(2)] assms(3) show ?thesis
    by (simp add: u_convert_def Let_def del: map_option_eq_Some)
next
  case False
  with assms show ?thesis by (intro u_convert_conv_text) (simp_all add: u_text_def)
qed

interpretation kfmt: formatter k_parse k_convert k_text k_format
  by unfold_locales (rule k_convert_text, assumption+, rule k_format.simps)

interpretation ufmt: formatter u_parse u_convert u_text u_format
  by unfold_locales (rule u_convert_text, assumption+, rule u_format.simps)

lemma k_vsnprintf_emits:
  assumes "render k_parse k_text n fmt args = Some t" "length t < 2147483648"
    and "unat sz = Suc k" "k < length buf"
  shows "\<exists>l. k_vsnprintf buf sz fmt args = Some (int l, patch buf 0 (c_string (take k t)))
    \<and> (if length t \<le> k then l = length t else k \<le> l \<and> l \<le> length t)"
  using kfmt.format_ok [of sz buf k n fmt args t] assms by (simp add: k_vsnprintf_def room_def)

subsection \<open>Properties\<close>



text \<open>The same for the library's \<open>vsnprintf\<close>, for the programs that print with it.\<close>

lemma vsnprintf_ok:
  assumes "render u_parse u_text n fmt args = Some t" "length t < 2147483648"
    and "unat sz = Suc k" "k < length buf"
  shows "\<exists>l. vsnprintf buf sz fmt args = Some (int l, patch buf 0 (c_string (take k t)))
    \<and> (if length t \<le> k then l = length t else k \<le> l \<and> l \<le> length t)"
  using ufmt.format_ok [of sz buf k n fmt args t] assms by (simp add: vsnprintf_def room_def)

end
