(* ===== verification/Report.thy ===== *)
theory Report
  imports Tty Format
begin

section \<open>kernel/core/console.c, arch/x86/panic.c: kprintf, panic and the page fault report\<close>

text \<open>
  \<open>console_printf\<close> formats into a buffer of 512 bytes and shows at most 511 of them; on a format and
  arguments that render as a text it is \<open>kprint\<close> of that text, which is how the rest of the model
  prints. \<open>panic\<close> prints its message, as a format, and ends in the loop of \<open>hlt\<close>, from which nothing returns: a call
  that may panic has a result of type \<open>control\<close>, and code after it runs only on \<open>Returns\<close>. The page
  fault handler (arch/x86/mm.c) is called by the stub that \<open>MAKE_EXC_STUB_ERR\<close> (arch/x86/include/exc_stub.h) makes, on the stack the
  processor, the stub and the compiler's prologue of the handler have built.
\<close>

definition console_printf :: "console option \<Rightarrow> char list option \<Rightarrow> farg list \<Rightarrow> (int \<times> console option) option" where
  "console_printf con fmt args =
     (case (con, fmt) of
        (Some c, Some f) \<Rightarrow> do {
          (len, buf) \<leftarrow> k_vsnprintf (replicate 512 NUL) 512 f args;
          c' \<leftarrow> console_put_chars (take (nat (min len 511)) buf) c;
          Some (len, Some c') }
      | _ \<Rightarrow> Some (0, con))"

definition kprintf :: "char list \<Rightarrow> farg list \<Rightarrow> kernel \<Rightarrow> kernel res" where
  "kprintf fmt args k =
     bindR (of_opt (console_printf (Some (k_con k)) (Some fmt) args)) (\<lambda>(_, con).
       case con of Some c \<Rightarrow> Inr (k\<lparr>k_con := c\<rparr>) | None \<Rightarrow> Inl BadAccess)"

text \<open>How a piece of code ends: it returns, or it is in \<open>for (;;) hlt\<close> for ever.\<close>

datatype control = Returns kernel | HltLoop kernel

definition panic_halt :: "char list \<Rightarrow> kernel \<Rightarrow> control res" where
  "panic_halt msg k =
     bindR (kprintf (c_string (''Kernel Panic!!!'' @ [CHR 0x0A])) [] k) (\<lambda>k.
     bindR (kprintf msg [] k) (\<lambda>k.
       Inr (HltLoop k)))"

text \<open>The registers that \<open>pushal\<close> saves, and the words it pushes, the last one first.\<close>

record int_regs =
  r_eax :: u32
  r_ecx :: u32
  r_edx :: u32
  r_ebx :: u32
  r_esp :: u32
  r_ebp :: u32
  r_esi :: u32
  r_edi :: u32

definition pushal :: "int_regs \<Rightarrow> u32 list \<Rightarrow> u32 list" where
  "pushal r st = [r_edi r, r_esi r, r_ebp r, r_esp r, r_ebx r, r_edx r, r_ecx r, r_eax r] @ st"

definition popal :: "u32 list \<Rightarrow> int_regs \<times> u32 list" where
  "popal st = (\<lparr> r_eax = st ! 7, r_ecx = st ! 6, r_edx = st ! 5, r_ebx = st ! 4, r_esp = st ! 3, r_ebp = st ! 2, r_esi = st ! 1, r_edi = st ! 0 \<rparr>,
     drop 8 st)"

text \<open>The calls of \<open>kprintf\<close> one after another.\<close>

primrec kprintf_all :: "(char list \<times> farg list) list \<Rightarrow> kernel \<Rightarrow> kernel res" where
  "kprintf_all [] k = Inr k"
| "kprintf_all (x # xs) k = bindR (kprintf (fst x) (snd x) k) (kprintf_all xs)"

definition nl :: string where "nl = [CHR 0x0A]"
definition esc :: string where "esc = [CHR 0x1B]"

text \<open>\<open>stack\<close> are the words from the stack pointer on, as the handler reads it.\<close>

definition page_fault_handler :: "u32 \<Rightarrow> u32 \<Rightarrow> u32 list \<Rightarrow> u32 \<Rightarrow> u32 \<Rightarrow> kernel \<Rightarrow> control res" where
  "page_fault_handler kernel_va_base err stack cr2 cr3 k =
     bindR (of_opt (rd stack 2)) (\<lambda>eip.
     bindR (of_opt (rd stack 3)) (\<lambda>cs.
     bindR (of_opt (rd stack 4)) (\<lambda>eflags.
     let user_mode = (eip < kernel_va_base);
          str = (\<lambda>s. Str (Some (c_string s)))
      in bindR (kprintf_all
          ([(c_string (esc @ ''[1;37;41m'' @ nl @ ''=== PAGE FAULT ==='' @ esc @ ''[0m'' @ nl), []),
            (c_string ''Address: 0x%08x '', [W32 cr2]),
            (c_string ''Error:   0x%08x '', [W32 err]),
            (c_string ''EIP:     0x%08x '', [W32 eip]),
            (c_string ''CS:      0x%04x '', [W32 cs]),
            (c_string ''EFLAGS:  0x%08x '', [W32 eflags]),
            (c_string (''CR3:     0x%08x'' @ nl), [W32 cr3]),
            (c_string ''  Type:   %s '', [str (if err AND 0x01 \<noteq> 0 then ''protection-violation'' else ''not-present'')]),
            (c_string ''  Access: %s '', [str (if err AND 0x02 \<noteq> 0 then ''write'' else ''read'')]),
            (c_string ''  Mode:   %s '', [str (if user_mode then ''user-mode'' else ''kernel-mode'')])]
           @ (if err AND 0x08 \<noteq> 0 then [(c_string (''  Reserved bit set in page table entry'' @ nl), [])] else [])
           @ (if err AND 0x10 \<noteq> 0 then [(c_string (''  Instruction fetch'' @ nl), [])] else [])) k)
        (panic_halt (c_string ''page fault'')))))"

text \<open>
  The stub: the processor has pushed EFLAGS, CS, EIP and the error code on the stack \<open>older\<close>. \<open>ret\<close> is the return address
  that the call pushes, \<open>frame\<close> what the compiler's prologue puts on the stack before the handler reads the
  stack pointer. If the handler returned, the stub would go back to the interrupted program.
\<close>

datatype stub_end = Interrupted_again int_regs "u32 list" kernel | Halted kernel

definition isr_page_fault_stack :: "int_regs \<Rightarrow> u32 \<Rightarrow> u32 list \<Rightarrow> u32 list \<Rightarrow> u32 list" where
  "isr_page_fault_stack r ret by_cpu older = (let st = pushal r (by_cpu @ older) in ret # st ! 8 # st)"

definition isr_page_fault_stub ::
    "u32 \<Rightarrow> int_regs \<Rightarrow> u32 \<Rightarrow> u32 list \<Rightarrow> u32 \<Rightarrow> u32 \<Rightarrow> u32 \<Rightarrow> u32 \<Rightarrow> u32 list \<Rightarrow> u32 \<Rightarrow> u32 \<Rightarrow> kernel \<Rightarrow> stub_end res" where
  "isr_page_fault_stub kernel_va_base r ret frame err eip cs eflags older cr2 cr3 k =
     (let st = isr_page_fault_stack r ret [err, eip, cs, eflags] older
      in bindR (page_fault_handler kernel_va_base (st ! 1) (frame @ st) cr2 cr3 k) (\<lambda>c.
         case c of
           HltLoop k \<Rightarrow> Inr (Halted k)
         | Returns k \<Rightarrow> (let (r, st) = popal (drop 2 st) in Inr (Interrupted_again r (tl st) k))))"

subsection \<open>Printing a rendered text\<close>

text \<open>\<open>kprintf\<close> on a format that renders is \<open>kprint\<close> of the text.\<close>

lemma kprintf_is_kprint:
  assumes "render k_parse k_text n fmt args = Some t" "length t < 2147483648"
  shows "kprintf fmt args k = kprint t k"
proof -
  have "unat (512 :: u32) = Suc 511" by simp
  then obtain l where l: "k_vsnprintf (replicate 512 NUL) 512 fmt args =
      Some (int l, patch (replicate 512 NUL) 0 (c_string (take 511 t)))"
    "if length t \<le> 511 then l = length t else 511 \<le> l"
    using k_vsnprintf_emits [OF assms, of 512 511 "replicate 512 NUL"] by auto
  have "nat (min (int l) 511) = min (length t) 511" using l(2) by (auto split: if_splits)
  moreover have "take (min (length t) 511) (patch (replicate 512 NUL) 0 (c_string (take 511 t))) = take 511 t"
    by (simp add: patch_def c_string_def min_def)
  ultimately show ?thesis
    by (cases "console_put_chars (take 511 t) (k_con k)") (simp_all add: kprintf_def console_printf_def kprint_def l(1))
qed

subsection \<open>The page fault report\<close>

text \<open>A word in hexadecimal, with leading zeros up to a width.\<close>

definition hex_field :: "nat \<Rightarrow> u32 \<Rightarrow> string" where
  "hex_field n w = (let d = hexs hex_upper (unat w) in replicate (n - length d) CHR ''0'' @ d)"

definition fault_report :: "u32 \<Rightarrow> u32 \<Rightarrow> u32 \<Rightarrow> u32 \<Rightarrow> u32 \<Rightarrow> u32 \<Rightarrow> u32 \<Rightarrow> string list" where
  "fault_report kernel_va_base err cr2 eip cs eflags cr3 =
     [esc @ ''[1;37;41m'' @ nl @ ''=== PAGE FAULT ==='' @ esc @ ''[0m'' @ nl,
      ''Address: 0x'' @ hex_field 8 cr2 @ '' '',
      ''Error:   0x'' @ hex_field 8 err @ '' '',
      ''EIP:     0x'' @ hex_field 8 eip @ '' '',
      ''CS:      0x'' @ hex_field 4 cs @ '' '',
      ''EFLAGS:  0x'' @ hex_field 8 eflags @ '' '',
      ''CR3:     0x'' @ hex_field 8 cr3 @ nl,
      ''  Type:   '' @ (if bit err 0 then ''protection-violation'' else ''not-present'') @ '' '',
      ''  Access: '' @ (if bit err 1 then ''write'' else ''read'') @ '' '',
      ''  Mode:   '' @ (if eip < kernel_va_base then ''user-mode'' else ''kernel-mode'') @ '' '']
     @ (if bit err 3 then [''  Reserved bit set in page table entry'' @ nl] else [])
     @ (if bit err 4 then [''  Instruction fetch'' @ nl] else [])"

definition panic_report :: "string list" where
  "panic_report = [''Kernel Panic!!!'' @ nl, ''page fault'']"

text \<open>Formats without a directive, and with one.\<close>

definition literal :: "string \<Rightarrow> bool" where
  "literal p \<longleftrightarrow> no_nul p \<and> CHR ''%'' \<notin> set p"

lemma render_literal:
  "literal p \<Longrightarrow> render ps tx (length p + n) (p @ f) args = map_option ((@) p) (render ps tx n f args)"
proof (induction p)
  case Nil
  then show ?case by (simp add: option.map_ident)
next
  case (Cons c p)
  then have "literal p" "c \<noteq> CHR ''%''" "c \<noteq> NUL" by (auto simp: literal_def)
  with Cons show ?case by (simp add: option.map_comp comp_def)
qed

lemma render_plain: "literal p \<Longrightarrow> render ps tx (length p + 1) (c_string p) args = Some p"
  using render_literal [of p ps tx 1 "[NUL]" args] by (simp add: c_string_def)

lemma render_one:
  assumes "literal pre" "literal post" "ps (dir @ x # post @ [NUL]) = Some (sp, x # post @ [NUL])" "x \<noteq> NUL"
    and "dir @ [x] = c # r" "c \<noteq> NUL" "tx sp x args = Some (s, [])"
  shows "render ps tx (length pre + Suc (length post + 1)) (c_string (pre @ CHR ''%'' # dir @ x # post)) args = Some (pre @ s @ post)"
proof -
  have ne: "dir @ x # post @ [NUL] = c # r @ post @ [NUL]" using assms(5) by (metis append.assoc append_Cons append_Nil)
  have head: "hd (dir @ x # post @ [NUL]) = c" unfolding ne by simp
  have "render ps tx (Suc (length post + 1)) (CHR ''%'' # dir @ x # post @ [NUL]) args = Some (s @ post)"
    using assms(3,4,6,7) render_plain [OF assms(2), of ps tx "[]"] head by (simp add: c_string_def)
  then show ?thesis using render_literal [OF assms(1), of ps tx "Suc (length post + 1)" "CHR ''%'' # dir @ x # post @ [NUL]" args]
    by (simp add: c_string_def)
qed

lemma kprintf_plain: "literal p \<Longrightarrow> length p < 2147483648 \<Longrightarrow> kprintf (c_string p) [] k = kprint p k"
  by (rule kprintf_is_kprint [OF render_plain])

lemma parse_hex8: "k_parse (''08'' @ CHR ''x'' # r) = Some (\<lparr>zero_pad = True, width = 8, precision = -1, is_long = False, is_long_long = False\<rparr>, CHR ''x'' # r)"
  and parse_hex4: "k_parse (''04'' @ CHR ''x'' # r) = Some (\<lparr>zero_pad = True, width = 4, precision = -1, is_long = False, is_long_long = False\<rparr>, CHR ''x'' # r)"
  and parse_s: "k_parse ([] @ CHR ''s'' # r) = Some (\<lparr>zero_pad = False, width = 0, precision = -1, is_long = False, is_long_long = False\<rparr>, CHR ''s'' # r)"
  by (simp_all add: k_parse_def parse_flags_width_def parse_l_def skip_char_def is_digit_def code_def chk_int_def INT_MIN_def INT_MAX_def)

lemma hex_field_length: "n \<le> 8 \<Longrightarrow> length (hex_field n w) \<le> 8"
proof -
  assume n: "n \<le> 8"
  have "length (rhexs hex_upper (unat w)) \<le> 8" by (rule rhexs_length) simp
  then have "length (hexs hex_upper (unat w)) \<le> 8" by (simp add: hexs_def)
  then show ?thesis using n by (simp add: hex_field_def Let_def)
qed

lemma kprintf_hex:
  assumes "literal pre" "literal post" "length pre + length post < 1000"
  shows "kprintf (c_string (pre @ CHR ''%'' # ''08'' @ CHR ''x'' # post)) [W32 w] k = kprint (pre @ hex_field 8 w @ post) k"
    and "kprintf (c_string (pre @ CHR ''%'' # ''04'' @ CHR ''x'' # post)) [W32 w] k = kprint (pre @ hex_field 4 w @ post) k"
proof -
  have t: "k_text \<lparr>zero_pad = True, width = 8, precision = -1, is_long = False, is_long_long = False\<rparr> CHR ''x'' [W32 w] = Some (hex_field 8 w, [])"
    "k_text \<lparr>zero_pad = True, width = 4, precision = -1, is_long = False, is_long_long = False\<rparr> CHR ''x'' [W32 w] = Some (hex_field 4 w, [])"
    by (simp_all add: k_text_def conv_text_def padded_def pad_len_def pad_char_def hex_field_def Let_def nat_diff_distrib)
  note r = render_one [OF assms(1,2), where ps = k_parse and tx = k_text and x = "CHR ''x''" and args = "[W32 w]" and c = "CHR ''0''", OF _ _ _ _ t(1)]
    render_one [OF assms(1,2), where ps = k_parse and tx = k_text and x = "CHR ''x''" and args = "[W32 w]" and c = "CHR ''0''", OF _ _ _ _ t(2)]
  have r8: "render k_parse k_text (length pre + Suc (length post + 1)) (c_string (pre @ CHR ''%'' # ''08'' @ CHR ''x'' # post)) [W32 w]
      = Some (pre @ hex_field 8 w @ post)"
    using parse_hex8 [of "post @ [NUL]"] by (intro r(1)) simp_all
  have r4: "render k_parse k_text (length pre + Suc (length post + 1)) (c_string (pre @ CHR ''%'' # ''04'' @ CHR ''x'' # post)) [W32 w]
      = Some (pre @ hex_field 4 w @ post)"
    using parse_hex4 [of "post @ [NUL]"] by (intro r(2)) simp_all
  show "kprintf (c_string (pre @ CHR ''%'' # ''08'' @ CHR ''x'' # post)) [W32 w] k = kprint (pre @ hex_field 8 w @ post) k"
    using assms(3) hex_field_length [of 8 w] by (intro kprintf_is_kprint [OF r8]) simp
  show "kprintf (c_string (pre @ CHR ''%'' # ''04'' @ CHR ''x'' # post)) [W32 w] k = kprint (pre @ hex_field 4 w @ post) k"
    using assms(3) hex_field_length [of 4 w] by (intro kprintf_is_kprint [OF r4]) simp
qed

lemma kprintf_str:
  assumes "literal pre" "literal post" "literal s" "length pre + length post + length s < 1000"
  shows "kprintf (c_string (pre @ CHR ''%'' # [] @ CHR ''s'' # post)) [Str (Some (c_string s))] k = kprint (pre @ s @ post) k"
proof -
  have t: "k_text \<lparr>zero_pad = False, width = 0, precision = -1, is_long = False, is_long_long = False\<rparr> CHR ''s'' [Str (Some (c_string s))] = Some (s, [])"
    using assms(3) by (simp add: k_text_def conv_text_def literal_def)
  have r: "render k_parse k_text (length pre + Suc (length post + 1)) (c_string (pre @ CHR ''%'' # [] @ CHR ''s'' # post)) [Str (Some (c_string s))]
      = Some (pre @ s @ post)"
    using parse_s [of "post @ [NUL]"]
    by (intro render_one [OF assms(1,2), where ps = k_parse and tx = k_text and x = "CHR ''s''" and c = "CHR ''s''", OF _ _ _ _ t]) simp_all
  show ?thesis using assms(4) by (intro kprintf_is_kprint [OF r]) simp
qed

text \<open>An escape sequence that selects colours, on a console between characters.\<close>

lemma put_sgr:
  assumes "con_ok con" "con_esc con = CON_ESC_NONE"
  shows "\<exists>con'. console_put_chars (esc @ ''[1;37;41m'') con = Some con' \<and> con_ok con' \<and> con_esc con' = CON_ESC_NONE"
    and "\<exists>con'. console_put_chars (esc @ ''[0m'') con = Some con' \<and> con_ok con' \<and> con_esc con' = CON_ESC_NONE"
  using assms
  by (simp_all add: esc_def console_put_char_def vga_put_char_def esc_char_def is_digit_def code_def Let_def rd_def wr_def
      chk_int_def INT_MIN_def INT_MAX_def vga_handle_sgr_def vga_update_attr_def con_ok_def eval_nat_numeral)

text \<open>Shown as a whole, when no text is longer than the buffer.\<close>

lemma kprint_append:
  assumes "length s \<le> 511" "console_put_chars s (k_con k) = Some con"
  shows "bindR (kprint s k) f = f (k\<lparr>k_con := con\<rparr>)"
  using assms by (simp add: kprint_def)

lemma put_report_head:
  assumes "con_ok con"
  shows "\<exists>con'. console_put_chars (esc @ ''[1;37;41m'') con = Some con' \<and> con_ok con' \<and> con_esc con' = CON_ESC_NONE"
proof -
  have p: "plain_text ''1;37;41m''" "plain_text ''[1;37;41m''" by (simp_all add: plain_text_def)
  have none: "con_ok (con\<lparr>con_esc := CON_ESC_NONE\<rparr>)" using assms by (simp add: con_ok_def)
  show ?thesis
  proof (cases "con_esc con")
    case CON_ESC_NONE
    then show ?thesis using put_sgr(1) assms by blast
  next
    case CON_ESC_CSI
    have "console_put_chars (esc @ ''[1;37;41m'') con = console_put_chars ''1;37;41m'' (con\<lparr>con_esc := CON_ESC_NONE\<rparr>)"
      using CON_ESC_CSI
      by (simp add: esc_def console_put_char_def vga_put_char_def esc_char_def is_digit_def code_def del: console_put_chars.simps(2)
          add: console_put_chars.simps(2) [of "CHR 0x1B"] console_put_chars.simps(2) [of "CHR ''[''"])
    then show ?thesis using put_chars_plain [OF none _ p(1)] by simp
  qed (use put_chars_plain [OF none _ p(2)] in \<open>simp_all add: esc_def console_put_char_def vga_put_char_def
      del: console_put_chars.simps(2) add: console_put_chars.simps(2) [of "CHR 0x1B"]\<close>)
qed

text \<open>The calls of the handler, each as the text it prints.\<close>

lemma literal_simps [simp]: "literal []" "literal (c # s) \<longleftrightarrow> c \<noteq> NUL \<and> c \<noteq> CHR ''%'' \<and> literal s" "literal (s @ t) \<longleftrightarrow> literal s \<and> literal t"
  by (auto simp: literal_def)

primrec kprint_all :: "string list \<Rightarrow> kernel \<Rightarrow> kernel res" where
  "kprint_all [] k = Inr k"
| "kprint_all (t # ts) k = bindR (kprint t k) (kprint_all ts)"

lemma kprint_all_append: "kprint_all (ss @ ts) k = bindR (kprint_all ss k) (kprint_all ts)"
  by (induction ss arbitrary: k) (auto simp: bindR_def split: sum.splits)

lemma kprint_all_ok:
  assumes "\<forall>t \<in> set ts. length t \<le> 511" "console_put_chars (concat ts) (k_con k) = Some con"
  shows "kprint_all ts k = Inr (k\<lparr>k_con := con\<rparr>)"
  using assms
proof (induction ts arbitrary: k)
  case (Cons t ts)
  then obtain con1 where "console_put_chars t (k_con k) = Some con1" "console_put_chars (concat ts) con1 = Some con"
    by (auto simp: console_put_chars_append bind_eq_Some_conv)
  with Cons show ?case by (simp add: kprint_def)
qed simp

text \<open>A call and the text it prints.\<close>

definition prints :: "char list \<times> farg list \<Rightarrow> string \<Rightarrow> bool" where
  "prints x t \<longleftrightarrow> (\<forall>k. kprintf (fst x) (snd x) k = kprint t k)"

lemma kprintf_all_prints: "list_all2 prints xs ts \<Longrightarrow> kprintf_all xs = kprint_all ts"
proof (induction rule: list_all2_induct)
  case (Cons x xs t ts)
  then show ?case by (intro ext) (simp add: prints_def)
qed (rule ext, simp)

lemma bit_tests: "(w::u32) AND 1 \<noteq> 0 \<longleftrightarrow> bit w 0" "w AND 2 \<noteq> 0 \<longleftrightarrow> bit w 1" "w AND 8 \<noteq> 0 \<longleftrightarrow> bit w 3" "w AND 16 \<noteq> 0 \<longleftrightarrow> bit w 4"
  using and_exp_eq_0_iff_not_bit [of w 0] and_exp_eq_0_iff_not_bit [of w 1] and_exp_eq_0_iff_not_bit [of w 3]
    and_exp_eq_0_iff_not_bit [of w 4] by simp_all

lemma bindR_assoc: "bindR (bindR r f) g = bindR r (\<lambda>x. bindR (f x) g)"
  by (cases r) simp_all

lemma handler_prints:
  assumes "5 \<le> length stack"
  shows "page_fault_handler base err stack cr2 cr3 k
    = bindR (kprint_all (fault_report base err cr2 (stack ! 2) (stack ! 3) (stack ! 4) cr3 @ panic_report) k) (\<lambda>k. Inr (HltLoop k))"
proof -
  define eip cs eflags where "eip = stack ! 2" "cs = stack ! 3" "eflags = stack ! 4"
  have slots: "rd stack 2 = Some eip" "rd stack 3 = Some cs" "rd stack 4 = Some eflags"
    using assms by (simp_all add: rd_def eip_cs_eflags_def)
  let ?str = "\<lambda>s. Str (Some (c_string s))"
  have hex: "prints (c_string ''Address: 0x%08x '', [W32 cr2]) (''Address: 0x'' @ hex_field 8 cr2 @ '' '')"
    "prints (c_string ''Error:   0x%08x '', [W32 err]) (''Error:   0x'' @ hex_field 8 err @ '' '')"
    "prints (c_string ''EIP:     0x%08x '', [W32 eip]) (''EIP:     0x'' @ hex_field 8 eip @ '' '')"
    "prints (c_string ''CS:      0x%04x '', [W32 cs]) (''CS:      0x'' @ hex_field 4 cs @ '' '')"
    "prints (c_string ''EFLAGS:  0x%08x '', [W32 eflags]) (''EFLAGS:  0x'' @ hex_field 8 eflags @ '' '')"
    "prints (c_string (''CR3:     0x%08x'' @ nl), [W32 cr3]) (''CR3:     0x'' @ hex_field 8 cr3 @ nl)"
    using kprintf_hex(1) [of "''Address: 0x''" "'' ''" cr2] kprintf_hex(1) [of "''Error:   0x''" "'' ''" err]
      kprintf_hex(1) [of "''EIP:     0x''" "'' ''" eip] kprintf_hex(2) [of "''CS:      0x''" "'' ''" cs]
      kprintf_hex(1) [of "''EFLAGS:  0x''" "'' ''" eflags] kprintf_hex(1) [of "''CR3:     0x''" nl cr3]
    by (simp_all add: prints_def nl_def)
  have str: "prints (c_string ''  Type:   %s '', [?str (if bit err 0 then ''protection-violation'' else ''not-present'')])
      (''  Type:   '' @ (if bit err 0 then ''protection-violation'' else ''not-present'') @ '' '')"
    "prints (c_string ''  Access: %s '', [?str (if bit err 1 then ''write'' else ''read'')])
      (''  Access: '' @ (if bit err 1 then ''write'' else ''read'') @ '' '')"
    "prints (c_string ''  Mode:   %s '', [?str (if eip < base then ''user-mode'' else ''kernel-mode'')])
      (''  Mode:   '' @ (if eip < base then ''user-mode'' else ''kernel-mode'') @ '' '')"
    using kprintf_str [of "''  Type:   ''" "'' ''"] kprintf_str [of "''  Access: ''" "'' ''"] kprintf_str [of "''  Mode:   ''" "'' ''"]
    by (simp_all add: prints_def)
  have plain: "prints (c_string t, []) t" if "literal t" "length t < 1000" for t
    using kprintf_plain [OF that(1)] that(2) by (simp add: prints_def)
  have lit: "prints (c_string (esc @ ''[1;37;41m'' @ nl @ ''=== PAGE FAULT ==='' @ esc @ ''[0m'' @ nl), [])
      (esc @ ''[1;37;41m'' @ nl @ ''=== PAGE FAULT ==='' @ esc @ ''[0m'' @ nl)"
    "prints (c_string (''  Reserved bit set in page table entry'' @ nl), []) (''  Reserved bit set in page table entry'' @ nl)"
    "prints (c_string (''  Instruction fetch'' @ nl), []) (''  Instruction fetch'' @ nl)"
    "prints (c_string (''Kernel Panic!!!'' @ [CHR 0x0A]), []) (''Kernel Panic!!!'' @ nl)"
    "prints (c_string ''page fault'', []) ''page fault''"
    unfolding nl_def esc_def by (rule plain; simp)+
  have halt: "panic_halt (c_string ''page fault'') k = bindR (kprint_all panic_report k) (\<lambda>k. Inr (HltLoop k))" for k
    unfolding panic_report_def using lit(4,5) by (auto simp: panic_halt_def prints_def bindR_def split: sum.splits)
  have opt: "list_all2 prints (if b then [x] else []) (if b then [t] else [])" if "prints x t" for b x t using that by simp
  have all: "list_all2 prints
      ([(c_string (esc @ ''[1;37;41m'' @ nl @ ''=== PAGE FAULT ==='' @ esc @ ''[0m'' @ nl), []),
        (c_string ''Address: 0x%08x '', [W32 cr2]), (c_string ''Error:   0x%08x '', [W32 err]),
        (c_string ''EIP:     0x%08x '', [W32 eip]), (c_string ''CS:      0x%04x '', [W32 cs]),
        (c_string ''EFLAGS:  0x%08x '', [W32 eflags]), (c_string (''CR3:     0x%08x'' @ nl), [W32 cr3]),
        (c_string ''  Type:   %s '', [?str (if bit err 0 then ''protection-violation'' else ''not-present'')]),
        (c_string ''  Access: %s '', [?str (if bit err 1 then ''write'' else ''read'')]),
        (c_string ''  Mode:   %s '', [?str (if eip < base then ''user-mode'' else ''kernel-mode'')])]
       @ (if bit err 3 then [(c_string (''  Reserved bit set in page table entry'' @ nl), [])] else [])
       @ (if bit err 4 then [(c_string (''  Instruction fetch'' @ nl), [])] else []))
      (fault_report base err cr2 eip cs eflags cr3)"
    unfolding fault_report_def by (intro list_all2_appendI opt lit(2,3)) (simp only: list_all2_Cons list_all2_Nil hex str lit(1))
  show ?thesis
    unfolding page_fault_handler_def Let_def bit_tests slots of_opt_simps bindR_simps kprintf_all_prints [OF all] halt kprint_all_append
      bindR_assoc unfolding eip_cs_eflags_def ..
qed

lemma plain_hex_field: "plain_text (hex_field n w)"
proof -
  have rh: "CHR 0x1B \<notin> set (rhexs hex_upper m)" for m
  proof (induction m rule: less_induct)
    case (less m)
    have "hex_upper ! (m mod 16) \<in> set hex_upper" by (rule nth_mem) (simp add: hex_upper_def)
    then have "hex_upper ! (m mod 16) \<noteq> CHR 0x1B" by (auto simp: hex_upper_def)
    then show ?case using less.IH [of "m div 16"] by (cases "m = 0") (simp_all add: rhexs_pos)
  qed
  then show ?thesis by (auto simp: hex_field_def hexs_def plain_text_def Let_def)
qed

lemma report_lengths: "\<forall>t \<in> set (fault_report base err cr2 eip cs eflags cr3 @ panic_report). length t \<le> 511"
  using hex_field_length [of 8 cr2] hex_field_length [of 8 err] hex_field_length [of 8 eip] hex_field_length [of 4 cs]
    hex_field_length [of 8 eflags] hex_field_length [of 8 cr3]
  by (auto simp: fault_report_def panic_report_def nl_def esc_def)

lemma put_report:
  assumes "con_ok con"
  shows "\<exists>con'. console_put_chars (concat (fault_report base err cr2 eip cs eflags cr3 @ panic_report)) con = Some con' \<and> con_ok con'"
proof -
  define body where "body = concat (tl (fault_report base err cr2 eip cs eflags cr3) @ panic_report)"
  have body: "plain_text body"
    by (simp add: body_def fault_report_def panic_report_def nl_def plain_hex_field)
  have split: "concat (fault_report base err cr2 eip cs eflags cr3 @ panic_report) =
      (esc @ ''[1;37;41m'') @ (nl @ ''=== PAGE FAULT ==='') @ (esc @ ''[0m'') @ nl @ body"
    by (simp add: body_def fault_report_def)
  obtain c1 where c1: "console_put_chars (esc @ ''[1;37;41m'') con = Some c1" "con_ok c1" "con_esc c1 = CON_ESC_NONE"
    using put_report_head [OF assms] by blast
  obtain c2 where c2: "console_put_chars (nl @ ''=== PAGE FAULT ==='') c1 = Some c2" "con_ok c2" "con_esc c2 = CON_ESC_NONE"
    using put_chars_plain [OF c1(2,3), of "nl @ ''=== PAGE FAULT ===''"] by (auto simp: nl_def)
  obtain c3 where c3: "console_put_chars (esc @ ''[0m'') c2 = Some c3" "con_ok c3" "con_esc c3 = CON_ESC_NONE"
    using put_sgr(2) [OF c2(2,3)] by blast
  obtain c4 where c4: "console_put_chars (nl @ body) c3 = Some c4" "con_ok c4"
    using put_chars_plain [OF c3(2,3), of "nl @ body"] body by (auto simp: nl_def)
  have join: "console_put_chars x a = Some b \<Longrightarrow> console_put_chars (x @ y) a = console_put_chars y b" for x y a b
    by (simp add: console_put_chars_append)
  show ?thesis unfolding split join [OF c1(1)] join [OF c2(1)] join [OF c3(1)] c4(1) using c4(2) by blast
qed

text \<open>
  C32: a page fault is reported and halts the kernel. In whatever state the console is, the handler
  formats its messages inside \<open>kprintf\<close>'s buffer without cutting any, the screen shows the report
  (the faulting address, the error code, three words of the stack and CR3 in hexadecimal with leading zeros, what the
  bits of the error code mean, and the panic), nothing but the console changes, and the handler never returns to the
  interrupted program. The three words, shown as EIP, CS and EFLAGS, are not those the processor pushed,
  which lie eleven words above the prologue's: without a prologue they are EDI, ESI and EBP.
\<close>

theorem page_fault_reported:
  assumes "con_ok (k_con k)"
  shows "\<exists>con st. st = frame @ isr_page_fault_stack r ret [err, eip, cs, eflags] older
    \<and> isr_page_fault_stub base r ret frame err eip cs eflags older cr2 cr3 k = Inr (Halted (k\<lparr>k_con := con\<rparr>)) \<and> con_ok con
    \<and> console_put_chars (concat (fault_report base err cr2 (st ! 2) (st ! 3) (st ! 4) cr3 @ panic_report)) (k_con k) = Some con
    \<and> (frame = [] \<longrightarrow> st ! 2 = r_edi r \<and> st ! 3 = r_esi r \<and> st ! 4 = r_ebp r)
    \<and> (\<forall>n \<in> {0..<3}. st ! (length frame + 11 + n) = [eip, cs, eflags] ! n)"
proof -
  let ?s = "isr_page_fault_stack r ret [err, eip, cs, eflags] older"
  let ?st = "frame @ ?s"
  have s: "?s = [ret, err, r_edi r, r_esi r, r_ebp r, r_esp r, r_ebx r, r_edx r, r_ecx r, r_eax r, err, eip, cs, eflags] @ older"
    by (simp add: isr_page_fault_stack_def pushal_def)
  obtain con where con: "console_put_chars (concat (fault_report base err cr2 (?st ! 2) (?st ! 3) (?st ! 4) cr3 @ panic_report)) (k_con k) = Some con"
    "con_ok con"
    using put_report [OF assms] by blast
  have "kprint_all (fault_report base err cr2 (?st ! 2) (?st ! 3) (?st ! 4) cr3 @ panic_report) k = Inr (k\<lparr>k_con := con\<rparr>)"
    by (rule kprint_all_ok [OF report_lengths con(1)])
  then have "page_fault_handler base err ?st cr2 cr3 k = Inr (HltLoop (k\<lparr>k_con := con\<rparr>))"
    by (subst handler_prints) (simp_all add: s)
  moreover have "?s ! 1 = err" by (simp add: s)
  ultimately have "isr_page_fault_stub base r ret frame err eip cs eflags older cr2 cr3 k = Inr (Halted (k\<lparr>k_con := con\<rparr>))"
    by (simp add: isr_page_fault_stub_def Let_def)
  moreover have "frame = [] \<longrightarrow> ?st ! 2 = r_edi r \<and> ?st ! 3 = r_esi r \<and> ?st ! 4 = r_ebp r" by (simp add: s)
  moreover have "\<forall>n \<in> {0..<3}. ?st ! (length frame + 11 + n) = [eip, cs, eflags] ! n"
    by (simp add: s nth_append numeral_3_eq_3 atLeast0_lessThan_Suc)
  ultimately show ?thesis using con by blast
qed

text \<open>A fault at 0x400123 on address 1 GB, with 7 in EDI.\<close>

definition demo_regs :: int_regs where
  "demo_regs = \<lparr> r_eax = 0, r_ecx = 0, r_edx = 0, r_ebx = 0, r_esp = 0x4FFFF0, r_ebp = 0, r_esi = 0, r_edi = 7 \<rparr>"

theorem page_fault_reported_witness:
  "\<exists>con. isr_page_fault_stub 0x80000000 demo_regs 0x80001005 [] 6 0x400123 0x08 0x202 [] 0x40000000 0x200000 (bss_kernel\<lparr>k_con := blank_console\<rparr>)
      = Inr (Halted (bss_kernel\<lparr>k_con := con\<rparr>))
    \<and> console_put_chars (concat (fault_report 0x80000000 6 0x40000000 7 0 0 0x200000 @ panic_report)) blank_console = Some con"
proof -
  have ok: "con_ok (k_con (bss_kernel\<lparr>k_con := blank_console\<rparr>))" by (simp add: blank_console_def con_ok_def)
  show ?thesis
    using page_fault_reported [OF ok, of "[]" demo_regs "0x80001005" 6 "0x400123" "0x08" "0x202" "[]" "0x80000000" "0x40000000" "0x200000"]
    by (auto simp: demo_regs_def)
qed

end
