(* ===== verification/Libc.thy ===== *)
theory Libc
  imports Format Syscall
begin

section \<open>libs/libc.c: the library the programs are linked with\<close>

text \<open>
  The string routines, as in theory Kstring; where the library's loop is the kernel's, its loop is
  used again. A program is a \<open>prog\<close>: it returns, has left one of its objects (\<open>Crash\<close>), has run
  out of the steps a loop that waits for the kernel was given (\<open>Hang\<close>), or makes a system call and
  goes on with what the kernel answers. The calls are those of theory Syscall, with the answer a
  program finds when its continuation is \<open>User r out\<close>: the value in EAX and what was written
  through the pointer passed. \<open>execve\<close> is a node of its own, because the kernel's call takes
  addresses of the arrays that the program has as lists here.

  Arrays on the stack start with zeros; no program modelled reads a cell it has not written.
\<close>

subsection \<open>Strings\<close>

definition strcpy :: "char list \<Rightarrow> char list \<Rightarrow> char list option" where
  "strcpy dest src = strcpy_loop dest 0 src"

definition strlen :: "char list \<Rightarrow> nat option" where
  "strlen s = k_strlen s"

text \<open>The loop compares before it looks for the end.\<close>

fun strchr :: "char list \<Rightarrow> char \<Rightarrow> char list option option" where
  "strchr [] c = None"
| "strchr (x # s) c = (if x = c then Some (Some (x # s)) else if x = NUL then Some None else strchr s c)"

definition strncpy :: "char list \<Rightarrow> nat \<Rightarrow> char list \<Rightarrow> nat \<Rightarrow> char list option" where
  "strncpy dest d src n = strncpy_loop dest d src n"

definition strcat :: "char list \<Rightarrow> char list \<Rightarrow> char list option" where
  "strcat dest src = do { d \<leftarrow> strlen dest; strcpy_loop dest d src }"

definition memcpy :: "char list \<Rightarrow> nat \<Rightarrow> char list \<Rightarrow> nat \<Rightarrow> nat \<Rightarrow> char list option" where
  "memcpy dest d src s n = memcpy_loop dest d src s n"

fun strncmp :: "char list \<Rightarrow> char list \<Rightarrow> nat \<Rightarrow> int option" where
  "strncmp s1 s2 0 = Some 0"
| "strncmp (c1 # s1) (c2 # s2) (Suc n) =
     (if c1 \<noteq> c2 then Some (int (code c1) - int (code c2))
      else if c1 = NUL then Some 0
      else strncmp s1 s2 n)"
| "strncmp _ _ (Suc n) = None"

fun strcmp :: "char list \<Rightarrow> char list \<Rightarrow> int option" where
  "strcmp (a # as) (b # bs) =
     (if a \<noteq> NUL \<and> a = b then strcmp as bs else Some (int (code a) - int (code b)))"
| "strcmp _ _ = None"

definition is_blank :: "char \<Rightarrow> bool" where
  "is_blank c \<longleftrightarrow> c = CHR '' '' \<or> c = CHR 0x09 \<or> c = CHR 0x0A"

fun skip_blanks :: "char list \<Rightarrow> char list option" where
  "skip_blanks [] = None"
| "skip_blanks (c # s) = (if is_blank c then skip_blanks s else Some (c # s))"

fun atoi_digits :: "int \<Rightarrow> char list \<Rightarrow> int option" where
  "atoi_digits v [] = None"
| "atoi_digits v (c # s) =
     (if is_digit c then do { m \<leftarrow> chk_int (v * 10); v' \<leftarrow> chk_int (m + (int (code c) - 48)); atoi_digits v' s }
      else Some v)"

definition atoi :: "char list \<Rightarrow> int option" where
  "atoi str = do {
     s \<leftarrow> skip_blanks str;
     c \<leftarrow> rd s 0;
     r \<leftarrow> atoi_digits 0 (if c = CHR ''-'' \<or> c = CHR ''+'' then drop 1 s else s);
     chk_int (if c = CHR ''-'' then - r else r) }"

text \<open>
  \<open>environ\<close> is a null pointer or an array of strings that ends with a null pointer; the array is the
  list of its strings. The loop of \<open>getenv\<close> follows the null pointer.
\<close>

fun getenv_loop :: "char list list \<Rightarrow> char list \<Rightarrow> nat \<Rightarrow> char list option option" where
  "getenv_loop [] name len = Some None"
| "getenv_loop (env # es) name len = do {
     r \<leftarrow> strncmp env name len;
     hit \<leftarrow> (if r = 0 then map_option (\<lambda>c. c = CHR ''='') (rd env len) else Some False);
     if hit then Some (Some (drop (len + 1) env)) else getenv_loop es name len }"

definition getenv :: "char list list option \<Rightarrow> char list option \<Rightarrow> char list option option" where
  "getenv environ name =
     (case name of
        None \<Rightarrow> Some None
      | Some n \<Rightarrow> do {
          c \<leftarrow> rd n 0;
          if c = NUL then Some None
          else do {
            eq \<leftarrow> strchr n (CHR ''='');
            if eq \<noteq> None then Some None
            else do { len \<leftarrow> strlen n; es \<leftarrow> environ; getenv_loop es n len } } })"

subsection \<open>64-bit division\<close>

text \<open>The helpers the compiler calls are the kernel's, loop for loop.\<close>

definition udivdi3 :: "u64 \<Rightarrow> u64 \<Rightarrow> u64" where
  "udivdi3 n d = k_udivdi3 n d"

definition umoddi3 :: "u64 \<Rightarrow> u64 \<Rightarrow> u64" where
  "umoddi3 n d = k_umoddi3 n d"

definition udivmoddi4 :: "u64 \<Rightarrow> u64 \<Rightarrow> bool \<Rightarrow> u64 \<times> u64 option" where
  "udivmoddi4 n d want = k_udivmoddi4 n d want"

definition divdi3 :: "int \<Rightarrow> int \<Rightarrow> int option" where
  "divdi3 a b = k_divdi3 a b"

definition moddi3 :: "int \<Rightarrow> int \<Rightarrow> int option" where
  "moddi3 a b = k_moddi3 a b"

subsection \<open>Programs\<close>

type_synonym answer = "u32 \<times> out"

datatype 'a prog =
    Ret 'a
  | Crash
  | Hang
  | Sys syscall "answer \<Rightarrow> 'a prog"
  | Exec "char list" "char list list" "char list list" "int \<Rightarrow> 'a prog"

primrec bindP :: "'a prog \<Rightarrow> ('a \<Rightarrow> 'b prog) \<Rightarrow> 'b prog" where
  "bindP (Ret x) f = f x"
| "bindP Crash f = Crash"
| "bindP Hang f = Hang"
| "bindP (Sys c k) f = Sys c (\<lambda>r. bindP (k r) f)"
| "bindP (Exec p as es k) f = Exec p as es (\<lambda>r. bindP (k r) f)"

definition tryP :: "'a option \<Rightarrow> ('a \<Rightarrow> 'b prog) \<Rightarrow> 'b prog" where
  "tryP m f = (case m of None \<Rightarrow> Crash | Some x \<Rightarrow> f x)"

lemma tryP_simps [simp]: "tryP (Some x) f = f x" "tryP None f = Crash"
  by (simp_all add: tryP_def)

lemma bindP_assoc: "bindP (bindP m f) g = bindP m (\<lambda>x. bindP (f x) g)"
  by (induction m) simp_all

lemma bindP_Ret [simp]: "bindP m Ret = m"
  by (induction m) simp_all

subsection \<open>System calls\<close>

definition sys_int :: "syscall \<Rightarrow> int prog" where
  "sys_int c = Sys c (\<lambda>(r, _). Ret (sint r))"

definition u_write :: "int \<Rightarrow> char list \<Rightarrow> u32 \<Rightarrow> int prog" where
  "u_write fd buf count = sys_int (SysWrite fd (Some buf) count)"

definition u_read :: "int \<Rightarrow> char list \<Rightarrow> u32 \<Rightarrow> (int \<times> char list) prog" where
  "u_read fd buf count =
     Sys (SysRead fd (Some buf) count)
       (\<lambda>(r, o1). Ret (sint r, case o1 of OutBuf (Some b) \<Rightarrow> b | _ \<Rightarrow> buf))"

definition u_getpid :: "int prog" where "u_getpid = sys_int SysGetpid"

definition u_sched_yield :: "int prog" where "u_sched_yield = sys_int SysSchedYield"

definition u_exit :: "int \<Rightarrow> int prog" where "u_exit status = sys_int (SysExit status)"

definition u_kill :: "int \<Rightarrow> int \<Rightarrow> int prog" where "u_kill pid sig = sys_int (SysKill pid sig)"

definition u_nice :: "int \<Rightarrow> int prog" where "u_nice inc = sys_int SysNice"

definition u_setctty :: "int \<Rightarrow> int prog" where "u_setctty i = sys_int (SysSetctty i)"

text \<open>The status is what the pointer passed points to before the call and after it.\<close>

definition u_waitpid :: "int \<Rightarrow> int \<Rightarrow> int \<Rightarrow> (int \<times> int) prog" where
  "u_waitpid pid status options =
     Sys (SysWaitpid pid options) (\<lambda>(r, o1). Ret (sint r, case o1 of OutStatus s \<Rightarrow> s | _ \<Rightarrow> status))"

definition u_wait :: "int \<Rightarrow> (int \<times> int) prog" where "u_wait status = u_waitpid (-1) status 0"

definition u_fork :: "int prog" where "u_fork = sys_int SysFork"

definition u_vfork :: "int prog" where "u_vfork = u_fork"

definition u_execve :: "char list \<Rightarrow> char list list \<Rightarrow> char list list \<Rightarrow> int prog" where
  "u_execve path argv envp = Exec path argv envp Ret"

definition u_open :: "char list \<Rightarrow> int \<Rightarrow> int \<Rightarrow> int prog" where
  "u_open path flags mode = sys_int (SysOpen (Some path) flags mode)"

definition u_close :: "int \<Rightarrow> int prog" where "u_close fd = sys_int (SysClose fd)"

definition u_getdents :: "int \<Rightarrow> dirent list \<Rightarrow> u32 \<Rightarrow> (int \<times> dirent list) prog" where
  "u_getdents fd buf count =
     Sys (SysGetdents fd (Some buf) count)
       (\<lambda>(r, o1). Ret (sint r, case o1 of OutDents (Some b) \<Rightarrow> b | _ \<Rightarrow> buf))"

definition u_fstat :: "int \<Rightarrow> stat \<Rightarrow> (int \<times> stat) prog" where
  "u_fstat fd buf =
     Sys (SysFstat fd (Some buf)) (\<lambda>(r, o1). Ret (sint r, case o1 of OutStat (Some s) \<Rightarrow> s | _ \<Rightarrow> buf))"

definition O_RDONLY :: int where "O_RDONLY = 0"

definition u_stat :: "char list \<Rightarrow> stat \<Rightarrow> (int \<times> stat) prog" where
  "u_stat path buf =
     bindP (u_open path O_RDONLY 0) (\<lambda>fd.
       if fd < 0 then Ret (-1, buf)
       else bindP (u_fstat fd buf) (\<lambda>r. bindP (u_close fd) (\<lambda>_. Ret r)))"

definition u_lstat :: "char list \<Rightarrow> stat \<Rightarrow> (int \<times> stat) prog" where
  "u_lstat path buf = u_stat path buf"

definition u_chdir :: "char list \<Rightarrow> int prog" where "u_chdir path = sys_int (SysChdir (Some path))"

text \<open>The pointer \<open>getcwd\<close> returns is null or not.\<close>

definition u_getcwd :: "char list \<Rightarrow> u32 \<Rightarrow> (bool \<times> char list) prog" where
  "u_getcwd buf sz =
     Sys (SysGetcwd (Some buf) sz) (\<lambda>(r, o1). Ret (r \<noteq> 0, case o1 of OutBuf (Some b) \<Rightarrow> b | _ \<Rightarrow> buf))"

definition u_brk :: "u32 \<Rightarrow> int prog" where "u_brk addr = sys_int (SysBrk addr)"

text \<open>\<open>__curbrk\<close> is passed and comes back; the result of a failure is \<open>(void *)-1\<close>.\<close>

definition u_sbrk :: "u32 \<Rightarrow> u32 \<Rightarrow> (u32 \<times> u32) prog" where
  "u_sbrk increment curbrk =
     (if increment \<noteq> 0
      then bindP (u_brk (curbrk + increment)) (\<lambda>rc.
             if rc = 0 then Ret (curbrk, curbrk + increment) else Ret (- 1, curbrk))
      else Ret (curbrk, curbrk))"

definition u_clock_gettime :: "int \<Rightarrow> timespec \<Rightarrow> (int \<times> timespec) prog" where
  "u_clock_gettime clk_id tp =
     Sys (SysClockGettime clk_id (Some tp)) (\<lambda>(r, o1). Ret (sint r, case o1 of OutTime (Some t) \<Rightarrow> t | _ \<Rightarrow> tp))"

subsection \<open>\<open>printf\<close>\<close>

definition FD_STDIN :: int where "FD_STDIN = 0"
definition FD_STDOUT :: int where "FD_STDOUT = 1"

definition printf :: "string \<Rightarrow> farg list \<Rightarrow> int prog" where
  "printf fmt args =
     tryP (vsnprintf (replicate 512 NUL) 512 (c_string fmt) args) (\<lambda>(len, buf).
       if len > 0
       then let to_write = (if len < 512 then len else 511)
            in bindP (u_write FD_STDOUT buf (word_of_int to_write)) (\<lambda>_. Ret len)
       else Ret len)"

text \<open>\<open>(status >> 8) & 0xff\<close> on a signed number.\<close>

definition exit_code_of :: "int \<Rightarrow> int" where
  "exit_code_of status = (status div 256) mod 256"

text \<open>A line of output: the text and a newline.\<close>

definition ln :: "string \<Rightarrow> string" where "ln s = s @ [CHR 0x0A]"

definition print_line :: "string \<Rightarrow> farg list \<Rightarrow> unit prog" where
  "print_line fmt args = bindP (printf (ln fmt) args) (\<lambda>_. Ret ())"

definition quoted :: "string \<Rightarrow> string" where
  "quoted s = [CHR 0x27] @ s @ [CHR 0x27]"

primrec print_lines :: "string list \<Rightarrow> unit prog" where
  "print_lines [] = Ret ()"
| "print_lines (l # ls) = bindP (print_line l []) (\<lambda>_. print_lines ls)"

subsection \<open>Running programs against a kernel that keeps its word\<close>

text \<open>
  What the library and the programs rely on in an answer. Reading writes into the buffer passed and
  reports no more bytes than asked for; \<open>getdents\<close> reports whole entries of the length it stores in
  them, with terminated names; \<open>fstat\<close> gives a size that is an \<open>int\<close>; \<open>getcwd\<close> leaves a terminated path; a process number is not \<open>INT_MIN\<close>.
\<close>

definition dirent_ok :: "dirent \<Rightarrow> bool" where
  "dirent_ok de \<longleftrightarrow> length (d_name de) = MAX_FILENAME_LEN \<and> terminated (d_name de)
     \<and> d_reclen de = ucast SIZEOF_DIRENT"

definition admissible :: "syscall \<Rightarrow> answer \<Rightarrow> bool" where
  "admissible call ans =
     (case ans of (r, o1) \<Rightarrow>
       case call of
         SysRead fd (Some b) count \<Rightarrow>
           (\<exists>b'. o1 = OutBuf (Some b') \<and> length b' = length b \<and> sint r \<le> int (unat count))
       | SysGetdents fd (Some b) count \<Rightarrow>
           (\<exists>b' n. o1 = OutDents (Some b') \<and> length b' = length b
              \<and> (sint r \<le> 0 \<or> sint r = int (n * unat SIZEOF_DIRENT) \<and> n \<le> length b' \<and> n * unat SIZEOF_DIRENT \<le> unat count
                   \<and> (\<forall>i < n. dirent_ok (b' ! i))))
       | SysFstat fd (Some st) \<Rightarrow>
           (\<exists>st'. o1 = OutStat (Some st') \<and> (sint r = 0 \<longrightarrow> 0 \<le> st_size st' \<and> st_size st' \<le> INT_MAX))
       | SysGetcwd (Some b) sz \<Rightarrow>
           (\<exists>b'. o1 = OutBuf (Some b') \<and> length b' = length b \<and> (r \<noteq> 0 \<longrightarrow> terminated b'))
       | SysClockGettime i (Some tp) \<Rightarrow>
           (\<exists>tp'. o1 = OutTime (Some tp') \<and> (sint r = 0 \<longrightarrow> 0 \<le> tv_sec tp' \<and> tv_sec tp' < 2 ^ 32
              \<and> 0 \<le> tv_nsec tp' \<and> tv_nsec tp' < 10 ^ 9))
       | SysGetpid \<Rightarrow> INT_MIN < sint r
       | SysFork \<Rightarrow> INT_MIN < sint r
       | _ \<Rightarrow> True)"

text \<open>
  What a program promises in a call: the length it passes is at most that of the object it passes (for
  \<open>getdents\<close>, in whole entries), and every string it passes is terminated.
\<close>

definition passes :: "syscall \<Rightarrow> bool" where
  "passes call =
     (case call of
        SysRead fd (Some b) count \<Rightarrow> unat count \<le> length b
      | SysWrite fd (Some b) count \<Rightarrow> unat count \<le> length b
      | SysGetdents fd (Some b) count \<Rightarrow> unat count div unat SIZEOF_DIRENT \<le> length b
      | SysGetcwd (Some b) sz \<Rightarrow> unat sz \<le> length b
      | SysOpen (Some p) fl md \<Rightarrow> terminated p
      | SysChdir (Some p) \<Rightarrow> terminated p
      | _ \<Rightarrow> True)"

text \<open>
  \<open>safe Q p\<close>: whatever the kernel answers within the contract, \<open>p\<close> neither leaves its objects nor passes more
  of one to the kernel than there is, and if it returns, its result satisfies \<open>Q\<close>.
\<close>

primrec safe :: "('a \<Rightarrow> bool) \<Rightarrow> 'a prog \<Rightarrow> bool" where
  "safe Q (Ret x) = Q x"
| "safe Q Crash = False"
| "safe Q Hang = True"
| "safe Q (Sys c k) = (passes c \<and> (\<forall>r. admissible c r \<longrightarrow> safe Q (k r)))"
| "safe Q (Exec p as es k) = (terminated p \<and> list_all terminated as \<and> list_all terminated es \<and> (\<forall>r. safe Q (k r)))"

lemma safe_bindP: "safe Q (bindP m f) = safe (\<lambda>x. safe Q (f x)) m"
  by (induction m) simp_all

lemma safe_mono: "safe P m \<Longrightarrow> (\<And>x. P x \<Longrightarrow> Q x) \<Longrightarrow> safe Q m"
  by (induction m) auto

lemma safe_tryP: "safe Q (tryP m f) \<longleftrightarrow> (\<exists>x. m = Some x \<and> safe Q (f x))"
  by (cases m) simp_all

lemma safe_bindI: "safe P m \<Longrightarrow> (\<And>x. P x \<Longrightarrow> safe Q (f x)) \<Longrightarrow> safe Q (bindP m f)"
  unfolding safe_bindP by (rule safe_mono)

named_theorems safe_rules \<open>programs that are safe\<close>

lemma sys_int_safe [safe_rules]: "passes c \<Longrightarrow> safe (\<lambda>_. True) (sys_int c)"
  by (auto simp: sys_int_def)

lemmas u_calls_def = u_write_def u_getpid_def u_sched_yield_def u_exit_def u_kill_def u_nice_def u_setctty_def
  u_fork_def u_vfork_def u_open_def u_close_def u_chdir_def u_brk_def

lemma u_calls_safe [safe_rules]:
  "unat n \<le> length b \<Longrightarrow> safe (\<lambda>_. True) (u_write fd b n)" "safe (\<lambda>_. True) (u_exit s)"
  "terminated p \<Longrightarrow> safe (\<lambda>_. True) (u_open p fl md)" "safe (\<lambda>_. True) (u_close fd)"
  "terminated p \<Longrightarrow> safe (\<lambda>_. True) (u_chdir p)" "safe (\<lambda>_. True) (u_kill pid sig)"
  "terminated p \<Longrightarrow> list_all terminated as \<Longrightarrow> list_all terminated es \<Longrightarrow> safe (\<lambda>_. True) (u_execve p as es)"
  "safe (\<lambda>_. True) (u_setctty i)" "safe (\<lambda>_. True) u_sched_yield"
  by (simp_all add: u_calls_def sys_int_safe u_execve_def passes_def)

lemma u_pid_safe [safe_rules]:
  "safe (\<lambda>p. INT_MIN < p \<and> p \<le> INT_MAX) u_getpid" "safe (\<lambda>p. INT_MIN < p \<and> p \<le> INT_MAX) u_fork"
proof -
  have "sint (r :: u32) \<le> INT_MAX" for r
    using sint_lt [of r] by (simp add: INT_MAX_def)
  then show "safe (\<lambda>p. INT_MIN < p \<and> p \<le> INT_MAX) u_getpid" "safe (\<lambda>p. INT_MIN < p \<and> p \<le> INT_MAX) u_fork"
    by (auto simp: u_getpid_def u_fork_def sys_int_def admissible_def passes_def)
qed

lemma sint_range: "INT_MIN \<le> sint (w :: u32) \<and> sint w \<le> INT_MAX"
  using sint_ge [of w] sint_lt [of w] by (simp add: INT_MIN_def INT_MAX_def)

lemma u_read_safe:
  "unat count \<le> length b \<Longrightarrow> safe (\<lambda>(n, b'). length b' = length b \<and> n \<le> int (unat count)) (u_read fd b count)"
  by (auto simp: u_read_def admissible_def passes_def)

lemma u_getdents_safe:
  "unat count div unat SIZEOF_DIRENT \<le> length b \<Longrightarrow>
   safe (\<lambda>(r, b'). length b' = length b \<and> (r \<le> 0 \<or> (\<exists>n. r = int (n * unat SIZEOF_DIRENT) \<and> n \<le> length b'
      \<and> n * unat SIZEOF_DIRENT \<le> unat count \<and> (\<forall>i < n. dirent_ok (b' ! i))))) (u_getdents fd b count)"
  by (auto simp: u_getdents_def admissible_def passes_def)

lemma u_waitpid_safe: "safe (\<lambda>_. True) (u_waitpid pid st opts)"
  by (auto simp: u_waitpid_def passes_def)

lemma u_wait_safe: "safe (\<lambda>_. True) (u_wait st)"
  by (simp add: u_wait_def u_waitpid_safe)

definition size_known :: "int \<times> stat \<Rightarrow> bool" where
  "size_known r \<longleftrightarrow> (fst r = 0 \<longrightarrow> 0 \<le> st_size (snd r) \<and> st_size (snd r) \<le> INT_MAX)"

lemma u_fstat_safe: "safe size_known (u_fstat fd b)"
  by (auto simp: u_fstat_def admissible_def size_known_def passes_def)

lemma u_stat_safe: "terminated p \<Longrightarrow> safe size_known (u_stat p b)"
  unfolding u_stat_def
  by (intro safe_bindI [OF u_calls_safe(3)])
    (auto intro!: safe_bindI [OF u_fstat_safe] safe_bindI [OF u_calls_safe(4)] simp: size_known_def [of "(-1, _)"])

lemma u_getcwd_safe:
  "unat sz \<le> length b \<Longrightarrow> safe (\<lambda>(ok, b'). length b' = length b \<and> (ok \<longrightarrow> terminated b')) (u_getcwd b sz)"
  by (auto simp: u_getcwd_def admissible_def passes_def)

lemma u_clock_gettime_safe:
  "safe (\<lambda>(r, t). r = 0 \<longrightarrow> 0 \<le> tv_sec t \<and> tv_sec t < 2 ^ 32 \<and> 0 \<le> tv_nsec t \<and> tv_nsec t < 10 ^ 9)
     (u_clock_gettime i tp)"
  by (auto simp: u_clock_gettime_def admissible_def passes_def)

text \<open>What a format prints; the number of steps is its length.\<close>

definition rendered :: "string \<Rightarrow> farg list \<Rightarrow> string option" where
  "rendered fmt args = render u_parse u_text (length (c_string fmt)) (c_string fmt) args"

lemma unat_u32_int: "0 \<le> x \<Longrightarrow> x < 4294967296 \<Longrightarrow> unat (word_of_int x :: u32) = nat x"
  by (simp add: unat_eq_nat_uint uint_word_of_int)

lemma printf_safe:
  assumes "rendered fmt args = Some t" "length t < 2147483648"
  shows "safe (\<lambda>_. True) (printf fmt args)"
proof -
  obtain l where "vsnprintf (replicate 512 NUL) 512 (c_string fmt) args =
      Some (int l, patch (replicate 512 NUL) 0 (c_string (take 511 t)))"
    using vsnprintf_ok [OF assms(1) [unfolded rendered_def] assms(2), of 512 511 "replicate 512 NUL"] by auto
  moreover have "length (patch (replicate 512 NUL) 0 (c_string (take 511 t))) = 512" by (simp add: patch_def c_string_def)
  moreover have "unat (word_of_int (if int l < 512 then int l else 511) :: u32) \<le> 512"
    by (simp add: unat_u32_int)
  ultimately show ?thesis
    by (auto simp: printf_def Let_def intro!: safe_bindI [OF u_calls_safe(1)])
qed

subsection \<open>Formats that can be printed\<close>

text \<open>
  \<open>plain fmt args\<close>: every directive of \<open>fmt\<close> has its argument, strings are terminated, and no number
  is \<open>INT_MIN\<close>. It computes on a format and the shape of its arguments, so that a program's \<open>printf\<close>
  is seen to be safe by simplification.
\<close>

definition plain_conv :: "fspec \<Rightarrow> char \<Rightarrow> farg \<Rightarrow> bool" where
  "plain_conv sp x a \<longleftrightarrow> width sp \<le> 1000 \<and>
     (case a of
        Str (Some p) \<Rightarrow> x = CHR ''s'' \<and> terminated p \<and> length (cstr p) \<le> 4096
      | W32 w \<Rightarrow> x = CHR ''c'' \<or> x = CHR ''d'' \<and> sint w \<noteq> INT_MIN \<or> x = CHR ''u'' \<and> \<not> is_long_long sp
      | W64 w \<Rightarrow> x = CHR ''u'' \<and> is_long_long sp
      | Dbl neg parts \<Rightarrow> x = CHR ''f'' \<and> precision sp \<le> 32
      | _ \<Rightarrow> False)"

function plain :: "char list \<Rightarrow> farg list \<Rightarrow> bool" where
  "plain fmt args =
     (case fmt of
        [] \<Rightarrow> False
      | c # f \<Rightarrow>
          if c = NUL then True
          else if c \<noteq> CHR ''%'' then plain f args
          else
            f \<noteq> [] \<and> hd f \<noteq> NUL \<and>
            (case u_parse f of
               Some (sp, x # h) \<Rightarrow> (case args of a # as \<Rightarrow> plain_conv sp x a \<and> plain h as | [] \<Rightarrow> False)
             | _ \<Rightarrow> False))"
  by pat_completeness auto
termination
  by (relation "measure (\<lambda>(fmt, args). length fmt)") (auto dest!: u_parse_le)

declare plain.simps [simp del]

lemma dec_unat_length: "length (dec (unat (w :: 'a::len word))) \<le> 20" if "LENGTH('a) \<le> 64"
proof -
  have "unat w < 2 ^ LENGTH('a)" by (rule unsigned_less)
  also have "\<dots> \<le> 2 ^ 64" using that by (rule power_increasing) simp
  finally have "unat w < 10 ^ 20" by simp
  then show ?thesis by (rule dec_length) simp
qed

lemma pad_len_le: "width sp \<le> 1000 \<Longrightarrow> pad_len sp n \<le> 1000"
  by (auto simp: pad_len_def)

lemma padded_length: "width sp \<le> 1000 \<Longrightarrow> length s \<le> 1000 \<Longrightarrow> length (padded sp s) \<le> 4096"
  using pad_len_le [of sp "length s"] by (simp add: padded_def)

lemma signed_text_length: "width sp \<le> 1000 \<Longrightarrow> length (signed_text sp (sint (w :: u32))) \<le> 4096"
proof -
  assume w: "width sp \<le> 1000"
  have "sint w < 2 ^ 31" "- (2 ^ 31) \<le> sint w" using sint_lt [of w] sint_ge [of w] by simp_all
  then have "nat (sint w) < 10 ^ 10" "nat (- sint w) < 10 ^ 10" by auto
  then have "length (dec (nat (sint w))) \<le> 10" "length (dec (nat (- sint w))) \<le> 10"
    by (simp_all add: dec_length)
  moreover have "pad_len sp (length (itos (sint w))) \<le> 1000" by (rule pad_len_le [OF w])
  ultimately show ?thesis using padded_length [OF w, of "dec (nat (sint w))"]
    by (simp add: signed_text_def)
qed

lemma double_text_length:
  assumes "width sp \<le> 1000" "precision sp \<le> 32"
  shows "length (double_text sp neg parts) \<le> 4096"
proof -
  define prec where "prec = (if precision sp < 0 then 6 else nat (precision sp))"
  obtain int0 frac0 where p: "parts prec = (int0, frac0)" by fastforce
  obtain ip fr where f: "(if frac0 \<ge> 10 ^ prec then (int0 + 1, frac0 - 10 ^ prec) else (int0, frac0)) = (ip, fr)" by fastforce
  have "prec \<le> 32" using assms(2) by (auto simp: prec_def)
  moreover have "length (dec (unat ip)) \<le> 20" by (rule dec_unat_length) simp
  ultimately show ?thesis
    unfolding double_text_def Let_def prec_def [symmetric] p prod.case f
    using assms(1) by (intro padded_length) (simp_all add: fixed_digits_def)
qed

lemma plain_conv_text: "plain_conv sp x a \<Longrightarrow> \<exists>s. u_text sp x (a # as) = Some (s, as) \<and> length s \<le> 4096"
proof -
  assume p: "plain_conv sp x a"
  note simps = plain_conv_def u_text_def conv_text_def
  show ?thesis
  proof (cases a)
    case (W32 w)
    have "length (padded sp (dec (unat w))) \<le> 4096"
      using p dec_unat_length [of w] by (intro padded_length) (simp_all add: plain_conv_def)
    with p W32 show ?thesis by (auto simp: simps signed_text_length)
  next
    case (W64 w)
    have "length (padded sp (dec (unat w))) \<le> 4096"
      using p dec_unat_length [of w] by (intro padded_length) (simp_all add: plain_conv_def)
    with p W64 show ?thesis by (auto simp: simps)
  next
    case (Str s)
    with p show ?thesis by (cases s) (auto simp: simps)
  next
    case (Dbl n d)
    with p show ?thesis by (auto simp: simps double_text_length)
  qed
qed

lemma plain_conv_char: "plain_conv sp x a \<Longrightarrow> x \<noteq> NUL"
  by (auto simp: plain_conv_def split: farg.splits option.splits)

lemma plain_directive:
  assumes "plain (CHR ''%'' # f) args"
  obtains sp x h a as where "f \<noteq> []" "hd f \<noteq> NUL" "u_parse f = Some (sp, x # h)" "args = a # as"
    "plain_conv sp x a" "plain h as"
  using assms [unfolded plain.simps [of "CHR ''%'' # f" args]]
  by (cases args) (auto split: option.splits list.splits)

lemma plain_renders:
  "plain fmt args \<Longrightarrow> length fmt \<le> n \<Longrightarrow>
   \<exists>t. render u_parse u_text n fmt args = Some t \<and> length t \<le> 4096 * length fmt"
proof (induction fmt args arbitrary: n rule: plain.induct)
  case (1 fmt args)
  obtain c f where fmt: "fmt = c # f" using 1(3) by (cases fmt) (auto simp: plain.simps)
  with 1(4) obtain m where n: "n = Suc m" "length f \<le> m" by (cases n) auto
  consider "c = NUL" | "c \<noteq> NUL" "c \<noteq> CHR ''%''" | "c = CHR ''%''" by auto
  then show ?case
  proof cases
    case 1
    then show ?thesis by (simp add: fmt n)
  next
    case 2
    then have "plain f args" using \<open>plain fmt args\<close> by (subst (asm) plain.simps) (simp add: fmt)
    with 2 "1.IH"(1) [OF fmt 2(1,2) _ n(2)] show ?thesis by (auto simp: fmt n)
  next
    case 3
    obtain sp x h a as where d: "f \<noteq> []" "hd f \<noteq> NUL" "u_parse f = Some (sp, x # h)" "args = a # as"
        "plain_conv sp x a" "plain h as"
      using plain_directive \<open>plain fmt args\<close> 3 unfolding fmt by blast
    have h: "length h < length f" using u_parse_le [OF d(3)] by simp
    with n(2) have "length h \<le> m" by simp
    then obtain t where t: "render u_parse u_text m h as = Some t" "length t \<le> 4096 * length h"
      using "1.IH"(2) [OF fmt _ _ d(3) refl refl d(4) d(6)] 3 by auto
    obtain s where "u_text sp x (a # as) = Some (s, as)" "length s \<le> 4096"
      using plain_conv_text [OF d(5)] by blast
    with t d h plain_conv_char [OF d(5)] 3 show ?thesis by (auto simp: fmt n)
  qed
qed

lemma printf_plain [safe_rules]:
  assumes "plain (c_string fmt) args" "length fmt < 1000"
  shows "safe (\<lambda>_. True) (printf fmt args)"
proof -
  obtain t where "rendered fmt args = Some t" "length t \<le> 4096 * length (c_string fmt)"
    using plain_renders [OF assms(1) order_refl] by (auto simp: rendered_def)
  with assms(2) show ?thesis by (intro printf_safe) (auto simp: c_string_def)
qed

text \<open>What \<open>plain\<close> computes for the directives the programs use.\<close>

lemma plain_Nil [simp]: "plain [] args = False"
  by (simp add: plain.simps)

lemma plain_end [simp]: "plain (NUL # f) args"
  by (simp add: plain.simps)

lemma plain_char [simp]: "c \<noteq> NUL \<Longrightarrow> c \<noteq> CHR ''%'' \<Longrightarrow> plain (c # f) args = plain f args"
  by (subst plain.simps) simp

lemma plain_s [simp]:
  "plain (CHR ''%'' # CHR ''s'' # f) (Str (Some p) # as) = (terminated p \<and> length (cstr p) \<le> 4096 \<and> plain f as)"
  by (subst plain.simps) (simp add: u_parse_def parse_flags_width_def skip_char_def parse_l_def plain_conv_def is_digit_def code_def)

lemma plain_d [simp]:
  "plain (CHR ''%'' # CHR ''d'' # f) (W32 w # as) = (sint w \<noteq> INT_MIN \<and> plain f as)"
  by (subst plain.simps) (simp add: u_parse_def parse_flags_width_def skip_char_def parse_l_def plain_conv_def is_digit_def code_def)

lemma plain_c [simp]: "plain (CHR ''%'' # CHR ''c'' # f) (W32 w # as) = plain f as"
  by (subst plain.simps) (simp add: u_parse_def parse_flags_width_def skip_char_def parse_l_def plain_conv_def is_digit_def code_def)

lemma plain_u [simp]: "plain (CHR ''%'' # CHR ''u'' # f) (W32 w # as) = plain f as"
  by (subst plain.simps) (simp add: u_parse_def parse_flags_width_def skip_char_def parse_l_def plain_conv_def is_digit_def code_def)

lemma plain_no_args:
  "list_all (\<lambda>c. c \<noteq> NUL \<and> c \<noteq> CHR ''%'') s \<Longrightarrow> plain (s @ f) args = plain f args"
  by (induction s) simp_all

lemma safe_thenI: "safe (\<lambda>_. True) m \<Longrightarrow> (\<And>x. safe Q (f x)) \<Longrightarrow> safe Q (bindP m f)"
  by (rule safe_bindI)

lemma print_line_safe:
  assumes "plain (c_string (ln fmt)) args" "length fmt < 999"
  shows "safe (\<lambda>_. True) (print_line fmt args)"
  unfolding print_line_def using assms by (intro safe_thenI printf_plain) (simp_all add: ln_def)

lemma plain_line: "list_all (\<lambda>c. c \<noteq> NUL \<and> c \<noteq> CHR ''%'') s \<Longrightarrow> plain (c_string (ln s)) []"
  by (simp add: c_string_def ln_def plain_no_args)

lemma print_lines_safe:
  "list_all (\<lambda>s. length s < 999 \<and> list_all (\<lambda>c. c \<noteq> NUL \<and> c \<noteq> CHR ''%'') s) ls \<Longrightarrow> safe (\<lambda>_. True) (print_lines ls)"
  by (induction ls) (auto intro!: safe_thenI print_line_safe plain_line)

lemmas fmt_defs = c_string_def ln_def quoted_def

end
