(* ===== verification/Shell.thy ===== *)
theory Shell
  imports Libc
begin

section \<open>bin/sh.c: variables, environment, history, expansion and parsing\<close>

text \<open>
  The static variables of the shell as one record. A pointer into \<open>argv\<close> is the index of the row of
  \<open>arg_buf\<close> it points to. The static scratch buffers (\<open>buf\<close> of \<open>expand_variables\<close>, \<open>fullpath\<close>) are
  written before they are read by every call and are fresh arrays here; the storage of
  \<open>build_environment\<close> is its result.
\<close>

definition LINE_MAX :: nat where "LINE_MAX = 128"
definition HISTORY_MAX :: nat where "HISTORY_MAX = 30"
definition MAX_VARS :: nat where "MAX_VARS = 64"
definition MAX_VAR_NAME :: nat where "MAX_VAR_NAME = 64"
definition MAX_VAR_VALUE :: nat where "MAX_VAR_VALUE = 256"

definition ARGV_MAX :: nat where "ARGV_MAX = 16"

lemmas shell_sizes = LINE_MAX_def HISTORY_MAX_def MAX_VARS_def MAX_VAR_NAME_def MAX_VAR_VALUE_def

record shell_var =
  sv_name :: "char list"
  sv_value :: "char list"
  sv_exported :: int

record shell =
  sh_pid :: int
  sh_bg_pid :: int
  sh_status :: int
  sh_history :: "char list list"
  sh_history_size :: nat
  sh_history_pos :: nat
  sh_vars :: "shell_var list"
  sh_var_count :: nat
  sh_arg_buf :: "char list list"

text \<open>The static variables at the start.\<close>

definition zero_var :: shell_var where
  "zero_var = \<lparr>sv_name = replicate MAX_VAR_NAME NUL, sv_value = replicate MAX_VAR_VALUE NUL, sv_exported = 0\<rparr>"

definition bss_shell :: shell where
  "bss_shell = \<lparr>sh_pid = 0, sh_bg_pid = -1, sh_status = 0,
     sh_history = replicate HISTORY_MAX (replicate LINE_MAX NUL), sh_history_size = 0, sh_history_pos = 0,
     sh_vars = replicate MAX_VARS zero_var, sh_var_count = 0, sh_arg_buf = replicate 16 (replicate LINE_MAX NUL)\<rparr>"

subsection \<open>Variables\<close>

text \<open>The loop of \<open>find_variable\<close>, from index \<open>i\<close> on with \<open>n\<close> variables left; \<open>None\<close> in the result is -1.\<close>

primrec find_loop :: "nat \<Rightarrow> nat \<Rightarrow> shell_var list \<Rightarrow> char list \<Rightarrow> nat option option" where
  "find_loop 0 i vars name = Some None"
| "find_loop (Suc n) i vars name = do {
     v \<leftarrow> rd vars i;
     r \<leftarrow> strcmp (sv_name v) name;
     if r = 0 then Some (Some i) else find_loop n (Suc i) vars name }"

definition find_variable :: "shell \<Rightarrow> char list \<Rightarrow> nat option option" where
  "find_variable sh name = find_loop (sh_var_count sh) 0 (sh_vars sh) name"

text \<open>\<open>strncpy(field, s, size - 1); field[size - 1] = '\0'\<close>\<close>

definition copy_field :: "char list \<Rightarrow> char list \<Rightarrow> nat \<Rightarrow> char list option" where
  "copy_field field s n = do { f \<leftarrow> strncpy field 0 s (n - 1); wr f (n - 1) NUL }"

definition update_variable :: "nat \<Rightarrow> char list \<Rightarrow> int \<Rightarrow> shell \<Rightarrow> shell option" where
  "update_variable idx value exported sh = do {
     v \<leftarrow> rd (sh_vars sh) idx;
     val \<leftarrow> copy_field (sv_value v) value MAX_VAR_VALUE;
     let v1 = v\<lparr>sv_value := val\<rparr>;
     let v2 = (if exported \<noteq> 0 then v1\<lparr>sv_exported := 1\<rparr> else v1);
     Some (sh\<lparr>sh_vars := (sh_vars sh)[idx := v2]\<rparr>) }"

definition add_variable :: "char list \<Rightarrow> char list \<Rightarrow> int \<Rightarrow> shell \<Rightarrow> shell option" where
  "add_variable name value exported sh = do {
     v \<leftarrow> rd (sh_vars sh) (sh_var_count sh);
     nm \<leftarrow> copy_field (sv_name v) name MAX_VAR_NAME;
     val \<leftarrow> copy_field (sv_value v) value MAX_VAR_VALUE;
     Some (sh\<lparr>sh_vars := (sh_vars sh)[sh_var_count sh := \<lparr>sv_name = nm, sv_value = val, sv_exported = exported\<rparr>],
              sh_var_count := sh_var_count sh + 1\<rparr>) }"

definition set_variable :: "char list \<Rightarrow> char list \<Rightarrow> int \<Rightarrow> shell \<Rightarrow> shell prog" where
  "set_variable name value exported sh =
     tryP (find_variable sh name) (\<lambda>idx.
       case idx of
         Some i \<Rightarrow> tryP (update_variable i value exported sh) Ret
       | None \<Rightarrow>
           if sh_var_count sh \<ge> MAX_VARS then bindP (print_line ''Too many variables'' []) (\<lambda>_. Ret sh)
           else tryP (add_variable name value exported sh) Ret)"

definition get_variable :: "shell \<Rightarrow> char list \<Rightarrow> char list option option" where
  "get_variable sh name = do {
     idx \<leftarrow> find_variable sh name;
     case idx of None \<Rightarrow> Some None | Some i \<Rightarrow> map_option (\<lambda>v. Some (sv_value v)) (rd (sh_vars sh) i) }"

text \<open>\<open>for (int i = idx; i < var_count - 1; i++) variables[i] = variables[i + 1]\<close>\<close>

primrec shift_down :: "nat \<Rightarrow> nat \<Rightarrow> shell_var list \<Rightarrow> shell_var list option" where
  "shift_down 0 i vars = Some vars"
| "shift_down (Suc n) i vars = do { v \<leftarrow> rd vars (i + 1); vs \<leftarrow> wr vars i v; shift_down n (Suc i) vs }"

definition unset_variable :: "char list \<Rightarrow> shell \<Rightarrow> shell option" where
  "unset_variable name sh = do {
     idx \<leftarrow> find_variable sh name;
     case idx of
       None \<Rightarrow> Some sh
     | Some i \<Rightarrow> do {
         vs \<leftarrow> shift_down (sh_var_count sh - 1 - i) i (sh_vars sh);
         Some (sh\<lparr>sh_vars := vs, sh_var_count := sh_var_count sh - 1\<rparr>) } }"

definition export_variable :: "char list \<Rightarrow> shell \<Rightarrow> shell option" where
  "export_variable name sh = do {
     idx \<leftarrow> find_variable sh name;
     case idx of
       None \<Rightarrow> Some sh
     | Some i \<Rightarrow> do {
         v \<leftarrow> rd (sh_vars sh) i;
         Some (sh\<lparr>sh_vars := (sh_vars sh)[i := v\<lparr>sv_exported := 1\<rparr>]\<rparr>) } }"

subsection \<open>The environment of child processes\<close>

text \<open>\<open>while (*s && offset < MAX_VAR_NAME + MAX_VAR_VALUE) row[offset++] = *s++\<close>\<close>

fun env_copy :: "char list \<Rightarrow> nat \<Rightarrow> char list \<Rightarrow> (nat \<times> char list) option" where
  "env_copy [] off row = None"
| "env_copy (c # s) off row =
     (if c \<noteq> NUL \<and> off < MAX_VAR_NAME + MAX_VAR_VALUE
      then do { row' \<leftarrow> wr row off c; env_copy s (Suc off) row' }
      else Some (off, row))"

definition env_string :: "shell_var \<Rightarrow> char list \<Rightarrow> char list option" where
  "env_string v row = do {
     (off, r1) \<leftarrow> env_copy (sv_name v) 0 row;
     (off1, r2) \<leftarrow> (if off < MAX_VAR_NAME + MAX_VAR_VALUE
                    then do { r \<leftarrow> wr r1 off (CHR ''=''); Some (Suc off, r) } else Some (off, r1));
     (off2, r3) \<leftarrow> env_copy (sv_value v) off1 r2;
     wr r3 off2 NUL }"

text \<open>The strings stored so far are the accumulator; the final null pointer is the end of the list.\<close>

primrec env_loop :: "nat \<Rightarrow> nat \<Rightarrow> shell_var list \<Rightarrow> char list list \<Rightarrow> char list list option" where
  "env_loop 0 i vars es = Some es"
| "env_loop (Suc n) i vars es =
     (if length es < MAX_VARS
      then do {
        v \<leftarrow> rd vars i;
        es' \<leftarrow> (if sv_exported v \<noteq> 0
                then map_option (\<lambda>r. es @ [r]) (env_string v (replicate (MAX_VAR_NAME + MAX_VAR_VALUE + 2) NUL))
                else Some es);
        env_loop n (Suc i) vars es' }
      else Some es)"

definition build_environment :: "shell \<Rightarrow> char list list option" where
  "build_environment sh = env_loop (sh_var_count sh) 0 (sh_vars sh) []"

subsection \<open>History\<close>

primrec history_shift :: "nat \<Rightarrow> nat \<Rightarrow> char list list \<Rightarrow> char list list option" where
  "history_shift 0 i h = Some h"
| "history_shift (Suc n) i h = do {
     src \<leftarrow> rd h i;
     dst \<leftarrow> rd h (i - 1);
     d \<leftarrow> strcpy dst src;
     h' \<leftarrow> wr h (i - 1) d;
     history_shift n (Suc i) h' }"

definition history_put :: "nat \<Rightarrow> char list \<Rightarrow> char list list \<Rightarrow> char list list option" where
  "history_put i line h = do { row \<leftarrow> rd h i; r \<leftarrow> strcpy row line; wr h i r }"

definition history_add :: "char list \<Rightarrow> shell \<Rightarrow> shell option" where
  "history_add line sh = do {
     c \<leftarrow> rd line 0;
     if c = NUL then Some sh
     else if sh_history_size sh < HISTORY_MAX then do {
       h \<leftarrow> history_put (sh_history_size sh) line (sh_history sh);
       Some (sh\<lparr>sh_history := h, sh_history_size := sh_history_size sh + 1, sh_history_pos := sh_history_size sh + 1\<rparr>) }
     else do {
       h1 \<leftarrow> history_shift (HISTORY_MAX - 1) 1 (sh_history sh);
       h2 \<leftarrow> history_put (HISTORY_MAX - 1) line h1;
       Some (sh\<lparr>sh_history := h2, sh_history_pos := sh_history_size sh\<rparr>) } }"

definition rubout :: string where "rubout = [CHR 0x08, CHR '' '', CHR 0x08]"

definition write_text :: "string \<Rightarrow> unit prog" where
  "write_text s = bindP (u_write FD_STDOUT (c_string s) (of_nat (length s))) (\<lambda>_. Ret ())"

primrec rubouts :: "nat \<Rightarrow> unit prog" where
  "rubouts 0 = Ret ()"
| "rubouts (Suc n) = bindP (write_text rubout) (\<lambda>_. rubouts n)"

definition load_history_entry :: "char list \<Rightarrow> nat \<Rightarrow> nat \<Rightarrow> shell \<Rightarrow> (char list \<times> nat) prog" where
  "load_history_entry line len new_index sh =
     bindP (rubouts len) (\<lambda>_.
       if new_index = sh_history_size sh then tryP (wr line 0 NUL) (\<lambda>l. Ret (l, 0))
       else
         tryP (do { h \<leftarrow> rd (sh_history sh) new_index; l \<leftarrow> strcpy line h; n \<leftarrow> strlen l; Some (l, n) }) (\<lambda>(l, n).
           bindP (u_write FD_STDOUT l (of_nat n)) (\<lambda>_. Ret (l, n))))"

text \<open>\<open>char c; read(STDIN_FILENO, &c, 1)\<close>\<close>

definition read_char :: "(int \<times> char) prog" where
  "read_char = bindP (u_read FD_STDIN [NUL] 1) (\<lambda>(n, b). tryP (rd b 0) (\<lambda>c. Ret (n, c)))"

text \<open>The result is the line, its length and the shell; the flag the function returns is not used.\<close>

definition handle_escape_sequence :: "char list \<Rightarrow> nat \<Rightarrow> shell \<Rightarrow> (char list \<times> nat \<times> shell) prog" where
  "handle_escape_sequence line len sh =
     bindP read_char (\<lambda>(n1, seq1).
       if n1 \<le> 0 then Ret (line, len, sh)
       else bindP read_char (\<lambda>(n2, seq2).
         if n2 \<le> 0 then Ret (line, len, sh)
         else if seq1 = CHR ''['' \<and> seq2 = CHR ''A'' then
           (if sh_history_size sh > 0 \<and> sh_history_pos sh > 0
            then let sh1 = sh\<lparr>sh_history_pos := sh_history_pos sh - 1\<rparr>
                 in bindP (load_history_entry line len (sh_history_pos sh1) sh1) (\<lambda>(l, n). Ret (l, n, sh1))
            else Ret (line, len, sh))
         else if seq1 = CHR ''['' \<and> seq2 = CHR ''B'' then
           (if sh_history_size sh > 0 \<and> sh_history_pos sh < sh_history_size sh
            then let sh1 = sh\<lparr>sh_history_pos := sh_history_pos sh + 1\<rparr>
                 in bindP (load_history_entry line len (sh_history_pos sh1) sh1) (\<lambda>(l, n). Ret (l, n, sh1))
            else Ret (line, len, sh))
         else Ret (line, len, sh)))"

subsection \<open>Expansion\<close>

definition is_name_start :: "char \<Rightarrow> bool" where
  "is_name_start c \<longleftrightarrow> (65 \<le> code c \<and> code c \<le> 90) \<or> (97 \<le> code c \<and> code c \<le> 122) \<or> c = CHR ''_''"

definition is_name_char :: "char \<Rightarrow> bool" where
  "is_name_char c \<longleftrightarrow> is_name_start c \<or> is_digit c"

text \<open>\<open>for (p = s; *p && (dst - buf) < LINE_MAX - 1; p++) *dst++ = *p\<close>\<close>

fun expand_copy :: "char list \<Rightarrow> char list \<Rightarrow> nat \<Rightarrow> (char list \<times> nat) option" where
  "expand_copy [] buf d = None"
| "expand_copy (c # p) buf d =
     (if c \<noteq> NUL \<and> d < LINE_MAX - 1 then do { b \<leftarrow> wr buf d c; expand_copy p b (Suc d) } else Some (buf, d))"

fun take_name :: "char list \<Rightarrow> string \<Rightarrow> (string \<times> char list) option" where
  "take_name [] v = None"
| "take_name (c # src) v =
     (if is_name_char c then take_name src (if length v < MAX_VAR_NAME - 1 then v @ [c] else v)
      else Some (v, c # src))"

lemma take_name_le: "take_name s v = Some (w, r) \<Longrightarrow> length r \<le> length s"
  by (induction s v rule: take_name.induct) (fastforce split: if_splits)+

text \<open>\<open>snprintf(num, sizeof(num), "%d", v)\<close> and the copy of \<open>num\<close>.\<close>

definition expand_number :: "int \<Rightarrow> char list \<Rightarrow> nat \<Rightarrow> (char list \<times> nat) option" where
  "expand_number v buf d = do {
     (r, num) \<leftarrow> snprintf (replicate 16 NUL) 16 (c_string ''%d'') [W32 (word_of_int v)];
     expand_copy num buf d }"

function expand_loop :: "shell \<Rightarrow> char list \<Rightarrow> char list \<Rightarrow> nat \<Rightarrow> (char list \<times> nat) option" where
  "expand_loop sh src buf d =
     (case src of
        [] \<Rightarrow> None
      | c # s \<Rightarrow>
          if c = NUL \<or> \<not> d < LINE_MAX - 1 then Some (buf, d)
          else if c \<noteq> CHR ''$'' then (case wr buf d c of None \<Rightarrow> None | Some b \<Rightarrow> expand_loop sh s b (Suc d))
          else
            (case s of
               [] \<Rightarrow> None
             | e # s2 \<Rightarrow>
                 if e = CHR ''?'' then
                   (case expand_number (sh_status sh) buf d of
                      None \<Rightarrow> None | Some (b, d') \<Rightarrow> expand_loop sh s2 b d')
                 else if e = CHR ''$'' then
                   (case expand_number (sh_pid sh) buf d of
                      None \<Rightarrow> None | Some (b, d') \<Rightarrow> expand_loop sh s2 b d')
                 else if e = CHR ''!'' then
                   (case expand_number (sh_bg_pid sh) buf d of
                      None \<Rightarrow> None | Some (b, d') \<Rightarrow> expand_loop sh s2 b d')
                 else if is_name_start e then
                   (case take_name s [] of
                      None \<Rightarrow> None
                    | Some (v, rest) \<Rightarrow>
                        (case get_variable sh (c_string v) of
                           None \<Rightarrow> None
                         | Some None \<Rightarrow> expand_loop sh rest buf d
                         | Some (Some value) \<Rightarrow>
                             (case expand_copy value buf d of
                                None \<Rightarrow> None | Some (b, d') \<Rightarrow> expand_loop sh rest b d')))
                 else (case wr buf d c of None \<Rightarrow> None | Some b \<Rightarrow> expand_loop sh s b (Suc d))))"
  by pat_completeness auto
termination
  by (relation "measure (\<lambda>(sh, src, buf, d). length src)") (auto dest!: take_name_le simp: less_Suc_eq_le simp del: take_name.simps)

declare expand_loop.simps [simp del]

definition expand_variables :: "shell \<Rightarrow> char list \<Rightarrow> char list option" where
  "expand_variables sh str = do {
     (buf, d) \<leftarrow> expand_loop sh str (replicate LINE_MAX NUL) 0;
     b \<leftarrow> wr buf d NUL;
     strcpy str b }"

subsection \<open>Arguments\<close>

fun skip_spaces :: "char list \<Rightarrow> char list option" where
  "skip_spaces [] = None"
| "skip_spaces (c # s) = (if c = CHR '' '' then skip_spaces s else Some (c # s))"

fun collect :: "char list \<Rightarrow> bool \<Rightarrow> char list \<Rightarrow> nat \<Rightarrow> (char list \<times> char list \<times> nat) option" where
  "collect [] q row d = None"
| "collect (c # s) q row d =
     (if c = NUL then Some (c # s, row, d)
      else if c = CHR 0x22 then collect s (\<not> q) row d
      else if \<not> q \<and> c = CHR '' '' then Some (c # s, row, d)
      else do { r \<leftarrow> wr row d c; collect s q r (Suc d) })"

function parse_loop :: "nat \<Rightarrow> char list \<Rightarrow> nat \<Rightarrow> nat option list \<Rightarrow> char list list \<Rightarrow>
    (nat \<times> nat option list \<times> char list list) option" where
  "parse_loop max_args src argc argv bufs =
     (case src of
        [] \<Rightarrow> None
      | c # _ \<Rightarrow>
          if c = NUL \<or> \<not> argc < max_args then Some (argc, argv, bufs)
          else
            (case do {
               s \<leftarrow> skip_spaces src;
               e \<leftarrow> rd s 0;
               if e = NUL then Some None
               else do {
                 row \<leftarrow> rd bufs argc;
                 (rest, r, d) \<leftarrow> collect s False row 0;
                 r1 \<leftarrow> wr r d NUL;
                 av \<leftarrow> wr argv argc (Some argc);
                 Some (Some (rest, av, bufs[argc := r1])) } } of
               None \<Rightarrow> None
             | Some None \<Rightarrow> Some (argc, argv, bufs)
             | Some (Some (rest, av, bs)) \<Rightarrow> parse_loop max_args rest (Suc argc) av bs))"
  by pat_completeness auto
termination
  by (relation "measure (\<lambda>(m, src, argc, argv, bufs). m - argc)") auto

declare parse_loop.simps [simp del]

definition parse_arguments :: "char list \<Rightarrow> nat option list \<Rightarrow> nat \<Rightarrow> shell \<Rightarrow> (nat \<times> nat option list \<times> shell) option" where
  "parse_arguments line argv max_args sh = do {
     (argc, av, bs) \<leftarrow> parse_loop max_args line 0 argv (sh_arg_buf sh);
     Some (argc, av, sh\<lparr>sh_arg_buf := bs\<rparr>) }"

text \<open>The string a pointer of \<open>argv\<close> points to.\<close>

definition arg :: "shell \<Rightarrow> nat option list \<Rightarrow> nat \<Rightarrow> char list option" where
  "arg sh argv i = do { p \<leftarrow> rd argv i; r \<leftarrow> p; rd (sh_arg_buf sh) r }"

subsection \<open>Assignments\<close>

text \<open>\<open>memcpy(dst, s, n); dst[n] = '\0'\<close> with \<open>n\<close> cut to the size of \<open>dst\<close>.\<close>

definition copy_cut :: "nat \<Rightarrow> char list \<Rightarrow> nat \<Rightarrow> char list option" where
  "copy_cut sz s n = do {
     let m = (if n \<ge> sz then sz - 1 else n);
     d \<leftarrow> memcpy (replicate sz NUL) 0 s 0 m;
     wr d m NUL }"

text \<open>The name and the value of \<open>s\<close>, whose first \<open>=\<close> is where \<open>eq\<close> begins.\<close>

definition split_at_eq :: "char list \<Rightarrow> char list \<Rightarrow> (char list \<times> char list) option" where
  "split_at_eq s eq = do {
     name \<leftarrow> copy_cut MAX_VAR_NAME s (length s - length eq);
     vlen \<leftarrow> strlen (drop 1 eq);
     value \<leftarrow> copy_cut MAX_VAR_VALUE (drop 1 eq) vlen;
     Some (name, value) }"

definition parse_assignment :: "char list \<Rightarrow> (char list \<times> char list) option option" where
  "parse_assignment a = do {
     eq \<leftarrow> strchr a (CHR ''='');
     case eq of
       None \<Rightarrow> Some None
     | Some p \<Rightarrow>
         let nm = take (length a - length p) a
         in if nm = [] then Some None
            else if \<not> list_all is_name_char nm \<or> is_digit (hd nm) then Some None
            else map_option Some (split_at_eq a p) }"

primrec load_env_loop :: "char list list \<Rightarrow> shell \<Rightarrow> shell prog" where
  "load_env_loop [] sh = Ret sh"
| "load_env_loop (e # es) sh =
     (if sh_var_count sh < MAX_VARS
      then tryP (strchr e (CHR ''='')) (\<lambda>eq.
             case eq of
               None \<Rightarrow> load_env_loop es sh
             | Some p \<Rightarrow>
                 if length p = length e then load_env_loop es sh
                 else tryP (split_at_eq e p) (\<lambda>(name, value).
                        bindP (set_variable name value 1 sh) (\<lambda>sh1. load_env_loop es sh1)))
      else Ret sh)"

definition load_environment :: "char list list option \<Rightarrow> shell \<Rightarrow> shell prog" where
  "load_environment envp sh = (case envp of None \<Rightarrow> Ret sh | Some es \<Rightarrow> load_env_loop es sh)"

end
