(* ===== verification/ShellMain.thy ===== *)
theory ShellMain
  imports Shell
begin

section \<open>bin/sh.c: finding commands, builtins, commands and the main loop\<close>

text \<open>
  What the shell does with the kernel. \<open>find_in_bin\<close> reads directory entries until the kernel has no
  more; the number of batches is bounded by \<open>DENTS_FUEL\<close> (the kernel's \<open>getdents\<close> gives a directory
  in one). The builtins and \<open>process_command\<close> return the shell they leave; \<open>main\<close> is a state machine,
  \<open>sh_step\<close> one turn of its loop. After \<open>fork\<close> the tree goes on with both answers, 0 in the child.
\<close>

subsection \<open>Searching /bin\<close>

definition DENTS_FUEL :: nat where "DENTS_FUEL = 64"

text \<open>The buffer of 4096 bytes as the 56 entries it has room for.\<close>

definition zero_dirent :: dirent where
  "zero_dirent = \<lparr>d_ino = 0, d_reclen = 0, d_type = 0, d_name = replicate MAX_FILENAME_LEN NUL\<rparr>"

definition entry_at :: "dirent list \<Rightarrow> nat \<Rightarrow> dirent option" where
  "entry_at ds offset =
     (if offset mod unat SIZEOF_DIRENT = 0 then rd ds (offset div unat SIZEOF_DIRENT) else None)"

function scan_entries :: "dirent list \<Rightarrow> char list \<Rightarrow> nat \<Rightarrow> nat \<Rightarrow> bool option" where
  "scan_entries ds name offset nread =
     (if offset < nread
      then (case entry_at ds offset of
              None \<Rightarrow> None
            | Some de \<Rightarrow>
                (case strcmp (d_name de) name of
                   None \<Rightarrow> None
                 | Some r \<Rightarrow>
                     if r = 0 then Some True
                     else if d_reclen de = 0 then Some False
                     else scan_entries ds name (offset + unat (d_reclen de)) nread))
      else Some False)"
  by pat_completeness auto
termination
  by (relation "measure (\<lambda>(ds, name, offset, nread). nread - offset)")
    (auto simp: unat_gt_0 intro!: diff_less_mono2)

declare scan_entries.simps [simp del]

text \<open>The path of the command found.\<close>

definition bin_path :: "char list \<Rightarrow> nat \<Rightarrow> char list \<Rightarrow> char list option" where
  "bin_path fullpath sz name = do {
     let prefix = c_string ''/bin/'';
     plen \<leftarrow> strlen prefix;
     nlen \<leftarrow> strlen name;
     let n1 = (if plen \<ge> sz then sz - 1 else plen);
     p1 \<leftarrow> memcpy fullpath 0 prefix 0 n1;
     (n2, p2) \<leftarrow>
       (if n1 < sz - 1
        then do {
          let remaining = sz - 1 - n1;
          let name_copy = (if nlen > remaining then remaining else nlen);
          p \<leftarrow> memcpy p1 n1 name 0 name_copy;
          Some (n1 + name_copy, p) }
        else Some (n1, p1));
     wr p2 n2 NUL }"

primrec find_batches :: "nat \<Rightarrow> int \<Rightarrow> char list \<Rightarrow> char list \<Rightarrow> nat \<Rightarrow> (bool \<times> char list) prog" where
  "find_batches 0 fd name fullpath sz = Hang"
| "find_batches (Suc n) fd name fullpath sz =
     bindP (u_getdents fd (replicate 56 zero_dirent) 4096) (\<lambda>(nread, ds).
       if nread > 0
       then tryP (scan_entries ds name 0 (nat nread)) (\<lambda>found.
              if found then tryP (bin_path fullpath sz name) (\<lambda>p. Ret (True, p))
              else find_batches n fd name fullpath sz)
       else Ret (False, fullpath))"

definition find_in_bin :: "char list \<Rightarrow> char list \<Rightarrow> nat \<Rightarrow> (bool \<times> char list) prog" where
  "find_in_bin name fullpath sz =
     bindP (u_open (c_string ''/bin'') O_RDONLY 0) (\<lambda>fd.
       if fd < 0 then Ret (False, fullpath)
       else bindP (find_batches DENTS_FUEL fd name fullpath sz) (\<lambda>r.
            bindP (u_close fd) (\<lambda>_. Ret r)))"

definition resolve_full_path :: "char list \<Rightarrow> nat \<Rightarrow> char list option \<Rightarrow> (bool \<times> char list) prog" where
  "resolve_full_path dst dst_size cmd =
     (let fail = (\<lambda>d. if dst_size > 0 then tryP (wr d 0 NUL) (\<lambda>d'. Ret (False, d')) else Ret (False, d))
      in case cmd of
           None \<Rightarrow> fail dst
         | Some name \<Rightarrow>
             if dst_size = 0 then fail dst
             else tryP (rd name 0) (\<lambda>c.
               if c = CHR ''/''
               then tryP (do {
                      l \<leftarrow> strlen name;
                      let len = (if l \<ge> dst_size then dst_size - 1 else l);
                      d \<leftarrow> memcpy dst 0 name 0 len;
                      wr d len NUL }) (\<lambda>d. Ret (True, d))
               else bindP (find_in_bin name dst dst_size) (\<lambda>(found, d).
                 if found then Ret (True, d) else fail d)))"

subsection \<open>Builtins\<close>

definition set_status :: "int \<Rightarrow> shell \<Rightarrow> shell" where
  "set_status s sh = sh\<lparr>sh_status := s\<rparr>"

definition builtin_exit :: "nat \<Rightarrow> nat option list \<Rightarrow> shell \<Rightarrow> shell prog" where
  "builtin_exit argc argv sh =
     tryP (if argc > 1 then do { a \<leftarrow> arg sh argv 1; atoi a } else Some (sh_status sh)) (\<lambda>exit_code.
       bindP (u_exit exit_code) (\<lambda>_. Ret sh))"

definition builtin_cd :: "nat \<Rightarrow> nat option list \<Rightarrow> shell \<Rightarrow> shell prog" where
  "builtin_cd argc argv sh =
     (if argc > 2
      then bindP (print_line ''cd: too many arguments'' []) (\<lambda>_. Ret (set_status 1 sh))
      else
        tryP (if argc < 2
              then do { v \<leftarrow> get_variable sh (c_string ''HOME'');
                        Some (case v of None \<Rightarrow> c_string ''/'' | Some p \<Rightarrow> p) }
              else arg sh argv 1) (\<lambda>path.
          bindP (u_chdir path) (\<lambda>r.
            if r < 0
            then bindP (print_line (''cd: cannot change directory to '' @ quoted ''%s'') [Str (Some path)])
                   (\<lambda>_. Ret (set_status 1 sh))
            else Ret (set_status 0 sh))))"

text \<open>The loops that list the exported variables.\<close>

primrec list_vars :: "nat \<Rightarrow> nat \<Rightarrow> string \<Rightarrow> shell_var list \<Rightarrow> unit prog" where
  "list_vars 0 i fmt vars = Ret ()"
| "list_vars (Suc n) i fmt vars =
     tryP (rd vars i) (\<lambda>v.
       bindP (if sv_exported v \<noteq> 0
              then bindP (printf fmt [Str (Some (sv_name v)), Str (Some (sv_value v))]) (\<lambda>_. Ret ())
              else Ret ()) (\<lambda>_. list_vars n (Suc i) fmt vars))"

primrec set_lines :: "nat \<Rightarrow> nat \<Rightarrow> shell_var list \<Rightarrow> unit prog" where
  "set_lines 0 i vars = Ret ()"
| "set_lines (Suc n) i vars =
     tryP (rd vars i) (\<lambda>v.
       bindP (printf ''%s=%s'' [Str (Some (sv_name v)), Str (Some (sv_value v))]) (\<lambda>_.
       bindP (if sv_exported v \<noteq> 0 then printf '' [exported]'' [] else Ret 0) (\<lambda>_.
       bindP (print_line '''' []) (\<lambda>_. set_lines n (Suc i) vars))))"

definition builtin_set :: "shell \<Rightarrow> shell prog" where
  "builtin_set sh = bindP (set_lines (sh_var_count sh) 0 (sh_vars sh)) (\<lambda>_. Ret (set_status 0 sh))"

definition builtin_env_like :: "nat \<Rightarrow> nat option list \<Rightarrow> shell \<Rightarrow> shell prog" where
  "builtin_env_like argc argv sh =
     (if argc > 1
      then
        tryP (do { a \<leftarrow> arg sh argv 1; value \<leftarrow> get_variable sh a; idx \<leftarrow> find_variable sh a; Some (value, idx) })
          (\<lambda>(value, idx).
            case value of
              None \<Rightarrow> Ret (set_status 1 sh)
            | Some v \<Rightarrow>
                (case idx of
                   None \<Rightarrow> Ret (set_status 1 sh)
                 | Some i \<Rightarrow>
                     tryP (rd (sh_vars sh) i) (\<lambda>sv.
                       if sv_exported sv \<noteq> 0
                       then bindP (print_line ''%s'' [Str (Some v)]) (\<lambda>_. Ret (set_status 0 sh))
                       else Ret (set_status 1 sh))))
      else bindP (list_vars (sh_var_count sh) 0 (ln ''%s=%s'') (sh_vars sh))
             (\<lambda>_. Ret (set_status 0 sh)))"

primrec export_args :: "nat \<Rightarrow> nat \<Rightarrow> nat option list \<Rightarrow> shell \<Rightarrow> shell prog" where
  "export_args 0 i argv sh = Ret sh"
| "export_args (Suc n) i argv sh =
     tryP (do { a \<leftarrow> arg sh argv i; asg \<leftarrow> parse_assignment a; Some (a, asg) }) (\<lambda>(a, asg).
       bindP (case asg of
                Some (name, value) \<Rightarrow> set_variable name value 1 sh
              | None \<Rightarrow> tryP (export_variable a sh) Ret) (\<lambda>sh1. export_args n (Suc i) argv sh1))"

definition builtin_export :: "nat \<Rightarrow> nat option list \<Rightarrow> shell \<Rightarrow> shell prog" where
  "builtin_export argc argv sh =
     (if argc < 2
      then bindP (list_vars (sh_var_count sh) 0 (ln ''export %s=%s'') (sh_vars sh))
             (\<lambda>_. Ret (set_status 0 sh))
      else bindP (export_args (argc - 1) 1 argv sh) (\<lambda>sh1. Ret (set_status 0 sh1)))"

primrec unset_args :: "nat \<Rightarrow> nat \<Rightarrow> nat option list \<Rightarrow> shell \<Rightarrow> shell option" where
  "unset_args 0 i argv sh = Some sh"
| "unset_args (Suc n) i argv sh = do {
     a \<leftarrow> arg sh argv i;
     sh1 \<leftarrow> unset_variable a sh;
     unset_args n (Suc i) argv sh1 }"

definition builtin_unset :: "nat \<Rightarrow> nat option list \<Rightarrow> shell \<Rightarrow> shell prog" where
  "builtin_unset argc argv sh =
     (if argc < 2
      then bindP (print_line ''unset: missing variable name'' []) (\<lambda>_. Ret (set_status 1 sh))
      else tryP (unset_args (argc - 1) 1 argv sh) (\<lambda>sh1. Ret (set_status 0 sh1)))"

text \<open>The strings \<open>argv\<close> points to from \<open>i\<close> on, up to its null pointer: what \<open>execve\<close> copies.\<close>

fun argv_strings :: "nat \<Rightarrow> nat \<Rightarrow> nat option list \<Rightarrow> shell \<Rightarrow> char list list option" where
  "argv_strings 0 i argv sh = None"
| "argv_strings (Suc n) i argv sh = do {
     p \<leftarrow> rd argv i;
     case p of
       None \<Rightarrow> Some []
     | Some r \<Rightarrow> do { s \<leftarrow> rd (sh_arg_buf sh) r; ss \<leftarrow> argv_strings n (Suc i) argv sh; Some (s # ss) } }"

text \<open>\<open>fork\<close>, \<open>execve\<close> in the child, and the parent's part \<open>wait\<close>.\<close>

definition child_exec :: "char list \<Rightarrow> char list list \<Rightarrow> char list list \<Rightarrow> int prog \<Rightarrow> int prog" where
  "child_exec path av env complain =
     bindP (u_execve path av env) (\<lambda>_. bindP complain (\<lambda>_. u_exit 1))"

text \<open>The waiting part of a foreground command.\<close>

definition wait_for :: "int \<Rightarrow> shell \<Rightarrow> (bool \<times> shell) prog" where
  "wait_for pid sh =
     bindP (u_waitpid pid 0 0) (\<lambda>(res, status).
       if res < 0
       then bindP (print_line ''waitpid failed for pid %d'' [W32 (word_of_int pid)]) (\<lambda>_. Ret (False, set_status 1 sh))
       else Ret (True, set_status (exit_code_of status) sh))"

primrec repeat_loop :: "nat \<Rightarrow> int \<Rightarrow> int \<Rightarrow> nat option list \<Rightarrow> shell \<Rightarrow> shell prog" where
  "repeat_loop 0 i count argv sh = Ret sh"
| "repeat_loop (Suc n) i count argv sh =
     bindP (print_line ''[%d/%d]'' [W32 (word_of_int (i + 1)), W32 (word_of_int count)]) (\<lambda>_.
     tryP (arg sh argv 2) (\<lambda>cmd.
     bindP (resolve_full_path (replicate LINE_MAX NUL) LINE_MAX (Some cmd)) (\<lambda>(found, fullpath).
       if \<not> found
       then bindP (print_line ''%s: command not found'' [Str (Some cmd)]) (\<lambda>_. Ret (set_status 127 sh))
       else
         tryP (do { env \<leftarrow> build_environment sh; av \<leftarrow> argv_strings ARGV_MAX 2 argv sh; Some (env, av) }) (\<lambda>(env, av).
         bindP u_fork (\<lambda>pid.
           if pid < 0
           then bindP (print_line ''Failed to fork'' []) (\<lambda>_. Ret (set_status 1 sh))
           else
             bindP (if pid = 0
                    then child_exec fullpath av env (printf (ln ''execve failed'') [])
                    else Ret 0) (\<lambda>_.
             bindP (wait_for pid sh) (\<lambda>(ok, sh1).
               if \<not> ok then Ret sh1
               else if sh_status sh1 \<noteq> 0 then Ret sh1
               else repeat_loop n (i + 1) count argv sh1)))))))"

definition builtin_repeat :: "nat \<Rightarrow> nat option list \<Rightarrow> shell \<Rightarrow> shell prog" where
  "builtin_repeat argc argv sh =
     (if argc < 3
      then bindP (print_line ''Usage: repeat <count> <command> [args...]'' []) (\<lambda>_. Ret (set_status 1 sh))
      else
        tryP (do { a \<leftarrow> arg sh argv 1; atoi a }) (\<lambda>count.
          if count \<le> 0
          then bindP (print_line ''repeat: count must be positive'' []) (\<lambda>_. Ret (set_status 1 sh))
          else repeat_loop (nat count) 0 count argv sh))"

text \<open>The texts of \<open>help\<close>, and the commands each is about.\<close>

definition help_all :: "string list" where
  "help_all = [
     ''Shell builtin commands:'',
     ''  cd [dir]              Change directory'',
     ''  exit [n]              Exit shell with status n'',
     ''  export [VAR[=val]]    Mark variables for export to child processes'',
     ''  unset VAR             Remove variable'',
     ''  set                   Display all variables'',
     ''  env                   Display exported variables'',
     ''  printenv [VAR]        Display exported variable(s)'',
     ''  repeat N CMD [args]   Execute command N times'',
     ''  help [command]        Show help for builtin commands'',
     [CHR 0x0A] @ ''Special variables:'',
     ''  $?                    Exit status of last command'',
     ''  $$                    Shell process ID'',
     ''  $!                    Last background process ID'']"

definition help_topics :: "(string list \<times> string list) list" where
  "help_topics = [
     ([''cd''], [
        ''cd: cd [dir]'',
        ''  Change the current directory to DIR.'',
        ''  If DIR is not specified, change to $HOME.'']),
     ([''exit''], [
        ''exit: exit [n]'',
        ''  Exit the shell with status N.'',
        ''  If N is omitted, use the exit status of last command.'']),
     ([''export''], [
        ''export: export [VAR[=value] ...]'',
        ''  Mark variables to be passed to child processes.'',
        ''  With no arguments, display all exported variables.'',
        ''  Examples:'',
        ''    export PATH=/bin:/usr/bin'',
        ''    export MYVAR'']),
     ([''unset''], [
        ''unset: unset VAR [VAR ...]'',
        ''  Remove variables.'']),
     ([''set''], [
        ''set: set'',
        ''  Display all shell variables and their values.'']),
     ([''env'', ''printenv''], [
        ''env/printenv: env | printenv [VAR]'',
        ''  Display exported environment variables.'',
        ''  With VAR, display only that variable'' @ [CHR 0x27] @ ''s value.'']),
     ([''repeat''], [
        ''repeat: repeat COUNT COMMAND [args ...]'',
        ''  Execute COMMAND with args COUNT times.'',
        ''  Shows iteration counter [N/COUNT] before each execution.'',
        ''  Stops early if command exits with non-zero status.'',
        ''  Example:'',
        ''    repeat 5 echo hello'']),
     ([''help''], [
        ''help: help [command]'',
        ''  Display help for builtin commands.'',
        ''  With no arguments, show all builtins.'',
        ''  With COMMAND, show detailed help for that builtin.''])]"

primrec any_equal :: "string list \<Rightarrow> char list \<Rightarrow> bool option" where
  "any_equal [] cmd = Some False"
| "any_equal (n # ns) cmd = do { r \<leftarrow> strcmp cmd (c_string n); if r = 0 then Some True else any_equal ns cmd }"

fun help_find :: "(string list \<times> string list) list \<Rightarrow> char list \<Rightarrow> string list option option" where
  "help_find [] cmd = Some None"
| "help_find ((ns, ls) # ts) cmd = do { hit \<leftarrow> any_equal ns cmd; if hit then Some (Some ls) else help_find ts cmd }"

definition builtin_help :: "nat \<Rightarrow> nat option list \<Rightarrow> shell \<Rightarrow> shell prog" where
  "builtin_help argc argv sh =
     (if argc = 1 then bindP (print_lines help_all) (\<lambda>_. Ret (set_status 0 sh))
      else
        tryP (do { cmd \<leftarrow> arg sh argv 1; r \<leftarrow> help_find help_topics cmd; Some (cmd, r) }) (\<lambda>(cmd, r).
          case r of
            Some ls \<Rightarrow> bindP (print_lines ls) (\<lambda>_. Ret (set_status 0 sh))
          | None \<Rightarrow>
              bindP (print_line (''help: no help for '' @ quoted ''%s'') [Str (Some cmd)])
                (\<lambda>_. Ret (set_status 1 sh))))"

datatype builtin = BExit | BCd | BSet | BEnv | BExport | BUnset | BRepeat | BHelp

text \<open>The order of the comparisons in \<open>handle_builtin\<close>.\<close>

definition builtins :: "(string list \<times> builtin) list" where
  "builtins = [([''exit''], BExit), ([''cd''], BCd), ([''set''], BSet), ([''env'', ''printenv''], BEnv),
     ([''export''], BExport), ([''unset''], BUnset), ([''repeat''], BRepeat), ([''help''], BHelp)]"

fun which_builtin :: "(string list \<times> builtin) list \<Rightarrow> char list \<Rightarrow> builtin option option" where
  "which_builtin [] cmd = Some None"
| "which_builtin ((ns, b) # bs) cmd = do { hit \<leftarrow> any_equal ns cmd; if hit then Some (Some b) else which_builtin bs cmd }"

definition run_builtin :: "builtin \<Rightarrow> nat \<Rightarrow> nat option list \<Rightarrow> shell \<Rightarrow> shell prog" where
  "run_builtin b argc argv sh =
     (case b of
        BExit \<Rightarrow> builtin_exit argc argv sh
      | BCd \<Rightarrow> builtin_cd argc argv sh
      | BSet \<Rightarrow> builtin_set sh
      | BEnv \<Rightarrow> builtin_env_like argc argv sh
      | BExport \<Rightarrow> builtin_export argc argv sh
      | BUnset \<Rightarrow> builtin_unset argc argv sh
      | BRepeat \<Rightarrow> builtin_repeat argc argv sh
      | BHelp \<Rightarrow> builtin_help argc argv sh)"

text \<open>Whether the command was a builtin, and the shell it leaves.\<close>

definition handle_builtin :: "nat \<Rightarrow> nat option list \<Rightarrow> shell \<Rightarrow> (bool \<times> shell) prog" where
  "handle_builtin argc argv sh =
     (if argc = 0 then Ret (False, sh)
      else tryP (rd argv 0) (\<lambda>p.
        if p = None then Ret (False, sh)
        else tryP (do { a \<leftarrow> arg sh argv 0; which_builtin builtins a }) (\<lambda>w.
          case w of
            None \<Rightarrow> Ret (False, sh)
          | Some b \<Rightarrow> bindP (run_builtin b argc argv sh) (\<lambda>sh1. Ret (True, sh1)))))"

subsection \<open>Commands\<close>

text \<open>The leading assignments: how many there are, and the shell after them.\<close>

primrec assignments :: "nat \<Rightarrow> nat \<Rightarrow> nat option list \<Rightarrow> shell \<Rightarrow> (nat \<times> shell) prog" where
  "assignments 0 i argv sh = Ret (i, sh)"
| "assignments (Suc n) i argv sh =
     tryP (do { a \<leftarrow> arg sh argv i; parse_assignment a }) (\<lambda>asg.
       case asg of
         Some (name, value) \<Rightarrow> bindP (set_variable name value 0 sh) (\<lambda>sh1. assignments n (Suc i) argv sh1)
       | None \<Rightarrow> Ret (i, sh))"

primrec shift_args :: "nat \<Rightarrow> nat \<Rightarrow> nat \<Rightarrow> nat option list \<Rightarrow> nat option list option" where
  "shift_args 0 i first argv = Some argv"
| "shift_args (Suc n) i first argv = do {
     p \<leftarrow> rd argv (i + first);
     av \<leftarrow> wr argv i p;
     shift_args n (Suc i) first av }"

primrec expand_args :: "nat \<Rightarrow> nat \<Rightarrow> nat option list \<Rightarrow> shell \<Rightarrow> shell option" where
  "expand_args 0 i argv sh = Some sh"
| "expand_args (Suc n) i argv sh = do {
     p \<leftarrow> rd argv i;
     r \<leftarrow> p;
     row \<leftarrow> rd (sh_arg_buf sh) r;
     row1 \<leftarrow> expand_variables sh row;
     expand_args n (Suc i) argv (sh\<lparr>sh_arg_buf := (sh_arg_buf sh)[r := row1]\<rparr>) }"

text \<open>The last argument \<open>&\<close> is taken away.\<close>

definition take_background :: "nat \<Rightarrow> nat option list \<Rightarrow> shell \<Rightarrow> (bool \<times> nat \<times> nat option list) option" where
  "take_background argc argv sh = do {
     a \<leftarrow> arg sh argv (argc - 1);
     r \<leftarrow> strcmp a (c_string ''&'');
     if r = 0 then do { av \<leftarrow> wr argv (argc - 1) None; Some (True, argc - 1, av) }
     else Some (False, argc, argv) }"

definition run_command :: "bool \<Rightarrow> nat option list \<Rightarrow> shell \<Rightarrow> shell prog" where
  "run_command background argv sh =
     tryP (arg sh argv 0) (\<lambda>cmd.
     bindP (resolve_full_path (replicate LINE_MAX NUL) LINE_MAX (Some cmd)) (\<lambda>(found, fullpath).
       if \<not> found
       then bindP (print_line ''%s: command not found'' [Str (Some cmd)]) (\<lambda>_. Ret (set_status 127 sh))
       else
         tryP (do { env \<leftarrow> build_environment sh; av \<leftarrow> argv_strings ARGV_MAX 0 argv sh; Some (env, av) }) (\<lambda>(env, av).
         bindP u_fork (\<lambda>pid.
           if pid < 0
           then bindP (print_line ''Failed to fork'' []) (\<lambda>_. Ret (set_status 1 sh))
           else
             bindP (if pid = 0
                    then child_exec fullpath av env
                           (printf (ln (''execve failed for '' @ quoted ''%s'')) [Str (Some fullpath)])
                    else Ret 0) (\<lambda>_.
             if background then Ret (sh\<lparr>sh_bg_pid := pid\<rparr>)
             else bindP (wait_for pid sh) (\<lambda>(_, sh1). Ret sh1))))))"

text \<open>What follows the expansion of the arguments.\<close>

definition dispatch :: "nat \<Rightarrow> nat option list \<Rightarrow> shell \<Rightarrow> shell prog" where
  "dispatch argc argv sh =
     tryP (take_background argc argv sh) (\<lambda>(background, argc1, argv1).
       if background \<and> argc1 = 0 then Ret sh
       else bindP (handle_builtin argc1 argv1 sh) (\<lambda>(handled, sh1).
         if handled then Ret sh1 else run_command background argv1 sh1))"

text \<open>
  \<open>process_command\<close> up to the expanded arguments: the shell if there is nothing to run, otherwise the
  argument vector to dispatch on.
\<close>

definition prepare_command :: "char list \<Rightarrow> shell \<Rightarrow> (shell + nat \<times> nat option list \<times> shell) prog" where
  "prepare_command line sh =
     tryP (do { (argc, argv, sh1) \<leftarrow> parse_arguments line (replicate ARGV_MAX None) 15 sh;
                av \<leftarrow> wr argv argc None; Some (argc, av, sh1) }) (\<lambda>(argc, argv, sh1).
       if argc = 0 then Ret (Inl sh1)
       else bindP (assignments argc 0 argv sh1) (\<lambda>(first, sh2).
         if first \<ge> argc then Ret (Inl (set_status 0 sh2))
         else
           tryP (if first > 0
                 then do { av \<leftarrow> shift_args (argc - first) 0 first argv; wr av (argc - first) None }
                 else Some argv) (\<lambda>argv1.
           tryP (expand_args (argc - first) 0 argv1 sh2) (\<lambda>sh3. Ret (Inr (argc - first, argv1, sh3))))))"

definition process_command :: "char list \<Rightarrow> shell \<Rightarrow> shell prog" where
  "process_command line sh =
     bindP (prepare_command line sh) (\<lambda>r.
       case r of Inl sh1 \<Rightarrow> Ret sh1 | Inr (argc, argv, sh1) \<Rightarrow> dispatch argc argv sh1)"

subsection \<open>The main loop\<close>

datatype cli_state = STATE_PROMPT | STATE_READ | STATE_PARSE

record cli =
  cl_line :: "char list"
  cl_len :: nat
  cl_state :: cli_state
  cl_shell :: shell

definition read_state :: "cli \<Rightarrow> cli prog" where
  "read_state cl =
     bindP read_char (\<lambda>(n, c).
       if n \<le> 0 then Ret cl
       else if c = CHR 0x1B then
         bindP (handle_escape_sequence (cl_line cl) (cl_len cl) (cl_shell cl)) (\<lambda>(l, len, sh).
           Ret (cl\<lparr>cl_line := l, cl_len := len, cl_shell := sh\<rparr>))
       else if c = CHR 0x0D \<or> c = CHR 0x0A then
         tryP (wr (cl_line cl) (cl_len cl) NUL) (\<lambda>l.
           bindP (write_text [CHR 0x0A]) (\<lambda>_. Ret (cl\<lparr>cl_line := l, cl_state := STATE_PARSE\<rparr>)))
       else if c = CHR 0x08 \<or> c = CHR 0x7F then
         (if cl_len cl > 0
          then bindP (write_text rubout) (\<lambda>_. Ret (cl\<lparr>cl_len := cl_len cl - 1\<rparr>))
          else Ret cl)
       else if cl_len cl < LINE_MAX - 1 then
         tryP (wr (cl_line cl) (cl_len cl) c) (\<lambda>l.
           bindP (u_write FD_STDOUT [c] 1) (\<lambda>_. Ret (cl\<lparr>cl_line := l, cl_len := cl_len cl + 1\<rparr>)))
       else Ret cl)"

definition sh_step :: "cli \<Rightarrow> cli prog" where
  "sh_step cl =
     (case cl_state cl of
        STATE_PROMPT \<Rightarrow>
          bindP (printf ''> '' []) (\<lambda>_.
          tryP (wr (cl_line cl) 0 NUL) (\<lambda>l.
            Ret (cl\<lparr>cl_len := 0, cl_line := l, cl_state := STATE_READ,
                    cl_shell := (cl_shell cl)\<lparr>sh_history_pos := sh_history_size (cl_shell cl)\<rparr>\<rparr>)))
      | STATE_READ \<Rightarrow> read_state cl
      | STATE_PARSE \<Rightarrow>
          if cl_len cl = 0 then Ret (cl\<lparr>cl_state := STATE_PROMPT\<rparr>)
          else
            tryP (history_add (cl_line cl) (cl_shell cl)) (\<lambda>sh.
            bindP (process_command (cl_line cl) sh) (\<lambda>sh1.
              Ret (cl\<lparr>cl_shell := sh1, cl_state := STATE_PROMPT\<rparr>))))"

definition set_default :: "string \<Rightarrow> string \<Rightarrow> shell \<Rightarrow> shell prog" where
  "set_default name value sh =
     tryP (find_variable sh (c_string name)) (\<lambda>idx.
       if idx = None then set_variable (c_string name) (c_string value) 1 sh else Ret sh)"

text \<open>\<open>main\<close> up to its loop; \<open>environ\<close> is a null pointer, which nothing sets.\<close>

definition sh_main :: "nat \<Rightarrow> char list list option \<Rightarrow> cli option prog" where
  "sh_main argc environ =
     (if argc \<noteq> 1 then bindP (print_line ''shell: no arguments expected'' []) (\<lambda>_. Ret None)
      else
        bindP u_getpid (\<lambda>pid.
        bindP (load_environment environ (bss_shell\<lparr>sh_pid := pid\<rparr>)) (\<lambda>sh1.
        bindP (set_default ''PATH'' ''/bin'' sh1) (\<lambda>sh2.
        bindP (set_default ''HOME'' ''/'' sh2) (\<lambda>sh3.
        bindP (set_default ''SHELL'' ''/bin/shell'' sh3) (\<lambda>sh4.
          Ret (Some \<lparr>cl_line = replicate LINE_MAX NUL, cl_len = 0, cl_state = STATE_PROMPT, cl_shell = sh4\<rparr>)))))))"

end
