(* ===== verification/ShellVars.thy ===== *)
theory ShellVars
  imports Shell
begin

section \<open>The shell's variables as a finite map\<close>

text \<open>
  \<open>sh_ok\<close> is what every function of the shell keeps: the sizes of its arrays, terminated strings in
  them, the counters in range and no two variables with one name. \<open>vmap sh\<close> is the map the array of
  variables stands for, from names to values and export flags. The lemmas say that setting,
  unsetting and exporting are updates of that map; the locale \<open>var_store\<close> is the interface, with
  what a sequence of settings does proved once in it.
\<close>

subsection \<open>Strings in arrays\<close>

definition str_row :: "nat \<Rightarrow> char list \<Rightarrow> bool" where
  "str_row n row \<longleftrightarrow> length row = n \<and> terminated row"

lemma str_rowD: "str_row n row \<Longrightarrow> length row = n" "str_row n row \<Longrightarrow> terminated row"
  "str_row n row \<Longrightarrow> length (cstr row) < n"
  by (auto simp: str_row_def dest: length_cstr_less)

lemma str_row_zero: "0 < n \<Longrightarrow> str_row n (replicate n NUL)"
  by (auto simp: str_row_def terminated_def)

lemma strcmp_eq_0: "terminated a \<Longrightarrow> terminated b \<Longrightarrow> \<exists>r. strcmp a b = Some r \<and> (r = 0 \<longleftrightarrow> cstr a = cstr b)"
  by (induction a b rule: strcmp.induct) auto

lemma strcpy_row:
  assumes "terminated src" "length (cstr src) < length dst"
  shows "\<exists>r. strcpy dst src = Some r \<and> str_row (length dst) r \<and> cstr r = cstr src"
  using k_strcpy_string [OF assms] by (auto simp: strcpy_def k_strcpy_def str_row_def)

lemma strlen_ok: "terminated s \<Longrightarrow> strlen s = Some (length (cstr s))"
  by (simp add: strlen_def k_strlen_eq)

lemma copy_field_ok:
  assumes "length field = n" "0 < n" "terminated s"
  shows "\<exists>f. copy_field field s n = Some f \<and> str_row n f \<and> cstr f = take (n - 1) (cstr s)"
proof -
  let ?x = "take (n - 1) (cstr s)"
  let ?b = "?x @ replicate (n - 1 - length (cstr s)) NUL @ [field ! (n - 1)]"
  have "drop (n - 1) field = [field ! (n - 1)]"
    using assms(1,2) by (metis Cons_nth_drop_Suc Suc_diff_1 diff_less drop_all le_refl zero_less_one)
  moreover have "min (length (cstr s)) (n - Suc 0) + (n - Suc (length (cstr s))) = n - Suc 0"
    using assms(2) by (auto simp: min_def)
  ultimately have b: "strncpy field 0 s (n - 1) = Some ?b"
    using assms by (simp add: strncpy_def strncpy_loop_ok patch_def)
  have "wr ?b (n - 1) NUL = Some (?x @ replicate (n - 1 - length (cstr s)) NUL @ [NUL])"
    using assms(2) by (auto simp: wr_def list_update_append min_def)
  also have "?x @ replicate (n - 1 - length (cstr s)) NUL @ [NUL] = ?x @ NUL # replicate (n - 1 - length (cstr s)) NUL"
    by (simp add: replicate_append_same)
  finally have "copy_field field s n = Some (?x @ NUL # replicate (n - 1 - length (cstr s)) NUL)"
    unfolding copy_field_def b by simp
  moreover have "no_nul ?x" by (simp add: no_nul_take)
  ultimately show ?thesis using assms(2) by (auto simp: str_row_def)
qed

lemma wr_patch:
  "i = d + length xs \<Longrightarrow> d + length xs < length b \<Longrightarrow> wr (patch b d xs) i x = Some (patch b d (xs @ [x]))"
  using patch_snoc [of d xs b x] by (simp add: wr_in)

subsection \<open>The invariant\<close>

definition var_ok :: "shell_var \<Rightarrow> bool" where
  "var_ok v \<longleftrightarrow> str_row MAX_VAR_NAME (sv_name v) \<and> str_row MAX_VAR_VALUE (sv_value v)"

definition entry_of :: "shell_var \<Rightarrow> string \<times> string \<times> bool" where
  "entry_of v = (cstr (sv_name v), cstr (sv_value v), sv_exported v \<noteq> 0)"

definition vlist :: "shell \<Rightarrow> (string \<times> string \<times> bool) list" where
  "vlist sh = map entry_of (take (sh_var_count sh) (sh_vars sh))"

definition vmap :: "shell \<Rightarrow> string \<Rightarrow> (string \<times> bool) option" where
  "vmap sh = map_of (vlist sh)"

definition vars_ok :: "shell \<Rightarrow> bool" where
  "vars_ok sh \<longleftrightarrow> length (sh_vars sh) = MAX_VARS \<and> list_all var_ok (sh_vars sh) \<and> sh_var_count sh \<le> MAX_VARS
     \<and> distinct (map fst (vlist sh))"

definition pid_ok :: "int \<Rightarrow> bool" where
  "pid_ok p \<longleftrightarrow> INT_MIN < p \<and> p \<le> INT_MAX"

definition rest_ok :: "shell \<Rightarrow> bool" where
  "rest_ok sh \<longleftrightarrow> length (sh_history sh) = HISTORY_MAX \<and> list_all (str_row LINE_MAX) (sh_history sh)
     \<and> sh_history_size sh \<le> HISTORY_MAX \<and> sh_history_pos sh \<le> sh_history_size sh
     \<and> length (sh_arg_buf sh) = 16 \<and> list_all (str_row LINE_MAX) (sh_arg_buf sh)
     \<and> pid_ok (sh_status sh) \<and> pid_ok (sh_pid sh) \<and> pid_ok (sh_bg_pid sh)"

definition sh_ok :: "shell \<Rightarrow> bool" where
  "sh_ok sh \<longleftrightarrow> vars_ok sh \<and> rest_ok sh"

lemma vars_okD:
  assumes "vars_ok sh"
  shows "length (sh_vars sh) = MAX_VARS" "i < MAX_VARS \<Longrightarrow> var_ok (sh_vars sh ! i)"
    "sh_var_count sh \<le> MAX_VARS" "distinct (map fst (vlist sh))" "length (vlist sh) = sh_var_count sh"
    "i < sh_var_count sh \<Longrightarrow> vlist sh ! i = entry_of (sh_vars sh ! i)"
  using assms by (auto simp: vars_ok_def list_all_length vlist_def)

lemma var_okD:
  assumes "var_ok v"
  shows "terminated (sv_name v)" "terminated (sv_value v)" "length (sv_name v) = MAX_VAR_NAME"
    "length (sv_value v) = MAX_VAR_VALUE" "length (cstr (sv_name v)) < MAX_VAR_NAME"
    "length (cstr (sv_value v)) < MAX_VAR_VALUE"
  using assms by (auto simp: var_ok_def str_row_def dest: length_cstr_less)

lemma length_vlist: "vars_ok sh \<Longrightarrow> length (vlist sh) = sh_var_count sh"
  by (simp add: vars_okD)

lemma sh_status_update [simp]: "pid_ok s \<Longrightarrow> sh_ok (sh\<lparr>sh_status := s\<rparr>) \<longleftrightarrow> vars_ok sh \<and> rest_ok (sh\<lparr>sh_status := s\<rparr>)"
  by (simp add: sh_ok_def vars_ok_def vlist_def)

text \<open>Replacing the array of variables.\<close>

lemma vars_ok_update:
  assumes "length vs = MAX_VARS" "list_all var_ok vs" "n \<le> MAX_VARS"
    and "map entry_of (take n vs) = es" "distinct (map fst es)"
  shows "vars_ok (sh\<lparr>sh_vars := vs, sh_var_count := n\<rparr>)" "vlist (sh\<lparr>sh_vars := vs, sh_var_count := n\<rparr>) = es"
  using assms by (simp_all add: vars_ok_def vlist_def)

lemma map_take_update:
  "i < n \<Longrightarrow> n \<le> length vs \<Longrightarrow> map f (take n (vs[i := v])) = (map f (take n vs))[i := f v]"
  by (simp add: take_update_swap map_update)

lemma list_all_update: "list_all P xs \<Longrightarrow> P x \<Longrightarrow> list_all P (xs[i := x])"
  by (auto simp: list_all_iff dest!: set_update_subset_insert [THEN subsetD])

subsection \<open>Finding\<close>

lemma find_loop_ok:
  assumes "terminated name" "list_all var_ok vars"
  shows "i + n \<le> length vars \<Longrightarrow>
    \<exists>r. find_loop n i vars name = Some r \<and>
      (case r of
         None \<Rightarrow> \<forall>j. i \<le> j \<longrightarrow> j < i + n \<longrightarrow> cstr (sv_name (vars ! j)) \<noteq> cstr name
       | Some j \<Rightarrow> i \<le> j \<and> j < i + n \<and> cstr (sv_name (vars ! j)) = cstr name)"
proof (induction n arbitrary: i)
  case (Suc n)
  have "var_ok (vars ! i)" using Suc.prems assms(2) by (simp add: list_all_length)
  then obtain r where r: "strcmp (sv_name (vars ! i)) name = Some r"
      "r = 0 \<longleftrightarrow> cstr (sv_name (vars ! i)) = cstr name"
    using strcmp_eq_0 [OF _ assms(1)] var_okD(1) by blast
  show ?case
  proof (cases "r = 0")
    case True
    with r Suc.prems show ?thesis by (simp add: rd_in)
  next
    case False
    obtain r' where r': "find_loop n (Suc i) vars name = Some r'"
        "case r' of None \<Rightarrow> \<forall>j. Suc i \<le> j \<longrightarrow> j < Suc i + n \<longrightarrow> cstr (sv_name (vars ! j)) \<noteq> cstr name
         | Some j \<Rightarrow> Suc i \<le> j \<and> j < Suc i + n \<and> cstr (sv_name (vars ! j)) = cstr name"
      using Suc.IH [of "Suc i"] Suc.prems by auto
    have "cstr (sv_name (vars ! j)) \<noteq> cstr name"
      if "r' = None" "i \<le> j" "j < i + Suc n" for j
      using that r r' False by (cases "j = i") auto
    with r r' False Suc.prems show ?thesis
      by (auto simp: rd_in split: option.splits)
  qed
qed simp

lemma find_variable_ok:
  assumes "vars_ok sh" "terminated name"
  shows "\<exists>r. find_variable sh name = Some r \<and>
    (case r of
       None \<Rightarrow> cstr name \<notin> dom (vmap sh)
     | Some i \<Rightarrow> i < sh_var_count sh \<and> cstr (sv_name (sh_vars sh ! i)) = cstr name
         \<and> vmap sh (cstr name) = Some (cstr (sv_value (sh_vars sh ! i)), sv_exported (sh_vars sh ! i) \<noteq> 0))"
proof -
  obtain r where r: "find_variable sh name = Some r"
    "case r of
       None \<Rightarrow> \<forall>j. j < sh_var_count sh \<longrightarrow> cstr (sv_name (sh_vars sh ! j)) \<noteq> cstr name
     | Some j \<Rightarrow> j < sh_var_count sh \<and> cstr (sv_name (sh_vars sh ! j)) = cstr name"
    using find_loop_ok [of name "sh_vars sh" 0 "sh_var_count sh"] assms
    by (fastforce simp: find_variable_def vars_ok_def split: option.splits)
  note vl = vars_okD(5,6) [OF assms(1)]
  show ?thesis
  proof (cases r)
    case None
    have "vmap sh (cstr name) = None"
      unfolding vmap_def map_of_eq_None_iff
      using r(2) None vl by (auto simp: in_set_conv_nth entry_of_def)
    with r None show ?thesis by auto
  next
    case (Some i)
    with r have i: "i < sh_var_count sh" "cstr (sv_name (sh_vars sh ! i)) = cstr name" by auto
    have "(cstr name, cstr (sv_value (sh_vars sh ! i)), sv_exported (sh_vars sh ! i) \<noteq> 0) \<in> set (vlist sh)"
      unfolding in_set_conv_nth using i vl by (auto simp: entry_of_def intro!: exI [of _ i])
    then have "vmap sh (cstr name) = Some (cstr (sv_value (sh_vars sh ! i)), sv_exported (sh_vars sh ! i) \<noteq> 0)"
      using vars_okD(4) [OF assms(1)] by (simp add: vmap_def)
    with r Some i show ?thesis by simp
  qed
qed

lemma get_variable_ok:
  assumes "vars_ok sh" "terminated name"
  shows "\<exists>r. get_variable sh name = Some r \<and>
    (case r of
       None \<Rightarrow> vmap sh (cstr name) = None
     | Some p \<Rightarrow> str_row MAX_VAR_VALUE p \<and> (\<exists>e. vmap sh (cstr name) = Some (cstr p, e)))"
proof -
  obtain r where r: "find_variable sh name = Some r"
    "case r of
       None \<Rightarrow> cstr name \<notin> dom (vmap sh)
     | Some i \<Rightarrow> i < sh_var_count sh \<and> cstr (sv_name (sh_vars sh ! i)) = cstr name
         \<and> vmap sh (cstr name) = Some (cstr (sv_value (sh_vars sh ! i)), sv_exported (sh_vars sh ! i) \<noteq> 0)"
    using find_variable_ok [OF assms] by blast
  then show ?thesis
  proof (cases r)
    case (Some i)
    with r vars_okD(1-3) [OF assms(1)] have "i < MAX_VARS" "var_ok (sh_vars sh ! i)" by auto
    with r Some vars_okD(1) [OF assms(1)] show ?thesis
      by (auto simp: get_variable_def rd_in var_ok_def)
  qed (auto simp: get_variable_def)
qed

subsection \<open>Setting, unsetting, exporting\<close>

lemma map_of_update_at:
  assumes "distinct (map fst es)" "i < length es" "fst (es ! i) = x"
  shows "map_of (es[i := (x, y)]) = (map_of es)(x \<mapsto> y)"
proof -
  have es: "es = take i es @ es ! i # drop (Suc i) es" using assms(2) by (rule id_take_nth_drop)
  have "distinct (map fst (take i es @ es ! i # drop (Suc i) es))"
    using assms(1) by (simp only: es [symmetric])
  then have nin: "x \<notin> fst ` set (take i es)" "x \<notin> fst ` set (drop (Suc i) es)"
    using assms(3) by auto
  have "map_of (es[i := (x, y)]) = (map_of (drop (Suc i) es))(x \<mapsto> y) ++ map_of (take i es)"
    using assms(2) by (simp add: upd_conv_take_nth_drop)
  also have "\<dots> = (map_of (drop (Suc i) es) ++ map_of (take i es))(x \<mapsto> y)"
    using nin by (simp add: map_add_upd_left dom_map_of_conv_image_fst)
  also have "(map_of (drop (Suc i) es) ++ map_of (take i es))(x \<mapsto> y) =
      (map_of (take i es @ es ! i # drop (Suc i) es))(x \<mapsto> y)"
    using nin assms(3) by (cases "es ! i") (simp add: map_add_upd_left dom_map_of_conv_image_fst)
  also have "take i es @ es ! i # drop (Suc i) es = es"
    by (rule es [symmetric])
  finally show ?thesis .
qed

lemma map_of_remove_at:
  assumes "distinct (map fst es)" "i < length es" "fst (es ! i) = x"
  shows "map_of (take i es @ drop (Suc i) es) = (map_of es)(x := None)"
proof -
  have es: "es = take i es @ es ! i # drop (Suc i) es" using assms(2) by (rule id_take_nth_drop)
  have "distinct (map fst (take i es @ es ! i # drop (Suc i) es))"
    using assms(1) by (simp only: es [symmetric])
  then have nin: "x \<notin> fst ` set (take i es)" "x \<notin> fst ` set (drop (Suc i) es)"
    using assms(3) by auto
  have "map_of es = (map_of (drop (Suc i) es))(x \<mapsto> snd (es ! i)) ++ map_of (take i es)"
    using assms(3) arg_cong [OF es, of map_of] by (cases "es ! i") simp
  moreover have "map_of (take i es) x = None" "map_of (drop (Suc i) es) x = None"
    using nin by (simp_all add: map_of_eq_None_iff)
  ultimately show ?thesis
    by (auto simp: fun_eq_iff map_add_def split: option.splits)
qed

text \<open>The variable named \<open>x\<close> gets the value \<open>y\<close>, and is exported if \<open>e\<close> says so or it was.\<close>

definition put_var :: "string \<Rightarrow> string \<Rightarrow> bool \<Rightarrow> (string \<Rightarrow> (string \<times> bool) option) \<Rightarrow> (string \<Rightarrow> (string \<times> bool) option)" where
  "put_var x y e m = m(x \<mapsto> (y, e \<or> (case m x of Some (_, e') \<Rightarrow> e' | None \<Rightarrow> False)))"

lemma card_dom_vmap: "vars_ok sh \<Longrightarrow> card (dom (vmap sh)) = sh_var_count sh"
  using distinct_card [of "map fst (vlist sh)"]
  by (simp add: vmap_def dom_map_of_conv_image_fst vars_okD)

lemma set_variable_ok:
  assumes "vars_ok sh" "terminated name" "terminated value" "length (cstr name) < MAX_VAR_NAME"
    and room: "cstr name \<in> dom (vmap sh) \<or> card (dom (vmap sh)) < MAX_VARS"
  shows "\<exists>vs n. set_variable name value exported sh = Ret (sh\<lparr>sh_vars := vs, sh_var_count := n\<rparr>)
    \<and> vars_ok (sh\<lparr>sh_vars := vs, sh_var_count := n\<rparr>)
    \<and> vmap (sh\<lparr>sh_vars := vs, sh_var_count := n\<rparr>) =
        put_var (cstr name) (take (MAX_VAR_VALUE - 1) (cstr value)) (exported \<noteq> 0) (vmap sh)"
proof -
  note ok = vars_okD [OF assms(1)]
  obtain r where r: "find_variable sh name = Some r"
    "case r of
       None \<Rightarrow> cstr name \<notin> dom (vmap sh)
     | Some i \<Rightarrow> i < sh_var_count sh \<and> cstr (sv_name (sh_vars sh ! i)) = cstr name
         \<and> vmap sh (cstr name) = Some (cstr (sv_value (sh_vars sh ! i)), sv_exported (sh_vars sh ! i) \<noteq> 0)"
    using find_variable_ok [OF assms(1,2)] by blast
  show ?thesis
  proof (cases r)
    case (Some i)
    let ?v = "sh_vars sh ! i"
    have i: "i < sh_var_count sh" "i < MAX_VARS" "cstr (sv_name ?v) = cstr name"
        "vmap sh (cstr name) = Some (cstr (sv_value ?v), sv_exported ?v \<noteq> 0)"
      using r Some ok(3) by auto
    have v: "var_ok ?v" using ok(2) i by simp
    obtain f where f: "copy_field (sv_value ?v) value MAX_VAR_VALUE = Some f" "str_row MAX_VAR_VALUE f"
        "cstr f = take (MAX_VAR_VALUE - 1) (cstr value)"
      using copy_field_ok [of "sv_value ?v" MAX_VAR_VALUE "value"] var_okD(4) [OF v] assms(3)
      by (auto simp: MAX_VAR_VALUE_def)
    define v' where "v' = (if exported \<noteq> 0 then ?v\<lparr>sv_value := f, sv_exported := 1\<rparr> else ?v\<lparr>sv_value := f\<rparr>)"
    have v': "var_ok v'" "entry_of v' = (cstr name, cstr f, exported \<noteq> 0 \<or> sv_exported ?v \<noteq> 0)"
      using v f i by (auto simp: v'_def var_ok_def entry_of_def)
    have "set_variable name value exported sh = Ret (sh\<lparr>sh_vars := (sh_vars sh)[i := v']\<rparr>)"
      using r Some f i ok(1) by (simp add: set_variable_def update_variable_def rd_in v'_def Let_def)
    then have eq: "set_variable name value exported sh =
        Ret (sh\<lparr>sh_vars := (sh_vars sh)[i := v'], sh_var_count := sh_var_count sh\<rparr>)" by simp
    have es: "map entry_of (take (sh_var_count sh) ((sh_vars sh)[i := v'])) = (vlist sh)[i := entry_of v']"
      using i ok(1,3) by (simp add: map_take_update vlist_def)
    have fs: "map fst ((vlist sh)[i := entry_of v']) = map fst (vlist sh)"
    proof -
      have "fst (vlist sh ! i) = cstr name" using i ok(6) by (simp add: entry_of_def)
      then show ?thesis using i ok(5) by (simp add: map_update v'(2) list_update_same_conv)
    qed
    have up: "vars_ok (sh\<lparr>sh_vars := (sh_vars sh)[i := v'], sh_var_count := sh_var_count sh\<rparr>)"
        "vlist (sh\<lparr>sh_vars := (sh_vars sh)[i := v'], sh_var_count := sh_var_count sh\<rparr>) = (vlist sh)[i := entry_of v']"
      using vars_ok_update [OF _ _ ok(3) es, of sh] assms(1) v'(1) fs
      by (simp_all add: vars_ok_def list_all_update)
    have "vmap (sh\<lparr>sh_vars := (sh_vars sh)[i := v'], sh_var_count := sh_var_count sh\<rparr>) =
        put_var (cstr name) (cstr f) (exported \<noteq> 0) (vmap sh)"
      unfolding vmap_def up(2) v'(2) put_var_def
      using map_of_update_at [OF ok(4), of i "cstr name"] i ok(5,6)
      by (simp add: entry_of_def vmap_def [symmetric])
    with eq up(1) f(3) show ?thesis by metis
  next
    case None
    then have new: "cstr name \<notin> dom (vmap sh)" using r by simp
    then have lt: "sh_var_count sh < MAX_VARS"
      using room card_dom_vmap [OF assms(1)] by auto
    let ?v = "sh_vars sh ! sh_var_count sh"
    have v: "var_ok ?v" using ok(2) lt by simp
    obtain f where f: "copy_field (sv_value ?v) value MAX_VAR_VALUE = Some f" "str_row MAX_VAR_VALUE f"
        "cstr f = take (MAX_VAR_VALUE - 1) (cstr value)"
      using copy_field_ok [of "sv_value ?v" MAX_VAR_VALUE "value"] var_okD(4) [OF v] assms(3)
      by (auto simp: MAX_VAR_VALUE_def)
    obtain g where g: "copy_field (sv_name ?v) name MAX_VAR_NAME = Some g" "str_row MAX_VAR_NAME g"
        "cstr g = cstr name"
      using copy_field_ok [of "sv_name ?v" MAX_VAR_NAME name] var_okD(3) [OF v] assms(2,4)
      by (auto simp: MAX_VAR_NAME_def)
    define v' where "v' = \<lparr>sv_name = g, sv_value = f, sv_exported = exported\<rparr>"
    have v': "var_ok v'" "entry_of v' = (cstr name, cstr f, exported \<noteq> 0)"
      using f g by (simp_all add: v'_def var_ok_def entry_of_def)
    let ?vs = "(sh_vars sh)[sh_var_count sh := v']" and ?n = "sh_var_count sh + 1"
    have eq: "set_variable name value exported sh = Ret (sh\<lparr>sh_vars := ?vs, sh_var_count := ?n\<rparr>)"
      using r None f g lt ok(1) by (simp add: set_variable_def add_variable_def rd_in v'_def)
    have es: "map entry_of (take ?n ?vs) = vlist sh @ [entry_of v']"
      using lt ok(1) by (simp add: vlist_def take_Suc_conv_app_nth)
    have d: "distinct (map fst (vlist sh @ [entry_of v']))"
      using ok(4) new by (simp add: v'(2) vmap_def dom_map_of_conv_image_fst)
    have up: "vars_ok (sh\<lparr>sh_vars := ?vs, sh_var_count := ?n\<rparr>)"
        "vlist (sh\<lparr>sh_vars := ?vs, sh_var_count := ?n\<rparr>) = vlist sh @ [entry_of v']"
      using vars_ok_update [OF _ _ _ es d, of sh] assms(1) v'(1) lt
      by (simp_all add: vars_ok_def list_all_update)
    have none: "vmap sh (cstr name) = None" using new by blast
    have "vmap (sh\<lparr>sh_vars := ?vs, sh_var_count := ?n\<rparr>) = put_var (cstr name) (cstr f) (exported \<noteq> 0) (vmap sh)"
      unfolding vmap_def up(2) v'(2) put_var_def
      using none by (auto simp: fun_eq_iff vmap_def map_add_def split: option.splits)
    with eq up(1) f(3) show ?thesis by metis
  qed
qed

lemma shift_down_ok:
  "i + n < length vars \<Longrightarrow>
   \<exists>vs. shift_down n i vars = Some vs \<and> length vs = length vars \<and> (list_all P vars \<longrightarrow> list_all P vs)
     \<and> (\<forall>j < length vars. vs ! j = (if i \<le> j \<and> j < i + n then vars ! (j + 1) else vars ! j))"
proof (induction n arbitrary: i vars)
  case (Suc n)
  let ?vs = "vars[i := vars ! (i + 1)]"
  obtain vs where vs: "shift_down n (Suc i) ?vs = Some vs" "length vs = length vars"
      "list_all P ?vs \<longrightarrow> list_all P vs"
      "\<forall>j < length vars. vs ! j = (if Suc i \<le> j \<and> j < Suc i + n then ?vs ! (j + 1) else ?vs ! j)"
    using Suc.IH [of "Suc i" ?vs] Suc.prems by auto
  have "list_all P vars \<Longrightarrow> list_all P ?vs"
    using Suc.prems by (intro list_all_update) (simp_all add: list_all_length)
  moreover have "shift_down (Suc n) i vars = Some vs"
    using Suc.prems vs(1) by (simp add: rd_in wr_in)
  moreover have "vs ! j = (if i \<le> j \<and> j < i + Suc n then vars ! (j + 1) else vars ! j)" if "j < length vars" for j
    using that vs(4) Suc.prems by (cases "j = i") (auto simp: nth_list_update)
  ultimately show ?case using vs(2,3) by blast
qed auto

lemma unset_variable_ok:
  assumes "vars_ok sh" "terminated name"
  shows "\<exists>vs n. unset_variable name sh = Some (sh\<lparr>sh_vars := vs, sh_var_count := n\<rparr>)
    \<and> vars_ok (sh\<lparr>sh_vars := vs, sh_var_count := n\<rparr>)
    \<and> vmap (sh\<lparr>sh_vars := vs, sh_var_count := n\<rparr>) = (vmap sh)(cstr name := None)"
proof -
  note ok = vars_okD [OF assms(1)]
  obtain r where r: "find_variable sh name = Some r"
    "case r of
       None \<Rightarrow> cstr name \<notin> dom (vmap sh)
     | Some i \<Rightarrow> i < sh_var_count sh \<and> cstr (sv_name (sh_vars sh ! i)) = cstr name
         \<and> vmap sh (cstr name) = Some (cstr (sv_value (sh_vars sh ! i)), sv_exported (sh_vars sh ! i) \<noteq> 0)"
    using find_variable_ok [OF assms] by blast
  show ?thesis
  proof (cases r)
    case None
    then have "unset_variable name sh = Some (sh\<lparr>sh_vars := sh_vars sh, sh_var_count := sh_var_count sh\<rparr>)"
        "(vmap sh)(cstr name := None) = vmap sh"
      using r by (auto simp: unset_variable_def)
    then show ?thesis using assms(1)
      by (intro exI [of _ "sh_vars sh"] exI [of _ "sh_var_count sh"]) simp
  next
    case (Some i)
    with r have i: "i < sh_var_count sh" "cstr (sv_name (sh_vars sh ! i)) = cstr name" by auto
    let ?n = "sh_var_count sh - 1"
    have "i + (?n - i) < length (sh_vars sh)" using i ok(1,3) by simp
    from shift_down_ok [OF this, of var_ok, unfolded ok(1)]
    obtain vs where vs: "shift_down (?n - i) i (sh_vars sh) = Some vs" "length vs = MAX_VARS"
        "list_all var_ok (sh_vars sh) \<longrightarrow> list_all var_ok vs"
        "\<forall>j < MAX_VARS. vs ! j = (if i \<le> j \<and> j < i + (?n - i) then sh_vars sh ! (j + 1) else sh_vars sh ! j)"
      by blast
    have es: "map entry_of (take ?n vs) = take i (vlist sh) @ drop (Suc i) (vlist sh)" (is "?L = ?R")
    proof (rule nth_equalityI)
      show "length ?L = length ?R" using i vs(2) ok(3,5) by simp
      fix j assume "j < length ?L"
      then have j: "j < ?n" by simp
      then show "?L ! j = ?R ! j"
        using i vs(2,4) ok(3,5,6) by (cases "j < i") (simp_all add: nth_append)
    qed
    have d: "distinct (map fst (take i (vlist sh) @ drop (Suc i) (vlist sh)))"
    proof -
      have "vlist sh = take i (vlist sh) @ vlist sh ! i # drop (Suc i) (vlist sh)"
        using i ok(5) by (intro id_take_nth_drop) simp
      then have "distinct (map fst (take i (vlist sh) @ vlist sh ! i # drop (Suc i) (vlist sh)))"
        using ok(4) by metis
      then show ?thesis by auto
    qed
    have up: "vars_ok (sh\<lparr>sh_vars := vs, sh_var_count := ?n\<rparr>)"
        "vlist (sh\<lparr>sh_vars := vs, sh_var_count := ?n\<rparr>) = take i (vlist sh) @ drop (Suc i) (vlist sh)"
      using vars_ok_update [OF vs(2) _ _ es d, of sh] vs(3) assms(1) ok(3) by (simp_all add: vars_ok_def)
    have "fst (vlist sh ! i) = cstr name" using i ok(6) by (simp add: entry_of_def)
    then have "vmap (sh\<lparr>sh_vars := vs, sh_var_count := ?n\<rparr>) = (vmap sh)(cstr name := None)"
      unfolding vmap_def up(2) using map_of_remove_at [OF ok(4), of i "cstr name"] i ok(5) by simp
    moreover have "unset_variable name sh = Some (sh\<lparr>sh_vars := vs, sh_var_count := ?n\<rparr>)"
      using r Some vs(1) by (simp add: unset_variable_def)
    ultimately show ?thesis using up(1) by blast
  qed
qed

lemma export_variable_ok:
  assumes "vars_ok sh" "terminated name"
  shows "\<exists>vs. export_variable name sh = Some (sh\<lparr>sh_vars := vs, sh_var_count := sh_var_count sh\<rparr>)
    \<and> vars_ok (sh\<lparr>sh_vars := vs, sh_var_count := sh_var_count sh\<rparr>)
    \<and> vmap (sh\<lparr>sh_vars := vs, sh_var_count := sh_var_count sh\<rparr>) =
        (case vmap sh (cstr name) of None \<Rightarrow> vmap sh | Some (v, _) \<Rightarrow> (vmap sh)(cstr name \<mapsto> (v, True)))"
proof -
  note ok = vars_okD [OF assms(1)]
  obtain r where r: "find_variable sh name = Some r"
    "case r of
       None \<Rightarrow> cstr name \<notin> dom (vmap sh)
     | Some i \<Rightarrow> i < sh_var_count sh \<and> cstr (sv_name (sh_vars sh ! i)) = cstr name
         \<and> vmap sh (cstr name) = Some (cstr (sv_value (sh_vars sh ! i)), sv_exported (sh_vars sh ! i) \<noteq> 0)"
    using find_variable_ok [OF assms] by blast
  show ?thesis
  proof (cases r)
    case None
    then have "vmap sh (cstr name) = None" using r by auto
    with r None assms(1) show ?thesis
      by (intro exI [of _ "sh_vars sh"]) (simp add: export_variable_def)
  next
    case (Some i)
    let ?v = "(sh_vars sh ! i)\<lparr>sv_exported := 1\<rparr>" and ?n = "sh_var_count sh"
    have i: "i < ?n" "i < MAX_VARS" "cstr (sv_name (sh_vars sh ! i)) = cstr name"
        "vmap sh (cstr name) = Some (cstr (sv_value (sh_vars sh ! i)), sv_exported (sh_vars sh ! i) \<noteq> 0)"
      using r Some ok(3) by auto
    let ?vs = "(sh_vars sh)[i := ?v]"
    have v: "var_ok ?v" "entry_of ?v = (cstr name, cstr (sv_value (sh_vars sh ! i)), True)"
      using ok(2) [OF i(2)] i(3) by (simp_all add: var_ok_def entry_of_def)
    have es: "map entry_of (take ?n ?vs) = (vlist sh)[i := entry_of ?v]"
      using i ok(1,3) by (simp add: map_take_update vlist_def)
    have fn: "fst (vlist sh ! i) = cstr name" using i ok(6) by (simp add: entry_of_def)
    then have "map fst ((vlist sh)[i := entry_of ?v]) = map fst (vlist sh)"
      using i ok(5) by (simp add: map_update v(2) list_update_same_conv)
    then have up: "vars_ok (sh\<lparr>sh_vars := ?vs, sh_var_count := ?n\<rparr>)"
        "vlist (sh\<lparr>sh_vars := ?vs, sh_var_count := ?n\<rparr>) = (vlist sh)[i := entry_of ?v]"
      using vars_ok_update [OF _ _ ok(3) es, of sh] assms(1) v(1) by (simp_all add: vars_ok_def list_all_update)
    have "vmap (sh\<lparr>sh_vars := ?vs, sh_var_count := ?n\<rparr>) =
        (vmap sh)(cstr name \<mapsto> (cstr (sv_value (sh_vars sh ! i)), True))"
      unfolding vmap_def up(2) v(2) using map_of_update_at [OF ok(4), of i "cstr name"] i(1) fn ok(5) by simp
    moreover have "export_variable name sh = Some (sh\<lparr>sh_vars := ?vs, sh_var_count := ?n\<rparr>)"
      using r Some i ok(1) by (simp add: export_variable_def rd_in)
    ultimately show ?thesis using up(1) i(4) by (intro exI [of _ ?vs]) simp
  qed
qed

subsection \<open>The interface of the variables\<close>

text \<open>
  A store of variables with room for \<open>cap\<close> of them: setting updates the map it stands for while there
  is room, values being cut to what their field holds; unsetting removes; exporting marks.
\<close>

locale var_store =
  fixes inv :: "'s \<Rightarrow> bool"
    and vars :: "'s \<Rightarrow> string \<Rightarrow> (string \<times> bool) option"
    and set1 :: "char list \<Rightarrow> char list \<Rightarrow> int \<Rightarrow> 's \<Rightarrow> 's option"
    and unset1 :: "char list \<Rightarrow> 's \<Rightarrow> 's option"
    and cap name_cap value_cap :: nat
  assumes set1_law:
      "inv s \<Longrightarrow> terminated x \<Longrightarrow> terminated y \<Longrightarrow> length (cstr x) \<le> name_cap \<Longrightarrow>
       cstr x \<in> dom (vars s) \<or> card (dom (vars s)) < cap \<Longrightarrow>
       \<exists>s'. set1 x y e s = Some s' \<and> inv s' \<and> vars s' = put_var (cstr x) (take value_cap (cstr y)) (e \<noteq> 0) (vars s)"
    and unset1_law:
      "inv s \<Longrightarrow> terminated x \<Longrightarrow> \<exists>s'. unset1 x s = Some s' \<and> inv s' \<and> vars s' = (vars s)(cstr x := None)"
    and finite_vars: "inv s \<Longrightarrow> finite (dom (vars s))"
begin

text \<open>A sequence of settings of exported variables.\<close>

primrec set_all :: "(char list \<times> char list) list \<Rightarrow> 's \<Rightarrow> 's option" where
  "set_all [] s = Some s"
| "set_all (p # ps) s = do { s1 \<leftarrow> set1 (fst p) (snd p) 1 s; set_all ps s1 }"

lemma dom_put_var: "dom (put_var x y e m) = insert x (dom m)"
  by (auto simp: put_var_def)

text \<open>Distinct new names that fit with what is there all end up in the map, exported.\<close>

lemma set_all_ok:
  assumes "inv s" "\<forall>(x, y) \<in> set ps. terminated x \<and> terminated y \<and> length (cstr x) \<le> name_cap \<and> length (cstr y) \<le> value_cap"
    and "distinct (map (\<lambda>p. cstr (fst p)) ps)" "\<forall>p \<in> set ps. cstr (fst p) \<notin> dom (vars s)"
    and "card (dom (vars s)) + length ps \<le> cap"
  shows "\<exists>s'. set_all ps s = Some s' \<and> inv s'
    \<and> vars s' = vars s ++ map_of (map (\<lambda>p. (cstr (fst p), cstr (snd p), True)) ps)"
  using assms
proof (induction ps arbitrary: s)
  case (Cons p ps)
  obtain x y where p: "p = (x, y)" by (cases p)
  have xy: "terminated x" "terminated y" "length (cstr x) \<le> name_cap" "length (cstr y) \<le> value_cap"
      "cstr x \<notin> dom (vars s)"
    using Cons.prems(2,4) by (auto simp: p)
  obtain s1 where s1: "set1 x y 1 s = Some s1" "inv s1"
      "vars s1 = put_var (cstr x) (take value_cap (cstr y)) True (vars s)"
    using set1_law [of s x y 1] Cons.prems(1,5) xy by auto
  then have v1: "vars s1 = (vars s)(cstr x \<mapsto> (cstr y, True))" using xy by (simp add: put_var_def)
  then have d: "dom (vars s1) = insert (cstr x) (dom (vars s))" by simp
  have "\<forall>p \<in> set ps. cstr (fst p) \<notin> dom (vars s1)"
    unfolding d using Cons.prems(3,4) by (force simp: p)
  moreover have "card (dom (vars s1)) + length ps \<le> cap"
    unfolding d using finite_vars [OF Cons.prems(1)] xy(5) Cons.prems(5) by simp
  ultimately obtain s' where s': "set_all ps s1 = Some s'" "inv s'"
      "vars s' = vars s1 ++ map_of (map (\<lambda>p. (cstr (fst p), cstr (snd p), True)) ps)"
    using Cons.IH [OF s1(2)] Cons.prems(2,3) by auto
  have "cstr x \<notin> dom (map_of (map (\<lambda>p. (cstr (fst p), cstr (snd p), True)) ps))"
    using Cons.prems(3) by (simp add: p dom_map_of_conv_image_fst image_image)
  then have "vars s ++ map_of (map (\<lambda>p. (cstr (fst p), cstr (snd p), True)) (p # ps)) = vars s'"
    unfolding s'(3) v1 by (simp add: p map_add_upd_left)
  from this [symmetric] s1(1) s'(1,2) show ?case
    by (intro exI [of _ s'] conjI) (simp_all only: p set_all.simps fst_conv snd_conv bind.bind_lunit)
qed simp

end

text \<open>The result of a program that made no system call.\<close>

definition ret_of :: "'a prog \<Rightarrow> 'a option" where
  "ret_of p = (case p of Ret x \<Rightarrow> Some x | _ \<Rightarrow> None)"

lemma ret_of_simps [simp]: "ret_of (Ret x) = Some x"
  by (simp add: ret_of_def)

interpretation shv: var_store vars_ok vmap "\<lambda>x y e sh. ret_of (set_variable x y e sh)" unset_variable
    MAX_VARS "MAX_VAR_NAME - 1" "MAX_VAR_VALUE - 1"
proof
  fix sh x y e
  assume "vars_ok sh" "terminated x" "terminated y" "length (cstr x) \<le> MAX_VAR_NAME - 1"
    "cstr x \<in> dom (vmap sh) \<or> card (dom (vmap sh)) < MAX_VARS"
  then show "\<exists>s'. ret_of (set_variable x y e sh) = Some s' \<and> vars_ok s' \<and>
      vmap s' = put_var (cstr x) (take (MAX_VAR_VALUE - 1) (cstr y)) (e \<noteq> 0) (vmap sh)"
    using set_variable_ok [of sh x y e] by (force simp: MAX_VAR_NAME_def)
next
  fix sh x
  assume "vars_ok sh" "terminated x"
  then show "\<exists>s'. unset_variable x sh = Some s' \<and> vars_ok s' \<and> vmap s' = (vmap sh)(cstr x := None)"
    using unset_variable_ok by blast
qed (simp add: vmap_def finite_dom_map_of)

subsection \<open>The environment\<close>

definition ENV_MAX :: nat where "ENV_MAX = MAX_VAR_NAME + MAX_VAR_VALUE"

lemma env_copy_ok:
  "terminated s \<Longrightarrow> off + length (cstr s) \<le> ENV_MAX \<Longrightarrow> ENV_MAX < length row \<Longrightarrow>
   env_copy s off row = Some (off + length (cstr s), patch row off (cstr s))"
proof (induction s off row rule: env_copy.induct)
  case (2 c s off row)
  then show ?case
    by (auto simp: wr_in patch_Cons ENV_MAX_def)
qed simp

definition env_text :: "string \<times> string \<times> bool \<Rightarrow> string" where
  "env_text e = fst e @ CHR ''='' # fst (snd e)"

lemma patch_patch_append:
  "i + length xs + length ys \<le> length b \<Longrightarrow> patch (patch b i xs) (i + length xs) ys = patch b i (xs @ ys)"
  by (simp add: patch_def add.commute add.left_commute)

lemma env_string_ok:
  assumes "var_ok v" "length row = ENV_MAX + 2"
  shows "\<exists>r. env_string v row = Some r \<and> terminated r \<and> cstr r = env_text (entry_of v)"
proof -
  let ?n = "cstr (sv_name v)" and ?v = "cstr (sv_value v)"
  have len: "length ?n \<le> 63" "length ?v \<le> 255" "ENV_MAX = 320"
    using var_okD(5,6) [OF assms(1)] by (simp_all add: ENV_MAX_def MAX_VAR_NAME_def MAX_VAR_VALUE_def)
  have 1: "env_copy (sv_name v) 0 row = Some (length ?n, patch row 0 ?n)"
    using env_copy_ok [of "sv_name v" 0 row] var_okD(1) [OF assms(1)] len assms(2) by simp
  let ?r2 = "patch row 0 (?n @ ''='')"
  have 2: "wr (patch row 0 ?n) (length ?n) (CHR ''='') = Some ?r2"
    using patch_snoc [of 0 ?n row "CHR ''=''"] len assms(2) by (simp add: wr_in)
  have 3: "env_copy (sv_value v) (Suc (length ?n)) ?r2 = Some (Suc (length ?n) + length ?v, patch row 0 (?n @ CHR ''='' # ?v))"
    using env_copy_ok [of "sv_value v" "Suc (length ?n)" ?r2] var_okD(2) [OF assms(1)] len assms(2)
      patch_patch_append [of 0 "?n @ ''=''" ?v row] by simp
  have 4: "wr (patch row 0 (?n @ CHR ''='' # ?v)) (Suc (length ?n + length ?v)) NUL = Some (patch row 0 (c_string (?n @ CHR ''='' # ?v)))"
  proof -
    have "Suc (length ?n) + length ?v < length row" using len assms(2) by simp
    then show ?thesis by (subst wr_patch) (simp_all add: c_string_def)
  qed
  have "env_string v row = Some (patch row 0 (c_string (?n @ CHR ''='' # ?v)))"
    using len by (simp add: env_string_def 1 2 3 4 ENV_MAX_def [symmetric])
  moreover have "cstr (patch row 0 (c_string (?n @ CHR ''='' # ?v))) = ?n @ CHR ''='' # ?v"
    using cstr_patch_c_string [of "?n @ CHR ''='' # ?v" 0 row] len assms(2) by simp
  ultimately show ?thesis
    by (auto simp: terminated_patch env_text_def entry_of_def)
qed

definition exported_list :: "shell \<Rightarrow> (string \<times> string \<times> bool) list" where
  "exported_list sh = filter (\<lambda>e. snd (snd e)) (vlist sh)"

lemma env_loop_ok:
  assumes "list_all var_ok vars"
  shows "i + n \<le> length vars \<Longrightarrow> length es + n \<le> MAX_VARS \<Longrightarrow>
    \<exists>new. env_loop n i vars es = Some (es @ new) \<and> list_all terminated new
      \<and> map cstr new = map env_text (filter (\<lambda>e. snd (snd e)) (map entry_of (take n (drop i vars))))"
proof (induction n arbitrary: i es)
  case (Suc n)
  have v: "var_ok (vars ! i)" using assms Suc.prems by (simp add: list_all_length)
  have split: "take (Suc n) (drop i vars) = vars ! i # take n (drop (Suc i) vars)"
    using Suc.prems by (simp add: Cons_nth_drop_Suc [symmetric])
  obtain r where r: "env_string (vars ! i) (replicate (MAX_VAR_NAME + MAX_VAR_VALUE + 2) NUL) = Some r"
      "terminated r" "cstr r = env_text (entry_of (vars ! i))"
    using env_string_ok [OF v, of "replicate (MAX_VAR_NAME + MAX_VAR_VALUE + 2) NUL"] by (auto simp: ENV_MAX_def)
  define add where "add = (if sv_exported (vars ! i) \<noteq> 0 then [r] else [])"
  have "length add \<le> 1" by (simp add: add_def)
  obtain new where new: "env_loop n (Suc i) vars (es @ add) = Some ((es @ add) @ new)" "list_all terminated new"
      "map cstr new = map env_text (filter (\<lambda>e. snd (snd e)) (map entry_of (take n (drop (Suc i) vars))))"
    using Suc.IH [of "Suc i" "es @ add"] Suc.prems \<open>length add \<le> 1\<close> by auto
  have "env_loop (Suc n) i vars es = Some (es @ (add @ new))"
    using Suc.prems r(1) new(1) by (auto simp: rd_in add_def)
  moreover have "list_all terminated (add @ new)" using r(2) new(2) by (simp add: add_def)
  moreover have "map cstr (add @ new) =
      map env_text (filter (\<lambda>e. snd (snd e)) (map entry_of (take (Suc n) (drop i vars))))"
    using r(3) new(3) by (simp add: split add_def entry_of_def)
  ultimately show ?case by blast
qed simp

lemma build_environment_ok:
  assumes "vars_ok sh"
  shows "\<exists>es. build_environment sh = Some es \<and> list_all terminated es
    \<and> map cstr es = map env_text (exported_list sh)"
  using env_loop_ok [of "sh_vars sh" 0 "sh_var_count sh" "[]"] assms
  by (auto simp: build_environment_def vars_ok_def exported_list_def vlist_def)

text \<open>Reading an environment entry back.\<close>

lemma strchr_split:
  "terminated s \<Longrightarrow> cstr s = x @ c # y \<Longrightarrow> c \<notin> set x \<Longrightarrow> c \<noteq> NUL \<Longrightarrow> strchr s c = Some (Some (drop (length x) s))"
proof (induction x arbitrary: s)
  case Nil
  then show ?case by (cases s) (auto split: if_splits)
next
  case (Cons a x)
  then show ?case by (cases s) (auto split: if_splits)
qed

lemma copy_cut_ok:
  assumes "n \<le> length s" "no_nul (take n s)" "0 < sz"
  shows "\<exists>r. copy_cut sz s n = Some r \<and> str_row sz r \<and> cstr r = take (sz - 1) (take n s)"
proof -
  define m where "m = min (sz - 1) n"
  have m_eq: "(if n \<ge> sz then sz - 1 else n) = m" using assms(3) by (auto simp: m_def min_def)
  have m: "m \<le> length s" "m < sz" "take m s = take (sz - 1) (take n s)"
    using assms by (auto simp: m_def)
  have "memcpy (replicate sz NUL) 0 s 0 m = Some (patch (replicate sz NUL) 0 (take m s))"
    using m by (simp add: memcpy_def memcpy_loop_ok)
  moreover have "wr (patch (replicate sz NUL) 0 (take m s)) m NUL = Some (patch (replicate sz NUL) 0 (c_string (take m s)))"
    using m(1,2) by (subst wr_patch) (simp_all add: c_string_def)
  ultimately have "copy_cut sz s n = Some (patch (replicate sz NUL) 0 (c_string (take m s)))"
    by (simp add: copy_cut_def m_eq)
  moreover have "no_nul (take m s)" unfolding m(3) by (rule no_nul_take [OF assms(2)])
  then have "cstr (patch (replicate sz NUL) 0 (c_string (take m s))) = take m s"
    using cstr_patch_c_string [of "take m s" 0 "replicate sz NUL"] m by simp
  moreover have "length (patch (replicate sz NUL) 0 (c_string (take m s))) = sz"
    using m by (simp add: c_string_def)
  ultimately show ?thesis using m(3) by (auto simp: str_row_def terminated_patch)
qed

lemma split_at_eq_ok:
  assumes "terminated s" "cstr s = x @ CHR ''='' # y"
  shows "\<exists>nm val. split_at_eq s (drop (length x) s) = Some (nm, val)
    \<and> str_row MAX_VAR_NAME nm \<and> cstr nm = take (MAX_VAR_NAME - 1) x
    \<and> str_row MAX_VAR_VALUE val \<and> cstr val = take (MAX_VAR_VALUE - 1) y"
proof -
  obtain t where t: "s = x @ CHR ''='' # y @ NUL # t"
    using terminatedE [OF assms(1)] assms(2) by (metis append_Cons append_assoc)
  have "no_nul (cstr s)" by simp
  then have nn: "no_nul x" "no_nul y" by (simp_all add: assms(2))
  have n: "length s - length (drop (length x) s) = length x" by (simp add: t)
  obtain nm where nm: "copy_cut MAX_VAR_NAME s (length x) = Some nm" "str_row MAX_VAR_NAME nm"
      "cstr nm = take (MAX_VAR_NAME - 1) x"
    using copy_cut_ok [of "length x" s MAX_VAR_NAME] nn(1) by (auto simp: t MAX_VAR_NAME_def)
  have d: "drop 1 (drop (length x) s) = y @ NUL # t" by (simp add: t)
  obtain val where val: "copy_cut MAX_VAR_VALUE (y @ NUL # t) (length y) = Some val" "str_row MAX_VAR_VALUE val"
      "cstr val = take (MAX_VAR_VALUE - 1) y"
    using copy_cut_ok [of "length y" "y @ NUL # t" MAX_VAR_VALUE] nn(2) by (auto simp: MAX_VAR_VALUE_def)
  have "strlen (y @ NUL # t) = Some (length y)" using nn(2) by (simp add: strlen_ok)
  then have "split_at_eq s (drop (length x) s) = Some (nm, val)"
    by (simp only: split_at_eq_def n nm(1) d val(1) bind.bind_lunit)
  with nm val show ?thesis by blast
qed

text \<open>Names as assignments accept them: without \<open>=\<close> and not empty.\<close>

definition plain_name :: "string \<Rightarrow> bool" where
  "plain_name x \<longleftrightarrow> x \<noteq> [] \<and> CHR ''='' \<notin> set x"

lemma load_env_loop_ok:
  assumes "list_all terminated es" "map cstr es = map env_text ents" "vars_ok sh"
    and "\<forall>(x, y, e) \<in> set ents. plain_name x \<and> length x < MAX_VAR_NAME \<and> length y < MAX_VAR_VALUE"
    and "distinct (map fst ents)" "\<forall>e \<in> set ents. fst e \<notin> dom (vmap sh)"
    and "card (dom (vmap sh)) + length ents \<le> MAX_VARS"
  shows "\<exists>ps sh'. load_env_loop es sh = Ret sh' \<and> shv.set_all ps sh = Some sh'
    \<and> map (\<lambda>p. (cstr (fst p), cstr (snd p), True)) ps = map (\<lambda>e. (fst e, fst (snd e), True)) ents
    \<and> (\<forall>p \<in> set ps. terminated (fst p) \<and> terminated (snd p))"
  using assms
proof (induction es arbitrary: ents sh)
  case Nil
  then show ?case by (intro exI [of _ "[]"]) simp
next
  case (Cons s es)
  then obtain e ents' where ents: "ents = e # ents'" "cstr s = env_text e" "map cstr es = map env_text ents'"
    by (cases ents) auto
  obtain x y b where e: "e = (x, y, b)" by (cases e)
  have xy: "plain_name x" "length x < MAX_VAR_NAME" "length y < MAX_VAR_VALUE" "x \<notin> dom (vmap sh)"
    using Cons.prems(4,6) by (auto simp: ents e)
  have s: "terminated s" "cstr s = x @ CHR ''='' # y" using Cons.prems(1) ents(2) by (simp_all add: e env_text_def)
  have chr: "strchr s (CHR ''='') = Some (Some (drop (length x) s))"
    using strchr_split [OF s] xy(1) by (simp add: plain_name_def)
  obtain nm val where nv: "split_at_eq s (drop (length x) s) = Some (nm, val)" "str_row MAX_VAR_NAME nm"
      "cstr nm = x" "str_row MAX_VAR_VALUE val" "cstr val = y"
    using split_at_eq_ok [OF s] xy(2,3) by auto
  have lt: "sh_var_count sh < MAX_VARS"
    using Cons.prems(7) card_dom_vmap [OF Cons.prems(3)] by (simp add: ents)
  obtain sh1 where sh1: "set_variable nm val 1 sh = Ret sh1" "vars_ok sh1" "vmap sh1 = put_var x y True (vmap sh)"
    using set_variable_ok [OF Cons.prems(3), of nm val 1] nv xy(2,3) Cons.prems(7)
    by (fastforce simp: str_row_def ents)
  have d: "dom (vmap sh1) = insert x (dom (vmap sh))" unfolding sh1(3) by (rule shv.dom_put_var)
  have "finite (dom (vmap sh))" using Cons.prems(3) by (rule shv.finite_vars)
  then have c: "card (dom (vmap sh1)) + length ents' \<le> MAX_VARS"
    unfolding d using xy(4) Cons.prems(7) by (simp add: ents)
  have "\<forall>e \<in> set ents'. fst e \<notin> dom (vmap sh1)"
    unfolding d using Cons.prems(5,6) by (auto simp: ents e)
  then obtain ps sh' where ps: "load_env_loop es sh1 = Ret sh'" "shv.set_all ps sh1 = Some sh'"
      "map (\<lambda>p. (cstr (fst p), cstr (snd p), True)) ps = map (\<lambda>e. (fst e, fst (snd e), True)) ents'"
      "\<forall>p \<in> set ps. terminated (fst p) \<and> terminated (snd p)"
    using Cons.IH [OF _ ents(3) sh1(2)] Cons.prems(1,4,5) c by (auto simp: ents)
  have "0 < length x" using xy(1) by (simp add: plain_name_def)
  moreover have "length x < length s" using s length_cstr_less [OF s(1)] by simp
  ultimately have "length s - length x \<noteq> length s" by linarith
  then have "load_env_loop (s # es) sh = Ret sh'"
    using lt chr nv(1) sh1(1) ps(1) by simp
  moreover have "shv.set_all ((nm, val) # ps) sh = Some sh'" using sh1(1) ps(2) by simp
  ultimately show ?case using ps(3,4) nv
    by (intro exI [of _ "(nm, val) # ps"] exI [of _ sh']) (auto simp: ents e str_row_def)
qed

subsection \<open>Properties\<close>

text \<open>
  C25: the shell's variables are a finite map. Setting a variable of a name of less than 64 characters while
  there is room (or it exists) makes the map hold the value, cut to 255 characters, and the export flag, old or
  new; reading it gives that value; unsetting it then takes it out of the map, reading it finds nothing, and
  every other variable is as before. None of these calls prints, leaves an array or breaks the invariant.
  When the table is full, setting a variable that is not in it prints a message and leaves the shell as it was.
\<close>

theorem shell_variables_map:
  assumes "vars_ok sh" "terminated name" "terminated value" "length (cstr name) < MAX_VAR_NAME"
  shows "if cstr name \<in> dom (vmap sh) \<or> card (dom (vmap sh)) < MAX_VARS
    then \<exists>sh1 sh2 r. set_variable name value e sh = Ret sh1 \<and> vars_ok sh1
      \<and> vmap sh1 = put_var (cstr name) (take (MAX_VAR_VALUE - 1) (cstr value)) (e \<noteq> 0) (vmap sh)
      \<and> get_variable sh1 name = Some (Some r) \<and> cstr r = take (MAX_VAR_VALUE - 1) (cstr value)
      \<and> unset_variable name sh1 = Some sh2 \<and> vars_ok sh2 \<and> vmap sh2 = (vmap sh)(cstr name := None)
      \<and> get_variable sh2 name = Some None
    else set_variable name value e sh = bindP (print_line ''Too many variables'' []) (\<lambda>_. Ret sh)"
proof (cases "cstr name \<in> dom (vmap sh) \<or> card (dom (vmap sh)) < MAX_VARS")
  case True
  obtain sh1 where sh1: "set_variable name value e sh = Ret sh1" "vars_ok sh1"
      "vmap sh1 = put_var (cstr name) (take (MAX_VAR_VALUE - 1) (cstr value)) (e \<noteq> 0) (vmap sh)"
    using set_variable_ok [OF assms True] by blast
  obtain r where r: "get_variable sh1 name = Some (Some r)" "cstr r = take (MAX_VAR_VALUE - 1) (cstr value)"
    using get_variable_ok [OF sh1(2) assms(2)] by (auto simp: sh1(3) put_var_def split: option.splits)
  obtain sh2 where sh2: "unset_variable name sh1 = Some sh2" "vars_ok sh2" "vmap sh2 = (vmap sh1)(cstr name := None)"
    using unset_variable_ok [OF sh1(2) assms(2)] by blast
  have "get_variable sh2 name = Some None"
    using get_variable_ok [OF sh2(2) assms(2)] by (auto simp: sh2(3) split: option.splits)
  moreover have "vmap sh2 = (vmap sh)(cstr name := None)" by (simp add: sh2(3) sh1(3) put_var_def)
  ultimately show ?thesis using True sh1 r sh2 by auto
next
  case False
  then have "find_variable sh name = Some None" "MAX_VARS \<le> sh_var_count sh"
    using find_variable_ok [OF assms(1,2)] card_dom_vmap [OF assms(1)] by (auto split: option.splits)
  with False show ?thesis by (simp add: set_variable_def)
qed

lemma zero_var_ok: "var_ok zero_var"
  by (simp add: zero_var_def var_ok_def str_row_zero shell_sizes)

lemma bss_shell_ok: "vars_ok bss_shell" "rest_ok bss_shell" "vmap bss_shell = Map.empty"
  using zero_var_ok
  by (simp_all add: bss_shell_def vars_ok_def rest_ok_def vlist_def vmap_def list_all_iff str_row_zero pid_ok_def
      INT_MIN_def INT_MAX_def shell_sizes)

theorem shell_variables_map_witness:
  "\<exists>sh1 sh2 r. set_variable (c_string ''HOME'') (c_string ''/'') 1 bss_shell = Ret sh1 \<and> vmap sh1 = [''HOME'' \<mapsto> (''/'', True)]
    \<and> get_variable sh1 (c_string ''HOME'') = Some (Some r) \<and> cstr r = ''/''
    \<and> unset_variable (c_string ''HOME'') sh1 = Some sh2 \<and> vmap sh2 = Map.empty"
  using shell_variables_map [of bss_shell "c_string ''HOME''" "c_string ''/''" 1] bss_shell_ok
  by (fastforce simp: put_var_def MAX_VAR_NAME_def MAX_VAR_VALUE_def MAX_VARS_def)

lemma exported_map:
  "distinct (map fst es) \<Longrightarrow> map_of (map (\<lambda>e. (fst e, fst (snd e), True)) (filter (\<lambda>e. snd (snd e)) es)) x =
     (case map_of es x of Some (v, True) \<Rightarrow> Some (v, True) | _ \<Rightarrow> None)"
proof (induction es)
  case (Cons e es)
  obtain y v b where e: "e = (y, v, b)" by (cases e)
  have "map_of es y = None" using Cons.prems by (simp add: e map_of_eq_None_iff)
  with Cons show ?case by (auto simp: e split: option.splits bool.splits)
qed simp

text \<open>
  C26: the environment a shell gives a child is the one a shell loads. If the names of the exported
  variables are plain (not empty, no equals sign), the strings \<open>build_environment\<close> makes, loaded by
  \<open>load_environment\<close> into a shell without variables, give exactly the exported variables, with their
  values and exported, and no others.
\<close>

theorem environment_roundtrip:
  assumes "vars_ok sh" "\<forall>x v. vmap sh x = Some (v, True) \<longrightarrow> plain_name x" "vars_ok sh0" "vmap sh0 = Map.empty"
  shows "\<exists>es sh'. build_environment sh = Some es \<and> load_environment (Some es) sh0 = Ret sh' \<and> vars_ok sh'
    \<and> vmap sh' = (\<lambda>x. case vmap sh x of Some (v, True) \<Rightarrow> Some (v, True) | _ \<Rightarrow> None)"
proof -
  note ok = vars_okD [OF assms(1)]
  let ?ents = "exported_list sh"
  obtain es where es: "build_environment sh = Some es" "list_all terminated es" "map cstr es = map env_text ?ents"
    using build_environment_ok [OF assms(1)] by blast
  have sizes: "length x < MAX_VAR_NAME \<and> length y < MAX_VAR_VALUE" if mem: "(x, y, b) \<in> set (vlist sh)" for x y b
  proof -
    obtain i where "i < sh_var_count sh" "vlist sh ! i = (x, y, b)"
      using mem ok(5) by (auto simp: in_set_conv_nth)
    then show ?thesis using ok(3,6) var_okD(5,6) [OF ok(2), of i] by (auto simp: entry_of_def)
  qed
  have ents: "\<forall>(x, y, b) \<in> set ?ents. plain_name x \<and> length x < MAX_VAR_NAME \<and> length y < MAX_VAR_VALUE"
    using sizes assms(2) ok(4) by (fastforce simp: exported_list_def vmap_def)
  have dist: "distinct (map fst ?ents)"
    using ok(4) by (simp add: exported_list_def distinct_map_filter)
  have len: "length ?ents \<le> MAX_VARS"
    using ok(3,5) length_filter_le [of "\<lambda>e. snd (snd e)" "vlist sh"] by (simp add: exported_list_def)
  obtain ps sh' where ps: "load_env_loop es sh0 = Ret sh'" "shv.set_all ps sh0 = Some sh'"
      "map (\<lambda>p. (cstr (fst p), cstr (snd p), True)) ps = map (\<lambda>e. (fst e, fst (snd e), True)) ?ents"
      "\<forall>p \<in> set ps. terminated (fst p) \<and> terminated (snd p)"
    using load_env_loop_ok [OF es(2,3) assms(3) ents dist] len assms(4) by auto
  have pairs: "terminated x \<and> terminated y \<and> length (cstr x) \<le> MAX_VAR_NAME - 1 \<and> length (cstr y) \<le> MAX_VAR_VALUE - 1"
    if p: "(x, y) \<in> set ps" for x y
  proof -
    have "(cstr x, cstr y, True) \<in> set (map (\<lambda>p. (cstr (fst p), cstr (snd p), True)) ps)"
      using p image_eqI [of "(cstr x, cstr y, True)" "\<lambda>p. (cstr (fst p), cstr (snd p), True)" "(x, y)" "set ps"] by simp
    then obtain b where "(cstr x, cstr y, b) \<in> set ?ents" unfolding ps(3) by auto
    with ents have "length (cstr x) < MAX_VAR_NAME" "length (cstr y) < MAX_VAR_VALUE" by auto
    with ps(4) p show ?thesis by auto
  qed
  have keys: "map (\<lambda>p. cstr (fst p)) ps = map fst ?ents"
    using arg_cong [OF ps(3), of "map fst"] by (simp add: comp_def)
  have "length ps = length ?ents" using arg_cong [OF ps(3), of length] by simp
  then obtain sh2 where "shv.set_all ps sh0 = Some sh2" "vars_ok sh2"
      "vmap sh2 = vmap sh0 ++ map_of (map (\<lambda>p. (cstr (fst p), cstr (snd p), True)) ps)"
  proof -
    have "\<forall>(x, y) \<in> set ps. terminated x \<and> terminated y \<and> length (cstr x) \<le> MAX_VAR_NAME - 1 \<and> length (cstr y) \<le> MAX_VAR_VALUE - 1"
      using pairs by blast
    moreover have "distinct (map (\<lambda>p. cstr (fst p)) ps)" unfolding keys by (rule dist)
    moreover have "\<forall>p \<in> set ps. cstr (fst p) \<notin> dom (vmap sh0)" "card (dom (vmap sh0)) + length ps \<le> MAX_VARS"
      using len \<open>length ps = length ?ents\<close> by (simp_all add: assms(4))
    ultimately show thesis using shv.set_all_ok [OF assms(3)] that by blast
  qed
  then have "vars_ok sh'" "vmap sh' = (\<lambda>x. case vmap sh x of Some (v, True) \<Rightarrow> Some (v, True) | _ \<Rightarrow> None)"
    using ps(2,3) exported_map [OF ok(4)] assms(4)
    by (auto simp: exported_list_def vmap_def [of sh, symmetric] fun_eq_iff)
  with es(1) ps(1) show ?thesis by (auto simp: load_environment_def)
qed

theorem environment_roundtrip_witness:
  "\<exists>sh es sh'. set_variable (c_string ''HOME'') (c_string ''/'') 1 bss_shell = Ret sh \<and> build_environment sh = Some es
    \<and> load_environment (Some es) bss_shell = Ret sh' \<and> vmap sh' = [''HOME'' \<mapsto> (''/'', True)]"
proof -
  obtain sh where sh: "set_variable (c_string ''HOME'') (c_string ''/'') 1 bss_shell = Ret sh" "vars_ok sh"
      "vmap sh = [''HOME'' \<mapsto> (''/'', True)]"
    using set_variable_ok [of bss_shell "c_string ''HOME''" "c_string ''/''" 1] bss_shell_ok
    by (fastforce simp: put_var_def MAX_VAR_NAME_def MAX_VAR_VALUE_def MAX_VARS_def)
  have "(\<lambda>x. case vmap sh x of Some (v, True) \<Rightarrow> Some (v, True) | _ \<Rightarrow> None) = [''HOME'' \<mapsto> (''/'', True)]"
    by (auto simp: sh(3))
  then show ?thesis
    using environment_roundtrip [of sh bss_shell] sh bss_shell_ok by (fastforce simp: plain_name_def split: if_splits)
qed

end
