(* ===== verification/ShellParse.thy ===== *)
theory ShellParse
  imports ShellVars
begin

section \<open>The shell's expansion, arguments and history\<close>

text \<open>
  \<open>expansion\<close> is what \<open>expand_variables\<close> means, as a recursion on strings; the code's buffer cuts it to
  127 characters. \<open>parse_arguments\<close> is shown to stay inside its sixteen rows for any line of the
  shell's length, and to give back words that are quoted. The history is the list of the last thirty
  lines entered.
\<close>

subsection \<open>Expansion\<close>

definition var_value :: "shell \<Rightarrow> string \<Rightarrow> string" where
  "var_value sh x = (case vmap sh x of None \<Rightarrow> [] | Some (v, _) \<Rightarrow> v)"

function expansion :: "shell \<Rightarrow> string \<Rightarrow> string" where
  "expansion sh s =
     (case s of
        [] \<Rightarrow> []
      | c # t \<Rightarrow>
          if c \<noteq> CHR ''$'' then c # expansion sh t
          else
            (case t of
               [] \<Rightarrow> [c]
             | e # u \<Rightarrow>
                 if e = CHR ''?'' then itos (sh_status sh) @ expansion sh u
                 else if e = CHR ''$'' then itos (sh_pid sh) @ expansion sh u
                 else if e = CHR ''!'' then itos (sh_bg_pid sh) @ expansion sh u
                 else if is_name_start e
                 then var_value sh (take (MAX_VAR_NAME - 1) (takeWhile is_name_char t))
                        @ expansion sh (dropWhile is_name_char t)
                 else c # expansion sh t))"
  by pat_completeness auto
termination
proof (relation "measure (\<lambda>(sh, s). length s)", goal_cases)
  case (6 sh s c t e u)
  then show ?case using length_dropWhile_le [of is_name_char t] by simp
qed auto

declare expansion.simps [simp del]

text \<open>Putting text into the buffer of 128, cut to its first 127 characters.\<close>

definition filled :: "char list \<Rightarrow> string \<Rightarrow> char list \<times> nat" where
  "filled buf s = (patch buf 0 (take (LINE_MAX - 1) s), min (LINE_MAX - 1) (length s))"

lemma filled_char:
  assumes "length buf = LINE_MAX" "length s < LINE_MAX - Suc 0"
  shows "wr (fst (filled buf s)) (snd (filled buf s)) c = Some (fst (filled buf (s @ [c])))"
    "Suc (snd (filled buf s)) = snd (filled buf (s @ [c]))"
  using assms by (simp_all add: filled_def wr_patch)

lemma filled_full:
  "LINE_MAX - Suc 0 \<le> length s \<Longrightarrow> filled buf (s @ t) = filled buf s"
  by (simp add: filled_def min_def)

lemma snd_filled: "snd (filled buf s) < LINE_MAX - Suc 0 \<longleftrightarrow> length s < LINE_MAX - Suc 0"
  by (auto simp: filled_def)

lemma expand_copy_ok:
  assumes "length buf = LINE_MAX"
  shows "terminated p \<Longrightarrow> expand_copy p (fst (filled buf s)) (snd (filled buf s)) = Some (filled buf (s @ cstr p))"
proof (induction p arbitrary: s)
  case (Cons c p)
  show ?case
  proof (cases "c \<noteq> NUL \<and> length s < LINE_MAX - Suc 0")
    case True
    with Cons filled_char [OF assms, of s c] show ?thesis by (simp add: snd_filled)
  next
    case False
    then have "expand_copy (c # p) (fst (filled buf s)) (snd (filled buf s)) = Some (filled buf s)"
      by (auto simp: snd_filled)
    moreover have "filled buf (s @ cstr (c # p)) = filled buf s"
      using False filled_full [of s buf "cstr (c # p)"] by auto
    ultimately show ?thesis by simp
  qed
qed simp

lemma take_name_ok:
  "terminated s \<Longrightarrow> length v \<le> MAX_VAR_NAME - 1 \<Longrightarrow>
   \<exists>r. take_name s v = Some (take (MAX_VAR_NAME - 1) (v @ takeWhile is_name_char (cstr s)), r)
     \<and> terminated r \<and> cstr r = dropWhile is_name_char (cstr s)"
proof (induction s arbitrary: v)
  case (Cons c s)
  have nul: "\<not> is_name_char NUL" by (simp add: is_name_char_def is_name_start_def)
  show ?case
  proof (cases "is_name_char c")
    case True
    then have "c \<noteq> NUL" using nul by metis
    moreover define w where "w = (if length v < MAX_VAR_NAME - 1 then v @ [c] else v)"
    moreover have "length w \<le> MAX_VAR_NAME - 1" using Cons.prems(2) by (simp add: w_def)
    moreover have "take (MAX_VAR_NAME - 1) (w @ t) = take (MAX_VAR_NAME - 1) (v @ c # t)" for t
    proof (cases "length v < MAX_VAR_NAME - 1")
      case True
      then obtain k where "MAX_VAR_NAME - 1 = length v + Suc k" using less_imp_Suc_add by fastforce
      then show ?thesis by (simp add: w_def)
    next
      case False
      with Cons.prems(2) show ?thesis by (simp add: w_def)
    qed
    ultimately show ?thesis using True Cons.IH [of w] Cons.prems(1) by (auto simp del: take_append take_Cons_numeral)
  next
    case False
    with Cons.prems show ?thesis by auto
  qed
qed simp

lemma itos_length: "pid_ok v \<Longrightarrow> length (itos v) \<le> 11"
proof -
  assume v: "pid_ok v"
  have "length (dec n) \<le> 10" if "n < 10 ^ 10" for n using dec_length [OF that] by simp
  moreover have "nat v < 10 ^ 10" "nat (- v) < 10 ^ 10"
    using v by (auto simp: pid_ok_def INT_MIN_def INT_MAX_def)
  ultimately have "length (dec (nat v)) \<le> 10" "length (dec (nat (- v))) \<le> 10" by blast+
  then show ?thesis by (simp add: itos_def)
qed

lemma sint_word_of_int: "pid_ok v \<Longrightarrow> sint (word_of_int v :: u32) = v"
proof -
  assume "pid_ok v"
  then have "- (2 ^ 31) \<le> v" "v < 2 ^ 31" by (simp_all add: pid_ok_def INT_MIN_def INT_MAX_def)
  then have "signed_take_bit 31 v = v" by (intro signed_take_bit_int_eq_self)
  then show ?thesis by (simp add: signed_of_int)
qed

lemma rendered_d: "pid_ok v \<Longrightarrow> rendered ''%d'' [W32 (word_of_int v)] = Some (itos v)"
proof -
  assume v: "pid_ok v"
  have "signed_text (fspec.make False 0 (-1) False False) v = itos v"
    by (simp add: signed_text_def itos_def padded_def pad_len_def fspec.make_def)
  with v show ?thesis
    by (simp add: rendered_def c_string_def u_parse_def parse_flags_width_def skip_char_def parse_l_def is_digit_def
        code_def u_text_def conv_text_def sint_word_of_int pid_ok_def fspec.make_def)
qed

lemma expand_number_ok:
  assumes "length buf = LINE_MAX" "pid_ok v"
  shows "expand_number v (fst (filled buf s)) (snd (filled buf s)) = Some (filled buf (s @ itos v))"
proof -
  have len: "length (itos v) \<le> 11" by (rule itos_length [OF assms(2)])
  obtain l where "snprintf (replicate 16 NUL) 16 (c_string ''%d'') [W32 (word_of_int v)] =
      Some (l, patch (replicate 16 NUL) 0 (c_string (take 15 (itos v))))"
    using vsnprintf_ok [OF rendered_d [OF assms(2), unfolded rendered_def], of 16 15 "replicate 16 NUL"] len
    by (auto simp: snprintf_def)
  moreover have "cstr (patch (replicate 16 NUL) 0 (c_string (itos v))) = itos v"
    using cstr_patch_c_string [of "itos v" 0 "replicate 16 NUL"] len by simp
  ultimately show ?thesis
    using expand_copy_ok [OF assms(1), of "patch (replicate 16 NUL) 0 (c_string (itos v))" s] len
    by (simp add: expand_number_def terminated_patch)
qed

lemma expand_loop_ok:
  assumes buf: "length buf = LINE_MAX" and sh: "vars_ok sh" "pid_ok (sh_status sh)" "pid_ok (sh_pid sh)" "pid_ok (sh_bg_pid sh)"
  shows "terminated src \<Longrightarrow> expand_loop sh src (fst (filled buf s)) (snd (filled buf s)) =
    Some (filled buf (s @ expansion sh (cstr src)))"
proof (induction "length src" arbitrary: src s rule: less_induct)
  case less
  obtain c t where src: "src = c # t" using less.prems by (cases src) auto
  have put: "wr (fst (filled buf s)) (snd (filled buf s)) c = Some (fst (filled buf (s @ [c])))"
      "Suc (snd (filled buf s)) = snd (filled buf (s @ [c]))" if "length s < LINE_MAX - 1"
    using filled_char [OF buf, of s c] that by simp_all
  note num = expand_number_ok [OF buf]
  show ?case
  proof (cases "c = NUL \<or> \<not> length s < LINE_MAX - 1")
    case True
    then have "expand_loop sh src (fst (filled buf s)) (snd (filled buf s)) = Some (filled buf s)"
      by (subst expand_loop.simps) (auto simp: src snd_filled)
    moreover have "filled buf s = filled buf (s @ expansion sh (cstr src))"
      using True filled_full [of s buf "expansion sh (cstr src)"] by (auto simp: src expansion.simps [of sh "[]"])
    ultimately show ?thesis by simp
  next
    case go: False
    then have d: "snd (filled buf s) < LINE_MAX - 1" "c \<noteq> NUL" by (auto simp: snd_filled)
    have t: "terminated t" using less.prems go by (simp add: src)
    have lit: ?thesis if "expand_loop sh src (fst (filled buf s)) (snd (filled buf s)) =
          expand_loop sh t (fst (filled buf (s @ [c]))) (snd (filled buf (s @ [c])))"
        "expansion sh (c # cstr t) = c # expansion sh (cstr t)"
      using that less.hyps [of t "s @ [c]"] t go by (simp add: src)
    show ?thesis
    proof (cases "c = CHR ''$''")
      case False
      show ?thesis
        using False d put go by (intro lit) (subst expand_loop.simps expansion.simps, simp add: src)+
    next
      case dollar: True
      obtain e u where eu: "t = e # u" using t by (cases t) auto
      show ?thesis
      proof (cases "e = NUL")
        case True
        show ?thesis
          using True d put go dollar
          by (intro lit) (subst expand_loop.simps expansion.simps, simp add: src eu is_name_start_def expansion.simps [of sh "[]"])+
      next
        case e: False
        then have u: "terminated u" using t by (simp add: eu)
        have rest: "expand_loop sh u (fst (filled buf (s @ x))) (snd (filled buf (s @ x))) =
            Some (filled buf ((s @ x) @ expansion sh (cstr u)))" for x
          using less.hyps [of u "s @ x"] u by (simp add: src eu)
        consider "e = CHR ''?''" | "e = CHR ''$''" | "e = CHR ''!''"
          | "e \<notin> set ''?$!''" "is_name_start e" | "e \<notin> set ''?$!''" "\<not> is_name_start e" by fastforce
        then show ?thesis
        proof cases
          case 1
          then show ?thesis
            using d dollar num [OF sh(2)] rest
            by (subst expand_loop.simps, subst expansion.simps) (simp add: src eu split_beta)
        next
          case 2
          then show ?thesis
            using d dollar num [OF sh(3)] rest
            by (subst expand_loop.simps, subst expansion.simps) (simp add: src eu split_beta)
        next
          case 3
          then show ?thesis
            using d dollar num [OF sh(4)] rest
            by (subst expand_loop.simps, subst expansion.simps) (simp add: src eu split_beta)
        next
          case 4
          obtain r where r: "take_name t [] = Some (take (MAX_VAR_NAME - 1) (takeWhile is_name_char (cstr t)), r)"
              "terminated r" "cstr r = dropWhile is_name_char (cstr t)"
            using take_name_ok [OF t, of "[]"] by auto
          let ?x = "take (MAX_VAR_NAME - 1) (takeWhile is_name_char (cstr t))"
          have nx: "no_nul ?x"
            by (intro no_nul_take) (auto simp: no_nul_def is_name_char_def is_name_start_def dest!: set_takeWhileD)
          have lr: "length r < length src"
            using take_name_le [OF r(1)] by (simp add: src)
          obtain g where g: "get_variable sh (c_string ?x) = Some g"
              "case g of None \<Rightarrow> vmap sh ?x = None | Some p \<Rightarrow> str_row MAX_VAR_VALUE p \<and> (\<exists>b. vmap sh ?x = Some (cstr p, b))"
            using get_variable_ok [OF sh(1) terminated_c_string, of ?x] unfolding cstr_c_string [OF nx] by blast
          have ex: "expansion sh (c # cstr t) = var_value sh ?x @ expansion sh (cstr r)"
            using 4 dollar e by (subst expansion.simps) (simp add: eu r(3))
          have lp: "expand_loop sh src (fst (filled buf s)) (snd (filled buf s)) =
              expand_loop sh r (fst (filled buf (s @ var_value sh ?x))) (snd (filled buf (s @ var_value sh ?x)))"
          proof (cases g)
            case None
            with g have "var_value sh ?x = []" by (simp add: var_value_def)
            with None show ?thesis
              using 4 d dollar r(1) g(1) e
              by (subst expand_loop.simps) (simp add: src eu del: take_name.simps)
          next
            case (Some p)
            with g have p: "terminated p" "var_value sh ?x = cstr p" by (auto simp: var_value_def str_row_def)
            show ?thesis
              using 4 d dollar r(1) g(1) e Some expand_copy_ok [OF buf p(1), of s]
              unfolding p(2) by (subst expand_loop.simps) (simp add: src eu split_beta del: take_name.simps)
          qed
          show ?thesis
            using less.hyps [OF lr r(2)] go lp ex by (simp add: src)
        next
          case 5
          show ?thesis
            using 5 e d put go dollar
            by (intro lit) (subst expand_loop.simps expansion.simps, simp add: src eu)+
        qed
      qed
    qed
  qed
qed

lemma no_nul_var_value: "no_nul (var_value sh x)"
proof (cases "vmap sh x")
  case (Some e)
  then obtain v where "v \<in> set (take (sh_var_count sh) (sh_vars sh))" "entry_of v = (x, e)"
    by (auto simp: vmap_def vlist_def dest!: map_of_SomeD)
  with Some show ?thesis by (auto simp: var_value_def entry_of_def)
qed (simp add: var_value_def)

lemma no_nul_expansion: "no_nul s \<Longrightarrow> no_nul (expansion sh s)"
proof (induction "length s" arbitrary: s rule: less_induct)
  case less
  show ?case
  proof (cases s)
    case (Cons c t)
    have t: "no_nul t" "no_nul (expansion sh t)" "c \<noteq> NUL" using less Cons by auto
    show ?thesis
    proof (cases t)
      case Nil
      with Cons t show ?thesis by (simp add: expansion.simps [of sh "[c]"] expansion.simps [of sh "[]"])
    next
      case (Cons e u)
      then have u: "no_nul (expansion sh u)" using less.hyps [of u] t \<open>s = c # t\<close> by simp
      have d: "no_nul (dropWhile is_name_char t)" "length (dropWhile is_name_char t) < length s"
        using t \<open>s = c # t\<close> length_dropWhile_le [of is_name_char t] by (auto simp: no_nul_def dest: set_dropWhileD)
      have "no_nul (expansion sh (dropWhile is_name_char t))" by (rule less.hyps [OF d(2,1)])
      with t u show ?thesis
        using \<open>s = c # t\<close> expansion.simps [of sh "c # e # u"] by (simp add: Cons no_nul_var_value split: if_splits)
    qed
  qed (simp add: expansion.simps)
qed

lemma expand_variables_ok:
  assumes "vars_ok sh" "pid_ok (sh_status sh)" "pid_ok (sh_pid sh)" "pid_ok (sh_bg_pid sh)" "str_row LINE_MAX str"
  shows "\<exists>r. expand_variables sh str = Some r \<and> str_row LINE_MAX r \<and> cstr r = take (LINE_MAX - 1) (expansion sh (cstr str))"
proof -
  let ?buf = "replicate LINE_MAX NUL" and ?x = "take (LINE_MAX - 1) (expansion sh (cstr str))"
  have ex: "expand_loop sh str ?buf 0 = Some (filled ?buf (expansion sh (cstr str)))"
    using expand_loop_ok [of ?buf sh str "[]"] assms by (simp add: str_row_def filled_def)
  have f: "filled ?buf (expansion sh (cstr str)) = (patch ?buf 0 ?x, length ?x)"
    by (simp add: filled_def)
  have len: "length ?x < LINE_MAX" by (simp add: LINE_MAX_def)
  then have w: "wr (patch ?buf 0 ?x) (length ?x) NUL = Some (patch ?buf 0 (c_string ?x))"
    by (subst wr_patch) (simp_all add: c_string_def)
  have nn: "no_nul ?x" by (intro no_nul_take no_nul_expansion) simp
  then have c: "cstr (patch ?buf 0 (c_string ?x)) = ?x"
    using cstr_patch_c_string [of ?x 0 ?buf] len by simp
  obtain r where r: "strcpy str (patch ?buf 0 (c_string ?x)) = Some r" "str_row LINE_MAX r" "cstr r = ?x"
    using strcpy_row [of "patch ?buf 0 (c_string ?x)" str] assms(5) len c by (auto simp: terminated_patch str_row_def)
  then have "expand_variables sh str = Some r"
    by (simp only: expand_variables_def ex f w bind.bind_lunit prod.case)
  with r show ?thesis by blast
qed

subsection \<open>Arguments\<close>

lemma skip_spaces_ok:
  "terminated s \<Longrightarrow> \<exists>r. skip_spaces s = Some r \<and> terminated r \<and> cstr r = dropWhile (\<lambda>c. c = CHR '' '') (cstr s)"
  by (induction s) auto

lemma collect_ok:
  "terminated src \<Longrightarrow> d + length (cstr src) < length row \<Longrightarrow>
   \<exists>rest row' d'. collect src q row d = Some (rest, row', d') \<and> terminated rest \<and> length row' = length row
     \<and> d' + length (cstr rest) \<le> d + length (cstr src)"
proof (induction src arbitrary: q row d)
  case (Cons c s)
  consider "c = NUL" | "c = CHR 0x22" | "c \<noteq> NUL" "c \<noteq> CHR 0x22" "\<not> q" "c = CHR '' ''"
    | "c \<noteq> NUL" "c \<noteq> CHR 0x22" "q \<or> c \<noteq> CHR '' ''" by blast
  then show ?case
  proof cases
    case 2
    with Cons.prems Cons.IH [of d row "\<not> q"] show ?thesis by fastforce
  next
    case 4
    then have "d < length row" "Suc d + length (cstr s) < length (row[d := c])" using Cons.prems by auto
    with 4 Cons.prems Cons.IH [of "Suc d" "row[d := c]" q] show ?thesis by (fastforce simp: wr_in)
  qed (use Cons.prems in auto)
qed simp

definition rows_ok :: "char list list \<Rightarrow> bool" where
  "rows_ok bufs \<longleftrightarrow> length bufs = 16 \<and> list_all (str_row LINE_MAX) bufs"

lemma rows_okD: "rows_ok bufs \<Longrightarrow> i < 16 \<Longrightarrow> str_row LINE_MAX (bufs ! i)" "rows_ok bufs \<Longrightarrow> length bufs = 16"
  by (simp_all add: rows_ok_def list_all_length)

lemma rows_ok_update: "rows_ok bufs \<Longrightarrow> str_row LINE_MAX r \<Longrightarrow> rows_ok (bufs[i := r])"
  by (simp add: rows_ok_def list_all_update)

text \<open>The pointers parsed so far are the rows in order.\<close>

definition argv_ok :: "nat \<Rightarrow> nat option list \<Rightarrow> bool" where
  "argv_ok argc argv \<longleftrightarrow> length argv = ARGV_MAX \<and> argc < ARGV_MAX \<and> (\<forall>i < argc. \<exists>r < 16. argv ! i = Some r)"

lemma parse_loop_ok:
  "terminated src \<Longrightarrow> length (cstr src) < LINE_MAX \<Longrightarrow> rows_ok bufs \<Longrightarrow> argv_ok argc argv \<Longrightarrow> argc \<le> 15 \<Longrightarrow>
   \<exists>argc' argv' bufs'. parse_loop 15 src argc argv bufs = Some (argc', argv', bufs')
     \<and> argc' \<le> 15 \<and> argv_ok argc' argv' \<and> rows_ok bufs'"
proof (induction "15 - argc" arbitrary: src argc argv bufs rule: less_induct)
  case less
  obtain c t where src: "src = c # t" using less.prems(1) by (cases src) auto
  show ?case
  proof (cases "c = NUL \<or> \<not> argc < 15")
    case True
    then show ?thesis using less.prems by (subst parse_loop.simps) (auto simp: src)
  next
    case False
    obtain s where s: "skip_spaces src = Some s" "terminated s" "cstr s = dropWhile (\<lambda>c. c = CHR '' '') (cstr src)"
      using skip_spaces_ok [OF less.prems(1)] by blast
    obtain e u where e: "s = e # u" using s(2) by (cases s) auto
    show ?thesis
    proof (cases "e = NUL")
      case True
      then show ?thesis using less.prems False s
        by (subst parse_loop.simps) (auto simp: src e rd_def)
    next
      case e0: False
      have len: "length (cstr s) < LINE_MAX"
        unfolding s(3) using less.prems(2) length_dropWhile_le [of "\<lambda>c. c = CHR '' ''" "cstr src"] by simp
      have row: "str_row LINE_MAX (bufs ! argc)" "length bufs = 16" using rows_okD less.prems(3,5) by auto
      obtain rest r d where r: "collect s False (bufs ! argc) 0 = Some (rest, r, d)" "terminated rest"
          "length r = LINE_MAX" "d + length (cstr rest) \<le> length (cstr s)"
        using collect_ok [OF s(2), of 0 "bufs ! argc" False] row(1) len by (auto simp: str_row_def)
      have d: "d < LINE_MAX" "length (cstr rest) < LINE_MAX" using r(4) len by auto
      let ?r = "r[d := NUL]" and ?av = "argv[argc := Some argc]"
      have "NUL \<in> set ?r" using d(1) r(3) by (simp add: set_update_memI)
      then have r': "str_row LINE_MAX ?r" using r(3) by (simp add: str_row_def terminated_def)
      have av: "argv_ok (Suc argc) ?av" "length argv = 16"
        using less.prems(4) False by (auto simp: argv_ok_def ARGV_MAX_def nth_list_update less_Suc_eq)
      have "parse_loop 15 src argc argv bufs = parse_loop 15 rest (Suc argc) ?av (bufs[argc := ?r])"
        using False e0 s(1) r(1,3) d(1) row(2) av(2)
        by (subst parse_loop.simps) (simp add: src e rd_def wr_def)
      moreover have "\<exists>argc' argv' bufs'. parse_loop 15 rest (Suc argc) ?av (bufs[argc := ?r]) = Some (argc', argv', bufs')
          \<and> argc' \<le> 15 \<and> argv_ok argc' argv' \<and> rows_ok bufs'"
        using False less.prems(3) r(2) d(2) av(1) r' by (intro less.hyps) (auto intro: rows_ok_update)
      ultimately show ?thesis by simp
    qed
  qed
qed

lemma parse_arguments_ok:
  assumes "rest_ok sh" "str_row LINE_MAX line"
  shows "\<exists>argc argv bufs. parse_arguments line (replicate ARGV_MAX None) 15 sh = Some (argc, argv, sh\<lparr>sh_arg_buf := bufs\<rparr>)
    \<and> argc \<le> 15 \<and> argv_ok argc argv \<and> rows_ok bufs"
  using parse_loop_ok [of line "sh_arg_buf sh" 0 "replicate ARGV_MAX None"] assms str_rowD [OF assms(2)]
  by (auto simp: parse_arguments_def rest_ok_def rows_ok_def argv_ok_def ARGV_MAX_def)

subsection \<open>Quoted words\<close>

definition quote :: "string \<Rightarrow> string" where
  "quote w = CHR 0x22 # w @ [CHR 0x22]"

definition plain_word :: "string \<Rightarrow> bool" where
  "plain_word w \<longleftrightarrow> no_nul w \<and> CHR 0x22 \<notin> set w"

primrec quoted_line :: "string list \<Rightarrow> string" where
  "quoted_line [] = []"
| "quoted_line (w # ws) = quote w @ CHR '' '' # quoted_line ws"

lemma collect_quoted:
  "plain_word w \<Longrightarrow> d + length w \<le> length row \<Longrightarrow>
   collect (w @ CHR 0x22 # rest) True row d = collect rest False (patch row d w) (d + length w)"
  by (induction w arbitrary: d row) (auto simp: plain_word_def wr_in patch_Cons)

lemma parse_loop_quoted:
  "list_all plain_word ws \<Longrightarrow> argc + length ws \<le> 15 \<Longrightarrow> length (quoted_line ws) < LINE_MAX \<Longrightarrow>
   rows_ok bufs \<Longrightarrow> length argv = ARGV_MAX \<Longrightarrow>
   \<exists>argv' bufs'. parse_loop 15 (quoted_line ws @ NUL # junk) argc argv bufs = Some (argc + length ws, argv', bufs')
     \<and> length argv' = ARGV_MAX \<and> rows_ok bufs'
     \<and> (\<forall>i < argc. argv' ! i = argv ! i \<and> bufs' ! i = bufs ! i)
     \<and> (\<forall>i < length ws. argv' ! (argc + i) = Some (argc + i) \<and> cstr (bufs' ! (argc + i)) = ws ! i)"
proof (induction ws arbitrary: argc argv bufs)
  case Nil
  then show ?case by (subst parse_loop.simps) auto
next
  case (Cons w ws)
  have w: "plain_word w" "argc < 15" "length w < LINE_MAX" "length (quoted_line ws) < LINE_MAX"
    using Cons.prems by (auto simp: quote_def)
  let ?rest = "quoted_line ws @ NUL # junk"
  let ?src = "quoted_line (w # ws) @ NUL # junk"
  have src: "?src = CHR 0x22 # w @ CHR 0x22 # CHR '' '' # ?rest" by (simp add: quote_def)
  have row: "str_row LINE_MAX (bufs ! argc)" "length bufs = 16" "length (bufs ! argc) = LINE_MAX"
    using rows_okD [OF Cons.prems(4)] w(2) by (auto simp: str_row_def)
  let ?r = "patch (bufs ! argc) 0 (c_string w)"
  have c: "collect ?src False (bufs ! argc) 0 = Some (CHR '' '' # ?rest, patch (bufs ! argc) 0 w, length w)"
    unfolding src using collect_quoted [OF w(1), of 0 "bufs ! argc" "CHR '' '' # ?rest"] w(3) row(3) by simp
  have r: "wr (patch (bufs ! argc) 0 w) (length w) NUL = Some ?r"
    using w(3) row(3) by (subst wr_patch) (simp_all add: c_string_def)
  have r': "str_row LINE_MAX ?r" "cstr ?r = w"
    using w(1,3) row(3) cstr_patch_c_string [of w 0 "bufs ! argc"]
    by (auto simp: str_row_def terminated_patch plain_word_def c_string_def)
  have skip: "parse_loop 15 (CHR '' '' # ?rest) m av bs = parse_loop 15 ?rest m av bs" for m av bs
  proof -
    obtain e u where "?rest = e # u" by (cases ?rest) auto
    then show ?thesis
      by (subst (1 2) parse_loop.simps) (cases "e = NUL", auto simp: rd_def)
  qed
  let ?av = "argv[argc := Some argc]" and ?bs = "bufs[argc := ?r]"
  have step: "parse_loop 15 ?src argc argv bufs = parse_loop 15 ?rest (Suc argc) ?av ?bs"
    using w(2) c r row(2) Cons.prems(5)
    by (subst parse_loop.simps) (simp add: quote_def rd_def wr_in ARGV_MAX_def skip)
  obtain argv' bufs' where IH: "parse_loop 15 ?rest (Suc argc) ?av ?bs = Some (Suc argc + length ws, argv', bufs')"
      "length argv' = ARGV_MAX" "rows_ok bufs'"
      "\<forall>i < Suc argc. argv' ! i = ?av ! i \<and> bufs' ! i = ?bs ! i"
      "\<forall>i < length ws. argv' ! (Suc argc + i) = Some (Suc argc + i) \<and> cstr (bufs' ! (Suc argc + i)) = ws ! i"
    using Cons.IH [of "Suc argc" ?bs ?av] Cons.prems w(4) r'(1) by (auto intro: rows_ok_update)
  have "argv' ! (argc + i) = Some (argc + i) \<and> cstr (bufs' ! (argc + i)) = (w # ws) ! i" if "i < length (w # ws)" for i
    using that IH(4,5) r'(2) row(2) w(2) Cons.prems(5) by (cases i) (auto simp: ARGV_MAX_def)
  then show ?case
    using step IH by (intro exI [of _ argv'] exI [of _ bufs']) (auto simp: nth_list_update)
qed

subsection \<open>History\<close>

definition hist :: "shell \<Rightarrow> string list" where
  "hist sh = map cstr (take (sh_history_size sh) (sh_history sh))"

definition last_lines :: "nat \<Rightarrow> 'a list \<Rightarrow> 'a list" where
  "last_lines n xs = drop (length xs - n) xs"

lemma history_put_ok:
  assumes "length h = HISTORY_MAX" "list_all (str_row LINE_MAX) h" "i < HISTORY_MAX" "str_row LINE_MAX line"
  shows "\<exists>r. history_put i line h = Some (h[i := r]) \<and> str_row LINE_MAX r \<and> cstr r = cstr line"
proof -
  have "length (h ! i) = LINE_MAX" using assms(1-3) by (auto simp: list_all_length str_row_def)
  then obtain r where "strcpy (h ! i) line = Some r" "str_row LINE_MAX r" "cstr r = cstr line"
    using strcpy_row [of line "h ! i"] str_rowD [OF assms(4)] by auto
  with assms(1,3) show ?thesis by (auto simp: history_put_def rd_in wr_in)
qed

lemma history_shift_ok:
  "length h = HISTORY_MAX \<Longrightarrow> list_all (str_row LINE_MAX) h \<Longrightarrow> 0 < i \<Longrightarrow> i + n = HISTORY_MAX \<Longrightarrow>
   \<exists>h'. history_shift n i h = Some h' \<and> length h' = HISTORY_MAX \<and> list_all (str_row LINE_MAX) h'
     \<and> (\<forall>j < HISTORY_MAX. cstr (h' ! j) = (if i - 1 \<le> j \<and> j < HISTORY_MAX - 1 then cstr (h ! (j + 1)) else cstr (h ! j)))"
proof (induction n arbitrary: i h)
  case (Suc n)
  have rows: "str_row LINE_MAX (h ! j)" if "j < HISTORY_MAX" for j using that Suc.prems by (simp add: list_all_length)
  have i: "i < HISTORY_MAX" "i - 1 < HISTORY_MAX" using Suc.prems by simp_all
  obtain d where d: "strcpy (h ! (i - 1)) (h ! i) = Some d" "str_row LINE_MAX d" "cstr d = cstr (h ! i)"
    using strcpy_row [of "h ! i" "h ! (i - 1)"] rows [OF i(1)] rows [OF i(2)] str_rowD [OF rows [OF i(1)]]
    by (auto simp: str_row_def)
  let ?h = "h[i - 1 := d]"
  obtain h' where h': "history_shift n (Suc i) ?h = Some h'" "length h' = HISTORY_MAX" "list_all (str_row LINE_MAX) h'"
      "\<forall>j < HISTORY_MAX. cstr (h' ! j) = (if Suc i - 1 \<le> j \<and> j < HISTORY_MAX - 1 then cstr (?h ! (j + 1)) else cstr (?h ! j))"
    using Suc.IH [of ?h "Suc i"] Suc.prems d(2) by (auto simp: list_all_update)
  have "cstr (h' ! j) = (if i - 1 \<le> j \<and> j < HISTORY_MAX - 1 then cstr (h ! (j + 1)) else cstr (h ! j))"
    if j: "j < HISTORY_MAX" for j
  proof (cases "j = i - 1")
    case True
    with j h'(4) d(3) Suc.prems show ?thesis by (auto simp: nth_list_update)
  next
    case False
    with j h'(4) Suc.prems show ?thesis by (auto simp: nth_list_update)
  qed
  with h' d(1) i Suc.prems(1) show ?case by (auto simp: rd_in wr_in)
qed auto

lemma history_add_ok:
  assumes "rest_ok sh" "str_row LINE_MAX line"
  shows "\<exists>h n p. history_add line sh = Some (sh\<lparr>sh_history := h, sh_history_size := n, sh_history_pos := p\<rparr>)
    \<and> rest_ok (sh\<lparr>sh_history := h, sh_history_size := n, sh_history_pos := p\<rparr>)
    \<and> hist (sh\<lparr>sh_history := h, sh_history_size := n, sh_history_pos := p\<rparr>) =
        (if cstr line = [] then hist sh else last_lines HISTORY_MAX (hist sh @ [cstr line]))"
proof -
  have r: "length (sh_history sh) = HISTORY_MAX" "list_all (str_row LINE_MAX) (sh_history sh)"
      "sh_history_size sh \<le> HISTORY_MAX" "sh_history_pos sh \<le> sh_history_size sh"
    using assms(1) by (simp_all add: rest_ok_def)
  obtain c t where line: "line = c # t" using str_rowD(2) [OF assms(2)] by (cases line) auto
  consider "c = NUL" | "c \<noteq> NUL" "sh_history_size sh < HISTORY_MAX" | "c \<noteq> NUL" "sh_history_size sh = HISTORY_MAX"
    using r(3) by linarith
  then show ?thesis
  proof cases
    case 1
    then show ?thesis using assms(1)
      by (intro exI [of _ "sh_history sh"] exI [of _ "sh_history_size sh"] exI [of _ "sh_history_pos sh"])
        (simp add: history_add_def line rd_in)
  next
    case 2
    let ?n = "sh_history_size sh"
    obtain d where d: "history_put ?n line (sh_history sh) = Some ((sh_history sh)[?n := d])" "str_row LINE_MAX d"
        "cstr d = cstr line"
      using history_put_ok [OF r(1,2) 2(2) assms(2)] by blast
    let ?sh = "sh\<lparr>sh_history := (sh_history sh)[?n := d], sh_history_size := ?n + 1, sh_history_pos := ?n + 1\<rparr>"
    have "hist ?sh = last_lines HISTORY_MAX (hist sh @ [cstr line])"
      using 2(2) r(1) d(3) by (simp add: hist_def last_lines_def take_Suc_conv_app_nth)
    moreover have "rest_ok ?sh" using assms(1) 2(2) d(2) by (simp add: rest_ok_def list_all_update)
    moreover have "history_add line sh = Some ?sh" using 2 d(1) by (simp add: history_add_def line rd_in)
    ultimately show ?thesis using 2(1) by (auto simp: line)
  next
    case 3
    obtain h1 where h1: "history_shift (HISTORY_MAX - 1) 1 (sh_history sh) = Some h1" "length h1 = HISTORY_MAX"
        "list_all (str_row LINE_MAX) h1"
        "\<forall>j < HISTORY_MAX. cstr (h1 ! j) =
          (if 1 - 1 \<le> j \<and> j < HISTORY_MAX - 1 then cstr (sh_history sh ! (j + 1)) else cstr (sh_history sh ! j))"
      using history_shift_ok [OF r(1,2), of 1 "HISTORY_MAX - 1"] by (auto simp: HISTORY_MAX_def)
    have lt: "HISTORY_MAX - 1 < HISTORY_MAX" by (simp add: HISTORY_MAX_def)
    obtain d where d: "history_put (HISTORY_MAX - 1) line h1 = Some (h1[HISTORY_MAX - 1 := d])" "str_row LINE_MAX d"
        "cstr d = cstr line"
      using history_put_ok [OF h1(2,3) lt assms(2)] by blast
    let ?h = "h1[HISTORY_MAX - 1 := d]"
    let ?sh = "sh\<lparr>sh_history := ?h, sh_history_size := sh_history_size sh, sh_history_pos := sh_history_size sh\<rparr>"
    have "map cstr ?h = drop 1 (map cstr (sh_history sh)) @ [cstr line]" (is "?L = ?R")
    proof (rule nth_equalityI)
      show "length ?L = length ?R" using r(1) h1(2) lt by simp
      fix j assume "j < length ?L"
      then show "?L ! j = ?R ! j"
        using h1(2,4) d(3) r(1) by (auto simp: nth_list_update nth_append)
    qed
    then have "hist ?sh = last_lines HISTORY_MAX (hist sh @ [cstr line])"
      using 3(2) r(1) h1(2) by (simp add: hist_def last_lines_def HISTORY_MAX_def)
    moreover have "rest_ok ?sh" using assms(1) h1(2,3) d(2) by (simp add: rest_ok_def list_all_update)
    moreover have "history_add line sh = Some ?sh"
      using 3 h1(1) d(1) by (simp add: history_add_def line rd_in)
    ultimately show ?thesis using 3(1)
      by (intro exI [of _ ?h] exI [of _ "sh_history_size sh"] exI [of _ "sh_history_size sh"]) (simp add: line)
  qed
qed

subsection \<open>Properties\<close>



text \<open>
  C27: quoting is undone by \<open>parse_arguments\<close>. A line of at most fifteen words, each in double quotes and
  followed by a blank, is parsed into exactly these words, blanks in them and empty words included:
  as many pointers, in order, each to a row that holds its word.
\<close>

theorem parse_quoted_words:
  assumes "list_all plain_word ws" "length ws \<le> 15" "length (quoted_line ws) < LINE_MAX" "rest_ok sh"
  shows "\<exists>argv sh'. parse_arguments (quoted_line ws @ NUL # junk) (replicate ARGV_MAX None) 15 sh = Some (length ws, argv, sh')
    \<and> (\<forall>i < length ws. \<exists>row. arg sh' argv i = Some row \<and> cstr row = ws ! i)"
proof -
  obtain argv bufs where p: "parse_loop 15 (quoted_line ws @ NUL # junk) 0 (replicate ARGV_MAX None) (sh_arg_buf sh) =
      Some (length ws, argv, bufs)" "length argv = ARGV_MAX" "rows_ok bufs"
      "\<forall>i < length ws. argv ! i = Some i \<and> cstr (bufs ! i) = ws ! i"
    using parse_loop_quoted [OF assms(1), of 0 "sh_arg_buf sh" "replicate ARGV_MAX None" junk] assms(2-4)
    by (auto simp: rest_ok_def rows_ok_def)
  have "parse_arguments (quoted_line ws @ NUL # junk) (replicate ARGV_MAX None) 15 sh =
      Some (length ws, argv, sh\<lparr>sh_arg_buf := bufs\<rparr>)"
    by (simp add: parse_arguments_def p(1))
  moreover have "\<forall>i < length ws. \<exists>row. arg (sh\<lparr>sh_arg_buf := bufs\<rparr>) argv i = Some row \<and> cstr row = ws ! i"
    using p(2,4) rows_okD(2) [OF p(3)] assms(2) by (auto simp: arg_def rd_in ARGV_MAX_def)
  ultimately show ?thesis by blast
qed

theorem parse_quoted_words_witness:
  "\<exists>argv sh'. parse_arguments ([CHR 0x22] @ ''a b'' @ [CHR 0x22, CHR '' '', CHR 0x22, CHR 0x22, CHR '' '', NUL])
      (replicate ARGV_MAX None) 15 bss_shell = Some (length [''a b'', []], argv, sh')
    \<and> (\<forall>i < length [''a b'', []]. \<exists>row. arg sh' argv i = Some row \<and> cstr row = [''a b'', []] ! i)"
  using parse_quoted_words [of "[''a b'', []]" bss_shell "[]"] bss_shell_ok
  by (simp add: plain_word_def quote_def LINE_MAX_def)

end
