(* ===== verification/ShellSafe.thy ===== *)
theory ShellSafe
  imports ShellMain ShellParse
begin

section \<open>The shell never leaves its arrays\<close>

text \<open>
  Every operation of the shell is \<open>safe\<close> and keeps the invariant \<open>sh_ok\<close>, whatever a kernel that keeps
  the contract of theory Libc answers. The lemmas follow the order of the code; the last ones are about
  a turn of the main loop and about what \<open>main\<close> does before it.

  The one thing the shell does not guard is \<open>atoi\<close>: the argument of \<open>exit\<close> and the count of
  \<open>repeat\<close> can be larger than an \<open>int\<close>. \<open>numbers_fit\<close> says that they are not.
\<close>

lemma not_INT_MIN: "pid_ok v \<Longrightarrow> sint (word_of_int v :: u32) \<noteq> INT_MIN"
  by (simp add: sint_word_of_int) (simp add: pid_ok_def)

subsection \<open>Arguments\<close>

lemma str_row_plain: "str_row n s \<Longrightarrow> n \<le> 4096 \<Longrightarrow> terminated s \<and> length (cstr s) \<le> 4096"
  using str_rowD [of n s] by auto

lemma sh_okD:
  assumes "sh_ok sh"
  shows "vars_ok sh" "rest_ok sh" "rows_ok (sh_arg_buf sh)" "pid_ok (sh_status sh)" "pid_ok (sh_pid sh)" "pid_ok (sh_bg_pid sh)"
  using assms by (simp_all add: sh_ok_def rest_ok_def rows_ok_def)

lemma arg_ok:
  assumes "rows_ok (sh_arg_buf sh)" "argv_ok argc argv" "i < argc"
  shows "\<exists>a. arg sh argv i = Some a \<and> str_row LINE_MAX a"
  using assms by (fastforce simp: arg_def argv_ok_def rd_in rows_ok_def list_all_length)

text \<open>Shells that are well formed and have the same arguments.\<close>

definition cli_keeps :: "shell \<Rightarrow> shell \<Rightarrow> bool" where
  "cli_keeps sh sh1 \<longleftrightarrow> sh_ok sh1 \<and> sh_arg_buf sh1 = sh_arg_buf sh"

lemma cli_keeps_refl: "sh_ok sh \<Longrightarrow> cli_keeps sh sh"
  by (simp add: cli_keeps_def)

lemma cli_keeps_trans: "cli_keeps a b \<Longrightarrow> cli_keeps b c \<Longrightarrow> cli_keeps a c"
  by (simp add: cli_keeps_def)

lemma keeps_arg: "cli_keeps sh sh1 \<Longrightarrow> arg sh1 = arg sh"
  by (intro ext) (simp add: cli_keeps_def arg_def)

lemma rest_ok_vars [simp]: "rest_ok (sh\<lparr>sh_vars := vs, sh_var_count := n\<rparr>) = rest_ok sh"
  by (simp add: rest_ok_def)

lemma keeps_vars: "sh_ok sh \<Longrightarrow> vars_ok (sh\<lparr>sh_vars := vs, sh_var_count := n\<rparr>) \<Longrightarrow> cli_keeps sh (sh\<lparr>sh_vars := vs, sh_var_count := n\<rparr>)"
  by (simp add: cli_keeps_def sh_ok_def)

lemma keeps_status: "sh_ok sh \<Longrightarrow> pid_ok s \<Longrightarrow> cli_keeps sh (set_status s sh)"
  by (simp add: cli_keeps_def sh_ok_def set_status_def vars_ok_def vlist_def rest_ok_def)

lemma pid_ok_small: "0 \<le> n \<Longrightarrow> n < 1000 \<Longrightarrow> pid_ok n"
  by (simp add: pid_ok_def INT_MIN_def INT_MAX_def)

lemma keeps_set_status: "cli_keeps sh sh1 \<Longrightarrow> 0 \<le> n \<Longrightarrow> n < 1000 \<Longrightarrow> cli_keeps sh (set_status n sh1)"
  using keeps_status [of sh1 n] by (auto simp: pid_ok_small cli_keeps_def)

subsection \<open>Variables and assignments\<close>

lemma set_variable_safe:
  assumes "sh_ok sh" "terminated name" "terminated val" "length (cstr name) < MAX_VAR_NAME"
  shows "safe (cli_keeps sh) (set_variable name val e sh)"
proof (cases "cstr name \<in> dom (vmap sh) \<or> card (dom (vmap sh)) < MAX_VARS")
  case True
  then show ?thesis using set_variable_ok [OF _ assms(2-4), of sh e] assms(1) keeps_vars [OF assms(1)]
    by (auto simp: sh_ok_def)
next
  case False
  have "vars_ok sh" using assms(1) by (simp add: sh_ok_def)
  then obtain r where r: "find_variable sh name = Some r"
      "case r of None \<Rightarrow> cstr name \<notin> dom (vmap sh) | Some i \<Rightarrow> i < sh_var_count sh \<and> cstr (sv_name (sh_vars sh ! i)) = cstr name
        \<and> vmap sh (cstr name) = Some (cstr (sv_value (sh_vars sh ! i)), sv_exported (sh_vars sh ! i) \<noteq> 0)"
    using find_variable_ok [of sh name] assms(2) by blast
  moreover have "r = None" using r(2) False by (cases r) auto
  moreover have "MAX_VARS \<le> sh_var_count sh" using card_dom_vmap [OF \<open>vars_ok sh\<close>] False by simp
  moreover have "safe (\<lambda>_. True) (print_line ''Too many variables'' [])"
    by (intro print_line_safe plain_line) simp_all
  ultimately show ?thesis using assms(1) by (auto simp: set_variable_def intro!: safe_thenI cli_keeps_refl)
qed

lemma strchr_ok:
  assumes "terminated s" "c \<noteq> NUL"
  shows "strchr s c = Some None \<or> (\<exists>x y. cstr s = x @ c # y \<and> c \<notin> set x \<and> strchr s c = Some (Some (drop (length x) s)))"
proof (cases "c \<in> set (cstr s)")
  case True
  then obtain x y where "cstr s = x @ c # y" "c \<notin> set x" by (meson split_list_first)
  with strchr_split [OF assms(1)] assms(2) show ?thesis by blast
next
  case False
  have "terminated t \<Longrightarrow> c \<notin> set (cstr t) \<Longrightarrow> strchr t c = Some None" for t
    using assms(2) by (induction t) (auto split: if_splits)
  with False assms(1) show ?thesis by blast
qed

lemma parse_assignment_ok:
  assumes "terminated a"
  shows "parse_assignment a = Some None \<or>
    (\<exists>n v. parse_assignment a = Some (Some (n, v)) \<and> terminated n \<and> terminated v \<and> length (cstr n) < MAX_VAR_NAME)"
proof -
  consider "strchr a (CHR ''='') = Some None"
    | x y where "cstr a = x @ CHR ''='' # y" "strchr a (CHR ''='') = Some (Some (drop (length x) a))"
    using strchr_ok [OF assms, of "CHR ''=''"] by auto
  then show ?thesis
  proof cases
    case 1
    then show ?thesis by (simp add: parse_assignment_def)
  next
    case (2 x y)
    obtain n v where "split_at_eq a (drop (length x) a) = Some (n, v)" "str_row MAX_VAR_NAME n" "str_row MAX_VAR_VALUE v"
      using split_at_eq_ok [OF assms 2(1)] by blast
    then show ?thesis using 2(2) by (auto simp: parse_assignment_def Let_def dest: str_rowD)
  qed
qed

subsection \<open>Searching /bin\<close>

lemma scan_entries_ok:
  assumes "\<forall>j < n. dirent_ok (ds ! j)" "n \<le> length ds" "terminated name" "i \<le> n"
  shows "\<exists>r. scan_entries ds name (i * 72) (n * 72) = Some r"
  using assms(4)
proof (induction "n - i" arbitrary: i)
  case 0
  then show ?case by (intro exI [of _ False]) (simp add: scan_entries.simps [of _ _ "i * 72"])
next
  case (Suc k)
  then have i: "i < n" by simp
  with assms(1,2) have e: "entry_at ds (i * 72) = Some (ds ! i)" "dirent_ok (ds ! i)"
    by (simp_all add: entry_at_def SIZEOF_DIRENT_def rd_in)
  obtain r where r: "strcmp (d_name (ds ! i)) name = Some r"
    using strcmp_eq_0 [of "d_name (ds ! i)" name] e(2) assms(3) by (auto simp: dirent_ok_def)
  have len: "unat (d_reclen (ds ! i)) = 72" using e(2) by (simp add: dirent_ok_def SIZEOF_DIRENT_def)
  then have "d_reclen (ds ! i) \<noteq> 0" by auto
  moreover have "\<exists>r. scan_entries ds name (Suc i * 72) (n * 72) = Some r"
    using Suc.hyps(1) [of "Suc i"] Suc.hyps(2) i by simp
  ultimately show ?case using i e(1) r
    by (cases "r = 0") (auto simp: scan_entries.simps [of _ _ "i * 72"] len algebra_simps intro: exI [of _ True])
qed

lemma memcpy_prefix:
  assumes "n \<le> length s" "d + n \<le> length b"
  shows "memcpy b d s 0 n = Some (patch b d (take n s))"
  using assms by (simp add: memcpy_def memcpy_loop_ok)

lemma wr_NUL_row: "i < length b \<Longrightarrow> \<exists>b'. wr b i NUL = Some b' \<and> str_row (length b) b'"
  by (auto simp: wr_in str_row_def terminated_def set_update_memI)

lemma bin_path_ok:
  assumes "length p = LINE_MAX" "terminated name"
  shows "\<exists>r. bin_path p LINE_MAX name = Some r \<and> str_row LINE_MAX r"
proof -
  have plen: "strlen (c_string ''/bin/'') = Some 5" by (simp add: strlen_ok)
  have p1: "memcpy p 0 (c_string ''/bin/'') 0 5 = Some (patch p 0 ''/bin/'')"
    using assms(1) by (subst memcpy_prefix) (simp_all add: c_string_def LINE_MAX_def)
  let ?n = "min (length (cstr name)) 122"
  let ?p2 = "patch (patch p 0 ''/bin/'') 5 (take ?n name)"
  have "?n \<le> length name" using length_cstr_less [OF assms(2)] by simp
  then have p2: "memcpy (patch p 0 ''/bin/'') 5 name 0 ?n = Some ?p2"
    using assms(1) by (subst memcpy_prefix) (simp_all add: LINE_MAX_def)
  have n: "(if 122 < length (cstr name) then 122 else length (cstr name)) = ?n" by auto
  have "length ?p2 = LINE_MAX" using assms(1) \<open>?n \<le> length name\<close> by (simp add: LINE_MAX_def)
  moreover have "5 + ?n < length ?p2" unfolding calculation by (simp add: LINE_MAX_def)
  ultimately obtain r where r: "wr ?p2 (5 + ?n) NUL = Some r" "str_row LINE_MAX r"
    using wr_NUL_row [of "5 + ?n" ?p2] by metis
  have "bin_path p LINE_MAX name = Some r"
    by (simp add: bin_path_def plen p1 strlen_ok [OF assms(2)] LINE_MAX_def n p2 r(1) Let_def)
  with r(2) show ?thesis by blast
qed

lemma find_batches_safe:
  assumes "length p = LINE_MAX" "terminated name"
  shows "safe (\<lambda>(found, r). length r = LINE_MAX \<and> (found \<longrightarrow> terminated r)) (find_batches k fd name p LINE_MAX)"
proof (induction k)
  case (Suc k)
  have go: "\<exists>r. scan_entries ds name 0 (nat n) = Some r"
    if "length ds = 56" "0 < n"
      and n: "n \<le> 0 \<or> (\<exists>m. n = int (m * unat SIZEOF_DIRENT) \<and> m \<le> length ds \<and> (\<forall>i < m. dirent_ok (ds ! i)))"
    for ds n
  proof -
    from n \<open>0 < n\<close> obtain m where m: "n = int (m * unat SIZEOF_DIRENT)" "m \<le> length ds" "\<forall>i < m. dirent_ok (ds ! i)"
      by (elim disjE) (simp, blast)
    have "nat n = m * 72" unfolding m(1) by (simp add: SIZEOF_DIRENT_def)
    with scan_entries_ok [OF m(3,2) assms(2), of 0] show ?thesis by simp
  qed
  obtain b where b: "bin_path p LINE_MAX name = Some b" "str_row LINE_MAX b"
    using bin_path_ok [OF assms] by blast
  show ?case
    unfolding find_batches.simps
  proof (rule safe_bindI [OF u_getdents_safe], goal_cases)
    case 1
    show ?case by (simp add: SIZEOF_DIRENT_def)
  next
    case (2 x)
    obtain n ds where x: "x = (n, ds)" by (cases x)
    show ?case
    proof (cases "0 < n")
      case True
      have "length ds = 56"
        "n \<le> 0 \<or> (\<exists>m. n = int (m * unat SIZEOF_DIRENT) \<and> m \<le> length ds \<and> (\<forall>i < m. dirent_ok (ds ! i)))"
        using 2 unfolding x prod.case length_replicate by blast+
      then obtain r where "scan_entries ds name 0 (nat n) = Some r" using go [of ds n] True by blast
      with b Suc.IH True show ?thesis by (simp add: x str_row_def)
    qed (use assms in \<open>simp add: x\<close>)
  qed
qed simp

definition path_found :: "bool \<times> char list \<Rightarrow> bool" where
  "path_found r \<longleftrightarrow> length (snd r) = LINE_MAX \<and> (fst r \<longrightarrow> str_row LINE_MAX (snd r))"

lemma find_in_bin_safe:
  assumes "length p = LINE_MAX" "terminated name"
  shows "safe path_found (find_in_bin name p LINE_MAX)"
  unfolding find_in_bin_def
  by (intro safe_thenI [OF u_calls_safe(3)])
    (auto intro!: safe_bindI [OF find_batches_safe [OF assms]] safe_thenI [OF u_calls_safe(4)]
      simp: path_found_def str_row_def assms)

lemma resolve_full_path_safe:
  assumes "length p = LINE_MAX" "str_row LINE_MAX name"
  shows "safe path_found (resolve_full_path p LINE_MAX (Some name))"
proof -
  have name: "terminated name" "length name = LINE_MAX" "length (cstr name) < LINE_MAX"
    using str_rowD [OF assms(2)] by simp_all
  have pos: "0 < LINE_MAX" by (simp add: LINE_MAX_def)
  let ?d = "patch p 0 (take (length (cstr name)) name)"
  have d: "memcpy p 0 name 0 (length (cstr name)) = Some ?d"
    using name assms(1) by (subst memcpy_prefix) simp_all
  have "length ?d = LINE_MAX" using name assms(1) by simp
  then obtain r where r: "wr ?d (length (cstr name)) NUL = Some r" "str_row LINE_MAX r"
    using wr_NUL_row [of "length (cstr name)" ?d] name(3) by auto
  have fail: "\<exists>q'. wr q 0 NUL = Some q' \<and> path_found (False, q')" if "length q = LINE_MAX" for q
    using that pos by (simp add: wr_in path_found_def)
  have abs: "safe path_found (tryP (do {
          l \<leftarrow> strlen name;
          let len = (if l \<ge> LINE_MAX then LINE_MAX - 1 else l);
          d \<leftarrow> memcpy p 0 name 0 len;
          wr d len NUL }) (\<lambda>d. Ret (True, d)))"
    using name(3) by (simp add: strlen_ok [OF name(1)] d r path_found_def str_rowD [OF r(2)])
  have search: "safe path_found (bindP (find_in_bin name p LINE_MAX) (\<lambda>(found, d).
      if found then Ret (True, d) else tryP (wr d 0 NUL) (\<lambda>d'. Ret (False, d'))))"
    using fail by (intro safe_bindI [OF find_in_bin_safe [OF assms(1) name(1)]]) (fastforce simp: path_found_def)
  obtain c where c: "rd name 0 = Some c" using name(2) pos by (simp add: rd_in)
  show ?thesis using abs search pos by (simp add: resolve_full_path_def c Let_def)
qed

subsection \<open>Builtins\<close>

definition argv_end :: "nat \<Rightarrow> nat option list \<Rightarrow> bool" where
  "argv_end argc argv \<longleftrightarrow> argv_ok argc argv \<and> argv ! argc = None"

lemma any_equal_ok:
  "terminated cmd \<Longrightarrow> list_all no_nul ns \<Longrightarrow> any_equal ns cmd = Some (cstr cmd \<in> set ns)"
proof (induction ns)
  case (Cons n ns)
  obtain r where "strcmp cmd (c_string n) = Some r" "r = 0 \<longleftrightarrow> cstr cmd = n"
    using strcmp_eq_0 [of cmd "c_string n"] Cons.prems by auto
  with Cons show ?case by simp
qed simp

lemma which_builtin_ok:
  assumes "terminated cmd"
  shows "which_builtin builtins cmd = Some
    (if cstr cmd = ''exit'' then Some BExit else if cstr cmd = ''cd'' then Some BCd
     else if cstr cmd = ''set'' then Some BSet else if cstr cmd = ''env'' \<or> cstr cmd = ''printenv'' then Some BEnv
     else if cstr cmd = ''export'' then Some BExport else if cstr cmd = ''unset'' then Some BUnset
     else if cstr cmd = ''repeat'' then Some BRepeat else if cstr cmd = ''help'' then Some BHelp else None)"
  by (simp add: builtins_def any_equal_ok [OF assms] del: any_equal.simps)

lemma help_find_ok:
  "terminated cmd \<Longrightarrow> list_all (\<lambda>t. list_all no_nul (fst t)) ts \<Longrightarrow>
   \<exists>r. help_find ts cmd = Some r \<and> (\<forall>ls. r = Some ls \<longrightarrow> ls \<in> set (map snd ts))"
proof (induction ts)
  case (Cons t ts)
  obtain ns ls where t: "t = (ns, ls)" by (cases t)
  with Cons show ?case by (auto simp: any_equal_ok)
qed simp

definition number_fits :: "nat \<Rightarrow> nat option list \<Rightarrow> shell \<Rightarrow> bool" where
  "number_fits argc argv sh \<longleftrightarrow>
     (case (arg sh argv 0, arg sh argv 1) of
        (Some cmd, Some a) \<Rightarrow> 1 < argc \<and> (cstr cmd = ''exit'' \<or> cstr cmd = ''repeat'') \<longrightarrow> atoi a \<noteq> None
      | _ \<Rightarrow> True)"

lemma builtin_exit_safe:
  assumes "sh_ok sh" "argv_ok argc argv" "1 < argc \<Longrightarrow> \<exists>a. arg sh argv 1 = Some a \<and> atoi a \<noteq> None"
  shows "safe (cli_keeps sh) (builtin_exit argc argv sh)"
  using assms(3) unfolding builtin_exit_def
  by (auto simp: safe_tryP intro!: safe_thenI u_calls_safe cli_keeps_refl [OF assms(1)])

lemma builtin_cd_safe:
  assumes "sh_ok sh" "argv_ok argc argv"
  shows "safe (cli_keeps sh) (builtin_cd argc argv sh)"
proof (cases "argc > 2")
  case True
  then show ?thesis using keeps_set_status [OF cli_keeps_refl [OF assms(1)]]
    by (simp add: builtin_cd_def) (intro safe_thenI print_line_safe plain_line, simp_all)
next
  case False
  let ?path = "if argc < 2
      then do { v \<leftarrow> get_variable sh (c_string ''HOME''); Some (case v of None \<Rightarrow> c_string ''/'' | Some p \<Rightarrow> p) }
      else arg sh argv 1"
  obtain path where path: "?path = Some path" "terminated path" "length (cstr path) \<le> 4096"
  proof (cases "argc < 2")
    case True
    obtain r where r: "get_variable sh (c_string ''HOME'') = Some r" "\<forall>p. r = Some p \<longrightarrow> str_row MAX_VAR_VALUE p"
      using get_variable_ok [OF sh_okD(1) [OF assms(1)], of "c_string ''HOME''"] by (auto split: option.splits)
    with True show ?thesis using that str_row_plain [of MAX_VAR_VALUE]
      by (cases r) (auto simp: c_string_def MAX_VAR_VALUE_def)
  next
    case False
    then obtain a where "arg sh argv 1 = Some a" "str_row LINE_MAX a"
      using arg_ok [OF sh_okD(3) [OF assms(1)] assms(2), of 1] by auto
    with False show ?thesis using that str_row_plain [of LINE_MAX a] by (simp add: LINE_MAX_def)
  qed
  have pr: "plain (c_string (ln (''cd: cannot change directory to '' @ quoted ''%s''))) [Str (Some path)]"
    using path(2,3) by (simp add: fmt_defs)
  have pl: "safe (\<lambda>_. True) (print_line (''cd: cannot change directory to '' @ quoted ''%s'') [Str (Some path)])"
    by (rule print_line_safe [OF pr]) (simp add: quoted_def)
  show ?thesis unfolding builtin_cd_def using False keeps_set_status [OF cli_keeps_refl [OF assms(1)]]
    by (simp add: path(1)) (auto intro!: safe_thenI [OF u_calls_safe(5)] path(2) safe_thenI [OF pl [unfolded append.simps]])
qed

lemma list_vars_safe:
  assumes "\<And>v. var_ok v \<Longrightarrow> plain (c_string fmt) [Str (Some (sv_name v)), Str (Some (sv_value v))]" "length fmt < 1000"
  shows "list_all var_ok vars \<Longrightarrow> i + n \<le> length vars \<Longrightarrow> safe (\<lambda>_. True) (list_vars n i fmt vars)"
proof (induction n arbitrary: i)
  case (Suc n)
  have v: "var_ok (vars ! i)" using Suc.prems by (simp add: list_all_length)
  have "safe (\<lambda>_. True) (list_vars n (Suc i) fmt vars)" using Suc by simp
  with Suc.prems printf_plain [OF assms(1) [OF v] assms(2)] show ?case
    by (auto simp: rd_in intro!: safe_thenI)
qed simp

lemma set_lines_safe:
  "list_all var_ok vars \<Longrightarrow> i + n \<le> length vars \<Longrightarrow> safe (\<lambda>_. True) (set_lines n i vars)"
proof (induction n arbitrary: i)
  case (Suc n)
  have v: "var_ok (vars ! i)" using Suc.prems by (simp add: list_all_length)
  have p1: "safe (\<lambda>_. True) (printf ''%s=%s'' [Str (Some (sv_name (vars ! i))), Str (Some (sv_value (vars ! i)))])"
    using var_okD [OF v] by (intro printf_plain) (simp_all add: fmt_defs MAX_VAR_NAME_def MAX_VAR_VALUE_def)
  have p2: "safe (\<lambda>_. True) (printf '' [exported]'' [])"
    by (intro printf_plain) (simp_all add: fmt_defs)
  have p3: "safe (\<lambda>_. True) (print_line '''' [])"
    by (intro print_line_safe plain_line) simp_all
  have "safe (\<lambda>_. True) (set_lines n (Suc i) vars)" using Suc by simp
  with Suc.prems show ?case
    by (auto simp: rd_in intro!: safe_thenI [OF p1] safe_thenI [OF p3] safe_thenI p2)
qed simp

lemma vars_bounds: "sh_ok sh \<Longrightarrow> list_all var_ok (sh_vars sh) \<and> 0 + sh_var_count sh \<le> length (sh_vars sh)"
  by (simp add: sh_ok_def vars_ok_def)

lemma var_plain:
  assumes "var_ok v"
  shows "terminated (sv_name v)" "terminated (sv_value v)" "length (cstr (sv_name v)) \<le> 4096" "length (cstr (sv_value v)) \<le> 4096"
  using var_okD [OF assms] by (simp_all add: MAX_VAR_NAME_def MAX_VAR_VALUE_def)

lemma builtin_set_safe: "sh_ok sh \<Longrightarrow> safe (cli_keeps sh) (builtin_set sh)"
  unfolding builtin_set_def using vars_bounds [of sh]
  by (intro safe_thenI [OF set_lines_safe]) (auto intro: keeps_set_status cli_keeps_refl)

lemma builtin_env_like_safe:
  assumes "sh_ok sh" "argv_ok argc argv"
  shows "safe (cli_keeps sh) (builtin_env_like argc argv sh)"
proof (cases "argc > 1")
  case True
  note st = keeps_set_status [OF cli_keeps_refl [OF assms(1)]]
  obtain a where a: "arg sh argv (Suc 0) = Some a" "str_row LINE_MAX a"
    using arg_ok [OF sh_okD(3) [OF assms(1)] assms(2), of 1] True by auto
  note vo = sh_okD(1) [OF assms(1)]
  obtain v where v: "get_variable sh a = Some v" "\<forall>p. v = Some p \<longrightarrow> str_row MAX_VAR_VALUE p"
    using get_variable_ok [OF vo str_rowD(2) [OF a(2)]] by (auto split: option.splits)
  obtain idx where idx: "find_variable sh a = Some idx" "\<forall>i. idx = Some i \<longrightarrow> i < sh_var_count sh"
    using find_variable_ok [OF vo str_rowD(2) [OF a(2)]] by (auto split: option.splits)
  have pl: "safe (\<lambda>_. True) (print_line ''%s'' [Str (Some p)])" if "v = Some p" for p
    using v(2) that str_row_plain [of MAX_VAR_VALUE p]
    by (intro print_line_safe) (simp_all add: fmt_defs MAX_VAR_VALUE_def)
  have x: "i < sh_var_count sh \<Longrightarrow> \<exists>x. rd (sh_vars sh) i = Some x" for i
    using vars_okD(1,3) [OF vo] by (simp add: rd_in)
  have fail: "safe (cli_keeps sh) (Ret (set_status 1 sh))" using st [of 1] by simp
  show ?thesis
  proof (cases v)
    case None
    with True fail show ?thesis by (simp add: builtin_env_like_def a(1) v(1) idx(1))
  next
    case (Some p)
    note vp = Some
    show ?thesis
    proof (cases idx)
      case None
      with True fail show ?thesis by (simp add: builtin_env_like_def a(1) v(1) idx(1) vp)
    next
      case (Some i)
      with x idx(2) obtain sv where sv: "rd (sh_vars sh) i = Some sv" by blast
      have "safe (cli_keeps sh) (bindP (print_line ''%s'' [Str (Some p)]) (\<lambda>_. Ret (set_status 0 sh)))"
        using st [of 0] by (intro safe_thenI [OF pl [OF vp]]) simp
      with True fail show ?thesis by (simp add: builtin_env_like_def a(1) v(1) idx(1) vp Some sv)
    qed
  qed
next
  case False
  have "safe (\<lambda>_. True) (list_vars (sh_var_count sh) 0 (ln ''%s=%s'') (sh_vars sh))"
    using vars_bounds [OF assms(1)] by (intro list_vars_safe) (auto simp: fmt_defs var_plain)
  then show ?thesis using False assms(1)
    by (auto simp: builtin_env_like_def intro!: safe_thenI keeps_set_status cli_keeps_refl)
qed

lemma export_variable_safe:
  assumes "sh_ok sh" "terminated name"
  shows "\<exists>sh1. export_variable name sh = Some sh1 \<and> cli_keeps sh sh1"
  using export_variable_ok [OF sh_okD(1) [OF assms(1)] assms(2)] keeps_vars [OF assms(1)] by blast

lemma unset_variable_safe:
  assumes "sh_ok sh" "terminated name"
  shows "\<exists>sh1. unset_variable name sh = Some sh1 \<and> cli_keeps sh sh1"
  using unset_variable_ok [OF sh_okD(1) [OF assms(1)] assms(2)] keeps_vars [OF assms(1)] by blast

lemma export_args_safe:
  "sh_ok sh \<Longrightarrow> argv_ok argc argv \<Longrightarrow> i + n \<le> argc \<Longrightarrow> safe (cli_keeps sh) (export_args n i argv sh)"
proof (induction n arbitrary: i sh)
  case (Suc n)
  obtain a where a: "arg sh argv i = Some a" "str_row LINE_MAX a"
    using arg_ok [OF sh_okD(3) [OF Suc.prems(1)] Suc.prems(2), of i] Suc.prems(3) by auto
  have go: "safe (cli_keeps sh) (export_args n (Suc i) argv sh1)" if "cli_keeps sh sh1" for sh1
    using Suc.IH [of sh1 "Suc i"] that Suc.prems by (auto simp: cli_keeps_def elim!: safe_mono)
  consider "parse_assignment a = Some None"
    | nm v where "parse_assignment a = Some (Some (nm, v))" "terminated nm" "terminated v" "length (cstr nm) < MAX_VAR_NAME"
    using parse_assignment_ok [OF str_rowD(2) [OF a(2)]] by blast
  then show ?case
  proof cases
    case 1
    then show ?thesis using export_variable_safe [OF Suc.prems(1) str_rowD(2) [OF a(2)]] go by (auto simp: a(1))
  next
    case (2 nm v)
    then show ?thesis using go
      by (simp add: a(1)) (rule safe_bindI [OF set_variable_safe [OF Suc.prems(1) 2(2-4)]], simp)
  qed
qed (simp add: cli_keeps_refl)

lemma builtin_export_safe:
  assumes "sh_ok sh" "argv_ok argc argv"
  shows "safe (cli_keeps sh) (builtin_export argc argv sh)"
proof (cases "argc < 2")
  case True
  have "safe (\<lambda>_. True) (list_vars (sh_var_count sh) 0 (ln ''export %s=%s'') (sh_vars sh))"
    using vars_bounds [OF assms(1)] by (intro list_vars_safe) (auto simp: fmt_defs var_plain)
  then show ?thesis using True assms(1)
    by (auto simp: builtin_export_def intro!: safe_thenI keeps_set_status cli_keeps_refl)
next
  case False
  have "safe (cli_keeps sh) (export_args (argc - 1) 1 argv sh)"
    using False by (intro export_args_safe [OF assms]) simp
  with False show ?thesis
    by (auto simp: builtin_export_def intro!: keeps_set_status elim!: safe_bindI)
qed

lemma unset_args_safe:
  "sh_ok sh \<Longrightarrow> argv_ok argc argv \<Longrightarrow> i + n \<le> argc \<Longrightarrow> \<exists>sh1. unset_args n i argv sh = Some sh1 \<and> cli_keeps sh sh1"
proof (induction n arbitrary: i sh)
  case (Suc n)
  obtain a where a: "arg sh argv i = Some a" "str_row LINE_MAX a"
    using arg_ok [OF sh_okD(3) [OF Suc.prems(1)] Suc.prems(2), of i] Suc.prems(3) by auto
  obtain sh1 where "unset_variable a sh = Some sh1" "cli_keeps sh sh1"
    using unset_variable_safe [OF Suc.prems(1) str_rowD(2) [OF a(2)]] by blast
  with Suc.IH [of sh1 "Suc i"] Suc.prems show ?case by (auto simp: a(1) cli_keeps_def)
qed (simp add: cli_keeps_refl)

lemma builtin_unset_safe:
  assumes "sh_ok sh" "argv_ok argc argv"
  shows "safe (cli_keeps sh) (builtin_unset argc argv sh)"
proof (cases "argc < 2")
  case True
  then show ?thesis using keeps_set_status [OF cli_keeps_refl [OF assms(1)]]
    by (simp add: builtin_unset_def) (intro safe_thenI print_line_safe plain_line, simp_all)
next
  case False
  obtain sh1 where "unset_args (argc - 1) 1 argv sh = Some sh1" "cli_keeps sh sh1"
    using unset_args_safe [OF assms, of 1 "argc - 1"] False by auto
  with False show ?thesis by (simp add: builtin_unset_def keeps_set_status)
qed

lemma argv_strings_ok:
  "rows_ok (sh_arg_buf sh) \<Longrightarrow> argv_end argc argv \<Longrightarrow> i \<le> argc \<Longrightarrow> argc - i < n \<Longrightarrow>
   \<exists>ss. argv_strings n i argv sh = Some ss \<and> list_all terminated ss"
proof (induction n arbitrary: i)
  case (Suc n)
  have len: "i < length argv" using Suc.prems by (auto simp: argv_end_def argv_ok_def)
  show ?case
  proof (cases "i = argc")
    case True
    with len Suc.prems(2) show ?thesis by (simp add: rd_in argv_end_def)
  next
    case False
    then have "i < argc" using Suc.prems(3) by simp
    then obtain r where "argv ! i = Some r" "r < 16" using Suc.prems(2) by (auto simp: argv_end_def argv_ok_def)
    moreover have "argc - Suc i < n" using Suc.prems(4) \<open>i < argc\<close> by linarith
    then obtain ss where "argv_strings n (Suc i) argv sh = Some ss" "list_all terminated ss"
      using Suc.IH [of "Suc i"] Suc.prems(1,2) \<open>i < argc\<close> by auto
    moreover have "terminated (sh_arg_buf sh ! r)" if "r < 16" for r using str_rowD(2) [OF rows_okD(1) [OF Suc.prems(1) that]] .
    ultimately show ?thesis using len rows_okD(2) [OF Suc.prems(1)] by (simp add: rd_in)
  qed
qed simp

lemma child_exec_safe:
  "terminated path \<Longrightarrow> list_all terminated av \<Longrightarrow> list_all terminated env \<Longrightarrow> safe (\<lambda>_. True) complain \<Longrightarrow>
   safe (\<lambda>_. True) (child_exec path av env complain)"
  unfolding child_exec_def by (intro safe_thenI u_calls_safe)

lemma wait_for_safe:
  assumes "sh_ok sh" "pid_ok pid"
  shows "safe (\<lambda>r. cli_keeps sh (snd r)) (wait_for pid sh)"
proof -
  have st: "cli_keeps sh (set_status n sh)" if "0 \<le> n" "n < 1000" for n
    using keeps_set_status [OF cli_keeps_refl [OF assms(1)] that] .
  have "plain (c_string (ln ''waitpid failed for pid %d'')) [W32 (word_of_int pid)]"
    by (simp add: fmt_defs not_INT_MIN [OF assms(2)])
  then have pl: "safe (\<lambda>_. True) (print_line ''waitpid failed for pid %d'' [W32 (word_of_int pid)])"
    by (rule print_line_safe) simp
  have code: "0 \<le> exit_code_of s \<and> exit_code_of s < 1000" for s
    using pos_mod_bound [of 256 "s div 256"] pos_mod_sign [of 256 "s div 256"] by (simp add: exit_code_of_def)
  show ?thesis unfolding wait_for_def
    by (rule safe_thenI [OF u_waitpid_safe]) (auto intro!: safe_thenI [OF pl] st code [THEN conjunct1] code [THEN conjunct2])
qed

text \<open>Resolving a command, building its environment and argument vector, and starting it.\<close>

lemma fullpath_zero: "length (replicate LINE_MAX NUL) = LINE_MAX"
  by simp

lemma not_found_safe:
  assumes "sh_ok sh" "str_row LINE_MAX cmd"
  shows "safe (cli_keeps sh) (bindP (print_line ''%s: command not found'' [Str (Some cmd)]) (\<lambda>_. Ret (set_status 127 sh)))"
  using str_row_plain [OF assms(2)] keeps_set_status [OF cli_keeps_refl [OF assms(1)]]
  by (intro safe_thenI print_line_safe) (simp_all add: fmt_defs LINE_MAX_def)

lemma fork_failed_safe:
  assumes "sh_ok sh"
  shows "safe (cli_keeps sh) (bindP (print_line ''Failed to fork'' []) (\<lambda>_. Ret (set_status 1 sh)))"
  using keeps_set_status [OF cli_keeps_refl [OF assms]] by (intro safe_thenI print_line_safe plain_line) simp_all

lemma prepared:
  assumes "sh_ok sh" "argv_end argc argv" "i \<le> argc"
  obtains env av where "build_environment sh = Some env" "argv_strings ARGV_MAX i argv sh = Some av"
    "list_all terminated env" "list_all terminated av"
proof -
  have "argc - i < ARGV_MAX" using assms(2) by (auto simp: argv_end_def argv_ok_def)
  then show ?thesis
    using build_environment_ok [OF sh_okD(1) [OF assms(1)]] argv_strings_ok [OF sh_okD(3) [OF assms(1)] assms(2,3)] that by blast
qed

lemma pid_range: "safe pid_ok u_fork" "safe pid_ok u_getpid"
  using u_pid_safe by (simp_all add: pid_ok_def [abs_def])

text \<open>Forking, the child's part, and what the parent does then.\<close>

lemma spawn_safe:
  assumes "sh_ok sh" "safe (\<lambda>_. True) complain" "\<And>pid. pid_ok pid \<Longrightarrow> safe (cli_keeps sh) (after pid)"
    and p: "terminated p" "list_all terminated av" "list_all terminated env"
  shows "safe (cli_keeps sh) (bindP u_fork (\<lambda>pid.
    if pid < 0 then bindP (print_line ''Failed to fork'' []) (\<lambda>_. Ret (set_status 1 sh))
    else bindP (if pid = 0 then child_exec p av env complain else Ret 0) (\<lambda>_. after pid)))"
proof (rule safe_bindI [OF pid_range(1)])
  fix pid assume pid: "pid_ok pid"
  have "safe (\<lambda>_. True) (if pid = 0 then child_exec p av env complain else Ret 0)"
    using child_exec_safe [OF p assms(2)] by simp
  then have "safe (cli_keeps sh) (bindP (if pid = 0 then child_exec p av env complain else Ret 0) (\<lambda>_. after pid))"
    using assms(3) [OF pid] by (rule safe_thenI)
  then show "safe (cli_keeps sh) (if pid < 0 then bindP (print_line ''Failed to fork'' []) (\<lambda>_. Ret (set_status 1 sh))
    else bindP (if pid = 0 then child_exec p av env complain else Ret 0) (\<lambda>_. after pid))"
    using fork_failed_safe [OF assms(1)] by simp
qed

lemma run_command_safe:
  assumes "sh_ok sh" "argv_end argc argv" "0 < argc"
  shows "safe (cli_keeps sh) (run_command background argv sh)"
proof -
  obtain cmd where cmd: "arg sh argv 0 = Some cmd" "str_row LINE_MAX cmd"
    using arg_ok [OF sh_okD(3) [OF assms(1)], of argc argv 0] assms(2,3) by (auto simp: argv_end_def)
  obtain env av where e: "build_environment sh = Some env" "argv_strings ARGV_MAX 0 argv sh = Some av"
      "list_all terminated env" "list_all terminated av"
    using prepared [OF assms(1,2), of 0] by blast
  have bg: "cli_keeps sh (sh\<lparr>sh_bg_pid := pid\<rparr>)" if "pid_ok pid" for pid
    using assms(1) that by (simp add: cli_keeps_def sh_ok_def vars_ok_def vlist_def rest_ok_def)
  have complain: "safe (\<lambda>_. True) (printf (ln (''execve failed for '' @ quoted ''%s'')) [Str (Some p)])"
    if "str_row LINE_MAX p" for p
    using str_row_plain [OF that] by (intro printf_plain) (simp_all add: fmt_defs LINE_MAX_def)
  have after: "safe (cli_keeps sh) (if background then Ret (sh\<lparr>sh_bg_pid := pid\<rparr>) else bindP (wait_for pid sh) (\<lambda>(_, sh1). Ret sh1))"
    if "pid_ok pid" for pid
    using bg [OF that] by (auto intro!: safe_bindI [OF wait_for_safe [OF assms(1) that]])
  show ?thesis unfolding run_command_def cmd(1) tryP_simps
    by (rule safe_bindI [OF resolve_full_path_safe [OF fullpath_zero cmd(2)]])
      (use not_found_safe [OF assms(1) cmd(2)] in
        \<open>auto simp: e path_found_def intro!: spawn_safe [OF assms(1) complain] after e dest: str_rowD(2) simp del: append.simps\<close>)
qed

lemma repeat_loop_safe:
  assumes "argv_end argc argv" "2 < argc" "pid_ok count"
  shows "sh_ok sh \<Longrightarrow> 0 \<le> i \<Longrightarrow> i + int n = count \<Longrightarrow> safe (cli_keeps sh) (repeat_loop n i count argv sh)"
proof (induction n arbitrary: i sh)
  case (Suc n)
  obtain cmd where cmd: "arg sh argv 2 = Some cmd" "str_row LINE_MAX cmd"
    using arg_ok [OF sh_okD(3) [OF Suc.prems(1)], of argc argv 2] assms(1,2) by (auto simp: argv_end_def)
  obtain env av where e: "build_environment sh = Some env" "argv_strings ARGV_MAX 2 argv sh = Some av"
      "list_all terminated env" "list_all terminated av"
    using prepared [OF Suc.prems(1) assms(1), of 2] assms(2) by auto
  have "pid_ok (i + 1)" using Suc.prems(2,3) assms(3) by (auto simp: pid_ok_def INT_MIN_def)
  then have pl: "safe (\<lambda>_. True) (print_line ''[%d/%d]'' [W32 (word_of_int (i + 1)), W32 (word_of_int count)])"
    using not_INT_MIN assms(3) by (intro print_line_safe) (simp_all add: fmt_defs del: of_int_add)
  have complain: "safe (\<lambda>_. True) (printf (ln ''execve failed'') [])"
    by (intro printf_plain) (simp_all add: fmt_defs)
  have next1: "safe (cli_keeps sh) (repeat_loop n (i + 1) count argv sh1)" if "cli_keeps sh sh1" for sh1
    using Suc.IH [of sh1 "i + 1"] Suc.prems that by (auto simp: cli_keeps_def elim!: safe_mono)
  have after: "safe (cli_keeps sh) (bindP (wait_for pid sh) (\<lambda>(ok, sh1).
      if \<not> ok then Ret sh1 else if sh_status sh1 \<noteq> 0 then Ret sh1 else repeat_loop n (i + 1) count argv sh1))"
    if "pid_ok pid" for pid
    by (rule safe_bindI [OF wait_for_safe [OF Suc.prems(1) that]]) (auto intro: next1)
  have "safe (cli_keeps sh) (bindP (resolve_full_path (replicate LINE_MAX NUL) LINE_MAX (Some cmd)) (\<lambda>(found, fullpath).
      if \<not> found then bindP (print_line ''%s: command not found'' [Str (Some cmd)]) (\<lambda>_. Ret (set_status 127 sh))
      else tryP (do { env \<leftarrow> build_environment sh; av \<leftarrow> argv_strings ARGV_MAX 2 argv sh; Some (env, av) }) (\<lambda>(env, av).
        bindP u_fork (\<lambda>pid.
          if pid < 0 then bindP (print_line ''Failed to fork'' []) (\<lambda>_. Ret (set_status 1 sh))
          else bindP (if pid = 0 then child_exec fullpath av env (printf (ln ''execve failed'') []) else Ret 0) (\<lambda>_.
            bindP (wait_for pid sh) (\<lambda>(ok, sh1).
              if \<not> ok then Ret sh1 else if sh_status sh1 \<noteq> 0 then Ret sh1
              else repeat_loop n (i + 1) count argv sh1))))))"
    by (rule safe_bindI [OF resolve_full_path_safe [OF fullpath_zero cmd(2)]])
      (use not_found_safe [OF Suc.prems(1) cmd(2)] in \<open>auto simp: e path_found_def intro!: spawn_safe [OF Suc.prems(1) complain] after e dest: str_rowD(2) simp del: append.simps\<close>)
  then show ?case unfolding repeat_loop.simps cmd(1) tryP_simps by (rule safe_thenI [OF pl])
qed (simp add: cli_keeps_refl)

lemma atoi_range: "atoi a = Some v \<Longrightarrow> INT_MIN \<le> v \<and> v \<le> INT_MAX"
  by (auto simp: atoi_def chk_int_def split: bind_splits if_splits)

lemma builtin_repeat_safe:
  assumes "sh_ok sh" "argv_end argc argv" "2 < argc \<Longrightarrow> \<exists>a. arg sh argv 1 = Some a \<and> atoi a \<noteq> None"
  shows "safe (cli_keeps sh) (builtin_repeat argc argv sh)"
proof -
  note st = keeps_set_status [OF cli_keeps_refl [OF assms(1)]]
  have usage: "safe (cli_keeps sh) (bindP (print_line s []) (\<lambda>_. Ret (set_status 1 sh)))"
    if "length s < 999" "list_all (\<lambda>c. c \<noteq> NUL \<and> c \<noteq> CHR ''%'') s" for s
    using st that by (intro safe_thenI print_line_safe plain_line) simp_all
  show ?thesis
  proof (cases "argc < 3")
    case True
    then show ?thesis by (simp add: builtin_repeat_def usage)
  next
    case False
    obtain a count where a: "arg sh argv 1 = Some a" "atoi a = Some count" using assms(3) False by auto
    have pos: "safe (cli_keeps sh) (bindP (print_line ''repeat: count must be positive'' []) (\<lambda>_. Ret (set_status 1 sh)))"
      by (rule usage) simp_all
    have "safe (cli_keeps sh) (repeat_loop (nat count) 0 count argv sh)" if "0 < count"
      using that atoi_range [OF a(2)] False
      by (intro repeat_loop_safe [OF assms(2) _ _ assms(1)]) (simp_all add: pid_ok_def INT_MIN_def)
    with False pos show ?thesis by (simp add: builtin_repeat_def a(1) a(1) [simplified] a(2) del: append.simps)
  qed
qed

lemma help_lines_ok:
  "list_all (\<lambda>s. length s < 999 \<and> list_all (\<lambda>c. c \<noteq> NUL \<and> c \<noteq> CHR ''%'') s) help_all"
  "list_all (\<lambda>t. list_all no_nul (fst t) \<and> list_all (\<lambda>s. length s < 999 \<and> list_all (\<lambda>c. c \<noteq> NUL \<and> c \<noteq> CHR ''%'') s) (snd t)) help_topics"
  by (simp_all add: help_all_def help_topics_def no_nul_def)

lemma builtin_help_safe:
  assumes "sh_ok sh" "argv_ok argc argv" "0 < argc"
  shows "safe (cli_keeps sh) (builtin_help argc argv sh)"
proof -
  note st = keeps_set_status [OF cli_keeps_refl [OF assms(1)]]
  show ?thesis
  proof (cases "argc = 1")
    case True
    with st show ?thesis
      by (simp add: builtin_help_def) (intro safe_thenI [OF print_lines_safe [OF help_lines_ok(1)]], simp)
  next
    case False
    obtain a where a: "arg sh argv (Suc 0) = Some a" "str_row LINE_MAX a"
      using arg_ok [OF sh_okD(3) [OF assms(1)] assms(2), of 1] False assms(3) by auto
    obtain r where r: "help_find help_topics a = Some r" "\<forall>ls. r = Some ls \<longrightarrow> ls \<in> set (map snd help_topics)"
      using help_find_ok [OF str_rowD(2) [OF a(2)], of help_topics] help_lines_ok(2) by (auto simp: list_all_iff)
    have lines: "safe (\<lambda>_. True) (print_lines ls)" if "r = Some ls" for ls
      using r(2) that help_lines_ok(2) by (intro print_lines_safe) (auto simp: list_all_iff)
    have "safe (\<lambda>_. True) (print_line (''help: no help for '' @ quoted ''%s'') [Str (Some a)])"
      using str_row_plain [OF a(2)] by (intro print_line_safe) (simp_all add: fmt_defs LINE_MAX_def)
    with False st lines show ?thesis
      by (cases r) (auto simp: builtin_help_def a(1) r(1) intro!: safe_thenI simp del: append.simps)
  qed
qed

lemma handle_builtin_safe:
  assumes "sh_ok sh" "argv_end argc argv" "number_fits argc argv sh"
  shows "safe (\<lambda>r. cli_keeps sh (snd r)) (handle_builtin argc argv sh)"
proof (cases "argc = 0")
  case True
  then show ?thesis using assms(1) by (simp add: handle_builtin_def cli_keeps_refl)
next
  case False
  have ok: "argv_ok argc argv" using assms(2) by (simp add: argv_end_def)
  obtain cmd where cmd: "arg sh argv 0 = Some cmd" "str_row LINE_MAX cmd"
    using arg_ok [OF sh_okD(3) [OF assms(1)] ok, of 0] False by auto
  have p: "rd argv 0 = Some (argv ! 0)" "argv ! 0 \<noteq> None"
    using ok False by (auto simp: argv_ok_def rd_in)
  have num: "\<exists>a. arg sh argv 1 = Some a \<and> atoi a \<noteq> None"
    if "1 < argc" "cstr cmd = ''exit'' \<or> cstr cmd = ''repeat''"
    using arg_ok [OF sh_okD(3) [OF assms(1)] ok, of 1] assms(3) that by (auto simp: number_fits_def cmd(1))
  note which = which_builtin_ok [OF str_rowD(2) [OF cmd(2)]]
  obtain w where w: "which_builtin builtins cmd = Some w" using which by blast
  have wE: "w = Some BExit \<Longrightarrow> cstr cmd = ''exit''" and wR: "w = Some BRepeat \<Longrightarrow> cstr cmd = ''repeat''"
    using which unfolding w by (simp_all split: if_split_asm)
  have run: "safe (cli_keeps sh) (run_builtin b argc argv sh)" if "w = Some b" for b
  proof (cases b)
    case BExit
    then have "safe (cli_keeps sh) (builtin_exit argc argv sh)"
      using wE that num by (intro builtin_exit_safe [OF assms(1) ok]) simp
    with BExit show ?thesis by (simp add: run_builtin_def)
  next
    case BRepeat
    then have "safe (cli_keeps sh) (builtin_repeat argc argv sh)"
      using wR that num by (intro builtin_repeat_safe [OF assms(1,2)]) simp
    with BRepeat show ?thesis by (simp add: run_builtin_def)
  qed (use False in \<open>simp_all add: run_builtin_def builtin_cd_safe [OF assms(1) ok] builtin_set_safe [OF assms(1)]
      builtin_env_like_safe [OF assms(1) ok] builtin_export_safe [OF assms(1) ok] builtin_unset_safe [OF assms(1) ok]
      builtin_help_safe [OF assms(1) ok]\<close>)
  show ?thesis
  proof (cases w)
    case None
    with False p cli_keeps_refl [OF assms(1)] show ?thesis by (auto simp: handle_builtin_def cmd(1) w)
  next
    case (Some b)
    have "safe (\<lambda>r. cli_keeps sh (snd r)) (bindP (run_builtin b argc argv sh) (\<lambda>sh1. Ret (True, sh1)))"
      by (rule safe_bindI [OF run [OF Some]]) simp
    with False p Some show ?thesis by (auto simp: handle_builtin_def cmd(1) w)
  qed
qed

lemma dispatch_safe:
  assumes "sh_ok sh" "argv_end argc argv" "0 < argc" "number_fits argc argv sh"
  shows "safe (cli_keeps sh) (dispatch argc argv sh)"
proof -
  have ok: "argv_ok argc argv" using assms(2) by (simp add: argv_end_def)
  obtain a where a: "arg sh argv (argc - 1) = Some a" "str_row LINE_MAX a"
    using arg_ok [OF sh_okD(3) [OF assms(1)] ok, of "argc - 1"] assms(3) by auto
  obtain r where r: "strcmp a (c_string ''&'') = Some r"
    using strcmp_eq_0 [of a "c_string ''&''"] str_rowD(2) [OF a(2)] by auto
  have len: "argc - 1 < length argv" using ok assms(3) by (auto simp: argv_ok_def)
  obtain bg argc1 argv1 where t: "take_background argc argv sh = Some (bg, argc1, argv1)" "argv_end argc1 argv1"
      "number_fits argc1 argv1 sh" "\<not> bg \<longrightarrow> 0 < argc1"
  proof (cases "r = 0")
    case True
    have "argv_end (argc - 1) (argv[argc - 1 := None])"
      using assms(2,3) len by (auto simp: argv_end_def argv_ok_def nth_list_update)
    moreover have "number_fits (argc - 1) (argv[argc - 1 := None]) sh"
      using assms(4) len by (auto simp: number_fits_def arg_def rd_def nth_list_update split: option.splits bind_splits if_splits)
    ultimately show ?thesis using that [of True "argc - 1" "argv[argc - 1 := None]"] True len
      by (simp add: take_background_def a(1) [simplified] r wr_in)
  next
    case False
    with that [of False argc argv] assms(2-4) show ?thesis by (simp add: take_background_def a(1) [simplified] r)
  qed
  have "safe (cli_keeps sh) (bindP (handle_builtin argc1 argv1 sh) (\<lambda>(handled, sh1).
      if handled then Ret sh1 else run_command bg argv1 sh1))" if "0 < argc1"
  proof (rule safe_bindI [OF handle_builtin_safe [OF assms(1) t(2,3)]], goal_cases)
    case (1 x)
    obtain handled sh1 where x: "x = (handled, sh1)" by (cases x)
    have sh1: "cli_keeps sh sh1" "sh_ok sh1" using 1 by (simp_all add: x cli_keeps_def)
    have "safe (cli_keeps sh) (run_command bg argv1 sh1)"
      by (rule safe_mono [OF run_command_safe [OF sh1(2) t(2) that]]) (use sh1(1) cli_keeps_trans in blast)
    with sh1 show ?case by (simp add: x)
  qed
  then show ?thesis using t(4) cli_keeps_refl [OF assms(1)] by (auto simp: dispatch_def t(1))
qed

subsection \<open>Commands\<close>

lemma assignments_safe:
  "sh_ok sh \<Longrightarrow> argv_ok argc argv \<Longrightarrow> i + n = argc \<Longrightarrow>
   safe (\<lambda>r. cli_keeps sh (snd r) \<and> fst r \<le> argc) (assignments n i argv sh)"
proof (induction n arbitrary: i sh)
  case (Suc n)
  obtain a where a: "arg sh argv i = Some a" "str_row LINE_MAX a"
    using arg_ok [OF sh_okD(3) [OF Suc.prems(1)] Suc.prems(2), of i] Suc.prems(3) by auto
  have go: "safe (\<lambda>r. cli_keeps sh (snd r) \<and> fst r \<le> argc) (assignments n (Suc i) argv sh1)" if "cli_keeps sh sh1" for sh1
    using Suc.IH [of sh1 "Suc i"] that Suc.prems by (auto simp: cli_keeps_def elim!: safe_mono)
  consider "parse_assignment a = Some None"
    | nm v where "parse_assignment a = Some (Some (nm, v))" "terminated nm" "terminated v" "length (cstr nm) < MAX_VAR_NAME"
    using parse_assignment_ok [OF str_rowD(2) [OF a(2)]] by blast
  then show ?case
  proof cases
    case 1
    then show ?thesis using cli_keeps_refl [OF Suc.prems(1)] Suc.prems(3) by (simp add: a(1))
  next
    case (2 nm v)
    then show ?thesis using go
      by (simp add: a(1)) (rule safe_bindI [OF set_variable_safe [OF Suc.prems(1) 2(2-4)]], simp)
  qed
qed (simp add: cli_keeps_refl)

lemma shift_args_ok:
  "0 < first \<Longrightarrow> i + n + first \<le> length argv \<Longrightarrow>
   \<exists>av. shift_args n i first argv = Some av \<and> length av = length argv
     \<and> (\<forall>j < length argv. av ! j = (if i \<le> j \<and> j < i + n then argv ! (j + first) else argv ! j))"
proof (induction n arbitrary: i argv)
  case (Suc n)
  let ?a = "argv[i := argv ! (i + first)]"
  obtain av where av: "shift_args n (Suc i) first ?a = Some av" "length av = length argv"
      "\<forall>j < length argv. av ! j = (if Suc i \<le> j \<and> j < Suc i + n then ?a ! (j + first) else ?a ! j)"
    using Suc.IH [of "Suc i" ?a] Suc.prems by auto
  have "av ! j = (if i \<le> j \<and> j < i + Suc n then argv ! (j + first) else argv ! j)" if "j < length argv" for j
    using av(3) that Suc.prems by (cases "j = i") auto
  with av(1,2) Suc.prems show ?case by (auto simp: rd_in wr_in)
qed auto

lemma sh_ok_rows: "sh_ok sh \<Longrightarrow> rows_ok bufs \<Longrightarrow> sh_ok (sh\<lparr>sh_arg_buf := bufs\<rparr>)"
  by (simp add: sh_ok_def vars_ok_def vlist_def rest_ok_def rows_ok_def)

lemma expand_args_ok:
  "sh_ok sh \<Longrightarrow> argv_ok argc argv \<Longrightarrow> i + n \<le> argc \<Longrightarrow> \<exists>sh1. expand_args n i argv sh = Some sh1 \<and> sh_ok sh1"
proof (induction n arbitrary: i sh)
  case (Suc n)
  obtain r where r: "argv ! i = Some r" "r < 16" "i < length argv"
  proof -
    have "i < argc" using Suc.prems(3) by simp
    then show ?thesis using Suc.prems(2) that by (auto simp: argv_ok_def)
  qed
  note rows = sh_okD(3) [OF Suc.prems(1)]
  have row: "rd (sh_arg_buf sh) r = Some (sh_arg_buf sh ! r)" "str_row LINE_MAX (sh_arg_buf sh ! r)"
    using rows_okD [OF rows] r(2) by (simp_all add: rd_in)
  obtain x where x: "expand_variables sh (sh_arg_buf sh ! r) = Some x" "str_row LINE_MAX x"
    using expand_variables_ok [OF sh_okD(1,4,5,6) [OF Suc.prems(1)] row(2)] by blast
  with Suc.IH [OF sh_ok_rows [OF Suc.prems(1) rows_ok_update [OF rows x(2), of r]] Suc.prems(2), of "Suc i"] Suc.prems(3)
  show ?case by (simp add: rd_in r row(1))
qed simp

definition ready :: "shell + nat \<times> nat option list \<times> shell \<Rightarrow> bool" where
  "ready r \<longleftrightarrow>
     (case r of Inl sh \<Rightarrow> sh_ok sh | Inr (argc, argv, sh) \<Rightarrow> sh_ok sh \<and> argv_end argc argv \<and> 0 < argc)"

lemma prepare_command_safe:
  assumes "sh_ok sh" "str_row LINE_MAX line"
  shows "safe ready (prepare_command line sh)"
proof -
  obtain argc argv bufs where p: "parse_arguments line (replicate ARGV_MAX None) 15 sh = Some (argc, argv, sh\<lparr>sh_arg_buf := bufs\<rparr>)"
      "argc \<le> 15" "argv_ok argc argv" "rows_ok bufs"
    using parse_arguments_ok [OF sh_okD(2) [OF assms(1)] assms(2)] by blast
  let ?sh1 = "sh\<lparr>sh_arg_buf := bufs\<rparr>" and ?av = "argv[argc := None]"
  have sh1: "sh_ok ?sh1" by (rule sh_ok_rows [OF assms(1) p(4)])
  have av: "wr argv argc None = Some ?av" "argv_ok argc ?av" "?av ! argc = None"
    using p(3) by (auto simp: argv_ok_def wr_in)
  have rest: "safe ready (if first \<ge> argc then Ret (Inl (set_status 0 sh2))
      else tryP (if first > 0 then do { av \<leftarrow> shift_args (argc - first) 0 first ?av; wr av (argc - first) None } else Some ?av)
        (\<lambda>argv1. tryP (expand_args (argc - first) 0 argv1 sh2) (\<lambda>sh3. Ret (Inr (argc - first, argv1, sh3)))))"
    if "sh_ok sh2" "first \<le> argc" for first sh2
  proof (cases "first \<ge> argc")
    case True
    with keeps_set_status [OF cli_keeps_refl [OF that(1)], of 0] show ?thesis by (simp add: ready_def cli_keeps_def)
  next
    case False
    have len: "length ?av = ARGV_MAX" "argc < ARGV_MAX" using av(2) by (simp_all add: argv_ok_def)
    obtain av1 where av1: "(if first > 0 then do { av \<leftarrow> shift_args (argc - first) 0 first ?av; wr av (argc - first) None }
        else Some ?av) = Some av1" "argv_end (argc - first) av1"
    proof (cases "first > 0")
      case True
      obtain s where s: "shift_args (argc - first) 0 first ?av = Some s" "length s = length ?av"
          "\<forall>j < length ?av. s ! j = (if 0 \<le> j \<and> j < 0 + (argc - first) then ?av ! (j + first) else ?av ! j)"
        using shift_args_ok [OF True, of 0 "argc - first" ?av] False len by auto
      have "argv_end (argc - first) (s[argc - first := None])"
        using s(2,3) av(2) False by (auto simp: argv_end_def argv_ok_def nth_list_update less_diff_conv)
      with that [of "s[argc - first := None]"] s(1,2) len True show ?thesis by (simp add: wr_in)
    next
      case False
      with that av show ?thesis by (simp add: argv_end_def)
    qed
    obtain sh3 where "expand_args (argc - first) 0 av1 sh2 = Some sh3" "sh_ok sh3"
      using expand_args_ok [OF \<open>sh_ok sh2\<close>, of "argc - first" av1 0 "argc - first"] av1(2) by (auto simp: argv_end_def)
    with False av1 show ?thesis by (simp add: ready_def)
  qed
  have "safe ready (bindP (assignments argc 0 ?av ?sh1) (\<lambda>(first, sh2).
      if first \<ge> argc then Ret (Inl (set_status 0 sh2))
      else tryP (if first > 0 then do { av \<leftarrow> shift_args (argc - first) 0 first ?av; wr av (argc - first) None } else Some ?av)
        (\<lambda>argv1. tryP (expand_args (argc - first) 0 argv1 sh2) (\<lambda>sh3. Ret (Inr (argc - first, argv1, sh3))))))"
    using assignments_safe [OF sh1 av(2), of 0 argc]
    by (auto intro!: safe_bindI rest simp: cli_keeps_def simp del: tryP_simps)
  then show ?thesis using sh1 by (simp add: prepare_command_def p(1) av(1) ready_def)
qed

lemma safe_conj: "safe P m \<Longrightarrow> safe Q m \<Longrightarrow> safe (\<lambda>x. P x \<and> Q x) m"
  by (induction m) auto

definition fits :: "shell + nat \<times> nat option list \<times> shell \<Rightarrow> bool" where
  "fits r \<longleftrightarrow> (case r of Inl _ \<Rightarrow> True | Inr (argc, argv, sh) \<Rightarrow> number_fits argc argv sh)"

lemma process_command_safe:
  assumes "sh_ok sh" "str_row LINE_MAX line" "safe fits (prepare_command line sh)"
  shows "safe sh_ok (process_command line sh)"
  unfolding process_command_def
  by (rule safe_bindI [OF safe_conj [OF prepare_command_safe [OF assms(1,2)] assms(3)]])
    (auto simp: ready_def fits_def cli_keeps_def split: sum.splits intro: safe_mono [OF dispatch_safe])

subsection \<open>The line editor\<close>

lemma unat_of_nat_le: "unat (of_nat n :: u32) \<le> n"
  by (simp add: unat_of_nat)

lemma rubouts_safe: "safe (\<lambda>_. True) (rubouts n)"
  by (induction n) (auto simp: write_text_def c_string_def intro!: safe_thenI u_calls_safe le_SucI unat_of_nat_le)

lemma write_text_safe: "safe (\<lambda>_. True) (write_text s)"
  unfolding write_text_def by (intro safe_thenI u_calls_safe) (simp_all add: c_string_def le_SucI unat_of_nat_le)

text \<open>A line of the editor: the array and a position inside it.\<close>

definition line_ok :: "char list \<Rightarrow> nat \<Rightarrow> bool" where
  "line_ok l n \<longleftrightarrow> length l = LINE_MAX \<and> n < LINE_MAX"

lemma load_history_entry_safe:
  assumes "rest_ok sh" "line_ok line len" "i \<le> sh_history_size sh"
  shows "safe (\<lambda>(l, n). line_ok l n) (load_history_entry line len i sh)"
proof (cases "i = sh_history_size sh")
  case True
  then show ?thesis unfolding load_history_entry_def
    using assms(2) by (intro safe_thenI [OF rubouts_safe]) (simp add: line_ok_def wr_in)
next
  case False
  then have i: "i < length (sh_history sh)" using assms(1,3) by (auto simp: rest_ok_def)
  then have row: "str_row LINE_MAX (sh_history sh ! i)" using assms(1) by (auto simp: rest_ok_def list_all_length)
  obtain r where r: "strcpy line (sh_history sh ! i) = Some r" "str_row LINE_MAX r"
    using strcpy_row [OF str_rowD(2) [OF row], of line] str_rowD(3) [OF row] assms(2) by (auto simp: line_ok_def)
  show ?thesis unfolding load_history_entry_def
    using False i r strlen_ok [OF str_rowD(2) [OF r(2)]] str_rowD(1,3) [OF r(2)]
    by (intro safe_thenI [OF rubouts_safe]) (auto simp: rd_in line_ok_def intro!: safe_thenI [OF u_calls_safe(1)] order.trans [OF unat_of_nat_le])
qed

lemma read_char_safe: "safe (\<lambda>_. True) read_char"
  unfolding read_char_def by (rule safe_bindI [OF u_read_safe]) (auto simp: rd_in)

lemma sh_ok_history: "sh_ok sh \<Longrightarrow> p \<le> sh_history_size sh \<Longrightarrow> sh_ok (sh\<lparr>sh_history_pos := p\<rparr>)"
  by (simp add: sh_ok_def vars_ok_def vlist_def rest_ok_def)

lemma recall_safe:
  assumes "sh_ok sh" "line_ok line len" "p \<le> sh_history_size sh"
  shows "safe (\<lambda>(l, n, sh'). line_ok l n \<and> sh_ok sh')
    (bindP (load_history_entry line len p (sh\<lparr>sh_history_pos := p\<rparr>)) (\<lambda>(l, n). Ret (l, n, sh\<lparr>sh_history_pos := p\<rparr>)))"
  using sh_ok_history [OF assms(1,3)] assms
  by (intro safe_bindI [OF load_history_entry_safe]) (auto simp: sh_okD)

lemma handle_escape_sequence_safe:
  assumes "sh_ok sh" "line_ok line len"
  shows "safe (\<lambda>(l, n, sh'). line_ok l n \<and> sh_ok sh') (handle_escape_sequence line len sh)"
proof -
  have size: "sh_history_pos sh \<le> sh_history_size sh" using sh_okD(2) [OF assms(1)] by (simp add: rest_ok_def)
  have up: "safe (\<lambda>(l, n, sh'). line_ok l n \<and> sh_ok sh')
      (bindP (load_history_entry line len (sh_history_pos sh - 1) (sh\<lparr>sh_history_pos := sh_history_pos sh - 1\<rparr>))
        (\<lambda>(l, n). Ret (l, n, sh\<lparr>sh_history_pos := sh_history_pos sh - 1\<rparr>)))"
    using size by (intro recall_safe [OF assms]) simp
  have down: "safe (\<lambda>(l, n, sh'). line_ok l n \<and> sh_ok sh')
      (bindP (load_history_entry line len (sh_history_pos sh + 1) (sh\<lparr>sh_history_pos := sh_history_pos sh + 1\<rparr>))
        (\<lambda>(l, n). Ret (l, n, sh\<lparr>sh_history_pos := sh_history_pos sh + 1\<rparr>)))"
    if "sh_history_pos sh < sh_history_size sh"
    using that by (intro recall_safe [OF assms]) simp
  show ?thesis unfolding handle_escape_sequence_def
    using assms up down
    by (auto simp: Let_def intro!: safe_thenI [OF read_char_safe] simp del: One_nat_def add_Suc_right)
qed

subsection \<open>The main loop\<close>

definition cli_ok :: "cli \<Rightarrow> bool" where
  "cli_ok cl \<longleftrightarrow> line_ok (cl_line cl) (cl_len cl) \<and> sh_ok (cl_shell cl)
     \<and> (cl_state cl = STATE_PARSE \<longrightarrow> cl_line cl ! cl_len cl = NUL)"

text \<open>The numbers of the line about to be run fit, whatever the kernel answers on the way.\<close>

definition numbers_fit :: "cli \<Rightarrow> bool" where
  "numbers_fit cl \<longleftrightarrow>
     (case history_add (cl_line cl) (cl_shell cl) of
        None \<Rightarrow> True
      | Some sh \<Rightarrow> safe fits (prepare_command (cl_line cl) sh))"

lemma read_state_safe:
  assumes "cli_ok cl" "cl_state cl = STATE_READ"
  shows "safe cli_ok (read_state cl)"
proof -
  have l: "line_ok (cl_line cl) (cl_len cl)" "sh_ok (cl_shell cl)" using assms(1) by (simp_all add: cli_ok_def)
  then have len: "cl_len cl < length (cl_line cl)" by (simp add: line_ok_def)
  have esc: "safe cli_ok (bindP (handle_escape_sequence (cl_line cl) (cl_len cl) (cl_shell cl)) (\<lambda>(l, len, sh).
      Ret (cl\<lparr>cl_line := l, cl_len := len, cl_shell := sh\<rparr>)))"
    using assms(2) by (intro safe_bindI [OF handle_escape_sequence_safe [OF l(2,1)]]) (auto simp: cli_ok_def)
  have enter: "cli_ok (cl\<lparr>cl_line := (cl_line cl)[cl_len cl := NUL], cl_state := STATE_PARSE\<rparr>)"
    using l len by (simp add: cli_ok_def line_ok_def)
  have bsp: "cli_ok (cl\<lparr>cl_len := cl_len cl - 1\<rparr>)"
    using l assms(2) by (auto simp: cli_ok_def line_ok_def)
  have put: "cli_ok (cl\<lparr>cl_line := (cl_line cl)[cl_len cl := c], cl_len := cl_len cl + 1\<rparr>)" if "cl_len cl < LINE_MAX - 1" for c
    using l assms(2) that by (auto simp: cli_ok_def line_ok_def)
  show ?thesis unfolding read_state_def
    using assms(1) esc enter bsp put len
    by (auto simp: wr_in intro!: safe_thenI [OF read_char_safe] safe_thenI [OF write_text_safe] safe_thenI [OF u_calls_safe(1)]
        simp del: One_nat_def add_Suc_right)
qed

lemma history_add_safe:
  assumes "sh_ok sh" "str_row LINE_MAX line"
  shows "\<exists>sh1. history_add line sh = Some sh1 \<and> sh_ok sh1"
proof -
  obtain h n p where "history_add line sh = Some (sh\<lparr>sh_history := h, sh_history_size := n, sh_history_pos := p\<rparr>)"
      "rest_ok (sh\<lparr>sh_history := h, sh_history_size := n, sh_history_pos := p\<rparr>)"
    using history_add_ok [OF sh_okD(2) [OF assms(1)] assms(2)] by blast
  with sh_okD(1) [OF assms(1)] show ?thesis by (auto simp: sh_ok_def vars_ok_def vlist_def)
qed

lemma sh_step_keeps:
  assumes "cli_ok cl" "cl_state cl = STATE_PARSE \<Longrightarrow> numbers_fit cl"
  shows "safe cli_ok (sh_step cl)"
proof (cases "cl_state cl")
  case STATE_PROMPT
  have "safe (\<lambda>_. True) (printf ''> '' [])" by (intro printf_plain) (simp_all add: c_string_def)
  moreover have "0 < LINE_MAX" by (simp add: LINE_MAX_def)
  ultimately show ?thesis using assms(1) STATE_PROMPT
    by (auto simp: sh_step_def cli_ok_def line_ok_def wr_in sh_ok_history intro!: safe_thenI)
next
  case STATE_READ
  then show ?thesis using read_state_safe [OF assms(1)] by (simp add: sh_step_def)
next
  case STATE_PARSE
  have l: "line_ok (cl_line cl) (cl_len cl)" "sh_ok (cl_shell cl)" "cl_line cl ! cl_len cl = NUL"
    using assms(1) STATE_PARSE by (simp_all add: cli_ok_def)
  then have line: "str_row LINE_MAX (cl_line cl)"
    by (metis line_ok_def nth_mem str_row_def terminated_def)
  obtain sh where sh: "history_add (cl_line cl) (cl_shell cl) = Some sh" "sh_ok sh"
    using history_add_safe [OF l(2) line] by blast
  have fit: "safe fits (prepare_command (cl_line cl) sh)"
    using assms(2) [OF STATE_PARSE] by (simp add: numbers_fit_def sh(1))
  have "cli_ok (cl\<lparr>cl_shell := sh1, cl_state := STATE_PROMPT\<rparr>)" if "sh_ok sh1" for sh1
    using l that by (simp add: cli_ok_def)
  then have "safe cli_ok (bindP (process_command (cl_line cl) sh) (\<lambda>sh1.
      Ret (cl\<lparr>cl_shell := sh1, cl_state := STATE_PROMPT\<rparr>)))"
    by (intro safe_bindI [OF process_command_safe [OF sh(2) line fit]]) simp
  with assms(1) STATE_PARSE sh(1) show ?thesis by (auto simp: sh_step_def cli_ok_def)
qed

lemma load_env_loop_safe:
  "sh_ok sh \<Longrightarrow> list_all terminated es \<Longrightarrow> safe sh_ok (load_env_loop es sh)"
proof (induction es arbitrary: sh)
  case (Cons e es)
  have e: "terminated e" using Cons.prems by simp
  have go: "safe sh_ok (load_env_loop es sh1)" if "sh_ok sh1" for sh1 using Cons that by simp
  consider "strchr e (CHR ''='') = Some None"
    | x y where "cstr e = x @ CHR ''='' # y" "strchr e (CHR ''='') = Some (Some (drop (length x) e))"
    using strchr_ok [OF e, of "CHR ''=''"] by auto
  then show ?case
  proof cases
    case 1
    with go [OF Cons.prems(1)] Cons.prems(1) show ?thesis by simp
  next
    case (2 x y)
    obtain nm v where nv: "split_at_eq e (drop (length x) e) = Some (nm, v)" "str_row MAX_VAR_NAME nm" "str_row MAX_VAR_VALUE v"
      using split_at_eq_ok [OF e 2(1)] by blast
    have "safe sh_ok (bindP (set_variable nm v 1 sh) (\<lambda>sh1. load_env_loop es sh1))"
      using str_rowD [OF nv(2)] str_rowD [OF nv(3)]
      by (intro safe_bindI [OF set_variable_safe [OF Cons.prems(1)]]) (auto simp: cli_keeps_def go)
    with go [OF Cons.prems(1)] Cons.prems(1) 2(2) nv(1) show ?thesis by simp
  qed
qed simp

lemma set_default_safe:
  assumes "sh_ok sh" "length name < MAX_VAR_NAME" "no_nul name"
  shows "safe sh_ok (set_default name val sh)"
proof -
  obtain r where "find_variable sh (c_string name) = Some r"
    using find_variable_ok [OF sh_okD(1) [OF assms(1)], of "c_string name"] by auto
  then show ?thesis using assms
    by (auto simp: set_default_def cli_keeps_def intro: safe_mono [OF set_variable_safe [OF assms(1)]])
qed

lemma sh_main_keeps:
  assumes "\<And>es. environ = Some es \<Longrightarrow> list_all terminated es"
  shows "safe (\<lambda>r. \<forall>cl. r = Some cl \<longrightarrow> cli_ok cl) (sh_main argc environ)"
proof -
  have usage: "safe (\<lambda>_. True) (print_line ''shell: no arguments expected'' [])"
    by (intro print_line_safe plain_line) simp_all
  have start: "sh_ok (bss_shell\<lparr>sh_pid := pid\<rparr>)" if "pid_ok pid" for pid
    using bss_shell_ok(1,2) that by (simp add: sh_ok_def vars_ok_def vlist_def rest_ok_def)
  have env: "safe sh_ok (load_environment environ sh)" if "sh_ok sh" for sh
    using load_env_loop_safe [OF that] assms that by (cases environ) (auto simp: load_environment_def)
  have dflt: "safe sh_ok (set_default name val sh)" if "sh_ok sh" "name \<in> {''PATH'', ''HOME'', ''SHELL''}" for sh name val
    using set_default_safe [OF that(1), of name val] that(2) by (auto simp: MAX_VAR_NAME_def)
  have cli0: "cli_ok \<lparr>cl_line = replicate LINE_MAX NUL, cl_len = 0, cl_state = STATE_PROMPT, cl_shell = sh\<rparr>" if "sh_ok sh" for sh
    using that by (simp add: cli_ok_def line_ok_def LINE_MAX_def)
  show ?thesis unfolding sh_main_def
    by (auto intro!: safe_thenI [OF usage] safe_bindI [OF pid_range(2)] safe_bindI [OF env [OF start]]
        safe_bindI [OF dflt] cli0)
qed

subsection \<open>Properties\<close>

text \<open>
  C18: the shell never leaves its arrays and never passes a bad argument, whatever the kernel answers
  within its contract: reading a line, recalling history, parsing, assigning, expanding, running
  builtins and commands. What \<open>main\<close> sets up satisfies the invariant of the command line (every row
  terminated, the variables distinct, the history and the numbers in range), and every turn of the loop
  keeps it; the one condition is that the numbers given to \<open>exit\<close> and \<open>repeat\<close> fit in an \<open>int\<close>.
\<close>

theorem shell_stays_well_formed:
  assumes "case environ of None \<Rightarrow> True | Some es \<Rightarrow> list_all terminated es"
    and "cli_ok cl" "cl_state cl = STATE_PARSE \<longrightarrow> numbers_fit cl"
  shows "safe (\<lambda>r. case r of None \<Rightarrow> True | Some cl0 \<Rightarrow> cli_ok cl0) (sh_main argc environ) \<and> safe cli_ok (sh_step cl)"
proof
  have "safe (\<lambda>r. \<forall>cl. r = Some cl \<longrightarrow> cli_ok cl) (sh_main argc environ)"
    using assms(1) by (intro sh_main_keeps) simp
  then show "safe (\<lambda>r. case r of None \<Rightarrow> True | Some cl0 \<Rightarrow> cli_ok cl0) (sh_main argc environ)"
    by (rule safe_mono) (simp split: option.splits)
  show "safe cli_ok (sh_step cl)" using assms(2,3) by (intro sh_step_keeps) simp_all
qed

text \<open>The line \<open>ls\<close> in a fresh shell.\<close>

definition ls_line :: "char list" where
  "ls_line = ''ls'' @ NUL # replicate 125 NUL"

lemma ls_line_ok: "str_row LINE_MAX ls_line" "cstr ls_line = ''ls''"
  by (simp_all add: ls_line_def str_row_def LINE_MAX_def)

lemma ls_parsed:
  assumes "sh_ok sh"
  shows "\<exists>argv row. parse_arguments ls_line (replicate ARGV_MAX None) 15 sh =
      Some (1, argv, sh\<lparr>sh_arg_buf := (sh_arg_buf sh)[0 := row]\<rparr>)
    \<and> argv_ok 1 argv \<and> str_row LINE_MAX row \<and> cstr row = ''ls''"
proof -
  note rows = sh_okD(3) [OF assms]
  obtain a b c t where r0: "sh_arg_buf sh ! 0 = a # b # c # t" "length t = 125"
  proof -
    have "length (sh_arg_buf sh ! 0) = 128" using rows_okD(1) [OF rows, of 0] by (simp add: str_row_def LINE_MAX_def)
    then show ?thesis using that by (auto simp: length_Suc_conv numeral_eq_Suc)
  qed
  let ?row = "CHR ''l'' # CHR ''s'' # NUL # t"
  have rd0: "rd (sh_arg_buf sh) 0 = Some (a # b # c # t)" using rows_okD(2) [OF rows] r0 by (simp add: rd_in)
  have "parse_loop 15 ls_line 0 (replicate ARGV_MAX None) (sh_arg_buf sh) =
      Some (1, (replicate ARGV_MAX None)[0 := Some 0], (sh_arg_buf sh)[0 := ?row])"
    unfolding ls_line_def
    by (simp add: parse_loop.simps [of _ "CHR ''l'' # _"] parse_loop.simps [of _ "NUL # _"] rd0 rd_def [of "_ # _"] wr_def ARGV_MAX_def)
  moreover have "argv_ok 1 ((replicate ARGV_MAX None)[0 := Some 0])" by (simp add: argv_ok_def ARGV_MAX_def)
  moreover have "str_row LINE_MAX ?row" "cstr ?row = ''ls''" using r0(2) by (simp_all add: str_row_def LINE_MAX_def)
  ultimately show ?thesis by (auto simp: parse_arguments_def)
qed

lemma ls_fits:
  assumes "sh_ok sh"
  shows "safe fits (prepare_command ls_line sh)"
proof -
  obtain argv row where p: "parse_arguments ls_line (replicate ARGV_MAX None) 15 sh =
      Some (1, argv, sh\<lparr>sh_arg_buf := (sh_arg_buf sh)[0 := row]\<rparr>)"
      "argv_ok 1 argv" "str_row LINE_MAX row" "cstr row = ''ls''"
    using ls_parsed [OF assms] by blast
  let ?sh = "sh\<lparr>sh_arg_buf := (sh_arg_buf sh)[0 := row]\<rparr>" and ?av = "argv[1 := None]"
  have av: "wr argv 1 None = Some ?av" "argv_ok 1 ?av" using p(2) by (auto simp: argv_ok_def wr_in ARGV_MAX_def)
  have safe0: "safe ready (prepare_command ls_line sh)" by (rule prepare_command_safe [OF assms ls_line_ok(1)])
  have le: "safe (\<lambda>r. case r of Inl _ \<Rightarrow> True | Inr (argc, argv, sh) \<Rightarrow> argc \<le> 1) (prepare_command ls_line sh)"
    if "safe ready (prepare_command ls_line sh)"
    using that
    by (simp add: prepare_command_def p(1) av(1) [simplified] safe_bindP del: assignments.simps)
      (erule safe_mono, auto simp: safe_tryP split: if_splits)
  show ?thesis
    by (rule safe_mono [OF le [OF safe0]]) (auto simp: fits_def number_fits_def split: sum.splits option.splits)
qed

theorem shell_stays_well_formed_witness:
  "safe (\<lambda>r. case r of None \<Rightarrow> True | Some cl0 \<Rightarrow> cli_ok cl0) (sh_main 1 None)
    \<and> safe cli_ok (sh_step \<lparr>cl_line = ls_line, cl_len = 2, cl_state = STATE_PARSE, cl_shell = bss_shell\<rparr>)"
proof (rule shell_stays_well_formed)
  let ?cl = "\<lparr>cl_line = ls_line, cl_len = 2, cl_state = STATE_PARSE, cl_shell = bss_shell\<rparr>"
  have bss: "sh_ok bss_shell" using bss_shell_ok by (simp add: sh_ok_def)
  show "cli_ok ?cl" using ls_line_ok(1) bss by (simp add: cli_ok_def line_ok_def str_row_def LINE_MAX_def ls_line_def)
  obtain sh where "history_add ls_line bss_shell = Some sh" "sh_ok sh"
    using history_add_safe [OF bss ls_line_ok(1)] by blast
  then show "cl_state ?cl = STATE_PARSE \<longrightarrow> numbers_fit ?cl" by (simp add: numbers_fit_def ls_fits)
qed simp

end
