(* ===== verification/Programs.thy ===== *)
theory Programs
  imports Libc
begin

section \<open>bin/: the other user programs\<close>

text \<open>
  Each program is its \<open>main\<close>: \<open>argv\<close> is the list of its argument strings and the result the exit
  status. After \<open>fork\<close> a tree goes on with both answers, 0 in the child; a child that reaches
  \<open>exit\<close> goes on only if the kernel lets that call return. Loops that wait for the kernel (reading a
  file, a directory or the next dead child, \<open>swapper\<close>) take a number of rounds and end in \<open>Hang\<close> when
  they are used up; the other loops run to their end.

  The assembly \<open>hlt\<close> of \<open>swapper\<close> and the busy loop \<open>delay\<close> of \<open>loop\<close> have no effect here.
\<close>

text \<open>\<open>strcmp(argv[i], s) == 0\<close>\<close>

definition arg_is :: "char list list \<Rightarrow> nat \<Rightarrow> string \<Rightarrow> bool option" where
  "arg_is argv i s = do { a \<leftarrow> rd argv i; r \<leftarrow> strcmp a (c_string s); Some (r = 0) }"

text \<open>\<open>say fmt args\<close> prints a line; a help text is printed line by line.\<close>

primrec say_all :: "(string \<times> farg list) list \<Rightarrow> unit prog" where
  "say_all [] = Ret ()"
| "say_all (l # ls) = bindP (print_line (fst l) (snd l)) (\<lambda>_. say_all ls)"

definition say_then :: "string \<Rightarrow> farg list \<Rightarrow> 'a \<Rightarrow> 'a prog" where
  "say_then fmt args r = bindP (print_line fmt args) (\<lambda>_. Ret r)"

definition try_help :: "char list \<Rightarrow> int prog" where
  "try_help prog = say_then (''Try '' @ quoted ''%s --help'' @ '' for more information.'') [Str (Some prog)] 1"

subsection \<open>echo, pwd, printenv, clear, tty, swapper\<close>

primrec echo_args :: "nat \<Rightarrow> nat \<Rightarrow> char list list \<Rightarrow> unit prog" where
  "echo_args 0 i argv = Ret ()"
| "echo_args (Suc n) i argv =
     bindP (if i > 1 then printf '' '' [] else Ret 0) (\<lambda>_.
     tryP (rd argv i) (\<lambda>a.
     bindP (printf ''%s'' [Str (Some a)]) (\<lambda>_. echo_args n (Suc i) argv)))"

definition echo_main :: "char list list \<Rightarrow> int prog" where
  "echo_main argv =
     tryP (if length argv > 1 then arg_is argv 1 ''--help'' else Some False) (\<lambda>help.
       if help
       then bindP (print_lines [''Usage: echo [STRING]...'', ''Echo the STRING(s) to standard output.'']) (\<lambda>_. Ret 0)
       else bindP (echo_args (length argv - 1) 1 argv) (\<lambda>_. say_then '''' [] 0))"

definition pwd_main :: "int prog" where
  "pwd_main =
     bindP (u_getcwd (replicate 4096 NUL) 4096) (\<lambda>(cwd, buf).
       if \<not> cwd then say_then ''pwd: failed to get current directory'' [] 1
       else say_then ''%s'' [Str (Some buf)] 0)"

definition printenv_main :: "char list list option \<Rightarrow> int prog" where
  "printenv_main environ =
     bindP (print_line ''bonkers'' []) (\<lambda>_.
       case environ of
         None \<Rightarrow> say_then ''environ is NULL'' [] 1
       | Some es \<Rightarrow> bindP (say_all (map (\<lambda>e. (''%s'', [Str (Some e)])) es)) (\<lambda>_. Ret 0))"

definition clear_seq :: string where
  "clear_seq = CHR 0x1B # ''[H'' @ CHR 0x1B # ''[2J'' @ CHR 0x1B # ''[3J''"

definition clear_main :: "int prog" where
  "clear_main =
     tryP (strlen (c_string clear_seq)) (\<lambda>n.
       bindP (u_write FD_STDOUT (c_string clear_seq) (of_nat n)) (\<lambda>_. Ret 0))"

definition tty_main :: "int prog" where "tty_main = Ret 0"

primrec swapper_main :: "nat \<Rightarrow> int prog" where
  "swapper_main 0 = Hang"
| "swapper_main (Suc n) = bindP u_sched_yield (\<lambda>_. swapper_main n)"

subsection \<open>cat\<close>

primrec cat_loop :: "nat \<Rightarrow> int \<Rightarrow> char list \<Rightarrow> unit prog" where
  "cat_loop 0 fd buf = Hang"
| "cat_loop (Suc n) fd buf =
     bindP (u_read fd buf 256) (\<lambda>(r, b).
       if r > 0 then bindP (u_write FD_STDOUT b (word_of_int r)) (\<lambda>_. cat_loop n fd b) else Ret ())"

definition cat_help :: "char list \<Rightarrow> unit prog" where
  "cat_help prog = say_all [
     (''Usage: %s [FILE]'', [Str (Some prog)]),
     ('''', []),
     (''Concatenate FILE to standard output.'', []),
     (''If no file is specified, reads from standard input.'', []),
     ('''', []),
     (''Options:'', []),
     (''  --help    Show this help message'', []),
     ('''', []),
     (''Examples:'', []),
     (''  %s file.txt'', [Str (Some prog)]),
     (''  %s < file.txt'', [Str (Some prog)])]"

definition cat_main :: "nat \<Rightarrow> char list list \<Rightarrow> int prog" where
  "cat_main fuel argv =
     tryP (rd argv 0) (\<lambda>prog.
     tryP (if length argv = 2 then arg_is argv 1 ''--help'' else Some False) (\<lambda>help.
       if help then bindP (cat_help prog) (\<lambda>_. Ret 0)
       else if length argv > 2
       then bindP (print_line ''cat: too many arguments'' []) (\<lambda>_. try_help prog)
       else
         bindP (if length argv = 1 then Ret (FD_STDIN, True)
                else tryP (rd argv 1) (\<lambda>file.
                       bindP (u_open file O_RDONLY 0) (\<lambda>fd.
                         if fd < 0
                         then say_then (''cat: cannot open '' @ quoted ''%s'') [Str (Some file)] (fd, False)
                         else Ret (fd, True)))) (\<lambda>(fd, ok).
           if \<not> ok then Ret 1
           else bindP (cat_loop fuel fd (replicate 256 NUL)) (\<lambda>_.
                bindP (if fd \<noteq> FD_STDIN then u_close fd else Ret 0) (\<lambda>_. Ret 0)))))"

subsection \<open>uptime, date, time\<close>

definition uptime_help :: "string list" where
  "uptime_help = [
     ''Usage: uptime [OPTION]'',
     ''Show how long the system has been running.'',
     '''',
     ''Options:'',
     ''  -h, --help     display this help and exit'']"

definition zero_time :: timespec where "zero_time = \<lparr>tv_sec = 0, tv_nsec = 0\<rparr>"

definition uptime_main :: "char list list \<Rightarrow> int prog" where
  "uptime_main argv =
     (if length argv > 1
      then tryP (do { h \<leftarrow> arg_is argv 1 ''-h''; if h then Some True else arg_is argv 1 ''--help'' }) (\<lambda>help.
             if help then bindP (print_lines uptime_help) (\<lambda>_. Ret 0)
             else tryP (rd argv 1) (\<lambda>a.
                    bindP (print_line (''uptime: invalid option '' @ quoted ''%s'') [Str (Some a)]) (\<lambda>_.
                      say_then (''Try '' @ quoted ''uptime --help'' @ '' for more information.'') [] 1)))
      else
        bindP (u_clock_gettime 1 zero_time) (\<lambda>(r, ts).
          if r \<noteq> 0 then say_then ''uptime: clock_gettime failed'' [] 1
          else
            let total = (word_of_int (tv_sec ts) :: u32);
                days = total div 86400;
                total1 = total mod 86400;
                hours = total1 div 3600;
                total2 = total1 mod 3600;
                mins = total2 div 60;
                secs = total2 mod 60
            in if days \<noteq> 0
               then say_then ''up %ud %02u:%02u:%02u'' [W32 days, W32 hours, W32 mins, W32 secs] 0
               else say_then ''up %02u:%02u:%02u'' [W32 hours, W32 mins, W32 secs] 0))"

definition WEEKDAY :: "string list" where
  "WEEKDAY = [''Sun'', ''Mon'', ''Tue'', ''Wed'', ''Thu'', ''Fri'', ''Sat'']"

definition MONTH :: "string list" where
  "MONTH = [''Jan'', ''Feb'', ''Mar'', ''Apr'', ''May'', ''Jun'', ''Jul'', ''Aug'', ''Sep'', ''Oct'', ''Nov'', ''Dec'']"

definition date_main :: "char list list \<Rightarrow> int prog" where
  "date_main argv =
     (if length argv > 1
      then bindP (print_line ''usage: date [--help]'' []) (\<lambda>_.
             tryP (arg_is argv 1 ''--help'') (\<lambda>help. Ret (if help then 0 else 1)))
      else
        bindP (u_clock_gettime 0 zero_time) (\<lambda>(r, ts).
          if r \<noteq> 0 then say_then ''date: clock_gettime failed'' [] 1
          else
            tryP (do { u \<leftarrow> epoch_to_utc (word_of_int (tv_sec ts));
                       wd \<leftarrow> rd WEEKDAY (nat (u_wday u));
                       mo \<leftarrow> rd MONTH (u_mon u);
                       Some (u, wd, mo) }) (\<lambda>(u, wd, mo).
              say_then ''%s %s %02d %02d:%02d:%02d UTC %d''
                [Str (Some (c_string wd)), Str (Some (c_string mo)), W32 (word_of_int (u_mday u)),
                 W32 (word_of_int (u_hour u)), W32 (word_of_int (u_min u)), W32 (word_of_int (u_sec u)),
                 W32 (word_of_int (u_year u))] 0)))"

definition ts_to_ns :: "timespec \<Rightarrow> u64" where
  "ts_to_ns ts = word_of_int (tv_sec ts) * 1000000000 + word_of_int (tv_nsec ts)"

definition real_parts :: "u64 \<Rightarrow> u64 \<times> u64" where
  "real_parts real_ns = (let ms = udivdi3 real_ns 1000000 in (udivdi3 ms 1000, umoddi3 ms 1000))"

definition print_default :: "u64 \<Rightarrow> unit prog" where
  "print_default real_ns =
     (case real_parts real_ns of (sec, rem_ms) \<Rightarrow>
        say_all [(''real'' @ CHR 0x09 # ''%llu.%03llus'', [W64 sec, W64 rem_ms]),
                 (''user'' @ CHR 0x09 # ''?'', []), (''sys '' @ CHR 0x09 # ''?'', [])])"

definition print_posix :: "u64 \<Rightarrow> unit prog" where
  "print_posix real_ns =
     (case real_parts real_ns of (sec, rem_ms) \<Rightarrow>
        say_all [(''real %llu.%03llu'', [W64 sec, W64 rem_ms]), (''user ?'', []), (''sys  ?'', [])])"

definition time_usage :: "int prog" where
  "time_usage = say_then ''usage: time [-p] [--] command [args...]'' [] 2"

datatype time_args = TimeRun bool nat | TimeBad "char list"

primrec time_options :: "nat \<Rightarrow> nat \<Rightarrow> bool \<Rightarrow> char list list \<Rightarrow> time_args option" where
  "time_options 0 i posix_p argv = Some (TimeRun posix_p i)"
| "time_options (Suc n) i posix_p argv = do {
     a \<leftarrow> rd argv i;
     e \<leftarrow> strcmp a (c_string ''--'');
     if e = 0 then Some (TimeRun posix_p (i + 1))
     else do {
       c \<leftarrow> rd a 0;
       if c \<noteq> CHR ''-'' then Some (TimeRun posix_p i)
       else do {
         p \<leftarrow> strcmp a (c_string ''-p'');
         if p = 0 then time_options n (i + 1) True argv else Some (TimeBad a) } } }"

definition time_run :: "bool \<Rightarrow> char list list \<Rightarrow> char list list \<Rightarrow> int prog" where
  "time_run posix_p cmd_argv envp =
     tryP (rd cmd_argv 0) (\<lambda>fullpath.
     bindP (u_clock_gettime 1 zero_time) (\<lambda>(r, start).
       if r < 0 then say_then ''time: clock_gettime failed'' [] 1
       else bindP u_fork (\<lambda>pid.
         if pid < 0 then say_then ''time: fork failed'' [] 1
         else bindP (if pid = 0
                     then bindP (u_execve fullpath cmd_argv envp) (\<lambda>_.
                          bindP (print_line (''time: execve failed for '' @ quoted ''%s'') [Str (Some fullpath)]) (\<lambda>_. u_exit 1))
                     else Ret 0) (\<lambda>_.
              bindP (u_waitpid pid 0 0) (\<lambda>(res, status).
                if res < 0 then say_then ''time: waitpid failed for pid %d'' [W32 (word_of_int pid)] 1
                else bindP (u_clock_gettime 1 zero_time) (\<lambda>(r2, end1).
                  if r2 < 0 then say_then ''time: clock_gettime failed'' [] (exit_code_of status)
                  else
                    let real_ns = ts_to_ns end1 - ts_to_ns start
                    in bindP (if posix_p then print_posix real_ns else print_default real_ns)
                         (\<lambda>_. Ret (exit_code_of status))))))))"

definition time_main :: "char list list \<Rightarrow> char list list \<Rightarrow> int prog" where
  "time_main argv envp =
     tryP (time_options (length argv - 1) 1 False argv) (\<lambda>t.
       case t of
         TimeBad a \<Rightarrow> bindP (print_line ''time: unknown option: %s'' [Str (Some a)]) (\<lambda>_. time_usage)
       | TimeRun posix_p i \<Rightarrow>
           if i \<ge> length argv then time_usage
           else time_run posix_p (drop i argv) envp)"

end
