(* ===== verification/Tools.thy ===== *)
theory Tools
  imports Programs
begin

section \<open>bin/: kill, loop, spawn_chain\<close>

text \<open>
  Programs that read numbers from their arguments and signal or start other processes. The help
  texts are printed line by line, as in the source; \<open>NULL\<close> ends the table of signals.
\<close>

subsection \<open>kill\<close>

fun all_digits :: "char list \<Rightarrow> bool option" where
  "all_digits [] = None"
| "all_digits (c # s) = (if c = NUL then Some True else if is_digit c then all_digits s else Some False)"

definition signal_names :: "(string \<times> int) list" where
  "signal_names = [(''HUP'', 1), (''INT'', 2), (''QUIT'', 3), (''KILL'', 9), (''TERM'', 15), (''STOP'', 19), (''CONT'', 18)]"

fun find_signal :: "(string \<times> int) list \<Rightarrow> char list \<Rightarrow> int option" where
  "find_signal [] s = Some (-1)"
| "find_signal ((n, sig) # ns) s = do { r \<leftarrow> strcmp s (c_string n); if r = 0 then Some sig else find_signal ns s }"

text \<open>\<open>s[0] == 'S' && s[1] == 'I' && s[2] == 'G'\<close>, left to right\<close>

fun starts_with :: "char list \<Rightarrow> char list \<Rightarrow> bool option" where
  "starts_with [] s = Some True"
| "starts_with (x # xs) [] = None"
| "starts_with (x # xs) (c # s) = (if c = x then starts_with xs s else Some False)"

definition parse_signal :: "char list \<Rightarrow> int option" where
  "parse_signal s = do {
     num \<leftarrow> all_digits s;
     if num then do { sig \<leftarrow> atoi s; Some (if sig > 0 then sig else -1) }
     else do {
       p \<leftarrow> starts_with ''SIG'' s;
       find_signal signal_names (if p then drop 3 s else s) } }"

definition kill_usage :: "char list \<Rightarrow> unit prog" where
  "kill_usage prog = say_all [
     (''Usage:'', []),
     (''  %s [-s signal] pid ...'', [Str (Some prog)]),
     (''  %s -signal pid ...'', [Str (Some prog)]),
     (''  %s --help'', [Str (Some prog)]),
     ('''', []),
     (''Send signals to processes.'' @ [CHR 0x0A], []),
     (''Options:'', []),
     (''  -s <signal>     Specify signal by name or number (e.g. -s KILL)'', []),
     (''  -<signal>       Shorthand form (e.g. -9 or -TERM)'', []),
     (''  --help          Show this help message'', []),
     ('''', []),
     (''Examples:'', []),
     (''  %s 1234             # send SIGTERM to pid 1234'', [Str (Some prog)]),
     (''  %s -9 1234          # send SIGKILL to pid 1234'', [Str (Some prog)]),
     (''  %s -s STOP 5678     # send SIGSTOP to pid 5678'', [Str (Some prog)])]"

primrec kill_pids :: "nat \<Rightarrow> nat \<Rightarrow> int \<Rightarrow> int \<Rightarrow> char list list \<Rightarrow> int prog" where
  "kill_pids 0 i sig exit_status argv = Ret exit_status"
| "kill_pids (Suc n) i sig exit_status argv =
     tryP (do { a \<leftarrow> rd argv i; pid \<leftarrow> atoi a; Some (a, pid) }) (\<lambda>(a, pid).
       if pid \<le> 0
       then bindP (print_line (''kill: invalid pid '' @ quoted ''%s'') [Str (Some a)]) (\<lambda>_. kill_pids n (i + 1) sig 1 argv)
       else bindP (u_kill pid sig) (\<lambda>res.
         if res < 0
         then bindP (print_line ''kill: failed to send signal %d to pid %d'' [W32 (word_of_int sig), W32 (word_of_int pid)])
                (\<lambda>_. kill_pids n (i + 1) sig 1 argv)
         else kill_pids n (i + 1) sig exit_status argv))"

text \<open>The signal and the index of the first process number, or the exit status.\<close>

definition kill_signal :: "char list \<Rightarrow> char list list \<Rightarrow> (int + int \<times> nat) prog" where
  "kill_signal prog argv =
     (let bad = (\<lambda>s. say_then (''kill: invalid signal '' @ quoted ''%s'') [Str (Some s)] (Inl 1))
      in tryP (do { a \<leftarrow> rd argv 1; s \<leftarrow> arg_is argv 1 ''-s''; c0 \<leftarrow> rd a 0; Some (a, s, c0) }) (\<lambda>(a, s, c0).
        if s then
          (if 2 \<ge> length argv
           then bindP (print_line ''kill: missing signal after -s'' []) (\<lambda>_.
                bindP (kill_usage prog) (\<lambda>_. Ret (Inl 1)))
           else tryP (do { b \<leftarrow> rd argv 2; sig \<leftarrow> parse_signal b; Some (b, sig) }) (\<lambda>(b, sig).
                if sig \<le> 0 then bad b else Ret (Inr (sig, 3))))
        else
          tryP (if c0 = CHR ''-'' then map_option (\<lambda>c1. c1 \<noteq> NUL) (rd a 1) else Some False) (\<lambda>dash.
            if dash
            then tryP (parse_signal (drop 1 a)) (\<lambda>sig. if sig \<le> 0 then bad (drop 1 a) else Ret (Inr (sig, 2)))
            else Ret (Inr (15, 1)))))"

definition kill_main :: "char list list \<Rightarrow> int prog" where
  "kill_main argv =
     tryP (rd argv 0) (\<lambda>prog.
       if length argv < 2 then bindP (kill_usage prog) (\<lambda>_. Ret 1)
       else tryP (arg_is argv 1 ''--help'') (\<lambda>help.
         if help then bindP (kill_usage prog) (\<lambda>_. Ret 0)
         else bindP (kill_signal prog argv) (\<lambda>r.
           case r of
             Inl status \<Rightarrow> Ret status
           | Inr (sig, i) \<Rightarrow>
               if i \<ge> length argv
               then bindP (print_line ''kill: missing pid'' []) (\<lambda>_. bindP (kill_usage prog) (\<lambda>_. Ret 1))
               else kill_pids (length argv - i) i sig 0 argv)))"

subsection \<open>loop\<close>

definition MAX_INDENT :: nat where "MAX_INDENT = 80"

definition loop_usage :: "unit prog" where
  "loop_usage = say_all [
     (''Usage: loop --iterations <count> --indent <spaces> [--print <0|1>]'', []),
     (''       or:   loop <iterations> <indent> [print]'', []),
     ('''', []),
     (''Options:'', []),
     (''  --iterations <count>   Number of loop iterations (> 0)'', []),
     (''  --indent <spaces>      Number of spaces to indent output (0'' @ [CHR 0xE2, CHR 0x80, CHR 0x93] @ ''%d)'',
        [W32 (of_nat MAX_INDENT)]),
     (''  --print <0|1>          Enable (1) or disable (0) printing. Default: 1'', []),
     (''  --help                 Show this help message'', [])]"

text \<open>\<open>argv[i]\<close> is the option and a value follows.\<close>

definition opt_value :: "char list list \<Rightarrow> nat \<Rightarrow> string \<Rightarrow> int option option" where
  "opt_value argv i name = do {
     hit \<leftarrow> arg_is argv i name;
     if hit \<and> i + 1 < length argv then do { a \<leftarrow> rd argv (i + 1); v \<leftarrow> atoi a; Some (Some v) } else Some None }"

function loop_options :: "nat \<Rightarrow> char list list \<Rightarrow> int \<times> int \<times> bool \<Rightarrow> (int \<times> int \<times> bool) option" where
  "loop_options i argv (iters, indent, pr) =
     (if i < length argv
      then
        (case do {
           a \<leftarrow> opt_value argv i ''--iterations'';
           case a of
             Some v \<Rightarrow> Some (i + 2, (v, indent, pr))
           | None \<Rightarrow> do {
               b \<leftarrow> opt_value argv i ''--indent'';
               case b of
                 Some v \<Rightarrow> Some (i + 2, (iters, v, pr))
               | None \<Rightarrow> do {
                   c \<leftarrow> opt_value argv i ''--print'';
                   case c of
                     Some v \<Rightarrow> Some (i + 2, (iters, indent, v \<noteq> 0))
                   | None \<Rightarrow> Some (i + 1, (iters, indent, pr)) } } } of
           None \<Rightarrow> None
         | Some (i', st) \<Rightarrow> if i < i' then loop_options i' argv st else None)
      else Some (iters, indent, pr))"
  by pat_completeness auto
termination
  by (relation "measure (\<lambda>(i, argv, st). length argv - i)") auto

declare loop_options.simps [simp del]

definition loop_positional :: "char list list \<Rightarrow> int \<times> int \<times> bool \<Rightarrow> (int \<times> int \<times> bool) option" where
  "loop_positional argv = (\<lambda>(iters, indent, pr). do {
     iters1 \<leftarrow> (if iters < 0 \<and> length argv \<ge> 2 then do { a \<leftarrow> rd argv 1; atoi a } else Some iters);
     indent1 \<leftarrow> (if indent < 0 \<and> length argv \<ge> 3 then do { a \<leftarrow> rd argv 2; atoi a } else Some indent);
     pr1 \<leftarrow> (if length argv \<ge> 4 then do { a \<leftarrow> rd argv 3; v \<leftarrow> atoi a; Some (v \<noteq> 0) } else Some pr);
     Some (iters1, indent1, pr1) })"

primrec fill_indent :: "nat \<Rightarrow> nat \<Rightarrow> char list \<Rightarrow> char list option" where
  "fill_indent 0 i s = wr s i NUL"
| "fill_indent (Suc n) i s = do { s1 \<leftarrow> wr s i (CHR '' ''); fill_indent n (i + 1) s1 }"

primrec loop_rounds :: "nat \<Rightarrow> nat \<Rightarrow> bool \<Rightarrow> char list \<Rightarrow> int \<Rightarrow> unit prog" where
  "loop_rounds 0 i pr indent_str pid = Ret ()"
| "loop_rounds (Suc n) i pr indent_str pid =
     bindP (if pr then print_line ''%sProcess-%d run: %u'' [Str (Some indent_str), W32 (word_of_int pid), W32 (of_nat i)]
            else Ret ()) (\<lambda>_.
     bindP u_sched_yield (\<lambda>_. loop_rounds n (i + 1) pr indent_str pid))"

definition loop_main :: "char list list \<Rightarrow> int prog" where
  "loop_main argv =
     tryP (if length argv = 2 then arg_is argv 1 ''--help'' else Some False) (\<lambda>help.
       if help then bindP loop_usage (\<lambda>_. Ret 0)
       else tryP (do { st \<leftarrow> loop_options 1 argv (-1, -1, True); loop_positional argv st }) (\<lambda>(iters, indent, pr).
         if iters \<le> 0 \<or> indent < 0 then bindP loop_usage (\<lambda>_. Ret 1)
         else if indent > int MAX_INDENT then say_then ''invalid indent (max %d)'' [W32 (of_nat MAX_INDENT)] 1
         else tryP (fill_indent (nat indent) 0 (replicate (MAX_INDENT + 1) NUL)) (\<lambda>indent_str.
           bindP u_getpid (\<lambda>pid.
           bindP (print_line ''iterations: %u, indent: %u, print: %d''
                    [W32 (word_of_int iters), W32 (word_of_int indent), W32 (if pr then 1 else 0)]) (\<lambda>_.
           bindP (loop_rounds (nat iters) 0 pr indent_str pid) (\<lambda>_. Ret 0))))))"

subsection \<open>spawn_chain\<close>

definition MAX_DEPTH :: int where "MAX_DEPTH = 100000"

definition chain_help :: "char list \<Rightarrow> unit prog" where
  "chain_help prog = say_all [
     (''Usage: %s --count <number>'', [Str (Some prog)]),
     ('''', []),
     (''Spawns a chain of child processes, each with count-1.'', []),
     (''Each process prints its PID and spawns the next until count reaches 0.'', []),
     ('''', []),
     (''Options:'', []),
     (''  --count <number>   Depth of the spawn chain (0-%d)'', [W32 (word_of_int MAX_DEPTH)]),
     (''  --help             Show this help message'', [])]"

primrec digits_down :: "nat \<Rightarrow> u32 \<Rightarrow> char list \<Rightarrow> char list" where
  "digits_down 0 number ds = ds"
| "digits_down (Suc n) number ds =
     (if number > 0 then digits_down n (number div 10) (ds @ [digit_char (unat (number mod 10))]) else ds)"

definition u32_to_str :: "u32 \<Rightarrow> char list \<Rightarrow> char list option" where
  "u32_to_str number out_str =
     (if number = 0 then do { s \<leftarrow> wr out_str 0 (CHR ''0''); wr s 1 NUL }
      else let ds = digits_down 10 number [] in
        do { s \<leftarrow> memcpy_loop out_str 0 (rev ds) 0 (length ds); wr s (length ds) NUL })"

text \<open>The result of \<open>parse_named_args\<close> and the count it stores.\<close>

function named_args :: "nat \<Rightarrow> char list list \<Rightarrow> u32 \<Rightarrow> (int \<times> u32) prog" where
  "named_args i argv count =
     (if i < length argv
      then tryP (do { h \<leftarrow> arg_is argv i ''--help''; c \<leftarrow> arg_is argv i ''--count''; a \<leftarrow> rd argv i; Some (h, c, a) }) (\<lambda>(h, c, a).
             if h then tryP (rd argv 0) (\<lambda>prog. bindP (chain_help prog) (\<lambda>_. Ret (1, count)))
             else if c then
               (if i + 1 \<ge> length argv then say_then ''error: missing value after --count'' [] (-1, count)
                else tryP (do { v \<leftarrow> rd argv (i + 1); atoi v }) (\<lambda>n.
                  if n < 0 then say_then ''error: count must be >= 0'' [] (-1, count)
                  else if n > MAX_DEPTH
                  then say_then ''error: count too large (max %d)'' [W32 (word_of_int MAX_DEPTH)] (-1, count)
                  else named_args (i + 2) argv (word_of_int n)))
             else say_then (''error: unknown argument '' @ quoted ''%s'') [Str (Some a)] (-1, count))
      else if count = 0 then say_then ''error: missing required --count argument'' [] (-1, count)
      else Ret (0, count))"
  by pat_completeness auto
termination
  by (relation "measure (\<lambda>(i, argv, count). length argv - i)") auto

declare named_args.simps [simp del]

definition chain_main :: "char list list \<Rightarrow> int prog" where
  "chain_main argv =
     bindP (named_args 1 argv 0) (\<lambda>(res, count).
       if res > 0 then Ret 0
       else if res < 0 then Ret 1
       else bindP u_getpid (\<lambda>me.
         bindP (print_line ''[pid %d] count=%u'' [W32 (word_of_int me), W32 count]) (\<lambda>_.
         if count = 0 then say_then ''[pid %d] leaf reached, exiting.'' [W32 (word_of_int me)] 0
         else tryP (do { s \<leftarrow> u32_to_str (count - 1) (replicate 16 NUL); p \<leftarrow> rd argv 0; Some (s, p) }) (\<lambda>(next_count, prog).
           bindP (print_line ''[pid %d] scheduling child %s --count %s''
                    [W32 (word_of_int me), Str (Some prog), Str (Some next_count)]) (\<lambda>_.
           bindP u_fork (\<lambda>pid.
             if pid < 0 then say_then ''[pid %d] fork failed'' [W32 (word_of_int me)] 1
             else
               bindP (if pid = 0
                      then bindP (u_execve prog [prog, c_string ''--count'', next_count] []) (\<lambda>_.
                           bindP u_getpid (\<lambda>child.
                           bindP (print_line ''[pid %d] execve failed'' [W32 (word_of_int child)]) (\<lambda>_. u_exit 1)))
                      else Ret 0) (\<lambda>_.
               bindP (print_line ''[pid %d] spawned child pid %d, waiting...'' [W32 (word_of_int me), W32 (word_of_int pid)]) (\<lambda>_.
               bindP (u_waitpid pid 0 0) (\<lambda>(res_wait, status).
                 if res_wait < 0 then say_then ''[pid %d] waitpid failed'' [W32 (word_of_int me)] 1
                 else say_then ''[pid %d] child %d completed, exiting.'' [W32 (word_of_int me), W32 (word_of_int pid)] 0)))))))))"

end
