(* ===== verification/Lister.thy ===== *)
theory Lister
  imports Programs
begin

section \<open>bin/: init, ps, ls\<close>

text \<open>
  The first process, which starts a shell on every terminal and collects dead children, and the two
  programs that read directories. The buffer of directory entries is the list \<open>getdents\<close> filled.
\<close>

subsection \<open>init\<close>

definition spawn_shell :: "nat \<Rightarrow> int prog" where
  "spawn_shell tty_id =
     bindP u_fork (\<lambda>pid.
       if pid < 0 then Ret pid
       else bindP
         (if pid = 0
          then bindP (u_setctty (int tty_id)) (\<lambda>r.
               bindP (if r < 0
                      then bindP (print_line ''setctty failed for tty%d'' [W32 (of_nat tty_id)]) (\<lambda>_. u_exit 1)
                      else Ret 0) (\<lambda>_.
               bindP (u_execve (c_string ''/bin/sh'') [c_string ''/bin/sh''] []) (\<lambda>r.
               if r < 0
               then bindP (print_line ''execve failed for tty%d'' [W32 (of_nat tty_id)]) (\<lambda>_. u_exit 1)
               else Ret 0)))
          else Ret 0) (\<lambda>_. Ret pid))"

primrec start_shells :: "nat \<Rightarrow> nat \<Rightarrow> int list \<Rightarrow> int list prog" where
  "start_shells 0 i pids = Ret pids"
| "start_shells (Suc n) i pids =
     bindP (spawn_shell i) (\<lambda>pid.
     tryP (wr pids i pid) (\<lambda>pids1.
       if pid < 0
       then bindP (print_line ''Failed to start shell for tty%d: res=%d'' [W32 (of_nat i), W32 (word_of_int pid)]) (\<lambda>_.
            tryP (wr pids1 i 0) (\<lambda>pids2. start_shells n (i + 1) pids2))
       else start_shells n (i + 1) pids1))"

primrec respawn :: "nat \<Rightarrow> nat \<Rightarrow> int \<Rightarrow> int list \<Rightarrow> int list prog" where
  "respawn 0 i exited pids = Ret pids"
| "respawn (Suc n) i exited pids =
     tryP (rd pids i) (\<lambda>p.
       if p = exited
       then bindP (spawn_shell i) (\<lambda>pid.
            tryP (wr pids i pid) (\<lambda>pids1.
              if pid < 0
              then bindP (print_line ''Failed to respawn shell for tty%d'' [W32 (of_nat i)]) (\<lambda>_.
                   tryP (wr pids1 i 0) Ret)
              else Ret pids1))
       else respawn n (i + 1) exited pids)"

primrec init_loop :: "nat \<Rightarrow> int list \<Rightarrow> int prog" where
  "init_loop 0 pids = Hang"
| "init_loop (Suc n) pids =
     bindP (u_wait 0) (\<lambda>(exited, status).
       if exited < 0
       then bindP (print_line ''wait failed %d'' [W32 (word_of_int exited)]) (\<lambda>_. init_loop n pids)
       else bindP (respawn TTY_COUNT 0 exited pids) (\<lambda>pids1. init_loop n pids1))"

definition init_main :: "nat \<Rightarrow> int prog" where
  "init_main fuel = bindP (start_shells TTY_COUNT 0 (replicate TTY_COUNT 0)) (\<lambda>pids. init_loop fuel pids)"

subsection \<open>Directory entries\<close>

definition zero_entry :: dirent where
  "zero_entry = \<lparr>d_ino = 0, d_reclen = 0, d_type = 0, d_name = replicate MAX_FILENAME_LEN NUL\<rparr>"

text \<open>The entry a byte offset into the buffer points to.\<close>

definition entry_at_offset :: "dirent list \<Rightarrow> nat \<Rightarrow> dirent option" where
  "entry_at_offset ds offset =
     (if offset mod unat SIZEOF_DIRENT = 0 then rd ds (offset div unat SIZEOF_DIRENT) else None)"

subsection \<open>ps\<close>

definition ps_help :: "char list \<Rightarrow> unit prog" where
  "ps_help prog = say_all [
     (''Usage: %s [--help]'', [Str (Some prog)]),
     ('''', []),
     (''List all running processes by reading /proc/.'', []),
     ('''', []),
     (''Options:'', []),
     (''  --help    Show this help message'', []),
     ('''', []),
     (''Example:'', []),
     (''  %s'', [Str (Some prog)])]"

fun only_digits :: "char list \<Rightarrow> bool option" where
  "only_digits [] = None"
| "only_digits (c # s) = (if c = NUL then Some True else if is_digit c then only_digits s else Some False)"

definition is_number :: "char list option \<Rightarrow> bool option" where
  "is_number s =
     (case s of
        None \<Rightarrow> Some False
      | Some p \<Rightarrow> do { c \<leftarrow> rd p 0; if c = NUL then Some False else only_digits p })"

definition comm_path :: "char list \<Rightarrow> char list option" where
  "comm_path name = do {
     p1 \<leftarrow> strcpy (replicate 64 NUL) (c_string ''/proc/'');
     p2 \<leftarrow> strcat p1 name;
     strcat p2 (c_string ''/comm'') }"

text \<open>The name of a process as \<open>/proc\<close> shows it, without the newline at its end.\<close>

definition read_comm :: "char list \<Rightarrow> char list prog" where
  "read_comm path =
     (let comm0 = replicate 64 NUL;
          unknown = (\<lambda>comm. tryP (strcpy comm (c_string ''?'')) Ret)
      in bindP (u_open path O_RDONLY 0) (\<lambda>fd.
         if fd \<ge> 0
         then bindP (u_read fd comm0 63) (\<lambda>(r, comm).
              bindP (u_close fd) (\<lambda>_.
              if r > 0
              then tryP (do {
                     c \<leftarrow> rd comm (nat (r - 1));
                     if c = CHR 0x0A then wr comm (nat (r - 1)) NUL else Some comm }) Ret
              else unknown comm))
         else unknown comm0))"

definition ps_entry :: "dirent \<Rightarrow> unit prog" where
  "ps_entry de =
     tryP (if d_type de = DT_DIR then is_number (Some (d_name de)) else Some False) (\<lambda>proc.
       if proc
       then tryP (comm_path (d_name de)) (\<lambda>path.
            bindP (read_comm path) (\<lambda>comm.
            print_line ''%s %s'' [Str (Some (d_name de)), Str (Some comm)]))
       else Ret ())"

function ps_entries :: "dirent list \<Rightarrow> nat \<Rightarrow> nat \<Rightarrow> unit prog" where
  "ps_entries ds offset nbytes =
     (if offset < nbytes
      then tryP (entry_at_offset ds offset) (\<lambda>de.
           bindP (ps_entry de) (\<lambda>_.
           if d_reclen de = 0 then Ret () else ps_entries ds (offset + unat (d_reclen de)) nbytes))
      else Ret ())"
  by pat_completeness auto
termination
  by (relation "measure (\<lambda>(ds, offset, nbytes). nbytes - offset)")
    (auto simp: unat_gt_0 intro!: diff_less_mono2)

declare ps_entries.simps [simp del]

primrec ps_loop :: "nat \<Rightarrow> int \<Rightarrow> dirent list \<Rightarrow> unit prog" where
  "ps_loop 0 fd ds = Hang"
| "ps_loop (Suc n) fd ds =
     bindP (u_getdents fd ds (32 * SIZEOF_DIRENT)) (\<lambda>(nbytes, ds1).
       if nbytes < 0 then print_line ''ps: getdents failed'' []
       else if nbytes = 0 then Ret ()
       else bindP (ps_entries ds1 0 (nat nbytes)) (\<lambda>_. ps_loop n fd ds1))"

definition ps_main :: "nat \<Rightarrow> char list list \<Rightarrow> int prog" where
  "ps_main fuel argv =
     tryP (do { prog \<leftarrow> rd argv 0;
                help \<leftarrow> (if length argv = 2 then arg_is argv 1 ''--help'' else Some False);
                Some (prog, help) }) (\<lambda>(prog, help).
       if help then bindP (ps_help prog) (\<lambda>_. Ret 0)
       else if length argv \<noteq> 1
       then bindP (print_line ''ps: no arguments expected'' []) (\<lambda>_. try_help prog)
       else bindP (u_open (c_string ''/proc'') O_RDONLY 0) (\<lambda>fd.
         if fd < 0 then say_then ''ps: failed to open /proc'' [] 1
         else bindP (print_line ''PID   COMMAND'' []) (\<lambda>_.
              bindP (ps_loop fuel fd (replicate 32 zero_entry)) (\<lambda>_.
              bindP (u_close fd) (\<lambda>_. Ret 0)))))"

subsection \<open>ls\<close>

definition ls_help :: "char list \<Rightarrow> unit prog" where
  "ls_help prog = say_all [
     (''Usage: %s [-l] [-a] [-h] [DIRECTORY]'', [Str (Some prog)]),
     ('''', []),
     (''List the contents of a directory.'', []),
     ('''', []),
     (''Options:'', []),
     (''  -l        Use a long listing format'', []),
     (''  -a        Show all entries, including . and ..'', []),
     (''  -h        Human readable sizes (e.g., 1.2K  3.4M)'', []),
     (''  --help    Show this help message'', []),
     ('''', [])]"

definition type_char :: "dirent \<Rightarrow> char" where
  "type_char de = (if d_type de = DT_DIR then CHR ''d'' else if d_type de = DT_REG then CHR ''f'' else CHR ''?'')"

definition is_dot_entry :: "dirent \<Rightarrow> bool option" where
  "is_dot_entry de = do {
     c0 \<leftarrow> rd (d_name de) 0;
     if c0 \<noteq> CHR ''.'' then Some False
     else do {
       c1 \<leftarrow> rd (d_name de) 1;
       if c1 = NUL then Some True
       else if c1 \<noteq> CHR ''.'' then Some False
       else map_option (\<lambda>c2. c2 = NUL) (rd (d_name de) 2) } }"

text \<open>\<open>while (pos < dst_size - 1 && i < n) dst[pos++] = s[i++]\<close>, with \<open>k\<close> characters of \<open>s\<close> left.\<close>

primrec copy_limited :: "nat \<Rightarrow> nat \<Rightarrow> char list \<Rightarrow> nat \<Rightarrow> char list \<Rightarrow> nat \<Rightarrow> (char list \<times> nat) option" where
  "copy_limited 0 i s dst_size dst pos = Some (dst, pos)"
| "copy_limited (Suc k) i s dst_size dst pos =
     (if pos < dst_size - 1
      then do { c \<leftarrow> rd s i; d \<leftarrow> wr dst pos c; copy_limited k (i + 1) s dst_size d (pos + 1) }
      else Some (dst, pos))"

text \<open>\<open>dir[0] == '.' && dir[1] == '\0'\<close>\<close>

definition is_here :: "char list \<Rightarrow> bool option" where
  "is_here dir = do {
     c0 \<leftarrow> rd dir 0;
     if c0 = CHR ''.'' then map_option (\<lambda>c. c = NUL) (rd dir 1) else Some False }"

text \<open>The slash between directory and name, unless there is one or no room.\<close>

definition put_slash :: "nat \<Rightarrow> char list \<Rightarrow> nat \<Rightarrow> (char list \<times> nat) option" where
  "put_slash dst_size dst pos =
     (if pos < dst_size - 1
      then do {
        slash \<leftarrow> (if pos = 0 then Some True else map_option (\<lambda>c. c \<noteq> CHR ''/'') (rd dst (pos - 1)));
        if slash then do { d \<leftarrow> wr dst pos (CHR ''/''); Some (d, pos + 1) } else Some (dst, pos) }
      else Some (dst, pos))"

definition build_path :: "char list \<Rightarrow> nat \<Rightarrow> char list \<Rightarrow> char list \<Rightarrow> char list option" where
  "build_path dst dst_size dir name = do {
     here \<leftarrow> is_here dir;
     if here then do {
       n0 \<leftarrow> strlen name;
       let n = (if n0 \<ge> dst_size then dst_size - 1 else n0);
       d \<leftarrow> memcpy dst 0 name 0 n;
       wr d n NUL }
     else do {
       dlen \<leftarrow> strlen dir;
       nlen \<leftarrow> strlen name;
       (d1, pos1) \<leftarrow> copy_limited dlen 0 dir dst_size dst 0;
       (d2, pos2) \<leftarrow> put_slash dst_size d1 pos1;
       (d3, pos3) \<leftarrow> copy_limited nlen 0 name dst_size d2 pos2;
       wr d3 pos3 NUL } }"

text \<open>
  The double that \<open>print_size_human\<close> divides by 1024 stays exact, so it is the number \<open>sz\<close> over a power
  of 1024; \<open>parts\<close> are its integer part and its scaled and rounded fraction, as \<open>vsnprintf\<close> takes them.
\<close>

primrec human_unit :: "nat \<Rightarrow> int \<Rightarrow> nat \<Rightarrow> nat" where
  "human_unit 0 sz u = u"
| "human_unit (Suc n) sz u = (if sz \<ge> 1024 ^ (u + 1) then human_unit n sz (u + 1) else u)"

definition human_parts :: "nat \<Rightarrow> nat \<Rightarrow> nat \<Rightarrow> u64 \<times> u64" where
  "human_parts m u prec =
     (of_nat (m div 1024 ^ u), of_nat ((2 * (m mod 1024 ^ u) * 10 ^ prec + 1024 ^ u) div (2 * 1024 ^ u)))"

definition print_size_human :: "int \<Rightarrow> unit prog" where
  "print_size_human sz =
     (let u = human_unit 4 sz 0
      in tryP (rd ''BKMGT'' u) (\<lambda>c.
         bindP (printf ''%4.1f%c'' [Dbl (sz < 0) (human_parts (nat \<bar>sz\<bar>) u), W32 (of_nat (code c))]) (\<lambda>_. Ret ())))"

record ls_opts =
  ls_path :: "char list"
  ls_long :: bool
  ls_all :: bool
  ls_human :: bool

text \<open>The letters after a dash: the options, or the letter that is none.\<close>

fun ls_letters :: "char list \<Rightarrow> ls_opts \<Rightarrow> (char + ls_opts) option" where
  "ls_letters [] st = None"
| "ls_letters (c # s) st =
     (if c = NUL then Some (Inr st)
      else if c = CHR ''l'' then ls_letters s (st\<lparr>ls_long := True\<rparr>)
      else if c = CHR ''a'' then ls_letters s (st\<lparr>ls_all := True\<rparr>)
      else if c = CHR ''h'' then ls_letters s (st\<lparr>ls_human := True\<rparr>)
      else Some (Inl c))"

text \<open>The argument loop: the options, or the exit status.\<close>

primrec ls_args :: "nat \<Rightarrow> nat \<Rightarrow> char list list \<Rightarrow> ls_opts \<Rightarrow> (int + ls_opts) prog" where
  "ls_args 0 i argv st = Ret (Inr st)"
| "ls_args (Suc n) i argv st =
     tryP (do { a \<leftarrow> rd argv i; prog \<leftarrow> rd argv 0; help \<leftarrow> arg_is argv i ''--help'';
                l \<leftarrow> arg_is argv i ''-l''; al \<leftarrow> arg_is argv i ''-a''; h \<leftarrow> arg_is argv i ''-h''; c \<leftarrow> rd a 0;
                dot \<leftarrow> strcmp (ls_path st) (c_string ''.''); Some (a, prog, help, l, al, h, c, dot = 0) })
       (\<lambda>(a, prog, help, l, al, h, c, dot).
         if help then bindP (ls_help prog) (\<lambda>_. Ret (Inl 0))
         else if l then ls_args n (i + 1) argv (st\<lparr>ls_long := True\<rparr>)
         else if al then ls_args n (i + 1) argv (st\<lparr>ls_all := True\<rparr>)
         else if h then ls_args n (i + 1) argv (st\<lparr>ls_human := True\<rparr>)
         else if c = CHR ''-''
         then tryP (ls_letters (drop 1 a) st) (\<lambda>r.
                case r of
                  Inr st1 \<Rightarrow> ls_args n (i + 1) argv st1
                | Inl x \<Rightarrow>
                    bindP (print_line (''ls: unknown option '' @ quoted ''-%c'') [W32 (of_nat (code x))]) (\<lambda>_.
                    bindP (try_help prog) (\<lambda>s. Ret (Inl s))))
         else if dot then ls_args n (i + 1) argv (st\<lparr>ls_path := a\<rparr>)
         else bindP (print_line ''ls: too many arguments'' []) (\<lambda>_. bindP (try_help prog) (\<lambda>s. Ret (Inl s))))"

definition ls_entry :: "ls_opts \<Rightarrow> dirent \<Rightarrow> unit prog" where
  "ls_entry st de =
     (if ls_long st
      then tryP (build_path (replicate 256 NUL) 256 (ls_path st) (d_name de)) (\<lambda>full_path.
           bindP (u_stat full_path zero_stat) (\<lambda>(r, sb).
             let t = W32 (of_nat (code (type_char de)))
             in if r = 0
                then bindP (printf ''%c '' [t]) (\<lambda>_.
                     bindP (if ls_human st then print_size_human (st_size sb)
                            else bindP (printf ''%10ld'' [W32 (word_of_int (st_size sb))]) (\<lambda>_. Ret ())) (\<lambda>_.
                     print_line '' %s'' [Str (Some (d_name de))]))
                else print_line ''%c          ? %s'' [t, Str (Some (d_name de))]))
      else print_line ''%s'' [Str (Some (d_name de))])"

primrec ls_entries :: "nat \<Rightarrow> nat \<Rightarrow> ls_opts \<Rightarrow> dirent list \<Rightarrow> unit prog" where
  "ls_entries 0 i st ds = Ret ()"
| "ls_entries (Suc n) i st ds =
     tryP (do { de \<leftarrow> rd ds i; skip \<leftarrow> (if ls_all st then Some False else is_dot_entry de); Some (de, skip) }) (\<lambda>(de, skip).
       bindP (if skip then Ret () else ls_entry st de) (\<lambda>_. ls_entries n (i + 1) st ds))"

definition ls_main :: "char list list \<Rightarrow> int prog" where
  "ls_main argv =
     bindP (ls_args (length argv - 1) 1 argv \<lparr>ls_path = c_string ''.'', ls_long = False, ls_all = False, ls_human = False\<rparr>) (\<lambda>r.
       case r of
         Inl status \<Rightarrow> Ret status
       | Inr st \<Rightarrow>
           bindP (u_open (ls_path st) O_RDONLY 0) (\<lambda>fd.
             if fd < 0 then say_then (''ls: cannot open '' @ quoted ''%s'') [Str (Some (ls_path st))] 1
             else bindP (u_getdents fd (replicate 256 zero_entry) (256 * SIZEOF_DIRENT)) (\<lambda>(nbytes, ds).
               if nbytes < 0
               then bindP (print_line ''ls: getdents failed'' []) (\<lambda>_. bindP (u_close fd) (\<lambda>_. Ret 1))
               else bindP (ls_entries (nat nbytes div unat SIZEOF_DIRENT) 0 st ds) (\<lambda>_.
                    bindP (u_close fd) (\<lambda>_. Ret 0)))))"

end
