(* ===== verification/ProgSafe.thy ===== *)
theory ProgSafe
  imports Tools Lister ShellSafe
begin

section \<open>The user programs never leave their objects\<close>

text \<open>
  Each program is \<open>safe\<close> on every argument vector the kernel passes: at least one string, every string
  terminated and of at most a page. What they compute is stated where it is more than printing.
\<close>

definition arg_ok :: "char list \<Rightarrow> bool" where
  "arg_ok a \<longleftrightarrow> terminated a \<and> length (cstr a) \<le> 4096"

definition args_ok :: "char list list \<Rightarrow> bool" where
  "args_ok argv \<longleftrightarrow> argv \<noteq> [] \<and> list_all arg_ok argv"

lemma args_okD:
  assumes "args_ok argv"
  shows "argv \<noteq> []" "i < length argv \<Longrightarrow> arg_ok (argv ! i)"
  using assms by (auto simp: args_ok_def list_all_length)

lemma arg_is_ok: "args_ok argv \<Longrightarrow> i < length argv \<Longrightarrow> \<exists>b. arg_is argv i s = Some b"
  using args_okD(2) [of argv i] strcmp_eq_0 [of "argv ! i" "c_string s"]
  by (auto simp: arg_is_def rd_in arg_ok_def)

lemma say_then_safe:
  assumes "plain (c_string (ln fmt)) args" "length fmt < 999" "Q r"
  shows "safe Q (say_then fmt args r)"
  unfolding say_then_def using assms by (intro safe_thenI print_line_safe) simp_all

lemma say_all_safe:
  "list_all (\<lambda>l. plain (c_string (ln (fst l))) (snd l) \<and> length (fst l) < 999) ls \<Longrightarrow> safe (\<lambda>_. True) (say_all ls)"
  by (induction ls) (auto intro!: safe_thenI print_line_safe)

lemma try_help_safe: "arg_ok prog \<Longrightarrow> safe (\<lambda>_. True) (try_help prog)"
  unfolding try_help_def by (intro say_then_safe) (simp_all add: fmt_defs arg_ok_def)

lemma safe_if: "(b \<Longrightarrow> safe Q m) \<Longrightarrow> (\<not> b \<Longrightarrow> safe Q m') \<Longrightarrow> safe Q (if b then m else m')"
  by simp

lemma line_safe:
  "list_all (\<lambda>c. c \<noteq> NUL \<and> c \<noteq> CHR ''%'') s \<Longrightarrow> length s < 999 \<Longrightarrow> safe (\<lambda>_. True) (print_line s [])"
  by (intro print_line_safe plain_line)

subsection \<open>echo, pwd, printenv, clear, cat\<close>

lemma echo_args_safe:
  "args_ok argv \<Longrightarrow> i + n \<le> length argv \<Longrightarrow> safe (\<lambda>_. True) (echo_args n i argv)"
proof (induction n arbitrary: i)
  case (Suc n)
  have "arg_ok (argv ! i)" using args_okD(2) Suc.prems by simp
  then have p: "safe (\<lambda>_. True) (printf ''%s'' [Str (Some (argv ! i))])"
    by (intro printf_plain) (simp_all add: fmt_defs arg_ok_def)
  have b: "safe (\<lambda>_. True) (printf '' '' [])" by (intro printf_plain) (simp_all add: fmt_defs)
  have "safe (\<lambda>_. True) (echo_args n (Suc i) argv)" using Suc by simp
  with Suc.prems p b show ?case by (auto simp: rd_in intro!: safe_thenI)
qed simp

lemma echo_safe: "args_ok argv \<Longrightarrow> safe (\<lambda>_. True) (echo_main argv)"
proof -
  assume a: "args_ok argv"
  obtain hlp where h: "(if length argv > 1 then arg_is argv 1 ''--help'' else Some False) = Some hlp"
    using arg_is_ok [OF a, of 1] by (cases "length argv > 1") auto
  have "safe (\<lambda>_. True) (print_lines [''Usage: echo [STRING]...'', ''Echo the STRING(s) to standard output.''])"
    by (rule print_lines_safe) simp
  moreover have "safe (\<lambda>_. True) (echo_args (length argv - 1) 1 argv)"
    using args_okD(1) [OF a] by (intro echo_args_safe [OF a]) (cases argv, simp_all)
  moreover have "safe (\<lambda>_. True) (say_then '''' [] (0::int))" by (intro say_then_safe) (simp_all add: fmt_defs)
  ultimately show ?thesis unfolding echo_main_def h tryP_simps by (auto intro!: safe_thenI simp del: print_lines.simps)
qed

lemma pwd_safe: "safe (\<lambda>_. True) pwd_main"
  unfolding pwd_main_def
proof (rule safe_bindI [OF u_getcwd_safe], goal_cases)
  case 1
  then show ?case by simp
next
  case (2 x)
  obtain cwd buf where x: "x = (cwd, buf)" by (cases x)
  have "safe (\<lambda>_. True) (say_then ''pwd: failed to get current directory'' [] (1 :: int))"
    by (intro say_then_safe) (simp_all add: fmt_defs)
  moreover have "safe (\<lambda>_. True) (say_then ''%s'' [Str (Some buf)] (0 :: int))" if cwd
    using 2 that length_cstr_less [of buf] by (intro say_then_safe) (auto simp: fmt_defs x)
  ultimately show ?case by (simp add: x)
qed

lemma printenv_safe:
  assumes "case environ of None \<Rightarrow> True | Some es \<Rightarrow> list_all arg_ok es"
  shows "safe (\<lambda>_. True) (printenv_main environ)"
proof -
  have "safe (\<lambda>_. True) (say_then ''environ is NULL'' [] (1::int))"
    by (intro say_then_safe) (simp_all add: fmt_defs)
  moreover have "safe (\<lambda>_. True) (say_all (map (\<lambda>e. (''%s'', [Str (Some e)])) es))" if "environ = Some es" for es
    using assms that by (intro say_all_safe) (auto simp: list_all_iff arg_ok_def fmt_defs)
  moreover have "safe (\<lambda>_. True) (print_line ''bonkers'' [])" by (rule line_safe) simp_all
  ultimately show ?thesis unfolding printenv_main_def by (cases environ) (auto intro!: safe_thenI)
qed

lemma clear_safe: "safe (\<lambda>_. True) clear_main"
proof -
  have "unat (of_nat (length (cstr (c_string clear_seq))) :: u32) \<le> length (c_string clear_seq)"
    by (simp add: clear_seq_def c_string_def)
  then show ?thesis
    unfolding clear_main_def by (simp add: strlen_ok) (intro safe_thenI u_calls_safe, simp_all)
qed

text \<open>What \<open>cat\<close> writes is at most what it read, and it reads at most its buffer.\<close>

lemma cat_loop_safe: "length buf = 256 \<Longrightarrow> safe (\<lambda>_. True) (cat_loop n fd buf)"
proof (induction n arbitrary: buf)
  case (Suc n)
  have w: "unat (word_of_int r :: u32) \<le> 256" if "0 < r" "r \<le> 256" for r
    using that by (simp add: unat_u32_int)
  show ?case
    using Suc w by (auto intro!: safe_bindI [OF u_read_safe] safe_thenI [OF u_calls_safe(1)])
qed simp

lemma cat_help_safe: "arg_ok prog \<Longrightarrow> safe (\<lambda>_. True) (cat_help prog)"
  unfolding cat_help_def by (rule say_all_safe) (simp add: fmt_defs arg_ok_def)

lemma cat_safe: "args_ok argv \<Longrightarrow> safe (\<lambda>_. True) (cat_main fuel argv)"
proof -
  assume a: "args_ok argv"
  have prog: "rd argv 0 = Some (argv ! 0)" "arg_ok (argv ! 0)"
    using args_okD [OF a] by (auto simp: rd_in)
  obtain hlp where h: "(if length argv = 2 then arg_is argv 1 ''--help'' else Some False) = Some hlp"
    using arg_is_ok [OF a, of 1] by (cases "length argv = 2") auto
  have farg: "rd argv 1 = Some (argv ! 1) \<and> arg_ok (argv ! 1) \<and> terminated (argv ! 1)" if "1 < length argv"
    using args_okD(2) [OF a that] that by (simp add: rd_in arg_ok_def)
  have bad: "safe (\<lambda>_. True) (say_then (''cat: cannot open '' @ quoted ''%s'') [Str (Some f)] x)" if "arg_ok f" for f x
    using that by (intro say_then_safe) (simp_all add: fmt_defs arg_ok_def)
  have fd: "safe (\<lambda>_. True) (if length argv = 1 then Ret (FD_STDIN, True)
      else tryP (rd argv 1) (\<lambda>file. bindP (u_open file O_RDONLY 0) (\<lambda>fd.
        if fd < 0 then say_then (''cat: cannot open '' @ quoted ''%s'') [Str (Some file)] (fd, False) else Ret (fd, True))))"
    using farg bad [unfolded append.simps] args_okD(1) [OF a]
    by (cases argv) (auto intro!: safe_thenI [OF u_calls_safe(3)])
  have rest: "safe (\<lambda>_. True) (if \<not> ok then Ret (1 :: int) else bindP (cat_loop fuel fd (replicate 256 NUL)) (\<lambda>_.
      bindP (if fd \<noteq> FD_STDIN then u_close fd else Ret 0) (\<lambda>_. Ret 0)))" for ok fd
    by (auto intro!: safe_thenI [OF cat_loop_safe] safe_thenI [OF u_calls_safe(4)])
  have many: "safe (\<lambda>_. True) (bindP (print_line ''cat: too many arguments'' []) (\<lambda>_. try_help (argv ! 0)))"
    by (intro safe_thenI line_safe try_help_safe prog) simp_all
  note body = safe_thenI [OF fd, of _ "\<lambda>(fd, ok). if \<not> ok then Ret (1 :: int)
      else bindP (cat_loop fuel fd (replicate 256 NUL)) (\<lambda>_. bindP (if fd \<noteq> FD_STDIN then u_close fd else Ret 0) (\<lambda>_. Ret 0))"]
  have usage: "safe (\<lambda>_. True) (bindP (cat_help (argv ! 0)) (\<lambda>_. Ret (0 :: int)))"
    by (intro safe_thenI [OF cat_help_safe [OF prog(2)]]) simp
  show ?thesis unfolding cat_main_def prog(1) tryP_simps h
    by (intro safe_if usage many body) (use rest in \<open>simp split: prod.split\<close>)
qed

subsection \<open>uptime, time\<close>

lemmas directive_simps = u_parse_def parse_flags_width_def skip_char_def parse_l_def plain_conv_def is_digit_def code_def
  chk_int_def INT_MIN_def INT_MAX_def

lemma plain_02u: "plain (CHR ''%'' # CHR ''0'' # CHR ''2'' # CHR ''u'' # f) (W32 w # as) = plain f as"
  by (subst plain.simps) (simp add: directive_simps)

lemma plain_llu: "plain (CHR ''%'' # CHR ''l'' # CHR ''l'' # CHR ''u'' # f) (W64 w # as) = plain f as"
  by (subst plain.simps) (simp add: directive_simps)

lemma plain_03llu: "plain (CHR ''%'' # CHR ''0'' # CHR ''3'' # CHR ''l'' # CHR ''l'' # CHR ''u'' # f) (W64 w # as) = plain f as"
  by (subst plain.simps) (simp add: directive_simps)

lemma plain_10ld:
  "plain (CHR ''%'' # CHR ''1'' # CHR ''0'' # CHR ''l'' # CHR ''d'' # f) (W32 w # as) = (sint w \<noteq> INT_MIN \<and> plain f as)"
  by (subst plain.simps) (simp add: directive_simps)

lemma plain_41f: "plain (CHR ''%'' # CHR ''4'' # CHR ''.'' # CHR ''1'' # CHR ''f'' # f) (Dbl neg parts # as) = plain f as"
  by (subst plain.simps) (simp add: directive_simps)

lemmas plain_wide = plain_02u plain_llu plain_03llu plain_10ld plain_41f

lemma uptime_safe: "args_ok argv \<Longrightarrow> safe (\<lambda>_. True) (uptime_main argv)"
proof -
  assume a: "args_ok argv"
  have up1: "safe (\<lambda>_. True) (say_then ''up %ud %02u:%02u:%02u'' [W32 d, W32 h, W32 m, W32 s] (0 :: int))" for d h m s
    by (intro say_then_safe) (simp_all add: fmt_defs plain_wide)
  have up2: "safe (\<lambda>_. True) (say_then ''up %02u:%02u:%02u'' [W32 h, W32 m, W32 s] (0 :: int))" for h m s
    by (intro say_then_safe) (simp_all add: fmt_defs plain_wide)
  have fail: "safe (\<lambda>_. True) (say_then ''uptime: clock_gettime failed'' [] (1 :: int))"
    by (intro say_then_safe) (simp_all add: fmt_defs)
  show ?thesis
  proof (cases "length argv > 1")
    case True
    note arg1 = args_okD(2) [OF a True]
    obtain b c where bc: "arg_is argv 1 ''-h'' = Some b" "arg_is argv 1 ''--help'' = Some c"
      using arg_is_ok [OF a True] by blast
    have u: "safe (\<lambda>_. True) (bindP (print_lines uptime_help) (\<lambda>_. Ret (0 :: int)))"
      by (intro safe_thenI print_lines_safe) (simp_all add: uptime_help_def)
    have bad: "safe (\<lambda>_. True) (bindP (print_line (''uptime: invalid option '' @ quoted ''%s'') [Str (Some (argv ! 1))]) (\<lambda>_.
        say_then (''Try '' @ quoted ''uptime --help'' @ '' for more information.'') [] (1 :: int)))"
      using arg1 by (intro safe_thenI print_line_safe say_then_safe) (simp_all add: fmt_defs arg_ok_def)
    from True u bad show ?thesis
      by (cases b; cases c) (simp_all add: uptime_main_def bc [simplified] rd_in del: append.simps)
  next
    case False
    then show ?thesis unfolding uptime_main_def
      using up1 up2 fail by (auto simp: Let_def intro!: safe_bindI [OF u_clock_gettime_safe])
  qed
qed

lemma time_options_ok:
  "args_ok argv \<Longrightarrow> i + n = length argv \<Longrightarrow>
   \<exists>t. time_options n i p argv = Some t \<and> (case t of TimeRun _ j \<Rightarrow> j \<le> length argv | TimeBad a \<Rightarrow> arg_ok a)"
proof (induction n arbitrary: i p)
  case (Suc n)
  have a: "arg_ok (argv ! i)" "terminated (argv ! i)" "i < length argv"
    using args_okD(2) [OF Suc.prems(1), of i] Suc.prems(2) by (simp_all add: arg_ok_def)
  obtain r1 r2 where r: "strcmp (argv ! i) (c_string ''--'') = Some r1" "strcmp (argv ! i) (c_string ''-p'') = Some r2"
    using strcmp_eq_0 [OF a(2), of "c_string ''--''"] strcmp_eq_0 [OF a(2), of "c_string ''-p''"] by auto
  obtain c t where c: "argv ! i = c # t" using a(2) by (cases "argv ! i") auto
  obtain t' where "time_options n (Suc i) True argv = Some t'"
      "case t' of TimeRun _ j \<Rightarrow> j \<le> length argv | TimeBad a \<Rightarrow> arg_ok a"
    using Suc.IH [OF Suc.prems(1), of "Suc i" True] Suc.prems(2) by auto
  with a r show ?case by (cases "c = CHR ''-''") (auto simp: rd_in c simp del: strcmp.simps)
qed simp

lemma print_times_safe: "safe (\<lambda>_. True) (print_posix t)" "safe (\<lambda>_. True) (print_default t)"
  unfolding print_posix_def print_default_def
  by (simp_all add: fmt_defs plain_wide say_all_safe del: say_all.simps split: prod.split)

lemma time_run_safe:
  assumes "args_ok cmd" "list_all terminated envp"
  shows "safe (\<lambda>_. True) (time_run p cmd envp)"
proof -
  have c: "rd cmd 0 = Some (cmd ! 0)" "arg_ok (cmd ! 0)" using args_okD [OF assms(1)] by (auto simp: rd_in)
  have t: "terminated (cmd ! 0)" "list_all terminated cmd"
    using c(2) assms(1) by (auto simp: arg_ok_def args_ok_def list_all_iff)
  have m1: "safe (\<lambda>_. True) (say_then ''time: clock_gettime failed'' [] (x :: int))" for x
    by (intro say_then_safe) (simp_all add: fmt_defs)
  have m2: "safe (\<lambda>_. True) (say_then ''time: fork failed'' [] (1 :: int))"
    by (intro say_then_safe) (simp_all add: fmt_defs)
  have m3: "safe (\<lambda>_. True) (print_line (''time: execve failed for '' @ quoted ''%s'') [Str (Some (cmd ! 0))])"
    using c(2) by (intro print_line_safe) (simp_all add: fmt_defs arg_ok_def)
  have m4: "safe (\<lambda>_. True) (say_then ''time: waitpid failed for pid %d'' [W32 (word_of_int pid)] (1 :: int))"
    if "sint (word_of_int pid :: u32) \<noteq> INT_MIN" for pid
    using that by (intro say_then_safe) (simp_all add: fmt_defs)
  have pid: "safe (\<lambda>p. sint (word_of_int p :: u32) \<noteq> INT_MIN) u_fork"
    by (auto simp: u_fork_def sys_int_def admissible_def passes_def)
  show ?thesis unfolding time_run_def c(1) tryP_simps
  proof (rule safe_bindI [OF u_clock_gettime_safe], goal_cases)
    case (1 x)
    obtain r start where x: "x = (r, start)" by (cases x)
    have "safe (\<lambda>_. True) (bindP u_fork (\<lambda>pid.
         if pid < 0 then say_then ''time: fork failed'' [] 1
         else bindP (if pid = 0
                     then bindP (u_execve (cmd ! 0) cmd envp) (\<lambda>_.
                          bindP (print_line (''time: execve failed for '' @ quoted ''%s'') [Str (Some (cmd ! 0))]) (\<lambda>_. u_exit 1))
                     else Ret 0) (\<lambda>_.
              bindP (u_waitpid pid 0 0) (\<lambda>(res, status).
                if res < 0 then say_then ''time: waitpid failed for pid %d'' [W32 (word_of_int pid)] 1
                else bindP (u_clock_gettime 1 zero_time) (\<lambda>(r2, end1).
                  if r2 < 0 then say_then ''time: clock_gettime failed'' [] (exit_code_of status)
                  else
                    let real_ns = ts_to_ns end1 - ts_to_ns start
                    in bindP (if p then print_posix real_ns else print_default real_ns)
                         (\<lambda>_. Ret (exit_code_of status)))))))"
    proof (rule safe_bindI [OF pid], goal_cases)
      case (1 pid)
      have child: "safe (\<lambda>_. True) (if pid = 0
          then bindP (u_execve (cmd ! 0) cmd envp) (\<lambda>_.
            bindP (print_line (''time: execve failed for '' @ quoted ''%s'') [Str (Some (cmd ! 0))]) (\<lambda>_. u_exit 1))
          else Ret 0)"
        using m3 t assms(2) by (intro safe_if safe_thenI u_calls_safe) simp_all
      show ?case
        by (intro safe_if m2 safe_thenI [OF child] safe_bindI [OF u_waitpid_safe])
          (auto simp: Let_def intro!: m1 m4 1 safe_bindI [OF u_clock_gettime_safe] safe_thenI [OF print_times_safe(1)]
            safe_thenI [OF print_times_safe(2)])
    qed
    with m1 show ?case by (simp add: x del: append.simps)
  qed
qed

lemma time_safe: "args_ok argv \<Longrightarrow> list_all terminated envp \<Longrightarrow> safe (\<lambda>_. True) (time_main argv envp)"
proof -
  assume a: "args_ok argv" and e: "list_all terminated envp"
  obtain t where t: "time_options (length argv - 1) 1 False argv = Some t"
      "case t of TimeRun _ j \<Rightarrow> j \<le> length argv | TimeBad a \<Rightarrow> arg_ok a"
    using time_options_ok [OF a, of 1 "length argv - 1"] args_okD(1) [OF a] by (cases argv) auto
  have usage: "safe (\<lambda>_. True) time_usage"
    unfolding time_usage_def by (intro say_then_safe) (simp_all add: fmt_defs)
  show ?thesis
  proof (cases t)
    case (TimeRun p j)
    have "args_ok (drop j argv)" if "j < length argv"
      using that a by (auto simp: args_ok_def list_all_iff dest: in_set_dropD)
    with TimeRun t(1) usage time_run_safe [OF _ e] show ?thesis by (simp add: time_main_def)
  next
    case (TimeBad x)
    then have "safe (\<lambda>_. True) (print_line ''time: unknown option: %s'' [Str (Some x)])"
      using t(2) by (intro print_line_safe) (simp_all add: fmt_defs arg_ok_def)
    with TimeBad t(1) usage show ?thesis by (simp add: time_main_def safe_thenI)
  qed
qed

subsection \<open>kill\<close>

text \<open>No number an argument can be read as, whole or from some character on, leaves an \<open>int\<close>.\<close>

definition small_numbers :: "char list list \<Rightarrow> bool" where
  "small_numbers argv \<longleftrightarrow> list_all (\<lambda>a. list_all (\<lambda>k. atoi (drop k a) \<noteq> None) [0..<Suc (length (cstr a))]) argv"

lemma small_numbersD:
  assumes "small_numbers argv" "i < length argv"
  shows "atoi (argv ! i) \<noteq> None" "1 \<le> length (cstr (argv ! i)) \<Longrightarrow> atoi (drop 1 (argv ! i)) \<noteq> None"
proof -
  have *: "atoi (drop k (argv ! i)) \<noteq> None" if "k \<le> length (cstr (argv ! i))" for k
  proof -
    have "list_all (\<lambda>k. atoi (drop k (argv ! i)) \<noteq> None) [0..<Suc (length (cstr (argv ! i)))]"
      using assms by (simp only: small_numbers_def list_all_length [of _ argv])
    moreover have "k \<in> set [0..<Suc (length (cstr (argv ! i)))]" using that by auto
    ultimately show ?thesis unfolding list_all_iff by blast
  qed
  show "atoi (argv ! i) \<noteq> None" using * [of 0] by simp
  show "1 \<le> length (cstr (argv ! i)) \<Longrightarrow> atoi (drop 1 (argv ! i)) \<noteq> None" by (rule *)
qed

lemma all_digits_ok: "terminated s \<Longrightarrow> \<exists>b. all_digits s = Some b"
  by (induction s rule: all_digits.induct) auto

lemma find_signal_ok: "terminated s \<Longrightarrow> \<exists>v. find_signal ns s = Some v"
proof (induction ns)
  case (Cons n ns)
  obtain nm sig where n: "n = (nm, sig)" by (cases n)
  obtain r where "strcmp s (c_string nm) = Some r" using strcmp_eq_0 [OF Cons.prems, of "c_string nm"] by auto
  with Cons show ?case by (simp add: n)
qed simp

lemma starts_with_ok:
  "terminated s \<Longrightarrow> NUL \<notin> set xs \<Longrightarrow> \<exists>b. starts_with xs s = Some b \<and> (b \<longrightarrow> terminated (drop (length xs) s))"
  by (induction xs s rule: starts_with.induct) auto

lemma parse_signal_ok:
  assumes "terminated s" "atoi s \<noteq> None"
  shows "\<exists>v. parse_signal s = Some v"
proof -
  obtain b where b: "all_digits s = Some b" using all_digits_ok [OF assms(1)] by blast
  obtain p where p: "starts_with ''SIG'' s = Some p" "p \<longrightarrow> terminated (drop 3 s)"
    using starts_with_ok [OF assms(1), of "''SIG''"] by (auto simp: numeral_3_eq_3)
  have t: "terminated (if p then drop 3 s else s)" using p(2) assms(1) by simp
  obtain v where "find_signal signal_names (if p then drop 3 s else s) = Some v"
    using find_signal_ok [OF t] by blast
  with b p assms(2) show ?thesis by (auto simp: parse_signal_def)
qed

lemma kill_usage_safe: "arg_ok prog \<Longrightarrow> safe (\<lambda>_. True) (kill_usage prog)"
  unfolding kill_usage_def by (rule say_all_safe) (simp add: fmt_defs arg_ok_def)

lemma find_signal_range:
  "list_all (\<lambda>n. 0 < snd n \<and> snd n < 32) ns \<Longrightarrow> find_signal ns s = Some v \<Longrightarrow> - 1 \<le> v \<and> v < 32"
  by (induction ns) (auto split: bind_splits if_splits)

lemma parse_signal_range: "parse_signal s = Some v \<Longrightarrow> 0 < v \<Longrightarrow> pid_ok v"
proof -
  assume p: "parse_signal s = Some v" "0 < v"
  have names: "list_all (\<lambda>n. 0 < snd n \<and> snd n < 32) signal_names" by (simp add: signal_names_def)
  from p have "(\<exists>u. atoi s = Some u \<and> v = (if u > 0 then u else -1)) \<or> (\<exists>t. find_signal signal_names t = Some v)"
    by (auto simp: parse_signal_def split: bind_splits if_splits)
  then have "v \<le> INT_MAX"
    using atoi_range find_signal_range [OF names] p(2) by (fastforce simp: INT_MAX_def split: if_splits)
  with p(2) show "pid_ok v" by (simp add: pid_ok_def INT_MIN_def)
qed

lemma kill_pids_safe:
  assumes "args_ok argv" "small_numbers argv" "pid_ok sig"
  shows "i + n \<le> length argv \<Longrightarrow> safe (\<lambda>_. True) (kill_pids n i sig st argv)"
proof (induction n arbitrary: i st)
  case (Suc n)
  then have i: "i < length argv" by simp
  obtain pid where pid: "atoi (argv ! i) = Some pid" using small_numbersD(1) [OF assms(2) i] by auto
  have go: "safe (\<lambda>_. True) (kill_pids n (i + 1) sig st' argv)" for st' using Suc by simp
  have m1: "safe (\<lambda>_. True) (print_line (''kill: invalid pid '' @ quoted ''%s'') [Str (Some (argv ! i))])"
    using args_okD(2) [OF assms(1) i] by (intro print_line_safe) (simp_all add: fmt_defs arg_ok_def)
  have m2: "safe (\<lambda>_. True) (print_line ''kill: failed to send signal %d to pid %d''
      [W32 (word_of_int sig), W32 (word_of_int pid)])" if "0 < pid"
    using that atoi_range [OF pid] not_INT_MIN [OF assms(3)] not_INT_MIN [of pid]
    by (intro print_line_safe) (simp_all add: fmt_defs pid_ok_def INT_MIN_def)
  have "rd argv i = Some (argv ! i)" using i by (simp add: rd_in)
  with go show ?case unfolding kill_pids.simps
    by (simp add: pid del: append.simps)
      (auto intro!: safe_thenI [OF m1 [unfolded append.simps]] safe_thenI [OF m2] safe_thenI [OF u_calls_safe(6)])
qed simp

lemma rd_hd: "rd (x # xs) 0 = Some x"
  by (simp add: rd_def)

lemma kill_signal_safe:
  assumes "args_ok argv" "small_numbers argv" "1 < length argv" "arg_ok prog"
  shows "safe (\<lambda>r. case r of Inl _ \<Rightarrow> True | Inr (sig, i) \<Rightarrow> pid_ok sig) (kill_signal prog argv)"
proof -
  let ?Q = "\<lambda>r :: int + int \<times> nat. case r of Inl _ \<Rightarrow> True | Inr (sig, i) \<Rightarrow> pid_ok sig"
  note a1 = args_okD(2) [OF assms(1,3)]
  obtain s where s: "arg_is argv 1 ''-s'' = Some s" using arg_is_ok [OF assms(1,3)] by blast
  obtain c0 t where a: "argv ! 1 = c0 # t" using a1 by (cases "argv ! 1") (auto simp: arg_ok_def)
  have rd1: "rd argv 1 = Some (c0 # t)" using assms(3) a by (simp add: rd_in)
  have bad: "safe ?Q (say_then (''kill: invalid signal '' @ quoted ''%s'') [Str (Some x)] (Inl 1))" if "arg_ok x" for x
    using that by (intro say_then_safe) (simp_all add: fmt_defs arg_ok_def)
  have missing: "safe ?Q (bindP (print_line ''kill: missing signal after -s'' []) (\<lambda>_. bindP (kill_usage prog) (\<lambda>_. Ret (Inl 1))))"
    by (intro safe_thenI line_safe kill_usage_safe assms(4)) simp_all
  have spec: "safe ?Q (if sig \<le> 0 then say_then (''kill: invalid signal '' @ quoted ''%s'') [Str (Some x)] (Inl 1) else Ret (Inr (sig, k)))"
    if "arg_ok x" "parse_signal x = Some sig" for x sig k
    using bad [OF that(1)] parse_signal_range [OF that(2)] by auto
  show ?thesis
  proof (cases s)
    case True
    have "safe ?Q (tryP (do { b \<leftarrow> rd argv 2; sig \<leftarrow> parse_signal b; Some (b, sig) }) (\<lambda>(b, sig).
        if sig \<le> 0 then say_then (''kill: invalid signal '' @ quoted ''%s'') [Str (Some b)] (Inl 1) else Ret (Inr (sig, 3))))"
      if "2 < length argv"
    proof -
      note b = args_okD(2) [OF assms(1) that]
      obtain sig where "parse_signal (argv ! 2) = Some sig"
        using parse_signal_ok [OF _ small_numbersD(1) [OF assms(2) \<open>2 < length argv\<close>]] b by (auto simp: arg_ok_def)
      with that spec [OF b] show ?thesis by (simp add: rd_in)
    qed
    with True missing show ?thesis by (simp add: kill_signal_def Let_def s [simplified] rd1 [simplified] rd_hd del: append.simps)
  next
    case False
    have dash: "safe ?Q (tryP (parse_signal t) (\<lambda>sig. if sig \<le> 0
        then say_then (''kill: invalid signal '' @ quoted ''%s'') [Str (Some t)] (Inl 1) else Ret (Inr (sig, 2))))"
      if "c0 = CHR ''-''"
    proof -
      have t: "arg_ok t" using a1 [unfolded a] that by (simp add: arg_ok_def)
      have "atoi (drop 1 (argv ! 1)) \<noteq> None" using small_numbersD(2) [OF assms(2,3)] that by (simp add: a [simplified])
      then obtain sig where "parse_signal t = Some sig" using parse_signal_ok [of t] t by (auto simp: a [simplified] arg_ok_def)
      with spec [OF t] show ?thesis by simp
    qed
    obtain c1 where c1: "c0 = CHR ''-'' \<longrightarrow> rd (c0 # t) 1 = Some c1"
      using a1 [unfolded a] by (cases t) (auto simp: arg_ok_def rd_in)
    have "pid_ok 15" by (simp add: pid_ok_small)
    with False dash c1 show ?thesis
      by (cases "c0 = CHR ''-''") (simp_all add: kill_signal_def Let_def s [simplified] rd1 [simplified] rd_hd del: append.simps cong: if_cong)
  qed
qed

lemma kill_safe: "args_ok argv \<Longrightarrow> small_numbers argv \<Longrightarrow> safe (\<lambda>_. True) (kill_main argv)"
proof -
  assume a: "args_ok argv" "small_numbers argv"
  have prog: "rd argv 0 = Some (argv ! 0)" "arg_ok (argv ! 0)" using args_okD [OF a(1)] by (auto simp: rd_in)
  have usage: "safe (\<lambda>_. True) (bindP (kill_usage (argv ! 0)) (\<lambda>_. Ret (x :: int)))" for x
    by (intro safe_thenI [OF kill_usage_safe [OF prog(2)]]) simp
  show ?thesis
  proof (cases "length argv < 2")
    case True
    with usage show ?thesis by (simp add: kill_main_def prog(1))
  next
    case False
    then have l: "1 < length argv" by simp
    obtain h where h: "arg_is argv 1 ''--help'' = Some h" using arg_is_ok [OF a(1) l] by blast
    have missing: "safe (\<lambda>_. True) (bindP (print_line ''kill: missing pid'' []) (\<lambda>_. bindP (kill_usage (argv ! 0)) (\<lambda>_. Ret (1 :: int))))"
      by (intro safe_thenI line_safe kill_usage_safe prog(2)) simp_all
    have "safe (\<lambda>_. True) (bindP (kill_signal (argv ! 0) argv) (\<lambda>r. case r of Inl status \<Rightarrow> Ret status
        | Inr (sig, i) \<Rightarrow> if i \<ge> length argv
            then bindP (print_line ''kill: missing pid'' []) (\<lambda>_. bindP (kill_usage (argv ! 0)) (\<lambda>_. Ret 1))
            else kill_pids (length argv - i) i sig 0 argv))"
      by (rule safe_bindI [OF kill_signal_safe [OF a l prog(2)]])
        (auto split: sum.splits intro: kill_pids_safe [OF a] missing)
    with False usage h show ?thesis by (simp add: kill_main_def prog(1))
  qed
qed

subsection \<open>ls\<close>

text \<open>The state of the loops of \<open>build_path\<close>: as much of a text as fits before the last byte.\<close>

definition fitted :: "nat \<Rightarrow> char list \<Rightarrow> string \<Rightarrow> char list \<times> nat" where
  "fitted L buf t = (patch buf 0 (take L t), min L (length t))"

lemma fitted_put:
  assumes "L < length buf" "length t < L"
  shows "wr (fst (fitted L buf t)) (snd (fitted L buf t)) c = Some (fst (fitted L buf (t @ [c])))"
    "Suc (snd (fitted L buf t)) = snd (fitted L buf (t @ [c]))"
  using assms by (simp_all add: fitted_def wr_patch)

lemma fitted_full: "L \<le> length t \<Longrightarrow> fitted L buf (t @ u) = fitted L buf t"
  by (simp add: fitted_def min_def)

lemma copy_limited_ok:
  assumes "L < length buf"
  shows "i + k \<le> length s \<Longrightarrow>
    copy_limited k i s (Suc L) (fst (fitted L buf t)) (snd (fitted L buf t)) = Some (fitted L buf (t @ take k (drop i s)))"
proof (induction k arbitrary: i t)
  case (Suc k)
  then have s: "take (Suc k) (drop i s) = s ! i # take k (drop (Suc i) s)" "rd s i = Some (s ! i)"
    by (simp_all add: rd_in take_Suc_conv_app_nth flip: Cons_nth_drop_Suc)
  show ?case
  proof (cases "length t < L")
    case True
    have "copy_limited k (Suc i) s (Suc L) (fst (fitted L buf (t @ [s ! i]))) (snd (fitted L buf (t @ [s ! i])))
        = Some (fitted L buf (t @ take (Suc k) (drop i s)))"
      using Suc.IH [of "Suc i" "t @ [s ! i]"] Suc.prems by (simp add: s(1))
    then show ?thesis using True fitted_put [OF assms True]
      by (simp add: s(2)) (simp add: fitted_def)
  next
    case False
    then show ?thesis using fitted_full [of L t buf] by (simp add: fitted_def)
  qed
qed (simp add: fitted_def)

text \<open>The path of an entry: nothing before it in the current directory, one slash elsewhere.\<close>

definition joined :: "string \<Rightarrow> string \<Rightarrow> string" where
  "joined dir name =
     (if dir = ''.'' then name
      else dir @ (if dir \<noteq> [] \<and> last dir = CHR ''/'' then [] else ''/'') @ name)"

lemma build_path_ok:
  assumes "L < length buf" "terminated dir" "terminated name"
  shows "\<exists>r. build_path buf (Suc L) dir name = Some r \<and> str_row (length buf) r \<and> cstr r = take L (joined (cstr dir) (cstr name))"
proof -
  have fin: "\<exists>r. wr (fst (fitted L buf t)) (snd (fitted L buf t)) NUL = Some r \<and> str_row (length buf) r \<and> cstr r = take L t"
    if "no_nul t" for t
  proof -
    have "wr (patch buf 0 (take L t)) (min L (length t)) NUL = Some (patch buf 0 (c_string (take L t)))"
      using assms(1) by (subst wr_patch) (simp_all add: c_string_def)
    moreover have "no_nul (take L t)" using that by (rule no_nul_take)
    then have "cstr (patch buf 0 (c_string (take L t))) = take L t"
      using cstr_patch_c_string [of "take L t" 0 buf] assms(1) by simp
    ultimately show ?thesis using assms(1)
      by (auto simp: fitted_def str_row_def terminated_patch c_string_def min_def)
  qed
  define here where "here = (cstr dir = ''.'')"
  have here: "is_here dir = Some here"
  proof -
    obtain c0 u where dir: "dir = c0 # u" using assms(2) by (cases dir) auto
    with assms(2) show ?thesis by (cases u) (auto simp: is_here_def here_def rd_def)
  qed
  have nlen: "length (cstr name) \<le> length name" "take (length (cstr name)) name = cstr name"
    using length_cstr_less [OF assms(3)] take_cstr [OF assms(3)] by simp_all
  have dlen: "length (cstr dir) \<le> length dir" "take (length (cstr dir)) dir = cstr dir"
    using length_cstr_less [OF assms(2)] take_cstr [OF assms(2)] by simp_all
  show ?thesis
  proof (cases here)
    case True
    let ?n = "min L (length (cstr name))"
    have n: "(if length (cstr name) \<ge> Suc L then Suc L - 1 else length (cstr name)) = ?n" by (auto simp: min_def)
    have t: "take ?n name = take L (cstr name)" using nlen(2) by (metis take_take)
    have m: "memcpy buf 0 name 0 ?n = Some (fst (fitted L buf (cstr name)))"
      using assms(1) nlen by (subst memcpy_prefix) (auto simp: fitted_def t)
    obtain r where "wr (fst (fitted L buf (cstr name))) ?n NUL = Some r" "str_row (length buf) r" "cstr r = take L (cstr name)"
      using fin [of "cstr name"] by (auto simp: fitted_def)
    with True m n show ?thesis
      by (simp add: build_path_def here strlen_ok [OF assms(3)] joined_def here_def Let_def)
  next
    case False
    let ?d = "cstr dir" and ?sl = "if cstr dir \<noteq> [] \<and> last (cstr dir) = CHR ''/'' then [] else ''/''"
    have zero: "fitted L buf [] = (buf, 0)" by (simp add: fitted_def)
    have c1: "copy_limited (length ?d) 0 dir (Suc L) buf 0 = Some (fitted L buf ?d)"
      using copy_limited_ok [OF assms(1), of 0 "length ?d" dir "[]"] dlen by (simp add: zero)
    have c2: "put_slash (Suc L) (fst (fitted L buf ?d)) (snd (fitted L buf ?d)) = Some (fitted L buf (?d @ ?sl))"
    proof (cases "length ?d < L")
      case True
      have put: "wr (fst (fitted L buf ?d)) (snd (fitted L buf ?d)) (CHR ''/'') = Some (fst (fitted L buf (?d @ ''/'')))"
        "Suc (snd (fitted L buf ?d)) = snd (fitted L buf (?d @ ''/''))"
        by (rule fitted_put [OF assms(1) True])+
      have pos: "snd (fitted L buf ?d) = length ?d" using True by (simp add: fitted_def)
      have lastc: "rd (fst (fitted L buf ?d)) (length ?d - 1) = Some (last ?d)" if "?d \<noteq> []"
        using True assms(1) that
        by (simp add: fitted_def rd_def patch_def nth_append last_conv_nth)
      have eq: "(fst (fitted L buf ?d), length ?d) = fitted L buf ?d"
        "(fst (fitted L buf (?d @ ''/'')), snd (fitted L buf (?d @ ''/''))) = fitted L buf (?d @ ''/'')"
        using pos by (metis prod.collapse) simp
      from True put pos lastc eq show ?thesis by (cases "?d = []") (auto simp: put_slash_def)
    next
      case False
      with fitted_full [of L ?d buf ?sl] show ?thesis by (simp add: put_slash_def fitted_def)
    qed
    have c3: "copy_limited (length (cstr name)) 0 name (Suc L) (fst (fitted L buf (?d @ ?sl))) (snd (fitted L buf (?d @ ?sl)))
        = Some (fitted L buf ((?d @ ?sl) @ cstr name))"
      using copy_limited_ok [OF assms(1), of 0 "length (cstr name)" name "?d @ ?sl"] nlen by simp
    have j: "joined ?d (cstr name) = (?d @ ?sl) @ cstr name" using False by (simp add: joined_def here_def)
    have nn: "no_nul ((?d @ ?sl) @ cstr name)" by simp
    obtain r where r: "wr (fst (fitted L buf ((?d @ ?sl) @ cstr name))) (snd (fitted L buf ((?d @ ?sl) @ cstr name))) NUL = Some r"
        "str_row (length buf) r" "cstr r = take L (joined ?d (cstr name))"
      using fin [OF nn] unfolding j by blast
    have "build_path buf (Suc L) dir name = Some r"
      unfolding build_path_def
      using False c1 c2 c3 r(1)
      by (simp add: here strlen_ok [OF assms(3)] strlen_ok [OF assms(2)] case_prod_beta)
    with r show ?thesis by blast
  qed
qed

lemma print_size_human_safe: "safe (\<lambda>_. True) (print_size_human sz)"
proof -
  have u: "u \<le> 4 \<Longrightarrow> n + u \<le> 4 \<Longrightarrow> human_unit n sz u \<le> 4" for n u
    by (induction n arbitrary: u) auto
  have "human_unit 4 sz 0 < length ''BKMGT''" using u [of 0 4] by simp
  moreover have "safe (\<lambda>_. True) (printf ''%4.1f%c'' [Dbl b f, W32 c])" for b f c
    by (intro printf_plain) (simp_all add: fmt_defs plain_wide)
  ultimately show ?thesis by (auto simp: print_size_human_def Let_def rd_in simp del: list.size intro!: safe_thenI)
qed

lemma dirent_okD: "dirent_ok de \<Longrightarrow> arg_ok (d_name de)" "dirent_ok de \<Longrightarrow> terminated (d_name de)"
  using length_cstr_less [of "d_name de"] by (auto simp: dirent_ok_def arg_ok_def MAX_FILENAME_LEN_def)

lemma ls_entry_safe:
  assumes "dirent_ok de" "arg_ok (ls_path st)"
  shows "safe (\<lambda>_. True) (ls_entry st de)"
proof -
  note nm = dirent_okD [OF assms(1)]
  have m1: "safe (\<lambda>_. True) (printf ''%c '' [W32 t])" for t
    by (intro printf_plain) (simp_all add: fmt_defs)
  have m2: "safe (\<lambda>_. True) (bindP (printf ''%10ld'' [W32 (word_of_int v)]) (\<lambda>_. Ret ()))" if "0 \<le> v" "v \<le> INT_MAX" for v
    using that not_INT_MIN [of v] by (intro safe_thenI printf_plain) (simp_all add: fmt_defs plain_wide pid_ok_def INT_MIN_def)
  have m3: "safe (\<lambda>_. True) (print_line '' %s'' [Str (Some (d_name de))])"
    using nm by (intro print_line_safe) (simp_all add: fmt_defs arg_ok_def)
  have m4: "safe (\<lambda>_. True) (print_line ''%c          ? %s'' [W32 t, Str (Some (d_name de))])" for t
    using nm by (intro print_line_safe) (simp_all add: fmt_defs arg_ok_def)
  have m5: "safe (\<lambda>_. True) (print_line ''%s'' [Str (Some (d_name de))])"
    using nm by (intro print_line_safe) (simp_all add: fmt_defs arg_ok_def)
  obtain full where full: "build_path (replicate 256 NUL) 256 (ls_path st) (d_name de) = Some full" "terminated full"
    using build_path_ok [of 255 "replicate 256 NUL" "ls_path st" "d_name de"] assms(2) nm
    by (auto simp: arg_ok_def str_row_def)
  show ?thesis
  proof (cases "ls_long st")
    case True
    have "safe (\<lambda>_. True) (bindP (u_stat full zero_stat) (\<lambda>(r, sb).
             let t = W32 (of_nat (code (type_char de)))
             in if r = 0
                then bindP (printf ''%c '' [t]) (\<lambda>_.
                     bindP (if ls_human st then print_size_human (st_size sb)
                            else bindP (printf ''%10ld'' [W32 (word_of_int (st_size sb))]) (\<lambda>_. Ret ())) (\<lambda>_.
                     print_line '' %s'' [Str (Some (d_name de))]))
                else print_line ''%c          ? %s'' [t, Str (Some (d_name de))]))"
      by (rule safe_bindI [OF u_stat_safe [OF full(2)]])
        (auto simp: Let_def size_known_def m4 intro!: safe_thenI [OF m1] safe_thenI [OF m2] safe_thenI [OF print_size_human_safe] m3)
    with True full(1) show ?thesis by (simp add: ls_entry_def)
  next
    case False
    with m5 show ?thesis by (simp add: ls_entry_def)
  qed
qed

lemma is_dot_entry_ok: "dirent_ok de \<Longrightarrow> \<exists>b. is_dot_entry de = Some b"
  by (auto simp: is_dot_entry_def dirent_ok_def MAX_FILENAME_LEN_def rd_in)

lemma ls_entries_safe:
  assumes "\<forall>j < m. dirent_ok (ds ! j)" "m \<le> length ds" "arg_ok (ls_path st)"
  shows "i + n \<le> m \<Longrightarrow> safe (\<lambda>_. True) (ls_entries n i st ds)"
proof (induction n arbitrary: i)
  case (Suc n)
  then have de: "dirent_ok (ds ! i)" "rd ds i = Some (ds ! i)" using assms(1,2) by (simp_all add: rd_in)
  obtain b where b: "is_dot_entry (ds ! i) = Some b" using is_dot_entry_ok [OF de(1)] by blast
  have go: "safe (\<lambda>_. True) (ls_entries n (Suc i) st ds)" using Suc by simp
  show ?case using go ls_entry_safe [OF de(1) assms(3)]
    by (cases "ls_all st"; cases b) (simp_all add: de(2) b safe_thenI)
qed simp

lemma ls_letters_ok:
  "terminated s \<Longrightarrow> \<exists>r. ls_letters s st = Some r \<and> (case r of Inl _ \<Rightarrow> True | Inr st' \<Rightarrow> ls_path st' = ls_path st)"
proof (induction s st rule: ls_letters.induct)
  case (2 c s st)
  then show ?case
    by (cases "c = NUL"; cases "c = CHR ''l''"; cases "c = CHR ''a''"; cases "c = CHR ''h''")
      (auto split: sum.splits)
qed simp

lemma ls_args_safe:
  assumes "args_ok argv"
  shows "i + n \<le> length argv \<Longrightarrow> arg_ok (ls_path st) \<Longrightarrow>
    safe (\<lambda>r. case r of Inl _ \<Rightarrow> True | Inr st' \<Rightarrow> arg_ok (ls_path st')) (ls_args n i argv st)"
proof (induction n arbitrary: i st)
  case (Suc n)
  let ?Q = "\<lambda>r :: int + ls_opts. case r of Inl _ \<Rightarrow> True | Inr st' \<Rightarrow> arg_ok (ls_path st')"
  have i: "i < length argv" using Suc.prems by simp
  note ai = args_okD(2) [OF assms i]
  have prog: "rd argv 0 = Some (argv ! 0)" "arg_ok (argv ! 0)" using args_okD [OF assms] by (auto simp: rd_in)
  obtain b1 b2 b3 b4 where b: "arg_is argv i ''--help'' = Some b1" "arg_is argv i ''-l'' = Some b2"
      "arg_is argv i ''-a'' = Some b3" "arg_is argv i ''-h'' = Some b4"
    using arg_is_ok [OF assms i, of "''--help''"] arg_is_ok [OF assms i, of "''-l''"]
      arg_is_ok [OF assms i, of "''-a''"] arg_is_ok [OF assms i, of "''-h''"] by auto
  obtain c t where a: "argv ! i = c # t" using ai by (cases "argv ! i") (auto simp: arg_ok_def)
  obtain d where d: "strcmp (ls_path st) (c_string ''.'') = Some d"
    using strcmp_eq_0 [of "ls_path st" "c_string ''.''"] Suc.prems(2) by (auto simp: arg_ok_def)
  have go: "safe ?Q (ls_args n (i + 1) argv st')" if "arg_ok (ls_path st')" for st'
    using Suc.IH [of "i + 1" st'] Suc.prems that by simp
  have hlp: "safe ?Q (bindP (ls_help (argv ! 0)) (\<lambda>_. Ret (Inl 0)))"
    unfolding ls_help_def using prog(2)
    by (intro safe_thenI say_all_safe) (simp_all add: fmt_defs arg_ok_def)
  have again: "safe ?Q (bindP (try_help (argv ! 0)) (\<lambda>s. Ret (Inl s)))"
    by (intro safe_thenI [OF try_help_safe [OF prog(2)]]) simp
  have many: "safe ?Q (bindP (print_line ''ls: too many arguments'' []) (\<lambda>_. bindP (try_help (argv ! 0)) (\<lambda>s. Ret (Inl s))))"
    by (intro safe_thenI line_safe again) simp_all
  have unknown: "safe ?Q (bindP (print_line (''ls: unknown option '' @ quoted ''-%c'') [W32 x]) (\<lambda>_.
      bindP (try_help (argv ! 0)) (\<lambda>s. Ret (Inl s))))" for x
    by (intro safe_thenI [OF print_line_safe again]) (simp_all add: fmt_defs)
  have letters: "safe ?Q (tryP (ls_letters t st) (\<lambda>r. case r of
        Inr st1 \<Rightarrow> ls_args n (i + 1) argv st1
      | Inl x \<Rightarrow> bindP (print_line (''ls: unknown option '' @ quoted ''-%c'') [W32 (of_nat (code x))]) (\<lambda>_.
          bindP (try_help (argv ! 0)) (\<lambda>s. Ret (Inl s)))))" if "c = CHR ''-''"
  proof -
    have "terminated t" using ai [unfolded a] that by (simp add: arg_ok_def)
    then obtain r where r: "ls_letters t st = Some r" "case r of Inl _ \<Rightarrow> True | Inr st' \<Rightarrow> ls_path st' = ls_path st"
      using ls_letters_ok [of t st] by blast
    show ?thesis
    proof (cases r)
      case (Inl x)
      with r(1) unknown show ?thesis by (simp del: append.simps)
    next
      case (Inr st1)
      with r go [of st1] Suc.prems(2) show ?thesis by (simp del: append.simps)
    qed
  qed
  have rdi: "rd argv i = Some (c # t)" using i a by (simp add: rd_in)
  show ?case unfolding ls_args.simps rdi prog(1) b d bind.bind_lunit rd_hd tryP_simps prod.case
    using go Suc.prems(2) ai letters
    by (intro safe_if hlp many) (simp_all add: a del: append.simps)
qed simp

lemma ls_safe: "args_ok argv \<Longrightarrow> safe (\<lambda>_. True) (ls_main argv)"
proof -
  assume a: "args_ok argv"
  have args: "safe (\<lambda>r. case r of Inl _ \<Rightarrow> True | Inr st' \<Rightarrow> arg_ok (ls_path st'))
      (ls_args (length argv - 1) 1 argv \<lparr>ls_path = c_string ''.'', ls_long = False, ls_all = False, ls_human = False\<rparr>)"
    using args_okD(1) [OF a] by (intro ls_args_safe [OF a]) (cases argv, simp_all add: arg_ok_def)
  have run: "safe (\<lambda>_. True) (bindP (u_open (ls_path st) O_RDONLY 0) (\<lambda>fd.
             if fd < 0 then say_then (''ls: cannot open '' @ quoted ''%s'') [Str (Some (ls_path st))] (1 :: int)
             else bindP (u_getdents fd (replicate 256 zero_entry) (256 * SIZEOF_DIRENT)) (\<lambda>(nbytes, ds).
               if nbytes < 0
               then bindP (print_line ''ls: getdents failed'' []) (\<lambda>_. bindP (u_close fd) (\<lambda>_. Ret 1))
               else bindP (ls_entries (nat nbytes div unat SIZEOF_DIRENT) 0 st ds) (\<lambda>_.
                    bindP (u_close fd) (\<lambda>_. Ret 0)))))" if st: "arg_ok (ls_path st)" for st
  proof -
    have m1: "safe (\<lambda>_. True) (say_then (''ls: cannot open '' @ quoted ''%s'') [Str (Some (ls_path st))] (1 :: int))"
      using st by (intro say_then_safe) (simp_all add: fmt_defs arg_ok_def)
    have path: "terminated (ls_path st)" using st by (simp add: arg_ok_def)
    have m2: "safe (\<lambda>_. True) (bindP (print_line ''ls: getdents failed'' []) (\<lambda>_. bindP (u_close fd) (\<lambda>_. Ret (1 :: int))))" for fd
      by (intro safe_thenI line_safe u_calls_safe(4)) simp_all
    have ents: "safe (\<lambda>_. True) (ls_entries (nat nb div unat SIZEOF_DIRENT) 0 st ds)"
      if "nb \<le> 0 \<or> (\<exists>n. nb = int (n * unat SIZEOF_DIRENT) \<and> n \<le> length ds \<and> (\<forall>i < n. dirent_ok (ds ! i)))" for nb ds
      using that
    proof (elim disjE exE conjE)
      assume "nb \<le> 0"
      then show ?thesis by simp
    next
      fix n assume n: "nb = int (n * unat SIZEOF_DIRENT)" "n \<le> length ds" "\<forall>i < n. dirent_ok (ds ! i)"
      have "nat nb div unat SIZEOF_DIRENT = n" unfolding n(1) nat_int by (simp add: SIZEOF_DIRENT_def)
      with ls_entries_safe [OF n(3,2) st, of 0 n] show ?thesis by simp
    qed
    have dents: "safe (\<lambda>(r, b'). r \<le> 0 \<or> (\<exists>n. r = int (n * unat SIZEOF_DIRENT) \<and> n \<le> length b' \<and> (\<forall>i < n. dirent_ok (b' ! i))))
        (u_getdents fd (replicate 256 zero_entry) (256 * SIZEOF_DIRENT))" for fd
      by (rule safe_mono [OF u_getdents_safe]) (simp add: SIZEOF_DIRENT_def, blast)
    have tail: "safe (\<lambda>_. True) (if nb < 0 then bindP (print_line ''ls: getdents failed'' []) (\<lambda>_. bindP (u_close fd) (\<lambda>_. Ret (1 :: int)))
        else bindP (ls_entries (nat nb div unat SIZEOF_DIRENT) 0 st ds) (\<lambda>_. bindP (u_close fd) (\<lambda>_. Ret 0)))"
      if "nb \<le> 0 \<or> (\<exists>n. nb = int (n * unat SIZEOF_DIRENT) \<and> n \<le> length ds \<and> (\<forall>i < n. dirent_ok (ds ! i)))" for fd nb ds
      by (intro safe_if m2 safe_thenI [OF ents [OF that]] safe_thenI [OF u_calls_safe(4)]) simp
    show ?thesis
      by (intro safe_thenI [OF u_calls_safe(3) [OF path]] safe_if m1 safe_bindI [OF dents])
        (simp only: case_prod_beta, rule tail)
  qed
  show ?thesis unfolding ls_main_def
    by (rule safe_bindI [OF args]) (auto split: sum.splits intro: run)
qed

subsection \<open>spawn_chain\<close>

lemma digits_down_eq: "unat n < 10 ^ k \<Longrightarrow> digits_down k n ds = ds @ rdigits (unat n)"
proof (induction k arbitrary: n ds)
  case 0
  then show ?case by simp
next
  case (Suc k)
  show ?case
  proof (cases "n = 0")
    case False
    then have pos: "0 < unat n" "n > 0" by (simp_all add: unat_gt_0 word_neq_0_conv)
    have "unat (n div 10) < 10 ^ k" using Suc.prems by (simp add: unat_div_distrib div_less_iff_less_mult mult.commute)
    with Suc.IH pos show ?thesis
      by (simp add: rdigits_pos unat_div_distrib unat_mod_distrib)
  qed simp
qed

lemma u32_to_str_ok:
  assumes "11 \<le> length buf"
  shows "\<exists>r. u32_to_str n buf = Some r \<and> str_row (length buf) r \<and> cstr r = dec (unat n)"
proof (cases "n = 0")
  case True
  obtain a b t where "buf = a # b # t" using assms by (cases buf; cases "tl buf") auto
  with True show ?thesis by (auto simp: u32_to_str_def wr_def str_row_def dec_def)
next
  case False
  let ?d = "rdigits (unat n)"
  have "unat n < 10 ^ 10" by (rule less_trans [OF unat_lt_2_32]) simp
  then have dd: "digits_down 10 n [] = ?d" "length ?d \<le> 10"
    using digits_down_eq [of n 10 "[]"] rdigits_length [of "unat n" 10] by simp_all
  have dec: "dec (unat n) = rev ?d" using False by (simp add: dec_def unat_eq_0)
  have "memcpy_loop buf 0 (rev ?d) 0 (length ?d) = Some (patch buf 0 (rev ?d))"
    using dd(2) assms memcpy_prefix [of "length ?d" "rev ?d" 0 buf] by (simp add: memcpy_def)
  moreover have "wr (patch buf 0 (rev ?d)) (length ?d) NUL = Some (patch buf 0 (c_string (rev ?d)))"
    using dd(2) assms by (subst wr_patch) (simp_all add: c_string_def)
  ultimately have "u32_to_str n buf = Some (patch buf 0 (c_string (rev ?d)))"
    using False by (simp add: u32_to_str_def dd(1) Let_def)
  moreover have "no_nul (rev ?d)" using no_nul_dec [of "unat n"] by (simp add: dec)
  then have "cstr (patch buf 0 (c_string (rev ?d))) = dec (unat n)"
    using cstr_patch_c_string [of "rev ?d" 0 buf] dd(2) assms by (simp add: dec)
  ultimately show ?thesis using dd(2) assms by (auto simp: str_row_def terminated_patch c_string_def)
qed

text \<open>Arguments that are accepted give a count between 1 and \<open>MAX_DEPTH\<close>.\<close>

lemma named_args_safe:
  assumes "args_ok argv" "small_numbers argv"
  shows "unat count \<le> 100000 \<Longrightarrow>
    safe (\<lambda>(res, c). res = 0 \<longrightarrow> 0 < unat c \<and> unat c \<le> 100000) (named_args i argv count)"
proof (induction "length argv - i" arbitrary: i count rule: less_induct)
  case less
  let ?Q = "\<lambda>(res :: int, c :: u32). res = 0 \<longrightarrow> 0 < unat c \<and> unat c \<le> 100000"
  have prog: "rd argv 0 = Some (argv ! 0)" "arg_ok (argv ! 0)" using args_okD [OF assms(1)] by (auto simp: rd_in)
  have msg: "safe ?Q (say_then s [] (-1, count))"
    if "list_all (\<lambda>c. c \<noteq> NUL \<and> c \<noteq> CHR ''%'') s" "length s < 999" for s
    using that plain_line [of s] by (intro say_then_safe) simp_all
  have hlp: "safe ?Q (bindP (chain_help (argv ! 0)) (\<lambda>_. Ret (1, count)))"
    unfolding chain_help_def using prog(2) not_INT_MIN [of MAX_DEPTH]
    by (intro safe_thenI say_all_safe) (simp_all add: fmt_defs arg_ok_def MAX_DEPTH_def pid_ok_def INT_MIN_def INT_MAX_def)
  show ?case
  proof (cases "i < length argv")
    case False
    have "safe ?Q (if count = 0 then say_then ''error: missing required --count argument'' [] (-1, count) else Ret (0, count))"
      using less.prems by (intro safe_if msg) (simp_all add: unat_gt_0 word_neq_0_conv)
    with False show ?thesis by (simp add: named_args.simps [of i])
  next
    case True
    note ai = args_okD(2) [OF assms(1) True]
    obtain h c where hc: "arg_is argv i ''--help'' = Some h" "arg_is argv i ''--count'' = Some c"
      using arg_is_ok [OF assms(1) True, of "''--help''"] arg_is_ok [OF assms(1) True, of "''--count''"] by auto
    have rdi: "rd argv i = Some (argv ! i)" using True by (simp add: rd_in)
    have unk: "safe ?Q (say_then (''error: unknown argument '' @ quoted ''%s'') [Str (Some (argv ! i))] (-1, count))"
      using ai by (intro say_then_safe) (simp_all add: fmt_defs arg_ok_def)
    have big: "safe ?Q (say_then ''error: count too large (max %d)'' [W32 (word_of_int MAX_DEPTH)] (-1, count))"
      using not_INT_MIN [of MAX_DEPTH]
      by (intro say_then_safe) (simp_all add: fmt_defs MAX_DEPTH_def pid_ok_def INT_MIN_def INT_MAX_def)
    have num: "safe ?Q (tryP (do { v \<leftarrow> rd argv (i + 1); atoi v }) (\<lambda>n.
        if n < 0 then say_then ''error: count must be >= 0'' [] (-1, count)
        else if n > MAX_DEPTH then say_then ''error: count too large (max %d)'' [W32 (word_of_int MAX_DEPTH)] (-1, count)
        else named_args (i + 2) argv (word_of_int n)))" if "i + 1 < length argv"
    proof -
      obtain n where n: "atoi (argv ! (i + 1)) = Some n" using small_numbersD(1) [OF assms(2) \<open>i + 1 < length argv\<close>] by auto
      have "unat (word_of_int n :: u32) \<le> 100000" if "0 \<le> n" "n \<le> MAX_DEPTH"
        using that unat_of_nat_32 [of "nat n"] by (simp add: MAX_DEPTH_def)
      then have "safe ?Q (named_args (i + 2) argv (word_of_int n))" if "0 \<le> n" "n \<le> MAX_DEPTH"
        using that True by (intro less.hyps) simp_all
      moreover have "safe ?Q (say_then ''error: count must be >= 0'' [] (-1, count))" by (rule msg) simp_all
      ultimately show ?thesis using that big by (simp add: rd_in n [simplified])
    qed
    have missing: "safe ?Q (say_then ''error: missing value after --count'' [] (-1, count))" by (rule msg) simp_all
    show ?thesis
      using True hlp num missing unk
      by (subst named_args.simps) (auto simp: hc rdi prog(1) simp del: append.simps)
  qed
qed

subsection \<open>Properties\<close>

text \<open>
  C28: the user programs never leave their objects. On argument and environment vectors whose strings are
  terminated and of at most a page, where no argument holds a number outside an \<open>int\<close>, \<open>echo\<close>, \<open>pwd\<close>,
  \<open>printenv\<close>, \<open>clear\<close>, \<open>cat\<close>, \<open>uptime\<close>, \<open>time\<close>, \<open>ls\<close> (long and human readable listings included) and
  \<open>kill\<close> stay inside their arrays, print with well-formed formats, never pass a call a length above that
  of the object they pass with it, and pass only terminated strings. The kernel is any that keeps the contract
  \<open>admissible\<close>: it writes no more than the length it is given. The programs are checked against that
  contract; that the kernel keeps it is not shown here.
\<close>

theorem programs_stay_inside:
  assumes "args_ok argv" "small_numbers argv" "list_all arg_ok envp"
  shows "safe (\<lambda>_. True) (echo_main argv) \<and> safe (\<lambda>_. True) pwd_main
    \<and> safe (\<lambda>_. True) (printenv_main None) \<and> safe (\<lambda>_. True) (printenv_main (Some envp))
    \<and> safe (\<lambda>_. True) clear_main \<and> safe (\<lambda>_. True) (cat_main fuel argv) \<and> safe (\<lambda>_. True) (uptime_main argv)
    \<and> safe (\<lambda>_. True) (time_main argv envp) \<and> safe (\<lambda>_. True) (ls_main argv) \<and> safe (\<lambda>_. True) (kill_main argv)"
proof -
  have "list_all terminated envp" using assms(3) by (auto simp: list_all_iff arg_ok_def)
  with assms show ?thesis by (simp add: echo_safe pwd_safe printenv_safe clear_safe cat_safe uptime_safe time_safe ls_safe kill_safe)
qed

theorem programs_stay_inside_witness:
  "safe (\<lambda>_. True) (kill_main [c_string ''kill'', c_string ''-KILL'', c_string ''12''])"
proof -
  have "args_ok [c_string ''kill'', c_string ''-KILL'', c_string ''12'']" by (simp add: args_ok_def arg_ok_def)
  moreover have "small_numbers [c_string ''kill'', c_string ''-KILL'', c_string ''12'']"
    by (simp add: small_numbers_def upt_rec c_string_def atoi_def is_blank_def is_digit_def code_def rd_def chk_int_def
        INT_MIN_def INT_MAX_def)
  ultimately show ?thesis
    using programs_stay_inside [of "[c_string ''kill'', c_string ''-KILL'', c_string ''12'']" "[c_string ''HOME=/'']"]
    by (simp add: arg_ok_def)
qed

text \<open>
  \<open>spawn_chain\<close> refuses the count with which it starts its last child. A chain of one passes \<open>0\<close>
  on; started so, the program prints an error and exits with status 1. Its leaf branch is never
  reached: arguments that are accepted always give a positive count.
\<close>

theorem spawn_chain_leaf_refused:
  assumes "args_ok argv" "small_numbers argv"
  shows "(\<exists>row. u32_to_str (1 - 1) (replicate 16 NUL) = Some row \<and> cstr row = ''0''
      \<and> chain_main [prog, c_string ''--count'', row] = bindP (print_line ''error: missing required --count argument'' []) (\<lambda>_. Ret 1))
    \<and> safe (\<lambda>(res, count). res = 0 \<longrightarrow> 0 < unat count \<and> unat count \<le> 100000) (named_args 1 argv 0)"
proof
  obtain row where row: "u32_to_str 0 (replicate 16 NUL) = Some row" "cstr row = ''0''" "row = CHR ''0'' # NUL # replicate 14 NUL"
    by (simp add: u32_to_str_def wr_def numeral_eq_Suc)
  have at: "atoi row = Some 0"
    unfolding row(3) by (simp add: atoi_def is_blank_def is_digit_def code_def rd_def chk_int_def INT_MIN_def INT_MAX_def)
  have ne: "arg_is [prog, c_string ''--count'', row] 1 ''--help'' = Some False"
    "arg_is [prog, c_string ''--count'', row] 1 ''--count'' = Some True"
    by (simp_all add: arg_is_def rd_def c_string_def)
  have "named_args 1 [prog, c_string ''--count'', row] 0 = say_then ''error: missing required --count argument'' [] (-1, 0)"
    by (simp add: named_args.simps [of "Suc (Suc (Suc 0))"] named_args.simps [of "Suc 0"] ne [simplified] rd_def at
        MAX_DEPTH_def numeral_3_eq_3)
  with row show "\<exists>row. u32_to_str (1 - 1) (replicate 16 NUL) = Some row \<and> cstr row = ''0''
      \<and> chain_main [prog, c_string ''--count'', row] = bindP (print_line ''error: missing required --count argument'' []) (\<lambda>_. Ret 1)"
    by (auto simp: chain_main_def say_then_def bindP_assoc)
  show "safe (\<lambda>(res, count). res = 0 \<longrightarrow> 0 < unat count \<and> unat count \<le> 100000) (named_args 1 argv 0)"
    using named_args_safe [OF assms, of 0 1] by simp
qed

theorem spawn_chain_leaf_refused_witness:
  "\<exists>row. u32_to_str (1 - 1) (replicate 16 NUL) = Some row
    \<and> chain_main [c_string ''chain'', c_string ''--count'', row] =
        bindP (print_line ''error: missing required --count argument'' []) (\<lambda>_. Ret 1)"
proof -
  have "args_ok [c_string ''chain'']" by (simp add: args_ok_def arg_ok_def)
  moreover have "small_numbers [c_string ''chain'']"
    by (simp add: small_numbers_def upt_rec c_string_def atoi_def is_blank_def is_digit_def code_def rd_def chk_int_def
        INT_MIN_def INT_MAX_def)
  ultimately show ?thesis using spawn_chain_leaf_refused [of "[c_string ''chain'']" "c_string ''chain''"] by blast
qed

end
