(* ===== verification/Loader.thy ===== *)
theory Loader
  imports Exec
begin

section \<open>What the loader puts into a program's memory\<close>

text \<open>
  The functional behaviour of kernel/core/elf_loader.c and of the code that gives a new program its
  arguments and its environment (kernel/core/sched.c: \<open>task_init_args\<close>, \<open>task_init_env\<close>). An image is
  read as its list of loadable segments (\<open>segments\<close>); \<open>elf_load\<close> lays them over the memory of the
  program one after the other (\<open>overlay\<close>). A vector of strings becomes an array of pointers, ended by
  a null pointer, with the strings behind it.
\<close>

definition REGION_END :: nat where "REGION_END = 5242880"

lemma region_bounds: "in_region a \<longleftrightarrow> 4194304 \<le> unat a \<and> unat a < REGION_END"
  by (simp add: in_region_def PROCESS_VA_BASE_def PROCESS_VA_SIZE_def REGION_END_def word_le_nat_alt word_less_nat_alt)

text \<open>A stretch of \<open>n\<close> bytes from address \<open>a\<close> on.\<close>

definition stretch_ok :: "u32 \<Rightarrow> nat \<Rightarrow> bool" where
  "stretch_ok a n \<longleftrightarrow> 4194304 \<le> unat a \<and> unat a + n \<le> REGION_END"

definition put_bytes :: "u32 \<Rightarrow> char list \<Rightarrow> (u32 \<Rightarrow> char) \<Rightarrow> u32 \<Rightarrow> char" where
  "put_bytes a cs m b = (if unat a \<le> unat b \<and> unat b < unat a + length cs then cs ! (unat b - unat a) else m b)"

definition set_mem :: "nat \<Rightarrow> (u32 \<Rightarrow> char) \<Rightarrow> kernel \<Rightarrow> kernel" where
  "set_mem i m k = k\<lparr>k_mem := (k_mem k)(i := m)\<rparr>"

lemma set_mem_simps [simp]:
  "k_mem (set_mem i m k) i = m" "k_tasks (set_mem i m k) = k_tasks k" "set_mem i m (set_mem i m' k) = set_mem i m k"
  "set_mem i (k_mem k i) k = k"
  by (simp_all add: set_mem_def)

lemma put_bytes_Nil [simp]: "put_bytes a [] m = m"
  by (auto simp: put_bytes_def fun_eq_iff)

lemma unat_add_small: "unat a + n \<le> REGION_END \<Longrightarrow> unat (a + of_nat n) = unat (a :: u32) + n"
proof -
  assume "unat a + n \<le> REGION_END"
  then have "unat a + n < 4294967296" "n < 4294967296" by (simp_all add: REGION_END_def)
  then show ?thesis by (simp add: unat_word_ariths unat_of_nat)
qed

lemma unat_suc_small: "unat a + 1 \<le> REGION_END \<Longrightarrow> unat (a + 1) = Suc (unat (a :: u32))"
  using unat_add_small [of a 1] by simp

lemma put_bytes_Cons:
  assumes "stretch_ok a (Suc (length cs))" shows "put_bytes (a + 1) cs (m(a := c)) = put_bytes a (c # cs) m"
proof
  fix b
  have a: "unat (a + 1) = Suc (unat a)" by (rule unat_suc_small) (use assms in \<open>simp add: stretch_ok_def\<close>)
  show "put_bytes (a + 1) cs (m(a := c)) b = put_bytes a (c # cs) m b"
  proof (cases "unat b = unat a")
    case True
    then show ?thesis using word_unat_eq_iff [of b a] by (simp add: put_bytes_def a)
  next
    case False
    then have "b \<noteq> a" "unat a < unat b \<Longrightarrow> unat b - unat a = Suc (unat b - Suc (unat a))" by auto
    then show ?thesis using False by (simp add: put_bytes_def a Suc_le_eq)
  qed
qed

lemma mem_wr_list_ok:
  "process_mapped i \<Longrightarrow> stretch_ok a (length cs) \<Longrightarrow> mem_wr_list i a cs k = Inr (set_mem i (put_bytes a cs (k_mem k i)) k)"
proof (induction cs arbitrary: a k)
  case (Cons c cs)
  have "in_region a" "unat (a + 1) = Suc (unat a)"
    using Cons.prems(2) by (simp_all add: region_bounds stretch_ok_def unat_suc_small)
  moreover from this have "stretch_ok (a + 1) (length cs)" using Cons.prems(2) by (simp add: stretch_ok_def)
  moreover have "put_bytes (a + 1) cs ((k_mem k i)(a := c)) = put_bytes a (c # cs) (k_mem k i)"
    by (rule put_bytes_Cons) (use Cons.prems(2) in simp)
  ultimately show ?case using Cons.IH [OF Cons.prems(1)] Cons.prems(1) by (simp add: mem_wr_def set_mem_def)
qed simp

lemma mem_fill_is_list: "mem_fill i a c n k = mem_wr_list i a (replicate n c) k"
proof (induction n arbitrary: a k)
  case (Suc n)
  have "mem_fill i (a + 1) c n = mem_wr_list i (a + 1) (replicate n c)" by (rule ext) (rule Suc.IH)
  then show ?case by simp
qed simp

subsection \<open>Segments\<close>

record segment =
  sg_offset :: nat
  sg_vaddr :: u32
  sg_filesz :: nat
  sg_memsz :: nat

definition get32 :: "char list \<Rightarrow> nat \<Rightarrow> u32" where
  "get32 img off = le32 (take 4 (drop off img))"

definition header_at :: "char list \<Rightarrow> nat \<Rightarrow> segment" where
  "header_at img ph = \<lparr> sg_offset = unat (get32 img (ph + 4)), sg_vaddr = get32 img (ph + 8),
     sg_filesz = unat (get32 img (ph + 16)), sg_memsz = unat (get32 img (ph + 20)) \<rparr>"

text \<open>The loadable ones of \<open>n\<close> program headers.\<close>

definition segments_at :: "char list \<Rightarrow> nat \<Rightarrow> nat \<Rightarrow> segment list" where
  "segments_at img ph n = map (header_at img) (filter (\<lambda>p. get32 img p = 1) (map (\<lambda>i. ph + 32 * i) [0..<n]))"

definition segment_ok :: "char list \<Rightarrow> segment \<Rightarrow> bool" where
  "segment_ok img sg \<longleftrightarrow> (sg_filesz sg \<noteq> 0 \<longrightarrow> sg_offset sg + sg_filesz sg \<le> length img)
     \<and> stretch_ok (sg_vaddr sg) (max (sg_filesz sg) (sg_memsz sg))"

definition segment_bytes :: "char list \<Rightarrow> segment \<Rightarrow> char list" where
  "segment_bytes img sg = take (sg_filesz sg) (drop (sg_offset sg) img) @ replicate (sg_memsz sg - sg_filesz sg) NUL"

definition segment_end :: "segment \<Rightarrow> u32" where
  "segment_end sg = sg_vaddr sg + of_nat (sg_memsz sg)"

definition overlay :: "char list \<Rightarrow> segment list \<Rightarrow> (u32 \<Rightarrow> char) \<Rightarrow> u32 \<Rightarrow> char" where
  "overlay img sgs m = fold (\<lambda>sg. put_bytes (sg_vaddr sg) (segment_bytes img sg)) sgs m"

lemma length_segment_bytes:
  "segment_ok img sg \<Longrightarrow> length (segment_bytes img sg) = max (sg_filesz sg) (sg_memsz sg)"
  by (cases "sg_filesz sg = 0") (auto simp: segment_ok_def segment_bytes_def)

lemma put_bytes_append:
  assumes "unat a' = unat a + length xs" shows "put_bytes a' ys (put_bytes a xs m) = put_bytes a (xs @ ys) m"
  using assms by (auto simp: put_bytes_def fun_eq_iff nth_append)

lemma load_segment_ok:
  assumes "process_mapped slot" "segment_ok img sg" "sg = \<lparr> sg_offset = unat off, sg_vaddr = va, sg_filesz = unat fsz, sg_memsz = unat msz \<rparr>"
  shows "load_segment slot img off va fsz msz k = Inr (set_mem slot (put_bytes va (segment_bytes img sg) (k_mem k slot)) k)"
proof -
  let ?bs = "take (unat fsz) (drop (unat off) img)"
  have o: "img_bytes img (unat off) (unat fsz) = Inr ?bs" "length ?bs = unat fsz"
    and st: "stretch_ok va (max (unat fsz) (unat msz))"
    using assms(2) by (auto simp: assms(3) segment_ok_def img_bytes_def)
  have w: "mem_wr_list slot va ?bs k = Inr (set_mem slot (put_bytes va ?bs (k_mem k slot)) k)"
    by (rule mem_wr_list_ok [OF assms(1)]) (use st o(2) in \<open>auto simp: stretch_ok_def\<close>)
  show ?thesis
  proof (cases "fsz < msz")
    case True
    then have d: "unat (msz - fsz) = unat msz - unat fsz" "unat fsz \<le> unat msz" by (simp_all add: unat_sub word_less_nat_alt order.strict_implies_order word_le_nat_alt)
    have u: "unat (va + fsz) = unat va + unat fsz"
      using unat_add_small [of va "unat fsz"] st d(2) by (simp add: stretch_ok_def)
    have "stretch_ok (va + fsz) (length (replicate (unat (msz - fsz)) NUL))" using st u d by (simp add: stretch_ok_def)
    from mem_wr_list_ok [OF assms(1) this] show ?thesis
      using o w True put_bytes_append [of "va + fsz" va ?bs] u d
      by (simp add: load_segment_def mem_fill_is_list assms(3) segment_bytes_def)
  next
    case False
    then have "unat msz - unat fsz = 0" by (simp add: word_less_nat_alt)
    then show ?thesis using o w False by (simp add: load_segment_def assms(3) segment_bytes_def)
  qed
qed

lemma img32_ok: "off + 4 \<le> length img \<Longrightarrow> img32 img off = Inr (get32 img off)"
  by (simp add: img32_def get32_def)

lemma segments_at_Suc:
  "segments_at img ph (Suc n) = (if get32 img ph = 1 then [header_at img ph] else []) @ segments_at img (ph + 32) n"
proof -
  have "map (\<lambda>i. ph + 32 * i) [0..<Suc n] = ph # map (\<lambda>i. ph + 32 + 32 * i) [0..<n]"
    by (simp add: upt_conv_Cons map_Suc_upt [symmetric] o_def add.assoc del: upt_Suc)
  then show ?thesis unfolding segments_at_def by simp
qed

lemma load_segments_ok:
  assumes "process_mapped slot" "ph + 32 * n \<le> length img" "\<forall>sg \<in> set (segments_at img ph n). segment_ok img sg"
  shows "load_segments n slot img ph e sz k =
    Inr (fold max (map segment_end (segments_at img ph n)) e, sz + sum_list (map (\<lambda>sg. of_nat (sg_filesz sg)) (segments_at img ph n)),
      set_mem slot (overlay img (segments_at img ph n) (k_mem k slot)) k)"
  using assms(2,3)
proof (induction n arbitrary: ph e sz k)
  case 0
  then show ?case by (simp add: segments_at_def overlay_def)
next
  case (Suc n)
  have ph: "ph + 32 \<le> length img" "ph + 32 + 32 * n \<le> length img" using Suc.prems(1) by simp_all
  have IH: "load_segments n slot img (ph + 32) e sz k = Inr (fold max (map segment_end (segments_at img (ph + 32) n)) e,
      sz + sum_list (map (\<lambda>sg. of_nat (sg_filesz sg)) (segments_at img (ph + 32) n)),
      set_mem slot (overlay img (segments_at img (ph + 32) n) (k_mem k slot)) k)" for e sz k
    by (rule Suc.IH [OF ph(2)]) (use Suc.prems(2) segments_at_Suc in auto)
  show ?case
  proof (cases "get32 img ph = 1")
    case False
    then show ?thesis using ph(1) IH by (simp add: img32_ok segments_at_Suc)
  next
    case True
    let ?sg = "header_at img ph"
    have "segment_ok img ?sg" using Suc.prems(2) True segments_at_Suc by auto
    from load_segment_ok [OF assms(1) this header_at_def]
    have l: "load_segment slot img (get32 img (ph + 4)) (get32 img (ph + 8)) (get32 img (ph + 16)) (get32 img (ph + 20)) k
        = Inr (set_mem slot (put_bytes (sg_vaddr ?sg) (segment_bytes img ?sg) (k_mem k slot)) k)" for k
      by (simp add: header_at_def)
    have e: "(if get32 img (ph + 8) + get32 img (ph + 20) > e then get32 img (ph + 8) + get32 img (ph + 20) else e) = max (segment_end ?sg) e"
      "get32 img (ph + 16) = of_nat (sg_filesz ?sg)" for e
      by (auto simp: header_at_def segment_end_def max_def)
    show ?thesis
      using ph(1) True IH l by (simp add: img32_ok segments_at_Suc overlay_def Let_def e add.assoc)
  qed
qed

subsection \<open>Images\<close>

definition image_ok :: "char list \<Rightarrow> bool" where
  "image_ok img \<longleftrightarrow> 52 \<le> length img \<and> take 4 img = ELF_MAGIC \<and> le16 (take 2 (drop 16 img)) = 2
     \<and> unat (get32 img 28) + 32 * unat (le16 (take 2 (drop 44 img))) \<le> length img
     \<and> (\<forall>sg \<in> set (segments_at img (unat (get32 img 28)) (unat (le16 (take 2 (drop 44 img))))). segment_ok img sg)"

definition segments :: "char list \<Rightarrow> segment list" where
  "segments img = segments_at img (unat (get32 img 28)) (unat (le16 (take 2 (drop 44 img))))"

definition image_info :: "char list \<Rightarrow> elf_info" where
  "image_info img = \<lparr> ei_entry_va = get32 img 24, ei_base_va = 0, ei_max_offset = fold max (map segment_end (segments img)) 0,
     ei_size = sum_list (map (\<lambda>sg. of_nat (sg_filesz sg)) (segments img)), ei_environ_off = 0, ei_curbrk_off = 0 \<rparr>"

lemma elf_load_ok:
  assumes "process_mapped slot" "image_ok img"
  shows "elf_load slot img k = Inr (Some (image_info img), set_mem slot (overlay img (segments img) (k_mem k slot)) k)"
proof -
  have l: "52 \<le> length img" "le16 (take 2 (drop 16 img)) = 2" using assms(2) by (simp_all add: image_ok_def)
  have "img ! 0 = take 4 img ! 0" by simp
  also have "\<dots> = CHR 0x7F" using assms(2) by (simp add: image_ok_def ELF_MAGIC_def)
  finally have "is_elf img = Inr True" using rd_in [of 0 img] l(1) by (cases img) (simp_all add: is_elf_def)
  then show ?thesis
    using l load_segments_ok [OF assms(1), of "unat (get32 img 28)" "unat (le16 (take 2 (drop 44 img)))" img] assms(2)
    by (simp add: elf_load_def img16_def img32_ok image_ok_def segments_def image_info_def)
qed

subsection \<open>Argument vectors\<close>

definition word_at :: "(u32 \<Rightarrow> char) \<Rightarrow> u32 \<Rightarrow> u32" where
  "word_at m a = le32 [m a, m (a + 1), m (a + 2), m (a + 3)]"

definition string_at :: "(u32 \<Rightarrow> char) \<Rightarrow> u32 \<Rightarrow> string \<Rightarrow> bool" where
  "string_at m a s \<longleftrightarrow> (\<forall>j \<le> length s. m (a + of_nat j) = (s @ [NUL]) ! j)"

text \<open>The bytes a vector of strings takes behind its array, and where the string \<open>i\<close> goes.\<close>

definition strings_size :: "string list \<Rightarrow> nat" where
  "strings_size ss = sum_list (map (\<lambda>s. length s + 1) ss)"

definition string_addr :: "u32 \<Rightarrow> string list \<Rightarrow> nat \<Rightarrow> u32" where
  "string_addr heap ss i = heap + of_nat (4 * (length ss + 1) + strings_size (take i ss))"

definition vector_size :: "string list \<Rightarrow> nat" where
  "vector_size ss = 4 * (length ss + 1) + strings_size ss"

definition vector_at :: "(u32 \<Rightarrow> char) \<Rightarrow> u32 \<Rightarrow> string list \<Rightarrow> bool" where
  "vector_at m heap ss \<longleftrightarrow> word_at m (heap + 4 * of_nat (length ss)) = 0
     \<and> (\<forall>i < length ss. word_at m (heap + 4 * of_nat i) = string_addr heap ss i \<and> string_at m (string_addr heap ss i) (ss ! i))"

text \<open>Memories that agree outside the addresses \<open>S\<close>.\<close>

definition agree :: "nat set \<Rightarrow> (u32 \<Rightarrow> char) \<Rightarrow> (u32 \<Rightarrow> char) \<Rightarrow> bool" where
  "agree S m m' \<longleftrightarrow> (\<forall>b. unat b \<notin> S \<longrightarrow> m' b = m b)"

lemma agree_trans: "agree S m m1 \<Longrightarrow> agree T m1 m2 \<Longrightarrow> S \<union> T \<subseteq> U \<Longrightarrow> agree U m m2"
  by (simp add: agree_def) (metis UnI1 UnI2 subsetD)

lemma agree_put: "{unat a..<unat a + length cs} \<subseteq> S \<Longrightarrow> agree S m (put_bytes a cs m)"
  by (auto simp: agree_def put_bytes_def)

lemma le32_bytes32 [simp]: "le32 (bytes32 w) = w"
proof -
  have "unat w < 4294967296" by (rule unat_lt_2_32)
  then have "unat w div 16777216 < 256" by (intro less_mult_imp_div_less) simp
  then have d: "unat w div 16777216 mod 256 = unat w div 16777216" by simp
  have "unat w mod 256 + 256 * (unat w div 256 mod 256) + 65536 * (unat w div 65536 mod 256) + 16777216 * (unat w div 16777216) = unat w"
  proof -
    have "unat w div 65536 = 256 * (unat w div 16777216) + unat w div 65536 mod 256"
      using div_mult2_eq [of "unat w" 65536 256] mult_div_mod_eq [of 256 "unat w div 65536"] by simp
    moreover have "unat w div 256 = 256 * (unat w div 65536) + unat w div 256 mod 256"
      using div_mult2_eq [of "unat w" 256 256] mult_div_mod_eq [of 256 "unat w div 256"] by simp
    moreover have "unat w = 256 * (unat w div 256) + unat w mod 256" by simp
    ultimately show ?thesis by linarith
  qed
  then show ?thesis using d by (simp add: le32_def bytes32_def)
qed

lemma length_bytes32 [simp]: "length (bytes32 w) = 4"
  by (simp add: bytes32_def)

lemma put_bytes_at: "stretch_ok a (length cs) \<Longrightarrow> j < length cs \<Longrightarrow> put_bytes a cs m (a + of_nat j) = cs ! j"
  using unat_add_small [of a j] by (simp add: put_bytes_def stretch_ok_def)

lemma word_at_put:
  assumes "stretch_ok a 4" shows "word_at (put_bytes a (bytes32 w) m) a = w"
proof -
  have "put_bytes a (bytes32 w) m (a + of_nat j) = bytes32 w ! j" if "j < 4" for j
    by (rule put_bytes_at) (use assms that in simp_all)
  from this [of 0] this [of 1] this [of 2] this [of 3]
  have "word_at (put_bytes a (bytes32 w) m) a = le32 [bytes32 w ! 0, bytes32 w ! 1, bytes32 w ! 2, bytes32 w ! 3]"
    by (simp add: word_at_def)
  also have "[bytes32 w ! 0, bytes32 w ! 1, bytes32 w ! 2, bytes32 w ! 3] = bytes32 w" by (simp add: bytes32_def)
  finally show ?thesis by simp
qed

lemma word_at_agree:
  assumes "agree S m m'" "stretch_ok a 4" "{unat a..<unat a + 4} \<inter> S = {}" shows "word_at m' a = word_at m a"
proof -
  have "m' (a + of_nat j) = m (a + of_nat j)" if "j < 4" for j
  proof -
    have "unat (a + of_nat j) = unat a + j" using unat_add_small [of a j] that assms(2) by (simp add: stretch_ok_def)
    moreover have "unat a + j \<in> {unat a..<unat a + 4}" using that by simp
    ultimately show ?thesis using assms(1,3) by (metis agree_def disjoint_iff)
  qed
  from this [of 0] this [of 1] this [of 2] this [of 3] show ?thesis by (simp add: word_at_def)
qed

lemma string_at_agree:
  assumes "agree S m m'" "stretch_ok a (length s + 1)" "{unat a..<unat a + (length s + 1)} \<inter> S = {}"
  shows "string_at m' a s = string_at m a s"
proof -
  have "m' (a + of_nat j) = m (a + of_nat j)" if "j \<le> length s" for j
  proof -
    have "unat (a + of_nat j) = unat a + j" using unat_add_small [of a j] that assms(2) by (simp add: stretch_ok_def)
    moreover have "unat a + j \<in> {unat a..<unat a + (length s + 1)}" using that by simp
    ultimately show ?thesis using assms(1,3) by (metis agree_def disjoint_iff)
  qed
  then show ?thesis by (simp add: string_at_def)
qed

text \<open>
  What a source holds. A string of the program is read byte by byte while others are written, so it
  has to lie outside the addresses \<open>S\<close> that are written to; \<open>m\<close> is the memory before the writing.
\<close>

definition reads_as :: "(u32 \<Rightarrow> char) \<Rightarrow> nat set \<Rightarrow> src \<Rightarrow> string \<Rightarrow> bool" where
  "reads_as m S x s =
     (case x of
        KStr y \<Rightarrow> y = c_string s
      | UStr a \<Rightarrow> stretch_ok a (length s + 1) \<and> {unat a..<unat a + (length s + 1)} \<inter> S = {} \<and> string_at m a s)"

definition source_at :: "(u32 \<Rightarrow> char) \<Rightarrow> nat set \<Rightarrow> args \<Rightarrow> string list \<Rightarrow> bool" where
  "source_at m S av ss =
     (case av of
        NoArgs \<Rightarrow> ss = []
      | KArgs xs \<Rightarrow> xs = map c_string ss
      | UArgs p \<Rightarrow> stretch_ok p (4 * (length ss + 1)) \<and> {unat p..<unat p + 4 * (length ss + 1)} \<inter> S = {}
          \<and> word_at m (p + 4 * of_nat (length ss)) = 0
          \<and> (\<forall>i < length ss. word_at m (p + 4 * of_nat i) \<noteq> 0 \<and> reads_as m S (UStr (word_at m (p + 4 * of_nat i))) (ss ! i)))"

lemma stretch_in: "stretch_ok a n \<Longrightarrow> j < n \<Longrightarrow> in_region (a + of_nat j)"
  using unat_add_small [of a j] by (simp add: stretch_ok_def region_bounds)

lemma src_byte_ok:
  assumes "process_mapped slot" "reads_as m S x s" "agree S m (k_mem k slot)" "j \<le> length s"
  shows "src_byte slot x j k = Inr (c_string s ! j)"
proof (cases x)
  case (KStr y)
  with assms(2,4) show ?thesis by (simp add: src_byte_def reads_as_def rd_in c_string_def)
next
  case (UStr a)
  then have u: "stretch_ok a (length s + 1)" "{unat a..<unat a + (length s + 1)} \<inter> S = {}" "string_at m a s"
    using assms(2) by (simp_all add: reads_as_def)
  have "string_at (k_mem k slot) a s" using string_at_agree [OF assms(3) u(1,2)] u(3) by simp
  then show ?thesis using stretch_in [OF u(1), of j] assms(1,4)
    by (simp add: src_byte_def UStr mem_rd_def string_at_def c_string_def)
qed

lemma mem_rd32_ok:
  assumes "process_mapped slot" "stretch_ok a 4" shows "mem_rd32 slot a k = Inr (word_at (k_mem k slot) a)"
  using stretch_in [OF assms(2), of 0] stretch_in [OF assms(2), of 1] stretch_in [OF assms(2), of 2] stretch_in [OF assms(2), of 3]
  by (simp add: mem_rd32_def mem_rd_def word_at_def assms(1))

lemma arg_at_ok:
  assumes "process_mapped slot" "source_at m S av ss" "agree S m (k_mem k slot)" "av \<noteq> NoArgs" "i \<le> length ss"
  shows "\<exists>p. arg_at slot av i k = Inr p \<and> (if i = length ss then p = None else \<exists>x. p = Some x \<and> reads_as m S x (ss ! i))"
proof (cases av)
  case (UArgs p)
  then have u: "stretch_ok p (4 * (length ss + 1))" "{unat p..<unat p + 4 * (length ss + 1)} \<inter> S = {}"
    "word_at m (p + 4 * of_nat (length ss)) = 0"
    "\<And>i. i < length ss \<Longrightarrow> word_at m (p + 4 * of_nat i) \<noteq> 0 \<and> reads_as m S (UStr (word_at m (p + 4 * of_nat i))) (ss ! i)"
    using assms(2) by (simp_all add: source_at_def)
  let ?a = "p + 4 * of_nat i"
  have ua: "unat ?a = unat p + 4 * i" using unat_add_small [of p "4 * i"] u(1) assms(5) by (simp add: stretch_ok_def)
  have st: "stretch_ok ?a 4" using ua u(1) assms(5) by (simp add: stretch_ok_def)
  have "{unat ?a..<unat ?a + 4} \<subseteq> {unat p..<unat p + 4 * (length ss + 1)}" using ua assms(5) by auto
  then have "{unat ?a..<unat ?a + 4} \<inter> S = {}" using u(2) by blast
  then have "arg_at slot av i k = Inr (if word_at m ?a = 0 then None else Some (UStr (word_at m ?a)))"
    using mem_rd32_ok [OF assms(1) st, of k] word_at_agree [OF assms(3) st] by (simp add: arg_at_def UArgs)
  with u(3,4) assms(5) show ?thesis by auto
qed (use assms in \<open>auto simp: arg_at_def source_at_def reads_as_def\<close>)

text \<open>The length and the copy of one string.\<close>

lemma src_len_ok:
  assumes "process_mapped slot" "reads_as m S x s" "agree S m (k_mem k slot)" "NUL \<notin> set s"
  shows "j \<le> length s \<Longrightarrow> length s - j < n \<Longrightarrow> src_len n slot x j k = Inr (length s)"
proof (induction n arbitrary: j)
  case (Suc n)
  have b: "src_byte slot x j k = Inr (c_string s ! j)" by (rule src_byte_ok [OF assms(1-3) Suc.prems(1)])
  show ?case
  proof (cases "j = length s")
    case False
    then have "s ! j \<noteq> NUL" "c_string s ! j = s ! j" using Suc.prems(1) assms(4) by (auto simp: c_string_def nth_append in_set_conv_nth)
    then show ?thesis using b Suc False by simp
  qed (use b in \<open>simp add: c_string_def\<close>)
qed simp

lemma src_copy_ok:
  assumes map: "process_mapped slot" and src: "reads_as m S x s" and S: "{unat dst..<unat dst + (length s + 1)} \<subseteq> S"
  shows "stretch_ok dst (j + n) \<Longrightarrow> j + n \<le> length s + 1 \<Longrightarrow> agree S m (k_mem k slot) \<Longrightarrow>
    src_copy n slot x j dst k = Inr (set_mem slot (put_bytes (dst + of_nat j) (take n (drop j (c_string s))) (k_mem k slot)) k)"
proof (induction n arbitrary: j k)
  case (Suc n)
  let ?x = "c_string s"
  have lx: "length ?x = length s + 1" by (simp add: c_string_def)
  have jx: "j < length ?x" using lx Suc.prems(2) by simp
  have b: "src_byte slot x j k = Inr (?x ! j)" by (rule src_byte_ok [OF map src Suc.prems(3)]) (use Suc.prems(2) in simp)
  have u: "unat (dst + of_nat j) = unat dst + j" using unat_add_small [of dst j] Suc.prems(1) by (simp add: stretch_ok_def)
  have "length (take n (drop (Suc j) ?x)) = n" using Suc.prems(2) by (auto simp: c_string_def)
  with u have r: "in_region (dst + of_nat j)" "stretch_ok (dst + of_nat j) (Suc (length (take n (drop (Suc j) ?x))))"
    using Suc.prems by (simp_all add: region_bounds stretch_ok_def)
  have t: "take (Suc n) (drop j ?x) = ?x ! j # take n (drop (Suc j) ?x)"
    by (subst Cons_nth_drop_Suc [OF jx, symmetric]) simp
  have e: "dst + of_nat (Suc j) = dst + of_nat j + 1" by simp
  let ?k1 = "set_mem slot ((k_mem k slot)(dst + of_nat j := ?x ! j)) k"
  have "unat (dst + of_nat j) \<in> S" using S u Suc.prems(2) by auto
  then have "agree S m (k_mem ?k1 slot)" using Suc.prems(3) by (auto simp: agree_def)
  then have "src_copy n slot x (Suc j) dst ?k1
      = Inr (set_mem slot (put_bytes (dst + of_nat j + 1) (take n (drop (Suc j) ?x)) (k_mem ?k1 slot)) ?k1)"
    using Suc.IH [of "Suc j" ?k1] Suc.prems(1,2) unfolding e by (simp add: fun_upd_def)
  then show ?case
    using b r(1) map put_bytes_Cons [OF r(2)] by (simp add: mem_wr_def t set_mem_def del: of_nat_Suc)
qed (simp add: set_mem_def)

lemma string_addr_Suc:
  assumes "i < length ss" shows "string_addr heap ss (Suc i) = string_addr heap ss i + of_nat (Suc (length (ss ! i)))"
  using assms by (simp add: string_addr_def strings_size_def take_Suc_conv_app_nth)

lemma unat_string_addr:
  assumes "stretch_ok heap (vector_size ss)" "i \<le> length ss"
  shows "unat (string_addr heap ss i) = unat heap + 4 * (length ss + 1) + strings_size (take i ss)"
proof -
  have "strings_size ss = strings_size (take i ss) + strings_size (drop i ss)"
    unfolding strings_size_def map_append [symmetric] sum_list_append [symmetric] append_take_drop_id ..
  then show ?thesis
    using unat_add_small [of heap "4 * (length ss + 1) + strings_size (take i ss)"] assms
    by (simp add: string_addr_def stretch_ok_def vector_size_def)
qed

lemma strings_size_mono: "i < length ss \<Longrightarrow> strings_size (take (Suc i) ss) = strings_size (take i ss) + length (ss ! i) + 1"
  "i \<le> length ss \<Longrightarrow> strings_size (take i ss) \<le> strings_size ss"
proof -
  show "i < length ss \<Longrightarrow> strings_size (take (Suc i) ss) = strings_size (take i ss) + length (ss ! i) + 1"
    by (simp add: strings_size_def take_Suc_conv_app_nth)
  have "strings_size ss = strings_size (take i ss) + strings_size (drop i ss)"
    unfolding strings_size_def map_append [symmetric] sum_list_append [symmetric] append_take_drop_id ..
  then show "i \<le> length ss \<Longrightarrow> strings_size (take i ss) \<le> strings_size ss" by simp
qed

lemma set_brk_same: "t_brk (k_tasks k slot) = b \<Longrightarrow> set_brk slot b k = k"
  by (auto simp: set_brk_def updt_def upd_def)

lemma set_brk_simps [simp]:
  "set_brk s b (set_brk s b' k) = set_brk s b k" "set_mem s m (set_brk s b k) = set_brk s b (set_mem s m k)"
  "k_mem (set_brk s b k) = k_mem k" "t_brk (k_tasks (set_brk s b k) s) = b"
  by (simp_all add: set_brk_def updt_def upd_def set_mem_def)

lemma copy_args_ok:
  assumes map: "process_mapped slot" and st: "stretch_ok heap (vector_size ss)" and nn: "\<forall>s \<in> set ss. NUL \<notin> set s"
    and src: "source_at m0 S av ss" and S: "{unat heap..<unat heap + vector_size ss} \<subseteq> S"
    and i: "i + n = length ss" and b: "t_brk (k_tasks k slot) = string_addr heap ss i" and ag: "agree S m0 (k_mem k slot)"
  shows "\<exists>m. copy_args n slot av i heap k = Inr (set_brk slot (string_addr heap ss (length ss)) (set_mem slot m k))
    \<and> (\<forall>j. i \<le> j \<longrightarrow> j < length ss \<longrightarrow> word_at m (heap + 4 * of_nat j) = string_addr heap ss j \<and> string_at m (string_addr heap ss j) (ss ! j))
    \<and> agree ({unat heap + 4 * i..<unat heap + 4 * length ss} \<union> {unat (string_addr heap ss i)..<unat heap + vector_size ss}) (k_mem k slot) m"
  using i b ag
proof (induction n arbitrary: i k)
  case 0
  then have "set_brk slot (string_addr heap ss (length ss)) (set_mem slot (k_mem k slot) k) = k" using set_brk_same [of k slot] by simp
  with 0 show ?case by (intro exI [of _ "k_mem k slot"]) (simp add: agree_def)
next
  case (Suc n)
  let ?s = "ss ! i" and ?dst = "string_addr heap ss i"
  have il: "i < length ss" using Suc.prems(1) by simp
  have us: "unat (string_addr heap ss j) = unat heap + 4 * (length ss + 1) + strings_size (take j ss)" if "j \<le> length ss" for j
    by (rule unat_string_addr [OF st that])
  have e: "unat heap + vector_size ss \<le> REGION_END" "4194304 \<le> unat heap" using st by (simp_all add: stretch_ok_def)
  have fit: "unat ?dst + (length ?s + 1) \<le> unat heap + vector_size ss"
    using us [of i] strings_size_mono(1) [OF il] strings_size_mono(2) [of "Suc i" ss] il by (simp add: vector_size_def)
  have nul: "NUL \<notin> set ?s" using nn il by simp
  have "av \<noteq> NoArgs" using src il by (auto simp: source_at_def)
  then obtain x where at: "arg_at slot av i k = Inr (Some x)" "reads_as m0 S x ?s"
    using arg_at_ok [OF map src Suc.prems(3), of i] il by auto
  have len: "src_len REGION_FUEL slot x 0 k = Inr (length ?s)"
    using src_len_ok [OF map at(2) Suc.prems(3) nul, of 0 REGION_FUEL] fit e us [of i] il by (simp add: REGION_FUEL_def REGION_END_def)
  define m1 where "m1 = put_bytes ?dst (?s @ [NUL]) (k_mem k slot)"
  define m2 where "m2 = put_bytes (heap + 4 * of_nat i) (bytes32 ?dst) m1"
  have sd: "stretch_ok ?dst (length (?s @ [NUL]))" using fit e us [of i] il by (simp add: stretch_ok_def)
  have "{unat ?dst..<unat ?dst + (length ?s + 1)} \<subseteq> S" using S fit us [of i] il by fastforce
  then have cp: "src_copy (Suc (length ?s)) slot x 0 ?dst k = Inr (set_mem slot m1 k)"
    using src_copy_ok [OF map at(2), of ?dst 0 "Suc (length ?s)" k] sd Suc.prems(3) by (simp add: m1_def c_string_def)
  have uh: "unat (heap + 4 * of_nat i) = unat heap + 4 * i"
    using unat_add_small [of heap "4 * i"] e il by (simp add: vector_size_def)
  have sw: "stretch_ok (heap + 4 * of_nat i) 4" using uh e il by (simp add: stretch_ok_def vector_size_def)
  have wr: "mem_wr32 slot (heap + 4 * of_nat i) ?dst (set_mem slot m1 k) = Inr (set_mem slot m2 k)"
    unfolding mem_wr32_def using mem_wr_list_ok [OF map, of "heap + 4 * of_nat i" "bytes32 ?dst" "set_mem slot m1 k"] sw by (simp add: m2_def)
  let ?k2 = "set_brk slot (string_addr heap ss (Suc i)) (set_mem slot m2 k)"
  let ?T = "{unat heap + 4 * i..<unat heap + 4 * length ss} \<union> {unat ?dst..<unat heap + vector_size ss}"
  have "agree ?T (k_mem k slot) m1" unfolding m1_def by (rule agree_put) (use fit in auto)
  moreover have "agree ?T m1 m2" unfolding m2_def by (rule agree_put) (use uh il in auto)
  ultimately have ag2: "agree ?T (k_mem k slot) m2" by (rule agree_trans) simp
  have "?T \<subseteq> S" using S us [of i] il by (auto simp: vector_size_def)
  then have ag0: "agree S m0 m2" by (intro agree_trans [OF Suc.prems(3) ag2]) simp
  obtain m where m: "copy_args n slot av (Suc i) heap ?k2 = Inr (set_brk slot (string_addr heap ss (length ss)) (set_mem slot m ?k2))"
    "\<forall>j. Suc i \<le> j \<longrightarrow> j < length ss \<longrightarrow> word_at m (heap + 4 * of_nat j) = string_addr heap ss j \<and> string_at m (string_addr heap ss j) (ss ! j)"
    "agree ({unat heap + 4 * Suc i..<unat heap + 4 * length ss} \<union> {unat (string_addr heap ss (Suc i))..<unat heap + vector_size ss}) m2 m"
    using Suc.IH [of "Suc i" ?k2] Suc.prems(1) ag0 by auto
  have run: "copy_args (Suc n) slot av i heap k = Inr (set_brk slot (string_addr heap ss (length ss)) (set_mem slot m k))"
    using at(1) len cp wr m(1) Suc.prems(2) string_addr_Suc [OF il, of heap] by (simp add: Let_def the_task_def)
  have u1: "unat (string_addr heap ss (Suc i)) = unat ?dst + (length ?s + 1)" using us [of i] us [of "Suc i"] strings_size_mono(1) [OF il] il by simp
  have lo: "unat heap + 4 * (length ss + 1) \<le> unat ?dst" using us [of i] il by simp
  have "word_at m (heap + 4 * of_nat i) = ?dst"
  proof -
    have "word_at m (heap + 4 * of_nat i) = word_at m2 (heap + 4 * of_nat i)"
      by (rule word_at_agree [OF m(3) sw]) (use uh u1 lo il in auto)
    then show ?thesis using word_at_put [OF sw] by (simp add: m2_def)
  qed
  moreover have "string_at m ?dst ?s"
  proof -
    have "agree {unat heap + 4 * i..<unat heap + 4 * i + 4} m1 m2" unfolding m2_def by (rule agree_put) (use uh in simp)
    then have "string_at m2 ?dst ?s = string_at m1 ?dst ?s"
      by (rule string_at_agree) (use sd lo il in auto)
    moreover have "string_at m ?dst ?s = string_at m2 ?dst ?s"
      by (rule string_at_agree [OF m(3)]) (use sd u1 lo il in auto)
    moreover have "string_at m1 ?dst ?s" unfolding string_at_def m1_def using put_bytes_at [OF sd] by simp
    ultimately show ?thesis by simp
  qed
  ultimately have all: "\<forall>j. i \<le> j \<longrightarrow> j < length ss \<longrightarrow> word_at m (heap + 4 * of_nat j) = string_addr heap ss j \<and> string_at m (string_addr heap ss j) (ss ! j)"
    using m(2) by (metis le_antisym not_less_eq_eq)
  have "agree ?T (k_mem k slot) m" by (rule agree_trans [OF ag2 m(3)]) (use u1 in auto)
  with run all show ?case by blast
qed

lemma count_args_ok:
  assumes "process_mapped slot" "source_at m S av ss" "agree S m (k_mem k slot)" "av \<noteq> NoArgs"
  shows "i \<le> length ss \<Longrightarrow> length ss - i < n \<Longrightarrow> count_args n slot av i k = Inr (length ss)"
proof (induction n arbitrary: i)
  case (Suc n)
  obtain p where p: "arg_at slot av i k = Inr p" "if i = length ss then p = None else \<exists>x. p = Some x \<and> reads_as m S x (ss ! i)"
    using arg_at_ok [OF assms Suc.prems(1)] by blast
  show ?case
  proof (cases "i = length ss")
    case True
    with p show ?thesis by simp
  next
    case False
    with p Suc show ?thesis by auto
  qed
qed simp

text \<open>A vector, and what its code does to the memory and the end of the heap.\<close>

lemma copy_vector_ok:
  assumes map: "process_mapped slot" and st: "stretch_ok (t_brk (the_task slot k)) (vector_size ss)" and nn: "\<forall>s \<in> set ss. NUL \<notin> set s"
  defines "heap \<equiv> t_brk (the_task slot k)"
  assumes src: "source_at m0 S av ss" and S: "{unat heap..<unat heap + vector_size ss} \<subseteq> S" and ag: "agree S m0 (k_mem k slot)"
  shows "\<exists>m. copy_vector slot av k
      = Inr (length ss, heap, set_brk slot (heap + of_nat (vector_size ss)) (set_mem slot m k))
    \<and> vector_at m heap ss \<and> agree {unat heap..<unat heap + vector_size ss} (k_mem k slot) m"
proof -
  have hs: "stretch_ok heap (vector_size ss)" using st by (simp add: heap_def)
  then have e: "unat heap + vector_size ss \<le> REGION_END" "4194304 \<le> unat heap" by (simp_all add: stretch_ok_def)
  have n: "4 * (length ss + 1) \<le> vector_size ss" by (simp add: vector_size_def)
  have cnt: "(if av = NoArgs then Inr 0 else count_args REGION_FUEL slot av 0 k) = Inr (length ss)"
    using count_args_ok [OF map src ag, of 0 REGION_FUEL] src n e by (auto simp: REGION_FUEL_def REGION_END_def source_at_def)
  have a0: "string_addr heap ss 0 = heap + 4 * of_nat (length ss + 1)" by (simp add: string_addr_def strings_size_def)
  let ?k1 = "set_brk slot (string_addr heap ss 0) k"
  obtain m where m: "copy_args (length ss) slot av 0 heap ?k1 = Inr (set_brk slot (string_addr heap ss (length ss)) (set_mem slot m ?k1))"
    "\<forall>j < length ss. word_at m (heap + 4 * of_nat j) = string_addr heap ss j \<and> string_at m (string_addr heap ss j) (ss ! j)"
    "agree ({unat heap..<unat heap + 4 * length ss} \<union> {unat (string_addr heap ss 0)..<unat heap + vector_size ss}) (k_mem k slot) m"
    using copy_args_ok [OF map hs nn src S, of 0 "length ss" ?k1] ag by auto
  let ?a = "heap + 4 * of_nat (length ss)"
  have ua: "unat ?a = unat heap + 4 * length ss" using unat_add_small [of heap "4 * length ss"] e n by simp
  have sa: "stretch_ok ?a 4" using ua e n by (simp add: stretch_ok_def)
  define m' where "m' = put_bytes ?a (bytes32 0) m"
  have wr: "mem_wr32 slot ?a 0 k' = Inr (set_mem slot m' k')" if "k_mem k' slot = m" for k'
    unfolding mem_wr32_def m'_def using mem_wr_list_ok [OF map, of ?a "bytes32 0" k'] sa that by simp
  have ad: "string_addr heap ss (length ss) = heap + of_nat (vector_size ss)" by (simp add: string_addr_def vector_size_def)
  have mm: "agree {unat heap + 4 * length ss..<unat heap + 4 * length ss + 4} m m'"
    unfolding m'_def by (rule agree_put) (use ua in simp)
  have run: "copy_vector slot av k = Inr (length ss, heap, set_brk slot (heap + of_nat (vector_size ss)) (set_mem slot m' k))"
    using cnt m(1) wr ad by (simp add: copy_vector_def Let_def heap_def [symmetric] a0)
  have us: "unat (string_addr heap ss j) = unat heap + 4 * (length ss + 1) + strings_size (take j ss)" if "j \<le> length ss" for j
    by (rule unat_string_addr [OF hs that])
  have "vector_at m' heap ss"
    unfolding vector_at_def
  proof (intro conjI allI impI)
    show "word_at m' ?a = 0" unfolding m'_def by (rule word_at_put [OF sa])
  next
    fix j assume j: "j < length ss"
    have uj: "unat (heap + 4 * of_nat j) = unat heap + 4 * j" using unat_add_small [of heap "4 * j"] e n j by simp
    have "word_at m' (heap + 4 * of_nat j) = word_at m (heap + 4 * of_nat j)"
      by (rule word_at_agree [OF mm]) (use uj j e n in \<open>auto simp: stretch_ok_def\<close>)
    then show "word_at m' (heap + 4 * of_nat j) = string_addr heap ss j" using m(2) j by simp
    have "unat (string_addr heap ss j) + (length (ss ! j) + 1) \<le> unat heap + vector_size ss"
      using us [of j] strings_size_mono(1) [OF j] strings_size_mono(2) [of "Suc j" ss] j by (simp add: vector_size_def)
    then have "string_at m' (string_addr heap ss j) (ss ! j) = string_at m (string_addr heap ss j) (ss ! j)"
      by (intro string_at_agree [OF mm]) (use us [of j] j e in \<open>auto simp: stretch_ok_def\<close>)
    then show "string_at m' (string_addr heap ss j) (ss ! j)" using m(2) j by simp
  qed
  moreover have "agree {unat heap..<unat heap + vector_size ss} (k_mem k slot) m'"
    by (rule agree_trans [OF m(3) mm]) (use n us [of 0] in auto)
  ultimately show ?thesis using run by blast
qed

lemma vector_at_agree:
  assumes "agree S m m'" "stretch_ok heap (vector_size ss)" "{unat heap..<unat heap + vector_size ss} \<inter> S = {}" "vector_at m heap ss"
  shows "vector_at m' heap ss"
proof -
  have e: "unat heap + vector_size ss \<le> REGION_END" "4194304 \<le> unat heap" and n: "4 * (length ss + 1) \<le> vector_size ss"
    using assms(2) by (simp_all add: stretch_ok_def vector_size_def)
  have w: "word_at m' (heap + 4 * of_nat j) = word_at m (heap + 4 * of_nat j)" if "j \<le> length ss" for j
  proof -
    have uj: "unat (heap + 4 * of_nat j) = unat heap + 4 * j" using unat_add_small [of heap "4 * j"] e n that by simp
    have "{unat heap + 4 * j..<unat heap + 4 * j + 4} \<subseteq> {unat heap..<unat heap + vector_size ss}" using n that by auto
    then have "{unat heap + 4 * j..<unat heap + 4 * j + 4} \<inter> S = {}" using assms(3) by blast
    then show ?thesis by (intro word_at_agree [OF assms(1)]) (use uj e n that in \<open>auto simp: stretch_ok_def\<close>)
  qed
  have s: "string_at m' (string_addr heap ss j) (ss ! j) = string_at m (string_addr heap ss j) (ss ! j)" if "j < length ss" for j
  proof -
    have uj: "unat (string_addr heap ss j) = unat heap + 4 * (length ss + 1) + strings_size (take j ss)"
      by (rule unat_string_addr [OF assms(2)]) (use that in simp)
    have f: "unat (string_addr heap ss j) + (length (ss ! j) + 1) \<le> unat heap + vector_size ss"
      using uj strings_size_mono(1) [OF that] strings_size_mono(2) [of "Suc j" ss] that by (simp add: vector_size_def)
    then have "{unat (string_addr heap ss j)..<unat (string_addr heap ss j) + (length (ss ! j) + 1)} \<subseteq> {unat heap..<unat heap + vector_size ss}"
      using uj by auto
    then have "{unat (string_addr heap ss j)..<unat (string_addr heap ss j) + (length (ss ! j) + 1)} \<inter> S = {}" using assms(3) by blast
    then show ?thesis by (intro string_at_agree [OF assms(1)]) (use uj f e in \<open>auto simp: stretch_ok_def\<close>)
  qed
  show ?thesis using assms(4) w s by (simp add: vector_at_def)
qed

text \<open>A null pointer counts as an empty vector.\<close>

definition arg_strings :: "string list option \<Rightarrow> string list" where
  "arg_strings v = (case v of None \<Rightarrow> [] | Some ss \<Rightarrow> ss)"

definition kernel_args :: "string list option \<Rightarrow> args" where
  "kernel_args v = (case v of None \<Rightarrow> NoArgs | Some ss \<Rightarrow> KArgs (map c_string ss))"

lemma kernel_args_source: "source_at m S (kernel_args v) (arg_strings v)"
  by (simp add: source_at_def kernel_args_def arg_strings_def split: option.split)

definition start_info :: "elf_info \<Rightarrow> u32 \<Rightarrow> string list \<Rightarrow> string list \<Rightarrow> trampoline" where
  "start_info info brk as es = \<lparr> tr_main_addr = ei_entry_va info, tr_argc = length as, tr_heap_argv = brk,
     tr_envc = length es, tr_heap_envp = brk + of_nat (vector_size as) \<rparr>"

text \<open>The task after its arguments and environment have been stored.\<close>

definition started :: "u32 \<Rightarrow> nat \<Rightarrow> task \<Rightarrow> task" where
  "started brk n x = x\<lparr>t_brk_limit := brk + PROCESS_HEAP_SIZE, t_u_sp := PROCESS_STACK_TOP, t_brk := brk + of_nat n\<rparr>"

lemma setup_program_copies:
  assumes map: "process_mapped slot" and brk: "brk = align_up (ei_max_offset info) 16"
    and off: "ei_curbrk_off info = 0" "ei_environ_off info = 0"
    and st: "stretch_ok brk (vector_size as + vector_size es)"
    and nn: "\<forall>s \<in> set as \<union> set es. NUL \<notin> set s"
    and src: "source_at (k_mem k slot) {unat brk..<unat brk + vector_size as + vector_size es} argv as"
      "source_at (k_mem k slot) {unat brk..<unat brk + vector_size as + vector_size es} envp es"
  shows "\<exists>m. setup_program slot info argv envp k = Inr (Some (start_info info brk as es),
      updt slot (started brk (vector_size as + vector_size es)) (set_mem slot m k))
    \<and> vector_at m brk as \<and> vector_at m (brk + of_nat (vector_size as)) es
    \<and> agree {unat brk..<unat brk + vector_size as + vector_size es} (k_mem k slot) m"
proof -
  let ?S = "{unat brk..<unat brk + vector_size as + vector_size es}"
  have e: "4194304 \<le> unat brk" "unat brk + vector_size as + vector_size es \<le> REGION_END" using st by (simp_all add: stretch_ok_def)
  have "unat (brk + 524288) = unat brk + 524288" using e(2) by (simp add: unat_word_ariths REGION_END_def)
  then have lim: "\<not> brk > brk + PROCESS_HEAP_SIZE" by (simp add: PROCESS_HEAP_SIZE_def word_less_nat_alt)
  let ?k3 = "updt slot (\<lambda>x. x\<lparr>t_u_sp := PROCESS_STACK_TOP\<rparr>) (updt slot (\<lambda>x. x\<lparr>t_brk := brk, t_brk_limit := brk + PROCESS_HEAP_SIZE\<rparr>) k)"
  have b3: "t_brk (the_task slot ?k3) = brk" "k_mem ?k3 = k_mem k" by (simp_all add: the_task_def updt_def)
  have sa: "stretch_ok (t_brk (the_task slot ?k3)) (vector_size as)" using e unfolding b3 by (simp add: stretch_ok_def)
  obtain m1 where m1: "copy_vector slot argv ?k3
      = Inr (length as, brk, set_brk slot (brk + of_nat (vector_size as)) (set_mem slot m1 ?k3))"
    "vector_at m1 brk as" "agree {unat brk..<unat brk + vector_size as} (k_mem k slot) m1"
    using copy_vector_ok [OF map sa, of "k_mem k slot" ?S argv] nn src(1) unfolding b3 by (auto simp: agree_def)
  let ?b4 = "brk + of_nat (vector_size as)" and ?k4 = "set_brk slot (brk + of_nat (vector_size as)) (set_mem slot m1 ?k3)"
  have u4: "unat ?b4 = unat brk + vector_size as" by (rule unat_add_small) (use e in simp)
  have b4: "t_brk (the_task slot ?k4) = ?b4" "k_mem ?k4 slot = m1" by (simp_all add: the_task_def)
  have ag4: "agree ?S (k_mem k slot) m1" by (rule agree_trans [OF m1(3), of "{}"]) (auto simp: agree_def)
  have se: "stretch_ok ?b4 (vector_size es)" using e u4 by (simp add: stretch_ok_def)
  obtain m2 where m2: "copy_vector slot envp ?k4
      = Inr (length es, ?b4, set_brk slot (?b4 + of_nat (vector_size es)) (set_mem slot m2 ?k4))"
    "vector_at m2 ?b4 es" "agree {unat ?b4..<unat ?b4 + vector_size es} m1 m2"
    using copy_vector_ok [OF map, of ?k4 es "k_mem k slot" ?S envp] se nn src(2) ag4 u4 unfolding b4 by auto
  have "setup_program slot info argv envp k
      = Inr (Some (start_info info brk as es), set_brk slot (?b4 + of_nat (vector_size es)) (set_mem slot m2 ?k4))"
    using lim m1(1) m2(1) off by (simp add: setup_program_def brk [symmetric] Let_def task_init_args_def task_init_env_def start_info_def)
  moreover have "set_brk slot (?b4 + of_nat (vector_size es)) (set_mem slot m2 ?k4)
      = updt slot (started brk (vector_size as + vector_size es)) (set_mem slot m2 k)"
    by (simp add: set_brk_def set_mem_def updt_def upd_def started_def add.assoc)
  moreover have "vector_at m2 brk as"
    by (rule vector_at_agree [OF m2(3) _ _ m1(2)]) (use e u4 in \<open>auto simp: stretch_ok_def\<close>)
  moreover have "agree {unat brk..<unat brk + vector_size as + vector_size es} (k_mem k slot) m2"
    by (rule agree_trans [OF m1(3) m2(3)]) (use u4 in auto)
  ultimately show ?thesis using m2(2) by auto
qed

text \<open>Vectors of the kernel's own, as at boot.\<close>

lemma setup_program_ok:
  assumes "process_mapped slot" "brk = align_up (ei_max_offset info) 16" "ei_curbrk_off info = 0" "ei_environ_off info = 0"
    "stretch_ok brk (vector_size (arg_strings av) + vector_size (arg_strings ev))"
    "\<forall>s \<in> set (arg_strings av) \<union> set (arg_strings ev). NUL \<notin> set s"
  shows "\<exists>m. setup_program slot info (kernel_args av) (kernel_args ev) k = Inr (Some (start_info info brk (arg_strings av) (arg_strings ev)),
      updt slot (started brk (vector_size (arg_strings av) + vector_size (arg_strings ev))) (set_mem slot m k))
    \<and> vector_at m brk (arg_strings av) \<and> vector_at m (brk + of_nat (vector_size (arg_strings av))) (arg_strings ev)
    \<and> agree {unat brk..<unat brk + vector_size (arg_strings av) + vector_size (arg_strings ev)} (k_mem k slot) m"
  by (rule setup_program_copies [OF assms kernel_args_source kernel_args_source])

subsection \<open>Properties\<close>

text \<open>
  An image of one segment: four bytes of the file at the start of the region, four zeros behind them.
\<close>

definition demo_image :: "char list" where
  "demo_image = map chr
     ([127, 69, 76, 70, 0, 0, 0, 0, 0, 0, 0, 0, 0, 0, 0, 0, 2, 0, 3, 0, 1, 0, 0, 0, 0, 0, 64, 0, 52, 0, 0, 0,
       0, 0, 0, 0, 0, 0, 0, 0, 0, 0, 0, 0, 1, 0, 0, 0, 0, 0, 0, 0]
      @ [1, 0, 0, 0, 0, 0, 0, 0, 0, 0, 64, 0, 0, 0, 0, 0, 4, 0, 0, 0, 8, 0, 0, 0, 0, 0, 0, 0, 0, 0, 0, 0])"

lemma demo_segments:
  "segments demo_image = [\<lparr> sg_offset = 0, sg_vaddr = 4194304, sg_filesz = 4, sg_memsz = 8 \<rparr>]"
  by (simp add: segments_def segments_at_def header_at_def get32_def le32_def le16_def demo_image_def)

lemma demo_image_ok: "image_ok demo_image"
proof -
  have "get32 demo_image 28 = 52" "le16 (take 2 (drop 44 demo_image)) = 1" "le16 (take 2 (drop 16 demo_image)) = 2"
    "length demo_image = 84"
    by (simp_all add: get32_def le32_def le16_def demo_image_def)
  moreover have "take 4 demo_image = ELF_MAGIC"
    by (simp add: demo_image_def ELF_MAGIC_def chr_def char_of_def bit_Suc_0_iff)
  moreover have "segment_ok demo_image \<lparr> sg_offset = 0, sg_vaddr = 4194304, sg_filesz = 4, sg_memsz = 8 \<rparr>"
    by (simp add: segment_ok_def stretch_ok_def REGION_END_def demo_image_def)
  ultimately show ?thesis using demo_segments unfolding image_ok_def segments_def by simp
qed

text \<open>
  C11: the loader. \<open>elf_load\<close> of an image whose headers and segments lie inside the file and whose
  segments lie inside the program's region succeeds, for a task that has page tables: the program's
  memory afterwards is its memory before with every loadable segment laid over it in turn, the bytes of
  the file first and zeros up to the segment's size in memory; the entry address, the end of the highest
  segment and the number of bytes loaded are reported, and nothing else changes.
\<close>

theorem elf_load_lays_segments:
  assumes "process_mapped slot" "image_ok img"
  shows "elf_load slot img k = Inr (Some (image_info img), set_mem slot (overlay img (segments img) (k_mem k slot)) k)"
  by (rule elf_load_ok [OF assms])

theorem elf_load_lays_segments_witness:
  "\<exists>info. elf_load 2 demo_image bss_kernel = Inr (Some info, set_mem 2 (overlay demo_image (segments demo_image) (\<lambda>_. NUL)) bss_kernel)
    \<and> ei_entry_va info = 4194304 \<and> ei_max_offset info = 4194312 \<and> ei_size info = 4
    \<and> overlay demo_image (segments demo_image) (\<lambda>_. NUL) 4194305 = CHR ''E''"
proof -
  have "process_mapped 2" by (simp add: process_mapped_def)
  note L = elf_load_lays_segments [OF this demo_image_ok, of bss_kernel]
  have "ei_entry_va (image_info demo_image) = 4194304" "ei_max_offset (image_info demo_image) = 4194312" "ei_size (image_info demo_image) = 4"
    by (simp_all add: image_info_def demo_segments segment_end_def) (simp add: get32_def le32_def demo_image_def)
  moreover have "overlay demo_image (segments demo_image) (\<lambda>_. NUL) 4194305 = CHR ''E''"
    by (simp add: overlay_def demo_segments put_bytes_def segment_bytes_def) (simp add: demo_image_def chr_def char_of_def bit_Suc_0_iff)
  moreover have "k_mem bss_kernel 2 = (\<lambda>_. NUL)" by (simp add: bss_kernel_def)
  ultimately show ?thesis using L by auto
qed

text \<open>
  C12: what a program finds when it starts. The vectors are the kernel's own (at boot) or, as for \<open>execve\<close>,
  arrays of pointers in the program's memory; those have to be there after the image has been loaded and
  outside the bytes they are copied to, which \<open>execve\<close> does not check. Null pointers count as empty
  vectors. The heap begins at the end of the loaded image, rounded up to 16 bytes; there lie the array of pointers
  to the arguments, ended by a null pointer, the arguments themselves as C strings, then the same for the
  environment, and there the heap now ends. The counts and the two arrays are what the program's \<open>main\<close> is
  called with, its stack starts at the top of its region, and no other byte of its memory changes.
\<close>

theorem program_gets_arguments:
  assumes "process_mapped slot" "brk = align_up (ei_max_offset info) 16" "ei_curbrk_off info = 0" "ei_environ_off info = 0"
    "stretch_ok brk (vector_size as + vector_size es)" "\<forall>s \<in> set as \<union> set es. NUL \<notin> set s"
    "source_at (k_mem k slot) {unat brk..<unat brk + vector_size as + vector_size es} argv as"
    "source_at (k_mem k slot) {unat brk..<unat brk + vector_size as + vector_size es} envp es"
  shows "\<exists>m. setup_program slot info argv envp k = Inr (Some (start_info info brk as es),
      updt slot (started brk (vector_size as + vector_size es)) (set_mem slot m k))
    \<and> vector_at m brk as \<and> vector_at m (brk + of_nat (vector_size as)) es
    \<and> agree {unat brk..<unat brk + vector_size as + vector_size es} (k_mem k slot) m"
  by (rule setup_program_copies [OF assms])

text \<open>A pointer to a string and a null pointer in the middle of the region, and an environment of the kernel's.\<close>

definition demo_memory :: "u32 \<Rightarrow> char" where
  "demo_memory = put_bytes 4718592 (bytes32 4718608 @ bytes32 0) (put_bytes 4718608 (c_string ''ls'') (\<lambda>_. NUL))"

lemma demo_source: "source_at demo_memory {4194320..<4194350} (UArgs 4718592) [''ls'']"
proof -
  have a: "demo_memory (4718592 + of_nat j) = (bytes32 4718608 @ bytes32 0) ! j" if "j < 8" for j
    unfolding demo_memory_def by (rule put_bytes_at) (use that in \<open>simp_all add: stretch_ok_def REGION_END_def\<close>)
  from a [of 0] a [of 1] a [of 2] a [of 3] a [of 4] a [of 5] a [of 6] a [of 7]
  have "word_at demo_memory 4718592 = le32 (bytes32 4718608)" "word_at demo_memory 4718596 = le32 (bytes32 0)"
    by (simp_all add: word_at_def bytes32_def nth_append)
  moreover have "string_at demo_memory 4718608 ''ls''"
    unfolding string_at_def
  proof (intro allI impI)
    fix j :: nat assume "j \<le> length ''ls''"
    then have j: "j \<in> {0, 1, 2}" by auto
    show "demo_memory (4718608 + of_nat j) = (''ls'' @ [NUL]) ! j"
      using j by (auto simp: demo_memory_def put_bytes_def c_string_def)
  qed
  ultimately show ?thesis by (simp add: source_at_def reads_as_def stretch_ok_def REGION_END_def)
qed

theorem program_gets_arguments_witness:
  "\<exists>m. setup_program 2 (image_info demo_image) (UArgs 4718592) (kernel_args (Some [''A=b''])) (set_mem 2 demo_memory bss_kernel) =
       Inr (Some \<lparr> tr_main_addr = 4194304, tr_argc = 1, tr_heap_argv = 4194320, tr_envc = 1, tr_heap_envp = 4194331 \<rparr>,
         updt 2 (started 4194320 23) (set_mem 2 m bss_kernel))
    \<and> word_at m 4194320 = 4194328 \<and> word_at m 4194324 = 0 \<and> string_at m 4194328 ''ls''
    \<and> word_at m 4194331 = 4194339 \<and> string_at m 4194339 ''A=b''"
proof -
  have i: "ei_entry_va (image_info demo_image) = 4194304" "ei_max_offset (image_info demo_image) = 4194312"
    "ei_curbrk_off (image_info demo_image) = 0" "ei_environ_off (image_info demo_image) = 0"
    by (simp_all add: image_info_def demo_segments segment_end_def) (simp add: get32_def le32_def demo_image_def)
  have z: "vector_size [''ls''] = 11" "vector_size [''A=b''] = 12" by (simp_all add: vector_size_def strings_size_def)
  have a: "process_mapped 2" "4194320 = align_up (ei_max_offset (image_info demo_image)) 16"
    "stretch_ok 4194320 (vector_size [''ls''] + vector_size [''A=b''])" "\<forall>s \<in> set [''ls''] \<union> set [''A=b'']. NUL \<notin> set s"
    by (simp_all add: process_mapped_def i align_up_def stretch_ok_def REGION_END_def z)
  have "source_at demo_memory {4194320..<4194343} (UArgs 4718592) [''ls'']"
    "source_at demo_memory {4194320..<4194343} (kernel_args (Some [''A=b''])) [''A=b'']"
    using demo_source kernel_args_source [of _ _ "Some [''A=b'']"] by (auto simp: source_at_def reads_as_def arg_strings_def)
  then have P: "\<exists>m. setup_program 2 (image_info demo_image) (UArgs 4718592) (kernel_args (Some [''A=b''])) (set_mem 2 demo_memory bss_kernel) =
       Inr (Some (start_info (image_info demo_image) 4194320 [''ls''] [''A=b'']),
         updt 2 (started 4194320 (vector_size [''ls''] + vector_size [''A=b''])) (set_mem 2 m (set_mem 2 demo_memory bss_kernel)))
    \<and> vector_at m 4194320 [''ls''] \<and> vector_at m (4194320 + of_nat (vector_size [''ls''])) [''A=b'']
    \<and> agree {unat (4194320 :: u32)..<unat (4194320 :: u32) + vector_size [''ls''] + vector_size [''A=b'']}
        (k_mem (set_mem 2 demo_memory bss_kernel) 2) m"
    by (intro program_gets_arguments [OF a(1,2) i(3,4) a(3,4)]) (simp_all add: z)
  then show ?thesis
    unfolding z by (auto simp: start_info_def i z vector_at_def string_addr_def strings_size_def)
qed

end
