(* ===== verification/Keeps.thy ===== *)
theory Keeps
  imports Syscall Family
begin

section \<open>What system calls leave alone\<close>

text \<open>
  Most of the kernel's code does nothing to the scheduler's structures: reading, writing, opening and
  closing files, loading a program, moving the end of the heap. \<open>keeps k k'\<close> says so of a change from
  \<open>k\<close> to \<open>k'\<close>: the queues, the current task, the task table and, of every task, the links, the state,
  the pid and the family are the same, names stay terminated, no terminal has input it did not have,
  and the invariants of files, terminals and console hold (\<open>parts_ok\<close>). One lemma per operation shows
  that it keeps them whatever its arguments, if it returns at all; theory Machine uses them for the
  kernel as a whole.
\<close>

definition task_keeps :: "task \<Rightarrow> task \<Rightarrow> bool" where
  "task_keeps x y \<longleftrightarrow> t_pid y = t_pid x \<and> t_next y = t_next x \<and> t_parent y = t_parent x \<and> t_children y = t_children x
     \<and> t_next_sibling y = t_next_sibling x \<and> t_state y = t_state x
     \<and> length (t_name y) = length (t_name x) \<and> length (t_cwd y) = length (t_cwd x)
     \<and> (terminated (t_name x) \<longrightarrow> terminated (t_name y)) \<and> (terminated (t_cwd x) \<longrightarrow> terminated (t_cwd y))"

definition parts_ok :: "kernel \<Rightarrow> bool" where
  "parts_ok k \<longleftrightarrow> files_inv k \<and> con_ok (k_con k) \<and> ttys_ok k"

definition keeps :: "kernel \<Rightarrow> kernel \<Rightarrow> bool" where
  "keeps k k' \<longleftrightarrow> k_wh k' = k_wh k \<and> k_swapper k' = k_swapper k \<and> k_current k' = k_current k \<and> k_rq k' = k_rq k
     \<and> k_tt k' = k_tt k \<and> (\<forall>i. task_keeps (k_tasks k i) (k_tasks k' i))
     \<and> (\<forall>i. tty_input_available i k' \<longrightarrow> tty_input_available i k) \<and> parts_ok k'"

lemma task_keeps_refl [simp]: "task_keeps x x"
  by (simp add: task_keeps_def)

lemma task_keeps_trans: "task_keeps x y \<Longrightarrow> task_keeps y z \<Longrightarrow> task_keeps x z"
  by (simp add: task_keeps_def)

lemma keeps_refl: "parts_ok k \<Longrightarrow> keeps k k"
  by (simp add: keeps_def)

lemma keeps_trans: "keeps k k1 \<Longrightarrow> keeps k1 k2 \<Longrightarrow> keeps k k2"
  unfolding keeps_def by (metis task_keeps_trans)

lemma keeps_parts: "keeps k k' \<Longrightarrow> parts_ok k'"
  by (simp add: keeps_def)

lemma keepsD:
  assumes "keeps k k'"
  shows "k_wh k' = k_wh k" "k_swapper k' = k_swapper k" "k_current k' = k_current k" "k_rq k' = k_rq k" "k_tt k' = k_tt k"
    "task_keeps (k_tasks k i) (k_tasks k' i)" "tty_input_available j k' \<Longrightarrow> tty_input_available j k" "parts_ok k'"
  using assms by (simp_all add: keeps_def)

lemma task_keepsD:
  assumes "task_keeps x y"
  shows "t_pid y = t_pid x" "t_next y = t_next x" "t_parent y = t_parent x" "t_children y = t_children x"
    "t_next_sibling y = t_next_sibling x" "t_state y = t_state x"
    "length (t_name y) = length (t_name x)" "length (t_cwd y) = length (t_cwd x)"
    "terminated (t_name x) \<Longrightarrow> terminated (t_name y)" "terminated (t_cwd x) \<Longrightarrow> terminated (t_cwd y)"
  using assms by (simp_all add: task_keeps_def)

lemma parts_okD:
  assumes "parts_ok k" shows "files_inv k" "con_ok (k_con k)" "ttys_ok k"
  using assms by (simp_all add: parts_ok_def)

text \<open>The shapes of change the operations are made of.\<close>

lemma keeps_task:
  assumes "parts_ok k" "task_keeps (k_tasks k c) (f (k_tasks k c))" "t_files (f (k_tasks k c)) = t_files (k_tasks k c)"
  shows "keeps k (updt c f k)"
proof -
  have "files_inv (updt c f k)"
    by (rule files_inv_cong [OF parts_okD(1) [OF assms(1)]]) (simp_all add: updt_def the_task_def upd_apply assms(3))
  then show ?thesis
    using assms(1,2) by (auto simp: keeps_def parts_ok_def updt_def upd_apply ttys_ok_def tty_input_available_def)
qed

lemma keeps_mem:
  assumes "parts_ok k" shows "keeps k (k\<lparr>k_mem := m\<rparr>)"
proof -
  have "files_inv (k\<lparr>k_mem := m\<rparr>)"
    by (rule files_inv_cong [OF parts_okD(1) [OF assms]]) (simp_all add: the_task_def)
  then show ?thesis using assms by (simp add: keeps_def parts_ok_def ttys_ok_def tty_input_available_def)
qed

lemma keeps_con:
  assumes "parts_ok k" "con_ok con" shows "keeps k (k\<lparr>k_con := con\<rparr>)"
proof -
  have "files_inv (k\<lparr>k_con := con\<rparr>)"
    by (rule files_inv_cong [OF parts_okD(1) [OF assms(1)]]) (simp_all add: the_task_def)
  then show ?thesis using assms by (simp add: keeps_def parts_ok_def ttys_ok_def tty_input_available_def)
qed

lemma keeps_vs:
  assumes "parts_ok k" "files_inv (vs k t fs v con)" "con_ok con" shows "keeps k (vs k t fs v con)"
proof -
  have "task_keeps (k_tasks k i) (k_tasks (vs k t fs v con) i)" for i
    by (simp add: task_keeps_def vs_def upd_apply)
  then show ?thesis using assms
    by (simp add: keeps_def parts_ok_def ttys_ok_def tty_input_available_def) (simp add: vs_def)
qed

lemma keeps_tty:
  assumes "parts_ok k" "tty_ok (k_ttys k i) \<Longrightarrow> tty_ok y" "y_console y = y_console (k_ttys k i)"
    "y_in_head y - y_in_tail y \<noteq> 0 \<Longrightarrow> tty_input_available i k" "con_ok con"
  shows "keeps k (k\<lparr>k_ttys := (k_ttys k)(i := y), k_con := con\<rparr>)"
proof -
  have "files_inv (k\<lparr>k_ttys := (k_ttys k)(i := y), k_con := con\<rparr>)"
    by (rule files_inv_cong [OF parts_okD(1) [OF assms(1)]]) (simp_all add: the_task_def)
  then show ?thesis using assms by (auto simp: keeps_def parts_ok_def ttys_ok_def tty_input_available_def)
qed

lemma keeps_updtty:
  assumes "parts_ok k" "tty_ok (k_ttys k i) \<Longrightarrow> tty_ok y" "y_console y = y_console (k_ttys k i)"
    "y_in_head y - y_in_tail y \<noteq> 0 \<Longrightarrow> tty_input_available i k"
  shows "keeps k (updtty i (\<lambda>_. y) k)"
proof -
  have "updtty i (\<lambda>_. y) k = k\<lparr>k_ttys := (k_ttys k)(i := y), k_con := k_con k\<rparr>" by (simp add: updtty_def)
  then show ?thesis using keeps_tty [OF assms parts_okD(2) [OF assms(1)]] by simp
qed

lemma files_inv_updfile:
  assumes inv: "files_inv k" and g: "f_idx (g (the_file f k)) = f_idx (the_file f k)" "f_fd (g (the_file f k)) = f_fd (the_file f k)"
    "f_pathname (g (the_file f k)) = f_pathname (the_file f k)"
  shows "files_inv (updfile f g k)"
proof -
  note D = files_invD [OF inv]
  have v: "vt_inv (k_vfs (updfile f g k))" "vt_free (k_vfs (updfile f g k)) = vt_free (k_vfs k)"
    using vt_inv_updf [OF D(1), of g f] g(1) by (simp_all add: updfile_def the_file_def)
  have sl: "slot (updfile f g k) = slot k" by (intro ext) (simp add: slot_def)
  have fd: "f_fd (the_file i (updfile f g k)) = f_fd (the_file i k)"
    "f_pathname (the_file i (updfile f g k)) = f_pathname (the_file i k)" for i
    using g(2,3) by (cases "i = f"; simp)+
  show ?thesis using inv v(1) unfolding files_inv_def sl v(2) fd by simp
qed

lemma keeps_updfile:
  assumes "parts_ok k" "\<And>x. f_idx (g x) = f_idx x" "\<And>x. f_fd (g x) = f_fd x" "\<And>x. f_pathname (g x) = f_pathname x"
  shows "keeps k (updfile f g k)"
  using files_inv_updfile [OF parts_okD(1) [OF assms(1)], of g f] assms
  by (simp add: keeps_def parts_ok_def ttys_ok_def tty_input_available_def) (simp add: updfile_def)

subsection \<open>The console and the terminals\<close>

lemma put_char_con_ok:
  assumes "con_ok con" "console_put_char con c = Some con'" shows "con_ok con'"
proof (cases "param_overflow con c")
  case True
  then show ?thesis using param_overflow_None [OF assms(1) True] assms(2) by (simp add: console_put_char_def)
next
  case False
  then show ?thesis using vga_put_char_ok [OF assms(1) False] assms(2) by (auto simp: console_put_char_def)
qed

lemma put_chars_con_ok: "con_ok con \<Longrightarrow> console_put_chars s con = Some con' \<Longrightarrow> con_ok con'"
  by (induction s arbitrary: con) (auto simp: bind_eq_Some_conv dest: put_char_con_ok)

lemma kprint_keeps:
  assumes "parts_ok k" "kprint s k = Inr k'" shows "keeps k k'"
proof -
  obtain con where con: "console_put_chars (take 511 s) (k_con k) = Some con" "k' = k\<lparr>k_con := con\<rparr>"
    using assms(2) by (auto simp: kprint_def bindR_eq_Inr)
  show ?thesis unfolding con(2) by (rule keeps_con [OF assms(1) put_chars_con_ok [OF parts_okD(2) [OF assms(1)] con(1)]])
qed

lemma out_put_input:
  assumes "out_put c y = Some y'" shows "y_in_head y' = y_in_head y \<and> y_in_tail y' = y_in_tail y \<and> y_console y' = y_console y"
proof -
  define y1 where "y1 = (if y_out_head y - y_out_tail y \<ge> 4096 then y\<lparr>y_out_tail := y_out_tail y + 1\<rparr> else y)"
  have "y_in_head y1 = y_in_head y \<and> y_in_tail y1 = y_in_tail y \<and> y_console y1 = y_console y" by (simp add: y1_def)
  then show ?thesis using assms unfolding out_put_def Let_def y1_def [symmetric] by (auto simp: bind_eq_Some_conv)
qed

lemma out_put_tty_ok: "out_put c y = Some y' \<Longrightarrow> tty_ok y \<Longrightarrow> tty_ok y'"
  using out_put_ok [of y c] by auto

lemma keeps_out_put:
  assumes "parts_ok k" "out_put c (k_ttys k i) = Some y" "con_ok con"
  shows "keeps k (k\<lparr>k_ttys := (k_ttys k)(i := y), k_con := con\<rparr>)"
  by (rule keeps_tty [OF assms(1) out_put_tty_ok [OF assms(2)] _ _ assms(3)])
    (use out_put_input [OF assms(2)] in \<open>simp_all add: tty_input_available_def\<close>)

lemma tty_write_loop_keeps:
  "parts_ok k \<Longrightarrow> tty_write_loop n i buf w k = Some (r, k') \<Longrightarrow> keeps k k'"
proof (induction n arbitrary: w k)
  case 0
  then show ?case by (simp add: keeps_refl)
next
  case (Suc n)
  obtain c where c: "rd buf (unat w) = Some c" using Suc.prems(2) by (auto simp: bind_eq_Some_conv)
  show ?case
  proof (cases "c = NUL")
    case True
    then show ?thesis using Suc.prems c by (simp add: keeps_refl)
  next
    case False
    obtain y where y: "out_put c (k_ttys k i) = Some y" using Suc.prems(2) c False by (auto simp: bind_eq_Some_conv)
    obtain con where con: "con_ok con" "tty_write_loop n i buf (w + 1) (k\<lparr>k_ttys := (k_ttys k)(i := y), k_con := con\<rparr>) = Some (r, k')"
    proof (cases "tty_is_active i (updtty i (\<lambda>_. y) k) \<and> y_console y")
      case True
      then obtain con where "console_put_char (k_con k) c = Some con"
        "tty_write_loop n i buf (w + 1) (k\<lparr>k_ttys := (k_ttys k)(i := y), k_con := con\<rparr>) = Some (r, k')"
        using Suc.prems(2) c False y by (auto simp: bind_eq_Some_conv updtty_def Let_def)
      then show ?thesis using that put_char_con_ok parts_okD(2) [OF Suc.prems(1)] by blast
    next
      case no: False
      have "k\<lparr>k_ttys := (k_ttys k)(i := y)\<rparr> = k\<lparr>k_ttys := (k_ttys k)(i := y), k_con := k_con k\<rparr>" by simp
      then have "tty_write_loop n i buf (w + 1) (k\<lparr>k_ttys := (k_ttys k)(i := y), k_con := k_con k\<rparr>) = Some (r, k')"
        using Suc.prems(2) c False y no by (auto simp: updtty_def Let_def split: if_splits)
      then show ?thesis using that parts_okD(2) [OF Suc.prems(1)] by blast
    qed
    from keeps_out_put [OF Suc.prems(1) y con(1)] show ?thesis
      using Suc.IH [OF keeps_parts con(2)] keeps_trans by blast
  qed
qed

lemma vfs_write_keeps: "parts_ok k \<Longrightarrow> vfs_write fd buf count k = Inr (r, k') \<Longrightarrow> keeps k k'"
  by (auto simp: vfs_write_def tty_write_file_def bindR_eq_Inr keeps_refl intro: tty_write_loop_keeps
      split: if_splits option.splits drv.splits wr_op.splits)

lemma tty_take_keeps:
  assumes "tty_take buf count y = Some (n, b, y')"
  shows "tty_ok y \<Longrightarrow> tty_ok y'" "y_console y' = y_console y" "y_in_head y' - y_in_tail y' \<noteq> 0 \<Longrightarrow> y_in_head y - y_in_tail y \<noteq> 0"
proof -
  define av where "av = (if y_in_head y - y_in_tail y > count then count else y_in_head y - y_in_tail y)"
  have y': "y' = y\<lparr>y_in_tail := y_in_tail y + av\<rparr>" using assms by (auto simp: tty_take_def Let_def av_def bind_eq_Some_conv)
  have le: "av \<le> y_in_head y - y_in_tail y" by (auto simp: av_def)
  show "y_console y' = y_console y" by (simp add: y')
  show "y_in_head y' - y_in_tail y' \<noteq> 0 \<Longrightarrow> y_in_head y - y_in_tail y \<noteq> 0" using le by (auto simp: y' av_def)
  have d: "y_in_head y - (y_in_tail y + av) = (y_in_head y - y_in_tail y) - av" by (simp add: algebra_simps)
  have "unat ((y_in_head y - y_in_tail y) - av) \<le> unat (y_in_head y - y_in_tail y)"
    using le by (simp add: unat_minus word_le_nat_alt)
  then show "tty_ok y \<Longrightarrow> tty_ok y'" by (simp add: tty_ok_def y' ring_count_def d)
qed

lemma tty_read_end_keeps: "parts_ok k \<Longrightarrow> tty_read_end i buf count k = Inr (r, b, k') \<Longrightarrow> keeps k k'"
  by (auto simp: tty_read_end_def bindR_eq_Inr tty_input_available_def intro!: keeps_updtty dest: tty_take_keeps)

subsection \<open>Files\<close>

lemma strcpy_loop_keeps: "strcpy_loop dst d src = Some r \<Longrightarrow> length r = length dst \<and> terminated src"
  by (induction dst d src arbitrary: r rule: strcpy_loop.induct) (auto simp: bind_eq_Some_conv wr_eq_Some split: if_splits)

lemma k_strcpy_keeps:
  assumes "k_strcpy dst src = Some r" shows "length r = length dst" "terminated r"
proof -
  have s: "length r = length dst" "terminated src" using strcpy_loop_keeps assms by (auto simp: k_strcpy_def)
  show "length r = length dst" by (rule s(1))
  have "length (cstr src) < length dst"
    using strcpy_loop_overflow [OF s(2), of dst 0] assms by (fastforce simp: k_strcpy_def)
  from k_strcpy_string [OF s(2) this] assms show "terminated r" by auto
qed

lemma memset_loop_length: "memset_loop b d x n = Some r \<Longrightarrow> length r = length b"
  by (induction n arbitrary: b d) (auto simp: bind_eq_Some_conv wr_eq_Some)

lemma strncpy_loop_length: "strncpy_loop dst d src n = Some r \<Longrightarrow> length r = length dst"
  by (induction dst d src n arbitrary: r rule: strncpy_loop.induct)
    (auto simp: bind_eq_Some_conv wr_eq_Some dest: memset_loop_length simp del: memset_loop.simps split: if_splits)

lemma vfs_close_keeps:
  assumes ok: "parts_ok k" and t: "t < 64" and r: "vfs_close (Some t) fd k = Inr (r, k')"
  shows "keeps k k'"
proof (cases "fd < 0 \<or> files_find_by_fd (t_files (the_task t k)) fd = None")
  case True
  then have "k' = k" using vfs_close_none [OF True] r by simp
  then show ?thesis using keeps_refl [OF ok] by simp
next
  case False
  then obtain f where f: "files_find_by_fd (t_files (the_task t k)) fd = Some f" "0 \<le> fd" by auto
  then have d: "nat fd < RLIMIT_NOFILE" "slot k t (nat fd) = Some f"
    by (auto simp: files_find_by_fd_def slot_def split: if_splits)
  obtain k1 where k1: "vfs_close (Some t) (int (nat fd)) k = Inr (0, k1)" "files_inv k1" "closed t (nat fd) f k k1"
    using vfs_close_ok [OF parts_okD(1) [OF ok] t d] by blast
  have "k' = k1" using k1(1) r f(2) by simp
  then show ?thesis using k1(2,3) ok parts_okD(2) [OF ok] by (auto simp: closed_def intro!: keeps_vs)
qed

text \<open>The opening functions of the file systems.\<close>

lemma kprint_step:
  assumes "file_step f k k1" "kprint s k1 = Inr k'" shows "file_step f k k'"
proof -
  obtain con where con: "console_put_chars (take 511 s) (k_con k1) = Some con" "k' = k1\<lparr>k_con := con\<rparr>"
    using assms(2) by (auto simp: kprint_def bindR_eq_Inr)
  show ?thesis
    unfolding con(2) by (rule file_step_con [OF assms(1) put_chars_con_ok [OF file_stepD(1) [OF assms(1)] con(1)]])
qed

lemma tty_open_keeps: "file_step f k k1 \<Longrightarrow> tty_open f k1 = (r, k') \<Longrightarrow> file_step f k k'"
  using tty_open_step [of f k k1] by (auto simp: opens_def)

lemma fs_open_step:
  assumes con: "con_ok (k_con k)" and r: "fs_open bins fs f k = Inr (r, k')"
  shows "file_step f k k'"
proof -
  have s0: "file_step f k k" by (rule file_step_refl [OF con])
  show ?thesis
  proof (cases fs)
    case root_fs
    with r s0 show ?thesis by (auto simp: fs_open_def root_open_def intro!: file_step_upd)
  next
    case sys_fs
    with r s0 show ?thesis by (auto simp: fs_open_def sys_open_def bindR_eq_Inr Let_def intro!: file_step_upd split: if_splits)
  next
    case proc_fs
    with r s0 show ?thesis by (auto simp: fs_open_def proc_open_def bindR_eq_Inr Let_def intro!: file_step_upd split: if_splits)
  next
    case bin_fs
    with r s0 show ?thesis
      by (auto simp: fs_open_def bin_open_def bindR_eq_Inr Let_def intro!: file_step_upd split: if_splits option.splits)
  next
    case dev_fs
    let ?k1 = "updfile f (\<lambda>f. f\<lparr>f_getdents := Some dev_getdents\<rparr>) k"
    have s1: "file_step f k ?k1" by (rule file_step_upd [OF s0]) simp_all
    have s2: "file_step f k (updfile f (\<lambda>f. f\<lparr>f_data := dv_data d, f_write := Some tty_write,
        f_read := Some tty_read, f_close := Some tty_close\<rparr>) ?k1)" for d
      by (rule file_step_upd [OF s1]) simp_all
    from dev_fs r s0 s1 show ?thesis
      by (auto simp: fs_open_def dev_open_def bindR_eq_Inr Let_def split: if_splits option.splits
        intro: kprint_step tty_open_keeps [OF s2])
  qed
qed

text \<open>\<open>vfs_open\<close>, whatever becomes of the path.\<close>

lemma kprint_vs:
  assumes "kprint s (vs k t fs v con) = Inr k'" "con_ok con" shows "\<exists>cn. k' = vs k t fs v cn \<and> con_ok cn"
proof -
  obtain cn where "console_put_chars (take 511 s) con = Some cn" "k' = vs k t fs v cn"
    using assms(1) by (auto simp: kprint_def bindR_eq_Inr)
  then show ?thesis using put_chars_con_ok [OF assms(2)] by blast
qed

lemma open_new_keeps:
  assumes ok: "parts_ok k" and t: "t < 64" and free: "vt_free (k_vfs k) = f # xs"
    and v: "vt_inv v" "vt_free v = xs" "v_files v = v_files (k_vfs k)"
    and r: "open_new bins t p fs flags mode f (k\<lparr>k_vfs := v\<rparr>) = Inr (r, k')"
  shows "keeps k k'"
proof -
  note D = files_invD [OF parts_okD(1) [OF ok]]
  let ?fs = "t_files (the_task t k)" and ?st = "vs k t"
  have k1: "k\<lparr>k_vfs := v\<rparr> = ?st ?fs v (k_con k)" by (metis vs_self vs_simps(13))
  have fok: "files_ok ?fs" using D(2) [OF t] by (simp add: files_ok_def)
  have f: "f < 1024" "f \<notin> set xs" using vt_invD(3,4) [OF D(1)] free by auto
  have ret: "keeps k (?st ?fs v' cn)"
    if v': "vt_inv v'" "vt_free v' = xs @ [f]" "\<And>i. i \<noteq> f \<Longrightarrow> v_files v' i = v_files v i"
      "length (f_pathname (v_files v' f)) = 64" "terminated (f_pathname (v_files v' f))" "con_ok cn" for v' cn
  proof (rule keeps_vs [OF ok _ v'(6)], rule files_inv_free [OF parts_okD(1) [OF ok] v'(1)])
    show "set (vt_free v') = set (vt_free (k_vfs k))" using v'(2) free by auto
    show "i \<notin> set (vt_free v') \<Longrightarrow> v_files v' i = v_files (k_vfs k) i" for i using v'(2,3) v(3) by auto
    show "i < 1024 \<Longrightarrow> length (f_pathname (v_files v' i)) = 64 \<and> terminated (f_pathname (v_files v' i))" for i
      using v'(3-5) v(3) D(6) [of i] by (cases "i = f") (simp_all add: the_file_def)
  qed
  show ?thesis
  proof (cases "None \<in> set ?fs")
    case False
    obtain k2 where k2: "kprint (''vfs_open: can'' @ [CHR 0x27] @ ''t allocate fd'' @ [CHR 0x0A]) (?st ?fs v (k_con k)) = Inr k2"
      "free_file f k2 = Inr k'"
      using r False unfolding k1 by (auto simp: open_new_def files_alloc_fd_ok [OF fok] bindR_eq_Inr)
    then obtain cn where cn: "k2 = ?st ?fs v cn" "con_ok cn"
      using kprint_vs [OF _ parts_okD(2) [OF ok]] by blast
    obtain v' where v': "vfs_free_file f v = Inr v'" "vt_inv v'" "vt_free v' = xs @ [f]"
      "\<forall>i. i \<noteq> f \<longrightarrow> v_files v' i = v_files v i" "f_pathname (v_files v' f) = f_pathname (v_files v f)"
      using vfs_free_file_frame [OF v(1) f(1)] f(2) v(2) by auto
    have "k' = ?st ?fs v' cn" using k2(2) v'(1) unfolding cn(1) vs_free_file by simp
    then show ?thesis using ret [of v' cn] v'(2-5) D(6) [OF f(1)] v(3) cn(2) by (simp add: the_file_def)
  next
    case True
    define L where "L = (LEAST i. i < RLIMIT_NOFILE \<and> ?fs ! i = None)"
    let ?fs1 = "?fs[L := Some f]"
    have al: "files_alloc_fd ?fs (Some f) = Inr (int L, ?fs1)"
      using True by (simp add: files_alloc_fd_ok [OF fok] L_def Let_def)
    have L: "L < RLIMIT_NOFILE" "?fs ! L = None"
      using files_alloc_fd_Some [OF fok al] by auto
    have len: "length ?fs = RLIMIT_NOFILE" by (rule D(2) [OF t])
    let ?v2 = "updf f (new_file (int L) flags mode) v"
    obtain b where b: "k_strcpy (f_pathname (v_files v f)) p = Some b"
      using r al unfolding k1 by (auto simp: open_new_def new_file_def Let_def bindR_eq_Inr)
    have "length (f_pathname (v_files v f)) = 64" using D(6) [OF f(1)] v(3) by (simp add: the_file_def)
    then have b': "length b = 64" "terminated b" using k_strcpy_keeps [OF b] by simp_all
    let ?v3 = "updf f (\<lambda>f. f\<lparr>f_pathname := b\<rparr>) ?v2"
    have v3: "vt_inv ?v3" "vt_free ?v3 = xs"
      using v(1,2) vt_inv_updf [of v "new_file (int L) flags mode" f] vt_inv_updf [of ?v2 "\<lambda>f. f\<lparr>f_pathname := b\<rparr>" f]
      by (simp_all add: new_file_def)
    let ?k3 = "?st ?fs1 ?v3 (k_con k)"
    obtain q k4 where q: "fs_open bins fs f ?k3 = Inr (q, k4)"
      "(if q < 0 then let k5 = set_files t (snd (files_free_fd (t_files (the_task t k4)) (int L))) k4
          in bindR (free_file f k5) (\<lambda>k6. Inr (-1, k6)) else Inr (int L, k4)) = Inr (r, k')"
      using r b al unfolding k1 by (auto simp: open_new_def new_file_def Let_def bindR_eq_Inr)
    have "file_step f ?k3 k4" by (rule fs_open_step [OF _ q(1)]) (simp add: parts_okD(2) [OF ok])
    then obtain g cn where g: "k4 = ?st ?fs1 (updf f (\<lambda>_. g) ?v3) cn" "con_ok cn" "f_idx g = f_idx (v_files v f)"
      "f_pathname g = b" "f_fd g = int L"
      using vs_file_step by (fastforce simp: new_file_def)
    let ?v4 = "updf f (\<lambda>_. g) ?v3"
    have v4: "vt_inv ?v4" "vt_free ?v4 = xs" using vt_inv_updf [OF v3(1), of "\<lambda>_. g" f] v3(2) g(3) by (simp_all add: new_file_def)
    show ?thesis
    proof (cases "q < 0")
      case False
      have "files_inv (?st ?fs1 ?v4 cn)"
        by (rule files_inv_give [OF parts_okD(1) [OF ok] t L(1) _ free v4]) (use L(2) g b' v(3) in \<open>simp_all add: slot_def\<close>)
      from keeps_vs [OF ok this g(2)] show ?thesis using q(2) False unfolding g(1) by (auto simp del: updf_simps)
    next
      case neg: True
      have ff: "snd (files_free_fd ?fs1 (int L)) = ?fs"
        using L len by (simp add: files_free_fd_def list_update_same_conv)
      obtain v' where v': "vfs_free_file f ?v4 = Inr v'" "vt_inv v'" "vt_free v' = xs @ [f]"
        "\<forall>i. i \<noteq> f \<longrightarrow> v_files v' i = v_files ?v4 i" "f_pathname (v_files v' f) = f_pathname (v_files ?v4 f)"
        using vfs_free_file_frame [OF v4(1) f(1)] f(2) v4(2) by auto
      have "k' = ?st ?fs v' cn" using q(2) neg g(1) ff v'(1) by (simp add: Let_def vs_free_file)
      then show ?thesis using ret [of v' cn] v'(2-5) g(2,4) b' by simp
    qed
  qed
qed

lemma vfs_open_keeps:
  assumes ok: "parts_ok k" and t: "t < 64" and r: "vfs_open bins (Some t) path flags mode k = Inr (r, k')"
  shows "keeps k k'"
proof -
  note D = files_invD [OF parts_okD(1) [OF ok]]
  obtain p fs where p: "(case fs of None \<Rightarrow> vfs_fail (''vfs_open: no fs found'' @ [CHR 0x0A]) k
       | Some fs \<Rightarrow>
           bindR (vfs_alloc_file (k_vfs k)) (\<lambda>(file, v).
             case file of
               None \<Rightarrow> vfs_fail (''vfs_open: can'' @ [CHR 0x27] @ ''t allocate file'' @ [CHR 0x0A]) k
             | Some file \<Rightarrow> open_new bins t p fs flags mode file (k\<lparr>k_vfs := v\<rparr>))) = Inr (r, k')"
    using r by (auto simp: vfs_open_def bindR_eq_Inr simp del: append.simps)
  have fail: "vfs_fail s k = Inr (r, k') \<Longrightarrow> keeps k k'" for s
    by (auto simp: vfs_fail_def bindR_eq_Inr intro: kprint_keeps [OF ok])
  show ?thesis
  proof (cases fs)
    case None
    then show ?thesis using p fail by simp
  next
    case (Some y)
    show ?thesis
    proof (cases "vt_free (k_vfs k)")
      case Nil
      then show ?thesis using p Some fail by (simp add: vfs_alloc_file_None)
    next
      case (Cons f xs)
      obtain v where v: "vfs_alloc_file (k_vfs k) = Inr (Some f, v)" "vt_inv v" "vt_free v = xs" "v_files v = v_files (k_vfs k)"
        using vfs_alloc_file_frame [OF D(1) Cons] by blast
      show ?thesis using p Some v(1) open_new_keeps [OF ok t Cons v(2-4)] by simp
    qed
  qed
qed

lemma whole_dir_keeps: "parts_ok k \<Longrightarrow> whole_dir fill f buf count k = Inr (r, b, k') \<Longrightarrow> keeps k k'"
  by (auto simp: whole_dir_def bindR_eq_Inr keeps_refl Let_def intro!: keeps_updfile split: option.splits if_splits)

lemma proc_getdents_keeps:
  assumes "parts_ok k" "proc_getdents_file f buf count k = Inr (r, b, k')" shows "keeps k k'"
proof (cases "buf = None \<or> count < SIZEOF_DIRENT \<or> f_pos (the_file f k) > 0")
  case False
  then obtain d where "(case d of Inl e \<Rightarrow> Inr (e, buf, k)
      | Inr fill \<Rightarrow> whole_dir (\<lambda>b m. of_opt (fill b m)) f buf count k) = Inr (r, b, k')"
    using assms(2) by (auto simp: proc_getdents_file_def bindR_eq_Inr)
  then show ?thesis using keeps_refl [OF assms(1)] whole_dir_keeps [OF assms(1)] by (cases d) auto
qed (use assms keeps_refl in \<open>simp add: proc_getdents_file_def\<close>)

lemma vfs_getdents_keeps: "parts_ok k \<Longrightarrow> vfs_getdents bins fd buf count k = Inr (r, b, k') \<Longrightarrow> keeps k k'"
  by (auto simp: vfs_getdents_def root_getdents_file_def bin_getdents_file_def dev_getdents_file_def sys_getdents_file_def keeps_refl
      dest: whole_dir_keeps proc_getdents_keeps split: option.splits gd_op.splits)

lemma vfs_read_begin_keeps:
  "parts_ok k \<Longrightarrow> vfs_read_begin bins fd buf count k = Inr (ReadDone n b k') \<Longrightarrow> keeps k k'"
  by (auto simp: vfs_read_begin_def tty_read_begin_def proc_read_file_def bin_read_file_def bindR_eq_Inr keeps_refl Let_def
      intro!: keeps_updfile split: option.splits rd_op.splits if_splits drv.splits)

lemma vfs_chdir_keeps:
  assumes ok: "parts_ok k" and cur: "k_current k = Some c" "c < 64" and r: "vfs_chdir bins path k = Inr (r, k')"
    and cwd: "length (t_cwd (the_task c k)) = 64"
  shows "keeps k k'"
proof (cases "path = None")
  case True
  then show ?thesis using r keeps_refl [OF ok] by (simp add: vfs_chdir_def)
next
  case False
  obtain p fd k1 where k1: "vfs_open bins (Some c) (Some p) 0 0 k = Inr (fd, k1)"
    "(if fd < 0 then Inr (fd, k1)
            else bindR (vfs_getdents bins fd (Some [blank_dirent]) SIZEOF_DIRENT k1) (\<lambda>(result, _, k2).
                 bindR (vfs_close (Some c) fd k2) (\<lambda>(_, k3).
                   if result < 0 then Inr (result, k3)
                   else bindR (of_opt (k_strncpy (t_cwd (the_task c k3)) 0 p MAX_FILENAME_LEN)) (\<lambda>b.
                        bindR (of_opt (wr b (MAX_FILENAME_LEN - 1) NUL)) (\<lambda>b1.
                          Inr (0, updt c (\<lambda>x. x\<lparr>t_cwd := b1\<rparr>) k3)))))) = Inr (r, k')"
    using r cur False by (auto simp: vfs_chdir_def sched_current_def bindR_eq_Inr)
  note s1 = vfs_open_keeps [OF ok cur(2) k1(1)]
  show ?thesis
  proof (cases "fd < 0")
    case True
    then show ?thesis using s1 k1(2) by simp
  next
    case False
    then obtain res d k2 z k3 where k3: "vfs_getdents bins fd (Some [blank_dirent]) SIZEOF_DIRENT k1 = Inr (res, d, k2)"
      "vfs_close (Some c) fd k2 = Inr (z, k3)"
      "(if res < 0 then Inr (res, k3)
                   else bindR (of_opt (k_strncpy (t_cwd (the_task c k3)) 0 p MAX_FILENAME_LEN)) (\<lambda>b.
                        bindR (of_opt (wr b (MAX_FILENAME_LEN - 1) NUL)) (\<lambda>b1.
                          Inr (0, updt c (\<lambda>x. x\<lparr>t_cwd := b1\<rparr>) k3)))) = Inr (r, k')"
      using k1(2) by (auto simp: bindR_eq_Inr)
    have s2: "keeps k1 k2" by (rule vfs_getdents_keeps [OF keeps_parts [OF s1] k3(1)])
    have s3: "keeps k2 k3" by (rule vfs_close_keeps [OF keeps_parts [OF s2] cur(2) k3(2)])
    have s: "keeps k k3" by (rule keeps_trans [OF keeps_trans [OF s1 s2] s3])
    show ?thesis
    proof (cases "res < 0")
      case True
      then show ?thesis using k3(3) s by simp
    next
      case False
      then obtain b b1 where b: "k_strncpy (t_cwd (the_task c k3)) 0 p MAX_FILENAME_LEN = Some b"
        "wr b (MAX_FILENAME_LEN - 1) NUL = Some b1" "k' = updt c (\<lambda>x. x\<lparr>t_cwd := b1\<rparr>) k3"
        using k3(3) by (auto simp: bindR_eq_Inr)
      have "length b1 = length (t_cwd (k_tasks k3 c))" "terminated b1"
        using strncpy_loop_length b(1,2) set_update_memI [of "MAX_FILENAME_LEN - 1" b NUL]
        by (auto simp: k_strncpy_def wr_eq_Some the_task_def terminated_def)
      then have "keeps k3 k'"
        unfolding b(3) by (intro keeps_task [OF keeps_parts [OF s]]) (simp_all add: task_keeps_def)
      then show ?thesis by (rule keeps_trans [OF s])
    qed
  qed
qed

subsection \<open>Programs\<close>

lemma mem_wr_keeps: "parts_ok k \<Longrightarrow> mem_wr i a c k = Inr k' \<Longrightarrow> keeps k k'"
  by (auto simp: mem_wr_def intro: keeps_mem split: if_splits)

lemma mem_wr_list_keeps: "parts_ok k \<Longrightarrow> mem_wr_list i a cs k = Inr k' \<Longrightarrow> keeps k k'"
proof (induction cs arbitrary: a k)
  case (Cons c cs)
  then obtain k1 where k1: "mem_wr i a c k = Inr k1" "mem_wr_list i (a + 1) cs k1 = Inr k'" by (auto simp: bindR_eq_Inr)
  have "keeps k k1" by (rule mem_wr_keeps [OF Cons.prems(1) k1(1)])
  with Cons.IH [OF keeps_parts k1(2)] show ?case using keeps_trans by blast
qed (simp add: keeps_refl)

lemma mem_fill_keeps: "parts_ok k \<Longrightarrow> mem_fill i a c n k = Inr k' \<Longrightarrow> keeps k k'"
proof (induction n arbitrary: a k)
  case (Suc n)
  then obtain k1 where k1: "mem_wr i a c k = Inr k1" "mem_fill i (a + 1) c n k1 = Inr k'" by (auto simp: bindR_eq_Inr)
  have "keeps k k1" by (rule mem_wr_keeps [OF Suc.prems(1) k1(1)])
  with Suc.IH [OF keeps_parts k1(2)] show ?case using keeps_trans by blast
qed (simp add: keeps_refl)

lemma mem_wr32_keeps: "parts_ok k \<Longrightarrow> mem_wr32 i a w k = Inr k' \<Longrightarrow> keeps k k'"
  unfolding mem_wr32_def by (rule mem_wr_list_keeps)

lemma load_segment_keeps:
  assumes "parts_ok k" "load_segment c img off va fs ms k = Inr k'" shows "keeps k k'"
proof -
  obtain bs k1 where k1: "mem_wr_list c va bs k = Inr k1"
    "(if ms > fs then mem_fill c (va + fs) NUL (unat (ms - fs)) k1 else Inr k1) = Inr k'"
    using assms(2) by (auto simp: load_segment_def bindR_eq_Inr)
  note s1 = mem_wr_list_keeps [OF assms(1) k1(1)]
  have "keeps k1 k'"
    using k1(2) mem_fill_keeps [OF keeps_parts [OF s1]] keeps_refl [OF keeps_parts [OF s1]] by (auto split: if_splits)
  then show ?thesis by (rule keeps_trans [OF s1])
qed

lemma load_segments_keeps:
  "parts_ok k \<Longrightarrow> load_segments n c img ph e sz k = Inr (e', sz', k') \<Longrightarrow> keeps k k'"
proof (induction n arbitrary: ph e sz k)
  case (Suc n)
  obtain ty where ty: "img32 img ph = Inr ty" using Suc.prems(2) by (auto simp: bindR_eq_Inr)
  show ?case
  proof (cases "ty = 1")
    case False
    then show ?thesis using Suc ty by simp
  next
    case True
    then obtain off va fs ms k1 e1 where k1: "load_segment c img off va fs ms k = Inr k1"
      "load_segments n c img (ph + 32) e1 (sz + fs) k1 = Inr (e', sz', k')"
      using Suc.prems(2) ty by (auto simp: bindR_eq_Inr Let_def)
    have "keeps k k1" by (rule load_segment_keeps [OF Suc.prems(1) k1(1)])
    with Suc.IH [OF keeps_parts k1(2)] show ?thesis using keeps_trans by blast
  qed
qed (simp add: keeps_refl)

lemma elf_load_keeps: "parts_ok k \<Longrightarrow> elf_load c img k = Inr (r, k') \<Longrightarrow> keeps k k'"
  by (auto simp: elf_load_def bindR_eq_Inr keeps_refl dest: load_segments_keeps split: if_splits)

lemma src_copy_keeps: "parts_ok k \<Longrightarrow> src_copy n c s j dst k = Inr k' \<Longrightarrow> keeps k k'"
proof (induction n arbitrary: j k)
  case (Suc n)
  then obtain x k1 where k1: "mem_wr c (dst + of_nat j) x k = Inr k1" "src_copy n c s (Suc j) dst k1 = Inr k'"
    by (auto simp: bindR_eq_Inr)
  have "keeps k k1" by (rule mem_wr_keeps [OF Suc.prems(1) k1(1)])
  with Suc.IH [OF keeps_parts k1(2)] show ?case using keeps_trans by blast
qed (simp add: keeps_refl)

lemma set_brk_keeps: "parts_ok k \<Longrightarrow> keeps k (set_brk c b k)"
  unfolding set_brk_def by (rule keeps_task) (simp_all add: task_keeps_def)

lemma copy_args_keeps: "parts_ok k \<Longrightarrow> copy_args n c av i heap k = Inr k' \<Longrightarrow> keeps k k'"
proof (induction n arbitrary: i k)
  case (Suc n)
  obtain s l k1 k2 where k: "src_copy (Suc l) c s 0 (t_brk (the_task c k)) k = Inr k1"
    "mem_wr32 c (heap + 4 * of_nat i) (t_brk (the_task c k)) k1 = Inr k2"
    "copy_args n c av (Suc i) heap (set_brk c (t_brk (the_task c k) + of_nat (Suc l)) k2) = Inr k'"
    using Suc.prems(2) by (auto simp: bindR_eq_Inr Let_def simp del: src_copy.simps)
  note s1 = src_copy_keeps [OF Suc.prems(1) k(1)]
  note s2 = keeps_trans [OF s1 mem_wr32_keeps [OF keeps_parts [OF s1] k(2)]]
  note s3 = keeps_trans [OF s2 set_brk_keeps [OF keeps_parts [OF s2]]]
  show ?case by (rule keeps_trans [OF s3 Suc.IH [OF keeps_parts [OF s3] k(3)]])
qed (simp add: keeps_refl)

lemma copy_vector_keeps:
  assumes "parts_ok k" "copy_vector c av k = Inr (n, h, k')" shows "keeps k k'"
proof -
  obtain b k2 where k: "copy_args n c av 0 h (set_brk c b k) = Inr k2" "mem_wr32 c (h + 4 * of_nat n) 0 k2 = Inr k'"
    using assms(2) by (auto simp: copy_vector_def bindR_eq_Inr Let_def)
  note s1 = set_brk_keeps [OF assms(1), of c b]
  note s2 = keeps_trans [OF s1 copy_args_keeps [OF keeps_parts [OF s1] k(1)]]
  show ?thesis by (rule keeps_trans [OF s2 mem_wr32_keeps [OF keeps_parts [OF s2] k(2)]])
qed

lemma setup_program_keeps:
  assumes ok: "parts_ok k" and r: "setup_program c info argv envp k = Inr (tr, k')" shows "keeps k k'"
proof -
  let ?brk = "align_up (ei_max_offset info) 16" and ?limit = "align_up (ei_max_offset info) 16 + PROCESS_HEAP_SIZE"
  let ?k1 = "updt c (\<lambda>x. x\<lparr>t_brk := ?brk, t_brk_limit := ?limit\<rparr>) k"
  have s1: "keeps k ?k1" by (rule keeps_task [OF ok]) (simp_all add: task_keeps_def)
  show ?thesis
  proof (cases "?brk > ?limit")
    case True
    then show ?thesis using r s1 by (simp add: setup_program_def Let_def)
  next
    case False
    let ?k3 = "updt c (\<lambda>x. x\<lparr>t_u_sp := PROCESS_STACK_TOP\<rparr>)"
    obtain k2 n h k4 n' h' k5 where k: "(if ei_curbrk_off info \<noteq> 0 then mem_wr32 c (PROCESS_VA_BASE + ei_curbrk_off info) ?brk ?k1
        else Inr ?k1) = Inr k2" "copy_vector c argv (?k3 k2) = Inr (n, h, k4)" "copy_vector c envp k4 = Inr (n', h', k5)"
      "(if ei_environ_off info \<noteq> 0 then mem_wr32 c (PROCESS_VA_BASE + ei_environ_off info) h' k5 else Inr k5) = Inr k'"
      using r False by (auto simp: setup_program_def Let_def bindR_eq_Inr task_init_args_def task_init_env_def)
    have s2: "keeps k k2"
      using k(1) s1 mem_wr32_keeps [OF keeps_parts [OF s1]] keeps_trans by (auto split: if_splits)
    have s3: "keeps k (?k3 k2)"
      by (rule keeps_trans [OF s2 keeps_task [OF keeps_parts [OF s2]]]) (simp_all add: task_keeps_def)
    note s4 = keeps_trans [OF s3 copy_vector_keeps [OF keeps_parts [OF s3] k(2)]]
    note s5 = keeps_trans [OF s4 copy_vector_keeps [OF keeps_parts [OF s4] k(3)]]
    show ?thesis
      using k(4) s5 mem_wr32_keeps [OF keeps_parts [OF s5]] keeps_trans by (auto split: if_splits)
  qed
qed

lemma mm_brk_keeps: "parts_ok k \<Longrightarrow> mm_brk a k = (r, k') \<Longrightarrow> keeps k k'"
  by (auto simp: mm_brk_def keeps_refl set_brk_keeps split: option.splits if_splits)

subsection \<open>Signals to tasks that do not sleep\<close>

lemma sched_kill_keeps:
  assumes "parts_ok k" "sched_kill pid sig k = Inr (r, k')"
    "\<And>t. sched_find_by_pid pid k = Some t \<Longrightarrow> t_state (the_task t k) \<noteq> TASK_INTERRUPTIBLE"
  shows "keeps k k'"
proof (cases "sig \<le> 0 \<or> sig > MAX_SIGNALS \<or> sched_find_by_pid pid k = None")
  case True
  then show ?thesis using assms(1,2) by (auto simp: sched_kill_def sched_find_by_pid_def keeps_refl split: if_splits)
next
  case False
  then obtain t where t: "sched_find_by_pid pid k = Some t" by blast
  have "k' = updt t (\<lambda>x. x\<lparr>t_pending := t_pending x OR push_bit (nat (sig - 1)) 1\<rparr>) k"
    using assms(2) False t assms(3) [OF t] by (simp add: sched_kill_def sched_find_by_pid_def updt_def the_task_def Let_def)
  then show ?thesis using keeps_task [OF assms(1)] by (simp add: task_keeps_def)
qed

end
