(* ===== verification/Moves.thy ===== *)
theory Moves
  imports Keeps
begin

section \<open>What system calls move: scheduling, sleeping, waking, forking, ending, reaping\<close>

text \<open>
  \<open>kinv k xs qs ch\<close> is the invariant of the kernel between two pieces of kernel code: the one of
  scheduler, task table and families (\<open>proc_inv\<close>), those of files, terminals and console
  (\<open>parts_ok\<close>), and that every slot in use holds a task that lives, and then has a parent, or a zombie.
  Each operation that changes queues, states or families keeps it, for the lists of queues and
  children that describe the new state.
\<close>

definition slots_ok :: "kernel \<Rightarrow> bool" where
  "slots_ok k \<longleftrightarrow> (\<forall>i < MAX_PROCESS_CNT. (i \<notin> set (free_slots k) \<longrightarrow> alive (k_tasks k i) \<or> t_state (k_tasks k i) = TASK_ZOMBIE)
     \<and> (alive (k_tasks k i) \<longrightarrow> t_parent (k_tasks k i) \<noteq> None))"

definition kinv :: "kernel \<Rightarrow> nat list \<Rightarrow> (wq_id \<Rightarrow> nat list) \<Rightarrow> (nat \<Rightarrow> nat list) \<Rightarrow> bool" where
  "kinv k xs qs ch \<longleftrightarrow> proc_inv k xs qs ch \<and> parts_ok k \<and> slots_ok k"

lemma kinvD:
  assumes "kinv k xs qs ch"
  shows "proc_inv k xs qs ch" "parts_ok k" "slots_ok k" "sched_inv k xs qs" "quiet k qs" "con_ok (k_con k)"
    "family (k_tasks k) (set (free_slots k)) ch" "files_inv k" "tt_inv (k_tt k, k_tasks k)"
proof -
  show p: "proc_inv k xs qs ch" "parts_ok k" "slots_ok k" using assms by (simp_all add: kinv_def)
  show "sched_inv k xs qs" "quiet k qs" "family (k_tasks k) (set (free_slots k)) ch" "tt_inv (k_tt k, k_tasks k)"
    using proc_invD [OF p(1)] by blast+
  show "con_ok (k_con k)" "files_inv k" using parts_okD [OF p(2)] by blast+
qed

lemma alive_states:
  "t_state x = TASK_ZOMBIE \<Longrightarrow> \<not> alive x" "t_state x = TASK_POOLED \<Longrightarrow> \<not> alive x"
  "t_state x = TASK_RUNNING \<Longrightarrow> alive x" "t_state x = TASK_QUEUED \<Longrightarrow> alive x" "sleeping x \<Longrightarrow> alive x"
  by (auto simp: alive_def sleeping_def)

lemma alive_cong: "t_state x = t_state y \<Longrightarrow> alive x = alive y"
  by (simp add: alive_def sleeping_def)

text \<open>A task that may have been moved, but whose place in its family, names and files are the same.\<close>

definition task_moves :: "task \<Rightarrow> task \<Rightarrow> bool" where
  "task_moves x y \<longleftrightarrow> t_pid y = t_pid x \<and> t_parent y = t_parent x \<and> t_children y = t_children x
     \<and> t_next_sibling y = t_next_sibling x \<and> alive y = alive x \<and> (\<not> alive x \<longrightarrow> t_state y = t_state x)
     \<and> length (t_name y) = length (t_name x) \<and> length (t_cwd y) = length (t_cwd x)
     \<and> (terminated (t_name x) \<longrightarrow> terminated (t_name y)) \<and> (terminated (t_cwd x) \<longrightarrow> terminated (t_cwd y))"

lemma task_movesD:
  assumes "task_moves x y"
  shows "t_pid y = t_pid x" "t_parent y = t_parent x" "t_children y = t_children x" "t_next_sibling y = t_next_sibling x"
    "alive y = alive x" "\<not> alive x \<Longrightarrow> t_state y = t_state x"
    "length (t_name y) = length (t_name x)" "length (t_cwd y) = length (t_cwd x)"
    "terminated (t_name x) \<Longrightarrow> terminated (t_name y)" "terminated (t_cwd x) \<Longrightarrow> terminated (t_cwd y)"
  using assms by (simp_all add: task_moves_def)

lemma task_moves_ended:
  assumes "task_moves x y" "s = TASK_ZOMBIE \<or> s = TASK_POOLED" shows "t_state y = s \<longleftrightarrow> t_state x = s"
  using task_movesD(5,6) [OF assms(1)] assms(2) alive_states(1,2) by metis

lemma task_keeps_moves: "task_keeps x y \<Longrightarrow> task_moves x y"
  using alive_cong [of y x] by (auto simp: task_keeps_def task_moves_def)

lemma unlink_moves: "unlink y = unlink x \<Longrightarrow> task_moves x y"
  using unlink_eqD [of y x] alive_cong [of y x] by (simp add: task_moves_def)

lemma proc_inv_moves:
  assumes inv: "proc_inv k xs qs ch" and s: "sched_inv k' xs' qs'" and q: "quiet k qs'" and tt: "k_tt k' = k_tt k"
    and mv: "\<And>i. task_moves (k_tasks k i) (k_tasks k' i)"
  shows "proc_inv k' xs' qs' ch" "free_slots k' = free_slots k"
proof -
  note D = proc_invD [OF inv] and M = task_movesD [OF mv]
  have t: "tt_inv (k_tt k', k_tasks k')" and f: "free_slots k' = free_slots k"
    unfolding tt using tt_inv_cong [OF D(2), of "k_tasks k'"] M(1) by auto
  show "free_slots k' = free_slots k" by (rule f)
  have "family (k_tasks k') (set (free_slots k)) ch" by (rule family_cong [OF D(3)]) (simp add: M)
  moreover have "t_state (k_tasks k' i) = TASK_POOLED \<and> t_children (k_tasks k' i) = None" if "i \<in> set (free_slots k)" for i
    using D(4) [OF that] task_moves_ended [OF mv, of TASK_POOLED i] M(3) by simp
  moreover have "quiet k' qs'"
    using q task_moves_ended [OF mv] unfolding quiet_def by simp
  moreover have "names_kept k'"
    using D(6) M(7-10) unfolding names_kept_def f by simp
  ultimately show "proc_inv k' xs' qs' ch" unfolding proc_inv_def f using s t by simp
qed

lemma slots_ok_moves:
  assumes "slots_ok k" "free_slots k' = free_slots k" "\<And>i. task_moves (k_tasks k i) (k_tasks k' i)"
  shows "slots_ok k'"
  using assms(1) task_movesD(2,5) [OF assms(3)] task_moves_ended [OF assms(3), of TASK_ZOMBIE] unfolding slots_ok_def assms(2) by simp

lemma kinv_moves:
  assumes "kinv k xs qs ch" "sched_inv k' xs' qs'" "quiet k qs'" "k_tt k' = k_tt k"
    "\<And>i. task_moves (k_tasks k i) (k_tasks k' i)" "parts_ok k'"
  shows "kinv k' xs' qs' ch"
  using proc_inv_moves [OF kinvD(1) [OF assms(1)] assms(2-5)] slots_ok_moves [OF kinvD(3) [OF assms(1)] _ assms(5)] assms(6)
  unfolding kinv_def by blast

lemma kinv_keeps:
  assumes inv: "kinv k xs qs ch" and kp: "keeps k k'" shows "kinv k' xs qs ch"
proof (rule kinv_moves [OF inv _ kinvD(5) [OF inv]])
  show "sched_inv k' xs qs"
    by (rule sched_inv_cong' [OF kinvD(4) [OF inv]]) (use keepsD [OF kp] task_keepsD [OF keepsD(6) [OF kp]] in simp_all)
qed (use keepsD [OF kp] task_keeps_moves in simp_all)

lemma running_keeps: "running k \<Longrightarrow> keeps k k' \<Longrightarrow> running k'"
  using keepsD(3) task_keepsD(6) [OF keepsD(6)] by (fastforce simp: running_def)

text \<open>Changes outside tasks, files, terminals and console.\<close>

lemma parts_ok_cong:
  assumes "parts_ok k" "k_vfs k' = k_vfs k" "\<And>i. t_files (k_tasks k' i) = t_files (k_tasks k i)" "con_ok (k_con k')" "ttys_ok k'"
  shows "parts_ok k'"
  using files_inv_cong [OF parts_okD(1) [OF assms(1)] assms(2)] assms(3-5) by (simp add: parts_ok_def the_task_def)

subsection \<open>Scheduling\<close>

lemma sched_frame_parts:
  assumes "parts_ok k" "sched_frame k k'" shows "parts_ok k'"
proof -
  obtain cd con rq ts cur ct where k': "k' = k\<lparr>k_countdown := cd, k_con := con, k_rq := rq, k_tasks := ts, k_current := cur, k_ctxt := ct\<rparr>"
    and con: "con_ok con" and er: "\<And>i. erase (ts i) = erase (k_tasks k i)"
    using assms(2) unfolding sched_frame_def by blast
  show ?thesis
    by (rule parts_ok_cong [OF assms(1)]) (use con eraseD(8) [OF er] parts_okD(3) [OF assms(1)] in \<open>simp_all add: k' ttys_ok_def\<close>)
qed

definition same_heaps :: "kernel \<Rightarrow> kernel \<Rightarrow> bool" where
  "same_heaps k k' \<longleftrightarrow> k_wh k' = k_wh k \<and> k_swapper k' = k_swapper k \<and> k_tt k' = k_tt k \<and> k_ttys k' = k_ttys k"

lemma schedule_kinv:
  assumes inv: "kinv k xs qs ch" and r: "sched_schedule k = Inr k'"
  shows "\<exists>xs'. kinv k' xs' qs ch" "running k'" "same_heaps k k'" "task_moves (k_tasks k i) (k_tasks k' i)"
proof -
  note D = kinvD [OF inv]
  have s: "sched_inv k' (queue_after k xs) qs" "running k'" "sched_frame k k'"
    using sched_schedule_inv [OF D(4,6)] r by auto
  obtain ts where k': "k_wh k' = k_wh k" "k_swapper k' = k_swapper k" "k_tt k' = k_tt k" "k_ttys k' = k_ttys k"
    and er: "\<And>i. erase (k_tasks k' i) = erase (k_tasks k i)"
    using s(3) unfolding sched_frame_def by auto
  have mv: "task_moves (k_tasks k i) (k_tasks k' i)" for i
    using sched_schedule_alive [OF D(4,6) r, of i] eraseD [OF er, of i] by (simp add: task_moves_def)
  show "\<exists>xs'. kinv k' xs' qs ch"
    using kinv_moves [OF inv s(1) D(5) k'(3) mv sched_frame_parts [OF D(2) s(3)]] by blast
  show "running k'" "same_heaps k k'" "task_moves (k_tasks k i) (k_tasks k' i)"
    using s(2) k' mv by (simp_all add: same_heaps_def)
qed

subsection \<open>Going to sleep\<close>

lemma e_task_add [simp]: "e_task (wh_entries (wait_queue_add q e wh) x) = e_task (wh_entries wh x)"
  by (auto simp: wait_queue_add_def upde_def updq_def Let_def split: option.split)

lemma e_task_remove [simp]: "e_task (wh_entries (wait_queue_remove e wh) x) = e_task (wh_entries wh x)"
  by (auto simp: wait_queue_remove_def upde_def updq_def Let_def split: option.split)

lemma e_task_init [simp]: "e_task (wh_entries (wait_queue_entry_init e t wh) x) = (if x = e then t else e_task (wh_entries wh x))"
  by (simp add: wait_queue_entry_init_def upde_def)

lemma waiting_add: "waiting (qs(q := qs q @ [c])) = insert c (waiting qs)"
  by (auto simp: waiting_def split: if_splits)

lemma not_waiting:
  assumes "sched_inv k xs qs" "running k" "k_current k = Some c"
  shows "c \<notin> waiting qs" "c \<notin> set xs" "c < MAX_PROCESS_CNT" "e_queue (wh_entries (k_wh k) c) = None"
proof -
  note D = sched_invD [OF assms(1)]
  show w: "c \<notin> waiting qs" using D(3) [of c] assms(2,3) by (auto simp: running_def sleeping_def)
  show "c \<notin> set xs" "c < MAX_PROCESS_CNT" using D(6) assms(3) by (auto simp: current_ok_def)
  show "e_queue (wh_entries (k_wh k) c) = None"
  proof (rule ccontr)
    assume "e_queue (wh_entries (k_wh k) c) \<noteq> None"
    then obtain q where "e_queue (wh_entries (k_wh k) c) = Some q" by blast
    then have "c \<in> set (qs q)" using wh_invD(3) [OF D(2)] by blast
    then show False using w by (auto simp: waiting_def)
  qed
qed

lemma sched_inv_wh:
  assumes inv: "sched_inv k xs qs" and wh: "wh_inv wh qs" "\<And>e. e \<in> waiting qs \<Longrightarrow> e_task (wh_entries wh e) = e_task (wh_entries (k_wh k) e)"
  shows "sched_inv (k\<lparr>k_wh := wh\<rparr>) xs qs"
proof -
  let ?k = "k\<lparr>k_wh := wh\<rparr>"
  have "placed ?k xs qs = placed k xs qs" "swapper_ok ?k xs qs = swapper_ok k xs qs" "current_ok ?k xs qs = current_ok k xs qs"
    by (simp_all add: placed_def swapper_ok_def current_ok_def fun_eq_iff)
  then show ?thesis using inv wh(1) unfolding sched_inv_def by (simp add: wh(2))
qed

lemma kinv_wh:
  assumes inv: "kinv k xs qs ch" and wh: "wh_inv wh qs" "\<And>e. e \<in> waiting qs \<Longrightarrow> e_task (wh_entries wh e) = e_task (wh_entries (k_wh k) e)"
  shows "kinv (k\<lparr>k_wh := wh\<rparr>) xs qs ch"
proof -
  have "parts_ok (k\<lparr>k_wh := wh\<rparr>)"
    by (rule parts_ok_cong [OF kinvD(2) [OF inv]]) (use parts_okD [OF kinvD(2) [OF inv]] in \<open>simp_all add: ttys_ok_def\<close>)
  then show ?thesis
    using kinv_moves [OF inv sched_inv_wh [OF kinvD(4) [OF inv] wh] kinvD(5) [OF inv]] by (simp add: task_moves_def)
qed

text \<open>The current task's entry is in no queue, so that preparing or removing it is harmless.\<close>

lemma kinv_entry_init:
  assumes "kinv k xs qs ch" "running k" "k_current k = Some c"
  shows "kinv (k\<lparr>k_wh := wait_queue_entry_init c (Some c) (k_wh k)\<rparr>) xs qs ch"
proof -
  note N = not_waiting [OF kinvD(4) [OF assms(1)] assms(2,3)]
  show ?thesis
    by (rule kinv_wh [OF assms(1) wait_queue_entry_init_inv [OF sched_invD(2) [OF kinvD(4) [OF assms(1)]] N(4)]])
      (use N(1) in auto)
qed

text \<open>The part of \<open>wait_event\<close> after the condition was found false.\<close>

definition put_to_sleep :: "wq_id \<Rightarrow> nat \<Rightarrow> sched_state \<Rightarrow> kernel \<Rightarrow> kernel" where
  "put_to_sleep q c st k = (updt c (\<lambda>x. x\<lparr>t_state := st\<rparr>) k)\<lparr>k_wh := wait_queue_add q c (k_wh k)\<rparr>"

lemma sched_inv_sleep:
  assumes inv: "sched_inv k xs qs" and run: "running k" "k_current k = Some c" "k_swapper k \<noteq> Some c"
    and e: "e_task (wh_entries (k_wh k) c) = Some c" and st: "st = TASK_INTERRUPTIBLE \<or> st = TASK_UNINTERRUPTIBLE"
  shows "sched_inv (put_to_sleep q c st k) xs (qs(q := qs q @ [c]))"
proof -
  note D = sched_invD [OF inv] and N = not_waiting [OF inv run(1,2)]
  let ?k = "put_to_sleep q c st k"
  have same: "k_swapper ?k = k_swapper k" "k_rq ?k = k_rq k" "k_current ?k = k_current k" "k_wh ?k = wait_queue_add q c (k_wh k)"
    by (simp_all add: put_to_sleep_def updt_def)
  have tk: "t_state (k_tasks ?k i) = (if i = c then st else t_state (k_tasks k i))" "t_next (k_tasks ?k i) = t_next (k_tasks k i)" for i
    by (simp_all add: put_to_sleep_def updt_def upd_apply)
  have sl: "sleeping (k_tasks ?k i) = (i = c \<or> sleeping (k_tasks k i))" for i using st by (auto simp: sleeping_def tk)
  note W = waiting_add [of qs q c]
  have "rq_rep (k_rq k, k_tasks ?k) xs" by (rule rq_rep_cong [OF D(1)]) (rule tk(2))
  moreover have "wh_inv (wait_queue_add q c (k_wh k)) (qs(q := qs q @ [c]))"
    by (rule wait_queue_add_inv [OF D(2) N(4,3)])
  moreover have "\<forall>e \<in> waiting (qs(q := qs q @ [c])). e_task (wh_entries (k_wh ?k) e) = Some e \<and> sleeping (k_tasks ?k e) \<and> e \<notin> set xs"
    using D(3) e N(2) unfolding W same sl by auto
  moreover have "\<forall>t \<in> set xs. t_state (k_tasks ?k t) = TASK_QUEUED \<or> sleeping (k_tasks ?k t)"
    using D(4) unfolding tk sl by auto
  moreover have "placed ?k xs (qs(q := qs q @ [c])) t" if "t < MAX_PROCESS_CNT" for t
    using D(9) [OF that] st unfolding placed_def W sl tk same by (cases "t = c") auto
  moreover have "swapper_ok ?k xs (qs(q := qs q @ [c]))"
    using D(5) run(3) unfolding swapper_ok_def W tk same by auto
  moreover have "current_ok ?k xs (qs(q := qs q @ [c]))"
    using D(6) run(2) unfolding current_ok_def W tk sl same by auto
  ultimately show ?thesis unfolding sched_inv_def same by simp
qed

lemma kinv_sleep:
  assumes inv: "kinv k xs qs ch" and run: "running k" "k_current k = Some c" "k_swapper k \<noteq> Some c"
    and e: "e_task (wh_entries (k_wh k) c) = Some c" and st: "st = TASK_INTERRUPTIBLE \<or> st = TASK_UNINTERRUPTIBLE"
    and q: "\<And>z. q = ExitQ z \<Longrightarrow> z < 64 \<Longrightarrow> alive (k_tasks k z)" "\<And>z. q = ChildQ z \<Longrightarrow> z < 64 \<Longrightarrow> z = c"
  shows "kinv (put_to_sleep q c st k) xs (qs(q := qs q @ [c])) ch" "task_moves (k_tasks k i) (k_tasks (put_to_sleep q c st k) i)"
proof -
  let ?k = "put_to_sleep q c st k"
  have "t_state (k_tasks k c) = TASK_RUNNING" using run(1,2) by (simp add: running_def)
  then have mv: "task_moves (k_tasks k i) (k_tasks ?k i)" for i
    using st by (auto simp: put_to_sleep_def updt_def upd_apply task_moves_def alive_def sleeping_def)
  then show "task_moves (k_tasks k i) (k_tasks ?k i)" .
  have al: "\<not> (t_state (k_tasks k z) = TASK_ZOMBIE \<or> t_state (k_tasks k z) = TASK_POOLED)" if "q = ExitQ z" "z < 64" for z
    using q(1) [OF that] alive_states(1,2) by metis
  have qu: "quiet k (qs(q := qs q @ [c]))"
    using kinvD(5) [OF inv] al q(2) unfolding quiet_def by auto
  have po: "parts_ok ?k"
    by (rule parts_ok_cong [OF kinvD(2) [OF inv]])
      (use parts_okD [OF kinvD(2) [OF inv]] in \<open>simp_all add: put_to_sleep_def updt_def upd_apply ttys_ok_def\<close>)
  have tt: "k_tt ?k = k_tt k" by (simp add: put_to_sleep_def updt_def)
  show "kinv ?k xs (qs(q := qs q @ [c])) ch"
    by (rule kinv_moves [OF inv sched_inv_sleep [OF kinvD(4) [OF inv] run e st] qu tt mv po])
qed

subsection \<open>Waking\<close>

lemma unlink_files: "unlink y = unlink x \<Longrightarrow> t_files y = t_files x"
  by (rule unlink_eqD(14))

lemma wakeup_on_kinv:
  assumes inv: "kinv k xs qs ch" and cur: "\<forall>c. k_current k = Some c \<longrightarrow> c \<notin> set (qs q)"
  shows "\<exists>wh rq ts. wakeup_on q k = Inr (k\<lparr>k_wh := wh, k_rq := rq, k_tasks := ts\<rparr>)
    \<and> kinv (k\<lparr>k_wh := wh, k_rq := rq, k_tasks := ts\<rparr>) (xs @ qs q) (qs(q := [])) ch
    \<and> (\<forall>i. unlink (ts i) = unlink (k_tasks k i)) \<and> (\<forall>e. e_task (wh_entries wh e) = e_task (wh_entries (k_wh k) e))"
proof -
  obtain wh rq ts where w: "wakeup_on q k = Inr (k\<lparr>k_wh := wh, k_rq := rq, k_tasks := ts\<rparr>)"
    "sched_inv (k\<lparr>k_wh := wh, k_rq := rq, k_tasks := ts\<rparr>) (xs @ qs q) (qs(q := []))"
    "\<forall>i. unlink (ts i) = unlink (k_tasks k i)" "\<forall>e. e_task (wh_entries wh e) = e_task (wh_entries (k_wh k) e)"
    using wakeup_on_inv [OF kinvD(4) [OF inv] cur] by blast
  let ?k = "k\<lparr>k_wh := wh, k_rq := rq, k_tasks := ts\<rparr>"
  have po: "parts_ok ?k"
    by (rule parts_ok_cong [OF kinvD(2) [OF inv]])
      (use unlink_files [OF w(3) [rule_format]] parts_okD [OF kinvD(2) [OF inv]] in \<open>simp_all add: ttys_ok_def\<close>)
  have "quiet k (qs(q := []))" using kinvD(5) [OF inv] by (auto simp: quiet_def)
  then have "kinv ?k (xs @ qs q) (qs(q := [])) ch"
    using kinv_moves [OF inv w(2) _ _ _ po] unlink_moves [OF w(3) [rule_format]] by simp
  then show ?thesis using w by blast
qed

subsection \<open>fork\<close>

lemma fork_unmapped:
  assumes "free_slots k = c # fs" "tt_inv (k_tt k, k_tasks k)" "k_current k = Some p" "\<not> (process_mapped p \<and> process_mapped c)"
  shows "sched_fork k \<noteq> Inr x"
proof -
  obtain tt ts where "table_alloc k = Inr (Some c, k\<lparr>k_tt := tt, k_tasks := ts\<rparr>)"
    using task_table_alloc_Cons [OF assms(2,1)] by (auto simp: table_alloc_def)
  then show ?thesis using assms(3,4) by (auto simp: sched_fork_def sched_current_def copy_region_def bindR_eq_Inr Let_def)
qed

lemma fork_none:
  assumes "free_slots k = []" "k_current k = Some p" shows "sched_fork k = Inr (- ENOMEM, None, k)"
  using assms(2) task_table_alloc_None [OF assms(1)] by (simp add: sched_fork_def sched_current_def table_alloc_def)

definition forks :: "nat \<Rightarrow> nat \<Rightarrow> kernel \<Rightarrow> kernel \<Rightarrow> bool" where
  "forks p c k k' \<longleftrightarrow> k_current k' = Some p \<and> running k' \<and> same_heaps (k\<lparr>k_tt := k_tt k'\<rparr>) k' \<and> fork_effect p c k k' \<and> c < 64
     \<and> t_state (k_tasks k c) = TASK_POOLED"

lemma fork_kinv:
  assumes inv: "kinv k xs qs ch" and run: "running k" "k_current k = Some p" and r: "sched_fork k = Inr (pid, child, k')"
  shows "(child = None \<and> k' = k) \<or> (\<exists>c. child = Some c \<and> kinv k' (xs @ [c]) qs (ch(p := c # ch p)) \<and> forks p c k k')"
proof (cases "free_slots k")
  case Nil
  then show ?thesis using fork_none [OF Nil run(2)] r by simp
next
  case (Cons c fs)
  note P = kinvD(1) [OF inv]
  have m: "process_mapped p" "process_mapped c" using fork_unmapped [OF Cons kinvD(9) [OF inv] run(2)] r by blast+
  have c: "c < 64" "c \<in> set (free_slots k)" "distinct (free_slots k)" using tt_invD(3,4) [OF kinvD(9) [OF inv]] Cons by auto
  obtain k1 where k1: "sched_fork k = Inr (t_pid (the_task c k1), Some c, k1)" "proc_inv k1 (xs @ [c]) qs (ch(p := c # ch p))"
    "free_slots k1 = fs" "k_current k1 = Some p" "running k1" "fork_effect p c k k1"
    using fork_ok [OF P run Cons m] by blast
  then have k': "child = Some c" "k' = k1" using r by simp_all
  obtain tt x where "sched_fork k = bindR (sched_enqueue c (with_child p c x tt k)) (\<lambda>k'. Inr (t_pid (the_task c k'), Some c, k'))"
    using fork_runs [OF P run Cons m] by blast
  then have "bindR (sched_enqueue c (with_child p c x tt k)) (\<lambda>k'. Inr (t_pid (the_task c k'), Some c, k'))
      = Inr (t_pid (the_task c k1), Some c, k1)" using k1(1) by simp
  then obtain rq ts where k1': "k1 = (with_child p c x tt k)\<lparr>k_rq := rq, k_tasks := ts\<rparr>"
    by (auto simp: bindR_eq_Inr sched_enqueue_def)
  have E: "t_files (k_tasks k1 c) = t_files (k_tasks k c)" "t_state (k_tasks k1 c) = TASK_QUEUED" "t_parent (k_tasks k1 c) = Some p"
    "\<And>i. i \<noteq> c \<Longrightarrow> i \<noteq> p \<Longrightarrow> unlink (k_tasks k1 i) = unlink (k_tasks k i)"
    "unlink (k_tasks k1 p) = unlink ((k_tasks k p)\<lparr>t_children := Some c\<rparr>)"
    using k1(6) by (simp_all add: fork_effect_def Let_def the_task_def)
  have O: "t_files (k_tasks k1 i) = t_files (k_tasks k i)" "i \<noteq> c \<Longrightarrow> t_state (k_tasks k1 i) = t_state (k_tasks k i)"
    "i \<noteq> c \<Longrightarrow> t_parent (k_tasks k1 i) = t_parent (k_tasks k i)" for i
    using unlink_eqD [OF E(4), of i] unlink_eqD [OF E(5)] E(1) by (cases "i = c"; cases "i = p"; simp)+
  have al: "i \<noteq> c \<Longrightarrow> alive (k_tasks k1 i) = alive (k_tasks k i)" for i by (rule alive_cong [OF O(2)])
  have st: "t_state (k_tasks k c) = TASK_POOLED" using proc_invD(4) [OF P c(2)] by blast
  have "parts_ok k1"
    by (rule parts_ok_cong [OF kinvD(2) [OF inv]])
      (use O(1) parts_okD [OF kinvD(2) [OF inv]] in \<open>simp_all add: k1' with_child_def ttys_ok_def\<close>)
  moreover have "slots_ok k1"
    unfolding slots_ok_def k1(3)
  proof (intro allI impI conjI)
    fix i assume i: "i < MAX_PROCESS_CNT"
    show "alive (k_tasks k1 i) \<or> t_state (k_tasks k1 i) = TASK_ZOMBIE" if "i \<notin> set fs"
      using kinvD(3) [OF inv] i that Cons O(2) al E(2) alive_states(4) unfolding slots_ok_def by (cases "i = c") auto
    show "t_parent (k_tasks k1 i) \<noteq> None" if "alive (k_tasks k1 i)"
      using kinvD(3) [OF inv] i that O(3) al E(3) unfolding slots_ok_def by (cases "i = c") auto
  qed
  moreover have "same_heaps (k\<lparr>k_tt := k_tt k1\<rparr>) k1" by (simp add: same_heaps_def k1' with_child_def)
  ultimately show ?thesis using k1 k' c(1) st unfolding kinv_def forks_def by blast
qed

subsection \<open>exit\<close>

lemma wakeup_loop_e_task:
  "wakeup_loop n p (wh, rq, ts) = Inr (wh', s) \<Longrightarrow> e_task (wh_entries wh' e) = e_task (wh_entries wh e)"
proof (induction n arbitrary: p wh rq ts)
  case (Suc n)
  show ?case
  proof (cases p)
    case None
    with Suc.prems show ?thesis by simp
  next
    case (Some x)
    define wh1 where "wh1 = upde x (\<lambda>y. y\<lparr>e_prev := None, e_next := None, e_queue := None\<rparr>) wh"
    obtain q rq1 ts1 where "wakeup_loop n q (wh1, rq1, ts1) = Inr (wh', s)"
      using Suc.prems Some unfolding wh1_def
      by (auto simp: Let_def bindR_eq_Inr split: option.splits if_splits)
    from Suc.IH [OF this] show ?thesis by (simp add: wh1_def upde_def)
  qed
qed simp

lemma wakeup_on_frame:
  assumes "wakeup_on q k = Inr k'"
  shows "k_swapper k' = k_swapper k" "k_ttys k' = k_ttys k" "e_task (wh_entries (k_wh k') e) = e_task (wh_entries (k_wh k) e)"
proof -
  obtain wh s where w: "wakeup q (k_wh k, k_rq k, k_tasks k) = Inr (wh, s)" "k' = k\<lparr>k_wh := wh, k_rq := fst s, k_tasks := snd s\<rparr>"
    using assms by (auto simp: wakeup_on_def bindR_eq_Inr)
  then show "k_swapper k' = k_swapper k" "k_ttys k' = k_ttys k" by simp_all
  show "e_task (wh_entries (k_wh k') e) = e_task (wh_entries (k_wh k) e)"
    using wakeup_loop_e_task [of WAKE_FUEL _ _ "k_rq k" "k_tasks k" wh s e] w by (simp add: wakeup_def updq_def)
qed

lemma exit_frame:
  assumes "files_inv k" "c < 64" "k_current k = Some c" "exit_current status k = Inr k'"
  shows "k_swapper k' = k_swapper k" "k_ttys k' = k_ttys k" "e_task (wh_entries (k_wh k') e) = e_task (wh_entries (k_wh k) e)"
proof -
  obtain v where v: "close_all RLIMIT_NOFILE c k = Inr (vs k c (replicate RLIMIT_NOFILE None) v (k_con k))"
    using close_all_files [OF assms(1,2)] by blast
  let ?k1 = "vs k c (replicate RLIMIT_NOFILE None) v (k_con k)"
  let ?k2 = "updt c (\<lambda>x. x\<lparr>t_exit_status := status, t_state := TASK_ZOMBIE\<rparr>) ?k1"
  obtain k3 k4 where k: "wakeup_on (ExitQ c) ?k2 = Inr k3" "k4 = k3 \<or> (\<exists>p. wakeup_on (ChildQ p) k3 = Inr k4)" "k' = k4\<lparr>k_current := None\<rparr>"
    using assms(3,4) v by (auto simp: exit_current_def bindR_eq_Inr Let_def split: if_splits)
  have 2: "k_swapper ?k2 = k_swapper k" "k_ttys ?k2 = k_ttys k" "k_wh ?k2 = k_wh k" by (simp_all add: updt_def vs_def)
  note 3 = wakeup_on_frame [OF k(1)]
  have "k_swapper k4 = k_swapper k3 \<and> k_ttys k4 = k_ttys k3 \<and> e_task (wh_entries (k_wh k4) e) = e_task (wh_entries (k_wh k3) e)"
    using k(2) wakeup_on_frame by blast
  then show "k_swapper k' = k_swapper k" "k_ttys k' = k_ttys k" "e_task (wh_entries (k_wh k') e) = e_task (wh_entries (k_wh k) e)"
    using 2 3 k(3) by simp_all
qed

definition ends :: "nat \<Rightarrow> kernel \<Rightarrow> kernel \<Rightarrow> bool" where
  "ends c k k' \<longleftrightarrow> k_swapper k' = k_swapper k \<and> k_ttys k' = k_ttys k \<and> (\<forall>e. e_task (wh_entries (k_wh k') e) = e_task (wh_entries (k_wh k) e))
     \<and> t_state (k_tasks k' c) = TASK_ZOMBIE \<and> (\<forall>i. i \<noteq> c \<longrightarrow> unlink (k_tasks k' i) = unlink (k_tasks k i)) \<and> k_current k' = None"

lemma exit_kinv:
  assumes inv: "kinv k xs qs ch" and run: "running k" "k_current k = Some c" "k_swapper k \<noteq> Some c"
  shows "\<exists>p k'. t_parent (k_tasks k c) = Some p \<and> exit_current status k = Inr k'
    \<and> kinv k' (xs @ exit_waiters p c qs) (exit_queues p c qs) ch \<and> ends c k k'"
proof -
  note P = kinvD(1) [OF inv] and R = running_in_use [OF kinvD(1) [OF inv] run(1,2)]
  obtain p where p: "t_parent (k_tasks k c) = Some p"
    using kinvD(3) [OF inv] R(1) alive_states(3) [OF R(5)] unfolding slots_ok_def by blast
  obtain k' where k': "exit_current status k = Inr k'" "files_inv k'"
    "proc_inv k' (xs @ exit_waiters p c qs) (exit_queues p c qs) ch" "exited c status k k'"
    using exit_ok [OF P kinvD(8) [OF inv] run] p by (auto simp: the_task_def)
  have F: "k_swapper k' = k_swapper k" "k_ttys k' = k_ttys k" "e_task (wh_entries (k_wh k') e) = e_task (wh_entries (k_wh k) e)" for e
    using exit_frame [OF kinvD(8) [OF inv] _ run(2) k'(1)] R(1) by simp_all
  have E: "k_current k' = None" "t_state (k_tasks k' c) = TASK_ZOMBIE" "free_slots k' = free_slots k" "k_con k' = k_con k"
    "\<And>i. i \<noteq> c \<Longrightarrow> unlink (k_tasks k' i) = unlink (k_tasks k i)"
    using k'(4) by (simp_all add: exited_def the_task_def)
  note U = unlink_eqD [OF E(5)]
  have "parts_ok k'"
    using k'(2) parts_okD(2,3) [OF kinvD(2) [OF inv]] E(4) F(2) by (simp add: parts_ok_def ttys_ok_def)
  moreover have "slots_ok k'"
    unfolding slots_ok_def E(3)
  proof (intro allI impI conjI)
    fix i assume i: "i < MAX_PROCESS_CNT"
    show "alive (k_tasks k' i) \<or> t_state (k_tasks k' i) = TASK_ZOMBIE" if "i \<notin> set (free_slots k)"
      using kinvD(3) [OF inv] i that E(2) U(2) [of i] alive_cong [OF U(2), of i] unfolding slots_ok_def by (cases "i = c") auto
    show "t_parent (k_tasks k' i) \<noteq> None" if "alive (k_tasks k' i)"
      using kinvD(3) [OF inv] i that alive_states(1) [OF E(2)] U(5) [of i] alive_cong [OF U(2), of i] unfolding slots_ok_def
      by (cases "i = c") auto
  qed
  ultimately have "kinv k' (xs @ exit_waiters p c qs) (exit_queues p c qs) ch" using k'(3) by (simp add: kinv_def)
  then show ?thesis using p k'(1) E F unfolding ends_def by blast
qed

subsection \<open>waitpid\<close>

lemma unlink_child_files: "unlink_child n l x ts = Inr ts' \<Longrightarrow> t_files (ts' i) = t_files (ts i)"
proof (induction n arbitrary: l)
  case (Suc n)
  have "t_files (set_loc l' v ts i) = t_files (ts i)" for l' v
    using set_loc_frame [of l' v ts i] by auto
  with Suc show ?case by (auto split: option.splits if_splits)
qed simp

definition reaps :: "nat \<Rightarrow> kernel \<Rightarrow> kernel \<Rightarrow> bool" where
  "reaps z k k' \<longleftrightarrow> same_heaps (k\<lparr>k_tt := k_tt k'\<rparr>) k' \<and> k_current k' = k_current k
     \<and> (\<forall>i. i \<noteq> z \<longrightarrow> t_state (k_tasks k' i) = t_state (k_tasks k i)) \<and> \<not> alive (k_tasks k' z)
     \<and> t_state (k_tasks k' z) \<noteq> TASK_ZOMBIE"

lemma reap_kinv:
  assumes inv: "kinv k xs qs ch" and p: "p < 64" "z \<in> set (ch p)" "t_state (k_tasks k z) = TASK_ZOMBIE"
  shows "\<exists>k'. reap p z k = Inr (t_pid (the_task z k), t_exit_status (the_task z k), k')
    \<and> kinv k' xs qs (ch(p := remove1 z (ch p), z := [])) \<and> reaps z k k'"
proof -
  obtain k' where k': "reap p z k = Inr (t_pid (the_task z k), t_exit_status (the_task z k), k')"
    "proc_inv k' xs qs (ch(p := remove1 z (ch p), z := []))" "reaped z k k'"
    using reap_ok [OF kinvD(1) [OF inv] p] by blast
  obtain ts tt ts' where t: "unlink_child CHILD_FUEL (ChildrenOf p) z (k_tasks k) = Inr ts" "task_table_free z (k_tt k, ts) = Inr (tt, ts')"
    "k' = k\<lparr>k_tasks := ts', k_tt := tt\<rparr>"
    using k'(1) by (auto simp: reap_def bindR_eq_Inr table_free_def Let_def)
  have fl: "t_files (k_tasks k' i) = t_files (k_tasks k i)" for i
    using t(2) unlink_child_files [OF t(1), of i]
    by (auto simp: t(3) task_table_free_def bindR_eq_Inr Let_def upd_apply split: if_splits)
  have R: "free_slots k' = free_slots k @ [z]" "\<And>i. i \<noteq> z \<Longrightarrow> \<exists>a b. k_tasks k' i = (k_tasks k i)\<lparr>t_children := a, t_next_sibling := b\<rparr>"
    using k'(3) by (simp_all add: reaped_def the_task_def)
  have st: "i \<noteq> z \<Longrightarrow> t_state (k_tasks k' i) = t_state (k_tasks k i) \<and> t_parent (k_tasks k' i) = t_parent (k_tasks k i)" for i
    using R(2) [of i] by auto
  have pz: "t_state (k_tasks k' z) = TASK_POOLED" using proc_invD(4) [OF k'(2), of z] R(1) by simp
  have "parts_ok k'"
    by (rule parts_ok_cong [OF kinvD(2) [OF inv]]) (use fl parts_okD [OF kinvD(2) [OF inv]] in \<open>simp_all add: t(3) ttys_ok_def\<close>)
  moreover have "slots_ok k'"
    unfolding slots_ok_def R(1)
  proof (intro allI impI conjI)
    fix i assume i: "i < MAX_PROCESS_CNT"
    show "alive (k_tasks k' i) \<or> t_state (k_tasks k' i) = TASK_ZOMBIE" if "i \<notin> set (free_slots k @ [z])"
      using kinvD(3) [OF inv] i that st [of i] alive_cong [of "k_tasks k' i" "k_tasks k i"] unfolding slots_ok_def by auto
    show "t_parent (k_tasks k' i) \<noteq> None" if "alive (k_tasks k' i)"
      using kinvD(3) [OF inv] i that st [of i] alive_cong [of "k_tasks k' i" "k_tasks k i"] alive_states(2) [OF pz]
      unfolding slots_ok_def by (cases "i = z") auto
  qed
  moreover have "reaps z k k'"
    using k'(3) st pz alive_states(2) [OF pz] by (simp add: reaps_def reaped_def same_heaps_def t(3))
  ultimately show ?thesis using k' unfolding kinv_def by blast
qed

subsection \<open>execve\<close>

lemma sched_enqueue_current:
  "sched_enqueue t (k\<lparr>k_current := x\<rparr>) = bindR (sched_enqueue t k) (\<lambda>k'. Inr (k'\<lparr>k_current := x\<rparr>))"
  by (auto simp: sched_enqueue_def bindR_def split: sum.split)

text \<open>The task with the new program goes to the end of the run queue and is no longer the current one.\<close>

lemma requeue_kinv:
  assumes inv: "kinv k xs qs ch" and run: "running k" "k_current k = Some c" "k_swapper k \<noteq> Some c"
    and r: "sched_enqueue c (updt c (\<lambda>x. x\<lparr>t_state := TASK_QUEUED\<rparr>) k) = Inr k1"
  shows "kinv (k1\<lparr>k_current := None\<rparr>) (xs @ [c]) qs ch" "same_heaps k (k1\<lparr>k_current := None\<rparr>)"
    "task_moves (k_tasks k i) (k_tasks k1 i)"
proof -
  let ?u = "updt c (\<lambda>x. x\<lparr>t_state := TASK_QUEUED\<rparr>) k"
  let ?q = "?u\<lparr>k_current := None\<rparr>"
  note N = not_waiting [OF kinvD(4) [OF inv] run(1,2)]
  have z: "sched_inv (zombie c 0 k) xs qs" by (rule sched_inv_zombie [OF kinvD(4) [OF inv] run])
  have zk: "k_current (zombie c 0 k) = None" "k_swapper (zombie c 0 k) = k_swapper k" "k_wh (zombie c 0 k) = k_wh k"
    "k_rq (zombie c 0 k) = k_rq k" "i \<noteq> c \<Longrightarrow> k_tasks (zombie c 0 k) i = k_tasks k i" for i
    by (simp_all add: zombie_def updt_def)
  have uk: "k_wh ?q = k_wh k" "k_swapper ?q = k_swapper k" "k_current ?q = None" "k_rq ?q = k_rq k"
    "k_tasks ?q i = (if i = c then (k_tasks k c)\<lparr>t_state := TASK_QUEUED\<rparr> else k_tasks k i)" for i
    by (simp_all add: updt_def upd_apply)
  obtain rq ts where q: "sched_enqueue c ?q = Inr (?q\<lparr>k_rq := rq, k_tasks := ts\<rparr>)"
    "sched_inv (?q\<lparr>k_rq := rq, k_tasks := ts\<rparr>) (xs @ [c]) qs" "\<forall>i. unlink (ts i) = unlink (k_tasks ?q i)"
  proof -
    have "\<exists>rq ts. sched_enqueue c ?q = Inr (?q\<lparr>k_rq := rq, k_tasks := ts\<rparr>)
      \<and> sched_inv (?q\<lparr>k_rq := rq, k_tasks := ts\<rparr>) (xs @ [c]) qs \<and> (\<forall>i. unlink (ts i) = unlink (k_tasks ?q i))"
      by (rule sched_enqueue_inv [OF z N(3,2,1)]) (use run(3) in \<open>simp_all add: zk updt_def\<close>)
    then show ?thesis using that by blast
  qed
  have k1: "k1\<lparr>k_current := None\<rparr> = ?q\<lparr>k_rq := rq, k_tasks := ts\<rparr>"
    using q(1) r unfolding sched_enqueue_current by simp
  then have "k_tasks (k1\<lparr>k_current := None\<rparr>) = ts" by simp
  then have tk: "k_tasks k1 = ts" by simp
  have run': "t_state (k_tasks k c) = TASK_RUNNING" using run(1,2) by (simp add: running_def)
  have m1: "task_moves (k_tasks k i) (k_tasks ?q i)" for i
    using run' unfolding uk(5) by (auto simp: task_moves_def alive_def)
  have mv: "task_moves (k_tasks k i) (ts i)" for i
    using m1 [of i] unlink_moves [OF q(3) [rule_format], of i] unfolding task_moves_def by auto
  then show "task_moves (k_tasks k i) (k_tasks k1 i)" by (simp add: tk)
  have fl: "t_files (ts i) = t_files (k_tasks k i)" for i
    using unlink_files [OF q(3) [rule_format], of i] uk(5) [of i] by simp
  let ?k = "?q\<lparr>k_rq := rq, k_tasks := ts\<rparr>"
  have po: "parts_ok ?k"
    by (rule parts_ok_cong [OF kinvD(2) [OF inv]])
      (use fl parts_okD [OF kinvD(2) [OF inv]] in \<open>simp_all add: updt_def ttys_ok_def\<close>)
  have "kinv ?k (xs @ [c]) qs ch"
    by (rule kinv_moves [OF inv q(2) kinvD(5) [OF inv] _ _ po]) (use mv in \<open>simp_all add: updt_def\<close>)
  then show "kinv (k1\<lparr>k_current := None\<rparr>) (xs @ [c]) qs ch" unfolding k1 .
  show "same_heaps k (k1\<lparr>k_current := None\<rparr>)" unfolding k1 by (simp add: same_heaps_def updt_def)
qed

end
