(* ===== verification/Machine.thy ===== *)
theory Machine
  imports Moves
begin

section \<open>The kernel as a whole\<close>

text \<open>
  The invariant of the machine of theory Syscall, kept by every calm step of every sequence of system
  calls, kernel code and keyboard interrupts. To the invariant of the kernel (\<open>kinv\<close>) it adds what ties
  the kernel to the continuations of its tasks: a task that lives has one; a task that waits in
  \<open>wait_event\<close> does so on the queue that belongs to its condition, and with an entry of its own; and no
  wakeup is lost: while a task is asleep in a queue, the condition it waits for is false.

  Three things break the invariant, and \<open>calm\<close> excludes them:
  a signal to a task that sleeps (\<open>sched_kill\<close> puts it into the run queue and leaves it in its wait
  queue, theory Family); the swapper sleeping, ending or starting another program, which its
  program never does; and a keyboard interrupt inside \<open>wait_event\<close> or \<open>sched_schedule\<close>. The last is
  not excluded by the code, which runs there with interrupts on: theory Races shows what such an
  interrupt does. Calm are interrupts between two steps, also while a task sleeps or is about to run
  again, and before \<open>sched_schedule\<close> is called, also when the task that calls it is already in a wait queue.
\<close>

definition sleepy :: "syscall \<Rightarrow> bool" where
  "sleepy call = (case call of SysRead _ _ _ \<Rightarrow> True | SysExit _ \<Rightarrow> True | SysExecve _ _ _ \<Rightarrow> True | SysWaitpid _ _ \<Rightarrow> True | _ \<Rightarrow> False)"

text \<open>What \<open>wait_event\<close> tests, said of the lists of children.\<close>

definition cond_true :: "wait_cond \<Rightarrow> (nat \<Rightarrow> nat list) \<Rightarrow> kernel \<Rightarrow> bool" where
  "cond_true cd ch k =
     (case cd of InputOf i \<Rightarrow> tty_input_available i k | IsZombie z \<Rightarrow> t_state (k_tasks k z) = TASK_ZOMBIE
      | HasZombieChild p \<Rightarrow> (\<exists>z \<in> set (ch p). t_state (k_tasks k z) = TASK_ZOMBIE))"

lemma cond_true_simps [simp]:
  "cond_true (InputOf i) ch k \<longleftrightarrow> tty_input_available i k"
  "cond_true (IsZombie z) ch k \<longleftrightarrow> t_state (k_tasks k z) = TASK_ZOMBIE"
  "cond_true (HasZombieChild p) ch k \<longleftrightarrow> (\<exists>z \<in> set (ch p). t_state (k_tasks k z) = TASK_ZOMBIE)"
  by (simp_all add: cond_true_def)

definition wait_ok :: "(nat \<Rightarrow> nat list) \<Rightarrow> nat \<Rightarrow> wq_id \<Rightarrow> wait_cond \<Rightarrow> after \<Rightarrow> bool" where
  "wait_ok ch t q cd af =
     (case af of
        ThenTake i _ _ \<Rightarrow> q = TtyQ i \<and> cd = InputOf i
      | ThenReap None \<Rightarrow> q = ChildQ t \<and> cd = HasZombieChild t
      | ThenReap (Some z) \<Rightarrow> q = ExitQ z \<and> cd = IsZombie z \<and> z \<in> set (ch t))"

definition cont_ok :: "kernel \<Rightarrow> (nat \<Rightarrow> nat list) \<Rightarrow> nat \<Rightarrow> cont \<Rightarrow> bool" where
  "cont_ok k ch t cn =
     (case cn of
        User _ _ \<Rightarrow> True
      | Start _ \<Rightarrow> True
      | Yielded call \<Rightarrow> k_swapper k = Some t \<longrightarrow> \<not> sleepy call
      | Reading _ _ _ \<Rightarrow> k_swapper k \<noteq> Some t
      | Waiting q cd md af \<Rightarrow> k_swapper k \<noteq> Some t \<and> md = WAIT_INTERRUPTIBLE \<and> e_task (wh_entries (k_wh k) t) = Some t \<and> wait_ok ch t q cd af
      | Gone \<Rightarrow> False)"

lemma cont_ok_simps [simp]:
  "cont_ok k ch t (User r out)" "cont_ok k ch t (Start tr)" "\<not> cont_ok k ch t Gone"
  "cont_ok k ch t (Yielded call) \<longleftrightarrow> (k_swapper k = Some t \<longrightarrow> \<not> sleepy call)"
  "cont_ok k ch t (Reading fd buf n) \<longleftrightarrow> k_swapper k \<noteq> Some t"
  "cont_ok k ch t (Waiting q cd md af) \<longleftrightarrow> k_swapper k \<noteq> Some t \<and> md = WAIT_INTERRUPTIBLE
     \<and> e_task (wh_entries (k_wh k) t) = Some t \<and> wait_ok ch t q cd af"
  by (simp_all add: cont_ok_def)

definition state_ok :: "kernel \<Rightarrow> (nat \<Rightarrow> cont) \<Rightarrow> nat list \<Rightarrow> (wq_id \<Rightarrow> nat list) \<Rightarrow> (nat \<Rightarrow> nat list) \<Rightarrow> bool" where
  "state_ok k ct xs qs ch \<longleftrightarrow> kinv k xs qs ch
     \<and> (\<forall>t < MAX_PROCESS_CNT. alive (k_tasks k t) \<longrightarrow> cont_ok k ch t (ct t))
     \<and> (\<forall>q. \<forall>t \<in> set (qs q). \<exists>cd af. ct t = Waiting q cd WAIT_INTERRUPTIBLE af \<and> \<not> cond_true cd ch k)"

lemma state_okD:
  assumes "state_ok k ct xs qs ch"
  shows "kinv k xs qs ch" "t < MAX_PROCESS_CNT \<Longrightarrow> alive (k_tasks k t) \<Longrightarrow> cont_ok k ch t (ct t)"
    "t \<in> set (qs q) \<Longrightarrow> \<exists>cd af. ct t = Waiting q cd WAIT_INTERRUPTIBLE af \<and> \<not> cond_true cd ch k"
  using assms unfolding state_ok_def by blast+

lemma asleep_cont:
  assumes "state_ok k ct xs qs ch" "t \<in> set (qs q)"
  obtains cd af where "ct t = Waiting q cd WAIT_INTERRUPTIBLE af" "\<not> cond_true cd ch k" "wait_ok ch t q cd af" "t < 64"
proof -
  obtain cd af where c: "ct t = Waiting q cd WAIT_INTERRUPTIBLE af" "\<not> cond_true cd ch k"
    using state_okD(3) [OF assms] by blast
  note S = sched_invD [OF kinvD(4) [OF state_okD(1) [OF assms(1)]]]
  have "sleeping (k_tasks k t)" using S(3) [of t] assms(2) by (auto simp: waiting_def)
  moreover have "t < 64" using wh_invD(2) [OF S(2), of q] assms(2) by auto
  ultimately have "wait_ok ch t q cd af" using state_okD(2) [OF assms(1), of t] c(1) alive_states(5) by simp
  then show ?thesis using that c \<open>t < 64\<close> by blast
qed

text \<open>Changes that move tasks but leave families alone.\<close>

definition moves :: "kernel \<Rightarrow> kernel \<Rightarrow> bool" where
  "moves k k' \<longleftrightarrow> k_swapper k' = k_swapper k \<and> (\<forall>i. task_moves (k_tasks k i) (k_tasks k' i))
     \<and> (\<forall>t. e_task (wh_entries (k_wh k) t) = Some t \<longrightarrow> e_task (wh_entries (k_wh k') t) = Some t)
     \<and> (\<forall>i. tty_input_available i k' \<longrightarrow> tty_input_available i k)"

lemma cond_true_moves:
  assumes "moves k k'" "cond_true cd ch k'" shows "cond_true cd ch k"
proof -
  have "t_state (k_tasks k' z) = TASK_ZOMBIE \<longleftrightarrow> t_state (k_tasks k z) = TASK_ZOMBIE" for z
    using assms(1) task_moves_ended unfolding moves_def by blast
  then show ?thesis using assms by (cases cd) (auto simp: moves_def)
qed

lemma cont_ok_moves:
  assumes "moves k k'" "cont_ok k ch t cn" shows "cont_ok k' ch t cn"
  using assms by (cases cn) (auto simp: moves_def)

lemma state_ok_moves:
  assumes s: "state_ok k ct xs qs ch" and inv: "kinv k' xs' qs' ch" and mv: "moves k k'" and q: "\<And>q. set (qs' q) \<subseteq> set (qs q)"
  shows "state_ok k' ct xs' qs' ch"
  unfolding state_ok_def
proof (intro conjI allI impI ballI)
  fix t assume "t < MAX_PROCESS_CNT" "alive (k_tasks k' t)"
  moreover have "alive (k_tasks k' t) = alive (k_tasks k t)" using mv task_movesD(5) unfolding moves_def by blast
  ultimately show "cont_ok k' ch t (ct t)" using cont_ok_moves [OF mv] state_okD(2) [OF s] by blast
next
  fix p t assume "t \<in> set (qs' p)"
  then obtain cd af where "ct t = Waiting p cd WAIT_INTERRUPTIBLE af" "\<not> cond_true cd ch k" using state_okD(3) [OF s] q by blast
  then show "\<exists>cd af. ct t = Waiting p cd WAIT_INTERRUPTIBLE af \<and> \<not> cond_true cd ch k'" using cond_true_moves [OF mv] by blast
qed (rule inv)

lemma state_ok_keeps:
  assumes s: "state_ok k ct xs qs ch" and kp: "keeps k k'" shows "state_ok k' ct xs qs ch"
proof (rule state_ok_moves [OF s kinv_keeps [OF state_okD(1) [OF s] kp]])
  show "moves k k'" unfolding moves_def using keepsD [OF kp] task_keeps_moves by simp
qed simp

lemma schedule_state_ok:
  assumes s: "state_ok k ct xs qs ch" and r: "sched_schedule k = Inr k'"
  shows "\<exists>xs'. state_ok k' ct xs' qs ch" "running k'"
proof -
  note S = schedule_kinv [OF state_okD(1) [OF s] r]
  obtain xs' where x: "kinv k' xs' qs ch" using S(1) by blast
  have "moves k k'" using S(3,4) by (simp add: moves_def same_heaps_def tty_input_available_def)
  then show "\<exists>xs'. state_ok k' ct xs' qs ch" using state_ok_moves [OF s x] by blast
  show "running k'" by (rule S(2))
qed

lemma state_ok_cont:
  assumes "state_ok k ct xs qs ch" "c \<notin> waiting qs" "alive (k_tasks k c) \<Longrightarrow> cont_ok k ch c cn"
  shows "state_ok k (ct(c := cn)) xs qs ch"
  using assms unfolding state_ok_def waiting_def by fastforce

text \<open>Sleeping.\<close>

lemma put_to_sleep_moves:
  assumes "\<And>i. task_moves (k_tasks k i) (k_tasks (put_to_sleep q c st k) i)" shows "moves k (put_to_sleep q c st k)"
  using assms unfolding moves_def by (simp add: put_to_sleep_def updt_def tty_input_available_def)

lemma sleep_state_ok:
  assumes s: "state_ok k ct xs qs ch" and run: "running k" "k_current k = Some c"
    and c: "cont_ok k ch c (Waiting q cd WAIT_INTERRUPTIBLE af)" and cd: "\<not> cond_true cd ch k"
  shows "state_ok (put_to_sleep q c TASK_INTERRUPTIBLE k) (ct(c := Waiting q cd WAIT_INTERRUPTIBLE af)) xs (qs(q := qs q @ [c])) ch"
proof -
  let ?k = "put_to_sleep q c TASK_INTERRUPTIBLE k" and ?w = "Waiting q cd WAIT_INTERRUPTIBLE af"
  note K = kinvD [OF state_okD(1) [OF s]] and N = not_waiting [OF kinvD(4) [OF state_okD(1) [OF s]] run]
  have C: "k_swapper k \<noteq> Some c" "e_task (wh_entries (k_wh k) c) = Some c" "wait_ok ch c q cd af" using c by simp_all
  have ex: "alive (k_tasks k z)" if "q = ExitQ z" "z < 64" for z
  proof -
    have z: "z \<in> set (ch c)" "cd = IsZombie z" using C(3) that(1) by (auto simp: wait_ok_def split: after.splits option.splits)
    then have "z \<notin> set (free_slots k)" using familyD(3) [OF K(7) N(3)] by blast
    then show ?thesis using K(3) z(2) cd that(2) by (auto simp: slots_ok_def)
  qed
  have chq: "z = c" if "q = ChildQ z" for z using C(3) that by (auto simp: wait_ok_def split: after.splits option.splits)
  note S = kinv_sleep [OF state_okD(1) [OF s] run C(1,2) disjI1 [OF refl] ex chq]
  have mv: "moves k ?k" by (rule put_to_sleep_moves) (rule S(2))
  have al: "alive (k_tasks ?k t) = alive (k_tasks k t)" for t by (rule task_movesD(5) [OF S(2)])
  show ?thesis
    unfolding state_ok_def
  proof (intro conjI allI impI ballI)
    show "kinv ?k xs (qs(q := qs q @ [c])) ch" by (rule S(1))
  next
    fix t assume "t < MAX_PROCESS_CNT" "alive (k_tasks ?k t)"
    then show "cont_ok ?k ch t ((ct(c := ?w)) t)"
      using cont_ok_moves [OF mv c] cont_ok_moves [OF mv state_okD(2) [OF s]] unfolding al by simp
  next
    fix p t assume t: "t \<in> set ((qs(q := qs q @ [c])) p)"
    show "\<exists>cd af. (ct(c := ?w)) t = Waiting p cd WAIT_INTERRUPTIBLE af \<and> \<not> cond_true cd ch ?k"
    proof (cases "t = c")
      case True
      have "p = q" using t True N(1) by (auto simp: waiting_def split: if_splits)
      then show ?thesis using True cd cond_true_moves [OF mv] by auto
    next
      case False
      then have "t \<in> set (qs p)" using t by (auto split: if_splits)
      then obtain cd' af' where "ct t = Waiting p cd' WAIT_INTERRUPTIBLE af'" "\<not> cond_true cd' ch k" using state_okD(3) [OF s] by blast
      then show ?thesis using False cond_true_moves [OF mv] by auto
    qed
  qed
qed

subsection \<open>Forking, ending and reaping\<close>

lemma wait_ok_children: "wait_ok ch t q cd af \<Longrightarrow> set (ch t) \<subseteq> set (ch' t) \<Longrightarrow> wait_ok ch' t q cd af"
  by (auto simp: wait_ok_def split: after.splits option.splits)

lemma cont_ok_children:
  assumes "cont_ok k ch t cn" "k_swapper k' = k_swapper k" "e_task (wh_entries (k_wh k') t) = e_task (wh_entries (k_wh k) t)"
    "set (ch t) \<subseteq> set (ch' t)"
  shows "cont_ok k' ch' t cn"
  using assms wait_ok_children by (cases cn) auto

text \<open>A change that leaves every task asleep in a queue asleep for a condition that is still false.\<close>

lemma state_okI:
  assumes s: "state_ok k ct xs qs ch" and inv: "kinv k' xs' qs' ch'"
    and c: "\<And>t. t < 64 \<Longrightarrow> alive (k_tasks k' t) \<Longrightarrow> cont_ok k' ch' t (ct' t)"
    and q: "\<And>q t. t \<in> set (qs' q) \<Longrightarrow> t \<in> set (qs q) \<and> ct' t = ct t"
    and cd: "\<And>q t cd af. t \<in> set (qs' q) \<Longrightarrow> wait_ok ch t q cd af \<Longrightarrow> \<not> cond_true cd ch k \<Longrightarrow> t < 64 \<Longrightarrow> alive (k_tasks k t)
      \<Longrightarrow> \<not> cond_true cd ch' k'"
  shows "state_ok k' ct' xs' qs' ch'"
  unfolding state_ok_def
proof (intro conjI allI impI ballI)
  fix p t assume t: "t \<in> set (qs' p)"
  then have t': "t \<in> set (qs p)" "ct' t = ct t" using q by blast+
  obtain cd' af where w: "ct t = Waiting p cd' WAIT_INTERRUPTIBLE af" "\<not> cond_true cd' ch k" "wait_ok ch t p cd' af" "t < 64"
    by (rule asleep_cont [OF s t'(1)])
  have "sleeping (k_tasks k t)" using sched_invD(3) [OF kinvD(4) [OF state_okD(1) [OF s]], of t] t'(1) by (auto simp: waiting_def)
  then show "\<exists>cd af. ct' t = Waiting p cd WAIT_INTERRUPTIBLE af \<and> \<not> cond_true cd ch' k'"
    using w t'(2) cd [OF t w(3,2,4)] alive_states(5) by auto
qed (use inv c in simp_all)

lemma fork_state_ok:
  assumes s: "state_ok k ct xs qs ch" and run: "running k" "k_current k = Some p" and r: "sched_fork k = Inr (pid, Some c, k')"
  shows "state_ok k' (ct(p := User x OutNone, c := User 0 OutNone)) (xs @ [c]) qs (ch(p := c # ch p))" "running k'"
proof -
  note K = kinvD [OF state_okD(1) [OF s]] and N = not_waiting [OF kinvD(4) [OF state_okD(1) [OF s]] run]
  have f: "kinv k' (xs @ [c]) qs (ch(p := c # ch p))" "forks p c k k'" using fork_kinv [OF state_okD(1) [OF s] run r] by auto
  show "running k'" using f(2) by (simp add: forks_def)
  have F: "k_swapper k' = k_swapper k" "k_wh k' = k_wh k" "k_ttys k' = k_ttys k" "c < 64" "t_state (k_tasks k c) = TASK_POOLED"
    using f(2) by (simp_all add: forks_def same_heaps_def)
  have E: "t_state (k_tasks k' c) = TASK_QUEUED" "\<And>i. i \<noteq> c \<Longrightarrow> i \<noteq> p \<Longrightarrow> unlink (k_tasks k' i) = unlink (k_tasks k i)"
    "unlink (k_tasks k' p) = unlink ((k_tasks k p)\<lparr>t_children := Some c\<rparr>)"
    using f(2) by (simp_all add: forks_def fork_effect_def Let_def the_task_def)
  have st: "i \<noteq> c \<Longrightarrow> t_state (k_tasks k' i) = t_state (k_tasks k i)" for i
    using unlinkD(2) [OF E(2), of i] unlinkD(2) [OF E(3)] by (cases "i = p") simp_all
  have nw: "c \<notin> waiting qs" using not_queued(2) [OF K(4)] F(5) by blast
  show "state_ok k' (ct(p := User x OutNone, c := User 0 OutNone)) (xs @ [c]) qs (ch(p := c # ch p))"
  proof (rule state_okI [OF s f(1)])
    fix t assume t: "t < 64" "alive (k_tasks k' t)"
    show "cont_ok k' (ch(p := c # ch p)) t ((ct(p := User x OutNone, c := User 0 OutNone)) t)"
    proof (cases "t = p \<or> t = c")
      case False
      then have "cont_ok k ch t (ct t)" using state_okD(2) [OF s, of t] t alive_cong [OF st, of t] by simp
      then have "cont_ok k' (ch(p := c # ch p)) t (ct t)" by (rule cont_ok_children) (use F False in simp_all)
      then show ?thesis using False by simp
    qed auto
  next
    fix q t assume "t \<in> set (qs q)"
    moreover from this have "t \<noteq> p" "t \<noteq> c" using N(1) nw by (auto simp: waiting_def)
    ultimately show "t \<in> set (qs q) \<and> (ct(p := User x OutNone, c := User 0 OutNone)) t = ct t" by simp
  next
    fix q t cd af assume t: "t \<in> set (qs q)" "wait_ok ch t q cd af" "\<not> cond_true cd ch k"
    have "t \<noteq> p" using t(1) N(1) by (auto simp: waiting_def)
    then have z: "cd = HasZombieChild y \<Longrightarrow> y \<noteq> p" for y using t(2) by (auto simp: wait_ok_def split: after.splits option.splits)
    have zs: "t_state (k_tasks k' i) = TASK_ZOMBIE \<longleftrightarrow> t_state (k_tasks k i) = TASK_ZOMBIE" for i
      using st [of i] E(1) F(5) by (cases "i = c") simp_all
    show "\<not> cond_true cd (ch(p := c # ch p)) k'"
      using t(3) z F(3) zs by (cases cd) (simp_all add: tty_input_available_def)
  qed
qed

lemma exit_state_ok:
  assumes s: "state_ok k ct xs qs ch" and run: "running k" "k_current k = Some c" "k_swapper k \<noteq> Some c"
    and r: "exit_current status k = Inr k'"
  shows "\<exists>xs qs. state_ok k' (ct(c := Gone)) xs qs ch"
proof -
  note K = kinvD [OF state_okD(1) [OF s]] and N = not_waiting [OF kinvD(4) [OF state_okD(1) [OF s]] run(1,2)]
  obtain p where p: "t_parent (k_tasks k c) = Some p" "kinv k' (xs @ exit_waiters p c qs) (exit_queues p c qs) ch" "ends c k k'"
    using exit_kinv [OF state_okD(1) [OF s] run, of status] r by auto
  have E: "k_swapper k' = k_swapper k" "k_ttys k' = k_ttys k" "\<And>e. e_task (wh_entries (k_wh k') e) = e_task (wh_entries (k_wh k) e)"
    "t_state (k_tasks k' c) = TASK_ZOMBIE" "\<And>i. i \<noteq> c \<Longrightarrow> unlink (k_tasks k' i) = unlink (k_tasks k i)"
    using p(3) by (simp_all add: ends_def)
  have st: "i \<noteq> c \<Longrightarrow> t_state (k_tasks k' i) = t_state (k_tasks k i)" for i by (rule unlinkD(2) [OF E(5)])
  have sub: "t \<in> set (exit_queues p c qs q) \<Longrightarrow> t \<in> set (qs q) \<and> q \<noteq> ExitQ c \<and> (p \<noteq> c \<longrightarrow> q \<noteq> ChildQ p)" for t q
    by (auto simp: exit_queues_def split: if_splits)
  have "state_ok k' (ct(c := Gone)) (xs @ exit_waiters p c qs) (exit_queues p c qs) ch"
  proof (rule state_okI [OF s p(2)])
    fix t assume t: "t < 64" "alive (k_tasks k' t)"
    then have tc: "t \<noteq> c" using alive_states(1) [OF E(4)] by blast
    then have "cont_ok k ch t (ct t)" using state_okD(2) [OF s, of t] t alive_cong [OF st, of t] by simp
    then have "cont_ok k' ch t (ct t)" by (rule cont_ok_children) (use E in simp_all)
    then show "cont_ok k' ch t ((ct(c := Gone)) t)" using tc by simp
  next
    fix q t assume "t \<in> set (exit_queues p c qs q)"
    moreover from this have "t \<noteq> c" using N(1) sub by (auto simp: waiting_def)
    ultimately show "t \<in> set (qs q) \<and> (ct(c := Gone)) t = ct t" using sub by simp
  next
    fix q t cd af assume t: "t \<in> set (exit_queues p c qs q)" "wait_ok ch t q cd af" "\<not> cond_true cd ch k" "t < 64"
    have tc: "t \<noteq> c" using t(1) N(1) sub by (auto simp: waiting_def)
    have nc: "c \<notin> set (ch t)" if "q = ChildQ t"
    proof
      assume "c \<in> set (ch t)"
      then have "t_parent (k_tasks k c) = Some t" using familyD(3) [OF K(7)] t(4) by simp
      then have "p = t" using p(1) by simp
      then show False using sub [OF t(1)] that tc by simp
    qed
    show "\<not> cond_true cd ch k'"
    proof (cases cd)
      case (InputOf i)
      then show ?thesis using t(3) E(2) by (simp add: tty_input_available_def)
    next
      case (IsZombie z)
      then have "q = ExitQ z" using t(2) by (auto simp: wait_ok_def split: after.splits option.splits)
      then have "z \<noteq> c" using sub [OF t(1)] by blast
      then show ?thesis using t(3) IsZombie st by simp
    next
      case (HasZombieChild y)
      then have q: "q = ChildQ t" "y = t" using t(2) by (auto simp: wait_ok_def split: after.splits option.splits)
      then have "z \<noteq> c" if "z \<in> set (ch t)" for z using nc that by blast
      then show ?thesis using t(3) HasZombieChild q(2) st by auto
    qed
  qed
  then show ?thesis by blast
qed

lemma reap_state_ok:
  assumes s: "state_ok k ct xs qs ch" and run: "running k" "k_current k = Some p"
    and z: "z \<in> set (ch p)" "t_state (k_tasks k z) = TASK_ZOMBIE"
  shows "\<exists>k' ch'. reap p z k = Inr (t_pid (the_task z k), t_exit_status (the_task z k), k')
    \<and> state_ok k' (ct(p := User x out)) xs qs ch' \<and> running k'"
proof -
  note K = kinvD [OF state_okD(1) [OF s]] and N = not_waiting [OF kinvD(4) [OF state_okD(1) [OF s]] run]
  have p64: "p < 64" using N(3) by simp
  let ?ch = "ch(p := remove1 z (ch p), z := [])"
  obtain k' where k': "reap p z k = Inr (t_pid (the_task z k), t_exit_status (the_task z k), k')" "kinv k' xs qs ?ch" "reaps z k k'"
    using reap_kinv [OF state_okD(1) [OF s] p64 z] by blast
  have R: "k_swapper k' = k_swapper k" "k_wh k' = k_wh k" "k_ttys k' = k_ttys k" "\<not> alive (k_tasks k' z)" "t_state (k_tasks k' z) \<noteq> TASK_ZOMBIE"
    "k_current k' = k_current k" and st: "\<And>i. i \<noteq> z \<Longrightarrow> t_state (k_tasks k' i) = t_state (k_tasks k i)"
    using k'(3) by (simp_all add: reaps_def same_heaps_def)
  have pz: "p \<noteq> z" using familyD(3) [OF K(7) _ z(1)] p64 by auto
  have sub: "set (?ch t) \<subseteq> set (ch t)" for t using set_remove1_subset [of z "ch p"] by auto
  have "state_ok k' (ct(p := User x out)) xs qs ?ch"
  proof (rule state_okI [OF s k'(2)])
    fix t assume t: "t < 64" "alive (k_tasks k' t)"
    then have tz: "t \<noteq> z" using R(4) by blast
    show "cont_ok k' ?ch t ((ct(p := User x out)) t)"
    proof (cases "t = p")
      case False
      have "cont_ok k ch t (ct t)" using state_okD(2) [OF s, of t] t alive_cong [OF st [OF tz]] by simp
      then have "cont_ok k' ?ch t (ct t)" by (rule cont_ok_children) (use R tz False in simp_all)
      then show ?thesis using False by simp
    qed simp
  next
    fix q t assume "t \<in> set (qs q)"
    moreover from this have "t \<noteq> p" using N(1) by (auto simp: waiting_def)
    ultimately show "t \<in> set (qs q) \<and> (ct(p := User x out)) t = ct t" by simp
  next
    fix q t cd af assume t: "\<not> cond_true cd ch k"
    have zs: "t_state (k_tasks k' i) = TASK_ZOMBIE \<Longrightarrow> t_state (k_tasks k i) = TASK_ZOMBIE" for i
      using st [of i] R(5) by (cases "i = z") simp_all
    show "\<not> cond_true cd ?ch k'"
    proof (cases cd)
      case (InputOf i)
      then show ?thesis using t R(3) by (simp add: tty_input_available_def)
    next
      case (IsZombie y)
      then show ?thesis using t zs by auto
    next
      case (HasZombieChild y)
      then show ?thesis using t zs sub [of y] unfolding HasZombieChild cond_true_simps by blast
    qed
  qed
  moreover have "running k'" using run st [OF pz] R(6) by (simp add: running_def)
  ultimately show ?thesis using k'(1) by blast
qed

subsection \<open>The keyboard\<close>

lemma in_put_keeps_ok:
  assumes "in_put c y = Some y'" "\<not> y_in_head y - y_in_tail y \<ge> 256"
  shows "tty_ok y \<Longrightarrow> tty_ok y'" "y_console y' = y_console y"
proof -
  show "y_console y' = y_console y" using assms(1) by (auto simp: in_put_def bind_eq_Some_conv)
  have "length (tty_in y) < 256" using assms(2) by (simp add: tty_in_def ring_count_def word_le_nat_alt)
  then show "tty_ok y \<Longrightarrow> tty_ok y'" using in_put_ok [of y c] assms(1) by auto
qed

text \<open>
  What a keyboard interrupt leaves alone, and the states it may come in: the current task, if there is
  one, is not in a wait queue.
\<close>

definition stays :: "kernel \<Rightarrow> kernel \<Rightarrow> bool" where
  "stays k k' \<longleftrightarrow> k_current k' = k_current k \<and> k_swapper k' = k_swapper k \<and> k_active k' = k_active k
     \<and> (\<forall>t. t_state (k_tasks k' t) = t_state (k_tasks k t))"

definition awake :: "(nat \<Rightarrow> cont) \<Rightarrow> kernel \<Rightarrow> bool" where
  "awake ct k \<longleftrightarrow> (\<exists>xs qs ch. state_ok k ct xs qs ch \<and> (\<forall>c. k_current k = Some c \<longrightarrow> c \<notin> waiting qs))"

lemma stays_refl [simp]: "stays k k"
  by (simp add: stays_def)

lemma stays_trans: "stays k k1 \<Longrightarrow> stays k1 k2 \<Longrightarrow> stays k k2"
  by (simp add: stays_def)

lemma awake_parts: "awake ct k \<Longrightarrow> parts_ok k"
  unfolding awake_def using state_okD(1) kinvD(2) by blast

lemma awake_keeps: "awake ct k \<Longrightarrow> keeps k k' \<Longrightarrow> awake ct k'"
  unfolding awake_def using state_ok_keeps keepsD(3) by metis

lemma awake_input:
  assumes a: "awake ct k" and r: "tty_input_put tty c k = Inr k'"
  shows "awake ct k'" "stays k k'"
proof -
  obtain xs qs ch where s: "state_ok k ct xs qs ch" and cu: "\<And>c. k_current k = Some c \<Longrightarrow> c \<notin> waiting qs"
    using a unfolding awake_def by blast
  have "awake ct k' \<and> stays k k'"
  proof (cases "\<exists>i. tty = Some i \<and> \<not> y_in_head (k_ttys k i) - y_in_tail (k_ttys k i) \<ge> 256")
    case False
    then have "k' = k" using r by (auto simp: tty_input_put_def split: option.splits if_splits)
    then show ?thesis using a by simp
  next
    case True
    then obtain i where i: "tty = Some i" "\<not> y_in_head (k_ttys k i) - y_in_tail (k_ttys k i) \<ge> 256" by blast
    then obtain y where y: "in_put c (k_ttys k i) = Some y" "wakeup_on (TtyQ i) (updtty i (\<lambda>_. y) k) = Inr k'"
      using r by (auto simp: tty_input_put_def bindR_eq_Inr)
    let ?k1 = "updtty i (\<lambda>_. y) k"
    note inv = state_okD(1) [OF s] and Y = in_put_keeps_ok [OF y(1) i(2)]
    have u: "k_wh ?k1 = k_wh k" "k_swapper ?k1 = k_swapper k" "k_current ?k1 = k_current k" "k_rq ?k1 = k_rq k" "k_tt ?k1 = k_tt k"
      "k_tasks ?k1 = k_tasks k" "k_vfs ?k1 = k_vfs k" "k_con ?k1 = k_con k" "k_active ?k1 = k_active k" by (simp_all add: updtty_def)
    have "parts_ok ?k1"
      by (rule parts_ok_cong [OF kinvD(2) [OF inv]])
        (use u parts_okD [OF kinvD(2) [OF inv]] Y in \<open>auto simp: ttys_ok_def\<close>)
    moreover have "sched_inv ?k1 xs qs" by (rule sched_inv_cong' [OF kinvD(4) [OF inv]]) (simp_all add: u)
    ultimately have k1: "kinv ?k1 xs qs ch" using kinv_moves [OF inv _ kinvD(5) [OF inv]] by (simp add: u task_moves_def)
    have "\<forall>c. k_current ?k1 = Some c \<longrightarrow> c \<notin> set (qs (TtyQ i))" using cu u(3) by (auto simp: waiting_def)
    from wakeup_on_kinv [OF k1 this] obtain wh rq ts where w: "k' = ?k1\<lparr>k_wh := wh, k_rq := rq, k_tasks := ts\<rparr>"
      "kinv k' (xs @ qs (TtyQ i)) (qs(TtyQ i := [])) ch" "\<And>i. unlink (ts i) = unlink (k_tasks k i)"
      "\<And>e. e_task (wh_entries wh e) = e_task (wh_entries (k_wh k) e)"
      using y(2) u(1,6) by auto
    have st: "t_state (k_tasks k' t) = t_state (k_tasks k t)" for t using unlinkD(2) [OF w(3), of t] by (simp add: w(1))
    have "state_ok k' ct (xs @ qs (TtyQ i)) (qs(TtyQ i := [])) ch"
    proof (rule state_okI [OF s w(2)])
      fix t assume t: "t < 64" "alive (k_tasks k' t)"
      then have "cont_ok k ch t (ct t)" using state_okD(2) [OF s, of t] alive_cong [OF st, of t] by simp
      then show "cont_ok k' ch t (ct t)" by (rule cont_ok_children) (simp_all add: w(1,4) u)
    next
      fix q t cd af assume t: "t \<in> set ((qs(TtyQ i := [])) q)" "wait_ok ch t q cd af" "\<not> cond_true cd ch k"
      show "\<not> cond_true cd ch k'"
      proof (cases cd)
        case (InputOf j)
        then have "q = TtyQ j" using t(2) by (auto simp: wait_ok_def split: after.splits option.splits)
        then have "j \<noteq> i" using t(1) by auto
        then show ?thesis using t(3) InputOf by (simp add: tty_input_available_def w(1))
      qed (use t(3) st in simp_all)
    qed (auto split: if_splits)
    moreover have "waiting (qs(TtyQ i := [])) \<subseteq> waiting qs" by (auto simp: waiting_def split: if_splits)
    ultimately have "awake ct k'" using cu unfolding awake_def w(1) u by (auto simp: u)
    moreover have "stays k k'" using st by (simp add: stays_def w(1) u)
    ultimately show ?thesis by blast
  qed
  then show "awake ct k'" "stays k k'" by blast+
qed

lemma redraw_con_ok: "con_ok con \<Longrightarrow> redraw_loop n i y con = Some con' \<Longrightarrow> con_ok con'"
proof (induction n arbitrary: i con)
  case (Suc n)
  then obtain x con1 where "console_put_char con x = Some con1" "redraw_loop n (i + 1) y con1 = Some con'"
    by (auto simp: bind_eq_Some_conv)
  then show ?case using Suc.IH put_char_con_ok [OF Suc.prems(1)] by blast
qed simp

lemma clear_con_ok: "con_ok con \<Longrightarrow> console_clear con = Some con' \<Longrightarrow> con_ok con'"
  by (auto simp: console_clear_def con_ok_def vga_clear_ok)

lemma tty_activate_keeps:
  assumes ok: "parts_ok k" and r: "tty_activate idx k = Inr k'" shows "keeps k k'"
proof -
  have a: "parts_ok (k\<lparr>k_active := x\<rparr>)" for x
    by (rule parts_ok_cong [OF ok]) (use parts_okD [OF ok] in \<open>simp_all add: ttys_ok_def\<close>)
  have ka: "keeps k (k\<lparr>k_active := x\<rparr>)" for x using a [of x] by (simp add: keeps_def tty_input_available_def)
  show ?thesis
  proof (cases "idx \<ge> of_nat TTY_COUNT")
    case True
    then show ?thesis using r keeps_refl [OF ok] by (simp add: tty_activate_def)
  next
    case False
    let ?k = "k\<lparr>k_active := Some (unat idx)\<rparr>"
    have d: "tty_redraw (unat idx) ?k = Some k'" using r False by (simp add: tty_activate_def)
    show ?thesis
    proof (cases "y_console (k_ttys k (unat idx))")
      case no: False
      then have "k' = ?k" using d by (simp add: tty_redraw_def)
      then show ?thesis using ka by simp
    next
      case True
      then obtain con con1 n where c: "console_clear (k_con k) = Some con" "redraw_loop n 0 (k_ttys k (unat idx)) con = Some con1"
        "k' = ?k\<lparr>k_con := con1\<rparr>"
        using d by (auto simp: tty_redraw_def Let_def bind_eq_Some_conv)
      have "con_ok con1" using redraw_con_ok [OF clear_con_ok c(2)] c(1) parts_okD(2) [OF ok] by blast
      then show ?thesis unfolding c(3) by (rule keeps_trans [OF ka keeps_con [OF a]])
    qed
  qed
qed

definition between_ok :: "(nat \<Rightarrow> cont) \<Rightarrow> kernel \<Rightarrow> bool" where
  "between_ok ct k \<longleftrightarrow> (\<exists>xs qs ch. state_ok k ct xs qs ch) \<and> running k"

lemma between_keeps: "between_ok ct k \<Longrightarrow> keeps k k' \<Longrightarrow> between_ok ct k'"
  unfolding between_ok_def using state_ok_keeps running_keeps by blast

lemma between_parts: "between_ok ct k \<Longrightarrow> parts_ok k"
  unfolding between_ok_def using state_okD(1) kinvD(2) by blast

lemma between_awake: "between_ok ct k \<longleftrightarrow> awake ct k \<and> running k"
  unfolding between_ok_def awake_def using not_waiting(1) [OF kinvD(4) [OF state_okD(1)]] by blast

lemma keeps_stays: "keeps k k' \<Longrightarrow> k_active k' = k_active k \<Longrightarrow> stays k k'"
  using keepsD [of k k'] task_keepsD(6) by (auto simp: stays_def)

lemma awake_input3:
  assumes "awake ct k" "tty_input_put tty c1 k = Inr k1" "tty_input_put tty c2 k1 = Inr k2" "tty_input_put tty c3 k2 = Inr k'"
  shows "awake ct k'" "stays k k'"
  using assms awake_input stays_trans by meson+

text \<open>A keyboard interrupt keeps the invariant, the current task and the states of all tasks.\<close>

lemma keyboard_awake:
  assumes a: "awake ct k" and r: "keyboard_irq sc k = Inr k'"
  shows "awake ct k'" "k_current k' = k_current k" "k_swapper k' = k_swapper k" "t_state (k_tasks k' t) = t_state (k_tasks k t)"
proof -
  obtain kb ev where e: "(case ev of None \<Rightarrow> Inr (k\<lparr>k_kbd := kb\<rparr>) | Some e \<Rightarrow> tty_keyboard_handler e (k\<lparr>k_kbd := kb\<rparr>)) = Inr k'"
    using r by (auto simp: keyboard_irq_def bindR_eq_Inr Let_def)
  let ?k = "k\<lparr>k_kbd := kb\<rparr>"
  define same where "same k1 = (k_current k1 = k_current k \<and> k_swapper k1 = k_swapper k \<and> t_state (k_tasks k1 t) = t_state (k_tasks k t))" for k1 :: kernel
  have "parts_ok ?k"
    by (rule parts_ok_cong [OF awake_parts [OF a]]) (use parts_okD [OF awake_parts [OF a]] in \<open>simp_all add: ttys_ok_def\<close>)
  then have "keeps k ?k" by (simp add: keeps_def tty_input_available_def)
  then have k: "awake ct ?k" by (rule awake_keeps [OF a])
  have st: "stays ?k k' \<Longrightarrow> same k'" by (simp add: stays_def same_def)
  have act: "awake ct k' \<and> same k'" if "tty_activate i ?k = Inr k'" for i
  proof -
    note kp = tty_activate_keeps [OF awake_parts [OF k] that]
    show ?thesis using awake_keeps [OF k kp] keepsD [OF kp] task_keepsD(6) [OF keepsD(6) [OF kp]] by (simp add: same_def)
  qed
  have "awake ct k' \<and> same k'"
  proof (cases ev)
    case None
    then show ?thesis using e k by (auto simp: same_def)
  next
    case (Some x)
    then have h: "tty_keyboard_handler x ?k = Inr k'" using e by simp
    show ?thesis
    proof (cases "ev_value x = NUL")
      case False
      then show ?thesis using h awake_input [OF k] st by (simp add: tty_keyboard_handler_def Let_def)
    next
      case True
      have "same ?k" by (simp add: same_def)
      then show ?thesis
        using h k True by (auto simp: tty_keyboard_handler_def Let_def bindR_eq_Inr split: option.splits if_splits
            intro: act [THEN conjunct1] act [THEN conjunct2] awake_input3(1) [OF k] st [OF awake_input3(2) [OF k]])
    qed
  qed
  then show "awake ct k'" "k_current k' = k_current k" "k_swapper k' = k_swapper k" "t_state (k_tasks k' t) = t_state (k_tasks k t)"
    by (simp_all add: same_def)
qed

lemma irqs_awake:
  "awake ct k \<Longrightarrow> irqs scs k = Inr k' \<Longrightarrow>
   awake ct k' \<and> k_current k' = k_current k \<and> k_swapper k' = k_swapper k \<and> (\<forall>t. t_state (k_tasks k' t) = t_state (k_tasks k t))"
proof (induction scs arbitrary: k)
  case (Cons sc scs)
  then obtain k1 where k1: "keyboard_irq sc k = Inr k1" "irqs scs k1 = Inr k'" by (auto simp: bindR_eq_Inr)
  note A = keyboard_awake [OF Cons.prems(1) k1(1)]
  from Cons.IH [OF A(1) k1(2)] show ?case by (simp add: A)
qed simp

lemma irqs_between: "between_ok ct k \<Longrightarrow> irqs scs k = Inr k' \<Longrightarrow> between_ok ct k' \<and> k_current k' = k_current k"
  using irqs_awake unfolding between_awake running_def by metis

lemma keyboard_ok: "between_ok ct k \<Longrightarrow> keyboard_irq sc k = Inr k' \<Longrightarrow> between_ok ct k'"
  using irqs_between [of ct k "[sc]" k'] by simp

subsection \<open>Interrupts before a switch\<close>

text \<open>The handler does not look at the current task.\<close>

abbreviation with_current :: "nat option \<Rightarrow> kernel \<Rightarrow> kernel" where
  "with_current cur k \<equiv> k\<lparr>k_current := cur\<rparr>"

definition map_res :: "('a \<Rightarrow> 'b) \<Rightarrow> 'a res \<Rightarrow> 'b res" where
  "map_res f r = bindR r (\<lambda>x. Inr (f x))"

lemma map_res_simps [simp]: "map_res f (Inr x) = Inr (f x)" "map_res f (Inl e) = Inl e"
  by (simp_all add: map_res_def)

lemma input_current: "tty_input_put tty c (with_current cur k) = map_res (with_current cur) (tty_input_put tty c k)"
  by (auto simp: tty_input_put_def wakeup_on_def updtty_def bindR_def of_opt_def split: option.splits sum.splits)

lemma redraw_current: "tty_redraw i (with_current cur k) = map_option (with_current cur) (tty_redraw i k)"
  by (cases "console_clear (k_con k)"; cases "redraw_loop (unat (y_out_head (k_ttys k i) - y_out_tail (k_ttys k i))) 0 (k_ttys k i)
        (the (console_clear (k_con k)))")
    (simp_all add: tty_redraw_def Let_def)

lemma activate_current: "tty_activate i (with_current cur k) = map_res (with_current cur) (tty_activate i k)"
proof -
  have "with_current cur k\<lparr>k_active := a\<rparr> = with_current cur (k\<lparr>k_active := a\<rparr>)" for a by simp
  then show ?thesis using redraw_current [of "unat i" cur "k\<lparr>k_active := Some (unat i)\<rparr>"]
    by (cases "tty_redraw (unat i) (k\<lparr>k_active := Some (unat i)\<rparr>)") (simp_all only: tty_activate_def, simp_all add: of_opt_def)
qed

lemma handler_current: "tty_keyboard_handler e (with_current cur k) = map_res (with_current cur) (tty_keyboard_handler e k)"
  by (auto simp: tty_keyboard_handler_def tty_active_def Let_def input_current activate_current bindR_def map_res_def
      split: option.splits sum.splits)

lemma irq_current: "keyboard_irq sc (with_current cur k) = map_res (with_current cur) (keyboard_irq sc k)"
proof -
  have e: "with_current cur k\<lparr>k_kbd := a\<rparr> = with_current cur (k\<lparr>k_kbd := a\<rparr>)" for a by simp
  show ?thesis
    by (cases "keyboard_interrupt_handler sc (k_kbd k)")
      (auto simp: keyboard_irq_def Let_def of_opt_def e handler_current split: option.splits)
qed

lemma irqs_current: "irqs scs (with_current cur k) = map_res (with_current cur) (irqs scs k)"
  by (induction scs arbitrary: k) (simp_all add: irq_current map_res_def bindR_def split: sum.splits)

lemma between_schedule: "state_ok k ct xs qs ch \<Longrightarrow> sched_schedule k = Inr k' \<Longrightarrow> between_ok ct k'"
  unfolding between_ok_def by (meson schedule_state_ok)

text \<open>A task that sleeps is not requeued: \<open>sched_schedule\<close> does what it does when no task runs, and counts the switch.\<close>

definition counted :: "nat \<Rightarrow> kernel \<Rightarrow> kernel" where
  "counted c k = updt c (\<lambda>x. x\<lparr>t_ctxt := t_ctxt x + 1\<rparr>) k"

lemma sleeping_upd: "sleeping (upd c (\<lambda>x. x\<lparr>t_ctxt := f x\<rparr>) ts c) = sleeping (ts c)" "sleeping (x\<lparr>t_ctxt := v\<rparr>) = sleeping x"
  by (simp_all add: sleeping_def)

lemma switch_counted: "switch_to n (counted c k) = map_res (counted c) (switch_to n k)"
  by (cases n) (auto simp: switch_to_def counted_def updt_def deref_def upd_def fun_eq_iff)

lemma poll_sleeping:
  assumes "run_queue_poll (rq, ts) = Inr (t, rq', ts')" shows "sleeping (ts' c) = sleeping (ts c)" "t_state (ts' c) = t_state (ts c)"
  using assms by (auto simp: run_queue_poll_def Let_def bindR_eq_Inr upd_apply sleeping_def split: if_splits)

lemma schedule_sleeper:
  assumes "k_current k = Some c" "sleeping (k_tasks k c)"
  shows "sched_schedule k = map_res (counted c) (sched_schedule (with_current None k))"
proof -
  have tick: "sched_tick (with_current None k) = map_res (with_current None) (sched_tick k)"
    by (auto simp: sched_tick_def kprint_def Let_def bindR_def of_opt_def split: option.splits)
  show ?thesis
  proof (cases "sched_tick k")
    case (Inr k1)
    have k1: "k_current k1 = Some c" "k_tasks k1 = k_tasks k" using Inr assms(1)
      by (auto simp: sched_tick_def Let_def kprint_def bindR_eq_Inr split: if_splits)
    show ?thesis
    proof (cases "run_queue_poll (k_rq k1, k_tasks k1)")
      case (Inl e)
      then show ?thesis using Inr tick by (simp add: sched_schedule_def)
    next
      case p: (Inr r)
      obtain t rq ts where r: "r = (t, rq, ts)" by (cases r)
      have sl: "sleeping (ts c)" "t_state (ts c) \<noteq> TASK_RUNNING"
        using poll_sleeping [of _ _ t rq ts c] p r assms(2) k1(2) by (auto simp: sleeping_def)
      let ?k2 = "k1\<lparr>k_rq := rq, k_tasks := ts\<rparr>"
      let ?n = "case t of None \<Rightarrow> k_swapper k1 | Some t \<Rightarrow> Some t"
      have "sched_schedule k = switch_to ?n (counted c ?k2)"
        using Inr p r k1 sl by (cases t) (simp_all add: sched_schedule_def Let_def counted_def updt_def sleeping_upd)
      moreover have "sched_schedule (with_current None k) = switch_to ?n (with_current None k1\<lparr>k_rq := rq, k_tasks := ts\<rparr>)"
        using Inr tick p r by (cases t) (simp_all add: sched_schedule_def Let_def)
      moreover have "switch_to ?n (with_current None k1\<lparr>k_rq := rq, k_tasks := ts\<rparr>) = switch_to ?n ?k2"
        by (cases ?n) (simp_all add: switch_to_def deref_def updt_def)
      ultimately show ?thesis using switch_counted by simp
    qed
  qed (use tick in \<open>simp add: sched_schedule_def\<close>)
qed


lemma off_duty:
  assumes s: "state_ok k ct xs qs ch" and c: "k_current k = Some c" "sleeping (k_tasks k c)"
  shows "state_ok (with_current None k) ct xs qs ch"
proof -
  let ?k = "with_current None k"
  note inv = state_okD(1) [OF s]
  note S = kinvD(4) [OF inv]
  note D = sched_invD [OF S]
  have "placed ?k xs qs t" if "t < MAX_PROCESS_CNT" for t
    using D(9) [OF that] c by (auto simp: placed_def sleeping_def)
  moreover have "swapper_ok ?k xs qs" using D(5) c by (auto simp: swapper_ok_def sleeping_def)
  moreover have "current_ok ?k xs qs" by (simp add: current_ok_def)
  ultimately have "sched_inv ?k xs qs" using S unfolding sched_inv_def by simp
  moreover have "parts_ok ?k"
    by (rule parts_ok_cong [OF kinvD(2) [OF inv]]) (use parts_okD [OF kinvD(2) [OF inv]] in \<open>simp_all add: ttys_ok_def\<close>)
  ultimately have "kinv ?k xs qs ch" using kinv_moves [OF inv _ kinvD(5) [OF inv]] by (simp add: task_moves_def)
  moreover have "moves k ?k" by (simp add: moves_def task_moves_def tty_input_available_def)
  ultimately show ?thesis using state_ok_moves [OF s] by blast
qed

lemma counted_between: "between_ok ct k \<Longrightarrow> between_ok ct (counted c k)"
  unfolding counted_def by (rule between_keeps [OF _ keeps_task [OF between_parts]]) (simp_all add: task_keeps_def)

text \<open>Interrupts before \<open>sched_schedule\<close>, also when the task that calls it is already in a wait queue, do no harm.\<close>

lemma schedule_after_irqs:
  assumes s: "state_ok k ct xs qs ch" and cu: "k_current k = Some c" "running k \<or> sleeping (k_tasks k c)"
    and r: "irqs scs k = Inr k1" "sched_schedule k1 = Inr k'"
  shows "between_ok ct k'"
  using cu(2)
proof
  assume "running k"
  then have "between_ok ct k" using s unfolding between_ok_def by blast
  then obtain xs qs ch where "state_ok k1 ct xs qs ch" using irqs_between [OF _ r(1)] unfolding between_ok_def by blast
  from between_schedule [OF this r(2)] show ?thesis .
next
  assume sl: "sleeping (k_tasks k c)"
  let ?k = "with_current None k"
  have a: "awake ct ?k" using off_duty [OF s cu(1) sl] by (auto simp: awake_def)
  obtain k2 where k2: "irqs scs ?k = Inr k2" "k2 = with_current None k1" using irqs_current [of scs None k] r(1) by simp
  note A = irqs_awake [OF a k2(1)]
  have "irqs scs (with_current (Some c) ?k) = Inr (with_current (Some c) k2)"
    using irqs_current [of scs "Some c" ?k] k2(1) by simp
  moreover have "with_current (Some c) ?k = k" using cu(1) by simp
  ultimately have k1: "k1 = with_current (Some c) k2" using r(1) by simp
  have sl1: "k_current k1 = Some c" "sleeping (k_tasks k1 c)" using A sl by (simp_all add: k1 sleeping_def)
  have "sched_schedule k1 = map_res (counted c) (sched_schedule k2)"
    unfolding schedule_sleeper [OF sl1] k2(2) [symmetric] ..
  then obtain k3 where k3: "sched_schedule k2 = Inr k3" "k' = counted c k3"
    using r(2) by (cases "sched_schedule k2") simp_all
  obtain xs qs ch where "state_ok k2 ct xs qs ch" using A unfolding awake_def by blast
  from between_schedule [OF this k3(1)] show ?thesis using counted_between k3(2) by simp
qed

subsection \<open>The pieces of kernel code\<close>

text \<open>How a piece of kernel code run by task \<open>c\<close> may end.\<close>

definition action_ok :: "(nat \<Rightarrow> cont) \<Rightarrow> nat \<Rightarrow> action \<Rightarrow> bool" where
  "action_ok ct c a =
     (case a of
        Back r out k \<Rightarrow> between_ok (ct(c := User r out)) k
      | Yield cn k \<Rightarrow> between_ok (ct(c := cn)) k \<and> k_current k = Some c
      | Sleep q cd md af k \<Rightarrow> (\<exists>xs qs ch. state_ok k ct xs qs ch \<and> running k \<and> k_current k = Some c
          \<and> cont_ok k ch c (Waiting q cd md af) \<and> \<not> cond_true cd ch k)
      | Leave cn k \<Rightarrow> between_ok (ct(c := cn)) k
      | Spawn r ch k \<Rightarrow> between_ok (ct(c := User r OutNone, ch := User 0 OutNone)) k)"

lemma action_ok_simps [simp]:
  "action_ok ct c (Back r out k) \<longleftrightarrow> between_ok (ct(c := User r out)) k"
  "action_ok ct c (Yield cn k) \<longleftrightarrow> between_ok (ct(c := cn)) k \<and> k_current k = Some c"
  "action_ok ct c (Sleep q cd md af k) \<longleftrightarrow> (\<exists>xs qs ch. state_ok k ct xs qs ch \<and> running k \<and> k_current k = Some c
     \<and> cont_ok k ch c (Waiting q cd md af) \<and> \<not> cond_true cd ch k)"
  "action_ok ct c (Leave cn k) \<longleftrightarrow> between_ok (ct(c := cn)) k"
  "action_ok ct c (Spawn r ch k) \<longleftrightarrow> between_ok (ct(c := User r OutNone, ch := User 0 OutNone)) k"
  by (simp_all add: action_ok_def)

lemma sleep_put_to_sleep: "gentle cu \<Longrightarrow> sleep_at cu q c WAIT_INTERRUPTIBLE k = Inr (put_to_sleep q c TASK_INTERRUPTIBLE k)"
  by (simp add: sleep_gentle put_to_sleep_def updt_def Let_def)

lemma asleep_state: "sleeping (k_tasks (put_to_sleep q c TASK_INTERRUPTIBLE k) c)" "k_current (put_to_sleep q c st k) = k_current k"
  by (simp_all add: put_to_sleep_def updt_def sleeping_def)

lemma leave_cpu_ok:
  assumes "state_ok k (ct(c := cn)) xs qs ch" "k_current k = Some c" "running k \<or> sleeping (k_tasks k c)" "gentle cu"
    "leave_cpu cu c cn k m = Inr m'" "m_cont m = ct"
  shows "between_ok (m_cont m') (m_kernel m')"
proof -
  obtain k1 k' where k: "irqs (cu BeforeSchedule) k = Inr k1" "sched_schedule k1 = Inr k'" "m' = m\<lparr>m_kernel := k', m_cont := ct(c := cn)\<rparr>"
    using assms(5,6) by (auto simp: leave_cpu_def bindR_eq_Inr sched_schedule_gentle [OF assms(4)])
  from schedule_after_irqs [OF assms(1-3) k(1,2)] show ?thesis by (simp add: k(3))
qed

lemma perform_ok:
  assumes "action_ok (m_cont m) c a" "gentle cu" "perform cu c a m = Inr m'" shows "between_ok (m_cont m') (m_kernel m')"
proof (cases a)
  case (Yield cn k)
  then have l: "leave_cpu cu c cn k m = Inr m'" and b: "between_ok ((m_cont m)(c := cn)) k" "k_current k = Some c"
    using assms by (simp_all add: perform_def)
  obtain xs qs ch where "state_ok k ((m_cont m)(c := cn)) xs qs ch" "running k" using b(1) unfolding between_ok_def by blast
  then show ?thesis using leave_cpu_ok [OF _ b(2) _ assms(2) l refl] by blast
next
  case (Sleep q cd md af k)
  then obtain xs qs ch where s: "state_ok k (m_cont m) xs qs ch" "running k" "k_current k = Some c"
    "cont_ok k ch c (Waiting q cd md af)" "\<not> cond_true cd ch k" using assms(1) by auto
  have md: "md = WAIT_INTERRUPTIBLE" using s(4) by simp
  let ?k = "put_to_sleep q c TASK_INTERRUPTIBLE k"
  have l: "leave_cpu cu c (Waiting q cd md af) ?k m = Inr m'"
    using assms(3) Sleep sleep_put_to_sleep [OF assms(2)] by (simp add: perform_def md)
  from sleep_state_ok [OF s(1-3) s(4) [unfolded md] s(5)] show ?thesis
    using leave_cpu_ok [OF _ _ _ assms(2) l refl] asleep_state s(3) unfolding md by metis
qed (use assms in \<open>auto simp: perform_def\<close>)

lemma between_user:
  assumes "between_ok ct k" "k_current k = Some c" shows "between_ok (ct(c := User r out)) k"
proof -
  obtain xs qs ch where s: "state_ok k ct xs qs ch" "running k" using assms(1) unfolding between_ok_def by blast
  have "state_ok k (ct(c := User r out)) xs qs ch"
    by (rule state_ok_cont [OF s(1) not_waiting(1) [OF kinvD(4) [OF state_okD(1) [OF s(1)]] s(2) assms(2)]]) simp
  then show ?thesis using s(2) unfolding between_ok_def by blast
qed

lemma back_ok: "between_ok ct k \<Longrightarrow> k_current k = Some c \<Longrightarrow> keeps k k' \<Longrightarrow> action_ok ct c (Back r out k')"
  using between_user between_keeps keepsD(3) by (metis action_ok_simps(1))

lemma back_same: "between_ok ct k \<Longrightarrow> k_current k = Some c \<Longrightarrow> action_ok ct c (Back r out k)"
  by (simp add: between_user)

lemma back_int_ok: "between_ok ct k \<Longrightarrow> k_current k = Some c \<Longrightarrow> keeps k k' \<Longrightarrow> action_ok ct c (back_int r k')"
  unfolding back_int_def by (rule back_ok)

lemma yield_ok:
  assumes "between_ok ct k" "k_current k = Some c" "\<And>ch. cont_ok k ch c cn" shows "action_ok ct c (Yield cn k)"
proof -
  obtain xs qs ch where s: "state_ok k ct xs qs ch" "running k" using assms(1) unfolding between_ok_def by blast
  have "state_ok k (ct(c := cn)) xs qs ch"
    by (rule state_ok_cont [OF s(1) not_waiting(1) [OF kinvD(4) [OF state_okD(1) [OF s(1)]] s(2) assms(2)] assms(3)])
  then show ?thesis using s(2) assms(2) unfolding action_ok_simps between_ok_def by blast
qed

lemma sched_exit_ok:
  assumes b: "between_ok ct k" and c: "k_current k = Some c" "k_swapper k \<noteq> Some c" and r: "sched_exit status k = Inr k'"
  shows "action_ok ct c (Leave Gone k')"
proof -
  obtain xs qs ch where s: "state_ok k ct xs qs ch" "running k" using b unfolding between_ok_def by blast
  obtain k1 where k1: "exit_current status k = Inr k1" "sched_schedule k1 = Inr k'" using r by (auto simp: sched_exit_def bindR_eq_Inr)
  obtain xs' qs' where "state_ok k1 (ct(c := Gone)) xs' qs' ch" using exit_state_ok [OF s c k1(1)] by blast
  from between_schedule [OF this k1(2)] show ?thesis by simp
qed

subsection \<open>wait_event\<close>

lemma zombie_of_eq:
  assumes "kinv k xs qs ch" "p < 64"
  shows "zombie_of p k = Inr (List.find (\<lambda>c. t_state (k_tasks k c) = TASK_ZOMBIE) (ch p))"
  using find_zombie_child_ok [of "k_tasks k" "t_children (k_tasks k p)" "ch p" CHILD_FUEL]
    familyD(1) [OF kinvD(7) [OF assms(1)], of p] family_length [OF kinvD(7) [OF assms(1)], of p] assms(2)
  by (simp add: zombie_of_def the_task_def)

lemma holds_eq:
  assumes "kinv k xs qs ch" "wait_ok ch c q cd af" "c < 64" shows "holds cd k = Inr (cond_true cd ch k)"
proof (cases cd)
  case (HasZombieChild p)
  then have "p = c" using assms(2) by (auto simp: wait_ok_def split: after.splits option.splits)
  then show ?thesis
    using zombie_of_eq [OF assms(1,3)] HasZombieChild find_None_iff [of "\<lambda>c. t_state (k_tasks k c) = TASK_ZOMBIE" "ch c"]
    by (auto simp: holds_def)
qed (simp_all add: holds_def the_task_def)

lemma reap_back_ok:
  assumes s: "state_ok k ct xs qs ch" "running k" "k_current k = Some c" and z: "z \<in> set (ch c)" "t_state (k_tasks k z) = TASK_ZOMBIE"
    and r: "reap c z k = Inr (p, st, k')"
  shows "action_ok ct c (Back x out k')"
  using reap_state_ok [OF s z, of x out] r unfolding action_ok_simps between_ok_def by auto

text \<open>A waiting parent that is woken by its condition finds the child.\<close>

lemma resume_finds:
  assumes s: "state_ok k ct xs qs ch" "running k" "k_current k = Some c" and w: "wait_ok ch c q cd (ThenReap child)" "cond_true cd ch k"
  obtains z where "sched_waitpid_resume c child k = Inr (WaitReap z)" "z \<in> set (ch c)" "t_state (k_tasks k z) = TASK_ZOMBIE"
proof -
  have c64: "c < 64" using not_waiting(3) [OF kinvD(4) [OF state_okD(1) [OF s(1)]] s(2,3)] by simp
  show ?thesis
  proof (cases child)
    case None
    then have "\<exists>z \<in> set (ch c). t_state (k_tasks k z) = TASK_ZOMBIE" using w by (simp add: wait_ok_def)
    then obtain z where z: "List.find (\<lambda>c. t_state (k_tasks k c) = TASK_ZOMBIE) (ch c) = Some z"
      using find_None_iff [of "\<lambda>c. t_state (k_tasks k c) = TASK_ZOMBIE" "ch c"] by fastforce
    then show ?thesis
      using that [of z] find_in_set [OF z] zombie_of_eq [OF state_okD(1) [OF s(1)] c64] None by (simp add: sched_waitpid_resume_def)
  next
    case (Some z)
    then show ?thesis using that [of z] w by (simp add: wait_ok_def sched_waitpid_resume_def the_task_def)
  qed
qed

lemma wait_done_ok:
  assumes s: "state_ok k ct xs qs ch" "running k" "k_current k = Some c" and w: "wait_ok ch c q cd af" "cond_true cd ch k"
    and r: "wait_done af c k = Inr a"
  shows "action_ok ct c a"
proof (cases af)
  case (ThenTake i buf n)
  have "between_ok ct k" using s unfolding between_ok_def by blast
  with r ThenTake show ?thesis
    by (auto simp: wait_done_def bindR_eq_Inr simp del: action_ok_simps
        intro: back_ok [OF _ s(3)] tty_read_end_keeps between_parts)
next
  case (ThenReap child)
  obtain z where z: "sched_waitpid_resume c child k = Inr (WaitReap z)" "z \<in> set (ch c)" "t_state (k_tasks k z) = TASK_ZOMBIE"
    by (rule resume_finds [OF s w(1) [unfolded ThenReap] w(2)])
  then obtain p st k' where "reap c z k = Inr (p, st, k')" "a = Back (word_of_int p) (OutStatus st) k'"
    using r ThenReap by (auto simp: wait_done_def bindR_eq_Inr)
  then show ?thesis using reap_back_ok [OF s z(2,3)] by blast
qed

lemma wait_check_ok:
  assumes s: "state_ok k ct xs qs ch" "running k" "k_current k = Some c" and w: "cont_ok k ch c (Waiting q cd WAIT_INTERRUPTIBLE af)"
    and r: "wait_check q cd WAIT_INTERRUPTIBLE af c k = Inr a"
  shows "action_ok ct c a"
proof -
  have c64: "c < 64" using not_waiting(3) [OF kinvD(4) [OF state_okD(1) [OF s(1)]] s(2,3)] by simp
  have wo: "wait_ok ch c q cd af" using w by simp
  note h = holds_eq [OF state_okD(1) [OF s(1)] wo c64]
  show ?thesis
  proof (cases "cond_true cd ch k")
    case True
    then show ?thesis using r h wait_done_ok [OF s wo True] by (simp add: wait_check_def)
  next
    case False
    then have "a = Sleep q cd WAIT_INTERRUPTIBLE af k" using r h by (simp add: wait_check_def)
    then show ?thesis using s w False by auto
  qed
qed

lemma init_state_ok:
  assumes s: "state_ok k ct xs qs ch" "running k" "k_current k = Some c"
  shows "state_ok (k\<lparr>k_wh := wait_queue_entry_init c (Some c) (k_wh k)\<rparr>) ct xs qs ch"
    "running (k\<lparr>k_wh := wait_queue_entry_init c (Some c) (k_wh k)\<rparr>)"
proof -
  let ?k = "k\<lparr>k_wh := wait_queue_entry_init c (Some c) (k_wh k)\<rparr>"
  have "moves k ?k" by (simp add: moves_def task_moves_def tty_input_available_def)
  from state_ok_moves [OF s(1) kinv_entry_init [OF state_okD(1) [OF s(1)] s(2,3)] this]
  show "state_ok ?k ct xs qs ch" by simp
  show "running ?k" using s(2) by (simp add: running_def)
qed

lemma wait_start_ok:
  assumes s: "state_ok k ct xs qs ch" "running k" "k_current k = Some c" and w: "k_swapper k \<noteq> Some c" "wait_ok ch c q cd af"
    and r: "wait_start q cd WAIT_INTERRUPTIBLE af c k = Inr a"
  shows "action_ok ct c a"
  using wait_check_ok [OF init_state_ok [OF s], where q = q and cd = cd and af = af and a = a] s(3) w r by (simp add: wait_start_def)

lemma wait_resume_ok:
  assumes b: "between_ok ct k" "k_current k = Some c" and cn: "ct c = Waiting q cd md af" and r: "wait_resume q cd md af c k = Inr a"
  shows "action_ok ct c a"
proof -
  obtain xs qs ch where s: "state_ok k ct xs qs ch" "running k" using b(1) unfolding between_ok_def by blast
  note N = not_waiting [OF kinvD(4) [OF state_okD(1) [OF s(1)]] s(2) b(2)]
  have "t_state (k_tasks k c) = TASK_RUNNING" using s(2) b(2) by (simp add: running_def)
  then have w: "cont_ok k ch c (Waiting q cd md af)" using state_okD(2) [OF s(1) N(3)] alive_states(3) cn by metis
  then have md: "md = WAIT_INTERRUPTIBLE" by simp
  have k1: "k\<lparr>k_wh := wait_queue_remove c (k_wh k)\<rparr> = k" using wait_queue_remove_none [OF N(4)] by simp
  show ?thesis
  proof (cases "t_pending (the_task c k) \<noteq> 0")
    case True
    then obtain k2 where "sched_exit (-1) k = Inr k2" "a = Leave Gone k2"
      using r k1 md by (auto simp: wait_resume_def bindR_eq_Inr Let_def)
    then show ?thesis using sched_exit_ok [OF b] w by simp
  next
    case False
    then have "wait_check q cd WAIT_INTERRUPTIBLE af c k = Inr a" using r k1 md by (simp add: wait_resume_def Let_def)
    then show ?thesis by (rule wait_check_ok [OF s b(2) w [unfolded md]])
  qed
qed

subsection \<open>System calls\<close>

definition calm :: "machine \<Rightarrow> event \<Rightarrow> bool" where
  "calm m ev \<longleftrightarrow> gentle (event_cuts ev) \<and>
     (case ev of
        Call (SysKill pid sig) _ \<Rightarrow>
          (\<forall>t. sched_find_by_pid pid (m_kernel m) = Some t \<longrightarrow> t_state (the_task t (m_kernel m)) \<noteq> TASK_INTERRUPTIBLE)
      | Call call _ \<Rightarrow> k_current (m_kernel m) = k_swapper (m_kernel m) \<longrightarrow> \<not> sleepy call
      | _ \<Rightarrow> True)"

lemma do_fork_ok:
  assumes b: "between_ok ct k" "k_current k = Some c" and r: "do_fork k = Inr a" shows "action_ok ct c a"
proof -
  obtain xs qs ch where s: "state_ok k ct xs qs ch" "running k" using b(1) unfolding between_ok_def by blast
  obtain pid child k' where f: "sched_fork k = Inr (pid, child, k')"
    "a = (case child of None \<Rightarrow> back_int pid k' | Some ch \<Rightarrow> Spawn (word_of_int pid) ch k')"
    using r by (auto simp: do_fork_def bindR_eq_Inr)
  show ?thesis
  proof (cases child)
    case None
    then have "k' = k" using fork_kinv [OF state_okD(1) [OF s(1)] s(2) b(2) f(1)] by simp
    then show ?thesis using None f(2) back_same [OF b] by (simp add: back_int_def)
  next
    case (Some c')
    from fork_state_ok [OF s b(2) f(1) [unfolded Some]] show ?thesis
      using f(2) Some unfolding action_ok_def between_ok_def by (simp, blast)
  qed
qed

lemma do_execve_ok:
  assumes b: "between_ok ct k" "k_current k = Some c" "k_swapper k \<noteq> Some c" and r: "do_execve bins c path argv envp k = Inr a"
  shows "action_ok ct c a"
proof -
  obtain e where e: "sched_execve bins path argv envp k = Inr e" "(case e of
         ExecFails e k1 \<Rightarrow> Inr (back_int e k1)
       | ExecExits k1 \<Rightarrow> Inr (Leave Gone k1)
       | ExecRuns tr k1 \<Rightarrow>
           bindR (sched_enqueue c (updt c (\<lambda>x. x\<lparr>t_state := TASK_QUEUED\<rparr>) k1)) (\<lambda>k2.
           bindR (sched_schedule (k2\<lparr>k_current := None\<rparr>)) (\<lambda>k3. Inr (Leave (Start tr) k3)))) = Inr a"
    using r by (auto simp: do_execve_def bindR_eq_Inr)
  note ok = between_parts [OF b(1)]
  obtain bin where bin: "find_bin bins path = Some bin" using e(1) b(2) by (auto simp: sched_execve_def sched_current_def bindR_eq_Inr)
  show ?thesis
  proof (cases bin)
    case None
    then have "e = ExecFails (- ENOENT) k" using e(1) bin b(2) by (simp add: sched_execve_def sched_current_def)
    then show ?thesis using e(2) back_same [OF b(1,2)] by (auto simp: back_int_def)
  next
    case (Some i)
    then obtain name im info k1 where n: "k_strcpy (t_name (the_task c k)) path = Some name"
      "elf_load c im (updt c (\<lambda>x. x\<lparr>t_name := name\<rparr>) k) = Inr (info, k1)"
      and rest: "(case info of
                    None \<Rightarrow> bindR (sched_exit (-1) k1) (\<lambda>k2. Inr (ExecExits k2))
                  | Some ei \<Rightarrow>
                      bindR (setup_program c ei (user_args argv) (user_args envp) k1) (\<lambda>(tr, k2).
                        case tr of
                          None \<Rightarrow> bindR (sched_exit (-1) k2) (\<lambda>k3. Inr (ExecExits k3))
                        | Some tr \<Rightarrow> Inr (ExecRuns tr (updt c (\<lambda>x. x\<lparr>t_pending := 0\<rparr>) k2)))) = Inr e"
      using e(1) bin b(2) by (auto simp: sched_execve_def sched_current_def bindR_eq_Inr)
    have s1: "keeps k (updt c (\<lambda>x. x\<lparr>t_name := name\<rparr>) k)"
      by (rule keeps_task [OF ok]) (use k_strcpy_keeps [OF n(1)] in \<open>simp_all add: task_keeps_def the_task_def\<close>)
    note s2 = keeps_trans [OF s1 elf_load_keeps [OF keeps_parts [OF s1] n(2)]]
    have ex: "action_ok ct c (Leave Gone k3)" if "keeps k k2" "sched_exit (-1) k2 = Inr k3" for k2 k3
      by (rule sched_exit_ok [OF between_keeps [OF b(1) that(1)] _ _ that(2)]) (use b(2,3) keepsD(2,3) [OF that(1)] in simp_all)
    show ?thesis
    proof (cases info)
      case None
      then obtain k2 where "sched_exit (-1) k1 = Inr k2" "e = ExecExits k2" using rest by (auto simp: bindR_eq_Inr)
      then show ?thesis using ex [OF s2] e(2) by auto
    next
      case (Some ei)
      then obtain tr k2 where t: "setup_program c ei (user_args argv) (user_args envp) k1 = Inr (tr, k2)"
        "(case tr of None \<Rightarrow> bindR (sched_exit (-1) k2) (\<lambda>k3. Inr (ExecExits k3))
          | Some tr \<Rightarrow> Inr (ExecRuns tr (updt c (\<lambda>x. x\<lparr>t_pending := 0\<rparr>) k2))) = Inr e"
        using rest by (auto simp: bindR_eq_Inr)
      note s3 = keeps_trans [OF s2 setup_program_keeps [OF keeps_parts [OF s2] t(1)]]
      show ?thesis
      proof (cases tr)
        case None
        then obtain k3 where "sched_exit (-1) k2 = Inr k3" "e = ExecExits k3" using t(2) by (auto simp: bindR_eq_Inr)
        then show ?thesis using ex [OF s3] e(2) by auto
      next
        case (Some tp)
        let ?k3 = "updt c (\<lambda>x. x\<lparr>t_pending := 0\<rparr>) k2"
        have s4: "keeps k ?k3"
          by (rule keeps_trans [OF s3 keeps_task [OF keeps_parts [OF s3]]]) (simp_all add: task_keeps_def)
        obtain xs qs ch where s: "state_ok ?k3 ct xs qs ch" "running ?k3"
          using between_keeps [OF b(1) s4] unfolding between_ok_def by blast
        have c3: "k_current ?k3 = Some c" "k_swapper ?k3 \<noteq> Some c" using b(2,3) keepsD(2,3) [OF s4] by simp_all
        obtain k4 k5 where q: "sched_enqueue c (updt c (\<lambda>x. x\<lparr>t_state := TASK_QUEUED\<rparr>) ?k3) = Inr k4"
          "sched_schedule (k4\<lparr>k_current := None\<rparr>) = Inr k5" "a = Leave (Start tp) k5"
          using e(2) t(2) Some by (auto simp: bindR_eq_Inr)
        note Q = requeue_kinv [OF state_okD(1) [OF s(1)] s(2) c3 q(1)]
        have "moves ?k3 (k4\<lparr>k_current := None\<rparr>)" using Q(2,3) by (simp add: moves_def same_heaps_def tty_input_available_def)
        from state_ok_moves [OF s(1) Q(1) this] have s5: "state_ok (k4\<lparr>k_current := None\<rparr>) ct (xs @ [c]) qs ch" by simp
        have "c \<notin> waiting qs" by (rule not_waiting(1) [OF kinvD(4) [OF state_okD(1) [OF s(1)]] s(2) c3(1)])
        from state_ok_cont [OF s5 this, of "Start tp"] have "state_ok (k4\<lparr>k_current := None\<rparr>) (ct(c := Start tp)) (xs @ [c]) qs ch" by simp
        from between_schedule [OF this q(2)] show ?thesis using q(3) by simp
      qed
    qed
  qed
qed

lemma waitpid_spec_cases:
  "waitpid_spec pid options c cs ts = WaitReap z \<Longrightarrow> z \<in> set cs \<and> t_state (ts z) = TASK_ZOMBIE"
  "waitpid_spec pid options c (ch c) ts = WaitSleep q cd child \<Longrightarrow> wait_ok ch c q cd (ThenReap child)"
proof -
  let ?P = "\<lambda>c. if pid = -1 then t_state (ts c) = TASK_ZOMBIE else t_pid (ts c) = pid"
  show "waitpid_spec pid options c cs ts = WaitReap z \<Longrightarrow> z \<in> set cs \<and> t_state (ts z) = TASK_ZOMBIE"
    using find_in_set [of ?P cs] by (cases "List.find ?P cs") (auto simp: waitpid_spec_def split: if_split_asm)
  assume w: "waitpid_spec pid options c (ch c) ts = WaitSleep q cd child"
  show "wait_ok ch c q cd (ThenReap child)"
  proof (cases "List.find ?P (ch c)")
    case None
    with w show ?thesis by (auto simp: waitpid_spec_def wait_ok_def split: if_split_asm)
  next
    case (Some y)
    note y = find_in_set [OF Some]
    have "q = ExitQ y \<and> cd = IsZombie y \<and> child = Some y"
      using w unfolding waitpid_spec_def Some by (simp split: if_split_asm)
    then show ?thesis using y by (simp add: wait_ok_def)
  qed
qed

lemma do_waitpid_ok:
  assumes b: "between_ok ct k" "k_current k = Some c" "k_swapper k \<noteq> Some c" and r: "do_waitpid c pid options k = Inr a"
  shows "action_ok ct c a"
proof -
  obtain xs qs ch where s: "state_ok k ct xs qs ch" "running k" using b(1) unfolding between_ok_def by blast
  have c64: "c < 64" using not_waiting(3) [OF kinvD(4) [OF state_okD(1) [OF s(1)]] s(2) b(2)] by simp
  obtain w where w: "sched_waitpid_begin pid options k = Inr w"
    "(case w of WaitResult r \<Rightarrow> Inr (back_int r k)
       | WaitReap ch \<Rightarrow> bindR (reap c ch k) (\<lambda>(r, st, k1). Inr (Back (word_of_int r) (OutStatus st) k1))
       | WaitSleep q cd child \<Rightarrow> wait_start q cd WAIT_INTERRUPTIBLE (ThenReap child) c k) = Inr a"
    using r by (auto simp: do_waitpid_def bindR_eq_Inr)
  have sp: "w = waitpid_spec pid options c (ch c) (k_tasks k)"
    using waitpid_begin_ok [OF kinvD(1) [OF state_okD(1) [OF s(1)]] b(2) c64] w(1) by simp
  have W: "w = WaitReap z \<Longrightarrow> z \<in> set (ch c) \<and> t_state (k_tasks k z) = TASK_ZOMBIE"
    "w = WaitSleep q cd child \<Longrightarrow> wait_ok ch c q cd (ThenReap child)" for z q cd child
    using sp waitpid_spec_cases by simp_all
  show ?thesis
  proof (cases w)
    case (WaitResult x)
    then show ?thesis using w(2) back_same [OF b(1,2)] by (auto simp: back_int_def)
  next
    case (WaitReap z)
    then obtain p st k' where "reap c z k = Inr (p, st, k')" "a = Back (word_of_int p) (OutStatus st) k'"
      using w(2) by (auto simp: bindR_eq_Inr)
    then show ?thesis using reap_back_ok [OF s b(2)] W(1) [OF WaitReap] by blast
  next
    case (WaitSleep q cd child)
    then show ?thesis using wait_start_ok [OF s b(2,3) W(2) [OF WaitSleep]] w(2) by simp
  qed
qed

lemma sys_enter_ok:
  assumes b: "between_ok ct k" "k_current k = Some c" and r: "sys_enter_dispatch_c bins call k = Inr a"
    and sw: "k_swapper k = Some c \<Longrightarrow> \<not> sleepy call"
    and kl: "\<And>pid sig t. call = SysKill pid sig \<Longrightarrow> sched_find_by_pid pid k = Some t \<Longrightarrow> t_state (the_task t k) \<noteq> TASK_INTERRUPTIBLE"
  shows "action_ok ct c a"
proof -
  let ?k = "updt c (\<lambda>x. x\<lparr>t_sys_call_cnt := t_sys_call_cnt x + 1\<rparr>) k"
  have s: "keeps k ?k" by (rule keeps_task [OF between_parts [OF b(1)]]) (simp_all add: task_keeps_def)
  note B = between_keeps [OF b(1) s]
  have c: "k_current ?k = Some c" "k_swapper ?k = k_swapper k" using keepsD(2,3) [OF s] b(2) by simp_all
  have kl': "t_state (the_task t ?k) \<noteq> TASK_INTERRUPTIBLE" if "call = SysKill pid sig" "sched_find_by_pid pid ?k = Some t" for pid sig t
  proof -
    have "sched_find_by_pid pid k = Some t"
      using that(2) find_pid_cong [of "k_tasks ?k" "k_tasks k" pid] task_keepsD(1) [OF keepsD(6) [OF s]] by (simp add: sched_find_by_pid_def)
    then show ?thesis using kl [OF that(1)] task_keepsD(6) [OF keepsD(6) [OF s], of t] by (simp add: the_task_def)
  qed
  have r1: "(if schedules_first call then Inr (Yield (Yielded call) ?k)
             else case call of
               SysFork \<Rightarrow> do_fork ?k
             | SysExecve path argv envp \<Rightarrow> do_execve bins c path argv envp ?k
             | SysExit status \<Rightarrow> bindR (sched_exit status ?k) (\<lambda>k2. Inr (Leave Gone k2))
             | SysKill pid sig \<Rightarrow> bindR (sched_kill pid sig ?k) (\<lambda>(r, k2). Inr (back_int r k2))
             | SysWaitpid pid options \<Rightarrow> do_waitpid c pid options ?k
             | SysNice \<Rightarrow> Inr (back_int 0 ?k)
             | SysSetctty i \<Rightarrow> Inr (do_setctty c i ?k)
             | _ \<Rightarrow> Inr (back_int (- ENOSYS) ?k)) = Inr a"
    using r b(2) by (simp add: sys_enter_dispatch_c_def sched_current_def Let_def)
  show ?thesis
  proof (cases "schedules_first call")
    case True
    then have "a = Yield (Yielded call) ?k" using r1 by simp
    then show ?thesis using yield_ok [OF B c(1)] sw c(2) by (simp del: action_ok_simps)
  next
    case nf: False
    note same = back_same [OF B c(1)]
    show ?thesis
    proof (cases call)
      case SysFork
      then show ?thesis using r1 nf do_fork_ok [OF B c(1)] by simp
    next
      case (SysExecve path argv envp)
      then have "k_swapper ?k \<noteq> Some c" using sw c(2) by (auto simp: sleepy_def)
      then show ?thesis using r1 nf do_execve_ok [OF B c(1)] SysExecve by simp
    next
      case (SysExit status)
      then have "k_swapper ?k \<noteq> Some c" using sw c(2) by (auto simp: sleepy_def)
      moreover obtain k2 where "sched_exit status ?k = Inr k2" "a = Leave Gone k2" using r1 nf SysExit by (auto simp: bindR_eq_Inr)
      ultimately show ?thesis using sched_exit_ok [OF B c(1)] by blast
    next
      case (SysKill pid sig)
      then obtain x k2 where x: "sched_kill pid sig ?k = Inr (x, k2)" "a = back_int x k2" using r1 nf by (auto simp: bindR_eq_Inr)
      have "keeps ?k k2" by (rule sched_kill_keeps [OF keeps_parts [OF s] x(1) kl' [OF SysKill]])
      then show ?thesis using back_int_ok [OF B c(1)] x(2) by blast
    next
      case (SysWaitpid pid options)
      then have "k_swapper ?k \<noteq> Some c" using sw c(2) by (auto simp: sleepy_def)
      then show ?thesis using r1 nf do_waitpid_ok [OF B c(1)] SysWaitpid by simp
    next
      case (SysSetctty i)
      have "keeps ?k (updt c (\<lambda>x. x\<lparr>t_ctty := y\<rparr>) ?k)" for y
        by (rule keeps_task [OF keeps_parts [OF s]]) (simp_all add: task_keeps_def)
      then have set: "action_ok ct c (back_int 0 (updt c (\<lambda>x. x\<lparr>t_ctty := y\<rparr>) ?k))" for y
        by (rule back_int_ok [OF B c(1)])
      have err: "action_ok ct c (back_int (- EINVAL) ?k)" unfolding back_int_def by (rule same)
      have "a = do_setctty c i ?k" using r1 nf SysSetctty by simp
      then show ?thesis using set err by (cases "tty_get (word_of_int i)") (simp_all add: do_setctty_def)
    qed (use r1 nf same in \<open>auto simp: back_int_def schedules_first_def simp del: action_ok_simps\<close>)
  qed
qed

lemma sys_continue_ok:
  assumes b: "between_ok ct k" "k_current k = Some c" and sw: "k_swapper k = Some c \<Longrightarrow> \<not> sleepy call"
    and r: "sys_continue bins clk now c call k = Inr a"
  shows "action_ok ct c a"
proof -
  obtain xs qs ch where s: "state_ok k ct xs qs ch" "running k" using b(1) unfolding between_ok_def by blast
  note ok = between_parts [OF b(1)] and I = running_in_use [OF kinvD(1) [OF state_okD(1) [OF s(1)]] s(2) b(2)]
  have c64: "c < 64" using I(1) by simp
  have cwd: "length (t_cwd (the_task c k)) = 64"
    using proc_invD(6) [OF kinvD(1) [OF state_okD(1) [OF s(1)]]] c64 by (simp add: names_kept_def the_task_def)
  note same = back_same [OF b] and bk = back_int_ok [OF b]
  show ?thesis
  proof (cases call)
    case (SysWrite fd buf n)
    then show ?thesis using r bk vfs_write_keeps [OF ok] by (auto simp: sys_continue_def bindR_eq_Inr)
  next
    case (SysRead fd buf n)
    then have "a = Yield (Reading fd buf n) k" "k_swapper k \<noteq> Some c" using r sw by (auto simp: sys_continue_def sleepy_def)
    then show ?thesis using yield_ok [OF b] by (simp del: action_ok_simps)
  next
    case (SysOpen path flags mode)
    then show ?thesis using r bk vfs_open_keeps [OF ok c64] by (auto simp: sys_continue_def bindR_eq_Inr)
  next
    case (SysClose fd)
    then show ?thesis using r bk vfs_close_keeps [OF ok c64] by (auto simp: sys_continue_def bindR_eq_Inr)
  next
    case (SysGetdents fd buf n)
    then obtain x d k1 where x: "vfs_getdents bins fd buf n k = Inr (x, d, k1)" "a = Back (word_of_int x) (OutDents d) k1"
      using r by (auto simp: sys_continue_def bindR_eq_Inr)
    show ?thesis unfolding x(2) by (rule back_ok [OF b vfs_getdents_keeps [OF ok x(1)]])
  next
    case (SysBrk addr)
    then show ?thesis using r bk mm_brk_keeps [OF ok] by (cases "mm_brk addr k") (auto simp: sys_continue_def)
  next
    case (SysChdir path)
    then show ?thesis using r bk vfs_chdir_keeps [OF ok b(2) c64 _ cwd] by (auto simp: sys_continue_def bindR_eq_Inr)
  qed (use r same in \<open>auto simp: sys_continue_def bindR_eq_Inr back_int_def simp del: action_ok_simps split: prod.splits\<close>)
qed

lemma read_continue_ok:
  assumes b: "between_ok ct k" "k_current k = Some c" "k_swapper k \<noteq> Some c" and r: "read_continue bins c fd buf n k = Inr a"
  shows "action_ok ct c a"
proof -
  obtain xs qs ch where s: "state_ok k ct xs qs ch" "running k" using b(1) unfolding between_ok_def by blast
  obtain w where w: "vfs_read_begin bins fd buf n k = Inr w" "(case w of
         ReadDone n b k1 \<Rightarrow> Inr (Back (word_of_int n) (OutBuf b) k1)
       | ReadWaits i \<Rightarrow>
           bindR (deref buf) (\<lambda>b. wait_start (TtyQ i) (InputOf i) WAIT_INTERRUPTIBLE (ThenTake i b n) c k)) = Inr a"
    using r by (auto simp: read_continue_def bindR_eq_Inr)
  show ?thesis
  proof (cases w)
    case (ReadDone x d k1)
    then show ?thesis
      using w(2) back_ok [OF b(1,2) vfs_read_begin_keeps [OF between_parts [OF b(1)] w(1) [unfolded ReadDone]]] by auto
  next
    case (ReadWaits i)
    then obtain d where "wait_start (TtyQ i) (InputOf i) WAIT_INTERRUPTIBLE (ThenTake i d n) c k = Inr a"
      using w(2) by (auto simp: bindR_eq_Inr)
    then show ?thesis by (rule wait_start_ok [OF s b(2,3), rotated]) (simp add: wait_ok_def)
  qed
qed

lemma start_program_ok:
  assumes b: "between_ok ct k" "k_current k = Some c" and r: "start_program bins c k = Inr a" shows "action_ok ct c a"
proof -
  obtain xs qs ch where s: "state_ok k ct xs qs ch" "running k" using b(1) unfolding between_ok_def by blast
  have c64: "c < 64" using running_in_use(1) [OF kinvD(1) [OF state_okD(1) [OF s(1)]] s(2) b(2)] by simp
  obtain r1 k1 r2 k2 r3 k3 where o: "vfs_open bins (Some c) (Some (c_string ''/dev/stdin'')) 0 0 k = Inr (r1, k1)"
    "vfs_open bins (Some c) (Some (c_string ''/dev/stdout'')) 1 0 k1 = Inr (r2, k2)"
    "vfs_open bins (Some c) (Some (c_string ''/dev/stderr'')) 1 0 k2 = Inr (r3, k3)" "a = Back 0 OutNone k3"
    using r by (auto simp: start_program_def bindR_eq_Inr)
  note s1 = vfs_open_keeps [OF between_parts [OF b(1)] c64 o(1)]
  note s2 = keeps_trans [OF s1 vfs_open_keeps [OF keeps_parts [OF s1] c64 o(2)]]
  note s3 = keeps_trans [OF s2 vfs_open_keeps [OF keeps_parts [OF s2] c64 o(3)]]
  show ?thesis unfolding o(4) by (rule back_ok [OF b s3])
qed

lemma resume_ok:
  assumes b: "between_ok ct k" "k_current k = Some c" and r: "resume bins clk now c (ct c) k = Inr a" shows "action_ok ct c a"
proof -
  obtain xs qs ch where s: "state_ok k ct xs qs ch" "running k" using b(1) unfolding between_ok_def by blast
  note I = running_in_use [OF kinvD(1) [OF state_okD(1) [OF s(1)]] s(2) b(2)]
  have cn: "cont_ok k ch c (ct c)" by (rule state_okD(2) [OF s(1) I(1) alive_states(3) [OF I(5)]])
  show ?thesis
  proof (cases "ct c")
    case (Start tr)
    then show ?thesis using r start_program_ok [OF b] by (simp add: resume_def)
  next
    case (Yielded call)
    then have "sys_continue bins clk now c call k = Inr a" "k_swapper k = Some c \<Longrightarrow> \<not> sleepy call" using r cn by (simp_all add: resume_def)
    then show ?thesis using sys_continue_ok [OF b] by blast
  next
    case (Reading fd buf n)
    then show ?thesis using r cn read_continue_ok [OF b] by (simp add: resume_def)
  next
    case (Waiting q cd md af)
    then show ?thesis using r wait_resume_ok [OF b Waiting] by (simp add: resume_def)
  qed (use r in \<open>simp_all add: resume_def\<close>)
qed

subsection \<open>Runs\<close>

definition machine_inv :: "machine \<Rightarrow> bool" where
  "machine_inv m \<longleftrightarrow> between_ok (m_cont m) (m_kernel m)"

lemma mstep_machine_inv:
  assumes inv: "machine_inv m" and cm: "calm m ev" and st: "mstep bins ev m = Inr m'" shows "machine_inv m'"
proof -
  note b = inv [unfolded machine_inv_def]
  have g: "gentle (event_cuts ev)" using cm by (simp add: calm_def)
  show ?thesis
  proof (cases ev)
    case (Key sc)
    then obtain k where "keyboard_irq sc (m_kernel m) = Inr k" "m' = m\<lparr>m_kernel := k\<rparr>" using st by (auto simp: mstep_def bindR_eq_Inr)
    then show ?thesis using keyboard_ok [OF b] by (simp add: machine_inv_def)
  next
    case (Run now cu)
    then obtain c a where c: "k_current (m_kernel m) = Some c" "resume bins (m_clock m) now c (m_cont m c) (m_kernel m) = Inr a"
      "perform cu c a m = Inr m'" "gentle cu"
      using st g by (auto simp: mstep_def bindR_eq_Inr deref_def event_cuts_def)
    show ?thesis unfolding machine_inv_def by (rule perform_ok [OF resume_ok [OF b c(1,2)] c(4,3)])
  next
    case (Call call cu)
    then obtain c a where c: "k_current (m_kernel m) = Some c" "sys_enter_dispatch_c bins call (m_kernel m) = Inr a"
      "perform cu c a m = Inr m'" "gentle cu"
      using st g by (auto simp: mstep_def bindR_eq_Inr deref_def event_cuts_def)
    have "action_ok (m_cont m) c a"
      by (rule sys_enter_ok [OF b c(1,2)]) (use cm Call c(1) in \<open>auto simp: calm_def sleepy_def split: syscall.splits\<close>)
    from perform_ok [OF this c(4,3)] show ?thesis unfolding machine_inv_def .
  qed
qed

inductive calm_run :: "bins \<Rightarrow> machine \<Rightarrow> machine \<Rightarrow> bool" for bins m0 where
  calm_start: "calm_run bins m0 m0"
| calm_step: "calm_run bins m0 m \<Longrightarrow> enabled m ev \<Longrightarrow> calm m ev \<Longrightarrow> mstep bins ev m = Inr m' \<Longrightarrow> calm_run bins m0 m'"

lemma calm_run_inv: "calm_run bins m0 m \<Longrightarrow> machine_inv m0 \<Longrightarrow> machine_inv m"
  by (induction rule: calm_run.induct) (blast intro: mstep_machine_inv)+

lemma calm_run_reachable: "calm_run bins m0 m \<Longrightarrow> reachable bins m0 m"
  by (induction rule: calm_run.induct) (blast intro: reachable.intros)+

subsection \<open>No panic\<close>

text \<open>
  Events of process management, which cannot fail whatever their arguments: all system calls up to
  their first \<open>sched_schedule\<close> but \<open>execve\<close>, \<open>fork\<close> if the caller and the slot it gets have page tables,
  and the rest of the calls that do not go into files and programs.
\<close>

definition harmless :: "machine \<Rightarrow> event \<Rightarrow> bool" where
  "harmless m ev \<longleftrightarrow> (\<forall>p. event_cuts ev p = []) \<and>
     (case ev of
        Call (SysExecve _ _ _) _ \<Rightarrow> False
      | Call SysFork _ \<Rightarrow> (\<forall>c \<in> set_option (k_current (m_kernel m)) \<union> set (take 1 (free_slots (m_kernel m))). process_mapped c)
      | Call _ _ \<Rightarrow> True
      | Run _ _ \<Rightarrow> (case k_current (m_kernel m) of None \<Rightarrow> False | Some c \<Rightarrow> (case m_cont m c of
          Yielded (SysRead _ _ _) \<Rightarrow> True | Yielded (SysClose _) \<Rightarrow> True | Yielded SysGetpid \<Rightarrow> True
        | Yielded SysSchedYield \<Rightarrow> True | Yielded (SysBrk _) \<Rightarrow> True | Yielded (SysClockGettime _ _) \<Rightarrow> True
        | Waiting _ _ _ (ThenReap _) \<Rightarrow> True | _ \<Rightarrow> False))
      | Key sc \<Rightarrow> (case keyboard_interrupt_handler sc (k_kbd (m_kernel m)) of
          None \<Rightarrow> False | Some (_, None) \<Rightarrow> True
        | Some (_, Some e) \<Rightarrow> switch_of e = None \<and> (\<forall>i \<in> set_option (k_active (m_kernel m)). i < TTY_COUNT)))"

lemma schedule_total: "state_ok k ct xs qs ch \<Longrightarrow> \<exists>k'. sched_schedule k = Inr k'"
  using sched_schedule_inv [OF kinvD(4,6)] state_okD(1) by blast

lemma leave_cpu_total:
  assumes "state_ok k ct xs qs ch" shows "\<exists>m'. leave_cpu uncut c cn k m = Inr m'"
  using schedule_total [OF assms] by (auto simp: leave_cpu_def sched_schedule_uncut)

lemma perform_total:
  assumes "action_ok (m_cont m) c a" shows "\<exists>m'. perform uncut c a m = Inr m'"
proof (cases a)
  case (Yield cn k)
  then obtain xs qs ch where "state_ok k ((m_cont m)(c := cn)) xs qs ch" using assms by (auto simp: between_ok_def)
  from leave_cpu_total [OF this] show ?thesis using Yield by (simp add: perform_def)
next
  case (Sleep q cd md af k)
  then obtain xs qs ch where s: "state_ok k (m_cont m) xs qs ch" "running k" "k_current k = Some c"
    "cont_ok k ch c (Waiting q cd md af)" "\<not> cond_true cd ch k" using assms by auto
  have md: "md = WAIT_INTERRUPTIBLE" using s(4) by simp
  from leave_cpu_total [OF sleep_state_ok [OF s(1-3) s(4) [unfolded md] s(5)]] show ?thesis
    using Sleep sleep_put_to_sleep [OF gentle_uncut] by (simp add: perform_def md)
qed (simp_all add: perform_def)

text \<open>A key that does not switch terminals.\<close>

lemma key_total:
  assumes b: "between_ok ct k" and h: "keyboard_interrupt_handler sc (k_kbd k) = Some (kb, ev)" "\<forall>e. ev = Some e \<longrightarrow> switch_of e = None"
    "\<forall>e. ev = Some e \<longrightarrow> (\<forall>i \<in> set_option (k_active k). i < TTY_COUNT)"
  shows "\<exists>k'. keyboard_irq sc k = Inr k'"
proof (cases ev)
  case (Some e)
  let ?k = "k\<lparr>k_kbd := kb\<rparr>"
  obtain xs qs ch where s: "state_ok k ct xs qs ch" "running k" using b unfolding between_ok_def by blast
  note K = kinvD [OF state_okD(1) [OF s(1)]]
  have S: "sched_inv ?k xs qs" "running ?k" using sched_inv_cong' [OF K(4), of ?k] s(2) by (simp_all add: running_def)
  show ?thesis
  proof (cases "k_active k")
    case None
    then show ?thesis using h Some by (auto simp: keyboard_irq_def handler_puts)
  next
    case (Some i)
    have "tty_ok (k_ttys ?k i)" using parts_okD(3) [OF K(2)] h(3) \<open>ev = Some e\<close> Some by (simp add: ttys_ok_def)
    then show ?thesis using h \<open>ev = Some e\<close> put_all_ok [OF S, of i "key_bytes e"] Some by (auto simp: keyboard_irq_def handler_puts)
  qed
qed (use h in \<open>simp add: keyboard_irq_def\<close>)

lemma sched_exit_total:
  assumes b: "between_ok ct k" and c: "k_current k = Some c" "k_swapper k \<noteq> Some c" shows "\<exists>k'. sched_exit status k = Inr k'"
proof -
  obtain xs qs ch where s: "state_ok k ct xs qs ch" "running k" using b unfolding between_ok_def by blast
  obtain k1 where k1: "exit_current status k = Inr k1" using exit_kinv [OF state_okD(1) [OF s(1)] s(2) c, of status] by blast
  obtain xs' qs' where "state_ok k1 (ct(c := Gone)) xs' qs' ch" using exit_state_ok [OF s c k1] by blast
  from schedule_total [OF this] k1 show ?thesis by (simp add: sched_exit_def)
qed

lemma wait_check_total:
  assumes s: "state_ok k ct xs qs ch" "running k" "k_current k = Some c" and w: "wait_ok ch c q cd (ThenReap child)"
  shows "\<exists>a. wait_check q cd WAIT_INTERRUPTIBLE (ThenReap child) c k = Inr a"
proof -
  have c64: "c < 64" using not_waiting(3) [OF kinvD(4) [OF state_okD(1) [OF s(1)]] s(2,3)] by simp
  note h = holds_eq [OF state_okD(1) [OF s(1)] w c64]
  show ?thesis
  proof (cases "cond_true cd ch k")
    case False
    then show ?thesis using h by (simp add: wait_check_def Let_def)
  next
    case True
    obtain z where z: "sched_waitpid_resume c child k = Inr (WaitReap z)" "z \<in> set (ch c)" "t_state (k_tasks k z) = TASK_ZOMBIE"
      by (rule resume_finds [OF s w True])
    moreover obtain k' where "reap c z k = Inr (t_pid (the_task z k), t_exit_status (the_task z k), k')"
      using reap_state_ok [OF s z(2,3)] by blast
    ultimately show ?thesis using h True by (simp add: wait_check_def wait_done_def)
  qed
qed

lemma wait_resume_total:
  assumes b: "between_ok ct k" "k_current k = Some c" and cn: "ct c = Waiting q cd md (ThenReap child)"
  shows "\<exists>a. wait_resume q cd md (ThenReap child) c k = Inr a"
proof -
  obtain xs qs ch where s: "state_ok k ct xs qs ch" "running k" using b(1) unfolding between_ok_def by blast
  note N = not_waiting [OF kinvD(4) [OF state_okD(1) [OF s(1)]] s(2) b(2)]
  have "t_state (k_tasks k c) = TASK_RUNNING" using s(2) b(2) by (simp add: running_def)
  then have w: "cont_ok k ch c (Waiting q cd md (ThenReap child))" using state_okD(2) [OF s(1) N(3)] alive_states(3) cn by metis
  have k1: "k\<lparr>k_wh := wait_queue_remove c (k_wh k)\<rparr> = k" using wait_queue_remove_none [OF N(4)] by simp
  have "\<exists>k'. sched_exit (-1) k = Inr k'" by (rule sched_exit_total [OF b]) (use w in simp)
  moreover have "\<exists>a. wait_check q cd md (ThenReap child) c k = Inr a"
    using wait_check_total [OF s b(2), of q cd child] w by simp
  ultimately show ?thesis using k1 by (auto simp: wait_resume_def Let_def)
qed

lemma do_waitpid_total:
  assumes b: "between_ok ct k" "k_current k = Some c" "k_swapper k \<noteq> Some c" shows "\<exists>a. do_waitpid c pid options k = Inr a"
proof -
  obtain xs qs ch where s: "state_ok k ct xs qs ch" "running k" using b(1) unfolding between_ok_def by blast
  have c64: "c < 64" using not_waiting(3) [OF kinvD(4) [OF state_okD(1) [OF s(1)]] s(2) b(2)] by simp
  let ?w = "waitpid_spec pid options c (ch c) (k_tasks k)"
  have w: "sched_waitpid_begin pid options k = Inr ?w" by (rule waitpid_begin_ok [OF kinvD(1) [OF state_okD(1) [OF s(1)]] b(2) c64])
  show ?thesis
  proof (cases ?w)
    case (WaitReap z)
    have "\<exists>k'. reap c z k = Inr (t_pid (the_task z k), t_exit_status (the_task z k), k')"
      using reap_state_ok [OF s b(2)] waitpid_spec_cases(1) [OF WaitReap] by blast
    then show ?thesis using w WaitReap by (auto simp: do_waitpid_def)
  next
    case (WaitSleep q cd child)
    let ?k = "k\<lparr>k_wh := wait_queue_entry_init c (Some c) (k_wh k)\<rparr>"
    note S = init_state_ok [OF s b(2)]
    obtain a where "wait_check q cd WAIT_INTERRUPTIBLE (ThenReap child) c ?k = Inr a"
      using wait_check_total [OF S, where q = q and cd = cd and child = child] waitpid_spec_cases(2) [where ch = ch, OF WaitSleep] b(2) by auto
    then show ?thesis using w WaitSleep by (simp add: do_waitpid_def wait_start_def)
  qed (use w in \<open>simp add: do_waitpid_def\<close>)
qed

lemma sched_kill_total:
  assumes "\<And>t. sched_find_by_pid pid k = Some t \<Longrightarrow> t_state (the_task t k) \<noteq> TASK_INTERRUPTIBLE"
  shows "\<exists>r k'. sched_kill pid sig k = Inr (r, k')"
  using assms by (auto simp: sched_kill_def sched_find_by_pid_def updt_def the_task_def upd_apply Let_def split: option.splits)

lemma fork_total:
  assumes b: "between_ok ct k" "k_current k = Some c" and m: "process_mapped c" "\<And>f. f \<in> set (take 1 (free_slots k)) \<Longrightarrow> process_mapped f"
  shows "\<exists>a. do_fork k = Inr a"
proof -
  obtain xs qs ch where s: "state_ok k ct xs qs ch" "running k" using b(1) unfolding between_ok_def by blast
  show ?thesis
  proof (cases "free_slots k")
    case Nil
    then show ?thesis using fork_none [OF Nil b(2)] by (simp add: do_fork_def)
  next
    case (Cons f fs)
    then have "process_mapped f" using m(2) by simp
    from fork_ok [OF kinvD(1) [OF state_okD(1) [OF s(1)]] s(2) b(2) Cons m(1) this] show ?thesis by (auto simp: do_fork_def)
  qed
qed

lemma enter_total:
  assumes b: "between_ok ct k" "k_current k = Some c"
    and sw: "k_swapper k = Some c \<Longrightarrow> \<not> sleepy call"
    and kl: "\<And>pid sig t. call = SysKill pid sig \<Longrightarrow> sched_find_by_pid pid k = Some t \<Longrightarrow> t_state (the_task t k) \<noteq> TASK_INTERRUPTIBLE"
    and ex: "\<And>path argv envp. call \<noteq> SysExecve path argv envp"
    and fk: "call = SysFork \<Longrightarrow> process_mapped c \<and> (\<forall>f \<in> set (take 1 (free_slots k)). process_mapped f)"
  shows "\<exists>a. sys_enter_dispatch_c bins call k = Inr a"
proof -
  let ?k = "updt c (\<lambda>x. x\<lparr>t_sys_call_cnt := t_sys_call_cnt x + 1\<rparr>) k"
  have s: "keeps k ?k" by (rule keeps_task [OF between_parts [OF b(1)]]) (simp_all add: task_keeps_def)
  note B = between_keeps [OF b(1) s]
  have c: "k_current ?k = Some c" "k_swapper ?k = k_swapper k" using keepsD(2,3) [OF s] b(2) by simp_all
  have e: "sys_enter_dispatch_c bins call k = (if schedules_first call then Inr (Yield (Yielded call) ?k)
             else case call of
               SysFork \<Rightarrow> do_fork ?k
             | SysExecve path argv envp \<Rightarrow> do_execve bins c path argv envp ?k
             | SysExit status \<Rightarrow> bindR (sched_exit status ?k) (\<lambda>k2. Inr (Leave Gone k2))
             | SysKill pid sig \<Rightarrow> bindR (sched_kill pid sig ?k) (\<lambda>(r, k2). Inr (back_int r k2))
             | SysWaitpid pid options \<Rightarrow> do_waitpid c pid options ?k
             | SysNice \<Rightarrow> Inr (back_int 0 ?k)
             | SysSetctty i \<Rightarrow> Inr (do_setctty c i ?k)
             | _ \<Rightarrow> Inr (back_int (- ENOSYS) ?k))"
    using b(2) by (simp add: sys_enter_dispatch_c_def sched_current_def Let_def)
  show ?thesis
  proof (cases call)
    case SysFork
    have "free_slots ?k = free_slots k" using kinvD(9) b(1) tt_inv_cong(2)
      by (simp add: updt_def tt_free_def)
    then show ?thesis using e fork_total [OF B c(1)] fk SysFork by (simp add: schedules_first_def)
  next
    case (SysExit status)
    then have "k_swapper ?k \<noteq> Some c" using sw c(2) by (auto simp: sleepy_def)
    from sched_exit_total [OF B c(1) this, of status] obtain k2 where "sched_exit status ?k = Inr k2" by blast
    then show ?thesis using e SysExit by (simp add: schedules_first_def)
  next
    case (SysKill pid sig)
    have "t_state (the_task t ?k) \<noteq> TASK_INTERRUPTIBLE" if "sched_find_by_pid pid ?k = Some t" for t
    proof -
      have "sched_find_by_pid pid k = Some t"
        using that find_pid_cong [of "k_tasks ?k" "k_tasks k" pid] task_keepsD(1) [OF keepsD(6) [OF s]] by (simp add: sched_find_by_pid_def)
      then show ?thesis using kl [OF SysKill] task_keepsD(6) [OF keepsD(6) [OF s], of t] by (simp add: the_task_def)
    qed
    then obtain r k2 where "sched_kill pid sig ?k = Inr (r, k2)" using sched_kill_total [of pid ?k sig] by blast
    then show ?thesis using e SysKill by (simp add: schedules_first_def)
  next
    case (SysWaitpid pid options)
    then have "k_swapper ?k \<noteq> Some c" using sw c(2) by (auto simp: sleepy_def)
    from do_waitpid_total [OF B c(1) this] obtain a where "do_waitpid c pid options ?k = Inr a" by blast
    then show ?thesis using e SysWaitpid by (simp add: schedules_first_def)
  qed (use e ex in \<open>simp_all add: schedules_first_def\<close>)
qed

lemma resume_total:
  assumes b: "between_ok ct k" "k_current k = Some c"
    and h: "case ct c of Yielded (SysRead _ _ _) \<Rightarrow> True | Yielded (SysClose _) \<Rightarrow> True | Yielded SysGetpid \<Rightarrow> True
        | Yielded SysSchedYield \<Rightarrow> True | Yielded (SysBrk _) \<Rightarrow> True | Yielded (SysClockGettime _ _) \<Rightarrow> True
        | Waiting _ _ _ (ThenReap _) \<Rightarrow> True | _ \<Rightarrow> False"
  shows "\<exists>a. resume bins clk now c (ct c) k = Inr a"
proof (cases "ct c")
  case (Waiting q cd md af)
  then obtain child where "af = ThenReap child" using h by (auto split: after.splits)
  then show ?thesis using wait_resume_total [OF b] Waiting by (simp add: resume_def)
next
  case (Yielded call)
  obtain xs qs ch where s: "state_ok k ct xs qs ch" "running k" using b(1) unfolding between_ok_def by blast
  have c64: "c < 64" using running_in_use(1) [OF kinvD(1) [OF state_okD(1) [OF s(1)]] s(2) b(2)] by simp
  have cl: "\<exists>r k'. vfs_close (Some c) fd k = Inr (r, k')" for fd
  proof (cases "fd < 0 \<or> files_find_by_fd (t_files (the_task c k)) fd = None")
    case False
    then obtain f where "files_find_by_fd (t_files (the_task c k)) fd = Some f" "0 \<le> fd" by auto
    then have d: "nat fd < RLIMIT_NOFILE" "slot k c (nat fd) = Some f" "int (nat fd) = fd"
      by (auto simp: files_find_by_fd_def slot_def split: if_splits)
    show ?thesis using vfs_close_ok [OF parts_okD(1) [OF between_parts [OF b(1)]] c64 d(1,2)] unfolding d(3) by blast
  qed (auto simp: vfs_close_none)
  show ?thesis
  proof (cases call)
    case (SysClose fd)
    then show ?thesis using cl [of fd] Yielded by (auto simp: resume_def sys_continue_def)
  next
    case (SysGetpid)
    then show ?thesis using Yielded b(2) by (simp add: resume_def sys_continue_def sched_getpid_def)
  next
    case (SysBrk addr)
    then show ?thesis using Yielded by (cases "mm_brk addr k") (simp add: resume_def sys_continue_def)
  next
    case (SysClockGettime i tp)
    then show ?thesis using Yielded by (cases "kclock_gettime i tp now clk") (simp add: resume_def sys_continue_def)
  qed (use h Yielded in \<open>simp_all add: resume_def sys_continue_def\<close>)
qed (use h in simp_all)

lemma mstep_total:
  assumes inv: "machine_inv m" and cm: "calm m ev" and en: "enabled m ev" and h: "harmless m ev"
  shows "\<exists>m'. mstep bins ev m = Inr m'"
proof -
  note b = inv [unfolded machine_inv_def]
  have un: "event_cuts ev = uncut" using h by (auto simp: harmless_def)
  show ?thesis
  proof (cases ev)
    case (Key sc)
    obtain kb e where e: "keyboard_interrupt_handler sc (k_kbd (m_kernel m)) = Some (kb, e)" using handler_total by blast
    have "\<exists>k'. keyboard_irq sc (m_kernel m) = Inr k'"
      by (rule key_total [OF b e]) (use h Key e in \<open>auto simp: harmless_def\<close>)
    then show ?thesis using Key by (auto simp: mstep_def)
  next
    case (Run now cu)
    then obtain c where c: "k_current (m_kernel m) = Some c" using h by (auto simp: harmless_def split: option.splits)
    obtain a where a: "resume bins (m_clock m) now c (m_cont m c) (m_kernel m) = Inr a"
      using resume_total [OF b c, where bins = bins and clk = "m_clock m" and now = now] h Run c by (auto simp: harmless_def)
    from perform_total [OF resume_ok [OF b c a]] a show ?thesis using c Run un by (simp add: mstep_def deref_def event_cuts_def)
  next
    case (Call call cu)
    obtain c where c: "k_current (m_kernel m) = Some c" using en Call by (auto simp: enabled_def split: option.splits)
    have sw: "k_swapper (m_kernel m) = Some c \<Longrightarrow> \<not> sleepy call" using cm Call c by (auto simp: calm_def sleepy_def split: syscall.splits)
    have "\<exists>a. sys_enter_dispatch_c bins call (m_kernel m) = Inr a"
      by (rule enter_total [OF b c sw]) (use cm h Call c in \<open>auto simp: calm_def harmless_def sleepy_def split: syscall.splits\<close>)
    then obtain a where a: "sys_enter_dispatch_c bins call (m_kernel m) = Inr a" by blast
    have "action_ok (m_cont m) c a"
      by (rule sys_enter_ok [OF b c a sw]) (use cm Call in \<open>auto simp: calm_def\<close>)
    from perform_total [OF this] show ?thesis using a c Call un by (simp add: mstep_def deref_def event_cuts_def)
  qed
qed

subsection \<open>Properties\<close>

text \<open>
  The kernel \<open>demo\<close> of theory Family as a machine: the swapper at rest, a program that runs, and its
  child, which has ended. In \<open>demo_reader\<close> the program has just been woken inside a read of terminal 0.
\<close>

definition demo_reader_kernel :: kernel where
  "demo_reader_kernel = demo\<lparr>k_wh := wait_queue_entry_init 1 (Some 1) (k_wh demo)\<rparr>"

definition demo_cont :: "nat \<Rightarrow> cont" where
  "demo_cont t = (if t \<le> 1 then User 0 OutNone else Gone)"

definition demo_waits :: cont where
  "demo_waits = Waiting (TtyQ 0) (InputOf 0) WAIT_INTERRUPTIBLE (ThenTake 0 [NUL] 1)"

definition demo_machine :: machine where
  "demo_machine = \<lparr> m_kernel = demo, m_cont = demo_cont, m_clock = \<lparr> boot_epoch_sec = 0, boot_tsc = 0, tsc_hz = 1 \<rparr> \<rparr>"

definition demo_reader :: machine where
  "demo_reader = \<lparr> m_kernel = demo_reader_kernel, m_cont = demo_cont(1 := demo_waits), m_clock = \<lparr> boot_epoch_sec = 0, boot_tsc = 0, tsc_hz = 1 \<rparr> \<rparr>"

lemma demo_kinv: "kinv demo [] (\<lambda>_. []) ((\<lambda>_. [])(1 := [2]))"
proof -
  have t: "t_state (k_tasks demo i) = (if i = 0 then TASK_QUEUED else if i = 1 then TASK_RUNNING else if i = 2 then TASK_ZOMBIE else TASK_POOLED)"
    "t_parent (k_tasks demo i) = (if i = 0 \<or> i = 1 then Some 0 else if i = 2 then Some 1 else None)" for i
    by (simp_all add: demo_def demo_task_def zero_task_def)
  have "con_ok (k_con demo)" by (simp add: demo_def con_ok_def blank_console_def)
  moreover have "ttys_ok demo" by (simp add: ttys_ok_def demo_def tty_ok_def zero_tty_def)
  moreover have "slots_ok demo"
    unfolding slots_ok_def demo_free t by (auto simp: alive_def sleeping_def t simp del: upt_rec_numeral)
  ultimately show ?thesis using demo_inv demo_files by (simp add: kinv_def parts_ok_def)
qed

lemma demo_state: "state_ok demo demo_cont [] (\<lambda>_. []) ((\<lambda>_. [])(1 := [2]))"
proof -
  have "cont_ok demo ch t (demo_cont t)" if "alive (k_tasks demo t)" for ch t
    using that by (auto simp: demo_cont_def demo_def demo_task_def alive_def sleeping_def split: if_splits)
  then show ?thesis using demo_kinv by (simp add: state_ok_def)
qed

lemma demo_machine_inv: "machine_inv demo_machine"
  using demo_state demo_running by (auto simp: machine_inv_def between_ok_def demo_machine_def)

lemma demo_reader_inv: "machine_inv demo_reader"
proof -
  note s = init_state_ok [OF demo_state demo_running, folded demo_reader_kernel_def]
  have r: "running demo_reader_kernel" "k_current demo_reader_kernel = Some 1" "k_swapper demo_reader_kernel = Some 0"
    "e_task (wh_entries (k_wh demo_reader_kernel) 1) = Some 1"
    using demo_running by (simp_all add: demo_reader_kernel_def running_def wait_queue_entry_init_def demo_def)
  have "state_ok demo_reader_kernel (demo_cont(1 := demo_waits)) [] (\<lambda>_. []) ((\<lambda>_. [])(1 := [2]))"
    by (rule state_ok_cont [OF s(1)]) (use r in \<open>simp_all add: waiting_def demo_waits_def wait_ok_def\<close>)
  then show ?thesis using r(1) by (auto simp: machine_inv_def between_ok_def demo_reader_def)
qed

text \<open>It finds no input and goes back to sleep.\<close>

lemma demo_reader_sleeps:
  obtains m where "mstep bins (Run 0 uncut) demo_reader = Inr m" "e_queue (wh_entries (k_wh (m_kernel m)) 1) = Some (TtyQ 0)"
proof -
  let ?k = "demo_reader_kernel"
  have f: "k_current ?k = Some 1" "t_pending (the_task 1 ?k) = 0" "tty_input_available 0 ?k = False" "k_swapper ?k = Some 0"
    "e_queue (wh_entries (k_wh ?k) 1) = None" "t_state (k_tasks ?k 1) = TASK_RUNNING"
    by (simp_all add: demo_reader_kernel_def demo_def the_task_def demo_task_def zero_task_def tty_input_available_def
        wait_queue_entry_init_def zero_tty_def)
  let ?s = "put_to_sleep (TtyQ 0) 1 TASK_INTERRUPTIBLE ?k"
  have "holds (InputOf 0) ?k = Inr False" using f(3) by (simp add: holds_def)
  then have r: "resume bins (m_clock demo_reader) 0 1 demo_waits ?k
      = Inr (Sleep (TtyQ 0) (InputOf 0) WAIT_INTERRUPTIBLE (ThenTake 0 [NUL] 1) ?k)"
    using f wait_queue_remove_none [OF f(5)]
    by (simp add: resume_def demo_waits_def wait_resume_def wait_check_def Let_def)
  have "between_ok (m_cont demo_reader) ?k" using demo_reader_inv by (simp add: machine_inv_def demo_reader_def)
  moreover have c: "m_cont demo_reader 1 = demo_waits" "m_kernel demo_reader = ?k" by (simp_all add: demo_reader_def)
  ultimately have "action_ok (m_cont demo_reader) 1 (Sleep (TtyQ 0) (InputOf 0) WAIT_INTERRUPTIBLE (ThenTake 0 [NUL] 1) ?k)"
    using resume_ok [OF _ f(1)] r by metis
  then obtain xs qs ch where a: "state_ok ?k (m_cont demo_reader) xs qs ch" "running ?k"
    "cont_ok ?k ch 1 demo_waits" "\<not> cond_true (InputOf 0) ch ?k" unfolding action_ok_simps demo_waits_def by blast
  note s = sleep_state_ok [OF a(1,2) f(1) a(3) [unfolded demo_waits_def] a(4)]
  obtain k' where k': "sched_schedule ?s = Inr k'" using schedule_total [OF s] by blast
  then have "k_wh k' = k_wh ?s" using schedule_kinv(3) [OF state_okD(1) [OF s] k'] by (simp add: same_heaps_def)
  moreover have "e_queue (wh_entries (k_wh ?s) 1) = Some (TtyQ 0)"
    using f(5) by (auto simp: put_to_sleep_def wait_queue_add_def Let_def split: option.splits)
  ultimately have "e_queue (wh_entries (k_wh k') 1) = Some (TtyQ 0)" by simp
  moreover have "mstep bins (Run 0 uncut) demo_reader = Inr (demo_reader\<lparr>m_kernel := k', m_cont := (m_cont demo_reader)(1 := demo_waits)\<rparr>)"
    using r c f(1) k' sleep_put_to_sleep [OF gentle_uncut]
    by (simp add: mstep_def deref_def perform_def leave_cpu_def sched_schedule_uncut demo_waits_def)
  ultimately show ?thesis using that by simp
qed

lemma no_lost_wakeup:
  assumes inv: "machine_inv m" and q: "e_queue (wh_entries (k_wh (m_kernel m)) t) = Some q"
  shows "\<exists>cd af. m_cont m t = Waiting q cd WAIT_INTERRUPTIBLE af \<and> holds cd (m_kernel m) = Inr False"
proof -
  obtain xs qs ch where s: "state_ok (m_kernel m) (m_cont m) xs qs ch" using inv unfolding machine_inv_def between_ok_def by blast
  have "t \<in> set (qs q)" using wh_invD(3) [OF sched_invD(2) [OF kinvD(4) [OF state_okD(1) [OF s]]]] q by blast
  then obtain cd af where c: "m_cont m t = Waiting q cd WAIT_INTERRUPTIBLE af" "\<not> cond_true cd ch (m_kernel m)"
    "wait_ok ch t q cd af" "t < 64"
    by (rule asleep_cont [OF s])
  then show ?thesis using holds_eq [OF state_okD(1) [OF s] c(3,4)] by auto
qed

lemma has_code:
  assumes "machine_inv m"
  shows "\<exists>c. k_current (m_kernel m) = Some c \<and> t_state (the_task c (m_kernel m)) = TASK_RUNNING \<and> m_cont m c \<noteq> Gone"
proof -
  obtain xs qs ch where s: "state_ok (m_kernel m) (m_cont m) xs qs ch" "running (m_kernel m)"
    using assms unfolding machine_inv_def between_ok_def by blast
  obtain c where c: "k_current (m_kernel m) = Some c" "t_state (k_tasks (m_kernel m) c) = TASK_RUNNING" using s(2) unfolding running_def by blast
  have "cont_ok (m_kernel m) ch c (m_cont m c)"
    using state_okD(2) [OF s(1) not_waiting(3) [OF kinvD(4) [OF state_okD(1) [OF s(1)]] s(2) c(1)] alive_states(3) [OF c(2)]] .
  then show ?thesis using c by (auto simp: the_task_def)
qed

lemma demo_reader_run: "mstep bins (Run 0 uncut) demo_reader = Inr m \<Longrightarrow> calm_run bins demo_reader m"
  by (rule calm_step [OF calm_start])
    (simp_all add: demo_reader_def enabled_def in_user_def demo_waits_def calm_def event_cuts_def demo_reader_kernel_def demo_def)







end
