(* ===== verification/Races.thy ===== *)
theory Races
  imports Machine
begin

section \<open>What interrupts inside the scheduling code can break\<close>

text \<open>
  The two places where theory Machine has to exclude a keyboard interrupt because the code is wrong there, each
  as a theorem about the code of theories Preempt and Syscall: the gap in \<open>wait_event\<close> (kernel/core/wait.c) between the test of the
  condition and the insertion in the wait queue, where a wakeup is lost, and the gap in \<open>run_queue_push\<close>
  (kernel/core/sched.c) between the test of the length and the link, where a woken task is lost and the
  length of the queue no longer counts its tasks.
\<close>

subsection \<open>wait_event\<close>

lemma typed_input:
  assumes "typed i cs xs qs k k'" "cs \<noteq> []" shows "tty_input_available i k'"
proof -
  obtain wh rq ts y where k': "k' = k\<lparr>k_wh := wh, k_rq := rq, k_tasks := ts, k_ttys := (k_ttys k)(i := y)\<rparr>"
    "tty_in y = take 256 (tty_in (k_ttys k i) @ cs)"
    using assms(1) unfolding typed_def by blast
  then have "tty_in y \<noteq> []" using assms(2) by simp
  then show ?thesis unfolding k'(1) by (auto simp: tty_input_available_def tty_in_def ring_list_def ring_count_def unat_eq_0)
qed

lemma sleep_interrupted: "sleep_at (uncut(AfterTest := scs)) q c md k = bindR (irqs scs k) (sleep_at uncut q c md)"
proof -
  have "wait_queue_add_at (uncut(AfterTest := scs)) = wait_queue_add_at uncut"
    by (intro ext) (simp only: wait_queue_add_at_def fun_upd_apply point.distinct if_False)
  moreover have "sleep_at uncut q c md = (\<lambda>k. wait_queue_add_at uncut q c
      (updt c (\<lambda>x. x\<lparr>t_state := (if md = WAIT_INTERRUPTIBLE then TASK_INTERRUPTIBLE else TASK_UNINTERRUPTIBLE)\<rparr>) k))"
    by (intro ext) (simp only: sleep_at_def irqs.simps bindR_simps)
  ultimately show ?thesis by (simp only: sleep_at_def fun_upd_apply point.distinct if_False if_True irqs.simps bindR_simps refl)
qed

lemma schedule_cut_before: "sched_schedule_at (uncut(AfterTest := scs)) k = sched_schedule k"
proof -
  have "run_queue_poll_at (uncut(AfterTest := scs)) = run_queue_poll_at uncut"
    "run_queue_push_at (uncut(AfterTest := scs)) = run_queue_push_at uncut"
    by (intro ext; simp only: run_queue_poll_at_def run_queue_push_at_def fun_upd_apply point.distinct if_False)+
  then show ?thesis unfolding sched_schedule_uncut [symmetric]
    by (simp only: sched_schedule_at_def fun_upd_apply point.distinct if_False)
qed

lemma added_to_queue: "e_queue (wh_entries wh e) = None \<Longrightarrow> e_queue (wh_entries (wait_queue_add q e wh) e) = Some q"
  by (auto simp: wait_queue_add_def Let_def split: option.splits)

text \<open>A task that goes to sleep although there is input: it stays in the queue.\<close>

lemma sleeps_anyway:
  assumes b: "between_ok ct k" "k_current k = Some c" and cn: "ct c = Waiting (TtyQ i) (InputOf i) md af" and av: "tty_input_available i k"
  shows "\<exists>k'. sched_schedule (put_to_sleep (TtyQ i) c TASK_INTERRUPTIBLE k) = Inr k'
    \<and> e_queue (wh_entries (k_wh k') c) = Some (TtyQ i) \<and> tty_input_available i k'"
proof -
  obtain xs qs ch where s: "state_ok k ct xs qs ch" "running k" using b(1) unfolding between_ok_def by blast
  note N = not_waiting [OF kinvD(4) [OF state_okD(1) [OF s(1)]] s(2) b(2)]
  have "t_state (k_tasks k c) = TASK_RUNNING" using s(2) b(2) by (simp add: running_def)
  then have w: "cont_ok k ch c (Waiting (TtyQ i) (InputOf i) md af)" using state_okD(2) [OF s(1) N(3)] alive_states(3) cn by metis
  let ?s = "put_to_sleep (TtyQ i) c TASK_INTERRUPTIBLE k"
  have K: "kinv ?s xs (qs(TtyQ i := qs (TtyQ i) @ [c])) ch"
    by (rule kinv_sleep [OF state_okD(1) [OF s(1)] s(2) b(2)]) (use w in simp_all)
  obtain k' where k': "sched_schedule ?s = Inr k'" using sched_schedule_inv [OF kinvD(4,6) [OF K]] by blast
  have h: "k_wh k' = k_wh ?s" "k_ttys k' = k_ttys ?s" using schedule_kinv(3) [OF K k'] by (simp_all add: same_heaps_def)
  have "e_queue (wh_entries (k_wh k') c) = Some (TtyQ i)" using added_to_queue [OF N(4)] h(1) by (simp add: put_to_sleep_def)
  moreover have "tty_input_available i k'" using av h(2) by (simp add: tty_input_available_def put_to_sleep_def updt_def)
  ultimately show ?thesis using k' by blast
qed

lemma key_gives_input:
  assumes b: "between_ok ct k" and act: "k_active k = Some i" "i < TTY_COUNT"
    and h: "keyboard_interrupt_handler sc (k_kbd k) = Some (kb, Some e)" "switch_of e = None" "key_bytes e \<noteq> []"
  obtains k' where "keyboard_irq sc k = Inr k'" "between_ok ct k'" "k_current k' = k_current k" "tty_input_available i k'"
proof -
  let ?k = "k\<lparr>k_kbd := kb\<rparr>"
  obtain xs qs ch where s: "state_ok k ct xs qs ch" "running k" using b unfolding between_ok_def by blast
  note K = kinvD [OF state_okD(1) [OF s(1)]]
  have S: "sched_inv ?k xs qs" "running ?k" using sched_inv_cong' [OF K(4), of ?k] s(2) by (simp_all add: running_def)
  have "tty_ok (k_ttys ?k i)" using parts_okD(3) [OF K(2)] act(2) by (simp add: ttys_ok_def)
  then obtain k' where k': "put_all i (key_bytes e) ?k = Inr k'" "typed i (key_bytes e) xs qs ?k k'" using put_all_ok [OF S] by blast
  then have r: "keyboard_irq sc k = Inr k'" using h act(1) by (simp add: keyboard_irq_def handler_puts)
  show ?thesis
    by (rule that [OF r keyboard_ok [OF b r] _ typed_input [OF k'(2) h(3)]]) (use irqs_between [OF b, of "[sc]" k'] r in simp)
qed
text \<open>
  C40: the lost wakeup of \<open>wait_event\<close>. A task waits in a read of the active terminal, which has no input, and
  no signal is pending. If a key that makes input arrives between the test of the condition (wait.c:141)
  and the insertion in the wait queue (wait.c:144-146), the step succeeds, but its result breaks the invariant: the task is
  in the terminal's wait queue, and the input it waits for is there. It sleeps on until another
  key is typed.
\<close>

theorem wait_event_loses_wakeup:
  assumes "machine_inv m" "k_current (m_kernel m) = Some c"
    "m_cont m c = Waiting (TtyQ i) (InputOf i) WAIT_INTERRUPTIBLE (ThenTake i buf n)"
    "t_pending (the_task c (m_kernel m)) = 0" "\<not> tty_input_available i (m_kernel m)"
    "k_active (m_kernel m) = Some i" "i < TTY_COUNT"
    "keyboard_interrupt_handler sc (k_kbd (m_kernel m)) = Some (kb, Some e)" "switch_of e = None" "key_bytes e \<noteq> []"
  shows "\<exists>m'. mstep bins (Run now (uncut(AfterTest := [sc]))) m = Inr m'
    \<and> e_queue (wh_entries (k_wh (m_kernel m')) c) = Some (TtyQ i) \<and> holds (InputOf i) (m_kernel m') = Inr True
    \<and> \<not> machine_inv m'"
proof -
  let ?k = "m_kernel m" and ?w = "Waiting (TtyQ i) (InputOf i) WAIT_INTERRUPTIBLE (ThenTake i buf n)" and ?cu = "uncut(AfterTest := [sc])"
  note b = assms(1) [unfolded machine_inv_def]
  obtain xs qs ch where s: "state_ok ?k (m_cont m) xs qs ch" "running ?k" using b unfolding between_ok_def by blast
  note N = not_waiting [OF kinvD(4) [OF state_okD(1) [OF s(1)]] s(2) assms(2)]
  have r: "resume bins (m_clock m) now c ?w ?k = Inr (Sleep (TtyQ i) (InputOf i) WAIT_INTERRUPTIBLE (ThenTake i buf n) ?k)"
    using assms(4,5) by (simp add: resume_def wait_resume_def wait_check_def wait_queue_remove_none [OF N(4)] holds_def)
  obtain k1 where k1: "keyboard_irq sc ?k = Inr k1" "between_ok (m_cont m) k1" "k_current k1 = Some c" "tty_input_available i k1"
    using key_gives_input [OF b assms(6-10)] assms(2) by metis
  obtain k2 where k2: "sched_schedule (put_to_sleep (TtyQ i) c TASK_INTERRUPTIBLE k1) = Inr k2"
    "e_queue (wh_entries (k_wh k2) c) = Some (TtyQ i)" "tty_input_available i k2"
    using sleeps_anyway [OF k1(2,3) assms(3) k1(4)] by blast
  have "sleep_at ?cu (TtyQ i) c WAIT_INTERRUPTIBLE ?k = Inr (put_to_sleep (TtyQ i) c TASK_INTERRUPTIBLE k1)"
    using k1(1) by (simp add: sleep_interrupted sleep_put_to_sleep)
  then have st: "mstep bins (Run now ?cu) m = Inr (m\<lparr>m_kernel := k2, m_cont := (m_cont m)(c := ?w)\<rparr>)"
    using assms(2,3) r k2(1) by (simp add: mstep_def deref_def perform_def leave_cpu_def schedule_cut_before)
  let ?m = "m\<lparr>m_kernel := k2, m_cont := (m_cont m)(c := ?w)\<rparr>"
  have h: "holds (InputOf i) (m_kernel ?m) = Inr True" using k2(3) by (simp add: holds_def)
  have "\<not> machine_inv ?m"
  proof
    assume "machine_inv ?m"
    from no_lost_wakeup [OF this, of c "TtyQ i"] show False using k2(2,3) by (auto simp: holds_def)
  qed
  with st h k2(2) show ?thesis by auto
qed

subsection \<open>run_queue_push\<close>

lemma push_on_empty:
  "rq_len rq = 0 \<Longrightarrow> run_queue_push t (rq, ts) = Inr (rq\<lparr>rq_first := Some t, rq_last := Some t, rq_len := 1\<rparr>, upd t (\<lambda>x. x\<lparr>t_next := None\<rparr>) ts)"
  by (simp add: run_queue_push_def)

lemma wakeup_loop_single:
  assumes "e_next (wh_entries wh w) = None" "e_task (wh_entries wh w) = Some w" "sleeping (ts w)" "rq_len rq = 0"
  shows "wakeup_loop (Suc (Suc n)) (Some w) (wh, rq, ts) = Inr (upde w (\<lambda>x. x\<lparr>e_prev := None, e_next := None, e_queue := None\<rparr>) wh,
      rq\<lparr>rq_first := Some w, rq_last := Some w, rq_len := 1\<rparr>, upd w (\<lambda>x. x\<lparr>t_next := None\<rparr>) ts)"
  using assms by (simp add: push_on_empty)

text \<open>The only sleeper of a queue, woken while the run queue is empty.\<close>

lemma wakes_one:
  assumes wh: "wh_inv wh qs" "qs q = [w]" "e_task (wh_entries wh w) = Some w" and ts: "sleeping (ts w)" "rq_len rq = 0"
  obtains wh' where "wakeup q (wh, rq, ts)
      = Inr (wh', rq\<lparr>rq_first := Some w, rq_last := Some w, rq_len := 1\<rparr>, upd w (\<lambda>x. x\<lparr>t_next := None\<rparr>) ts)"
    "e_queue (wh_entries wh' w) = None"
proof -
  have h: "wq_head (wh_queues wh q) = Some w" "e_next (wh_entries wh w) = None"
    using wh_invD(1) [OF wh(1), of q] wh(2) by (simp_all add: wq_rep_def)
  have f: "WAKE_FUEL = Suc (Suc 64)" by (simp add: WAKE_FUEL_def MAX_PROCESS_CNT_def)
  let ?wh = "upde w (\<lambda>x. x\<lparr>e_prev := None, e_next := None, e_queue := None\<rparr>) (updq q (\<lambda>x. x\<lparr>wq_head := None, wq_tail := None\<rparr>) wh)"
  have "wakeup q (wh, rq, ts)
      = Inr (?wh, rq\<lparr>rq_first := Some w, rq_last := Some w, rq_len := 1\<rparr>, upd w (\<lambda>x. x\<lparr>t_next := None\<rparr>) ts)"
    using wakeup_loop_single [of "updq q (\<lambda>x. x\<lparr>wq_head := None, wq_tail := None\<rparr>) wh" w ts rq 64] h wh(3) ts
    unfolding wakeup_def f by (simp del: wakeup_loop.simps)
  then show ?thesis using that [of ?wh] by simp
qed

lemma key_wakes_one:
  assumes wh: "wh_inv (k_wh k) qs" "qs (TtyQ i) = [w]" "e_task (wh_entries (k_wh k) w) = Some w"
    and ts: "sleeping (k_tasks k w)" "rq_len (k_rq k) = 0"
    and y: "tty_ok (k_ttys k i)" "length (tty_in (k_ttys k i)) < 256" "k_active k = Some i"
    and h: "keyboard_interrupt_handler sc (k_kbd k) = Some (kb, Some e)" "ev_value e \<noteq> NUL"
  obtains wh' y' where "keyboard_irq sc k = Inr (k\<lparr>k_kbd := kb, k_ttys := (k_ttys k)(i := y'), k_wh := wh',
      k_rq := (k_rq k)\<lparr>rq_first := Some w, rq_last := Some w, rq_len := 1\<rparr>, k_tasks := upd w (\<lambda>x. x\<lparr>t_next := None\<rparr>) (k_tasks k)\<rparr>)"
    "e_queue (wh_entries wh' w) = None"
proof -
  obtain y' where p: "in_put (ev_value e) (k_ttys k i) = Some y'" using in_put_ok [OF y(1,2)] by blast
  obtain wh' where w: "wakeup (TtyQ i) (k_wh k, k_rq k, k_tasks k)
      = Inr (wh', (k_rq k)\<lparr>rq_first := Some w, rq_last := Some w, rq_len := 1\<rparr>, upd w (\<lambda>x. x\<lparr>t_next := None\<rparr>) (k_tasks k))"
    "e_queue (wh_entries wh' w) = None"
    by (rule wakes_one [OF wh(1), where q = "TtyQ i" and ts = "k_tasks k" and w = w, OF wh(2,3) ts])
  have "\<not> y_in_head (k_ttys k i) - y_in_tail (k_ttys k i) \<ge> 256" using y(2) by (simp add: tty_in_def ring_count_def word_le_nat_alt)
  then have "keyboard_irq sc k = Inr (k\<lparr>k_kbd := kb, k_ttys := (k_ttys k)(i := y'), k_wh := wh',
      k_rq := (k_rq k)\<lparr>rq_first := Some w, rq_last := Some w, rq_len := 1\<rparr>, k_tasks := upd w (\<lambda>x. x\<lparr>t_next := None\<rparr>) (k_tasks k)\<rparr>)"
    using h y(3) p w(1)
    by (simp add: keyboard_irq_def tty_keyboard_handler_def tty_active_def tty_input_put_def wakeup_on_def updtty_def)
  then show ?thesis using that w(2) by blast
qed

lemma poll_interrupted_push: "run_queue_poll_at (uncut(InPush n := scs)) = run_queue_poll_at uncut"
  by (intro ext) (simp only: run_queue_poll_at_def fun_upd_apply point.distinct if_False)

lemma push_interrupted:
  assumes "rq_len (k_rq k) = 0" "irqs scs (updt t (\<lambda>x. x\<lparr>t_next := None\<rparr>) k) = Inr k1"
  shows "run_queue_push_at (uncut(InPush 1 := scs)) t k
    = Inr (k1\<lparr>k_rq := (k_rq k1)\<lparr>rq_first := Some t, rq_last := Some t, rq_len := rq_len (k_rq k1) + 1\<rparr>\<rparr>)"
  using assms by (simp add: run_queue_push_at_def rq_do_def updt_def)

text \<open>The state in which \<open>sched_schedule\<close> puts the current task back into the run queue it has just emptied.\<close>

lemma schedule_up_to_push:
  assumes tick: "sched_tick k = Inr k1" "k_current k1 = Some c" "k_swapper k1 = k_swapper k" and rq: "rq_rep (k_rq k1, k_tasks k1) [n]"
    and c: "t_state (k_tasks k1 c) = TASK_RUNNING" "k_swapper k \<noteq> Some c" "k_swapper k \<noteq> Some n" "n \<noteq> c"
  obtains k2 where "sched_schedule_at (uncut(InPush 1 := scs)) k = bindR (run_queue_push_at (uncut(InPush 1 := scs)) c k2) (switch_to (Some n))"
    "rq_len (k_rq k2) = 0"
    "k2 = k1\<lparr>k_rq := k_rq k2, k_tasks := k_tasks k2\<rparr>"
    "\<And>t. t \<noteq> c \<Longrightarrow> t_state (k_tasks k2 t) = t_state (k_tasks k1 t)"
proof -
  have R: "rq_first (k_rq k1) = Some n" "rq_len (k_rq k1) = 1" "t_next (k_tasks k1 n) = None"
    using rq by (auto simp: rq_rep_def word_unat_eq_iff)
  let ?ts = "upd n (\<lambda>x. x\<lparr>t_next := None\<rparr>) (k_tasks k1)" and ?rq = "(k_rq k1)\<lparr>rq_first := None, rq_last := None, rq_len := 0\<rparr>"
  have p: "run_queue_poll_at uncut k1 = Inr (Some n, k1\<lparr>k_rq := ?rq, k_tasks := ?ts\<rparr>)"
    using R by (simp add: run_queue_poll_uncut run_queue_poll_def)
  let ?k = "k1\<lparr>k_rq := ?rq, k_tasks := upd c (\<lambda>x. x\<lparr>t_ctxt := t_ctxt x + 1, t_state := TASK_QUEUED\<rparr>) ?ts\<rparr>"
  have "sched_schedule_at (uncut(InPush 1 := scs)) k = bindR (run_queue_push_at (uncut(InPush 1 := scs)) c ?k) (switch_to (Some n))"
    using tick c p unfolding sched_schedule_at_def poll_interrupted_push
    by (simp add: updt_def upd_apply sleeping_def Let_def upd_def)
  then show ?thesis by (rule that) (simp_all add: upd_apply)
qed

text \<open>
  The run queue can lose a task. A task runs, one other task waits in the run queue, and one
  task sleeps in \<open>read\<close> on the active terminal. \<open>sched_schedule\<close> takes the other task from the queue and pushes the running
  one; if a character arrives between the test of the length and the link in \<open>run_queue_push\<close>
  (sched.c:31-34), the step succeeds, but the sleeping task has left its wait queue without being in the
  run queue, which holds the task that was running alone while its length says 2: nothing wakes the lost task any more, and the second
  poll after that follows a null pointer.
\<close>

theorem run_queue_push_loses_task:
  assumes inv: "sched_inv k [n] qs" and con: "con_ok (k_con k)"
    and run: "running k" "k_current k = Some c" "k_swapper k \<noteq> Some c"
    and sl: "qs (TtyQ i) = [w]"
    and y: "tty_ok (k_ttys k i)" "length (tty_in (k_ttys k i)) < 256" "k_active k = Some i"
    and h: "keyboard_interrupt_handler sc (k_kbd k) = Some (kb, Some e)" "ev_value e \<noteq> NUL"
  shows "\<exists>k'. sched_schedule_at (uncut(InPush 1 := [sc])) k = Inr k' \<and> k_current k' = Some n
    \<and> sleeping (k_tasks k' w) \<and> e_queue (wh_entries (k_wh k') w) = None
    \<and> chain (\<lambda>t. t_next (k_tasks k' t)) (rq_first (k_rq k')) [c] \<and> rq_len (k_rq k') = 2
    \<and> (\<exists>s. run_queue_poll (k_rq k', k_tasks k') = Inr (Some c, s) \<and> run_queue_poll s = Inl BadAccess)"
proof -
  note D = sched_invD [OF inv] and N = not_waiting [OF inv run(1,2)]
  have st: "t_state (k_tasks k c) = TASK_RUNNING" using run(1,2) by (simp add: running_def)
  have w: "w \<in> waiting qs" using sl by (auto simp: waiting_def intro!: exI [of _ "TtyQ i"])
  have ne: "n \<noteq> c" "w \<noteq> c" "w \<noteq> n" "k_swapper k \<noteq> Some n"
    using N(1,2) w D(3) [OF w] D(5) by (auto simp: swapper_ok_def)
  obtain cd cn where tick: "sched_tick k = Inr (k\<lparr>k_countdown := cd, k_con := cn\<rparr>)" using sched_tick_ok [OF con] by blast
  let ?k1 = "k\<lparr>k_countdown := cd, k_con := cn\<rparr>"
  obtain k2 where k2: "sched_schedule_at (uncut(InPush 1 := [sc])) k = bindR (run_queue_push_at (uncut(InPush 1 := [sc])) c k2) (switch_to (Some n))"
    "rq_len (k_rq k2) = 0" "k2 = ?k1\<lparr>k_rq := k_rq k2, k_tasks := k_tasks k2\<rparr>"
    "\<And>t. t \<noteq> c \<Longrightarrow> t_state (k_tasks k2 t) = t_state (k_tasks ?k1 t)"
    using schedule_up_to_push [OF tick, of c n "[sc]"] run(2,3) st ne D(1) by auto
  let ?k3 = "updt c (\<lambda>x. x\<lparr>t_next := None\<rparr>) k2"
  have f: "k_wh ?k3 = k_wh k" "k_ttys ?k3 = k_ttys k" "k_kbd ?k3 = k_kbd k" "k_active ?k3 = k_active k" "k_rq ?k3 = k_rq k2"
    by (subst k2(3), simp add: updt_def)+
  have sw: "sleeping (k_tasks ?k3 w)" using D(3) [OF w] k2(4) [OF ne(2)] ne(2) by (simp add: updt_def upd_apply sleeping_def)
  obtain wh' y' where irq: "keyboard_irq sc ?k3 = Inr (?k3\<lparr>k_kbd := kb, k_ttys := (k_ttys ?k3)(i := y'), k_wh := wh',
      k_rq := (k_rq ?k3)\<lparr>rq_first := Some w, rq_last := Some w, rq_len := 1\<rparr>, k_tasks := upd w (\<lambda>x. x\<lparr>t_next := None\<rparr>) (k_tasks ?k3)\<rparr>)"
    "e_queue (wh_entries wh' w) = None"
    by (rule key_wakes_one [where k = ?k3 and i = i and w = w and qs = qs and sc = sc and kb = kb and e = e])
      (use D(2) D(3) [OF w] sl sw k2(2) y h in \<open>simp_all only: f simp_thms\<close>)
  let ?k4 = "?k3\<lparr>k_kbd := kb, k_ttys := (k_ttys ?k3)(i := y'), k_wh := wh',
      k_rq := (k_rq ?k3)\<lparr>rq_first := Some w, rq_last := Some w, rq_len := 1\<rparr>, k_tasks := upd w (\<lambda>x. x\<lparr>t_next := None\<rparr>) (k_tasks ?k3)\<rparr>"
  have "irqs [sc] ?k3 = Inr ?k4" using irq(1) by simp
  note p = push_interrupted [OF k2(2) this]
  let ?k5 = "?k4\<lparr>k_rq := (k_rq ?k4)\<lparr>rq_first := Some c, rq_last := Some c, rq_len := rq_len (k_rq ?k4) + 1\<rparr>\<rparr>"
  let ?k' = "(updt n (\<lambda>x. x\<lparr>t_state := TASK_RUNNING\<rparr>) ?k5)\<lparr>k_current := Some n, k_ctxt := k_ctxt ?k5 + 1\<rparr>"
  have r: "sched_schedule_at (uncut(InPush 1 := [sc])) k = Inr ?k'" unfolding k2(1) p by (simp add: switch_to_def)
  have "rq_first (k_rq ?k') = Some c" "rq_len (k_rq ?k') = 2" "t_next (k_tasks ?k' c) = None"
    using ne by (simp_all add: updt_def upd_apply)
  then have "\<exists>s. run_queue_poll (k_rq ?k', k_tasks ?k') = Inr (Some c, s) \<and> run_queue_poll s = Inl BadAccess"
    by (simp add: run_queue_poll_def)
  moreover have "sleeping (k_tasks ?k' w)" using sw ne(3) by (simp add: updt_def upd_apply sleeping_def)
  moreover have "e_queue (wh_entries (k_wh ?k') w) = None" using irq(2) by (simp add: updt_def)
  moreover have "chain (\<lambda>t. t_next (k_tasks ?k' t)) (rq_first (k_rq ?k')) [c]" using ne by (simp add: updt_def upd_apply)
  moreover have "rq_len (k_rq ?k') = 2" "k_current ?k' = Some n" by (simp_all add: updt_def)
  ultimately show ?thesis using r by blast
qed

text \<open>Two tasks, and a third that sleeps in a read of terminal 0, where \<open>a\<close> is typed.\<close>

definition demo_race :: kernel where
  "demo_race = two_ttys\<lparr>
     k_tasks := upd 3 (\<lambda>x. x\<lparr>t_state := TASK_INTERRUPTIBLE\<rparr>) (k_tasks two_ttys),
     k_wh := wait_queue_add (TtyQ 0) 3 (wait_queue_entry_init 3 (Some 3) (k_wh two_ttys))\<rparr>"

lemma demo_race_inv: "sched_inv demo_race [2] ((\<lambda>_. [])(TtyQ 0 := [3]))"
proof -
  have e: "e_queue (wh_entries (k_wh two_ttys) x) = None" for x by (simp add: two_ttys_def two_tasks_def bss_kernel_def)
  have i: "wh_inv (wait_queue_entry_init 3 (Some 3) (k_wh two_ttys)) (\<lambda>_. [])"
    using wait_queue_entry_init_inv [OF sched_invD(2) [OF two_tasks_inv], of 3 "Some 3"] e by (simp add: two_ttys_def)
  have "wh_inv (k_wh demo_race) ((\<lambda>_. [])(TtyQ 0 := [3]))"
    using wait_queue_add_inv [OF i, of 3 "TtyQ 0"] e by (simp add: demo_race_def wait_queue_entry_init_def)
  moreover have "e_task (wh_entries (k_wh demo_race) 3) = Some 3" by (simp add: demo_race_def wait_queue_entry_init_def)
  moreover have "rq_rep (k_rq demo_race, k_tasks demo_race) [2]"
    by (simp add: demo_race_def two_ttys_def two_tasks_def rq_rep_def zero_task_def upd_apply)
  ultimately show ?thesis
    by (simp add: sched_inv_def waiting_def placed_def swapper_ok_def current_ok_def sleeping_def)
      (simp add: demo_race_def two_ttys_def two_tasks_def upd_apply zero_task_def)
qed

lemma key_a: "keyboard_interrupt_handler 0x1E (k_kbd bss_kernel) = Some (k_kbd bss_kernel, Some (emit_key (CHR ''a'') KEY_NONE (k_kbd bss_kernel)))"
  by (simp add: keyboard_interrupt_handler_def plain_key_def fkeys_def Let_def bss_kernel_def SCANCODE_LOWER_def rd_def)

theorem run_queue_push_loses_task_witness:
  "\<exists>k'. sched_schedule_at (uncut(InPush 1 := [0x1E])) demo_race = Inr k' \<and> k_current k' = Some 2
    \<and> sleeping (k_tasks k' 3) \<and> e_queue (wh_entries (k_wh k') 3) = None
    \<and> chain (\<lambda>t. t_next (k_tasks k' t)) (rq_first (k_rq k')) [1] \<and> rq_len (k_rq k') = 2
    \<and> (\<exists>s. run_queue_poll (k_rq k', k_tasks k') = Inr (Some 1, s) \<and> run_queue_poll s = Inl BadAccess)"
proof -
  have d: "k_con demo_race = blank_console" "k_current demo_race = Some 1" "k_swapper demo_race = Some 0" "k_kbd demo_race = k_kbd bss_kernel"
    "t_state (k_tasks demo_race 1) = TASK_RUNNING" "k_active demo_race = Some 0" "k_ttys demo_race 0 = zero_tty\<lparr>y_console := True\<rparr>"
    by (simp_all add: demo_race_def two_ttys_def two_tasks_def upd_apply)
  have c: "con_ok (k_con demo_race)" by (simp add: d(1) blank_console_def con_ok_def)
  have y: "tty_ok (k_ttys demo_race 0)" "length (tty_in (k_ttys demo_race 0)) < 256"
    using blank_tty by (simp_all add: d(7) tty_ok_def tty_in_def)
  have r: "running demo_race" using d(2,5) by (simp add: running_def)
  show ?thesis
    using run_queue_push_loses_task [OF demo_race_inv c r d(2) _ _ y d(6) key_a [folded d(4)]] d(3) by (simp add: emit_key_def)
qed

text \<open>The reader of theory Machine, who finds no input; \<open>a\<close> is typed after its test.\<close>

theorem wait_event_loses_wakeup_witness:
  "\<exists>m'. mstep [] (Run 0 (uncut(AfterTest := [0x1E]))) (demo_reader\<lparr>m_kernel := (m_kernel demo_reader)\<lparr>k_active := Some 0\<rparr>\<rparr>) = Inr m'
    \<and> e_queue (wh_entries (k_wh (m_kernel m')) 1) = Some (TtyQ 0) \<and> holds (InputOf 0) (m_kernel m') = Inr True \<and> \<not> machine_inv m'"
proof -
  let ?k = "demo_reader_kernel\<lparr>k_active := Some 0\<rparr>" and ?m = "demo_reader\<lparr>m_kernel := (m_kernel demo_reader)\<lparr>k_active := Some 0\<rparr>\<rparr>"
  have m: "m_kernel ?m = ?k" "m_cont ?m = demo_cont(1 := demo_waits)" by (simp_all add: demo_reader_def)
  have b: "between_ok (demo_cont(1 := demo_waits)) demo_reader_kernel" using demo_reader_inv by (simp add: machine_inv_def demo_reader_def)
  have "parts_ok ?k"
    by (rule parts_ok_cong [OF between_parts [OF b]]) (use parts_okD [OF between_parts [OF b]] in \<open>simp_all add: ttys_ok_def\<close>)
  then have "keeps demo_reader_kernel ?k" by (simp add: keeps_def tty_input_available_def)
  then have inv: "machine_inv ?m" unfolding machine_inv_def m by (rule between_keeps [OF b])
  have f: "k_current ?k = Some 1" "t_pending (the_task 1 ?k) = 0" "\<not> tty_input_available 0 ?k" "k_kbd ?k = k_kbd bss_kernel"
    by (simp_all add: demo_reader_kernel_def demo_def the_task_def demo_task_def zero_task_def tty_input_available_def zero_tty_def)
  show ?thesis
    by (rule wait_event_loses_wakeup [OF inv, where c = 1 and i = 0 and buf = "[NUL]" and n = 1 and sc = "0x1E",
          OF _ _ _ _ _ _ key_a [folded f(4), folded m(1)]])
      (use f in \<open>simp_all add: m demo_waits_def emit_key_def switch_of_def key_bytes_def TTY_COUNT_def\<close>)
qed

end
