(* ===== verification/BootInv.thy ===== *)
theory BootInv
  imports Boot Machine
begin

section \<open>Booting establishes the invariant\<close>

text \<open>
  \<open>booting k us fs\<close> is the state of the kernel between \<open>task_table_init\<close> and the end of \<open>kmain\<close>: no
  task runs, no queue has an entry, the tasks in the slots \<open>us\<close> are created and their own parents, and
  the slots \<open>fs\<close> are free. \<open>task_kernel_exec\<close> moves a slot from \<open>fs\<close> to \<open>us\<close>, and the result of
  \<open>kmain\<close>, if there is one, satisfies the invariant of theory Machine, whatever the programs are.
\<close>

definition booting :: "kernel \<Rightarrow> nat list \<Rightarrow> nat list \<Rightarrow> bool" where
  "booting k us fs \<longleftrightarrow> k_current k = None \<and> wh_inv (k_wh k) (\<lambda>_. []) \<and> rq_rep (k_rq k, k_tasks k) []
     \<and> tt_inv (k_tt k, k_tasks k) \<and> free_slots k = fs \<and> set us = {..<64} - set fs
     \<and> (\<forall>i < 64. t_children (k_tasks k i) = None \<and> t_state (k_tasks k i) = (if i \<in> set us then TASK_QUEUED else TASK_POOLED)
          \<and> (i \<in> set us \<longrightarrow> t_parent (k_tasks k i) = Some i))
     \<and> names_kept k \<and> parts_ok k"

lemma bootingD:
  assumes "booting k us fs"
  shows "k_current k = None" "wh_inv (k_wh k) (\<lambda>_. [])" "rq_rep (k_rq k, k_tasks k) []" "tt_inv (k_tt k, k_tasks k)"
    "free_slots k = fs" "set us = {..<64} - set fs" "names_kept k" "parts_ok k"
    "i < 64 \<Longrightarrow> t_children (k_tasks k i) = None"
    "i < 64 \<Longrightarrow> t_state (k_tasks k i) = (if i \<in> set us then TASK_QUEUED else TASK_POOLED)"
    "i \<in> set us \<Longrightarrow> t_parent (k_tasks k i) = Some i"
    "set fs \<subseteq> {..<64}" "distinct fs"
proof -
  show t: "tt_inv (k_tt k, k_tasks k)" and f: "free_slots k = fs" using assms by (simp_all add: booting_def)
  show "set fs \<subseteq> {..<64}" "distinct fs" using tt_invD(3,4) [OF t] f by auto
qed (use assms in \<open>auto simp: booting_def\<close>)

lemma booting_keeps:
  assumes b: "booting k us fs" and kp: "keeps k k'" shows "booting k' us fs"
proof -
  note B = bootingD [OF b] and K = keepsD [OF kp] and T = task_keepsD [OF keepsD(6) [OF kp]]
  have t: "tt_inv (k_tt k', k_tasks k')" and f: "free_slots k' = fs"
    unfolding K(5) using tt_inv_cong [OF B(4), of "k_tasks k'"] T(1) B(5) by auto
  have "names_kept k'" using B(7) T(7-10) unfolding names_kept_def f B(5) by simp
  moreover have "rq_rep (k_rq k', k_tasks k') []" using B(3) K(4) by (simp add: rq_rep_def)
  ultimately show ?thesis using B K T t f by (simp add: booting_def)
qed

lemma booting_swapper: "booting k us fs \<Longrightarrow> booting (k\<lparr>k_swapper := s\<rparr>) us fs"
proof -
  assume b: "booting k us fs"
  have "parts_ok (k\<lparr>k_swapper := s\<rparr>)"
    by (rule parts_ok_cong [OF bootingD(8) [OF b]]) (use parts_okD [OF bootingD(8) [OF b]] in \<open>simp_all add: ttys_ok_def\<close>)
  then show ?thesis using b by (simp add: booting_def names_kept_def)
qed

text \<open>A slot that is allocated and filled, and one that is given back.\<close>

lemma booting_add:
  assumes b: "booting k us (t # fs)" and tt: "tt_inv (tt, (k_tasks k)(t := x))" "tt_free (tt, (k_tasks k)(t := x)) = fs"
    and x: "t_children x = None" "t_state x = TASK_QUEUED" "t_parent x = Some t" "t_files x = t_files (k_tasks k t)"
      "terminated (t_name x)" "length (t_name x) = 64" "terminated (t_cwd x)" "length (t_cwd x) = 64"
  shows "booting (k\<lparr>k_tt := tt, k_tasks := (k_tasks k)(t := x)\<rparr>) (t # us) fs"
proof -
  note B = bootingD [OF b]
  let ?k = "k\<lparr>k_tt := tt, k_tasks := (k_tasks k)(t := x)\<rparr>"
  have t: "t < 64" "t \<notin> set fs" using B(12,13) by auto
  have "parts_ok ?k"
    by (rule parts_ok_cong [OF B(8)]) (use parts_okD [OF B(8)] x(4) in \<open>simp_all add: ttys_ok_def\<close>)
  moreover have "names_kept ?k" using B(7) x tt(2) B(5) t by (auto simp: names_kept_def)
  moreover have "set (t # us) = {..<64} - set fs" using B(6) t by auto
  moreover have "rq_rep (k_rq k, (k_tasks k)(t := x)) []" using B(3) by (simp add: rq_rep_def)
  ultimately show ?thesis using B x tt by (simp add: booting_def)
qed

lemma booting_free:
  assumes b: "booting k (t # us) fs" "t \<notin> set us" and r: "table_free t k = Inr k'"
  shows "booting k' us (fs @ [t])" "k_swapper k' = k_swapper k"
proof -
  note B = bootingD [OF b(1)]
  have t: "t < 64" "t \<notin> set fs" using B(6) by auto
  define ts where "ts = upd t (\<lambda>x. x\<lparr>t_pid := PID_NONE, t_state := TASK_POOLED, t_children := None, t_parent := None, t_next_sibling := None\<rparr>) (k_tasks k)"
  obtain tt where tt: "task_table_free t (k_tt k, k_tasks k) = Inr (tt, ts)" "tt_inv (tt, ts)" "tt_free (tt, ts) = fs @ [t]"
    using task_table_free_ok [OF B(4) t(1)] t(2) B(5) unfolding ts_def by auto
  have k': "k' = k\<lparr>k_tt := tt, k_tasks := ts\<rparr>" using r tt(1) by (simp add: table_free_def)
  show "k_swapper k' = k_swapper k" by (simp add: k')
  have "parts_ok k'"
    by (rule parts_ok_cong [OF B(8)]) (use parts_okD [OF B(8)] in \<open>simp_all add: k' ttys_ok_def ts_def upd_apply\<close>)
  moreover have "names_kept k'" using B(7) tt(3) B(5) by (auto simp: k' names_kept_def ts_def upd_apply)
  moreover have "set us = {..<64} - set (fs @ [t])" using B(6) b(2) by auto
  moreover have "rq_rep (k_rq k', k_tasks k') []" using B(3) by (simp add: rq_rep_def k')
  moreover have "i < 64 \<Longrightarrow> t_children (ts i) = None \<and> t_state (ts i) = (if i \<in> set us then TASK_QUEUED else TASK_POOLED)
      \<and> (i \<in> set us \<longrightarrow> t_parent (ts i) = Some i)" for i
    using B(9-11) [of i] b(2) by (auto simp: ts_def upd_apply)
  ultimately show "booting k' us (fs @ [t])" using B tt(2,3) by (simp add: booting_def k')
qed

subsection \<open>task_kernel_exec\<close>

lemma strcpy_name: "k_strcpy dst src = Some r \<Longrightarrow> length dst = 64 \<Longrightarrow> terminated r \<and> length r = 64"
  using k_strcpy_keeps by metis

lemma load_new_task_booting:
  assumes b: "booting k (t # us) fs" "t \<notin> set us" and r: "load_new_task bins bin t fn argv envp k = Inr (res, k')"
  shows "(case res of None \<Rightarrow> booting k' us (fs @ [t]) | Some (t', tr) \<Rightarrow> t' = t \<and> booting k' (t # us) fs) \<and> k_swapper k' = k_swapper k"
proof -
  note P = bootingD(8) [OF b(1)]
  obtain im :: embedded_bin and info k1 where l: "elf_load t (bin_bytes im) k = Inr (info, k1)"
    "(case info of
         None \<Rightarrow> bindR (kprint (''task_kernel_exec: Failed to load the binary '' @ fn @ [CHR 0x0A]) k1) (\<lambda>k2.
                  bindR (table_free t k2) (\<lambda>k3. Inr (None, k3)))
       | Some ei \<Rightarrow>
           bindR (setup_program t ei argv envp k1) (\<lambda>(tr, k2).
             case tr of
               None \<Rightarrow> bindR (kprint (''task_kernel_exec: not enough space '' @ fn @ [CHR 0x0A]) k2) (\<lambda>k3.
                        bindR (table_free t k3) (\<lambda>k4. Inr (None, k4)))
             | Some tr \<Rightarrow> Inr (Some (t, tr), k2))) = Inr (res, k')"
    using r unfolding load_new_task_def by (auto simp: bindR_eq_Inr)
  note K1 = elf_load_keeps [OF P l(1)]
  have give: "booting k3 us (fs @ [t]) \<and> k_swapper k3 = k_swapper k"
    if "keeps k k1" "kprint s k1 = Inr k2" "table_free t k2 = Inr k3" for s k1 k2 k3
  proof -
    note K = keeps_trans [OF that(1) kprint_keeps [OF keeps_parts [OF that(1)] that(2)]]
    show ?thesis using booting_free [OF booting_keeps [OF b(1) K] b(2) that(3)] keepsD(2) [OF K] by simp
  qed
  show ?thesis
  proof (cases info)
    case None
    then show ?thesis using l(2) give [OF K1] by (auto simp: bindR_eq_Inr)
  next
    case (Some ei)
    then obtain tr k2 where s: "setup_program t ei argv envp k1 = Inr (tr, k2)"
      "(case tr of
               None \<Rightarrow> bindR (kprint (''task_kernel_exec: not enough space '' @ fn @ [CHR 0x0A]) k2) (\<lambda>k3.
                        bindR (table_free t k3) (\<lambda>k4. Inr (None, k4)))
             | Some tr \<Rightarrow> Inr (Some (t, tr), k2)) = Inr (res, k')"
      using l(2) by (auto simp: bindR_eq_Inr)
    note K2 = keeps_trans [OF K1 setup_program_keeps [OF keeps_parts [OF K1] s(1)]]
    show ?thesis
    proof (cases tr)
      case None
      then show ?thesis using s(2) give [OF K2] by (auto simp: bindR_eq_Inr)
    next
      case (Some x)
      then show ?thesis using s(2) booting_keeps [OF b(1) K2] keepsD(2) [OF K2] by auto
    qed
  qed
qed

text \<open>The task before its program is loaded.\<close>

lemma new_task_booting:
  assumes b: "booting k us (t # fs)" and al: "table_alloc k = Inr (Some t', k1)"
    and nm: "k_strcpy (t_name (the_task t' k1)) fn = Some name"
    and cw: "task_init_cwd t' (task_init_tty t' 0 (signal_init t' (updt t' (new_task t' name) k1))) = Inr k2"
  shows "t' = t" "booting k2 (t # us) fs" "k_swapper k2 = k_swapper k"
proof -
  note B = bootingD [OF b]
  have t: "t < 64" using B(12) by simp
  define pid where "pid = int (unat (tt_gen (k_tt k) t) * 64 + t)"
  let ?ts = "upd t (\<lambda>x. x\<lparr>t_pid := pid\<rparr>) (k_tasks k)"
  obtain tt where tt: "task_table_alloc (k_tt k, k_tasks k) = Inr (Some t, tt, ?ts)" "tt_inv (tt, ?ts)" "tt_free (tt, ?ts) = fs"
    using task_table_alloc_Cons [OF B(4,5)] unfolding pid_def by blast
  show t': "t' = t" using al tt(1) by (simp add: table_alloc_def)
  have k1: "k1 = k\<lparr>k_tt := tt, k_tasks := ?ts\<rparr>" using al tt(1) by (auto simp: table_alloc_def)
  have len: "length (t_name (k_tasks k t)) = 64" "length (t_cwd (k_tasks k t)) = 64" using B(7) t by (simp_all add: names_kept_def)
  have n: "terminated name" "length name = 64" using strcpy_name [OF nm] len k1 t' by (simp_all add: the_task_def)
  have wh: "wait_queue_init (ChildQ t) (wait_queue_init (ExitQ t) (k_wh k)) = k_wh k"
    using wait_queue_init_same [OF B(2)] by simp
  obtain cwd where c: "k_strcpy (t_cwd (k_tasks k t)) (c_string ''/'') = Some cwd"
    "k2 = updt t (\<lambda>x. x\<lparr>t_cwd := cwd\<rparr>) (task_init_tty t 0 (signal_init t (updt t (new_task t name) k1)))"
    using cw by (auto simp: task_init_cwd_def t' k1 bindR_eq_Inr updt_def task_init_tty_def Let_def signal_init_def the_task_def new_task_def)
  define x where "x = (new_task t name ((k_tasks k t)\<lparr>t_pid := pid\<rparr>))\<lparr>t_pending := 0, t_ctty := tty_get 0, t_cwd := cwd\<rparr>"
  have k2: "k2 = k\<lparr>k_tt := tt, k_tasks := (k_tasks k)(t := x)\<rparr>"
    using wh by (simp add: c(2) k1 updt_def task_init_tty_def signal_init_def upd_def x_def)
  have p: "t_pid (((k_tasks k)(t := x)) i) = t_pid (?ts i)" for i by (simp add: x_def new_task_def upd_apply)
  note T = tt_inv_cong [OF tt(2) p]
  show "booting k2 (t # us) fs"
    unfolding k2
  proof (rule booting_add [OF b T(1)])
    show "tt_free (tt, (k_tasks k)(t := x)) = fs" using trans [OF T(2) tt(3)] .
    show "terminated (t_cwd x)" "length (t_cwd x) = 64" using strcpy_name [OF c(1)] len by (simp_all add: x_def)
  qed (use n in \<open>simp_all add: x_def new_task_def\<close>)
  show "k_swapper k2 = k_swapper k" by (simp add: k2)
qed

lemma task_kernel_exec_booting:
  assumes b: "booting k us (t # fs)" and r: "task_kernel_exec bins fn 0 argv envp k = Inr (res, k')"
  shows "(case res of None \<Rightarrow> \<exists>fs'. booting k' us fs' | Some (t', tr) \<Rightarrow> t' = t \<and> booting k' (t # us) fs) \<and> k_swapper k' = k_swapper k"
proof -
  have fails: ?thesis if "exec_fail s k = Inr (res, k')" for s
    using that b booting_keeps [OF b kprint_keeps [OF bootingD(8) [OF b]]] keepsD(2) [OF kprint_keeps [OF bootingD(8) [OF b]]]
    by (auto simp: exec_fail_def bindR_eq_Inr)
  obtain bin where bin: "find_bin bins (c_string fn) = Some bin" using r by (auto simp: task_kernel_exec_def TTY_COUNT_def bindR_eq_Inr)
  show ?thesis
  proof (cases bin)
    case None
    then show ?thesis using r bin fails by (simp add: task_kernel_exec_def TTY_COUNT_def)
  next
    case (Some x)
    obtain a k1 where a: "table_alloc k = Inr (a, k1)" "(case a of
                None \<Rightarrow> exec_fail (''task_kernel_exec: failed to allocate task for '' @ fn @ [CHR 0x0A]) k1
              | Some t \<Rightarrow>
                  bindR (of_opt (k_strcpy (t_name (the_task t k1)) (c_string fn))) (\<lambda>name.
                  bindR (task_init_cwd t (task_init_tty t 0 (signal_init t (updt t (new_task t name) k1)))) (\<lambda>k2.
                    load_new_task bins x t fn argv envp k2))) = Inr (res, k')"
      using r bin Some by (auto simp: task_kernel_exec_def TTY_COUNT_def bindR_eq_Inr)
    have "a \<noteq> None" using a(1) task_table_alloc_Cons [OF bootingD(4,5) [OF b]] by (auto simp: table_alloc_def)
    then obtain t' where t': "a = Some t'" by blast
    obtain name k2 where n: "k_strcpy (t_name (the_task t' k1)) (c_string fn) = Some name"
      "task_init_cwd t' (task_init_tty t' 0 (signal_init t' (updt t' (new_task t' name) k1))) = Inr k2"
      "load_new_task bins x t' fn argv envp k2 = Inr (res, k')"
      using a(2) t' by (auto simp: bindR_eq_Inr)
    note N = new_task_booting [OF b a(1) [unfolded t'] n(1,2)]
    have "t \<notin> set us" using bootingD(6) [OF b] by simp
    from load_new_task_booting [OF N(2) this n(3) [unfolded N(1)]] show ?thesis using N(3) by (auto split: option.splits)
  qed
qed

subsection \<open>The scheduler at boot\<close>

text \<open>The queues of a booting kernel whose swapper is \<open>s\<close>, but for the slots \<open>ts\<close> that are not yet in the run queue.\<close>

lemma booting_sched:
  assumes b: "booting k us fs" and s: "k_swapper k = Some s" "s \<in> set us"
    and same: "k_wh k' = k_wh k" "k_swapper k' = k_swapper k" "k_current k' = k_current k" "k_rq k' = k_rq k"
    and st: "\<And>i. i < 64 \<Longrightarrow> t_state (k_tasks k' i) = (if i = s then TASK_QUEUED else TASK_POOLED)"
  shows "sched_inv k' [] (\<lambda>_. [])"
proof -
  note B = bootingD [OF b]
  have "s < 64" using B(6) s(2) by auto
  moreover have "rq_rep (k_rq k', k_tasks k') []" using B(3) same(4) by (simp add: rq_rep_def)
  moreover have "placed k' [] (\<lambda>_. []) t" if "t < 64" for t
    using st [OF that] s(1) same(2) by (auto simp: placed_def sleeping_def split: if_splits)
  ultimately show ?thesis
    using B(1,2) s(1) st by (simp add: sched_inv_def same waiting_def swapper_ok_def current_ok_def)
qed

lemma booting_kinv:
  assumes b: "booting k us fs" and r: "sched_inv k' xs (\<lambda>_. [])" and tt: "k_tt k' = k_tt k"
    and mv: "\<And>i. unlink (k_tasks k' i) = unlink (k_tasks k i)" and p: "parts_ok k'"
  shows "kinv k' xs (\<lambda>_. []) (\<lambda>_. [])" "free_slots k' = fs"
proof -
  note B = bootingD [OF b] and U = unlink_eqD [OF mv]
  have t: "tt_inv (k_tt k', k_tasks k')" and f: "free_slots k' = fs"
    unfolding tt using tt_inv_cong [OF B(4), of "k_tasks k'"] U(1) B(5) by auto
  show "free_slots k' = fs" by (rule f)
  have st: "t_state (k_tasks k' i) = (if i \<in> set us then TASK_QUEUED else TASK_POOLED)" if "i < 64" for i using U(2) B(10) [OF that] by simp
  have pl: "i \<in> set fs \<Longrightarrow> i < 64 \<and> i \<notin> set us" for i using B(6,12) by auto
  have "family (k_tasks k') (set fs) (\<lambda>_. [])" using B(9) U(3) by (simp add: family_def)
  moreover have "\<forall>i \<in> set fs. t_state (k_tasks k' i) = TASK_POOLED \<and> t_children (k_tasks k' i) = None"
    using pl st B(9) U(3) by simp
  moreover have "names_kept k'" using B(7) U(6,7) unfolding names_kept_def f B(5) by simp
  moreover have "quiet k' (\<lambda>_. [])" by (simp add: quiet_def)
  moreover have "slots_ok k'"
    unfolding slots_ok_def f
  proof (intro allI impI conjI)
    fix i assume i: "i < MAX_PROCESS_CNT"
    show "alive (k_tasks k' i) \<or> t_state (k_tasks k' i) = TASK_ZOMBIE" if "i \<notin> set fs"
      using st [of i] i that B(6) alive_states(4) [of "k_tasks k' i"] by auto
    show "t_parent (k_tasks k' i) \<noteq> None" if "alive (k_tasks k' i)"
      using st [of i] i that B(11) [of i] U(5) [of i] alive_states(2) [of "k_tasks k' i"] by (auto split: if_splits)
  qed
  ultimately show "kinv k' xs (\<lambda>_. []) (\<lambda>_. [])" using r t p by (simp add: kinv_def proc_inv_def f)
qed

lemma booting_one:
  assumes b: "booting k [s] fs" and s: "k_swapper k = Some s" shows "kinv k [] (\<lambda>_. []) (\<lambda>_. [])"
  by (rule booting_kinv(1) [OF b booting_sched [OF b s]]) (use bootingD [OF b] in auto)

lemma booting_enqueue:
  assumes b: "booting k [t, s] fs" and s: "k_swapper k = Some s" "t \<noteq> s" and r: "sched_enqueue t k = Inr k'"
  shows "kinv k' [t] (\<lambda>_. []) (\<lambda>_. [])" "free_slots k' = fs" "k_swapper k' = k_swapper k"
proof -
  note B = bootingD [OF b]
  have t: "t < 64" using B(6) by auto
  let ?k0 = "k\<lparr>k_tasks := upd t (\<lambda>x. x\<lparr>t_state := TASK_POOLED\<rparr>) (k_tasks k)\<rparr>"
  have s0: "sched_inv ?k0 [] (\<lambda>_. [])"
    by (rule booting_sched [OF b s(1)]) (use B(10) s(2) in \<open>auto simp: upd_apply\<close>)
  have st: "t_state (k_tasks k t) = TASK_QUEUED" using B(10) [OF t] by simp
  have a: "t < MAX_PROCESS_CNT" "t \<notin> set []" "t \<notin> waiting (\<lambda>_. [])" "k_current ?k0 \<noteq> Some t" "k_swapper ?k0 \<noteq> Some t"
    using t B(1) s by (simp_all add: waiting_def)
  obtain rq ts where q: "k' = k\<lparr>k_rq := rq, k_tasks := ts\<rparr>" "sched_inv k' [t] (\<lambda>_. [])" "\<And>i. unlink (ts i) = unlink (k_tasks k i)"
    using sched_enqueue_inv [OF s0 a st] r by (auto simp: upd_apply)
  have "parts_ok k'"
    by (rule parts_ok_cong [OF B(8)]) (use parts_okD [OF B(8)] unlink_eqD(14) [OF q(3)] in \<open>simp_all add: q(1) ttys_ok_def\<close>)
  from booting_kinv [OF b q(2) _ _ this] show "kinv k' [t] (\<lambda>_. []) (\<lambda>_. [])" "free_slots k' = fs" using q(1,3) by simp_all
  show "k_swapper k' = k_swapper k" by (simp add: q(1))
qed

subsection \<open>kmain\<close>

text \<open>What \<open>kprint\<close>, \<open>dev_init\<close> and \<open>dev_register\<close> may change.\<close>

definition boot_io :: "kernel \<Rightarrow> kernel \<Rightarrow> bool" where
  "boot_io k k' \<longleftrightarrow> (\<exists>con ds n. k' = k\<lparr>k_con := con, k_devs := ds, k_dev_count := n\<rparr> \<and> (con_ok (k_con k) \<longrightarrow> con_ok con))"

lemma boot_ioI: "k' = k\<lparr>k_con := con, k_devs := ds, k_dev_count := n\<rparr> \<Longrightarrow> (con_ok (k_con k) \<Longrightarrow> con_ok con) \<Longrightarrow> boot_io k k'"
  unfolding boot_io_def by blast

lemma boot_io_refl: "boot_io k k"
  by (rule boot_ioI [where con = "k_con k" and ds = "k_devs k" and n = "k_dev_count k"]) simp_all

lemma boot_io_trans:
  assumes "boot_io k k1" "boot_io k1 k2" shows "boot_io k k2"
proof -
  obtain con ds n where "k1 = k\<lparr>k_con := con, k_devs := ds, k_dev_count := n\<rparr>" "con_ok (k_con k) \<longrightarrow> con_ok con"
    using assms(1) unfolding boot_io_def by blast
  moreover obtain con' ds' n' where "k2 = k1\<lparr>k_con := con', k_devs := ds', k_dev_count := n'\<rparr>" "con_ok (k_con k1) \<longrightarrow> con_ok con'"
    using assms(2) unfolding boot_io_def by blast
  ultimately show ?thesis by (intro boot_ioI [where con = con' and ds = ds' and n = n']) simp_all
qed

lemma boot_ioD:
  assumes "boot_io k k'"
  shows "k_current k' = k_current k" "k_wh k' = k_wh k" "k_tt k' = k_tt k" "k_vfs k' = k_vfs k" "k_ttys k' = k_ttys k"
    "k_swapper k' = k_swapper k" "con_ok (k_con k) \<Longrightarrow> con_ok (k_con k')"
  using assms by (auto simp: boot_io_def)

lemma kprint_boot_io: "kprint s k = Inr k' \<Longrightarrow> boot_io k k'"
proof -
  assume "kprint s k = Inr k'"
  then obtain con where "console_put_chars (take 511 s) (k_con k) = Some con" "k' = k\<lparr>k_con := con\<rparr>"
    by (auto simp: kprint_def bindR_eq_Inr)
  then show ?thesis by (intro boot_ioI [where con = con and ds = "k_devs k" and n = "k_dev_count k"]) (auto dest: put_chars_con_ok)
qed

lemma devs_boot_io: "boot_io k (k\<lparr>k_devs := ds, k_dev_count := n\<rparr>)"
  by (rule boot_ioI [where con = "k_con k" and ds = ds and n = n]) simp_all

lemma dev_register_boot_io:
  assumes "dev_register nm ops d k = Inr (r, k')" shows "boot_io k k'"
  using assms by (auto simp: dev_register_def bindR_eq_Inr boot_io_refl devs_boot_io kprint_boot_io split: option.splits if_splits)

lemma register_ttys_boot_io: "register_ttys n k = Inr k' \<Longrightarrow> boot_io k k'"
proof (induction n arbitrary: k)
  case (Suc n)
  then obtain r k1 where "dev_register (Some (c_string (take 7 (''tty'' @ itos (int (TTY_COUNT - Suc n)))))) (Some tty_dev_ops)
      (DTty (TTY_COUNT - Suc n)) k = Inr (r, k1)" "register_ttys n k1 = Inr k'"
    by (auto simp: bindR_eq_Inr Let_def)
  then show ?case using Suc.IH boot_io_trans dev_register_boot_io by blast
qed (simp add: boot_io_refl)

text \<open>The terminals.\<close>

definition fresh_tty :: "nat \<Rightarrow> tty \<Rightarrow> tty" where
  "fresh_tty i y = y\<lparr>y_idx := of_nat i, y_in_head := 0, y_in_tail := 0, y_out_head := 0, y_out_tail := 0, y_cursor_pos := 0, y_console := True\<rparr>"

lemma init_ttys_eq:
  assumes "wh_inv (k_wh k) (\<lambda>_. [])" "n \<le> 12"
  shows "init_ttys n k = k\<lparr>k_ttys := (\<lambda>i. if 12 - n \<le> i \<and> i < 12 then fresh_tty i (k_ttys k i) else k_ttys k i)\<rparr>"
  using assms
proof (induction n arbitrary: k)
  case 0
  have "(\<lambda>i. if 12 - 0 \<le> i \<and> i < 12 then fresh_tty i (k_ttys k i) else k_ttys k i) = k_ttys k" by (rule ext) auto
  then show ?case by simp
next
  case (Suc n)
  let ?i = "12 - Suc n"
  have i: "?i < 12" "12 - n = Suc ?i" using Suc.prems(2) by simp_all
  have t: "tty_init ?i k = k\<lparr>k_ttys := (k_ttys k)(?i := fresh_tty ?i (k_ttys k ?i))\<rparr>"
    using wait_queue_init_same [OF Suc.prems(1)] by (simp add: tty_init_def updtty_def fresh_tty_def Let_def)
  let ?k = "k\<lparr>k_ttys := (k_ttys k)(?i := fresh_tty ?i (k_ttys k ?i))\<rparr>"
  have "init_ttys (Suc n) k = init_ttys n ?k" by (simp add: TTY_COUNT_def t [simplified])
  also have "\<dots> = ?k\<lparr>k_ttys := (\<lambda>i. if 12 - n \<le> i \<and> i < 12 then fresh_tty i (k_ttys ?k i) else k_ttys ?k i)\<rparr>"
    by (rule Suc.IH) (use Suc.prems in simp_all)
  also have "(\<lambda>i. if 12 - n \<le> i \<and> i < 12 then fresh_tty i (k_ttys ?k i) else k_ttys ?k i)
      = (\<lambda>i. if ?i \<le> i \<and> i < 12 then fresh_tty i (k_ttys k i) else k_ttys k i)"
    using i by (auto simp: fun_eq_iff)
  finally show ?case by simp
qed

lemma tty_system_init_ok:
  assumes r: "tty_system_init k = Inr k'" and wh: "wh_inv (k_wh k) (\<lambda>_. [])" and y: "\<And>i. k_ttys k i = zero_tty"
  shows "ttys_ok k'" "boot_io (k\<lparr>k_ttys := k_ttys k', k_active := Some 0, k_kbd := keyboard_init\<rparr>) k'"
proof -
  let ?ys = "\<lambda>i. if i < 12 then fresh_tty i (k_ttys k i) else k_ttys k i"
  let ?k = "k\<lparr>k_ttys := ?ys, k_active := Some 0, k_kbd := keyboard_init\<rparr>"
  have "(init_ttys TTY_COUNT k)\<lparr>k_active := Some 0, k_kbd := keyboard_init\<rparr> = ?k"
    using init_ttys_eq [OF wh, of 12] by (simp add: TTY_COUNT_def)
  then have "boot_io ?k k'"
    using r unfolding tty_system_init_def Let_def
    by (auto simp: bindR_eq_Inr) (meson boot_io_trans dev_register_boot_io register_ttys_boot_io)
  moreover from boot_ioD(5) [OF this] have "k_ttys k' = ?ys" by simp
  moreover have "tty_ok (fresh_tty i zero_tty)" for i by (simp add: tty_ok_def fresh_tty_def zero_tty_def)
  ultimately show "ttys_ok k'" "boot_io (k\<lparr>k_ttys := k_ttys k', k_active := Some 0, k_kbd := keyboard_init\<rparr>) k'"
    using y by (simp_all add: ttys_ok_def TTY_COUNT_def fresh_tty_def)
qed

text \<open>The files.\<close>

lemma mount_all_frame: "mount_all ms v = Some v' \<Longrightarrow> \<exists>m. v' = v\<lparr>v_mounts := m\<rparr>"
proof (induction ms v rule: mount_all.induct)
  case (1 v)
  then show ?case by (intro exI [of _ "v_mounts v"]) simp
next
  case (2 p fs ms v)
  then obtain r v1 where v: "vfs_mount (Some (c_string p)) (Some fs) v = Some (r, v1)" "mount_all ms v1 = Some v'"
    by (auto simp: bind_eq_Some_conv)
  then obtain m where "v1 = v\<lparr>v_mounts := m\<rparr>" by (auto simp: vfs_mount_def bind_eq_Some_conv)
  moreover obtain m' where "v' = v1\<lparr>v_mounts := m'\<rparr>" using "2.IH" [OF v(1) refl v(2)] by blast
  ultimately have "v' = v\<lparr>v_mounts := m'\<rparr>" by simp
  then show ?case by blast
qed

lemma no_files_inv:
  assumes v: "k_vfs k = (vfs_init (k_vfs k0))\<lparr>v_mounts := m\<rparr>" and f: "\<And>t. t < 64 \<Longrightarrow> t_files (k_tasks k t) = files_init"
  shows "files_inv k"
proof -
  have inv: "vt_inv (k_vfs k)" "vt_free (k_vfs k) = [0..<1024]"
    using vfs_init_inv [of "k_vfs k0"] by (auto simp: v vt_inv_def vt_free_def)
  have fl: "i < 1024 \<Longrightarrow> the_file i k = zero_file\<lparr>f_idx := of_nat i\<rparr>" for i by (simp add: v the_file_def vfs_init_def MAX_FILE_CNT_def)
  have tk: "t < 64 \<Longrightarrow> t_files (the_task t k) = replicate 16 None" for t using f by (simp add: the_task_def files_init_def RLIMIT_NOFILE_def)
  have sl: "t < 64 \<Longrightarrow> d < RLIMIT_NOFILE \<Longrightarrow> slot k t d = None" for t d by (simp add: slot_def tk RLIMIT_NOFILE_def)
  show ?thesis
    unfolding files_inv_def using inv sl by (auto simp: fl tk zero_file_def RLIMIT_NOFILE_def terminated_def)
qed

text \<open>The task table.\<close>

lemma sched_table_booting:
  assumes tt: "task_table_init (k_tt k, k_tasks k) = (tt, ts)" "length (tt_free_ring (k_tt k)) = 64"
    and wh: "wh_inv (k_wh k) (\<lambda>_. [])" and v: "k_vfs k = (vfs_init (k_vfs k0))\<lparr>v_mounts := m\<rparr>"
    and p: "con_ok (k_con k)" "ttys_ok k"
  shows "booting (k\<lparr>k_current := None, k_ctxt := 0, k_rq := run_queue_init, k_tt := tt, k_tasks := ts\<rparr>) [] [0..<64]"
proof -
  let ?k = "k\<lparr>k_current := None, k_ctxt := 0, k_rq := run_queue_init, k_tt := tt, k_tasks := ts\<rparr>"
  have i: "tt_inv (tt, ts)" "tt_free (tt, ts) = [0..<64]"
    using task_table_init_inv [OF tt(2), of "k_tasks k"] tt(1) by simp_all
  have t: "ts j = init_task (PROCESS_PA_START + of_nat j * PROCESS_VA_SIZE)" if "j < 64" for j
    using tt(1) that by (auto simp: task_table_init_eq [OF tt(2)])
  have f: "t < 64 \<Longrightarrow> t_files (k_tasks ?k t) = files_init" for t by (simp add: t init_task_def)
  have "k_vfs ?k = (vfs_init (k_vfs k0))\<lparr>v_mounts := m\<rparr>" using v by simp
  from no_files_inv [OF this f] have "files_inv ?k" .
  then have "parts_ok ?k" using p by (simp add: parts_ok_def ttys_ok_def)
  moreover have "names_kept ?k" by (simp add: names_kept_def i(2) t init_task_def zero_task_def del: upt_rec_numeral)
  ultimately show ?thesis
    using i wh rq_init_rep [of ts] by (simp add: booting_def t init_task_def zero_task_def lessThan_atLeast0 del: upt_rec_numeral)
qed

lemma sched_init_booting:
  assumes r: "sched_init bins k = Inr (tr, k')" and tt: "length (tt_free_ring (k_tt k)) = 64"
    and wh: "wh_inv (k_wh k) (\<lambda>_. [])" and v: "k_vfs k = (vfs_init (k_vfs k0))\<lparr>v_mounts := m\<rparr>"
    and p: "con_ok (k_con k)" "ttys_ok k"
  shows "booting k' [0] [1..<64]" "k_swapper k' = Some 0"
proof -
  obtain tt ts where t: "task_table_init (k_tt k, k_tasks k) = (tt, ts)" by (cases "task_table_init (k_tt k, k_tasks k)")
  let ?k = "k\<lparr>k_current := None, k_ctxt := 0, k_rq := run_queue_init, k_tt := tt, k_tasks := ts\<rparr>"
  have b: "booting ?k [] (0 # [1..<64])"
    using sched_table_booting [OF t tt wh v p] upt_conv_Cons [of 0 64] by (simp del: upt_rec_numeral)
  obtain res k2 where e: "task_kernel_exec bins ''/sbin/swapper'' 0 (KArgs [c_string ''/sbin/swapper'']) (KArgs []) ?k = Inr (res, k2)"
    "(case res of None \<Rightarrow> Inl (Panic (''sched_init: failed to allocate a task for the swapper'' @ [CHR 0x0A]))
         | Some (t, tr) \<Rightarrow> Inr (tr, k2\<lparr>k_swapper := Some t\<rparr>)) = Inr (tr, k')"
    using r t by (auto simp: sched_init_def bindR_eq_Inr)
  show "booting k' [0] [1..<64]" "k_swapper k' = Some 0"
    using task_kernel_exec_booting [OF b e(1)] e(2) booting_swapper by (auto split: option.splits)
qed

lemma init_exec_kinv:
  assumes b: "booting k [0] [1..<64]" "k_swapper k = Some 0"
    and r: "sched_kernel_exec bins fn 0 argv envp k = Inr (pid, init, k')"
  shows "(\<exists>xs. kinv k' xs (\<lambda>_. []) (\<lambda>_. [])) \<and> k_swapper k' = Some 0
    \<and> {i. i < 64 \<and> alive (k_tasks k' i)} \<subseteq> insert 0 (fst ` set_option init)"
proof -
  obtain res k1 where e: "task_kernel_exec bins fn 0 argv envp k = Inr (res, k1)"
    "(case res of None \<Rightarrow> Inr (-1, None, k1)
       | Some (t, tr) \<Rightarrow> bindR (sched_enqueue t k1) (\<lambda>k2. Inr (t_pid (the_task t k2), Some (t, tr), k2))) = Inr (pid, init, k')"
    using r by (auto simp: sched_kernel_exec_def bindR_eq_Inr)
  have "[1..<64] = 1 # [2..<64 :: nat]" by (simp add: upt_conv_Cons numeral_2_eq_2 del: upt_rec_numeral)
  then have b1: "booting k [0] (1 # [2..<64])" using b(1) by simp
  note T = task_kernel_exec_booting [OF b1 e(1)]
  have al: "i \<notin> set (free_slots k')" if "kinv k' xs (\<lambda>_. []) (\<lambda>_. [])" "alive (k_tasks k' i)" for i xs
    using proc_invD(4) [OF kinvD(1) [OF that(1)], of i] that(2) alive_states(2) by blast
  show ?thesis
  proof (cases res)
    case None
    then obtain fs' where k1: "booting k' [0] fs'" "init = None" "k_swapper k' = Some 0" using T e(2) b(2) by auto
    note K = booting_one [OF k1(1,3)]
    have "i \<notin> set fs' \<Longrightarrow> i < 64 \<Longrightarrow> i = 0" for i using bootingD(6) [OF k1(1)] by auto
    then have "i = 0" if "i < 64" "alive (k_tasks k' i)" for i using al [OF K that(2)] that(1) bootingD(5) [OF k1(1)] by blast
    then show ?thesis using K k1(2,3) by auto
  next
    case (Some x)
    then obtain tr where k1: "res = Some (1, tr)" "booting k1 [1, 0] [2..<64]" "k_swapper k1 = Some 0" using T b(2) by (cases x) auto
    then have q: "sched_enqueue 1 k1 = Inr k'" "init = Some (1, tr)" using e(2) by (auto simp: bindR_eq_Inr)
    have "(1 :: nat) \<noteq> 0" by simp
    note K = booting_enqueue [OF k1(2,3) this q(1)]
    have "i = 0 \<or> i = 1" if "i < 64" "alive (k_tasks k' i)" for i
      using al [OF K(1) that(2)] that(1) unfolding K(2) by (auto simp del: upt_rec_numeral)
    then have "{i. i < 64 \<and> alive (k_tasks k' i)} \<subseteq> insert 0 (fst ` set_option init)" using q(2) by auto
    then show ?thesis using K(1,3) k1(3) by auto
  qed
qed

subsection \<open>The kernel's part of kmain\<close>

text \<open>\<open>kmain\<close> without the page tables and the interrupt table; it ends wherever \<open>kmain\<close> does, with the same kernel.\<close>

definition kmain_kernel :: "bins \<Rightarrow> hw \<Rightarrow> u16 list \<Rightarrow> machine res" where
  "kmain_kernel bins hw video =
     bindR (console_init (bss_kernel\<lparr>k_con := (k_con bss_kernel)\<lparr>con_video := video\<rparr>\<rparr>)) (\<lambda>k.
     bindR (kprint (kline ''PUnix 0.001'') k) (\<lambda>k.
     bindR (clock_init hw) (\<lambda>clk.
     bindR (kprint (kline ''Init Interrupt Descriptor Table.'') k) (\<lambda>k.
     bindR (kprint (kline ''Init Memory Management.'') k) (\<lambda>k.
     bindR (dev_init k) (\<lambda>k.
     bindR (kprint (kline ''Init VFS.'') k) (\<lambda>k.
     bindR (kmain_vfs k) (\<lambda>k.
     bindR (kprint (kline ''Init TTYs.'') k) (\<lambda>k.
     bindR (tty_system_init k) (\<lambda>k.
     bindR (kprint (kline ''Init scheduler.'') k) (\<lambda>k.
     bindR (sched_init bins k) (\<lambda>(tr0, k).
     bindR (kprint (kline ''Enabling interrupts.'') k) (\<lambda>k.
     bindR (sched_kernel_exec bins ''/sbin/init'' 0 (KArgs [c_string ''/sbin/init'']) NoArgs k) (\<lambda>(_, init, k).
     bindR (sched_schedule k) (\<lambda>k.
       Inr \<lparr> m_kernel = k, m_cont = first_conts (k_swapper k) tr0 init, m_clock = clk \<rparr>)))))))))))))))"

lemma in_space_result: "in_space esp sl r s = Inr (x, s') \<Longrightarrow> r = Inr x"
  by (auto simp: in_space_def bindR_eq_Inr split: option.splits)

lemma kmain_projects: "kmain bins ld hw video s0 = Inr (m, s) \<Longrightarrow> kmain_kernel bins hw video = Inr m"
  unfolding kmain_def kmain_kernel_def Let_def
  by (clarsimp simp: bindR_eq_Inr simp del: append.simps) (fastforce dest!: in_space_result simp del: append.simps)

text \<open>The states of a boot that comes to its end.\<close>

definition boot_stages :: "bins \<Rightarrow> hw \<Rightarrow> u16 list \<Rightarrow> kernel \<Rightarrow> kernel \<Rightarrow> machine \<Rightarrow> bool" where
  "boot_stages bins hw video k10 k12 m \<longleftrightarrow> (\<exists>k1 k2 clk k3 k4 k5 k6 k7 k8 k9 tr0 k11 pid init k13 k14.
     console_init (bss_kernel\<lparr>k_con := (k_con bss_kernel)\<lparr>con_video := video\<rparr>\<rparr>) = Inr k1 \<and> kprint (kline ''PUnix 0.001'') k1 = Inr k2
     \<and> clock_init hw = Inr clk
     \<and> kprint (kline ''Init Interrupt Descriptor Table.'') k2 = Inr k3 \<and> kprint (kline ''Init Memory Management.'') k3 = Inr k4
     \<and> dev_init k4 = Inr k5 \<and> kprint (kline ''Init VFS.'') k5 = Inr k6 \<and> kmain_vfs k6 = Inr k7
     \<and> kprint (kline ''Init TTYs.'') k7 = Inr k8 \<and> tty_system_init k8 = Inr k9 \<and> kprint (kline ''Init scheduler.'') k9 = Inr k10
     \<and> sched_init bins k10 = Inr (tr0, k11) \<and> kprint (kline ''Enabling interrupts.'') k11 = Inr k12
     \<and> sched_kernel_exec bins ''/sbin/init'' 0 (KArgs [c_string ''/sbin/init'']) NoArgs k12 = Inr (pid, init, k13)
     \<and> sched_schedule k13 = Inr k14
     \<and> m = \<lparr> m_kernel = k14, m_cont = first_conts (k_swapper k14) tr0 init, m_clock = clk \<rparr>)"

lemma kmain_stages: "kmain_kernel bins hw video = Inr m \<Longrightarrow> \<exists>k10 k12. boot_stages bins hw video k10 k12 m"
  unfolding kmain_kernel_def boot_stages_def by (clarsimp simp: bindR_eq_Inr simp del: append.simps)

lemma boot_stages_booting:
  assumes st: "boot_stages bins hw video k10 k12 m" and len: "length video = 2000"
  shows "booting (task_tables k10) [] (0 # [1..<64])" "booting k12 [0] [1..<64]" "k_swapper k12 = Some 0"
proof -
  let ?b = "bss_kernel\<lparr>k_con := (k_con bss_kernel)\<lparr>con_video := video\<rparr>\<rparr>"
  obtain k1 k2 k3 k4 k5 k6 k7 k8 k9 tr0 k11 where k:
    "console_init ?b = Inr k1" "kprint (kline ''PUnix 0.001'') k1 = Inr k2"
    "kprint (kline ''Init Interrupt Descriptor Table.'') k2 = Inr k3" "kprint (kline ''Init Memory Management.'') k3 = Inr k4"
    "dev_init k4 = Inr k5" "kprint (kline ''Init VFS.'') k5 = Inr k6" "kmain_vfs k6 = Inr k7"
    "kprint (kline ''Init TTYs.'') k7 = Inr k8" "tty_system_init k8 = Inr k9" "kprint (kline ''Init scheduler.'') k9 = Inr k10"
    "sched_init bins k10 = Inr (tr0, k11)" "kprint (kline ''Enabling interrupts.'') k11 = Inr k12"
    using st unfolding boot_stages_def by blast
  obtain con where con: "k1 = ?b\<lparr>k_con := con\<rparr>" "con_ok con"
    using k(1) vga_init_ok [of "k_con ?b"] len by (auto simp: console_init_def bindR_eq_Inr bss_kernel_def)
  have d5: "boot_io k4 k5" using k(5) devs_boot_io by (auto simp: dev_init_def bindR_eq_Inr)
  note q1 = boot_io_trans [OF boot_io_trans [OF kprint_boot_io [OF k(2)] kprint_boot_io [OF k(3)]] kprint_boot_io [OF k(4)]]
  note q6 = boot_ioD [OF boot_io_trans [OF boot_io_trans [OF q1 d5] kprint_boot_io [OF k(6)]]]
  obtain ms where v: "k7 = k6\<lparr>k_vfs := (vfs_init (k_vfs k6))\<lparr>v_mounts := ms\<rparr>\<rparr>"
    using k(7) mount_all_frame unfolding kmain_vfs_def by (fastforce simp: bindR_eq_Inr)
  note q8 = boot_ioD [OF kprint_boot_io [OF k(8)]]
  have base: "wh_inv (k_wh k8) (\<lambda>_. [])" "k_ttys k8 i = zero_tty" "length (tt_free_ring (k_tt k8)) = 64" "con_ok (k_con k8)"
    "k_vfs k8 = (vfs_init (k_vfs k6))\<lparr>v_mounts := ms\<rparr>" for i
    using wh_inv_init [of None] q6 q8 con by (simp_all add: v bss_kernel_def)
  note y = tty_system_init_ok [OF k(9) base(1,2)]
  note q10 = boot_ioD [OF boot_io_trans [OF y(2) kprint_boot_io [OF k(10)]]]
  have ty: "ttys_ok k10" using y(1) q10(5) by (simp add: ttys_ok_def)
  have f10: "length (tt_free_ring (k_tt k10)) = 64" "wh_inv (k_wh k10) (\<lambda>_. [])" "k_vfs k10 = (vfs_init (k_vfs k6))\<lparr>v_mounts := ms\<rparr>"
    "con_ok (k_con k10)"
    using q10 base by simp_all
  note b11 = sched_init_booting [OF k(11) f10 ty]
  obtain tt ts where t: "task_table_init (k_tt k10, k_tasks k10) = (tt, ts)" by (cases "task_table_init (k_tt k10, k_tasks k10)")
  show "booting (task_tables k10) [] (0 # [1..<64])"
    using sched_table_booting [OF t f10 ty] upt_conv_Cons [of 0 64] by (simp add: task_tables_def t del: upt_rec_numeral)
  note p12 = kprint_keeps [OF bootingD(8) [OF b11(1)] k(12)]
  show "booting k12 [0] [1..<64]" "k_swapper k12 = Some 0" using booting_keeps [OF b11(1) p12] keepsD(2) [OF p12] b11(2) by auto
qed

lemma kmain_kernel_inv:
  assumes r: "kmain_kernel bins hw video = Inr m" and len: "length video = 2000" shows "machine_inv m"
proof -
  obtain k10 k12 where st: "boot_stages bins hw video k10 k12 m" using kmain_stages [OF r] by blast
  note b12 = boot_stages_booting [OF st len]
  obtain clk tr0 pid init k13 k14 where k: "sched_kernel_exec bins ''/sbin/init'' 0 (KArgs [c_string ''/sbin/init'']) NoArgs k12 = Inr (pid, init, k13)"
    "sched_schedule k13 = Inr k14" "m = \<lparr> m_kernel = k14, m_cont = first_conts (k_swapper k14) tr0 init, m_clock = clk \<rparr>"
    using st unfolding boot_stages_def by blast
  obtain xs where k13: "kinv k13 xs (\<lambda>_. []) (\<lambda>_. [])" "k_swapper k13 = Some 0"
    "{i. i < 64 \<and> alive (k_tasks k13 i)} \<subseteq> insert 0 (fst ` set_option init)"
    using init_exec_kinv [OF b12(2,3) k(1)] by auto
  note S = schedule_kinv [OF k13(1) k(2)]
  obtain xs' where xs': "kinv k14 xs' (\<lambda>_. []) (\<lambda>_. [])" using S(1) by blast
  have "cont_ok k14 (\<lambda>_. []) t (m_cont m t)" if "t < 64" "alive (k_tasks k14 t)" for t
  proof -
    have "t \<in> insert 0 (fst ` set_option init)" using k13(3) that task_movesD(5) [OF S(4)] by blast
    moreover have "k_swapper k14 = Some 0" using S(3) k13(2) by (simp add: same_heaps_def)
    ultimately have "\<exists>tr. m_cont m t = Start tr" using k(3) by (auto simp: first_conts_def Let_def split: option.splits)
    then show ?thesis by auto
  qed
  then have "state_ok k14 (m_cont m) xs' (\<lambda>_. []) (\<lambda>_. [])" using xs' by (simp add: state_ok_def)
  then show ?thesis using S(2) k(3) unfolding machine_inv_def between_ok_def by auto
qed

lemma kmain_inv:
  assumes "kmain bins ld hw video s0 = Inr (m, s)" "length video = 2000" shows "machine_inv m"
  by (rule kmain_kernel_inv [OF kmain_projects [OF assms(1)] assms(2)])

subsection \<open>The address spaces of a boot\<close>

lemma exec_slot_booting:
  assumes "booting k us (t # fs)" "exec_slot bins fn tty k = Some i" shows "i = t"
  using assms(2) task_table_alloc_Cons [OF bootingD(4,5) [OF assms(1)]]
  by (auto simp: exec_slot_def table_alloc_def split: if_splits option.splits)

lemma in_space_ok:
  assumes "spaces_ok 64 s" "stack_mapped esp 64 s" "\<forall>t. sl = Some t \<longrightarrow> t < 64" "r = Inr x"
  shows "\<exists>c c3. in_space esp sl r s = Inr (x, s\<lparr>cr3 := c3, cpu := c\<rparr>) \<and> (c = cpu s \<or> c = interrupts_enable (cpu s))"
proof (cases sl)
  case None
  then show ?thesis using assms(4) by (intro exI [of _ "cpu s"] exI [of _ "cr3 s"]) (simp add: in_space_def)
next
  case (Some t)
  let ?s = "s\<lparr>cr3 := page s (1 + 2 * t), cpu := interrupts_enable (cpu s)\<rparr>"
  have a: "mm_activate esp (ProcMm t) s = Inr ?s" using mm_activate_ok(2) [OF assms(1,2)] assms(3) Some by simp
  have "spaces_ok 64 ?s" "stack_mapped esp 64 ?s" using assms(1,2) by (simp_all add: spaces_cr3)
  from mm_activate_ok(1) [OF this] a show ?thesis using Some assms(4)
    by (intro exI [of _ "interrupts_enable (cpu s)"] exI [of _ "mm_pd_pa (kernel_mm s)"]) (simp add: in_space_def)
qed

end
