(* ===== verification/BootRuns.thy ===== *)
theory BootRuns
  imports BootInv Loader
begin

section \<open>Booting succeeds\<close>

text \<open>
  \<open>kmain\<close> with video memory of the right size, a counter it accepts, a clock chip with a valid month and
  well-formed images of the swapper and of init comes to its end: the two programs have been loaded
  into slots 0 and 1 and init is the first task to run.
\<close>

lemma kprint_plain:
  assumes "con_ok (k_con k)" "con_esc (k_con k) = CON_ESC_NONE" "plain_text s"
  shows "\<exists>con. kprint s k = Inr (k\<lparr>k_con := con\<rparr>) \<and> con_ok con \<and> con_esc con = CON_ESC_NONE"
proof -
  have "plain_text (take 511 s)" using assms(3) by (auto simp: plain_text_def dest: in_set_takeD)
  from put_chars_plain [OF assms(1,2) this] show ?thesis by (auto simp: kprint_def)
qed

lemma plain_kline: "plain_text s \<Longrightarrow> plain_text (kline s)"
  by (simp add: kline_def)

subsection \<open>The devices of the terminals\<close>

lemma register_tty_ok:
  assumes "devs_rep k es" "length es < 32"
  shows "\<exists>ds. dev_register (Some (c_string (take 7 (''tty'' @ s)))) (Some ops) d k = Inr (0, k\<lparr>k_devs := ds, k_dev_count := k_dev_count k + 1\<rparr>)
    \<and> (\<exists>e. devs_rep (k\<lparr>k_devs := ds, k_dev_count := k_dev_count k + 1\<rparr>) (es @ [e]))"
proof -
  have "cstr (c_string (take 7 (''tty'' @ s))) \<noteq> [] \<and> hd (cstr (c_string (take 7 (''tty'' @ s)))) \<noteq> SL"
    by (simp add: c_string_def cstr_def)
  from dev_register_ok [OF assms(1) _ terminated_c_string conjunct1 [OF this] conjunct2 [OF this], of ops d] show ?thesis
    using assms(2) by (auto simp: MAX_DEVICES_def)
qed

lemma register_ttys_ok:
  "devs_rep k es \<Longrightarrow> length es + n \<le> 32 \<Longrightarrow>
   \<exists>ds c es'. register_ttys n k = Inr (k\<lparr>k_devs := ds, k_dev_count := c\<rparr>) \<and> devs_rep (k\<lparr>k_devs := ds, k_dev_count := c\<rparr>) es'
     \<and> length es' = length es + n"
proof (induction n arbitrary: k es)
  case 0
  then have "register_ttys 0 k = Inr (k\<lparr>k_devs := k_devs k, k_dev_count := k_dev_count k\<rparr>)
    \<and> devs_rep (k\<lparr>k_devs := k_devs k, k_dev_count := k_dev_count k\<rparr>) es \<and> length es = length es + 0" by simp
  then show ?case by blast
next
  case (Suc n)
  obtain ds e where d: "dev_register (Some (c_string (take 7 (''tty'' @ itos (int (TTY_COUNT - Suc n)))))) (Some tty_dev_ops)
      (DTty (TTY_COUNT - Suc n)) k = Inr (0, k\<lparr>k_devs := ds, k_dev_count := k_dev_count k + 1\<rparr>)"
    "devs_rep (k\<lparr>k_devs := ds, k_dev_count := k_dev_count k + 1\<rparr>) (es @ [e])"
    using register_tty_ok [OF Suc.prems(1)] Suc.prems(2) by fastforce
  obtain ds' c es' where r: "register_ttys n (k\<lparr>k_devs := ds, k_dev_count := k_dev_count k + 1\<rparr>) = Inr (k\<lparr>k_devs := ds', k_dev_count := c\<rparr>)"
    "devs_rep (k\<lparr>k_devs := ds', k_dev_count := c\<rparr>) es'" "length es' = length es + Suc n"
    using Suc.IH [OF d(2)] Suc.prems(2) by auto
  have "register_ttys (Suc n) k = Inr (k\<lparr>k_devs := ds', k_dev_count := c\<rparr>)"
    using d(1) r(1) by (simp add: Let_def del: take_append append.simps)
  with r(2,3) show ?case by blast
qed

lemma register_named_ok:
  assumes "devs_rep k es" "length es < 32" "no_nul x" "x \<noteq> []" "hd x \<noteq> SL"
  shows "\<exists>ds e. dev_register (Some (c_string x)) (Some ops) d k = Inr (0, k\<lparr>k_devs := ds, k_dev_count := k_dev_count k + 1\<rparr>)
    \<and> devs_rep (k\<lparr>k_devs := ds, k_dev_count := k_dev_count k + 1\<rparr>) (es @ [e])"
  using dev_register_ok [OF assms(1), of "c_string x" ops d] assms(2-5) by (auto simp: MAX_DEVICES_def)

lemma tty_system_init_total:
  assumes d: "devs_rep k []" and wh: "wh_inv (k_wh k) (\<lambda>_. [])"
  shows "\<exists>k'. tty_system_init k = Inr k' \<and> k_con k' = k_con k"
proof -
  let ?k = "(init_ttys TTY_COUNT k)\<lparr>k_active := Some 0, k_kbd := keyboard_init\<rparr>"
  have t: "k_con ?k = k_con k" "devs_rep ?k []"
    using init_ttys_eq [OF wh, of 12] d by (simp_all add: TTY_COUNT_def devs_rep_def)
  obtain ds c es where r: "register_ttys TTY_COUNT ?k = Inr (?k\<lparr>k_devs := ds, k_dev_count := c\<rparr>)"
    "devs_rep (?k\<lparr>k_devs := ds, k_dev_count := c\<rparr>) es" "length es = 12"
    using register_ttys_ok [OF t(2), of TTY_COUNT] by (auto simp: TTY_COUNT_def)
  let ?s = "\<lambda>ds c. ?k\<lparr>k_devs := ds, k_dev_count := c\<rparr>"
  have step: "\<exists>ds' e. dev_register (Some (c_string x)) (Some tty_dev_ops) v (?s ds c) = Inr (0, ?s ds' (c + 1)) \<and> devs_rep (?s ds' (c + 1)) (es @ [e])"
    if "devs_rep (?s ds c) es" "length es < 32" "no_nul x" "x \<noteq> []" "hd x \<noteq> SL" for ds c es x v
    using register_named_ok [OF that, of tty_dev_ops v] by simp
  obtain d1 e1 where r1: "dev_register (Some (c_string ''tty'')) (Some tty_dev_ops) DNull (?s ds c) = Inr (0, ?s d1 (c + 1))"
    "devs_rep (?s d1 (c + 1)) (es @ [e1])" using step [OF r(2), of "''tty''" DNull] r(3) by auto
  obtain d2 e2 where r2: "dev_register (Some (c_string ''stdin'')) (Some tty_dev_ops) (DMarker 1) (?s d1 (c + 1)) = Inr (0, ?s d2 (c + 1 + 1))"
    "devs_rep (?s d2 (c + 1 + 1)) ((es @ [e1]) @ [e2])" using step [OF r1(2), of "''stdin''" "DMarker 1"] r(3) by auto
  obtain d3 e3 where r3: "dev_register (Some (c_string ''stdout'')) (Some tty_dev_ops) (DMarker 2) (?s d2 (c + 1 + 1)) = Inr (0, ?s d3 (c + 1 + 1 + 1))"
    "devs_rep (?s d3 (c + 1 + 1 + 1)) (((es @ [e1]) @ [e2]) @ [e3])" using step [OF r2(2), of "''stdout''" "DMarker 2"] r(3) by auto
  obtain d4 e4 where r4: "dev_register (Some (c_string ''stderr'')) (Some tty_dev_ops) (DMarker 3) (?s d3 (c + 1 + 1 + 1)) = Inr (0, ?s d4 (c + 1 + 1 + 1 + 1))"
    "devs_rep (?s d4 (c + 1 + 1 + 1 + 1)) ((((es @ [e1]) @ [e2]) @ [e3]) @ [e4])" using step [OF r3(2), of "''stderr''" "DMarker 3"] r(3) by auto
  have "tty_system_init k = Inr (?s d4 (c + 1 + 1 + 1 + 1))"
    unfolding tty_system_init_def Let_def using r(1) r1(1) r2(1) r3(1) r4(1) by simp
  then show ?thesis using t(1) by auto
qed

subsection \<open>Programs that can start\<close>

definition can_start :: "bins \<Rightarrow> string \<Rightarrow> string list option \<Rightarrow> string list option \<Rightarrow> bool" where
  "can_start bins path av ev =
     (case find_bin bins (c_string path) of
        Some (Some i) \<Rightarrow> i < length bins \<and> image_ok (bin_bytes (bins ! i))
          \<and> stretch_ok (align_up (ei_max_offset (image_info (bin_bytes (bins ! i)))) 16)
              (vector_size (arg_strings av) + vector_size (arg_strings ev))
          \<and> (\<forall>s \<in> set (arg_strings av) \<union> set (arg_strings ev). no_nul s)
      | _ \<Rightarrow> False)"

definition start_of :: "bins \<Rightarrow> string \<Rightarrow> string list option \<Rightarrow> string list option \<Rightarrow> trampoline option" where
  "start_of bins path av ev =
     (case find_bin bins (c_string path) of
        Some (Some i) \<Rightarrow> let info = image_info (bin_bytes (bins ! i))
          in Some (start_info info (align_up (ei_max_offset info) 16) (arg_strings av) (arg_strings ev))
      | _ \<Rightarrow> None)"

lemma load_new_task_total:
  assumes p: "process_mapped t" and b: "i < length bins" "image_ok (bin_bytes (bins ! i))"
    and brk: "brk = align_up (ei_max_offset (image_info (bin_bytes (bins ! i)))) 16"
    and st: "stretch_ok brk (vector_size (arg_strings av) + vector_size (arg_strings ev))"
    and nn: "\<forall>s \<in> set (arg_strings av) \<union> set (arg_strings ev). no_nul s"
  shows "\<exists>k'. load_new_task bins i t fn (kernel_args av) (kernel_args ev) k
      = Inr (Some (t, start_info (image_info (bin_bytes (bins ! i))) brk (arg_strings av) (arg_strings ev)), k')
    \<and> k_con k' = k_con k \<and> t_name (k_tasks k' t) = t_name (k_tasks k t)"
proof -
  let ?img = "bin_bytes (bins ! i)"
  let ?k1 = "set_mem t (overlay ?img (segments ?img) (k_mem k t)) k"
  have nn': "\<forall>s \<in> set (arg_strings av) \<union> set (arg_strings ev). NUL \<notin> set s" using nn by (simp add: no_nul_def)
  have o: "ei_curbrk_off (image_info ?img) = 0" "ei_environ_off (image_info ?img) = 0" by (simp_all add: image_info_def)
  obtain m where m: "setup_program t (image_info ?img) (kernel_args av) (kernel_args ev) ?k1
      = Inr (Some (start_info (image_info ?img) brk (arg_strings av) (arg_strings ev)),
        updt t (started brk (vector_size (arg_strings av) + vector_size (arg_strings ev))) (set_mem t m ?k1))"
    using setup_program_ok [OF p brk o st nn'] by blast
  show ?thesis
    using b elf_load_ok [OF p b(2), of k] m
    by (simp add: load_new_task_def rd_in) (simp add: updt_def set_mem_def started_def)
qed

lemma task_kernel_exec_total:
  assumes b: "booting k us (t # fs)" and p: "process_mapped t" and c: "can_start bins fn av ev" and fn: "no_nul fn" "length fn < 64"
  shows "\<exists>tr k'. task_kernel_exec bins fn 0 (kernel_args av) (kernel_args ev) k = Inr (Some (t, tr), k')
    \<and> start_of bins fn av ev = Some tr \<and> k_con k' = k_con k \<and> cstr (t_name (k_tasks k' t)) = fn"
proof -
  note B = bootingD [OF b]
  have t: "t < 64" using B(12) by simp
  obtain i where i: "find_bin bins (c_string fn) = Some (Some i)" "i < length bins" "image_ok (bin_bytes (bins ! i))"
    "stretch_ok (align_up (ei_max_offset (image_info (bin_bytes (bins ! i)))) 16) (vector_size (arg_strings av) + vector_size (arg_strings ev))"
    "\<forall>s \<in> set (arg_strings av) \<union> set (arg_strings ev). no_nul s"
    using c unfolding can_start_def by (auto split: option.splits)
  obtain tt ts where tt: "task_table_alloc (k_tt k, k_tasks k) = Inr (Some t, tt, ts)"
    "\<exists>pid. ts = upd t (\<lambda>x. x\<lparr>t_pid := pid\<rparr>) (k_tasks k)"
    using task_table_alloc_Cons [OF B(4,5)] by blast
  let ?k1 = "k\<lparr>k_tt := tt, k_tasks := ts\<rparr>"
  have len: "length (t_name (ts t)) = 64" "length (t_cwd (ts t)) = 64" using tt(2) B(7) t by (auto simp: names_kept_def)
  obtain name where nm: "k_strcpy (t_name (ts t)) (c_string fn) = Some name" "cstr name = fn"
    using k_strcpy_string [of "c_string fn" "t_name (ts t)"] len fn by auto
  obtain cwd where cw: "k_strcpy (t_cwd (ts t)) (c_string ''/'') = Some cwd"
    using k_strcpy_string [of "c_string ''/''" "t_cwd (ts t)"] len by (auto simp: no_nul_def)
  let ?k2 = "task_init_tty t 0 (signal_init t (updt t (new_task t name) ?k1))"
  have k2: "t_parent (the_task t ?k2) = Some t" "t_cwd (the_task t ?k2) = t_cwd (ts t)" "k_con ?k2 = k_con k" "t_name (k_tasks ?k2 t) = name"
    by (simp_all add: task_init_tty_def signal_init_def updt_def new_task_def the_task_def)
  let ?k3 = "updt t (\<lambda>x. x\<lparr>t_cwd := cwd\<rparr>) ?k2"
  have w: "task_init_cwd t ?k2 = Inr ?k3" using cw k2(1,2) by (simp add: task_init_cwd_def)
  obtain k' where l: "load_new_task bins i t fn (kernel_args av) (kernel_args ev) ?k3 = Inr (Some (t,
      start_info (image_info (bin_bytes (bins ! i))) (align_up (ei_max_offset (image_info (bin_bytes (bins ! i)))) 16) (arg_strings av) (arg_strings ev)), k')"
    "k_con k' = k_con ?k3" "t_name (k_tasks k' t) = t_name (k_tasks ?k3 t)"
    using load_new_task_total [OF p i(2,3) refl i(4,5)] by blast
  have "task_kernel_exec bins fn 0 (kernel_args av) (kernel_args ev) k = load_new_task bins i t fn (kernel_args av) (kernel_args ev) ?k3"
    using i(1) tt(1) nm(1) w by (simp add: task_kernel_exec_def TTY_COUNT_def table_alloc_def the_task_def)
  moreover have "k_con ?k3 = k_con k" "cstr (t_name (k_tasks ?k3 t)) = fn" using k2(3,4) nm(2) by (simp_all add: updt_def)
  ultimately show ?thesis using l i(1) by (simp add: start_of_def Let_def)
qed

lemma booting_enqueue_total:
  assumes b: "booting k [t, s] fs" and s: "k_swapper k = Some s" "t \<noteq> s"
  shows "\<exists>k'. sched_enqueue t k = Inr k' \<and> k_con k' = k_con k \<and> k_current k' = k_current k \<and> t_name (k_tasks k' t) = t_name (k_tasks k t)"
proof -
  note B = bootingD [OF b]
  have t: "t < 64" using B(6) by auto
  let ?k0 = "k\<lparr>k_tasks := upd t (\<lambda>x. x\<lparr>t_state := TASK_POOLED\<rparr>) (k_tasks k)\<rparr>"
  have s0: "sched_inv ?k0 [] (\<lambda>_. [])"
    by (rule booting_sched [OF b s(1)]) (use B(10) s(2) in \<open>auto simp: upd_apply\<close>)
  have st: "t_state (k_tasks k t) = TASK_QUEUED" using B(10) [OF t] by simp
  have a: "t < MAX_PROCESS_CNT" "t \<notin> set []" "t \<notin> waiting (\<lambda>_. [])" "k_current ?k0 \<noteq> Some t" "k_swapper ?k0 \<noteq> Some t"
    using t B(1) s by (simp_all add: waiting_def)
  obtain rq ts where q: "sched_enqueue t k = Inr (k\<lparr>k_rq := rq, k_tasks := ts\<rparr>)" "\<And>i. unlink (ts i) = unlink (k_tasks k i)"
    using sched_enqueue_inv [OF s0 a st] by (auto simp: upd_apply)
  from unlink_eqD(6) [OF q(2), of t] q(1) show ?thesis by simp
qed

subsection \<open>kmain\<close>

definition booted :: "bins \<Rightarrow> machine \<Rightarrow> bool" where
  "booted bins m \<longleftrightarrow> k_current (m_kernel m) = Some 1 \<and> k_swapper (m_kernel m) = Some 0
     \<and> cstr (t_name (the_task 1 (m_kernel m))) = ''/sbin/init''
     \<and> (\<exists>tr. start_of bins ''/sbin/swapper'' (Some [''/sbin/swapper'']) (Some []) = Some tr \<and> m_cont m 0 = Start tr)
     \<and> (\<exists>tr. start_of bins ''/sbin/init'' (Some [''/sbin/init'']) None = Some tr \<and> m_cont m 1 = Start tr)"

lemma kmain_early_total:
  assumes "length video = 2000" "good_hw hw"
  obtains clk k where "clock_init hw = Inr clk"
    "kmain_kernel bins hw video =
       bindR (sched_init bins k) (\<lambda>(tr0, k).
       bindR (kprint (kline ''Enabling interrupts.'') k) (\<lambda>k.
       bindR (sched_kernel_exec bins ''/sbin/init'' 0 (KArgs [c_string ''/sbin/init'']) NoArgs k) (\<lambda>(_, init, k).
       bindR (sched_schedule k) (\<lambda>k.
         Inr \<lparr> m_kernel = k, m_cont = first_conts (k_swapper k) tr0 init, m_clock = clk \<rparr>))))"
    "length (tt_free_ring (k_tt k)) = 64" "wh_inv (k_wh k) (\<lambda>_. [])" "\<exists>(k0 :: kernel) ms. k_vfs k = (vfs_init (k_vfs k0))\<lparr>v_mounts := ms\<rparr>"
    "con_ok (k_con k)" "ttys_ok k" "con_esc (k_con k) = CON_ESC_NONE"
proof -
  let ?b = "bss_kernel\<lparr>k_con := (k_con bss_kernel)\<lparr>con_video := video\<rparr>\<rparr>"
  obtain clk where clk: "clock_init hw = Inr clk"
    using assms(2) clock_init_ends by blast
  obtain c1 where c1: "console_init ?b = Inr (bss_kernel\<lparr>k_con := c1\<rparr>)" "con_ok c1" "con_esc c1 = CON_ESC_NONE"
    using vga_init_ok [of "k_con ?b"] assms(1) by (auto simp: console_init_def bss_kernel_def)
  have pr: "\<exists>con. kprint (kline s) (k\<lparr>k_con := c\<rparr>) = Inr (k\<lparr>k_con := con\<rparr>) \<and> con_ok con \<and> con_esc con = CON_ESC_NONE"
    if "con_ok c" "con_esc c = CON_ESC_NONE" "plain_text s" for s c k
    using kprint_plain [of "k\<lparr>k_con := c\<rparr>" "kline s"] plain_kline [OF that(3)] that(1,2) by simp
  obtain c2 where c2: "kprint (kline ''PUnix 0.001'') (bss_kernel\<lparr>k_con := c1\<rparr>) = Inr (bss_kernel\<lparr>k_con := c2\<rparr>)" "con_ok c2" "con_esc c2 = CON_ESC_NONE"
    using pr [OF c1(2,3), of "''PUnix 0.001''"] by auto
  obtain c3 where c3: "kprint (kline ''Init Interrupt Descriptor Table.'') (bss_kernel\<lparr>k_con := c2\<rparr>) = Inr (bss_kernel\<lparr>k_con := c3\<rparr>)" "con_ok c3" "con_esc c3 = CON_ESC_NONE"
    using pr [OF c2(2,3), of "''Init Interrupt Descriptor Table.''"] by auto
  obtain c4 where c4: "kprint (kline ''Init Memory Management.'') (bss_kernel\<lparr>k_con := c3\<rparr>) = Inr (bss_kernel\<lparr>k_con := c4\<rparr>)" "con_ok c4" "con_esc c4 = CON_ESC_NONE"
    using pr [OF c3(2,3), of "''Init Memory Management.''"] by auto
  have dv: "length (k_devs (bss_kernel\<lparr>k_con := c4\<rparr>)) = MAX_DEVICES" "\<forall>d \<in> set (k_devs (bss_kernel\<lparr>k_con := c4\<rparr>)). length (dv_name d) = 32"
    by (simp_all add: bss_kernel_def MAX_DEVICES_def zero_dev_def)
  obtain ds where ds: "dev_init (bss_kernel\<lparr>k_con := c4\<rparr>) = Inr (bss_kernel\<lparr>k_con := c4, k_devs := ds, k_dev_count := 0\<rparr>)"
    "devs_rep (bss_kernel\<lparr>k_con := c4, k_devs := ds, k_dev_count := 0\<rparr>) []"
    using dev_init_ok [OF dv] by auto
  let ?k5 = "bss_kernel\<lparr>k_devs := ds, k_dev_count := 0\<rparr>"
  have k5: "bss_kernel\<lparr>k_con := c4, k_devs := ds, k_dev_count := 0\<rparr> = ?k5\<lparr>k_con := c4\<rparr>" by simp
  obtain c6 where c6: "kprint (kline ''Init VFS.'') (?k5\<lparr>k_con := c4\<rparr>) = Inr (?k5\<lparr>k_con := c6\<rparr>)" "con_ok c6" "con_esc c6 = CON_ESC_NONE"
    using pr [OF c4(2,3), of "''Init VFS.''" ?k5] by auto
  have bv: "k_vfs (?k5\<lparr>k_con := c6\<rparr>) = blank_vfs" by (simp add: bss_kernel_def blank_vfs_def)
  obtain v where v: "mount_all kmain_mounts (vfs_init blank_vfs) = Some v" using fresh_mounts by blast
  let ?k7 = "?k5\<lparr>k_vfs := v\<rparr>"
  have k7: "kmain_vfs (?k5\<lparr>k_con := c6\<rparr>) = Inr (?k7\<lparr>k_con := c6\<rparr>)" using v by (simp add: kmain_vfs_def bv del: kmain_mounts_def)
  obtain c8 where c8: "kprint (kline ''Init TTYs.'') (?k7\<lparr>k_con := c6\<rparr>) = Inr (?k7\<lparr>k_con := c8\<rparr>)" "con_ok c8" "con_esc c8 = CON_ESC_NONE"
    using pr [OF c6(2,3), of "''Init TTYs.''" ?k7] by auto
  let ?k8 = "?k7\<lparr>k_con := c8\<rparr>"
  have d8: "devs_rep ?k8 []" using ds(2) by (simp add: devs_rep_def)
  have w8: "wh_inv (k_wh ?k8) (\<lambda>_. [])" "k_ttys ?k8 i = zero_tty" for i using wh_inv_init [of None] by (simp_all add: bss_kernel_def)
  obtain k9 where k9: "tty_system_init ?k8 = Inr k9" "k_con k9 = c8" using tty_system_init_total [OF d8 w8(1)] by auto
  note y = tty_system_init_ok [OF k9(1) w8]
  have e9: "k9\<lparr>k_con := c8\<rparr> = k9" using k9(2) by simp
  obtain c10 where c10: "kprint (kline ''Init scheduler.'') k9 = Inr (k9\<lparr>k_con := c10\<rparr>)" "con_ok c10" "con_esc c10 = CON_ESC_NONE"
    using pr [OF c8(2,3), of "''Init scheduler.''" k9] unfolding e9 by auto
  obtain ms where ms: "v = (vfs_init blank_vfs)\<lparr>v_mounts := ms\<rparr>" using mount_all_frame [OF v] by blast
  show ?thesis
  proof (rule that [OF clk, of "k9\<lparr>k_con := c10\<rparr>"])
    show "kmain_kernel bins hw video =
       bindR (sched_init bins (k9\<lparr>k_con := c10\<rparr>)) (\<lambda>(tr0, k).
       bindR (kprint (kline ''Enabling interrupts.'') k) (\<lambda>k.
       bindR (sched_kernel_exec bins ''/sbin/init'' 0 (KArgs [c_string ''/sbin/init'']) NoArgs k) (\<lambda>(_, init, k).
       bindR (sched_schedule k) (\<lambda>k.
         Inr \<lparr> m_kernel = k, m_cont = first_conts (k_swapper k) tr0 init, m_clock = clk \<rparr>))))"
      unfolding kmain_kernel_def by (simp only: c1(1) c2(1) clk c3(1) c4(1) ds(1) k5 c6(1) k7 c8(1) k9(1) c10(1) bindR_simps)
    show "length (tt_free_ring (k_tt (k9\<lparr>k_con := c10\<rparr>))) = 64" "wh_inv (k_wh (k9\<lparr>k_con := c10\<rparr>)) (\<lambda>_. [])"
      using boot_ioD [OF y(2)] w8(1) by (simp_all add: bss_kernel_def)
    show "\<exists>(k0 :: kernel) ms. k_vfs (k9\<lparr>k_con := c10\<rparr>) = (vfs_init (k_vfs k0))\<lparr>v_mounts := ms\<rparr>"
      using boot_ioD(4) [OF y(2)] ms bv by (intro exI [of _ "?k5\<lparr>k_con := c6\<rparr>"] exI [of _ ms]) simp
    show "con_ok (k_con (k9\<lparr>k_con := c10\<rparr>))" "con_esc (k_con (k9\<lparr>k_con := c10\<rparr>)) = CON_ESC_NONE" using c10 by simp_all
    show "ttys_ok (k9\<lparr>k_con := c10\<rparr>)" using y(1) by (simp add: ttys_ok_def)
  qed
qed

lemma kmain_kernel_total:
  assumes v: "length video = 2000" and hw: "good_hw hw"
    and c: "can_start bins ''/sbin/swapper'' (Some [''/sbin/swapper'']) (Some [])" "can_start bins ''/sbin/init'' (Some [''/sbin/init'']) None"
  shows "\<exists>m. kmain_kernel bins hw video = Inr m \<and> booted bins m"
proof -
  obtain clk k where E: "clock_init hw = Inr clk"
    "kmain_kernel bins hw video =
       bindR (sched_init bins k) (\<lambda>(tr0, k).
       bindR (kprint (kline ''Enabling interrupts.'') k) (\<lambda>k.
       bindR (sched_kernel_exec bins ''/sbin/init'' 0 (KArgs [c_string ''/sbin/init'']) NoArgs k) (\<lambda>(_, init, k).
       bindR (sched_schedule k) (\<lambda>k.
         Inr \<lparr> m_kernel = k, m_cont = first_conts (k_swapper k) tr0 init, m_clock = clk \<rparr>))))"
    "length (tt_free_ring (k_tt k)) = 64" "wh_inv (k_wh k) (\<lambda>_. [])" "\<exists>(k0 :: kernel) ms. k_vfs k = (vfs_init (k_vfs k0))\<lparr>v_mounts := ms\<rparr>"
    "con_ok (k_con k)" "ttys_ok k" "con_esc (k_con k) = CON_ESC_NONE"
    by (rule kmain_early_total [OF v hw])
  obtain k0 :: kernel and ms where vf: "k_vfs k = (vfs_init (k_vfs k0))\<lparr>v_mounts := ms\<rparr>" using E(5) by blast
  obtain tt ts where t: "task_table_init (k_tt k, k_tasks k) = (tt, ts)" by (cases "task_table_init (k_tt k, k_tasks k)")
  let ?k = "k\<lparr>k_current := None, k_ctxt := 0, k_rq := run_queue_init, k_tt := tt, k_tasks := ts\<rparr>"
  have b0: "booting ?k [] (0 # [1..<64])"
    using sched_table_booting [OF t E(3,4) vf E(6,7)] upt_conv_Cons [of 0 64] by (simp del: upt_rec_numeral)
  have pm: "process_mapped 0" "process_mapped 1" by (simp_all add: process_mapped_def)
  have nn: "no_nul ''/sbin/swapper''" "length ''/sbin/swapper'' < 64" "no_nul ''/sbin/init''" "length ''/sbin/init'' < 64" by (simp_all add: no_nul_def)
  obtain tr0 k1 where s: "task_kernel_exec bins ''/sbin/swapper'' 0 (kernel_args (Some [''/sbin/swapper''])) (kernel_args (Some [])) ?k = Inr (Some (0, tr0), k1)"
    "start_of bins ''/sbin/swapper'' (Some [''/sbin/swapper'']) (Some []) = Some tr0" "k_con k1 = k_con k"
    using task_kernel_exec_total [OF b0 pm(1) c(1) nn(1,2)] by auto
  note s' = s(1) [unfolded kernel_args_def, simplified]
  have si: "sched_init bins k = Inr (tr0, k1\<lparr>k_swapper := Some 0\<rparr>)" using s' by (simp add: sched_init_def t)
  let ?k1 = "k1\<lparr>k_swapper := Some 0\<rparr>"
  note b1 = sched_init_booting [OF si E(3,4) vf E(6,7)]
  obtain c2 where p2: "kprint (kline ''Enabling interrupts.'') ?k1 = Inr (?k1\<lparr>k_con := c2\<rparr>)" "con_ok c2"
    using kprint_plain [of ?k1 "kline ''Enabling interrupts.''"] s(3) E(6,8) plain_kline by auto
  let ?k2 = "?k1\<lparr>k_con := c2\<rparr>"
  have "[1..<64] = 1 # [2..<64 :: nat]" by (simp add: upt_conv_Cons numeral_2_eq_2 del: upt_rec_numeral)
  then have b2: "booting ?k2 [0] (1 # [2..<64])" using booting_keeps [OF b1(1) kprint_keeps [OF bootingD(8) [OF b1(1)] p2(1)]] by simp
  obtain tr1 k3 where i: "task_kernel_exec bins ''/sbin/init'' 0 (kernel_args (Some [''/sbin/init''])) (kernel_args None) ?k2 = Inr (Some (1, tr1), k3)"
    "start_of bins ''/sbin/init'' (Some [''/sbin/init'']) None = Some tr1" "k_con k3 = c2" "cstr (t_name (k_tasks k3 1)) = ''/sbin/init''"
    using task_kernel_exec_total [OF b2 pm(2) c(2) nn(3,4)] by auto
  note i' = i(1) [unfolded kernel_args_def, simplified]
  have b3: "booting k3 [1, 0] [2..<64]" "k_swapper k3 = Some 0" using task_kernel_exec_booting [OF b2 i'] by simp_all
  obtain k4 where q: "sched_enqueue 1 k3 = Inr k4" "k_con k4 = c2" "k_current k4 = None" "t_name (k_tasks k4 1) = t_name (k_tasks k3 1)"
    using booting_enqueue_total [OF b3] bootingD(1) [OF b3(1)] i(3) by auto
  have ik: "sched_kernel_exec bins ''/sbin/init'' 0 (KArgs [c_string ''/sbin/init'']) NoArgs ?k2 = Inr (t_pid (the_task 1 k4), Some (1, tr1), k4)"
    using i' q(1) by (simp add: sched_kernel_exec_def)
  note K4 = booting_enqueue [OF b3 _ q(1)]
  have k4: "kinv k4 [1] (\<lambda>_. []) (\<lambda>_. [])" "k_swapper k4 = Some 0" using K4(1,3) b3(2) by simp_all
  obtain k5 where k5: "sched_schedule k4 = Inr k5" "k_current k5 = Some 1" "sched_frame k4 k5"
    using sched_schedule_inv [OF kinvD(4,6) [OF k4(1)]] by (auto simp: chosen_def)
  obtain cd con rq ts5 cur ct where fr: "k5 = k4\<lparr>k_countdown := cd, k_con := con, k_rq := rq, k_tasks := ts5, k_current := cur, k_ctxt := ct\<rparr>"
    "\<forall>i. erase (ts5 i) = erase (k_tasks k4 i)"
    using k5(3) unfolding sched_frame_def by blast
  have nm: "t_name (k_tasks k5 1) = t_name (k_tasks k4 1)" using eraseD [OF fr(2) [rule_format, of 1]] fr(1) by simp
  have sw: "k_swapper k5 = Some 0" using fr(1) k4(2) by simp
  have "kmain_kernel bins hw video = Inr \<lparr> m_kernel = k5, m_cont = ((\<lambda>_. Gone)(0 := Start tr0))(1 := Start tr1), m_clock = clk \<rparr>"
    using E(2) si p2(1) ik k5(1) sw by (simp add: first_conts_def)
  moreover have "booted bins \<lparr> m_kernel = k5, m_cont = ((\<lambda>_. Gone)(0 := Start tr0))(1 := Start tr1), m_clock = clk \<rparr>"
    using k5(2) sw nm q(4) i(2,4) s(2) by (simp add: booted_def the_task_def)
  ultimately show ?thesis by blast
qed

subsection \<open>The whole of kmain\<close>

lemma premain_bss: "premain_built esp kpd s \<Longrightarrow> premain_built esp kpd (on_cpu f (bss_mm s))"
proof -
  have "page (on_cpu f (bss_mm s)) n = page s n" for n by (rule page_cong) (simp add: on_cpu_def bss_mm_def)
  then show "premain_built esp kpd s \<Longrightarrow> premain_built esp kpd (on_cpu f (bss_mm s))"
    by (simp add: premain_built_def on_cpu_def bss_mm_def pool_ok_def)
qed

lemma on_cpu_simps [simp]:
  "cpu (on_cpu f s) = f (cpu s)" "isr_page_fault (on_cpu f s) = isr_page_fault s" "isr_page_fault (bss_mm s) = isr_page_fault s"
  "cpu (bss_mm s) = bss_cpu (cpu s)" "spaces_ok k (on_cpu f s) = spaces_ok k s" "stack_mapped esp k (on_cpu f s) = stack_mapped esp k s"
proof -
  have "on_cpu f s = s\<lparr>cr3 := cr3 s, cpu := f (cpu s)\<rparr>" by (simp add: on_cpu_def)
  then show "spaces_ok k (on_cpu f s) = spaces_ok k s" "stack_mapped esp k (on_cpu f s) = stack_mapped esp k s"
    using spaces_cr3 [where s = s and a = "cr3 s" and c = "f (cpu s)"] by simp_all
qed (simp_all add: on_cpu_def bss_mm_def)

text \<open>What \<open>kmain\<close> does to page tables and interrupts ends too, and with it \<open>kmain\<close>.\<close>

lemma kmain_spaces:
  assumes r: "kmain_kernel bins hw video = Inr m" and len: "length video = 2000" and pm: "premain_built (ld_esp ld) (ld_kpd ld) s0"
    and c: "k_current (m_kernel m) = Some c" "c < 64"
  shows "\<exists>s. kmain bins ld hw video s0 = Inr (m, s) \<and> spaces_ok 64 s \<and> cr3 s = mm_pd_pa (proc_mms s c)
    \<and> cpu s = boot_interrupts (ld_idt ld) (ld_isr_default ld) (isr_page_fault s0) (ld_keyboard_irq_stub ld) (bss_cpu (cpu s0))"
proof -
  obtain k10 k12 where st: "boot_stages bins hw video k10 k12 m" using kmain_stages [OF r] by blast
  note b = boot_stages_booting [OF st len]
  have "[1..<64] = 1 # [2..<64 :: nat]" by (simp add: upt_conv_Cons numeral_2_eq_2 del: upt_rec_numeral)
  then have b12: "booting k12 [0] (1 # [2..<64])" using b(2) by simp
  let ?idt = "idt_init (ld_idt ld) (ld_isr_default ld) (bss_cpu (cpu s0))"
  obtain s1 where s1: "mm_init (ld_esp ld) (ld_kpd ld) (on_cpu (idt_init (ld_idt ld) (ld_isr_default ld)) (bss_mm s0)) = Inr s1"
    "spaces_ok 0 s1" "stack_mapped (ld_esp ld) 0 s1"
    "cpu s1 = interrupts_enable (idt_set_gate 14 (isr_page_fault s0) GDT_KERNEL_CS 0x8E ?idt)"
    using mm_init_ok [OF premain_bss [OF pm]] by auto
  let ?s1 = "on_cpu (keyboard_irq_setup (ld_keyboard_irq_stub ld)) s1"
  have "spaces_ok 0 ?s1" "stack_mapped (ld_esp ld) 0 ?s1" using s1(2,3) by simp_all
  from task_spaces_init_stack [OF this] obtain s2 where s2: "task_spaces_init ?s1 = Inr s2" "spaces_ok 64 s2" "stack_mapped (ld_esp ld) 64 s2"
    "cpu s2 = cpu ?s1" by blast
  obtain k1 k2 clk k3 k4 k5 k6 k7 k8 k9 tr0 k11 pid init k13 k14 where k:
    "console_init (bss_kernel\<lparr>k_con := (k_con bss_kernel)\<lparr>con_video := video\<rparr>\<rparr>) = Inr k1" "kprint (kline ''PUnix 0.001'') k1 = Inr k2"
    "clock_init hw = Inr clk"
    "kprint (kline ''Init Interrupt Descriptor Table.'') k2 = Inr k3" "kprint (kline ''Init Memory Management.'') k3 = Inr k4"
    "dev_init k4 = Inr k5" "kprint (kline ''Init VFS.'') k5 = Inr k6" "kmain_vfs k6 = Inr k7"
    "kprint (kline ''Init TTYs.'') k7 = Inr k8" "tty_system_init k8 = Inr k9" "kprint (kline ''Init scheduler.'') k9 = Inr k10"
    "sched_init bins k10 = Inr (tr0, k11)" "kprint (kline ''Enabling interrupts.'') k11 = Inr k12"
    "sched_kernel_exec bins ''/sbin/init'' 0 (KArgs [c_string ''/sbin/init'']) NoArgs k12 = Inr (pid, init, k13)"
    "sched_schedule k13 = Inr k14"
    "m = \<lparr> m_kernel = k14, m_cont = first_conts (k_swapper k14) tr0 init, m_clock = clk \<rparr>"
    using st unfolding boot_stages_def by blast
  have sl: "\<forall>t. exec_slot bins ''/sbin/swapper'' 0 (task_tables k10) = Some t \<longrightarrow> t < 64"
    "\<forall>t. exec_slot bins ''/sbin/init'' 0 k12 = Some t \<longrightarrow> t < 64"
    using exec_slot_booting [OF b(1)] exec_slot_booting [OF b12] by fastforce+
  obtain c3 a where s3: "in_space (ld_esp ld) (exec_slot bins ''/sbin/swapper'' 0 (task_tables k10)) (sched_init bins k10) s2
      = Inr ((tr0, k11), s2\<lparr>cr3 := a, cpu := c3\<rparr>)" "c3 = cpu s2 \<or> c3 = interrupts_enable (cpu s2)"
    using in_space_ok [OF s2(2,3) sl(1) k(12)] by blast
  let ?s3 = "on_cpu interrupts_enable (s2\<lparr>cr3 := a, cpu := c3\<rparr>)"
  have ok3: "spaces_ok 64 ?s3" "stack_mapped (ld_esp ld) 64 ?s3" using s2(2,3) by (simp_all add: spaces_cr3)
  obtain c4 a' where s4: "in_space (ld_esp ld) (exec_slot bins ''/sbin/init'' 0 k12)
      (sched_kernel_exec bins ''/sbin/init'' 0 (KArgs [c_string ''/sbin/init'']) NoArgs k12) ?s3
      = Inr ((pid, init, k13), ?s3\<lparr>cr3 := a', cpu := c4\<rparr>)" "c4 = cpu ?s3 \<or> c4 = interrupts_enable (cpu ?s3)"
    using in_space_ok [OF ok3 sl(2) k(14)] by blast
  let ?s4 = "?s3\<lparr>cr3 := a', cpu := c4\<rparr>"
  have run: "kmain bins ld hw video s0 = Inr (m, ctx_switch_mm (k_current k14) ?s4)"
    unfolding kmain_def Let_def
    by (simp only: k(1-11) s1(1) s2(1) s3(1) k(13) s4(1) k(15,16) bindR_simps prod.case)
  have c14: "k_current k14 = Some c" using c(1) k(16) by simp
  have "c4 = interrupts_enable (cpu s2)" using s3(2) s4(2) by auto
  then have cpu4: "interrupts_enable c4 = boot_interrupts (ld_idt ld) (ld_isr_default ld) (isr_page_fault s0) (ld_keyboard_irq_stub ld) (bss_cpu (cpu s0))"
    using s2(4) s1(4) by (simp add: boot_interrupts_def)
  let ?s = "ctx_switch_mm (k_current k14) ?s4"
  have s5: "?s = ?s4\<lparr>cr3 := mm_pd_pa (proc_mms ?s4 c), cpu := interrupts_enable (cli c4)\<rparr>"
    by (simp add: ctx_switch_mm_def c14 mm_at_def)
  have "spaces_ok 64 ?s" unfolding s5 spaces_cr3 by (rule ok3(1))
  moreover have "cr3 ?s = mm_pd_pa (proc_mms ?s c)" "cpu ?s = interrupts_enable c4" by (simp_all add: s5)
  ultimately show ?thesis using run cpu4 by auto
qed

lemma boots_enabled: "interrupts_are_enabled (boot_interrupts a b c d s)"
proof -
  have "(x OR 0x200) AND 0x200 \<noteq> 0" for x :: u32
  proof
    assume "(x OR 0x200) AND 0x200 = 0"
    then have "bit ((x OR 0x200) AND 0x200) 9 = False" by simp
    then show False by (simp add: bit_simps)
  qed
  then show ?thesis by (simp add: boot_interrupts_def interrupts_are_enabled_def interrupts_enable_def EFLAGS_IF_def)
qed

subsection \<open>Properties\<close>

text \<open>Two programs with the image of theory Loader, hardware with a valid clock, and the tables of theory Mm.\<close>

definition demo_bins :: bins where
  "demo_bins = [\<lparr> bin_name = c_string ''/sbin/swapper'', bin_bytes = demo_image \<rparr>, \<lparr> bin_name = c_string ''/sbin/init'', bin_bytes = demo_image \<rparr>]"

definition demo_hw :: hw where
  "demo_hw = \<lparr> hw_edx = 256, hw_ecx = 0, hw_cmos = (\<lambda>_. 1), hw_rtc_a = (\<lambda>n. if n < 5 then 0x80 else 0),
     hw_port61 = (\<lambda>n. if n < 7 then 0 else 0x20), hw_t0 = 0, hw_t1 = 100000, hw_t2 = 200000 \<rparr>"

definition demo_linked :: linked where
  "demo_linked = \<lparr> ld_esp = 0x803FEFF0, ld_kpd = 0x110000, ld_idt = 0x80002000, ld_isr_default = 0x80001800,
     ld_keyboard_irq_stub = 0x80001900 \<rparr>"

lemma demo_can_start:
  "can_start demo_bins ''/sbin/swapper'' (Some [''/sbin/swapper'']) (Some [])" "can_start demo_bins ''/sbin/init'' (Some [''/sbin/init'']) None"
proof -
  have f: "find_bin demo_bins (c_string ''/sbin/swapper'') = Some (Some 0)" "find_bin demo_bins (c_string ''/sbin/init'') = Some (Some 1)"
    by (simp_all add: find_bin_def demo_bins_def c_string_def)
  have i: "ei_max_offset (image_info demo_image) = 4194312" by (simp add: image_info_def demo_segments segment_end_def)
  show "can_start demo_bins ''/sbin/swapper'' (Some [''/sbin/swapper'']) (Some [])" "can_start demo_bins ''/sbin/init'' (Some [''/sbin/init'']) None"
    unfolding can_start_def f using demo_image_ok
    by (simp_all add: demo_bins_def i align_up_def stretch_ok_def REGION_END_def vector_size_def strings_size_def arg_strings_def no_nul_def)
qed

lemma demo_hw_good: "good_hw demo_hw"
proof -
  have "hw_rtc_a demo_hw 5 AND 0x80 = 0" "hw_port61 demo_hw 7 AND 0x20 \<noteq> 0" by (simp_all add: demo_hw_def)
  then show ?thesis unfolding good_hw_def by (auto simp: demo_hw_def rtc_value_def rtc_is_bcd_def bcd_def)
qed

text \<open>
  C4: the kernel boots. With video memory of 80 by 25 cells, a counter and a clock chip that
  \<open>clock_init\<close> accepts and whose two loops see what they wait for, page tables as the code before \<open>kmain\<close> leaves them, and images of the swapper and of init that lie inside their files and, with their
  arguments, inside a program's region, \<open>kmain\<close> comes to its end: no panic, no bad access, no endless loop. Slot 0 is the
  swapper and slot 1 init, each about to call its \<open>main\<close> with the arguments of theory Loader, and init
  is the task that runs first, in its own address space, with all spaces set up, the interrupt table of theory Irq installed
  and interrupts on.
\<close>

theorem kmain_boots:
  assumes "length video = 2000" "good_hw hw" "premain_built (ld_esp ld) (ld_kpd ld) s0"
    "can_start bins ''/sbin/swapper'' (Some [''/sbin/swapper'']) (Some [])" "can_start bins ''/sbin/init'' (Some [''/sbin/init'']) None"
  shows "\<exists>m s. kmain bins ld hw video s0 = Inr (m, s) \<and> booted bins m \<and> spaces_ok 64 s \<and> cr3 s = mm_pd_pa (proc_mms s 1)
    \<and> cpu s = boot_interrupts (ld_idt ld) (ld_isr_default ld) (isr_page_fault s0) (ld_keyboard_irq_stub ld) (bss_cpu (cpu s0))
    \<and> interrupts_are_enabled (cpu s)"
proof -
  obtain m where m: "kmain_kernel bins hw video = Inr m" "booted bins m" using kmain_kernel_total [OF assms(1,2,4,5)] by blast
  have "k_current (m_kernel m) = Some 1" using m(2) by (simp add: booted_def)
  from kmain_spaces [OF m(1) assms(1,3) this] m(2) show ?thesis by (auto simp: boots_enabled)
qed

theorem kmain_boots_witness:
  "\<exists>m s. kmain demo_bins demo_linked demo_hw (replicate 2000 0) premain_mm = Inr (m, s) \<and> booted demo_bins m \<and> interrupts_are_enabled (cpu s)"
proof -
  have "premain_built (ld_esp demo_linked) (ld_kpd demo_linked) premain_mm" using premain_mm_ok by (simp add: demo_linked_def)
  from kmain_boots [OF _ demo_hw_good this demo_can_start, of "replicate 2000 0"] show ?thesis by auto
qed

text \<open>
  C5: booting establishes the invariant of the whole kernel. Whatever the programs, the hardware and the page tables
  are: if \<open>kmain\<close> comes to its end, the machine it leaves satisfies \<open>machine_inv\<close>, from which calm
  runs start. A program that cannot be loaded has been given back to the task table.
\<close>

theorem kmain_establishes_invariant:
  assumes "kmain bins ld hw video s0 = Inr (m, s)" "length video = 2000" shows "machine_inv m"
  by (rule kmain_inv [OF assms])

theorem kmain_establishes_invariant_witness:
  "\<exists>m s. kmain demo_bins demo_linked demo_hw (replicate 2000 0) premain_mm = Inr (m, s) \<and> machine_inv m"
proof -
  obtain m where m: "kmain_kernel demo_bins demo_hw (replicate 2000 0) = Inr m" "booted demo_bins m"
    using kmain_kernel_total [OF _ demo_hw_good demo_can_start, of "replicate 2000 0"] by auto
  have p: "premain_built (ld_esp demo_linked) (ld_kpd demo_linked) premain_mm" using premain_mm_ok by (simp add: demo_linked_def)
  have "k_current (m_kernel m) = Some 1" using m(2) by (simp add: booted_def)
  from kmain_spaces [OF m(1) _ p this] obtain s where k: "kmain demo_bins demo_linked demo_hw (replicate 2000 0) premain_mm = Inr (m, s)" by auto
  from kmain_establishes_invariant [OF k] show ?thesis using k by auto
qed

end
