(* ===== verification/Abi.thy ===== *)
theory Abi
  imports Libc
begin

section \<open>arch/x86/include/syscall_arch.h: entering the kernel\<close>

text \<open>
  A system call goes through five registers: the number in \<open>eax\<close>, the arguments in \<open>ebx\<close>, \<open>ecx\<close>,
  \<open>edx\<close> and \<open>esi\<close>; the entry code hands them to \<open>sys_enter_dispatch_c\<close> in this order and the result comes
  back in \<open>eax\<close>. The entry is the function whose address the kernel stores at \<open>KERNEL_VA_BASE\<close>; \<open>at\<close>
  says which structure lies at an address of the kernel image. The wrappers of libs/libc.c load the registers
  (\<open>lib_write\<close> and so on); \<open>decode_call\<close> is how the cases of the dispatcher read them. Theories Libc and
  Syscall work on calls whose pointers have been followed: \<open>objects\<close> says what is at an address.
\<close>

record regs =
  r_eax :: u32
  r_ebx :: u32
  r_ecx :: u32
  r_edx :: u32
  r_esi :: u32

type_synonym entry = "regs \<Rightarrow> u32"

definition KERNEL_VA_BASE :: u32 where "KERNEL_VA_BASE = 2 * 1024 * 1024 * 1024"

text \<open>\<open>struct kernel_entry\<close>, at \<open>KERNEL_ENTRY_ADDR\<close>.\<close>

record kernel_entry =
  sys_enter :: entry

type_synonym kernel_image = "u32 \<Rightarrow> kernel_entry"

definition sys_enter_fn :: "kernel_image \<Rightarrow> entry" where
  "sys_enter_fn at = sys_enter (at KERNEL_VA_BASE)"

definition syscall0 :: "kernel_image \<Rightarrow> u32 \<Rightarrow> u32" where
  "syscall0 at nr = sys_enter_fn at \<lparr> r_eax = nr, r_ebx = 0, r_ecx = 0, r_edx = 0, r_esi = 0 \<rparr>"

definition syscall1 :: "kernel_image \<Rightarrow> u32 \<Rightarrow> u32 \<Rightarrow> u32" where
  "syscall1 at nr a1 = sys_enter_fn at \<lparr> r_eax = nr, r_ebx = a1, r_ecx = 0, r_edx = 0, r_esi = 0 \<rparr>"

definition syscall2 :: "kernel_image \<Rightarrow> u32 \<Rightarrow> u32 \<Rightarrow> u32 \<Rightarrow> u32" where
  "syscall2 at nr a1 a2 = sys_enter_fn at \<lparr> r_eax = nr, r_ebx = a1, r_ecx = a2, r_edx = 0, r_esi = 0 \<rparr>"

definition syscall3 :: "kernel_image \<Rightarrow> u32 \<Rightarrow> u32 \<Rightarrow> u32 \<Rightarrow> u32 \<Rightarrow> u32" where
  "syscall3 at nr a1 a2 a3 = sys_enter_fn at \<lparr> r_eax = nr, r_ebx = a1, r_ecx = a2, r_edx = a3, r_esi = 0 \<rparr>"

definition syscall4 :: "kernel_image \<Rightarrow> u32 \<Rightarrow> u32 \<Rightarrow> u32 \<Rightarrow> u32 \<Rightarrow> u32 \<Rightarrow> u32" where
  "syscall4 at nr a1 a2 a3 a4 = sys_enter_fn at \<lparr> r_eax = nr, r_ebx = a1, r_ecx = a2, r_edx = a3, r_esi = a4 \<rparr>"

definition syscall5 :: "u32 \<Rightarrow> u32 \<Rightarrow> u32 \<Rightarrow> u32 \<Rightarrow> u32 \<Rightarrow> u32 \<Rightarrow> u32" where
  "syscall5 nr a1 a2 a3 a4 a5 = word_of_int (- ENOSYS)"

definition syscall6 :: "u32 \<Rightarrow> u32 \<Rightarrow> u32 \<Rightarrow> u32 \<Rightarrow> u32 \<Rightarrow> u32 \<Rightarrow> u32 \<Rightarrow> u32" where
  "syscall6 nr a1 a2 a3 a4 a5 a6 = word_of_int (- ENOSYS)"

subsection \<open>The library's side\<close>

definition SYS_exit :: u32 where "SYS_exit = 1"
definition SYS_fork :: u32 where "SYS_fork = 2"
definition SYS_read :: u32 where "SYS_read = 3"
definition SYS_write :: u32 where "SYS_write = 4"
definition SYS_open :: u32 where "SYS_open = 5"
definition SYS_close :: u32 where "SYS_close = 6"
definition SYS_waitpid :: u32 where "SYS_waitpid = 7"
definition SYS_execve :: u32 where "SYS_execve = 11"
definition SYS_chdir :: u32 where "SYS_chdir = 12"
definition SYS_getpid :: u32 where "SYS_getpid = 20"
definition SYS_nice :: u32 where "SYS_nice = 34"
definition SYS_kill :: u32 where "SYS_kill = 37"
definition SYS_brk :: u32 where "SYS_brk = 45"
definition SYS_fstat :: u32 where "SYS_fstat = 108"
definition SYS_getdents :: u32 where "SYS_getdents = 141"
definition SYS_sched_yield :: u32 where "SYS_sched_yield = 158"
definition SYS_getcwd :: u32 where "SYS_getcwd = 183"
definition SYS_clock_gettime :: u32 where "SYS_clock_gettime = 265"
definition SYS_setctty :: u32 where "SYS_setctty = 500"

lemmas SYS_defs = SYS_exit_def SYS_fork_def SYS_read_def SYS_write_def SYS_open_def SYS_close_def SYS_waitpid_def SYS_execve_def
  SYS_chdir_def SYS_getpid_def SYS_nice_def SYS_kill_def SYS_brk_def SYS_fstat_def SYS_getdents_def SYS_sched_yield_def
  SYS_getcwd_def SYS_clock_gettime_def SYS_setctty_def

text \<open>An \<open>int\<close> argument is converted to \<open>uint32_t\<close>, and an \<open>int\<close> result back.\<close>

definition lib_write :: "kernel_image \<Rightarrow> int \<Rightarrow> u32 \<Rightarrow> u32 \<Rightarrow> int" where
  "lib_write at fd buf count = sint (syscall3 at SYS_write (word_of_int fd) buf count)"

definition lib_read :: "kernel_image \<Rightarrow> int \<Rightarrow> u32 \<Rightarrow> u32 \<Rightarrow> int" where
  "lib_read at fd buf count = sint (syscall3 at SYS_read (word_of_int fd) buf count)"

definition lib_getpid :: "kernel_image \<Rightarrow> int" where "lib_getpid at = sint (syscall0 at SYS_getpid)"

definition lib_sched_yield :: "kernel_image \<Rightarrow> u32" where "lib_sched_yield at = syscall0 at SYS_sched_yield"

definition lib_exit :: "kernel_image \<Rightarrow> int \<Rightarrow> u32" where "lib_exit at status = syscall1 at SYS_exit (word_of_int status)"

definition lib_kill :: "kernel_image \<Rightarrow> int \<Rightarrow> int \<Rightarrow> int" where
  "lib_kill at pid sig = sint (syscall2 at SYS_kill (word_of_int pid) (word_of_int sig))"

definition lib_nice :: "kernel_image \<Rightarrow> int \<Rightarrow> int" where "lib_nice at inc = sint (syscall1 at SYS_nice (word_of_int inc))"

definition lib_setctty :: "kernel_image \<Rightarrow> int \<Rightarrow> int" where "lib_setctty at i = sint (syscall1 at SYS_setctty (word_of_int i))"

definition lib_waitpid :: "kernel_image \<Rightarrow> int \<Rightarrow> u32 \<Rightarrow> int \<Rightarrow> int" where
  "lib_waitpid at pid status options = sint (syscall3 at SYS_waitpid (word_of_int pid) status (word_of_int options))"

definition lib_fork :: "kernel_image \<Rightarrow> int" where "lib_fork at = sint (syscall0 at SYS_fork)"

definition lib_execve :: "kernel_image \<Rightarrow> u32 \<Rightarrow> u32 \<Rightarrow> u32 \<Rightarrow> int" where
  "lib_execve at path argv envp = sint (syscall3 at SYS_execve path argv envp)"

definition lib_open :: "kernel_image \<Rightarrow> u32 \<Rightarrow> int \<Rightarrow> int \<Rightarrow> int" where
  "lib_open at path flags mode = sint (syscall3 at SYS_open path (word_of_int flags) (word_of_int mode))"

definition lib_close :: "kernel_image \<Rightarrow> int \<Rightarrow> int" where "lib_close at fd = sint (syscall1 at SYS_close (word_of_int fd))"

definition lib_getdents :: "kernel_image \<Rightarrow> int \<Rightarrow> u32 \<Rightarrow> u32 \<Rightarrow> int" where
  "lib_getdents at fd buf count = sint (syscall3 at SYS_getdents (word_of_int fd) buf count)"

definition lib_fstat :: "kernel_image \<Rightarrow> int \<Rightarrow> u32 \<Rightarrow> int" where
  "lib_fstat at fd buf = sint (syscall2 at SYS_fstat (word_of_int fd) buf)"

definition lib_chdir :: "kernel_image \<Rightarrow> u32 \<Rightarrow> int" where "lib_chdir at path = sint (syscall1 at SYS_chdir path)"

definition lib_getcwd :: "kernel_image \<Rightarrow> u32 \<Rightarrow> u32 \<Rightarrow> u32" where "lib_getcwd at buf sz = syscall2 at SYS_getcwd buf sz"

definition lib_brk :: "kernel_image \<Rightarrow> u32 \<Rightarrow> int" where "lib_brk at addr = sint (syscall1 at SYS_brk addr)"

definition lib_clock_gettime :: "kernel_image \<Rightarrow> int \<Rightarrow> u32 \<Rightarrow> int" where
  "lib_clock_gettime at clk_id tp = sint (syscall2 at SYS_clock_gettime (word_of_int clk_id) tp)"

subsection \<open>The kernel's side\<close>

text \<open>What is at an address of the caller.\<close>

record objects =
  o_chars :: "u32 \<Rightarrow> char list"
  o_dents :: "u32 \<Rightarrow> dirent list"
  o_stat :: "u32 \<Rightarrow> stat"
  o_time :: "u32 \<Rightarrow> timespec"

definition ptr :: "(u32 \<Rightarrow> 'a) \<Rightarrow> u32 \<Rightarrow> 'a option" where
  "ptr ob p = (if p = 0 then None else Some (ob p))"

text \<open>The arguments the cases of the switch take from \<open>nr\<close> and \<open>a1\<close> to \<open>a3\<close>.\<close>

definition decode_call :: "objects \<Rightarrow> u32 \<Rightarrow> u32 \<Rightarrow> u32 \<Rightarrow> u32 \<Rightarrow> u32 \<Rightarrow> syscall" where
  "decode_call ob nr a1 a2 a3 a4 =
     (if nr = SYS_write then SysWrite (sint a1) (ptr (o_chars ob) a2) a3
      else if nr = SYS_read then SysRead (sint a1) (ptr (o_chars ob) a2) a3
      else if nr = SYS_open then SysOpen (ptr (o_chars ob) a1) (sint a2) (sint a3)
      else if nr = SYS_close then SysClose (sint a1)
      else if nr = SYS_getdents then SysGetdents (sint a1) (ptr (o_dents ob) a2) a3
      else if nr = SYS_fstat then SysFstat (sint a1) (ptr (o_stat ob) a2)
      else if nr = SYS_fork then SysFork
      else if nr = SYS_execve then SysExecve (o_chars ob a1) a2 a3
      else if nr = SYS_exit then SysExit (sint a1)
      else if nr = SYS_kill then SysKill (sint a1) (sint a2)
      else if nr = SYS_waitpid then SysWaitpid (sint a1) (sint a3)
      else if nr = SYS_getpid then SysGetpid
      else if nr = SYS_sched_yield then SysSchedYield
      else if nr = SYS_nice then SysNice
      else if nr = SYS_brk then SysBrk a1
      else if nr = SYS_chdir then SysChdir (ptr (o_chars ob) a1)
      else if nr = SYS_getcwd then SysGetcwd (ptr (o_chars ob) a1) a2
      else if nr = SYS_clock_gettime then SysClockGettime (sint a1) (ptr (o_time ob) a2)
      else if nr = SYS_setctty then SysSetctty (sint a1)
      else SysOther nr)"

text \<open>The entry code, which calls the dispatcher with the five registers; \<open>answer\<close> is what that returns.\<close>

definition enter_with :: "objects \<Rightarrow> (syscall \<Rightarrow> u32) \<Rightarrow> entry" where
  "enter_with ob answer r = answer (decode_call ob (r_eax r) (r_ebx r) (r_ecx r) (r_edx r) (r_esi r))"

text \<open>The registers of a call, and what arrives.\<close>

lemmas syscall_defs = syscall0_def syscall1_def syscall2_def syscall3_def syscall4_def

lemmas lib_defs = lib_write_def lib_read_def lib_getpid_def lib_sched_yield_def lib_exit_def lib_kill_def lib_nice_def lib_setctty_def
  lib_waitpid_def lib_fork_def lib_execve_def lib_open_def lib_close_def lib_getdents_def lib_fstat_def lib_chdir_def lib_getcwd_def
  lib_brk_def lib_clock_gettime_def

definition kernel_at :: "objects \<Rightarrow> (syscall \<Rightarrow> u32) \<Rightarrow> kernel_image" where
  "kernel_at ob answer a = \<lparr> sys_enter = enter_with ob answer \<rparr>"

lemma sys_enter_kernel_at [simp]: "sys_enter_fn (kernel_at ob answer) r =
    answer (decode_call ob (r_eax r) (r_ebx r) (r_ecx r) (r_edx r) (r_esi r))"
  by (simp add: sys_enter_fn_def kernel_at_def enter_with_def)

text \<open>The number the dispatcher switches on is the number of the decoded call, whatever was in \<open>eax\<close>.\<close>

lemma syscall_nr_decode: "syscall_nr (decode_call ob nr a1 a2 a3 a4) = nr"
  by (simp add: decode_call_def syscall_nr_def SYS_defs)

text \<open>Each wrapper of the library is the call it stands for, with its arguments as they were given.\<close>

lemma wrappers_reach_the_file_calls:
  "lib_write (kernel_at ob answer) (sint fd) p n = sint (answer (SysWrite (sint fd) (ptr (o_chars ob) p) n))"
  "lib_read (kernel_at ob answer) (sint fd) p n = sint (answer (SysRead (sint fd) (ptr (o_chars ob) p) n))"
  "lib_open (kernel_at ob answer) p (sint fl) (sint md) = sint (answer (SysOpen (ptr (o_chars ob) p) (sint fl) (sint md)))"
  "lib_close (kernel_at ob answer) (sint fd) = sint (answer (SysClose (sint fd)))"
  "lib_getdents (kernel_at ob answer) (sint fd) p n = sint (answer (SysGetdents (sint fd) (ptr (o_dents ob) p) n))"
  "lib_fstat (kernel_at ob answer) (sint fd) p = sint (answer (SysFstat (sint fd) (ptr (o_stat ob) p)))"
  "lib_chdir (kernel_at ob answer) p = sint (answer (SysChdir (ptr (o_chars ob) p)))"
  "lib_getcwd (kernel_at ob answer) p n = answer (SysGetcwd (ptr (o_chars ob) p) n)"
  for fd :: u32 and fl :: u32 and md :: u32
  by (simp_all add: lib_defs syscall_defs decode_call_def SYS_defs)

lemma wrappers_reach_the_process_calls:
  "lib_fork (kernel_at ob answer) = sint (answer SysFork)"
  "lib_execve (kernel_at ob answer) p av ev = sint (answer (SysExecve (o_chars ob p) av ev))"
  "lib_exit (kernel_at ob answer) (sint st) = answer (SysExit (sint st))"
  "lib_kill (kernel_at ob answer) (sint pid) (sint sg) = sint (answer (SysKill (sint pid) (sint sg)))"
  "lib_waitpid (kernel_at ob answer) (sint pid) p (sint opts) = sint (answer (SysWaitpid (sint pid) (sint opts)))"
  "lib_getpid (kernel_at ob answer) = sint (answer SysGetpid)"
  "lib_sched_yield (kernel_at ob answer) = answer SysSchedYield"
  "lib_nice (kernel_at ob answer) inc = sint (answer SysNice)"
  "lib_brk (kernel_at ob answer) p = sint (answer (SysBrk p))"
  "lib_clock_gettime (kernel_at ob answer) (sint clk) p = sint (answer (SysClockGettime (sint clk) (ptr (o_time ob) p)))"
  "lib_setctty (kernel_at ob answer) (sint i) = sint (answer (SysSetctty (sint i)))"
  for st :: u32 and pid :: u32 and sg :: u32 and opts :: u32 and clk :: u32 and i :: u32
  by (simp_all add: lib_defs syscall_defs decode_call_def SYS_defs)

text \<open>A call with five or six arguments never reaches the kernel.\<close>

lemma syscall5_refused: "sint (syscall5 nr a1 a2 a3 a4 a5) = - ENOSYS" "sint (syscall6 nr a1 a2 a3 a4 a5 a6) = - ENOSYS"
  by (simp_all add: syscall5_def syscall6_def ENOSYS_def)

end
