(* ===== verification/Spec2Isabelle.thy ===== *)
theory Spec2Isabelle
  imports Prelude Kstring Knum Fifo Task RunQueue TaskTable WaitQueue Path FileTable Mount Console Keyboard
    Kernel Dev Sched Tty Fs ProcFs Clock Vfs Exec Process Preempt Syscall Boot OpenFiles Mm Family
    Vesa Irq Links Format Report Libc Shell ShellMain ShellVars ShellParse ShellSafe Programs Tools Lister ProgSafe
    Loader Keeps Moves Machine Races BootInv BootRuns Abi
begin

text \<open>
  PUnix is a small Unix-like kernel for 32-bit x86 in C, with a C library, a shell and the usual
  small programs. This library models the C sources and proves what makes them correct.

  \<^bold>\<open>The program.\<close> \<open>kmain\<close> (kernel/core/kernel.c) initialises the console, the clock, the interrupt
  table, paging, the devices, the mounts, the terminals and the scheduler, creates the init program and
  switches to it. Tasks (kernel/core/sched.c) live in a table of 64 slots (task_table.c), run in turn from
  the run queue, and sleep in wait queues (wait.c): in those of a child's or their own end and in those
  of the terminals' readers (tty.c). A program enters the kernel with a system call (syscall.c), which works on
  processes, on open files (fs/vfs.c over the root, bin, dev, proc and sys file systems) or on the clock.
  The keyboard interrupt (arch/x86/keyboard.c) feeds the active terminal, whose output the console driver
  (console_vga.c) shows. Each task has an address space with one region of a megabyte (arch/x86/mm.c), into
  which programs are loaded from ELF images linked into the kernel (elf_loader.c). init starts a
  shell (bin/sh.c) on every terminal; the shell forks and executes the other programs.

  \<^bold>\<open>Conventions\<close> (theory Prelude). C objects are lists with checked accesses, \<open>None\<close> or \<open>Inl BadAccess\<close>
  outside; signed arithmetic is checked, unsigned arithmetic is on words; a kernel operation returns
  \<open>fault + 'a\<close>. So \<open>f x = Inr y\<close> says that the code returns and leaves no object on the way.

  \<^bold>\<open>Which theory models what.\<close>
  \<^item> Kstring, Knum: \<open>k_mem*\<close>, \<open>k_str*\<close>, number conversions and 64-bit division of kernel/core/kutils.c;
    Format: \<open>k_vsnprintf\<close> and the library's \<open>vsnprintf\<close>, both interpretations of the locale
    \<open>formatter\<close>, against the reference \<open>render\<close>.
  \<^item> Fifo: the locales \<open>fifo\<close>, \<open>ring\<close> and \<open>slot_allocator\<close> that the run queue, the terminal rings, the task
    table and the file table interpret. Links: the doubly linked list of include/kernel/dlist.h.
  \<^item> Task, RunQueue, TaskTable, WaitQueue: the data of sched.c, task_table.c and wait.c, each with its
    representation relation to lists. Kernel: the static variables of the kernel as one record.
  \<^item> Sched: switching tasks and the invariant \<open>sched_inv\<close> (every task is where its state says, in one
    place). Exec: the ELF loader and program start. Process: creation, fork, execve, kill, exit, waitpid.
    Family: the tree of tasks and the invariant \<open>proc_inv\<close>, kept by fork, exit and reaping.
  \<^item> Mm: page directories, page tables, the pool they come from, address translation and the copy
    window of arch/x86/mm.c.
  \<^item> Path, FileTable, Mount, Fs, ProcFs, Dev, Vfs, OpenFiles: paths, the table of open files, mounts, the
    file systems, the descriptor operations, and the ownership invariant \<open>fs_own\<close> of open files.
  \<^item> Console, Vesa: the two console drivers. Keyboard, Tty: from scancodes to a reader. Clock: the clock, with
    the two loops that wait for the hardware. Irq: the interrupt table, the masks and the interrupt flag. Report:
    \<open>kprintf\<close>, \<open>panic\<close>, which ends in its endless \<open>hlt\<close> loop, and the page fault report with the stack its stub builds.
  \<^item> Preempt: the code that shares queues with the keyboard interrupt, statement by statement, with
    the interrupts that arrive between two statements (\<open>cuts\<close>).
  \<^item> Syscall: the dispatcher and the machine. A task that calls \<open>sched_schedule\<close> leaves a continuation
    (\<open>cont\<close>), a step (\<open>mstep\<close>) is what runs between two such calls, and a keyboard interrupt is a step of its own or
    arrives inside a step, at a point of Preempt. Boot: \<open>kmain\<close>, all of its calls in their order.
  \<^item> Loader: what elf_loader.c and the argument code put into a program's memory.
  \<^item> Keeps, Moves, Machine: one invariant over the whole kernel. \<open>keeps\<close> says that an operation leaves
    scheduler, table and families alone (files, terminals, loading, brk); \<open>kinv\<close> is what every other
    operation preserves; \<open>machine_inv\<close> adds that each live task has a continuation that fits its
    queue and that the condition a queued task waits for is false. Every step of \<open>mstep\<close> keeps it if
    the event is \<open>calm\<close>: no signal to a sleeping task (Family shows what one does), no sleep,
    exit or \<open>execve\<close> by the swapper, whose program does none, and no interrupt inside \<open>wait_event\<close> or
    \<open>sched_schedule\<close>. Races shows for two of these points that the invariant does not survive an interrupt there. In its states the events called
    \<open>harmless\<close> cannot panic: all but reads, writes, opens and program loading, whose arguments decide.
    BootInv, BootRuns: \<open>kmain\<close> establishes it, and comes to its end for well-formed programs and hardware
    that answers, with page tables set up and interrupts on.
  \<^item> Libc: strings, \<open>printf\<close> and system-call wrappers, and programs as trees of system calls (\<open>prog\<close>);
    \<open>safe Q p\<close> says that \<open>p\<close> stays inside its objects, passes the kernel no length beyond an object and
    only terminated strings (\<open>passes\<close>), and ends in \<open>Q\<close>, whatever a kernel that keeps the contract \<open>admissible\<close>
    answers. The contract is assumed of the kernel; \<open>read_proc_stat\<close> of fs/proc_fs.c can break it.
  \<^item> Abi: the registers of a system call (arch/x86/include/syscall_arch.h), the library's wrappers that load them
    and the dispatcher's reading of them; each wrapper is the call it stands for.
  \<^item> Shell, ShellMain: bin/sh.c. ShellVars, ShellParse: what its variables, environment, expansion,
    word splitting and history mean. ShellSafe: it keeps its invariant \<open>cli_ok\<close> and stays inside its buffers.
  \<^item> Programs, Tools, Lister: the other programs of bin. ProgSafe: they stay inside their objects.

  \<^bold>\<open>What the lemmas show.\<close> Each data structure refines lists or maps; each operation keeps its
  component's invariant and is described on every branch; the loops over linked structures end within
  their fuel; text conversions and calendar dates are inverse; optimised routines equal their
  references; the machine as a whole keeps its invariant from boot on, loses no wakeup and does not
  stop, as long as its events are calm. Where the code is wrong, the theorem states what it does: a key that
  arrives inside \<open>wait_event\<close> is not noticed, one inside \<open>run_queue_push\<close> loses a task, the last task slot has no
  memory, the page fault report shows other registers than it says, a second signal corrupts the run queue, an escape parameter overflows, the last process
  of a chain is refused.

  \<^bold>\<open>Bounds and fuel.\<close> \<open>WAKE_FUEL\<close> and \<open>CHILD_FUEL\<close> exceed the number of tasks, so running out of them is
  a list that does not end (\<open>Diverge\<close>, excluded by the invariants). \<open>REGION_FUEL\<close> is the size of a process
  region and one, more than any string in it. The loops of paging take one step per page of their length.
  \<open>DENTS_FUEL\<close> batches of directory entries are more than the kernel ever gives. Reading loops of
  programs take a number of rounds and end in \<open>Hang\<close>; the theorems hold for every number.
  \<open>render\<close> needs one unit of fuel per character of the format. The loops that wait for a register are
  partial functions over the stream of its values: they end if the value waited for comes (\<open>good_hw\<close>).

  \<^bold>\<open>Interrupts.\<close> After boot the code runs with interrupts on: \<open>irq_disable\<close> and \<open>irq_restore\<close> have no
  callers, \<open>cli\<close> is executed by \<open>ctx_switch\<close> and \<open>mm_activate\<close> only, both turn interrupts on again, and the gates keep
  them off in the handler itself. The model has keyboard interrupts before every step, between the test in \<open>wait_event\<close> and
  the insertion in the queue, inside \<open>wait_queue_add\<close>, \<open>run_queue_poll\<close> and \<open>run_queue_push\<close> as \<open>sched_schedule\<close> calls
  them, and before the switch. It has none inside the other code of a system call (\<open>fork\<close>, \<open>exit\<close>, \<open>kill\<close> and \<open>execve\<close>, which
  push and wake too, and the code of files, terminals and consoles) nor during boot, when no key is taken to be pressed: the
  theorems on the machine say nothing of interrupts there.

  \<^bold>\<open>Not modelled.\<close> Assembly and the boot loader: the switch of stacks is the choice of the next
  continuation; the stub of an exception and the switch's effect on the interrupt flag and the address space are. Register
  reads (clock, keyboard, control registers) are arguments or streams of values; the embedded programs, the adapter's font and linker addresses are
  parameters. Floating point: a double that is printed is the exact integers the formatter computes
  from it. The saved registers of tasks, and cache effects other than \<open>invlpg\<close>. A program's access outside its region
  is a page fault, also where the kernel's memory is mapped and could be overwritten.
\<close>

end
